(* ===== verification/Prelude.thy ===== *)
theory Prelude
  imports Main "HOL-Library.AList" "HOL-Library.Multiset"
begin

text \<open>
  What the component theories share: the names of the machine-level types, the collections
  of rewrite rules the component proofs are run with, and facts on lists that more than one
  component needs.
\<close>

named_theorems picker_upd \<open>how an update of the piece picker shows in its fields\<close>

named_theorems queue_simps \<open>the operations of the queues between Java and the session\<close>

section \<open>Types\<close>

text \<open>A pointer to an object that the code only passes on or compares: \<open>None\<close> is the null pointer.\<close>

type_synonym ptr = "nat option"

section \<open>Association lists\<close>

lemma map_of_AList_update [simp]: "map_of (AList.update k v al) = (map_of al)(k \<mapsto> v)"
  by (rule update_conv')

lemma map_of_AList_delete [simp]: "map_of (AList.delete k al) = (map_of al)(k := None)"
  by (rule delete_conv')

lemma pair_snd_image: "(k, v) \<in> set al \<Longrightarrow> v \<in> snd ` set al"
  by force

lemma map_of_snd_image: "map_of al k = Some v \<Longrightarrow> v \<in> snd ` set al"
  by (auto dest: map_of_SomeD intro: pair_snd_image)

section \<open>Lists\<close>

lemma nth_list_update_if:
  "i < length xs \<Longrightarrow> xs[i := v] ! j = (if j = i then v else xs ! j)"
  by simp

lemma last_conv_nth_length: "xs \<noteq> [] \<Longrightarrow> last xs = xs ! (length xs - 1)"
  by (rule last_conv_nth)

end
