(* ===== verification/Piece_Data_Queue.thy ===== *)
theory Piece_Data_Queue
  imports Prelude
begin

text \<open>
  The queue through which read pieces travel from the session's alerts to the Java readers:
  class \<open>piece_data_queue\<close> of \<open>jni/piecedataqueue.cpp\<close>. \<open>queue\<close> maps a piece to the
  alert that carries its data, \<open>piece_flag\<close> counts how many readers have asked for it. The
  alerts are heap objects and are named by their address. The class holds its mutex for the
  whole of every operation, so each operation is one step.
\<close>

section \<open>The class\<close>

record piece_data_queue =
  queue :: "(int \<times> nat) list"
  piece_flag :: "(int \<times> int) list"

definition empty_piece_queue :: piece_data_queue where
  "empty_piece_queue = \<lparr>queue = [], piece_flag = []\<rparr>"

text \<open>\<open>set_read\<close>: the result says whether the caller has to ask the session for the piece.\<close>

definition set_read :: "int \<Rightarrow> piece_data_queue \<Rightarrow> bool \<times> piece_data_queue" where
  "set_read p q =
     (case map_of (piece_flag q) p of
        Some c \<Rightarrow> (False, q\<lparr>piece_flag := AList.update p (c + 1) (piece_flag q)\<rparr>)
      | None \<Rightarrow> (True, q\<lparr>piece_flag := AList.update p 1 (piece_flag q)\<rparr>))"

text \<open>\<open>push\<close>: the result is the alert that the new one replaces; the caller deletes it.\<close>

definition push_piece :: "int \<Rightarrow> nat \<Rightarrow> piece_data_queue \<Rightarrow> ptr \<times> piece_data_queue" where
  "push_piece p alrt q =
     (map_of (queue q) p, q\<lparr>queue := AList.update p alrt (queue q)\<rparr>)"

text \<open>\<open>pop\<close>: the alert (null if there is none) and the flag \<open>is_remove\<close>.\<close>

definition pop_piece :: "int \<Rightarrow> piece_data_queue \<Rightarrow> ptr \<times> bool \<times> piece_data_queue" where
  "pop_piece p q =
     (case map_of (queue q) p of
        None \<Rightarrow> (None, False, q)
      | Some result \<Rightarrow>
          (case map_of (piece_flag q) p of
             None \<Rightarrow> (Some result, False, q)
           | Some c \<Rightarrow>
               if c = 1 then
                 (Some result, True,
                  q\<lparr>piece_flag := AList.delete p (piece_flag q),
                    queue := AList.delete p (queue q)\<rparr>)
               else (Some result, False, q\<lparr>piece_flag := AList.update p (c - 1) (piece_flag q)\<rparr>)))"

text \<open>\<open>clear\<close>: the alerts it deletes, in the order of the loop, and the emptied queue.\<close>

definition clear_pieces :: "piece_data_queue \<Rightarrow> nat list \<times> piece_data_queue" where
  "clear_pieces q = (map snd (queue q), q\<lparr>queue := [], piece_flag := []\<rparr>)"

section \<open>Reference counting\<close>

fun set_read_n :: "nat \<Rightarrow> int \<Rightarrow> piece_data_queue \<Rightarrow> bool list \<times> piece_data_queue" where
  "set_read_n 0 p q = ([], q)"
| "set_read_n (Suc n) p q =
     (let (b, q1) = set_read p q; (bs, q2) = set_read_n n p q1 in (b # bs, q2))"

fun pop_n :: "nat \<Rightarrow> int \<Rightarrow> piece_data_queue \<Rightarrow> (ptr \<times> bool) list \<times> piece_data_queue" where
  "pop_n 0 p q = ([], q)"
| "pop_n (Suc n) p q =
     (let (a, r, q1) = pop_piece p q; (rs, q2) = pop_n n p q1 in ((a, r) # rs, q2))"

lemma set_read_n_flag:
  "map_of (piece_flag q) p = Some c \<Longrightarrow>
     fst (set_read_n n p q) = replicate n False
   \<and> map_of (piece_flag (snd (set_read_n n p q))) = (map_of (piece_flag q))(p \<mapsto> c + int n)
   \<and> queue (snd (set_read_n n p q)) = queue q"
proof (induction n arbitrary: q c)
  case 0
  then show ?case by (simp add: fun_upd_idem)
next
  case (Suc n)
  define q1 where "q1 = q\<lparr>piece_flag := AList.update p (c + 1) (piece_flag q)\<rparr>"
  have step: "set_read_n (Suc n) p q = (False # fst (set_read_n n p q1), snd (set_read_n n p q1))"
    using Suc.prems by (simp add: set_read_def q1_def split_beta)
  have "map_of (piece_flag q1) p = Some (c + 1)" by (simp add: q1_def)
  from Suc.IH [OF this] show ?case unfolding step by (auto simp: q1_def algebra_simps fun_eq_iff)
qed

lemma pop_n_counts:
  "map_of (piece_flag q) p = Some (int (Suc n)) \<Longrightarrow> map_of (queue q) p = Some a \<Longrightarrow>
     fst (pop_n (Suc n) p q) = replicate n (Some a, False) @ [(Some a, True)]
   \<and> map_of (queue (snd (pop_n (Suc n) p q))) = (map_of (queue q))(p := None)
   \<and> map_of (piece_flag (snd (pop_n (Suc n) p q))) = (map_of (piece_flag q))(p := None)"
proof (induction n arbitrary: q)
  case 0
  then show ?case by (simp add: pop_piece_def)
next
  case (Suc n)
  define q1 where "q1 = q\<lparr>piece_flag := AList.update p (int (Suc n)) (piece_flag q)\<rparr>"
  have step: "pop_n (Suc (Suc n)) p q =
      ((Some a, False) # fst (pop_n (Suc n) p q1), snd (pop_n (Suc n) p q1))"
    using Suc.prems
    by (subst pop_n.simps) (simp add: pop_piece_def q1_def split_beta del: pop_n.simps)
  have "map_of (piece_flag q1) p = Some (int (Suc n))" "map_of (queue q1) p = Some a"
    using Suc.prems by (simp_all add: q1_def)
  from Suc.IH [OF this] show ?case
    unfolding step by (auto simp: q1_def fun_eq_iff simp del: pop_n.simps)
qed

text \<open>
  C21. A piece that nobody has asked for and that is not queued: of \<open>n + 1\<close> readers that ask
  for it, only the first is told to request it from the session; once its alert is pushed,
  every reader gets that alert, only the last one is told to delete it, and afterwards the
  queue and the flags are as they were before.
\<close>

theorem piece_queue_refcount:
  assumes "map_of (piece_flag q) p = None" and "map_of (queue q) p = None"
  shows "let (news, q1) = set_read_n (Suc n) p q;
             (old, q2) = push_piece p a q1;
             (reads, q3) = pop_n (Suc n) p q2
         in news = True # replicate n False
          \<and> old = None
          \<and> reads = replicate n (Some a, False) @ [(Some a, True)]
          \<and> map_of (queue q3) = map_of (queue q)
          \<and> map_of (piece_flag q3) = map_of (piece_flag q)"
proof -
  define q0 where "q0 = q\<lparr>piece_flag := AList.update p 1 (piece_flag q)\<rparr>"
  have news: "set_read_n (Suc n) p q = (True # fst (set_read_n n p q0), snd (set_read_n n p q0))"
    using assms by (simp add: set_read_def q0_def split_beta)
  have q0: "map_of (piece_flag q0) p = Some 1" "queue q0 = queue q"
    by (simp_all add: q0_def)
  note reg = set_read_n_flag [OF q0(1), of n]
  define q2 where "q2 = snd (push_piece p a (snd (set_read_n n p q0)))"
  have q2: "map_of (piece_flag q2) p = Some (int (Suc n))" "map_of (queue q2) p = Some a"
    using reg by (simp_all add: q2_def push_piece_def)
  have fin: "map_of (queue q2) = (map_of (queue q))(p \<mapsto> a)"
    "map_of (piece_flag q2) = (map_of (piece_flag q))(p \<mapsto> 1 + int n)"
    using reg q0(2) by (auto simp: q2_def q0_def push_piece_def fun_eq_iff)
  have push: "push_piece p a (snd (set_read_n n p q0)) = (None, q2)"
    using reg assms q0(2) by (simp add: q2_def push_piece_def)
  show ?thesis
    using pop_n_counts [OF q2] reg assms fin
    by (auto simp: news push split_beta Let_def fun_eq_iff simp del: set_read_n.simps pop_n.simps)
qed

theorem piece_queue_refcount_witness:
  "let (news, q1) = set_read_n 3 5 empty_piece_queue;
       (old, q2) = push_piece 5 9 q1;
       (reads, q3) = pop_n 3 5 q2
   in map_of (piece_flag empty_piece_queue) 5 = None \<and> map_of (queue empty_piece_queue) 5 = None
    \<and> news = [True, False, False] \<and> old = None
    \<and> reads = [(Some 9, False), (Some 9, False), (Some 9, True)]
    \<and> map_of (queue q3) = Map.empty \<and> map_of (piece_flag q3) = Map.empty"
proof -
  have "map_of (piece_flag empty_piece_queue) 5 = None" "map_of (queue empty_piece_queue) 5 = None"
    by (simp_all add: empty_piece_queue_def)
  from piece_queue_refcount [OF this, of 2 9] show ?thesis
    by (simp add: numeral_eq_Suc empty_piece_queue_def split_beta Let_def
        del: set_read_n.simps pop_n.simps)
qed

section \<open>Readers that run one after the other\<close>

text \<open>
  The calls that reach one torrent's queue: \<open>setTorrentReadPiece\<close> (its \<open>set_read\<close>),
  the \<open>read_piece_alert\<close> branch of the alert handler, which clones the alert into a new
  heap object, pushes it and deletes the one it replaces, and \<open>readTorrentPiece\<close>, which
  pops, copies from the alert and deletes it when told to. \<open>live\<close> is the set of allocated
  alerts; \<open>bad\<close> records a copy from, or a deletion of, an alert that is not allocated.
\<close>

record piece_readers =
  pqs :: piece_data_queue
  live :: "nat set"
  bad :: bool

datatype reader_call = SetRead int | Alert int nat | Read int "(int \<times> nat) list" | Clear

definition delete_alert :: "ptr \<Rightarrow> piece_readers \<Rightarrow> piece_readers" where
  "delete_alert a s =
     (case a of None \<Rightarrow> s
      | Some x \<Rightarrow> s\<lparr>bad := bad s \<or> x \<notin> live s, live := live s - {x}\<rparr>)"

definition copy_alert :: "nat \<Rightarrow> piece_readers \<Rightarrow> piece_readers" where
  "copy_alert a s = s\<lparr>bad := bad s \<or> a \<notin> live s\<rparr>"

definition read_piece_alert_handler :: "int \<Rightarrow> nat \<Rightarrow> piece_readers \<Rightarrow> piece_readers" where
  "read_piece_alert_handler p a s =
     (let (old, q) = push_piece p a (pqs s)
      in delete_alert old (s\<lparr>pqs := q, live := insert a (live s)\<rparr>))"

text \<open>
  The handler runs on a fresh clone: an address that is already allocated cannot be the
  result of \<open>clone\<close>, and such a call is no call.
\<close>

definition handle_read_alert :: "int \<times> nat \<Rightarrow> piece_readers \<Rightarrow> piece_readers" where
  "handle_read_alert pa s =
     (if snd pa \<in> live s then s else read_piece_alert_handler (fst pa) (snd pa) s)"

text \<open>
  \<open>readTorrentPiece\<close>: with no alert for the piece it drains the session's alerts through
  the handler (\<open>alerts\<close> are the read-piece alerts among them) and returns; otherwise it
  copies, and deletes the alert if \<open>is_remove\<close> says so.
\<close>

definition readTorrentPiece :: "int \<Rightarrow> (int \<times> nat) list \<Rightarrow> piece_readers \<Rightarrow> piece_readers" where
  "readTorrentPiece p alerts s =
     (case pop_piece p (pqs s) of
        (None, _, q) \<Rightarrow> fold handle_read_alert alerts (s\<lparr>pqs := q\<rparr>)
      | (Some a, is_remove, q) \<Rightarrow>
          (let s1 = copy_alert a (s\<lparr>pqs := q\<rparr>)
           in if is_remove then delete_alert (Some a) s1 else s1))"

fun reader_call_step :: "reader_call \<Rightarrow> piece_readers \<Rightarrow> piece_readers" where
  "reader_call_step (SetRead p) s = s\<lparr>pqs := snd (set_read p (pqs s))\<rparr>"
| "reader_call_step (Alert p a) s = handle_read_alert (p, a) s"
| "reader_call_step (Read p alerts) s = readTorrentPiece p alerts s"
| "reader_call_step Clear s =
     (let (dead, q) = clear_pieces (pqs s)
      in fold (\<lambda>a. delete_alert (Some a)) dead (s\<lparr>pqs := q\<rparr>))"

definition initial_readers :: piece_readers where
  "initial_readers = \<lparr>pqs = empty_piece_queue, live = {}, bad = False\<rparr>"

text \<open>The queue owns exactly the allocated alerts, each once.\<close>

definition readers_inv :: "piece_readers \<Rightarrow> bool" where
  "readers_inv s \<longleftrightarrow> \<not> bad s \<and> distinct (map fst (queue (pqs s)))
     \<and> distinct (map snd (queue (pqs s))) \<and> live s = snd ` set (queue (pqs s))"

lemma alist_update_values:
  "distinct (map fst al) \<Longrightarrow> distinct (map snd al) \<Longrightarrow> v \<notin> snd ` set al \<Longrightarrow>
     distinct (map snd (AList.update k v al))
   \<and> snd ` set (AList.update k v al) = insert v (snd ` set al - set_option (map_of al k))"
  by (induction al) (auto dest!: map_of_snd_image)

lemma alist_delete_values:
  "distinct (map fst al) \<Longrightarrow> distinct (map snd al) \<Longrightarrow>
     distinct (map snd (AList.delete k al))
   \<and> snd ` set (AList.delete k al) = snd ` set al - set_option (map_of al k)"
  proof (induction al)
  case Nil
  then show ?case by simp
next
  case (Cons x al)
  show ?case
  proof (cases "fst x = k")
    case True
    with Cons.prems have "map_of al k = None" "AList.delete k al = al"
      by (auto simp: map_of_eq_None_iff intro: delete_idem)
    with True Cons.prems show ?thesis by (cases x) auto
  next
    case False
    with Cons show ?thesis by (cases x) (auto dest!: map_of_snd_image)
  qed
qed

lemma fold_delete_alert:
  "distinct xs \<Longrightarrow> set xs \<subseteq> live s \<Longrightarrow>
     fold (\<lambda>a. delete_alert (Some a)) xs s = s\<lparr>live := live s - set xs\<rparr>"
proof (induction xs arbitrary: s)
  case Nil
  then show ?case by simp
next
  case (Cons x xs)
  then have "fold (\<lambda>a. delete_alert (Some a)) xs (delete_alert (Some x) s)
      = (delete_alert (Some x) s)\<lparr>live := live (delete_alert (Some x) s) - set xs\<rparr>"
    by (intro Cons.IH) (auto simp: delete_alert_def)
  moreover from Cons.prems have "delete_alert (Some x) s = s\<lparr>live := live s - {x}\<rparr>"
    by (simp add: delete_alert_def)
  moreover have "live s - {x} - set xs = live s - set (x # xs)" by auto
  ultimately show ?case by simp
qed

lemma readers_inv_initial: "readers_inv initial_readers"
  by (simp add: readers_inv_def initial_readers_def empty_piece_queue_def)

lemma readers_inv_alert:
  assumes "readers_inv s"
  shows "readers_inv (handle_read_alert (p, a) s)"
  using assms alist_update_values [of "queue (pqs s)" a p]
  by (cases "map_of (queue (pqs s)) p")
     (auto simp: readers_inv_def handle_read_alert_def read_piece_alert_handler_def push_piece_def
       delete_alert_def distinct_update dest: pair_snd_image map_of_snd_image)

lemma readers_inv_alerts: "readers_inv s \<Longrightarrow> readers_inv (fold handle_read_alert as s)"
  by (induction as arbitrary: s) (auto simp: readers_inv_alert)

lemma readers_inv_step:
  assumes "readers_inv s"
  shows "readers_inv (reader_call_step c s)"
proof (cases c)
  case (SetRead p)
  with assms show ?thesis
    by (auto simp: readers_inv_def set_read_def split: option.splits)
next
  case (Alert p a)
  with assms show ?thesis by (simp add: readers_inv_alert)
next
  case (Read p alerts)
  show ?thesis
  proof (cases "map_of (queue (pqs s)) p")
    case None
    with Read assms show ?thesis by (simp add: readTorrentPiece_def pop_piece_def readers_inv_alerts)
  next
    case (Some a)
    with Read assms alist_delete_values [of "queue (pqs s)" p] show ?thesis
      by (auto simp: readers_inv_def readTorrentPiece_def pop_piece_def delete_alert_def
          copy_alert_def distinct_delete
          dest: pair_snd_image map_of_snd_image split: option.splits if_splits)
  qed
next
  case Clear
  with assms show ?thesis
    by (simp add: readers_inv_def clear_pieces_def fold_delete_alert)
qed

lemma readers_inv_run: "readers_inv s \<Longrightarrow> readers_inv (fold reader_call_step cs s)"
  by (induction cs arbitrary: s) (simp_all add: readers_inv_step)

text \<open>
  C22. When the calls on a torrent's piece queue do not overlap, no call copies from or
  deletes an alert that is not allocated, and the allocated alerts are always exactly those
  in the queue: nothing leaks and nothing is freed twice.
\<close>

theorem sequential_readers_safe:
  "let s = fold reader_call_step cs initial_readers
   in \<not> bad s \<and> live s = ran (map_of (queue (pqs s)))"
proof -
  have "readers_inv (fold reader_call_step cs initial_readers)"
    by (rule readers_inv_run [OF readers_inv_initial])
  then show ?thesis
    by (simp add: readers_inv_def Let_def ran_distinct)
qed

section \<open>Readers that overlap\<close>

text \<open>
  \<open>readTorrentPiece\<close> holds \<open>gAccess\<close> shared, and the queue's mutex only inside
  \<open>pop\<close>: between its \<open>pop\<close> and its copy another reader and the alert thread may run.
  \<open>held\<close> is what each reader thread has popped and not yet copied. Only the steps a reader
  takes without the mutex are separated.
\<close>

record overlapping_readers = piece_readers +
  held :: "nat \<rightharpoonup> nat \<times> bool"

definition initial_overlap :: overlapping_readers where
  "initial_overlap =
     \<lparr>pqs = empty_piece_queue, live = {}, bad = False, held = Map.empty\<rparr>"

definition overlap_delete :: "nat \<Rightarrow> overlapping_readers \<Rightarrow> overlapping_readers" where
  "overlap_delete a s = s\<lparr>bad := bad s \<or> a \<notin> live s, live := live s - {a}\<rparr>"

inductive overlap_step :: "overlapping_readers \<Rightarrow> overlapping_readers \<Rightarrow> bool" where
  ov_set_read: "set_read p (pqs s) = (b, q) \<Longrightarrow> overlap_step s (s\<lparr>pqs := q\<rparr>)"
| ov_push_new: "a \<notin> live s \<Longrightarrow> push_piece p a (pqs s) = (None, q) \<Longrightarrow>
     overlap_step s (s\<lparr>pqs := q, live := insert a (live s)\<rparr>)"
| ov_push_old: "a \<notin> live s \<Longrightarrow> push_piece p a (pqs s) = (Some old, q) \<Longrightarrow>
     overlap_step s (overlap_delete old (s\<lparr>pqs := q, live := insert a (live s)\<rparr>))"
| ov_pop: "held s t = None \<Longrightarrow> pop_piece p (pqs s) = (Some a, r, q) \<Longrightarrow>
     overlap_step s (s\<lparr>pqs := q, held := (held s)(t \<mapsto> (a, r))\<rparr>)"
| ov_copy: "held s t = Some (a, False) \<Longrightarrow>
     overlap_step s (s\<lparr>bad := bad s \<or> a \<notin> live s, held := (held s)(t := None)\<rparr>)"
| ov_copy_delete: "held s t = Some (a, True) \<Longrightarrow>
     overlap_step s (overlap_delete a (s\<lparr>bad := bad s \<or> a \<notin> live s, held := (held s)(t := None)\<rparr>))"

definition overlap_reachable :: "overlapping_readers \<Rightarrow> bool" where
  "overlap_reachable s = overlap_step\<^sup>*\<^sup>* initial_overlap s"

lemma overlap_reachable_step: "overlap_reachable s \<Longrightarrow> overlap_step s t \<Longrightarrow> overlap_reachable t"
  by (simp add: overlap_reachable_def)

text \<open>
  Two readers of one piece suffice for a read of freed memory: both ask for the piece,
  the first pops the alert and is told not to delete it, the second pops, copies and deletes
  it, and then the first copies from the deleted alert.
\<close>

theorem overlapping_readers_use_after_free: "\<exists>s. overlap_reachable s \<and> bad s"
proof -
  define s1 where "s1 = initial_overlap\<lparr>pqs := \<lparr>queue = [], piece_flag = [(0, 1)]\<rparr>\<rparr>"
  define s2 where "s2 = s1\<lparr>pqs := \<lparr>queue = [], piece_flag = [(0, 2)]\<rparr>\<rparr>"
  define s3 where "s3 = s2\<lparr>pqs := \<lparr>queue = [(0, 7)], piece_flag = [(0, 2)]\<rparr>, live := insert 7 (live s2)\<rparr>"
  define s4 where "s4 = s3\<lparr>pqs := \<lparr>queue = [(0, 7)], piece_flag = [(0, 1)]\<rparr>,
    held := (held s3)(1 \<mapsto> (7, False))\<rparr>"
  define s5 where "s5 = s4\<lparr>pqs := empty_piece_queue, held := (held s4)(2 \<mapsto> (7, True))\<rparr>"
  define s6 where "s6 = overlap_delete 7 (s5\<lparr>bad := bad s5 \<or> 7 \<notin> live s5, held := (held s5)(2 := None)\<rparr>)"
  define s7 where "s7 = s6\<lparr>bad := bad s6 \<or> 7 \<notin> live s6, held := (held s6)(1 := None)\<rparr>"
  note defs = s1_def s2_def s3_def s4_def s5_def s6_def initial_overlap_def empty_piece_queue_def
    overlap_delete_def
  have "overlap_reachable initial_overlap" by (simp add: overlap_reachable_def)
  then have "overlap_reachable s1" unfolding s1_def
    by (rule overlap_reachable_step) (rule ov_set_read [of 0 _ True], simp add: set_read_def defs)
  then have "overlap_reachable s2" unfolding s2_def
    by (rule overlap_reachable_step) (rule ov_set_read [of 0 _ False], simp add: set_read_def defs)
  then have "overlap_reachable s3" unfolding s3_def
    by (rule overlap_reachable_step) (rule ov_push_new [of _ _ 0], simp_all add: push_piece_def defs)
  then have "overlap_reachable s4" unfolding s4_def
    by (rule overlap_reachable_step) (rule ov_pop [of _ _ 0], simp_all add: pop_piece_def defs)
  then have "overlap_reachable s5" unfolding s5_def
    by (rule overlap_reachable_step) (rule ov_pop [of _ _ 0], simp_all add: pop_piece_def defs)
  then have "overlap_reachable s6" unfolding s6_def
    by (rule overlap_reachable_step) (rule ov_copy_delete, simp add: defs)
  then have "overlap_reachable s7" unfolding s7_def
    by (rule overlap_reachable_step) (rule ov_copy, simp add: defs)
  moreover have "bad s7" by (simp add: s7_def defs)
  ultimately show ?thesis by blast
qed

end
