(* ===== verification/Picker_Data.thy ===== *)
theory Picker_Data
  imports Prelude
begin

text \<open>
  The state of the piece picker (\<open>include/libtorrent/piece_picker.hpp\<close>), the priority a
  piece is filed under, the queries on blocks, and the class's own debug-mode
  \<open>check_invariant\<close>, which the other picker theories prove of every operation.

  Bit fields are natural numbers with their width written out where they are stored:
  \<open>peer_count\<close> has 10 bits, \<open>piece_priority\<close> 3, \<open>pp_index\<close> 18 and \<open>num_peers\<close> 14.
  Indices and sizes the code asserts to be non-negative are natural numbers; \<open>priority\<close>,
  which is -1 for a piece that must not be picked, is an integer, and so are the counters; those of
  an entry of the download queue have 16 bits, \<open>int16\<close> is what is stored of a value. A peer is a
  pointer that is stored and compared. \<open>dp_info\<close>, a pointer into \<open>m_block_info\<close>, is the
  offset of the block it points to.
\<close>

section \<open>Data\<close>

record piece_block =
  piece_index :: nat
  block_index :: nat

datatype block_state = state_none | state_requested | state_writing | state_finished

record block_info =
  peer :: ptr
  num_peers :: nat
  block_state :: block_state

datatype piece_state_t = none | slow | medium | fast

text \<open>\<open>boost::int16_t\<close>: what is left of a value that is stored in 16 bits.\<close>

definition int16 :: "int \<Rightarrow> int" where
  "int16 v = (v + 2 ^ 15) mod 2 ^ 16 - 2 ^ 15"

lemma int16_id: "- (2 ^ 15) \<le> v \<Longrightarrow> v < 2 ^ 15 \<Longrightarrow> int16 v = v"
  by (simp add: int16_def)

lemma int16_small [simp]: "int16 0 = 0" "int16 1 = 1"
  by (simp_all add: int16_def)

record downloading_piece =
  dp_state :: piece_state_t
  dp_index :: nat
  dp_info :: nat
  finished :: int
  writing :: int
  requested :: int

record piece_pos =
  peer_count :: nat
  downloading :: bool
  piece_priority :: nat
  pp_index :: nat

definition we_have_index :: nat where
  "we_have_index = 262143"

definition max_peer_count :: nat where
  "max_peer_count = 1023"

definition have_pos :: "piece_pos \<Rightarrow> bool" where
  "have_pos p \<longleftrightarrow> pp_index p = we_have_index"

definition filtered :: "piece_pos \<Rightarrow> bool" where
  "filtered p \<longleftrightarrow> piece_priority p = 0"

text \<open>The values the bit fields can hold.\<close>

definition pos_ok :: "piece_pos \<Rightarrow> bool" where
  "pos_ok p \<longleftrightarrow> peer_count p < 2 ^ 10 \<and> piece_priority p < 2 ^ 3 \<and> pp_index p < 2 ^ 18"

record piece_picker =
  m_seeds :: nat
  m_pieces :: "nat list"
  m_priority_boundries :: "nat list"
  m_piece_map :: "piece_pos list"
  m_downloads :: "downloading_piece list"
  m_block_info :: "block_info list"
  m_blocks_per_piece :: nat
  m_blocks_in_last_piece :: nat
  m_num_filtered :: int
  m_num_have_filtered :: int
  m_num_have :: int
  m_cursor :: nat
  m_reverse_cursor :: nat
  m_sparse_regions :: int
  m_dirty :: bool

definition new_piece_picker :: piece_picker where
  "new_piece_picker =
     \<lparr>m_seeds = 0, m_pieces = [], m_priority_boundries = [0], m_piece_map = [],
      m_downloads = [], m_block_info = [], m_blocks_per_piece = 0, m_blocks_in_last_piece = 0,
      m_num_filtered = 0, m_num_have_filtered = 0, m_num_have = 0, m_cursor = 0,
      m_reverse_cursor = 0, m_sparse_regions = 1, m_dirty = False\<rparr>"

section \<open>The priority of a piece\<close>

text \<open>\<open>priority_levels\<close> is 8 and \<open>prio_factor\<close> is 4.\<close>

definition priority :: "nat \<Rightarrow> piece_pos \<Rightarrow> int" where
  "priority seeds p =
     (if filtered p \<or> have_pos p \<or> peer_count p + seeds = 0 then -1
      else if piece_priority p = 7 then 1 - (if downloading p then 1 else 0)
      else
        let availability = (if piece_priority p \<ge> 4 then peer_count p div 2 else peer_count p);
            pr = (if piece_priority p \<ge> 4 then int (piece_priority p) - 3
                  else int (piece_priority p))
        in if downloading p then int availability * 4
           else int availability * 4 + 4 - pr)"

abbreviation prio_of :: "piece_picker \<Rightarrow> nat \<Rightarrow> int" where
  "prio_of pk x \<equiv> priority (m_seeds pk) (m_piece_map pk ! x)"

section \<open>Queries\<close>

definition num_pieces :: "piece_picker \<Rightarrow> nat" where
  "num_pieces pk = length (m_piece_map pk)"

definition have_piece :: "piece_picker \<Rightarrow> nat \<Rightarrow> bool" where
  "have_piece pk x \<longleftrightarrow> have_pos (m_piece_map pk ! x)"

definition blocks_in_piece :: "piece_picker \<Rightarrow> nat \<Rightarrow> nat" where
  "blocks_in_piece pk x =
     (if x + 1 = length (m_piece_map pk) then m_blocks_in_last_piece pk else m_blocks_per_piece pk)"

text \<open>\<open>find_if\<close> over the download queue with \<open>has_index\<close>: the position, if there is one.\<close>

fun find_index :: "('a \<Rightarrow> bool) \<Rightarrow> 'a list \<Rightarrow> nat option" where
  "find_index P [] = None"
| "find_index P (x # xs) = (if P x then Some 0 else map_option Suc (find_index P xs))"

definition find_download :: "piece_picker \<Rightarrow> nat \<Rightarrow> nat option" where
  "find_download pk x = find_index (\<lambda>dp. dp_index dp = x) (m_downloads pk)"

definition block_of :: "piece_picker \<Rightarrow> downloading_piece \<Rightarrow> nat \<Rightarrow> block_info" where
  "block_of pk dp b = m_block_info pk ! (dp_info dp + b)"

section \<open>The invariant of the class\<close>

definition wanted :: "piece_pos \<Rightarrow> bool" where
  "wanted p \<longleftrightarrow> \<not> (have_pos p \<or> filtered p)"

text \<open>The scans that find the first and the last piece that is still wanted.\<close>

definition first_wanted :: "piece_pos list \<Rightarrow> nat" where
  "first_wanted pm = length (takeWhile (\<lambda>p. \<not> wanted p) pm)"

fun last_wanted :: "piece_pos list \<Rightarrow> nat \<Rightarrow> nat" where
  "last_wanted pm 0 = 0"
| "last_wanted pm (Suc i) = (if wanted (pm ! i) then Suc i else last_wanted pm i)"

definition count_state :: "piece_picker \<Rightarrow> downloading_piece \<Rightarrow> block_state \<Rightarrow> int" where
  "count_state pk dp st =
     int (length (filter (\<lambda>k. block_state (block_of pk dp k) = st)
                         [0..<blocks_in_piece pk (dp_index dp)]))"

definition check_download :: "piece_picker \<Rightarrow> downloading_piece \<Rightarrow> bool" where
  "check_download pk dp \<longleftrightarrow>
     (\<forall>k \<in> set [0..<blocks_in_piece pk (dp_index dp)].
        (block_state (block_of pk dp k) = state_finished \<longrightarrow> num_peers (block_of pk dp k) = 0)
      \<and> (block_state (block_of pk dp k) = state_requested \<longrightarrow> num_peers (block_of pk dp k) > 0)
      \<and> (block_state (block_of pk dp k) = state_writing \<longrightarrow> num_peers (block_of pk dp k) = 0))
   \<and> ((count_state pk dp state_requested > 0) = (dp_state dp \<noteq> none))
   \<and> count_state pk dp state_requested = requested dp
   \<and> count_state pk dp state_writing = writing dp
   \<and> count_state pk dp state_finished = finished dp"

definition verify_priority :: "piece_picker \<Rightarrow> nat \<Rightarrow> nat \<Rightarrow> nat \<Rightarrow> bool" where
  "verify_priority pk range_start range_end prio \<longleftrightarrow>
     range_start \<le> range_end \<and> range_end \<le> length (m_pieces pk)
   \<and> (\<forall>q \<in> set [range_start..<range_end].
        m_pieces pk ! q < length (m_piece_map pk) \<and> prio_of pk (m_pieces pk ! q) = int prio)"

definition bucket_start :: "nat list \<Rightarrow> nat \<Rightarrow> nat" where
  "bucket_start bs k = (if k = 0 then 0 else bs ! (k - 1))"

definition check_boundries :: "piece_picker \<Rightarrow> bool" where
  "check_boundries pk \<longleftrightarrow>
     m_priority_boundries pk \<noteq> []
   \<and> (\<forall>k \<in> set [0..<length (m_priority_boundries pk)].
        verify_priority pk (bucket_start (m_priority_boundries pk) k)
          (m_priority_boundries pk ! k) k)
   \<and> last (m_priority_boundries pk) = length (m_pieces pk)"

definition check_piece :: "piece_picker \<Rightarrow> nat \<Rightarrow> bool" where
  "check_piece pk x \<longleftrightarrow>
     (let p = m_piece_map pk ! x; prio = prio_of pk x
      in (have_pos p \<longrightarrow> \<not> downloading p)
       \<and> (prio = -1 \<or> downloading p = (prio mod 4 = 0))
       \<and> (\<not> m_dirty pk \<longrightarrow>
            prio < int (length (m_priority_boundries pk))
          \<and> (if prio \<ge> 0 then pp_index p < length (m_pieces pk) \<and> m_pieces pk ! pp_index p = x
             else prio = -1 \<and> x \<notin> set (m_pieces pk)))
       \<and> length (filter (\<lambda>dp. dp_index dp = x) (m_downloads pk)) = (if downloading p then 1 else 0))"

definition check_invariant :: "piece_picker \<Rightarrow> bool" where
  "check_invariant pk \<longleftrightarrow>
     m_num_have pk \<ge> 0 \<and> m_num_have_filtered pk \<ge> 0 \<and> m_num_filtered pk \<ge> 0
   \<and> (\<forall>i \<in> set [0..<length (m_downloads pk) - 1].
        finished (m_downloads pk ! i) + writing (m_downloads pk ! i)
          \<ge> finished (m_downloads pk ! (i + 1)) + writing (m_downloads pk ! (i + 1)))
   \<and> (\<forall>dp \<in> set (m_downloads pk). check_download pk dp)
   \<and> m_cursor pk \<le> num_pieces pk \<and> m_reverse_cursor pk \<le> num_pieces pk
   \<and> (m_reverse_cursor pk > m_cursor pk
      \<or> m_cursor pk = num_pieces pk \<and> m_reverse_cursor pk = 0)
   \<and> (\<not> m_dirty pk \<longrightarrow> check_boundries pk)
   \<and> m_cursor pk = first_wanted (m_piece_map pk)
   \<and> m_reverse_cursor pk = last_wanted (m_piece_map pk) (num_pieces pk)
   \<and> (\<forall>x \<in> set [0..<num_pieces pk]. check_piece pk x)
   \<and> m_num_have pk = int (length (filter have_pos (m_piece_map pk)))
   \<and> m_num_filtered pk = int (length (filter (\<lambda>p. filtered p \<and> \<not> have_pos p) (m_piece_map pk)))
   \<and> m_num_have_filtered pk = int (length (filter (\<lambda>p. filtered p \<and> have_pos p) (m_piece_map pk)))
   \<and> (\<not> m_dirty pk \<longrightarrow> (\<forall>x \<in> set (m_pieces pk). prio_of pk x \<ge> 0))"

end
