(* ===== verification/Bucket_Layout.thy ===== *)
theory Bucket_Layout
  imports Picker_Data
begin

text \<open>
  The layout the picker keeps its pickable pieces in: one array \<open>ps\<close>, cut into buckets by
  the boundaries \<open>bs\<close>, bucket \<open>k\<close> holding the pieces of priority \<open>k\<close>, and every piece
  knowing its position. The functions \<open>pr\<close> and \<open>ix\<close> give a piece's priority and stored
  position. Moving a piece between buckets is done by moving a hole: \<open>hole_layout\<close> is the
  layout with one position \<open>h\<close>, in the region of bucket \<open>k\<close>, whose content is irrelevant
  and from which piece \<open>x\<close> is missing. The lemmas move the hole by one bucket in either
  direction, open it and fill it.
\<close>

definition in_bucket :: "(nat \<Rightarrow> int) \<Rightarrow> nat list \<Rightarrow> nat \<Rightarrow> nat \<Rightarrow> bool" where
  "in_bucket pr bs q y \<longleftrightarrow>
     (\<exists>k < length bs. pr y = int k \<and> bucket_start bs k \<le> q \<and> q < bs ! k)"

definition layout :: "nat \<Rightarrow> (nat \<Rightarrow> int) \<Rightarrow> (nat \<Rightarrow> nat) \<Rightarrow> nat list \<Rightarrow> nat list \<Rightarrow> bool" where
  "layout n pr ix bs ps \<longleftrightarrow>
     bs \<noteq> [] \<and> sorted bs \<and> last bs = length ps
   \<and> (\<forall>q < length ps. ps ! q < n \<and> ix (ps ! q) = q \<and> in_bucket pr bs q (ps ! q))
   \<and> (\<forall>y < n. pr y \<ge> 0 \<longrightarrow> ix y < length ps \<and> ps ! ix y = y)"

definition hole_layout ::
  "nat \<Rightarrow> (nat \<Rightarrow> int) \<Rightarrow> (nat \<Rightarrow> nat) \<Rightarrow> nat list \<Rightarrow> nat list \<Rightarrow> nat \<Rightarrow> nat \<Rightarrow> nat \<Rightarrow> bool" where
  "hole_layout n pr ix bs ps h k x \<longleftrightarrow>
     sorted bs \<and> last bs = length ps \<and> k < length bs
   \<and> bucket_start bs k \<le> h \<and> h < bs ! k \<and> x < n
   \<and> (\<forall>q < length ps. q \<noteq> h \<longrightarrow>
        ps ! q < n \<and> ps ! q \<noteq> x \<and> ix (ps ! q) = q \<and> in_bucket pr bs q (ps ! q))
   \<and> (\<forall>y < n. y \<noteq> x \<longrightarrow> pr y \<ge> 0 \<longrightarrow> ix y < length ps \<and> ix y \<noteq> h \<and> ps ! ix y = y)"

section \<open>Boundaries\<close>

lemma bucket_start_0 [simp]: "bucket_start bs 0 = 0"
  by (simp add: bucket_start_def)

lemma bucket_start_Suc [simp]: "bucket_start bs (Suc k) = bs ! k"
  by (simp add: bucket_start_def)

lemma sorted_last_ge:
  assumes "sorted (bs :: nat list)" "k < length bs"
  shows "bs ! k \<le> last bs"
proof -
  from assms have "bs \<noteq> []" by auto
  with assms show ?thesis by (auto simp: last_conv_nth intro!: sorted_nth_mono)
qed

lemma bucket_start_le:
  "sorted bs \<Longrightarrow> k < length bs \<Longrightarrow> bucket_start bs k \<le> bs ! k"
  by (auto simp: bucket_start_def intro: sorted_nth_mono)

lemma bucket_start_update:
  "k < length bs \<Longrightarrow> bucket_start (bs[k := v]) j = (if j = Suc k then v else bucket_start bs j)"
  by (auto simp: bucket_start_def)

lemma sorted_update_between:
  assumes "sorted (bs :: nat list)" "k < length bs" "bucket_start bs k \<le> v"
    and "Suc k < length bs \<Longrightarrow> v \<le> bs ! Suc k"
  shows "sorted (bs[k := v])"
proof -
  have "bs[k := v] ! i \<le> bs[k := v] ! Suc i" if "Suc i < length bs" for i
    using assms that sorted_nth_mono [OF assms(1), of i "Suc i"]
    by (auto simp: nth_list_update bucket_start_def split: if_splits)
  then show ?thesis by (simp add: sorted_iff_nth_Suc)
qed

lemma in_bucketE:
  assumes "in_bucket pr bs q y"
  obtains k where "k < length bs" "pr y = int k" "bucket_start bs k \<le> q" "q < bs ! k"
  using assms by (auto simp: in_bucket_def)

text \<open>Positions of different buckets are ordered.\<close>

lemma bucket_mono:
  assumes "sorted (bs :: nat list)" "j < k" "k < length bs"
  shows "bs ! j \<le> bucket_start bs k"
proof -
  from assms have "bs ! j \<le> bs ! (k - 1)" by (intro sorted_nth_mono) auto
  with assms show ?thesis by (simp add: bucket_start_def)
qed

lemma bucket_unique:
  assumes "sorted (bs :: nat list)" "j < length bs" "k < length bs"
    and "bucket_start bs j \<le> q" "q < bs ! j" "bucket_start bs k \<le> q" "q < bs ! k"
  shows "j = k"
  using bucket_mono [OF assms(1), of j k] bucket_mono [OF assms(1), of k j] assms
  by (metis leD le_trans linorder_neqE_nat)

section \<open>Opening and filling the hole\<close>

lemma layout_open:
  assumes lay: "layout n pr ix bs ps" and h: "h < length ps" and x: "x = ps ! h"
    and k: "pr x = int k"
    and same: "\<And>y. y \<noteq> x \<Longrightarrow> pr' y = pr y" "\<And>y. y \<noteq> x \<Longrightarrow> ix' y = ix y"
  shows "hole_layout n pr' ix' bs ps h k x"
proof -
  from lay have at: "ps ! q < n" "ix (ps ! q) = q" "in_bucket pr bs q (ps ! q)"
    if "q < length ps" for q using that by (auto simp: layout_def)
  from lay have loc: "ix y < length ps" "ps ! ix y = y" if "y < n" "pr y \<ge> 0" for y
    using that by (auto simp: layout_def)
  have neq: "ps ! q \<noteq> x" if "q < length ps" "q \<noteq> h" for q
    using at(2) [OF that(1)] at(2) [OF h] that(2) x by auto
  from at(3) [OF h] x k have reg: "k < length bs" "bucket_start bs k \<le> h" "h < bs ! k"
    by (auto elim: in_bucketE)
  have "ix y \<noteq> h" if "y < n" "y \<noteq> x" "pr y \<ge> 0" for y
    using loc(2) [OF that(1,3)] that(2) x by auto
  with lay h neq same at loc reg x show ?thesis
    by (auto simp: hole_layout_def layout_def in_bucket_def)
qed

lemma hole_in_range:
  "hole_layout n pr ix bs ps h k x \<Longrightarrow> h < length ps"
  using sorted_last_ge [of bs k] by (auto simp: hole_layout_def)

lemma hole_fill:
  assumes hl: "hole_layout n pr ix bs ps h k x" and prx: "pr x = int k"
  shows "layout n pr (ix(x := h)) bs (ps[h := x])"
proof -
  from hl have "bs \<noteq> []" "sorted bs" "last bs = length ps" and x: "x < n"
    and new: "in_bucket pr bs h x"
    and at: "\<And>q. q < length ps \<Longrightarrow> q \<noteq> h \<Longrightarrow>
      ps ! q < n \<and> ps ! q \<noteq> x \<and> ix (ps ! q) = q \<and> in_bucket pr bs q (ps ! q)"
    and loc: "\<And>y. y < n \<Longrightarrow> y \<noteq> x \<Longrightarrow> pr y \<ge> 0 \<Longrightarrow> ix y < length ps \<and> ix y \<noteq> h \<and> ps ! ix y = y"
    using prx by (auto simp: hole_layout_def in_bucket_def)
  moreover have "ps[h := x] ! q < n \<and> (ix(x := h)) (ps[h := x] ! q) = q
      \<and> in_bucket pr bs q (ps[h := x] ! q)" if "q < length ps" for q
    using that at [OF that] x new by (cases "q = h") auto
  moreover have "(ix(x := h)) y < length ps \<and> ps[h := x] ! (ix(x := h)) y = y"
    if "y < n" "pr y \<ge> 0" for y
    using that loc [OF that(1)] hole_in_range [OF hl] by (cases "y = x") auto
  ultimately show ?thesis by (auto simp: layout_def)
qed

section \<open>Moving the hole\<close>

text \<open>
  The hole moves from \<open>h\<close> to \<open>t\<close> and the piece that was at \<open>t\<close> goes to \<open>h\<close>: what the
  new boundaries \<open>bs'\<close> have to satisfy.
\<close>

lemma hole_moved:
  assumes hl: "hole_layout n pr ix bs ps h k x"
    and bs': "sorted bs'" "last bs' = length ps" "k' < length bs'"
    and reg: "bucket_start bs' k' \<le> t" "t < bs' ! k'"
    and keep: "\<And>q y. in_bucket pr bs q y \<Longrightarrow> q \<noteq> t \<Longrightarrow> in_bucket pr bs' q y"
    and moved: "t \<noteq> h \<Longrightarrow> in_bucket pr bs' h (ps ! t)"
  shows "t = h \<Longrightarrow> hole_layout n pr ix bs' ps t k' x"
    and "t \<noteq> h \<Longrightarrow> hole_layout n pr (ix(ps ! t := h)) bs' (ps[h := ps ! t]) t k' x"
proof -
  from hl have x: "x < n"
    and at: "\<And>q. q < length ps \<Longrightarrow> q \<noteq> h \<Longrightarrow>
      ps ! q < n \<and> ps ! q \<noteq> x \<and> ix (ps ! q) = q \<and> in_bucket pr bs q (ps ! q)"
    and loc: "\<And>y. y < n \<Longrightarrow> y \<noteq> x \<Longrightarrow> pr y \<ge> 0 \<Longrightarrow> ix y < length ps \<and> ix y \<noteq> h \<and> ps ! ix y = y"
    by (auto simp: hole_layout_def)
  have h: "h < length ps" by (rule hole_in_range [OF hl])
  have t: "t < length ps" using sorted_last_ge [OF bs'(1,3)] bs'(2) reg by simp
  { assume "t = h"
    with bs' reg x at loc keep show "hole_layout n pr ix bs' ps t k' x"
      unfolding hole_layout_def by blast }
  assume th: "t \<noteq> h"
  note att = at [OF t th]
  have "ps[h := ps ! t] ! q < n \<and> ps[h := ps ! t] ! q \<noteq> x
      \<and> (ix(ps ! t := h)) (ps[h := ps ! t] ! q) = q \<and> in_bucket pr bs' q (ps[h := ps ! t] ! q)"
    if q: "q < length ps" "q \<noteq> t" for q
  proof (cases "q = h")
    case True
    with att moved th h show ?thesis by simp
  next
    case False
    with at [OF q(1) False] att have "ps ! q \<noteq> ps ! t" using q(2) by auto
    with False at [OF q(1) False] keep q(2) show ?thesis by simp
  qed
  moreover have "(ix(ps ! t := h)) y < length ps \<and> (ix(ps ! t := h)) y \<noteq> t
      \<and> ps[h := ps ! t] ! (ix(ps ! t := h)) y = y"
    if y: "y < n" "y \<noteq> x" "pr y \<ge> 0" for y
  proof (cases "y = ps ! t")
    case True
    with th h show ?thesis by simp
  next
    case False
    from loc [OF y] have l: "ix y < length ps" "ix y \<noteq> h" "ps ! ix y = y" by auto
    with False have "ix y \<noteq> t" by auto
    with l False show ?thesis by simp
  qed
  ultimately show "hole_layout n pr (ix(ps ! t := h)) bs' (ps[h := ps ! t]) t k' x"
    using bs' reg x unfolding hole_layout_def by simp
qed

lemma hole_bucket_of:
  assumes hl: "hole_layout n pr ix bs ps h k x" and "t \<noteq> h" "t < length ps"
    and "j < length bs" "bucket_start bs j \<le> t" "t < bs ! j"
  shows "pr (ps ! t) = int j"
proof -
  from hl \<open>t \<noteq> h\<close> \<open>t < length ps\<close> have b: "in_bucket pr bs t (ps ! t)" and srt: "sorted bs"
    by (auto simp: hole_layout_def)
  from b obtain i where i: "i < length bs" "pr (ps ! t) = int i" "bucket_start bs i \<le> t" "t < bs ! i"
    by (rule in_bucketE)
  have "i = j" by (rule bucket_unique [OF srt i(1) assms(4) i(3,4) assms(5,6)])
  with i show ?thesis by simp
qed

text \<open>One bucket up: the last piece of bucket \<open>k\<close> moves into the hole.\<close>

lemma hole_to_next:
  assumes hl: "hole_layout n pr ix bs ps h k x" and k: "Suc k < length bs"
    and t: "t = bs ! k - 1"
  shows "t = h \<Longrightarrow> hole_layout n pr ix (bs[k := t]) ps t (Suc k) x"
    and "t \<noteq> h \<Longrightarrow>
      hole_layout n pr (ix(ps ! t := h)) (bs[k := t]) (ps[h := ps ! t]) t (Suc k) x"
proof -
  from hl have srt: "sorted bs" and lst: "last bs = length ps"
    and reg: "bucket_start bs k \<le> h" "h < bs ! k"
    by (auto simp: hole_layout_def)
  have next_le: "bs ! k \<le> bs ! Suc k" using srt k by (intro sorted_nth_mono) auto
  have tl: "t < length ps" "bucket_start bs k \<le> t" "h \<le> t" "bs ! k = Suc t"
    using sorted_last_ge [OF srt, of k] lst k reg t by auto
  have 1: "sorted (bs[k := t])"
    using srt k tl next_le by (intro sorted_update_between) auto
  have 2: "last (bs[k := t]) = length ps"
    using k lst by (cases "bs = []") (auto simp: last_conv_nth)
  have 3: "bucket_start (bs[k := t]) (Suc k) \<le> t" "t < bs[k := t] ! Suc k"
    using k tl next_le by auto
  have 4: "in_bucket pr (bs[k := t]) q y" if "in_bucket pr bs q y" "q \<noteq> t" for q y
    using that tl k next_le
    by (elim in_bucketE) (auto simp: in_bucket_def bucket_start_update nth_list_update split: if_splits)
  have 5: "in_bucket pr (bs[k := t]) h (ps ! t)" if "t \<noteq> h"
    using hole_bucket_of [OF hl that tl(1), of k] that k reg tl
    by (auto simp: in_bucket_def bucket_start_update)
  note m = hole_moved [OF hl 1 2 _ 3 4 5]
  show "t = h \<Longrightarrow> hole_layout n pr ix (bs[k := t]) ps t (Suc k) x"
    by (rule m(1)) (use k in auto)
  show "t \<noteq> h \<Longrightarrow>
      hole_layout n pr (ix(ps ! t := h)) (bs[k := t]) (ps[h := ps ! t]) t (Suc k) x"
    by (rule m(2)) (use k in auto)
qed

text \<open>One bucket down: the first piece of bucket \<open>k\<close> moves into the hole.\<close>

lemma hole_to_prev:
  assumes hl: "hole_layout n pr ix bs ps h (Suc k) x" and t: "t = bs ! k"
  shows "t = h \<Longrightarrow> hole_layout n pr ix (bs[k := Suc t]) ps t k x"
    and "t \<noteq> h \<Longrightarrow>
      hole_layout n pr (ix(ps ! t := h)) (bs[k := Suc t]) (ps[h := ps ! t]) t k x"
proof -
  from hl have srt: "sorted bs" and lst: "last bs = length ps" and k: "Suc k < length bs"
    and reg: "bs ! k \<le> h" "h < bs ! Suc k"
    by (auto simp: hole_layout_def)
  have tl: "t < length ps" "t \<le> h" "t < bs ! Suc k" "bucket_start bs k \<le> t"
    using sorted_last_ge [OF srt k] lst reg t bucket_start_le [OF srt, of k] k by auto
  have 1: "sorted (bs[k := Suc t])"
    using srt k tl by (intro sorted_update_between) auto
  have 2: "last (bs[k := Suc t]) = length ps"
    using k lst by (cases "bs = []") (auto simp: last_conv_nth)
  have 3: "bucket_start (bs[k := Suc t]) k \<le> t" "t < bs[k := Suc t] ! k"
    using k tl by (auto simp: bucket_start_update)
  have 4: "in_bucket pr (bs[k := Suc t]) q y" if "in_bucket pr bs q y" "q \<noteq> t" for q y
    using that tl k t
    by (elim in_bucketE) (auto simp: in_bucket_def bucket_start_update nth_list_update split: if_splits)
  have 5: "in_bucket pr (bs[k := Suc t]) h (ps ! t)" if "t \<noteq> h"
    using hole_bucket_of [OF hl that tl(1) k] that k reg tl t
    by (auto simp: in_bucket_def bucket_start_update)
  note m = hole_moved [OF hl 1 2 _ 3 4 5]
  show "t = h \<Longrightarrow> hole_layout n pr ix (bs[k := Suc t]) ps t k x"
    by (rule m(1)) (use k in auto)
  show "t \<noteq> h \<Longrightarrow>
      hole_layout n pr (ix(ps ! t := h)) (bs[k := Suc t]) (ps[h := ps ! t]) t k x"
    by (rule m(2)) (use k in auto)
qed

section \<open>The ends of the array\<close>

text \<open>The hole is in the last bucket: the last piece goes there and the array shrinks.\<close>

lemma hole_drop_last:
  assumes hl: "hole_layout n pr ix bs ps h k x" and k: "Suc k = length bs"
    and t: "t = bs ! k - 1" and prx: "pr x < 0"
  shows "t = h \<Longrightarrow> layout n pr ix (bs[k := t]) (butlast ps)"
    and "t \<noteq> h \<Longrightarrow> layout n pr (ix(ps ! t := h)) (bs[k := t]) (butlast (ps[h := ps ! t]))"
proof -
  from hl have srt: "sorted bs" and lst: "last bs = length ps"
    and reg: "bucket_start bs k \<le> h" "h < bs ! k"
    and at: "\<And>q. q < length ps \<Longrightarrow> q \<noteq> h \<Longrightarrow>
      ps ! q < n \<and> ps ! q \<noteq> x \<and> ix (ps ! q) = q \<and> in_bucket pr bs q (ps ! q)"
    and loc: "\<And>y. y < n \<Longrightarrow> y \<noteq> x \<Longrightarrow> pr y \<ge> 0 \<Longrightarrow> ix y < length ps \<and> ix y \<noteq> h \<and> ps ! ix y = y"
    by (auto simp: hole_layout_def)
  have bk: "bs ! k = length ps" using lst k by (cases bs rule: rev_cases) auto
  have tl: "length ps = Suc t" "h \<le> t" "bucket_start bs k \<le> t" using bk reg t by auto
  have ne: "bs \<noteq> []" "k = length bs - 1" using k by auto
  have bs': "bs[k := t] \<noteq> []" "sorted (bs[k := t])" "last (bs[k := t]) = t"
    using k srt tl ne by (auto simp: last_list_update intro!: sorted_update_between)
  have keep: "in_bucket pr (bs[k := t]) q y" if "in_bucket pr bs q y" "q \<noteq> t" for q y
    using that tl k bk
    by (elim in_bucketE) (auto simp: in_bucket_def bucket_start_update nth_list_update split: if_splits)
  { assume th: "t = h"
    have "ix y < t" if "y < n" "pr y \<ge> 0" for y
      using loc [of y] that prx tl th by (cases "y = x") auto
    moreover have "ps ! ix y = y" if "y < n" "pr y \<ge> 0" for y
      using loc [of y] that prx by (cases "y = x") auto
    ultimately show "layout n pr ix (bs[k := t]) (butlast ps)"
      using bs' at keep tl th by (auto simp: layout_def nth_butlast) }
  assume th: "t \<noteq> h"
  have att: "ps ! t < n" "ps ! t \<noteq> x" "ix (ps ! t) = t" using at [of t] tl th by auto
  have "pr (ps ! t) = int k" using hole_bucket_of [OF hl th, of k] tl k bk by auto
  with k reg tl th have new: "in_bucket pr (bs[k := t]) h (ps ! t)"
    by (auto simp: in_bucket_def bucket_start_update)
  have inj: "ps ! q \<noteq> ps ! t" if "q < t" "q \<noteq> h" for q
    using at [of q] that att tl by auto
  have "ps[h := ps ! t] ! q < n \<and> (ix(ps ! t := h)) (ps[h := ps ! t] ! q) = q
      \<and> in_bucket pr (bs[k := t]) q (ps[h := ps ! t] ! q)" if "q < t" for q
    using that at [of q] att inj [OF that] keep new tl by (cases "q = h") auto
  moreover have "(ix(ps ! t := h)) y < t \<and> ps[h := ps ! t] ! (ix(ps ! t := h)) y = y"
    if y: "y < n" "pr y \<ge> 0" for y
  proof (cases "y = ps ! t")
    case True
    with th tl show ?thesis by simp
  next
    case False
    from y prx have "y \<noteq> x" by auto
    with loc [of y] y have l: "ix y < length ps" "ix y \<noteq> h" "ps ! ix y = y" by auto
    with False have "ix y \<noteq> t" by auto
    with l False tl show ?thesis by simp
  qed
  ultimately show "layout n pr (ix(ps ! t := h)) (bs[k := t]) (butlast (ps[h := ps ! t]))"
    using bs' tl by (auto simp: layout_def nth_butlast)
qed

text \<open>Empty buckets at the end do not matter.\<close>

lemma layout_extend:
  assumes "layout n pr ix bs ps"
  shows "layout n pr ix (bs @ replicate m (length ps)) ps"
proof -
  from assms have bs: "bs \<noteq> []" "sorted bs" "last bs = length ps" by (auto simp: layout_def)
  have "sorted (bs @ replicate m (length ps))"
    using bs sorted_last_ge [OF bs(2)] by (auto simp: sorted_append in_set_conv_nth)
  moreover have "last (bs @ replicate m (length ps)) = length ps"
    using bs by (cases m) auto
  moreover have "in_bucket pr (bs @ replicate m (length ps)) q y" if "in_bucket pr bs q y" for q y
    using that by (elim in_bucketE) (auto simp: in_bucket_def bucket_start_def nth_append)
  ultimately show ?thesis using assms by (auto simp: layout_def)
qed

lemma layout_swap:
  assumes lay: "layout n pr ix bs ps" and k: "k < length bs"
    and a: "bucket_start bs k \<le> a" "a < bs ! k" and b: "bucket_start bs k \<le> b" "b < bs ! k"
    and ab: "a \<noteq> b"
  shows "layout n pr (ix(ps ! a := b, ps ! b := a)) bs (ps[a := ps ! b, b := ps ! a])"
proof -
  from lay have srt: "sorted bs" and lst: "last bs = length ps"
    and at: "\<And>q. q < length ps \<Longrightarrow> ps ! q < n \<and> ix (ps ! q) = q \<and> in_bucket pr bs q (ps ! q)"
    and loc: "\<And>y. y < n \<Longrightarrow> pr y \<ge> 0 \<Longrightarrow> ix y < length ps \<and> ps ! ix y = y"
    by (auto simp: layout_def)
  have l: "a < length ps" "b < length ps" using sorted_last_ge [OF srt k] lst a b by auto
  have inj: "ps ! q = ps ! r \<longleftrightarrow> q = r" if "q < length ps" "r < length ps" for q r
    using at [OF that(1)] at [OF that(2)] by metis
  have same: "pr (ps ! a) = int k" "pr (ps ! b) = int k"
    using at [OF l(1)] at [OF l(2)] bucket_unique [OF srt _ k _ _ a] bucket_unique [OF srt _ k _ _ b]
    by (auto elim!: in_bucketE)
  have "ps[a := ps ! b, b := ps ! a] ! q < n
      \<and> (ix(ps ! a := b, ps ! b := a)) (ps[a := ps ! b, b := ps ! a] ! q) = q
      \<and> in_bucket pr bs q (ps[a := ps ! b, b := ps ! a] ! q)" if q: "q < length ps" for q
  proof -
    consider "q = b" | "q = a" | "q \<noteq> a" "q \<noteq> b" by blast
    then show ?thesis
      using l ab at [OF l(1)] at [OF l(2)] at [OF q] inj [OF q l(1)] inj [OF q l(2)] inj [OF l]
        same k a b by cases (auto simp: in_bucket_def)
  qed
  moreover have "(ix(ps ! a := b, ps ! b := a)) y < length ps
      \<and> ps[a := ps ! b, b := ps ! a] ! (ix(ps ! a := b, ps ! b := a)) y = y"
    if "y < n" "pr y \<ge> 0" for y
  proof (cases "y = ps ! a \<or> y = ps ! b")
    case True
    then show ?thesis using l ab inj [OF l] by auto
  next
    case False
    with loc [OF that] have "ix y \<noteq> a" "ix y \<noteq> b" by auto
    with False loc [OF that] show ?thesis by simp
  qed
  ultimately show ?thesis using lay by (auto simp: layout_def)
qed

end
