(* ===== verification/Picker_Buckets.thy ===== *)
theory Picker_Buckets
  imports Bucket_Layout
begin

text \<open>
  The operations of \<open>src/piece_picker.cpp\<close> on the array of pickable pieces: \<open>add\<close>,
  \<open>remove\<close>, \<open>update\<close>, \<open>shuffle\<close> and the lazy rebuild \<open>update_pieces\<close>. The loops work on
  the array, the piece map and the boundaries; \<open>rand()\<close> is an argument, and the
  \<open>random_shuffle\<close> of the rebuild a function that permutes its argument.
\<close>

section \<open>Definitions\<close>

text \<open>The bit field \<open>index\<close> has 18 bits.\<close>

definition set_pp_index :: "nat \<Rightarrow> nat \<Rightarrow> piece_pos list \<Rightarrow> piece_pos list" where
  "set_pp_index x i pm = pm[x := (pm ! x)\<lparr>pp_index := i mod 2 ^ 18\<rparr>]"

definition priority_range :: "nat list \<Rightarrow> nat \<Rightarrow> nat \<times> nat" where
  "priority_range bs prio = ((if prio = 0 then 0 else bs ! (prio - 1)), bs ! prio)"

subsection \<open>\<open>add\<close>\<close>

text \<open>
  The array is one longer during \<open>add\<close> and \<open>None\<close> stands for the -1 that the code pushes.
  \<open>add_skip\<close> is the inner \<open>do while\<close>, \<open>add_loop\<close> the outer loop; its result is the array,
  the piece map, the boundaries, \<open>index\<close> and \<open>new_index\<close>.
\<close>

function add_skip :: "nat list \<Rightarrow> nat \<Rightarrow> nat \<Rightarrow> nat \<times> nat list \<times> nat" where
  "add_skip bs new_index prio =
     (let temp = bs ! prio; bs' = bs[prio := temp + 1]; prio' = prio + 1
      in if temp = new_index \<and> prio' < length bs' then add_skip bs' new_index prio'
         else (temp, bs', prio'))"
  by pat_completeness auto
termination
  by (relation "measure (\<lambda>(bs, i, p). length bs - p)") auto

declare add_skip.simps [simp del]

lemma add_skip_progress:
  "add_skip bs i p = (temp, bs', p') \<Longrightarrow> length bs' = length bs \<and> p < p'"
  by (induction bs i p rule: add_skip.induct)
     (subst (asm) (2) add_skip.simps, fastforce simp: Let_def split: if_splits)

definition set_opt_index :: "nat option \<Rightarrow> nat \<Rightarrow> piece_pos list \<Rightarrow> piece_pos list" where
  "set_opt_index x i pm = (case x of None \<Rightarrow> pm | Some y \<Rightarrow> set_pp_index y i pm)"

function add_loop ::
  "nat option list \<Rightarrow> piece_pos list \<Rightarrow> nat list \<Rightarrow> nat option \<Rightarrow> nat \<Rightarrow> nat \<Rightarrow>
   nat option list \<times> piece_pos list \<times> nat list \<times> nat option \<times> nat" where
  "add_loop ps pm bs index new_index prio =
     (let temp = ps ! new_index;
          ps' = ps[new_index := index];
          pm' = set_opt_index index new_index pm;
          (temp', bs', prio') = add_skip bs new_index prio
      in if prio' \<ge> length bs' then (ps', pm', bs', temp, temp')
         else add_loop ps' pm' bs' temp temp' prio')"
  by pat_completeness auto
termination
  by (relation "measure (\<lambda>(ps, pm, bs, x, i, p). length bs - p)")
     (auto dest!: add_skip_progress [OF sym])

declare add_loop.simps [simp del]

definition add :: "nat \<Rightarrow> nat \<Rightarrow> piece_picker \<Rightarrow> piece_picker" where
  "add r index pk =
     (let pm = m_piece_map pk;
          prio = nat (prio_of pk index);
          bs = (if length (m_priority_boundries pk) \<le> prio
                then m_priority_boundries pk @
                  replicate (prio + 1 - length (m_priority_boundries pk)) (length (m_pieces pk))
                else m_priority_boundries pk);
          (range_start, range_end) = priority_range bs prio;
          new_index = (if range_end = range_start then range_start
                       else r mod (range_end - range_start + 1) + range_start);
          (ps, pm, bs, index, new_index) =
            add_loop (map Some (m_pieces pk) @ [None]) pm bs (Some index) new_index prio;
          (ps, pm) = (case index of
              None \<Rightarrow> (ps, pm)
            | Some y \<Rightarrow> (ps[new_index := Some y], set_pp_index y new_index pm))
      in pk\<lparr>m_pieces := map the ps, m_piece_map := pm, m_priority_boundries := bs\<rparr>)"

subsection \<open>\<open>remove\<close>\<close>

function remove_skip :: "nat list \<Rightarrow> nat \<Rightarrow> nat \<Rightarrow> nat \<times> nat list \<times> nat" where
  "remove_skip bs next_index prio =
     (let temp = bs ! prio - 1; bs' = bs[prio := temp]; prio' = prio + 1
      in if next_index = temp \<and> prio' < length bs' then remove_skip bs' next_index prio'
         else (temp, bs', prio'))"
  by pat_completeness auto
termination
  by (relation "measure (\<lambda>(bs, i, p). length bs - p)") auto

declare remove_skip.simps [simp del]

lemma remove_skip_progress:
  "remove_skip bs i p = (temp, bs', p') \<Longrightarrow> length bs' = length bs \<and> p < p' \<and> (p < length bs \<longrightarrow> p' \<le> length bs)"
  by (induction bs i p rule: remove_skip.induct)
     (subst (asm) (2) remove_skip.simps, fastforce simp: Let_def split: if_splits)

function remove_loop ::
  "nat list \<Rightarrow> piece_pos list \<Rightarrow> nat list \<Rightarrow> nat \<Rightarrow> nat \<Rightarrow> nat \<Rightarrow>
   nat list \<times> piece_pos list \<times> nat list" where
  "remove_loop ps pm bs prio elem_index next_index =
     (let (temp, bs', prio') = remove_skip bs next_index prio
      in if next_index = temp then (ps, pm, bs')
         else
           let piece = ps ! temp;
               ps' = ps[elem_index := piece];
               pm' = set_pp_index piece elem_index pm
           in if prio' \<ge> length bs' then (ps', pm', bs')
              else remove_loop ps' pm' bs' prio' temp temp)"
  by pat_completeness auto
termination
  by (relation "measure (\<lambda>(ps, pm, bs, p, e, i). length bs - p)")
     (auto dest!: remove_skip_progress [OF sym])

declare remove_loop.simps [simp del]

definition remove :: "nat \<Rightarrow> nat \<Rightarrow> piece_picker \<Rightarrow> piece_picker" where
  "remove prio elem_index pk =
     (let (ps, pm, bs) = remove_loop (m_pieces pk) (m_piece_map pk) (m_priority_boundries pk)
                           prio elem_index elem_index
      in pk\<lparr>m_pieces := butlast ps, m_piece_map := pm, m_priority_boundries := bs\<rparr>)"

subsection \<open>\<open>shuffle\<close> and \<open>update\<close>\<close>

definition shuffle :: "nat \<Rightarrow> nat \<Rightarrow> nat \<Rightarrow> piece_picker \<Rightarrow> piece_picker" where
  "shuffle r prio elem_index pk =
     (let (range_start, range_end) = priority_range (m_priority_boundries pk) prio;
          other_index = r mod (range_end - range_start) + range_start
      in if other_index = elem_index then pk
         else
           let ps = m_pieces pk; pm = m_piece_map pk;
               temp = pp_index (pm ! (ps ! other_index));
               pm1 = set_pp_index (ps ! other_index) (pp_index (pm ! (ps ! elem_index))) pm;
               pm2 = set_pp_index (ps ! elem_index) temp pm1
           in pk\<lparr>m_piece_map := pm2,
                 m_pieces := ps[other_index := ps ! elem_index, elem_index := ps ! other_index]\<rparr>)"

text \<open>
  The two loops of \<open>update\<close>, towards a smaller and towards a greater priority. \<open>temp\<close> is
  the piece last moved. The first counts down from \<open>prio\<close>; its equation for 0 is outside
  the range of the loop, which stops at \<open>new_prio < prio\<close>.
\<close>

definition update_move :: "nat \<Rightarrow> nat \<Rightarrow> nat \<Rightarrow> nat list \<Rightarrow> piece_pos list \<Rightarrow> nat \<times> nat list \<times> piece_pos list" where
  "update_move temp elem_index new_index ps pm =
     (if temp \<noteq> ps ! new_index
      then (ps ! new_index, ps[elem_index := ps ! new_index],
            set_pp_index (ps ! new_index) elem_index pm)
      else (temp, ps, pm))"

fun update_down :: "nat list \<Rightarrow> piece_pos list \<Rightarrow> nat list \<Rightarrow> nat \<Rightarrow> nat \<Rightarrow> nat \<Rightarrow> nat \<Rightarrow>
   nat list \<times> piece_pos list \<times> nat list \<times> nat" where
  "update_down ps pm bs 0 new_prio temp elem_index = (ps, pm, bs, elem_index)"
| "update_down ps pm bs (Suc prio) new_prio temp elem_index =
     (let new_index = bs ! prio;
          bs' = bs[prio := new_index + 1];
          (temp', ps', pm') = update_move temp elem_index new_index ps pm
      in if prio = new_prio then (ps', pm', bs', new_index)
         else update_down ps' pm' bs' prio new_prio temp' new_index)"

function update_up :: "nat list \<Rightarrow> piece_pos list \<Rightarrow> nat list \<Rightarrow> nat \<Rightarrow> nat \<Rightarrow> nat \<Rightarrow> nat \<Rightarrow>
   nat list \<times> piece_pos list \<times> nat list \<times> nat" where
  "update_up ps pm bs prio new_prio temp elem_index =
     (let new_index = bs ! prio - 1;
          bs' = bs[prio := new_index];
          (temp', ps', pm') = update_move temp elem_index new_index ps pm
      in if prio + 1 \<ge> new_prio then (ps', pm', bs', new_index)
         else update_up ps' pm' bs' (prio + 1) new_prio temp' new_index)"
  by pat_completeness auto
termination
  by (relation "measure (\<lambda>(ps, pm, bs, p, np, t, e). np - p)") auto

declare update_up.simps [simp del]

definition update :: "nat \<Rightarrow> nat \<Rightarrow> nat \<Rightarrow> piece_picker \<Rightarrow> piece_picker" where
  "update r prio elem_index pk =
     (let index = m_pieces pk ! elem_index; new_priority = prio_of pk index
      in if new_priority = int prio then pk
         else if new_priority = -1 then remove prio elem_index pk
         else
           let np = nat new_priority;
               bs = (if length (m_priority_boundries pk) \<le> np
                     then m_priority_boundries pk @
                       replicate (np + 1 - length (m_priority_boundries pk)) (length (m_pieces pk))
                     else m_priority_boundries pk);
               (ps, pm, bs, e) =
                 (if prio > np
                  then update_down (m_pieces pk) (m_piece_map pk) bs prio np index elem_index
                  else update_up (m_pieces pk) (m_piece_map pk) bs prio np index elem_index)
           in shuffle r np e
                (pk\<lparr>m_pieces := ps[e := index], m_piece_map := set_pp_index index e pm,
                    m_priority_boundries := bs\<rparr>))"

section \<open>Changing only positions\<close>

abbreviation prm :: "nat \<Rightarrow> piece_pos list \<Rightarrow> nat \<Rightarrow> int" where
  "prm s pm \<equiv> \<lambda>x. priority s (pm ! x)"

abbreviation ixm :: "piece_pos list \<Rightarrow> nat \<Rightarrow> nat" where
  "ixm pm \<equiv> \<lambda>x. pp_index (pm ! x)"

text \<open>What a piece's entry says, apart from where in the array the piece is.\<close>

definition norm_pos :: "piece_pos \<Rightarrow> piece_pos" where
  "norm_pos p = p\<lparr>pp_index := if have_pos p then we_have_index else 0\<rparr>"

definition reindexed :: "piece_pos list \<Rightarrow> piece_pos list \<Rightarrow> bool" where
  "reindexed pm pm' \<longleftrightarrow> map norm_pos pm' = map norm_pos pm \<and> (\<forall>s. prm s pm' = prm s pm)
     \<and> (\<forall>x < length pm. ixm pm x < 2 ^ 18 \<longrightarrow> ixm pm' x < 2 ^ 18)"

lemma reindexed_refl [simp]: "reindexed pm pm"
  by (simp add: reindexed_def)

lemma reindexed_length: "reindexed pm pm' \<Longrightarrow> length pm' = length pm"
  by (auto simp: reindexed_def dest: map_eq_imp_length_eq)

lemma reindexed_trans [trans]: "reindexed a b \<Longrightarrow> reindexed b c \<Longrightarrow> reindexed a c"
  using reindexed_length [of a b] by (simp add: reindexed_def)

lemma reindexed_prm: "reindexed pm pm' \<Longrightarrow> prm s pm' = prm s pm"
  by (simp add: reindexed_def)

lemma norm_pos_fields [simp]:
  "peer_count (norm_pos p) = peer_count p" "downloading (norm_pos p) = downloading p"
  "piece_priority (norm_pos p) = piece_priority p" "have_pos (norm_pos p) = have_pos p"
  by (simp_all add: norm_pos_def have_pos_def we_have_index_def)

lemma norm_pos_eqD:
  assumes "norm_pos p = norm_pos q"
  shows "peer_count p = peer_count q" "downloading p = downloading q"
    "piece_priority p = piece_priority q" "have_pos p = have_pos q"
    "filtered p = filtered q" "wanted p = wanted q" "priority s p = priority s q"
proof -
  show 1: "peer_count p = peer_count q" "downloading p = downloading q"
    "piece_priority p = piece_priority q" "have_pos p = have_pos q"
    using arg_cong [OF assms, of peer_count] arg_cong [OF assms, of downloading]
      arg_cong [OF assms, of piece_priority] arg_cong [OF assms, of have_pos] by simp_all
  show "filtered p = filtered q" "wanted p = wanted q" "priority s p = priority s q"
    unfolding wanted_def filtered_def priority_def 1 by (rule refl)+
qed

lemma reindexed_nth:
  assumes "reindexed pm pm'" "x < length pm"
  shows "norm_pos (pm' ! x) = norm_pos (pm ! x)"
  using assms by (metis nth_map reindexed_def reindexed_length)

lemma priority_ge_0_not_have: "priority s p \<ge> 0 \<Longrightarrow> \<not> have_pos p"
  by (auto simp: priority_def)

lemma set_pp_index_effect:
  assumes x: "x < length pm" and h: "\<not> have_pos (pm ! x)" and i: "i < we_have_index"
  shows "ixm (set_pp_index x i pm) = (ixm pm)(x := i)"
    and "reindexed pm (set_pp_index x i pm)"
    and "length (set_pp_index x i pm) = length pm"
proof -
  let ?p = "(pm ! x)\<lparr>pp_index := i mod 2 ^ 18\<rparr>"
  have small: "i mod 2 ^ 18 = i" using i by (simp add: we_have_index_def)
  show "ixm (set_pp_index x i pm) = (ixm pm)(x := i)"
    using x small by (auto simp: set_pp_index_def fun_eq_iff nth_list_update)
  show "length (set_pp_index x i pm) = length pm" by (simp add: set_pp_index_def)
  have nh: "\<not> have_pos ?p" using small i by (simp add: have_pos_def)
  then have n: "norm_pos ?p = norm_pos (pm ! x)" using h by (simp add: norm_pos_def)
  have "map norm_pos (set_pp_index x i pm) = map norm_pos pm"
    using x n by (simp add: set_pp_index_def map_update list_update_same_conv)
  moreover have "priority s (set_pp_index x i pm ! y) = priority s (pm ! y)" for s y
    using norm_pos_eqD(7) [OF n] x by (cases "y = x") (simp_all add: set_pp_index_def)
  moreover have "ixm (set_pp_index x i pm) y < 2 ^ 18" if "y < length pm" "ixm pm y < 2 ^ 18" for y
    using that small i by (cases "y = x") (simp_all add: set_pp_index_def we_have_index_def)
  ultimately show "reindexed pm (set_pp_index x i pm)" by (simp add: reindexed_def)
qed

lemma hole_layout_length:
  assumes "hole_layout n pr ix bs ps h k x"
  shows "length ps \<le> n"
proof -
  let ?Q = "{..<length ps} - {h}"
  have x: "x < n" and h: "h < length ps"
    using assms hole_in_range [OF assms] by (auto simp: hole_layout_def)
  have "inj_on ((!) ps) ?Q"
    using assms by (intro inj_on_inverseI [of _ ix]) (auto simp: hole_layout_def)
  moreover have "(!) ps ` ?Q \<subseteq> {..<n} - {x}" using assms by (auto simp: hole_layout_def)
  ultimately have "card ?Q \<le> card ({..<n} - {x})" by (intro card_inj_on_le) auto
  with x h show ?thesis by simp
qed

lemma layout_length: "layout n pr ix bs ps \<Longrightarrow> length ps \<le> n"
proof -
  assume lay: "layout n pr ix bs ps"
  then have "inj_on ((!) ps) {..<length ps}"
    by (intro inj_on_inverseI [of _ ix]) (auto simp: layout_def)
  moreover have "(!) ps ` {..<length ps} \<subseteq> {..<n}" using lay by (auto simp: layout_def)
  ultimately have "card {..<length ps} \<le> card {..<n}" by (intro card_inj_on_le) auto
  then show ?thesis by simp
qed

text \<open>The hole moves, with the piece map updated the way the code does it.\<close>

lemma hole_piece_reindex:
  assumes hl: "hole_layout (length pm) (prm s pm) (ixm pm) bs ps h k x"
    and t: "t < length ps" "t \<noteq> h" and n: "length pm < we_have_index"
  shows "ixm (set_pp_index (ps ! t) h pm) = (ixm pm)(ps ! t := h)"
    and "reindexed pm (set_pp_index (ps ! t) h pm)"
proof -
  have m: "ps ! t < length pm" "priority s (pm ! (ps ! t)) \<ge> 0" "h < we_have_index"
    using hl t hole_layout_length [OF hl] hole_in_range [OF hl] n
    by (auto simp: hole_layout_def in_bucket_def)
  note e = set_pp_index_effect [OF m(1) priority_ge_0_not_have [OF m(2)] m(3)]
  show "ixm (set_pp_index (ps ! t) h pm) = (ixm pm)(ps ! t := h)" by (rule e(1))
  show "reindexed pm (set_pp_index (ps ! t) h pm)" by (rule e(2))
qed

lemma hole_step_next:
  assumes hl: "hole_layout (length pm) (prm s pm) (ixm pm) bs ps h k x"
    and k: "Suc k < length bs" and t: "t = bs ! k - 1" "t \<noteq> h" and n: "length pm < we_have_index"
  shows "hole_layout (length pm) (prm s (set_pp_index (ps ! t) h pm)) (ixm (set_pp_index (ps ! t) h pm))
      (bs[k := t]) (ps[h := ps ! t]) t (Suc k) x"
    and "reindexed pm (set_pp_index (ps ! t) h pm)"
proof -
  note new = hole_to_next(2) [OF hl k t]
  then have "t < length ps" by (auto dest: hole_in_range)
  note e = hole_piece_reindex [OF hl this t(2) n]
  show "reindexed pm (set_pp_index (ps ! t) h pm)" by (rule e(2))
  show "hole_layout (length pm) (prm s (set_pp_index (ps ! t) h pm)) (ixm (set_pp_index (ps ! t) h pm))
      (bs[k := t]) (ps[h := ps ! t]) t (Suc k) x"
    using new by (simp only: e(1) reindexed_prm [OF e(2)])
qed

lemma hole_step_prev:
  assumes hl: "hole_layout (length pm) (prm s pm) (ixm pm) bs ps h (Suc k) x"
    and t: "t = bs ! k" "t \<noteq> h" and n: "length pm < we_have_index"
  shows "hole_layout (length pm) (prm s (set_pp_index (ps ! t) h pm)) (ixm (set_pp_index (ps ! t) h pm))
      (bs[k := Suc t]) (ps[h := ps ! t]) t k x"
    and "reindexed pm (set_pp_index (ps ! t) h pm)"
proof -
  note new = hole_to_prev(2) [OF hl t]
  then have "t < length ps" by (auto dest: hole_in_range)
  note e = hole_piece_reindex [OF hl this t(2) n]
  show "reindexed pm (set_pp_index (ps ! t) h pm)" by (rule e(2))
  show "hole_layout (length pm) (prm s (set_pp_index (ps ! t) h pm)) (ixm (set_pp_index (ps ! t) h pm))
      (bs[k := Suc t]) (ps[h := ps ! t]) t k x"
    using new by (simp only: e(1) reindexed_prm [OF e(2)])
qed

section \<open>\<open>remove\<close>\<close>

lemma remove_skip_hole:
  assumes "hole_layout n pr ix bs ps h k x" and "remove_skip bs h k = (t, bs', p')"
  shows "\<exists>c. hole_layout n pr ix c ps h (p' - 1) x \<and> t = c ! (p' - 1) - 1
      \<and> bs' = c[p' - 1 := t] \<and> length c = length bs \<and> k < p' \<and> p' \<le> length bs
      \<and> (t = h \<longrightarrow> p' = length bs)"
  using assms
proof (induction bs h k rule: remove_skip.induct)
  case (1 bs h k)
  define u where "u = bs ! k - 1"
  have k: "k < length bs" using "1.prems"(1) by (simp add: hole_layout_def)
  have eq: "remove_skip bs h k =
      (if h = u \<and> k + 1 < length bs then remove_skip (bs[k := u]) h (k + 1) else (u, bs[k := u], k + 1))"
    by (subst remove_skip.simps) (simp add: u_def Let_def)
  show ?case
  proof (cases "h = u \<and> k + 1 < length bs")
    case True
    have lay: "hole_layout n pr ix (bs[k := u]) ps h (k + 1) x"
      using hole_to_next(1) [OF "1.prems"(1) _ u_def] True by simp
    have "remove_skip (bs[k := u]) h (k + 1) = (t, bs', p')"
      using "1.prems"(2) eq True by simp
    from "1.IH" [OF u_def refl refl _ lay this] True
    obtain c where "hole_layout n pr ix c ps h (p' - 1) x \<and> t = c ! (p' - 1) - 1
      \<and> bs' = c[p' - 1 := t] \<and> length c = length bs \<and> k + 1 < p' \<and> p' \<le> length bs
      \<and> (t = h \<longrightarrow> p' = length bs)"
      unfolding length_list_update by blast
    then show ?thesis by (intro exI [of _ c]) linarith
  next
    case False
    then have "remove_skip bs h k = (u, bs[k := u], k + 1)" unfolding eq by (rule if_not_P)
    then have "(t, bs', p') = (u, bs[k := u], k + 1)" using "1.prems"(2) by simp
    with "1.prems"(1) False k show ?thesis
      by (intro exI [of _ bs]) (auto simp: u_def)
  qed
qed

lemma hole_prev_in_range:
  assumes "hole_layout n pr ix bs ps h k x" and "t = bs ! k - 1"
  shows "t < length ps"
proof -
  from assms(1) have "sorted bs" "k < length bs" "last bs = length ps" "h < bs ! k"
    by (simp_all add: hole_layout_def)
  with sorted_last_ge [of bs k] assms(2) show ?thesis by linarith
qed

lemma remove_loop_layout:
  assumes "hole_layout (length pm) (prm s pm) (ixm pm) bs ps h k x"
    and "priority s (pm ! x) < 0" and "length pm < we_have_index"
    and "remove_loop ps pm bs k h h = (ps', pm', bs')"
  shows "layout (length pm) (prm s pm') (ixm pm') bs' (butlast ps') \<and> reindexed pm pm'"
  using assms
proof (induction "length bs - k" arbitrary: ps pm bs h k rule: less_induct)
  case less
  note hl = less.prems(1) and prx = less.prems(2) and n = less.prems(3)
  obtain t bs1 p1 where sk: "remove_skip bs h k = (t, bs1, p1)" by (metis prod_cases3)
  from remove_skip_hole [OF hl sk] obtain c where
    c: "hole_layout (length pm) (prm s pm) (ixm pm) c ps h (p1 - 1) x" "t = c ! (p1 - 1) - 1"
      "bs1 = c[p1 - 1 := t]" "length c = length bs" "k < p1" "p1 \<le> length bs"
      "t = h \<longrightarrow> p1 = length bs"
    by blast
  let ?pm = "set_pp_index (ps ! t) h pm" and ?ps = "ps[h := ps ! t]"
  have len1: "length bs1 = length bs" unfolding c(3) by (simp add: c(4))
  have eq: "remove_loop ps pm bs k h h =
      (if h = t then (ps, pm, bs1)
       else if p1 \<ge> length bs then (?ps, ?pm, bs1)
       else remove_loop ?ps ?pm bs1 p1 t t)"
    by (subst remove_loop.simps) (simp add: sk Let_def len1)
  consider (stay) "t = h" | (last) "t \<noteq> h" "p1 = length bs" | (more) "t \<noteq> h" "p1 < length bs"
    using c(6) by linarith
  then show ?case
  proof cases
    case stay
    with c(5,7) have p1: "Suc (p1 - 1) = length c" using c(4) by simp
    have "(ps', pm', bs') = (ps, pm, bs1)" using less.prems(4) stay eq by simp
    with hole_drop_last(1) [OF c(1) p1 c(2) prx stay] show ?thesis by (simp add: c(3))
  next
    case last
    with c(5) have p1: "Suc (p1 - 1) = length c" using c(4) by simp
    have res: "(ps', pm', bs') = (?ps, ?pm, bs1)" using less.prems(4) last eq by simp
    note lay = hole_drop_last(2) [OF c(1) p1 c(2) prx last(1)]
    have "t < length ps"
      by (rule hole_prev_in_range [OF c(1,2)])
    note e = hole_piece_reindex [OF c(1) this last(1) n]
    show ?thesis using lay res e(2) by (simp only: prod.inject e(1) reindexed_prm [OF e(2)] c(3))
  next
    case more
    have p1: "Suc (p1 - 1) < length c" "Suc (p1 - 1) = p1" using more(2) c(4,5) by auto
    note st = hole_step_next [OF c(1) p1(1) c(2) more(1) n, unfolded p1(2)]
    have len: "length ?pm = length pm" by (rule reindexed_length [OF st(2)])
    have "layout (length ?pm) (prm s pm') (ixm pm') bs' (butlast ps') \<and> reindexed ?pm pm'"
    proof (rule less.hyps)
      show "length bs1 - p1 < length bs - k" using len1 c(5) more(2) by simp
      show "hole_layout (length ?pm) (prm s ?pm) (ixm ?pm) bs1 ?ps t p1 x"
        using st(1) by (simp only: len c(3))
      show "priority s (?pm ! x) < 0"
        using prx reindexed_prm [OF st(2), of s, THEN fun_cong, of x] by simp
      show "length ?pm < we_have_index" using n len by simp
      show "remove_loop ?ps ?pm bs1 p1 t t = (ps', pm', bs')"
        using less.prems(4) more eq by simp
    qed
    with st(2) show ?thesis by (auto simp: len intro: reindexed_trans)
  qed
qed

section \<open>\<open>update\<close>\<close>

lemma update_move_cases:
  "update_move temp e t ps pm =
     (if temp = ps ! t then (temp, ps, pm)
      else (ps ! t, ps[e := ps ! t], set_pp_index (ps ! t) e pm))"
  by (simp add: update_move_def)

lemma update_down_layout:
  assumes "hole_layout (length pm) (prm s pm) (ixm pm) bs ps h k x"
    and "length pm < we_have_index" and "np < k"
    and "ps ! h = temp" and "\<And>q. q < h \<Longrightarrow> ps ! q \<noteq> temp"
    and "update_down ps pm bs k np temp h = (ps', pm', bs', e)"
  shows "hole_layout (length pm) (prm s pm') (ixm pm') bs' ps' e np x \<and> reindexed pm pm'"
  using assms
proof (induction k arbitrary: ps pm bs temp h)
  case 0
  then show ?case by simp
next
  case (Suc k)
  note hl = Suc.prems(1) and n = Suc.prems(2)
  define t where "t = bs ! k"
  have th: "t \<le> h" using hl by (simp add: hole_layout_def t_def)
  have move: "update_move temp h t ps pm =
      (if t = h then (temp, ps, pm) else (ps ! t, ps[h := ps ! t], set_pp_index (ps ! t) h pm))"
    using th Suc.prems(4) Suc.prems(5) [of t] by (auto simp: update_move_cases)
  have eq: "update_down ps pm bs (Suc k) np temp h =
      (let (temp', ps1, pm1) = update_move temp h t ps pm
       in if k = np then (ps1, pm1, bs[k := Suc t], t)
          else update_down ps1 pm1 (bs[k := Suc t]) k np temp' t)"
    unfolding t_def by (simp add: Let_def)
  note res = Suc.prems(6) [unfolded eq move]
  show ?case
  proof (cases "t = h")
    case True
    have st: "hole_layout (length pm) (prm s pm) (ixm pm) (bs[k := Suc t]) ps t k x"
      by (rule hole_to_prev(1) [OF hl t_def True])
    show ?thesis
    proof (cases "k = np")
      case kn: True
      with res st True show ?thesis by auto
    next
      case False
      with Suc.prems(3) have "np < k" by simp
      from Suc.IH [OF st n this] Suc.prems(4,5) res True False show ?thesis by simp
    qed
  next
    case False
    let ?pm = "set_pp_index (ps ! t) h pm" and ?ps = "ps[h := ps ! t]"
    note st = hole_step_prev [OF hl t_def False n]
    have len: "length ?pm = length pm" by (rule reindexed_length [OF st(2)])
    have tl: "t < length ps" and ht: "h \<noteq> t" using th False hole_in_range [OF hl] by auto
    have inj: "?ps ! q \<noteq> ps ! t" if "q < t" for q
      using hl that tl th False unfolding hole_layout_def
      by (metis (no_types, lifting) less_trans nat_neq_iff nth_list_update_neq order_le_less)
    show ?thesis
    proof (cases "k = np")
      case kn: True
      with res st False show ?thesis by auto
    next
      case kn: False
      with Suc.prems(3) have "np < k" by simp
      have "hole_layout (length ?pm) (prm s pm') (ixm pm') bs' ps' e np x \<and> reindexed ?pm pm'"
      proof (rule Suc.IH [OF _ _ \<open>np < k\<close>])
        show "hole_layout (length ?pm) (prm s ?pm) (ixm ?pm) (bs[k := Suc t]) ?ps t k x"
          using st(1) by (simp only: len)
        show "length ?pm < we_have_index" using n len by simp
        show "?ps ! t = ps ! t" using ht by simp
        show "\<And>q. q < t \<Longrightarrow> ?ps ! q \<noteq> ps ! t" by (rule inj)
        show "update_down ?ps ?pm (bs[k := Suc t]) k np (ps ! t) t = (ps', pm', bs', e)"
          using res False kn by simp
      qed
      with st(2) show ?thesis by (auto simp: len intro: reindexed_trans)
    qed
  qed
qed

lemma update_up_layout:
  assumes "hole_layout (length pm) (prm s pm) (ixm pm) bs ps h k x"
    and "length pm < we_have_index" and "k < np" and "np < length bs"
    and "ps ! h = temp" and "\<And>q. h < q \<Longrightarrow> q < length ps \<Longrightarrow> ps ! q \<noteq> temp"
    and "update_up ps pm bs k np temp h = (ps', pm', bs', e)"
  shows "hole_layout (length pm) (prm s pm') (ixm pm') bs' ps' e np x \<and> reindexed pm pm'"
  using assms
proof (induction "np - k" arbitrary: ps pm bs k temp h rule: less_induct)
  case less
  note hl = less.prems(1) and n = less.prems(2)
  define t where "t = bs ! k - 1"
  have th: "h \<le> t" using hl by (auto simp: hole_layout_def t_def)
  have tl: "t < length ps" by (rule hole_prev_in_range [OF hl t_def])
  have k: "Suc k < length bs" using less.prems(3,4) by simp
  have move: "update_move temp h t ps pm =
      (if t = h then (temp, ps, pm) else (ps ! t, ps[h := ps ! t], set_pp_index (ps ! t) h pm))"
    using th tl less.prems(5) less.prems(6) [of t] by (auto simp: update_move_cases)
  have eq: "update_up ps pm bs k np temp h =
      (let (temp', ps1, pm1) = update_move temp h t ps pm
       in if Suc k \<ge> np then (ps1, pm1, bs[k := t], t)
          else update_up ps1 pm1 (bs[k := t]) (Suc k) np temp' t)"
    unfolding t_def by (subst update_up.simps) (simp add: Let_def split: prod.split)
  note res = less.prems(7) [unfolded eq move]
  show ?case
  proof (cases "t = h")
    case True
    have st: "hole_layout (length pm) (prm s pm) (ixm pm) (bs[k := t]) ps t (Suc k) x"
      by (rule hole_to_next(1) [OF hl k t_def True])
    show ?thesis
    proof (cases "Suc k \<ge> np")
      case kn: True
      then have "np = Suc k" using less.prems(3) by simp
      with res st True show ?thesis by auto
    next
      case False
      have "hole_layout (length pm) (prm s pm') (ixm pm') bs' ps' e np x \<and> reindexed pm pm'"
      proof (rule less.hyps [OF _ st n])
        show "np - Suc k < np - k" "Suc k < np" using less.prems(3) False by auto
        show "np < length (bs[k := t])" using less.prems(4) by simp
        show "ps ! t = temp" using less.prems(5) True by simp
        show "\<And>q. t < q \<Longrightarrow> q < length ps \<Longrightarrow> ps ! q \<noteq> temp" using less.prems(6) True by simp
        show "update_up ps pm (bs[k := t]) (Suc k) np temp t = (ps', pm', bs', e)"
          using res True False by simp
      qed
      then show ?thesis .
    qed
  next
    case False
    let ?pm = "set_pp_index (ps ! t) h pm" and ?ps = "ps[h := ps ! t]"
    note st = hole_step_next [OF hl k t_def False n]
    have len: "length ?pm = length pm" by (rule reindexed_length [OF st(2)])
    have ht: "h \<noteq> t" using False by simp
    have inj: "?ps ! q \<noteq> ps ! t" if "t < q" "q < length ?ps" for q
    proof -
      from that th False have "q \<noteq> h" "q < length ps" by auto
      with hl tl ht have "ixm pm (ps ! q) = q" "ixm pm (ps ! t) = t" by (auto simp: hole_layout_def)
      with that \<open>q \<noteq> h\<close> show ?thesis by auto
    qed
    show ?thesis
    proof (cases "Suc k \<ge> np")
      case kn: True
      then have "np = Suc k" using less.prems(3) by simp
      with res st False show ?thesis by auto
    next
      case kn: False
      have "hole_layout (length ?pm) (prm s pm') (ixm pm') bs' ps' e np x \<and> reindexed ?pm pm'"
      proof (rule less.hyps)
        show "np - Suc k < np - k" "Suc k < np" using less.prems(3) kn by auto
        show "hole_layout (length ?pm) (prm s ?pm) (ixm ?pm) (bs[k := t]) ?ps t (Suc k) x"
          using st(1) by (simp only: len)
        show "length ?pm < we_have_index" using n len by simp
        show "np < length (bs[k := t])" using less.prems(4) by simp
        show "?ps ! t = ps ! t" using ht by simp
        show "\<And>q. t < q \<Longrightarrow> q < length ?ps \<Longrightarrow> ?ps ! q \<noteq> ps ! t" by (rule inj)
        show "update_up ?ps ?pm (bs[k := t]) (Suc k) np (ps ! t) t = (ps', pm', bs', e)"
          using res False kn by simp
      qed
      with st(2) show ?thesis by (auto simp: len intro: reindexed_trans)
    qed
  qed
qed

section \<open>The contracts\<close>

text \<open>
  Between two operations that do not leave the array dirty, the array is laid out for the
  current priorities.
\<close>

definition buckets_ok :: "piece_picker \<Rightarrow> bool" where
  "buckets_ok pk \<longleftrightarrow>
     layout (length (m_piece_map pk)) (prm (m_seeds pk) (m_piece_map pk)) (ixm (m_piece_map pk))
       (m_priority_boundries pk) (m_pieces pk)
   \<and> length (m_piece_map pk) < we_have_index"

text \<open>Laid out, but for piece \<open>x\<close>, which is at position \<open>e\<close> of bucket \<open>prio\<close>.\<close>

definition displaced :: "piece_picker \<Rightarrow> nat \<Rightarrow> nat \<Rightarrow> nat \<Rightarrow> bool" where
  "displaced pk prio e x \<longleftrightarrow>
     hole_layout (length (m_piece_map pk)) (prm (m_seeds pk) (m_piece_map pk)) (ixm (m_piece_map pk))
       (m_priority_boundries pk) (m_pieces pk) e prio x
   \<and> m_pieces pk ! e = x \<and> length (m_piece_map pk) < we_have_index"

text \<open>Only positions change.\<close>

definition moves_only :: "piece_picker \<Rightarrow> piece_picker \<Rightarrow> bool" where
  "moves_only pk pk' \<longleftrightarrow> reindexed (m_piece_map pk) (m_piece_map pk')
   \<and> m_seeds pk' = m_seeds pk \<and> m_downloads pk' = m_downloads pk
   \<and> m_block_info pk' = m_block_info pk \<and> m_blocks_per_piece pk' = m_blocks_per_piece pk
   \<and> m_blocks_in_last_piece pk' = m_blocks_in_last_piece pk
   \<and> m_num_filtered pk' = m_num_filtered pk \<and> m_num_have_filtered pk' = m_num_have_filtered pk
   \<and> m_num_have pk' = m_num_have pk \<and> m_cursor pk' = m_cursor pk
   \<and> m_reverse_cursor pk' = m_reverse_cursor pk \<and> m_sparse_regions pk' = m_sparse_regions pk
   \<and> m_dirty pk' = m_dirty pk"

lemma moves_only_refl [simp]: "moves_only pk pk"
  by (simp add: moves_only_def)

lemma moves_only_trans: "moves_only a b \<Longrightarrow> moves_only b c \<Longrightarrow> moves_only a c"
  by (auto simp: moves_only_def intro: reindexed_trans)

lemma remove_contract:
  assumes d: "displaced pk prio e x" and neg: "prio_of pk x < 0"
  shows "buckets_ok (remove prio e pk) \<and> moves_only pk (remove prio e pk)"
proof -
  obtain ps pm bs where rl: "remove_loop (m_pieces pk) (m_piece_map pk) (m_priority_boundries pk)
      prio e e = (ps, pm, bs)" by (metis prod_cases3)
  from d have hl: "hole_layout (length (m_piece_map pk)) (prm (m_seeds pk) (m_piece_map pk))
      (ixm (m_piece_map pk)) (m_priority_boundries pk) (m_pieces pk) e prio x"
    and n: "length (m_piece_map pk) < we_have_index" by (simp_all add: displaced_def)
  from remove_loop_layout [OF hl neg n rl] n show ?thesis
    by (auto simp: buckets_ok_def moves_only_def remove_def rl reindexed_length)
qed

lemma layout_at:
  assumes "layout n (prm s pm) (ixm pm) bs ps" "q < length ps"
  shows "ps ! q < n" "ixm pm (ps ! q) = q" "priority s (pm ! (ps ! q)) \<ge> 0"
    "\<not> have_pos (pm ! (ps ! q))"
proof -
  from assms show 1: "ps ! q < n" "ixm pm (ps ! q) = q" by (simp_all add: layout_def)
  from assms have "in_bucket (prm s pm) bs q (ps ! q)" by (simp add: layout_def)
  then show 2: "priority s (pm ! (ps ! q)) \<ge> 0" by (elim in_bucketE) simp
  show "\<not> have_pos (pm ! (ps ! q))" by (rule priority_ge_0_not_have [OF 2])
qed

lemma shuffle_contract:
  assumes ok: "buckets_ok pk" and k: "prio < length (m_priority_boundries pk)"
    and e: "bucket_start (m_priority_boundries pk) prio \<le> e" "e < m_priority_boundries pk ! prio"
  shows "buckets_ok (shuffle r prio e pk) \<and> moves_only pk (shuffle r prio e pk)"
proof -
  let ?bs = "m_priority_boundries pk" and ?ps = "m_pieces pk" and ?pm = "m_piece_map pk"
  define lo where "lo = bucket_start ?bs prio"
  define other where "other = r mod (?bs ! prio - lo) + lo"
  have range: "priority_range ?bs prio = (lo, ?bs ! prio)"
    by (simp add: priority_range_def lo_def bucket_start_def)
  have o: "lo \<le> other" "other < ?bs ! prio"
    using e mod_less_divisor [of "?bs ! prio - lo" r]
    unfolding other_def lo_def by linarith+
  from ok have lay: "layout (length ?pm) (prm (m_seeds pk) ?pm) (ixm ?pm) ?bs ?ps"
    and n: "length ?pm < we_have_index" by (simp_all add: buckets_ok_def)
  show ?thesis
  proof (cases "other = e")
    case True
    with ok range show ?thesis by (simp add: shuffle_def other_def [symmetric])
  next
    case False
    let ?a = "?ps ! other" and ?b = "?ps ! e"
    have l: "other < length ?ps" "e < length ?ps"
      using lay sorted_last_ge [of ?bs prio] k o e by (auto simp: layout_def)
    have at: "?ps ! q < length ?pm" "ixm ?pm (?ps ! q) = q" "\<not> have_pos (?pm ! (?ps ! q))"
      if "q < length ?ps" for q
      using layout_at [OF lay that] by auto
    have small: "other < we_have_index" "e < we_have_index" using l layout_length [OF lay] n by auto
    note e1 = set_pp_index_effect [OF at(1,3) [OF l(1)] small(2)]
    have b: "?b < length (set_pp_index ?a e ?pm)" "\<not> have_pos (set_pp_index ?a e ?pm ! ?b)"
      using e1(3) at(1,3) [OF l(2)] norm_pos_eqD(4) [OF reindexed_nth [OF e1(2) at(1) [OF l(2)]]]
      by auto
    note e2 = set_pp_index_effect [OF b small(1)]
    define pm2 where "pm2 = set_pp_index ?b other (set_pp_index ?a e ?pm)"
    have re: "reindexed ?pm pm2" unfolding pm2_def by (rule reindexed_trans [OF e1(2) e2(2)])
    have ix: "ixm pm2 = (ixm ?pm)(?a := e, ?b := other)" unfolding pm2_def by (simp only: e2(1) e1(1))
    have "layout (length ?pm) (prm (m_seeds pk) pm2) (ixm pm2) ?bs (?ps[other := ?b, e := ?a])"
      using layout_swap [OF lay k o [unfolded lo_def] e False]
      by (simp only: ix reindexed_prm [OF re])
    moreover have "shuffle r prio e pk = pk\<lparr>m_piece_map := pm2, m_pieces := ?ps[other := ?b, e := ?a]\<rparr>"
      using False at(2) [OF l(1)] at(2) [OF l(2)]
      by (simp add: shuffle_def range other_def [symmetric] pm2_def Let_def)
    ultimately show ?thesis
      using n re reindexed_length [OF re]
      by (simp add: buckets_ok_def moves_only_def)
  qed
qed

lemma hole_extend:
  assumes "hole_layout n pr ix bs ps h k x"
  shows "hole_layout n pr ix (bs @ replicate m (length ps)) ps h k x"
proof -
  from assms have bs: "bs \<noteq> []" "sorted bs" "last bs = length ps" by (auto simp: hole_layout_def)
  have "sorted (bs @ replicate m (length ps))"
    using bs sorted_last_ge [OF bs(2)] by (auto simp: sorted_append in_set_conv_nth)
  moreover have "last (bs @ replicate m (length ps)) = length ps"
    using bs by (cases m) auto
  moreover have "in_bucket pr (bs @ replicate m (length ps)) q y" if "in_bucket pr bs q y" for q y
    using that by (elim in_bucketE) (auto simp: in_bucket_def bucket_start_def nth_append)
  moreover have "k < length (bs @ replicate m (length ps))"
    "bucket_start (bs @ replicate m (length ps)) k \<le> h" "h < (bs @ replicate m (length ps)) ! k"
    using assms by (auto simp: hole_layout_def bucket_start_def nth_append)
  ultimately show ?thesis using assms unfolding hole_layout_def by blast
qed

lemma update_contract:
  assumes d: "displaced pk prio e x" and ix: "prio_of pk x \<ge> 0 \<Longrightarrow> pp_index (m_piece_map pk ! x) = e"
    and ge: "prio_of pk x \<ge> -1"
  shows "buckets_ok (update r prio e pk) \<and> moves_only pk (update r prio e pk)"
proof -
  let ?bs = "m_priority_boundries pk" and ?ps = "m_pieces pk" and ?pm = "m_piece_map pk"
  let ?s = "m_seeds pk" and ?n = "length (m_piece_map pk)"
  from d have hl: "hole_layout ?n (prm ?s ?pm) (ixm ?pm) ?bs ?ps e prio x"
    and x: "?ps ! e = x" and n: "?n < we_have_index" by (simp_all add: displaced_def)
  consider (same) "prio_of pk x = int prio" | (gone) "prio_of pk x = -1"
    | (move) "prio_of pk x \<ge> 0" "prio_of pk x \<noteq> int prio" using ge by linarith
  then show ?thesis
  proof cases
    case same
    then have "(ixm ?pm)(x := e) = ixm ?pm" using ix by auto
    with hole_fill [OF hl same] same n have "buckets_ok pk" by (simp add: buckets_ok_def flip: x)
    with same show ?thesis by (simp add: update_def x)
  next
    case gone
    with remove_contract [OF d] show ?thesis by (simp add: update_def x)
  next
    case move
    define np where "np = nat (prio_of pk x)"
    define m where "m = np + 1 - length ?bs"
    define bs where "bs = ?bs @ replicate m (length ?ps)"
    have np: "prio_of pk x = int np" "np \<noteq> prio" using move by (auto simp: np_def)
    have bs_eq: "bs = (if length ?bs \<le> np then ?bs @ replicate (np + 1 - length ?bs) (length ?ps) else ?bs)"
      by (auto simp: bs_def m_def)
    have hl': "hole_layout ?n (prm ?s ?pm) (ixm ?pm) bs ?ps e prio x"
      unfolding bs_def by (rule hole_extend [OF hl])
    have npl: "np < length bs" by (auto simp: bs_def m_def)
    obtain ps pm bs' e' where loop:
      "(if prio > np then update_down ?ps ?pm bs prio np x e else update_up ?ps ?pm bs prio np x e)
        = (ps, pm, bs', e')" by (metis prod_cases4)
    have only: "?ps ! q \<noteq> x" if "q < length ?ps" "q \<noteq> e" for q
      using hl that by (simp add: hole_layout_def)
    have el: "e < length ?ps" by (rule hole_in_range [OF hl])
    have res: "hole_layout ?n (prm ?s pm) (ixm pm) bs' ps e' np x \<and> reindexed ?pm pm"
    proof (cases "prio > np")
      case True
      show ?thesis
        by (rule update_down_layout [OF hl' n True x]) (use only el loop True in auto)
    next
      case False
      with np(2) have "prio < np" by simp
      show ?thesis
        by (rule update_up_layout [OF hl' n \<open>prio < np\<close> npl x]) (use only loop False in auto)
    qed
    then have hole: "hole_layout ?n (prm ?s pm) (ixm pm) bs' ps e' np x" and re: "reindexed ?pm pm"
      by auto
    have prx: "priority ?s (pm ! x) = int np"
      using reindexed_prm [OF re, of ?s, THEN fun_cong, of x] np by simp
    have len: "length pm = ?n" by (rule reindexed_length [OF re])
    have xn: "x < length pm" using hole len by (simp add: hole_layout_def)
    have small: "e' < we_have_index"
      using hole_in_range [OF hole] hole_layout_length [OF hole] n by simp
    have nh: "\<not> have_pos (pm ! x)" by (rule priority_ge_0_not_have [of ?s]) (simp add: prx)
    note eff = set_pp_index_effect [OF xn nh small]
    define pk' where "pk' = pk\<lparr>m_pieces := ps[e' := x], m_piece_map := set_pp_index x e' pm,
      m_priority_boundries := bs'\<rparr>"
    have lay: "layout ?n (prm ?s (set_pp_index x e' pm)) (ixm (set_pp_index x e' pm)) bs' (ps[e' := x])"
      using hole_fill [OF hole prx] by (simp only: eff(1) reindexed_prm [OF eff(2)])
    have ok: "buckets_ok pk'" using lay n len eff(3) by (simp add: buckets_ok_def pk'_def)
    have mo: "moves_only pk pk'"
      using reindexed_trans [OF re eff(2)] by (simp add: moves_only_def pk'_def)
    have upd: "update r prio e pk = shuffle r np e' pk'"
      using move(2) np(1) loop [unfolded bs_eq] by (simp add: update_def x Let_def pk'_def split del: if_split)
    have "buckets_ok (shuffle r np e' pk') \<and> moves_only pk' (shuffle r np e' pk')"
      by (rule shuffle_contract [OF ok]) (use hole in \<open>auto simp: pk'_def hole_layout_def\<close>)
    with upd mo show ?thesis by (auto intro: moves_only_trans)
  qed
qed

section \<open>\<open>add\<close>\<close>

text \<open>The boundaries \<open>bs\<close> with those from \<open>p\<close> up to \<open>k\<close> incremented.\<close>

definition bumped :: "nat list \<Rightarrow> nat \<Rightarrow> nat \<Rightarrow> nat list" where
  "bumped bs p k = map (\<lambda>m. if p \<le> m \<and> m < k then Suc (bs ! m) else bs ! m) [0..<length bs]"

lemma length_bumped [simp]: "length (bumped bs p k) = length bs"
  by (simp add: bumped_def)

lemma nth_bumped:
  "m < length bs \<Longrightarrow> bumped bs p k ! m = (if p \<le> m \<and> m < k then Suc (bs ! m) else bs ! m)"
  by (simp add: bumped_def)

lemma bumped_start [simp]: "bumped bs p p = bs"
  by (rule nth_equalityI) (auto simp: nth_bumped)

lemma bumped_step: "p \<le> k \<Longrightarrow> k < length bs \<Longrightarrow> (bumped bs p k)[k := Suc (bs ! k)] = bumped bs p (Suc k)"
  by (rule nth_equalityI) (auto simp: nth_bumped nth_list_update)

lemma add_skip_spec:
  assumes "p \<le> k" "k < length bs"
  shows "\<exists>j. k \<le> j \<and> j < length bs \<and> (\<forall>m. k \<le> m \<and> m < j \<longrightarrow> bs ! m = i)
    \<and> (bs ! j \<noteq> i \<or> Suc j = length bs)
    \<and> add_skip (bumped bs p k) i k = (bs ! j, bumped bs p (Suc j), Suc j)"
  using assms
proof (induction "length bs - k" arbitrary: k rule: less_induct)
  case less
  have eq: "add_skip (bumped bs p k) i k =
      (if bs ! k = i \<and> Suc k < length bs then add_skip (bumped bs p (Suc k)) i (Suc k)
       else (bs ! k, bumped bs p (Suc k), Suc k))"
    using less.prems bumped_step [OF less.prems]
    by (subst add_skip.simps) (auto simp: Let_def nth_bumped)
  show ?case
  proof (cases "bs ! k = i \<and> Suc k < length bs")
    case True
    then obtain j where j: "Suc k \<le> j" "j < length bs" "\<forall>m. Suc k \<le> m \<and> m < j \<longrightarrow> bs ! m = i"
      "bs ! j \<noteq> i \<or> Suc j = length bs"
      "add_skip (bumped bs p (Suc k)) i (Suc k) = (bs ! j, bumped bs p (Suc j), Suc j)"
      using less.hyps [of "Suc k"] less.prems by (metis diff_less_mono2 le_SucI lessI)
    have "\<forall>m. k \<le> m \<and> m < j \<longrightarrow> bs ! m = i"
      using j(3) True by (metis Suc_leI le_neq_implies_less)
    with j True eq show ?thesis by (intro exI [of _ j]) simp
  next
    case False
    with less.prems eq show ?thesis by (intro exI [of _ k]) auto
  qed
qed

text \<open>
  Between two turns of the loop: piece \<open>c\<close> is about to be put at position \<open>i\<close>. Below \<open>i\<close>
  the array is laid out for the incremented boundaries, above it for the old ones.
\<close>

definition carry_layout ::
  "nat \<Rightarrow> (nat \<Rightarrow> int) \<Rightarrow> (nat \<Rightarrow> nat) \<Rightarrow> nat list \<Rightarrow> nat \<Rightarrow> nat option list \<Rightarrow> nat \<Rightarrow> nat \<Rightarrow> bool" where
  "carry_layout n pr ix bs p ps i c \<longleftrightarrow>
     bs \<noteq> [] \<and> sorted bs \<and> length ps = Suc (last bs) \<and> i \<le> last bs \<and> c < n
   \<and> in_bucket pr (bumped bs p (length bs)) i c
   \<and> ps ! last bs = None
   \<and> (\<forall>q < last bs. \<exists>y. ps ! q = Some y \<and> y < n \<and> y \<noteq> c \<and> ix y = q
        \<and> in_bucket pr (if q < i then bumped bs p (length bs) else bs) q y)
   \<and> (\<forall>y < n. y \<noteq> c \<longrightarrow> pr y \<ge> 0 \<longrightarrow> ix y < last bs \<and> ps ! ix y = Some y)"

lemma in_bucket_at:
  assumes "in_bucket pr bs q y" "sorted bs" "j < length bs" "bucket_start bs j \<le> q" "q < bs ! j"
  shows "pr y = int j"
  using assms by (elim in_bucketE) (metis bucket_unique)

lemma bumped_bucket:
  assumes "j < length bs" "p \<le> j" "bucket_start bs j < q \<or> j = p \<and> bucket_start bs j \<le> q"
    "q \<le> bs ! j" "pr y = int j"
  shows "in_bucket pr (bumped bs p (length bs)) q y"
  using assms unfolding in_bucket_def
  by (intro exI [of _ j]) (auto simp: bucket_start_def nth_bumped split: if_splits)

lemma carry_step:
  assumes cl: "carry_layout n pr ix bs p ps i c" and il: "i < last bs"
    and j: "p \<le> j" "j < length bs" "bucket_start bs j \<le> i" "i < bs ! j"
    and d: "ps ! i = Some d"
  shows "carry_layout n pr (ix(c := i)) bs p (ps[i := Some c]) (bs ! j) d" and "pr d = int j"
proof -
  let ?fb = "bumped bs p (length bs)" and ?ps = "ps[i := Some c]" and ?L = "last bs"
  from cl have bs: "bs \<noteq> []" "sorted bs" "length ps = Suc ?L" and c: "c < n" "in_bucket pr ?fb i c"
    and at: "\<And>q. q < ?L \<Longrightarrow> \<exists>y. ps ! q = Some y \<and> y < n \<and> y \<noteq> c \<and> ix y = q
        \<and> in_bucket pr (if q < i then ?fb else bs) q y"
    and loc: "\<And>y. y < n \<Longrightarrow> y \<noteq> c \<Longrightarrow> pr y \<ge> 0 \<Longrightarrow> ix y < ?L \<and> ps ! ix y = Some y"
    and none: "ps ! ?L = None"
    unfolding carry_layout_def by blast+
  have ij: "bs ! j \<le> ?L" by (rule sorted_last_ge [OF bs(2) j(2)])
  from at [OF il] d have d': "d < n" "d \<noteq> c" "ix d = i" "in_bucket pr bs i d" by auto
  show prd: "pr d = int j" by (rule in_bucket_at [OF d'(4) bs(2) j(2-4)])
  have "in_bucket pr ?fb (bs ! j) d" by (rule bumped_bucket) (use j prd in auto)
  moreover have "\<exists>y. ?ps ! q = Some y \<and> y < n \<and> y \<noteq> d \<and> (ix(c := i)) y = q
        \<and> in_bucket pr (if q < bs ! j then ?fb else bs) q y" if q: "q < ?L" for q
  proof (cases "q = i")
    case True
    with c d' bs il j show ?thesis by simp
  next
    case False
    from at [OF q] obtain y where y: "ps ! q = Some y" "y < n" "y \<noteq> c" "ix y = q"
      and b: "in_bucket pr (if q < i then ?fb else bs) q y" by blast
    have "in_bucket pr (if q < bs ! j then ?fb else bs) q y"
    proof (cases "i < q \<and> q < bs ! j")
      case True
      with b have "in_bucket pr bs q y" by simp
      from in_bucket_at [OF this bs(2) j(2)] True j have "pr y = int j" by simp
      with True j show ?thesis by (auto intro!: bumped_bucket)
    next
      case nb: False
      with b False j show ?thesis by (auto split: if_splits)
    qed
    with y d' False show ?thesis by auto
  qed
  moreover have "(ix(c := i)) y < ?L \<and> ?ps ! (ix(c := i)) y = Some y"
    if y: "y < n" "y \<noteq> d" "pr y \<ge> 0" for y
    using loc [of y] y il bs d by (cases "y = c") (auto simp: nth_list_update)
  ultimately show "carry_layout n pr (ix(c := i)) bs p ?ps (bs ! j) d"
    using bs d' ij none il unfolding carry_layout_def by auto
qed

lemma sorted_bumped:
  assumes "sorted bs" shows "sorted (bumped bs p (length bs))"
proof -
  have "bs ! i \<le> bs ! j" if "i \<le> j" "j < length bs" for i j
    using assms that by (simp add: sorted_nth_mono)
  then show ?thesis by (auto simp: sorted_iff_nth_mono nth_bumped intro: le_SucI)
qed

lemma carry_end:
  assumes cl: "carry_layout n pr ix bs p ps i c" and il: "i = last bs" and p: "p < length bs"
  shows "layout n pr (ix(c := i)) (bumped bs p (length bs)) (map the (ps[i := Some c]))"
proof -
  let ?fb = "bumped bs p (length bs)"
  from cl have bs: "bs \<noteq> []" "sorted bs" "length ps = Suc i" and c: "c < n" "in_bucket pr ?fb i c"
    and at: "\<And>q. q < i \<Longrightarrow> \<exists>y. ps ! q = Some y \<and> y < n \<and> y \<noteq> c \<and> ix y = q \<and> in_bucket pr ?fb q y"
    and loc: "\<And>y. y < n \<Longrightarrow> y \<noteq> c \<Longrightarrow> pr y \<ge> 0 \<Longrightarrow> ix y < i \<and> ps ! ix y = Some y"
    unfolding carry_layout_def il by auto
  have fb: "?fb \<noteq> []" "last ?fb = Suc i"
    using bs p il by (auto simp: last_conv_nth nth_bumped simp flip: length_0_conv)
  define ps' where "ps' = map the (ps[i := Some c])"
  define ix' where "ix' = ix(c := i)"
  have "ps' ! q < n \<and> ix' (ps' ! q) = q \<and> in_bucket pr ?fb q (ps' ! q)" if "q < Suc i" for q
    using that at [of q] bs c by (cases "q = i") (auto simp: ps'_def ix'_def)
  moreover have "ix' y < Suc i \<and> ps' ! ix' y = y" if "y < n" "pr y \<ge> 0" for y
    using that loc [of y] bs by (cases "y = c") (auto simp: ps'_def ix'_def)
  moreover have "length ps' = Suc i" using bs by (simp add: ps'_def)
  ultimately have "layout n pr ix' ?fb ps'" using fb sorted_bumped [OF bs(2)] by (simp add: layout_def)
  then show ?thesis by (simp add: ps'_def ix'_def)
qed

lemma carry_small:
  assumes "carry_layout n pr ix bs p ps i c" shows "last bs < n"
proof -
  from assms have c: "c < n" and at: "\<And>q. q < last bs \<Longrightarrow> \<exists>y. ps ! q = Some y \<and> y < n \<and> y \<noteq> c \<and> ix y = q"
    unfolding carry_layout_def by blast+
  have "inj_on (\<lambda>q. the (ps ! q)) {..<last bs}"
    by (rule inj_on_inverseI [of _ ix]) (use at in fastforce)
  moreover have "(\<lambda>q. the (ps ! q)) ` {..<last bs} \<subseteq> {..<n} - {c}" using at by fastforce
  ultimately have "card {..<last bs} \<le> card ({..<n} - {c})" by (intro card_inj_on_le) auto
  with c show ?thesis by simp
qed

definition place_rest :: "nat option list \<times> piece_pos list \<times> nat list \<times> nat option \<times> nat \<Rightarrow>
    nat option list \<times> piece_pos list \<times> nat list" where
  "place_rest = (\<lambda>(ps, pm, bs, index, new_index).
     case index of None \<Rightarrow> (ps, pm, bs)
     | Some y \<Rightarrow> (ps[new_index := Some y], set_pp_index y new_index pm, bs))"

lemma add_loop_layout:
  assumes "carry_layout (length pm) (prm s pm) (ixm pm) bs p ps i c"
    and "length pm < we_have_index" "p \<le> k" "k < length bs" "bucket_start bs k \<le> i" "i \<le> bs ! k"
    and "place_rest (add_loop ps pm (bumped bs p k) (Some c) i k) = (ps', pm', bs')"
  shows "layout (length pm) (prm s pm') (ixm pm') bs' (map the ps') \<and> reindexed pm pm'"
  using assms
proof (induction "length bs - k" arbitrary: k ps pm i c rule: less_induct)
  case less
  note cl = less.prems(1) and n = less.prems(2)
  let ?L = "last bs" and ?pm = "set_pp_index c i pm"
  from cl have bs: "bs \<noteq> []" "sorted bs" and c: "c < length pm" and iL: "i \<le> ?L"
    and "in_bucket (prm s pm) (bumped bs p (length bs)) i c"
    and none: "ps ! ?L = None" and ex: "i < ?L \<Longrightarrow> \<exists>d. ps ! i = Some d"
    unfolding carry_layout_def by blast+
  then have nh: "\<not> have_pos (pm ! c)"
    by (intro priority_ge_0_not_have [of s]) (auto elim!: in_bucketE)
  have small: "?L < we_have_index" using carry_small [OF cl] n by simp
  note eff = set_pp_index_effect [OF c nh le_less_trans [OF iL small]]
  obtain j where j: "k \<le> j" "j < length bs" "\<forall>m. k \<le> m \<and> m < j \<longrightarrow> bs ! m = i"
    "bs ! j \<noteq> i \<or> Suc j = length bs"
    and skip: "add_skip (bumped bs p k) i k = (bs ! j, bumped bs p (Suc j), Suc j)"
    using add_skip_spec [OF less.prems(3,4)] by blast
  have loop: "add_loop ps pm (bumped bs p k) (Some c) i k =
      (if Suc j \<ge> length bs then (ps[i := Some c], ?pm, bumped bs p (Suc j), ps ! i, bs ! j)
       else add_loop (ps[i := Some c]) ?pm (bumped bs p (Suc j)) (ps ! i) (bs ! j) (Suc j))"
    by (subst add_loop.simps) (simp add: skip set_opt_index_def)
  have kj: "i \<le> bs ! j" using less.prems(6) sorted_nth_mono [OF bs(2) j(1,2)] by simp
  have lastj: "Suc j = length bs \<Longrightarrow> bs ! j = ?L" using bs by (cases bs rule: rev_cases) auto
  have step_re: "reindexed pm ?pm" "length ?pm = length pm" using eff by auto
  have prm: "prm s ?pm = prm s pm" by (rule reindexed_prm [OF eff(2)])
  show ?case
  proof (cases "i = ?L")
    case True
    then have "Suc j = length bs" using j kj sorted_last_ge [OF bs(2) j(2)] by auto
    with True none loop less.prems(7) have r: "ps' = ps[i := Some c]" "pm' = ?pm" "bs' = bumped bs p (length bs)"
      by (auto simp: place_rest_def)
    show ?thesis
      using carry_end [OF cl True] less.prems(3,4) eff by (simp add: r prm eff(1) del: fun_upd_apply)
  next
    case False
    with iL have il: "i < ?L" by simp
    then obtain d where d: "ps ! i = Some d" using ex by blast
    have ij: "i < bs ! j" using kj j(4) lastj il by auto
    have st: "bucket_start bs j \<le> i"
      using less.prems(5) j(1,3) by (cases "j = k") (auto simp: bucket_start_def)
    have pj: "p \<le> j" using less.prems(3) j(1) by simp
    from carry_step(1) [OF cl il pj j(2) st ij d]
    have cl': "carry_layout (length ?pm) (prm s ?pm) (ixm ?pm) bs p (ps[i := Some c]) (bs ! j) d"
      by (simp only: prm eff(1,3))
    show ?thesis
    proof (cases "Suc j < length bs")
      case True
      have "layout (length ?pm) (prm s pm') (ixm pm') bs' (map the ps') \<and> reindexed ?pm pm'"
        using less.prems(7) loop True d j(1) n eff(3) pj sorted_nth_mono [OF bs(2), of j "Suc j"]
        by (intro less.hyps [OF _ cl']) auto
      with eff show ?thesis by (auto intro: reindexed_trans)
    next
      case stop: False
      then have sj: "Suc j = length bs" "bs ! j = ?L" using j(2) lastj by auto
      let ?pm2 = "set_pp_index d ?L ?pm"
      from loop stop d sj less.prems(7)
      have r: "ps' = (ps[i := Some c])[?L := Some d]" "pm' = ?pm2" "bs' = bumped bs p (length bs)"
        by (auto simp: place_rest_def)
      have dl: "d < length ?pm" "\<not> have_pos (?pm ! d)"
        using cl' carry_step(2) [OF cl il pj j(2) st ij d] fun_cong [OF prm, of d]
        by (auto simp: carry_layout_def intro!: priority_ge_0_not_have [of s])
      note eff2 = set_pp_index_effect [OF dl small]
      have prm2: "prm s ?pm2 = prm s ?pm" by (rule reindexed_prm [OF eff2(2)])
      have "layout (length ?pm) (prm s ?pm2) (ixm ?pm2) (bumped bs p (length bs)) (map the ps')"
        using carry_end [OF cl'] less.prems(3,4) sj by (simp only: r prm2 eff2(1))
      with eff eff2 r show ?thesis by (auto intro: reindexed_trans)
    qed
  qed
qed

text \<open>The array is laid out, but for piece \<open>x\<close>, which is not in it.\<close>

definition absent :: "piece_picker \<Rightarrow> nat \<Rightarrow> bool" where
  "absent pk x \<longleftrightarrow>
     layout (length (m_piece_map pk)) ((prm (m_seeds pk) (m_piece_map pk))(x := -1))
       (ixm (m_piece_map pk)) (m_priority_boundries pk) (m_pieces pk)
   \<and> x < length (m_piece_map pk) \<and> length (m_piece_map pk) < we_have_index"

lemma in_bucket_other: "y \<noteq> x \<Longrightarrow> in_bucket (pr(x := v)) bs q y = in_bucket pr bs q y"
  by (simp add: in_bucket_def)

lemma in_bucket_removed: "in_bucket (pr(x := -1)) bs q y \<Longrightarrow> y \<noteq> x \<and> in_bucket pr bs q y"
  by (auto simp: in_bucket_def split: if_splits)

lemma absent_carry:
  assumes lay: "layout n (pr(x := -1)) ix bs ps" and x: "x < n" "pr x = int p"
    and p: "p < length bs" and i: "bucket_start bs p \<le> i" "i \<le> bs ! p"
  shows "carry_layout n pr ix bs p (map Some ps @ [None]) i x"
proof -
  from lay have bs: "bs \<noteq> []" "sorted bs" "last bs = length ps"
    and at: "\<And>q. q < length ps \<Longrightarrow> ps ! q < n \<and> ix (ps ! q) = q \<and> in_bucket (pr(x := -1)) bs q (ps ! q)"
    and loc: "\<And>y. y < n \<Longrightarrow> y \<noteq> x \<Longrightarrow> pr y \<ge> 0 \<Longrightarrow> ix y < length ps \<and> ps ! ix y = y"
    by (auto simp: layout_def)
  have new: "in_bucket pr (bumped bs p (length bs)) i x" by (rule bumped_bucket) (use i p x in auto)
  have "\<exists>y. (map Some ps @ [None]) ! q = Some y \<and> y < n \<and> y \<noteq> x \<and> ix y = q
      \<and> in_bucket pr (if q < i then bumped bs p (length bs) else bs) q y" if q: "q < length ps" for q
  proof -
    from at [OF q] in_bucket_removed [of pr x bs q "ps ! q"]
    have y: "ps ! q < n" "ps ! q \<noteq> x" "ix (ps ! q) = q" and b: "in_bucket pr bs q (ps ! q)" by auto
    from b obtain k where k: "k < length bs" "pr (ps ! q) = int k" "bucket_start bs k \<le> q" "q < bs ! k"
      by (rule in_bucketE)
    have "in_bucket pr (bumped bs p (length bs)) q (ps ! q)" if "q < i"
    proof (cases "p < k")
      case True
      then have "bs ! p \<le> bs ! (k - 1)" using bs(2) k(1) by (intro sorted_nth_mono) auto
      with True k i that show ?thesis by (simp add: bucket_start_def split: if_splits)
    next
      case False
      with k show ?thesis unfolding in_bucket_def
        by (intro exI [of _ k]) (auto simp: nth_bumped bucket_start_def split: if_splits)
    qed
    with y b q show ?thesis by (simp add: nth_append)
  qed
  moreover have "i \<le> length ps" using i sorted_last_ge [OF bs(2) p] bs(3) by simp
  ultimately show ?thesis using bs x new loc
    unfolding carry_layout_def by (auto simp: nth_append)
qed

lemma add_contract:
  assumes a: "absent pk x" and pos: "prio_of pk x \<ge> 0"
  shows "buckets_ok (add r x pk) \<and> moves_only pk (add r x pk)"
proof -
  let ?bs = "m_priority_boundries pk" and ?ps = "m_pieces pk" and ?pm = "m_piece_map pk"
  define p where "p = nat (prio_of pk x)"
  define bs where "bs = (if length ?bs \<le> p then ?bs @ replicate (p + 1 - length ?bs) (length ?ps) else ?bs)"
  define lo where "lo = bucket_start bs p"
  define hi where "hi = bs ! p"
  define i where "i = (if hi = lo then lo else r mod (hi - lo + 1) + lo)"
  from a have lay: "layout (length ?pm) ((prm (m_seeds pk) ?pm)(x := -1)) (ixm ?pm) bs ?ps"
    and x: "x < length ?pm" and n: "length ?pm < we_have_index"
    by (auto simp: absent_def bs_def layout_extend)
  have pl: "p < length bs" by (auto simp: bs_def)
  have lohi: "lo \<le> hi" unfolding lo_def hi_def
    using lay pl by (intro bucket_start_le) (auto simp: layout_def)
  have "r mod (hi - lo + 1) < hi - lo + 1" by simp
  with lohi have "r mod (hi - lo + 1) + lo \<le> hi" by linarith
  with lohi have i: "lo \<le> i" "i \<le> hi" by (simp_all add: i_def)
  have cl: "carry_layout (length ?pm) (prm (m_seeds pk) ?pm) (ixm ?pm) bs p (map Some ?ps @ [None]) i x"
    using absent_carry [OF lay x _ pl] i pos by (simp add: lo_def hi_def p_def)
  obtain ps pm bs' where res: "place_rest (add_loop (map Some ?ps @ [None]) ?pm bs (Some x) i p) = (ps, pm, bs')"
    by (metis prod_cases3)
  from add_loop_layout [OF cl n order.refl pl] i res
  have fin: "layout (length ?pm) (prm (m_seeds pk) pm) (ixm pm) bs' (map the ps)" "reindexed ?pm pm"
    by (simp_all add: lo_def hi_def)
  have range: "priority_range bs p = (lo, hi)"
    by (simp add: priority_range_def lo_def hi_def bucket_start_def)
  have "add r x pk = pk\<lparr>m_pieces := map the ps, m_piece_map := pm, m_priority_boundries := bs'\<rparr>"
    unfolding add_def Let_def p_def [symmetric] bs_def [symmetric] range prod.case i_def [symmetric]
    using res by (auto simp: place_rest_def split: prod.splits option.splits)
  with fin n reindexed_length [OF fin(2)] show ?thesis by (simp add: buckets_ok_def moves_only_def)
qed

end
