(* ===== verification/Picker_Rebuild.thy ===== *)
theory Picker_Rebuild
  imports Picker_Buckets "HOL-Library.Multiset"
begin

text \<open>
  \<open>update_pieces\<close> of \<open>src/piece_picker.cpp\<close>, which rebuilds the array of pickable pieces
  when it is dirty: it counts the pieces of every priority, turns the counts into boundaries,
  files every piece, shuffles every bucket and stores the positions. The contract at the end
  says that the rebuilt array is laid out for the current priorities and that nothing but
  positions changes.
\<close>

section \<open>Definitions\<close>

text \<open>The first loop: the position of a piece within its bucket, and the size of every bucket.\<close>

fun count_pass :: "nat \<Rightarrow> piece_pos list \<Rightarrow> nat list \<Rightarrow> piece_pos list \<times> nat list" where
  "count_pass s [] bs = ([], bs)"
| "count_pass s (p # pm) bs =
     (let prio = priority s p
      in if prio = -1 then let (pm', bs') = count_pass s pm bs in (p # pm', bs')
         else
           let k = nat prio;
               bs1 = (if prio \<ge> int (length bs) then bs @ replicate (k + 1 - length bs) 0 else bs);
               p' = p\<lparr>pp_index := bs1 ! k mod 2 ^ 18\<rparr>;
               (pm', bs') = count_pass s pm (bs1[k := bs1 ! k + 1])
           in (p' # pm', bs'))"

fun sum_pass :: "nat \<Rightarrow> nat list \<Rightarrow> nat list" where
  "sum_pass index [] = []"
| "sum_pass index (b # bs) = (b + index) # sum_pass (b + index) bs"

definition resize_vec :: "nat \<Rightarrow> 'a \<Rightarrow> 'a list \<Rightarrow> 'a list" where
  "resize_vec n x xs = take n xs @ replicate (n - length xs) x"

definition scatter_pass :: "nat \<Rightarrow> piece_pos list \<Rightarrow> nat list \<Rightarrow> nat list \<Rightarrow> nat list" where
  "scatter_pass s pm bs ps =
     fold (\<lambda>index ps.
       let prio = priority s (pm ! index)
       in if prio = -1 then ps
          else ps[(if prio = 0 then 0 else bs ! (nat prio - 1)) + pp_index (pm ! index) := index])
     [0..<length pm] ps"

text \<open>
  \<open>std::random_shuffle\<close> over random numbers: every permutation of the range is the result
  for some numbers.
\<close>

definition swap_at :: "nat \<Rightarrow> nat \<Rightarrow> 'a list \<Rightarrow> 'a list" where
  "swap_at i j xs = xs[i := xs ! j, j := xs ! i]"

definition random_shuffle :: "(nat \<Rightarrow> nat) \<Rightarrow> 'a list \<Rightarrow> 'a list" where
  "random_shuffle rnd xs = fold (\<lambda>i xs. swap_at i (rnd i mod (i + 1)) xs) [1..<length xs] xs"

fun shuffle_pass :: "(nat \<Rightarrow> nat) \<Rightarrow> nat \<Rightarrow> nat list \<Rightarrow> nat list \<Rightarrow> nat list" where
  "shuffle_pass rnd start [] ps = ps"
| "shuffle_pass rnd start (b # bs) ps =
     (if start = b then shuffle_pass rnd start bs ps
      else shuffle_pass rnd b bs
        (take start ps @ random_shuffle (\<lambda>i. rnd (start + i)) (take (b - start) (drop start ps))
         @ drop b ps))"

definition index_pass :: "nat list \<Rightarrow> piece_pos list \<Rightarrow> piece_pos list" where
  "index_pass ps pm = fold (\<lambda>(index, x) pm. set_pp_index x index pm) (enumerate 0 ps) pm"

definition update_pieces :: "(nat \<Rightarrow> nat) \<Rightarrow> piece_picker \<Rightarrow> piece_picker" where
  "update_pieces rnd pk =
     (let bs = (if m_priority_boundries pk = [] then [0] else m_priority_boundries pk);
          (pm, bs) = count_pass (m_seeds pk) (m_piece_map pk) (map (\<lambda>_. 0) bs);
          bs = sum_pass 0 bs;
          ps = resize_vec (last bs) 0 (m_pieces pk);
          ps = scatter_pass (m_seeds pk) pm bs ps;
          ps = shuffle_pass rnd 0 bs ps
      in pk\<lparr>m_pieces := ps, m_piece_map := index_pass ps pm, m_priority_boundries := bs,
            m_dirty := False\<rparr>)"

section \<open>Counting\<close>

lemma nth_beyond_eq: "length xs = length ys \<Longrightarrow> length xs \<le> n \<Longrightarrow> xs ! n = ys ! n"
proof (induction xs ys arbitrary: n rule: list_induct2)
  case (Cons x xs y ys)
  then show ?case by (cases n) auto
qed simp

lemma reindexedI:
  assumes "length pm' = length pm" "\<And>x. x < length pm \<Longrightarrow> norm_pos (pm' ! x) = norm_pos (pm ! x)"
    "\<And>x. x < length pm \<Longrightarrow> ixm pm x < 2 ^ 18 \<Longrightarrow> ixm pm' x < 2 ^ 18"
  shows "reindexed pm pm'"
proof -
  have "priority s (pm' ! x) = priority s (pm ! x)" for s x
    using norm_pos_eqD(7) [OF assms(2)] nth_beyond_eq [OF assms(1), of x] assms(1)
    by (cases "x < length pm") auto
  with assms show ?thesis by (auto simp: reindexed_def intro: nth_equalityI)
qed

definition count_prio :: "nat \<Rightarrow> nat \<Rightarrow> piece_pos list \<Rightarrow> nat" where
  "count_prio s k pm = length (filter (\<lambda>p. priority s p = int k) pm)"

definition nth0 :: "nat list \<Rightarrow> nat \<Rightarrow> nat" where
  "nth0 bs k = (if k < length bs then bs ! k else 0)"

lemma priority_ge: "piece_priority p < 8 \<Longrightarrow> priority s p \<ge> -1"
  by (auto simp: priority_def Let_def)

lemma count_pass_spec:
  assumes "count_pass s pm bs = (pm', bs')" "\<forall>p \<in> set pm. piece_priority p < 8"
  shows "length pm' = length pm \<and> length bs \<le> length bs'
    \<and> (\<forall>k. nth0 bs' k = nth0 bs k + count_prio s k pm)
    \<and> sum_list bs' = sum_list bs + length (filter (\<lambda>p. priority s p \<ge> 0) pm)
    \<and> (\<forall>x < length pm. if priority s (pm ! x) < 0 then pm' ! x = pm ! x
        else nat (priority s (pm ! x)) < length bs'
           \<and> pm' ! x = (pm ! x)\<lparr>pp_index :=
               (nth0 bs (nat (priority s (pm ! x)))
                + count_prio s (nat (priority s (pm ! x))) (take x pm)) mod 2 ^ 18\<rparr>)"
  using assms
proof (induction pm arbitrary: bs pm' bs')
  case Nil
  then show ?case by (simp add: count_prio_def)
next
  case (Cons p pm)
  show ?case
  proof (cases "priority s p = -1")
    case True
    with Cons.prems(1) obtain pm1 where c: "count_pass s pm bs = (pm1, bs')" "pm' = p # pm1"
      by (auto simp: Let_def split: prod.splits)
    from Cons.prems(2) have ok: "piece_priority p < 8" "\<forall>p \<in> set pm. piece_priority p < 8" by auto
    from Cons.IH [OF c(1) ok(2)] c(2) True show ?thesis
      by (auto simp: count_prio_def nth_Cons take_Cons split: nat.splits)
  next
    case False
    define k where "k = nat (priority s p)"
    define bs1 where "bs1 = (if priority s p \<ge> int (length bs) then bs @ replicate (k + 1 - length bs) 0 else bs)"
    from False Cons.prems(2) priority_ge [of p s] have k: "priority s p = int k" unfolding k_def by simp
    have b1: "k < length bs1" "nth0 bs1 = nth0 bs" "sum_list bs1 = sum_list bs" "length bs \<le> length bs1"
      using k by (auto simp: bs1_def nth0_def nth_append fun_eq_iff sum_list_replicate)
    define bs2 where "bs2 = bs1[k := bs1 ! k + 1]"
    have b2: "nth0 bs2 j = nth0 bs j + (if j = k then 1 else 0)" for j
      using b1(1) unfolding bs2_def by (simp flip: b1(2)) (simp add: nth0_def nth_list_update)
    have s2: "sum_list bs2 = sum_list bs + 1" "length bs2 = length bs1"
      using b1 by (simp_all add: bs2_def sum_list_update member_le_sum_list)
    from Cons.prems(1) False obtain pm1 where c: "count_pass s pm bs2 = (pm1, bs')"
      "pm' = p\<lparr>pp_index := bs1 ! k mod 2 ^ 18\<rparr> # pm1"
      by (auto simp: Let_def k bs1_def bs2_def split: prod.splits)
    have at: "bs1 ! k = nth0 bs k" using b1(1) by (simp flip: b1(2) add: nth0_def)
    from Cons.prems(2) have ok: "piece_priority p < 8" "\<forall>p \<in> set pm. piece_priority p < 8" by auto
    from Cons.IH [OF c(1) ok(2)] have ih: "length pm1 = length pm" "length bs1 \<le> length bs'"
      "\<And>j. nth0 bs' j = nth0 bs2 j + count_prio s j pm"
      "sum_list bs' = sum_list bs2 + length (filter (\<lambda>p. priority s p \<ge> 0) pm)"
      "\<And>x. x < length pm \<Longrightarrow> if priority s (pm ! x) < 0 then pm1 ! x = pm ! x
        else nat (priority s (pm ! x)) < length bs'
           \<and> pm1 ! x = (pm ! x)\<lparr>pp_index :=
               (nth0 bs2 (nat (priority s (pm ! x)))
                + count_prio s (nat (priority s (pm ! x))) (take x pm)) mod 2 ^ 18\<rparr>"
      using s2(2) by auto
    have "if priority s ((p # pm) ! x) < 0 then pm' ! x = (p # pm) ! x
        else nat (priority s ((p # pm) ! x)) < length bs'
           \<and> pm' ! x = ((p # pm) ! x)\<lparr>pp_index :=
               (nth0 bs (nat (priority s ((p # pm) ! x)))
                + count_prio s (nat (priority s ((p # pm) ! x))) (take x (p # pm))) mod 2 ^ 18\<rparr>"
      if "x < length (p # pm)" for x
    proof (cases x)
      case 0
      then show ?thesis using k c(2) b1 ih(2) at by (simp add: count_prio_def)
    next
      case (Suc y)
      then show ?thesis using ih(5) [of y] that c(2) k
        by (auto simp: b2 count_prio_def)
    qed
    then show ?thesis using ih(1-4) c(2) b1 s2 k
      by (auto simp: b2 count_prio_def)
  qed
qed


lemma count_prio_less:
  assumes "x < length pm" "priority s (pm ! x) = int k"
  shows "count_prio s k (take x pm) < count_prio s k pm"
proof -
  have "count_prio s k pm = count_prio s k (take x pm @ pm ! x # drop (Suc x) pm)"
    using assms(1) by (simp flip: id_take_nth_drop)
  with assms(2) show ?thesis by (simp add: count_prio_def)
qed

lemma count_prio_inj:
  assumes "x < y" "y < length pm" "priority s (pm ! x) = int k"
  shows "count_prio s k (take x pm) < count_prio s k (take y pm)"
  using count_prio_less [of x "take y pm" s k] assms by (simp add: min_def)

lemma length_sum_pass [simp]: "length (sum_pass a bs) = length bs"
  by (induction bs arbitrary: a) auto

lemma nth_sum_pass: "k < length bs \<Longrightarrow> sum_pass a bs ! k = a + sum_list (take (Suc k) bs)"
proof (induction bs arbitrary: a k)
  case (Cons b bs)
  then show ?case by (cases k) auto
qed simp

lemma sum_pass_ge: "x \<in> set (sum_pass a bs) \<Longrightarrow> a \<le> x"
  by (induction bs arbitrary: a) fastforce+

lemma sorted_sum_pass: "sorted (sum_pass a bs)"
  by (induction bs arbitrary: a) (auto dest: sum_pass_ge)

lemma sum_pass_Nil [simp]: "sum_pass a bs = [] \<longleftrightarrow> bs = []"
  by (cases bs) auto

lemma last_sum_pass: "bs \<noteq> [] \<Longrightarrow> last (sum_pass a bs) = a + sum_list bs"
  by (simp add: last_conv_nth nth_sum_pass)

lemma sum_pass_bucket:
  assumes "k < length bs"
  shows "sum_pass 0 bs ! k = bucket_start (sum_pass 0 bs) k + bs ! k"
proof (cases k)
  case 0
  with assms show ?thesis by (cases bs) auto
next
  case (Suc j)
  with assms show ?thesis by (simp add: nth_sum_pass take_Suc_conv_app_nth [of "Suc j"])
qed

section \<open>Filling the array\<close>

lemma scatter_fold:
  fixes pos :: "nat \<Rightarrow> nat"
  assumes "inj_on pos {x. x < n \<and> W x}" "\<And>x. x < n \<Longrightarrow> W x \<Longrightarrow> pos x < length ps"
  shows "length (fold (\<lambda>x ps. if W x then ps[pos x := x] else ps) [0..<n] ps) = length ps
    \<and> (\<forall>x < n. W x \<longrightarrow> fold (\<lambda>x ps. if W x then ps[pos x := x] else ps) [0..<n] ps ! pos x = x)"
  using assms
proof (induction n)
  case (Suc n)
  let ?f = "\<lambda>x ps. if W x then ps[pos x := x] else ps"
  have ih: "length (fold ?f [0..<n] ps) = length ps" "\<And>x. x < n \<Longrightarrow> W x \<Longrightarrow> fold ?f [0..<n] ps ! pos x = x"
  proof -
    have "inj_on pos {x. x < n \<and> W x}" by (rule inj_on_subset [OF Suc.prems(1)]) auto
    with Suc.IH Suc.prems(2) show "length (fold ?f [0..<n] ps) = length ps"
      "\<And>x. x < n \<Longrightarrow> W x \<Longrightarrow> fold ?f [0..<n] ps ! pos x = x" by auto
  qed
  have "pos x \<noteq> pos n" "pos n \<noteq> pos x" if "x < n" "W x" "W n" for x
    using inj_onD [OF Suc.prems(1), of x n] that by auto
  then show ?case using ih Suc.prems(2) by (auto simp: less_Suc_eq nth_list_update)
qed simp

definition filed :: "nat \<Rightarrow> (nat \<Rightarrow> int) \<Rightarrow> nat list \<Rightarrow> nat list \<Rightarrow> bool" where
  "filed n pr bs ps \<longleftrightarrow> distinct ps \<and> set ps = {y. y < n \<and> pr y \<ge> 0}
     \<and> (\<forall>q < length ps. in_bucket pr bs q (ps ! q))"

lemma filed_scatter:
  fixes pos :: "nat \<Rightarrow> nat"
  assumes pos: "\<And>x. x < n \<Longrightarrow> pr x \<ge> 0 \<Longrightarrow> pos x < L \<and> in_bucket pr bs (pos x) x"
    and inj: "inj_on pos {x. x < n \<and> pr x \<ge> 0}" and card: "card {x. x < n \<and> pr x \<ge> 0} = L"
    and len: "length ps = L"
    and at: "\<And>x. x < n \<Longrightarrow> pr x \<ge> 0 \<Longrightarrow> ps ! pos x = x"
  shows "filed n pr bs ps"
proof -
  let ?W = "{x. x < n \<and> pr x \<ge> 0}"
  have "pos ` ?W = {..<L}"
    by (rule card_subset_eq) (use pos card_image [OF inj] card in auto)
  then have all: "\<exists>x. x \<in> ?W \<and> pos x = q \<and> ps ! q = x" if "q < L" for q
  proof -
    from that \<open>pos ` ?W = {..<L}\<close> obtain x where "x \<in> ?W" "q = pos x" by blast
    with at show ?thesis by auto
  qed
  have "distinct ps" unfolding distinct_conv_nth
    using all len by metis
  moreover have "set ps = ?W"
  proof
    show "set ps \<subseteq> ?W" using all len by (fastforce simp: in_set_conv_nth)
    show "?W \<subseteq> set ps" using at pos len by (force simp: in_set_conv_nth)
  qed
  moreover have "in_bucket pr bs q (ps ! q)" if "q < length ps" for q
    using all [of q] that len pos by (metis (mono_tags, lifting) mem_Collect_eq)
  ultimately show ?thesis by (simp add: filed_def)
qed

section \<open>Shuffling\<close>

lemma mset_swap_at: "i < length xs \<Longrightarrow> j < length xs \<Longrightarrow> mset (swap_at i j xs) = mset xs"
  by (simp add: swap_at_def mset_swap)

lemma mset_random_shuffle: "mset (random_shuffle rnd xs) = mset xs"
proof -
  have "mset (fold (\<lambda>i xs. swap_at i (rnd i mod (i + 1)) xs) [1..<n] xs) = mset xs" if "n \<le> length xs" for n
    using that
  proof (induction n)
    case (Suc n)
    then have ih: "mset (fold (\<lambda>i xs. swap_at i (rnd i mod (i + 1)) xs) [1..<n] xs) = mset xs" by simp
    then have "length (fold (\<lambda>i xs. swap_at i (rnd i mod (i + 1)) xs) [1..<n] xs) = length xs"
      by (metis size_mset)
    moreover have "rnd n mod (n + 1) < length xs"
      using mod_less_divisor [of "n + 1" "rnd n"] Suc.prems by linarith
    ultimately show ?case using ih Suc.prems by (cases n) (simp_all add: mset_swap_at)
  qed simp
  then show ?thesis by (simp add: random_shuffle_def)
qed

lemma shuffle_pass_spec:
  assumes "sorted (start # bs)" "last (start # bs) \<le> length ps"
    and "\<And>i q q' y. i < length bs \<Longrightarrow> (start # bs) ! i \<le> q \<Longrightarrow> q < bs ! i \<Longrightarrow>
      (start # bs) ! i \<le> q' \<Longrightarrow> q' < bs ! i \<Longrightarrow> P q y \<Longrightarrow> P q' y"
    and "\<And>q. q < length ps \<Longrightarrow> P q (ps ! q)"
  shows "mset (shuffle_pass rnd start bs ps) = mset ps
    \<and> (\<forall>q < length ps. P q (shuffle_pass rnd start bs ps ! q))"
  using assms
proof (induction bs arbitrary: start ps)
  case (Cons b bs)
  have rest: "\<And>i q q' y. i < length bs \<Longrightarrow> (b # bs) ! i \<le> q \<Longrightarrow> q < bs ! i \<Longrightarrow>
      (b # bs) ! i \<le> q' \<Longrightarrow> q' < bs ! i \<Longrightarrow> P q y \<Longrightarrow> P q' y"
    by (rule Cons.prems(3) [of "Suc i" for i]) simp_all
  show ?case
  proof (cases "start = b")
    case True
    have "mset (shuffle_pass rnd b bs ps) = mset ps \<and> (\<forall>q < length ps. P q (shuffle_pass rnd b bs ps ! q))"
      by (rule Cons.IH [OF _ _ rest Cons.prems(4)]) (use Cons.prems(1,2) in auto)
    with True show ?thesis by simp
  next
    case False
    let ?seg = "take (b - start) (drop start ps)"
    define rs where "rs = random_shuffle (\<lambda>i. rnd (start + i)) ?seg"
    define ps1 where "ps1 = take start ps @ rs @ drop b ps"
    have sb: "start < b" "b \<le> length ps"
      using Cons.prems(1,2) False sorted_last_ge [of "b # bs" 0] by auto
    have ms: "mset rs = mset ?seg" by (simp add: rs_def mset_random_shuffle)
    have split: "ps = take start ps @ ?seg @ drop b ps"
      using sb by (metis append_take_drop_id drop_drop le_add_diff_inverse2 less_imp_le)
    have m1: "mset ps1 = mset ps" using arg_cong [OF split, of mset] by (simp add: ps1_def ms)
    then have l1: "length ps1 = length ps" by (metis size_mset)
    have lrs: "length rs = b - start" using ms sb mset_eq_length [OF ms] by simp
    have P1: "P q (ps1 ! q)" if q: "q < length ps" for q
    proof (cases "start \<le> q \<and> q < b")
      case True
      then have "ps1 ! q = rs ! (q - start)" using sb lrs by (auto simp: ps1_def nth_append)
      then have "ps1 ! q \<in> set ?seg" using True lrs mset_eq_setD [OF ms] by (metis diff_less_mono nth_mem)
      then obtain i where i: "i < b - start" "ps1 ! q = ps ! (start + i)"
        using sb by (auto simp: in_set_conv_nth)
      then have "P (start + i) (ps1 ! q)" using Cons.prems(4) [of "start + i"] sb by simp
      then show ?thesis using Cons.prems(3) [of 0 "start + i" q] i True by auto
    next
      case False
      then have "ps1 ! q = ps ! q" using sb lrs q by (auto simp: ps1_def nth_append)
      with Cons.prems(4) q show ?thesis by simp
    qed
    have "mset (shuffle_pass rnd b bs ps1) = mset ps1 \<and> (\<forall>q < length ps1. P q (shuffle_pass rnd b bs ps1 ! q))"
      by (rule Cons.IH [OF _ _ rest P1]) (use Cons.prems(1,2) l1 in auto)
    with m1 l1 False show ?thesis by (simp add: ps1_def rs_def)
  qed
qed simp

lemma filed_shuffle:
  assumes f: "filed n pr bs ps" and bs: "sorted bs" "bs \<noteq> []" "last bs = length ps"
  shows "filed n pr bs (shuffle_pass rnd 0 bs ps)" and "length (shuffle_pass rnd 0 bs ps) = length ps"
proof -
  have same: "in_bucket pr bs q' y" if "i < length bs" "(0 # bs) ! i \<le> q" "q < bs ! i"
    "(0 # bs) ! i \<le> q'" "q' < bs ! i" "in_bucket pr bs q y" for i q q' y
  proof -
    have st: "(0 # bs) ! i = bucket_start bs i" by (cases i) auto
    have "pr y = int i" by (rule in_bucket_at [OF that(6) bs(1)]) (use that st in auto)
    with that st show ?thesis by (auto simp: in_bucket_def)
  qed
  have sp: "mset (shuffle_pass rnd 0 bs ps) = mset ps
    \<and> (\<forall>q < length ps. in_bucket pr bs q (shuffle_pass rnd 0 bs ps ! q))"
    by (rule shuffle_pass_spec [of 0 bs ps "in_bucket pr bs"])
       (use f bs in \<open>simp_all add: filed_def\<close>, rule same)
  then show l: "length (shuffle_pass rnd 0 bs ps) = length ps" by (metis size_mset)
  show "filed n pr bs (shuffle_pass rnd 0 bs ps)"
    using f sp l unfolding filed_def by (metis mset_eq_imp_distinct_iff mset_eq_setD)
qed

section \<open>Storing the positions\<close>

lemma index_pass_fold:
  assumes "distinct ps" "\<forall>x \<in> set ps. x < length pm \<and> \<not> have_pos (pm ! x)"
    "k + length ps \<le> we_have_index"
  shows "reindexed pm (fold (\<lambda>(i, x) pm. set_pp_index x i pm) (enumerate k ps) pm)
    \<and> (\<forall>q < length ps. ixm (fold (\<lambda>(i, x) pm. set_pp_index x i pm) (enumerate k ps) pm) (ps ! q) = k + q)
    \<and> (\<forall>y. y \<notin> set ps \<longrightarrow> ixm (fold (\<lambda>(i, x) pm. set_pp_index x i pm) (enumerate k ps) pm) y = ixm pm y)"
  using assms
proof (induction ps arbitrary: k pm)
  case (Cons x ps)
  let ?pm = "set_pp_index x k pm" and ?f = "\<lambda>(i, x) pm. set_pp_index x i pm"
  from Cons.prems have x: "x < length pm" "\<not> have_pos (pm ! x)" "k < we_have_index" "x \<notin> set ps" by auto
  note e = set_pp_index_effect [OF x(1-3)]
  have pre: "\<forall>y \<in> set ps. y < length ?pm \<and> \<not> have_pos (?pm ! y)"
    using Cons.prems(2) e(3) norm_pos_eqD(4) [OF reindexed_nth [OF e(2)]] by auto
  have ih: "reindexed ?pm (fold ?f (enumerate (Suc k) ps) ?pm)"
    "\<And>q. q < length ps \<Longrightarrow> ixm (fold ?f (enumerate (Suc k) ps) ?pm) (ps ! q) = Suc k + q"
    "\<And>y. y \<notin> set ps \<Longrightarrow> ixm (fold ?f (enumerate (Suc k) ps) ?pm) y = ixm ?pm y"
    using Cons.IH [OF _ pre, of "Suc k"] Cons.prems(1,3) by auto
  have "ixm (fold ?f (enumerate (Suc k) ps) ?pm) ((x # ps) ! q) = k + q" if "q < length (x # ps)" for q
    using that ih(2) [of "q - 1"] ih(3) [OF x(4)] fun_cong [OF e(1), of x] by (cases q) auto
  moreover have "ixm (fold ?f (enumerate (Suc k) ps) ?pm) y = ixm pm y" if "y \<notin> set (x # ps)" for y
    using that ih(3) [of y] fun_cong [OF e(1), of y] by simp
  ultimately show ?case using reindexed_trans [OF e(2) ih(1)] by simp
qed simp


section \<open>The contract\<close>

lemma layout_of_filed:
  assumes f: "filed n pr bs ps" and bs: "bs \<noteq> []" "sorted bs" "last bs = length ps"
    and ix: "\<And>q. q < length ps \<Longrightarrow> ix (ps ! q) = q"
  shows "layout n pr ix bs ps"
proof -
  have "ps ! q < n" if "q < length ps" for q
    using f that nth_mem [OF that] by (auto simp: filed_def)
  moreover have "ix y < length ps \<and> ps ! ix y = y" if "y < n" "pr y \<ge> 0" for y
  proof -
    from f that have "y \<in> set ps" by (auto simp: filed_def)
    then obtain q where "q < length ps" "ps ! q = y" by (auto simp: in_set_conv_nth)
    with ix [of q] show ?thesis by auto
  qed
  ultimately show ?thesis using f bs ix by (auto simp: layout_def filed_def)
qed

text \<open>After the first loop, the piece \<open>x\<close> has rank \<open>pp_index\<close> among the pieces of its priority.\<close>

lemma count_pass_zero:
  assumes c: "count_pass s pm (map (\<lambda>_. 0) bs0) = (pm', bs)" and ok: "\<forall>p \<in> set pm. piece_priority p < 8"
    and n: "length pm < we_have_index" and ne: "bs0 \<noteq> []"
  shows "reindexed pm pm'" "bs \<noteq> []"
    and "x < length pm \<Longrightarrow> prm s pm x = int k \<Longrightarrow>
      k < length bs \<and> ixm pm' x = count_prio s k (take x pm) \<and> ixm pm' x < bs ! k"
    and "sum_list bs = card {x. x < length pm \<and> prm s pm x \<ge> 0}"
proof -
  note sp = count_pass_spec [OF c ok]
  have z: "nth0 (map (\<lambda>_. 0) bs0) k = 0" for k by (simp add: nth0_def)
  have small: "count_prio s k xs < 2 ^ 18" "count_prio s k xs < we_have_index"
    if "length xs \<le> length pm" for k xs
  proof -
    show less: "count_prio s k xs < we_have_index" unfolding count_prio_def
      by (rule le_less_trans [OF le_trans [OF length_filter_le that] n])
    then show "count_prio s k xs < 2 ^ 18" by (simp add: we_have_index_def)
  qed
  show rank: "k < length bs \<and> ixm pm' x = count_prio s k (take x pm) \<and> ixm pm' x < bs ! k"
    if "x < length pm" "prm s pm x = int k" for x k
  proof -
    from sp that have k: "k < length bs" and px: "pm' ! x = (pm ! x)\<lparr>pp_index := count_prio s k (take x pm) mod 2 ^ 18\<rparr>"
      by (auto simp: z)
    have "nth0 bs k = count_prio s k pm" using sp by (simp add: z)
    with k px count_prio_less [OF that] small(1) [of "take x pm" k] that(1) show ?thesis
      by (simp add: nth0_def)
  qed
  show "bs \<noteq> []" using sp ne by auto
  show "reindexed pm pm'"
  proof (rule reindexedI)
    show "length pm' = length pm" using sp by simp
    fix x assume x: "x < length pm"
    show "norm_pos (pm' ! x) = norm_pos (pm ! x)"
    proof (cases "prm s pm x < 0")
      case True
      with sp x show ?thesis by auto
    next
      case False
      then obtain k where k: "prm s pm x = int k" by (metis nonneg_int_cases not_less)
      have px: "pm' ! x = (pm ! x)\<lparr>pp_index := count_prio s k (take x pm)\<rparr>"
        using sp x k False small(1) [of "take x pm" k] by (simp add: z)
      have "\<not> have_pos (pm ! x)" using priority_ge_0_not_have [of s "pm ! x"] k by simp
      moreover have "\<not> have_pos (pm' ! x)" using px small(2) [of "take x pm" k] x by (simp add: have_pos_def)
      ultimately show ?thesis using px by (simp add: norm_pos_def)
    qed
  next
    fix x assume x: "x < length pm" "ixm pm x < 2 ^ 18"
    with sp show "ixm pm' x < 2 ^ 18" by (cases "prm s pm x < 0") auto
  qed
  have "sum_list bs = length (filter (\<lambda>p. priority s p \<ge> 0) pm)"
    using sp by (simp add: map_replicate_const sum_list_replicate)
  then show "sum_list bs = card {x. x < length pm \<and> prm s pm x \<ge> 0}"
    by (simp add: length_filter_conv_card)
qed

lemma scatter_filed:
  assumes c: "count_pass s pm (map (\<lambda>_. 0) bs0) = (pm', bs)" and ok: "\<forall>p \<in> set pm. piece_priority p < 8"
    and n: "length pm < we_have_index" and ne: "bs0 \<noteq> []"
    and l: "length ps = sum_list bs"
  shows "filed (length pm) (prm s pm) (sum_pass 0 bs) (scatter_pass s pm' (sum_pass 0 bs) ps)
    \<and> length (scatter_pass s pm' (sum_pass 0 bs) ps) = length ps"
proof -
  note z = count_pass_zero [OF c ok n ne]
  let ?W = "\<lambda>x. prm s pm x \<ge> 0" and ?sb = "sum_pass 0 bs"
  define pos where "pos x = bucket_start ?sb (nat (prm s pm x)) + ixm pm' x" for x
  have pm': "length pm' = length pm" "prm s pm' = prm s pm"
    using reindexed_length [OF z(1)] reindexed_prm [OF z(1)] by auto
  have in_b: "pos x < sum_list bs \<and> nat (prm s pm x) < length ?sb
      \<and> bucket_start ?sb (nat (prm s pm x)) \<le> pos x \<and> pos x < ?sb ! nat (prm s pm x)"
    if "x < length pm" "?W x" for x
  proof -
    from that(2) obtain k where k: "prm s pm x = int k" by (metis nonneg_int_cases)
    note r = z(3) [OF that(1) k]
    then have "pos x < ?sb ! k" by (simp add: pos_def k sum_pass_bucket)
    moreover have "?sb ! k \<le> sum_list bs"
      using sorted_last_ge [OF sorted_sum_pass, of k 0 bs] r z(2) by (simp add: last_sum_pass)
    ultimately show ?thesis using r by (simp add: k pos_def)
  qed
  have inj: "inj_on pos {x. x < length pm \<and> ?W x}"
  proof (rule linorder_inj_onI')
    fix x y assume x: "x \<in> {x. x < length pm \<and> ?W x}" and y: "y \<in> {x. x < length pm \<and> ?W x}" and "x < y"
    show "pos x \<noteq> pos y"
    proof
      assume eq: "pos x = pos y"
      have "nat (prm s pm x) = nat (prm s pm y)"
        by (rule bucket_unique [OF sorted_sum_pass, of _ 0 bs _ "pos x"]) (use in_b [of x] in_b [of y] x y eq in simp_all)
      then obtain k where k: "prm s pm x = int k" "prm s pm y = int k"
        using x y by (metis (mono_tags, lifting) mem_Collect_eq nat_0_le)
      with z(3) [of x k] z(3) [of y k] x y eq count_prio_inj [OF \<open>x < y\<close>, of pm s k]
      show False by (simp add: pos_def)
    qed
  qed
  have sc: "scatter_pass s pm' ?sb ps = fold (\<lambda>x ps. if ?W x then ps[pos x := x] else ps) [0..<length pm] ps"
    unfolding scatter_pass_def pm'(1)
  proof (rule fold_cong [OF refl refl])
    fix x assume "x \<in> set [0..<length pm]"
    then have "prm s pm x \<ge> -1" using ok by (auto intro: priority_ge)
    then show "(\<lambda>ps. let prio = priority s (pm' ! x) in if prio = -1 then ps
        else ps[(if prio = 0 then 0 else ?sb ! (nat prio - 1)) + pp_index (pm' ! x) := x])
      = (\<lambda>ps. if ?W x then ps[pos x := x] else ps)"
      using fun_cong [OF pm'(2), of x] by (auto simp: fun_eq_iff pos_def bucket_start_def)
  qed
  note sf = scatter_fold [OF inj, of ps]
  have in_b': "pos x < sum_list bs \<and> in_bucket (prm s pm) ?sb (pos x) x" if "x < length pm" "?W x" for x
    using in_b [OF that] that(2) unfolding in_bucket_def by auto
  have "filed (length pm) (prm s pm) ?sb (scatter_pass s pm' ?sb ps)"
    by (rule filed_scatter [OF in_b' inj z(4) [symmetric]]) (use sf in_b l sc in auto)
  with sf in_b l sc show ?thesis by auto
qed

lemma update_pieces_contract:
  assumes ok: "\<forall>p \<in> set (m_piece_map pk). piece_priority p < 8"
    and n: "length (m_piece_map pk) < we_have_index"
  shows "buckets_ok (update_pieces rnd pk) \<and> \<not> m_dirty (update_pieces rnd pk)
    \<and> moves_only (pk\<lparr>m_dirty := False\<rparr>) (update_pieces rnd pk)"
proof -
  let ?pm = "m_piece_map pk" and ?s = "m_seeds pk"
  define bs0 where "bs0 = (if m_priority_boundries pk = [] then [0] else m_priority_boundries pk)"
  obtain pm bs where c: "count_pass ?s ?pm (map (\<lambda>_. 0) bs0) = (pm, bs)" by fastforce
  define sb where "sb = sum_pass 0 bs"
  define ps1 where "ps1 = scatter_pass ?s pm sb (resize_vec (last sb) 0 (m_pieces pk))"
  define ps where "ps = shuffle_pass rnd 0 sb ps1"
  have ne: "bs0 \<noteq> []" by (simp add: bs0_def)
  note z = count_pass_zero [OF c ok n ne]
  have sb: "sb \<noteq> []" "sorted sb" "last sb = sum_list bs"
    using z(2) by (simp_all add: sb_def sorted_sum_pass last_sum_pass)
  have "filed (length ?pm) (prm ?s ?pm) sb ps1 \<and> length ps1 = sum_list bs"
    using scatter_filed [OF c ok n ne, of "resize_vec (last sb) 0 (m_pieces pk)"] sb(3)
    by (simp add: ps1_def sb_def resize_vec_def)
  with filed_shuffle [of "length ?pm" "prm ?s ?pm" sb ps1 rnd] sb
  have f: "filed (length ?pm) (prm ?s ?pm) sb ps" and l: "last sb = length ps"
    by (auto simp: ps_def)
  have mem: "x < length pm \<and> \<not> have_pos (pm ! x)" if "x \<in> set ps" for x
    using f that reindexed_length [OF z(1)] priority_ge_0_not_have [of ?s "pm ! x"]
      fun_cong [OF reindexed_prm [OF z(1), of ?s], of x] by (auto simp: filed_def)
  have "length ps \<le> length ?pm"
  proof -
    from f have "set ps \<subseteq> {..<length ?pm}" "distinct ps" by (auto simp: filed_def)
    then show ?thesis using card_mono [of "{..<length ?pm}" "set ps"] by (simp add: distinct_card)
  qed
  then have ip: "reindexed pm (index_pass ps pm)" "\<And>q. q < length ps \<Longrightarrow> ixm (index_pass ps pm) (ps ! q) = q"
    using index_pass_fold [of ps pm 0] f mem n by (auto simp: index_pass_def filed_def)
  have re: "reindexed ?pm (index_pass ps pm)" by (rule reindexed_trans [OF z(1) ip(1)])
  have "layout (length ?pm) (prm ?s ?pm) (ixm (index_pass ps pm)) sb ps"
    by (rule layout_of_filed [OF f sb(1,2) l ip(2)])
  moreover have "update_pieces rnd pk = pk\<lparr>m_pieces := ps, m_piece_map := index_pass ps pm,
      m_priority_boundries := sb, m_dirty := False\<rparr>"
    unfolding update_pieces_def Let_def bs0_def [symmetric]
    by (simp add: c ps_def ps1_def sb_def)
  ultimately show ?thesis
    using re n reindexed_length [OF re] reindexed_prm [OF re, of ?s]
    by (simp add: buckets_ok_def moves_only_def)
qed

end
