(* ===== verification/Picker_Downloads.thy ===== *)
theory Picker_Downloads
  imports Picker_Rebuild
begin

text \<open>
  The download queue of the piece picker: \<open>m_downloads\<close>, kept in the order of the number
  of blocks that have arrived, and the block storage \<open>m_block_info\<close> its entries point into.
  Queue entry \<open>i\<close> owns the \<open>m_blocks_per_piece\<close> blocks from its offset on; erasing an
  entry moves the blocks of the entry at the end of the storage into the gap. The theory shows
  that this implements a map from pieces to their blocks (\<open>progress\<close>), with entries
  inserted, changed and removed one at a time.
\<close>

section \<open>Definitions\<close>

definition new_block :: block_info where
  "new_block = \<lparr>peer = None, num_peers = 0, block_state = state_none\<rparr>"

definition new_downloading_piece :: "nat \<Rightarrow> nat \<Rightarrow> downloading_piece" where
  "new_downloading_piece index info =
     \<lparr>dp_state = none, dp_index = index, dp_info = info, finished = 0, writing = 0, requested = 0\<rparr>"

definition upd_download :: "nat \<Rightarrow> (downloading_piece \<Rightarrow> downloading_piece) \<Rightarrow> piece_picker \<Rightarrow> piece_picker" where
  "upd_download i f pk = pk\<lparr>m_downloads := (m_downloads pk)[i := f (m_downloads pk ! i)]\<rparr>"

definition upd_block :: "nat \<Rightarrow> nat \<Rightarrow> (block_info \<Rightarrow> block_info) \<Rightarrow> piece_picker \<Rightarrow> piece_picker" where
  "upd_block i b f pk =
     (let k = dp_info (m_downloads pk ! i) + b
      in pk\<lparr>m_block_info := (m_block_info pk)[k := f (m_block_info pk ! k)]\<rparr>)"

text \<open>
  \<open>add_download_piece\<close> returns a reference to the new last entry; every caller stores the
  piece index there at once, which is an argument here. Offsets need no adjustment when the
  block storage moves.
\<close>

definition add_download_piece :: "nat \<Rightarrow> piece_picker \<Rightarrow> piece_picker" where
  "add_download_piece index pk =
     (let num_downloads = length (m_downloads pk);
          bpp = m_blocks_per_piece pk;
          first = num_downloads * bpp;
          bi = (if length (m_block_info pk) < first + bpp
                then m_block_info pk @ replicate (first + bpp - length (m_block_info pk)) new_block
                else m_block_info pk)
      in pk\<lparr>m_block_info := fold (\<lambda>i bi. bi[first + i := new_block]) [0..<bpp] bi,
            m_downloads := m_downloads pk @ [new_downloading_piece index first]\<rparr>)"

text \<open>
  \<open>std::find_if\<close> finds the entry that owns the last blocks in use: not finding it is
  dereferencing the end, which the code asserts not to happen.
\<close>

definition copy_blocks :: "nat \<Rightarrow> nat \<Rightarrow> nat \<Rightarrow> block_info list \<Rightarrow> block_info list" where
  "copy_blocks src dst n bi = fold (\<lambda>k bi. bi[dst + k := bi ! (src + k)]) [0..<n] bi"

definition erase_download_piece :: "nat \<Rightarrow> piece_picker \<Rightarrow> piece_picker" where
  "erase_download_piece i pk =
     (let dls = m_downloads pk; bpp = m_blocks_per_piece pk; di = dls ! i
      in case find_index (\<lambda>dp. dp_info dp = (length dls - 1) * bpp) dls of
           None \<Rightarrow> pk
         | Some other \<Rightarrow>
             let (dls1, bi) =
                   (if i \<noteq> other
                    then (dls[other := (dls ! other)\<lparr>dp_info := dp_info di\<rparr>],
                          copy_blocks (dp_info (dls ! other)) (dp_info di) bpp (m_block_info pk))
                    else (dls, m_block_info pk));
                 x = dp_index di
             in pk\<lparr>m_block_info := bi,
                   m_piece_map := (m_piece_map pk)[x := (m_piece_map pk ! x)\<lparr>downloading := False\<rparr>],
                   m_downloads := take i dls1 @ drop (Suc i) dls1\<rparr>)"

definition arrived :: "downloading_piece \<Rightarrow> int" where
  "arrived dp = finished dp + writing dp"

text \<open>The two loops of \<open>sort_piece\<close>; the flag says that the first one returned.\<close>

fun sort_left :: "int \<Rightarrow> downloading_piece list \<Rightarrow> nat \<Rightarrow> downloading_piece list \<times> nat \<times> bool" where
  "sort_left complete dls 0 = (dls, 0, False)"
| "sort_left complete dls (Suc j) =
     (if arrived (dls ! j) \<ge> complete then (dls, Suc j, False)
      else
        let dls' = swap_at j (Suc j) dls
        in if j = 0 then (dls', 0, True) else sort_left complete dls' j)"

function sort_right :: "int \<Rightarrow> downloading_piece list \<Rightarrow> nat \<Rightarrow> downloading_piece list" where
  "sort_right complete dls dp =
     (if dp + 1 \<ge> length dls then dls
      else if arrived (dls ! (dp + 1)) \<le> complete then dls
      else sort_right complete (swap_at (dp + 1) dp dls) (dp + 1))"
  by pat_completeness auto
termination
  by (relation "measure (\<lambda>(c, dls, dp). length dls - dp)") (auto simp: swap_at_def)

declare sort_right.simps [simp del]

definition sort_piece :: "nat \<Rightarrow> piece_picker \<Rightarrow> piece_picker" where
  "sort_piece i pk =
     (let complete = arrived (m_downloads pk ! i);
          (dls, dp, ret) = sort_left complete (m_downloads pk) i
      in pk\<lparr>m_downloads := if ret then dls else sort_right complete dls dp\<rparr>)"

lemma blocks_in_piece_upd [simp, picker_upd]:
  "blocks_in_piece (pk\<lparr>m_downloads := a\<rparr>) = blocks_in_piece pk"
  "blocks_in_piece (pk\<lparr>m_block_info := b\<rparr>) = blocks_in_piece pk"
  "blocks_in_piece (pk\<lparr>m_pieces := c\<rparr>) = blocks_in_piece pk"
  "blocks_in_piece (pk\<lparr>m_priority_boundries := d\<rparr>) = blocks_in_piece pk"
  by (simp_all add: fun_eq_iff blocks_in_piece_def)

lemma num_pieces_upd [simp, picker_upd]:
  "num_pieces (pk\<lparr>m_downloads := a\<rparr>) = num_pieces pk"
  "num_pieces (pk\<lparr>m_block_info := b\<rparr>) = num_pieces pk"
  "num_pieces (pk\<lparr>m_pieces := c\<rparr>) = num_pieces pk"
  "num_pieces (pk\<lparr>m_priority_boundries := d\<rparr>) = num_pieces pk"
  by (simp_all add: num_pieces_def)

section \<open>Sorting\<close>

definition descending :: "downloading_piece list \<Rightarrow> bool" where
  "descending dls \<longleftrightarrow> sorted_wrt (\<ge>) (map arrived dls)"

definition drop_nth :: "nat \<Rightarrow> 'a list \<Rightarrow> 'a list" where
  "drop_nth i xs = take i xs @ drop (Suc i) xs"

lemma length_drop_nth [simp]: "i < length xs \<Longrightarrow> length (drop_nth i xs) = length xs - 1"
  by (simp add: drop_nth_def)

lemma nth_drop_nth: "i < length xs \<Longrightarrow> drop_nth i xs ! j = (if j < i then xs ! j else xs ! Suc j)"
  by (simp add: drop_nth_def nth_append)

lemma length_swap_at [simp]: "length (swap_at i j xs) = length xs"
  by (simp add: swap_at_def)

lemma nth_swap_at:
  "i < length xs \<Longrightarrow> j < length xs \<Longrightarrow>
   swap_at i j xs ! k = (if k = j then xs ! i else if k = i then xs ! j else xs ! k)"
  by (simp add: swap_at_def nth_list_update)

lemma drop_nth_swap:
  assumes "Suc j < length xs"
  shows "drop_nth j (swap_at j (Suc j) xs) = drop_nth (Suc j) xs"
    and "drop_nth (Suc j) (swap_at (Suc j) j xs) = drop_nth j xs"
  using assms by (auto intro!: nth_equalityI simp: nth_drop_nth nth_swap_at less_Suc_eq)

lemma descending_nth: "descending dls \<longleftrightarrow> (\<forall>i j. i < j \<longrightarrow> j < length dls \<longrightarrow> arrived (dls ! j) \<le> arrived (dls ! i))"
  by (simp add: descending_def sorted_wrt_iff_nth_less)

lemma descending_insert:
  assumes d: "descending (drop_nth i dls)" and i: "i < length dls"
    and l: "\<And>j. j < i \<Longrightarrow> arrived (dls ! i) \<le> arrived (dls ! j)"
    and r: "Suc i < length dls \<Longrightarrow> arrived (dls ! Suc i) \<le> arrived (dls ! i)"
  shows "descending dls"
  unfolding descending_nth
proof (intro allI impI)
  have others: "arrived (dls ! b) \<le> arrived (dls ! a)" if ab: "a < b" "b < length dls" "a \<noteq> i" "b \<noteq> i" for a b
  proof -
    define f where "f c = (if c < i then c else c - 1)" for c
    have f: "drop_nth i dls ! f c = dls ! c" if "c \<noteq> i" for c
      using that i by (cases c) (auto simp: f_def nth_drop_nth)
    have "f a < f b" "f b < length (drop_nth i dls)" using ab i by (auto simp: f_def)
    with d have "arrived (drop_nth i dls ! f b) \<le> arrived (drop_nth i dls ! f a)"
      unfolding descending_nth by blast
    with f ab show ?thesis by simp
  qed
  fix a b assume ab: "a < b" "b < length dls"
  consider "a \<noteq> i" "b \<noteq> i" | "b = i" | "a = i" "b = Suc i" | "a = i" "Suc i < b" using ab by linarith
  then show "arrived (dls ! b) \<le> arrived (dls ! a)"
  proof cases
    case 4
    with others [of "Suc i" b] r ab show ?thesis by simp
  qed (use ab others l r in auto)
qed

lemma descending_head:
  assumes "descending (drop_nth i dls)" "i < length dls" "j < i" "complete \<le> arrived (dls ! j)" "a < j"
  shows "complete \<le> arrived (dls ! a)"
proof -
  from assms(1) [unfolded descending_nth, rule_format, of a j] assms(2-5)
  have "arrived (dls ! j) \<le> arrived (dls ! a)" by (simp add: nth_drop_nth)
  with assms(4) show ?thesis by simp
qed

lemma sort_left_spec:
  assumes "descending (drop_nth i dls)" "i < length dls" "arrived (dls ! i) = complete"
    and "sort_left complete dls i = (dls', k, ret)"
  shows "mset dls' = mset dls \<and> drop_nth k dls' = drop_nth i dls \<and> k \<le> i
    \<and> arrived (dls' ! k) = complete
    \<and> (\<forall>j < k. complete \<le> arrived (dls' ! j)) \<and> (ret \<longrightarrow> descending dls')"
  using assms
proof (induction i arbitrary: dls)
  case 0
  then show ?case by simp
next
  case (Suc j)
  show ?case
  proof (cases "arrived (dls ! j) \<ge> complete")
    case True
    with Suc.prems have r: "dls' = dls" "k = Suc j" "\<not> ret" by auto
    have "\<forall>a < Suc j. complete \<le> arrived (dls ! a)"
      using descending_head [OF Suc.prems(1,2) lessI True] True less_Suc_eq by auto
    with r Suc.prems show ?thesis by simp
  next
    case False
    let ?d = "swap_at j (Suc j) dls"
    have m: "mset ?d = mset dls" using Suc.prems(2) by (simp add: mset_swap_at)
    have o: "drop_nth j ?d = drop_nth (Suc j) dls" by (rule drop_nth_swap [OF Suc.prems(2)])
    have c: "arrived (?d ! j) = complete" using Suc.prems(2,3) by (simp add: nth_swap_at)
    have l: "j < length ?d" using Suc.prems(2) by simp
    show ?thesis
    proof (cases "j = 0")
      case True
      with False Suc.prems(4) have r: "dls' = ?d" "k = 0" "ret" by auto
      have nxt: "?d ! Suc 0 = dls ! 0" using True Suc.prems(2) by (simp add: swap_at_def)
      have "descending ?d"
        by (rule descending_insert [of 0]) (use Suc.prems(1) True o c False nxt l in auto)
      with r m o c True show ?thesis by simp
    next
      case jp: False
      with False Suc.prems(4) have "sort_left complete ?d j = (dls', k, ret)" by (simp add: Let_def)
      from Suc.IH [OF _ l c this] o Suc.prems(1) m show ?thesis by auto
    qed
  qed
qed

lemma sort_right_spec:
  assumes "descending (drop_nth i dls)" "i < length dls" "arrived (dls ! i) = complete"
    "\<forall>j < i. complete \<le> arrived (dls ! j)"
  shows "mset (sort_right complete dls i) = mset dls \<and> descending (sort_right complete dls i)"
  using assms
proof (induction "length dls - i" arbitrary: dls i rule: less_induct)
  case less
  show ?case
  proof (cases "Suc i < length dls \<and> complete < arrived (dls ! Suc i)")
    case False
    then have "sort_right complete dls i = dls" by (subst sort_right.simps) auto
    moreover have "descending dls" by (rule descending_insert [OF less.prems(1,2)]) (use less.prems False in auto)
    ultimately show ?thesis by simp
  next
    case True
    let ?d = "swap_at (Suc i) i dls"
    have eq: "sort_right complete dls i = sort_right complete ?d (Suc i)"
      using True by (subst sort_right.simps) auto
    have "mset (sort_right complete ?d (Suc i)) = mset ?d \<and> descending (sort_right complete ?d (Suc i))"
    proof (rule less.hyps)
      show "descending (drop_nth (Suc i) ?d)" using less.prems(1) True by (simp add: drop_nth_swap(2))
      show "\<forall>j < Suc i. complete \<le> arrived (?d ! j)" using less.prems(4) True
        by (auto simp: nth_swap_at less_Suc_eq)
    qed (use True less.prems in \<open>auto simp: nth_swap_at\<close>)
    with eq True show ?thesis by (simp add: mset_swap_at)
  qed
qed

lemma sort_piece_spec:
  assumes "descending (drop_nth i (m_downloads pk))" "i < length (m_downloads pk)"
  shows "\<exists>dls. sort_piece i pk = pk\<lparr>m_downloads := dls\<rparr> \<and> mset dls = mset (m_downloads pk) \<and> descending dls"
proof -
  let ?c = "arrived (m_downloads pk ! i)"
  obtain dls k ret where sl: "sort_left ?c (m_downloads pk) i = (dls, k, ret)" by (metis prod_cases3)
  note s = sort_left_spec [OF assms refl sl]
  then have "length dls = length (m_downloads pk)" by (metis size_mset)
  with s assms sort_right_spec [of k dls ?c] show ?thesis
    by (auto simp: sort_piece_def sl)
qed


section \<open>The block storage\<close>

definition store_ok :: "nat \<Rightarrow> downloading_piece list \<Rightarrow> block_info list \<Rightarrow> bool" where
  "store_ok bpp dls bi \<longleftrightarrow>
     mset (map dp_info dls) = mset (map (\<lambda>k. k * bpp) [0..<length dls])
   \<and> length dls * bpp \<le> length bi"

lemma slot_inj:
  assumes "k * n + b = k' * n + (b' :: nat)" "b < n" "b' < n"
  shows "k = k' \<and> b = b'"
proof -
  have "(k * n + b) div n = k" "(k' * n + b') div n = k'" using assms(2,3) by auto
  with assms show ?thesis by simp
qed

lemma slot_bound:
  assumes "k < m" "b < (n :: nat)"
  shows "k * n + b < m * n"
proof -
  have "k * n + b < Suc k * n" using assms(2) by simp
  also have "\<dots> \<le> m * n" using assms(1) by (intro mult_le_mono1) simp
  finally show ?thesis .
qed

lemma store_slot:
  assumes "store_ok bpp dls bi" "j < length dls"
  obtains k where "k < length dls" "dp_info (dls ! j) = k * bpp"
proof -
  from assms(1) have "set (map dp_info dls) = set (map (\<lambda>k. k * bpp) [0..<length dls])"
    unfolding store_ok_def by (metis mset_eq_setD)
  moreover have "dp_info (dls ! j) \<in> set (map dp_info dls)" using assms(2) by simp
  ultimately have "dp_info (dls ! j) \<in> (\<lambda>k. k * bpp) ` {..<length dls}" by auto
  with that show ?thesis by auto
qed

lemma store_distinct:
  assumes "store_ok bpp dls bi" "0 < bpp"
  shows "distinct (map dp_info dls)"
proof -
  have "distinct (map (\<lambda>k. k * bpp) [0..<length dls])"
    using assms(2) by (simp add: distinct_map inj_on_def)
  with assms(1) show ?thesis unfolding store_ok_def by (metis mset_eq_imp_distinct_iff)
qed

lemma store_owner:
  assumes "store_ok bpp dls bi" "i < length dls" "j < length dls" "b < bpp" "c < bpp"
    and "dp_info (dls ! i) + b = dp_info (dls ! j) + c"
  shows "i = j \<and> b = c"
proof -
  obtain k k' where "dp_info (dls ! i) = k * bpp" "dp_info (dls ! j) = k' * bpp"
    using store_slot [OF assms(1)] assms(2,3) by metis
  with slot_inj [of k bpp b k' c] assms(4-6) have "dp_info (dls ! i) = dp_info (dls ! j)" "b = c" by auto
  moreover have "distinct (map dp_info dls)" using store_distinct [OF assms(1)] assms(4) by auto
  ultimately show ?thesis using assms(2,3) by (auto simp: distinct_conv_nth)
qed

lemma store_bound:
  assumes "store_ok bpp dls bi" "j < length dls" "b < bpp"
  shows "dp_info (dls ! j) + b < length dls * bpp" "dp_info (dls ! j) + b < length bi"
proof -
  obtain k where "k < length dls" "dp_info (dls ! j) = k * bpp" using store_slot [OF assms(1,2)] by blast
  then show "dp_info (dls ! j) + b < length dls * bpp" using slot_bound [of k "length dls" b bpp] assms(3) by simp
  with assms(1) show "dp_info (dls ! j) + b < length bi" by (simp add: store_ok_def)
qed

lemma store_ok_mset: "mset dls' = mset dls \<Longrightarrow> store_ok bpp dls' bi = store_ok bpp dls bi"
  unfolding store_ok_def by (metis mset_map size_mset)

lemma length_copy_blocks [simp]: "length (copy_blocks src dst n bi) = length bi"
proof -
  have "length (fold (\<lambda>k bi. bi[dst + k := bi ! (src + k)]) ks bi) = length bi" for ks
    by (induction ks arbitrary: bi) auto
  then show ?thesis by (simp add: copy_blocks_def)
qed

lemma nth_copy_blocks:
  assumes "dst + n \<le> length bi" "src + n \<le> dst \<or> dst + n \<le> src"
  shows "copy_blocks src dst n bi ! q = (if dst \<le> q \<and> q < dst + n then bi ! (src + (q - dst)) else bi ! q)"
  using assms
proof (induction n arbitrary: q)
  case 0
  then show ?case by (auto simp: copy_blocks_def)
next
  case (Suc n)
  have "copy_blocks src dst (Suc n) bi = (copy_blocks src dst n bi)[dst + n := copy_blocks src dst n bi ! (src + n)]"
    by (simp add: copy_blocks_def)
  moreover have "copy_blocks src dst n bi ! (src + n) = bi ! (src + n)"
    using Suc.IH [of "src + n"] Suc.prems by auto
  moreover have "copy_blocks src dst n bi ! q = (if dst \<le> q \<and> q < dst + n then bi ! (src + (q - dst)) else bi ! q)"
    using Suc.IH [of q] Suc.prems by auto
  ultimately show ?case using Suc.prems by (auto simp: nth_list_update)
qed

lemma find_index_Some:
  "find_index P xs = Some i \<Longrightarrow> i < length xs \<and> P (xs ! i) \<and> (\<forall>j < i. \<not> P (xs ! j))"
proof (induction xs arbitrary: i)
  case (Cons x xs)
  then show ?case by (cases i) (auto split: if_splits simp: less_Suc_eq_0_disj)
qed simp

lemma find_index_None: "find_index P xs = None \<longleftrightarrow> (\<forall>x \<in> set xs. \<not> P x)"
  by (induction xs) auto

text \<open>Blocks of an entry, for storage \<open>bi\<close>.\<close>

definition slice :: "nat \<Rightarrow> block_info list \<Rightarrow> downloading_piece \<Rightarrow> block_info list" where
  "slice n bi dp = map (\<lambda>b. bi ! (dp_info dp + b)) [0..<n]"

lemma length_slice [simp]: "length (slice n bi dp) = n"
  by (simp add: slice_def)

lemma slice_update:
  assumes s: "store_ok bpp dls bi" and i: "i < length dls" and b: "b < n i" and n: "\<And>j. j < length dls \<Longrightarrow> n j \<le> bpp"
    and j: "j < length dls"
  shows "slice (n j) (bi[dp_info (dls ! i) + b := v]) (dls ! j) =
    (if j = i then (slice (n i) bi (dls ! i))[b := v] else slice (n j) bi (dls ! j))"
proof (rule nth_equalityI)
  fix c assume c: "c < length (slice (n j) (bi[dp_info (dls ! i) + b := v]) (dls ! j))"
  have bb: "b < bpp" "c < bpp" using b c n [OF i] n [OF j] by auto
  have "dp_info (dls ! i) + b = dp_info (dls ! j) + c \<longleftrightarrow> i = j \<and> b = c"
    using store_owner [OF s i j bb] by auto
  moreover have "dp_info (dls ! i) + b < length bi" by (rule store_bound(2) [OF s i bb(1)])
  ultimately show "slice (n j) (bi[dp_info (dls ! i) + b := v]) (dls ! j) ! c =
    (if j = i then (slice (n i) bi (dls ! i))[b := v] else slice (n j) bi (dls ! j)) ! c"
    using c b by (auto simp: slice_def nth_list_update)
qed (use b in auto)

lemma fold_set_region:
  assumes "first + n \<le> length bi"
  shows "length (fold (\<lambda>i bi. bi[first + i := v]) [0..<n] bi) = length bi
   \<and> (\<forall>q. fold (\<lambda>i bi. bi[first + i := v]) [0..<n] bi ! q =
        (if first \<le> q \<and> q < first + n then v else bi ! q))"
  using assms
proof (induction n)
  case (Suc n)
  then have ih: "length (fold (\<lambda>i bi. bi[first + i := v]) [0..<n] bi) = length bi"
    "\<And>q. fold (\<lambda>i bi. bi[first + i := v]) [0..<n] bi ! q =
      (if first \<le> q \<and> q < first + n then v else bi ! q)" by auto
  have "fold (\<lambda>i bi. bi[first + i := v]) [0..<Suc n] bi ! q =
      (if first \<le> q \<and> q < first + Suc n then v else bi ! q)" for q
    using Suc.prems ih by (cases "q = first + n") auto
  with ih show ?case by simp
qed auto

lemma add_download_piece_spec:
  assumes s: "store_ok (m_blocks_per_piece pk) (m_downloads pk) (m_block_info pk)"
    and "bpp = m_blocks_per_piece pk" "first = length (m_downloads pk) * bpp"
  shows "\<exists>bi. add_download_piece x pk = pk\<lparr>m_block_info := bi, m_downloads := m_downloads pk @ [new_downloading_piece x first]\<rparr>
     \<and> store_ok bpp (m_downloads pk @ [new_downloading_piece x first]) bi
     \<and> (\<forall>q < first. bi ! q = m_block_info pk ! q)
     \<and> (\<forall>b < bpp. bi ! (first + b) = new_block)"
proof -
  define bi0 where "bi0 = (if length (m_block_info pk) < first + bpp
    then m_block_info pk @ replicate (first + bpp - length (m_block_info pk)) new_block else m_block_info pk)"
  define bi where "bi = fold (\<lambda>i bi. bi[first + i := new_block]) [0..<bpp] bi0"
  have l0: "first + bpp \<le> length bi0" "first \<le> length (m_block_info pk)"
    using s assms by (auto simp: bi0_def store_ok_def)
  have l: "length bi = length bi0" and at: "\<And>q. bi ! q =
      (if first \<le> q \<and> q < first + bpp then new_block else bi0 ! q)"
    using fold_set_region [OF l0(1), of new_block] by (auto simp: bi_def)
  have "store_ok bpp (m_downloads pk @ [new_downloading_piece x first]) bi"
    using s l0 l assms by (simp add: store_ok_def new_downloading_piece_def)
  moreover have "\<forall>q < first. bi ! q = m_block_info pk ! q" using at l0 by (auto simp: bi0_def nth_append)
  moreover have "\<forall>b < bpp. bi ! (first + b) = new_block" using at l0 by auto
  moreover have "add_download_piece x pk = pk\<lparr>m_block_info := bi, m_downloads := m_downloads pk @ [new_downloading_piece x first]\<rparr>"
    by (simp add: add_download_piece_def Let_def bi_def bi0_def assms)
  ultimately show ?thesis by blast
qed


section \<open>The table\<close>

definition count_st :: "block_state \<Rightarrow> block_info list \<Rightarrow> int" where
  "count_st st bl = int (length (filter (\<lambda>b. block_state b = st) bl))"

definition block_ok :: "block_info \<Rightarrow> bool" where
  "block_ok b \<longleftrightarrow> num_peers b < 2 ^ 14 \<and> (num_peers b > 0) = (block_state b = state_requested)"

definition dl_ok :: "block_info list \<Rightarrow> downloading_piece \<Rightarrow> bool" where
  "dl_ok bl dp \<longleftrightarrow> (\<forall>b \<in> set bl. block_ok b)
   \<and> requested dp = count_st state_requested bl \<and> writing dp = count_st state_writing bl
   \<and> finished dp = count_st state_finished bl \<and> (requested dp > 0) = (dp_state dp \<noteq> none)"

definition blocks_of :: "piece_picker \<Rightarrow> downloading_piece \<Rightarrow> block_info list" where
  "blocks_of pk dp = slice (blocks_in_piece pk (dp_index dp)) (m_block_info pk) dp"

definition progress :: "piece_picker \<Rightarrow> nat \<Rightarrow> block_info list option" where
  "progress pk = map_of (map (\<lambda>dp. (dp_index dp, blocks_of pk dp)) (m_downloads pk))"

definition sizes_ok :: "piece_picker \<Rightarrow> bool" where
  "sizes_ok pk \<longleftrightarrow> m_blocks_per_piece pk < 2 ^ 15 \<and> (m_piece_map pk \<noteq> [] \<longrightarrow>
     0 < m_blocks_in_last_piece pk \<and> m_blocks_in_last_piece pk \<le> m_blocks_per_piece pk)"

definition table_core :: "piece_picker \<Rightarrow> bool" where
  "table_core pk \<longleftrightarrow> sizes_ok pk
   \<and> store_ok (m_blocks_per_piece pk) (m_downloads pk) (m_block_info pk)
   \<and> distinct (map dp_index (m_downloads pk))
   \<and> (\<forall>dp \<in> set (m_downloads pk). dp_index dp < num_pieces pk \<and> dl_ok (blocks_of pk dp) dp)"

lemma blocks_in_piece_le: "sizes_ok pk \<Longrightarrow> x < num_pieces pk \<Longrightarrow> blocks_in_piece pk x \<le> m_blocks_per_piece pk"
  by (auto simp: sizes_ok_def blocks_in_piece_def num_pieces_def)

lemma length_blocks_of [simp]: "length (blocks_of pk dp) = blocks_in_piece pk (dp_index dp)"
  by (simp add: blocks_of_def)

lemma map_of_update_nth:
  "distinct (map fst xs) \<Longrightarrow> i < length xs \<Longrightarrow> fst (xs ! i) = k \<Longrightarrow> map_of (xs[i := (k, v)]) = (map_of xs)(k \<mapsto> v)"
proof (induction xs arbitrary: i)
  case (Cons a xs)
  show ?case
  proof (cases i)
    case 0
    with Cons.prems show ?thesis by (auto simp: fun_eq_iff)
  next
    case (Suc j)
    with Cons.prems have "fst (xs ! j) \<in> fst ` set xs" by (intro imageI nth_mem) simp
    moreover have "fst a \<notin> fst ` set xs" using Cons.prems by simp
    ultimately have "fst a \<noteq> k" using Suc Cons.prems(3) by (metis nth_Cons_Suc)
    with Suc Cons show ?thesis by (auto simp: fun_eq_iff)
  qed
qed simp

lemma map_of_drop_nth:
  "distinct (map fst xs) \<Longrightarrow> i < length xs \<Longrightarrow> map_of (drop_nth i xs) = (map_of xs)(fst (xs ! i) := None)"
proof (induction xs arbitrary: i)
  case (Cons a xs)
  show ?case
  proof (cases i)
    case 0
    with Cons.prems have "map_of xs (fst a) = None" by (auto simp: map_of_eq_None_iff)
    with 0 show ?thesis by (cases a) (auto simp: drop_nth_def fun_eq_iff)
  next
    case (Suc j)
    with Cons.prems have "fst (xs ! j) \<in> fst ` set xs" by (intro imageI nth_mem) simp
    moreover have "fst a \<notin> fst ` set xs" using Cons.prems by simp
    ultimately have "fst (xs ! j) \<noteq> fst a" by metis
    with Suc Cons show ?thesis by (cases a) (auto simp: drop_nth_def fun_eq_iff)
  qed
qed simp

lemma progress_at:
  assumes "table_core pk" "i < length (m_downloads pk)"
  shows "progress pk (dp_index (m_downloads pk ! i)) = Some (blocks_of pk (m_downloads pk ! i))"
  using assms unfolding progress_def table_core_def
  by (intro map_of_is_SomeI) (auto simp: comp_def)

lemma progress_None: "progress pk x = None \<longleftrightarrow> x \<notin> dp_index ` set (m_downloads pk)"
  by (auto simp: progress_def map_of_eq_None_iff image_comp)

text \<open>Reordering the queue.\<close>

lemma table_reorder:
  assumes core: "table_core pk" and m: "mset dls = mset (m_downloads pk)"
  shows "table_core (pk\<lparr>m_downloads := dls\<rparr>)" and "progress (pk\<lparr>m_downloads := dls\<rparr>) = progress pk"
proof -
  let ?pk = "pk\<lparr>m_downloads := dls\<rparr>"
  have b: "blocks_of ?pk = blocks_of pk" by (simp add: fun_eq_iff blocks_of_def blocks_in_piece_def)
  have d: "distinct (map dp_index dls) = distinct (map dp_index (m_downloads pk))"
    using m by (metis mset_eq_imp_distinct_iff mset_map)
  have set: "set dls = set (m_downloads pk)" by (rule mset_eq_setD [OF m])
  show "table_core ?pk"
    using core d set store_ok_mset [OF m] by (simp add: table_core_def b sizes_ok_def num_pieces_def)
  show "progress ?pk = progress pk" unfolding progress_def b
    by (subst map_of_inject_set) (use core d set in \<open>auto simp: table_core_def comp_def\<close>)
qed

text \<open>Changing one block and the counters of its entry.\<close>

lemma table_modify:
  assumes core: "table_core pk" and i: "i < length (m_downloads pk)" and dp: "m_downloads pk ! i = dp"
    and same: "dp_index dp' = dp_index dp" "dp_info dp' = dp_info dp"
    and b: "b < blocks_in_piece pk (dp_index dp)" and ok: "dl_ok ((blocks_of pk dp)[b := v]) dp'"
    and pk': "pk' = pk\<lparr>m_downloads := (m_downloads pk)[i := dp'],
      m_block_info := (m_block_info pk)[dp_info dp + b := v]\<rparr>"
  shows "table_core pk'" and "progress pk' = (progress pk)(dp_index dp \<mapsto> (blocks_of pk dp)[b := v])"
    and "blocks_of pk' dp' = (blocks_of pk dp)[b := v]"
proof -
  let ?dls = "m_downloads pk" and ?n = "\<lambda>j. blocks_in_piece pk (dp_index (m_downloads pk ! j))"
  from core have sz: "sizes_ok pk" and st: "store_ok (m_blocks_per_piece pk) ?dls (m_block_info pk)"
    and di: "distinct (map dp_index ?dls)"
    and all: "\<And>j. j < length ?dls \<Longrightarrow> dp_index (?dls ! j) < num_pieces pk \<and> dl_ok (blocks_of pk (?dls ! j)) (?dls ! j)"
    by (auto simp: table_core_def)
  have bip: "blocks_in_piece pk' = blocks_in_piece pk" by (simp add: fun_eq_iff blocks_in_piece_def pk')
  have n: "?n j \<le> m_blocks_per_piece pk" if "j < length ?dls" for j
    using blocks_in_piece_le [OF sz] all that by auto
  have bl: "blocks_of pk' (?dls[i := dp'] ! j) = (if j = i then (blocks_of pk dp)[b := v] else blocks_of pk (?dls ! j))"
    if "j < length ?dls" for j
  proof -
    have "slice (?n j) ((m_block_info pk)[dp_info (?dls ! i) + b := v]) (?dls ! j) =
        (if j = i then (slice (?n i) (m_block_info pk) (?dls ! i))[b := v] else slice (?n j) (m_block_info pk) (?dls ! j))"
      by (rule slice_update [of "m_blocks_per_piece pk"]) (use st i that b dp n in auto)
    with dp same that i show ?thesis
      by (cases "j = i") (auto simp: blocks_of_def bip pk' slice_def)
  qed
  show "blocks_of pk' dp' = (blocks_of pk dp)[b := v]" using bl [OF i] i by simp
  have idx: "map dp_index (?dls[i := dp']) = map dp_index ?dls" "map dp_info (?dls[i := dp']) = map dp_info ?dls"
    using i dp same by (auto simp: map_update list_update_same_conv)
  have "dp_index (?dls[i := dp'] ! j) < num_pieces pk' \<and> dl_ok (blocks_of pk' (?dls[i := dp'] ! j)) (?dls[i := dp'] ! j)"
    if "j < length ?dls" for j
    using bl [OF that] all [OF that] ok same dp i by (cases "j = i") (auto simp: num_pieces_def pk')
  then have "\<forall>d \<in> set (?dls[i := dp']). dp_index d < num_pieces pk' \<and> dl_ok (blocks_of pk' d) d"
    by (metis in_set_conv_nth length_list_update)
  with sz st di idx show "table_core pk'"
    by (simp add: table_core_def pk' sizes_ok_def store_ok_def)
  have "map (\<lambda>dp. (dp_index dp, blocks_of pk' dp)) (?dls[i := dp'])
      = (map (\<lambda>dp. (dp_index dp, blocks_of pk dp)) ?dls)[i := (dp_index dp, (blocks_of pk dp)[b := v])]"
    by (rule nth_equalityI) (use bl i dp same in \<open>auto simp: nth_list_update\<close>)
  then show "progress pk' = (progress pk)(dp_index dp \<mapsto> (blocks_of pk dp)[b := v])"
    using di i dp by (simp add: progress_def pk' map_of_update_nth comp_def)
qed


lemma dl_ok_arrived_ge_0: "dl_ok bl dp \<Longrightarrow> 0 \<le> arrived dp"
  by (simp add: dl_ok_def arrived_def count_st_def)

lemma descending_append_0:
  assumes "descending dls" "\<forall>d \<in> set dls. 0 \<le> arrived d" "arrived dp = 0"
  shows "descending (dls @ [dp])"
  using assms by (auto simp: descending_def sorted_wrt_append)

lemma drop_nth_last [simp]: "drop_nth (length xs) (xs @ [x]) = xs"
  by (simp add: drop_nth_def)

text \<open>A new entry.\<close>

lemma table_add:
  assumes core: "table_core pk" and x: "x < num_pieces pk" "x \<notin> dp_index ` set (m_downloads pk)"
    and desc: "descending (m_downloads pk)"
  obtains bi dp where
    "add_download_piece x pk = pk\<lparr>m_block_info := bi, m_downloads := m_downloads pk @ [dp]\<rparr>"
    "dp_state dp = none" "dp_index dp = x" "requested dp = 0" "writing dp = 0" "finished dp = 0"
    "table_core (add_download_piece x pk)" "descending (m_downloads pk @ [dp])"
    "blocks_of (add_download_piece x pk) dp = replicate (blocks_in_piece pk x) new_block"
    "progress (add_download_piece x pk) = (progress pk)(x \<mapsto> replicate (blocks_in_piece pk x) new_block)"
proof -
  let ?dls = "m_downloads pk" and ?bpp = "m_blocks_per_piece pk"
  define first where "first = length ?dls * ?bpp"
  define dp where "dp = new_downloading_piece x first"
  from core have sz: "sizes_ok pk" and st: "store_ok ?bpp ?dls (m_block_info pk)" and di: "distinct (map dp_index ?dls)"
    and all: "\<And>d. d \<in> set ?dls \<Longrightarrow> dp_index d < num_pieces pk \<and> dl_ok (blocks_of pk d) d"
    by (auto simp: table_core_def)
  obtain bi where eq: "add_download_piece x pk = pk\<lparr>m_block_info := bi, m_downloads := ?dls @ [dp]\<rparr>"
    and st': "store_ok ?bpp (?dls @ [dp]) bi" and old: "\<And>q. q < first \<Longrightarrow> bi ! q = m_block_info pk ! q"
    and new: "\<And>b. b < ?bpp \<Longrightarrow> bi ! (first + b) = new_block"
    using add_download_piece_spec [OF st refl first_def, of x] unfolding dp_def by blast
  let ?pk = "pk\<lparr>m_block_info := bi, m_downloads := ?dls @ [dp]\<rparr>"
  have f: "dp_state dp = none" "dp_index dp = x" "requested dp = 0" "writing dp = 0" "finished dp = 0" "dp_info dp = first"
    by (simp_all add: dp_def new_downloading_piece_def)
  have nb: "blocks_of ?pk dp = replicate (blocks_in_piece pk x) new_block"
    using blocks_in_piece_le [OF sz x(1)] new
    by (auto simp: blocks_of_def slice_def f intro!: nth_equalityI)
  have ob: "blocks_of ?pk d = blocks_of pk d" if "d \<in> set ?dls" for d
  proof -
    from that obtain j where j: "j < length ?dls" "d = ?dls ! j" by (auto simp: in_set_conv_nth)
    have "dp_info d + b < first" if "b < blocks_in_piece pk (dp_index d)" for b
      using store_bound(1) [OF st j(1), of b] blocks_in_piece_le [OF sz, of "dp_index d"] all [OF \<open>d \<in> set ?dls\<close>] that j(2)
      by (simp add: first_def)
    with old show ?thesis by (simp add: blocks_of_def slice_def)
  qed
  have "dl_ok (replicate (blocks_in_piece pk x) new_block) dp"
    using f by (auto simp: dl_ok_def block_ok_def new_block_def count_st_def)
  then have core': "table_core ?pk"
    using sz st' di all x nb ob f by (auto simp: table_core_def sizes_ok_def)
  have pr: "progress ?pk = (progress pk)(x \<mapsto> replicate (blocks_in_piece pk x) new_block)"
  proof -
    have "map_of (map (\<lambda>d. (dp_index d, blocks_of ?pk d)) ?dls) = progress pk"
      unfolding progress_def by (rule arg_cong [of _ _ map_of]) (use ob in auto)
    moreover have "progress pk x = None" using x(2) by (simp add: progress_None)
    ultimately show ?thesis using nb f(2)
      by (auto simp: progress_def map_of_append map_add_def fun_eq_iff split: option.splits)
  qed
  have "\<forall>d \<in> set ?dls. 0 \<le> arrived d" using all dl_ok_arrived_ge_0 by blast
  then have "descending (?dls @ [dp])"
    by (rule descending_append_0 [OF desc]) (simp add: f arrived_def)
  then show ?thesis using that [OF eq f(1-5)] core' nb pr unfolding eq by blast
qed

lemma mset_drop_nth: "i < length xs \<Longrightarrow> mset (drop_nth i xs) = mset xs - {#xs ! i#}"
  by (subst (2) id_take_nth_drop [of i xs]) (auto simp: drop_nth_def)

lemma map_drop_nth: "map f (drop_nth i xs) = drop_nth i (map f xs)"
  by (simp add: drop_nth_def take_map drop_map)

lemma distinct_drop_nth: "distinct xs \<Longrightarrow> i < length xs \<Longrightarrow> distinct (drop_nth i xs)"
  by (auto simp: distinct_conv_nth nth_drop_nth)

lemma descending_drop_nth: "descending dls \<Longrightarrow> i < length dls \<Longrightarrow> descending (drop_nth i dls)"
  unfolding descending_nth by (auto simp: nth_drop_nth)

text \<open>Erasing an entry.\<close>

lemma store_move:
  assumes st: "store_ok bpp dls bi" and i: "i < length dls"
    and o: "other < length dls" "dp_info (dls ! other) = (length dls - 1) * bpp" and io: "i \<noteq> other"
    and j: "j < length dls" "j \<noteq> i" and b: "b < bpp"
  shows "copy_blocks ((length dls - 1) * bpp) (dp_info (dls ! i)) bpp bi
      ! (dp_info (dls[other := (dls ! other)\<lparr>dp_info := dp_info (dls ! i)\<rparr>] ! j) + b)
    = bi ! (dp_info (dls ! j) + b)"
proof -
  let ?L = "(length dls - 1) * bpp" and ?off = "dp_info (dls ! i)"
  obtain k where k: "k < length dls" "?off = k * bpp" using store_slot [OF st i] by blast
  have "?off \<noteq> ?L" using store_owner [OF st i o(1), of 0 0] b io o(2) by auto
  with k have "k < length dls - 1" by (cases "k = length dls - 1") auto
  then have "k * bpp + bpp \<le> ?L"
    using mult_le_mono1 [of "Suc k" "length dls - 1" bpp] by simp
  then have r: "?off + bpp \<le> ?L" "?off + bpp \<le> length bi"
    using k store_bound(2) [OF st o(1), of 0] o(2) b by auto
  have cp: "copy_blocks ?L ?off bpp bi ! q = (if ?off \<le> q \<and> q < ?off + bpp then bi ! (?L + (q - ?off)) else bi ! q)" for q
    by (rule nth_copy_blocks) (use r in auto)
  have "\<not> (?off \<le> dp_info (dls ! j) + b \<and> dp_info (dls ! j) + b < ?off + bpp)"
    using store_owner [OF st i j(1), of "dp_info (dls ! j) + b - ?off" b] b j(2) by force
  with cp b o j(1) show ?thesis by (auto simp: nth_list_update)
qed

lemma store_erase:
  assumes st: "store_ok bpp dls bi" and i: "i < length dls"
    and o: "other < length dls" "dp_info (dls ! other) = (length dls - 1) * bpp" and l: "length bi' = length bi"
  shows "store_ok bpp (drop_nth i (dls[other := (dls ! other)\<lparr>dp_info := dp_info (dls ! i)\<rparr>])) bi'"
proof -
  let ?L = "(length dls - 1) * bpp" and ?off = "dp_info (dls ! i)"
  let ?dls = "drop_nth i (dls[other := (dls ! other)\<lparr>dp_info := ?off\<rparr>])"
  have "mset (map dp_info ?dls) = mset ((map dp_info dls)[other := ?off]) - {#?off#}"
    using i o by (simp add: map_drop_nth mset_drop_nth map_update nth_list_update)
  then have "mset (map dp_info ?dls) = mset (map dp_info dls) - {#?L#}"
    using o by (simp add: mset_update)
  moreover have "mset (map (\<lambda>k. k * bpp) [0..<length dls]) = add_mset ?L (mset (map (\<lambda>k. k * bpp) [0..<length dls - 1]))"
    using i by (cases "length dls") auto
  moreover have "(length dls - 1) * bpp \<le> length dls * bpp" by simp
  then have "(length dls - 1) * bpp \<le> length bi" using st unfolding store_ok_def by linarith
  ultimately show ?thesis using st i l by (auto simp: store_ok_def)
qed


lemma table_erase:
  assumes core: "table_core pk" and i: "i < length (m_downloads pk)" and x: "x = dp_index (m_downloads pk ! i)"
    and desc: "descending (drop_nth i (m_downloads pk))"
  obtains bi dls where
    "erase_download_piece i pk = pk\<lparr>m_block_info := bi,
       m_piece_map := (m_piece_map pk)[x := (m_piece_map pk ! x)\<lparr>downloading := False\<rparr>], m_downloads := dls\<rparr>"
    "table_core (erase_download_piece i pk)" "descending dls"
    "progress (erase_download_piece i pk) = (progress pk)(x := None)"
proof -
  let ?dls = "m_downloads pk" and ?bpp = "m_blocks_per_piece pk" and ?bi = "m_block_info pk"
  let ?L = "(length ?dls - 1) * ?bpp" and ?off = "dp_info (?dls ! i)"
  let ?n = "\<lambda>j. blocks_in_piece pk (dp_index (?dls ! j))"
  from core have sz: "sizes_ok pk" and st: "store_ok ?bpp ?dls ?bi" and di: "distinct (map dp_index ?dls)"
    and all: "\<And>j. j < length ?dls \<Longrightarrow> dp_index (?dls ! j) < num_pieces pk \<and> dl_ok (blocks_of pk (?dls ! j)) (?dls ! j)"
    by (auto simp: table_core_def)
  have "?L \<in> set (map dp_info ?dls)"
  proof -
    have "?L \<in> set (map (\<lambda>k. k * ?bpp) [0..<length ?dls])" using i by force
    with st show ?thesis unfolding store_ok_def by (metis mset_eq_setD)
  qed
  then have "find_index (\<lambda>dp. dp_info dp = ?L) ?dls \<noteq> None" unfolding find_index_None by force
  then obtain other where fo: "find_index (\<lambda>dp. dp_info dp = ?L) ?dls = Some other" by blast
  then have o: "other < length ?dls" "dp_info (?dls ! other) = ?L" using find_index_Some [OF fo] by auto
  define dls1 where "dls1 = ?dls[other := (?dls ! other)\<lparr>dp_info := ?off\<rparr>]"
  define bi where "bi = (if i \<noteq> other then copy_blocks ?L ?off ?bpp ?bi else ?bi)"
  define dls where "dls = drop_nth i dls1"
  define pk' where "pk' = pk\<lparr>m_block_info := bi,
      m_piece_map := (m_piece_map pk)[x := (m_piece_map pk ! x)\<lparr>downloading := False\<rparr>], m_downloads := dls\<rparr>"
  have d1: "dls1 = ?dls" if "i = other" using that by (simp add: dls1_def)
  have eq: "erase_download_piece i pk = pk'"
    using o fo d1 by (auto simp: erase_download_piece_def Let_def pk'_def dls_def drop_nth_def dls1_def bi_def x)
  have l1: "length dls1 = length ?dls" by (simp add: dls1_def)
  have bip: "blocks_in_piece pk' = blocks_in_piece pk" "num_pieces pk' = num_pieces pk"
    by (simp_all add: pk'_def fun_eq_iff blocks_in_piece_def num_pieces_def)
  have same: "dp_index (dls1 ! j) = dp_index (?dls ! j)" "arrived (dls1 ! j) = arrived (?dls ! j)"
    "dl_ok bl (dls1 ! j) = dl_ok bl (?dls ! j)" if "j < length ?dls" for j bl
    using that o by (cases "j = other"; simp add: dls1_def arrived_def dl_ok_def)+
  have n: "?n j \<le> ?bpp" if "j < length ?dls" for j using blocks_in_piece_le [OF sz] all [OF that] by simp
  have slots: "blocks_of pk' (dls1 ! j) = blocks_of pk (?dls ! j)" if j: "j < length ?dls" "j \<noteq> i" for j
  proof (rule nth_equalityI)
    fix b assume "b < length (blocks_of pk' (dls1 ! j))"
    with same(1) [OF j(1)] bip n [OF j(1)] have b: "b < ?n j" "b < ?bpp" by auto
    have "bi ! (dp_info (dls1 ! j) + b) = ?bi ! (dp_info (?dls ! j) + b)"
      using store_move [OF st i o _ j b(2)] d1 by (cases "i = other") (auto simp: bi_def dls1_def)
    with b same(1) [OF j(1)] show "blocks_of pk' (dls1 ! j) ! b = blocks_of pk (?dls ! j) ! b"
      by (simp add: blocks_of_def slice_def bip) (simp add: pk'_def)
  qed (use same bip j in simp)
  have ix: "map dp_index dls1 = map dp_index ?dls" "map arrived dls1 = map arrived ?dls"
    using same l1 by (auto intro: nth_equalityI)
  have desc': "descending dls"
    using desc ix(2) by (simp add: dls_def descending_def map_drop_nth)
  have st': "store_ok ?bpp dls bi"
    using store_erase [OF st i o, of bi] by (simp add: dls_def dls1_def bi_def)
  have mem: "\<exists>j. j < length ?dls \<and> j \<noteq> i \<and> d = dls1 ! j" if "d \<in> set dls" for d
  proof -
    from that obtain q where "q < length dls" "d = dls ! q" by (auto simp: in_set_conv_nth)
    with i l1 show ?thesis
      by (intro exI [of _ "if q < i then q else Suc q"]) (auto simp: dls_def nth_drop_nth)
  qed
  have "table_core pk'"
  proof -
    have "\<forall>d \<in> set dls. dp_index d < num_pieces pk' \<and> dl_ok (blocks_of pk' d) d"
    proof
      fix d assume "d \<in> set dls"
      from mem [OF this] obtain j where j: "j < length ?dls" "j \<noteq> i" "d = dls1 ! j" by blast
      with slots [OF j(1,2)] same [OF j(1)] all [OF j(1)] show "dp_index d < num_pieces pk' \<and> dl_ok (blocks_of pk' d) d"
        by (simp add: bip)
    qed
    moreover have "distinct (map dp_index dls)" using distinct_drop_nth [OF di, of i] i ix(1)
      by (simp add: dls_def map_drop_nth)
    ultimately show ?thesis using sz st' unfolding table_core_def by (simp add: pk'_def sizes_ok_def)
  qed
  moreover have "progress pk' = (progress pk)(x := None)"
  proof -
    have "map (\<lambda>d. (dp_index d, blocks_of pk' d)) dls = drop_nth i (map (\<lambda>d. (dp_index d, blocks_of pk d)) ?dls)"
      by (rule nth_equalityI) (use i l1 slots same in \<open>auto simp: dls_def nth_drop_nth\<close>)
    then show ?thesis using di i by (simp add: progress_def pk'_def map_of_drop_nth comp_def x)
  qed
  ultimately show ?thesis using that [of dls bi] desc' eq unfolding pk'_def by simp
qed

end
