(* ===== verification/Picker_Ops.thy ===== *)
theory Picker_Ops
  imports Picker_Downloads
begin

text \<open>
  The public operations of the piece picker (\<open>src/piece_picker.cpp\<close>) that change it, one
  definition each, and its queries. An operation that may call \<open>rand()\<close> calls it at most
  once: the number is the argument \<open>r\<close>. An iterator that the code asserts to be found is the
  \<open>Some\<close> case; in the \<open>None\<close> case, which the invariant excludes, the picker is returned as
  it is. \<open>TORRENT_ASSERT\<close>s are not part of the definitions: what the theorems need of them is
  stated as guards of the step relation in the theory \<open>Picker_Invariant\<close>.
\<close>

section \<open>Starting\<close>

text \<open>\<open>piece_pos(0, 0)\<close>\<close>

definition new_piece_pos :: piece_pos where
  "new_piece_pos = \<lparr>peer_count = 0, downloading = False, piece_priority = 1, pp_index = 0\<rparr>"

fun skip_forward :: "piece_pos list \<Rightarrow> nat \<Rightarrow> nat" where
  "skip_forward [] cursor = cursor"
| "skip_forward (p # pm) cursor =
     (if have_pos p \<or> filtered p then skip_forward pm (cursor + 1) else cursor)"

fun skip_backward :: "piece_pos list \<Rightarrow> nat \<Rightarrow> nat" where
  "skip_backward pm 0 = 0"
| "skip_backward pm (Suc cursor) =
     (if have_pos (pm ! cursor) \<or> filtered (pm ! cursor) then skip_backward pm cursor else Suc cursor)"

definition init :: "nat \<Rightarrow> nat \<Rightarrow> nat \<Rightarrow> piece_picker \<Rightarrow> piece_picker" where
  "init blocks_per_piece blocks_in_last_piece total_num_pieces pk =
     (let pm = map (\<lambda>p. p\<lparr>peer_count := 0, downloading := False, pp_index := 0\<rparr>)
                 (resize_vec total_num_pieces new_piece_pos (m_piece_map pk))
      in pk\<lparr>m_piece_map := pm,
            m_cursor := skip_forward pm 0,
            m_reverse_cursor := skip_backward pm (length pm),
            m_downloads := [], m_block_info := [],
            m_num_filtered := m_num_filtered pk + m_num_have_filtered pk,
            m_num_have_filtered := 0, m_num_have := 0, m_dirty := True,
            m_blocks_per_piece := blocks_per_piece,
            m_blocks_in_last_piece :=
              (if blocks_in_last_piece = 0 then blocks_per_piece else blocks_in_last_piece)\<rparr>)"

section \<open>Availability\<close>

definition set_pos :: "nat \<Rightarrow> (piece_pos \<Rightarrow> piece_pos) \<Rightarrow> piece_picker \<Rightarrow> piece_picker" where
  "set_pos x f pk = pk\<lparr>m_piece_map := (m_piece_map pk)[x := f (m_piece_map pk ! x)]\<rparr>"

text \<open>The bit field \<open>peer_count\<close> has 10 bits and wraps.\<close>

definition inc_peer_count :: "piece_pos \<Rightarrow> piece_pos" where
  "inc_peer_count p = p\<lparr>peer_count := (peer_count p + 1) mod 2 ^ 10\<rparr>"

definition dec_peer_count :: "piece_pos \<Rightarrow> piece_pos" where
  "dec_peer_count p = p\<lparr>peer_count := (peer_count p + 2 ^ 10 - 1) mod 2 ^ 10\<rparr>"

definition inc_refcount_all :: "piece_picker \<Rightarrow> piece_picker" where
  "inc_refcount_all pk =
     (let pk = pk\<lparr>m_seeds := m_seeds pk + 1\<rparr>
      in if m_seeds pk = 1 then pk\<lparr>m_dirty := True\<rparr> else pk)"

definition dec_refcount_all :: "piece_picker \<Rightarrow> piece_picker" where
  "dec_refcount_all pk =
     (if m_seeds pk > 0
      then let pk = pk\<lparr>m_seeds := m_seeds pk - 1\<rparr>
           in if m_seeds pk = 0 then pk\<lparr>m_dirty := True\<rparr> else pk
      else pk\<lparr>m_piece_map := map dec_peer_count (m_piece_map pk), m_dirty := True\<rparr>)"

definition inc_refcount :: "nat \<Rightarrow> nat \<Rightarrow> piece_picker \<Rightarrow> piece_picker" where
  "inc_refcount r index pk =
     (let prev_priority = prio_of pk index;
          pk = set_pos index inc_peer_count pk
      in if m_dirty pk then pk
         else if prev_priority = prio_of pk index then pk
         else if prev_priority = -1 then add r index pk
         else update r (nat prev_priority) (pp_index (m_piece_map pk ! index)) pk)"

definition dec_refcount :: "nat \<Rightarrow> nat \<Rightarrow> piece_picker \<Rightarrow> piece_picker" where
  "dec_refcount r index pk =
     (let prev_priority = prio_of pk index;
          pk = set_pos index dec_peer_count pk
      in if m_dirty pk then pk
         else if prev_priority \<ge> 0
         then update r (nat prev_priority) (pp_index (m_piece_map pk ! index)) pk
         else pk)"

text \<open>The overloads on a bitmask, which has as many bits as there are pieces.\<close>

definition refcount_mask :: "(piece_pos \<Rightarrow> piece_pos) \<Rightarrow> bool list \<Rightarrow> piece_picker \<Rightarrow> piece_picker" where
  "refcount_mask f bitmask pk =
     (let pm = map (\<lambda>(b, p). if b then f p else p) (zip bitmask (m_piece_map pk))
               @ drop (length bitmask) (m_piece_map pk);
          pk = pk\<lparr>m_piece_map := pm\<rparr>
      in if True \<in> set bitmask then pk\<lparr>m_dirty := True\<rparr> else pk)"

definition inc_refcount_mask :: "bool list \<Rightarrow> piece_picker \<Rightarrow> piece_picker" where
  "inc_refcount_mask = refcount_mask inc_peer_count"

definition dec_refcount_mask :: "bool list \<Rightarrow> piece_picker \<Rightarrow> piece_picker" where
  "dec_refcount_mask = refcount_mask dec_peer_count"

section \<open>Having a piece\<close>

text \<open>What a newly wanted piece does to the cursors.\<close>

definition cursors_wanted :: "nat \<Rightarrow> piece_picker \<Rightarrow> piece_picker" where
  "cursors_wanted index pk =
     (let pk = (if index < m_cursor pk then pk\<lparr>m_cursor := index\<rparr> else pk);
          pk = (if index \<ge> m_reverse_cursor pk then pk\<lparr>m_reverse_cursor := index + 1\<rparr> else pk)
      in if m_reverse_cursor pk = m_cursor pk
         then pk\<lparr>m_reverse_cursor := 0, m_cursor := num_pieces pk\<rparr> else pk)"

text \<open>
  What a piece that is no longer wanted does to the cursors: \<open>pm\<close> is the piece map the scan
  reads. \<open>m_cursor == m_reverse_cursor - 1\<close> is a comparison of signed integers.
\<close>

definition cursors_unwanted :: "piece_pos list \<Rightarrow> nat \<Rightarrow> piece_picker \<Rightarrow> piece_picker" where
  "cursors_unwanted pm index pk =
     (if m_cursor pk + 1 = m_reverse_cursor pk \<and> m_cursor pk = index
      then pk\<lparr>m_cursor := length pm, m_reverse_cursor := 0\<rparr>
      else if m_cursor pk = index
      then pk\<lparr>m_cursor := skip_forward (drop (m_cursor pk + 1) pm) (m_cursor pk + 1)\<rparr>
      else if m_reverse_cursor pk = index + 1
      then pk\<lparr>m_reverse_cursor := skip_backward pm (m_reverse_cursor pk - 1)\<rparr>
      else pk)"

definition we_dont_have :: "nat \<Rightarrow> nat \<Rightarrow> piece_picker \<Rightarrow> piece_picker" where
  "we_dont_have r index pk =
     (let p = m_piece_map pk ! index
      in if \<not> have_pos p then pk
         else
           let pk = (if filtered p
                     then pk\<lparr>m_num_filtered := m_num_filtered pk + 1,
                             m_num_have_filtered := m_num_have_filtered pk - 1\<rparr>
                     else cursors_wanted index pk);
               pk = pk\<lparr>m_num_have := m_num_have pk - 1\<rparr>;
               pk = set_pos index (\<lambda>p. p\<lparr>pp_index := 0\<rparr>) pk
           in if m_dirty pk then pk
              else if prio_of pk index \<ge> 0 then add r index pk
              else pk)"

definition sparse_delta :: "piece_pos list \<Rightarrow> nat \<Rightarrow> int" where
  "sparse_delta pm index =
     (if index = 0
      then (if index + 1 = length pm \<or> have_pos (pm ! (index + 1)) then -1 else 0)
      else if index + 1 = length pm
      then (if have_pos (pm ! (index - 1)) then -1 else 0)
      else
        let have_before = have_pos (pm ! (index - 1)); have_after = have_pos (pm ! (index + 1))
        in if have_after \<and> have_before then -1
           else if \<not> have_after \<and> \<not> have_before then 1 else 0)"

text \<open>The part of \<open>we_have\<close> between the download queue and the array of pickable pieces.\<close>

definition mark_have :: "nat \<Rightarrow> piece_picker \<Rightarrow> piece_picker" where
  "mark_have index pk =
     (let pk = pk\<lparr>m_sparse_regions := m_sparse_regions pk + sparse_delta (m_piece_map pk) index\<rparr>;
          pk = (if filtered (m_piece_map pk ! index)
                then pk\<lparr>m_num_filtered := m_num_filtered pk - 1,
                        m_num_have_filtered := m_num_have_filtered pk + 1\<rparr>
                else pk);
          pk = pk\<lparr>m_num_have := m_num_have pk + 1\<rparr>;
          pk = set_pos index (\<lambda>p. p\<lparr>pp_index := we_have_index\<rparr>) pk
      in cursors_unwanted (m_piece_map pk) index pk)"

definition we_have :: "nat \<Rightarrow> piece_picker \<Rightarrow> piece_picker" where
  "we_have index pk =
     (let info_index = pp_index (m_piece_map pk ! index);
          prio = prio_of pk index;
          pk = (if downloading (m_piece_map pk ! index)
                then case find_download pk index of None \<Rightarrow> pk | Some i \<Rightarrow> erase_download_piece i pk
                else pk)
      in if have_piece pk index then pk
         else
           let pk = mark_have index pk
           in if prio = -1 then pk
              else if m_dirty pk then pk
              else remove (nat prio) info_index pk)"

section \<open>Piece priorities\<close>

text \<open>
  The part of \<open>set_piece_priority\<close> that counts a piece that is filtered or no longer
  filtered, and the value to return; \<open>filter_priority\<close> is 0.
\<close>

definition count_filtered :: "nat \<Rightarrow> nat \<Rightarrow> piece_picker \<Rightarrow> bool \<times> piece_picker" where
  "count_filtered index new_piece_priority pk =
     (let p = m_piece_map pk ! index
      in if new_piece_priority = 0 \<and> piece_priority p \<noteq> 0
         then (True,
               if have_pos p then pk\<lparr>m_num_have_filtered := m_num_have_filtered pk + 1\<rparr>
               else cursors_unwanted (m_piece_map pk) index
                      (pk\<lparr>m_num_filtered := m_num_filtered pk + 1\<rparr>))
         else if new_piece_priority \<noteq> 0 \<and> piece_priority p = 0
         then (True,
               if have_pos p then pk\<lparr>m_num_have_filtered := m_num_have_filtered pk - 1\<rparr>
               else cursors_wanted index (pk\<lparr>m_num_filtered := m_num_filtered pk - 1\<rparr>))
         else (False, pk))"

definition set_piece_priority :: "nat \<Rightarrow> nat \<Rightarrow> nat \<Rightarrow> piece_picker \<Rightarrow> bool \<times> piece_picker" where
  "set_piece_priority r index new_piece_priority pk =
     (if new_piece_priority = piece_priority (m_piece_map pk ! index) then (False, pk)
      else
        let prev_priority = prio_of pk index;
            (ret, pk) = count_filtered index new_piece_priority pk;
            pk = set_pos index (\<lambda>p. p\<lparr>piece_priority := new_piece_priority mod 2 ^ 3\<rparr>) pk
        in if prev_priority = prio_of pk index then (ret, pk)
           else if m_dirty pk then (ret, pk)
           else if prev_priority = -1 then (ret, add r index pk)
           else (ret, update r (nat prev_priority) (pp_index (m_piece_map pk ! index)) pk))"

section \<open>Blocks\<close>

text \<open>The beginning of a download: the piece is filed under its new priority and gets an entry.\<close>

definition start_download :: "nat \<Rightarrow> nat \<Rightarrow> piece_picker \<Rightarrow> piece_picker" where
  "start_download r index pk =
     (let prio = prio_of pk index;
          pk = set_pos index (\<lambda>p. p\<lparr>downloading := True\<rparr>) pk;
          pk = (if prio \<ge> 0 \<and> \<not> m_dirty pk
                then update r (nat prio) (pp_index (m_piece_map pk ! index)) pk else pk)
      in add_download_piece index pk)"

definition mark_as_downloading ::
  "nat \<Rightarrow> piece_block \<Rightarrow> ptr \<Rightarrow> piece_state_t \<Rightarrow> piece_picker \<Rightarrow> bool \<times> piece_picker" where
  "mark_as_downloading r block pr state pk =
     (if \<not> downloading (m_piece_map pk ! piece_index block)
      then
        let pk = start_download r (piece_index block) pk;
            i = length (m_downloads pk) - 1;
            pk = upd_block i (block_index block)
                   (\<lambda>info. info\<lparr>block_state := state_requested, peer := pr, num_peers := 1\<rparr>) pk
        in (True, upd_download i (\<lambda>dp. dp\<lparr>dp_state := state, requested := int16 (requested dp + 1)\<rparr>) pk)
      else
        case find_download pk (piece_index block) of None \<Rightarrow> (True, pk)
        | Some i \<Rightarrow>
            let info = block_of pk (m_downloads pk ! i) (block_index block)
            in if block_state info = state_writing \<or> block_state info = state_finished then (False, pk)
               else
                 let fresh = block_state info \<noteq> state_requested;
                     pk = upd_block i (block_index block)
                            (\<lambda>info. info\<lparr>peer := pr, block_state := state_requested,
                               num_peers := (num_peers info + 1) mod 2 ^ 14\<rparr>) pk
                 in (True, upd_download i
                       (\<lambda>dp. dp\<lparr>requested := (if fresh then int16 (requested dp + 1) else requested dp),
                          dp_state := (if dp_state dp = none then state else dp_state dp)\<rparr>) pk))"

definition mark_as_writing :: "nat \<Rightarrow> piece_block \<Rightarrow> ptr \<Rightarrow> piece_picker \<Rightarrow> bool \<times> piece_picker" where
  "mark_as_writing r block pr pk =
     (if \<not> downloading (m_piece_map pk ! piece_index block)
      then
        if have_piece pk (piece_index block) then (False, pk)
        else
          let pk = start_download r (piece_index block) pk;
              i = length (m_downloads pk) - 1;
              pk = upd_block i (block_index block)
                     (\<lambda>info. info\<lparr>block_state := state_writing, peer := pr, num_peers := 0\<rparr>) pk;
              pk = upd_download i (\<lambda>dp. dp\<lparr>dp_state := none, writing := 1\<rparr>) pk
          in (True, sort_piece i pk)
      else
        case find_download pk (piece_index block) of None \<Rightarrow> (True, pk)
        | Some i \<Rightarrow>
            let st = block_state (block_of pk (m_downloads pk ! i) (block_index block));
                pk = upd_block i (block_index block) (\<lambda>info. info\<lparr>peer := pr\<rparr>) pk;
                pk = (if st = state_requested
                      then upd_download i (\<lambda>dp. dp\<lparr>requested := int16 (requested dp - 1)\<rparr>) pk else pk)
            in if st = state_writing \<or> st = state_finished then (False, pk)
               else
                 let pk = upd_block i (block_index block)
                            (\<lambda>info. info\<lparr>block_state := state_writing, num_peers := 0\<rparr>) pk;
                     pk = upd_download i
                            (\<lambda>dp. dp\<lparr>writing := int16 (writing dp + 1),
                               dp_state := (if requested dp = 0 then none else dp_state dp)\<rparr>) pk
                 in (True, sort_piece i pk))"

text \<open>The end of a download that has no block left: the entry goes and the piece is filed anew.\<close>

definition stop_download :: "nat \<Rightarrow> nat \<Rightarrow> nat \<Rightarrow> piece_picker \<Rightarrow> piece_picker" where
  "stop_download r i index pk =
     (let prev_priority = prio_of pk index;
          pk = erase_download_piece i pk
      in if m_dirty pk then pk
         else if prio_of pk index = prev_priority then pk
         else if prev_priority = -1 then add r index pk
         else update r (nat prev_priority) (pp_index (m_piece_map pk ! index)) pk)"

definition write_failed :: "nat \<Rightarrow> piece_block \<Rightarrow> piece_picker \<Rightarrow> piece_picker" where
  "write_failed r block pk =
     (case find_download pk (piece_index block) of None \<Rightarrow> pk
      | Some i \<Rightarrow>
          let st = block_state (block_of pk (m_downloads pk ! i) (block_index block))
          in if st = state_finished then pk
             else
               let pk = (if st = state_writing
                         then upd_download i (\<lambda>dp. dp\<lparr>writing := int16 (writing dp - 1)\<rparr>) pk else pk);
                   pk = upd_block i (block_index block) (\<lambda>info. info\<lparr>peer := None, block_state := state_none\<rparr>) pk;
                   dp = m_downloads pk ! i
               in if finished dp + writing dp + requested dp = 0
                  then stop_download r i (piece_index block) pk
                  else sort_piece i pk)"

definition mark_as_finished :: "nat \<Rightarrow> piece_block \<Rightarrow> ptr \<Rightarrow> piece_picker \<Rightarrow> piece_picker" where
  "mark_as_finished r block pr pk =
     (if \<not> downloading (m_piece_map pk ! piece_index block)
      then
        if have_piece pk (piece_index block) then pk
        else
          let pk = start_download r (piece_index block) pk;
              i = length (m_downloads pk) - 1;
              st = block_state (block_of pk (m_downloads pk ! i) (block_index block));
              pk = upd_block i (block_index block) (\<lambda>info. info\<lparr>peer := pr, block_state := state_finished\<rparr>) pk;
              pk = upd_download i (\<lambda>dp. dp\<lparr>dp_state := none\<rparr>) pk
          in if st \<noteq> state_finished
             then sort_piece i (upd_download i (\<lambda>dp. dp\<lparr>finished := int16 (finished dp + 1)\<rparr>) pk)
             else pk
      else
        case find_download pk (piece_index block) of None \<Rightarrow> pk
        | Some i \<Rightarrow>
            let st = block_state (block_of pk (m_downloads pk ! i) (block_index block))
            in if st = state_finished then pk
               else
                 let pk = upd_block i (block_index block) (\<lambda>info. info\<lparr>peer := pr, block_state := state_finished\<rparr>) pk;
                     pk = upd_download i (\<lambda>dp. dp\<lparr>finished := int16 (finished dp + 1)\<rparr>) pk
                 in if st = state_writing
                    then upd_download i (\<lambda>dp. dp\<lparr>writing := int16 (writing dp - 1)\<rparr>) pk
                    else sort_piece i pk)"

text \<open>The same in \<open>abort_download\<close>, which asks in another order.\<close>

definition abort_stop :: "nat \<Rightarrow> nat \<Rightarrow> nat \<Rightarrow> piece_picker \<Rightarrow> piece_picker" where
  "abort_stop r i index pk =
     (let prev_prio = prio_of pk index;
          pk = erase_download_piece i pk
      in if m_dirty pk then pk
         else if prev_prio = -1 \<and> prio_of pk index \<ge> 0 then add r index pk
         else if prev_prio \<ge> 0 then update r (nat prev_prio) (pp_index (m_piece_map pk ! index)) pk
         else pk)"

definition abort_download :: "nat \<Rightarrow> piece_block \<Rightarrow> piece_picker \<Rightarrow> piece_picker" where
  "abort_download r block pk =
     (if \<not> downloading (m_piece_map pk ! piece_index block) then pk
      else
        case find_download pk (piece_index block) of None \<Rightarrow> pk
        | Some i \<Rightarrow>
            let info = block_of pk (m_downloads pk ! i) (block_index block)
            in if block_state info \<noteq> state_requested then pk
               else
                 let pk = upd_block i (block_index block) (\<lambda>info. info\<lparr>num_peers := num_peers info - 1\<rparr>) pk
                 in if num_peers info - 1 > 0 then pk
                    else
                      let pk = upd_block i (block_index block)
                                 (\<lambda>info. info\<lparr>peer := None, block_state := state_none\<rparr>) pk;
                          pk = upd_download i (\<lambda>dp. dp\<lparr>requested := int16 (requested dp - 1)\<rparr>) pk;
                          dp = m_downloads pk ! i
                      in if requested dp + finished dp + writing dp = 0
                         then abort_stop r i (piece_index block) pk
                         else if requested dp = 0
                         then upd_download i (\<lambda>dp. dp\<lparr>dp_state := none\<rparr>) pk
                         else pk)"

text \<open>A piece that failed the hash check becomes pickable again.\<close>

definition restore_piece :: "nat \<Rightarrow> nat \<Rightarrow> piece_picker \<Rightarrow> piece_picker" where
  "restore_piece r index pk =
     (case find_download pk index of None \<Rightarrow> pk
      | Some i \<Rightarrow>
          let prev_priority = prio_of pk index;
              pk = erase_download_piece i pk
          in if prio_of pk index = prev_priority then pk
             else if m_dirty pk then pk
             else if prev_priority = -1 then add r index pk
             else update r (nat prev_priority) (pp_index (m_piece_map pk ! index)) pk)"

definition clear_peer :: "ptr \<Rightarrow> piece_picker \<Rightarrow> piece_picker" where
  "clear_peer pr pk =
     pk\<lparr>m_block_info := map (\<lambda>i. if peer i = pr then i\<lparr>peer := None\<rparr> else i) (m_block_info pk)\<rparr>"

section \<open>Queries\<close>

definition is_piece_finished :: "piece_picker \<Rightarrow> nat \<Rightarrow> bool" where
  "is_piece_finished pk index =
     (if \<not> downloading (m_piece_map pk ! index) then False
      else case find_download pk index of None \<Rightarrow> False
      | Some i \<Rightarrow>
          \<not> finished (m_downloads pk ! i) + writing (m_downloads pk ! i) < int (blocks_in_piece pk index))"

definition is_requested :: "piece_picker \<Rightarrow> piece_block \<Rightarrow> bool" where
  "is_requested pk block =
     (if \<not> downloading (m_piece_map pk ! piece_index block) then False
      else case find_download pk (piece_index block) of None \<Rightarrow> False
      | Some i \<Rightarrow> block_state (block_of pk (m_downloads pk ! i) (block_index block)) = state_requested)"

definition is_downloaded :: "piece_picker \<Rightarrow> piece_block \<Rightarrow> bool" where
  "is_downloaded pk block =
     (if pp_index (m_piece_map pk ! piece_index block) = we_have_index then True
      else if \<not> downloading (m_piece_map pk ! piece_index block) then False
      else case find_download pk (piece_index block) of None \<Rightarrow> False
      | Some i \<Rightarrow>
          block_state (block_of pk (m_downloads pk ! i) (block_index block)) = state_finished
        \<or> block_state (block_of pk (m_downloads pk ! i) (block_index block)) = state_writing)"

definition is_finished :: "piece_picker \<Rightarrow> piece_block \<Rightarrow> bool" where
  "is_finished pk block =
     (if pp_index (m_piece_map pk ! piece_index block) = we_have_index then True
      else if \<not> downloading (m_piece_map pk ! piece_index block) then False
      else case find_download pk (piece_index block) of None \<Rightarrow> False
      | Some i \<Rightarrow> block_state (block_of pk (m_downloads pk ! i) (block_index block)) = state_finished)"

definition block_num_peers :: "piece_picker \<Rightarrow> piece_block \<Rightarrow> nat" where
  "block_num_peers pk block =
     (if \<not> downloading (m_piece_map pk ! piece_index block) then 0
      else case find_download pk (piece_index block) of None \<Rightarrow> 0
      | Some i \<Rightarrow> num_peers (block_of pk (m_downloads pk ! i) (block_index block)))"

definition get_availability :: "piece_picker \<Rightarrow> nat list" where
  "get_availability pk = map (\<lambda>p. peer_count p + m_seeds pk) (m_piece_map pk)"

definition get_downloaders :: "piece_picker \<Rightarrow> nat \<Rightarrow> ptr list" where
  "get_downloaders pk index =
     (case find_download pk index of None \<Rightarrow> []
      | Some i \<Rightarrow> map (\<lambda>j. peer (block_of pk (m_downloads pk ! i) j)) [0..<blocks_in_piece pk index])"

definition get_downloader :: "piece_picker \<Rightarrow> piece_block \<Rightarrow> ptr" where
  "get_downloader pk block =
     (case find_download pk (piece_index block) of None \<Rightarrow> None
      | Some i \<Rightarrow>
          let info = block_of pk (m_downloads pk ! i) (block_index block)
          in if block_state info = state_none then None else peer info)"

definition unverified_blocks :: "piece_picker \<Rightarrow> int" where
  "unverified_blocks pk = fold (\<lambda>dp counter. counter + finished dp) (m_downloads pk) 0"

definition piece_priorities :: "piece_picker \<Rightarrow> nat list" where
  "piece_priorities pk = map piece_priority (m_piece_map pk)"

definition filtered_pieces :: "piece_picker \<Rightarrow> bool list" where
  "filtered_pieces pk = map filtered (m_piece_map pk)"

text \<open>
  \<open>distributed_copies\<close>: the lowest availability, and the pieces above it in thousandths of
  all pieces. The loop keeps the lowest availability so far, the number of pieces that have
  it and the number of pieces above it.
\<close>

definition copies_step :: "nat \<Rightarrow> nat \<times> nat \<times> nat \<Rightarrow> nat \<times> nat \<times> nat" where
  "copies_step peers = (\<lambda>(min_availability, integer_part, fraction_part).
     if min_availability > peers then (peers, 1, fraction_part + integer_part)
     else if peers = min_availability then (min_availability, integer_part + 1, fraction_part)
     else (min_availability, integer_part, fraction_part + 1))"

definition distributed_copies :: "piece_picker \<Rightarrow> nat \<times> nat" where
  "distributed_copies pk =
     (if m_piece_map pk = [] then (1, 0)
      else
        let (min_availability, integer_part, fraction_part) =
              fold (\<lambda>p. copies_step (peer_count p + (if have_pos p then 1 else 0)))
                (m_piece_map pk) (max_peer_count, 0, 0)
        in (min_availability + m_seeds pk, fraction_part * 1000 div length (m_piece_map pk)))"

end
