(* ===== verification/Picker_Invariant.thy ===== *)
theory Picker_Invariant
  imports Picker_Ops
begin

text \<open>
  The invariant of the piece picker. Beside what the class's own \<open>check_invariant\<close> tests,
  \<open>picker_inv\<close> says what the tests rely on: the bit fields are in range, every queue entry
  owns its own blocks, and a block has requesting peers exactly when it is requested. The
  theory shows that \<open>picker_inv\<close> implies \<open>check_invariant\<close>; the interface between the array
  of pickable pieces and the operations that change a piece is the locale \<open>bucket_file\<close>.
\<close>

section \<open>Filing a changed piece\<close>

text \<open>The picker \<open>pk1\<close> is \<open>pk\<close> with the entry of piece \<open>x\<close> changed to \<open>q\<close>; the array is as it was.\<close>

definition edited :: "nat \<Rightarrow> piece_pos \<Rightarrow> piece_picker \<Rightarrow> piece_picker \<Rightarrow> bool" where
  "edited x q pk pk1 \<longleftrightarrow> m_piece_map pk1 = (m_piece_map pk)[x := q] \<and> m_seeds pk1 = m_seeds pk
     \<and> m_pieces pk1 = m_pieces pk \<and> m_priority_boundries pk1 = m_priority_boundries pk"

text \<open>
  What the operations of the picker rely on: an array of pickable pieces that is in order
  (\<open>ok\<close>), from which a piece may be missing or in which it may be misplaced after its entry
  has changed, and three operations that put it in order again without changing more than
  positions.
\<close>

locale bucket_file =
  fixes ok :: "piece_picker \<Rightarrow> bool"
    and moves :: "piece_picker \<Rightarrow> piece_picker \<Rightarrow> bool"
    and missing :: "piece_picker \<Rightarrow> nat \<Rightarrow> bool"
    and misplaced :: "piece_picker \<Rightarrow> nat \<Rightarrow> nat \<Rightarrow> nat \<Rightarrow> bool"
    and add_op :: "nat \<Rightarrow> nat \<Rightarrow> piece_picker \<Rightarrow> piece_picker"
    and update_op :: "nat \<Rightarrow> nat \<Rightarrow> nat \<Rightarrow> piece_picker \<Rightarrow> piece_picker"
    and remove_op :: "nat \<Rightarrow> nat \<Rightarrow> piece_picker \<Rightarrow> piece_picker"
  assumes moves_refl: "moves pk pk"
    and unchanged: "ok pk \<Longrightarrow> edited x q pk pk1 \<Longrightarrow> x < num_pieces pk \<Longrightarrow>
      pp_index q = pp_index (m_piece_map pk ! x) \<or> prio_of pk x < 0 \<Longrightarrow>
      prio_of pk1 x = prio_of pk x \<Longrightarrow> ok pk1"
    and taken_out: "ok pk \<Longrightarrow> edited x q pk pk1 \<Longrightarrow> x < num_pieces pk \<Longrightarrow> prio_of pk x < 0 \<Longrightarrow> missing pk1 x"
    and displaces: "ok pk \<Longrightarrow> edited x q pk pk1 \<Longrightarrow> x < num_pieces pk \<Longrightarrow> prio_of pk x = int k \<Longrightarrow>
      misplaced pk1 k (pp_index (m_piece_map pk ! x)) x"
    and add_law: "missing pk x \<Longrightarrow> prio_of pk x \<ge> 0 \<Longrightarrow> ok (add_op r x pk) \<and> moves pk (add_op r x pk)"
    and update_law: "misplaced pk k e x \<Longrightarrow> (prio_of pk x \<ge> 0 \<Longrightarrow> pp_index (m_piece_map pk ! x) = e) \<Longrightarrow>
      prio_of pk x \<ge> -1 \<Longrightarrow> ok (update_op r k e pk) \<and> moves pk (update_op r k e pk)"
    and remove_law: "misplaced pk k e x \<Longrightarrow> prio_of pk x < 0 \<Longrightarrow>
      ok (remove_op k e pk) \<and> moves pk (remove_op k e pk)"
begin

text \<open>The sequence of calls with which most operations end.\<close>

lemma refile:
  assumes ok: "ok pk" and ed: "edited x q pk pk1" and x: "x < num_pieces pk"
    and ix: "pp_index q = pp_index (m_piece_map pk ! x)"
    and pr: "piece_priority (m_piece_map pk ! x) < 8" "piece_priority q < 8"
  shows "let prev = prio_of pk x; pk2 = (if prev = prio_of pk1 x then pk1
           else if prev = -1 then add_op r x pk1
           else update_op r (nat prev) (pp_index (m_piece_map pk1 ! x)) pk1)
         in ok pk2 \<and> moves pk1 pk2"
proof -
  have e: "m_piece_map pk1 ! x = q" using ed x by (simp add: edited_def num_pieces_def)
  have ge: "prio_of pk x \<ge> -1" "prio_of pk1 x \<ge> -1" using pr e by (auto intro: priority_ge)
  then have c: "prio_of pk x = -1 \<or> prio_of pk x \<ge> 0" "prio_of pk1 x = -1 \<or> prio_of pk1 x \<ge> 0" by auto
  consider (same) "prio_of pk x = prio_of pk1 x" | (out) "prio_of pk x = -1" "prio_of pk1 x \<ge> 0"
    | (present) "prio_of pk x \<ge> 0" "prio_of pk x \<noteq> prio_of pk1 x" using c by fastforce
  then show ?thesis
  proof cases
    case same
    have "ok pk1" by (rule unchanged [OF ok ed x]) (use ix same in auto)
    with same moves_refl show ?thesis by (simp add: Let_def)
  next
    case out
    with taken_out [OF ok ed x] add_law show ?thesis by (simp add: Let_def)
  next
    case present
    then have k: "prio_of pk x = int (nat (prio_of pk x))" by simp
    from update_law [OF displaces [OF ok ed x k]] ge(2) present e ix show ?thesis
      by (simp add: Let_def)
  qed
qed

text \<open>A piece that stays out of the array, or whose position is given up.\<close>

lemma stays_out:
  assumes "ok pk" "edited x q pk pk1" "x < num_pieces pk" "prio_of pk x < 0" "prio_of pk1 x = prio_of pk x"
  shows "ok pk1"
  using unchanged [OF assms(1-3)] assms(4,5) by simp

lemma refile_update:
  assumes ok: "ok pk" and ed: "edited x q pk pk1" and x: "x < num_pieces pk" and k: "prio_of pk x = int k"
    and ix: "pp_index q = pp_index (m_piece_map pk ! x)" and pr: "piece_priority q < 8"
  shows "ok (update_op r k (pp_index (m_piece_map pk1 ! x)) pk1)
    \<and> moves pk1 (update_op r k (pp_index (m_piece_map pk1 ! x)) pk1)"
proof -
  have e: "m_piece_map pk1 ! x = q" using ed x by (simp add: edited_def num_pieces_def)
  from update_law [OF displaces [OF ok ed x k]] e ix priority_ge [OF pr] show ?thesis by simp
qed

end

lemma edited_other:
  assumes "edited x q pk pk1" "y \<noteq> x"
  shows "m_piece_map pk1 ! y = m_piece_map pk ! y"
  using assms by (simp add: edited_def)

lemma layout_cong:
  assumes "layout n pr ix bs ps" and "\<And>y. pr' y = pr y" and "\<And>y. y < n \<Longrightarrow> pr y \<ge> 0 \<Longrightarrow> ix' y = ix y"
  shows "layout n pr' ix' bs ps"
proof -
  have pr: "pr' = pr" using assms(2) by auto
  have "ix' (ps ! q) = ix (ps ! q)" if "q < length ps" for q
    using assms(1,3) that by (auto simp: layout_def elim!: in_bucketE)
  with assms(1,3) show ?thesis by (auto simp: layout_def pr)
qed

interpretation bucket: bucket_file buckets_ok moves_only absent displaced add update remove
proof
  fix pk x q pk1
  assume ok: "buckets_ok pk" and ed: "edited x q pk pk1" and x: "x < num_pieces pk"
  let ?bs = "m_priority_boundries pk" and ?ps = "m_pieces pk" and ?pm = "m_piece_map pk" and ?s = "m_seeds pk"
  from ok have lay: "layout (length ?pm) (prm ?s ?pm) (ixm ?pm) ?bs ?ps" and n: "length ?pm < we_have_index"
    by (auto simp: buckets_ok_def)
  from ed have e: "m_piece_map pk1 = ?pm[x := q]" "m_seeds pk1 = ?s" "m_pieces pk1 = ?ps" "m_priority_boundries pk1 = ?bs"
    by (auto simp: edited_def)
  note oth = edited_other [OF ed]
  show "buckets_ok pk1" if ix: "pp_index q = pp_index (?pm ! x) \<or> prio_of pk x < 0" and pr: "prio_of pk1 x = prio_of pk x"
  proof -
    have "layout (length ?pm) (prm ?s (m_piece_map pk1)) (ixm (m_piece_map pk1)) ?bs ?ps"
    proof (rule layout_cong [OF lay])
      show "prm ?s (m_piece_map pk1) y = prm ?s ?pm y" for y
        using pr oth [of y] by (cases "y = x") (auto simp: e(2))
      show "ixm (m_piece_map pk1) y = ixm ?pm y" if "prm ?s ?pm y \<ge> 0" for y
        using that ix oth [of y] x by (cases "y = x") (auto simp: e(1) num_pieces_def)
    qed
    with n e show ?thesis by (simp add: buckets_ok_def)
  qed
  show "absent pk1 x" if neg: "prio_of pk x < 0"
  proof -
    have pm: "priority ?s (?pm ! x) = -1 \<or> priority ?s (?pm ! x) < 0" using neg by simp
    have nx: "?ps ! q \<noteq> x" if "q < length ?ps" for q
      using layout_at(3) [OF lay that] neg by auto
    have "layout (length ?pm) ((prm ?s (m_piece_map pk1))(x := -1)) (ixm (m_piece_map pk1)) ?bs ?ps"
      using lay nx oth unfolding layout_def in_bucket_def by auto
    with n e x show ?thesis by (simp add: absent_def num_pieces_def)
  qed
  show "displaced pk1 k (pp_index (?pm ! x)) x" if k: "prio_of pk x = int k" for k
  proof -
    from lay k x have at: "pp_index (?pm ! x) < length ?ps" "?ps ! pp_index (?pm ! x) = x"
      by (auto simp: layout_def num_pieces_def)
    have "hole_layout (length ?pm) (prm ?s (m_piece_map pk1)) (ixm (m_piece_map pk1)) ?bs ?ps (pp_index (?pm ! x)) k x"
      by (rule layout_open [OF lay at(1) at(2) [symmetric] k]) (use oth in auto)
    with at n e show ?thesis by (simp add: displaced_def)
  qed
next
  show "moves_only pk pk" for pk by simp
  show "absent pk x \<Longrightarrow> prio_of pk x \<ge> 0 \<Longrightarrow> buckets_ok (add r x pk) \<and> moves_only pk (add r x pk)" for pk x r
    by (rule add_contract)
  show "displaced pk k e x \<Longrightarrow> (prio_of pk x \<ge> 0 \<Longrightarrow> pp_index (m_piece_map pk ! x) = e) \<Longrightarrow>
      prio_of pk x \<ge> -1 \<Longrightarrow> buckets_ok (update r k e pk) \<and> moves_only pk (update r k e pk)" for pk k e x r
    by (rule update_contract)
  show "displaced pk k e x \<Longrightarrow> prio_of pk x < 0 \<Longrightarrow> buckets_ok (remove k e pk) \<and> moves_only pk (remove k e pk)" for pk k e x
    by (rule remove_contract)
qed


section \<open>The invariant\<close>

definition map_ok :: "piece_picker \<Rightarrow> bool" where
  "map_ok pk \<longleftrightarrow> (\<forall>p \<in> set (m_piece_map pk). pos_ok p) \<and> length (m_piece_map pk) < we_have_index"

text \<open>A piece is marked as downloading when it has an entry in the queue; a piece we have is not.\<close>

definition marks_ok :: "piece_picker \<Rightarrow> bool" where
  "marks_ok pk \<longleftrightarrow> (\<forall>x < num_pieces pk.
     downloading (m_piece_map pk ! x) = (x \<in> dp_index ` set (m_downloads pk))
   \<and> (downloading (m_piece_map pk ! x) \<longrightarrow> \<not> have_pos (m_piece_map pk ! x)))"

definition cursors_ok :: "piece_pos list \<Rightarrow> nat \<Rightarrow> nat \<Rightarrow> bool" where
  "cursors_ok pm c r \<longleftrightarrow> c \<le> length pm \<and> r \<le> length pm
   \<and> (\<forall>i < c. \<not> wanted (pm ! i)) \<and> (c < length pm \<longrightarrow> wanted (pm ! c))
   \<and> (\<forall>i. r \<le> i \<and> i < length pm \<longrightarrow> \<not> wanted (pm ! i)) \<and> (r > 0 \<longrightarrow> wanted (pm ! (r - 1)))"

definition counts_ok :: "piece_picker \<Rightarrow> bool" where
  "counts_ok pk \<longleftrightarrow> cursors_ok (m_piece_map pk) (m_cursor pk) (m_reverse_cursor pk)
   \<and> m_num_have pk = int (length (filter have_pos (m_piece_map pk)))
   \<and> m_num_filtered pk = int (length (filter (\<lambda>p. filtered p \<and> \<not> have_pos p) (m_piece_map pk)))
   \<and> m_num_have_filtered pk = int (length (filter (\<lambda>p. filtered p \<and> have_pos p) (m_piece_map pk)))"

definition picker_inv :: "piece_picker \<Rightarrow> bool" where
  "picker_inv pk \<longleftrightarrow> map_ok pk \<and> (\<not> m_dirty pk \<longrightarrow> buckets_ok pk) \<and> table_core pk
   \<and> descending (m_downloads pk) \<and> marks_ok pk \<and> counts_ok pk"

lemma picker_invI:
  assumes "map_ok pk" "\<not> m_dirty pk \<Longrightarrow> buckets_ok pk" "table_core pk" "descending (m_downloads pk)"
    "marks_ok pk" "counts_ok pk"
  shows "picker_inv pk"
  using assms by (simp add: picker_inv_def)

text \<open>What the invariant says beside the array, and that it is kept when only positions change.\<close>

definition inv_rest :: "piece_picker \<Rightarrow> bool" where
  "inv_rest pk \<longleftrightarrow> map_ok pk \<and> table_core pk \<and> descending (m_downloads pk) \<and> marks_ok pk \<and> counts_ok pk"

lemma inv_split: "picker_inv pk \<longleftrightarrow> inv_rest pk \<and> (\<not> m_dirty pk \<longrightarrow> buckets_ok pk)"
  by (auto simp: picker_inv_def inv_rest_def)

lemma moves_num_pieces: "moves_only pk pk' \<Longrightarrow> num_pieces pk' = num_pieces pk"
  by (auto simp: moves_only_def num_pieces_def dest: reindexed_length)

lemma moves_nth: "moves_only pk pk' \<Longrightarrow> x < num_pieces pk \<Longrightarrow> norm_pos (m_piece_map pk' ! x) = norm_pos (m_piece_map pk ! x)"
  by (auto simp: moves_only_def num_pieces_def intro: reindexed_nth)

lemma moves_blocks:
  assumes "moves_only pk pk'"
  shows "blocks_in_piece pk' = blocks_in_piece pk" "blocks_of pk' = blocks_of pk" "progress pk' = progress pk"
proof -
  have l: "length (m_piece_map pk') = length (m_piece_map pk)"
    using moves_num_pieces [OF assms] by (simp add: num_pieces_def)
  show 1: "blocks_in_piece pk' = blocks_in_piece pk"
    using assms l by (simp add: fun_eq_iff blocks_in_piece_def moves_only_def)
  show 2: "blocks_of pk' = blocks_of pk"
    using assms by (simp add: fun_eq_iff blocks_of_def 1 moves_only_def)
  show "progress pk' = progress pk" using assms by (simp add: progress_def 2 moves_only_def)
qed

lemma moves_table:
  assumes "moves_only pk pk'" shows "table_core pk' = table_core pk"
proof -
  have "length (m_piece_map pk') = length (m_piece_map pk)"
    using moves_num_pieces [OF assms] by (simp add: num_pieces_def)
  then have "(m_piece_map pk' = []) = (m_piece_map pk = [])" by (metis length_0_conv)
  with assms have "sizes_ok pk' = sizes_ok pk" by (simp add: sizes_ok_def moves_only_def)
  with assms moves_blocks(2) [OF assms] moves_num_pieces [OF assms] show ?thesis
    by (simp add: table_core_def moves_only_def)
qed

lemma map_norm_pos_filter:
  assumes "map norm_pos pm' = map norm_pos pm" "\<And>p. P (norm_pos p) = P p"
  shows "length (filter P pm') = length (filter P pm)"
proof -
  have "length (filter P xs) = length (filter P (map norm_pos xs))" for xs
    by (simp add: filter_map comp_def assms(2))
  with assms(1) show ?thesis by metis
qed

lemma norm_pos_wanted [simp]: "wanted (norm_pos p) = wanted p" "filtered (norm_pos p) = filtered p"
  by (simp_all add: wanted_def filtered_def)

lemma moves_cursors:
  assumes "moves_only pk pk'"
  shows "cursors_ok (m_piece_map pk') c r = cursors_ok (m_piece_map pk) c r"
proof -
  have l: "length (m_piece_map pk') = length (m_piece_map pk)"
    using moves_num_pieces [OF assms] by (simp add: num_pieces_def)
  have w: "wanted (m_piece_map pk' ! i) = wanted (m_piece_map pk ! i)" if "i < length (m_piece_map pk)" for i
    using norm_pos_eqD(6) [OF moves_nth [OF assms]] that by (simp add: num_pieces_def)
  show ?thesis
  proof (cases "c \<le> length (m_piece_map pk) \<and> r \<le> length (m_piece_map pk)")
    case True
    have "r > 0 \<Longrightarrow> wanted (m_piece_map pk' ! (r - 1)) = wanted (m_piece_map pk ! (r - 1))"
      using True w [of "r - 1"] by auto
    with True w show ?thesis by (auto simp: cursors_ok_def l)
  qed (auto simp: cursors_ok_def l)
qed

lemma moves_counts: "moves_only pk pk' \<Longrightarrow> counts_ok pk' = counts_ok pk"
proof -
  assume mv: "moves_only pk pk'"
  then have "map norm_pos (m_piece_map pk') = map norm_pos (m_piece_map pk)"
    by (simp add: moves_only_def reindexed_def)
  note f = map_norm_pos_filter [OF this]
  from mv show ?thesis
    using moves_cursors [OF mv] f [of have_pos] f [of "\<lambda>p. filtered p \<and> \<not> have_pos p"]
      f [of "\<lambda>p. filtered p \<and> have_pos p"]
    by (simp add: counts_ok_def moves_only_def)
qed

lemma moves_marks: "moves_only pk pk' \<Longrightarrow> marks_ok pk' = marks_ok pk"
  using moves_num_pieces [of pk pk'] norm_pos_eqD(2,4) [OF moves_nth [of pk pk']]
  by (auto simp: marks_ok_def moves_only_def)

lemma moves_map_ok:
  assumes "moves_only pk pk'" "map_ok pk"
  shows "map_ok pk'"
proof -
  have n: "num_pieces pk' = num_pieces pk" by (rule moves_num_pieces [OF assms(1)])
  have "pos_ok (m_piece_map pk' ! x)" if "x < length (m_piece_map pk')" for x
  proof -
    have x: "x < num_pieces pk" using that n by (simp add: num_pieces_def)
    then have "pos_ok (m_piece_map pk ! x)" using assms(2) by (simp add: map_ok_def num_pieces_def)
    with norm_pos_eqD(1,3) [OF moves_nth [OF assms(1) x]] assms(1) x show ?thesis
      by (auto simp: pos_ok_def moves_only_def reindexed_def num_pieces_def)
  qed
  then have "\<forall>p \<in> set (m_piece_map pk'). pos_ok p" by (metis in_set_conv_nth)
  with assms(2) n show ?thesis by (simp add: map_ok_def num_pieces_def)
qed

lemma moves_inv_rest: "moves_only pk pk' \<Longrightarrow> inv_rest pk \<Longrightarrow> inv_rest pk'"
  using moves_map_ok moves_table moves_counts moves_marks by (auto simp: inv_rest_def moves_only_def)

text \<open>The shape of most proofs below: the entries are changed, then the piece is filed anew.\<close>

lemma inv_refiled:
  assumes "inv_rest pk1" "m_dirty pk1 \<Longrightarrow> pk2 = pk1" "\<not> m_dirty pk1 \<Longrightarrow> buckets_ok pk2 \<and> moves_only pk1 pk2"
  shows "picker_inv pk2"
  using assms moves_inv_rest by (cases "m_dirty pk1") (auto simp: inv_split)

text \<open>A piece has been changed, and then it was filed again unless the array is rebuilt later anyway.\<close>

definition refiled :: "piece_picker \<Rightarrow> piece_picker \<Rightarrow> bool" where
  "refiled pk1 pk2 \<longleftrightarrow> inv_rest pk1 \<and> (m_dirty pk1 \<longrightarrow> pk2 = pk1) \<and> (\<not> m_dirty pk1 \<longrightarrow> buckets_ok pk2 \<and> moves_only pk1 pk2)"

lemma refiledI:
  "inv_rest pk1 \<Longrightarrow> (m_dirty pk1 \<Longrightarrow> pk2 = pk1) \<Longrightarrow> (\<not> m_dirty pk1 \<Longrightarrow> buckets_ok pk2 \<and> moves_only pk1 pk2) \<Longrightarrow> refiled pk1 pk2"
  by (simp add: refiled_def)

lemma refiled_inv: "refiled pk1 pk2 \<Longrightarrow> picker_inv pk2"
  by (rule inv_refiled [of pk1]) (auto simp: refiled_def)

section \<open>The invariant of the class\<close>

lemma cursors_first:
  assumes "cursors_ok pm c r" shows "first_wanted pm = c"
proof (rule antisym)
  let ?t = "length (takeWhile (\<lambda>p. \<not> wanted p) pm)"
  from assms have c: "c \<le> length pm" "\<And>i. i < c \<Longrightarrow> \<not> wanted (pm ! i)" "c < length pm \<Longrightarrow> wanted (pm ! c)"
    by (auto simp: cursors_ok_def)
  show "first_wanted pm \<le> c"
  proof (rule ccontr)
    assume "\<not> first_wanted pm \<le> c"
    then have "c < ?t" by (simp add: first_wanted_def)
    then have "\<not> wanted (pm ! c)" by (metis nth_mem set_takeWhileD takeWhile_nth)
    with c(3) \<open>c < ?t\<close> length_takeWhile_le [of "\<lambda>p. \<not> wanted p" pm] show False by simp
  qed
  show "c \<le> first_wanted pm"
    using c(1,2) nth_length_takeWhile [of "\<lambda>p. \<not> wanted p" pm] unfolding first_wanted_def
    by (metis le_less_linear less_le_trans)
qed

lemma last_wanted_eq:
  "r \<le> n \<Longrightarrow> (\<And>i. r \<le> i \<Longrightarrow> i < n \<Longrightarrow> \<not> wanted (pm ! i)) \<Longrightarrow> (r > 0 \<Longrightarrow> wanted (pm ! (r - 1))) \<Longrightarrow> last_wanted pm n = r"
proof (induction n)
  case (Suc n)
  then show ?case by (cases "r = Suc n") auto
qed simp

lemma cursors_ordered:
  assumes "cursors_ok pm c r" shows "c < r \<or> c = length pm \<and> r = 0"
proof (cases "c < length pm")
  case True
  with assms have "wanted (pm ! c)" by (simp add: cursors_ok_def)
  with assms True show ?thesis by (auto simp: cursors_ok_def not_less)
next
  case False
  with assms have "c = length pm" by (simp add: cursors_ok_def)
  with assms show ?thesis by (cases "r = 0") (auto simp: cursors_ok_def)
qed


lemma blocks_of_block: "blocks_of pk dp = map (block_of pk dp) [0..<blocks_in_piece pk (dp_index dp)]"
  by (simp add: blocks_of_def slice_def block_of_def)

lemma count_state_blocks: "count_state pk dp st = count_st st (blocks_of pk dp)"
  by (simp add: count_state_def count_st_def blocks_of_block filter_map comp_def)

lemma check_download_ok:
  assumes "dl_ok (blocks_of pk dp) dp" shows "check_download pk dp"
proof -
  have pos: "(0 < num_peers (block_of pk dp k)) = (block_state (block_of pk dp k) = state_requested)"
    if "k < blocks_in_piece pk (dp_index dp)" for k
    using assms that by (auto simp: dl_ok_def blocks_of_block block_ok_def)
  then have zero: "num_peers (block_of pk dp k) = 0 \<longleftrightarrow> block_state (block_of pk dp k) \<noteq> state_requested"
    if "k < blocks_in_piece pk (dp_index dp)" for k using that by (metis gr0I less_numeral_extra(3))
  from assms show ?thesis
    unfolding check_download_def count_state_blocks dl_ok_def by (auto simp: pos zero)
qed

lemma priority_mod_4:
  assumes "piece_priority p < 8" "priority s p \<noteq> -1"
  shows "downloading p = (priority s p mod 4 = 0)"
proof (cases "downloading p \<or> piece_priority p = 7")
  case True
  then show ?thesis using assms(2) unfolding priority_def Let_def
    by (simp split: if_splits)
next
  case False
  define a where "a = (if piece_priority p \<ge> 4 then peer_count p div 2 else peer_count p)"
  define k where "k = (if piece_priority p \<ge> 4 then int (piece_priority p) - 3 else int (piece_priority p))"
  from False assms have "priority s p = int a * 4 + 4 - k" "k = 1 \<or> k = 2 \<or> k = 3"
    by (auto simp: priority_def Let_def a_def k_def filtered_def split: if_splits)
  moreover have "(int a * 4 + 4 - k) mod 4 \<noteq> 0" if "k = 1 \<or> k = 2 \<or> k = 3" using that by presburger
  ultimately show ?thesis using False by simp
qed

lemma check_boundries_ok:
  assumes "buckets_ok pk" shows "check_boundries pk"
proof -
  let ?bs = "m_priority_boundries pk" and ?ps = "m_pieces pk"
  from assms have lay: "layout (length (m_piece_map pk)) (prm (m_seeds pk) (m_piece_map pk)) (ixm (m_piece_map pk)) ?bs ?ps"
    by (simp add: buckets_ok_def)
  then have bs: "?bs \<noteq> []" "sorted ?bs" "last ?bs = length ?ps" by (auto simp: layout_def)
  have "verify_priority pk (bucket_start ?bs k) (?bs ! k) k" if k: "k < length ?bs" for k
  proof -
    have le: "?bs ! k \<le> length ?ps" using sorted_last_ge [OF bs(2) k] bs(3) by simp
    have "?ps ! q < length (m_piece_map pk) \<and> prio_of pk (?ps ! q) = int k" if q: "bucket_start ?bs k \<le> q" "q < ?bs ! k" for q
    proof -
      from lay le q have "?ps ! q < length (m_piece_map pk)"
        "in_bucket (prm (m_seeds pk) (m_piece_map pk)) ?bs q (?ps ! q)" by (auto simp: layout_def)
      with in_bucket_at [OF this(2) bs(2) k q] show ?thesis by simp
    qed
    with le bucket_start_le [OF bs(2) k] show ?thesis by (simp add: verify_priority_def)
  qed
  with bs show ?thesis by (simp add: check_boundries_def)
qed

lemma count_index_distinct:
  "distinct (map f xs) \<Longrightarrow> length (filter (\<lambda>a. f a = x) xs) = (if x \<in> f ` set xs then 1 else 0)"
  by (induction xs) (auto simp: filter_empty_conv)

lemma check_piece_ok:
  assumes inv: "picker_inv pk" and x: "x < num_pieces pk"
  shows "check_piece pk x"
proof -
  let ?p = "m_piece_map pk ! x"
  from inv x have pp: "piece_priority ?p < 8" and mk: "downloading ?p = (x \<in> dp_index ` set (m_downloads pk))"
    "downloading ?p \<longrightarrow> \<not> have_pos ?p" and di: "distinct (map dp_index (m_downloads pk))"
    by (auto simp: picker_inv_def map_ok_def pos_ok_def marks_ok_def table_core_def num_pieces_def)
  have arr: "prio_of pk x < int (length (m_priority_boundries pk))
      \<and> (if prio_of pk x \<ge> 0 then pp_index ?p < length (m_pieces pk) \<and> m_pieces pk ! pp_index ?p = x
         else prio_of pk x = -1 \<and> x \<notin> set (m_pieces pk))" if "\<not> m_dirty pk"
  proof -
    from inv that have lay: "layout (length (m_piece_map pk)) (prm (m_seeds pk) (m_piece_map pk))
        (ixm (m_piece_map pk)) (m_priority_boundries pk) (m_pieces pk)"
      by (simp add: picker_inv_def buckets_ok_def)
    show ?thesis
    proof (cases "prio_of pk x \<ge> 0")
      case True
      with lay x have at: "pp_index ?p < length (m_pieces pk)" "m_pieces pk ! pp_index ?p = x"
        by (auto simp: layout_def num_pieces_def)
      with lay have "in_bucket (prm (m_seeds pk) (m_piece_map pk)) (m_priority_boundries pk) (pp_index ?p) x"
        unfolding layout_def by metis
      with True at show ?thesis by (auto elim!: in_bucketE)
    next
      case False
      have "x \<notin> set (m_pieces pk)"
        using layout_at(3) [OF lay] False by (auto simp: in_set_conv_nth)
      with False priority_ge [OF pp, of "m_seeds pk"] show ?thesis by auto
    qed
  qed
  show ?thesis
    using arr mk count_index_distinct [OF di, of x] priority_mod_4 [OF pp, of "m_seeds pk"]
    by (auto simp: check_piece_def Let_def)
qed

lemma picker_inv_check:
  assumes inv: "picker_inv pk" shows "check_invariant pk"
proof -
  from inv have co: "cursors_ok (m_piece_map pk) (m_cursor pk) (m_reverse_cursor pk)"
    and cnt: "counts_ok pk" and desc: "descending (m_downloads pk)"
    and dl: "\<And>dp. dp \<in> set (m_downloads pk) \<Longrightarrow> check_download pk dp"
    and pc: "\<And>x. x < num_pieces pk \<Longrightarrow> check_piece pk x"
    by (auto simp: picker_inv_def counts_ok_def table_core_def intro: check_download_ok check_piece_ok [OF inv])
  have order: "finished (m_downloads pk ! i) + writing (m_downloads pk ! i)
      \<ge> finished (m_downloads pk ! (i + 1)) + writing (m_downloads pk ! (i + 1))"
    if "i < length (m_downloads pk) - 1" for i
    using desc [unfolded descending_nth, rule_format, of i "i + 1"] that by (simp add: arrived_def)
  have "m_reverse_cursor pk = last_wanted (m_piece_map pk) (num_pieces pk)"
    using co by (intro last_wanted_eq [symmetric]) (auto simp: cursors_ok_def num_pieces_def)
  moreover have "\<forall>x \<in> set (m_pieces pk). prio_of pk x \<ge> 0" if "\<not> m_dirty pk"
    using inv that layout_at(3) by (fastforce simp: picker_inv_def buckets_ok_def in_set_conv_nth)
  moreover have "check_boundries pk" if "\<not> m_dirty pk"
    using inv that by (simp add: picker_inv_def check_boundries_ok)
  moreover note cursors_ordered [OF co] cursors_first [OF co]
  moreover have "m_cursor pk \<le> num_pieces pk" "m_reverse_cursor pk \<le> num_pieces pk"
    using co by (auto simp: cursors_ok_def num_pieces_def)
  ultimately show ?thesis
    using cnt dl pc order unfolding check_invariant_def counts_ok_def num_pieces_def
    by (intro conjI ballI impI) auto
qed

end
