(* ===== verification/Picker_Pieces.thy ===== *)
theory Picker_Pieces
  imports Picker_Invariant
begin

text \<open>
  The operations of the piece picker on whole pieces keep its invariant: the reference counts
  of single pieces, of bitmasks and of all pieces, having and no longer having a piece, piece
  priorities, and the rebuild of the array. The cursors to the first and behind the last piece
  that is still wanted are shown to be moved correctly in each of their cases.
\<close>

section \<open>Fields the invariant does not depend on\<close>

lemma inv_rest_upd [simp, picker_upd]:
  "inv_rest (pk\<lparr>m_seeds := a\<rparr>) = inv_rest pk" "inv_rest (pk\<lparr>m_dirty := b\<rparr>) = inv_rest pk"
  "inv_rest (pk\<lparr>m_pieces := c\<rparr>) = inv_rest pk" "inv_rest (pk\<lparr>m_priority_boundries := d\<rparr>) = inv_rest pk"
  "inv_rest (pk\<lparr>m_sparse_regions := e\<rparr>) = inv_rest pk"
  by (simp_all add: inv_rest_def map_ok_def table_core_def sizes_ok_def marks_ok_def counts_ok_def
      num_pieces_def blocks_of_def blocks_in_piece_def)

lemma buckets_ok_upd [simp, picker_upd]:
  "buckets_ok (pk\<lparr>m_dirty := a\<rparr>) = buckets_ok pk" "buckets_ok (pk\<lparr>m_downloads := b\<rparr>) = buckets_ok pk"
  "buckets_ok (pk\<lparr>m_block_info := c\<rparr>) = buckets_ok pk" "buckets_ok (pk\<lparr>m_cursor := d\<rparr>) = buckets_ok pk"
  "buckets_ok (pk\<lparr>m_reverse_cursor := e\<rparr>) = buckets_ok pk" "buckets_ok (pk\<lparr>m_num_have := f\<rparr>) = buckets_ok pk"
  "buckets_ok (pk\<lparr>m_num_filtered := g\<rparr>) = buckets_ok pk" "buckets_ok (pk\<lparr>m_num_have_filtered := h\<rparr>) = buckets_ok pk"
  "buckets_ok (pk\<lparr>m_sparse_regions := i\<rparr>) = buckets_ok pk"
  by (simp_all add: buckets_ok_def)

lemma inv_piece:
  assumes "picker_inv pk" "x < num_pieces pk"
  shows "pos_ok (m_piece_map pk ! x)" "piece_priority (m_piece_map pk ! x) < 8"
  using assms by (auto simp: picker_inv_def map_ok_def num_pieces_def pos_ok_def)

section \<open>Entries that stay what they were for the queue and the counts\<close>

definition same_marks :: "piece_pos \<Rightarrow> piece_pos \<Rightarrow> bool" where
  "same_marks p q \<longleftrightarrow> downloading q = downloading p \<and> have_pos q = have_pos p \<and> filtered q = filtered p"

lemma filter_length_cong:
  assumes "length ys = length xs" "\<And>i. i < length xs \<Longrightarrow> P (ys ! i) = P (xs ! i)"
  shows "length (filter P ys) = length (filter P xs)"
  using assms unfolding length_filter_conv_card by (metis (no_types, lifting))

lemma cursors_cong:
  assumes l: "length ys = length xs" and w: "\<And>i. i < length xs \<Longrightarrow> wanted (ys ! i) = wanted (xs ! i)"
    and c: "cursors_ok xs c r"
  shows "cursors_ok ys c r"
proof -
  have "r - 1 < length xs" if "r > 0" using c that by (auto simp: cursors_ok_def)
  with c w show ?thesis by (auto simp: cursors_ok_def l)
qed

lemma inv_rest_same_marks:
  assumes inv: "inv_rest pk" and l: "length pm = num_pieces pk"
    and same: "\<And>x. x < num_pieces pk \<Longrightarrow> same_marks (m_piece_map pk ! x) (pm ! x)"
    and ok: "\<And>x. x < num_pieces pk \<Longrightarrow> pos_ok (pm ! x)"
  shows "inv_rest (pk\<lparr>m_piece_map := pm\<rparr>)"
proof -
  let ?pk = "pk\<lparr>m_piece_map := pm\<rparr>"
  have l': "length pm = length (m_piece_map pk)" using l by (simp add: num_pieces_def)
  note s = same [unfolded num_pieces_def same_marks_def]
  have "map_ok ?pk" using inv ok l' by (auto simp: inv_rest_def map_ok_def num_pieces_def in_set_conv_nth)
  moreover have bip: "blocks_in_piece ?pk = blocks_in_piece pk" by (simp add: fun_eq_iff blocks_in_piece_def l')
  then have "blocks_of ?pk = blocks_of pk" by (simp add: fun_eq_iff blocks_of_def)
  then have "table_core ?pk"
    using inv l' by (auto simp: inv_rest_def table_core_def sizes_ok_def num_pieces_def)
  moreover have "marks_ok ?pk" using inv s l' by (auto simp: inv_rest_def marks_ok_def num_pieces_def)
  moreover have "counts_ok ?pk"
    using inv s cursors_cong [OF l'] filter_length_cong [OF l', of have_pos]
      filter_length_cong [OF l', of "\<lambda>p. filtered p \<and> \<not> have_pos p"]
      filter_length_cong [OF l', of "\<lambda>p. filtered p \<and> have_pos p"]
    by (simp add: inv_rest_def counts_ok_def wanted_def)
  ultimately show ?thesis using inv by (simp add: inv_rest_def)
qed

lemma inv_rest_set_pos:
  assumes inv: "inv_rest pk" and same: "same_marks (m_piece_map pk ! x) (f (m_piece_map pk ! x))"
    and ok: "pos_ok (f (m_piece_map pk ! x))"
  shows "inv_rest (set_pos x f pk)"
  unfolding set_pos_def
proof (rule inv_rest_same_marks [OF inv])
  fix y assume y: "y < num_pieces pk"
  show "same_marks (m_piece_map pk ! y) ((m_piece_map pk)[x := f (m_piece_map pk ! x)] ! y)"
    using same y by (cases "y = x") (auto simp: same_marks_def num_pieces_def)
  show "pos_ok ((m_piece_map pk)[x := f (m_piece_map pk ! x)] ! y)"
    using inv ok y by (cases "y = x") (auto simp: inv_rest_def map_ok_def num_pieces_def)
qed (simp add: num_pieces_def)

lemma set_pos_fields [simp, picker_upd]:
  "m_dirty (set_pos x f pk) = m_dirty pk" "m_seeds (set_pos x f pk) = m_seeds pk"
  "m_downloads (set_pos x f pk) = m_downloads pk" "m_block_info (set_pos x f pk) = m_block_info pk"
  "m_pieces (set_pos x f pk) = m_pieces pk" "m_priority_boundries (set_pos x f pk) = m_priority_boundries pk"
  "m_piece_map (set_pos x f pk) = (m_piece_map pk)[x := f (m_piece_map pk ! x)]"
  "num_pieces (set_pos x f pk) = num_pieces pk" "m_blocks_per_piece (set_pos x f pk) = m_blocks_per_piece pk"
  by (simp_all add: set_pos_def num_pieces_def)

lemma edited_set_pos: "edited x (f (m_piece_map pk ! x)) pk (set_pos x f pk)"
  by (simp add: edited_def)

section \<open>Availability\<close>

lemma inc_peer_count_marks:
  assumes "pos_ok p"
  shows "same_marks p (inc_peer_count p)" "pos_ok (inc_peer_count p)" "pp_index (inc_peer_count p) = pp_index p"
    "piece_priority (inc_peer_count p) = piece_priority p"
  using assms by (simp_all add: same_marks_def pos_ok_def inc_peer_count_def have_pos_def filtered_def)

lemma dec_peer_count_marks:
  assumes "pos_ok p"
  shows "same_marks p (dec_peer_count p)" "pos_ok (dec_peer_count p)" "pp_index (dec_peer_count p) = pp_index p"
    "piece_priority (dec_peer_count p) = piece_priority p"
  using assms by (simp_all add: same_marks_def pos_ok_def dec_peer_count_def have_pos_def filtered_def)

lemma priority_seeds: "0 < s \<Longrightarrow> 0 < s' \<Longrightarrow> priority s p = priority s' p"
  by (simp add: priority_def)

lemma buckets_ok_seeds:
  assumes "buckets_ok pk" "0 < m_seeds pk" "0 < s"
  shows "buckets_ok (pk\<lparr>m_seeds := s\<rparr>)"
  using assms priority_seeds [OF assms(2,3)] by (simp add: buckets_ok_def)

lemma inc_refcount_all_inv: "picker_inv pk \<Longrightarrow> picker_inv (inc_refcount_all pk)"
  using buckets_ok_seeds [of pk "m_seeds pk + 1"] by (auto simp: inc_refcount_all_def inv_split Let_def)

lemma dec_refcount_all_inv:
  assumes inv: "picker_inv pk"
  shows "picker_inv (dec_refcount_all pk)"
proof (cases "m_seeds pk > 0")
  case True
  with inv buckets_ok_seeds [of pk "m_seeds pk - 1"] show ?thesis
    by (auto simp: dec_refcount_all_def inv_split Let_def)
next
  case False
  have "inv_rest (pk\<lparr>m_piece_map := map dec_peer_count (m_piece_map pk)\<rparr>)"
    by (rule inv_rest_same_marks)
       (use inv inv_piece [OF inv] in \<open>auto simp: inv_split num_pieces_def dec_peer_count_marks\<close>)
  with False show ?thesis by (simp add: dec_refcount_all_def inv_split)
qed

lemma inc_refcount_refiled:
  assumes inv: "picker_inv pk" and x: "x < num_pieces pk"
  shows "refiled (set_pos x inc_peer_count pk) (inc_refcount r x pk)"
proof (rule refiledI)
  let ?pk = "set_pos x inc_peer_count pk"
  note ok = inv_piece [OF inv x] and m = inc_peer_count_marks [OF inv_piece(1) [OF inv x]]
  show "inv_rest ?pk" by (rule inv_rest_set_pos) (use inv m in \<open>auto simp: inv_split\<close>)
  show "m_dirty ?pk \<Longrightarrow> inc_refcount r x pk = ?pk" by (simp add: inc_refcount_def Let_def)
  assume d: "\<not> m_dirty ?pk"
  with inv have b: "buckets_ok pk" by (simp add: inv_split)
  show "buckets_ok (inc_refcount r x pk) \<and> moves_only ?pk (inc_refcount r x pk)"
    using bucket.refile [OF b edited_set_pos x, of inc_peer_count r] ok m d
    by (simp add: inc_refcount_def Let_def)
qed

lemma inc_refcount_inv: "picker_inv pk \<Longrightarrow> x < num_pieces pk \<Longrightarrow> picker_inv (inc_refcount r x pk)"
  by (rule refiled_inv [OF inc_refcount_refiled])

lemma dec_refcount_refiled:
  assumes inv: "picker_inv pk" and x: "x < num_pieces pk" and pos: "\<not> m_dirty pk \<Longrightarrow> peer_count (m_piece_map pk ! x) + m_seeds pk > 0"
  shows "refiled (set_pos x dec_peer_count pk) (dec_refcount r x pk)"
proof (rule refiledI)
  let ?pk = "set_pos x dec_peer_count pk"
  note ok = inv_piece [OF inv x] and m = dec_peer_count_marks [OF inv_piece(1) [OF inv x]]
  have e: "m_piece_map ?pk ! x = dec_peer_count (m_piece_map pk ! x)" using x by (simp add: num_pieces_def)
  show "inv_rest ?pk" by (rule inv_rest_set_pos) (use inv m in \<open>auto simp: inv_split\<close>)
  show "m_dirty ?pk \<Longrightarrow> dec_refcount r x pk = ?pk" by (simp add: dec_refcount_def Let_def)
  assume d: "\<not> m_dirty ?pk"
  with inv have b: "buckets_ok pk" by (simp add: inv_split)
  show "buckets_ok (dec_refcount r x pk) \<and> moves_only ?pk (dec_refcount r x pk)"
  proof (cases "prio_of pk x \<ge> 0")
    case True
    then have k: "prio_of pk x = int (nat (prio_of pk x))" by simp
    from bucket.refile_update [OF b edited_set_pos x k, of dec_peer_count r] ok m d True show ?thesis
      by (simp add: dec_refcount_def Let_def)
  next
    case False
    then have "filtered (m_piece_map pk ! x) \<or> have_pos (m_piece_map pk ! x)"
      using pos d ok(2) priority_ge [OF ok(2)] by (auto simp: priority_def Let_def split: if_splits)
    then have "prio_of pk x = -1" "prio_of ?pk x = -1"
      using m(1) e by (auto simp: priority_def same_marks_def)
    with bucket.stays_out [OF b edited_set_pos x, of dec_peer_count] False d show ?thesis
      by (simp add: dec_refcount_def Let_def)
  qed
qed

lemma dec_refcount_inv:
  "picker_inv pk \<Longrightarrow> x < num_pieces pk \<Longrightarrow> peer_count (m_piece_map pk ! x) > 0 \<Longrightarrow> picker_inv (dec_refcount r x pk)"
  by (rule refiled_inv [OF dec_refcount_refiled]) auto

lemma refcount_mask_inv:
  assumes inv: "picker_inv pk" and l: "length bits = num_pieces pk"
    and f: "\<And>p. pos_ok p \<Longrightarrow> same_marks p (f p) \<and> pos_ok (f p)"
  shows "picker_inv (refcount_mask f bits pk)"
proof -
  let ?pm = "map (\<lambda>(b, p). if b then f p else p) (zip bits (m_piece_map pk)) @ drop (length bits) (m_piece_map pk)"
  have pm: "?pm = map (\<lambda>(b, p). if b then f p else p) (zip bits (m_piece_map pk))"
    using l by (simp add: num_pieces_def)
  have rest: "inv_rest (pk\<lparr>m_piece_map := ?pm\<rparr>)"
    unfolding pm by (rule inv_rest_same_marks)
      (use inv l f inv_piece(1) [OF inv] in \<open>auto simp: inv_split num_pieces_def same_marks_def\<close>)
  show ?thesis
  proof (cases "True \<in> set bits")
    case True
    with rest show ?thesis by (simp add: refcount_mask_def inv_split)
  next
    case False
    then have "?pm = m_piece_map pk" unfolding pm using l
      by (intro nth_equalityI) (auto simp: num_pieces_def in_set_conv_nth)
    with False inv show ?thesis by (simp add: refcount_mask_def)
  qed
qed

lemma update_pieces_inv:
  assumes inv: "picker_inv pk"
  shows "picker_inv (update_pieces rnd pk)"
proof -
  have "\<forall>p \<in> set (m_piece_map pk). piece_priority p < 8" "length (m_piece_map pk) < we_have_index"
    using inv by (auto simp: picker_inv_def map_ok_def pos_ok_def)
  from update_pieces_contract [OF this, of rnd]
  have u: "buckets_ok (update_pieces rnd pk)" "moves_only (pk\<lparr>m_dirty := False\<rparr>) (update_pieces rnd pk)" by auto
  have "inv_rest (update_pieces rnd pk)"
    by (rule moves_inv_rest [OF u(2)]) (use inv in \<open>simp add: inv_split\<close>)
  with u show ?thesis by (simp add: inv_split)
qed


section \<open>The cursors\<close>

lemma skip_forward_spec:
  assumes "k \<le> length pm" "c = skip_forward (drop k pm) k"
  shows "k \<le> c \<and> c \<le> length pm \<and> (\<forall>i. k \<le> i \<and> i < c \<longrightarrow> \<not> wanted (pm ! i)) \<and> (c < length pm \<longrightarrow> wanted (pm ! c))"
  using assms
proof (induction "length pm - k" arbitrary: k)
  case 0
  then show ?case by auto
next
  case (Suc m)
  then have d: "drop k pm = pm ! k # drop (Suc k) pm" by (simp add: Cons_nth_drop_Suc)
  show ?case
  proof (cases "wanted (pm ! k)")
    case True
    with Suc d show ?thesis by (auto simp: wanted_def)
  next
    case False
    then have c: "c = skip_forward (drop (Suc k) pm) (Suc k)" using Suc.prems d by (simp add: wanted_def)
    have "Suc k \<le> c \<and> c \<le> length pm \<and> (\<forall>i. Suc k \<le> i \<and> i < c \<longrightarrow> \<not> wanted (pm ! i)) \<and> (c < length pm \<longrightarrow> wanted (pm ! c))"
      by (rule Suc.hyps(1)) (use Suc c in auto)
    with False show ?thesis by (metis Suc_leD Suc_leI le_neq_implies_less)
  qed
qed

lemma skip_backward_spec:
  "r' = skip_backward pm r \<Longrightarrow>
   r' \<le> r \<and> (\<forall>i. r' \<le> i \<and> i < r \<longrightarrow> \<not> wanted (pm ! i)) \<and> (r' > 0 \<longrightarrow> wanted (pm ! (r' - 1)))"
proof (induction r)
  case (Suc r)
  show ?case
  proof (cases "wanted (pm ! r)")
    case True
    with Suc.prems have "r' = Suc r" by (simp add: wanted_def)
    with True show ?thesis by auto
  next
    case False
    then have "r' = skip_backward pm r" using Suc.prems by (simp add: wanted_def)
    with Suc.IH False show ?thesis by (metis less_Suc_eq le_SucI)
  qed
qed auto

lemma cursors_wanted_eq:
  "cursors_wanted x pk = pk\<lparr>m_cursor := min (m_cursor pk) x, m_reverse_cursor := max (m_reverse_cursor pk) (x + 1)\<rparr>"
  by (auto simp: cursors_wanted_def Let_def min_def max_def)

lemma cursors_become_wanted:
  assumes c: "cursors_ok pm c r" and x: "x < length pm" and q: "wanted q"
  shows "cursors_ok (pm[x := q]) (min c x) (max r (x + 1))"
proof -
  have "wanted (pm[x := q] ! (max r (x + 1) - 1))"
    using c x q by (cases "r \<le> x + 1") (auto simp: cursors_ok_def max_def nth_list_update)
  moreover have "wanted (pm[x := q] ! min c x)" if "min c x < length pm"
    using c x q by (cases "c < x") (auto simp: cursors_ok_def min_def nth_list_update)
  ultimately show ?thesis using c x by (auto simp: cursors_ok_def nth_list_update)
qed

lemma cursors_become_unwanted:
  assumes co: "cursors_ok pm (m_cursor pk) (m_reverse_cursor pk)" and x: "x < length pm" and q: "\<not> wanted q"
    and l: "length pms = length pm" and same: "\<And>i. i \<noteq> x \<Longrightarrow> pms ! i = pm ! i"
  obtains c r where "cursors_unwanted pms x pk = pk\<lparr>m_cursor := c, m_reverse_cursor := r\<rparr>"
    "cursors_ok (pm[x := q]) c r"
proof -
  let ?c = "m_cursor pk" and ?r = "m_reverse_cursor pk" and ?pm = "pm[x := q]"
  from co have c: "?c \<le> length pm" "\<And>i. i < ?c \<Longrightarrow> \<not> wanted (pm ! i)" "?c < length pm \<Longrightarrow> wanted (pm ! ?c)"
    and r: "?r \<le> length pm" "\<And>i. ?r \<le> i \<Longrightarrow> i < length pm \<Longrightarrow> \<not> wanted (pm ! i)" "?r > 0 \<Longrightarrow> wanted (pm ! (?r - 1))"
    by (auto simp: cursors_ok_def)
  have nw: "\<not> wanted (?pm ! i)" if "\<not> wanted (pm ! i) \<or> i = x" for i
    using that x q by (auto simp: nth_list_update)
  have w: "wanted (?pm ! i)" if "wanted (pm ! i)" "i \<noteq> x" for i using that by simp
  consider (both) "?c + 1 = ?r" "?c = x" | (first) "?c + 1 \<noteq> ?r" "?c = x"
    | (last) "?c \<noteq> x" "?r = x + 1" | (inside) "?c \<noteq> x" "?r \<noteq> x + 1" by blast
  then show ?thesis
  proof cases
    case both
    have "\<not> wanted (?pm ! i)" if "i < length pm" for i
      using nw c(2) r(2) both that by (metis Suc_eq_plus1 Suc_leI linorder_neqE_nat)
    then have "cursors_ok ?pm (length pms) 0" by (simp add: cursors_ok_def l)
    with both that show ?thesis by (simp add: cursors_unwanted_def)
  next
    case first
    define k where "k = skip_forward (drop (?c + 1) pms) (?c + 1)"
    have k: "?c + 1 \<le> k" "k \<le> length pms" "\<And>i. ?c + 1 \<le> i \<Longrightarrow> i < k \<Longrightarrow> \<not> wanted (pms ! i)"
      "k < length pms \<Longrightarrow> wanted (pms ! k)"
      using skip_forward_spec [of "?c + 1" pms k] k_def first x l by auto
    have "cursors_ok ?pm k ?r"
      unfolding cursors_ok_def
    proof (intro conjI allI impI)
      show "\<not> wanted (?pm ! i)" if "i < k" for i
        using nw c(2) k(3) that same first by (metis Suc_eq_plus1 Suc_leI linorder_neqE_nat)
      show "wanted (?pm ! (?r - 1))" if "?r > 0" using w r(3) that first by simp
    qed (use k r nw w same l first in auto)
    with that [of ?r k] first show ?thesis by (simp add: cursors_unwanted_def k_def)
  next
    case last
    define k where "k = skip_backward pms (?r - 1)"
    have k: "k \<le> ?r - 1" "\<And>i. k \<le> i \<Longrightarrow> i < ?r - 1 \<Longrightarrow> \<not> wanted (pms ! i)" "k > 0 \<Longrightarrow> wanted (pms ! (k - 1))"
      using skip_backward_spec [OF k_def] by auto
    have "cursors_ok ?pm ?c k"
      unfolding cursors_ok_def
    proof (intro conjI allI impI)
      show "\<not> wanted (?pm ! i)" if "k \<le> i \<and> i < length ?pm" for i
        using nw r(2) [of i] k(2) [of i] that same [of i] last q
        by (cases "i < x"; cases "i = x") auto
    qed (use k c r(1) nw w same l last x in auto)
    with that [of k ?c] last show ?thesis by (simp add: cursors_unwanted_def k_def)
  next
    case inside
    have "cursors_ok ?pm ?c ?r" using c r nw w inside x by (auto simp: cursors_ok_def)
    with that [of ?r ?c] inside show ?thesis by (simp add: cursors_unwanted_def)
  qed
qed

section \<open>Having a piece\<close>

lemma count_update:
  assumes "x < length xs"
  shows "int (length (filter P (xs[x := q]))) =
    int (length (filter P xs)) - (if P (xs ! x) then 1 else 0) + (if P q then 1 else 0)"
proof -
  have "length (filter P xs) = length (filter P (take x xs @ xs ! x # drop (Suc x) xs))"
    using assms by (simp flip: id_take_nth_drop)
  with assms show ?thesis by (simp add: upd_conv_take_nth_drop)
qed

lemma inv_rest_entry:
  assumes inv: "inv_rest pk" and x: "x < num_pieces pk" and q: "pos_ok q"
    "downloading q = downloading (m_piece_map pk ! x)" "downloading q \<Longrightarrow> \<not> have_pos q"
    and f: "m_piece_map pk1 = (m_piece_map pk)[x := q]" "m_downloads pk1 = m_downloads pk"
      "m_block_info pk1 = m_block_info pk" "m_blocks_per_piece pk1 = m_blocks_per_piece pk"
      "m_blocks_in_last_piece pk1 = m_blocks_in_last_piece pk"
    and cnt: "counts_ok pk1"
  shows "inv_rest pk1"
proof -
  have bip: "blocks_in_piece pk1 = blocks_in_piece pk" by (simp add: fun_eq_iff blocks_in_piece_def f)
  then have bo: "blocks_of pk1 = blocks_of pk" by (simp add: fun_eq_iff blocks_of_def f)
  have np: "num_pieces pk1 = num_pieces pk" by (simp add: num_pieces_def f)
  have "map_ok pk1" using inv q(1) unfolding inv_rest_def map_ok_def f
    by (auto dest!: subsetD [OF set_update_subset_insert])
  moreover have "table_core pk1" using inv by (simp add: inv_rest_def table_core_def sizes_ok_def f np bo)
  moreover have "marks_ok pk1"
    unfolding marks_ok_def np f
  proof (intro allI impI)
    fix y assume "y < num_pieces pk"
    with inv q x show "downloading ((m_piece_map pk)[x := q] ! y) = (y \<in> dp_index ` set (m_downloads pk))
      \<and> (downloading ((m_piece_map pk)[x := q] ! y) \<longrightarrow> \<not> have_pos ((m_piece_map pk)[x := q] ! y))"
      by (cases "y = x") (auto simp: inv_rest_def marks_ok_def num_pieces_def)
  qed
  ultimately show ?thesis using inv cnt by (simp add: inv_rest_def f)
qed


lemma find_download_Some:
  assumes "marks_ok pk" "x < num_pieces pk" "downloading (m_piece_map pk ! x)"
  obtains i where "find_download pk x = Some i" "i < length (m_downloads pk)" "dp_index (m_downloads pk ! i) = x"
proof -
  from assms have "x \<in> dp_index ` set (m_downloads pk)" by (simp add: marks_ok_def)
  then have "find_download pk x \<noteq> None" by (auto simp: find_download_def find_index_None)
  then obtain i where "find_download pk x = Some i" by blast
  with that find_index_Some [of "\<lambda>dp. dp_index dp = x" "m_downloads pk" i] show ?thesis
    by (simp add: find_download_def)
qed

text \<open>The invariant, but for the place of entry \<open>i\<close> in the queue.\<close>

definition inv_unsorted :: "nat \<Rightarrow> piece_picker \<Rightarrow> bool" where
  "inv_unsorted i pk \<longleftrightarrow> map_ok pk \<and> table_core pk \<and> descending (drop_nth i (m_downloads pk)) \<and> marks_ok pk \<and> counts_ok pk"

lemma inv_rest_unsorted: "inv_rest pk \<Longrightarrow> i < length (m_downloads pk) \<Longrightarrow> inv_unsorted i pk"
  by (simp add: inv_rest_def inv_unsorted_def descending_drop_nth)

lemma erase_inv_rest:
  assumes inv: "inv_unsorted i pk" and i: "i < length (m_downloads pk)" and x: "x = dp_index (m_downloads pk ! i)"
  shows "inv_rest (erase_download_piece i pk)"
    and "edited x ((m_piece_map pk ! x)\<lparr>downloading := False\<rparr>) pk (erase_download_piece i pk)"
    and "m_dirty (erase_download_piece i pk) = m_dirty pk"
    and "progress (erase_download_piece i pk) = (progress pk)(x := None)"
    and "blocks_in_piece (erase_download_piece i pk) = blocks_in_piece pk"
proof -
  let ?q = "(m_piece_map pk ! x)\<lparr>downloading := False\<rparr>"
  from inv have core: "table_core pk" and desc: "descending (drop_nth i (m_downloads pk))" by (auto simp: inv_unsorted_def)
  obtain bi dls where eq: "erase_download_piece i pk = pk\<lparr>m_block_info := bi, m_piece_map := (m_piece_map pk)[x := ?q], m_downloads := dls\<rparr>"
    and core': "table_core (erase_download_piece i pk)" and desc': "descending dls"
    and pr: "progress (erase_download_piece i pk) = (progress pk)(x := None)"
    using table_erase [OF core i x desc] by metis
  show "edited x ?q pk (erase_download_piece i pk)" "m_dirty (erase_download_piece i pk) = m_dirty pk"
    and "blocks_in_piece (erase_download_piece i pk) = blocks_in_piece pk"
    unfolding eq by (simp_all add: edited_def blocks_in_piece_def num_pieces_def fun_eq_iff)
  show "progress (erase_download_piece i pk) = (progress pk)(x := None)" by (rule pr)
  have dom: "y \<in> dp_index ` set dls \<longleftrightarrow> y \<in> dp_index ` set (m_downloads pk) \<and> y \<noteq> x" for y
    using fun_cong [OF pr, of y] progress_None [of pk y] progress_None [of "erase_download_piece i pk" y]
    by (auto simp: eq split: if_splits)
  have xn: "x < num_pieces pk" using core i by (auto simp: table_core_def x)
  have fl: "have_pos ?q = have_pos (m_piece_map pk ! x)" "filtered ?q = filtered (m_piece_map pk ! x)"
    by (simp_all add: have_pos_def filtered_def)
  let ?pm = "(m_piece_map pk)[x := ?q]"
  have nth: "?pm ! y = (if y = x then ?q else m_piece_map pk ! y)" for y
    using xn by (auto simp: num_pieces_def nth_list_update)
  have w: "wanted (?pm ! y) = wanted (m_piece_map pk ! y)" "have_pos (?pm ! y) = have_pos (m_piece_map pk ! y)"
    "filtered (?pm ! y) = filtered (m_piece_map pk ! y)" for y
    using fl by (simp_all add: nth wanted_def)
  have l: "length ?pm = length (m_piece_map pk)" by simp
  have "map_ok (erase_download_piece i pk)"
    using inv xn unfolding eq by (auto simp: inv_unsorted_def map_ok_def pos_ok_def num_pieces_def
        dest!: subsetD [OF set_update_subset_insert])
  moreover have "marks_ok (erase_download_piece i pk)"
    using inv dom unfolding eq by (auto simp: inv_unsorted_def marks_ok_def num_pieces_def nth w(2))
  moreover have "counts_ok (erase_download_piece i pk)"
    using inv cursors_cong [OF l w(1)] w filter_length_cong [OF l, of have_pos]
      filter_length_cong [OF l, of "\<lambda>p. filtered p \<and> \<not> have_pos p"]
      filter_length_cong [OF l, of "\<lambda>p. filtered p \<and> have_pos p"]
    unfolding eq by (simp add: inv_unsorted_def counts_ok_def)
  ultimately show "inv_rest (erase_download_piece i pk)" using core' desc' by (simp add: inv_rest_def eq)
qed

lemma priority_have: "have_pos p \<Longrightarrow> priority s p = -1"
  by (simp add: priority_def)

lemma we_dont_have_inv:
  assumes inv: "picker_inv pk" and x: "x < num_pieces pk"
  shows "picker_inv (we_dont_have r x pk)"
proof (cases "have_pos (m_piece_map pk ! x)")
  case False
  with inv show ?thesis by (simp add: we_dont_have_def)
next
  case True
  let ?p = "m_piece_map pk ! x"
  define pk0 where "pk0 = (if filtered ?p
      then pk\<lparr>m_num_filtered := m_num_filtered pk + 1, m_num_have_filtered := m_num_have_filtered pk - 1\<rparr>
      else cursors_wanted x pk)"
  define q where "q = ?p\<lparr>pp_index := 0\<rparr>"
  define pk1 where "pk1 = set_pos x (\<lambda>p. p\<lparr>pp_index := 0\<rparr>) (pk0\<lparr>m_num_have := m_num_have pk0 - 1\<rparr>)"
  from inv have ir: "inv_rest pk" and cnt: "counts_ok pk" by (auto simp: inv_split inv_rest_def)
  have xl: "x < length (m_piece_map pk)" using x by (simp add: num_pieces_def)
  have q: "\<not> have_pos q" "filtered q = filtered ?p" "downloading q = downloading ?p" "pos_ok q" "piece_priority q < 8"
    using inv_piece [OF inv x] by (auto simp: q_def have_pos_def we_have_index_def filtered_def pos_ok_def)
  have f: "m_piece_map pk1 = (m_piece_map pk)[x := q]" "m_downloads pk1 = m_downloads pk"
      "m_block_info pk1 = m_block_info pk" "m_blocks_per_piece pk1 = m_blocks_per_piece pk"
      "m_blocks_in_last_piece pk1 = m_blocks_in_last_piece pk" "m_dirty pk1 = m_dirty pk"
      "m_seeds pk1 = m_seeds pk" "m_pieces pk1 = m_pieces pk" "m_priority_boundries pk1 = m_priority_boundries pk"
      "m_num_have pk1 = m_num_have pk - 1"
      "m_num_filtered pk1 = m_num_filtered pk + (if filtered ?p then 1 else 0)"
      "m_num_have_filtered pk1 = m_num_have_filtered pk - (if filtered ?p then 1 else 0)"
      "m_cursor pk1 = (if filtered ?p then m_cursor pk else min (m_cursor pk) x)"
      "m_reverse_cursor pk1 = (if filtered ?p then m_reverse_cursor pk else max (m_reverse_cursor pk) (x + 1))"
    by (simp_all add: pk1_def pk0_def cursors_wanted_eq set_pos_def q_def)
  have cur: "cursors_ok (m_piece_map pk1) (m_cursor pk1) (m_reverse_cursor pk1)"
  proof (cases "filtered ?p")
    case fl: True
    have "wanted ((m_piece_map pk)[x := q] ! i) = wanted (m_piece_map pk ! i)" for i
      using fl q xl by (cases "i = x") (auto simp: wanted_def)
    with cursors_cong [of "(m_piece_map pk)[x := q]" "m_piece_map pk"] cnt fl show ?thesis
      by (simp add: f counts_ok_def)
  next
    case nf: False
    with q have "wanted q" by (simp add: wanted_def)
    with cursors_become_wanted [OF _ xl] cnt nf show ?thesis by (simp add: f counts_ok_def)
  qed
  have "counts_ok pk1"
    unfolding counts_ok_def f(1) count_update [OF xl]
    using cnt cur True q by (simp add: counts_ok_def f)
  then have "inv_rest pk1" by (intro inv_rest_entry [OF ir x q(4,3)]) (use q f in auto)
  moreover have eq: "we_dont_have r x pk =
      (if m_dirty pk1 then pk1 else if prio_of pk1 x \<ge> 0 then add r x pk1 else pk1)"
    using True by (simp add: we_dont_have_def Let_def pk1_def pk0_def)
  moreover have "buckets_ok (we_dont_have r x pk) \<and> moves_only pk1 (we_dont_have r x pk)" if d: "\<not> m_dirty pk1"
  proof -
    have ed: "edited x q pk pk1" by (simp add: edited_def f)
    have b: "buckets_ok pk" using inv d by (simp add: inv_split f)
    have neg: "prio_of pk x = -1" using True by (simp add: priority_have)
    show ?thesis
    proof (cases "prio_of pk1 x \<ge> 0")
      case True
      with bucket.add_law [OF bucket.taken_out [OF b ed x]] neg d eq show ?thesis by simp
    next
      case False
      moreover have "prio_of pk1 x \<ge> -1" using q(5) xl by (intro priority_ge) (simp add: f)
      ultimately have "prio_of pk1 x = -1" by simp
      with bucket.stays_out [OF b ed x] neg d eq show ?thesis by simp
    qed
  qed
  ultimately show ?thesis by (intro inv_refiled [of pk1]) auto
qed


lemma mark_have_inv_rest:
  assumes inv: "inv_rest pk" and x: "x < num_pieces pk" and nh: "\<not> have_pos (m_piece_map pk ! x)"
    and nd: "\<not> downloading (m_piece_map pk ! x)" and q: "q = (m_piece_map pk ! x)\<lparr>pp_index := we_have_index\<rparr>"
  shows "inv_rest (mark_have x pk) \<and> edited x q pk (mark_have x pk) \<and> m_dirty (mark_have x pk) = m_dirty pk"
proof -
  let ?p = "m_piece_map pk ! x" and ?pm = "(m_piece_map pk)[x := q]"
  define d where "d = (if filtered ?p then 1 else 0 :: int)"
  from inv have cnt: "counts_ok pk" by (simp add: inv_rest_def)
  have xl: "x < length (m_piece_map pk)" using x by (simp add: num_pieces_def)
  have p: "pos_ok ?p" using inv xl by (auto simp: inv_rest_def map_ok_def)
  have qp: "have_pos q" "\<not> downloading q" "filtered q = filtered ?p" "pos_ok q" "\<not> wanted q"
    using nd p by (auto simp: q have_pos_def filtered_def pos_ok_def we_have_index_def wanted_def)
  define pk2 where "pk2 = pk\<lparr>m_sparse_regions := m_sparse_regions pk + sparse_delta (m_piece_map pk) x,
      m_num_filtered := m_num_filtered pk - d, m_num_have_filtered := m_num_have_filtered pk + d,
      m_num_have := m_num_have pk + 1, m_piece_map := ?pm\<rparr>"
  have mh: "mark_have x pk = cursors_unwanted ?pm x pk2"
    by (simp add: mark_have_def Let_def set_pos_def q d_def pk2_def)
  have co: "cursors_ok (m_piece_map pk) (m_cursor pk2) (m_reverse_cursor pk2)"
    using cnt by (simp add: counts_ok_def pk2_def)
  obtain c r where cu: "cursors_unwanted ?pm x pk2 = pk2\<lparr>m_cursor := c, m_reverse_cursor := r\<rparr>"
    and ok: "cursors_ok ?pm c r"
    by (rule cursors_become_unwanted [OF co xl qp(5), of ?pm]) auto
  have "counts_ok (mark_have x pk)"
    using cnt ok nh qp unfolding mh cu by (simp add: counts_ok_def count_update [OF xl] pk2_def d_def)
  then have "inv_rest (mark_have x pk)"
    unfolding mh cu by (rule inv_rest_entry [OF inv x qp(4), rotated -1]) (use qp nd in \<open>simp_all add: pk2_def\<close>)
  then show ?thesis unfolding mh cu by (simp add: edited_def pk2_def)
qed

text \<open>A piece that we did not have: its entry is edited, then it is taken out of the array.\<close>

lemma we_have_shape:
  assumes inv: "picker_inv pk" and x: "x < num_pieces pk" and nh0: "\<not> have_pos (m_piece_map pk ! x)"
  obtains q pk1 where "inv_rest pk1" "edited x q pk pk1" "have_pos q" "m_dirty pk1 \<Longrightarrow> we_have x pk = pk1"
    "\<not> m_dirty pk1 \<Longrightarrow> buckets_ok (we_have x pk) \<and> moves_only pk1 (we_have x pk)"
    "progress pk1 = (progress pk)(x := None)" "blocks_in_piece pk1 = blocks_in_piece pk"
proof -
  let ?p = "m_piece_map pk ! x"
  define pk0 where "pk0 = (if downloading ?p then case find_download pk x of None \<Rightarrow> pk | Some i \<Rightarrow> erase_download_piece i pk else pk)"
  from inv have ir: "inv_rest pk" and mk: "marks_ok pk" by (auto simp: inv_split inv_rest_def)
  have xl: "x < length (m_piece_map pk)" using x by (simp add: num_pieces_def)
  have p0: "inv_rest pk0 \<and> edited x (?p\<lparr>downloading := False\<rparr>) pk pk0 \<and> m_dirty pk0 = m_dirty pk \<and>
      progress pk0 = (progress pk)(x := None) \<and> blocks_in_piece pk0 = blocks_in_piece pk"
  proof (cases "downloading ?p")
    case True
    obtain i where i: "find_download pk x = Some i" "i < length (m_downloads pk)" "dp_index (m_downloads pk ! i) = x"
      by (rule find_download_Some [OF mk x True])
    with erase_inv_rest [OF inv_rest_unsorted [OF ir i(2)] i(2) i(3) [symmetric]] True show ?thesis by (simp add: pk0_def)
  next
    case False
    then have same: "?p\<lparr>downloading := False\<rparr> = ?p" by simp
    have "progress pk x = None" using mk x False by (auto simp: marks_ok_def progress_None)
    with ir False show ?thesis unfolding pk0_def edited_def same by (simp add: fun_upd_idem)
  qed
  have e0: "m_piece_map pk0 ! x = ?p\<lparr>downloading := False\<rparr>" "num_pieces pk0 = num_pieces pk"
    using p0 xl by (simp_all add: edited_def num_pieces_def)
  define q where "q = (m_piece_map pk0 ! x)\<lparr>pp_index := we_have_index\<rparr>"
  define pk1 where "pk1 = mark_have x pk0"
  have nh: "\<not> have_pos (m_piece_map pk0 ! x)" using nh0 by (simp add: e0 have_pos_def)
  have b1: "inv_rest pk1 \<and> edited x q pk0 pk1 \<and> m_dirty pk1 = m_dirty pk0"
    unfolding pk1_def by (rule mark_have_inv_rest [OF _ _ nh _ q_def]) (use p0 e0 x in auto)
  have ed: "edited x q pk pk1" using p0 b1 by (auto simp: edited_def)
  have "\<not> have_piece pk0 x" using nh by (simp add: have_piece_def)
  then have eq: "we_have x pk = (if prio_of pk x = -1 then pk1 else if m_dirty pk1 then pk1
      else remove (nat (prio_of pk x)) (pp_index ?p) pk1)"
    unfolding we_have_def Let_def pk0_def [symmetric] by (simp add: pk1_def)
  have neg: "prio_of pk1 x = -1"
    using ed xl by (intro priority_have) (simp add: edited_def q_def have_pos_def)
  show ?thesis
  proof (rule that [of pk1 q])
    show "inv_rest pk1" "edited x q pk pk1" "have_pos q" "m_dirty pk1 \<Longrightarrow> we_have x pk = pk1"
      using b1 ed eq by (simp_all add: q_def have_pos_def)
    have m: "m_downloads pk1 = m_downloads pk0" "m_block_info pk1 = m_block_info pk0" "num_pieces pk1 = num_pieces pk0"
      "m_blocks_per_piece pk1 = m_blocks_per_piece pk0" "m_blocks_in_last_piece pk1 = m_blocks_in_last_piece pk0"
      by (simp_all add: pk1_def mark_have_def cursors_unwanted_def set_pos_def num_pieces_def Let_def)
    then have "blocks_in_piece pk1 = blocks_in_piece pk0" by (simp add: blocks_in_piece_def num_pieces_def fun_eq_iff)
    with p0 show bip: "blocks_in_piece pk1 = blocks_in_piece pk" by simp
    have "progress pk1 = progress pk0" using m bip p0 by (simp add: progress_def blocks_of_def fun_eq_iff cong: option.case_cong)
    with p0 show "progress pk1 = (progress pk)(x := None)" by simp
    assume d: "\<not> m_dirty pk1"
    then have b: "buckets_ok pk" using inv p0 b1 by (simp add: inv_split)
    show "buckets_ok (we_have x pk) \<and> moves_only pk1 (we_have x pk)"
    proof (cases "prio_of pk x = -1")
      case True
      with bucket.stays_out [OF b ed x] neg eq show ?thesis by simp
    next
      case no: False
      with priority_ge [OF inv_piece(2) [OF inv x], of "m_seeds pk"]
      have k: "prio_of pk x = int (nat (prio_of pk x))" by simp
      from bucket.remove_law [OF bucket.displaces [OF b ed x k]] neg no d eq show ?thesis by simp
    qed
  qed
qed

lemma we_have_old: "picker_inv pk \<Longrightarrow> x < num_pieces pk \<Longrightarrow> have_pos (m_piece_map pk ! x) \<Longrightarrow> we_have x pk = pk"
  by (auto simp: we_have_def Let_def have_piece_def picker_inv_def marks_ok_def)

lemma we_have_inv:
  assumes inv: "picker_inv pk" and x: "x < num_pieces pk"
  shows "picker_inv (we_have x pk)"
proof (cases "have_pos (m_piece_map pk ! x)")
  case True
  with inv we_have_old [OF inv x] show ?thesis by simp
next
  case False
  show ?thesis by (rule we_have_shape [OF inv x False]) (rule inv_refiled)
qed

lemma we_have_flags:
  assumes inv: "picker_inv pk" and x: "x < num_pieces pk"
  shows "map have_pos (m_piece_map (we_have x pk)) = (map have_pos (m_piece_map pk))[x := True]"
proof (cases "have_pos (m_piece_map pk ! x)")
  case True
  with x have "(map have_pos (m_piece_map pk))[x := True] = map have_pos (m_piece_map pk)"
    by (intro list_update_same_conv [THEN iffD2]) (auto simp: num_pieces_def)
  with we_have_old [OF inv x True] show ?thesis by simp
next
  case False
  show ?thesis
  proof (rule we_have_shape [OF inv x False])
    fix q pk1 assume q: "edited x q pk pk1" "have_pos q"
      and m: "m_dirty pk1 \<Longrightarrow> we_have x pk = pk1" "\<not> m_dirty pk1 \<Longrightarrow> buckets_ok (we_have x pk) \<and> moves_only pk1 (we_have x pk)"
    have "map norm_pos (m_piece_map (we_have x pk)) = map norm_pos (m_piece_map pk1)"
      using m by (cases "m_dirty pk1") (auto simp: moves_only_def reindexed_def)
    then have "map (have_pos \<circ> norm_pos) (m_piece_map (we_have x pk)) = map (have_pos \<circ> norm_pos) (m_piece_map pk1)"
      by (metis map_map)
    then have "map have_pos (m_piece_map (we_have x pk)) = map have_pos (m_piece_map pk1)" by (simp add: comp_def)
    with q show ?thesis by (simp add: edited_def map_update)
  qed
qed

lemma we_have_progress:
  assumes inv: "picker_inv pk" and x: "x < num_pieces pk"
  shows "progress (we_have x pk) = (progress pk)(x := None)" "blocks_in_piece (we_have x pk) = blocks_in_piece pk"
proof -
  have "progress (we_have x pk) = (progress pk)(x := None) \<and> blocks_in_piece (we_have x pk) = blocks_in_piece pk"
  proof (cases "have_pos (m_piece_map pk ! x)")
    case True
    then have "progress pk x = None" using inv x by (auto simp: picker_inv_def marks_ok_def progress_None)
    then show ?thesis using we_have_old [OF inv x True] by (simp add: fun_upd_idem)
  next
    case False
    show ?thesis
    proof (rule we_have_shape [OF inv x False])
      fix q pk1 assume "m_dirty pk1 \<Longrightarrow> we_have x pk = pk1" "\<not> m_dirty pk1 \<Longrightarrow> buckets_ok (we_have x pk) \<and> moves_only pk1 (we_have x pk)"
        "progress pk1 = (progress pk)(x := None)" "blocks_in_piece pk1 = blocks_in_piece pk"
      then show ?thesis using moves_blocks [of pk1 "we_have x pk"] by (cases "m_dirty pk1") auto
    qed
  qed
  then show "progress (we_have x pk) = (progress pk)(x := None)" "blocks_in_piece (we_have x pk) = blocks_in_piece pk" by auto
qed

lemma we_have_sparse:
  assumes "\<not> have_pos (m_piece_map pk ! x)" "x < num_pieces pk"
  shows "m_sparse_regions (we_have x pk) = m_sparse_regions pk + sparse_delta (m_piece_map pk) x"
proof -
  define pk0 where "pk0 = (if downloading (m_piece_map pk ! x) then case find_download pk x of None \<Rightarrow> pk
      | Some i \<Rightarrow> erase_download_piece i pk else pk)"
  have same: "(map have_pos pm)[k := (ixm pm k = we_have_index)] = map have_pos pm" for pm k
    unfolding have_pos_def [symmetric] map_update [symmetric] by simp
  have er: "m_sparse_regions (erase_download_piece i pk) = m_sparse_regions pk"
    "map have_pos (m_piece_map (erase_download_piece i pk)) = map have_pos (m_piece_map pk)" for i
    by (auto simp: erase_download_piece_def Let_def map_update have_pos_def [of "downloading_update _ _"] same split: option.splits)
  have p0: "m_sparse_regions pk0 = m_sparse_regions pk" "map have_pos (m_piece_map pk0) = map have_pos (m_piece_map pk)"
    using er by (auto simp: pk0_def split: option.splits)
  then have l: "length (m_piece_map pk0) = length (m_piece_map pk)" by (metis length_map)
  have h: "have_pos (m_piece_map pk0 ! y) = have_pos (m_piece_map pk ! y)" if "y < length (m_piece_map pk)" for y
    using p0(2) l that by (metis nth_map)
  have xl: "x < length (m_piece_map pk)" using assms(2) by (simp add: num_pieces_def)
  have "have_pos (m_piece_map pk0 ! (x - 1)) = have_pos (m_piece_map pk ! (x - 1))" using h [of "x - 1"] xl by simp
  moreover have "x + 1 = length (m_piece_map pk) \<or> have_pos (m_piece_map pk0 ! (x + 1)) = have_pos (m_piece_map pk ! (x + 1))"
    using h [of "x + 1"] xl by linarith
  ultimately have "sparse_delta (m_piece_map pk0) x = sparse_delta (m_piece_map pk) x"
    unfolding sparse_delta_def l Let_def by (cases "x = 0") auto
  moreover have "\<not> have_piece pk0 x" using assms h by (simp add: have_piece_def num_pieces_def)
  moreover have "m_sparse_regions (mark_have x pk0) = m_sparse_regions pk0 + sparse_delta (m_piece_map pk0) x"
    by (simp add: mark_have_def cursors_unwanted_def set_pos_def Let_def)
  moreover have "m_sparse_regions (remove k e p) = m_sparse_regions p" for k e p by (simp add: remove_def split_beta Let_def)
  ultimately show ?thesis using p0(1) unfolding we_have_def Let_def pk0_def [symmetric] by simp
qed

section \<open>Piece priorities\<close>

lemma become_filtered:
  assumes inv: "inv_rest pk" and x: "x < num_pieces pk" and nh: "\<not> have_pos (m_piece_map pk ! x)"
    and nf: "\<not> filtered (m_piece_map pk ! x)" and q: "q = (m_piece_map pk ! x)\<lparr>piece_priority := 0\<rparr>"
    and pk1: "pk1 = set_pos x (\<lambda>_. q) (cursors_unwanted (m_piece_map pk) x (pk\<lparr>m_num_filtered := m_num_filtered pk + 1\<rparr>))"
  shows "inv_rest pk1 \<and> edited x q pk pk1 \<and> m_dirty pk1 = m_dirty pk"
proof -
  from inv have cnt: "counts_ok pk" by (simp add: inv_rest_def)
  have xl: "x < length (m_piece_map pk)" using x by (simp add: num_pieces_def)
  have p: "pos_ok (m_piece_map pk ! x)" using inv xl by (auto simp: inv_rest_def map_ok_def)
  have qp: "\<not> have_pos q" "filtered q" "downloading q = downloading (m_piece_map pk ! x)" "pos_ok q" "\<not> wanted q"
    using p nh by (auto simp: q have_pos_def filtered_def pos_ok_def wanted_def)
  let ?pk = "pk\<lparr>m_num_filtered := m_num_filtered pk + 1\<rparr>"
  have co: "cursors_ok (m_piece_map pk) (m_cursor ?pk) (m_reverse_cursor ?pk)" using cnt by (simp add: counts_ok_def)
  obtain c r where cu: "cursors_unwanted (m_piece_map pk) x ?pk = ?pk\<lparr>m_cursor := c, m_reverse_cursor := r\<rparr>"
    and ok: "cursors_ok ((m_piece_map pk)[x := q]) c r"
    by (rule cursors_become_unwanted [OF co xl qp(5), of "m_piece_map pk"]) auto
  have "counts_ok pk1"
    using cnt ok nh nf qp unfolding pk1 cu by (simp add: counts_ok_def count_update [OF xl] set_pos_def)
  then have "inv_rest pk1"
    by (rule inv_rest_entry [OF inv x qp(4), rotated -1]) (use qp in \<open>simp_all add: pk1 cu set_pos_def\<close>)
  then show ?thesis by (simp add: edited_def pk1 cu set_pos_def)
qed

lemma set_priority_counts:
  assumes inv: "inv_rest pk" and x: "x < num_pieces pk" and new: "v \<le> 7" "v \<noteq> piece_priority (m_piece_map pk ! x)"
    and q: "q = (m_piece_map pk ! x)\<lparr>piece_priority := v\<rparr>"
    and pk1: "pk1 = set_pos x (\<lambda>_. q) (snd (count_filtered x v pk))"
  shows "inv_rest pk1 \<and> edited x q pk pk1 \<and> m_dirty pk1 = m_dirty pk"
proof -
  let ?p = "m_piece_map pk ! x"
  from inv have cnt: "counts_ok pk" by (simp add: inv_rest_def)
  have xl: "x < length (m_piece_map pk)" using x by (simp add: num_pieces_def)
  have p: "pos_ok ?p" using inv xl by (auto simp: inv_rest_def map_ok_def)
  have qp: "have_pos q = have_pos ?p" "filtered q = (v = 0)" "downloading q = downloading ?p" "pos_ok q"
    using p new by (auto simp: q have_pos_def filtered_def pos_ok_def)
  have dh: "downloading ?p \<Longrightarrow> \<not> have_pos ?p" using inv x by (auto simp: inv_rest_def marks_ok_def)
  consider (fil) "v = 0" "\<not> filtered ?p" "\<not> have_pos ?p"
    | (unfil) "v \<noteq> 0" "filtered ?p" "\<not> have_pos ?p" | (other) "have_pos ?p \<or> (v = 0) = filtered ?p"
    by auto
  then show ?thesis
  proof cases
    case fil
    with become_filtered [OF inv x, of q pk1] show ?thesis by (simp add: q pk1 filtered_def count_filtered_def Let_def)
  next
    case unfil
    then have w: "wanted q" using qp by (simp add: wanted_def)
    have e: "pk1 = set_pos x (\<lambda>_. q) (cursors_wanted x (pk\<lparr>m_num_filtered := m_num_filtered pk - 1\<rparr>))"
      using unfil by (simp add: pk1 filtered_def count_filtered_def Let_def)
    have "counts_ok pk1"
      using cnt unfil qp cursors_become_wanted [OF _ xl w]
      unfolding e cursors_wanted_eq by (simp add: counts_ok_def count_update [OF xl] set_pos_def)
    then have "inv_rest pk1"
      by (rule inv_rest_entry [OF inv x qp(4), rotated -1])
         (use qp unfil in \<open>simp_all add: e cursors_wanted_eq set_pos_def\<close>)
    then show ?thesis by (simp add: edited_def e cursors_wanted_eq set_pos_def)
  next
    case other
    define d where "d = (if v = 0 then 1 else 0) - (if filtered ?p then 1 else 0 :: int)"
    have e: "pk1 = set_pos x (\<lambda>_. q) (pk\<lparr>m_num_have_filtered := m_num_have_filtered pk + (if have_pos ?p then d else 0)\<rparr>)"
      using other new by (auto simp: pk1 filtered_def d_def count_filtered_def Let_def)
    have "wanted ((m_piece_map pk)[x := q] ! i) = wanted (m_piece_map pk ! i)" for i
      using other qp xl by (cases "i = x") (auto simp: wanted_def)
    with cnt cursors_cong [of "(m_piece_map pk)[x := q]" "m_piece_map pk"]
    have "cursors_ok ((m_piece_map pk)[x := q]) (m_cursor pk) (m_reverse_cursor pk)" by (simp add: counts_ok_def)
    then have "counts_ok pk1"
      using cnt other qp unfolding e
      by (auto simp: counts_ok_def count_update [OF xl] set_pos_def d_def)
    then have "inv_rest pk1"
      by (rule inv_rest_entry [OF inv x qp(4), rotated -1]) (use qp dh in \<open>simp_all add: e set_pos_def\<close>)
    then show ?thesis by (simp add: edited_def e set_pos_def)
  qed
qed

lemma set_piece_priority_refiled:
  assumes inv: "picker_inv pk" and x: "x < num_pieces pk" and v: "v \<le> 7" and False: "v \<noteq> piece_priority (m_piece_map pk ! x)"
  obtains pk1 where "refiled pk1 (snd (set_piece_priority r x v pk))" "m_piece_map pk1 = (m_piece_map pk)[x := (m_piece_map pk ! x)\<lparr>piece_priority := v\<rparr>]"
    "m_downloads pk1 = m_downloads pk" "m_block_info pk1 = m_block_info pk" "m_blocks_per_piece pk1 = m_blocks_per_piece pk"
    "m_blocks_in_last_piece pk1 = m_blocks_in_last_piece pk"
proof -
  let ?p = "m_piece_map pk ! x"
  define q where "q = ?p\<lparr>piece_priority := v\<rparr>"
  define pk1 where "pk1 = set_pos x (\<lambda>_. q) (snd (count_filtered x v pk))"
  from inv have ir: "inv_rest pk" by (simp add: inv_split)
  note c = set_priority_counts [OF ir x v False q_def pk1_def]
  have map1: "m_piece_map (snd (count_filtered x v pk)) = m_piece_map pk"
    by (simp add: count_filtered_def Let_def cursors_unwanted_def cursors_wanted_eq)
  then have pk1': "pk1 = set_pos x (\<lambda>p. p\<lparr>piece_priority := v mod 2 ^ 3\<rparr>) (snd (count_filtered x v pk))"
    using v by (simp add: pk1_def set_pos_def q_def)
  have same: "m_piece_map pk1 = (m_piece_map pk)[x := q]" "m_downloads pk1 = m_downloads pk" "m_block_info pk1 = m_block_info pk"
    "m_blocks_per_piece pk1 = m_blocks_per_piece pk" "m_blocks_in_last_piece pk1 = m_blocks_in_last_piece pk"
    using map1 by (simp_all add: pk1_def set_pos_def count_filtered_def Let_def cursors_unwanted_def cursors_wanted_eq)
  have eq: "snd (set_piece_priority r x v pk) =
      (if prio_of pk x = prio_of pk1 x then pk1 else if m_dirty pk1 then pk1
       else if prio_of pk x = -1 then add r x pk1 else update r (nat (prio_of pk x)) (pp_index (m_piece_map pk1 ! x)) pk1)"
    using False unfolding pk1' set_piece_priority_def Let_def
    by (simp add: case_prod_beta if_distrib [of snd] split del: if_split cong: if_cong)
  have "refiled pk1 (snd (set_piece_priority r x v pk))"
  proof (rule refiledI)
    show "inv_rest pk1" "m_dirty pk1 \<Longrightarrow> snd (set_piece_priority r x v pk) = pk1" using c eq by simp_all
    assume d: "\<not> m_dirty pk1"
    then have b: "buckets_ok pk" using inv c by (simp add: inv_split)
    show "buckets_ok (snd (set_piece_priority r x v pk)) \<and> moves_only pk1 (snd (set_piece_priority r x v pk))"
      using bucket.refile [OF b _ x, of q pk1 r] c inv_piece(2) [OF inv x] v d
      unfolding eq by (simp add: q_def Let_def split del: if_split cong: if_cong)
  qed
  then show ?thesis using same by (rule that [unfolded q_def [symmetric]])
qed

lemma set_piece_priority_inv:
  assumes inv: "picker_inv pk" and x: "x < num_pieces pk" and v: "v \<le> 7"
  shows "picker_inv (snd (set_piece_priority r x v pk))"
proof (cases "v = piece_priority (m_piece_map pk ! x)")
  case True
  with inv show ?thesis by (simp add: set_piece_priority_def Let_def)
next
  case False
  show ?thesis by (rule set_piece_priority_refiled [OF inv x v False]) (rule refiled_inv)
qed

end
