(* ===== verification/Picker_Blocks.thy ===== *)
theory Picker_Blocks
  imports Picker_Pieces
begin

text \<open>
  The operations of the piece picker on blocks keep its invariant, and what each of them does
  to the map \<open>progress\<close> from the pieces that are being downloaded to the states of their
  blocks. The queue entry, its counters, its place in the queue, the block storage it points
  into, the mark of the piece and the place of the piece in the array all change together.
\<close>

section \<open>What the operations on blocks leave alone\<close>

text \<open>The operations on blocks neither change the number of pieces and of their blocks nor which pieces we have.\<close>

definition same_pieces :: "piece_picker \<Rightarrow> piece_picker \<Rightarrow> bool" where
  "same_pieces pk pk' \<longleftrightarrow> num_pieces pk' = num_pieces pk \<and> blocks_in_piece pk' = blocks_in_piece pk
     \<and> (\<forall>x < num_pieces pk. have_pos (m_piece_map pk' ! x) = have_pos (m_piece_map pk ! x))"

lemma same_pieces_refl [simp]: "same_pieces pk pk"
  by (simp add: same_pieces_def)

lemma same_pieces_trans: "same_pieces pk pk1 \<Longrightarrow> same_pieces pk1 pk2 \<Longrightarrow> same_pieces pk pk2"
  by (simp add: same_pieces_def)

lemma same_pieces_map:
  "m_piece_map pk' = m_piece_map pk \<Longrightarrow> m_blocks_per_piece pk' = m_blocks_per_piece pk \<Longrightarrow>
    m_blocks_in_last_piece pk' = m_blocks_in_last_piece pk \<Longrightarrow> same_pieces pk pk'"
  by (simp add: same_pieces_def num_pieces_def blocks_in_piece_def fun_eq_iff)

lemma same_pieces_moves: "moves_only pk pk' \<Longrightarrow> same_pieces pk pk'"
  using norm_pos_eqD(4) [OF moves_nth] by (simp add: same_pieces_def moves_num_pieces moves_blocks)

section \<open>Changing one block of an entry\<close>

lemma count_st_update:
  "b < length bl \<Longrightarrow> count_st st (bl[b := v]) =
     count_st st bl - (if block_state (bl ! b) = st then 1 else 0) + (if block_state v = st then 1 else 0)"
  by (simp add: count_st_def count_update)

lemma dl_ok_update:
  assumes ok: "dl_ok bl dp" and b: "b < length bl" and v: "block_ok v"
    and "requested dp' = requested dp - (if block_state (bl ! b) = state_requested then 1 else 0)
      + (if block_state v = state_requested then 1 else 0)"
    and "writing dp' = writing dp - (if block_state (bl ! b) = state_writing then 1 else 0)
      + (if block_state v = state_writing then 1 else 0)"
    and "finished dp' = finished dp - (if block_state (bl ! b) = state_finished then 1 else 0)
      + (if block_state v = state_finished then 1 else 0)"
    and "(requested dp' > 0) = (dp_state dp' \<noteq> none)"
  shows "dl_ok (bl[b := v]) dp'"
  using assms unfolding dl_ok_def
  by (auto simp: count_st_update dest!: subsetD [OF set_update_subset_insert])

lemma dl_ok_count_pos:
  assumes "dl_ok bl dp" "b < length bl"
  shows "block_state (bl ! b) = state_requested \<Longrightarrow> requested dp > 0"
    and "block_state (bl ! b) = state_writing \<Longrightarrow> writing dp > 0"
    and "requested dp \<ge> 0" "writing dp \<ge> 0" "finished dp \<ge> 0" "block_ok (bl ! b)"
proof -
  have pos: "count_st (block_state (bl ! b)) bl > 0"
    using assms(2) by (auto simp: count_st_def filter_empty_conv intro: nth_mem)
  with assms show "block_state (bl ! b) = state_requested \<Longrightarrow> requested dp > 0"
    "block_state (bl ! b) = state_writing \<Longrightarrow> writing dp > 0"
    by (auto simp: dl_ok_def)
  show "requested dp \<ge> 0" "writing dp \<ge> 0" "finished dp \<ge> 0" "block_ok (bl ! b)"
    using assms by (auto simp: dl_ok_def count_st_def)
qed

text \<open>With fewer than \<open>2 ^ 15\<close> blocks in a piece the counters do not wrap around.\<close>

lemma dl_ok_int16:
  assumes ok: "dl_ok bl dp" and b: "b < length bl" and l: "length bl < 2 ^ 15"
  shows "block_state (bl ! b) \<noteq> state_requested \<Longrightarrow> int16 (requested dp + 1) = requested dp + 1"
    and "block_state (bl ! b) \<noteq> state_writing \<Longrightarrow> int16 (writing dp + 1) = writing dp + 1"
    and "block_state (bl ! b) \<noteq> state_finished \<Longrightarrow> int16 (finished dp + 1) = finished dp + 1"
    and "int16 (requested dp - 1) = requested dp - 1" "int16 (writing dp - 1) = writing dp - 1"
proof -
  have more: "count_st st bl < 2 ^ 15 - 1" if "block_state (bl ! b) \<noteq> st" for st
  proof -
    have "length (filter (\<lambda>b. block_state b = st) bl) < length bl"
      using length_filter_less [where x = "bl ! b" and P = "\<lambda>b. block_state b = st" and xs = bl] nth_mem [OF b] that by blast
    then show ?thesis using l by (simp add: count_st_def)
  qed
  have pos: "0 \<le> count_st st bl" "count_st st bl < 2 ^ 15" for st
    using le_less_trans [OF length_filter_le l, of "\<lambda>b. block_state b = st"] by (simp_all add: count_st_def)
  note c = ok [unfolded dl_ok_def]
  show "block_state (bl ! b) \<noteq> state_requested \<Longrightarrow> int16 (requested dp + 1) = requested dp + 1"
    using c more [of state_requested] pos [of state_requested] by (intro int16_id) simp_all
  show "block_state (bl ! b) \<noteq> state_writing \<Longrightarrow> int16 (writing dp + 1) = writing dp + 1"
    using c more [of state_writing] pos [of state_writing] by (intro int16_id) simp_all
  show "block_state (bl ! b) \<noteq> state_finished \<Longrightarrow> int16 (finished dp + 1) = finished dp + 1"
    using c more [of state_finished] pos [of state_finished] by (intro int16_id) simp_all
  show "int16 (requested dp - 1) = requested dp - 1" "int16 (writing dp - 1) = writing dp - 1"
    using c pos [of state_requested] pos [of state_writing] by (intro int16_id; simp)+
qed

text \<open>The updates of an entry and of one of its blocks, in a normal form.\<close>

definition modify :: "nat \<Rightarrow> nat \<Rightarrow> (block_info \<Rightarrow> block_info) \<Rightarrow> (downloading_piece \<Rightarrow> downloading_piece) \<Rightarrow> piece_picker \<Rightarrow> piece_picker" where
  "modify i b f g pk = pk\<lparr>m_downloads := (m_downloads pk)[i := g (m_downloads pk ! i)],
     m_block_info := (m_block_info pk)[dp_info (m_downloads pk ! i) + b := f (block_of pk (m_downloads pk ! i) b)]\<rparr>"

lemma upd_block_modify: "upd_block i b f pk = modify i b f (\<lambda>dp. dp) pk"
  by (simp add: upd_block_def modify_def block_of_def Let_def)

lemma upd_download_modify: "upd_download i g pk = modify i b (\<lambda>bi. bi) g pk"
  by (simp add: upd_download_def modify_def block_of_def)

lemma modify_modify:
  assumes "i < length (m_downloads pk)" "dp_info (m_downloads pk ! i) + b < length (m_block_info pk)"
    "\<And>dp. dp_info (g dp) = dp_info dp"
  shows "modify i b f' g' (modify i b f g pk) = modify i b (\<lambda>bi. f' (f bi)) (\<lambda>dp. g' (g dp)) pk"
  using assms by (simp add: modify_def block_of_def)

lemma modify_fields [simp, picker_upd]:
  "m_piece_map (modify i b f g pk) = m_piece_map pk" "m_dirty (modify i b f g pk) = m_dirty pk"
  "m_seeds (modify i b f g pk) = m_seeds pk" "length (m_downloads (modify i b f g pk)) = length (m_downloads pk)"
  "buckets_ok (modify i b f g pk) = buckets_ok pk" "num_pieces (modify i b f g pk) = num_pieces pk"
  "blocks_in_piece (modify i b f g pk) = blocks_in_piece pk"
  by (simp_all add: modify_def)

lemma same_pieces_upd [simp]:
  "same_pieces pk (modify i b f g pk)" "same_pieces pk (upd_download i g pk)" "same_pieces pk (upd_block i b f pk)"
  "same_pieces pk (sort_piece i pk)"
  by (simp_all add: same_pieces_map modify_def upd_download_def upd_block_def sort_piece_def Let_def split: prod.split)

lemma modify_entry [simp]:
  "i < length (m_downloads pk) \<Longrightarrow> m_downloads (modify i b f g pk) ! i = g (m_downloads pk ! i)"
  by (simp add: modify_def)

lemma drop_nth_update [simp]: "drop_nth i (xs[i := y]) = drop_nth i xs"
  by (simp add: drop_nth_def)

lemma entry_block:
  assumes "inv_unsorted i pk" "i < length (m_downloads pk)" "dp = m_downloads pk ! i" "b < blocks_in_piece pk (dp_index dp)"
  shows "dp_info dp + b < length (m_block_info pk)" "block_of pk dp b = blocks_of pk dp ! b"
    "dl_ok (blocks_of pk dp) dp" "dp_index dp < num_pieces pk" "progress pk (dp_index dp) = Some (blocks_of pk dp)"
proof -
  from assms have core: "table_core pk" by (simp add: inv_unsorted_def)
  with assms have dp: "dp_index dp < num_pieces pk" "dl_ok (blocks_of pk dp) dp" and sz: "sizes_ok pk"
    and st: "store_ok (m_blocks_per_piece pk) (m_downloads pk) (m_block_info pk)" by (auto simp: table_core_def)
  from store_bound(2) [OF st assms(2), of b] blocks_in_piece_le [OF sz dp(1)] assms(3,4)
  show "dp_info dp + b < length (m_block_info pk)" by simp
  show "block_of pk dp b = blocks_of pk dp ! b" using assms(4) by (simp add: blocks_of_block)
  show "dl_ok (blocks_of pk dp) dp" "dp_index dp < num_pieces pk" by fact+
  show "progress pk (dp_index dp) = Some (blocks_of pk dp)" using progress_at [OF core assms(2)] assms(3) by simp
qed

lemma modify_inv:
  assumes inv: "inv_unsorted i pk" and i: "i < length (m_downloads pk)" and dp: "dp = m_downloads pk ! i"
    and b: "b < blocks_in_piece pk (dp_index dp)" and g: "\<And>dp. dp_index (g dp) = dp_index dp" "\<And>dp. dp_info (g dp) = dp_info dp"
    and ok: "dl_ok ((blocks_of pk dp)[b := f (blocks_of pk dp ! b)]) (g dp)"
  shows "inv_unsorted i (modify i b f g pk)"
    and "progress (modify i b f g pk) = (progress pk)(dp_index dp \<mapsto> (blocks_of pk dp)[b := f (blocks_of pk dp ! b)])"
proof -
  note e = entry_block [OF inv i dp b]
  from inv have core: "table_core pk" by (simp add: inv_unsorted_def)
  have m: "modify i b f g pk = pk\<lparr>m_downloads := (m_downloads pk)[i := g dp],
      m_block_info := (m_block_info pk)[dp_info dp + b := f (blocks_of pk dp ! b)]\<rparr>"
    by (simp add: modify_def e(2) flip: dp)
  note t = table_modify [OF core i dp [symmetric] g b ok m]
  show "progress (modify i b f g pk) = (progress pk)(dp_index dp \<mapsto> (blocks_of pk dp)[b := f (blocks_of pk dp ! b)])"
    by (rule t(2))
  have "map dp_index ((m_downloads pk)[i := g dp]) = map dp_index (m_downloads pk)"
    using i dp g(1) by (simp add: map_update list_update_same_conv)
  then have set: "dp_index ` set ((m_downloads pk)[i := g dp]) = dp_index ` set (m_downloads pk)"
    by (metis list.set_map)
  have "marks_ok (modify i b f g pk)" using inv set by (simp add: inv_unsorted_def marks_ok_def m num_pieces_def)
  moreover have "counts_ok (modify i b f g pk)" "map_ok (modify i b f g pk)"
    using inv by (simp_all add: inv_unsorted_def counts_ok_def map_ok_def m)
  moreover have "descending (drop_nth i (m_downloads (modify i b f g pk)))"
    using inv by (simp add: inv_unsorted_def m)
  ultimately show "inv_unsorted i (modify i b f g pk)" using t(1) by (simp add: inv_unsorted_def)
qed

text \<open>Restoring the order of the queue.\<close>

lemma sort_piece_inv:
  assumes inv: "inv_unsorted i pk" and i: "i < length (m_downloads pk)"
  shows "inv_rest (sort_piece i pk)" and "progress (sort_piece i pk) = progress pk"
    and "m_dirty (sort_piece i pk) = m_dirty pk" and "buckets_ok (sort_piece i pk) = buckets_ok pk"
proof -
  from inv have core: "table_core pk" and d: "descending (drop_nth i (m_downloads pk))" by (auto simp: inv_unsorted_def)
  obtain dls where s: "sort_piece i pk = pk\<lparr>m_downloads := dls\<rparr>" "mset dls = mset (m_downloads pk)" "descending dls"
    using sort_piece_spec [OF d i] by blast
  note t = table_reorder [OF core s(2)]
  have "set dls = set (m_downloads pk)" by (rule mset_eq_setD [OF s(2)])
  with inv have "marks_ok (sort_piece i pk)" "counts_ok (sort_piece i pk)" "map_ok (sort_piece i pk)"
    by (simp_all add: inv_unsorted_def marks_ok_def counts_ok_def map_ok_def s(1))
  with t s show "inv_rest (sort_piece i pk)" by (simp add: inv_rest_def)
  show "progress (sort_piece i pk) = progress pk" using t s by simp
  show "m_dirty (sort_piece i pk) = m_dirty pk" "buckets_ok (sort_piece i pk) = buckets_ok pk" by (simp_all add: s(1))
qed

lemma unsorted_same_arrived:
  assumes inv: "inv_rest pk" and i: "i < length (m_downloads pk)"
    and u: "inv_unsorted i (modify i b f g pk)" and same: "arrived (g (m_downloads pk ! i)) = arrived (m_downloads pk ! i)"
  shows "inv_rest (modify i b f g pk)"
proof -
  have "map arrived ((m_downloads pk)[i := g (m_downloads pk ! i)]) = map arrived (m_downloads pk)"
    using i same by (simp add: map_update list_update_same_conv)
  with inv have "descending (m_downloads (modify i b f g pk))"
    by (simp add: inv_rest_def descending_def modify_def)
  with u show ?thesis by (simp add: inv_rest_def inv_unsorted_def)
qed

text \<open>Both, for the picker.\<close>

lemma modify_picker_inv:
  assumes inv: "picker_inv pk" and i: "i < length (m_downloads pk)" and dp: "dp = m_downloads pk ! i"
    and b: "b < blocks_in_piece pk (dp_index dp)" and g: "\<And>dp. dp_index (g dp) = dp_index dp" "\<And>dp. dp_info (g dp) = dp_info dp"
    and ok: "dl_ok ((blocks_of pk dp)[b := f (blocks_of pk dp ! b)]) (g dp)"
  shows "arrived (g dp) = arrived dp \<Longrightarrow> picker_inv (modify i b f g pk)"
    and "picker_inv (sort_piece i (modify i b f g pk))"
    and "progress (modify i b f g pk) = (progress pk)(dp_index dp \<mapsto> (blocks_of pk dp)[b := f (blocks_of pk dp ! b)])"
    and "progress (sort_piece i (modify i b f g pk)) = (progress pk)(dp_index dp \<mapsto> (blocks_of pk dp)[b := f (blocks_of pk dp ! b)])"
proof -
  have u: "inv_unsorted i pk" using inv i by (simp add: inv_split inv_rest_unsorted)
  note m = modify_inv [where f = f and g = g, OF u i dp b g ok]
  show "picker_inv (modify i b f g pk)" if "arrived (g dp) = arrived dp"
    using unsorted_same_arrived [OF _ i m(1)] that inv dp by (simp add: inv_split)
  have il: "i < length (m_downloads (modify i b f g pk))" using i by simp
  note s = sort_piece_inv [OF m(1) il]
  show "picker_inv (sort_piece i (modify i b f g pk))" using s inv by (simp add: inv_split)
  show "progress (modify i b f g pk) = (progress pk)(dp_index dp \<mapsto> (blocks_of pk dp)[b := f (blocks_of pk dp ! b)])" by (rule m(2))
  then show "progress (sort_piece i (modify i b f g pk)) = (progress pk)(dp_index dp \<mapsto> (blocks_of pk dp)[b := f (blocks_of pk dp ! b)])"
    using s(2) by simp
qed

section \<open>Starting and stopping a download\<close>

lemma start_download_inv:
  assumes inv: "picker_inv pk" and x: "x < num_pieces pk" and p: "\<not> downloading (m_piece_map pk ! x)" "\<not> have_pos (m_piece_map pk ! x)"
  obtains dp where "picker_inv (start_download r x pk)"
    "m_downloads (start_download r x pk) = m_downloads pk @ [dp]" "dp_index dp = x" "dp_state dp = none"
    "requested dp = 0" "writing dp = 0" "finished dp = 0"
    "blocks_in_piece (start_download r x pk) = blocks_in_piece pk"
    "blocks_of (start_download r x pk) dp = replicate (blocks_in_piece pk x) new_block"
    "progress (start_download r x pk) = (progress pk)(x \<mapsto> replicate (blocks_in_piece pk x) new_block)"
    "num_pieces (start_download r x pk) = num_pieces pk" "same_pieces pk (start_download r x pk)"
proof -
  let ?f = "\<lambda>p. p\<lparr>downloading := True\<rparr>"
  let ?q = "?f (m_piece_map pk ! x)"
  define pk1 where "pk1 = set_pos x ?f pk"
  define pk2 where "pk2 = (if prio_of pk x \<ge> 0 \<and> \<not> m_dirty pk1
    then update r (nat (prio_of pk x)) (pp_index (m_piece_map pk1 ! x)) pk1 else pk1)"
  have xl: "x < length (m_piece_map pk)" using x by (simp add: num_pieces_def)
  have ed: "edited x ?q pk pk1" unfolding pk1_def by (rule edited_set_pos)
  from inv have core: "table_core pk" and desc: "descending (m_downloads pk)" and mk: "marks_ok pk"
    and cnt: "counts_ok pk" and mp: "map_ok pk" by (auto simp: picker_inv_def)
  have ok: "pos_ok ?q" "piece_priority ?q < 8" using inv_piece [OF inv x] by (auto simp: pos_ok_def)
  have fl: "have_pos ?q = have_pos (m_piece_map pk ! x)" "filtered ?q = filtered (m_piece_map pk ! x)"
    by (simp_all add: have_pos_def filtered_def)
  have b2: "(\<not> m_dirty pk \<longrightarrow> buckets_ok pk2) \<and> moves_only pk1 pk2"
  proof (cases "m_dirty pk")
    case True
    then show ?thesis by (simp add: pk2_def pk1_def)
  next
    case False
    with inv have b: "buckets_ok pk" by (simp add: inv_split)
    show ?thesis
    proof (cases "prio_of pk x \<ge> 0")
      case True
      then have k: "prio_of pk x = int (nat (prio_of pk x))" by simp
      from bucket.refile_update [OF b ed x k _ ok(2)] True False show ?thesis
        by (simp add: pk2_def pk1_def)
    next
      case neg: False
      with inv_piece(2) [OF inv x] have "prio_of pk x = -1" using priority_ge [of "m_piece_map pk ! x" "m_seeds pk"] by simp
      then have "prio_of pk1 x = -1"
        using fl xl inv_piece(2) [OF inv x] by (auto simp: pk1_def priority_def Let_def split: if_splits)
      with bucket.stays_out [OF b ed x] neg \<open>prio_of pk x = -1\<close> show ?thesis by (simp add: pk2_def)
    qed
  qed
  note mv = b2 [THEN conjunct2]
  have bip1: "blocks_in_piece pk1 = blocks_in_piece pk" by (simp add: fun_eq_iff blocks_in_piece_def pk1_def set_pos_def)
  have pk1f: "m_downloads pk1 = m_downloads pk" "num_pieces pk1 = num_pieces pk" "m_dirty pk1 = m_dirty pk"
    by (simp_all add: pk1_def)
  have bo1: "blocks_of pk1 = blocks_of pk" by (simp add: fun_eq_iff blocks_of_def bip1) (simp add: pk1_def)
  have core1: "table_core pk1" using core bo1 by (simp add: table_core_def sizes_ok_def pk1_def set_pos_def num_pieces_def)
  have pr1: "progress pk1 = progress pk" by (simp add: progress_def bo1 pk1f)
  have l: "length ((m_piece_map pk)[x := ?q]) = length (m_piece_map pk)" by simp
  have w: "wanted ((m_piece_map pk)[x := ?q] ! y) = wanted (m_piece_map pk ! y)"
    "have_pos ((m_piece_map pk)[x := ?q] ! y) = have_pos (m_piece_map pk ! y)"
    "filtered ((m_piece_map pk)[x := ?q] ! y) = filtered (m_piece_map pk ! y)" for y
    using fl xl by (cases "y = x"; simp add: wanted_def)+
  have cnt1: "counts_ok pk1"
    using cnt cursors_cong [OF l w(1)] w filter_length_cong [OF l, of have_pos]
      filter_length_cong [OF l, of "\<lambda>p. filtered p \<and> \<not> have_pos p"]
      filter_length_cong [OF l, of "\<lambda>p. filtered p \<and> have_pos p"]
    by (simp add: counts_ok_def pk1_def set_pos_def)
  have map1: "map_ok pk1" using mp ok(1) by (auto simp: map_ok_def pk1_def dest!: subsetD [OF set_update_subset_insert])
  note mv2 = moves_num_pieces [OF mv] moves_blocks [OF mv]
  have dl2: "m_downloads pk2 = m_downloads pk" "m_dirty pk2 = m_dirty pk" using mv pk1f by (auto simp: moves_only_def)
  have core2: "table_core pk2" using moves_table [OF mv] core1 by simp
  have x2: "x < num_pieces pk2" "x \<notin> dp_index ` set (m_downloads pk2)"
    using x mv2 pk1f mk p dl2 by (auto simp: marks_ok_def)
  have desc2: "descending (m_downloads pk2)" using desc dl2 by simp
  obtain bi dp where a: "add_download_piece x pk2 = pk2\<lparr>m_block_info := bi, m_downloads := m_downloads pk2 @ [dp]\<rparr>"
    and f: "dp_state dp = none" "dp_index dp = x" "requested dp = 0" "writing dp = 0" "finished dp = 0"
    and core3: "table_core (add_download_piece x pk2)" and desc3: "descending (m_downloads pk2 @ [dp])"
    and bl: "blocks_of (add_download_piece x pk2) dp = replicate (blocks_in_piece pk2 x) new_block"
    and pr: "progress (add_download_piece x pk2) = (progress pk2)(x \<mapsto> replicate (blocks_in_piece pk2 x) new_block)"
    by (rule table_add [OF core2 x2 desc2])
  let ?pk = "add_download_piece x pk2"
  have eq: "start_download r x pk = ?pk" by (simp add: start_download_def Let_def pk2_def pk1_def)
  have mark: "downloading (m_piece_map pk2 ! y) = (y = x \<or> downloading (m_piece_map pk ! y))
      \<and> have_pos (m_piece_map pk2 ! y) = have_pos (m_piece_map pk ! y)" if "y < num_pieces pk" for y
    using norm_pos_eqD(2,4) [OF moves_nth [OF mv, of y]] that w(2) xl pk1f by (cases "y = x") (auto simp: pk1_def fl)
  have "marks_ok ?pk"
    unfolding marks_ok_def a using mark mk p f(2) dl2(1) mv2(1) pk1f(2) by (auto simp: marks_ok_def)
  moreover have "counts_ok ?pk" "map_ok ?pk"
    using moves_counts [OF mv] cnt1 moves_map_ok [OF mv map1] by (simp_all add: a counts_ok_def map_ok_def)
  ultimately have "picker_inv ?pk"
    using core3 desc3 b2 dl2 by (intro picker_invI) (simp_all add: a)
  moreover have "same_pieces pk ?pk"
    using mark mv2 pk1f(2) bip1 by (simp add: same_pieces_def a)
  ultimately show ?thesis using that [of dp] f bl pr unfolding eq by (simp add: a dl2 mv2 bip1 pr1 pk1f)
qed


section \<open>Requesting, writing and finishing a block\<close>

text \<open>The blocks of a piece that is not being downloaded yet count as new.\<close>

definition piece_blocks :: "piece_picker \<Rightarrow> nat \<Rightarrow> block_info list" where
  "piece_blocks pk x = (case progress pk x of None \<Rightarrow> replicate (blocks_in_piece pk x) new_block | Some bl \<Rightarrow> bl)"

lemma update_twice:
  assumes "picker_inv pk" "i < length (m_downloads pk)" "b < blocks_in_piece pk (dp_index (m_downloads pk ! i))"
  shows "upd_download i g (upd_block i b f pk) = modify i b f g pk"
proof -
  have u: "inv_unsorted i pk" using assms by (simp add: inv_split inv_rest_unsorted)
  note e = entry_block [OF u assms(2) refl assms(3)]
  from e(1) assms(2) show ?thesis
    by (simp add: upd_block_modify upd_download_modify [where b = b] modify_modify)
qed

text \<open>The entry of a piece that is being downloaded.\<close>

lemma entry_of_piece:
  assumes inv: "picker_inv pk" and x: "x < num_pieces pk" "downloading (m_piece_map pk ! x)" and b: "b < blocks_in_piece pk x"
  obtains i dp where "find_download pk x = Some i" "i < length (m_downloads pk)" "dp = m_downloads pk ! i" "dp_index dp = x"
    "block_of pk dp b = piece_blocks pk x ! b" "dl_ok (piece_blocks pk x) dp" "blocks_of pk dp = piece_blocks pk x"
    "length (piece_blocks pk x) = blocks_in_piece pk x" "dp_info dp + b < length (m_block_info pk)"
    "length (piece_blocks pk x) < 2 ^ 15"
proof -
  from inv have "marks_ok pk" and sz: "sizes_ok pk" by (auto simp: picker_inv_def table_core_def)
  then obtain i where i: "find_download pk x = Some i" "i < length (m_downloads pk)" "dp_index (m_downloads pk ! i) = x"
    using find_download_Some x by blast
  have u: "inv_unsorted i pk" using inv i by (simp add: inv_split inv_rest_unsorted)
  have b': "b < blocks_in_piece pk (dp_index (m_downloads pk ! i))" using b i by simp
  note e = entry_block [OF u i(2) refl b']
  have pb: "piece_blocks pk x = blocks_of pk (m_downloads pk ! i)" using e(5) i(3) by (simp add: piece_blocks_def)
  have "blocks_in_piece pk x < 2 ^ 15" using blocks_in_piece_le [OF sz x(1)] sz by (simp add: sizes_ok_def)
  then show ?thesis by (intro that [OF i(1,2) refl i(3)]) (use e i(3) in \<open>simp_all add: pb\<close>)
qed

text \<open>A block of a piece that is not being downloaded is the first of its download.\<close>

lemma first_block:
  assumes inv: "picker_inv pk" and x: "x < num_pieces pk" "\<not> downloading (m_piece_map pk ! x)" "\<not> have_pos (m_piece_map pk ! x)"
    and b: "b < blocks_in_piece pk x" and g: "\<And>dp. dp_index (g dp) = dp_index dp" "\<And>dp. dp_info (g dp) = dp_info dp"
    and v: "block_ok (f new_block)"
    and cnt: "\<And>dp. requested dp = 0 \<Longrightarrow> requested (g dp) = (if block_state (f new_block) = state_requested then 1 else 0)"
      "\<And>dp. writing dp = 0 \<Longrightarrow> writing (g dp) = (if block_state (f new_block) = state_writing then 1 else 0)"
      "\<And>dp. finished dp = 0 \<Longrightarrow> finished (g dp) = (if block_state (f new_block) = state_finished then 1 else 0)"
      "\<And>dp. dp_state dp = none \<Longrightarrow> (block_state (f new_block) = state_requested) = (dp_state (g dp) \<noteq> none)"
    and pk': "pk' = start_download r x pk" "i = length (m_downloads pk') - 1"
  shows "picker_inv (sort_piece i (upd_download i g (upd_block i b f pk')))"
    and "(\<And>dp. arrived (g dp) = arrived dp) \<Longrightarrow> picker_inv (upd_download i g (upd_block i b f pk'))"
    and "progress (sort_piece i (upd_download i g (upd_block i b f pk'))) = (progress pk)(x \<mapsto> (piece_blocks pk x)[b := f (piece_blocks pk x ! b)])"
    and "progress (upd_download i g (upd_block i b f pk')) = (progress pk)(x \<mapsto> (piece_blocks pk x)[b := f (piece_blocks pk x ! b)])"
    and "i < length (m_downloads pk')" "m_downloads pk' ! i = last (m_downloads pk')" "block_of pk' (m_downloads pk' ! i) b = new_block"
proof -
  obtain dp where inv': "picker_inv pk'" and dls: "m_downloads pk' = m_downloads pk @ [dp]"
    and f: "dp_index dp = x" "dp_state dp = none" "requested dp = 0" "writing dp = 0" "finished dp = 0"
    and bip: "blocks_in_piece pk' = blocks_in_piece pk"
    and bl: "blocks_of pk' dp = replicate (blocks_in_piece pk x) new_block"
    and pr: "progress pk' = (progress pk)(x \<mapsto> replicate (blocks_in_piece pk x) new_block)"
    unfolding pk' by (rule start_download_inv [OF inv x]) blast
  show i: "i < length (m_downloads pk')" and idp: "m_downloads pk' ! i = last (m_downloads pk')" using dls pk' by auto
  have dp: "dp = m_downloads pk' ! i" using dls idp by simp
  have b': "b < blocks_in_piece pk' (dp_index dp)" using b f bip by simp
  have u: "inv_unsorted i pk'" using inv' i by (simp add: inv_split inv_rest_unsorted)
  note e = entry_block [OF u i dp b']
  show "block_of pk' (m_downloads pk' ! i) b = new_block" using e(2) bl b f bip dp by simp
  have "x \<notin> dp_index ` set (m_downloads pk)" using inv x by (auto simp: picker_inv_def marks_ok_def)
  then have pb: "piece_blocks pk x = replicate (blocks_in_piece pk x) new_block"
    by (simp add: piece_blocks_def progress_None [THEN iffD2])
  have at: "blocks_of pk' dp ! b = new_block" using bl b by simp
  have ok: "dl_ok ((blocks_of pk' dp)[b := f (blocks_of pk' dp ! b)]) (g dp)"
    by (rule dl_ok_update [OF e(3)]) (use b bl v cnt f in \<open>auto simp: new_block_def\<close>)
  note m = modify_picker_inv [where f = f and g = g, OF inv' i dp b' g ok]
  have up: "upd_download i g (upd_block i b f pk') = modify i b f g pk'"
    by (rule update_twice [OF inv' i]) (use b' dp in simp)
  show "picker_inv (sort_piece i (upd_download i g (upd_block i b f pk')))" unfolding up by (rule m(2))
  show "(\<And>dp. arrived (g dp) = arrived dp) \<Longrightarrow> picker_inv (upd_download i g (upd_block i b f pk'))"
    unfolding up by (rule m(1))
  have "(progress pk')(dp_index dp \<mapsto> (blocks_of pk' dp)[b := f (blocks_of pk' dp ! b)])
      = (progress pk)(x \<mapsto> (piece_blocks pk x)[b := f (piece_blocks pk x ! b)])"
    using pr f bl pb b by simp
  with m(3,4) show "progress (sort_piece i (upd_download i g (upd_block i b f pk'))) = (progress pk)(x \<mapsto> (piece_blocks pk x)[b := f (piece_blocks pk x ! b)])"
    "progress (upd_download i g (upd_block i b f pk')) = (progress pk)(x \<mapsto> (piece_blocks pk x)[b := f (piece_blocks pk x ! b)])"
    unfolding up by simp_all
qed


definition request_block :: "ptr \<Rightarrow> block_info \<Rightarrow> block_info" where
  "request_block pr info = info\<lparr>peer := pr, block_state := state_requested, num_peers := (num_peers info + 1) mod 2 ^ 14\<rparr>"

lemma mark_as_downloading_spec:
  assumes inv: "picker_inv pk" and x: "piece_index blk < num_pieces pk" "block_index blk < blocks_in_piece pk (piece_index blk)"
    and nh: "\<not> have_pos (m_piece_map pk ! piece_index blk)" and st: "state \<noteq> none"
    and np: "num_peers (piece_blocks pk (piece_index blk) ! block_index blk) + 1 < 2 ^ 14"
  shows "picker_inv (snd (mark_as_downloading r blk pr state pk))"
    and "let bl = piece_blocks pk (piece_index blk); b = block_index blk;
          taken = block_state (bl ! b) = state_writing \<or> block_state (bl ! b) = state_finished
         in fst (mark_as_downloading r blk pr state pk) = (\<not> taken)
          \<and> progress (snd (mark_as_downloading r blk pr state pk)) =
              (if taken then progress pk else (progress pk)(piece_index blk \<mapsto> bl[b := request_block pr (bl ! b)]))"
proof -
  let ?x = "piece_index blk" and ?b = "block_index blk"
  have "picker_inv (snd (mark_as_downloading r blk pr state pk))
    \<and> (let bl = piece_blocks pk ?x; taken = block_state (bl ! ?b) = state_writing \<or> block_state (bl ! ?b) = state_finished
         in fst (mark_as_downloading r blk pr state pk) = (\<not> taken)
          \<and> progress (snd (mark_as_downloading r blk pr state pk)) =
              (if taken then progress pk else (progress pk)(?x \<mapsto> bl[?b := request_block pr (bl ! ?b)])))"
  proof (cases "downloading (m_piece_map pk ! ?x)")
    case False
    have "?x \<notin> dp_index ` set (m_downloads pk)" using inv x False by (auto simp: picker_inv_def marks_ok_def)
    then have pb: "piece_blocks pk ?x = replicate (blocks_in_piece pk ?x) new_block"
      by (simp add: piece_blocks_def progress_None [THEN iffD2])
    note fb = first_block [where f = "\<lambda>info. info\<lparr>block_state := state_requested, peer := pr, num_peers := 1\<rparr>"
        and g = "\<lambda>dp. dp\<lparr>dp_state := state, requested := int16 (requested dp + 1)\<rparr>", OF inv x(1) False nh x(2)]
    show ?thesis using fb(2,4) [OF _ _ _ _ _ _ _ refl refl] st False x(2) pb
      by (simp add: mark_as_downloading_def Let_def block_ok_def arrived_def new_block_def request_block_def)
  next
    case True
    obtain i dp where e: "find_download pk ?x = Some i" "i < length (m_downloads pk)" "dp = m_downloads pk ! i" "dp_index dp = ?x"
      "block_of pk dp ?b = piece_blocks pk ?x ! ?b" "dl_ok (piece_blocks pk ?x) dp" "blocks_of pk dp = piece_blocks pk ?x"
      "length (piece_blocks pk ?x) = blocks_in_piece pk ?x" "length (piece_blocks pk ?x) < 2 ^ 15"
      by (rule entry_of_piece [OF inv x(1) True x(2)])
    define info where "info = piece_blocks pk ?x ! ?b"
    show ?thesis
    proof (cases "block_state info = state_writing \<or> block_state info = state_finished")
      case True
      with inv e \<open>downloading _\<close> show ?thesis by (auto simp: mark_as_downloading_def info_def)
    next
      case False
      let ?g = "\<lambda>dp. dp\<lparr>requested := (if block_state info \<noteq> state_requested then int16 (requested dp + 1) else requested dp),
                          dp_state := (if dp_state dp = none then state else dp_state dp)\<rparr>"
      have b: "?b < blocks_in_piece pk (dp_index dp)" using e x by simp
      have bi: "?b < length (piece_blocks pk ?x)" using e x by simp
      note pos = dl_ok_count_pos [OF e(6) bi] dl_ok_int16 [OF e(6) bi e(9)]
      have ok: "dl_ok ((blocks_of pk dp)[?b := request_block pr (blocks_of pk dp ! ?b)]) (?g dp)"
        unfolding e(7)
        by (rule dl_ok_update [OF e(6) bi])
           (use False np st pos e(6) in \<open>auto simp: info_def request_block_def block_ok_def dl_ok_def\<close>)
      note m = modify_picker_inv [where f = "request_block pr" and g = ?g, OF inv e(2,3) b _ _ ok]
      have up: "upd_download i ?g (upd_block i ?b (request_block pr) pk) = modify i ?b (request_block pr) ?g pk"
        by (rule update_twice [OF inv e(2)]) (use e b in simp)
      have eq: "mark_as_downloading r blk pr state pk = (True, modify i ?b (request_block pr) ?g pk)"
        using False \<open>downloading _\<close> e unfolding up [symmetric]
        by (simp add: mark_as_downloading_def Let_def info_def request_block_def [abs_def])
      show ?thesis using m(1,3) False e unfolding eq by (simp add: info_def arrived_def Let_def)
    qed
  qed
  then show "picker_inv (snd (mark_as_downloading r blk pr state pk))"
    "let bl = piece_blocks pk (piece_index blk); b = block_index blk;
          taken = block_state (bl ! b) = state_writing \<or> block_state (bl ! b) = state_finished
         in fst (mark_as_downloading r blk pr state pk) = (\<not> taken)
          \<and> progress (snd (mark_as_downloading r blk pr state pk)) =
              (if taken then progress pk else (progress pk)(piece_index blk \<mapsto> bl[b := request_block pr (bl ! b)]))"
    unfolding Let_def by blast+
qed


definition write_block :: "ptr \<Rightarrow> block_info \<Rightarrow> block_info" where
  "write_block pr info = info\<lparr>peer := pr, block_state := state_writing, num_peers := 0\<rparr>"

lemma mark_as_writing_spec:
  assumes inv: "picker_inv pk" and x: "piece_index blk < num_pieces pk" "block_index blk < blocks_in_piece pk (piece_index blk)"
  shows "picker_inv (snd (mark_as_writing r blk pr pk))
    \<and> (let bl = piece_blocks pk (piece_index blk); b = block_index blk;
           old = block_state (bl ! b) = state_writing \<or> block_state (bl ! b) = state_finished
       in if have_pos (m_piece_map pk ! piece_index blk) then mark_as_writing r blk pr pk = (False, pk)
          else fst (mark_as_writing r blk pr pk) = (\<not> old)
           \<and> progress (snd (mark_as_writing r blk pr pk)) =
               (progress pk)(piece_index blk \<mapsto> bl[b := if old then (bl ! b)\<lparr>peer := pr\<rparr> else write_block pr (bl ! b)]))"
proof -
  let ?x = "piece_index blk" and ?b = "block_index blk"
  consider (owned) "have_pos (m_piece_map pk ! ?x)"
    | (start) "\<not> have_pos (m_piece_map pk ! ?x)" "\<not> downloading (m_piece_map pk ! ?x)"
    | (more) "\<not> have_pos (m_piece_map pk ! ?x)" "downloading (m_piece_map pk ! ?x)" by blast
  then show ?thesis
  proof cases
    case owned
    with inv x have "\<not> downloading (m_piece_map pk ! ?x)" by (auto simp: picker_inv_def marks_ok_def)
    with owned inv show ?thesis by (simp add: mark_as_writing_def have_piece_def)
  next
    case start
    have "?x \<notin> dp_index ` set (m_downloads pk)" using inv x start by (auto simp: picker_inv_def marks_ok_def)
    then have pb: "piece_blocks pk ?x = replicate (blocks_in_piece pk ?x) new_block"
      by (simp add: piece_blocks_def progress_None [THEN iffD2])
    note fb = first_block [where f = "\<lambda>info. info\<lparr>block_state := state_writing, peer := pr, num_peers := 0\<rparr>"
        and g = "\<lambda>dp. dp\<lparr>dp_state := none, writing := 1\<rparr>", OF inv x(1) start(2,1) x(2)]
    show ?thesis using fb(1,3) [OF _ _ _ _ _ _ _ refl refl] start x(2) pb
      by (simp add: mark_as_writing_def have_piece_def Let_def block_ok_def new_block_def write_block_def)
  next
    case more
    obtain i dp where e: "find_download pk ?x = Some i" "i < length (m_downloads pk)" "dp = m_downloads pk ! i" "dp_index dp = ?x"
      "block_of pk dp ?b = piece_blocks pk ?x ! ?b" "dl_ok (piece_blocks pk ?x) dp" "blocks_of pk dp = piece_blocks pk ?x"
      "length (piece_blocks pk ?x) = blocks_in_piece pk ?x" "dp_info dp + ?b < length (m_block_info pk)" "length (piece_blocks pk ?x) < 2 ^ 15"
      by (rule entry_of_piece [OF inv x(1) more(2) x(2)])
    define st where "st = block_state (piece_blocks pk ?x ! ?b)"
    have b: "?b < blocks_in_piece pk (dp_index dp)" and bi: "?b < length (piece_blocks pk ?x)" using e x by auto
    note pos = dl_ok_count_pos [OF e(6) bi] dl_ok_int16 [OF e(6) bi e(10)]
    note ups = upd_block_modify upd_download_modify [where b = ?b] modify_modify
    show ?thesis
    proof (cases "st = state_writing \<or> st = state_finished")
      case True
      have ok: "dl_ok ((blocks_of pk dp)[?b := (blocks_of pk dp ! ?b)\<lparr>peer := pr\<rparr>]) dp"
        unfolding e(7) by (rule dl_ok_update [OF e(6) bi]) (use pos e(6) in \<open>auto simp: block_ok_def dl_ok_def\<close>)
      note m = modify_picker_inv [where f = "\<lambda>info. info\<lparr>peer := pr\<rparr>" and g = "\<lambda>dp. dp", OF inv e(2,3) b refl refl ok]
      have "mark_as_writing r blk pr pk = (False, modify i ?b (\<lambda>info. info\<lparr>peer := pr\<rparr>) (\<lambda>dp. dp) pk)"
        using True more e by (auto simp: mark_as_writing_def Let_def st_def upd_block_modify)
      with m(1,3) True more e show ?thesis by (simp add: st_def Let_def)
    next
      case False
      let ?r = "\<lambda>dp. if st = state_requested then int16 (requested dp - 1) else requested dp"
      let ?g = "\<lambda>dp. dp\<lparr>requested := ?r dp, writing := int16 (writing dp + 1), dp_state := (if ?r dp = 0 then none else dp_state dp)\<rparr>"
      have ok: "dl_ok ((blocks_of pk dp)[?b := write_block pr (blocks_of pk dp ! ?b)]) (?g dp)"
        unfolding e(7) by (rule dl_ok_update [OF e(6) bi])
          (use False pos e(6) in \<open>auto simp: st_def write_block_def block_ok_def dl_ok_def\<close>)
      note m = modify_picker_inv [where f = "write_block pr" and g = ?g, OF inv e(2,3) b _ _ ok]
      have "mark_as_writing r blk pr pk = (True, sort_piece i (modify i ?b (write_block pr) ?g pk))"
        using False more e
        by (cases "st = state_requested")
           (simp_all add: mark_as_writing_def Let_def st_def ups write_block_def [abs_def] cong: if_cong)
      with m(2,4) False more e show ?thesis by (simp add: st_def Let_def)
    qed
  qed
qed

definition finish_block :: "ptr \<Rightarrow> block_info \<Rightarrow> block_info" where
  "finish_block pr info = info\<lparr>peer := pr, block_state := state_finished\<rparr>"

lemma mark_as_finished_spec:
  assumes inv: "picker_inv pk" and x: "piece_index blk < num_pieces pk" "block_index blk < blocks_in_piece pk (piece_index blk)"
    and st: "block_state (piece_blocks pk (piece_index blk) ! block_index blk) \<noteq> state_requested"
  shows "picker_inv (mark_as_finished r blk pr pk)
    \<and> (let bl = piece_blocks pk (piece_index blk); b = block_index blk
       in if have_pos (m_piece_map pk ! piece_index blk) \<or> block_state (bl ! b) = state_finished
          then mark_as_finished r blk pr pk = pk
          else progress (mark_as_finished r blk pr pk) = (progress pk)(piece_index blk \<mapsto> bl[b := finish_block pr (bl ! b)]))"
proof -
  let ?x = "piece_index blk" and ?b = "block_index blk"
  consider (owned) "have_pos (m_piece_map pk ! ?x)"
    | (start) "\<not> have_pos (m_piece_map pk ! ?x)" "\<not> downloading (m_piece_map pk ! ?x)"
    | (more) "\<not> have_pos (m_piece_map pk ! ?x)" "downloading (m_piece_map pk ! ?x)" by blast
  then show ?thesis
  proof cases
    case owned
    with inv x have "\<not> downloading (m_piece_map pk ! ?x)" by (auto simp: picker_inv_def marks_ok_def)
    with owned inv show ?thesis by (simp add: mark_as_finished_def have_piece_def)
  next
    case start
    have "?x \<notin> dp_index ` set (m_downloads pk)" using inv x start by (auto simp: picker_inv_def marks_ok_def)
    then have pb: "piece_blocks pk ?x = replicate (blocks_in_piece pk ?x) new_block"
      by (simp add: piece_blocks_def progress_None [THEN iffD2])
    let ?f = "\<lambda>info. info\<lparr>peer := pr, block_state := state_finished\<rparr>"
    note fb = first_block [where f = ?f and g = "\<lambda>dp. dp\<lparr>dp_state := none, finished := int16 (finished dp + 1)\<rparr>",
        OF inv x(1) start(2,1) x(2) _ _ _ _ _ _ _ refl refl, of r]
    define pk' where "pk' = start_download r ?x pk"
    define i where "i = length (m_downloads pk') - 1"
    have i: "i < length (m_downloads pk')" "block_state (block_of pk' (m_downloads pk' ! i) ?b) = state_none"
      using fb(5,7) by (simp_all add: block_ok_def new_block_def pk'_def i_def)
    have "mark_as_finished r blk pr pk =
        sort_piece i (upd_download i (\<lambda>dp. dp\<lparr>finished := int16 (finished dp + 1)\<rparr>) (upd_download i (\<lambda>dp. dp\<lparr>dp_state := none\<rparr>) (upd_block i ?b ?f pk')))"
      using start i(2) by (simp add: mark_as_finished_def have_piece_def Let_def pk'_def i_def)
    also have "\<dots> = sort_piece i (upd_download i (\<lambda>dp. dp\<lparr>dp_state := none, finished := int16 (finished dp + 1)\<rparr>) (upd_block i ?b ?f pk'))"
      using i(1) by (simp add: upd_download_def upd_block_def Let_def)
    finally show ?thesis using fb(1,3) start x(2) pb
      by (simp add: Let_def block_ok_def new_block_def finish_block_def pk'_def i_def)
  next
    case more
    obtain i dp where e: "find_download pk ?x = Some i" "i < length (m_downloads pk)" "dp = m_downloads pk ! i" "dp_index dp = ?x"
      "block_of pk dp ?b = piece_blocks pk ?x ! ?b" "dl_ok (piece_blocks pk ?x) dp" "blocks_of pk dp = piece_blocks pk ?x"
      "length (piece_blocks pk ?x) = blocks_in_piece pk ?x" "dp_info dp + ?b < length (m_block_info pk)" "length (piece_blocks pk ?x) < 2 ^ 15"
      by (rule entry_of_piece [OF inv x(1) more(2) x(2)])
    define s where "s = block_state (piece_blocks pk ?x ! ?b)"
    have b: "?b < blocks_in_piece pk (dp_index dp)" and bi: "?b < length (piece_blocks pk ?x)" using e x by auto
    note pos = dl_ok_count_pos [OF e(6) bi] dl_ok_int16 [OF e(6) bi e(10)]
    note ups = upd_block_modify upd_download_modify [where b = ?b] modify_modify
    let ?g = "\<lambda>dp. dp\<lparr>finished := int16 (finished dp + 1), writing := (if s = state_writing then int16 (writing dp - 1) else writing dp)\<rparr>"
    show ?thesis
    proof (cases "s = state_finished")
      case True
      with inv more e show ?thesis by (simp add: mark_as_finished_def s_def)
    next
      case False
      have ok: "dl_ok ((blocks_of pk dp)[?b := finish_block pr (blocks_of pk dp ! ?b)]) (?g dp)"
        unfolding e(7) by (rule dl_ok_update [OF e(6) bi])
          (use False pos e(6) st in \<open>auto simp: s_def finish_block_def block_ok_def dl_ok_def\<close>)
      note m = modify_picker_inv [where f = "finish_block pr" and g = ?g, OF inv e(2,3) b _ _ ok]
      have eq: "mark_as_finished r blk pr pk =
          (if s = state_writing then modify i ?b (finish_block pr) ?g pk else sort_piece i (modify i ?b (finish_block pr) ?g pk))"
        using False more e by (simp add: mark_as_finished_def Let_def s_def ups finish_block_def [abs_def])
      have "picker_inv (mark_as_finished r blk pr pk)"
        using m(1,2) pos(9,11) False unfolding eq by (cases "s = state_writing") (simp_all add: arrived_def s_def)
      moreover have "progress (mark_as_finished r blk pr pk) = (progress pk)(?x \<mapsto> (piece_blocks pk ?x)[?b := finish_block pr (piece_blocks pk ?x ! ?b)])"
        using m(3,4) e(4,7) unfolding eq by (cases "s = state_writing") simp_all
      ultimately show ?thesis using False more by (simp add: s_def Let_def)
    qed
  qed
qed


section \<open>Giving a block up\<close>

lemma erase_refile:
  assumes u: "inv_unsorted i pk" and i: "i < length (m_downloads pk)" and x: "x = dp_index (m_downloads pk ! i)"
    and bk: "\<not> m_dirty pk \<Longrightarrow> buckets_ok pk" and pk1: "pk1 = erase_download_piece i pk"
    and pk2: "m_dirty pk1 \<Longrightarrow> pk2 = pk1"
      "\<not> m_dirty pk1 \<Longrightarrow> pk2 = (if prio_of pk x = prio_of pk1 x then pk1 else if prio_of pk x = -1 then add r x pk1
          else update r (nat (prio_of pk x)) (pp_index (m_piece_map pk1 ! x)) pk1)
        \<or> prio_of pk x \<ge> 0 \<and> pk2 = update r (nat (prio_of pk x)) (pp_index (m_piece_map pk1 ! x)) pk1"
  shows "picker_inv pk2 \<and> progress pk2 = (progress pk)(x := None) \<and> same_pieces pk pk2"
proof -
  note e = erase_inv_rest [OF u i x, folded pk1]
  have xn: "x < num_pieces pk" using u i by (auto simp: inv_unsorted_def table_core_def x)
  have pp: "piece_priority (m_piece_map pk ! x) < 8"
    using u xn by (auto simp: inv_unsorted_def map_ok_def pos_ok_def num_pieces_def)
  have mv: "buckets_ok pk2 \<and> moves_only pk1 pk2" if d: "\<not> m_dirty pk1"
  proof -
    have b: "buckets_ok pk" using bk d e(3) by simp
    have r1: "buckets_ok pk3 \<and> moves_only pk1 pk3" if "pk3 = (if prio_of pk x = prio_of pk1 x then pk1
        else if prio_of pk x = -1 then add r x pk1 else update r (nat (prio_of pk x)) (pp_index (m_piece_map pk1 ! x)) pk1)" for pk3
      using bucket.refile [OF b e(2) xn _ pp, of r] pp that by (simp add: Let_def split del: if_split)
    have r2: "buckets_ok pk3 \<and> moves_only pk1 pk3" if "prio_of pk x \<ge> 0"
      "pk3 = update r (nat (prio_of pk x)) (pp_index (m_piece_map pk1 ! x)) pk1" for pk3
      using bucket.refile_update [OF b e(2) xn, of "nat (prio_of pk x)" r] that pp by simp
    from pk2(2) [OF d] r1 r2 show ?thesis by blast
  qed
  have "picker_inv pk2" by (rule inv_refiled [OF e(1)]) (use pk2(1) mv in auto)
  moreover have "progress pk2 = progress pk1" using pk2(1) mv moves_blocks(3) by (cases "m_dirty pk1") auto
  moreover have "same_pieces pk pk2"
  proof -
    have "have_pos ((m_piece_map pk)[x := (m_piece_map pk ! x)\<lparr>downloading := False\<rparr>] ! y) = have_pos (m_piece_map pk ! y)" for y
      by (cases "y = x"; cases "y < length (m_piece_map pk)") (simp_all add: have_pos_def list_update_beyond)
    then have "same_pieces pk pk1" using e(2,5) by (simp add: same_pieces_def edited_def num_pieces_def)
    moreover have "same_pieces pk1 pk2" using pk2(1) mv same_pieces_moves by (cases "m_dirty pk1") auto
    ultimately show ?thesis by (rule same_pieces_trans)
  qed
  ultimately show ?thesis using e(4) by simp
qed

lemma stop_download_inv:
  assumes "inv_unsorted i pk" "i < length (m_downloads pk)" "x = dp_index (m_downloads pk ! i)" "\<not> m_dirty pk \<Longrightarrow> buckets_ok pk"
  shows "picker_inv (stop_download r i x pk) \<and> progress (stop_download r i x pk) = (progress pk)(x := None) \<and>
    same_pieces pk (stop_download r i x pk)"
  by (rule erase_refile [where r = r, OF assms refl]) (simp_all add: stop_download_def Let_def eq_commute split del: if_split cong: if_cong)

lemma abort_stop_inv:
  assumes u: "inv_unsorted i pk" and i: "i < length (m_downloads pk)" and x: "x = dp_index (m_downloads pk ! i)"
    and bk: "\<not> m_dirty pk \<Longrightarrow> buckets_ok pk"
  shows "picker_inv (abort_stop r i x pk) \<and> progress (abort_stop r i x pk) = (progress pk)(x := None) \<and>
    same_pieces pk (abort_stop r i x pk)"
proof -
  have xn: "x < num_pieces pk" using u i by (auto simp: inv_unsorted_def table_core_def x)
  then have pp: "piece_priority (m_piece_map pk ! x) < 8"
    using u by (auto simp: inv_unsorted_def map_ok_def pos_ok_def num_pieces_def)
  have "m_piece_map (erase_download_piece i pk) ! x = (m_piece_map pk ! x)\<lparr>downloading := False\<rparr>"
    using erase_inv_rest(2) [OF u i x] xn by (simp add: edited_def num_pieces_def)
  with pp have ge: "prio_of pk x \<ge> -1" "prio_of (erase_download_piece i pk) x \<ge> -1"
    by (auto intro!: priority_ge)
  show ?thesis
    by (rule erase_refile [where r = r, OF u i x bk refl]) (use ge in \<open>auto simp: abort_stop_def Let_def\<close>)
qed

lemma restore_piece_spec:
  assumes inv: "picker_inv pk" and x: "x < num_pieces pk" "downloading (m_piece_map pk ! x)"
  shows "picker_inv (restore_piece r x pk) \<and> progress (restore_piece r x pk) = (progress pk)(x := None) \<and>
    same_pieces pk (restore_piece r x pk)"
proof -
  from inv have "marks_ok pk" by (simp add: picker_inv_def)
  then obtain i where i: "find_download pk x = Some i" "i < length (m_downloads pk)" "dp_index (m_downloads pk ! i) = x"
    using find_download_Some x by blast
  have u: "inv_unsorted i pk" "\<not> m_dirty pk \<Longrightarrow> buckets_ok pk" using inv i by (auto simp: inv_split inv_rest_unsorted)
  show ?thesis
    by (rule erase_refile [where r = r, OF u(1) i(2) i(3) [symmetric] u(2) refl])
       (simp_all add: restore_piece_def i(1) Let_def eq_commute split del: if_split cong: if_cong)
qed

definition drop_block :: "block_info \<Rightarrow> block_info" where
  "drop_block info = info\<lparr>peer := None, block_state := state_none\<rparr>"

text \<open>An entry whose counters are all 0 has no block that was requested or arrived.\<close>

definition idle :: "block_info list \<Rightarrow> bool" where
  "idle bl \<longleftrightarrow> (\<forall>b \<in> set bl. block_state b = state_none)"

lemma idle_counters:
  assumes "dl_ok bl dp" shows "finished dp + writing dp + requested dp = 0 \<longleftrightarrow> idle bl"
proof -
  have "count_st state_finished bl + count_st state_writing bl + count_st state_requested bl = 0 \<longleftrightarrow>
      count_st state_finished bl = 0 \<and> count_st state_writing bl = 0 \<and> count_st state_requested bl = 0"
  proof -
    have nn: "count_st st bl \<ge> 0" for st by (simp add: count_st_def)
    show ?thesis using nn [of state_finished] nn [of state_writing] nn [of state_requested] by presburger
  qed
  moreover have "count_st st bl = 0 \<longleftrightarrow> (\<forall>b \<in> set bl. block_state b \<noteq> st)" for st
    by (auto simp: count_st_def filter_empty_conv)
  moreover have "block_state b = state_none \<longleftrightarrow> block_state b \<noteq> state_finished \<and> block_state b \<noteq> state_writing
      \<and> block_state b \<noteq> state_requested" for b by (cases "block_state b") auto
  ultimately show ?thesis using assms unfolding dl_ok_def idle_def by auto
qed

lemma write_failed_spec:
  assumes inv: "picker_inv pk" and x: "piece_index blk < num_pieces pk" "block_index blk < blocks_in_piece pk (piece_index blk)"
    and st: "block_state (piece_blocks pk (piece_index blk) ! block_index blk) = state_writing"
  shows "picker_inv (write_failed r blk pk)
    \<and> (let bl = (piece_blocks pk (piece_index blk))[block_index blk := drop_block (piece_blocks pk (piece_index blk) ! block_index blk)]
       in progress (write_failed r blk pk) = (progress pk)(piece_index blk := if idle bl then None else Some bl))"
proof -
  let ?x = "piece_index blk" and ?b = "block_index blk"
  have dl: "downloading (m_piece_map pk ! ?x)"
  proof (rule ccontr)
    assume "\<not> ?thesis"
    then have "?x \<notin> dp_index ` set (m_downloads pk)" using inv x by (auto simp: picker_inv_def marks_ok_def)
    then have "piece_blocks pk ?x = replicate (blocks_in_piece pk ?x) new_block"
      by (simp add: piece_blocks_def progress_None [THEN iffD2])
    with st x show False by (simp add: new_block_def)
  qed
  obtain i dp where e: "find_download pk ?x = Some i" "i < length (m_downloads pk)" "dp = m_downloads pk ! i" "dp_index dp = ?x"
    "block_of pk dp ?b = piece_blocks pk ?x ! ?b" "dl_ok (piece_blocks pk ?x) dp" "blocks_of pk dp = piece_blocks pk ?x"
    "length (piece_blocks pk ?x) = blocks_in_piece pk ?x" "dp_info dp + ?b < length (m_block_info pk)" "length (piece_blocks pk ?x) < 2 ^ 15"
    by (rule entry_of_piece [OF inv x(1) dl x(2)])
  have b: "?b < blocks_in_piece pk (dp_index dp)" and bi: "?b < length (piece_blocks pk ?x)" using e x by auto
  note pos = dl_ok_count_pos [OF e(6) bi] dl_ok_int16 [OF e(6) bi e(10)]
  let ?g = "\<lambda>dp. dp\<lparr>writing := int16 (writing dp - 1)\<rparr>"
  let ?bl = "(piece_blocks pk ?x)[?b := drop_block (piece_blocks pk ?x ! ?b)]" and ?pk = "modify i ?b drop_block ?g pk"
  have ok: "dl_ok ?bl (?g dp)"
    by (rule dl_ok_update [OF e(6) bi]) (use pos e(6) st in \<open>auto simp: drop_block_def block_ok_def dl_ok_def\<close>)
  have u: "inv_unsorted i pk" using inv e by (simp add: inv_split inv_rest_unsorted)
  note m = modify_inv [where f = drop_block and g = ?g, OF u e(2,3) b, unfolded e(7), OF _ _ ok]
  have m1: "inv_unsorted i ?pk" and m2: "progress ?pk = (progress pk)(?x \<mapsto> ?bl)" using m e(4) by auto
  have il: "i < length (m_downloads ?pk)" using e by simp
  have eq: "write_failed r blk pk =
      (if idle ?bl then stop_download r i ?x ?pk else sort_piece i ?pk)"
    using e st idle_counters [OF ok]
    by (simp add: write_failed_def Let_def upd_block_modify upd_download_modify [where b = ?b] modify_modify drop_block_def [abs_def])
  show ?thesis
  proof (cases "idle ?bl")
    case True
    with stop_download_inv [OF m1 il, of ?x r] inv e m2 show ?thesis by (simp add: eq inv_split)
  next
    case False
    with sort_piece_inv [OF m1 il] inv m2 show ?thesis by (simp add: eq inv_split)
  qed
qed

lemma find_index_update:
  "P y = P (xs ! i) \<Longrightarrow> find_index P (xs[i := y]) = find_index P xs"
proof (induction xs arbitrary: i)
  case (Cons a xs)
  then show ?case by (cases i) auto
qed simp

lemma last_owner:
  assumes "store_ok bpp dls bi" "dls \<noteq> []"
  shows "find_index (\<lambda>dp. dp_info dp = (length dls - 1) * bpp) dls \<noteq> None"
proof -
  have "(length dls - 1) * bpp \<in> set (map (\<lambda>k. k * bpp) [0..<length dls])" using assms(2) by force
  with assms(1) have "(length dls - 1) * bpp \<in> set (map dp_info dls)" unfolding store_ok_def by (metis mset_eq_setD)
  then show ?thesis unfolding find_index_None by force
qed

lemma erase_ignores_state:
  assumes i: "i < length (m_downloads pk)"
    and st: "store_ok (m_blocks_per_piece pk) (m_downloads (upd_download i (\<lambda>dp. dp\<lparr>dp_state := s\<rparr>) pk)) bi"
  shows "erase_download_piece i (upd_download i (\<lambda>dp. dp\<lparr>dp_state := s\<rparr>) pk) = erase_download_piece i pk"
proof -
  let ?dls = "m_downloads pk" and ?d = "(m_downloads pk ! i)\<lparr>dp_state := s\<rparr>"
  have f: "find_index (\<lambda>dp. dp_info dp = (length ?dls - 1) * m_blocks_per_piece pk) (?dls[i := ?d])
      = find_index (\<lambda>dp. dp_info dp = (length ?dls - 1) * m_blocks_per_piece pk) ?dls"
    by (rule find_index_update) simp
  obtain j where j: "find_index (\<lambda>dp. dp_info dp = (length ?dls - 1) * m_blocks_per_piece pk) ?dls = Some j"
  proof -
    have "m_downloads (upd_download i (\<lambda>dp. dp\<lparr>dp_state := s\<rparr>) pk) \<noteq> []" using i by (auto simp: upd_download_def)
    from last_owner [OF st this] f that show ?thesis by (auto simp: upd_download_def)
  qed
  have sw: "take i (?dls[i := d, j := e]) = take i (?dls[j := e])" "drop (Suc i) (?dls[i := d, j := e]) = drop (Suc i) (?dls[j := e])"
    if "i \<noteq> j" for d e using that by (simp_all add: list_update_swap [of i j])
  from f i j sw show ?thesis
    by (cases "i = j") (simp_all add: erase_download_piece_def upd_download_def Let_def)
qed

definition abort_block :: "block_info \<Rightarrow> block_info" where
  "abort_block info =
     (if num_peers info > 1 then info\<lparr>num_peers := num_peers info - 1\<rparr>
      else info\<lparr>num_peers := num_peers info - 1, peer := None, block_state := state_none\<rparr>)"

lemma abort_download_spec:
  assumes inv: "picker_inv pk" and x: "piece_index blk < num_pieces pk" "block_index blk < blocks_in_piece pk (piece_index blk)"
  shows "picker_inv (abort_download r blk pk)
    \<and> (let bl = piece_blocks pk (piece_index blk); b = block_index blk; bl' = bl[b := abort_block (bl ! b)]
       in if block_state (bl ! b) \<noteq> state_requested then abort_download r blk pk = pk
          else progress (abort_download r blk pk) = (progress pk)(piece_index blk := if idle bl' then None else Some bl'))
    \<and> same_pieces pk (abort_download r blk pk)"
proof (cases "downloading (m_piece_map pk ! piece_index blk)")
  case False
  then have "piece_index blk \<notin> dp_index ` set (m_downloads pk)" using inv x by (auto simp: picker_inv_def marks_ok_def)
  then have "piece_blocks pk (piece_index blk) = replicate (blocks_in_piece pk (piece_index blk)) new_block"
    by (simp add: piece_blocks_def progress_None [THEN iffD2])
  with False inv x show ?thesis by (simp add: abort_download_def new_block_def)
next
  case dl: True
  let ?x = "piece_index blk" and ?b = "block_index blk"
  obtain i dp where e: "find_download pk ?x = Some i" "i < length (m_downloads pk)" "dp = m_downloads pk ! i" "dp_index dp = ?x"
    "block_of pk dp ?b = piece_blocks pk ?x ! ?b" "dl_ok (piece_blocks pk ?x) dp" "blocks_of pk dp = piece_blocks pk ?x"
    "length (piece_blocks pk ?x) = blocks_in_piece pk ?x" "dp_info dp + ?b < length (m_block_info pk)" "length (piece_blocks pk ?x) < 2 ^ 15"
    by (rule entry_of_piece [OF inv x(1) dl x(2)])
  define info where "info = piece_blocks pk ?x ! ?b"
  let ?bl = "(piece_blocks pk ?x)[?b := abort_block info]"
  have b: "?b < blocks_in_piece pk (dp_index dp)" and bi: "?b < length (piece_blocks pk ?x)" using e x by auto
  note pos = dl_ok_count_pos [OF e(6) bi, folded info_def]
  note wrap = dl_ok_int16 [OF e(6) bi e(10)]
  note ups = upd_block_modify upd_download_modify [where b = ?b] modify_modify
  have u: "inv_unsorted i pk" using inv e by (simp add: inv_split inv_rest_unsorted)
  show ?thesis
  proof (cases "block_state info = state_requested")
    case False
    with dl e inv show ?thesis by (simp add: abort_download_def info_def)
  next
    case req: True
    show ?thesis
    proof (cases "num_peers info > 1")
      case True
      have ok: "dl_ok ?bl dp"
        by (rule dl_ok_update [OF e(6) bi]) (use pos e(6) req True in \<open>auto simp: abort_block_def info_def block_ok_def dl_ok_def\<close>)
      have bl: "?bl = (piece_blocks pk ?x)[?b := info\<lparr>num_peers := num_peers info - 1\<rparr>]" using True by (simp add: abort_block_def)
      have ok': "dl_ok ((blocks_of pk dp)[?b := (blocks_of pk dp ! ?b)\<lparr>num_peers := num_peers (blocks_of pk dp ! ?b) - 1\<rparr>]) dp"
        using ok [unfolded bl] unfolding e(7) by (simp only: info_def)
      note m = modify_picker_inv [where f = "\<lambda>info. info\<lparr>num_peers := num_peers info - 1\<rparr>" and g = "\<lambda>dp. dp", OF inv e(2,3) b refl refl ok']
      have "info\<lparr>num_peers := num_peers info - 1\<rparr> \<in> set ?bl" unfolding bl by (rule set_update_memI [OF bi])
      then have "\<not> idle ?bl" using req by (force simp: idle_def)
      moreover have "abort_download r blk pk = modify i ?b (\<lambda>info. info\<lparr>num_peers := num_peers info - 1\<rparr>) (\<lambda>dp. dp) pk"
        using dl e req True by (simp add: abort_download_def Let_def info_def ups)
      moreover have "(blocks_of pk dp)[?b := (blocks_of pk dp ! ?b)\<lparr>num_peers := num_peers (blocks_of pk dp ! ?b) - 1\<rparr>] = ?bl"
        unfolding bl unfolding e(7) info_def by (rule refl)
      moreover have "same_pieces pk (modify i ?b (\<lambda>info. info\<lparr>num_peers := num_peers info - 1\<rparr>) (\<lambda>dp. dp) pk)" by simp
      ultimately show ?thesis using m(1,3) e(4) req unfolding Let_def info_def [symmetric] by simp
    next
      case False
      let ?f = "\<lambda>info. info\<lparr>num_peers := num_peers info - 1, peer := None, block_state := state_none\<rparr>"
      let ?g = "\<lambda>dp. dp\<lparr>requested := int16 (requested dp - 1)\<rparr>"
      let ?g' = "\<lambda>dp. dp\<lparr>requested := int16 (requested dp - 1), dp_state := (if requested dp = 1 then none else dp_state dp)\<rparr>"
      have bl: "?bl = (piece_blocks pk ?x)[?b := ?f info]" using False by (simp add: abort_block_def)
      have ok: "dl_ok ?bl (?g' dp)" unfolding bl
        by (rule dl_ok_update [OF e(6) bi]) (use pos wrap(4) e(6) req False in \<open>auto simp: info_def block_ok_def dl_ok_def\<close>)
      have m1: "inv_unsorted i (modify i ?b ?f ?g' pk)" and m2: "progress (modify i ?b ?f ?g' pk) = (progress pk)(?x \<mapsto> ?bl)"
      proof -
        have "(blocks_of pk dp)[?b := ?f (blocks_of pk dp ! ?b)] = ?bl" unfolding bl unfolding e(7) info_def by (rule refl)
        with modify_inv [where f = ?f and g = ?g', OF u e(2,3) b] ok e(4)
        show "inv_unsorted i (modify i ?b ?f ?g' pk)" "progress (modify i ?b ?f ?g' pk) = (progress pk)(?x \<mapsto> ?bl)" by simp_all
      qed
      have idle: "requested (?g dp) + finished (?g dp) + writing (?g dp) = 0 \<longleftrightarrow> idle ?bl"
        using idle_counters [OF ok] by (simp add: algebra_simps)
      define pk1 where "pk1 = upd_download i ?g (upd_block i ?b (\<lambda>info. info\<lparr>peer := None, block_state := state_none\<rparr>)
          (upd_block i ?b (\<lambda>info. info\<lparr>num_peers := num_peers info - 1\<rparr>) pk))"
      have e1: "pk1 = modify i ?b ?f ?g pk" using e by (simp add: ups pk1_def)
      have d1: "m_downloads pk1 ! i = ?g dp" using e by (simp add: e1)
      have ab: "abort_download r blk pk = (if idle ?bl then abort_stop r i ?x pk1
          else if requested dp = 1 then upd_download i (\<lambda>dp. dp\<lparr>dp_state := none\<rparr>) pk1 else pk1)"
      proof -
        have "abort_download r blk pk =
            (if requested (m_downloads pk1 ! i) + finished (m_downloads pk1 ! i) + writing (m_downloads pk1 ! i) = 0
             then abort_stop r i ?x pk1
             else if requested (m_downloads pk1 ! i) = 0 then upd_download i (\<lambda>dp. dp\<lparr>dp_state := none\<rparr>) pk1 else pk1)"
          using dl e(1,3,5) req False by (simp add: abort_download_def pk1_def info_def Let_def)
        with idle wrap(4) show ?thesis by (simp add: d1)
      qed
      have g': "modify i ?b ?f ?g' pk = (if requested dp = 1 then upd_download i (\<lambda>dp. dp\<lparr>dp_state := none\<rparr>) pk1 else pk1)"
        using e by (simp add: ups e1) (simp add: modify_def)
      show ?thesis
      proof (cases "idle ?bl")
        case True
        have "requested dp - 1 + finished dp + writing dp = 0" using idle True wrap(4) by simp
        then have r1: "requested dp = 1" using pos(1,4,5) req by simp
        let ?pk = "modify i ?b ?f ?g' pk"
        have il: "i < length (m_downloads ?pk)" "?x = dp_index (m_downloads ?pk ! i)" using e by auto
        have "store_ok (m_blocks_per_piece ?pk) (m_downloads ?pk) (m_block_info ?pk)"
          using m1 by (simp add: inv_unsorted_def table_core_def)
        then have "store_ok (m_blocks_per_piece pk1) (m_downloads (upd_download i (\<lambda>dp. dp\<lparr>dp_state := none\<rparr>) pk1)) (m_block_info ?pk)"
          unfolding g' using r1 by (simp add: upd_download_def)
        from erase_ignores_state [OF _ this] e r1 have er: "erase_download_piece i pk1 = erase_download_piece i ?pk"
          unfolding g' by (simp add: e1)
        have "abort_stop r i ?x pk1 = abort_stop r i ?x ?pk"
          unfolding abort_stop_def er by (simp add: e1)
        with abort_stop_inv [OF m1 il, of r] inv True ab m2 req same_pieces_trans [OF same_pieces_upd(1) [of pk i ?b ?f ?g']]
        show ?thesis by (simp add: inv_split info_def Let_def)
      next
        case ni: False
        have "abort_download r blk pk = modify i ?b ?f ?g' pk" using ab ni g' by simp
        moreover have "picker_inv (modify i ?b ?f ?g' pk)"
          using unsorted_same_arrived [OF _ e(2) m1] inv by (simp add: inv_split arrived_def)
        ultimately show ?thesis using m2 ni req by (simp add: info_def Let_def)
      qed
    qed
  qed
qed


section \<open>Pieces and blocks stay\<close>

lemma start_download_same:
  assumes "picker_inv pk" "x < num_pieces pk" "\<not> downloading (m_piece_map pk ! x)" "\<not> have_pos (m_piece_map pk ! x)"
  shows "same_pieces pk (start_download r x pk)"
  by (rule start_download_inv [OF assms, of r])

lemmas same_pieces_more = same_pieces_trans [OF _ same_pieces_upd(2)] same_pieces_trans [OF _ same_pieces_upd(3)]
  same_pieces_trans [OF _ same_pieces_upd(4)]

lemma mark_as_downloading_same:
  assumes "picker_inv pk" "piece_index blk < num_pieces pk" "\<not> have_pos (m_piece_map pk ! piece_index blk)"
  shows "same_pieces pk (snd (mark_as_downloading r blk pr state pk))"
  using start_download_same [OF assms(1,2) _ assms(3), of r]
  by (auto simp: mark_as_downloading_def Let_def intro!: same_pieces_more split: option.split)

lemma mark_as_writing_same:
  assumes "picker_inv pk" "piece_index blk < num_pieces pk"
  shows "same_pieces pk (snd (mark_as_writing r blk pr pk))"
  using start_download_same [OF assms(1,2), of r]
  by (auto simp: mark_as_writing_def have_piece_def Let_def intro!: same_pieces_more split: option.split)

lemma mark_as_finished_same:
  assumes "picker_inv pk" "piece_index blk < num_pieces pk"
  shows "same_pieces pk (mark_as_finished r blk pr pk)"
  using start_download_same [OF assms(1,2), of r]
  by (auto simp: mark_as_finished_def have_piece_def Let_def intro!: same_pieces_more split: option.split)

section \<open>Forgetting a peer\<close>

lemma clear_peer_inv:
  assumes inv: "picker_inv pk"
  shows "picker_inv (clear_peer pr pk)"
    and "progress (clear_peer pr pk) x = map_option (map (\<lambda>b. if peer b = pr then b\<lparr>peer := None\<rparr> else b)) (progress pk x)"
proof -
  let ?f = "\<lambda>b :: block_info. if peer b = pr then b\<lparr>peer := None\<rparr> else b" and ?pk = "clear_peer pr pk"
  have bip: "blocks_in_piece ?pk = blocks_in_piece pk" "num_pieces ?pk = num_pieces pk" "m_downloads ?pk = m_downloads pk"
    by (simp_all add: clear_peer_def)
  have bl: "blocks_of ?pk dp = map ?f (blocks_of pk dp)" if dp: "dp \<in> set (m_downloads pk)" for dp
  proof -
    obtain i where i: "i < length (m_downloads pk)" "dp = m_downloads pk ! i" using dp by (auto simp: in_set_conv_nth)
    have u: "inv_unsorted i pk" using inv i by (simp add: inv_split inv_rest_unsorted)
    have "dp_info dp + b < length (m_block_info pk)" if "b < blocks_in_piece pk (dp_index dp)" for b
      by (rule entry_block(1) [OF u i that])
    then show ?thesis by (auto simp: blocks_of_def slice_def bip clear_peer_def intro!: nth_equalityI)
  qed
  have st: "block_state (?f b) = block_state b" "num_peers (?f b) = num_peers b" for b by auto
  have "dl_ok (map f bl) dp = dl_ok bl dp" if "\<And>b. block_state (f b) = block_state b" "\<And>b. num_peers (f b) = num_peers b" for f bl dp
    by (simp add: dl_ok_def count_st_def filter_map comp_def block_ok_def that)
  note this [of ?f, OF st]
  with inv bl have "table_core ?pk"
    by (simp add: picker_inv_def table_core_def bip sizes_ok_def store_ok_def) (simp add: clear_peer_def)
  then show "picker_inv ?pk"
    using inv by (simp add: picker_inv_def clear_peer_def map_ok_def marks_ok_def counts_ok_def)
  have "progress ?pk x = map_of (map (\<lambda>dp. (dp_index dp, map ?f (blocks_of pk dp))) (m_downloads pk)) x"
    unfolding progress_def bip using bl by (simp cong: map_cong)
  also have "\<dots> = map_option (map ?f) (progress pk x)"
  proof -
    have "map_of (map (\<lambda>dp. (dp_index dp, h (v dp))) ds) x = map_option h (map_of (map (\<lambda>dp. (dp_index dp, v dp)) ds) x)"
      for h :: "block_info list \<Rightarrow> block_info list" and v ds by (induction ds) auto
    then show ?thesis by (simp add: progress_def)
  qed
  finally show "progress ?pk x = map_option (map ?f) (progress pk x)" .
qed

section \<open>Initialising\<close>

lemma new_picker_inv: "picker_inv new_piece_picker"
  by (simp add: picker_inv_def new_piece_picker_def map_ok_def we_have_index_def buckets_ok_def layout_def
      table_core_def sizes_ok_def store_ok_def descending_def marks_ok_def num_pieces_def counts_ok_def cursors_ok_def)

lemma filter_map_length: "length (filter P (map f xs)) = length (filter (\<lambda>x. P (f x)) xs)"
  by (simp add: filter_map comp_def)

lemma init_inv:
  assumes inv: "picker_inv pk" and n: "num_pieces pk \<le> n" "n < we_have_index"
    and bpp: "0 < bpp" "bl \<le> bpp" "bpp < 2 ^ 15"
  shows "picker_inv (init bpp bl n pk)"
proof -
  let ?g = "\<lambda>p :: piece_pos. p\<lparr>peer_count := 0, downloading := False, pp_index := 0\<rparr>"
  define pm where "pm = map ?g (resize_vec n new_piece_pos (m_piece_map pk))"
  have pm: "pm = map ?g (m_piece_map pk @ replicate (n - num_pieces pk) new_piece_pos)"
    using n by (simp add: pm_def resize_vec_def num_pieces_def)
  have l: "length pm = n" using n by (simp add: pm num_pieces_def)
  have g: "\<not> have_pos (?g p)" "filtered (?g p) = filtered p" "downloading (?g p) = False" for p
    by (simp_all add: have_pos_def we_have_index_def filtered_def)
  have ok: "\<forall>p \<in> set pm. pos_ok p" using inv
    by (auto simp: pm picker_inv_def map_ok_def pos_ok_def new_piece_pos_def)
  have nh: "\<not> have_pos p" "\<not> downloading p" if "p \<in> set pm" for p using that g by (auto simp: pm_def)
  have "m_num_filtered pk + m_num_have_filtered pk = int (length (filter filtered (m_piece_map pk)))"
  proof -
    have "length (filter P xs) = length (filter (\<lambda>p. P p \<and> \<not> Q p) xs) + length (filter (\<lambda>p. P p \<and> Q p) xs)"
      for P Q :: "piece_pos \<Rightarrow> bool" and xs by (induction xs) auto
    with inv show ?thesis by (simp add: picker_inv_def counts_ok_def) (metis of_nat_add)
  qed
  moreover have "filter filtered (replicate k (?g new_piece_pos)) = []" for k
    by (simp add: filtered_def new_piece_pos_def)
  ultimately have nf: "m_num_filtered pk + m_num_have_filtered pk = int (length (filter filtered pm))"
    by (simp add: pm filter_map_length g comp_def)
  have flt: "filter (\<lambda>p. filtered p \<and> \<not> have_pos p) pm = filter filtered pm" "filter (\<lambda>p. filtered p \<and> have_pos p) pm = []"
    "filter have_pos pm = []" using nh by (auto simp: filter_empty_conv intro: filter_cong)
  have "cursors_ok pm (skip_forward pm 0) (skip_backward pm (length pm))"
    using skip_forward_spec [of 0 pm "skip_forward pm 0"] skip_backward_spec [OF refl, of pm "length pm"]
    by (auto simp: cursors_ok_def)
  with flt nf have cnt: "counts_ok (init bpp bl n pk)"
    by (simp add: counts_ok_def init_def Let_def flip: pm_def)
  have "marks_ok (init bpp bl n pk)"
    using nh by (auto simp: marks_ok_def init_def Let_def num_pieces_def simp flip: pm_def)
  moreover have "table_core (init bpp bl n pk)"
    using bpp by (auto simp: table_core_def sizes_ok_def init_def Let_def store_ok_def)
  moreover have "map_ok (init bpp bl n pk)"
    using ok n l by (simp add: map_ok_def init_def Let_def flip: pm_def)
  ultimately show ?thesis using cnt
    by (intro picker_invI) (simp_all add: init_def Let_def descending_def)
qed

end
