(* ===== verification/Picker_Pick.thy ===== *)
theory Picker_Pick
  imports Picker_Blocks
begin

text \<open>
  Choosing what to request from a peer: \<open>pick_pieces\<close> and the functions it is made of, and what
  they promise. A pick is a list of blocks that grows while a number of blocks still wanted
  goes down; two more lists hold blocks that are taken only if nothing better is found. The
  loops return as soon as the number is not positive. The code asserts that it is positive at
  the start.
\<close>

section \<open>Which pieces may be picked\<close>

definition is_piece_free :: "piece_picker \<Rightarrow> bool list \<Rightarrow> nat \<Rightarrow> bool" where
  "is_piece_free pk bitmask x \<longleftrightarrow>
     bitmask ! x \<and> \<not> have_pos (m_piece_map pk ! x) \<and> \<not> filtered (m_piece_map pk ! x)"

definition can_pick :: "piece_picker \<Rightarrow> bool list \<Rightarrow> nat \<Rightarrow> bool" where
  "can_pick pk bitmask x \<longleftrightarrow>
     bitmask ! x \<and> \<not> have_pos (m_piece_map pk ! x)
   \<and> \<not> downloading (m_piece_map pk ! x) \<and> \<not> filtered (m_piece_map pk ! x)"

text \<open>The loops of \<open>expand_piece\<close>; the first one has \<open>start + 1\<close>, which may be 0, as its variable.\<close>

fun expand_start :: "piece_picker \<Rightarrow> bool list \<Rightarrow> nat \<Rightarrow> nat \<Rightarrow> nat" where
  "expand_start pk bitmask lower 0 = 0"
| "expand_start pk bitmask lower (Suc s) =
     (if s \<ge> lower \<and> can_pick pk bitmask s then expand_start pk bitmask lower s else Suc s)"

function expand_end :: "piece_picker \<Rightarrow> bool list \<Rightarrow> nat \<Rightarrow> nat \<Rightarrow> nat" where
  "expand_end pk bitmask upper e =
     (if e < upper \<and> can_pick pk bitmask e then expand_end pk bitmask upper (e + 1) else e)"
  by pat_completeness auto
termination by (relation "measure (\<lambda>(_, _, upper, e). upper - e)") auto

declare expand_end.simps [simp del]

definition expand_piece :: "piece_picker \<Rightarrow> bool list \<Rightarrow> nat \<Rightarrow> nat \<Rightarrow> nat \<times> nat" where
  "expand_piece pk bitmask whole_pieces piece =
     (if whole_pieces = 0 then (piece, piece + 1)
      else
        let start = expand_start pk bitmask (piece + 1 - whole_pieces) piece;
            upper_limit = min (start + whole_pieces) (num_pieces pk)
        in (start, expand_end pk bitmask upper_limit (piece + 1)))"

section \<open>Collecting blocks\<close>

record pick_options =
  rarest_first :: bool
  pick_reverse :: bool
  on_parole :: bool
  prioritize_partials :: bool
  sequential :: bool
  speed_affinity :: bool
  ignore_whole_pieces :: bool

text \<open>Who asks: the pieces the peer has, the peer, its speed and \<open>prefer_whole_pieces\<close>.\<close>

record request =
  req_pieces :: "bool list"
  req_peer :: ptr
  req_speed :: piece_state_t
  req_whole :: nat
  req_options :: pick_options

record picks =
  interesting_blocks :: "piece_block list"
  backup_blocks :: "piece_block list"
  backup_blocks2 :: "piece_block list"
  blocks_left :: int

definition append_blocks :: "piece_block list \<Rightarrow> piece_block list \<Rightarrow> int \<Rightarrow> piece_block list \<times> int" where
  "append_blocks dst src num_blocks =
     (if src = [] then (dst, num_blocks)
      else let to_copy = min (int (length src)) num_blocks
           in (dst @ take (nat to_copy) src, num_blocks - to_copy))"

definition append_backup :: "picks \<Rightarrow> picks" where
  "append_backup st =
     (let (bs, n) = append_blocks (interesting_blocks st) (backup_blocks st) (blocks_left st)
      in st\<lparr>interesting_blocks := bs, backup_blocks := [], blocks_left := n\<rparr>)"

definition append_backup2 :: "picks \<Rightarrow> picks" where
  "append_backup2 st =
     (let (bs, n) = append_blocks (interesting_blocks st) (backup_blocks2 st) (blocks_left st)
      in st\<lparr>interesting_blocks := bs, backup_blocks2 := [], blocks_left := n\<rparr>)"

fun requested_from :: "ptr \<Rightarrow> block_info list \<Rightarrow> bool \<Rightarrow> bool \<times> bool" where
  "requested_from pr [] exclusive = (exclusive, True)"
| "requested_from pr (info # infos) exclusive =
     (if block_state info \<noteq> state_none \<and> peer info \<noteq> pr
      then if block_state info = state_requested \<and> peer info \<noteq> None then (False, False)
           else requested_from pr infos False
      else requested_from pr infos exclusive)"

definition infos_of :: "piece_picker \<Rightarrow> downloading_piece \<Rightarrow> block_info list" where
  "infos_of pk dp = map (block_of pk dp) [0..<blocks_in_piece pk (dp_index dp)]"

fun speed_number :: "piece_state_t \<Rightarrow> int" where
  "speed_number none = 0" | "speed_number slow = 1" | "speed_number medium = 2" | "speed_number fast = 3"

definition push_interesting :: "nat \<Rightarrow> nat \<Rightarrow> picks \<Rightarrow> picks" where
  "push_interesting x j st =
     st\<lparr>interesting_blocks := interesting_blocks st @ [\<lparr>piece_index = x, block_index = j\<rparr>],
        blocks_left := blocks_left st - 1\<rparr>"

definition push_backup :: "nat \<Rightarrow> nat \<Rightarrow> picks \<Rightarrow> picks" where
  "push_backup x j st = st\<lparr>backup_blocks := backup_blocks st @ [\<lparr>piece_index = x, block_index = j\<rparr>]\<rparr>"

definition push_backup2 :: "nat \<Rightarrow> nat \<Rightarrow> picks \<Rightarrow> picks" where
  "push_backup2 x j st = st\<lparr>backup_blocks2 := backup_blocks2 st @ [\<lparr>piece_index = x, block_index = j\<rparr>]\<rparr>"

text \<open>The last loop of \<open>add_blocks_downloading\<close>; the flag says that it returned early.\<close>

fun downloading_loop ::
  "request \<Rightarrow> bool \<Rightarrow> downloading_piece \<Rightarrow> (nat \<times> block_info) list \<Rightarrow> picks \<Rightarrow> bool \<times> picks" where
  "downloading_loop rq exclusive_active dp [] st = (False, st)"
| "downloading_loop rq exclusive_active dp ((j, info) # js) st =
     (if block_state info \<noteq> state_none then downloading_loop rq exclusive_active dp js st
      else if dp_state dp \<noteq> none \<and> dp_state dp \<noteq> req_speed rq \<and> \<not> exclusive_active
              \<and> speed_affinity (req_options rq)
      then
        if \<bar>speed_number (dp_state dp) - speed_number (req_speed rq)\<bar> = 1
        then if int (length (backup_blocks st)) \<ge> blocks_left st then (True, st)
             else downloading_loop rq exclusive_active dp js (push_backup (dp_index dp) j st)
        else if int (length (backup_blocks2 st)) \<ge> blocks_left st then (True, st)
             else downloading_loop rq exclusive_active dp js (push_backup2 (dp_index dp) j st)
      else
        let st = push_interesting (dp_index dp) j st
        in if req_whole rq > 0 then downloading_loop rq exclusive_active dp js st
           else if blocks_left st \<le> 0 then (True, st)
           else downloading_loop rq exclusive_active dp js st)"

definition add_blocks_downloading :: "piece_picker \<Rightarrow> request \<Rightarrow> downloading_piece \<Rightarrow> picks \<Rightarrow> picks" where
  "add_blocks_downloading pk rq dp st =
     (if \<not> req_pieces rq ! dp_index dp then st
      else
        let infos = infos_of pk dp;
            (exclusive, exclusive_active) = requested_from (req_peer rq) infos True
        in if on_parole (req_options rq) \<and> \<not> exclusive then st
           else if req_whole rq > 0 \<and> \<not> exclusive_active
           then if int (length (backup_blocks2 st)) \<ge> blocks_left st then st
                else fold (\<lambda>(j, info). if block_state info \<noteq> state_none then id
                                       else push_backup2 (dp_index dp) j)
                       (enumerate 0 infos) st
           else
             let (returned, st) = downloading_loop rq exclusive_active dp (enumerate 0 infos) st
             in if returned then st
                else if blocks_left st \<le> 0 then st\<lparr>blocks_left := 0\<rparr>
                else st)"

text \<open>A piece nobody is downloading: as many of its blocks as are asked for, or all of them.\<close>

definition push_piece_blocks :: "nat \<Rightarrow> nat \<Rightarrow> picks \<Rightarrow> picks" where
  "push_piece_blocks x n st = fold (push_interesting x) [0..<n] st"

definition add_blocks :: "piece_picker \<Rightarrow> request \<Rightarrow> nat list \<Rightarrow> nat \<Rightarrow> picks \<Rightarrow> picks" where
  "add_blocks pk rq ignore piece st =
     (if piece \<in> set ignore then st
      else if downloading (m_piece_map pk ! piece)
      then if prioritize_partials (req_options rq) then st
           else case find_download pk piece of None \<Rightarrow> st
           | Some i \<Rightarrow> add_blocks_downloading pk rq (m_downloads pk ! i) st
      else
        let st =
          (if req_whole rq = 0
           then push_piece_blocks piece (nat (min (int (blocks_in_piece pk piece)) (blocks_left st))) st
           else let (start, end') = expand_piece pk (req_pieces rq) (req_whole rq) piece
                in fold (\<lambda>k. push_piece_blocks k (blocks_in_piece pk k)) [start..<end'] st)
        in if blocks_left st \<le> 0 then st\<lparr>blocks_left := 0\<rparr> else st)"

section \<open>The search\<close>

fun partials_loop :: "piece_picker \<Rightarrow> request \<Rightarrow> downloading_piece list \<Rightarrow> picks \<Rightarrow> picks" where
  "partials_loop pk rq [] st = st"
| "partials_loop pk rq (dp # dps) st =
     (if \<not> req_pieces rq ! dp_index dp then partials_loop pk rq dps st
      else
        let st = add_blocks_downloading pk rq dp st
        in if blocks_left st \<le> 0 then st else partials_loop pk rq dps st)"

text \<open>The loops over the suggested, the sequential and the rarest pieces have the same body.\<close>

fun pick_loop :: "piece_picker \<Rightarrow> request \<Rightarrow> nat list \<Rightarrow> nat list \<Rightarrow> picks \<Rightarrow> picks" where
  "pick_loop pk rq ignore [] st = st"
| "pick_loop pk rq ignore (x # xs) st =
     (if \<not> is_piece_free pk (req_pieces rq) x then pick_loop pk rq ignore xs st
      else
        let st = add_blocks pk rq ignore x st
        in if blocks_left st \<le> 0 then st else pick_loop pk rq ignore xs st)"

definition pad_boundries :: "piece_picker \<Rightarrow> piece_picker" where
  "pad_boundries pk =
     pk\<lparr>m_priority_boundries :=
          resize_vec ((length (m_priority_boundries pk) + 4 - 1) div 4 * 4)
            (last (m_priority_boundries pk)) (m_priority_boundries pk)\<rparr>"

definition reverse_order :: "piece_picker \<Rightarrow> nat list" where
  "reverse_order pk =
     (let bs = m_priority_boundries pk
      in concat (map (\<lambda>i. let prio = i div 4 * 4 + 4 - 1 - i mod 4
                          in map ((!) (m_pieces pk)) [(if prio = 0 then 0 else bs ! (prio - 1))..<bs ! prio])
                   (rev [0..<length bs])))"

text \<open>Neither sequential nor rarest first: the pieces from a random one on, all the way round.\<close>

definition advance :: "piece_picker \<Rightarrow> nat \<Rightarrow> nat" where
  "advance pk piece = (if piece = num_pieces pk then 0 else piece)"

partial_function (option) random_skip ::
  "piece_picker \<Rightarrow> bool list \<Rightarrow> nat list \<Rightarrow> nat \<Rightarrow> nat \<Rightarrow> (bool \<times> nat) option" where
  "random_skip pk bitmask suggested start_piece piece =
     (if \<not> can_pick pk bitmask piece \<or> piece \<in> set suggested
      then let piece = advance pk (piece + 1)
           in if piece = start_piece then Some (True, piece)
              else random_skip pk bitmask suggested start_piece piece
      else Some (False, piece))"

definition push_range :: "piece_picker \<Rightarrow> request \<Rightarrow> nat \<Rightarrow> nat \<Rightarrow> picks \<Rightarrow> picks" where
  "push_range pk rq start end' st =
     fold (\<lambda>k st. push_piece_blocks k
             (if req_whole rq = 0 then nat (min (int (blocks_in_piece pk k)) (blocks_left st))
              else blocks_in_piece pk k) st)
       [start..<end'] st"

partial_function (option) random_loop ::
  "piece_picker \<Rightarrow> request \<Rightarrow> nat list \<Rightarrow> nat \<Rightarrow> nat \<Rightarrow> picks \<Rightarrow> picks option" where
  "random_loop pk rq suggested start_piece piece st =
     (if \<not> blocks_left st > 0 then Some st
      else Option.bind (random_skip pk (req_pieces rq) suggested start_piece piece)
        (\<lambda>r. if fst r then Some st
             else
               let (start, end') = expand_piece pk (req_pieces rq) (req_whole rq) (snd r);
                   st = push_range pk rq start end' st;
                   piece = advance pk end'
               in if piece = start_piece then Some st
                  else random_loop pk rq suggested start_piece piece st))"

declare random_skip.simps [code] random_loop.simps [code]

text \<open>
  \<open>pick_pieces\<close> proper. \<open>update_pieces\<close> takes the numbers \<open>rnd\<close>, the random piece and the
  random busy block take \<open>r1\<close> and \<open>r2\<close>. The picker is changed too: the lazily sorted array
  of pieces is brought up to date.
\<close>

definition pick_search ::
  "(nat \<Rightarrow> nat) \<Rightarrow> nat \<Rightarrow> request \<Rightarrow> nat list \<Rightarrow> piece_picker \<Rightarrow> picks \<Rightarrow> (picks \<times> piece_picker) option" where
  "pick_search rnd r1 rq suggested pk st =
     (if sequential (req_options rq)
      then if pick_reverse (req_options rq)
           then Some (pick_loop pk rq suggested (rev [m_cursor pk..<m_reverse_cursor pk]) st, pk)
           else Some (pick_loop pk rq suggested [m_cursor pk..<m_reverse_cursor pk] st, pk)
      else if rarest_first (req_options rq)
      then
        let pk = (if m_dirty pk then update_pieces rnd pk else pk)
        in if pick_reverse (req_options rq)
           then let pk = pad_boundries pk
                in Some (pick_loop pk rq suggested (reverse_order pk) st, pk)
           else Some (pick_loop pk rq suggested (m_pieces pk) st, pk)
      else
        let start_piece = r1 mod num_pieces pk
        in map_option (\<lambda>st. (st, pk)) (random_loop pk rq suggested start_piece start_piece st))"

fun busy_blocks :: "piece_picker \<Rightarrow> request \<Rightarrow> downloading_piece list \<Rightarrow> piece_block list" where
  "busy_blocks pk rq [] = []"
| "busy_blocks pk rq (dp # dps) =
     (if \<not> req_pieces rq ! dp_index dp then busy_blocks pk rq dps
      else if piece_priority (m_piece_map pk ! dp_index dp) = 0 then busy_blocks pk rq dps
      else
        let temp = map (\<lambda>(j, info). \<lparr>piece_index = dp_index dp, block_index = j\<rparr>)
                     (filter (\<lambda>(j, info). \<not> (block_state info \<noteq> state_requested \<or> peer info = req_peer rq))
                        (enumerate 0 (infos_of pk dp)))
        in if temp \<noteq> [] then temp else busy_blocks pk rq dps)"

definition pick_busy :: "nat \<Rightarrow> piece_picker \<Rightarrow> request \<Rightarrow> piece_block list \<Rightarrow> piece_block list" where
  "pick_busy r2 pk rq bs =
     (let temp = busy_blocks pk rq (m_downloads pk)
      in if temp \<noteq> [] then bs @ [temp ! (r2 mod length temp)] else bs)"

definition pick_partials :: "piece_picker \<Rightarrow> request \<Rightarrow> picks \<Rightarrow> picks" where
  "pick_partials pk rq st =
     (if \<not> prioritize_partials (req_options rq) then st
      else
        let st = partials_loop pk rq (m_downloads pk) st
        in if blocks_left st \<le> 0 then st
           else let st = append_backup st
                in if blocks_left st \<le> 0 then st else append_backup2 st)"

definition pick_rest :: "nat \<Rightarrow> piece_picker \<Rightarrow> request \<Rightarrow> picks \<Rightarrow> piece_block list" where
  "pick_rest r2 pk rq st =
     (let st = append_backup st
      in if blocks_left st \<le> 0 then interesting_blocks st
         else let st = append_backup2 st
              in if blocks_left st \<le> 0 then interesting_blocks st
                 else if on_parole (req_options rq) then interesting_blocks st
                 else pick_busy r2 pk rq (interesting_blocks st))"

definition effective_request :: "piece_picker \<Rightarrow> request \<Rightarrow> request" where
  "effective_request pk rq =
     (let opts = (if length (m_downloads pk) > 20 then (req_options rq)\<lparr>prioritize_partials := True\<rparr>
                  else req_options rq)
      in rq\<lparr>req_options := opts, req_whole := (if ignore_whole_pieces opts then 0 else req_whole rq)\<rparr>)"

definition pick_pieces ::
  "(nat \<Rightarrow> nat) \<Rightarrow> nat \<Rightarrow> nat \<Rightarrow> request \<Rightarrow> int \<Rightarrow> nat list \<Rightarrow> piece_block list \<Rightarrow> piece_picker
     \<Rightarrow> (piece_block list \<times> piece_picker) option" where
  "pick_pieces rnd r1 r2 rq0 num_blocks suggested dst pk =
     (let rq = effective_request pk rq0;
          st = pick_partials pk rq
                 \<lparr>interesting_blocks = dst, backup_blocks = [], backup_blocks2 = [], blocks_left = num_blocks\<rparr>
      in if blocks_left st \<le> 0 then Some (interesting_blocks st, pk)
         else
           let st = pick_loop pk rq [] suggested st
           in if blocks_left st \<le> 0 then Some (interesting_blocks st, pk)
              else
                Option.bind (pick_search rnd r1 rq suggested pk st)
                  (\<lambda>(st, pk). if blocks_left st \<le> 0 then Some (interesting_blocks st, pk)
                              else Some (pick_rest r2 pk rq st, pk)))"

section \<open>What gathering blocks does\<close>

text \<open>
  Blocks with property \<open>P\<close> are added to the lists, and the number of blocks left goes down by
  the number of blocks picked; it may only fall below zero, or be set to zero from there, when
  picking whole pieces.
\<close>

definition gathers :: "bool \<Rightarrow> (piece_block \<Rightarrow> bool) \<Rightarrow> picks \<Rightarrow> picks \<Rightarrow> bool" where
  "gathers exact P st st' \<longleftrightarrow> (\<exists>a b c.
     interesting_blocks st' = interesting_blocks st @ a \<and> backup_blocks st' = backup_blocks st @ b
   \<and> backup_blocks2 st' = backup_blocks2 st @ c \<and> (\<forall>x \<in> set a \<union> set b \<union> set c. P x)
   \<and> (blocks_left st' = blocks_left st - int (length a)
      \<or> \<not> exact \<and> blocks_left st' \<le> 0 \<and> blocks_left st \<le> int (length a))
   \<and> (exact \<and> blocks_left st \<ge> 0 \<longrightarrow> blocks_left st' \<ge> 0))"

lemma gathers_refl [simp, intro]: "gathers e P st st"
  by (simp add: gathers_def)

lemma gathers_trans:
  assumes "gathers e P s t" "gathers e P t u"
  shows "gathers e P s u"
proof -
  obtain a b c where 1: "interesting_blocks t = interesting_blocks s @ a" "backup_blocks t = backup_blocks s @ b"
      "backup_blocks2 t = backup_blocks2 s @ c" "\<forall>x \<in> set a \<union> set b \<union> set c. P x"
      "blocks_left t = blocks_left s - int (length a) \<or> \<not> e \<and> blocks_left t \<le> 0 \<and> blocks_left s \<le> int (length a)"
      "e \<and> blocks_left s \<ge> 0 \<longrightarrow> blocks_left t \<ge> 0"
    using assms(1) unfolding gathers_def by blast
  obtain a' b' c' where 2: "interesting_blocks u = interesting_blocks t @ a'" "backup_blocks u = backup_blocks t @ b'"
      "backup_blocks2 u = backup_blocks2 t @ c'" "\<forall>x \<in> set a' \<union> set b' \<union> set c'. P x"
      "blocks_left u = blocks_left t - int (length a') \<or> \<not> e \<and> blocks_left u \<le> 0 \<and> blocks_left t \<le> int (length a')"
      "e \<and> blocks_left t \<ge> 0 \<longrightarrow> blocks_left u \<ge> 0"
    using assms(2) unfolding gathers_def by blast
  have "blocks_left u = blocks_left s - int (length (a @ a'))
      \<or> \<not> e \<and> blocks_left u \<le> 0 \<and> blocks_left s \<le> int (length (a @ a'))"
    using 1(5) 2(5) by auto
  moreover have "\<forall>x \<in> set (a @ a') \<union> set (b @ b') \<union> set (c @ c'). P x" using 1(4) 2(4) by auto
  moreover have "e \<and> blocks_left s \<ge> 0 \<longrightarrow> blocks_left u \<ge> 0" using 1(6) 2(6) by blast
  moreover note 1(1-3) 2(1-3)
  ultimately show ?thesis unfolding gathers_def by (metis append.assoc)
qed

lemma gathers_push:
  assumes "P \<lparr>piece_index = x, block_index = j\<rparr>"
  shows "\<not> e \<or> blocks_left st > 0 \<Longrightarrow> gathers e P st (push_interesting x j st)"
    "gathers e P st (push_backup x j st)" "gathers e P st (push_backup2 x j st)"
  using assms by (auto simp: gathers_def push_interesting_def push_backup_def push_backup2_def)

lemma gathers_clamp:
  assumes "gathers e P st st'" "blocks_left st' \<le> 0" "e \<Longrightarrow> blocks_left st \<ge> 0"
  shows "gathers e P st (st'\<lparr>blocks_left := 0\<rparr>)"
  using assms by (auto simp: gathers_def)

lemma gathers_weaken: "gathers e P st st' \<Longrightarrow> (\<And>b. P b \<Longrightarrow> Q b) \<Longrightarrow> gathers e Q st st'"
  by (auto simp: gathers_def)

lemma gathers_left: "gathers e P st st' \<Longrightarrow> blocks_left st' \<le> blocks_left st \<or> blocks_left st' \<le> 0"
  by (auto simp: gathers_def)

lemma gathers_nonneg: "gathers True P st st' \<Longrightarrow> blocks_left st \<ge> 0 \<Longrightarrow> blocks_left st' \<ge> 0"
  by (auto simp: gathers_def)

text \<open>
  A block is taken care of when it is in one of the lists, or when one of the backup lists
  alone has enough blocks.
\<close>

definition reached :: "picks \<Rightarrow> piece_block \<Rightarrow> bool" where
  "reached st b \<longleftrightarrow> b \<in> set (interesting_blocks st) \<union> set (backup_blocks st) \<union> set (backup_blocks2 st)
   \<or> blocks_left st \<le> int (length (backup_blocks st)) \<or> blocks_left st \<le> int (length (backup_blocks2 st))"

lemma gathers_reached: "gathers e P st st' \<Longrightarrow> reached st b \<Longrightarrow> reached st' b"
  by (auto simp: gathers_def reached_def)

lemma reached_push [simp]:
  "reached (push_interesting x j st) \<lparr>piece_index = x, block_index = j\<rparr>"
  "reached (push_backup x j st) \<lparr>piece_index = x, block_index = j\<rparr>"
  "reached (push_backup2 x j st) \<lparr>piece_index = x, block_index = j\<rparr>"
  by (simp_all add: reached_def push_interesting_def push_backup_def push_backup2_def)

lemma reached_done: "blocks_left st \<le> 0 \<Longrightarrow> reached st b"
  by (auto simp: reached_def)

section \<open>A piece that is being downloaded\<close>

lemma infos_of_blocks: "infos_of pk dp = blocks_of pk dp"
  by (simp add: infos_of_def blocks_of_def slice_def block_of_def fun_eq_iff)

lemma downloading_step:
  assumes "block_state info = state_none" "P \<lparr>piece_index = dp_index dp, block_index = j\<rparr>"
    "req_whole rq = 0 \<Longrightarrow> blocks_left st > 0"
  obtains
    (stop) t where "downloading_loop rq ea dp ((j, info) # js) st = (True, t)" "gathers (req_whole rq = 0) P st t" "\<forall>b. reached t b"
  | (go) t where "downloading_loop rq ea dp ((j, info) # js) st = downloading_loop rq ea dp js t"
      "gathers (req_whole rq = 0) P st t" "reached t \<lparr>piece_index = dp_index dp, block_index = j\<rparr>"
      "req_whole rq = 0 \<Longrightarrow> blocks_left t > 0"
proof -
  let ?x = "dp_index dp"
  note g = gathers_push [of P, OF assms(2)]
  have gi: "gathers (req_whole rq = 0) P st (push_interesting ?x j st)" by (rule g(1)) (use assms(3) in auto)
  have l: "blocks_left (push_backup ?x j st) = blocks_left st" "blocks_left (push_backup2 ?x j st) = blocks_left st"
    by (simp_all add: push_backup_def push_backup2_def)
  define sl where "sl \<longleftrightarrow> dp_state dp \<noteq> none \<and> dp_state dp \<noteq> req_speed rq \<and> \<not> ea \<and> speed_affinity (req_options rq)"
  define one where "one \<longleftrightarrow> \<bar>speed_number (dp_state dp) - speed_number (req_speed rq)\<bar> = 1"
  have eq: "downloading_loop rq ea dp ((j, info) # js) st =
     (if sl then
        if one then if blocks_left st \<le> int (length (backup_blocks st)) then (True, st) else downloading_loop rq ea dp js (push_backup ?x j st)
        else if blocks_left st \<le> int (length (backup_blocks2 st)) then (True, st) else downloading_loop rq ea dp js (push_backup2 ?x j st)
      else if req_whole rq > 0 then downloading_loop rq ea dp js (push_interesting ?x j st)
      else if blocks_left (push_interesting ?x j st) \<le> 0 then (True, push_interesting ?x j st)
      else downloading_loop rq ea dp js (push_interesting ?x j st))"
    using assms(1) by (simp only: downloading_loop.simps sl_def one_def Let_def) simp
  consider (b1) "sl" "one" "\<not> blocks_left st \<le> int (length (backup_blocks st))"
    | (b2) "sl" "\<not> one" "\<not> blocks_left st \<le> int (length (backup_blocks2 st))"
    | (full) "sl" "if one then blocks_left st \<le> int (length (backup_blocks st)) else blocks_left st \<le> int (length (backup_blocks2 st))"
    | (whole) "\<not> sl" "req_whole rq \<noteq> 0"
    | (last) "\<not> sl" "req_whole rq = 0" "blocks_left (push_interesting ?x j st) \<le> 0"
    | (more) "\<not> sl" "req_whole rq = 0" "\<not> blocks_left (push_interesting ?x j st) \<le> 0" by argo
  then show ?thesis
  proof cases
    case b1
    with assms(3) show ?thesis by (intro go [OF _ g(2)]) (simp_all add: l eq del: downloading_loop.simps)
  next
    case b2
    with assms(3) show ?thesis by (intro go [OF _ g(3)]) (simp_all add: l eq del: downloading_loop.simps)
  next
    case full
    then show ?thesis by (intro stop [of st]) (auto simp: reached_def eq simp del: downloading_loop.simps split: if_splits)
  next
    case whole
    then show ?thesis by (intro go [OF _ gi]) (simp_all add: eq del: downloading_loop.simps)
  next
    case last
    then show ?thesis by (intro stop [OF _ gi]) (simp_all add: eq reached_done del: downloading_loop.simps)
  next
    case more
    then show ?thesis by (intro go [OF _ gi]) (simp_all add: eq del: downloading_loop.simps)
  qed
qed

lemma downloading_loop_gathers:
  assumes "\<And>j info. (j, info) \<in> set js \<Longrightarrow> block_state info = state_none \<Longrightarrow> P \<lparr>piece_index = dp_index dp, block_index = j\<rparr>"
    "req_whole rq = 0 \<Longrightarrow> blocks_left st > 0" "downloading_loop rq ea dp js st = (r, u)"
  shows "gathers (req_whole rq = 0) P st u
    \<and> (\<forall>(j, info) \<in> set js. block_state info = state_none \<longrightarrow> reached u \<lparr>piece_index = dp_index dp, block_index = j\<rparr>)"
  using assms
proof (induction js arbitrary: st)
  case (Cons ji js)
  obtain j info where ji: "ji = (j, info)" by fastforce
  note P = Cons.prems(1)
  show ?case
  proof (cases "block_state info = state_none")
    case False
    then have "downloading_loop rq ea dp js st = (r, u)" using Cons.prems(3) ji by simp
    then have "gathers (req_whole rq = 0) P st u
        \<and> (\<forall>(j, info) \<in> set js. block_state info = state_none \<longrightarrow> reached u \<lparr>piece_index = dp_index dp, block_index = j\<rparr>)"
      by (intro Cons.IH) (use P Cons.prems(2) in auto)
    with False ji show ?thesis by simp
  next
    case True
    with P [of j info] ji have Pj: "P \<lparr>piece_index = dp_index dp, block_index = j\<rparr>" by simp
    show ?thesis
    proof (cases rule: downloading_step [where P = P and ea = ea and js = js and rq = rq and st = st, OF True Pj Cons.prems(2), case_names _ stop go])
      case (stop t)
      with Cons.prems(3) ji show ?thesis by auto
    next
      case (go t)
      have "downloading_loop rq ea dp js t = (r, u)" using go(1) Cons.prems(3) ji by simp
      then have "gathers (req_whole rq = 0) P t u
        \<and> (\<forall>(j, info) \<in> set js. block_state info = state_none \<longrightarrow> reached u \<lparr>piece_index = dp_index dp, block_index = j\<rparr>)"
        by (intro Cons.IH) (use P go(4) in auto)
      then show ?thesis using gathers_trans [OF go(2)] gathers_reached [OF _ go(3)] ji by auto
    qed
  qed
qed simp

text \<open>The blocks of a piece that may be asked for.\<close>

definition free_block :: "piece_picker \<Rightarrow> bool list \<Rightarrow> piece_block \<Rightarrow> bool" where
  "free_block pk bitmask b \<longleftrightarrow>
     piece_index b < num_pieces pk \<and> block_index b < blocks_in_piece pk (piece_index b)
   \<and> bitmask ! piece_index b \<and> \<not> have_piece pk (piece_index b)
   \<and> block_state (piece_blocks pk (piece_index b) ! block_index b) = state_none"

lemma entry_free:
  assumes inv: "picker_inv pk" and dp: "dp \<in> set (m_downloads pk)"
  shows "blocks_of pk dp = piece_blocks pk (dp_index dp)" "dp_index dp < num_pieces pk" "\<not> have_piece pk (dp_index dp)"
    "downloading (m_piece_map pk ! dp_index dp)"
proof -
  from inv have core: "table_core pk" and marks: "marks_ok pk" by (auto simp: picker_inv_def)
  from dp obtain i where "i < length (m_downloads pk)" "dp = m_downloads pk ! i" by (auto simp: in_set_conv_nth)
  with progress_at [OF core] show "blocks_of pk dp = piece_blocks pk (dp_index dp)" by (simp add: piece_blocks_def)
  show "dp_index dp < num_pieces pk" using core dp by (auto simp: table_core_def)
  with marks dp show "\<not> have_piece pk (dp_index dp)" "downloading (m_piece_map pk ! dp_index dp)"
    by (auto simp: marks_ok_def have_piece_def)
qed

lemma fold_backup2_gathers:
  assumes "\<And>j info. (j, info) \<in> set js \<Longrightarrow> block_state info = state_none \<Longrightarrow> P \<lparr>piece_index = x, block_index = j\<rparr>"
    "u = fold (\<lambda>(j, info). if block_state info \<noteq> state_none then id else push_backup2 x j) js st"
  shows "gathers e P st u \<and> (\<forall>(j, info) \<in> set js. block_state info = state_none \<longrightarrow> reached u \<lparr>piece_index = x, block_index = j\<rparr>)"
  using assms
proof (induction js arbitrary: st)
  case (Cons ji js)
  obtain j info where ji: "ji = (j, info)" by fastforce
  let ?t = "(if block_state info \<noteq> state_none then id else push_backup2 x j) st"
  have ih: "gathers e P ?t u \<and> (\<forall>(j, info) \<in> set js. block_state info = state_none \<longrightarrow> reached u \<lparr>piece_index = x, block_index = j\<rparr>)"
    by (rule Cons.IH) (use Cons.prems ji in auto)
  have g: "gathers e P st ?t" using Cons.prems(1) [of j info] ji gathers_push(3) by auto
  have "block_state info = state_none \<Longrightarrow> reached u \<lparr>piece_index = x, block_index = j\<rparr>"
    using ih by (intro gathers_reached [of e P ?t u]) auto
  with ih gathers_trans [OF g] show ?case using ji by auto
qed simp

lemma add_blocks_downloading_gathers:
  assumes inv: "picker_inv pk" and dp: "dp \<in> set (m_downloads pk)"
    and left: "blocks_left st > 0"
    and u: "u = add_blocks_downloading pk rq dp st"
    and P: "\<And>b. free_block pk (req_pieces rq) b \<Longrightarrow> piece_index b = dp_index dp \<Longrightarrow> P b"
  shows "gathers (req_whole rq = 0) P st u"
    and "\<not> on_parole (req_options rq) \<Longrightarrow> free_block pk (req_pieces rq) b \<Longrightarrow> piece_index b = dp_index dp \<Longrightarrow> reached u b"
proof -
  let ?x = "dp_index dp" and ?js = "enumerate 0 (infos_of pk dp)" and ?f = "free_block pk (req_pieces rq)"
  obtain ex ea where ex: "requested_from (req_peer rq) (infos_of pk dp) True = (ex, ea)" by fastforce
  obtain r v where loop: "downloading_loop rq ea dp ?js st = (r, v)" by fastforce
  note e = entry_free [OF inv dp]
  have free: "?f \<lparr>piece_index = ?x, block_index = j\<rparr> \<longleftrightarrow>
      req_pieces rq ! ?x \<and> (\<exists>info. (j, info) \<in> set ?js \<and> block_state info = state_none)" for j
    using e by (auto simp: free_block_def infos_of_blocks in_set_enumerate_eq)
      (metis e(1) length_blocks_of)+
  have goal: "gathers (req_whole rq = 0) P st u \<and> (\<not> on_parole (req_options rq) \<longrightarrow>
      (\<forall>j. ?f \<lparr>piece_index = ?x, block_index = j\<rparr> \<longrightarrow> reached u \<lparr>piece_index = ?x, block_index = j\<rparr>))"
  proof (cases "req_pieces rq ! ?x")
    case False
    with u free show ?thesis by (simp add: add_blocks_downloading_def)
  next
    case True
    have Pj: "P \<lparr>piece_index = ?x, block_index = j\<rparr>" if "(j, info) \<in> set ?js" "block_state info = state_none" for j info
      using P free [of j] True that by (metis piece_block.select_convs(1))
    consider (parole) "on_parole (req_options rq) \<and> \<not> ex"
      | (full) "\<not> (on_parole (req_options rq) \<and> \<not> ex)" "req_whole rq > 0 \<and> \<not> ea" "int (length (backup_blocks2 st)) \<ge> blocks_left st"
      | (whole) "\<not> (on_parole (req_options rq) \<and> \<not> ex)" "req_whole rq > 0 \<and> \<not> ea" "\<not> int (length (backup_blocks2 st)) \<ge> blocks_left st"
      | (loop) "\<not> (on_parole (req_options rq) \<and> \<not> ex)" "\<not> (req_whole rq > 0 \<and> \<not> ea)" by argo
    then show ?thesis
    proof cases
      case parole
      with u True ex show ?thesis by (simp add: add_blocks_downloading_def Let_def)
    next
      case full
      with u True ex show ?thesis by (simp add: add_blocks_downloading_def Let_def reached_def)
    next
      case whole
      with u True ex have "u = fold (\<lambda>(j, info). if block_state info \<noteq> state_none then id else push_backup2 ?x j) ?js st"
        by (simp add: add_blocks_downloading_def Let_def)
      from fold_backup2_gathers [where P = P and e = "req_whole rq = 0", OF Pj this] free show ?thesis by fastforce
    next
      case loop
      have "u = (if r then v else if blocks_left v \<le> 0 then v\<lparr>blocks_left := 0\<rparr> else v)"
        using loop u True ex \<open>downloading_loop rq ea dp ?js st = (r, v)\<close> by (auto simp: add_blocks_downloading_def Let_def)
      moreover have gl: "gathers (req_whole rq = 0) P st v
        \<and> (\<forall>(j, info) \<in> set ?js. block_state info = state_none \<longrightarrow> reached v \<lparr>piece_index = ?x, block_index = j\<rparr>)"
        by (rule downloading_loop_gathers [where P = P, OF Pj left \<open>downloading_loop rq ea dp ?js st = (r, v)\<close>])
      moreover have "blocks_left v \<le> 0 \<Longrightarrow> gathers (req_whole rq = 0) P st (v\<lparr>blocks_left := 0\<rparr>)"
        using gl left by (intro gathers_clamp) auto
      ultimately show ?thesis using free by (auto simp: reached_done split: if_splits)
    qed
  qed
  then show "gathers (req_whole rq = 0) P st u" by blast
  from goal show "\<not> on_parole (req_options rq) \<Longrightarrow> ?f b \<Longrightarrow> piece_index b = ?x \<Longrightarrow> reached u b"
    by (cases b) auto
qed

section \<open>New pieces\<close>

lemma expand_start_spec:
  "expand_start pk bm lower s \<le> s \<and> (\<forall>k. expand_start pk bm lower s \<le> k \<and> k < s \<longrightarrow> can_pick pk bm k)"
  by (induction pk bm lower s rule: expand_start.induct) (auto simp: less_Suc_eq)

lemma expand_end_spec:
  "e \<le> expand_end pk bm upper e \<and> expand_end pk bm upper e \<le> max e upper
   \<and> (\<forall>k. e \<le> k \<and> k < expand_end pk bm upper e \<longrightarrow> can_pick pk bm k)"
proof (induction pk bm upper e rule: expand_end.induct)
  case (1 pk bm upper e)
  show ?case
  proof (cases "e < upper \<and> can_pick pk bm e")
    case True
    with 1 have ih: "e + 1 \<le> expand_end pk bm upper (e + 1) \<and> expand_end pk bm upper (e + 1) \<le> max (e + 1) upper
      \<and> (\<forall>k. e + 1 \<le> k \<and> k < expand_end pk bm upper (e + 1) \<longrightarrow> can_pick pk bm k)" by blast
    have eq: "expand_end pk bm upper e = expand_end pk bm upper (e + 1)" using True by (simp add: expand_end.simps [of _ _ _ e])
    have "can_pick pk bm k" if "e \<le> k" "k < expand_end pk bm upper (e + 1)" for k
      using that ih True by (cases "k = e") auto
    with ih True show ?thesis unfolding eq by auto
  next
    case False
    then have "expand_end pk bm upper e = e" by (subst expand_end.simps) auto
    then show ?thesis by auto
  qed
qed

text \<open>The range of pieces around a piece contains it, and all others can be picked.\<close>

lemma expand_piece_spec:
  assumes "expand_piece pk bm w x = (s, e)" "x < num_pieces pk"
  shows "s \<le> x" "x < e" "e \<le> num_pieces pk" "\<And>k. s \<le> k \<Longrightarrow> k < e \<Longrightarrow> k = x \<or> can_pick pk bm k"
proof -
  let ?st = "expand_start pk bm (x + 1 - w) x"
  note st = expand_start_spec [of pk bm "x + 1 - w" x]
  note en = expand_end_spec [of "x + 1" pk bm "min (?st + w) (num_pieces pk)"]
  consider "s = x" "e = x + 1" | "s = ?st" "e = expand_end pk bm (min (?st + w) (num_pieces pk)) (x + 1)"
    using assms(1) by (auto simp: expand_piece_def Let_def split: if_splits)
  then have "s \<le> x \<and> x < e \<and> e \<le> num_pieces pk \<and> (\<forall>k. s \<le> k \<and> k < e \<longrightarrow> k = x \<or> can_pick pk bm k)"
  proof cases
    case 1
    with assms(2) show ?thesis by auto
  next
    case 2
    have "k = x \<or> can_pick pk bm k" if "s \<le> k" "k < e" for k
    proof (cases "k < x")
      case True
      with that 2 st show ?thesis by blast
    next
      case False
      with that 2 en show ?thesis by (cases "k = x") auto
    qed
    moreover have "s \<le> x" using 2(1) st by simp
    moreover have "max (x + 1) (min (?st + w) (num_pieces pk)) \<le> num_pieces pk" using assms(2) by simp
    then have "x < e" "e \<le> num_pieces pk" using en unfolding 2(2) by linarith+
    ultimately show ?thesis by blast
  qed
  then show "s \<le> x" "x < e" "e \<le> num_pieces pk" "\<And>k. s \<le> k \<Longrightarrow> k < e \<Longrightarrow> k = x \<or> can_pick pk bm k" by auto
qed

lemma push_piece_blocks_gathers:
  assumes P: "\<And>j. j < n \<Longrightarrow> P \<lparr>piece_index = x, block_index = j\<rparr>" and left: "e \<Longrightarrow> int n \<le> blocks_left st"
  shows "gathers e P st (push_piece_blocks x n st)
    \<and> (\<forall>j < n. \<lparr>piece_index = x, block_index = j\<rparr> \<in> set (interesting_blocks (push_piece_blocks x n st)))
    \<and> blocks_left (push_piece_blocks x n st) = blocks_left st - int n"
  using P left
proof (induction n)
  case 0
  then show ?case by (simp add: push_piece_blocks_def)
next
  case (Suc n)
  let ?t = "push_piece_blocks x n st"
  have "e \<Longrightarrow> int n \<le> blocks_left st" using Suc.prems(2) by simp
  then have ih: "gathers e P st ?t" "\<forall>j < n. \<lparr>piece_index = x, block_index = j\<rparr> \<in> set (interesting_blocks ?t)"
    "blocks_left ?t = blocks_left st - int n" using Suc.IH Suc.prems(1) by auto
  have eq: "push_piece_blocks x (Suc n) st = push_interesting x n ?t" by (simp add: push_piece_blocks_def)
  have "gathers e P ?t (push_interesting x n ?t)"
    by (rule gathers_push(1)) (use Suc.prems ih in auto)
  from gathers_trans [OF ih(1) this] show ?case unfolding eq using ih
    by (auto simp: push_interesting_def less_Suc_eq)
qed

lemma fold_push_gathers:
  assumes "\<And>k j. k \<in> set ks \<Longrightarrow> j < n k \<Longrightarrow> P \<lparr>piece_index = k, block_index = j\<rparr>"
    "u = fold (\<lambda>k. push_piece_blocks k (n k)) ks st"
  shows "gathers False P st u \<and> (\<forall>k \<in> set ks. \<forall>j < n k. reached u \<lparr>piece_index = k, block_index = j\<rparr>)
    \<and> blocks_left u = blocks_left st - int (sum_list (map n ks))"
  using assms
proof (induction ks arbitrary: st)
  case (Cons k ks)
  let ?t = "push_piece_blocks k (n k) st"
  have t: "gathers False P st ?t" "\<forall>j < n k. \<lparr>piece_index = k, block_index = j\<rparr> \<in> set (interesting_blocks ?t)"
    "blocks_left ?t = blocks_left st - int (n k)"
    using push_piece_blocks_gathers [of "n k" P k False st] Cons.prems(1) by auto
  have ih: "gathers False P ?t u \<and> (\<forall>k \<in> set ks. \<forall>j < n k. reached u \<lparr>piece_index = k, block_index = j\<rparr>)
    \<and> blocks_left u = blocks_left ?t - int (sum_list (map n ks))"
    by (rule Cons.IH) (use Cons.prems in auto)
  have "reached u \<lparr>piece_index = k, block_index = j\<rparr>" if "j < n k" for j
    by (rule gathers_reached [of False P ?t]) (use ih t that in \<open>auto simp: reached_def\<close>)
  with ih t gathers_trans [OF t(1)] show ?case by auto
qed simp

lemma idle_piece_free:
  assumes inv: "picker_inv pk" and x: "x < num_pieces pk" "\<not> downloading (m_piece_map pk ! x)"
  shows "free_block pk bm \<lparr>piece_index = x, block_index = j\<rparr> \<longleftrightarrow> j < blocks_in_piece pk x \<and> bm ! x \<and> \<not> have_piece pk x"
proof -
  have "x \<notin> dp_index ` set (m_downloads pk)" using inv x by (auto simp: picker_inv_def marks_ok_def)
  then have "piece_blocks pk x = replicate (blocks_in_piece pk x) new_block"
    by (simp add: piece_blocks_def progress_None [THEN iffD2])
  then show ?thesis using x by (auto simp: free_block_def new_block_def)
qed

definition may_visit :: "request \<Rightarrow> piece_picker \<Rightarrow> nat \<Rightarrow> bool" where
  "may_visit rq pk x \<longleftrightarrow> x < num_pieces pk \<and> is_piece_free pk (req_pieces rq) x"

text \<open>
  Visiting a piece adds only free blocks of pieces that are not filtered, and takes care of
  all free blocks of the piece, unless it is on the list of pieces to ignore or the pieces
  that are being downloaded have been looked through before.
\<close>

lemma add_blocks_gathers:
  assumes inv: "picker_inv pk" and x: "may_visit rq pk x" and left: "blocks_left st > 0"
    and u: "u = add_blocks pk rq ignore x st"
    and P: "\<And>b. free_block pk (req_pieces rq) b \<Longrightarrow> \<not> filtered (m_piece_map pk ! piece_index b) \<Longrightarrow> P b"
  shows "gathers (req_whole rq = 0) P st u"
    and "\<not> on_parole (req_options rq) \<Longrightarrow> x \<notin> set ignore \<Longrightarrow>
      \<not> (downloading (m_piece_map pk ! x) \<and> prioritize_partials (req_options rq)) \<Longrightarrow>
      free_block pk (req_pieces rq) b \<Longrightarrow> piece_index b = x \<Longrightarrow> reached u b"
proof -
  let ?bm = "req_pieces rq" and ?e = "req_whole rq = 0"
  have xn: "x < num_pieces pk" "?bm ! x" "\<not> have_piece pk x" "\<not> filtered (m_piece_map pk ! x)"
    using x by (auto simp: may_visit_def is_piece_free_def have_piece_def)
  have "gathers ?e P st u \<and> (\<not> on_parole (req_options rq) \<longrightarrow> x \<notin> set ignore \<longrightarrow>
      \<not> (downloading (m_piece_map pk ! x) \<and> prioritize_partials (req_options rq)) \<longrightarrow>
      (\<forall>j. free_block pk ?bm \<lparr>piece_index = x, block_index = j\<rparr> \<longrightarrow> reached u \<lparr>piece_index = x, block_index = j\<rparr>))"
  proof (cases "x \<in> set ignore \<or> downloading (m_piece_map pk ! x) \<and> prioritize_partials (req_options rq)")
    case True
    with u show ?thesis by (auto simp: add_blocks_def)
  next
    case visit: False
    show ?thesis
    proof (cases "downloading (m_piece_map pk ! x)")
      case True
      from inv have "marks_ok pk" by (simp add: picker_inv_def)
      then obtain i where i: "find_download pk x = Some i" "i < length (m_downloads pk)" "dp_index (m_downloads pk ! i) = x"
        using find_download_Some xn(1) True by blast
      let ?dp = "m_downloads pk ! i"
      have dp: "?dp \<in> set (m_downloads pk)" using i by simp
      have "u = add_blocks_downloading pk rq ?dp st" using u visit True i by (auto simp: add_blocks_def)
      note g = add_blocks_downloading_gathers [OF inv dp left this, of P]
      have "P b" if "free_block pk ?bm b" "piece_index b = dp_index ?dp" for b
        using P that i xn by simp
      with g i show ?thesis by auto
    next
      case False
      note fr = idle_piece_free [OF inv _ , of _ ?bm]
      have Pk: "P \<lparr>piece_index = k, block_index = j\<rparr>" if "k = x \<or> can_pick pk ?bm k" "k < num_pieces pk" "j < blocks_in_piece pk k" for k j
        using that fr [of k j] xn False P by (auto simp: can_pick_def have_piece_def)
      let ?n = "nat (min (int (blocks_in_piece pk x)) (blocks_left st))"
      obtain v where v: "u = (if blocks_left v \<le> 0 then v\<lparr>blocks_left := 0\<rparr> else v)"
        "gathers ?e P st v" "\<forall>j. free_block pk ?bm \<lparr>piece_index = x, block_index = j\<rparr> \<longrightarrow> reached v \<lparr>piece_index = x, block_index = j\<rparr>"
      proof (cases "req_whole rq = 0")
        case True
        let ?v = "push_piece_blocks x ?n st"
        have p: "gathers ?e P st ?v \<and> (\<forall>j < ?n. \<lparr>piece_index = x, block_index = j\<rparr> \<in> set (interesting_blocks ?v))
            \<and> blocks_left ?v = blocks_left st - int ?n"
          by (rule push_piece_blocks_gathers) (use Pk xn left in auto)
        then have "reached ?v \<lparr>piece_index = x, block_index = j\<rparr>" if "j < blocks_in_piece pk x" for j
          using that left by (auto simp: reached_def min_def split: if_splits)
        then show ?thesis using True u visit False p fr [OF xn(1) False]
          by (intro that [of ?v]) (auto simp: add_blocks_def Let_def)
      next
        case whole: False
        obtain s e where se: "expand_piece pk ?bm (req_whole rq) x = (s, e)" by fastforce
        note ex = expand_piece_spec [OF se xn(1)]
        let ?v = "fold (\<lambda>k. push_piece_blocks k (blocks_in_piece pk k)) [s..<e] st"
        have "gathers False P st ?v \<and> (\<forall>k \<in> set [s..<e]. \<forall>j < blocks_in_piece pk k. reached ?v \<lparr>piece_index = k, block_index = j\<rparr>)
            \<and> blocks_left ?v = blocks_left st - int (sum_list (map (blocks_in_piece pk) [s..<e]))"
          by (rule fold_push_gathers [OF _ refl]) (use ex Pk in auto)
        then show ?thesis using whole u visit False se ex fr [OF xn(1) False]
          by (intro that [of ?v]) (auto simp: add_blocks_def Let_def)
      qed
      then show ?thesis using gathers_clamp [OF v(2)] left by (auto simp: reached_done)
    qed
  qed
  then show "gathers ?e P st u" "\<not> on_parole (req_options rq) \<Longrightarrow> x \<notin> set ignore \<Longrightarrow>
      \<not> (downloading (m_piece_map pk ! x) \<and> prioritize_partials (req_options rq)) \<Longrightarrow>
      free_block pk ?bm b \<Longrightarrow> piece_index b = x \<Longrightarrow> reached u b"
    by (blast, cases b) auto
qed

section \<open>The loops\<close>

lemma partials_loop_gathers:
  assumes inv: "picker_inv pk" and dps: "set dps \<subseteq> set (m_downloads pk)" and left: "blocks_left st > 0"
    and u: "u = partials_loop pk rq dps st" and P: "\<And>b. free_block pk (req_pieces rq) b \<Longrightarrow> P b"
  shows "gathers (req_whole rq = 0) P st u
    \<and> (\<not> on_parole (req_options rq) \<longrightarrow>
        (\<forall>b. free_block pk (req_pieces rq) b \<longrightarrow> piece_index b \<in> dp_index ` set dps \<longrightarrow> reached u b))"
  using dps left u
proof (induction dps arbitrary: st)
  case (Cons dp dps)
  let ?t = "add_blocks_downloading pk rq dp st" and ?e = "req_whole rq = 0"
  have dp: "dp \<in> set (m_downloads pk)" using Cons.prems by simp
  note g = add_blocks_downloading_gathers [OF inv dp Cons.prems(2) refl, of rq P, OF P]
  show ?case
  proof (cases "req_pieces rq ! dp_index dp")
    case False
    have "\<not> free_block pk (req_pieces rq) b" if "piece_index b = dp_index dp" for b
      using False that by (simp add: free_block_def)
    moreover have "gathers ?e P st u \<and> (\<not> on_parole (req_options rq) \<longrightarrow>
        (\<forall>b. free_block pk (req_pieces rq) b \<longrightarrow> piece_index b \<in> dp_index ` set dps \<longrightarrow> reached u b))"
      by (rule Cons.IH) (use Cons.prems False in auto)
    ultimately show ?thesis by auto
  next
    case True
    show ?thesis
    proof (cases "blocks_left ?t \<le> 0")
      case fin: True
      with True Cons.prems have "u = ?t" by (simp add: Let_def)
      with g(1) fin show ?thesis by (auto intro: reached_done)
    next
      case False
      have "gathers ?e P ?t u \<and> (\<not> on_parole (req_options rq) \<longrightarrow>
          (\<forall>b. free_block pk (req_pieces rq) b \<longrightarrow> piece_index b \<in> dp_index ` set dps \<longrightarrow> reached u b))"
        by (rule Cons.IH) (use Cons.prems True False in \<open>auto simp: Let_def\<close>)
      then show ?thesis using gathers_trans [OF g(1)] g(2) gathers_reached by auto
    qed
  qed
qed simp

definition wants_all :: "piece_picker \<Rightarrow> request \<Rightarrow> nat list \<Rightarrow> nat \<Rightarrow> bool" where
  "wants_all pk rq ignore x \<longleftrightarrow> \<not> on_parole (req_options rq) \<and> x \<notin> set ignore \<and> is_piece_free pk (req_pieces rq) x
     \<and> \<not> (downloading (m_piece_map pk ! x) \<and> prioritize_partials (req_options rq))"

lemma pick_loop_gathers:
  assumes inv: "picker_inv pk" and xs: "\<forall>x \<in> set xs. x < num_pieces pk" and left: "blocks_left st > 0"
    and u: "u = pick_loop pk rq ignore xs st"
    and P: "\<And>b. free_block pk (req_pieces rq) b \<Longrightarrow> \<not> filtered (m_piece_map pk ! piece_index b) \<Longrightarrow> P b"
  shows "gathers (req_whole rq = 0) P st u
    \<and> (\<forall>b. free_block pk (req_pieces rq) b \<longrightarrow> piece_index b \<in> set xs \<longrightarrow> wants_all pk rq ignore (piece_index b) \<longrightarrow> reached u b)"
  using xs left u
proof (induction xs arbitrary: st)
  case (Cons x xs)
  let ?t = "add_blocks pk rq ignore x st" and ?e = "req_whole rq = 0"
  show ?case
  proof (cases "is_piece_free pk (req_pieces rq) x")
    case False
    then have "\<not> wants_all pk rq ignore x" by (simp add: wants_all_def)
    moreover have "gathers ?e P st u
      \<and> (\<forall>b. free_block pk (req_pieces rq) b \<longrightarrow> piece_index b \<in> set xs \<longrightarrow> wants_all pk rq ignore (piece_index b) \<longrightarrow> reached u b)"
      by (rule Cons.IH) (use Cons.prems False in auto)
    ultimately show ?thesis by auto
  next
    case True
    have mv: "may_visit rq pk x" using True Cons.prems(1) by (simp add: may_visit_def)
    note g = add_blocks_gathers [OF inv mv Cons.prems(2) refl, of P ignore, OF P]
    have here: "reached ?t b" if "free_block pk (req_pieces rq) b" "piece_index b = x" "wants_all pk rq ignore x" for b
      using g(2) [OF _ _ _ _ _ that(1,2)] that(3) by (simp add: wants_all_def)
    show ?thesis
    proof (cases "blocks_left ?t \<le> 0")
      case fin: True
      with True Cons.prems have "u = ?t" by (simp add: Let_def)
      with g(1) fin show ?thesis by (auto intro: reached_done)
    next
      case False
      have "gathers ?e P ?t u
        \<and> (\<forall>b. free_block pk (req_pieces rq) b \<longrightarrow> piece_index b \<in> set xs \<longrightarrow> wants_all pk rq ignore (piece_index b) \<longrightarrow> reached u b)"
        by (rule Cons.IH) (use Cons.prems True False in \<open>auto simp: Let_def\<close>)
      then show ?thesis using gathers_trans [OF g(1)] here gathers_reached by auto
    qed
  qed
qed simp

section \<open>The random order\<close>

text \<open>How far it is from a piece round to the start.\<close>

definition way_left :: "nat \<Rightarrow> nat \<Rightarrow> nat \<Rightarrow> nat" where
  "way_left n start x = (if x < start then start - x else start + n - x)"

lemma random_skip_returns:
  assumes "start < num_pieces pk" "x < num_pieces pk"
  shows "\<exists>d y. random_skip pk bm sug start x = Some (d, y) \<and> y < num_pieces pk \<and> (\<not> d \<longrightarrow> can_pick pk bm y \<and> y \<notin> set sug)"
  using assms
proof (induction "way_left (num_pieces pk) start x" arbitrary: x rule: less_induct)
  case less
  let ?y = "advance pk (x + 1)"
  have y: "?y < num_pieces pk" using less.prems by (auto simp: advance_def)
  show ?case
  proof (cases "can_pick pk bm x \<and> x \<notin> set sug")
    case True
    with less.prems show ?thesis by (auto simp: random_skip.simps [of _ _ _ _ x])
  next
    case skip: False
    show ?thesis
    proof (cases "?y = start")
      case True
      with skip y show ?thesis by (subst random_skip.simps) (auto simp: Let_def)
    next
      case False
      then have "way_left (num_pieces pk) start ?y < way_left (num_pieces pk) start x"
        using less.prems by (auto simp: way_left_def advance_def split: if_splits)
      from less.hyps [OF this less.prems(1) y] skip False show ?thesis by (subst random_skip.simps) (auto simp: Let_def)
    qed
  qed
qed

lemma blocks_in_piece_pos: "picker_inv pk \<Longrightarrow> x < num_pieces pk \<Longrightarrow> 0 < blocks_in_piece pk x"
  by (auto simp: picker_inv_def table_core_def sizes_ok_def blocks_in_piece_def num_pieces_def)

lemma push_range_gathers:
  assumes inv: "picker_inv pk" and x: "x < num_pieces pk" "can_pick pk (req_pieces rq) x" and left: "blocks_left st > 0"
    and se: "expand_piece pk (req_pieces rq) (req_whole rq) x = (s, e)" and u: "u = push_range pk rq s e st"
    and P: "\<And>b. free_block pk (req_pieces rq) b \<Longrightarrow> \<not> filtered (m_piece_map pk ! piece_index b) \<Longrightarrow> P b"
  shows "gathers (req_whole rq = 0) P st u" "blocks_left u < blocks_left st"
proof -
  note ex = expand_piece_spec [OF se x(1)] and pos = blocks_in_piece_pos [OF inv x(1)]
  have Pk: "P \<lparr>piece_index = k, block_index = j\<rparr>" if "s \<le> k" "k < e" "j < blocks_in_piece pk k" for k j
  proof -
    have k: "k < num_pieces pk" "can_pick pk (req_pieces rq) k" using that ex x by fastforce+
    with that show ?thesis by (intro P) (auto simp: can_pick_def have_piece_def idle_piece_free [OF inv])
  qed
  have "gathers (req_whole rq = 0) P st u \<and> blocks_left u < blocks_left st"
  proof (cases "req_whole rq = 0")
    case True
    then have "s = x" "e = x + 1" using se by (auto simp: expand_piece_def)
    let ?n = "nat (min (int (blocks_in_piece pk x)) (blocks_left st))"
    have "u = push_piece_blocks x ?n st" using u True \<open>s = x\<close> \<open>e = x + 1\<close> by (simp add: push_range_def)
    moreover have "gathers (req_whole rq = 0) P st (push_piece_blocks x ?n st)
      \<and> (\<forall>j < ?n. \<lparr>piece_index = x, block_index = j\<rparr> \<in> set (interesting_blocks (push_piece_blocks x ?n st)))
      \<and> blocks_left (push_piece_blocks x ?n st) = blocks_left st - int ?n"
      by (rule push_piece_blocks_gathers) (use Pk \<open>s = x\<close> \<open>e = x + 1\<close> left in auto)
    ultimately show ?thesis using pos left by auto
  next
    case False
    then have "u = fold (\<lambda>k. push_piece_blocks k (blocks_in_piece pk k)) [s..<e] st" using u by (simp add: push_range_def)
    then have "gathers False P st u \<and> (\<forall>k \<in> set [s..<e]. \<forall>j < blocks_in_piece pk k. reached u \<lparr>piece_index = k, block_index = j\<rparr>)
      \<and> blocks_left u = blocks_left st - int (sum_list (map (blocks_in_piece pk) [s..<e]))"
      by (intro fold_push_gathers) (use Pk in auto)
    moreover have "blocks_in_piece pk x \<le> sum_list (map (blocks_in_piece pk) [s..<e])"
      by (rule member_le_sum_list) (use ex in auto)
    ultimately show ?thesis using False pos by auto
  qed
  then show "gathers (req_whole rq = 0) P st u" "blocks_left u < blocks_left st" by auto
qed

lemma random_loop_returns:
  assumes inv: "picker_inv pk" and start: "start < num_pieces pk"
    and P: "\<And>b. free_block pk (req_pieces rq) b \<Longrightarrow> \<not> filtered (m_piece_map pk ! piece_index b) \<Longrightarrow> P b"
  shows "x < num_pieces pk \<Longrightarrow> \<exists>u. random_loop pk rq sug start x st = Some u \<and> gathers (req_whole rq = 0) P st u"
proof (induction "nat (blocks_left st)" arbitrary: x st rule: less_induct)
  case less
  show ?case
  proof (cases "blocks_left st > 0")
    case False
    then show ?thesis by (simp add: random_loop.simps)
  next
    case left: True
    obtain d y where sk: "random_skip pk (req_pieces rq) sug start x = Some (d, y)" "y < num_pieces pk"
      "\<not> d \<Longrightarrow> can_pick pk (req_pieces rq) y" using random_skip_returns [OF start less.prems] by blast
    obtain s e where se: "expand_piece pk (req_pieces rq) (req_whole rq) y = (s, e)" by fastforce
    let ?t = "push_range pk rq s e st" and ?z = "advance pk e"
    show ?thesis
    proof (cases d)
      case True
      with left sk show ?thesis by (simp add: random_loop.simps)
    next
      case False
      note g = push_range_gathers [OF inv sk(2) sk(3) [OF False] left se refl, of P, OF P]
      have eq: "random_loop pk rq sug start x st = (if ?z = start then Some ?t else random_loop pk rq sug start ?z ?t)"
        using left sk False se by (subst random_loop.simps) (simp add: Let_def)
      have "?z < num_pieces pk"
        using expand_piece_spec(2,3) [OF se sk(2)] by (auto simp: advance_def)
      moreover have "nat (blocks_left ?t) < nat (blocks_left st)" using g(2) left by simp
      ultimately obtain u where "random_loop pk rq sug start ?z ?t = Some u" "gathers (req_whole rq = 0) P ?t u"
        using less.hyps by blast
      with eq g(1) gathers_trans [OF g(1)] show ?thesis by auto
    qed
  qed
qed

section \<open>The search\<close>

lemma moves_norm:
  assumes "moves_only pk pk'" "x < num_pieces pk"
  shows "have_pos (m_piece_map pk' ! x) = have_pos (m_piece_map pk ! x)"
    "filtered (m_piece_map pk' ! x) = filtered (m_piece_map pk ! x)"
    "downloading (m_piece_map pk' ! x) = downloading (m_piece_map pk ! x)"
    "prio_of pk' x = prio_of pk x"
  using norm_pos_eqD [OF moves_nth [OF assms]] assms(1) by (simp_all add: moves_only_def)

lemma moves_free_block:
  assumes "moves_only pk pk'"
  shows "free_block pk' bm b = free_block pk bm b"
proof -
  have "piece_blocks pk' = piece_blocks pk" by (simp add: fun_eq_iff piece_blocks_def moves_blocks [OF assms] split: option.split)
  then show ?thesis using moves_num_pieces [OF assms] moves_blocks [OF assms] moves_norm [OF assms]
    by (auto simp: free_block_def have_piece_def)
qed

lemma moves_wants_all:
  assumes "moves_only pk pk'" "x < num_pieces pk"
  shows "wants_all pk' rq ig x = wants_all pk rq ig x"
  using moves_norm [OF assms] by (simp add: wants_all_def is_piece_free_def)

lemma dirty_blocks [simp]:
  "num_pieces (pk\<lparr>m_dirty := d\<rparr>) = num_pieces pk" "blocks_in_piece (pk\<lparr>m_dirty := d\<rparr>) = blocks_in_piece pk"
  "have_piece (pk\<lparr>m_dirty := d\<rparr>) = have_piece pk"
  by (simp_all add: num_pieces_def fun_eq_iff blocks_in_piece_def have_piece_def)

lemma dirty_piece_blocks [simp]: "piece_blocks (pk\<lparr>m_dirty := d\<rparr>) = piece_blocks pk"
proof -
  have "blocks_of (pk\<lparr>m_dirty := d\<rparr>) = blocks_of pk" by (simp add: fun_eq_iff blocks_of_def)
  then have "progress (pk\<lparr>m_dirty := d\<rparr>) = progress pk" by (simp add: progress_def)
  then show ?thesis by (simp add: fun_eq_iff piece_blocks_def split: option.split)
qed

lemma dirty_irrelevant [simp]:
  "free_block (pk\<lparr>m_dirty := d\<rparr>) = free_block pk" "wants_all (pk\<lparr>m_dirty := d\<rparr>) = wants_all pk"
  by (simp_all add: fun_eq_iff free_block_def wants_all_def is_piece_free_def)

lemma pad_boundries_ok:
  assumes "buckets_ok pk" shows "buckets_ok (pad_boundries pk)" "moves_only pk (pad_boundries pk)"
    "length (m_priority_boundries (pad_boundries pk)) mod 4 = 0"
proof -
  let ?bs = "m_priority_boundries pk" and ?m = "(length (m_priority_boundries pk) + 4 - 1) div 4 * 4"
  have lay: "layout (length (m_piece_map pk)) (prm (m_seeds pk) (m_piece_map pk)) (ixm (m_piece_map pk)) ?bs (m_pieces pk)"
    using assms by (simp add: buckets_ok_def)
  have le: "length ?bs \<le> ?m" by simp
  then have eq: "m_priority_boundries (pad_boundries pk) = ?bs @ replicate (?m - length ?bs) (last ?bs)"
    by (simp add: pad_boundries_def resize_vec_def)
  have nth: "m_priority_boundries (pad_boundries pk) ! k = ?bs ! k" if "k < length ?bs" for k
    using that by (simp add: eq nth_append)
  have in_b: "in_bucket pr ?bs q y \<Longrightarrow> in_bucket pr (m_priority_boundries (pad_boundries pk)) q y" for pr q y
  proof -
    assume "in_bucket pr ?bs q y"
    then obtain k where k: "k < length ?bs" "pr y = int k" "bucket_start ?bs k \<le> q" "q < ?bs ! k" by (rule in_bucketE)
    then have "bucket_start (m_priority_boundries (pad_boundries pk)) k = bucket_start ?bs k"
      by (cases k) (simp_all add: nth)
    with k nth [of k] show "in_bucket pr (m_priority_boundries (pad_boundries pk)) q y"
      unfolding in_bucket_def by (intro exI [of _ k]) (simp add: eq)
  qed
  have "sorted (?bs @ replicate n (last ?bs))" for n
    using lay sorted_last_ge [of ?bs] by (auto simp: layout_def sorted_append in_set_conv_nth)
  then have "layout (length (m_piece_map pk)) (prm (m_seeds pk) (m_piece_map pk)) (ixm (m_piece_map pk))
      (m_priority_boundries (pad_boundries pk)) (m_pieces pk)"
    using lay in_b by (auto simp: layout_def eq last_append last_replicate)
  with assms show "buckets_ok (pad_boundries pk)" by (simp add: buckets_ok_def) (simp add: pad_boundries_def)
  show "moves_only pk (pad_boundries pk)" by (simp add: moves_only_def pad_boundries_def)
  show "length (m_priority_boundries (pad_boundries pk)) mod 4 = 0" unfolding eq using le by simp
qed

lemma in_concat_map: "i \<in> set xs \<Longrightarrow> x \<in> set (f i) \<Longrightarrow> x \<in> set (concat (map f xs))"
  by auto

lemma reverse_order_set:
  assumes "buckets_ok pk" "length (m_priority_boundries pk) mod 4 = 0"
  shows "set (reverse_order pk) = set (m_pieces pk)"
proof -
  let ?bs = "m_priority_boundries pk" and ?ps = "m_pieces pk" and ?p = "\<lambda>i. i div 4 * 4 + 4 - 1 - i mod (4::nat)"
  have lay: "layout (length (m_piece_map pk)) (prm (m_seeds pk) (m_piece_map pk)) (ixm (m_piece_map pk)) ?bs ?ps"
    using assms by (simp add: buckets_ok_def)
  have flip: "?p (4 * a + b) = 4 * a + (3 - b)" if "b < 4" for a b using that by simp
  have inv: "?p (?p i) = i" for i
    using flip [of "i mod 4" "i div 4"] flip [of "3 - i mod 4" "i div 4"] by simp
  have lt: "?p i < length ?bs" if "i < length ?bs" for i
  proof -
    obtain m where m: "length ?bs = 4 * m" using assms(2) by (auto simp: mod_eq_0_iff_dvd elim: dvdE)
    with that have "i div 4 < m" by linarith
    moreover have "?p i = 4 * (i div 4) + (3 - i mod 4)" using flip [of "i mod 4" "i div 4"] by simp
    ultimately show ?thesis unfolding m by linarith
  qed
  define F where "F i = map ((!) ?ps) [bucket_start ?bs (?p i)..<?bs ! ?p i]" for i
  have rev: "reverse_order pk = concat (map F (rev [0..<length ?bs]))"
    by (simp add: reverse_order_def bucket_start_def Let_def F_def [abs_def])
  show ?thesis
  proof (intro equalityI subsetI)
    fix x assume "x \<in> set (reverse_order pk)"
    then obtain i q where "i < length ?bs" "q < ?bs ! ?p i" "x = ?ps ! q" unfolding rev by (auto simp: F_def)
    moreover have "?bs ! ?p i \<le> length ?ps"
      using sorted_last_ge [of ?bs "?p i"] lt [OF \<open>i < length ?bs\<close>] lay by (auto simp: layout_def)
    ultimately show "x \<in> set ?ps" by simp
  next
    fix x assume "x \<in> set ?ps"
    then obtain q where q: "q < length ?ps" "x = ?ps ! q" by (auto simp: in_set_conv_nth)
    then obtain k where k: "k < length ?bs" "bucket_start ?bs k \<le> q" "q < ?bs ! k"
      using lay by (auto simp: layout_def elim!: in_bucketE)
    have "?p k \<in> set (rev [0..<length ?bs])" using lt [OF k(1)] by simp
    moreover have "x \<in> set (F (?p k))" unfolding F_def inv using k q by auto
    ultimately show "x \<in> set (reverse_order pk)" unfolding rev by (rule in_concat_map)
  qed
qed

lemma buckets_pieces:
  assumes "buckets_ok pk"
  shows "\<forall>x \<in> set (m_pieces pk). x < num_pieces pk" "x < num_pieces pk \<Longrightarrow> prio_of pk x \<ge> 0 \<Longrightarrow> x \<in> set (m_pieces pk)"
proof -
  have lay: "layout (num_pieces pk) (prm (m_seeds pk) (m_piece_map pk)) (ixm (m_piece_map pk)) (m_priority_boundries pk) (m_pieces pk)"
    using assms by (simp add: buckets_ok_def num_pieces_def)
  then show "\<forall>x \<in> set (m_pieces pk). x < num_pieces pk" by (auto simp: layout_def in_set_conv_nth)
  show "x < num_pieces pk \<Longrightarrow> prio_of pk x \<ge> 0 \<Longrightarrow> x \<in> set (m_pieces pk)"
    using lay by (auto simp: layout_def) (metis nth_mem)
qed

text \<open>What the search is made of: the picker it leaves, and the pieces in the order they are visited.\<close>

lemma cursor_range:
  assumes "picker_inv pk" "x < num_pieces pk" "is_piece_free pk bm x"
  shows "m_cursor pk \<le> x \<and> x < m_reverse_cursor pk" "m_reverse_cursor pk \<le> num_pieces pk"
proof -
  have c: "cursors_ok (m_piece_map pk) (m_cursor pk) (m_reverse_cursor pk)"
    using assms by (simp add: picker_inv_def counts_ok_def)
  have "wanted (m_piece_map pk ! x)" using assms by (simp add: wanted_def is_piece_free_def)
  with c assms(2) show "m_cursor pk \<le> x \<and> x < m_reverse_cursor pk" unfolding cursors_ok_def num_pieces_def by (meson not_le)
  from c show "m_reverse_cursor pk \<le> num_pieces pk" by (simp add: cursors_ok_def num_pieces_def)
qed

lemma pick_search_gathers:
  assumes inv: "picker_inv pk" and n: "num_pieces pk > 0" and left: "blocks_left st > 0"
    and P: "\<And>b. free_block pk (req_pieces rq) b \<Longrightarrow> \<not> filtered (m_piece_map pk ! piece_index b) \<Longrightarrow> P b"
  obtains u pk' where "pick_search rnd r1 rq sug pk st = Some (u, pk')" "picker_inv pk'"
    "moves_only (pk\<lparr>m_dirty := m_dirty pk'\<rparr>) pk'" "gathers (req_whole rq = 0) P st u"
    "\<And>b. sequential (req_options rq) \<or> rarest_first (req_options rq) \<Longrightarrow> free_block pk (req_pieces rq) b \<Longrightarrow>
       prio_of pk (piece_index b) \<ge> 0 \<Longrightarrow> wants_all pk rq sug (piece_index b) \<Longrightarrow> reached u b"
proof -
  let ?bm = "req_pieces rq" and ?e = "req_whole rq = 0"
  note result = that
  \<comment> \<open>a loop over the pieces \<open>xs\<close> of a picker \<open>pk'\<close> that differs in positions only\<close>
  have loop: thesis if s: "pick_search rnd r1 rq sug pk st = Some (pick_loop pk' rq sug xs st, pk')" and inv': "picker_inv pk'"
    and mv: "moves_only (pk\<lparr>m_dirty := m_dirty pk'\<rparr>) pk'" and xs: "\<forall>x \<in> set xs. x < num_pieces pk'"
    and all: "\<And>x. x < num_pieces pk' \<Longrightarrow> prio_of pk' x \<ge> 0 \<Longrightarrow> is_piece_free pk' ?bm x \<Longrightarrow> x \<in> set xs" for pk' xs
  proof -
    let ?pk = "pk\<lparr>m_dirty := m_dirty pk'\<rparr>"
    have np: "num_pieces pk' = num_pieces pk" using moves_num_pieces [OF mv] by simp
    have fr: "free_block pk' bm b = free_block pk bm b" for bm b using moves_free_block [OF mv] by simp
    have P': "P b" if "free_block pk' ?bm b" "\<not> filtered (m_piece_map pk' ! piece_index b)" for b
      using that P [of b] fr moves_norm(2) [OF mv, of "piece_index b"] by (auto simp: free_block_def)
    note g = pick_loop_gathers [OF inv' xs left refl, of rq P sug, OF P']
    show thesis
    proof (rule result [OF s inv' mv])
      from g show "gathers ?e P st (pick_loop pk' rq sug xs st)" by blast
      fix b assume b: "free_block pk ?bm b" "prio_of pk (piece_index b) \<ge> 0" "wants_all pk rq sug (piece_index b)"
      then have x: "piece_index b < num_pieces pk" by (simp add: free_block_def)
      have w: "wants_all pk' rq sug (piece_index b)" using b(3) moves_wants_all [OF mv, of "piece_index b"] x by simp
      then have "piece_index b \<in> set xs"
        using b(2) x np moves_norm(4) [OF mv, of "piece_index b"] by (intro all) (auto simp: wants_all_def)
      with g w b fr show "reached (pick_loop pk' rq sug xs st) b" by blast
    qed
  qed
  have seq: thesis if "pick_search rnd r1 rq sug pk st = Some (pick_loop pk rq sug xs st, pk)"
    "set xs = {m_cursor pk..<m_reverse_cursor pk}" for xs
  proof (rule loop [OF that(1) inv])
    show "moves_only (pk\<lparr>m_dirty := m_dirty pk\<rparr>) pk" by simp
    show "\<forall>x \<in> set xs. x < num_pieces pk"
      unfolding that(2) using inv by (auto simp: picker_inv_def counts_ok_def cursors_ok_def num_pieces_def)
    show "x \<in> set xs" if "x < num_pieces pk" "is_piece_free pk ?bm x" for x
      unfolding \<open>set xs = _\<close> using cursor_range(1) [OF inv that] by simp
  qed
  define pk1 where "pk1 = (if m_dirty pk then update_pieces rnd pk else pk)"
  have pk1: "picker_inv pk1 \<and> buckets_ok pk1 \<and> moves_only (pk\<lparr>m_dirty := m_dirty pk1\<rparr>) pk1"
  proof (cases "m_dirty pk")
    case True
    have "\<forall>p \<in> set (m_piece_map pk). piece_priority p < 8" "length (m_piece_map pk) < we_have_index"
      using inv by (auto simp: picker_inv_def map_ok_def pos_ok_def)
    from update_pieces_contract [OF this, of rnd] True update_pieces_inv [OF inv, of rnd] show ?thesis by (simp add: pk1_def)
  next
    case False
    with inv show ?thesis by (simp add: pk1_def picker_inv_def moves_only_def)
  qed
  have inv2: "picker_inv (pad_boundries pk1)"
    using pk1 pad_boundries_ok [of pk1] moves_inv_rest [of pk1 "pad_boundries pk1"] by (simp add: inv_split)
  have d2: "m_dirty (pad_boundries pk1) = m_dirty pk1" by (simp add: pad_boundries_def)
  have mv2: "moves_only (pk\<lparr>m_dirty := m_dirty (pad_boundries pk1)\<rparr>) (pad_boundries pk1)"
    unfolding d2 using pk1 pad_boundries_ok [of pk1] moves_only_trans by blast
  let ?o = "req_options rq"
  consider (sb) "sequential ?o" "pick_reverse ?o" | (sf) "sequential ?o" "\<not> pick_reverse ?o"
    | (rb) "\<not> sequential ?o" "rarest_first ?o" "pick_reverse ?o" | (rf) "\<not> sequential ?o" "rarest_first ?o" "\<not> pick_reverse ?o"
    | (rand) "\<not> sequential ?o" "\<not> rarest_first ?o" by blast
  then show thesis
  proof cases
    case sb
    show ?thesis by (rule seq [of "rev [m_cursor pk..<m_reverse_cursor pk]"]) (simp_all add: pick_search_def sb)
  next
    case sf
    show ?thesis by (rule seq [of "[m_cursor pk..<m_reverse_cursor pk]"]) (simp_all add: pick_search_def sf)
  next
    case rb
    let ?pk = "pad_boundries pk1"
    have b: "buckets_ok ?pk" "length (m_priority_boundries ?pk) mod 4 = 0" using pad_boundries_ok pk1 by auto
    show ?thesis
    proof (rule loop [OF _ inv2 mv2])
      show "pick_search rnd r1 rq sug pk st = Some (pick_loop ?pk rq sug (reverse_order ?pk) st, ?pk)"
        using rb by (simp add: pick_search_def pk1_def Let_def)
    qed (use buckets_pieces [OF b(1)] reverse_order_set [OF b] in auto)
  next
    case rf
    show ?thesis
    proof (rule loop [of pk1])
      show "pick_search rnd r1 rq sug pk st = Some (pick_loop pk1 rq sug (m_pieces pk1) st, pk1)"
        using rf by (simp add: pick_search_def pk1_def Let_def)
    qed (use pk1 buckets_pieces [of pk1] in auto)
  next
    case rand
    have s: "r1 mod num_pieces pk < num_pieces pk" using n by simp
    obtain u where "random_loop pk rq sug (r1 mod num_pieces pk) (r1 mod num_pieces pk) st = Some u" "gathers ?e P st u"
      using random_loop_returns [OF inv s, of rq P, OF P s] by blast
    with rand inv show ?thesis by (intro that [of u pk]) (simp_all add: pick_search_def Let_def)
  qed
qed

section \<open>The backups\<close>

definition all_picks :: "(piece_block \<Rightarrow> bool) \<Rightarrow> picks \<Rightarrow> bool" where
  "all_picks P st \<longleftrightarrow> (\<forall>b \<in> set (interesting_blocks st) \<union> set (backup_blocks st) \<union> set (backup_blocks2 st). P b)"

text \<open>How many blocks have been picked, of \<open>n\<close> in all.\<close>

definition tally :: "bool \<Rightarrow> int \<Rightarrow> picks \<Rightarrow> bool" where
  "tally exact n st \<longleftrightarrow>
     (int (length (interesting_blocks st)) + blocks_left st = n
      \<or> \<not> exact \<and> blocks_left st \<le> 0 \<and> n \<le> int (length (interesting_blocks st)))
   \<and> (exact \<longrightarrow> blocks_left st \<ge> 0)"

lemma gathers_all: "gathers e P st u \<Longrightarrow> all_picks P st \<Longrightarrow> all_picks P u"
  by (auto simp: gathers_def all_picks_def)

lemma gathers_tally: "gathers e P st u \<Longrightarrow> tally e n st \<Longrightarrow> tally e n u"
  by (auto simp: gathers_def tally_def)

lemma gathers_keeps: "gathers e P st u \<Longrightarrow> set (interesting_blocks st) \<subseteq> set (interesting_blocks u)"
  by (auto simp: gathers_def)

lemma append_blocks_spec:
  assumes "n > 0"
  shows "append_blocks dst src n = (dst @ take (nat (min (int (length src)) n)) src, n - min (int (length src)) n)"
  using assms by (auto simp: append_blocks_def Let_def)

lemma append_backup_spec:
  assumes "blocks_left st > 0" "f = append_backup \<or> f = append_backup2"
  shows "all_picks P st \<Longrightarrow> all_picks P (f st)" "tally e n st \<Longrightarrow> tally e n (f st)" "reached st b \<Longrightarrow> reached (f st) b"
    "set (interesting_blocks st) \<subseteq> set (interesting_blocks (f st))"
proof -
  note a = append_blocks_spec [OF assms(1)]
  show "all_picks P st \<Longrightarrow> all_picks P (f st)" "set (interesting_blocks st) \<subseteq> set (interesting_blocks (f st))"
    using assms(2) by (auto simp: append_backup_def append_backup2_def a all_picks_def dest!: in_set_takeD)
  show "tally e n st \<Longrightarrow> tally e n (f st)"
    using assms by (auto simp: append_backup_def append_backup2_def a tally_def min_def split: if_splits)
  show "reached st b \<Longrightarrow> reached (f st) b"
    using assms by (auto simp: append_backup_def append_backup2_def a reached_def min_def split: if_splits)
qed

lemma append_backups_reached:
  assumes "blocks_left st > 0" "u = append_backup st" "blocks_left u > 0" "v = append_backup2 u" "blocks_left v > 0" "reached st b"
  shows "b \<in> set (interesting_blocks v)"
proof -
  have "reached u b" using append_backup_spec(3) assms by blast
  then have "reached v b" using append_backup_spec(3) assms by blast
  moreover have "backup_blocks v = []" "backup_blocks2 v = []"
    using assms by (simp_all add: append_backup_def append_backup2_def split_beta)
  ultimately show ?thesis using assms(5) by (simp add: reached_def)
qed

lemma pick_partials_spec:
  assumes inv: "picker_inv pk" and left: "blocks_left st > 0" and u: "u = pick_partials pk rq st"
    and P: "\<And>b. free_block pk (req_pieces rq) b \<Longrightarrow> prioritize_partials (req_options rq) \<Longrightarrow> P b"
  shows "all_picks P st \<Longrightarrow> all_picks P u" "tally (req_whole rq = 0) n st \<Longrightarrow> tally (req_whole rq = 0) n u"
    "prioritize_partials (req_options rq) \<Longrightarrow> \<not> on_parole (req_options rq) \<Longrightarrow> blocks_left u > 0 \<Longrightarrow>
      free_block pk (req_pieces rq) b \<Longrightarrow> downloading (m_piece_map pk ! piece_index b) \<Longrightarrow> b \<in> set (interesting_blocks u)"
proof -
  let ?e = "req_whole rq = 0" and ?par = "prioritize_partials (req_options rq)"
  define t where "t = partials_loop pk rq (m_downloads pk) st"
  have g: "gathers ?e P st t" "\<And>b. \<not> on_parole (req_options rq) \<Longrightarrow> free_block pk (req_pieces rq) b \<Longrightarrow>
      piece_index b \<in> dp_index ` set (m_downloads pk) \<Longrightarrow> reached t b" if ?par
    using partials_loop_gathers [OF inv subset_refl left t_def, of P] P that by auto
  let ?a = "append_backup t" and ?b = "append_backup2 (append_backup t)"
  note s1 = append_backup_spec [of t append_backup] and s2 = append_backup_spec [of ?a append_backup2]
  have cases: "u = st \<and> \<not> ?par \<or> ?par \<and> (u = t \<and> blocks_left t \<le> 0 \<or> blocks_left t > 0 \<and> u = ?a \<and> blocks_left ?a \<le> 0
      \<or> blocks_left t > 0 \<and> blocks_left ?a > 0 \<and> u = ?b)"
    unfolding u pick_partials_def t_def [symmetric] Let_def by auto
  show "all_picks P st \<Longrightarrow> all_picks P u" using cases s1(1) s2(1) gathers_all g(1) by blast
  show "tally ?e n st \<Longrightarrow> tally ?e n u" using cases s1(2) s2(2) gathers_tally g(1) by blast
  assume par: ?par "\<not> on_parole (req_options rq)" and pos: "blocks_left u > 0"
    and b: "free_block pk (req_pieces rq) b" "downloading (m_piece_map pk ! piece_index b)"
  have "piece_index b \<in> dp_index ` set (m_downloads pk)"
    using inv b by (auto simp: picker_inv_def marks_ok_def free_block_def)
  then have "reached t b" using g(2) par b by blast
  then show "b \<in> set (interesting_blocks u)" using append_backups_reached [of t ?a ?b b] cases par pos by auto
qed

section \<open>Busy blocks\<close>

text \<open>A block that another peer has been asked for, of a piece that is not filtered.\<close>

definition busy_block :: "piece_picker \<Rightarrow> request \<Rightarrow> piece_block \<Rightarrow> bool" where
  "busy_block pk rq b \<longleftrightarrow>
     piece_index b < num_pieces pk \<and> block_index b < blocks_in_piece pk (piece_index b)
   \<and> req_pieces rq ! piece_index b \<and> \<not> have_piece pk (piece_index b) \<and> \<not> filtered (m_piece_map pk ! piece_index b)
   \<and> (let info = piece_blocks pk (piece_index b) ! block_index b
      in block_state info = state_requested \<and> peer info \<noteq> req_peer rq)"

lemma busy_blocks_busy:
  assumes inv: "picker_inv pk" and "set dps \<subseteq> set (m_downloads pk)" "b \<in> set (busy_blocks pk rq dps)"
  shows "busy_block pk rq b"
  using assms(2,3)
proof (induction dps)
  case (Cons dp dps)
  then have dp: "dp \<in> set (m_downloads pk)" by simp
  note e = entry_free [OF inv dp]
  let ?temp = "map (\<lambda>(j, info). \<lparr>piece_index = dp_index dp, block_index = j\<rparr>)
     (filter (\<lambda>(j, info). \<not> (block_state info \<noteq> state_requested \<or> peer info = req_peer rq)) (enumerate 0 (infos_of pk dp)))"
  consider "b \<in> set (busy_blocks pk rq dps)"
    | "b \<in> set ?temp" "req_pieces rq ! dp_index dp" "piece_priority (m_piece_map pk ! dp_index dp) \<noteq> 0"
    using Cons.prems(2) by (auto simp: Let_def split: if_splits)
  then show ?case
  proof cases
    case 1
    with Cons show ?thesis by simp
  next
    case 2
    have len: "length (piece_blocks pk (dp_index dp)) = blocks_in_piece pk (dp_index dp)"
      using e(1) length_blocks_of by metis
    from 2 obtain j where j: "b = \<lparr>piece_index = dp_index dp, block_index = j\<rparr>" "j < length (blocks_of pk dp)"
      "block_state (blocks_of pk dp ! j) = state_requested" "peer (blocks_of pk dp ! j) \<noteq> req_peer rq"
      by (auto simp: infos_of_blocks in_set_enumerate_eq)
    with 2(2,3) e len show ?thesis by (simp add: busy_block_def filtered_def Let_def)
  qed
qed simp

lemma moves_busy_block:
  assumes "moves_only pk pk'"
  shows "busy_block pk' rq b = busy_block pk rq b"
proof -
  have "piece_blocks pk' = piece_blocks pk"
    by (simp add: fun_eq_iff piece_blocks_def moves_blocks [OF assms] split: option.split)
  then show ?thesis using moves_num_pieces [OF assms] moves_blocks [OF assms] moves_norm [OF assms]
    by (auto simp: busy_block_def have_piece_def)
qed

lemma dirty_busy [simp]: "busy_block (pk\<lparr>m_dirty := d\<rparr>) = busy_block pk"
  by (simp add: fun_eq_iff busy_block_def)

text \<open>The end of a search: the backups, and a busy block if there is still room.\<close>

lemma pick_rest_spec:
  assumes inv: "picker_inv pk" and left: "blocks_left st > 0" and u: "u = pick_rest r2 pk rq st"
    and P: "\<And>b. busy_block pk rq b \<Longrightarrow> \<not> on_parole (req_options rq) \<Longrightarrow> P b" and all: "all_picks P st"
    and t: "tally (req_whole rq = 0) n st"
  shows "\<forall>b \<in> set u. P b" "req_whole rq = 0 \<Longrightarrow> int (length u) \<le> n"
    "int (length u) < n \<Longrightarrow> reached st b \<Longrightarrow> b \<in> set u"
proof -
  let ?e = "req_whole rq = 0" and ?a = "append_backup st" and ?b = "append_backup2 (append_backup st)"
  let ?temp = "busy_blocks pk rq (m_downloads pk)"
  note s1 = append_backup_spec [OF left, of append_backup] and s2 = append_backup_spec [of ?a append_backup2]
  have a: "all_picks P ?a" "tally ?e n ?a" using s1 all t by auto
  have bb: "all_picks P ?b" "tally ?e n ?b" if "blocks_left ?a > 0" using s2 a that by auto
  have busy: "P (?temp ! (r2 mod length ?temp))" if "?temp \<noteq> []" "\<not> on_parole (req_options rq)"
    using that by (intro P busy_blocks_busy [OF inv subset_refl]) simp_all
  consider (one) "blocks_left ?a \<le> 0" "u = interesting_blocks ?a"
    | (two) "blocks_left ?a > 0" "u = interesting_blocks ?b"
    | (more) "blocks_left ?a > 0" "blocks_left ?b > 0" "?temp \<noteq> []" "\<not> on_parole (req_options rq)"
        "u = interesting_blocks ?b @ [?temp ! (r2 mod length ?temp)]"
    using u unfolding pick_rest_def pick_busy_def Let_def by (metis not_le)
  then have "(\<forall>b \<in> set u. P b) \<and> (?e \<longrightarrow> int (length u) \<le> n) \<and> (int (length u) < n \<longrightarrow> reached st b \<longrightarrow> b \<in> set u)"
  proof cases
    case one
    with a show ?thesis by (auto simp: all_picks_def tally_def)
  next
    case two
    have "b \<in> set u" if "int (length u) < n" "reached st b"
      using append_backups_reached [OF left refl two(1) refl _ that(2)] bb(2) [OF two(1)] that(1) two(2)
      by (auto simp: tally_def)
    with two bb show ?thesis by (auto simp: all_picks_def tally_def)
  next
    case more
    have "b \<in> set u" if "reached st b"
      using append_backups_reached [OF left refl more(1) refl more(2) that] more(5) by simp
    with more bb busy show ?thesis by (auto simp: all_picks_def tally_def)
  qed
  then show "\<forall>b \<in> set u. P b" "?e \<Longrightarrow> int (length u) \<le> n" "int (length u) < n \<Longrightarrow> reached st b \<Longrightarrow> b \<in> set u" by auto
qed

section \<open>What is picked\<close>

text \<open>
  A block may be picked when it is free and, unless it is of a piece that is being downloaded
  and those are looked at first, its piece is not filtered; one block may be picked although
  another peer has been asked for it.
\<close>

definition may_pick :: "piece_picker \<Rightarrow> request \<Rightarrow> piece_block \<Rightarrow> bool" where
  "may_pick pk rq b \<longleftrightarrow>
     free_block pk (req_pieces rq) b
       \<and> (filtered (m_piece_map pk ! piece_index b) \<longrightarrow> prioritize_partials (req_options rq))
   \<or> busy_block pk rq b \<and> \<not> on_parole (req_options rq)"

lemma effective_request_simps [simp]:
  "req_pieces (effective_request pk rq) = req_pieces rq" "on_parole (req_options (effective_request pk rq)) = on_parole (req_options rq)"
  "sequential (req_options (effective_request pk rq)) = sequential (req_options rq)"
  "rarest_first (req_options (effective_request pk rq)) = rarest_first (req_options rq)"
  "req_peer (effective_request pk rq) = req_peer rq"
  by (simp_all add: effective_request_def Let_def)

lemma pick_pieces_spec:
  assumes inv: "picker_inv pk" and n: "num_pieces pk > 0" "num_blocks > 0" and sug: "\<forall>x \<in> set suggested. x < num_pieces pk"
    and rq: "rq = effective_request pk rq0"
  obtains u pk' where "pick_pieces rnd r1 r2 rq0 num_blocks suggested dst pk = Some (u, pk')"
    "picker_inv pk'" "moves_only (pk\<lparr>m_dirty := m_dirty pk'\<rparr>) pk'"
    "\<forall>b \<in> set u. b \<in> set dst \<or> may_pick pk rq b"
    "req_whole rq = 0 \<Longrightarrow> int (length u) \<le> int (length dst) + num_blocks"
    "\<And>b. int (length u) < int (length dst) + num_blocks \<Longrightarrow> \<not> on_parole (req_options rq) \<Longrightarrow>
       sequential (req_options rq) \<or> rarest_first (req_options rq) \<Longrightarrow>
       free_block pk (req_pieces rq) b \<Longrightarrow> prio_of pk (piece_index b) \<ge> 0 \<Longrightarrow> b \<in> set u"
proof -
  let ?e = "req_whole rq = 0" and ?N = "int (length dst) + num_blocks" and ?bm = "req_pieces rq"
    and ?par = "prioritize_partials (req_options rq)"
  define P where "P b \<longleftrightarrow> b \<in> set dst \<or> may_pick pk rq b" for b
  define s0 where "s0 = \<lparr>interesting_blocks = dst, backup_blocks = [], backup_blocks2 = [], blocks_left = num_blocks\<rparr>"
  define s1 where "s1 = pick_partials pk rq s0"
  define s2 where "s2 = pick_loop pk rq [] suggested s1"
  have Pf: "P b" if "free_block pk ?bm b" "\<not> filtered (m_piece_map pk ! piece_index b)" for b
    using that by (simp add: P_def may_pick_def)
  have Pp: "P b" if "free_block pk ?bm b" ?par for b using that by (simp add: P_def may_pick_def)
  have 0: "all_picks P s0" "tally ?e ?N s0" "blocks_left s0 > 0" using n by (auto simp: s0_def all_picks_def tally_def P_def)
  note p1 = pick_partials_spec [OF inv 0(3) s1_def, of P, OF Pp]
  have 1: "all_picks P s1" "tally ?e ?N s1" using p1(1,2) 0 by auto
  have prio: "is_piece_free pk ?bm x" if "free_block pk ?bm b" "prio_of pk x \<ge> 0" "x = piece_index b" for b x
    using that by (auto simp: is_piece_free_def free_block_def priority_def split: if_splits)
  have fin: "\<forall>b \<in> set (interesting_blocks s). b \<in> set dst \<or> may_pick pk rq b"
      "?e \<Longrightarrow> int (length (interesting_blocks s)) \<le> ?N" "\<not> int (length (interesting_blocks s)) < ?N"
    if "all_picks P s" "tally ?e ?N s" "blocks_left s \<le> 0" for s
    using that by (auto simp: all_picks_def P_def tally_def)
  have pp: "pick_pieces rnd r1 r2 rq0 num_blocks suggested dst pk =
      (if blocks_left s1 \<le> 0 then Some (interesting_blocks s1, pk)
       else if blocks_left s2 \<le> 0 then Some (interesting_blocks s2, pk)
       else Option.bind (pick_search rnd r1 rq suggested pk s2)
         (\<lambda>(st, pk). if blocks_left st \<le> 0 then Some (interesting_blocks st, pk) else Some (pick_rest r2 pk rq st, pk)))"
    by (simp add: pick_pieces_def rq [symmetric] s0_def s1_def s2_def Let_def)
  have mv0: "moves_only (pk\<lparr>m_dirty := m_dirty pk\<rparr>) pk" by simp
  show thesis
  proof (cases "blocks_left s1 \<le> 0")
    case True
    with fin [OF 1 True] inv mv0 show ?thesis by (intro that [of "interesting_blocks s1" pk]) (simp_all add: pp)
  next
    case l1: False
    note g2 = pick_loop_gathers [OF inv sug _ s2_def, of P, OF _ Pf]
    have 2: "all_picks P s2" "tally ?e ?N s2" using g2 l1 1 gathers_all gathers_tally by auto
    show ?thesis
    proof (cases "blocks_left s2 \<le> 0")
      case True
      with l1 fin [OF 2 True] inv mv0 show ?thesis by (intro that [of "interesting_blocks s2" pk]) (simp_all add: pp)
    next
      case l2: False
      then have l2': "blocks_left s2 > 0" by simp
      obtain s3 pk' where s3: "pick_search rnd r1 rq suggested pk s2 = Some (s3, pk')" "picker_inv pk'"
        "moves_only (pk\<lparr>m_dirty := m_dirty pk'\<rparr>) pk'" "gathers ?e P s2 s3"
        "\<And>b. sequential (req_options rq) \<or> rarest_first (req_options rq) \<Longrightarrow> free_block pk ?bm b \<Longrightarrow>
          prio_of pk (piece_index b) \<ge> 0 \<Longrightarrow> wants_all pk rq suggested (piece_index b) \<Longrightarrow> reached s3 b"
        by (rule pick_search_gathers [where P = P and rnd = rnd and ?r1.0 = r1 and sug = suggested and rq = rq, OF inv n(1) l2']) (erule (1) Pf, rule that, assumption+)
      have 3: "all_picks P s3" "tally ?e ?N s3" using s3(4) 2 gathers_all gathers_tally by auto
      show ?thesis
      proof (cases "blocks_left s3 \<le> 0")
        case True
        with l1 l2 s3(1-3) fin [OF 3 True] show ?thesis by (intro that [of "interesting_blocks s3" pk']) (simp_all add: pp)
      next
        case l3: False
        then have l3': "blocks_left s3 > 0" by simp
        define u where "u = pick_rest r2 pk' rq s3"
        have Pb: "P b" if "busy_block pk' rq b" "\<not> on_parole (req_options rq)" for b
          using that moves_busy_block [OF s3(3)] by (simp add: P_def may_pick_def)
        note r = pick_rest_spec [OF s3(2) l3' u_def, of P ?N, OF Pb 3]
        have reach: "reached s3 b" if "\<not> on_parole (req_options rq)" "sequential (req_options rq) \<or> rarest_first (req_options rq)"
          "free_block pk ?bm b" "prio_of pk (piece_index b) \<ge> 0" for b
        proof (cases "downloading (m_piece_map pk ! piece_index b) \<and> ?par")
          case True
          then have "b \<in> set (interesting_blocks s1)" using p1(3) that l1 by simp
          then have "b \<in> set (interesting_blocks s3)"
            using gathers_keeps [OF s3(4)] gathers_keeps [of ?e P s1 s2] g2 l1 by auto
          then show ?thesis by (simp add: reached_def)
        next
          case False
          have free: "is_piece_free pk ?bm (piece_index b)" using prio that by blast
          show ?thesis
          proof (cases "piece_index b \<in> set suggested")
            case True
            with free False that have "wants_all pk rq [] (piece_index b)" by (simp add: wants_all_def)
            with g2 l1 True that have "reached s2 b" by simp
            with gathers_reached [OF s3(4)] show ?thesis by blast
          next
            case ns: False
            with free False that s3(5) show ?thesis by (simp add: wants_all_def)
          qed
        qed
        show ?thesis
        proof (rule that [OF _ s3(2,3), of u])
          show "pick_pieces rnd r1 r2 rq0 num_blocks suggested dst pk = Some (u, pk')"
            using l1 l2 l3 s3(1) by (simp add: pp u_def)
        qed (use r reach in \<open>auto simp: P_def\<close>)
      qed
    qed
  qed
qed

end
