(* ===== verification/Picker_Run.thy ===== *)
theory Picker_Run
  imports Picker_Pick
begin

text \<open>
  The piece picker as a state machine: a step is a call of one of its operations, its guards
  what the code asserts of the arguments and the theorems need. Every state that is reached
  from a new picker passes the class's own \<open>check_invariant\<close>. The rest of the theory states
  what the operations promise to their callers in such a state.
\<close>

section \<open>Steps\<close>

text \<open>
  Not every assertion of the code is a guard: the calls are allowed, among others, for pieces
  without peers and with reference counts that wrap around. \<open>num_peers\<close> has 14 bits and must
  not wrap; the counters of a piece have 16, so \<open>init\<close> is called for fewer than \<open>2 ^ 15\<close> blocks per piece (512 MiB),
  and what happens otherwise is \<open>requested_counter_wraps\<close> in the theory \<open>Picker_Claims\<close>; \<open>init\<close> must not make the piece map smaller, since \<open>m_num_filtered\<close> would go on
  counting the pieces that are cut off.
\<close>

inductive picker_step :: "piece_picker \<Rightarrow> piece_picker \<Rightarrow> bool" where
  init: "num_pieces pk \<le> n \<Longrightarrow> 0 < n \<Longrightarrow> n < we_have_index \<Longrightarrow> 0 < bpp \<Longrightarrow> bl \<le> bpp \<Longrightarrow> bpp < 2 ^ 15 \<Longrightarrow>
    picker_step pk (init bpp bl n pk)"
| inc_refcount_all: "picker_step pk (inc_refcount_all pk)"
| dec_refcount_all: "picker_step pk (dec_refcount_all pk)"
| inc_refcount: "x < num_pieces pk \<Longrightarrow> picker_step pk (inc_refcount r x pk)"
| dec_refcount: "x < num_pieces pk \<Longrightarrow> peer_count (m_piece_map pk ! x) > 0 \<Longrightarrow>
    picker_step pk (dec_refcount r x pk)"
| inc_refcount_mask: "length bits = num_pieces pk \<Longrightarrow> picker_step pk (inc_refcount_mask bits pk)"
| dec_refcount_mask: "length bits = num_pieces pk \<Longrightarrow> picker_step pk (dec_refcount_mask bits pk)"
| update_pieces: "m_dirty pk \<Longrightarrow> picker_step pk (update_pieces rnd pk)"
| we_have: "x < num_pieces pk \<Longrightarrow> picker_step pk (we_have x pk)"
| we_dont_have: "x < num_pieces pk \<Longrightarrow> picker_step pk (we_dont_have r x pk)"
| set_piece_priority: "x < num_pieces pk \<Longrightarrow> v \<le> 7 \<Longrightarrow>
    picker_step pk (snd (set_piece_priority r x v pk))"
| mark_as_downloading: "piece_index b < num_pieces pk \<Longrightarrow>
    block_index b < blocks_in_piece pk (piece_index b) \<Longrightarrow> \<not> have_piece pk (piece_index b) \<Longrightarrow>
    state \<noteq> none \<Longrightarrow> num_peers (piece_blocks pk (piece_index b) ! block_index b) + 1 < 2 ^ 14 \<Longrightarrow>
    picker_step pk (snd (mark_as_downloading r b pr state pk))"
| mark_as_writing: "piece_index b < num_pieces pk \<Longrightarrow>
    block_index b < blocks_in_piece pk (piece_index b) \<Longrightarrow>
    picker_step pk (snd (mark_as_writing r b pr pk))"
| write_failed: "piece_index b < num_pieces pk \<Longrightarrow>
    block_index b < blocks_in_piece pk (piece_index b) \<Longrightarrow>
    block_state (piece_blocks pk (piece_index b) ! block_index b) = state_writing \<Longrightarrow>
    picker_step pk (write_failed r b pk)"
| mark_as_finished: "piece_index b < num_pieces pk \<Longrightarrow>
    block_index b < blocks_in_piece pk (piece_index b) \<Longrightarrow>
    block_state (piece_blocks pk (piece_index b) ! block_index b) \<noteq> state_requested \<Longrightarrow>
    picker_step pk (mark_as_finished r b pr pk)"
| abort_download: "piece_index b < num_pieces pk \<Longrightarrow>
    block_index b < blocks_in_piece pk (piece_index b) \<Longrightarrow> picker_step pk (abort_download r b pk)"
| restore_piece: "x < num_pieces pk \<Longrightarrow> downloading (m_piece_map pk ! x) \<Longrightarrow>
    picker_step pk (restore_piece r x pk)"
| clear_peer: "picker_step pk (clear_peer pr pk)"
| pick_pieces: "0 < num_pieces pk \<Longrightarrow> 0 < num_blocks \<Longrightarrow> \<forall>x \<in> set suggested. x < num_pieces pk \<Longrightarrow>
    pick_pieces rnd r1 r2 rq num_blocks suggested dst pk = Some (bs, pk') \<Longrightarrow> picker_step pk pk'"

definition reachable :: "piece_picker \<Rightarrow> bool" where
  "reachable pk \<longleftrightarrow> picker_step\<^sup>*\<^sup>* new_piece_picker pk"

lemma reachable_new [simp]: "reachable new_piece_picker"
  by (simp add: reachable_def)

lemma reachable_step: "reachable pk \<Longrightarrow> picker_step pk pk' \<Longrightarrow> reachable pk'"
  unfolding reachable_def by (rule rtranclp.rtrancl_into_rtrancl)

lemma picker_step_inv: "picker_step pk pk' \<Longrightarrow> picker_inv pk \<Longrightarrow> picker_inv pk'"
proof (induction rule: picker_step.induct)
  case (inc_refcount_mask bits pk)
  then show ?case unfolding inc_refcount_mask_def
    by (intro refcount_mask_inv) (auto simp: inc_peer_count_marks)
next
  case (dec_refcount_mask bits pk)
  then show ?case unfolding dec_refcount_mask_def
    by (intro refcount_mask_inv) (auto simp: dec_peer_count_marks)
next
  case (mark_as_downloading b pk state r pr)
  then show ?case by (intro mark_as_downloading_spec(1)) (auto simp: have_piece_def)
next
  case (pick_pieces pk num_blocks suggested rnd r1 r2 rq dst bs pk')
  then show ?case using pick_pieces_spec [of pk num_blocks suggested "effective_request pk rq" rq] by (metis option.inject prod.inject)
qed (blast intro: init_inv inc_refcount_all_inv dec_refcount_all_inv inc_refcount_inv dec_refcount_inv
    update_pieces_inv we_have_inv we_dont_have_inv set_piece_priority_inv clear_peer_inv(1)
    mark_as_writing_spec [THEN conjunct1] write_failed_spec [THEN conjunct1]
    mark_as_finished_spec [THEN conjunct1] abort_download_spec [THEN conjunct1]
    restore_piece_spec [THEN conjunct1])+

lemma reachable_inv: "reachable pk \<Longrightarrow> picker_inv pk"
  unfolding reachable_def
  by (induction rule: rtranclp_induct) (auto intro: new_picker_inv picker_step_inv)

end
