(* ===== verification/Picker_Claims.thy ===== *)
theory Picker_Claims
  imports Picker_Run "HOL-Library.Code_Target_Nat"
begin

text \<open>
  What the piece picker promises to its callers, stated of every state it can reach: its own
  invariant check, the array of pickable pieces, and the life of a block. The run below is the
  concrete state the witnesses are evaluated on.
\<close>

section \<open>A run\<close>

text \<open>Three pieces of two blocks, the last one of one block; a seed arrives and a block is requested.\<close>

definition demo_init :: piece_picker where
  "demo_init = update_pieces (\<lambda>_. 0) (inc_refcount_all (init 2 1 3 new_piece_picker))"

definition demo_block :: piece_block where
  "demo_block = \<lparr>piece_index = 0, block_index = 0\<rparr>"

definition demo_requested :: piece_picker where
  "demo_requested = snd (mark_as_downloading 5 demo_block (Some 7) fast demo_init)"

definition demo_writing :: piece_picker where
  "demo_writing = snd (mark_as_writing 5 demo_block (Some 7) demo_requested)"

lemma demo_init_reachable: "reachable demo_init"
proof -
  have "reachable (init 2 1 3 new_piece_picker)"
    by (rule reachable_step [OF reachable_new picker_step.init]) (simp_all add: num_pieces_def new_piece_picker_def we_have_index_def)
  from reachable_step [OF this picker_step.inc_refcount_all]
  have "reachable (inc_refcount_all (init 2 1 3 new_piece_picker))" .
  from reachable_step [OF this picker_step.update_pieces] show ?thesis
    by (simp add: demo_init_def inc_refcount_all_def init_def new_piece_picker_def Let_def)
qed

lemma demo_guards:
  "piece_index demo_block < num_pieces demo_init"
  "block_index demo_block < blocks_in_piece demo_init (piece_index demo_block)"
  "\<not> have_piece demo_init (piece_index demo_block)"
  "num_peers (piece_blocks demo_init (piece_index demo_block) ! block_index demo_block) + 1 < 2 ^ 14"
  "piece_index demo_block < num_pieces demo_requested"
  "block_index demo_block < blocks_in_piece demo_requested (piece_index demo_block)"
  "piece_index demo_block < num_pieces demo_writing"
  "block_index demo_block < blocks_in_piece demo_writing (piece_index demo_block)"
  "block_state (piece_blocks demo_writing (piece_index demo_block) ! block_index demo_block) = state_writing"
  "downloading (m_piece_map demo_writing ! 0)" "\<not> have_piece demo_requested (piece_index demo_block)" "\<not> m_dirty demo_writing"
  by code_simp+

lemma demo_requested_reachable: "reachable demo_requested"
  unfolding demo_requested_def
  by (rule reachable_step [OF demo_init_reachable picker_step.mark_as_downloading]) (use demo_guards in auto)

lemma demo_writing_reachable: "reachable demo_writing"
  unfolding demo_writing_def
  by (rule reachable_step [OF demo_requested_reachable picker_step.mark_as_writing]) (use demo_guards in auto)

section \<open>The invariant\<close>

text \<open>
  C1. Whatever sequence of calls a picker has served, with whatever random numbers, it passes
  the class's own \<open>check_invariant\<close>, as long as a piece has fewer than \<open>2 ^ 15\<close> blocks (512 MiB; the counters have
  16 bits, and beyond that they wrap around, see \<open>requested_counter_wraps\<close>): the array of pickable pieces is divided into buckets by
  priority and every piece is where its entry says; the download queue is ordered by the
  number of blocks that have arrived, its counters are the numbers of blocks in each state and
  it has exactly one entry for every piece marked as downloading; \<open>m_num_have\<close>,
  \<open>m_num_filtered\<close> and \<open>m_num_have_filtered\<close> count what they say; and the cursors delimit
  the pieces that are still wanted.
\<close>

theorem picker_check_invariant: "reachable pk \<Longrightarrow> check_invariant pk"
  by (rule picker_inv_check [OF reachable_inv])

theorem picker_check_invariant_witness: "reachable demo_writing \<and> check_invariant demo_writing"
  using picker_check_invariant [OF demo_writing_reachable] demo_writing_reachable by simp

section \<open>The array of pickable pieces\<close>

definition bucket_pieces :: "piece_picker \<Rightarrow> nat \<Rightarrow> nat list" where
  "bucket_pieces pk k =
     (let bs = m_priority_boundries pk
      in if k < length bs then map ((!) (m_pieces pk)) [bucket_start bs k..<bs ! k] else [])"

lemma buckets_ok_pieces:
  assumes "buckets_ok pk"
  shows "distinct (m_pieces pk)" "set (m_pieces pk) = {x. x < num_pieces pk \<and> prio_of pk x \<ge> 0}"
    "sorted (map (prio_of pk) (m_pieces pk))" "set (bucket_pieces pk k) = {x. x < num_pieces pk \<and> prio_of pk x = int k}"
proof -
  let ?bs = "m_priority_boundries pk" and ?ps = "m_pieces pk" and ?pr = "prm (m_seeds pk) (m_piece_map pk)"
  from assms have lay: "layout (num_pieces pk) ?pr (ixm (m_piece_map pk)) ?bs ?ps"
    by (simp add: buckets_ok_def num_pieces_def)
  then have bs: "sorted ?bs" "last ?bs = length ?ps" by (auto simp: layout_def)
  show "distinct ?ps"
    unfolding distinct_conv_nth using layout_at(2) [OF lay] by metis
  have in_b: "in_bucket ?pr ?bs q (?ps ! q)" if "q < length ?ps" for q using lay that by (simp add: layout_def)
  show set: "set ?ps = {x. x < num_pieces pk \<and> prio_of pk x \<ge> 0}"
  proof
    show "set ?ps \<subseteq> {x. x < num_pieces pk \<and> prio_of pk x \<ge> 0}"
      using layout_at(1,3) [OF lay] by (auto simp: in_set_conv_nth)
    show "{x. x < num_pieces pk \<and> prio_of pk x \<ge> 0} \<subseteq> set ?ps"
      using lay unfolding layout_def by (metis (mono_tags, lifting) mem_Collect_eq nth_mem subsetI)
  qed
  show "sorted (map (prio_of pk) ?ps)"
    unfolding sorted_iff_nth_mono
  proof (intro allI impI)
    fix i j assume ij: "i \<le> j" "j < length (map (prio_of pk) ?ps)"
    then obtain a b where a: "a < length ?bs" "?pr (?ps ! i) = int a" "bucket_start ?bs a \<le> i" "i < ?bs ! a"
      and b: "b < length ?bs" "?pr (?ps ! j) = int b" "bucket_start ?bs b \<le> j" "j < ?bs ! b"
      using in_b [of i] in_b [of j] by (auto elim!: in_bucketE)
    have "a \<le> b"
    proof (rule ccontr)
      assume "\<not> a \<le> b"
      then have "?bs ! b \<le> bucket_start ?bs a" using bs(1) a(1) by (auto simp: bucket_start_def intro!: sorted_nth_mono)
      with a b ij show False by simp
    qed
    with a b ij show "map (prio_of pk) ?ps ! i \<le> map (prio_of pk) ?ps ! j" by simp
  qed
  show "set (bucket_pieces pk k) = {x. x < num_pieces pk \<and> prio_of pk x = int k}"
  proof (cases "k < length ?bs")
    case True
    have le: "?bs ! k \<le> length ?ps" using sorted_last_ge [OF bs(1) True] bs(2) by simp
    have "?pr (?ps ! q) = int k \<and> ?ps ! q < num_pieces pk" if "bucket_start ?bs k \<le> q" "q < ?bs ! k" for q
      using in_bucket_at [OF in_b bs(1) True that] layout_at(1) [OF lay] that le by simp
    moreover have "\<exists>q. bucket_start ?bs k \<le> q \<and> q < ?bs ! k \<and> ?ps ! q = x" if "x < num_pieces pk" "?pr x = int k" for x
    proof -
      from lay that have q: "ixm (m_piece_map pk) x < length ?ps" "?ps ! ixm (m_piece_map pk) x = x" by (auto simp: layout_def)
      with in_b [OF q(1)] that(2) show ?thesis by (auto elim!: in_bucketE)
    qed
    ultimately show ?thesis using True by (auto simp: bucket_pieces_def Let_def image_iff) (metis atLeastLessThan_iff)
  next
    case False
    have "?pr x \<noteq> int k" if "x < num_pieces pk" for x
    proof
      assume pr: "?pr x = int k"
      from lay that pr have "ixm (m_piece_map pk) x < length ?ps" "?ps ! ixm (m_piece_map pk) x = x" by (auto simp: layout_def)
      with in_b pr False show False by (metis in_bucketE of_nat_eq_iff)
    qed
    with False show ?thesis by (auto simp: bucket_pieces_def)
  qed
qed

text \<open>
  C8. As long as the array is not dirty it holds exactly the pieces that may be picked (not
  filtered, not ours, and some peer has them), each of them once, in the order of their
  priority.
\<close>

theorem pickable_pieces_sorted:
  assumes "reachable pk" "\<not> m_dirty pk"
  shows "distinct (m_pieces pk) \<and> set (m_pieces pk) = {x. x < num_pieces pk \<and> prio_of pk x \<ge> 0}
    \<and> sorted (map (prio_of pk) (m_pieces pk))"
  using buckets_ok_pieces [of pk] reachable_inv [OF assms(1)] assms(2) by (simp add: picker_inv_def)

theorem pickable_pieces_sorted_witness:
  "m_pieces demo_writing = [0, 2, 1] \<and> sorted (map (prio_of demo_writing) (m_pieces demo_writing))"
proof -
  have "sorted (map (prio_of demo_writing) (m_pieces demo_writing))"
    using pickable_pieces_sorted [OF demo_writing_reachable] demo_guards by simp
  moreover have "m_pieces demo_writing = [0, 2, 1]" by code_simp
  ultimately show ?thesis by simp
qed

text \<open>
  C7. The incremental \<open>add\<close>, \<open>remove\<close> and \<open>update\<close> keep the array equivalent to the one the
  full rebuild computes: in a state that is not dirty every bucket holds the same pieces as it
  would after \<open>update_pieces\<close>, whatever the random numbers.
\<close>

theorem incremental_equals_rebuild:
  assumes "reachable pk" "\<not> m_dirty pk"
  shows "set (bucket_pieces pk k) = set (bucket_pieces (update_pieces rnd pk) k)"
proof -
  have inv: "picker_inv pk" by (rule reachable_inv [OF assms(1)])
  then have b: "buckets_ok pk" using assms(2) by (simp add: picker_inv_def)
  have "\<forall>p \<in> set (m_piece_map pk). piece_priority p < 8" "length (m_piece_map pk) < we_have_index"
    using inv by (auto simp: picker_inv_def map_ok_def pos_ok_def)
  note u = update_pieces_contract [OF this, of rnd]
  then have "num_pieces (update_pieces rnd pk) = num_pieces pk"
    using moves_num_pieces [of "pk\<lparr>m_dirty := False\<rparr>"] by (simp add: num_pieces_def)
  moreover have "prio_of (update_pieces rnd pk) x = prio_of pk x" for x
    using u reindexed_prm by (auto simp: moves_only_def dest: fun_cong)
  ultimately show ?thesis using buckets_ok_pieces(4) [OF b] buckets_ok_pieces(4) [of "update_pieces rnd pk"] u by simp
qed

theorem incremental_equals_rebuild_witness:
  "\<not> m_dirty demo_writing \<and> set (bucket_pieces demo_writing 3) = set (bucket_pieces (update_pieces (\<lambda>_. 1) demo_writing) 3)"
  using incremental_equals_rebuild [OF demo_writing_reachable] demo_guards by simp


section \<open>The life of a block\<close>

text \<open>
  C11. \<open>mark_as_downloading\<close> refuses a block that is being written or has arrived, and then
  changes nothing. Otherwise it records the peer, marks the block as requested and counts one
  more requesting peer; of all blocks of all pieces it changes only this one, and a piece that
  was not being downloaded starts with all its other blocks free.
\<close>

theorem mark_as_downloading_refines:
  assumes "reachable pk" "piece_index b < num_pieces pk" "block_index b < blocks_in_piece pk (piece_index b)"
    "\<not> have_piece pk (piece_index b)" "state \<noteq> none"
    "num_peers (piece_blocks pk (piece_index b) ! block_index b) + 1 < 2 ^ 14"
  shows "let bl = piece_blocks pk (piece_index b); i = block_index b;
          taken = block_state (bl ! i) = state_writing \<or> block_state (bl ! i) = state_finished
         in fst (mark_as_downloading r b pr state pk) = (\<not> taken)
          \<and> progress (snd (mark_as_downloading r b pr state pk)) =
              (if taken then progress pk else (progress pk)(piece_index b \<mapsto> bl[i := request_block pr (bl ! i)]))"
  by (rule mark_as_downloading_spec(2) [OF reachable_inv [OF assms(1)]]) (use assms in \<open>auto simp: have_piece_def\<close>)

theorem mark_as_downloading_refines_witness:
  "fst (mark_as_downloading 5 demo_block (Some 7) fast demo_init)
   \<and> progress demo_requested = (progress demo_init)(0 \<mapsto> [request_block (Some 7) new_block, new_block])"
proof -
  have bl: "piece_blocks demo_init 0 = [new_block, new_block]" "block_index demo_block = 0" "piece_index demo_block = 0"
    by code_simp+
  from mark_as_downloading_refines [OF demo_init_reachable demo_guards(1-3) _ demo_guards(4), of fast 5 "Some 7"]
  show ?thesis by (simp add: bl demo_requested_def new_block_def)
qed

text \<open>
  \<open>mark_as_writing\<close> does nothing for a piece we have. Otherwise it returns whether the
  block was neither being written nor finished; in that case the block has no requesting peers
  any more and is in the writing state, and else only the peer is recorded. No other block
  changes.
\<close>

theorem mark_as_writing_refines:
  assumes "reachable pk" "piece_index b < num_pieces pk" "block_index b < blocks_in_piece pk (piece_index b)"
  shows "let bl = piece_blocks pk (piece_index b); i = block_index b;
             old = block_state (bl ! i) = state_writing \<or> block_state (bl ! i) = state_finished
         in if have_piece pk (piece_index b) then mark_as_writing r b pr pk = (False, pk)
            else fst (mark_as_writing r b pr pk) = (\<not> old)
             \<and> progress (snd (mark_as_writing r b pr pk)) =
                 (progress pk)(piece_index b \<mapsto> bl[i := if old then (bl ! i)\<lparr>peer := pr\<rparr> else write_block pr (bl ! i)])"
  using mark_as_writing_spec [OF reachable_inv [OF assms(1)] assms(2,3), of r pr]
  by (simp add: Let_def have_piece_def)

theorem mark_as_writing_refines_witness:
  "fst (mark_as_writing 5 demo_block (Some 7) demo_requested)
   \<and> progress demo_writing = (progress demo_requested)(0 \<mapsto> [write_block (Some 7) (request_block (Some 7) new_block), new_block])"
proof -
  have bl: "piece_blocks demo_requested 0 = [request_block (Some 7) new_block, new_block]"
    "block_index demo_block = 0" "piece_index demo_block = 0" by code_simp+
  from mark_as_writing_refines [OF demo_requested_reachable demo_guards(5,6), of 5 "Some 7"] demo_guards(11)
  show ?thesis by (simp add: bl demo_writing_def new_block_def request_block_def)
qed

text \<open>
  C12. \<open>mark_as_finished\<close> changes nothing for a piece we have and for a block that is finished
  already; any other block that is not requested becomes finished, and no other block changes.
\<close>

theorem mark_as_finished_refines:
  assumes "reachable pk" "piece_index b < num_pieces pk" "block_index b < blocks_in_piece pk (piece_index b)"
    "block_state (piece_blocks pk (piece_index b) ! block_index b) \<noteq> state_requested"
  shows "let bl = piece_blocks pk (piece_index b); i = block_index b
         in if have_piece pk (piece_index b) \<or> block_state (bl ! i) = state_finished
            then mark_as_finished r b pr pk = pk
            else progress (mark_as_finished r b pr pk) = (progress pk)(piece_index b \<mapsto> bl[i := finish_block pr (bl ! i)])"
  using mark_as_finished_spec [OF reachable_inv [OF assms(1)] assms(2-4), of r pr]
  by (simp add: Let_def have_piece_def)

theorem mark_as_finished_refines_witness:
  "progress (mark_as_finished 0 demo_block (Some 7) demo_writing)
   = (progress demo_writing)(0 \<mapsto> [finish_block (Some 7) (write_block (Some 7) (request_block (Some 7) new_block)), new_block])"
proof -
  have bl: "piece_blocks demo_writing 0 = [write_block (Some 7) (request_block (Some 7) new_block), new_block]"
    "block_index demo_block = 0" "piece_index demo_block = 0" "\<not> have_piece demo_writing 0" by code_simp+
  from mark_as_finished_refines [OF demo_writing_reachable demo_guards(7,8), of 0 "Some 7"] demo_guards(9)
  show ?thesis by (simp add: bl write_block_def Let_def)
qed

text \<open>
  \<open>write_failed\<close> for a block that is being written frees the block; when it was the last
  block of the piece that was not free, the piece is no longer being downloaded. No other block
  changes, although the entries of other pieces may be moved in the block storage.
\<close>

theorem write_failed_refines:
  assumes "reachable pk" "piece_index b < num_pieces pk" "block_index b < blocks_in_piece pk (piece_index b)"
    "block_state (piece_blocks pk (piece_index b) ! block_index b) = state_writing"
  shows "let bl = (piece_blocks pk (piece_index b))[block_index b := drop_block (piece_blocks pk (piece_index b) ! block_index b)]
         in progress (write_failed r b pk) = (progress pk)(piece_index b := if idle bl then None else Some bl)"
  using write_failed_spec [OF reachable_inv [OF assms(1)] assms(2-4), of r] by blast

theorem write_failed_refines_witness: "progress (write_failed 0 demo_block demo_writing) = (progress demo_writing)(0 := None)"
proof -
  have bl: "idle ((piece_blocks demo_writing 0)[0 := drop_block (piece_blocks demo_writing 0 ! 0)])" "block_index demo_block = 0"
    "piece_index demo_block = 0" by code_simp+
  from write_failed_refines [OF demo_writing_reachable demo_guards(7-9), of 0] show ?thesis
    by (simp add: bl Let_def)
qed

text \<open>
  C13. \<open>abort_download\<close> changes nothing unless the block is requested. Then one requesting peer
  less is counted; after the last one the block is free, and after the last block that was not
  free the piece is no longer being downloaded. No other block changes.
\<close>

theorem abort_download_refines:
  assumes "reachable pk" "piece_index b < num_pieces pk" "block_index b < blocks_in_piece pk (piece_index b)"
  shows "let bl = piece_blocks pk (piece_index b); i = block_index b; bl' = bl[i := abort_block (bl ! i)]
         in if block_state (bl ! i) \<noteq> state_requested then abort_download r b pk = pk
            else progress (abort_download r b pk) = (progress pk)(piece_index b := if idle bl' then None else Some bl')"
  using abort_download_spec [OF reachable_inv [OF assms(1)] assms(2,3), of r] by blast

theorem abort_download_refines_witness: "progress (abort_download 0 demo_block demo_requested) = (progress demo_requested)(0 := None)"
proof -
  have bl: "idle ((piece_blocks demo_requested 0)[0 := abort_block (piece_blocks demo_requested 0 ! 0)])"
    "block_state (piece_blocks demo_requested 0 ! 0) = state_requested" "block_index demo_block = 0"
    "piece_index demo_block = 0" by code_simp+
  from abort_download_refines [OF demo_requested_reachable demo_guards(5,6), of 0] show ?thesis
    by (simp add: bl Let_def)
qed

text \<open>
  \<open>restore_piece\<close>, after a failed hash check, forgets all blocks of the piece and leaves
  those of every other piece as they are.
\<close>

theorem restore_piece_refines:
  assumes "reachable pk" "x < num_pieces pk" "downloading (m_piece_map pk ! x)"
  shows "progress (restore_piece r x pk) = (progress pk)(x := None)"
  using restore_piece_spec [OF reachable_inv [OF assms(1)] assms(2,3), of r] by blast

theorem restore_piece_refines_witness: "progress (restore_piece 0 0 demo_writing) = (progress demo_writing)(0 := None)"
  using restore_piece_refines [OF demo_writing_reachable, of 0 0] demo_guards(7,10) by (simp add: demo_block_def)

lemma count_st_le:
  "count_st state_finished bl + count_st state_writing bl + count_st state_requested bl \<le> int (length bl)"
proof (induction bl)
  case (Cons b bl)
  then show ?case by (cases "block_state b") (auto simp: count_st_def)
qed (simp add: count_st_def)

text \<open>
  The counters of a queue entry are between 0 and the number of blocks of a piece: the
  16-bit fields \<open>finished\<close>, \<open>writing\<close> and \<open>requested\<close> do not overflow as long as a piece has
  fewer than 32768 blocks. With 32768 blocks, of a piece of 512 MiB, they do: the request of one more block
  makes the counter negative.
\<close>

lemma requested_counter_wraps:
  assumes "downloading (m_piece_map pk ! piece_index b)" "find_download pk (piece_index b) = Some i" "i < length (m_downloads pk)"
    and "block_state (block_of pk (m_downloads pk ! i) (block_index b)) = state_none" "requested (m_downloads pk ! i) = 32767"
  shows "requested (m_downloads (snd (mark_as_downloading r b pr state pk)) ! i) = - 32768"
  using assms by (simp add: mark_as_downloading_def upd_block_def upd_download_def int16_def Let_def)

theorem block_counters_bounded:
  assumes "reachable pk" "dp \<in> set (m_downloads pk)"
  shows "0 \<le> finished dp \<and> 0 \<le> writing dp \<and> 0 \<le> requested dp
    \<and> finished dp + writing dp + requested dp \<le> int (m_blocks_per_piece pk)"
proof -
  have core: "table_core pk" using reachable_inv [OF assms(1)] by (simp add: picker_inv_def)
  with assms(2) have dp: "dp_index dp < num_pieces pk" "dl_ok (blocks_of pk dp) dp" "sizes_ok pk"
    by (auto simp: table_core_def)
  have "int (length (blocks_of pk dp)) \<le> int (m_blocks_per_piece pk)"
    using blocks_in_piece_le [OF dp(3,1)] by simp
  with count_st_le [of "blocks_of pk dp"] dp(2) show ?thesis by (simp add: dl_ok_def count_st_def)
qed

theorem block_counters_bounded_witness: "writing (m_downloads demo_writing ! 0) = 1 \<and> writing (m_downloads demo_writing ! 0) \<le> 2"
proof -
  have d: "m_downloads demo_writing ! 0 \<in> set (m_downloads demo_writing)" "m_blocks_per_piece demo_writing = 2"
    "writing (m_downloads demo_writing ! 0) = 1" by code_simp+
  from block_counters_bounded [OF demo_writing_reachable d(1)] d show ?thesis by simp
qed

text \<open>
  \<open>is_piece_finished\<close> answers whether all blocks of a piece that is being downloaded have
  arrived, that is, are being written or finished: it reads two counters instead of the blocks.
\<close>

theorem is_piece_finished_blocks:
  assumes "reachable pk" "x < num_pieces pk"
  shows "is_piece_finished pk x \<longleftrightarrow> (\<exists>bl. progress pk x = Some bl
    \<and> (\<forall>b \<in> set bl. block_state b = state_writing \<or> block_state b = state_finished))"
proof -
  have inv: "picker_inv pk" by (rule reachable_inv [OF assms(1)])
  then have mk: "marks_ok pk" and core: "table_core pk" by (auto simp: picker_inv_def)
  show ?thesis
  proof (cases "downloading (m_piece_map pk ! x)")
    case False
    with mk assms(2) have "progress pk x = None" by (simp add: progress_None marks_ok_def)
    with False show ?thesis by (simp add: is_piece_finished_def)
  next
    case True
    obtain i where i: "find_download pk x = Some i" "i < length (m_downloads pk)" "dp_index (m_downloads pk ! i) = x"
      by (rule find_download_Some [OF mk assms(2) True])
    let ?dp = "m_downloads pk ! i" and ?bl = "blocks_of pk (m_downloads pk ! i)"
    have p: "progress pk x = Some ?bl" using progress_at [OF core i(2)] i(3) by simp
    have ok: "dl_ok ?bl ?dp" using core i(2) by (simp add: table_core_def)
    have "count_st state_finished bl + count_st state_writing bl \<le> int (length bl)
        \<and> (\<not> count_st state_finished bl + count_st state_writing bl < int (length bl) \<longleftrightarrow>
            (\<forall>b \<in> set bl. block_state b = state_writing \<or> block_state b = state_finished))" for bl
    proof (induction bl)
      case (Cons b bl)
      then show ?case by (cases "block_state b") (auto simp: count_st_def)
    qed (simp add: count_st_def)
    from this [of ?bl] ok True i p show ?thesis by (simp add: is_piece_finished_def dl_ok_def)
  qed
qed

theorem is_piece_finished_blocks_witness:
  "\<not> is_piece_finished demo_writing 0 \<and> progress demo_writing 0 = Some [write_block (Some 7) (request_block (Some 7) new_block), new_block]"
proof -
  have p: "progress demo_writing 0 = Some [write_block (Some 7) (request_block (Some 7) new_block), new_block]" by code_simp
  with is_piece_finished_blocks [OF demo_writing_reachable, of 0] demo_guards(7) show ?thesis
    by (simp add: demo_block_def new_block_def)
qed

end
