(* ===== verification/Pick_Claims.thy ===== *)
theory Pick_Claims
  imports Picker_Claims
begin

text \<open>
  What the piece picker promises when it is asked for blocks to request from a peer, and what
  it reports of the swarm: the number of regions of missing pieces and of distributed copies.
\<close>

section \<open>Requests\<close>

definition demo_options :: pick_options where
  "demo_options = \<lparr>rarest_first = False, pick_reverse = False, on_parole = False, prioritize_partials = False,
     sequential = True, speed_affinity = False, ignore_whole_pieces = False\<rparr>"

definition demo_request :: request where
  "demo_request = \<lparr>req_pieces = [True, True, True], req_peer = Some 9, req_speed = fast, req_whole = 0, req_options = demo_options\<rparr>"

definition demo_random :: request where
  "demo_random = demo_request\<lparr>req_options := demo_options\<lparr>sequential := False\<rparr>\<rparr>"

lemma demo_request_guards:
  "0 < num_pieces demo_requested" "\<forall>x \<in> set [1]. x < num_pieces demo_requested"
  "length (m_downloads demo_requested) = 1" "prio_of demo_requested 0 \<ge> 0"
  "free_block demo_requested [True, True, True] \<lparr>piece_index = 0, block_index = 1\<rparr>"
  by code_simp+

section \<open>What pick_pieces promises\<close>

text \<open>
  C6. \<open>pick_pieces\<close> returns, whatever the random numbers: the search that starts at a random
  piece and goes round until it is back or has found enough blocks comes to an end, although
  the range of pieces that is added at once may reach past its start.
\<close>

theorem pick_pieces_returns:
  assumes "reachable pk" "0 < num_pieces pk" "0 < num_blocks" "\<forall>x \<in> set suggested. x < num_pieces pk"
  shows "\<exists>bs pk'. pick_pieces rnd r1 r2 rq num_blocks suggested dst pk = Some (bs, pk')"
  by (rule pick_pieces_spec [where rnd = rnd and ?r1.0 = r1 and ?r2.0 = r2 and dst = dst,
        OF reachable_inv [OF assms(1)] assms(2-4) refl, of rq]) blast

theorem pick_pieces_returns_witness:
  "0 < num_pieces demo_requested \<and> (\<exists>bs pk'. pick_pieces id 5 0 demo_random 3 [1] [] demo_requested = Some (bs, pk'))"
  using pick_pieces_returns [OF demo_requested_reachable demo_request_guards(1) _ demo_request_guards(2), of 3 id 5 0 demo_random "[]"]
    demo_request_guards(1) by simp



text \<open>
  Unless whole pieces are preferred, no more blocks are added than were asked for.
\<close>

theorem pick_pieces_bounded:
  assumes "reachable pk" "0 < num_pieces pk" "0 < num_blocks" "\<forall>x \<in> set suggested. x < num_pieces pk"
    "pick_pieces rnd r1 r2 rq num_blocks suggested dst pk = Some (bs, pk')"
    "req_whole rq = 0 \<or> ignore_whole_pieces (req_options rq)"
  shows "int (length bs) \<le> int (length dst) + num_blocks"
proof (rule pick_pieces_spec [where rnd = rnd and ?r1.0 = r1 and ?r2.0 = r2 and dst = dst,
      OF reachable_inv [OF assms(1)] assms(2-4) refl, of rq])
  fix u q assume u: "pick_pieces rnd r1 r2 rq num_blocks suggested dst pk = Some (u, q)"
    "req_whole (effective_request pk rq) = 0 \<Longrightarrow> int (length u) \<le> int (length dst) + num_blocks"
  have "req_whole (effective_request pk rq) = 0" using assms(6) by (auto simp: effective_request_def Let_def)
  with u assms(5) show ?thesis by simp
qed

theorem pick_pieces_bounded_witness:
  "map_option (length \<circ> fst) (pick_pieces id 4 0 demo_random 2 [] [] demo_requested) = Some 2 \<and> int 2 \<le> int (length ([] :: nat list)) + 2"
proof -
  have r: "map_option (length \<circ> fst) (pick_pieces id 4 0 demo_random 2 [] [] demo_requested) = Some 2" by code_simp
  then obtain bs pk' where p: "pick_pieces id 4 0 demo_random 2 [] [] demo_requested = Some (bs, pk')" "length bs = 2" by auto
  from pick_pieces_bounded [OF demo_requested_reachable demo_request_guards(1) _ _ p(1)] r p(2) show ?thesis
    by (simp add: demo_random_def demo_request_def)
qed



text \<open>
  With \<open>prioritize_partials\<close>, which is also switched on when more than twenty pieces are
  being downloaded, the loop over those pieces does not ask whether a piece is filtered. A
  piece the user has deselected while it was being downloaded goes on being requested: here
  block 1 of the filtered piece 0.
\<close>

theorem filtered_piece_picked:
  "let pk = snd (set_piece_priority 0 0 0 demo_requested);
       rq = demo_request\<lparr>req_options := demo_options\<lparr>prioritize_partials := True\<rparr>\<rparr>
   in reachable pk \<and> filtered (m_piece_map pk ! 0)
    \<and> map_option fst (pick_pieces id 0 0 rq 1 [] [] pk) = Some [\<lparr>piece_index = 0, block_index = 1\<rparr>]"
proof -
  have "0 < num_pieces demo_requested" by (rule demo_request_guards)
  then have "reachable (snd (set_piece_priority 0 0 0 demo_requested))"
    by (intro reachable_step [OF demo_requested_reachable] picker_step.set_piece_priority) simp_all
  moreover have "filtered (m_piece_map (snd (set_piece_priority 0 0 0 demo_requested)) ! 0)" by code_simp
  moreover have "map_option fst (pick_pieces id 0 0 (demo_request\<lparr>req_options := demo_options\<lparr>prioritize_partials := True\<rparr>\<rparr>) 1 [] []
      (snd (set_piece_priority 0 0 0 demo_requested))) = Some [\<lparr>piece_index = 0, block_index = 1\<rparr>]" by code_simp
  ultimately show ?thesis unfolding Let_def by blast
qed

section \<open>Regions and copies\<close>

text \<open>A region of pieces we do not have begins at every such piece that has none before it.\<close>

definition region_starts :: "piece_pos list \<Rightarrow> nat list" where
  "region_starts pm = filter (\<lambda>i. \<not> have_pos (pm ! i) \<and> (i = 0 \<or> have_pos (pm ! (i - 1)))) [0..<length pm]"

definition starts_region :: "bool list \<Rightarrow> nat \<Rightarrow> bool" where
  "starts_region hs i \<longleftrightarrow> i < length hs \<and> \<not> hs ! i \<and> (i = 0 \<or> hs ! (i - 1))"

lemma region_starts_set: "set (region_starts pm) = Collect (starts_region (map have_pos pm))"
  by (auto simp: region_starts_def starts_region_def)

lemma length_region_starts: "length (region_starts pm) = card (Collect (starts_region (map have_pos pm)))"
  by (simp add: region_starts_set [symmetric] distinct_card [symmetric] region_starts_def)

lemma starts_region_update:
  assumes "x < length hs" "\<not> hs ! x"
  shows "starts_region (hs[x := True]) i \<longleftrightarrow> i \<noteq> x \<and> (starts_region hs i \<or> i = x + 1 \<and> x + 1 < length hs \<and> \<not> hs ! (x + 1))"
  using assms by (cases "i = x"; cases "i = x + 1") (auto simp: starts_region_def nth_list_update)

lemma region_count_update:
  assumes x: "x < length pm" "\<not> have_pos (pm ! x)" and pm': "map have_pos pm' = (map have_pos pm)[x := True]"
  shows "int (length (region_starts pm')) = int (length (region_starts pm)) + sparse_delta pm x"
proof -
  let ?hs = "map have_pos pm"
  let ?A = "Collect (starts_region ?hs)" and ?B = "Collect (starts_region (?hs[x := True]))"
  let ?next = "x + 1 < length pm \<and> \<not> have_pos (pm ! (x + 1))"
  have fin: "finite ?A" by (rule finite_subset [of _ "{..<length pm}"]) (auto simp: starts_region_def)
  have B: "?B = (?A - {x}) \<union> (if ?next then {x + 1} else {})"
  proof (rule set_eqI)
    fix i show "i \<in> ?B \<longleftrightarrow> i \<in> (?A - {x}) \<union> (if ?next then {x + 1} else {})"
      using starts_region_update [of x ?hs i] x by (cases ?next) auto
  qed
  have nx: "x + 1 \<notin> ?A" using x by (simp add: starts_region_def)
  have card: "card ?B = card (?A - {x}) + (if ?next then 1 else 0)"
    unfolding B using nx fin by (cases ?next) auto
  have xA: "x \<in> ?A \<longleftrightarrow> x = 0 \<or> have_pos (pm ! (x - 1))" using x by (auto simp: starts_region_def)
  have "int (card ?B) = int (card ?A) - (if x = 0 \<or> have_pos (pm ! (x - 1)) then 1 else 0) + (if ?next then 1 else 0)"
  proof (cases "x \<in> ?A")
    case True
    with fin have "card ?A > 0" by (auto simp: card_gt_0_iff)
    with True fin card xA show ?thesis by (simp add: card_Diff_singleton)
  qed (use card xA in auto)
  moreover have "x + 1 = length pm \<or> x + 1 < length pm" using x(1) by linarith
  ultimately show ?thesis unfolding length_region_starts pm' using x
    by (cases "x = 0") (auto simp: sparse_delta_def Let_def)
qed

text \<open>
  \<open>we_have\<close> makes exactly one piece ours, and the change it makes to
  \<open>m_sparse_regions\<close> is the change of the number of regions of pieces we do not have.
\<close>

theorem we_have_sparse_regions:
  assumes "reachable pk" "x < num_pieces pk" "\<not> have_piece pk x"
  shows "map have_pos (m_piece_map (we_have x pk)) = (map have_pos (m_piece_map pk))[x := True]
    \<and> m_sparse_regions (we_have x pk) - m_sparse_regions pk =
        int (length (region_starts (m_piece_map (we_have x pk)))) - int (length (region_starts (m_piece_map pk)))"
proof -
  have x: "x < length (m_piece_map pk)" "\<not> have_pos (m_piece_map pk ! x)" using assms(2,3) by (simp_all add: num_pieces_def have_piece_def)
  note f = we_have_flags [OF reachable_inv [OF assms(1)] assms(2)]
  with region_count_update [OF x f] we_have_sparse [OF x(2) assms(2)] show ?thesis by simp
qed

theorem we_have_sparse_regions_witness:
  "\<not> have_piece demo_init 0 \<and> map have_pos (m_piece_map (we_have 0 demo_init)) = [True, False, False]"
proof -
  have "\<not> have_piece demo_init 0" "0 < num_pieces demo_init" "map have_pos (m_piece_map demo_init) = [False, False, False]"
    by code_simp+
  with we_have_sparse_regions [OF demo_init_reachable, of 0] show ?thesis by simp
qed

text \<open>
  \<open>we_dont_have\<close> does not update \<open>m_sparse_regions\<close>: after the middle one of three pieces
  has been gained and lost again, the picker reports two regions of missing pieces where there
  is one.
\<close>

theorem sparse_regions_stale:
  "let pk = we_dont_have 0 1 (we_have 1 demo_init)
   in reachable pk \<and> m_sparse_regions demo_init = int (length (region_starts (m_piece_map demo_init)))
    \<and> m_sparse_regions pk = 2 \<and> length (region_starts (m_piece_map pk)) = 1"
proof -
  have "1 < num_pieces demo_init" "1 < num_pieces (we_have 1 demo_init)" by code_simp+
  then have "reachable (we_dont_have 0 1 (we_have 1 demo_init))"
    by (intro reachable_step [OF reachable_step [OF demo_init_reachable picker_step.we_have] picker_step.we_dont_have])
  moreover have "m_sparse_regions demo_init = int (length (region_starts (m_piece_map demo_init)))"
    "m_sparse_regions (we_dont_have 0 1 (we_have 1 demo_init)) = 2"
    "length (region_starts (m_piece_map (we_dont_have 0 1 (we_have 1 demo_init)))) = 1" by code_simp+
  ultimately show ?thesis unfolding Let_def by blast
qed

definition copies_of :: "piece_picker \<Rightarrow> nat list" where
  "copies_of pk = map (\<lambda>p. peer_count p + (if have_pos p then 1 else 0)) (m_piece_map pk)"

lemma copies_fold:
  "fold copies_step xs (m, c, f) =
    (let lo = Min (insert m (set xs))
     in (lo, (if lo = m then c else 0) + length (filter (\<lambda>x. x = lo) xs),
         f + (if lo = m then 0 else c) + length (filter (\<lambda>x. x > lo) xs)))"
proof (induction xs arbitrary: m c f)
  case (Cons x xs)
  define lo where "lo = Min (insert m (set (x # xs)))"
  have lo: "lo = Min (insert (min m x) (set xs))" by (cases "xs = []") (simp_all add: lo_def min.assoc)
  have le: "lo \<le> m" "lo \<le> x" unfolding lo_def by (intro Min_le; simp)+
  consider (less) "x < m" | (eq) "x = m" | (more) "x > m" by linarith
  then show ?case
  proof cases
    case less
    then have "copies_step x (m, c, f) = (x, 1, f + c)" "Min (insert x (set xs)) = lo" using lo by (simp_all add: copies_step_def min_def)
    with Cons.IH [of x 1 "f + c"] le less show ?thesis unfolding lo_def [symmetric] by (cases "lo = x") (simp_all add: Let_def)
  next
    case eq
    then have "copies_step x (m, c, f) = (m, c + 1, f)" "Min (insert m (set xs)) = lo" using lo by (simp_all add: copies_step_def)
    with Cons.IH [of m "c + 1" f] le eq show ?thesis unfolding lo_def [symmetric] by (cases "lo = m") (simp_all add: Let_def)
  next
    case more
    then have "copies_step x (m, c, f) = (m, c, f + 1)" "Min (insert m (set xs)) = lo" using lo by (simp_all add: copies_step_def min_def)
    with Cons.IH [of m c "f + 1"] le more show ?thesis unfolding lo_def [symmetric] by (cases "lo = m") (simp_all add: Let_def)
  qed
qed simp

text \<open>
  \<open>distributed_copies\<close> computes in one pass the number of copies of the rarest piece,
  counting our own and the seeds, and the share of pieces with more copies, in thousandths.
\<close>

theorem distributed_copies_spec:
  assumes "m_piece_map pk \<noteq> []"
  shows "distributed_copies pk =
    (let lo = Min (insert max_peer_count (set (copies_of pk)))
     in (lo + m_seeds pk, length (filter (\<lambda>x. x > lo) (copies_of pk)) * 1000 div num_pieces pk))"
  using assms copies_fold [of "copies_of pk" max_peer_count 0 0]
  by (simp add: distributed_copies_def copies_of_def fold_map comp_def num_pieces_def Let_def)

theorem distributed_copies_spec_witness: "distributed_copies (we_have 0 demo_init) = (1, 333)"
proof -
  have m: "m_piece_map (we_have 0 demo_init) \<noteq> []" "copies_of (we_have 0 demo_init) = [1, 0, 0]" "m_seeds (we_have 0 demo_init) = 1"
    "num_pieces (we_have 0 demo_init) = 3" by code_simp+
  from distributed_copies_spec [OF m(1)] show ?thesis by (simp add: m Let_def max_peer_count_def)
qed

end
