(* ===== verification/File_Storage.thy ===== *)
theory File_Storage
  imports Prelude "HOL-Library.Code_Target_Int" "HOL-Library.Code_Target_Nat"
begin

text \<open>
  The files of a torrent (\<open>include/libtorrent/file_storage.hpp\<close>, \<open>src/file_storage.cpp\<close>): one
  contiguous range of bytes that is cut into files one way and into pieces another way. The
  theory has the operations that build the list of files, the translations between the two
  views and \<open>optimize\<close>, which reorders files and inserts padding. Sizes and offsets are 64-bit
  signed integers in the code and integers here; a path is the list of its components.
  \<open>std::upper_bound\<close> on the files, which are ordered by offset, is the first file that starts
  behind the target.
\<close>

section \<open>Data\<close>

record file_entry =
  fe_path :: "string list"
  fe_offset :: int
  fe_size :: int
  file_base :: int
  mtime :: int
  pad_file :: bool
  hidden_attribute :: bool
  executable_attribute :: bool
  symlink_attribute :: bool
  symlink_path :: "string list"

definition new_file_entry :: file_entry where
  "new_file_entry = \<lparr>fe_path = [], fe_offset = 0, fe_size = 0, file_base = 0, mtime = 0, pad_file = False,
     hidden_attribute = False, executable_attribute = False, symlink_attribute = False, symlink_path = []\<rparr>"

record file_slice =
  file_index :: nat
  sl_offset :: int
  sl_size :: int

record peer_request =
  pr_piece :: int
  pr_start :: int
  pr_length :: int

record file_storage =
  m_piece_length :: int
  m_files :: "file_entry list"
  m_total_size :: int
  m_num_pieces :: int
  m_name :: string

definition new_file_storage :: file_storage where
  "new_file_storage = \<lparr>m_piece_length = 0, m_files = [], m_total_size = 0, m_num_pieces = 0, m_name = []\<rparr>"

section \<open>Building the list of files\<close>

definition storage_name :: "string list \<Rightarrow> file_storage \<Rightarrow> string" where
  "storage_name file fs =
     (if length file \<le> 1 then hd file else if m_files fs = [] then hd file else m_name fs)"

text \<open>The flags are the bits 1, 2, 4 and 8.\<close>

definition add_file :: "string list \<Rightarrow> int \<Rightarrow> nat \<Rightarrow> int \<Rightarrow> string list \<Rightarrow> file_storage \<Rightarrow> file_storage" where
  "add_file file len flags time symlink fs =
     fs\<lparr>m_name := storage_name file fs,
        m_files := m_files fs @
          [new_file_entry\<lparr>fe_size := len, fe_path := file, fe_offset := m_total_size fs,
             pad_file := bit flags 0, hidden_attribute := bit flags 1, executable_attribute := bit flags 2,
             symlink_attribute := bit flags 3, symlink_path := (if bit flags 3 then symlink else []), mtime := time\<rparr>],
        m_total_size := m_total_size fs + len\<rparr>"

definition add_file_entry :: "file_entry \<Rightarrow> file_storage \<Rightarrow> file_storage" where
  "add_file_entry ent fs =
     fs\<lparr>m_name := storage_name (fe_path ent) fs,
        m_files := m_files fs @ [ent\<lparr>fe_offset := m_total_size fs\<rparr>],
        m_total_size := m_total_size fs + fe_size ent\<rparr>"

definition rename_file :: "nat \<Rightarrow> string list \<Rightarrow> file_storage \<Rightarrow> file_storage" where
  "rename_file index new_filename fs =
     fs\<lparr>m_files := (m_files fs)[index := (m_files fs ! index)\<lparr>fe_path := new_filename\<rparr>]\<rparr>"

section \<open>Pieces and files\<close>

definition piece_size :: "file_storage \<Rightarrow> int \<Rightarrow> int" where
  "piece_size fs index =
     (if index = m_num_pieces fs - 1 then m_total_size fs - (m_num_pieces fs - 1) * m_piece_length fs
      else m_piece_length fs)"

definition file_at_offset :: "file_storage \<Rightarrow> int \<Rightarrow> nat" where
  "file_at_offset fs offset = length (takeWhile (\<lambda>f. fe_offset f \<le> offset) (m_files fs)) - 1"

text \<open>
  The loop of \<open>map_block\<close> over the files from \<open>file_iter\<close> on; the code asserts that it does
  not run past the last file.
\<close>

fun map_loop :: "file_entry list \<Rightarrow> nat \<Rightarrow> int \<Rightarrow> int \<Rightarrow> file_slice list" where
  "map_loop [] i file_offset left = []"
| "map_loop (f # fs) i file_offset left =
     (if left \<le> 0 then []
      else if file_offset < fe_size f
      then let n = min (fe_size f - file_offset) left
           in \<lparr>file_index = i, sl_offset = file_offset + file_base f, sl_size = n\<rparr>
              # map_loop fs (i + 1) (file_offset + n - fe_size f) (left - n)
      else map_loop fs (i + 1) (file_offset - fe_size f) left)"

definition map_block :: "file_storage \<Rightarrow> int \<Rightarrow> int \<Rightarrow> int \<Rightarrow> file_slice list" where
  "map_block fs piece offset len =
     (if m_files fs = [] then []
      else
        let target = piece * m_piece_length fs + offset;
            file_iter = file_at_offset fs target
        in map_loop (drop file_iter (m_files fs)) file_iter (target - fe_offset (m_files fs ! file_iter)) len)"

definition map_file :: "file_storage \<Rightarrow> nat \<Rightarrow> int \<Rightarrow> int \<Rightarrow> peer_request" where
  "map_file fs index file_offset len =
     (let offset = file_offset + fe_offset (m_files fs ! index)
      in \<lparr>pr_piece = offset div m_piece_length fs, pr_start = offset mod m_piece_length fs, pr_length = len\<rparr>)"

section \<open>Padding\<close>

fun dec_digits :: "nat \<Rightarrow> string" where
  "dec_digits n = (if n < 10 then [char_of (48 + n)] else dec_digits (n div 10) @ [char_of (48 + n mod 10)])"

declare dec_digits.simps [simp del]

text \<open>\<open>std::max_element\<close>: the first one of the largest files. Without a file it is the end of the vector, and
  \<open>iter_swap\<close> of it with the first element is undefined: \<open>None\<close>.\<close>

fun largest_file :: "file_entry list \<Rightarrow> nat \<Rightarrow> nat \<Rightarrow> nat \<Rightarrow> nat" where
  "largest_file files best i 0 = best"
| "largest_file files best i (Suc n) =
     largest_file files (if fe_size (files ! best) < fe_size (files ! i) then i else best) (i + 1) n"

definition largest_first :: "file_entry list \<Rightarrow> file_entry list option" where
  "largest_first files =
     (if files = [] then None
      else let i = largest_file files 0 1 (length files - 1)
           in Some (files[i := files ! 0, 0 := files ! i]))"

text \<open>The largest of the files behind the current one that fits into the gap.\<close>

definition best_match :: "int \<Rightarrow> file_entry list \<Rightarrow> nat option" where
  "best_match pad_size fs =
     fold (\<lambda>j best. if fe_size (fs ! j) > pad_size then best
                      else if best = None \<or> fe_size (fs ! j) > fe_size (fs ! the best) then Some j else best)
       [0..<length fs] None"

lemma best_match_fits: "best_match s fs = Some k \<Longrightarrow> k < length fs \<and> fe_size (fs ! k) \<le> s"
proof -
  have "fold (\<lambda>j best. if fe_size (fs ! j) > s then best
      else if best = None \<or> fe_size (fs ! j) > fe_size (fs ! the best) then Some j else best) [0..<n] None = Some k
    \<Longrightarrow> k < n \<and> fe_size (fs ! k) \<le> s" for n
    by (induction n arbitrary: k) (auto simp: less_Suc_eq split: if_splits)
  then show "best_match s fs = Some k \<Longrightarrow> k < length fs \<and> fe_size (fs ! k) \<le> s" by (simp add: best_match_def)
qed

definition alignment :: int where
  "alignment = 8 * 1024"

definition padding_entry :: "file_entry \<Rightarrow> int \<Rightarrow> int \<Rightarrow> nat \<Rightarrow> file_entry" where
  "padding_entry f off pad_size padding_file =
     new_file_entry\<lparr>fe_size := pad_size, fe_offset := off, file_base := 0,
       fe_path := [hd (fe_path f), ''_____padding_file_'', dec_digits padding_file], pad_file := True\<rparr>"

text \<open>The loop of \<open>optimize\<close>: \<open>f # fs\<close> are the files from the iterator on.\<close>

function optimize_loop :: "int \<Rightarrow> file_entry list \<Rightarrow> int \<Rightarrow> nat \<Rightarrow> file_entry list \<times> int" where
  "optimize_loop limit [] off padding = ([], off)"
| "optimize_loop limit (f # fs) off padding =
     (if limit \<ge> 0 \<and> off mod alignment \<noteq> 0 \<and> fe_size f > limit \<and> \<not> pad_file f
      then
        let pad_size = alignment - off mod alignment
        in case best_match pad_size fs of
             Some j \<Rightarrow>
               let e = (fs ! j)\<lparr>fe_offset := off\<rparr>;
                   (files, total) = optimize_loop limit (f # take j fs @ drop (j + 1) fs) (off + fe_size e) padding
               in (e # files, total)
           | None \<Rightarrow>
               let pad = padding_entry f off pad_size padding;
                   off = off + pad_size;
                   (files, total) = optimize_loop limit fs (off + fe_size f) (padding + 1)
               in (pad # f\<lparr>fe_offset := off\<rparr> # files, total)
      else
        let (files, total) = optimize_loop limit fs (off + fe_size f) padding
        in (f\<lparr>fe_offset := off\<rparr> # files, total))"
  by pat_completeness auto
termination
  by (relation "measure (\<lambda>(_, files, _, _). length files)") (auto dest: best_match_fits)

declare optimize_loop.simps(2) [simp del]

definition optimize :: "int \<Rightarrow> file_storage \<Rightarrow> file_storage option" where
  "optimize pad_file_limit fs =
     (let limit = (if pad_file_limit \<ge> 0 \<and> pad_file_limit < alignment then alignment else pad_file_limit);
          optimized = (\<lambda>fl. let (files, total) = optimize_loop limit fl 0 0 in fs\<lparr>m_files := files, m_total_size := total\<rparr>)
      in map_option optimized (largest_first (m_files fs)))"

section \<open>The layout\<close>

fun laid_out :: "int \<Rightarrow> file_entry list \<Rightarrow> int \<Rightarrow> bool" where
  "laid_out off [] tot \<longleftrightarrow> off = tot"
| "laid_out off (f # fs) tot \<longleftrightarrow> fe_offset f = off \<and> fe_size f \<ge> 0 \<and> laid_out (off + fe_size f) fs tot"

definition storage_ok :: "file_storage \<Rightarrow> bool" where
  "storage_ok fs \<longleftrightarrow> laid_out 0 (m_files fs) (m_total_size fs)"

lemma laid_out_append: "laid_out off (xs @ ys) tot \<longleftrightarrow> (\<exists>mid. laid_out off xs mid \<and> laid_out mid ys tot)"
  by (induction xs arbitrary: off) auto

lemma laid_out_le: "laid_out off xs tot \<Longrightarrow> off \<le> tot"
  by (induction off xs tot rule: laid_out.induct) auto

lemma laid_out_sum: "laid_out off xs tot \<Longrightarrow> tot = off + sum_list (map fe_size xs)"
  by (induction off xs tot rule: laid_out.induct) auto

lemma laid_out_in: "laid_out off xs tot \<Longrightarrow> f \<in> set xs \<Longrightarrow> off \<le> fe_offset f \<and> fe_offset f + fe_size f \<le> tot"
  by (induction off xs tot rule: laid_out.induct) (force dest: laid_out_le)+

lemma add_file_ok: "storage_ok fs \<Longrightarrow> len \<ge> 0 \<Longrightarrow> storage_ok (add_file file len flags time symlink fs)"
  by (simp add: storage_ok_def add_file_def laid_out_append)

lemma add_file_entry_ok: "storage_ok fs \<Longrightarrow> fe_size e \<ge> 0 \<Longrightarrow> storage_ok (add_file_entry e fs)"
  by (simp add: storage_ok_def add_file_entry_def laid_out_append)

lemma laid_out_cong: "map fe_offset xs = map fe_offset ys \<Longrightarrow> map fe_size xs = map fe_size ys \<Longrightarrow> laid_out off xs tot = laid_out off ys tot"
proof (induction xs arbitrary: ys off)
  case (Cons x xs)
  then obtain y ys' where ys: "ys = y # ys'" by (cases ys) auto
  with Cons.prems Cons.IH [of ys'] show ?case by simp
qed simp

lemma rename_file_ok: "storage_ok fs \<Longrightarrow> storage_ok (rename_file i name fs)"
proof -
  have "map fe_offset ((m_files fs)[i := (m_files fs ! i)\<lparr>fe_path := name\<rparr>]) = map fe_offset (m_files fs)"
    "map fe_size ((m_files fs)[i := (m_files fs ! i)\<lparr>fe_path := name\<rparr>]) = map fe_size (m_files fs)"
    by (simp_all add: map_update) (metis list_update_id map_update)+
  from laid_out_cong [OF this] show "storage_ok fs \<Longrightarrow> storage_ok (rename_file i name fs)"
    by (simp add: storage_ok_def rename_file_def)
qed

section \<open>Bytes\<close>

text \<open>Where byte \<open>k\<close> of the files, one after the other, is: the reference for the mappings.\<close>

fun locate :: "file_entry list \<Rightarrow> nat \<Rightarrow> int \<Rightarrow> nat \<times> int" where
  "locate [] i k = (i, k)"
| "locate (f # fs) i k = (if k < fe_size f then (i, file_base f + k) else locate fs (i + 1) (k - fe_size f))"

definition slice_bytes :: "file_slice list \<Rightarrow> (nat \<times> int) list" where
  "slice_bytes ss = concat (map (\<lambda>s. map (\<lambda>b. (file_index s, sl_offset s + b)) [0..sl_size s - 1]) ss)"

lemma upto_shift: "map (\<lambda>b. b + k) [a..b] = [a + k..b + k]" for a b k :: int
proof (induction a b rule: upto.induct)
  case (1 i j)
  then show ?case by (cases "i \<le> j") (simp_all add: upto.simps [of i] upto.simps [of "i + k"] algebra_simps)
qed

lemma map_loop_bytes:
  assumes "\<forall>f \<in> set fs. fe_size f \<ge> 0" "0 \<le> off" "off + n \<le> sum_list (map fe_size fs)"
  shows "slice_bytes (map_loop fs i off n) = map (locate fs i) [off..off + n - 1] \<and> (\<forall>s \<in> set (map_loop fs i off n). sl_size s > 0)"
  using assms
proof (induction fs i off n rule: map_loop.induct)
  case (1 i off n)
  then show ?case by (simp add: slice_bytes_def)
next
  case (2 f fs i off n)
  have z: "\<forall>f \<in> set fs. fe_size f \<ge> 0" "fe_size f \<ge> 0" using 2(3) by auto
  have sub: "map (locate (f # fs) i) [a..b] = map (locate fs (i + 1)) [a - fe_size f..b - fe_size f]" if "a \<ge> fe_size f" for a b
  proof -
    have "[a - fe_size f..b - fe_size f] = map (\<lambda>k. k - fe_size f) [a..b]" using upto_shift [of "- fe_size f" a b] by simp
    then show ?thesis using that by simp
  qed
  consider "n \<le> 0" | "n > 0" "off < fe_size f" | "n > 0" "\<not> off < fe_size f" by linarith
  then show ?case
  proof cases
    case 1
    then show ?thesis by (simp add: slice_bytes_def)
  next
    case c: 2
    let ?m = "min (fe_size f - off) n"
    have h: "map (\<lambda>b. (i, off + file_base f + b)) [0..?m - 1] = map (locate (f # fs) i) [off..off + ?m - 1]"
    proof -
      have "[off..off + ?m - 1] = map (\<lambda>b. b + off) [0..?m - 1]" using upto_shift [of off 0 "?m - 1"] by (simp add: algebra_simps)
      then show ?thesis by (auto simp: algebra_simps)
    qed
    have t: "slice_bytes (map_loop fs (i + 1) (off + ?m - fe_size f) (n - ?m)) = map (locate (f # fs) i) [off + ?m..off + n - 1]
        \<and> (\<forall>s \<in> set (map_loop fs (i + 1) (off + ?m - fe_size f) (n - ?m)). sl_size s > 0)"
    proof (cases "n \<le> fe_size f - off")
      case True
      then have "?m = n" by simp
      then show ?thesis by (cases fs) (simp_all add: slice_bytes_def)
    next
      case False
      then have m: "?m = fe_size f - off" by simp
      have "slice_bytes (map_loop fs (i + 1) (off + ?m - fe_size f) (n - ?m)) =
          map (locate fs (i + 1)) [off + ?m - fe_size f..off + ?m - fe_size f + (n - ?m) - 1]
        \<and> (\<forall>s \<in> set (map_loop fs (i + 1) (off + ?m - fe_size f) (n - ?m)). sl_size s > 0)"
        by (rule 2(1) [OF _ c(2) refl z(1)]) (use c 2(4,5) m in auto)
      then show ?thesis using sub [of "off + ?m" "off + n - 1"] m by (simp add: algebra_simps)
    qed
    have "[off..off + n - 1] = [off..off + ?m - 1] @ [off + ?m..off + n - 1]"
      using upto_split2 [of off "off + ?m - 1" "off + n - 1"] c z by simp
    with h t c show ?thesis by (simp add: Let_def slice_bytes_def)
  next
    case c: 3
    have "slice_bytes (map_loop fs (i + 1) (off - fe_size f) n) = map (locate fs (i + 1)) [off - fe_size f..off - fe_size f + n - 1]
        \<and> (\<forall>s \<in> set (map_loop fs (i + 1) (off - fe_size f) n). sl_size s > 0)"
      by (rule 2(2)) (use c 2(3-5) in auto)
    with c sub [of off "off + n - 1"] show ?thesis by (simp add: algebra_simps del: locate.simps)
  qed
qed

lemma locate_drop:
  assumes "laid_out off fs tot" "k < length fs" "fe_offset (fs ! k) \<le> t"
  shows "locate fs i (t - off) = locate (drop k fs) (i + k) (t - fe_offset (fs ! k))"
  using assms
proof (induction fs arbitrary: off k i)
  case (Cons f fs)
  show ?case
  proof (cases k)
    case 0
    with Cons.prems show ?thesis by simp
  next
    case (Suc j)
    with Cons.prems have l: "laid_out (off + fe_size f) fs tot" "j < length fs" "fe_offset (fs ! j) \<le> t" by auto
    then have "off + fe_size f \<le> t" using laid_out_in [OF l(1), of "fs ! j"] by simp
    with Cons.IH [OF l, of "i + 1"] Suc Cons.prems show ?thesis by (simp add: algebra_simps)
  qed
qed simp

lemma laid_out_drop: "laid_out off fs tot \<Longrightarrow> k < length fs \<Longrightarrow> laid_out (fe_offset (fs ! k)) (drop k fs) tot"
  by (induction fs arbitrary: off k) (auto simp: nth_Cons' drop_Cons')

lemma file_at_offset_le:
  assumes "storage_ok fs" "m_files fs \<noteq> []" "0 \<le> t" "k = file_at_offset fs t"
  shows "k < length (m_files fs)" "fe_offset (m_files fs ! k) \<le> t"
proof -
  let ?tw = "takeWhile (\<lambda>f. fe_offset f \<le> t) (m_files fs)"
  obtain f gs where f: "m_files fs = f # gs" using assms(2) by (cases "m_files fs") auto
  with assms(1,3) have "?tw \<noteq> []" by (simp add: storage_ok_def)
  then have lt: "length ?tw - 1 < length ?tw" by simp
  with assms(4) show "k < length (m_files fs)" using length_takeWhile_le [of _ "m_files fs"] unfolding file_at_offset_def by (metis order_less_le_trans)
  have "?tw ! (length ?tw - 1) \<in> set ?tw" using lt by (rule nth_mem)
  then show "fe_offset (m_files fs ! k) \<le> t" using lt assms(4) by (metis file_at_offset_def set_takeWhileD takeWhile_nth)
qed

section \<open>Padding\<close>

definition strip :: "file_entry \<Rightarrow> file_entry" where
  "strip f = f\<lparr>fe_offset := 0\<rparr>"

lemma strip_simps [simp]: "strip (f\<lparr>fe_offset := x\<rparr>) = strip f" "fe_size (strip f) = fe_size f" "pad_file (strip f) = pad_file f"
  by (simp_all add: strip_def)

lemma mset_take_drop_nth: "j < length xs \<Longrightarrow> mset xs = add_mset (xs ! j) (mset (take j xs @ drop (j + 1) xs))"
  by (metis add.commute id_take_nth_drop mset.simps(2) mset_append union_mset_add_mset_right Suc_eq_plus1)

lemma optimize_loop_spec:
  assumes "optimize_loop limit fs off padding = (files, tot)" "\<forall>f \<in> set fs. fe_size f \<ge> 0" "limit < 0 \<or> limit \<ge> alignment"
  shows "laid_out off files tot
    \<and> (\<exists>pads. mset (map strip files) = mset (map strip fs) + pads \<and> (\<forall>p \<in># pads. pad_file p \<and> 0 < fe_size p \<and> fe_size p < alignment))
    \<and> (limit \<ge> 0 \<longrightarrow> (\<forall>f \<in> set files. fe_size f > limit \<and> \<not> pad_file f \<longrightarrow> fe_offset f mod alignment = 0))"
  using assms
proof (induction limit fs off padding arbitrary: files tot rule: optimize_loop.induct)
  case (1 limit off padding)
  then show ?case by simp
next
  case (2 limit f fs off padding)
  let ?pad = "alignment - off mod alignment"
  have al: "alignment > 0" by (simp add: alignment_def)
  have mod: "0 \<le> off mod alignment" "off mod alignment < alignment" using al by simp_all
  have al_off: "(off + ?pad) mod alignment = 0"
    by (metis add_diff_eq diff_add_eq minus_mod_eq_mult_div mod_add_self2 mod_mult_self1_is_0)
  show ?case
  proof (cases "limit \<ge> 0 \<and> off mod alignment \<noteq> 0 \<and> fe_size f > limit \<and> \<not> pad_file f")
    case False
    obtain fs' t' where r: "optimize_loop limit fs (off + fe_size f) padding = (fs', t')" by fastforce
    have ft: "files = f\<lparr>fe_offset := off\<rparr> # fs'" "tot = t'" using 2(4) False r by (auto simp: Let_def optimize_loop.simps(2) [of limit f fs off padding])
    from 2(3) [OF False r] 2(5,6) obtain pads where ih: "laid_out (off + fe_size f) fs' t'"
      "mset (map strip fs') = mset (map strip fs) + pads" "\<forall>p \<in># pads. pad_file p \<and> 0 < fe_size p \<and> fe_size p < alignment"
      "limit \<ge> 0 \<longrightarrow> (\<forall>f \<in> set fs'. fe_size f > limit \<and> \<not> pad_file f \<longrightarrow> fe_offset f mod alignment = 0)" by auto
    then show ?thesis unfolding ft using 2(5) False by (auto intro!: exI [of _ pads])
  next
    case pad: True
    show ?thesis
    proof (cases "best_match ?pad fs")
      case None
      obtain fs' t' where r: "optimize_loop limit fs (off + ?pad + fe_size f) (padding + 1) = (fs', t')" by fastforce
      let ?p = "padding_entry f off ?pad padding"
      have ft: "files = ?p # f\<lparr>fe_offset := off + ?pad\<rparr> # fs'" "tot = t'" using 2(4) pad r None by (auto simp: Let_def optimize_loop.simps(2) [of limit f fs off padding])
      have p: "pad_file ?p" "fe_size ?p = ?pad" "fe_offset ?p = off" by (simp_all add: padding_entry_def)
      from 2(1) [OF pad refl None refl refl r] 2(5,6) obtain pads where ih: "laid_out (off + ?pad + fe_size f) fs' t'"
        "mset (map strip fs') = mset (map strip fs) + pads" "\<forall>p \<in># pads. pad_file p \<and> 0 < fe_size p \<and> fe_size p < alignment"
        "limit \<ge> 0 \<longrightarrow> (\<forall>f \<in> set fs'. fe_size f > limit \<and> \<not> pad_file f \<longrightarrow> fe_offset f mod alignment = 0)" by auto
      have ps: "0 < ?pad" "?pad < alignment" using mod pad by linarith+
      have lay: "laid_out off files tot" unfolding ft using ih(1) p ps 2(5) by simp
      have "mset (map strip files) = mset (map strip (f # fs)) + add_mset (strip ?p) pads" unfolding ft using ih(2) by simp
      moreover have "\<forall>q \<in># add_mset (strip ?p) pads. pad_file q \<and> 0 < fe_size q \<and> fe_size q < alignment" using ih(3) p ps by simp
      ultimately show ?thesis using lay ih(4) p al_off unfolding ft by (auto simp: ft)
    next
      case (Some j)
      from best_match_fits [OF this] have j: "j < length fs" "fe_size (fs ! j) \<le> ?pad" by auto
      let ?e = "(fs ! j)\<lparr>fe_offset := off\<rparr>"
      let ?rest = "f # take j fs @ drop (j + 1) fs"
      obtain fs' t' where r: "optimize_loop limit ?rest (off + fe_size ?e) padding = (fs', t')" by fastforce
      have ft: "files = ?e # fs'" "tot = t'" using 2(4) pad r Some by (auto simp: Let_def optimize_loop.simps(2) [of limit f fs off padding])
      have sub: "set (take j fs) \<subseteq> set fs" "set (drop (Suc j) fs) \<subseteq> set fs" by (rule set_take_subset, rule set_drop_subset)
      then have nn: "\<forall>f \<in> set ?rest. fe_size f \<ge> 0" using 2(5) by auto
      have "laid_out (off + fe_size ?e) fs' t'
        \<and> (\<exists>pads. mset (map strip fs') = mset (map strip ?rest) + pads \<and> (\<forall>p \<in># pads. pad_file p \<and> 0 < fe_size p \<and> fe_size p < alignment))
        \<and> (limit \<ge> 0 \<longrightarrow> (\<forall>f \<in> set fs'. fe_size f > limit \<and> \<not> pad_file f \<longrightarrow> fe_offset f mod alignment = 0))"
        by (rule 2(2) [OF pad refl Some refl r nn 2(6)])
      then obtain pads where ih: "laid_out (off + fe_size ?e) fs' t'"
        "mset (map strip fs') = mset (map strip ?rest) + pads" "\<forall>p \<in># pads. pad_file p \<and> 0 < fe_size p \<and> fe_size p < alignment"
        "limit \<ge> 0 \<longrightarrow> (\<forall>f \<in> set fs'. fe_size f > limit \<and> \<not> pad_file f \<longrightarrow> fe_offset f mod alignment = 0)" by blast
      have "mset (map strip fs) = add_mset (strip (fs ! j)) (mset (map strip (take j fs @ drop (j + 1) fs)))"
        using arg_cong [OF mset_take_drop_nth [OF j(1)], of "image_mset strip"] by simp
      with ih(2) have ms: "mset (map strip files) = mset (map strip (f # fs)) + pads" unfolding ft by simp
      have "fe_size ?e \<le> limit" using j(2) 2(6) mod pad by simp
      then have al: "limit \<ge> 0 \<longrightarrow> (\<forall>f \<in> set files. fe_size f > limit \<and> \<not> pad_file f \<longrightarrow> fe_offset f mod alignment = 0)"
        using ih(4) unfolding ft by auto
      have "laid_out off files tot" unfolding ft using ih(1) 2(5) j(1) by simp
      with ms ih(3) al show ?thesis by blast
    qed
  qed
qed

lemma largest_file_less: "best < length files \<Longrightarrow> i + n \<le> length files \<Longrightarrow> largest_file files best i n < length files"
  by (induction files best i n rule: largest_file.induct) auto

lemma mset_swap_first: "i < length xs \<Longrightarrow> xs \<noteq> [] \<Longrightarrow> mset (xs[i := xs ! 0, 0 := xs ! i]) = mset xs"
  by (rule mset_swap) auto

lemma largest_first_mset:
  assumes "largest_first files = Some fl"
  shows "mset fl = mset files"
proof -
  have ne: "files \<noteq> []" using assms by (auto simp: largest_first_def)
  then have "largest_file files 0 1 (length files - 1) < length files" by (intro largest_file_less) auto
  with ne assms show ?thesis by (auto simp: largest_first_def Let_def mset_swap_first)
qed

lemma optimize_spec:
  assumes "\<forall>f \<in> set (m_files fs). fe_size f \<ge> 0" "optimize limit fs = Some fs'"
  shows "storage_ok fs'"
    "\<exists>pads. mset (map strip (m_files fs')) = mset (map strip (m_files fs)) + pads
       \<and> (\<forall>p \<in># pads. pad_file p \<and> 0 < fe_size p \<and> fe_size p < alignment)"
    "limit \<ge> 0 \<Longrightarrow> f \<in> set (m_files fs') \<Longrightarrow> fe_size f > max limit alignment \<Longrightarrow> \<not> pad_file f \<Longrightarrow>
       fe_offset f mod alignment = 0"
proof -
  define l where "l = (if limit \<ge> 0 \<and> limit < alignment then alignment else limit)"
  obtain fl where fl: "largest_first (m_files fs) = Some fl" using assms(2) by (auto simp: optimize_def Let_def)
  obtain files tot where r: "optimize_loop l fl 0 0 = (files, tot)" by fastforce
  have o: "fs' = fs\<lparr>m_files := files, m_total_size := tot\<rparr>"
    using r assms(2) fl by (simp add: optimize_def l_def Let_def)
  have "set fl = set (m_files fs)" using largest_first_mset [OF fl] by (metis set_mset_mset)
  then have nn: "\<forall>f \<in> set fl. fe_size f \<ge> 0" using assms(1) by simp
  have l: "l < 0 \<or> l \<ge> alignment" by (auto simp: l_def)
  note sp = optimize_loop_spec [OF r nn l]
  have ms: "mset (map strip fl) = mset (map strip (m_files fs))" using largest_first_mset [OF fl] by (metis mset_map)
  show "storage_ok fs'" using sp by (simp add: o storage_ok_def)
  show "\<exists>pads. mset (map strip (m_files fs')) = mset (map strip (m_files fs)) + pads
       \<and> (\<forall>p \<in># pads. pad_file p \<and> 0 < fe_size p \<and> fe_size p < alignment)" using sp ms by (simp add: o)
  assume "limit \<ge> 0" "f \<in> set (m_files fs')" "fe_size f > max limit alignment" "\<not> pad_file f"
  moreover from \<open>limit \<ge> 0\<close> have "l \<ge> 0" "l \<le> max limit alignment" by (auto simp: l_def alignment_def)
  ultimately show "fe_offset f mod alignment = 0" using sp by (auto simp: o)
qed

section \<open>Storages that are built\<close>

inductive built :: "file_storage \<Rightarrow> bool" where
  new: "built new_file_storage"
| add_file: "built fs \<Longrightarrow> len \<ge> 0 \<Longrightarrow> built (add_file file len flags time symlink fs)"
| add_file_entry: "built fs \<Longrightarrow> fe_size e \<ge> 0 \<Longrightarrow> built (add_file_entry e fs)"
| rename_file: "built fs \<Longrightarrow> i < length (m_files fs) \<Longrightarrow> built (rename_file i name fs)"
| optimize: "built fs \<Longrightarrow> optimize limit fs = Some fs' \<Longrightarrow> built fs'"
| set_piece_length: "built fs \<Longrightarrow> built (fs\<lparr>m_piece_length := l\<rparr>)"
| set_num_pieces: "built fs \<Longrightarrow> built (fs\<lparr>m_num_pieces := n\<rparr>)"
| set_name: "built fs \<Longrightarrow> built (fs\<lparr>m_name := s\<rparr>)"

lemma storage_ok_sizes: "storage_ok fs \<Longrightarrow> f \<in> set (m_files fs) \<Longrightarrow> fe_size f \<ge> 0"
proof -
  have "laid_out off xs tot \<Longrightarrow> f \<in> set xs \<Longrightarrow> fe_size f \<ge> 0" for off xs tot
    by (induction off xs tot rule: laid_out.induct) auto
  then show "storage_ok fs \<Longrightarrow> f \<in> set (m_files fs) \<Longrightarrow> fe_size f \<ge> 0" by (auto simp: storage_ok_def)
qed

lemma built_ok: "built fs \<Longrightarrow> storage_ok fs"
proof (induction rule: built.induct)
  case (optimize fs limit fs')
  have "\<forall>f \<in> set (m_files fs). fe_size f \<ge> 0" using storage_ok_sizes [OF optimize.IH] by blast
  from optimize_spec(1) [OF this optimize.hyps(2)] show ?case .
qed (auto simp: add_file_ok add_file_entry_ok rename_file_ok, auto simp: storage_ok_def new_file_storage_def)

definition demo_storage :: file_storage where
  "demo_storage = (add_file [''a'', ''y''] 9000 0 0 [] (add_file [''a'', ''e''] 0 0 0 [] (add_file [''a'', ''x''] 20000 0 0 []
     new_file_storage)))\<lparr>m_piece_length := 16384, m_num_pieces := 2\<rparr>"

lemma demo_storage_built: "built demo_storage"
  unfolding demo_storage_def by (intro built.new built.add_file built.set_num_pieces built.set_piece_length) simp_all

lemma demo_storage_files: "m_files demo_storage \<noteq> []" "m_total_size demo_storage = 29000" "m_piece_length demo_storage = 16384"
  "m_num_pieces demo_storage = 2" "length (m_files demo_storage) = 3" "fe_size (m_files demo_storage ! 2) = 9000"
  by code_simp+

section \<open>What the storage promises\<close>

text \<open>
  C23. \<open>map_block\<close> cuts a range of bytes of a piece into slices of files: the bytes of the
  slices, in order, are exactly the bytes of the range, each at its place in its file, and no
  slice is empty. The reference looks up every byte on its own.
\<close>

theorem map_block_bytes:
  assumes "built fs" "m_files fs \<noteq> []" "0 \<le> piece * m_piece_length fs + offset"
    "piece * m_piece_length fs + offset + len \<le> m_total_size fs"
  shows "slice_bytes (map_block fs piece offset len) =
      map (locate (m_files fs) 0) [piece * m_piece_length fs + offset..piece * m_piece_length fs + offset + len - 1]
    \<and> (\<forall>s \<in> set (map_block fs piece offset len). sl_size s > 0)"
proof -
  let ?t = "piece * m_piece_length fs + offset"
  define k where "k = file_at_offset fs ?t"
  have ok: "storage_ok fs" by (rule built_ok [OF assms(1)])
  then have lay: "laid_out 0 (m_files fs) (m_total_size fs)" by (simp add: storage_ok_def)
  note k = file_at_offset_le [OF ok assms(2,3) k_def]
  let ?d = "drop k (m_files fs)" and ?o = "?t - fe_offset (m_files fs ! k)"
  have sum: "m_total_size fs = fe_offset (m_files fs ! k) + sum_list (map fe_size ?d)"
    by (rule laid_out_sum [OF laid_out_drop [OF lay k(1)]])
  have b: "slice_bytes (map_loop ?d k ?o len) = map (locate ?d k) [?o..?o + len - 1] \<and> (\<forall>s \<in> set (map_loop ?d k ?o len). sl_size s > 0)"
    by (rule map_loop_bytes) (use assms(4) sum k storage_ok_sizes [OF ok] in \<open>auto dest: in_set_dropD\<close>)
  have m: "map_block fs piece offset len = map_loop ?d k ?o len"
    using assms(2) by (simp add: map_block_def k_def Let_def)
  have "locate (m_files fs) 0 x = locate ?d k (x - fe_offset (m_files fs ! k))" if "?t \<le> x" for x
    using locate_drop [OF lay k(1), of x 0] that k(2) by simp
  then have "map (locate (m_files fs) 0) [?t..?t + len - 1] = map (\<lambda>x. locate ?d k (x - fe_offset (m_files fs ! k))) [?t..?t + len - 1]"
    by auto
  also have "\<dots> = map (locate ?d k) (map (\<lambda>x. x - fe_offset (m_files fs ! k)) [?t..?t + len - 1])" by simp
  also have "map (\<lambda>x. x - fe_offset (m_files fs ! k)) [?t..?t + len - 1] = [?o..?o + len - 1]"
    using upto_shift [of "- fe_offset (m_files fs ! k)" ?t "?t + len - 1"] by (simp add: algebra_simps)
  finally show ?thesis using b m by simp
qed

theorem map_block_bytes_witness:
  "slice_bytes (map_block demo_storage 1 3610 8) = map (locate (m_files demo_storage) 0) [19994..20001]
   \<and> map file_index (map_block demo_storage 1 3610 8) = [0, 2]"
proof -
  have "map file_index (map_block demo_storage 1 3610 8) = [0, 2]" by code_simp
  with map_block_bytes [OF demo_storage_built, of 1 3610 8] demo_storage_files show ?thesis by simp
qed

text \<open>
  C24. \<open>map_file\<close> and \<open>map_block\<close> are inverse: the range of a file that is translated to a
  piece and translated back is one slice, of the same file at the same position.
\<close>

theorem map_file_map_block:
  assumes "built fs" "i < length (m_files fs)" "0 \<le> off" "0 < len" "off + len \<le> fe_size (m_files fs ! i)" "m_piece_length fs > 0"
  shows "let r = map_file fs i off len
         in 0 \<le> pr_start r \<and> pr_start r < m_piece_length fs
          \<and> map_block fs (pr_piece r) (pr_start r) (pr_length r) =
              [\<lparr>file_index = i, sl_offset = off + file_base (m_files fs ! i), sl_size = len\<rparr>]"
proof -
  let ?f = "m_files fs ! i"
  have ok: "storage_ok fs" by (rule built_ok [OF assms(1)])
  then have lay: "laid_out 0 (m_files fs) (m_total_size fs)" by (simp add: storage_ok_def)
  have fi: "m_files fs = take i (m_files fs) @ ?f # drop (Suc i) (m_files fs)" using assms(2) by (rule id_take_nth_drop)
  have before: "fe_offset g \<le> fe_offset ?f" if "g \<in> set (take i (m_files fs))" for g
  proof -
    obtain mid where "laid_out 0 (take i (m_files fs)) mid" "laid_out mid (?f # drop (Suc i) (m_files fs)) (m_total_size fs)"
      using lay fi laid_out_append by metis
    with laid_out_in [OF _ that] storage_ok_sizes [OF ok, of g] in_set_takeD [OF that] show ?thesis by fastforce
  qed
  have after: "fe_offset ?f + fe_size ?f \<le> fe_offset g" if "g \<in> set (drop (Suc i) (m_files fs))" for g
    using laid_out_drop [OF lay assms(2)] laid_out_in that assms(2) by (auto simp: Cons_nth_drop_Suc [symmetric])
  let ?t = "off + fe_offset ?f"
  have tw: "takeWhile (\<lambda>g. fe_offset g \<le> ?t) (m_files fs) = take i (m_files fs) @ [?f]"
  proof -
    have "takeWhile (\<lambda>g. fe_offset g \<le> ?t) (drop (Suc i) (m_files fs)) = []"
    proof (cases "drop (Suc i) (m_files fs)")
      case (Cons g gs)
      with after [of g] assms(3-5) show ?thesis by simp
    qed simp
    moreover have "fe_offset g \<le> ?t" if "g \<in> set (take i (m_files fs))" for g using before [OF that] assms(3) by simp
    ultimately have "takeWhile (\<lambda>g. fe_offset g \<le> ?t) (take i (m_files fs) @ ?f # drop (Suc i) (m_files fs)) = take i (m_files fs) @ [?f]"
      using assms(3) by (subst takeWhile_append2) simp_all
    then show ?thesis using fi by simp
  qed
  have at: "file_at_offset fs ?t = i" using assms(2) by (simp add: file_at_offset_def tw)
  have "m_files fs \<noteq> []" using assms(2) by auto
  moreover have "?t div m_piece_length fs * m_piece_length fs + ?t mod m_piece_length fs = ?t" by simp
  ultimately have "map_block fs (?t div m_piece_length fs) (?t mod m_piece_length fs) len = map_loop (drop i (m_files fs)) i off len"
    unfolding map_block_def Let_def by (simp add: at)
  also have "drop i (m_files fs) = ?f # drop (Suc i) (m_files fs)" using assms(2) by (simp add: Cons_nth_drop_Suc)
  also have "map_loop \<dots> i off len = [\<lparr>file_index = i, sl_offset = off + file_base ?f, sl_size = len\<rparr>]"
    using assms(3-5) by (cases "drop (Suc i) (m_files fs)") (simp_all add: Let_def)
  finally show ?thesis using assms(6) by (simp add: map_file_def Let_def)
qed

theorem map_file_map_block_witness:
  "let r = map_file demo_storage 2 100 50
   in map_block demo_storage (pr_piece r) (pr_start r) (pr_length r) =
        [\<lparr>file_index = 2, sl_offset = 100 + file_base (m_files demo_storage ! 2), sl_size = 50\<rparr>]"
  using map_file_map_block [OF demo_storage_built, of 2 100 50] demo_storage_files by (simp add: Let_def)

text \<open>
  When a torrent has as many pieces as its size asks for, the pieces cover it: every piece
  has between one byte and the piece length, and together they have the total size.
\<close>

theorem piece_sizes_cover:
  assumes "m_piece_length fs > 0" "m_total_size fs > 0"
    "m_num_pieces fs = (m_total_size fs + m_piece_length fs - 1) div m_piece_length fs"
  shows "(\<Sum>i = 0..<m_num_pieces fs. piece_size fs i) = m_total_size fs
    \<and> (\<forall>i \<in> {0..<m_num_pieces fs}. 0 < piece_size fs i \<and> piece_size fs i \<le> m_piece_length fs)"
proof -
  let ?l = "m_piece_length fs" and ?n = "m_num_pieces fs" and ?t = "m_total_size fs"
  have eq: "?n * ?l + (?t + ?l - 1) mod ?l = ?t + ?l - 1" using assms(3) by simp
  have m: "0 \<le> (?t + ?l - 1) mod ?l" "(?t + ?l - 1) mod ?l < ?l" using assms(1) by simp_all
  moreover have "(?n - 1) * ?l = ?n * ?l - ?l" by (simp add: left_diff_distrib)
  ultimately have last: "0 < ?t - (?n - 1) * ?l" "?t - (?n - 1) * ?l \<le> ?l" using eq by linarith+
  have "0 < ?n * ?l" using eq assms(2) m by linarith
  then have n: "?n \<ge> 1" using assms(1) by (simp add: zero_less_mult_iff)
  then have "{0..<?n} = insert (?n - 1) {0..<?n - 1}" by auto
  then have "(\<Sum>i = 0..<?n. piece_size fs i) = piece_size fs (?n - 1) + (\<Sum>i = 0..<?n - 1. piece_size fs i)" by simp
  also have "(\<Sum>i = 0..<?n - 1. piece_size fs i) = (?n - 1) * ?l" using n by (simp add: piece_size_def)
  finally show ?thesis using last by (auto simp: piece_size_def)
qed

theorem piece_sizes_cover_witness: "piece_size demo_storage 0 + piece_size demo_storage 1 = 29000"
proof -
  have "{0..<2 :: int} = {0, 1}" by auto
  with piece_sizes_cover [of demo_storage] demo_storage_files show ?thesis by simp
qed

text \<open>
  C25. \<open>optimize\<close>, which is defined unless there is no file at all (it then swaps the element behind the last one), keeps every file, apart from its offset, and adds nothing but padding files
  smaller than 8 KiB; afterwards the files lie one behind the other without gaps and
  \<open>m_total_size\<close> is their sum; and with padding switched on every file above the limit starts
  at a multiple of 8 KiB.
\<close>

theorem optimize_aligns:
  assumes "built fs"
  shows "case optimize limit fs of None \<Rightarrow> m_files fs = []
    | Some fs' \<Rightarrow> storage_ok fs'
    \<and> (\<exists>pads. mset (map strip (m_files fs')) = mset (map strip (m_files fs)) + pads
        \<and> (\<forall>p \<in># pads. pad_file p \<and> 0 < fe_size p \<and> fe_size p < alignment))
    \<and> (limit \<ge> 0 \<longrightarrow> (\<forall>f \<in> set (m_files fs').
          fe_size f > max limit alignment \<and> \<not> pad_file f \<longrightarrow> fe_offset f mod alignment = 0))"
proof (cases "optimize limit fs")
  case None
  then show ?thesis by (simp add: optimize_def largest_first_def Let_def split: if_splits)
next
  case (Some fs')
  have "\<forall>f \<in> set (m_files fs). fe_size f \<ge> 0" using storage_ok_sizes [OF built_ok [OF assms]] by blast
  note spec = optimize_spec [OF this Some]
  show ?thesis unfolding Some option.case using spec by blast
qed

theorem optimize_aligns_witness:
  "\<exists>fs. optimize 0 demo_storage = Some fs \<and> map fe_offset (m_files fs) = [0, 20000, 20000, 24576] \<and> fe_offset (m_files fs ! 3) mod alignment = 0"
proof -
  let ?fs = "the (optimize 0 demo_storage)"
  have f: "optimize 0 demo_storage \<noteq> None" "map fe_offset (m_files ?fs) = [0, 20000, 20000, 24576]"
    "m_files ?fs ! 3 \<in> set (m_files ?fs)" "fe_size (m_files ?fs ! 3) > max 0 alignment" "\<not> pad_file (m_files ?fs ! 3)" by code_simp+
  then obtain fs where fs: "optimize 0 demo_storage = Some fs" by blast
  with optimize_aligns [OF demo_storage_built, of 0] f show ?thesis by auto
qed

end
