(* ===== verification/IP_Filter.thy ===== *)
theory IP_Filter
  imports Prelude "HOL-Library.Word" "HOL-Library.List_Lexorder" "HOL-Library.Code_Target_Nat"
begin

text \<open>
  The filters of addresses and ports (\<open>include/libtorrent/ip_filter.hpp\<close>, \<open>src/ip_filter.cpp\<close>).
  \<open>filter_impl\<close> is a template over the type of addresses: what it uses of it is the record
  \<open>addr_ops\<close>, an argument of its operations, and the order of the type. It keeps a
  \<open>std::set\<close> of the places where the access changes, here the list of its elements in order;
  an iterator is an index. What the operations of an address type must satisfy is the locale
  \<open>address_space\<close>, interpreted for ports, which are 16-bit words, and for IPv4 and IPv6
  addresses, which are arrays of 4 and 16 bytes.
\<close>

section \<open>Addresses\<close>

record 'a addr_ops =
  zero :: 'a
  max_addr :: 'a
  plus_one :: "'a \<Rightarrow> 'a"
  minus_one :: "'a \<Rightarrow> 'a"

text \<open>The loops of \<open>plus_one\<close> and \<open>minus_one\<close> on arrays of bytes start at the last byte.\<close>

fun carry_up :: "8 word list \<Rightarrow> 8 word list" where
  "carry_up [] = []"
| "carry_up (b # bs) = (if b < 255 then (b + 1) # bs else 0 # carry_up bs)"

fun carry_down :: "8 word list \<Rightarrow> 8 word list" where
  "carry_down [] = []"
| "carry_down (b # bs) = (if b > 0 then (b - 1) # bs else 255 # carry_down bs)"

definition byte_addr :: "nat \<Rightarrow> 8 word list addr_ops" where
  "byte_addr n = \<lparr>zero = replicate n 0, max_addr = replicate n 255,
     plus_one = (\<lambda>a. rev (carry_up (rev a))), minus_one = (\<lambda>a. rev (carry_down (rev a)))\<rparr>"

definition port_addr :: "16 word addr_ops" where
  "port_addr = \<lparr>zero = 0, max_addr = 65535, plus_one = (\<lambda>p. p + 1), minus_one = (\<lambda>p. p - 1)\<rparr>"

section \<open>The filter\<close>

record 'a range =
  range_start :: 'a
  range_access :: int

definition upper_bound :: "'a :: linorder \<Rightarrow> 'a range list \<Rightarrow> nat" where
  "upper_bound a xs = length (takeWhile (\<lambda>r. range_start r \<le> a) xs)"

text \<open>\<open>std::set::insert\<close>: the new set and the position of the element.\<close>

definition set_insert :: "'a :: linorder range \<Rightarrow> 'a range list \<Rightarrow> 'a range list \<times> nat" where
  "set_insert r xs =
     (let k = length (takeWhile (\<lambda>q. range_start q < range_start r) xs)
      in if k < length xs \<and> range_start (xs ! k) = range_start r then (xs, k)
         else (take k xs @ r # drop k xs, k))"

definition new_filter :: "'a addr_ops \<Rightarrow> 'a range list" where
  "new_filter ops = [\<lparr>range_start = zero ops, range_access = 0\<rparr>]"

text \<open>
  \<open>add_rule\<close>, in the four steps of the code: where the new range starts, the erasure of what it
  covers, the mark at its first address, and the range that goes on after its last address.
\<close>

definition rule_first :: "'a :: linorder \<Rightarrow> int \<Rightarrow> 'a range list \<Rightarrow> nat \<Rightarrow> nat \<Rightarrow> 'a range list \<times> nat \<times> nat \<times> int" where
  "rule_first first flags xs i j =
     (let first_access = range_access (xs ! i)
      in if range_start (xs ! i) \<noteq> first \<and> first_access \<noteq> flags
         then let (ys, k) = set_insert \<lparr>range_start = first, range_access = flags\<rparr> xs
              in (ys, k, j + (length ys - length xs), first_access)
         else if i \<noteq> 0 \<and> range_access (xs ! (i - 1)) = flags
         then (xs, i - 1, j, range_access (xs ! (i - 1)))
         else (xs, i, j, first_access))"

definition rule_erase :: "'a range list \<Rightarrow> nat \<Rightarrow> nat \<Rightarrow> 'a range list \<times> nat" where
  "rule_erase xs i j = (if i \<noteq> j then (take (i + 1) xs @ drop j xs, i + 1) else (xs, j))"

definition rule_mark :: "'a :: linorder \<Rightarrow> int \<Rightarrow> int \<Rightarrow> 'a range list \<Rightarrow> nat \<Rightarrow> nat \<Rightarrow> 'a range list \<times> nat" where
  "rule_mark first flags first_access xs i j =
     (if range_start (xs ! i) = first
      then (xs[i := \<lparr>range_start = first, range_access = flags\<rparr>], j)
      else if first_access \<noteq> flags
      then let (ys, k) = set_insert \<lparr>range_start = first, range_access = flags\<rparr> xs
           in (ys, j + (length ys - length xs))
      else (xs, j))"

definition rule_last :: "'a :: linorder addr_ops \<Rightarrow> 'a \<Rightarrow> int \<Rightarrow> int \<Rightarrow> 'a range list \<Rightarrow> nat \<Rightarrow> 'a range list" where
  "rule_last ops lst flags last_access xs j =
     (let (xs, j) =
        (if j < length xs \<and> minus_one ops (range_start (xs ! j)) \<noteq> lst \<or> j = length xs \<and> lst \<noteq> max_addr ops
         then if last_access \<noteq> flags
              then set_insert \<lparr>range_start = plus_one ops lst, range_access = last_access\<rparr> xs
              else (xs, j)
         else (xs, j))
      in if j < length xs \<and> range_access (xs ! j) = flags then take j xs @ drop (j + 1) xs else xs)"

definition add_rule :: "'a :: linorder addr_ops \<Rightarrow> 'a \<Rightarrow> 'a \<Rightarrow> int \<Rightarrow> 'a range list \<Rightarrow> 'a range list" where
  "add_rule ops first lst flags xs =
     (let i = upper_bound first xs;
          j = upper_bound lst xs;
          i = (if i \<noteq> 0 then i - 1 else i);
          last_access = range_access (xs ! (j - 1));
          (xs, i, j, first_access) = rule_first first flags xs i j;
          (xs, j) = rule_erase xs i j;
          (xs, j) = rule_mark first flags first_access xs i j
      in rule_last ops lst flags last_access xs j)"

definition access :: "'a :: linorder range list \<Rightarrow> 'a \<Rightarrow> int" where
  "access xs addr =
     (let i = upper_bound addr xs; i = (if i \<noteq> 0 then i - 1 else i)
      in range_access (xs ! i))"

record 'a ip_range =
  ipr_first :: 'a
  ipr_last :: 'a
  ipr_flags :: int

fun export_filter :: "'a addr_ops \<Rightarrow> 'a range list \<Rightarrow> 'a ip_range list" where
  "export_filter ops [] = []"
| "export_filter ops (r # rs) =
     \<lparr>ipr_first = range_start r,
      ipr_last = (case rs of [] \<Rightarrow> max_addr ops | q # _ \<Rightarrow> minus_one ops (range_start q)),
      ipr_flags = range_access r\<rparr> # export_filter ops rs"

section \<open>The filters of the session\<close>

datatype address = V4 "8 word list" | V6 "8 word list"

record ip_filter =
  m_filter4 :: "8 word list range list"
  m_filter6 :: "8 word list range list"

definition new_ip_filter :: ip_filter where
  "new_ip_filter = \<lparr>m_filter4 = new_filter (byte_addr 4), m_filter6 = new_filter (byte_addr 16)\<rparr>"

text \<open>Both addresses must be of the same type: the code asserts it, and a conversion to the other type
  throws before the filter is touched.\<close>

fun ip_add_rule :: "address \<Rightarrow> address \<Rightarrow> int \<Rightarrow> ip_filter \<Rightarrow> ip_filter" where
  "ip_add_rule (V4 first) (V4 lst) flags f = f\<lparr>m_filter4 := add_rule (byte_addr 4) first lst flags (m_filter4 f)\<rparr>"
| "ip_add_rule (V6 first) (V6 lst) flags f = f\<lparr>m_filter6 := add_rule (byte_addr 16) first lst flags (m_filter6 f)\<rparr>"
| "ip_add_rule _ _ flags f = f"

fun ip_access :: "ip_filter \<Rightarrow> address \<Rightarrow> int" where
  "ip_access f (V4 a) = access (m_filter4 f) a"
| "ip_access f (V6 a) = access (m_filter6 f) a"

definition ip_export_filter :: "ip_filter \<Rightarrow> 8 word list ip_range list \<times> 8 word list ip_range list" where
  "ip_export_filter f = (export_filter (byte_addr 4) (m_filter4 f), export_filter (byte_addr 16) (m_filter6 f))"

definition port_add_rule :: "16 word \<Rightarrow> 16 word \<Rightarrow> int \<Rightarrow> 16 word range list \<Rightarrow> 16 word range list" where
  "port_add_rule first lst flags f = add_rule port_addr first lst flags f"

definition port_access :: "16 word range list \<Rightarrow> 16 word \<Rightarrow> int" where
  "port_access f port = access f port"

section \<open>Address spaces\<close>

locale address_space =
  fixes ops :: "'a :: linorder addr_ops" and valid :: "'a \<Rightarrow> bool"
  assumes zero_valid: "valid (zero ops)" and zero_least: "valid a \<Longrightarrow> zero ops \<le> a"
    and max_greatest: "valid a \<Longrightarrow> a \<le> max_addr ops"
    and plus_one_valid: "valid a \<Longrightarrow> a < b \<Longrightarrow> valid b \<Longrightarrow> valid (plus_one ops a) \<and> a < plus_one ops a \<and> plus_one ops a \<le> b"
    and minus_one_valid: "valid a \<Longrightarrow> valid b \<Longrightarrow> b < a \<Longrightarrow> valid (minus_one ops a) \<and> minus_one ops a < a \<and> b \<le> minus_one ops a"
    and max_valid: "valid (max_addr ops)"

text \<open>A space whose addresses are numbered in order.\<close>

locale numbered_space =
  fixes ops :: "'a :: linorder addr_ops" and valid :: "'a \<Rightarrow> bool" and val :: "'a \<Rightarrow> nat" and n :: nat
  assumes val_less: "valid a \<Longrightarrow> val a < n" and val_mono: "valid a \<Longrightarrow> valid b \<Longrightarrow> a < b \<longleftrightarrow> val a < val b"
    and val_zero: "valid (zero ops) \<and> val (zero ops) = 0" and val_max: "valid (max_addr ops) \<and> Suc (val (max_addr ops)) = n"
    and val_plus: "valid a \<Longrightarrow> Suc (val a) < n \<Longrightarrow> valid (plus_one ops a) \<and> val (plus_one ops a) = Suc (val a)"
    and val_minus: "valid a \<Longrightarrow> 0 < val a \<Longrightarrow> valid (minus_one ops a) \<and> Suc (val (minus_one ops a)) = val a"
begin

lemma val_le: "valid a \<Longrightarrow> valid b \<Longrightarrow> a \<le> b \<longleftrightarrow> val a \<le> val b"
  using val_mono [of b a] by (auto simp: not_less [symmetric])

end

sublocale numbered_space \<subseteq> address_space
proof
  show "valid (zero ops)" "valid a \<Longrightarrow> zero ops \<le> a" for a using val_zero val_le by auto
  show "valid (max_addr ops)" "valid a \<Longrightarrow> a \<le> max_addr ops" for a using val_max val_le val_less [of a] by auto
  show "valid (plus_one ops a) \<and> a < plus_one ops a \<and> plus_one ops a \<le> b" if "valid a" "a < b" "valid b" for a b
  proof -
    have "val a < val b" "val b < n" using that val_mono val_less by auto
    then have "valid (plus_one ops a) \<and> val (plus_one ops a) = Suc (val a)" using val_plus that by simp
    then show ?thesis using that \<open>val a < val b\<close> val_mono [of a "plus_one ops a"] val_le by auto
  qed
  show "valid (minus_one ops a) \<and> minus_one ops a < a \<and> b \<le> minus_one ops a" if "valid a" "valid b" "b < a" for a b
  proof -
    have "val b < val a" using that val_mono by auto
    then have "valid (minus_one ops a) \<and> Suc (val (minus_one ops a)) = val a" using val_minus that by simp
    then show ?thesis using that \<open>val b < val a\<close> val_mono [of "minus_one ops a" a] val_le by auto
  qed
qed

section \<open>Looking up\<close>

text \<open>The access a list of changes gives to an address, starting with \<open>d\<close>: the reference for \<open>access\<close>.\<close>

fun lookup :: "int \<Rightarrow> 'a :: linorder range list \<Rightarrow> 'a \<Rightarrow> int" where
  "lookup d [] a = d"
| "lookup d (r # rs) a = (if range_start r \<le> a then lookup (range_access r) rs a else d)"

lemma lookup_all: "\<forall>r \<in> set xs. range_start r \<le> a \<Longrightarrow>
    lookup d (xs @ ys) a = lookup (if xs = [] then d else range_access (last xs)) ys a"
  by (induction xs arbitrary: d) auto

lemma lookup_none: "\<forall>r \<in> set ys. \<not> range_start r \<le> a \<Longrightarrow> lookup d (xs @ ys) a = lookup d xs a"
proof (induction xs arbitrary: d)
  case Nil
  then show ?case by (cases ys) auto
qed simp

lemma lookup_takeWhile: "lookup d xs a = lookup d (takeWhile (\<lambda>r. range_start r \<le> a) xs) a"
  by (induction d xs a rule: lookup.induct) auto

lemma access_lookup:
  assumes "xs \<noteq> []" "range_start (hd xs) \<le> a"
  shows "access xs a = lookup d xs a"
proof -
  let ?t = "takeWhile (\<lambda>r. range_start r \<le> a) xs"
  have ne: "?t \<noteq> []" using assms by (cases xs) auto
  then have "lookup d xs a = range_access (last ?t)"
    using lookup_takeWhile [of d xs a] lookup_all [of ?t a d "[]"] by (auto dest: set_takeWhileD)
  also have "last ?t = xs ! (length ?t - 1)"
    using ne by (simp add: last_conv_nth takeWhile_nth)
  finally show ?thesis using ne by (simp add: access_def upper_bound_def Let_def)
qed

section \<open>The shape of the new list\<close>

definition before_rule :: "'a :: linorder \<Rightarrow> int \<Rightarrow> 'a range list \<Rightarrow> 'a range \<Rightarrow> 'a range list" where
  "before_rule first flags A r =
     (if range_start r \<noteq> first \<and> range_access r \<noteq> flags then A @ [r, \<lparr>range_start = first, range_access = flags\<rparr>]
      else if A \<noteq> [] \<and> range_access (last A) = flags then A
      else if range_start r = first then A @ [\<lparr>range_start = first, range_access = flags\<rparr>]
      else A @ [r])"

definition after_rule :: "'a :: linorder addr_ops \<Rightarrow> 'a \<Rightarrow> int \<Rightarrow> int \<Rightarrow> 'a range list \<Rightarrow> 'a range list" where
  "after_rule ops lst flags last_access B =
     (if (case B of [] \<Rightarrow> lst \<noteq> max_addr ops | q # _ \<Rightarrow> minus_one ops (range_start q) \<noteq> lst) \<and> last_access \<noteq> flags
      then \<lparr>range_start = plus_one ops lst, range_access = last_access\<rparr> # B
      else case B of [] \<Rightarrow> [] | q # qs \<Rightarrow> if range_access q = flags then qs else B)"

lemma upper_bound_append:
  assumes "\<forall>r \<in> set xs. range_start r \<le> a" "\<forall>r \<in> set ys. \<not> range_start r \<le> a"
  shows "upper_bound a (xs @ ys) = length xs"
proof -
  have "takeWhile (\<lambda>r. range_start r \<le> a) ys = []" using assms(2) by (cases ys) auto
  with assms(1) show ?thesis by (simp add: upper_bound_def)
qed

lemma set_insert_between:
  assumes "\<forall>q \<in> set xs. range_start q < range_start r" "\<forall>q \<in> set ys. range_start r < range_start q"
  shows "set_insert r (xs @ ys) = (xs @ r # ys, length xs)"
proof -
  have "takeWhile (\<lambda>q. range_start q < range_start r) ys = []" using assms(2) by (cases ys) (auto dest: order.asym)
  moreover have "ys \<noteq> [] \<Longrightarrow> range_start (ys ! 0) \<noteq> range_start r" using assms(2) by (cases ys) auto
  ultimately show ?thesis using assms(1) by (auto simp: set_insert_def Let_def nth_append)
qed

context address_space
begin

lemma add_rule_form:
  assumes xs: "xs = A @ r # M @ B" and A: "\<forall>q \<in> set A. range_start q < range_start r" and r: "range_start r \<le> first" and fl: "first \<le> lst"
    and M: "\<forall>q \<in> set M. first < range_start q \<and> range_start q \<le> lst"
    and B: "\<forall>q \<in> set B. lst < range_start q" and plus: "\<forall>q \<in> set B. minus_one ops (range_start (hd B)) \<noteq> lst \<longrightarrow> plus_one ops lst < range_start q"
    and plus2: "lst < plus_one ops lst \<or> lst = max_addr ops"
    and bm: "B \<noteq> [] \<Longrightarrow> lst \<noteq> max_addr ops"
  shows "add_rule ops first lst flags xs =
    before_rule first flags A r @ after_rule ops lst flags (range_access (last (r # M))) B"
proof -
  let ?new = "\<lparr>range_start = first, range_access = flags\<rparr>"
  let ?la = "range_access (last (r # M))"
  have i: "upper_bound first xs = length A + 1"
    using upper_bound_append [of "A @ [r]" first "M @ B"] xs A r M B fl by fastforce
  have j: "upper_bound lst xs = length A + 1 + length M"
    using upper_bound_append [of "A @ r # M" lst B] xs A r M B fl by fastforce
  have la: "range_access (xs ! (length A + length M)) = ?la"
    unfolding xs by (cases M rule: rev_cases) (simp_all add: nth_append)
  have ins: "set_insert ?new xs = (A @ r # ?new # M @ B, length A + 1)" if "range_start r \<noteq> first"
  proof -
    have "set_insert ?new ((A @ [r]) @ M @ B) = ((A @ [r]) @ ?new # M @ B, length (A @ [r]))"
      by (rule set_insert_between) (use A r that M B fl in force)+
    then show ?thesis by (simp add: xs)
  qed
  define P where "P = before_rule first flags A r"
  have Pl: "\<forall>q \<in> set P. range_start q \<le> first" using A r by (auto simp: P_def before_rule_def)
  have tail: "rule_last ops lst flags ?la (P @ B) (length P) = P @ after_rule ops lst flags ?la B"
  proof -
    have "set_insert \<lparr>range_start = plus_one ops lst, range_access = ?la\<rparr> (P @ B) =
        (P @ \<lparr>range_start = plus_one ops lst, range_access = ?la\<rparr> # B, length P)"
      if "B = [] \<and> lst \<noteq> max_addr ops \<or> B \<noteq> [] \<and> minus_one ops (range_start (hd B)) \<noteq> lst"
      by (rule set_insert_between) (use that Pl fl plus plus2 bm in force)+
    then show ?thesis by (cases B) (auto simp: rule_last_def after_rule_def Let_def nth_append)
  qed
  have step: ?thesis
    if "rule_first first flags xs (length A) (length A + 1 + length M) = (Q @ q # N @ B, length Q, length Q + 1 + length N, fa)"
      and "rule_mark first flags fa (Q @ q # B) (length Q) (length Q + 1) = (P @ B, length P)" for Q q N fa
  proof -
    have "rule_erase (Q @ q # N @ B) (length Q) (length Q + 1 + length N) = (Q @ q # B, length Q + 1)"
      by (simp add: rule_erase_def)
    with that tail i j la show ?thesis by (simp add: add_rule_def P_def)
  qed
  consider (new) "range_start r \<noteq> first" "range_access r \<noteq> flags"
    | (join) "range_start r = first \<or> range_access r = flags" "A \<noteq> []" "range_access (last A) = flags"
    | (same) "range_start r = first" "\<not> (A \<noteq> [] \<and> range_access (last A) = flags)"
    | (old) "range_start r \<noteq> first" "range_access r = flags" "\<not> (A \<noteq> [] \<and> range_access (last A) = flags)" by argo
  then show ?thesis
  proof cases
    case new
    then have "P = A @ [r, ?new]" by (simp add: P_def before_rule_def)
    with new ins show ?thesis
      by (intro step [of "A @ [r]" ?new M "range_access r"]) (simp_all add: rule_first_def rule_mark_def xs list_update_append nth_append)
  next
    case join
    then have P: "P = A" by (auto simp: P_def before_rule_def)
    obtain A0 q where q: "A = A0 @ [q]" using join(2) by (cases A rule: rev_cases) auto
    have ne: "range_start q \<noteq> first" using A r q by auto
    show ?thesis
      by (rule step [of A0 q "r # M" flags]) (use join ne P in \<open>auto simp: rule_first_def rule_mark_def xs q nth_append\<close>)
  next
    case same
    then have P: "P = A @ [?new]" by (auto simp: P_def before_rule_def)
    have "A \<noteq> [] \<longrightarrow> range_access (A ! (length A - 1)) \<noteq> flags" using same(2) by (auto simp: last_conv_nth)
    with same P show ?thesis
      by (intro step [of A r M "range_access r"]) (auto simp: rule_first_def rule_mark_def xs nth_append)
  next
    case old
    then have P: "P = A @ [r]" by (auto simp: P_def before_rule_def)
    have "A \<noteq> [] \<longrightarrow> range_access (A ! (length A - 1)) \<noteq> flags" using old(3) by (auto simp: last_conv_nth)
    with old P show ?thesis
      by (intro step [of A r M "range_access r"]; cases "A = []") (auto simp: rule_first_def rule_mark_def xs nth_append)
  qed
qed

end

section \<open>Canonical filters\<close>

text \<open>
  What the set of a filter keeps: it is in order, starts at the first address, and two ranges
  that follow each other have different accesses.
\<close>

definition canonical :: "'a :: linorder addr_ops \<Rightarrow> ('a \<Rightarrow> bool) \<Rightarrow> 'a range list \<Rightarrow> bool" where
  "canonical ops valid xs \<longleftrightarrow> xs \<noteq> [] \<and> range_start (hd xs) = zero ops \<and>
     sorted_wrt (\<lambda>p q. range_start p < range_start q) xs \<and> (\<forall>r \<in> set xs. valid (range_start r)) \<and>
     distinct_adj (map range_access xs)"

lemma split_at:
  fixes xs :: "'a :: linorder range list"
  assumes "sorted_wrt (\<lambda>p q. range_start p < range_start q) xs"
  obtains ys zs where "xs = ys @ zs" "\<forall>r \<in> set ys. range_start r \<le> a" "\<forall>r \<in> set zs. a < range_start r"
proof
  let ?P = "\<lambda>r. range_start r \<le> a"
  show "xs = takeWhile ?P xs @ dropWhile ?P xs" by simp
  show "\<forall>r \<in> set (takeWhile ?P xs). range_start r \<le> a" by (auto dest: set_takeWhileD)
  show "\<forall>r \<in> set (dropWhile ?P xs). a < range_start r"
    using assms by (induction xs) (auto dest: order.strict_trans1 simp: not_le intro: order.strict_trans)
qed

context address_space
begin

lemma plus_one_greater: "valid lst \<Longrightarrow> lst < plus_one ops lst \<or> lst = max_addr ops"
  using plus_one_valid [OF _ _ max_valid] max_greatest [of lst] by fastforce

lemma not_max: "\<forall>q \<in> set B. lst < range_start q \<and> valid (range_start q) \<Longrightarrow> B \<noteq> [] \<Longrightarrow> lst \<noteq> max_addr ops"
  using max_greatest by (cases B) (auto dest: leD)

lemma plus_one_before:
  assumes B: "\<forall>q \<in> set B. lst < range_start q" "\<forall>q \<in> set B. valid (range_start q)"
    and srt: "sorted_wrt (\<lambda>p q. range_start p < range_start q) B" and v: "valid lst"
    and q: "q \<in> set B" and ne: "minus_one ops (range_start (hd B)) \<noteq> lst"
  shows "plus_one ops lst < range_start q"
proof -
  have h: "hd B \<in> set B" using q by (cases B) auto
  then have m: "valid (minus_one ops (range_start (hd B)))" "minus_one ops (range_start (hd B)) < range_start (hd B)"
    "lst \<le> minus_one ops (range_start (hd B))"
    using minus_one_valid [of "range_start (hd B)" lst] B v by auto
  then have "plus_one ops lst \<le> minus_one ops (range_start (hd B))" using plus_one_valid [OF v] ne by force
  also have "\<dots> < range_start (hd B)" by (rule m(2))
  also have "\<dots> \<le> range_start q" using srt q by (cases B) (auto intro: less_imp_le)
  finally show ?thesis .
qed

lemma split_filter:
  assumes c: "canonical ops valid xs" and v: "valid first" "valid lst" "first \<le> lst"
  obtains A r M B where "xs = A @ r # M @ B" "\<forall>q \<in> set A. range_start q < range_start r" "range_start r \<le> first"
    "\<forall>q \<in> set M. first < range_start q \<and> range_start q \<le> lst" "\<forall>q \<in> set B. lst < range_start q"
proof -
  have srt: "sorted_wrt (\<lambda>p q. range_start p < range_start q) xs" using c by (simp add: canonical_def)
  obtain ys zs where 1: "xs = ys @ zs" "\<forall>r \<in> set ys. range_start r \<le> first" "\<forall>r \<in> set zs. first < range_start r"
    using split_at [OF srt] by metis
  have "sorted_wrt (\<lambda>p q. range_start p < range_start q) zs" using srt 1(1) by (simp add: sorted_wrt_append)
  then obtain M B where 2: "zs = M @ B" "\<forall>r \<in> set M. range_start r \<le> lst" "\<forall>r \<in> set B. lst < range_start r"
    using split_at by metis
  have "ys \<noteq> []"
  proof
    assume "ys = []"
    then have "hd xs \<in> set zs" using 1(1) c by (cases xs) (auto simp: canonical_def)
    then show False using 1(3) zero_least [OF v(1)] c by (auto simp: canonical_def dest: order.strict_trans1)
  qed
  then obtain A r where "ys = A @ [r]" by (cases ys rule: rev_cases) auto
  then show thesis using that [of A r M B] 1 2 srt by (auto simp: sorted_wrt_append)
qed

lemma add_rule_cases:
  assumes c: "canonical ops valid xs" and v: "valid first" "valid lst" "first \<le> lst"
  obtains A r M B where "xs = A @ r # M @ B" "\<forall>q \<in> set A. range_start q < range_start r" "range_start r \<le> first"
    "\<forall>q \<in> set M. first < range_start q \<and> range_start q \<le> lst" "\<forall>q \<in> set B. lst < range_start q"
    "\<forall>q \<in> set xs. valid (range_start q)" "sorted_wrt (\<lambda>p q. range_start p < range_start q) B"
    "add_rule ops first lst flags xs =
       before_rule first flags A r @ after_rule ops lst flags (range_access (last (r # M))) B"
proof (rule split_filter [OF c v])
  fix A r M B
  assume xs: "xs = A @ r # M @ B" and A: "\<forall>q \<in> set A. range_start q < range_start r" and r: "range_start r \<le> first"
    and M: "\<forall>q \<in> set M. first < range_start q \<and> range_start q \<le> lst" and B: "\<forall>q \<in> set B. lst < range_start q"
  have val: "\<forall>q \<in> set xs. valid (range_start q)" and srt: "sorted_wrt (\<lambda>p q. range_start p < range_start q) B"
    using c xs by (auto simp: canonical_def sorted_wrt_append)
  have "\<forall>q \<in> set B. minus_one ops (range_start (hd B)) \<noteq> lst \<longrightarrow> plus_one ops lst < range_start q"
    using plus_one_before [OF B _ srt v(2)] val xs by auto
  moreover have "B \<noteq> [] \<Longrightarrow> lst \<noteq> max_addr ops" using not_max [of B lst] B val xs by auto
  ultimately show thesis
    using that [OF xs A r M B val srt] add_rule_form [OF xs A r v(3) M B _ plus_one_greater [OF v(2)]] by blast
qed

lemma before_rule_last:
  "before_rule first flags A r \<noteq> [] \<and> range_access (last (before_rule first flags A r)) = flags"
  by (auto simp: before_rule_def)

lemma before_rule_starts:
  assumes "\<forall>q \<in> set A. range_start q < range_start r" "range_start r \<le> first"
  shows "\<forall>q \<in> set (before_rule first flags A r). range_start q \<le> first"
  using assms by (auto simp: before_rule_def)

lemma before_rule_lookup:
  assumes A: "\<forall>q \<in> set A. range_start q < range_start r" and r: "range_start r \<le> first" and a: "a < first"
  shows "lookup d (before_rule first flags A r) a = lookup d (A @ [r]) a"
proof -
  have j: "lookup d A a = lookup d (A @ [r]) a" if "A \<noteq> []" "range_access (last A) = flags" "range_start r = first \<or> range_access r = flags"
  proof (cases "range_start r \<le> a")
    case True
    then have "\<forall>q \<in> set A. range_start q \<le> a" using A by force
    then have "lookup d A a = flags" "lookup d (A @ [r]) a = lookup flags [r] a"
      using that lookup_all [of A a d "[]"] lookup_all [of A a d "[r]"] by simp_all
    moreover have "range_access r = flags" using that(3) True a by auto
    ultimately show ?thesis by (simp only: lookup.simps if_cancel)
  next
    case False
    then show ?thesis using lookup_none [of "[r]" a d A] by simp
  qed
  have m: "lookup d (A @ [\<lparr>range_start = first, range_access = flags\<rparr>]) a = lookup d (A @ [r]) a" if "range_start r = first"
    using a that lookup_none [of "[r]" a d A] lookup_none [of "[\<lparr>range_start = first, range_access = flags\<rparr>]" a d A] by simp
  have i: "lookup d (A @ [r, \<lparr>range_start = first, range_access = flags\<rparr>]) a = lookup d (A @ [r]) a"
    using a lookup_none [of "[\<lparr>range_start = first, range_access = flags\<rparr>]" a d "A @ [r]"] by simp
  consider "before_rule first flags A r = A" "A \<noteq> []" "range_access (last A) = flags" "range_start r = first \<or> range_access r = flags"
    | "before_rule first flags A r = A @ [r]"
    | "before_rule first flags A r = A @ [\<lparr>range_start = first, range_access = flags\<rparr>]" "range_start r = first"
    | "before_rule first flags A r = A @ [r, \<lparr>range_start = first, range_access = flags\<rparr>]"
    unfolding before_rule_def by meson
  then show ?thesis
  proof cases
    case 1
    show ?thesis unfolding 1(1) by (rule j [OF 1(2-4)])
  qed (simp_all only: m i)
qed

lemma after_rule_lookup:
  assumes B: "\<forall>q \<in> set B. lst < range_start q" "\<forall>q \<in> set B. valid (range_start q)" and srt: "sorted_wrt (\<lambda>p q. range_start p < range_start q) B"
    and v: "valid lst" "valid a" and a: "lst < a"
  shows "lookup flags (after_rule ops lst flags la B) a = lookup la B a"
proof -
  have p: "plus_one ops lst \<le> a" using plus_one_valid v a by blast
  have m: "lst \<noteq> max_addr ops" using a max_greatest [OF v(2)] by auto
  show ?thesis
  proof (cases B)
    case Nil
    then show ?thesis using p m by (auto simp: after_rule_def)
  next
    case (Cons q qs)
    have "range_start q \<le> a" if "minus_one ops (range_start q) = lst"
    proof (rule ccontr)
      assume "\<not> range_start q \<le> a"
      then have "a \<le> minus_one ops (range_start q)" using minus_one_valid B v Cons by (simp add: not_le)
      with that a show False by simp
    qed
    moreover have "lookup d qs a = d" if "\<not> range_start q \<le> a" for d
      using that srt Cons by (cases qs) (auto simp: not_le dest: order.strict_trans)
    ultimately show ?thesis using p m Cons by (auto simp: after_rule_def)
  qed
qed

lemma after_rule_starts:
  assumes "\<forall>q \<in> set B. lst < range_start q" "lst < plus_one ops lst \<or> lst = max_addr ops" "B \<noteq> [] \<Longrightarrow> lst \<noteq> max_addr ops"
  shows "\<forall>q \<in> set (after_rule ops lst flags la B). lst < range_start q"
  using assms by (cases B) (auto simp: after_rule_def)

lemma access_canonical:
  "canonical ops valid xs \<Longrightarrow> valid a \<Longrightarrow> access xs a = lookup d xs a"
  by (rule access_lookup) (auto simp: canonical_def zero_least)

theorem add_rule_lookup:
  assumes c: "canonical ops valid xs" and v: "valid first" "valid lst" "first \<le> lst" "valid a"
  shows "lookup d (add_rule ops first lst flags xs) a = (if first \<le> a \<and> a \<le> lst then flags else lookup d xs a)"
proof (rule add_rule_cases [OF c v(1-3), of flags])
  fix A r M B
  assume xs: "xs = A @ r # M @ B" and A: "\<forall>q \<in> set A. range_start q < range_start r" and r: "range_start r \<le> first"
    and M: "\<forall>q \<in> set M. first < range_start q \<and> range_start q \<le> lst" and B: "\<forall>q \<in> set B. lst < range_start q"
    and val: "\<forall>q \<in> set xs. valid (range_start q)" and srt: "sorted_wrt (\<lambda>p q. range_start p < range_start q) B"
    and new: "add_rule ops first lst flags xs =
       before_rule first flags A r @ after_rule ops lst flags (range_access (last (r # M))) B"
  let ?P = "before_rule first flags A r" and ?Q = "after_rule ops lst flags (range_access (last (r # M))) B"
  have Q: "\<forall>q \<in> set ?Q. lst < range_start q"
    using after_rule_starts [OF B plus_one_greater [OF v(2)]] not_max [of B lst] B val xs by auto
  have P: "\<forall>q \<in> set ?P. range_start q \<le> first" by (rule before_rule_starts [OF A r])
  consider (before) "a < first" | (in_rule) "first \<le> a" "a \<le> lst" | (after) "lst < a" using v(3) by force
  then show ?thesis
  proof cases
    case before
    have "lookup d (?P @ ?Q) a = lookup d (A @ [r]) a"
      using lookup_none [of ?Q a d ?P] Q before v(3) before_rule_lookup [OF A r before] by force
    also have "\<dots> = lookup d ((A @ [r]) @ M @ B) a"
      by (rule lookup_none [symmetric]) (use M B before v(3) in force)
    finally have "lookup d (?P @ ?Q) a = lookup d xs a" using xs by simp
    moreover have "\<not> first \<le> a" using before by simp
    ultimately show ?thesis unfolding new by simp
  next
    case in_rule
    have "lookup d (?P @ ?Q) a = lookup d ?P a" by (rule lookup_none) (use Q in_rule in force)
    also have "\<dots> = flags" using lookup_all [of ?P a d "[]"] P in_rule before_rule_last by force
    finally show ?thesis using in_rule new by simp
  next
    case after
    have "lookup d (?P @ ?Q) a = lookup flags ?Q a"
      using lookup_all [of ?P a d ?Q] P after v(3) before_rule_last by force
    also have "\<dots> = lookup (range_access (last (r # M))) B a"
      by (rule after_rule_lookup) (use B val xs srt v after in auto)
    also have "\<dots> = lookup d ((A @ r # M) @ B) a"
      using lookup_all [of "A @ r # M" a d B] A r M after v(3) by force
    finally have "lookup d (?P @ ?Q) a = lookup d xs a" using xs by simp
    moreover have "\<not> a \<le> lst" using after by simp
    ultimately show ?thesis unfolding new by simp
  qed
qed

lemma after_rule_canonical:
  assumes B: "\<forall>q \<in> set B. lst < range_start q" "\<forall>q \<in> set B. valid (range_start q)"
    and srt: "sorted_wrt (\<lambda>p q. range_start p < range_start q) B" and v: "valid lst"
    and d: "distinct_adj (la # map range_access B)"
  shows "sorted_wrt (\<lambda>p q. range_start p < range_start q) (after_rule ops lst flags la B) \<and>
    distinct_adj (flags # map range_access (after_rule ops lst flags la B)) \<and>
    (\<forall>q \<in> set (after_rule ops lst flags la B). valid (range_start q))"
proof (cases B)
  case Nil
  have "valid (plus_one ops lst)" if "lst \<noteq> max_addr ops"
    using plus_one_valid [OF v _ max_valid] max_greatest [OF v] that by fastforce
  with Nil show ?thesis by (auto simp: after_rule_def)
next
  case (Cons q qs)
  have "\<forall>p \<in> set B. plus_one ops lst < range_start p" if "minus_one ops (range_start q) \<noteq> lst"
    using plus_one_before [OF B srt v] that Cons by auto
  moreover have "valid (plus_one ops lst)" using plus_one_valid [OF v] B Cons by auto
  ultimately show ?thesis using Cons B srt d by (auto simp: after_rule_def distinct_adj_Cons)
qed

theorem add_rule_canonical:
  assumes c: "canonical ops valid xs" and v: "valid first" "valid lst" "first \<le> lst"
  shows "canonical ops valid (add_rule ops first lst flags xs)"
proof (rule add_rule_cases [OF c v(1-3), of flags])
  fix A r M B
  assume xs: "xs = A @ r # M @ B" and A: "\<forall>q \<in> set A. range_start q < range_start r" and r: "range_start r \<le> first"
    and M: "\<forall>q \<in> set M. first < range_start q \<and> range_start q \<le> lst" and B: "\<forall>q \<in> set B. lst < range_start q"
    and val: "\<forall>q \<in> set xs. valid (range_start q)" and srt: "sorted_wrt (\<lambda>p q. range_start p < range_start q) B"
    and new: "add_rule ops first lst flags xs =
       before_rule first flags A r @ after_rule ops lst flags (range_access (last (r # M))) B"
  let ?P = "before_rule first flags A r" and ?Q = "after_rule ops lst flags (range_access (last (r # M))) B"
  have Q: "\<forall>q \<in> set ?Q. lst < range_start q"
    using after_rule_starts [OF B plus_one_greater [OF v(2)]] not_max [of B lst] B val xs by auto
  have P: "\<forall>q \<in> set ?P. range_start q \<le> first" by (rule before_rule_starts [OF A r])
  have sP: "sorted_wrt (\<lambda>p q. range_start p < range_start q) ?P" and hP: "range_start (hd ?P) = zero ops"
    and dP: "distinct_adj (map range_access ?P)" and vP: "\<forall>q \<in> set ?P. valid (range_start q)"
    using c A r v xs by (auto simp: canonical_def before_rule_def sorted_wrt_append hd_append distinct_adj_append_iff last_map)
  obtain N p where N: "r # M = N @ [p]" by (cases "r # M" rule: rev_cases) auto
  then have "xs = (A @ N) @ p # B" using xs by simp
  then have dB: "distinct_adj (range_access (last (r # M)) # map range_access B)"
    using c N by (auto simp: canonical_def distinct_adj_append_iff)
  have sQ: "sorted_wrt (\<lambda>p q. range_start p < range_start q) ?Q" and dQ: "distinct_adj (flags # map range_access ?Q)"
    and vQ: "\<forall>q \<in> set ?Q. valid (range_start q)"
    using after_rule_canonical [of B lst "range_access (last (r # M))" flags] B val xs srt v(2) dB by auto
  have "range_start p < range_start q" if "p \<in> set ?P" "q \<in> set ?Q" for p q
    using that P Q v(3) by force
  then show ?thesis unfolding new canonical_def
    using sP hP dP vP sQ dQ vQ P Q v(3) before_rule_last [of first flags A r]
    by (auto simp: sorted_wrt_append distinct_adj_append_iff distinct_adj_Cons last_map hd_map intro: order.strict_trans1)
qed

text \<open>A canonical list is determined by the accesses it gives.\<close>

lemma canonical_unique_aux:
  assumes "sorted_wrt (\<lambda>p q. range_start p < range_start q) xs" "sorted_wrt (\<lambda>p q. range_start p < range_start q) ys"
    "\<forall>q \<in> set xs. valid (range_start q)" "\<forall>q \<in> set ys. valid (range_start q)"
    "distinct_adj (d # map range_access xs)" "distinct_adj (d # map range_access ys)"
    "\<And>a. valid a \<Longrightarrow> lookup d xs a = lookup d ys a"
  shows "xs = ys"
  using assms
proof (induction xs arbitrary: d ys)
  case Nil
  have "ys = []" if "ys = q # qs" for q qs
  proof -
    have "lookup d ys (range_start q) = range_access q"
      using Nil.prems(2) that by (cases qs) auto
    then show ?thesis using Nil.prems(4,6) Nil.prems(7) [of "range_start q"] that by simp
  qed
  then show ?case by (cases ys) auto
next
  case (Cons r rs)
  have rr: "lookup d (r # rs) (range_start r) = range_access r" using Cons.prems(1) by (cases rs) auto
  show ?case
  proof (cases ys)
    case Nil
    then show ?thesis using Cons.prems(3,5) Cons.prems(7) [of "range_start r"] rr by auto
  next
    case (Cons q qs)
    have qq: "lookup d ys (range_start q) = range_access q" using Cons.prems(2) Cons by (cases qs) auto
    have "range_start r = range_start q"
      using Cons.prems(3-6) Cons.prems(7) [of "range_start r"] Cons.prems(7) [of "range_start q"] rr qq Cons
      by (auto split: if_splits)
    moreover from this have "range_access r = range_access q"
      using Cons.prems(3) Cons.prems(7) [of "range_start r"] rr qq by simp
    ultimately have eq: "r = q" by simp
    have low: "lookup e zs a = e" if "\<forall>p \<in> set zs. range_start r < range_start p" "\<not> range_start r \<le> a" for e zs a
      using that by (cases zs) (auto simp: not_le dest: order.strict_trans)
    have "lookup (range_access r) rs a = lookup (range_access r) qs a" if "valid a" for a
      using Cons.prems(7) [OF that] low Cons.prems(1,2) Cons eq by (cases "range_start r \<le> a") auto
    then show ?thesis using Cons.IH [of qs "range_access r"] Cons.prems Cons eq by (auto simp: distinct_adj_Cons)
  qed
qed

lemma canonical_unique:
  assumes "canonical ops valid xs" "canonical ops valid ys" "\<And>a. valid a \<Longrightarrow> access xs a = access ys a"
  shows "xs = ys"
proof -
  obtain r rs q qs where l: "xs = r # rs" "ys = q # qs" using assms(1,2) by (cases xs; cases ys) (auto simp: canonical_def)
  obtain d where d: "d \<noteq> range_access r" "d \<noteq> range_access q"
    using that [of "range_access r + range_access q + 1"] that [of "max (range_access r) (range_access q) + 1"] by fastforce
  have "lookup d xs a = lookup d ys a" if "valid a" for a
    using assms(3) [OF that] access_canonical [OF assms(1) that, of d] access_canonical [OF assms(2) that, of d] by simp
  then show ?thesis
    using canonical_unique_aux [of xs ys d] assms(1,2) d l by (auto simp: canonical_def distinct_adj_Cons)
qed

lemma new_filter_canonical: "canonical ops valid (new_filter ops)"
  by (simp add: canonical_def new_filter_def zero_valid)

lemma new_filter_access: "valid a \<Longrightarrow> access (new_filter ops) a = 0"
  using zero_least by (simp add: new_filter_def access_def upper_bound_def)

lemma add_rule_access:
  assumes "canonical ops valid xs" "valid first" "valid lst" "first \<le> lst" "valid a"
  shows "access (add_rule ops first lst flags xs) a = (if first \<le> a \<and> a \<le> lst then flags else access xs a)"
  using add_rule_lookup [OF assms, of 0 flags] access_canonical [OF assms(1,5), of 0]
    access_canonical [OF add_rule_canonical [OF assms(1-4)] assms(5), of flags 0] by simp

text \<open>The exported ranges: the address of a range is between two ends, and its access is that of the range.\<close>

lemma export_filter_first: "e \<in> set (export_filter ops' xs) \<Longrightarrow> ipr_first e \<in> range_start ` set xs"
  by (induction ops' xs rule: export_filter.induct) auto

lemma export_filter_lookup:
  assumes "sorted_wrt (\<lambda>p q. range_start p < range_start q) xs" "\<forall>q \<in> set xs. valid (range_start q)"
    "e \<in> set (export_filter ops xs)"
  shows "valid (ipr_first e) \<and> valid (ipr_last e) \<and> ipr_first e \<le> ipr_last e \<and>
    (\<forall>a. ipr_first e \<le> a \<and> a \<le> ipr_last e \<longrightarrow> lookup d xs a = ipr_flags e)"
  using assms
proof (induction xs arbitrary: d)
  case (Cons r rs)
  show ?case
  proof (cases "e \<in> set (export_filter ops rs)")
    case True
    then have "range_start r < ipr_first e" using export_filter_first [OF True] Cons.prems(1) by auto
    moreover have "valid (ipr_first e) \<and> valid (ipr_last e) \<and> ipr_first e \<le> ipr_last e \<and>
      (\<forall>a. ipr_first e \<le> a \<and> a \<le> ipr_last e \<longrightarrow> lookup (range_access r) rs a = ipr_flags e)"
      using Cons.IH Cons.prems True by simp
    ultimately show ?thesis by force
  next
    case False
    then have e: "e = \<lparr>ipr_first = range_start r,
      ipr_last = (case rs of [] \<Rightarrow> max_addr ops | q # _ \<Rightarrow> minus_one ops (range_start q)), ipr_flags = range_access r\<rparr>"
      using Cons.prems(3) by simp
    show ?thesis
    proof (cases rs)
      case Nil
      then show ?thesis using e Cons.prems max_valid max_greatest by simp
    next
      case (Cons q qs)
      then have "valid (minus_one ops (range_start q)) \<and> minus_one ops (range_start q) < range_start q \<and>
        range_start r \<le> minus_one ops (range_start q)"
        using minus_one_valid [of "range_start q" "range_start r"] Cons.prems by simp
      then show ?thesis using e Cons Cons.prems(2) by auto
    qed
  qed
qed simp

lemma export_filter_covers:
  assumes "sorted_wrt (\<lambda>p q. range_start p < range_start q) xs" "\<forall>q \<in> set xs. valid (range_start q)" "valid a"
    "xs \<noteq> []" "range_start (hd xs) \<le> a"
  shows "\<exists>e \<in> set (export_filter ops xs). ipr_first e \<le> a \<and> a \<le> ipr_last e"
  using assms
proof (induction xs)
  case (Cons r rs)
  show ?case
  proof (cases "rs \<noteq> [] \<and> range_start (hd rs) \<le> a")
    case True
    then show ?thesis using Cons by auto
  next
    case False
    then show ?thesis
      using Cons.prems max_greatest minus_one_valid [of "range_start (hd rs)" a] by (cases rs) (auto simp: not_le)
  qed
qed simp

text \<open>Adding the exported ranges to a new filter gives the filter back.\<close>

lemma add_rules:
  assumes "canonical ops valid xs"
    "\<forall>e \<in> set es. valid (ipr_first e) \<and> valid (ipr_last e) \<and> ipr_first e \<le> ipr_last e"
  shows "canonical ops valid (fold (\<lambda>e. add_rule ops (ipr_first e) (ipr_last e) (ipr_flags e)) es xs) \<and>
    (\<forall>a. valid a \<and> (\<forall>e \<in> set es. ipr_first e \<le> a \<and> a \<le> ipr_last e \<longrightarrow> ipr_flags e = v) \<longrightarrow>
      access (fold (\<lambda>e. add_rule ops (ipr_first e) (ipr_last e) (ipr_flags e)) es xs) a =
        (if \<exists>e \<in> set es. ipr_first e \<le> a \<and> a \<le> ipr_last e then v else access xs a))"
  using assms
proof (induction es arbitrary: xs)
  case (Cons e es)
  have c: "canonical ops valid (add_rule ops (ipr_first e) (ipr_last e) (ipr_flags e) xs)"
    using add_rule_canonical Cons.prems by simp
  show ?case using Cons.IH [OF c] Cons.prems add_rule_access by auto
qed simp

lemma export_rebuild:
  assumes c: "canonical ops valid xs"
  shows "fold (\<lambda>e. add_rule ops (ipr_first e) (ipr_last e) (ipr_flags e)) (export_filter ops xs) (new_filter ops) = xs"
    (is "?new = xs")
proof (rule canonical_unique [OF _ c])
  have x: "sorted_wrt (\<lambda>p q. range_start p < range_start q) xs" "\<forall>q \<in> set xs. valid (range_start q)"
    using c by (auto simp: canonical_def)
  note ex = export_filter_lookup [OF x]
  note r = add_rules [OF new_filter_canonical, of "export_filter ops xs"]
  show "canonical ops valid ?new" using r ex by blast
  show "access ?new a = access xs a" if "valid a" for a
  proof -
    have "\<exists>e \<in> set (export_filter ops xs). ipr_first e \<le> a \<and> a \<le> ipr_last e"
      using export_filter_covers [OF x that] c zero_least [OF that] by (auto simp: canonical_def)
    then show ?thesis using r [of "access xs a"] ex [of _ 0] that access_canonical [OF c that, of 0] by auto
  qed
qed

end

section \<open>Ports and byte arrays\<close>

interpretation port: numbered_space port_addr "\<lambda>_. True" unat 65536
proof
  show "unat a < 65536" for a :: "16 word" using unsigned_less [of a] by simp
  show "a < b \<longleftrightarrow> unat a < unat b" for a b :: "16 word" by (rule word_less_nat_alt)
  show "True \<and> unat (zero port_addr) = 0" "True \<and> Suc (unat (max_addr port_addr)) = 65536"
    by (simp_all add: port_addr_def)
  show "True \<and> unat (plus_one port_addr a) = Suc (unat a)" if "Suc (unat a) < 65536" for a
    using that by (simp add: port_addr_def unat_word_ariths)
  show "True \<and> Suc (unat (minus_one port_addr a)) = unat a" if "0 < unat a" for a
  proof -
    have "a \<noteq> 0" using that by auto
    then show ?thesis using that unat_minus_one [of a] by (simp add: port_addr_def)
  qed
qed

text \<open>The number that an array of bytes stands for, and the loops on it.\<close>

fun le_val :: "8 word list \<Rightarrow> nat" where
  "le_val [] = 0"
| "le_val (b # bs) = unat b + 256 * le_val bs"

lemma byte_less: "unat (b :: 8 word) < 256"
  using unsigned_less [of b] by simp

lemma le_val_less: "le_val bs < 256 ^ length bs"
proof (induction bs)
  case (Cons b bs)
  then have "unat b + 256 * le_val bs < 256 * (le_val bs + 1)" using byte_less [of b] by simp
  also have "\<dots> \<le> 256 * 256 ^ length bs" using Cons by (intro mult_left_mono) simp_all
  finally show ?case by simp
qed simp

lemma carry_up_val: "Suc (le_val bs) < 256 ^ length bs \<Longrightarrow> le_val (carry_up bs) = Suc (le_val bs)"
proof (induction bs)
  case (Cons b bs)
  have "b < 255 \<longleftrightarrow> unat b < 255" by (simp add: word_less_nat_alt)
  moreover have "unat (b + 1) = Suc (unat b)" if "unat b < 255" using that by (simp add: unat_word_ariths)
  moreover have "unat b = 255" if "\<not> unat b < 255" using that byte_less [of b] by simp
  ultimately show ?case using Cons by auto
qed simp

lemma carry_down_val: "0 < le_val bs \<Longrightarrow> Suc (le_val (carry_down bs)) = le_val bs"
proof (induction bs)
  case (Cons b bs)
  have "b > 0 \<longleftrightarrow> unat b > 0" by (simp add: word_less_nat_alt)
  moreover have "unat (b - 1) = unat b - 1" if "unat b > 0"
    using that by (intro unat_minus_one) auto
  ultimately show ?case using Cons by auto
qed simp

lemma length_carry [simp]: "length (carry_up bs) = length bs" "length (carry_down bs) = length bs"
  by (induction bs) auto

lemma le_val_append: "le_val (xs @ ys) = le_val xs + 256 ^ length xs * le_val ys"
  by (induction xs) (auto simp: algebra_simps)

lemma le_val_replicate: "le_val (replicate n 0) = 0" "Suc (le_val (replicate n 255)) = 256 ^ n"
  by (induction n) auto

lemma bytes_less: "length as = length bs \<Longrightarrow> as < bs \<longleftrightarrow> le_val (rev as) < le_val (rev bs)"
proof (induction as bs rule: list_induct2)
  case (Cons a as b bs)
  have len: "length bs = length as" "le_val (rev as) < 256 ^ length as" "le_val (rev bs) < 256 ^ length as"
    using Cons.hyps le_val_less [of "rev as"] le_val_less [of "rev bs"] by simp_all
  have eqs: "le_val (rev (a # as)) = le_val (rev as) + 256 ^ length as * unat a"
    "le_val (rev (b # bs)) = le_val (rev bs) + 256 ^ length as * unat b"
    using len(1) by (simp_all add: le_val_append)
  have gap: "256 ^ length as + 256 ^ length as * x \<le> 256 ^ length as * y" if "x < y" for x y :: nat
    using mult_left_mono [of "Suc x" y "256 ^ length as"] that by (simp add: Suc_le_eq)
  consider "a = b" | "a < b" "unat a < unat b" | "b < a" "unat b < unat a"
    by (metis linorder_less_linear word_less_nat_alt)
  then show ?case
  proof cases
    case 1
    then show ?thesis using Cons.IH unfolding eqs by simp
  next
    case 2
    then have "le_val (rev (a # as)) < le_val (rev (b # bs))" using gap [OF 2(2)] len unfolding eqs by linarith
    then show ?thesis using 2 by simp
  next
    case 3
    then have "\<not> le_val (rev (a # as)) < le_val (rev (b # bs))" using gap [OF 3(2)] len unfolding eqs by linarith
    then show ?thesis using 3 by (auto dest: order.asym)
  qed
qed simp

lemma byte_space: "numbered_space (byte_addr n) (\<lambda>a. length a = n) (\<lambda>a. le_val (rev a)) (256 ^ n)"
proof
  show "le_val (rev a) < 256 ^ n" if "length a = n" for a using le_val_less [of "rev a"] that by simp
  show "a < b \<longleftrightarrow> le_val (rev a) < le_val (rev b)" if "length a = n" "length b = n" for a b
    using that by (intro bytes_less) simp
  show "length (zero (byte_addr n)) = n \<and> le_val (rev (zero (byte_addr n))) = 0"
    "length (max_addr (byte_addr n)) = n \<and> Suc (le_val (rev (max_addr (byte_addr n)))) = 256 ^ n"
    by (simp_all add: byte_addr_def le_val_replicate)
  show "length (plus_one (byte_addr n) a) = n \<and> le_val (rev (plus_one (byte_addr n) a)) = Suc (le_val (rev a))"
    if "length a = n" "Suc (le_val (rev a)) < 256 ^ n" for a
    using that carry_up_val [of "rev a"] by (simp add: byte_addr_def)
  show "length (minus_one (byte_addr n) a) = n \<and> Suc (le_val (rev (minus_one (byte_addr n) a))) = le_val (rev a)"
    if "length a = n" "0 < le_val (rev a)" for a
    using that carry_down_val [of "rev a"] by (simp add: byte_addr_def)
qed

interpretation v4: numbered_space "byte_addr 4" "\<lambda>a. length a = 4" "\<lambda>a. le_val (rev a)" "256 ^ 4"
  by (rule byte_space)

interpretation v6: numbered_space "byte_addr 16" "\<lambda>a. length a = 16" "\<lambda>a. le_val (rev a)" "256 ^ 16"
  by (rule byte_space)

section \<open>What the filters of a session do\<close>

fun address_ok :: "address \<Rightarrow> bool" where
  "address_ok (V4 a) \<longleftrightarrow> length a = 4"
| "address_ok (V6 a) \<longleftrightarrow> length a = 16"

text \<open>Whether an address is between two others, of the same type.\<close>

fun covers :: "address \<Rightarrow> address \<Rightarrow> address \<Rightarrow> bool" where
  "covers (V4 first) (V4 lst) (V4 a) \<longleftrightarrow> first \<le> a \<and> a \<le> lst"
| "covers (V6 first) (V6 lst) (V6 a) \<longleftrightarrow> first \<le> a \<and> a \<le> lst"
| "covers _ _ _ \<longleftrightarrow> False"

definition ip_filter_ok :: "ip_filter \<Rightarrow> bool" where
  "ip_filter_ok f \<longleftrightarrow> canonical (byte_addr 4) (\<lambda>a. length a = 4) (m_filter4 f) \<and>
     canonical (byte_addr 16) (\<lambda>a. length a = 16) (m_filter6 f)"

lemma new_ip_filter_ok: "ip_filter_ok new_ip_filter"
  by (simp add: ip_filter_ok_def new_ip_filter_def v4.new_filter_canonical v6.new_filter_canonical)

text \<open>
  C34. After \<open>ip_filter::add_rule\<close> of a range of addresses of one type, the filter is in the
  canonical form again, and gives the flags of the rule to every address in the range, its two
  ends included, and to every other address, of the other type too, what it gave before.
\<close>

theorem ip_add_rule_access:
  assumes "ip_filter_ok f" "address_ok first" "address_ok lst" "covers first lst first" "address_ok a"
  shows "ip_filter_ok (ip_add_rule first lst flags f) \<and>
    ip_access (ip_add_rule first lst flags f) a = (if covers first lst a then flags else ip_access f a)"
  using assms
  by (cases first; cases lst; cases a)
    (auto simp: ip_filter_ok_def v4.add_rule_canonical v6.add_rule_canonical v4.add_rule_access v6.add_rule_access)

theorem ip_add_rule_access_witness:
  "ip_access (ip_add_rule (V4 [10, 0, 0, 250]) (V4 [10, 0, 1, 5]) 1 new_ip_filter) (V4 [10, 0, 1, 0]) = 1 \<and>
   ip_access (ip_add_rule (V4 [10, 0, 0, 250]) (V4 [10, 0, 1, 5]) 1 new_ip_filter) (V4 [10, 0, 1, 6]) = 0"
  using ip_add_rule_access [OF new_ip_filter_ok, of "V4 [10, 0, 0, 250]" "V4 [10, 0, 1, 5]" "V4 [10, 0, 1, 0]" 1]
    ip_add_rule_access [OF new_ip_filter_ok, of "V4 [10, 0, 0, 250]" "V4 [10, 0, 1, 5]" "V4 [10, 0, 1, 6]" 1]
  by (simp add: new_ip_filter_def v4.new_filter_access)

lemma port_add_rule_access:
  "canonical port_addr (\<lambda>_. True) xs \<Longrightarrow> first \<le> lst \<Longrightarrow>
     port_access (port_add_rule first lst flags xs) p = (if first \<le> p \<and> p \<le> lst then flags else port_access xs p)"
  by (simp add: port_access_def port_add_rule_def port.add_rule_access)

lemma port_fold_ok:
  assumes "canonical port_addr (\<lambda>_. True) xs" "\<forall>(first, lst, flags) \<in> set rs. first \<le> lst"
  shows "canonical port_addr (\<lambda>_. True) (fold (\<lambda>(first, lst, flags). port_add_rule first lst flags) rs xs)"
  using assms by (induction rs arbitrary: xs) (auto simp: port_add_rule_def port.add_rule_canonical)

text \<open>
  A port has the access of the last rule that covers it, and the access 0 if none does:
  the rules of a \<open>port_filter\<close> override each other in the order they were added.
\<close>

theorem port_filter_last_rule:
  assumes "\<forall>(first, lst, flags) \<in> set rs. first \<le> lst"
  shows "port_access (fold (\<lambda>(first, lst, flags). port_add_rule first lst flags) rs (new_filter port_addr)) p =
    (case find (\<lambda>(first, lst, flags). first \<le> p \<and> p \<le> lst) (rev rs) of None \<Rightarrow> 0 | Some (_, _, flags) \<Rightarrow> flags)"
  using assms
proof (induction rs rule: rev_induct)
  case Nil
  then show ?case by (simp add: port_access_def port.new_filter_access)
next
  case (snoc e rs)
  obtain first lst flags where e: "e = (first, lst, flags)" by (metis prod_cases3)
  have "canonical port_addr (\<lambda>_. True) (fold (\<lambda>(first, lst, flags). port_add_rule first lst flags) rs (new_filter port_addr))"
    using port_fold_ok [OF port.new_filter_canonical] snoc.prems by auto
  then show ?case using snoc e by (auto simp: port_add_rule_access)
qed

theorem port_filter_last_rule_witness:
  "port_access (fold (\<lambda>(first, lst, flags). port_add_rule first lst flags)
     [(0, 65535, 1), (6881, 6889, 0), (6885, 6885, 2)] (new_filter port_addr)) 6885 = 2"
  using port_filter_last_rule [of "[(0, 65535, 1), (6881, 6889, 0), (6885, 6885, 2)]" 6885] by simp

lemma fold_v4: "fold (\<lambda>e. ip_add_rule (V4 (ipr_first e)) (V4 (ipr_last e)) (ipr_flags e)) es f =
    f\<lparr>m_filter4 := fold (\<lambda>e. add_rule (byte_addr 4) (ipr_first e) (ipr_last e) (ipr_flags e)) es (m_filter4 f)\<rparr>"
  by (induction es arbitrary: f) auto

lemma fold_v6: "fold (\<lambda>e. ip_add_rule (V6 (ipr_first e)) (V6 (ipr_last e)) (ipr_flags e)) es f =
    f\<lparr>m_filter6 := fold (\<lambda>e. add_rule (byte_addr 16) (ipr_first e) (ipr_last e) (ipr_flags e)) es (m_filter6 f)\<rparr>"
  by (induction es arbitrary: f) auto

text \<open>
  C37. The ranges \<open>ip_filter::export_filter\<close> returns say all the filter knows: adding them, in
  their order, to a new filter gives the same filter back.
\<close>

theorem export_filter_rebuild:
  assumes "ip_filter_ok f"
  shows "fold (\<lambda>e. ip_add_rule (V6 (ipr_first e)) (V6 (ipr_last e)) (ipr_flags e)) (snd (ip_export_filter f))
    (fold (\<lambda>e. ip_add_rule (V4 (ipr_first e)) (V4 (ipr_last e)) (ipr_flags e)) (fst (ip_export_filter f)) new_ip_filter) = f"
  using assms unfolding fold_v4 fold_v6
  by (simp add: ip_filter_ok_def ip_export_filter_def new_ip_filter_def v4.export_rebuild v6.export_rebuild)

theorem export_filter_rebuild_witness:
  "fold (\<lambda>e. ip_add_rule (V6 (ipr_first e)) (V6 (ipr_last e)) (ipr_flags e)) (snd (ip_export_filter new_ip_filter))
    (fold (\<lambda>e. ip_add_rule (V4 (ipr_first e)) (V4 (ipr_last e)) (ipr_flags e)) (fst (ip_export_filter new_ip_filter)) new_ip_filter) =
    new_ip_filter"
  using export_filter_rebuild [OF new_ip_filter_ok] .

end
