(* ===== verification/Bencode.thy ===== *)
theory Bencode
  imports Prelude "HOL-Library.Char_ord" "HOL-Library.List_Lexorder" "HOL-Library.Monad_Syntax" "HOL-Library.Code_Target_Nat" "HOL-Library.Code_Target_Int"
begin

text \<open>
  Bencoding: the values of \<open>src/entry.cpp\<close> and the encoder and decoder of
  \<open>include/libtorrent/bencode.hpp\<close>. An iterator into the input is the rest of the input, from
  where it points to the end. The recursion of the decoder has a fuel, for which twice the
  length of the input is shown to be enough; what the language leaves undefined (a read past
  the end, an integer that does not fit) is a fault of its own, apart from the error the decoder
  reports.
\<close>

section \<open>Values\<close>

datatype entry = Int_t int | String_t string | List_t "entry list" | Dictionary_t "(string \<times> entry) list" | Undefined_t

text \<open>A dictionary is a \<open>std::map\<close>: the list of its pairs in the order of the keys. This is \<open>d[key] = e\<close>.\<close>

fun dict_set :: "string \<Rightarrow> 'e \<Rightarrow> (string \<times> 'e) list \<Rightarrow> (string \<times> 'e) list" where
  "dict_set k e [] = [(k, e)]"
| "dict_set k e ((k', e') # d) =
     (if k = k' then (k, e) # d else if k < k' then (k, e) # (k', e') # d else (k', e') # dict_set k e d)"

definition find_key :: "string \<Rightarrow> (string \<times> 'e) list \<Rightarrow> 'e option" where
  "find_key k d = map_of d k"

lemma find_key_dict_set: "find_key k' (dict_set k e d) = (if k' = k then Some e else find_key k' d)"
  by (induction k e d rule: dict_set.induct) (auto simp: find_key_def)

section \<open>Numbers\<close>

definition is_digit :: "char \<Rightarrow> bool" where
  "is_digit c \<longleftrightarrow> CHR ''0'' \<le> c \<and> c \<le> CHR ''9''"

text \<open>The white space that \<open>strtoll\<close> skips.\<close>

definition c_space :: "char \<Rightarrow> bool" where
  "c_space c \<longleftrightarrow> c \<in> {CHR '' '', CHR 0x09, CHR 0x0A, CHR 0x0D, CHR 0x0C, CHR 0x0B}"

definition digit_char :: "nat \<Rightarrow> char" where
  "digit_char d = char_of (48 + d)"

definition digit_val :: "char \<Rightarrow> nat" where
  "digit_val c = of_char c - 48"

text \<open>\<open>integer_to_str\<close>: the digits are written from the end of the buffer. The negation of the
  least 64-bit integer overflows.\<close>

fun write_digits :: "nat \<Rightarrow> nat \<Rightarrow> nat \<Rightarrow> string \<Rightarrow> string" where
  "write_digits 0 sign val buf = buf"
| "write_digits (Suc n) sign val buf =
     (if Suc n > sign \<and> val \<noteq> 0 then write_digits n sign (val div 10) (digit_char (val mod 10) # buf) else buf)"

definition integer_to_str :: "nat \<Rightarrow> int \<Rightarrow> string option" where
  "integer_to_str len val =
     (if val = - (2 ^ 63) then None
      else let sign = (if val < 0 then 1 else 0);
               val = nat \<bar>val\<bar>;
               len = len - 1;
               (len, buf) = (if val = 0 then (len - 1, ''0'') else (len, []));
               buf = write_digits len sign val buf
           in Some (if sign = 1 then CHR ''-'' # buf else buf))"

fun dec_val :: "nat \<Rightarrow> string \<Rightarrow> nat" where
  "dec_val v [] = v"
| "dec_val v (c # cs) = dec_val (10 * v + digit_val c) cs"

text \<open>\<open>strtoll\<close> in base 10, \<open>None\<close> when nothing was converted, and \<open>atoi\<close>, \<open>None\<close> when it is undefined.\<close>

definition strtoll :: "string \<Rightarrow> int option" where
  "strtoll s =
     (let s = dropWhile c_space s;
          neg = (s \<noteq> [] \<and> hd s = CHR ''-'');
          s = (if s \<noteq> [] \<and> (hd s = CHR ''-'' \<or> hd s = CHR ''+'') then tl s else s);
          ds = takeWhile is_digit s;
          v = int (dec_val 0 ds)
      in if ds = [] then None
         else Some (if neg then max (- (2 ^ 63)) (- v) else min (2 ^ 63 - 1) v))"

definition atoi :: "string \<Rightarrow> int option" where
  "atoi s = (case strtoll s of None \<Rightarrow> Some 0
     | Some v \<Rightarrow> if - (2 ^ 31) \<le> v \<and> v < 2 ^ 31 then Some v else None)"

section \<open>The encoder\<close>

text \<open>A larger number that is converted to an \<open>int\<close>, of 32 bits.\<close>

definition to_int :: "int \<Rightarrow> int" where
  "to_int v = (v + 2 ^ 31) mod 2 ^ 32 - 2 ^ 31"

lemma to_int_id: "n < 2 ^ 31 \<Longrightarrow> to_int (int n) = int n"
  by (simp add: to_int_def)

lemma to_int_mod: "to_int a mod 2 ^ 32 = a mod 2 ^ 32"
  by (simp add: to_int_def mod_simps)

lemma to_int_cong: "a mod 2 ^ 32 = b mod 2 ^ 32 \<Longrightarrow> to_int a = to_int b"
  unfolding to_int_def by (metis mod_add_left_eq)

lemma to_int_sum:
  "to_int (to_int a + b) = to_int (a + b)" "to_int (a + to_int b) = to_int (a + b)"
  "to_int (c + (to_int a + b)) = to_int (c + (a + b))" "to_int (c + (a + to_int b)) = to_int (c + (a + b))"
  by (rule to_int_cong, intro mod_add_cong to_int_mod refl)+

lemma to_int_0 [simp]: "to_int 0 = 0"
  by (simp add: to_int_def)

text \<open>Each function returns what it writes and the number of bytes it says it wrote. The number is an \<open>int\<close>: from two gigabytes on
  the sums overflow, which is taken as a wrap-around here (the language leaves it undefined).\<close>

definition write_string :: "string \<Rightarrow> string \<times> int" where
  "write_string val = (val, to_int (int (length val)))"

definition write_integer :: "int \<Rightarrow> (string \<times> int) option" where
  "write_integer val = map_option (\<lambda>str. (str, int (length str))) (integer_to_str 21 val)"

fun bencode_recursive :: "entry \<Rightarrow> (string \<times> int) option"
  and bencode_list :: "entry list \<Rightarrow> (string \<times> int) option"
  and bencode_dict :: "(string \<times> entry) list \<Rightarrow> (string \<times> int) option" where
  "bencode_recursive (Int_t v) = do { (s, ret) \<leftarrow> write_integer v; Some (''i'' @ s @ ''e'', to_int (ret + 2)) }"
| "bencode_recursive (String_t t) =
     do { (s, ret) \<leftarrow> write_integer (int (length t));
          let (s', ret') = write_string t;
          Some (s @ '':'' @ s', to_int (to_int (ret + ret') + 1)) }"
| "bencode_recursive (List_t es) = do { (s, ret) \<leftarrow> bencode_list es; Some (''l'' @ s @ ''e'', to_int (ret + 2)) }"
| "bencode_recursive (Dictionary_t d) = do { (s, ret) \<leftarrow> bencode_dict d; Some (''d'' @ s @ ''e'', to_int (ret + 2)) }"
| "bencode_recursive Undefined_t = Some ([], 0)"
| "bencode_list [] = Some ([], 0)"
| "bencode_list (e # es) =
     do { (s, ret) \<leftarrow> bencode_recursive e; (s', ret') \<leftarrow> bencode_list es; Some (s @ s', to_int (ret + ret')) }"
| "bencode_dict [] = Some ([], 0)"
| "bencode_dict ((k, e) # d) =
     do { (s, ret) \<leftarrow> write_integer (int (length k));
          let (s', ret') = write_string k;
          (s'', ret'') \<leftarrow> bencode_recursive e;
          (s''', ret''') \<leftarrow> bencode_dict d;
          Some (s @ '':'' @ s' @ s'' @ s''', to_int (to_int (to_int (to_int (ret + ret') + ret'') + 1) + ret''')) }"

definition bencode :: "entry \<Rightarrow> (string \<times> int) option" where
  "bencode e = bencode_recursive e"

section \<open>The decoder\<close>

datatype fault = Bad_Encoding | Out_Of_Bounds | Overflow | Out_Of_Fuel

fun read_until :: "char \<Rightarrow> string \<Rightarrow> (string \<times> string) option" where
  "read_until end_token [] = None"
| "read_until end_token (c # cs) =
     (if c = end_token then Some ([], c # cs) else map_option (\<lambda>(ret, s). (c # ret, s)) (read_until end_token cs))"

fun read_string :: "nat \<Rightarrow> string \<Rightarrow> (string \<times> string) option" where
  "read_string 0 s = Some ([], s)"
| "read_string (Suc n) s =
     (case s of [] \<Rightarrow> None | c # cs \<Rightarrow> map_option (\<lambda>(str, s). (c # str, s)) (read_string n cs))"

definition bdecode_int :: "string \<Rightarrow> fault + entry \<times> string" where
  "bdecode_int s = (case read_until (CHR ''e'') s of None \<Rightarrow> Inl Bad_Encoding
     | Some (val, rest) \<Rightarrow> (case strtoll val of None \<Rightarrow> Inl Bad_Encoding | Some n \<Rightarrow> Inr (Int_t n, tl rest)))"

definition bdecode_str :: "string \<Rightarrow> fault + entry \<times> string" where
  "bdecode_str s = (case read_until (CHR '':'') s of None \<Rightarrow> Inl Bad_Encoding
     | Some (len_s, rest) \<Rightarrow> (case atoi len_s of None \<Rightarrow> Inl Overflow
       | Some len \<Rightarrow> (case read_string (nat len) (tl rest) of None \<Rightarrow> Inl Bad_Encoding
         | Some (str, rest) \<Rightarrow> Inr (String_t str, rest))))"

text \<open>
  A dictionary whose key is no string ends the decoding of the dictionary without an error: what
  was decoded of it is returned.
\<close>

fun bdecode_recursive :: "nat \<Rightarrow> string \<Rightarrow> nat \<Rightarrow> fault + entry \<times> string"
  and bdecode_list :: "nat \<Rightarrow> string \<Rightarrow> nat \<Rightarrow> entry list \<Rightarrow> fault + entry \<times> string"
  and bdecode_dict :: "nat \<Rightarrow> string \<Rightarrow> nat \<Rightarrow> (string \<times> entry) list \<Rightarrow> fault + entry \<times> string" where
  "bdecode_recursive 0 s depth = Inl Out_Of_Fuel"
| "bdecode_recursive (Suc f) s depth =
     (if depth \<ge> 100 then Inl Bad_Encoding
      else case s of [] \<Rightarrow> Inl Bad_Encoding
        | c # cs \<Rightarrow>
            if c = CHR ''i'' then bdecode_int cs
            else if c = CHR ''l'' then bdecode_list f cs depth []
            else if c = CHR ''d'' then bdecode_dict f cs depth []
            else if is_digit c then bdecode_str s
            else Inl Bad_Encoding)"
| "bdecode_list 0 s depth l = Inl Out_Of_Fuel"
| "bdecode_list (Suc f) s depth l =
     (case s of [] \<Rightarrow> Inl Out_Of_Bounds
      | c # cs \<Rightarrow>
          if c = CHR ''e'' then Inr (List_t l, cs)
          else case bdecode_recursive f s (depth + 1) of Inl x \<Rightarrow> Inl x
            | Inr (e, rest) \<Rightarrow> if rest = [] then Inl Bad_Encoding else bdecode_list f rest depth (l @ [e]))"
| "bdecode_dict 0 s depth d = Inl Out_Of_Fuel"
| "bdecode_dict (Suc f) s depth d =
     (case s of [] \<Rightarrow> Inl Out_Of_Bounds
      | c # cs \<Rightarrow>
          if c = CHR ''e'' then Inr (Dictionary_t d, cs)
          else case bdecode_recursive f s (depth + 1) of Inl x \<Rightarrow> Inl x
            | Inr (key, rest) \<Rightarrow>
                (case key of String_t k \<Rightarrow>
                   (case bdecode_recursive f rest (depth + 1) of Inl x \<Rightarrow> Inl x
                    | Inr (e, rest) \<Rightarrow> if rest = [] then Inl Bad_Encoding else bdecode_dict f rest depth (dict_set k e d))
                 | _ \<Rightarrow> Inr (Dictionary_t d, rest)))"

definition bdecode :: "string \<Rightarrow> fault + entry" where
  "bdecode s = (case bdecode_recursive (2 * length s + 1) s 0 of
     Inl Bad_Encoding \<Rightarrow> Inr Undefined_t | Inl x \<Rightarrow> Inl x | Inr (e, _) \<Rightarrow> Inr e)"

section \<open>Digits\<close>

text \<open>The decimal digits of a number, the reference for the loop that writes them into the buffer.\<close>

fun digits :: "nat \<Rightarrow> string" where
  "digits v = (if v = 0 then [] else digits (v div 10) @ [digit_char (v mod 10)])"

declare digits.simps [simp del]

lemma digits_0 [simp]: "digits 0 = []"
  by (simp add: digits.simps)

lemma digit_char [simp]: "d < 10 \<Longrightarrow> digit_val (digit_char d) = d"
  by (simp add: digit_val_def digit_char_def of_char_of)

lemma is_digit_char [simp]: "d < 10 \<Longrightarrow> is_digit (digit_char d)"
  by (simp add: is_digit_def digit_char_def less_eq_char_def of_char_of)

lemma write_digits_digits: "val < 10 ^ (n - sign) \<Longrightarrow> write_digits n sign val buf = digits val @ buf"
proof (induction n arbitrary: val buf)
  case 0
  then show ?case by (simp add: digits.simps)
next
  case (Suc n)
  show ?case
  proof (cases "sign < Suc n \<and> val \<noteq> 0")
    case True
    then have "val div 10 < 10 ^ (n - sign)" using Suc.prems by (simp add: Suc_diff_le less_mult_imp_div_less mult.commute)
    with True Suc.IH show ?thesis by (simp add: digits.simps [of val])
  next
    case False
    then show ?thesis using Suc.prems by (auto simp: digits.simps)
  qed
qed

lemma dec_val_append: "dec_val v (xs @ ys) = dec_val (dec_val v xs) ys"
  by (induction v xs rule: dec_val.induct) auto

lemma dec_val_digits: "dec_val 0 (digits v) = v"
proof (induction v rule: digits.induct)
  case (1 v)
  then show ?case by (cases "v = 0") (simp_all add: digits.simps [of v] dec_val_append)
qed

lemma digits_are_digits: "c \<in> set (digits v) \<Longrightarrow> is_digit c"
proof (induction v rule: digits.induct)
  case (1 v)
  then show ?case by (cases "v = 0") (auto simp: digits.simps [of v])
qed

lemma digits_Nil [simp]: "digits v = [] \<longleftrightarrow> v = 0"
  by (subst digits.simps) auto

definition decimal :: "nat \<Rightarrow> string" where
  "decimal v = (if v = 0 then ''0'' else digits v)"

lemma decimal_digits: "c \<in> set (decimal v) \<Longrightarrow> is_digit c" "decimal v \<noteq> []" "dec_val 0 (decimal v) = v"
  using digits_are_digits [of c v] by (auto simp: decimal_def dec_val_digits digit_val_def is_digit_def split: if_splits)

lemma takeWhile_decimal: "takeWhile is_digit (decimal v) = decimal v"
  by (simp add: decimal_digits)

lemma is_digit_not: "is_digit c \<Longrightarrow> c \<noteq> CHR ''-'' \<and> c \<noteq> CHR ''+'' \<and> c \<noteq> CHR ''e'' \<and> c \<noteq> CHR '':'' \<and>
    c \<noteq> CHR ''i'' \<and> c \<noteq> CHR ''l'' \<and> c \<noteq> CHR ''d'' \<and> \<not> c_space c"
  by (auto simp: is_digit_def c_space_def less_eq_char_def)

lemma decimal_hd: "is_digit (hd (decimal v))"
  by (rule decimal_digits(1) [of _ v]) (simp add: decimal_digits(2))

lemma dropWhile_decimal: "dropWhile c_space (decimal v) = decimal v"
  using decimal_hd [of v] decimal_digits(2) [of v] is_digit_not by (cases "decimal v") auto

lemma integer_to_str:
  assumes "- (2 ^ 63) < val" "val < 2 ^ 63"
  shows "integer_to_str 21 val = Some (if val < 0 then CHR ''-'' # decimal (nat \<bar>val\<bar>) else decimal (nat \<bar>val\<bar>))"
proof -
  have b: "nat \<bar>val\<bar> < 10 ^ 19" using assms by simp
  have w: "write_digits 20 sign (nat \<bar>val\<bar>) [] = digits (nat \<bar>val\<bar>)" if "sign \<le> 1" for sign
  proof -
    have "(10 :: nat) ^ 19 \<le> 10 ^ (20 - sign)" using that by (intro power_increasing) auto
    then have "nat \<bar>val\<bar> < 10 ^ (20 - sign)" using b by (rule less_le_trans [rotated])
    then show ?thesis using write_digits_digits [of "nat \<bar>val\<bar>" 20 sign "[]"] by (simp only: append_Nil2)
  qed
  have "write_digits 19 0 0 ''0'' = ''0''" by (simp add: eval_nat_numeral)
  then show ?thesis using assms w [of 0] w [of 1] unfolding integer_to_str_def decimal_def
    by (cases "val < 0") (simp_all add: nat_eq_iff abs_if del: write_digits.simps)
qed

lemma strtoll_decimal: "int v < 2 ^ 63 \<Longrightarrow> strtoll (decimal v) = Some (int v)"
  using decimal_hd [of v] decimal_digits(2) [of v] is_digit_not
  by (simp add: strtoll_def dropWhile_decimal takeWhile_decimal decimal_digits(3))

lemma strtoll_minus: "int v < 2 ^ 63 \<Longrightarrow> strtoll (CHR ''-'' # decimal v) = Some (- int v)"
  using decimal_digits(2) [of v]
  by (simp add: strtoll_def takeWhile_decimal decimal_digits(3) c_space_def)

lemma atoi_decimal: "int v < 2 ^ 31 \<Longrightarrow> atoi (decimal v) = Some (int v)"
  by (simp add: atoi_def strtoll_decimal)

section \<open>The round trip\<close>

lemma read_until_append: "end_token \<notin> set xs \<Longrightarrow> read_until end_token (xs @ end_token # rest) = Some (xs, end_token # rest)"
  by (induction xs) auto

lemma read_string_append: "read_string (length xs) (xs @ rest) = Some (xs, rest)"
  by (induction xs) auto

lemma write_integer_decimal:
  assumes "- (2 ^ 63) < val" "val < 2 ^ 63"
  obtains s where "write_integer val = Some (s, int (length s))" "CHR ''e'' \<notin> set s" "strtoll s = Some val"
proof
  let ?s = "if val < 0 then CHR ''-'' # decimal (nat \<bar>val\<bar>) else decimal (nat \<bar>val\<bar>)"
  show "write_integer val = Some (?s, int (length ?s))" using integer_to_str [OF assms] by (simp add: write_integer_def)
  show "CHR ''e'' \<notin> set ?s" using decimal_digits(1) is_digit_not by auto
  show "strtoll ?s = Some val" using assms strtoll_decimal strtoll_minus by auto
qed

lemma write_length: "n < 2 ^ 31 \<Longrightarrow> write_integer (int n) = Some (decimal n, int (length (decimal n)))"
  using integer_to_str [of "int n"] by (simp add: write_integer_def)

lemma bdecode_int_append:
  assumes "CHR ''e'' \<notin> set s" "strtoll s = Some v"
  shows "bdecode_int (s @ CHR ''e'' # rest) = Inr (Int_t v, rest)"
  using assms by (simp add: bdecode_int_def read_until_append)

lemma bdecode_str_append:
  assumes "length t < 2 ^ 31"
  shows "bdecode_str (decimal (length t) @ CHR '':'' # t @ rest) = Inr (String_t t, rest)"
proof -
  have "CHR '':'' \<notin> set (decimal (length t))" using decimal_digits(1) is_digit_not by blast
  then show ?thesis using assms
    by (simp add: bdecode_str_def read_until_append atoi_decimal read_string_append)
qed

text \<open>A value that can be encoded, in a dictionary or list at a depth: its numbers fit, its strings have a
  length that is an \<open>int\<close>, its dictionaries are in order and it is not nested too deeply.\<close>

fun entry_ok :: "nat \<Rightarrow> entry \<Rightarrow> bool" where
  "entry_ok depth (Int_t v) \<longleftrightarrow> depth < 100 \<and> - (2 ^ 63) < v \<and> v < 2 ^ 63"
| "entry_ok depth (String_t s) \<longleftrightarrow> depth < 100 \<and> length s < 2 ^ 31"
| "entry_ok depth (List_t es) \<longleftrightarrow> depth < 100 \<and> (\<forall>e \<in> set es. entry_ok (depth + 1) e)"
| "entry_ok depth (Dictionary_t d) \<longleftrightarrow> depth < 100 \<and> sorted_wrt (<) (map fst d) \<and>
     (\<forall>(k, e) \<in> set d. entry_ok (depth + 1) (String_t k) \<and> entry_ok (depth + 1) e)"
| "entry_ok depth Undefined_t \<longleftrightarrow> False"

lemma bdecode_string:
  assumes "entry_ok depth (String_t t)"
  shows "bdecode_recursive (Suc f) (decimal (length t) @ CHR '':'' # t @ rest) depth = Inr (String_t t, rest)"
proof -
  obtain c cs where c: "decimal (length t) = c # cs" using decimal_digits(2) by (cases "decimal (length t)") auto
  then have "is_digit c" using decimal_hd [of "length t"] by simp
  then show ?thesis using assms is_digit_not [of c] bdecode_str_append [of t rest] c by auto
qed

lemma dict_set_append: "\<forall>(k', e') \<in> set d. k' < k \<Longrightarrow> dict_set k e d = d @ [(k, e)]"
  by (induction d) auto

text \<open>What the round trip of one value is; the loops of a list and of a dictionary follow from it.\<close>

definition trips :: "nat \<Rightarrow> entry \<Rightarrow> string \<Rightarrow> bool" where
  "trips depth e out \<longleftrightarrow> bencode_recursive e = Some (out, to_int (int (length out))) \<and> out \<noteq> [] \<and> hd out \<noteq> CHR ''e'' \<and>
     (\<forall>f rest. 2 * length (out @ rest) + 1 \<le> f \<longrightarrow> bdecode_recursive f (out @ rest) depth = Inr (e, rest))"

lemma tripsI:
  assumes "bencode_recursive e = Some (out, to_int (int (length out)))" "out \<noteq> []" "hd out \<noteq> CHR ''e''"
    "\<And>f rest. 2 * length (out @ rest) \<le> f \<Longrightarrow> bdecode_recursive (Suc f) (out @ rest) depth = Inr (e, rest)"
  shows "trips depth e out"
  unfolding trips_def
proof (intro conjI allI impI)
  show "bdecode_recursive f (out @ rest) depth = Inr (e, rest)" if "2 * length (out @ rest) + 1 \<le> f" for f rest
    using that assms(4) [of rest "f - 1"] by (cases f) simp_all
qed (use assms in auto)

lemma trips_int: "entry_ok depth (Int_t v) \<Longrightarrow> \<exists>out. trips depth (Int_t v) out"
proof -
  assume ok: "entry_ok depth (Int_t v)"
  then obtain s where s: "write_integer v = Some (s, int (length s))" "CHR ''e'' \<notin> set s" "strtoll s = Some v"
    using write_integer_decimal [of v] by auto
  have "trips depth (Int_t v) (''i'' @ s @ ''e'')"
    by (rule tripsI) (use s(1) ok bdecode_int_append [OF s(2,3)] in \<open>auto simp: algebra_simps\<close>)
  then show ?thesis ..
qed

lemma trips_string: "entry_ok depth (String_t t) \<Longrightarrow> trips depth (String_t t) (decimal (length t) @ '':'' @ t)"
proof (rule tripsI)
  assume ok: "entry_ok depth (String_t t)"
  show "bencode_recursive (String_t t) = Some (decimal (length t) @ '':'' @ t, to_int (int (length (decimal (length t) @ '':'' @ t))))"
    using ok write_length [of "length t"] by (simp add: write_string_def to_int_sum algebra_simps)
  show "bdecode_recursive (Suc f) ((decimal (length t) @ '':'' @ t) @ rest) depth = Inr (String_t t, rest)" for f rest
    using bdecode_string [OF ok] by simp
  show "hd (decimal (length t) @ '':'' @ t) \<noteq> CHR ''e''"
    using decimal_hd [of "length t"] is_digit_not decimal_digits(2) by (auto simp: hd_append)
qed (simp add: decimal_digits(2))

lemma trips_step:
  assumes "trips depth e out" "2 * length (out @ rest) + 1 \<le> f"
  shows "bdecode_recursive f (out @ rest) depth = Inr (e, rest)"
  using assms by (simp add: trips_def)

lemma trips_list:
  assumes "\<forall>e \<in> set es. \<exists>out. trips (depth + 1) e out"
  shows "\<exists>out. bencode_list es = Some (out, to_int (int (length out))) \<and>
     (\<forall>f l rest. 2 * length (out @ CHR ''e'' # rest) + 2 \<le> f \<longrightarrow>
       bdecode_list f (out @ CHR ''e'' # rest) depth l = Inr (List_t (l @ es), rest))"
  using assms
proof (induction es)
  case Nil
  have "bdecode_list f (CHR ''e'' # rest) depth l = Inr (List_t l, rest)" if "2 \<le> f" for f l rest
    using that by (cases f) simp_all
  then show ?case by simp
next
  case (Cons e es)
  obtain o1 where o1: "trips (depth + 1) e o1" using Cons.prems by auto
  then obtain c cs where c: "o1 = c # cs" "c \<noteq> CHR ''e''" by (cases o1) (auto simp: trips_def)
  obtain o2 where o2: "bencode_list es = Some (o2, to_int (int (length o2)))"
    "\<And>f l rest. 2 * length (o2 @ CHR ''e'' # rest) + 2 \<le> f \<Longrightarrow>
       bdecode_list f (o2 @ CHR ''e'' # rest) depth l = Inr (List_t (l @ es), rest)"
    using Cons.IH Cons.prems by auto
  have "bdecode_list f ((o1 @ o2) @ CHR ''e'' # rest) depth l = Inr (List_t (l @ e # es), rest)"
    if f: "2 * length ((o1 @ o2) @ CHR ''e'' # rest) + 2 \<le> f" for f l rest
  proof -
    obtain g where g: "f = Suc g" using f by (cases f) auto
    have "bdecode_recursive g (o1 @ (o2 @ CHR ''e'' # rest)) (depth + 1) = Inr (e, o2 @ CHR ''e'' # rest)"
      by (rule trips_step [OF o1]) (use f g in simp)
    moreover have "bdecode_list g (o2 @ CHR ''e'' # rest) depth (l @ [e]) = Inr (List_t ((l @ [e]) @ es), rest)"
      by (rule o2(2)) (use f g c in simp)
    ultimately show ?thesis using c g by simp
  qed
  moreover have "bencode_list (e # es) = Some (o1 @ o2, to_int (int (length (o1 @ o2))))" using o1 o2(1) by (simp add: trips_def to_int_sum)
  ultimately show ?case by blast
qed

lemma trips_dict:
  assumes "sorted_wrt (<) (map fst d)" "\<forall>(k, e) \<in> set d. entry_ok (depth + 1) (String_t k) \<and> (\<exists>out. trips (depth + 1) e out)"
  shows "\<exists>out. bencode_dict d = Some (out, to_int (int (length out))) \<and>
     (\<forall>f d0 rest. 2 * length (out @ CHR ''e'' # rest) + 2 \<le> f \<and> (\<forall>p \<in> set d0. \<forall>q \<in> set d. fst p < fst q) \<longrightarrow>
       bdecode_dict f (out @ CHR ''e'' # rest) depth d0 = Inr (Dictionary_t (d0 @ d), rest))"
  using assms
proof (induction d)
  case Nil
  have "bdecode_dict f (CHR ''e'' # rest) depth l = Inr (Dictionary_t l, rest)" if "2 \<le> f" for f l rest
    using that by (cases f) simp_all
  then show ?case by simp
next
  case (Cons p d)
  obtain k e where p: "p = (k, e)" by fastforce
  let ?k = "decimal (length k) @ '':'' @ k"
  have k: "trips (depth + 1) (String_t k) ?k" by (rule trips_string) (use Cons.prems p in auto)
  then obtain c cs where c: "?k = c # cs" "c \<noteq> CHR ''e''" by (cases ?k) (auto simp: trips_def)
  obtain o1 where o1: "trips (depth + 1) e o1" using Cons.prems p by auto
  obtain o2 where o2: "bencode_dict d = Some (o2, to_int (int (length o2)))"
    "\<And>f d0 rest. 2 * length (o2 @ CHR ''e'' # rest) + 2 \<le> f \<Longrightarrow> \<forall>p \<in> set d0. \<forall>q \<in> set d. fst p < fst q \<Longrightarrow>
       bdecode_dict f (o2 @ CHR ''e'' # rest) depth d0 = Inr (Dictionary_t (d0 @ d), rest)"
    using Cons.IH Cons.prems by auto
  have "bdecode_dict f ((?k @ o1 @ o2) @ CHR ''e'' # rest) depth d0 = Inr (Dictionary_t (d0 @ p # d), rest)"
    if f: "2 * length ((?k @ o1 @ o2) @ CHR ''e'' # rest) + 2 \<le> f" and d0: "\<forall>r \<in> set d0. \<forall>q \<in> set (p # d). fst r < fst q"
    for f d0 rest
  proof -
    obtain g where g: "f = Suc g" using f by (cases f) auto
    have 1: "bdecode_recursive g (?k @ (o1 @ o2 @ CHR ''e'' # rest)) (depth + 1) = Inr (String_t k, o1 @ o2 @ CHR ''e'' # rest)"
      by (rule trips_step [OF k]) (use f g in simp)
    have 2: "bdecode_recursive g (o1 @ (o2 @ CHR ''e'' # rest)) (depth + 1) = Inr (e, o2 @ CHR ''e'' # rest)"
      by (rule trips_step [OF o1]) (use f g in simp)
    have "dict_set k e d0 = d0 @ [(k, e)]" by (rule dict_set_append) (use d0 p in auto)
    moreover have "bdecode_dict g (o2 @ CHR ''e'' # rest) depth (d0 @ [(k, e)]) = Inr (Dictionary_t ((d0 @ [(k, e)]) @ d), rest)"
      by (rule o2(2)) (use f g d0 p Cons.prems in auto)
    moreover have "?k @ (o1 @ o2 @ CHR ''e'' # rest) = c # cs @ o1 @ o2 @ CHR ''e'' # rest"
      using arg_cong [OF c(1), of "\<lambda>x. x @ o1 @ o2 @ CHR ''e'' # rest"] by simp
    ultimately show ?thesis using 1 2 c(2) g p by simp
  qed
  moreover have "bencode_dict (p # d) = Some (?k @ o1 @ o2, to_int (int (length (?k @ o1 @ o2))))"
  proof -
    have "bencode_dict (p # d) = Some (?k @ o1 @ o2, to_int (to_int (to_int (to_int
        (int (length (decimal (length k))) + to_int (int (length k))) + to_int (int (length o1))) + 1) + to_int (int (length o2))))"
      using o1 o2(1) p Cons.prems write_length [of "length k"] by (simp add: trips_def write_string_def)
    then show ?thesis unfolding to_int_sum by (simp add: algebra_simps)
  qed
  ultimately show ?case by blast
qed

lemma round_trip: "entry_ok depth e \<Longrightarrow> \<exists>out. trips depth e out"
proof (induction e arbitrary: depth)
  case (Int_t v)
  then show ?case by (rule trips_int)
next
  case (String_t t)
  then show ?case using trips_string by blast
next
  case (List_t es)
  then have "\<forall>e \<in> set es. \<exists>out. trips (depth + 1) e out" by simp
  from trips_list [OF this] obtain out where out: "bencode_list es = Some (out, to_int (int (length out)))"
    "\<And>f l rest. 2 * length (out @ CHR ''e'' # rest) + 2 \<le> f \<Longrightarrow>
       bdecode_list f (out @ CHR ''e'' # rest) depth l = Inr (List_t (l @ es), rest)" by blast
  have "trips depth (List_t es) (''l'' @ out @ ''e'')"
    by (rule tripsI) (use out(1) out(2) [of _ _ "[]"] List_t.prems in \<open>auto simp: to_int_sum algebra_simps\<close>)
  then show ?case ..
next
  case (Dictionary_t d)
  then have "sorted_wrt (<) (map fst d)" "\<forall>(k, e) \<in> set d. entry_ok (depth + 1) (String_t k) \<and> (\<exists>out. trips (depth + 1) e out)"
    by fastforce+
  from trips_dict [OF this] obtain out where out: "bencode_dict d = Some (out, to_int (int (length out)))"
    "\<And>f rest. 2 * length (out @ CHR ''e'' # rest) + 2 \<le> f \<Longrightarrow>
       bdecode_dict f (out @ CHR ''e'' # rest) depth [] = Inr (Dictionary_t d, rest)" by fastforce
  have "trips depth (Dictionary_t d) (''d'' @ out @ ''e'')"
    by (rule tripsI) (use out Dictionary_t.prems in \<open>auto simp: to_int_sum algebra_simps\<close>)
  then show ?case ..
qed simp

section \<open>The decoder always returns\<close>

lemma read_until_suffix: "read_until c s = Some (r, rest) \<Longrightarrow> s = r @ rest \<and> rest \<noteq> [] \<and> hd rest = c"
  by (induction c s arbitrary: r rest rule: read_until.induct) (auto split: if_splits)

lemma read_string_suffix: "read_string n s = Some (r, rest) \<Longrightarrow> s = r @ rest"
  by (induction n s arbitrary: r rest rule: read_string.induct) (auto split: list.splits)

text \<open>What is left of an input after at least one byte of it was read.\<close>

definition left :: "string \<Rightarrow> string \<Rightarrow> bool" where
  "left rest s \<longleftrightarrow> (\<exists>p. p \<noteq> [] \<and> s = p @ rest)"

lemma left_trans: "left r s \<Longrightarrow> left q r \<Longrightarrow> left q s"
  unfolding left_def by (metis append_assoc append_is_Nil_conv)

lemma left_Cons: "left r s \<Longrightarrow> left r (c # s)" "left s (c # s)"
  unfolding left_def by (metis append_Cons list.discI) (metis append_Cons append_Nil list.discI)

lemma left_append: "left r s \<Longrightarrow> left r (p @ s)"
  by (induction p) (auto intro: left_Cons)

lemma left_length: "left r s \<Longrightarrow> length r < length s"
  by (auto simp: left_def)

lemma left_last: "left r s \<Longrightarrow> r \<noteq> [] \<Longrightarrow> last s = last r"
  by (auto simp: left_def)

lemma read_until_left:
  assumes "read_until c s = Some (r, rest)"
  shows "left (tl rest) s"
proof -
  have "s = r @ rest" "rest \<noteq> []" using read_until_suffix [OF assms] by auto
  then have "s = r @ hd rest # tl rest" by simp
  then show ?thesis using left_append [OF left_Cons(2)] by metis
qed

lemma bdecode_int_left: "bdecode_int s = Inr (e, rest) \<Longrightarrow> left rest s"
  by (auto simp: bdecode_int_def split: option.splits dest: read_until_left)

lemma bdecode_str_left: "bdecode_str s = Inr (e, rest) \<Longrightarrow> left rest s"
proof -
  assume "bdecode_str s = Inr (e, rest)"
  then obtain len_s t n str where "read_until (CHR '':'') s = Some (len_s, t)" "read_string n (tl t) = Some (str, rest)"
    by (auto simp: bdecode_str_def split: option.splits)
  then have l: "left (tl t) s" and "tl t = str @ rest" by (auto dest: read_until_left read_string_suffix)
  then show ?thesis unfolding left_def by (metis append_assoc append_is_Nil_conv)
qed

text \<open>What holds of every result: the fuel is enough if \<open>enough\<close> holds, and only an input that ends
  where a list or a dictionary begins is read past its end.\<close>

definition sane :: "bool \<Rightarrow> string \<Rightarrow> fault + entry \<times> string \<Rightarrow> bool" where
  "sane enough s res \<longleftrightarrow>
     (case res of Inr (_, rest) \<Rightarrow> left rest s
      | Inl x \<Rightarrow> (x = Out_Of_Fuel \<longrightarrow> \<not> enough) \<and>
          (x = Out_Of_Bounds \<longrightarrow> s = [] \<or> last s = CHR ''l'' \<or> last s = CHR ''d''))"

lemma sane_Inr [simp]: "sane enough s (Inr (e, rest)) \<longleftrightarrow> left rest s"
  by (simp add: sane_def)

lemma sane_Inl [simp]: "sane enough s (Inl x) \<longleftrightarrow> (x = Out_Of_Fuel \<longrightarrow> \<not> enough) \<and>
    (x = Out_Of_Bounds \<longrightarrow> s = [] \<or> last s = CHR ''l'' \<or> last s = CHR ''d'')"
  by (simp add: sane_def)

lemma sane_left:
  assumes "left rest s" "rest \<noteq> []" "sane enough' rest res" "enough \<Longrightarrow> enough'"
  shows "sane enough s res"
  using assms by (auto simp: sane_def left_last split: sum.splits intro: left_trans)

lemma sane_int: "sane enough s (bdecode_int s)"
  by (auto simp: bdecode_int_def split: option.splits dest: read_until_left)

lemma sane_str: "sane enough s (bdecode_str s)"
proof (cases "bdecode_str s")
  case (Inl x)
  then show ?thesis by (auto simp: bdecode_str_def split: option.splits)
next
  case (Inr r)
  then show ?thesis using bdecode_str_left by (cases r) auto
qed

lemma sane_rec:
  assumes "\<And>s depth. sane (2 * length s + 2 \<le> f) s (bdecode_list f s depth [])"
    "\<And>s depth. sane (2 * length s + 2 \<le> f) s (bdecode_dict f s depth [])"
  shows "sane (2 * length s + 1 \<le> Suc f) s (bdecode_recursive (Suc f) s depth)"
proof (cases s)
  case (Cons c cs)
  have loop: "sane (2 * length s + 1 \<le> Suc f) s res" if "sane (2 * length cs + 2 \<le> f) cs res" "c = CHR ''l'' \<or> c = CHR ''d''" for res
    using that Cons by (auto simp: sane_def split: sum.splits intro: left_Cons)
  have "sane enough s (bdecode_int cs)" for enough
    using sane_int [of enough cs] Cons by (auto simp: bdecode_int_def split: option.splits intro: left_Cons)
  with loop assms sane_str [of _ s] Cons show ?thesis by auto
qed simp

lemma sane_list:
  assumes "\<And>s depth. sane (2 * length s + 1 \<le> f) s (bdecode_recursive f s depth)"
    "\<And>s depth l. sane (2 * length s + 2 \<le> f) s (bdecode_list f s depth l)"
  shows "sane (2 * length s + 2 \<le> Suc f) s (bdecode_list (Suc f) s depth l)"
proof (cases s)
  case (Cons c cs)
  show ?thesis
  proof (cases "bdecode_recursive f s (depth + 1)")
    case (Inl x)
    then show ?thesis using assms(1) [of s "depth + 1"] Cons by (auto intro: left_Cons)
  next
    case (Inr r)
    obtain e rest where r: "r = (e, rest)" by fastforce
    then have l: "left rest s" using assms(1) [of s "depth + 1"] Inr by simp
    have "sane (2 * length s + 2 \<le> Suc f) s (bdecode_list f rest depth (l @ [e]))" if "rest \<noteq> []"
      by (rule sane_left [OF l that assms(2)]) (use left_length [OF l] in simp)
    then show ?thesis using Inr r Cons by (auto intro: left_Cons)
  qed
qed simp

lemma sane_dict:
  assumes rec: "\<And>s depth. sane (2 * length s + 1 \<le> f) s (bdecode_recursive f s depth)"
    and loop: "\<And>s depth d. sane (2 * length s + 2 \<le> f) s (bdecode_dict f s depth d)"
    and empty: "\<And>depth. bdecode_recursive f [] depth \<noteq> Inl Out_Of_Bounds"
  shows "sane (2 * length s + 2 \<le> Suc f) s (bdecode_dict (Suc f) s depth d)"
proof (cases s)
  case (Cons c cs)
  show ?thesis
  proof (cases "bdecode_recursive f s (depth + 1)")
    case (Inl x)
    then show ?thesis using rec [of s "depth + 1"] Cons by (auto intro: left_Cons)
  next
    case (Inr r)
    obtain key rest where r: "r = (key, rest)" by fastforce
    then have l: "left rest s" using rec [of s "depth + 1"] Inr by simp
    have "sane (2 * length s + 2 \<le> Suc f) s
        (case bdecode_recursive f rest (depth + 1) of Inl x \<Rightarrow> Inl x
         | Inr (e, rest) \<Rightarrow> if rest = [] then Inl Bad_Encoding else bdecode_dict f rest depth (dict_set k e d))" for k
    proof (cases "bdecode_recursive f rest (depth + 1)")
      case (Inl x)
      then show ?thesis using rec [of rest "depth + 1"] left_length [OF l] left_last [OF l] empty [of "depth + 1"]
        by (cases "rest = []") auto
    next
      case (Inr r')
      obtain e rest' where r': "r' = (e, rest')" by fastforce
      then have l': "left rest' s" using rec [of rest "depth + 1"] Inr left_trans [OF l] by simp
      have "sane (2 * length s + 2 \<le> Suc f) s (bdecode_dict f rest' depth (dict_set k e d))" if "rest' \<noteq> []"
        by (rule sane_left [OF l' that loop]) (use left_length [OF l'] in simp)
      then show ?thesis using Inr r' by simp
    qed
    then show ?thesis using Inr r Cons l by (cases key) (auto intro: left_Cons)
  qed
qed simp

lemma bdecode_sane:
  "(\<forall>s depth. sane (2 * length s + 1 \<le> f) s (bdecode_recursive f s depth) \<and> bdecode_recursive f [] depth \<noteq> Inl Out_Of_Bounds) \<and>
   (\<forall>s depth l. sane (2 * length s + 2 \<le> f) s (bdecode_list f s depth l)) \<and>
   (\<forall>s depth d. sane (2 * length s + 2 \<le> f) s (bdecode_dict f s depth d))"
proof (induction f)
  case (Suc f)
  then show ?case by (intro conjI allI sane_rec sane_list sane_dict) auto
qed simp

section \<open>What the codec promises\<close>

declare bdecode_recursive.simps [simp del] bdecode_list.simps [simp del] bdecode_dict.simps [simp del]

lemma bdecode_enough: "sane True s (bdecode_recursive (2 * length s + 1) s 0)"
  using bdecode_sane [of "2 * length s + 1"] by (auto dest: spec [of _ s])

lemma bdecode_empty: "bdecode [] = Inr Undefined_t"
  by (simp add: bdecode_def bdecode_recursive.simps)

text \<open>
  C26. Every value whose integers are 64-bit integers other than the least one, whose strings have
  a length that fits an \<open>int\<close>, whose dictionaries are ordered and which is nested less than 100
  deep has an encoding; \<open>bencode\<close> returns its length as an \<open>int\<close>, which is the length if that is below 2 GiB, and
  \<open>bdecode\<close> reads the value back from it, whatever follows.
\<close>

theorem bdecode_bencode:
  assumes "entry_ok 0 e"
  shows "\<exists>out n. bencode e = Some (out, n) \<and> bdecode (out @ rest) = Inr e \<and>
    n = to_int (int (length out)) \<and> (length out < 2 ^ 31 \<longrightarrow> n = int (length out))"
proof -
  obtain out where "trips 0 e out" using round_trip [OF assms] by blast
  then show ?thesis by (auto simp: trips_def bencode_def bdecode_def to_int_id)
qed

theorem bdecode_bencode_witness:
  "\<exists>out n. bencode (Dictionary_t [(''a'', Int_t (-120)), (''b'', List_t [String_t ''xyz'', Int_t 0])]) = Some (out, n) \<and>
     bdecode (out @ ''trailer'') = Inr (Dictionary_t [(''a'', Int_t (-120)), (''b'', List_t [String_t ''xyz'', Int_t 0])]) \<and>
     n = to_int (int (length out)) \<and> (length out < 2 ^ 31 \<longrightarrow> n = int (length out))"
  by (rule bdecode_bencode) code_simp



text \<open>
  A dictionary with a key that is no string is no error for \<open>bdecode\<close>: it returns the pairs
  before that key, here none, as the value, whatever follows.
\<close>

theorem bdecode_bad_key:
  assumes "entry_ok 1 k" "\<forall>t. k \<noteq> String_t t" "bencode k = Some (out, n)"
  shows "bdecode (''d'' @ out @ rest) = Inr (Dictionary_t [])"
proof -
  let ?s = "''d'' @ out @ rest"
  have t: "trips 1 k out" using round_trip [OF assms(1)] assms(3) by (auto simp: trips_def bencode_def)
  then obtain c cs where c: "out = c # cs" "c \<noteq> CHR ''e''" by (cases out) (auto simp: trips_def)
  have "bdecode_recursive (2 * length (out @ rest) + 1) (out @ rest) 1 = Inr (k, rest)"
    by (rule trips_step [OF t]) simp
  then have "bdecode_dict (Suc (2 * length (out @ rest) + 1)) (out @ rest) 0 [] = Inr (Dictionary_t [], rest)"
    using c assms(2) by (cases k) (simp_all add: bdecode_dict.simps)
  then show ?thesis by (simp add: bdecode_def bdecode_recursive.simps(2))
qed

theorem bdecode_bad_key_witness: "bdecode (''d'' @ ''i7e'' @ ''1:ae'') = Inr (Dictionary_t [])"
  by (rule bdecode_bad_key [of "Int_t 7" _ 3]) (simp_all, code_simp)

end
