(* ===== verification/Peer_Requests.thy ===== *)
theory Peer_Requests
  imports Pick_Claims File_Storage
begin

text \<open>
  The requests of a connection (\<open>src/peer_connection.cpp\<close>, \<open>src/policy.cpp\<close>, \<open>src/torrent.cpp\<close>,
  \<open>src/bt_peer_connection.cpp\<close>): blocks that are to be requested wait in \<open>m_request_queue\<close>, those
  of pieces with a deadline in front of the others; requests that have been sent are in
  \<open>m_download_queue\<close> until the block arrives, is rejected or is given up. Every handler is one
  definition, on the picker of the torrent and the connection, and calls the other handlers as the
  code does; what a handler does to other connections too is a definition on all of them.

  Time stamps, statistics, alerts and log output are left out, and so are peer plugins that may
  intercept a message. The numbers that the picker draws are arguments: a \<open>dice\<close> gives the number
  for a call site and a block.
\<close>

section \<open>Data\<close>

record pending_block =
  skipped :: nat
  not_wanted :: bool
  timed_out :: bool
  busy :: bool
  pb_block :: piece_block

definition new_pending :: "piece_block \<Rightarrow> pending_block" where
  "new_pending b = \<lparr>skipped = 0, not_wanted = False, timed_out = False, busy = False, pb_block = b\<rparr>"

definition has_block :: "piece_block \<Rightarrow> pending_block \<Rightarrow> bool" where
  "has_block b pb \<longleftrightarrow> pb_block pb = b"

record piece_block_progress =
  pbp_piece :: nat
  pbp_block :: nat
  bytes_downloaded :: int

datatype message = Request peer_request | Cancel peer_request | Interested | NotInterested | Have nat

record connection =
  request_queue :: "pending_block list"
  download_queue :: "pending_block list"
  queued_time_critical :: int
  outstanding_bytes :: int
  max_queue_size :: int
  endgame_mode :: bool
  peer_choked :: bool
  interesting :: bool
  parole :: bool
  snubbed :: bool
  no_download :: bool
  upload_only :: bool
  bitfield_received :: bool
  disconnecting :: bool
  supports_fast :: bool
  request_large_blocks :: bool
  allowed_fast :: "nat list"
  suggested_pieces :: "nat list"
  peer_pieces :: "bool list"
  whole_pieces :: nat
  timeout_extend :: int
  receiving :: "piece_block_progress option"
  receiving_block :: "piece_block option"
  download_rate :: int
  conn_speed :: piece_state_t
  sent :: "message list"

text \<open>What the handlers ask the torrent and the session for.\<close>

record torrent_env =
  block_size :: int
  size_of_piece :: "nat \<Rightarrow> int"
  full_piece_length :: int
  upload_mode :: bool
  files_checked :: bool
  seeding :: bool
  torrent_rate :: int
  whole_pieces_threshold :: int
  strict_end_game_mode :: bool
  drop_skipped_requests :: bool
  close_redundant_connections :: bool
  send_redundant_have :: bool
  use_parole_mode :: bool
  max_suggest_pieces :: int
  max_sparse_regions :: int
  request_timeout :: int
  sequential_download :: bool
  initial_picker_threshold :: int
  prioritize_partial_pieces :: bool

type_synonym dice = "nat \<Rightarrow> piece_block \<Rightarrow> nat"

text \<open>Where blocks to request come from: \<open>piece_picker::pick_pieces\<close>, which always returns.\<close>

type_synonym block_source = "request \<Rightarrow> int \<Rightarrow> nat list \<Rightarrow> piece_picker \<Rightarrow> piece_block list \<times> piece_picker"

definition picked_by :: "(nat \<Rightarrow> nat) \<Rightarrow> nat \<Rightarrow> nat \<Rightarrow> block_source" where
  "picked_by rnd r1 r2 rq n suggested pk =
     (case pick_pieces rnd r1 r2 rq n suggested [] pk of Some res \<Rightarrow> res | None \<Rightarrow> ([], pk))"

section \<open>Queries\<close>

definition is_seed :: "torrent_env \<Rightarrow> piece_picker \<Rightarrow> bool" where
  "is_seed env pk \<longleftrightarrow> seeding env \<or> m_num_have pk = int (num_pieces pk)"

definition to_req :: "torrent_env \<Rightarrow> piece_block \<Rightarrow> peer_request" where
  "to_req env b =
     (let offset = int (block_index b) * block_size env
      in \<lparr>pr_piece = int (piece_index b), pr_start = offset,
          pr_length = min (size_of_piece env (piece_index b) - offset) (block_size env)\<rparr>)"

definition block_at :: "torrent_env \<Rightarrow> peer_request \<Rightarrow> piece_block" where
  "block_at env r = \<lparr>piece_index = nat (pr_piece r), block_index = nat (pr_start r div block_size env)\<rparr>"

definition verify_piece :: "torrent_env \<Rightarrow> piece_picker \<Rightarrow> peer_request \<Rightarrow> bool" where
  "verify_piece env pk r \<longleftrightarrow> pr_piece r \<ge> 0 \<and> pr_piece r < int (num_pieces pk) \<and> pr_start r \<ge> 0
     \<and> pr_start r < full_piece_length env \<and> to_req env (block_at env r) = r"

definition match_request :: "torrent_env \<Rightarrow> peer_request \<Rightarrow> piece_block \<Rightarrow> bool" where
  "match_request env r b \<longleftrightarrow> int (piece_index b) = pr_piece r
     \<and> int (block_index b) = pr_start r div block_size env \<and> pr_start r mod block_size env = 0"

definition peer_speed :: "torrent_env \<Rightarrow> connection \<Rightarrow> piece_state_t" where
  "peer_speed env c =
     (let rate = download_rate c; torrent = torrent_rate env
      in if rate > 512 \<and> rate > torrent div 16 then fast
         else if rate > 4096 \<and> rate > torrent div 64 then medium
         else if rate < torrent div 15 \<and> conn_speed c = fast then medium
         else slow)"

definition desired_queue_size :: "connection \<Rightarrow> int" where
  "desired_queue_size c = (if endgame_mode c then 1 else max_queue_size c)"

definition prefer_whole_pieces :: "connection \<Rightarrow> nat" where
  "prefer_whole_pieces c = (if parole c then 1 else whole_pieces c)"

definition picker_options :: "torrent_env \<Rightarrow> piece_picker \<Rightarrow> connection \<Rightarrow> pick_options" where
  "picker_options env pk c =
     (let few = m_num_have pk < initial_picker_threshold env; seq = sequential_download env
      in \<lparr>rarest_first = \<not> seq \<and> \<not> few, pick_reverse = snubbed c, on_parole = parole c,
          prioritize_partials = \<not> seq \<and> few \<or> prioritize_partial_pieces env \<or> parole c,
          sequential = seq, speed_affinity = \<not> seq \<and> \<not> few, ignore_whole_pieces = seq\<rparr>)"

definition can_request_time_critical :: "torrent_env \<Rightarrow> connection \<Rightarrow> bool" where
  "can_request_time_critical env c \<longleftrightarrow>
     \<not> (peer_choked c \<or> \<not> interesting c)
   \<and> \<not> int (length (download_queue c)) + int (length (request_queue c)) > max_queue_size c * 2
   \<and> \<not> parole c \<and> \<not> disconnecting c \<and> \<not> upload_mode env"

definition allocated :: "pending_block \<Rightarrow> bool" where
  "allocated pb \<longleftrightarrow> \<not> timed_out pb \<and> \<not> not_wanted pb"

text \<open>\<open>piece_picker::piece_info\<close>: the counters of a piece.\<close>

definition piece_info :: "nat \<Rightarrow> piece_picker \<Rightarrow> int \<times> int \<times> int" where
  "piece_info x pk =
     (if downloading (m_piece_map pk ! x)
      then case find_download pk x of None \<Rightarrow> (0, 0, 0)
        | Some i \<Rightarrow> (finished (m_downloads pk ! i), writing (m_downloads pk ! i), requested (m_downloads pk ! i))
      else (if have_piece pk x then int (blocks_in_piece pk x) else 0, 0, 0))"

section \<open>Queueing requests\<close>

definition insert_at :: "int \<Rightarrow> 'a \<Rightarrow> 'a list \<Rightarrow> 'a list" where
  "insert_at i x xs = take (nat i) xs @ x # drop (nat i) xs"

definition erase_at :: "nat \<Rightarrow> 'a list \<Rightarrow> 'a list" where
  "erase_at i xs = take i xs @ drop (Suc i) xs"

definition make_time_critical :: "piece_block \<Rightarrow> connection \<Rightarrow> connection" where
  "make_time_critical b c =
     (case find_index (has_block b) (request_queue c) of None \<Rightarrow> c
      | Some i \<Rightarrow>
          if int i < queued_time_critical c then c
          else c\<lparr>request_queue := insert_at (queued_time_critical c) (request_queue c ! i) (erase_at i (request_queue c)),
                 queued_time_critical := queued_time_critical c + 1\<rparr>)"

definition add_request ::
  "torrent_env \<Rightarrow> nat \<Rightarrow> nat \<Rightarrow> bool \<Rightarrow> bool \<Rightarrow> piece_block \<Rightarrow> piece_picker \<times> connection \<Rightarrow> bool \<times> piece_picker \<times> connection" where
  "add_request env r p req_time_critical req_busy b st =
     (let (pk, c) = st
      in if upload_mode env \<or> disconnecting c then (False, st)
         else
           let speed = peer_speed env c;
               c = c\<lparr>conn_speed := speed\<rparr>
           in if req_busy \<and> (\<exists>q \<in> set (download_queue c) \<union> set (request_queue c). busy q) then (False, pk, c)
              else
                let (ok, pk) = mark_as_downloading r b (Some p) speed pk
                in if \<not> ok then (False, pk, c)
                   else
                     let pb = (new_pending b)\<lparr>busy := req_busy\<rparr>
                     in (True, pk,
                         if req_time_critical
                         then c\<lparr>request_queue := insert_at (queued_time_critical c) pb (request_queue c),
                                queued_time_critical := queued_time_critical c + 1\<rparr>
                         else c\<lparr>request_queue := request_queue c @ [pb]\<rparr>))"

text \<open>The loop of \<open>request_a_block\<close> over the blocks the picker has found, and the function.\<close>

fun request_loop ::
  "torrent_env \<Rightarrow> (piece_block \<Rightarrow> nat) \<Rightarrow> nat \<Rightarrow> nat \<Rightarrow> bool \<Rightarrow> piece_block list \<Rightarrow> int \<Rightarrow> piece_block option \<Rightarrow>
    piece_picker \<times> connection \<Rightarrow> int \<times> piece_block option \<times> piece_picker \<times> connection" where
  "request_loop env r p whole dont_pick_busy [] num busy_pick st = (num, busy_pick, st)"
| "request_loop env r p whole dont_pick_busy (b # bs) num busy_pick st =
     (if whole = 0 \<and> num \<le> 0 then (num, busy_pick, st)
      else if block_num_peers (fst st) b > 0
      then if num \<le> 0 \<or> dont_pick_busy then (num, busy_pick, st)
           else request_loop env r p whole dont_pick_busy bs num (Some b) st
      else if (\<exists>q \<in> set (download_queue (snd st)) \<union> set (request_queue (snd st)). has_block b q)
      then request_loop env r p whole dont_pick_busy bs num busy_pick st
      else let (ok, st) = add_request env (r b) p False False b st
           in request_loop env r p whole dont_pick_busy bs (if ok then num - 1 else num) busy_pick st)"

definition fast_mask :: "nat list \<Rightarrow> bool list \<Rightarrow> bool list" where
  "fast_mask allowed bits = map (\<lambda>i. i \<in> set allowed \<and> bits ! i) [0..<length bits]"

text \<open>The first half of \<open>request_a_block\<close>: what the picker is asked for.\<close>

definition prepare_request :: "torrent_env \<Rightarrow> nat \<Rightarrow> piece_picker \<times> connection \<Rightarrow> request \<times> connection" where
  "prepare_request env p st =
     (let (pk, c) = st;
          whole = (if prefer_whole_pieces c = 0
                   then if download_rate c * whole_pieces_threshold env > full_piece_length env then 1 else 0
                   else prefer_whole_pieces c);
          allowed = (if peer_choked c then filter (\<lambda>x. \<not> have_piece pk x) (allowed_fast c) else allowed_fast c);
          bits = (if peer_choked c then fast_mask allowed (peer_pieces c) else peer_pieces c);
          speed = peer_speed env c;
          c = c\<lparr>allowed_fast := allowed, conn_speed := speed\<rparr>
      in (\<lparr>req_pieces = bits, req_peer = Some p, req_speed = speed, req_whole = whole, req_options = picker_options env pk c\<rparr>, c))"

definition request_a_block ::
  "torrent_env \<Rightarrow> dice \<Rightarrow> block_source \<Rightarrow> nat \<Rightarrow> piece_picker \<times> connection \<Rightarrow> piece_picker \<times> connection" where
  "request_a_block env r pick p st =
     (let (pk, c) = st;
          num = desired_queue_size c - int (length (download_queue c)) - int (length (request_queue c))
      in if is_seed env pk \<or> no_download c \<or> upload_mode env \<or> disconnecting c \<or> \<not> files_checked env \<or> num \<le> 0 then st
         else
           let (rq, c) = prepare_request env p st;
               (blocks, pk) = pick rq num (suggested_pieces c) pk;
               dont_pick_busy =
                 strict_end_game_mode env \<and> m_num_have pk + int (length (m_downloads pk)) < int (num_pieces pk)
                 \<or> length (download_queue c) + length (request_queue c) > 0;
               (num, busy_pick, pk, c) = request_loop env (r 0) p (req_whole rq) dont_pick_busy blocks num None (pk, c)
           in if num \<le> 0 then (pk, c\<lparr>endgame_mode := False\<rparr>)
              else
                let c = c\<lparr>endgame_mode := True\<rparr>
                in case busy_pick of None \<Rightarrow> (pk, c)
                   | Some b \<Rightarrow>
                       if length (download_queue c) + length (request_queue c) > 0 then (pk, c)
                       else snd (add_request env (r 1 b) p False True b (pk, c)))"

section \<open>Sending requests\<close>

definition dec_critical :: "int \<Rightarrow> int" where
  "dec_critical n = (if n = 0 then n else n - 1)"

text \<open>The requests that continue the block before them, for a connection that asks for large blocks.\<close>

fun merge_run :: "nat \<Rightarrow> piece_block \<Rightarrow> pending_block list \<Rightarrow> pending_block list \<times> pending_block list" where
  "merge_run blocks_per_piece b [] = ([], [])"
| "merge_run blocks_per_piece b (q # qs) =
     (if piece_index (pb_block q) * blocks_per_piece + block_index (pb_block q)
         \<noteq> piece_index b * blocks_per_piece + block_index b + 1 then ([], q # qs)
      else let (run, rest) = merge_run blocks_per_piece (pb_block q) qs in (q # run, rest))"

definition send_request :: "torrent_env \<Rightarrow> pending_block \<Rightarrow> connection \<Rightarrow> connection" where
  "send_request env q c =
     (let r = to_req env (pb_block q);
          (run, rest) = (if request_large_blocks c
             then merge_run (nat (full_piece_length env div block_size env)) (pb_block q) (request_queue c)
             else ([], request_queue c));
          more = sum_list (map (\<lambda>q. pr_length (to_req env (pb_block q))) run)
      in c\<lparr>request_queue := rest, download_queue := download_queue c @ q # run,
           queued_time_critical := (dec_critical ^^ length run) (queued_time_critical c),
           outstanding_bytes := outstanding_bytes c + pr_length r + more,
           sent := sent c @ [Request (r\<lparr>pr_length := pr_length r + more\<rparr>)]\<rparr>)"

lemma merge_run_length: "merge_run n b qs = (run, rest) \<Longrightarrow> length rest \<le> length qs"
  by (induction qs arbitrary: b run) (auto split: if_splits prod.splits simp: le_SucI)

lemma send_request_shrinks: "length (request_queue (send_request env q c)) \<le> length (request_queue c)"
  by (auto simp: send_request_def Let_def merge_run_length split: prod.split)

function send_loop :: "torrent_env \<Rightarrow> (piece_block \<Rightarrow> nat) \<Rightarrow> piece_picker \<times> connection \<Rightarrow> piece_picker \<times> connection" where
  "send_loop env r (pk, c) =
     (case request_queue c of [] \<Rightarrow> (pk, c)
      | q # qs \<Rightarrow>
          if \<not> (int (length (download_queue c)) < max_queue_size c \<or> queued_time_critical c > 0) then (pk, c)
          else
            let c1 = c\<lparr>request_queue := qs, queued_time_critical := dec_critical (queued_time_critical c)\<rparr>
            in if is_seed env pk then send_loop env r (pk, c1)
               else if is_finished pk (pb_block q) \<or> is_downloaded pk (pb_block q)
               then send_loop env r (abort_download (r (pb_block q)) (pb_block q) pk, c1)
               else send_loop env r (pk, send_request env q c1))"
  by pat_completeness auto

termination
proof (relation "measure (\<lambda>(_, _, _, c). length (request_queue c))")
  fix env and c :: connection and qs q c1
  assume "request_queue c = q # qs" "c1 = c\<lparr>request_queue := qs, queued_time_critical := dec_critical (queued_time_critical c)\<rparr>"
  then show "((env, r, pk, send_request env q c1), env, r, pk, c) \<in> measure (\<lambda>(_, _, _, c). length (request_queue c))" for r pk
    using send_request_shrinks [of env q c1] by simp
qed auto

declare send_loop.simps [simp del]

definition send_block_requests ::
  "torrent_env \<Rightarrow> dice \<Rightarrow> piece_picker \<times> connection \<Rightarrow> piece_picker \<times> connection" where
  "send_block_requests env r st =
     (let c = snd st
      in if disconnecting c \<or> int (length (download_queue c)) \<ge> max_queue_size c \<or> upload_mode env then st
         else send_loop env (r 2) st)"

section \<open>Giving requests up\<close>

definition incoming_reject_request ::
  "torrent_env \<Rightarrow> dice \<Rightarrow> block_source \<Rightarrow> nat \<Rightarrow> peer_request \<Rightarrow> piece_picker \<times> connection \<Rightarrow> piece_picker \<times> connection" where
  "incoming_reject_request env r pick p req st =
     (let (pk, c) = st
      in if disconnecting c then st
         else
           let (pk, c) =
             (case find_index (\<lambda>q. match_request env req (pb_block q)) (download_queue c) of None \<Rightarrow> (pk, c)
              | Some i \<Rightarrow>
                  let q = download_queue c ! i;
                      c = c\<lparr>download_queue := erase_at i (download_queue c),
                            outstanding_bytes := max 0 (outstanding_bytes c - pr_length req)\<rparr>
                  in if parole c
                     then (pk, if allocated q then c\<lparr>request_queue := q # request_queue c\<rparr> else c)
                     else if \<not> is_seed env pk \<and> allocated q then (abort_download (r 3 (pb_block q)) (pb_block q) pk, c)
                     else (pk, c));
               c = (if pr_piece req < 0 then c
                    else if peer_choked c then c\<lparr>allowed_fast := remove1 (nat (pr_piece req)) (allowed_fast c)\<rparr>
                    else c\<lparr>suggested_pieces := remove1 (nat (pr_piece req)) (suggested_pieces c)\<rparr>)
           in if request_queue c = [] \<and> length (download_queue c) < 2
              then send_block_requests env r (request_a_block env r pick p (pk, c))
              else (pk, c))"

text \<open>\<open>bt_peer_connection::write_cancel\<close>: a peer without the fast extension will not answer a cancel.\<close>

definition write_cancel ::
  "torrent_env \<Rightarrow> dice \<Rightarrow> block_source \<Rightarrow> nat \<Rightarrow> peer_request \<Rightarrow> piece_picker \<times> connection \<Rightarrow> piece_picker \<times> connection" where
  "write_cancel env r pick p req st =
     (let (pk, c) = st;
          c = c\<lparr>sent := sent c @ [Cancel req]\<rparr>
      in if supports_fast c then (pk, c) else incoming_reject_request env r pick p req (pk, c))"

definition connection_cancel ::
  "torrent_env \<Rightarrow> dice \<Rightarrow> block_source \<Rightarrow> nat \<Rightarrow> piece_block \<Rightarrow> piece_picker \<times> connection \<Rightarrow> piece_picker \<times> connection" where
  "connection_cancel env r pick p b st =
     (let (pk, c) = st
      in if disconnecting c then st
         else if \<not> is_requested pk b then st
         else case find_index (has_block b) (download_queue c) of
           None \<Rightarrow>
             (case find_index (has_block b) (request_queue c) of None \<Rightarrow> st
              | Some i \<Rightarrow>
                  (abort_download (r 4 b) b pk,
                   c\<lparr>queued_time_critical := queued_time_critical c - (if int i < queued_time_critical c then 1 else 0),
                     request_queue := erase_at i (request_queue c)\<rparr>))
         | Some _ \<Rightarrow>
             if outstanding_bytes c < pr_length (to_req env b) then st
             else write_cancel env r pick p (to_req env b) st)"

definition cancel_all_requests ::
  "torrent_env \<Rightarrow> dice \<Rightarrow> block_source \<Rightarrow> nat \<Rightarrow> piece_picker \<times> connection \<Rightarrow> piece_picker \<times> connection" where
  "cancel_all_requests env r pick p st =
     (let (pk, c) = st
      in if disconnecting c then st
         else
           let pk = fold (\<lambda>q. abort_download (r 5 (pb_block q)) (pb_block q)) (rev (request_queue c)) pk;
               c = c\<lparr>request_queue := [], queued_time_critical := 0\<rparr>
           in fold (\<lambda>q st. if receiving_block (snd st) = Some (pb_block q) then st
                           else write_cancel env (\<lambda>i. r (20 + i)) pick p (to_req env (pb_block q)) st)
                (download_queue c) (pk, c))"

definition incoming_choke :: "torrent_env \<Rightarrow> dice \<Rightarrow> piece_picker \<times> connection \<Rightarrow> piece_picker \<times> connection" where
  "incoming_choke env r st =
     (let (pk, c) = st
      in if disconnecting c then st
         else
           let c = c\<lparr>peer_choked := True\<rparr>
           in if parole c then (pk, c)
              else (if is_seed env pk then pk
                    else fold (\<lambda>q. abort_download (r 6 (pb_block q)) (pb_block q)) (request_queue c) pk,
                    c\<lparr>request_queue := [], queued_time_critical := 0\<rparr>))"

text \<open>
  \<open>peer_connection::disconnect\<close> with \<open>torrent::remove_peer\<close>: all requests are given up and the pieces
  of the peer are no longer counted as available.
\<close>

fun give_up_sent :: "torrent_env \<Rightarrow> (piece_block \<Rightarrow> nat) \<Rightarrow> pending_block list \<Rightarrow> piece_picker \<times> int \<Rightarrow> piece_picker \<times> int" where
  "give_up_sent env r [] st = st"
| "give_up_sent env r (q # qs) (pk, bytes) =
     give_up_sent env r qs
       (if allocated q then abort_download (r (pb_block q)) (pb_block q) pk else pk,
        max 0 (bytes - pr_length (to_req env (pb_block q))))"

definition disconnect :: "torrent_env \<Rightarrow> dice \<Rightarrow> piece_picker \<times> connection \<Rightarrow> piece_picker \<times> connection" where
  "disconnect env r st =
     (let (pk, c) = st
      in if disconnecting c then st
         else
           let (pk, bytes) = give_up_sent env (r 7) (rev (download_queue c)) (pk, outstanding_bytes c);
               pk = fold (\<lambda>q. abort_download (r 8 (pb_block q)) (pb_block q)) (rev (request_queue c)) pk;
               pk = (if peer_pieces c \<noteq> [] \<and> (\<forall>x \<in> set (peer_pieces c). x) then dec_refcount_all pk
                     else dec_refcount_mask (peer_pieces c) pk)
           in (pk, c\<lparr>download_queue := [], request_queue := [], outstanding_bytes := bytes,
                     queued_time_critical := 0, disconnecting := True\<rparr>))"

text \<open>\<open>snub_peer\<close>: the peer has not answered in time. \<open>None\<close> is a last request that does not exist.\<close>

definition snub_peer ::
  "torrent_env \<Rightarrow> dice \<Rightarrow> block_source \<Rightarrow> nat \<Rightarrow> piece_picker \<times> connection \<Rightarrow> (piece_picker \<times> connection) option" where
  "snub_peer env r pick p st =
     (let (pk, c) = st;
          c = c\<lparr>snubbed := True, max_queue_size := 1\<rparr>;
          more = (\<lambda>c. c\<lparr>timeout_extend := timeout_extend c + request_timeout env\<rparr>)
      in if parole c then Some (pk, more c)
         else
           let prev = length (request_queue c);
               (pk, c) = request_a_block env r pick p (pk, c\<lparr>max_queue_size := 2\<rparr>);
               c = c\<lparr>max_queue_size := 1\<rparr>
           in if prev > 0
              then
                let b = pb_block (request_queue c ! (prev - 1));
                    c = c\<lparr>request_queue := erase_at (prev - 1) (request_queue c),
                          queued_time_critical := queued_time_critical c - (if int prev \<le> queued_time_critical c then 1 else 0)\<rparr>;
                    c = (if download_queue c \<noteq> [] \<or> request_queue c \<noteq> [] then more c else c)
                in Some (send_block_requests env r (abort_download (r 9 b) b pk, c))
              else if download_queue c = [] then None
              else
                let q = last (download_queue c);
                    (f, w, rq) = piece_info (piece_index (pb_block q)) pk
                in if int (blocks_in_piece pk (piece_index (pb_block q))) - f - w - rq > 0 then Some (pk, more c)
                   else
                     let c = c\<lparr>download_queue := butlast (download_queue c) @ [q\<lparr>timed_out := True\<rparr>]\<rparr>;
                         pk = (if allocated q then abort_download (r 9 (pb_block q)) (pb_block q) pk else pk)
                     in Some (send_block_requests env r (pk, more c)))"

section \<open>Receiving blocks\<close>

definition incoming_piece_fragment :: "int \<Rightarrow> connection \<Rightarrow> connection" where
  "incoming_piece_fragment bytes c = c\<lparr>outstanding_bytes := max 0 (outstanding_bytes c - bytes)\<rparr>"

definition start_receive_piece ::
  "torrent_env \<Rightarrow> dice \<Rightarrow> peer_request \<Rightarrow> piece_picker \<times> connection \<Rightarrow> piece_picker \<times> connection" where
  "start_receive_piece env r req st =
     (let (pk, c) = st;
          b = block_at env req;
          c = c\<lparr>receiving_block := Some b\<rparr>
      in if \<not> verify_piece env pk req then disconnect env r (pk, c)
         else if (\<exists>q \<in> set (download_queue c). has_block b q) \<or> disconnecting c then (pk, c)
         else
           let bytes = outstanding_bytes c + pr_length req
           in case find_index (has_block b) (request_queue c) of
             Some i \<Rightarrow>
               (pk, c\<lparr>queued_time_critical := queued_time_critical c - (if int i < queued_time_critical c then 1 else 0),
                      request_queue := erase_at i (request_queue c),
                      download_queue := new_pending b # download_queue c, outstanding_bytes := bytes\<rparr>)
           | None \<Rightarrow>
               (pk, c\<lparr>download_queue := (new_pending b)\<lparr>not_wanted := True\<rparr> # download_queue c, outstanding_bytes := bytes\<rparr>))"

text \<open>The requests that were sent before the one that is answered: those skipped too often are dropped.\<close>

fun skip_loop ::
  "torrent_env \<Rightarrow> (piece_block \<Rightarrow> nat) \<Rightarrow> int \<Rightarrow> pending_block list \<Rightarrow> piece_picker \<times> int \<Rightarrow>
    pending_block list \<times> piece_picker \<times> int" where
  "skip_loop env r limit [] st = ([], st)"
| "skip_loop env r limit (q # qs) (pk, bytes) =
     (let q = q\<lparr>skipped := (skipped q + 1) mod 2 ^ 16\<rparr>
      in if drop_skipped_requests env \<and> int (skipped q) > limit
         then skip_loop env r limit qs
           (if allocated q then abort_download (r (pb_block q)) (pb_block q) pk else pk,
            max 0 (bytes - pr_length (to_req env (pb_block q))))
         else let (kept, st) = skip_loop env r limit qs (pk, bytes) in (q # kept, st))"

section \<open>All connections of a torrent\<close>

text \<open>The picker of the torrent, and the connection of each peer, if it has one.\<close>

type_synonym swarm = "piece_picker \<times> (nat \<Rightarrow> connection option)"

definition at_peer :: "nat \<Rightarrow> (piece_picker \<times> connection \<Rightarrow> piece_picker \<times> connection) \<Rightarrow> swarm \<Rightarrow> swarm" where
  "at_peer p f sw =
     (case snd sw p of None \<Rightarrow> sw
      | Some c \<Rightarrow> let (pk, c) = f (fst sw, c) in (pk, (snd sw)(p \<mapsto> c)))"

definition peer_cancel :: "torrent_env \<Rightarrow> (nat \<Rightarrow> dice) \<Rightarrow> block_source \<Rightarrow> nat \<Rightarrow> piece_block \<Rightarrow> swarm \<Rightarrow> swarm" where
  "peer_cancel env r pick p b = at_peer p (connection_cancel env (r p) pick p b)"

text \<open>\<open>torrent::cancel_block\<close>; \<open>ids\<close> are the connections in the order of the set.\<close>

definition cancel_block :: "torrent_env \<Rightarrow> (nat \<Rightarrow> dice) \<Rightarrow> block_source \<Rightarrow> nat list \<Rightarrow> piece_block \<Rightarrow> swarm \<Rightarrow> swarm" where
  "cancel_block env r pick ids b = fold (\<lambda>p. peer_cancel env r pick p b) ids"

text \<open>
  \<open>incoming_piece\<close>, with whether the answer came in time (a snubbed peer is forgiven then); the result
  says whether the piece is now to be hashed.
\<close>

definition request_more ::
  "torrent_env \<Rightarrow> dice \<Rightarrow> block_source \<Rightarrow> nat \<Rightarrow> piece_picker \<times> connection \<Rightarrow> piece_picker \<times> connection" where
  "request_more env r pick p st = send_block_requests env r (request_a_block env r pick p st)"

definition incoming_piece ::
  "torrent_env \<Rightarrow> (nat \<Rightarrow> dice) \<Rightarrow> block_source \<Rightarrow> nat list \<Rightarrow> bool \<Rightarrow> nat \<Rightarrow> peer_request \<Rightarrow> swarm \<Rightarrow> swarm \<times> bool" where
  "incoming_piece env r pick ids in_time p req sw =
     (case snd sw p of None \<Rightarrow> (sw, False)
      | Some c \<Rightarrow>
          let pk = fst sw;
              put = (\<lambda>(pk, c). (pk, (snd sw)(p \<mapsto> c)));
              b = block_at env req;
              c = c\<lparr>receiving_block := None\<rparr>
          in if disconnecting c then (put (pk, c), False)
             else if pr_length req = 0 then (put (incoming_reject_request env (r p) pick p req (pk, c)), False)
             else if is_seed env pk then (put (pk, c\<lparr>download_queue := tl (download_queue c)\<rparr>), False)
             else case find_index (has_block b) (download_queue c) of None \<Rightarrow> (put (pk, c), False)
             | Some k \<Rightarrow>
                 let (kept, pk, bytes) =
                       skip_loop env (r p 10) (max_queue_size c) (take k (download_queue c)) (pk, outstanding_bytes c);
                     c = c\<lparr>download_queue := kept @ drop (Suc k) (download_queue c), outstanding_bytes := bytes\<rparr>
                 in if is_downloaded pk b
                    then (put (request_more env (r p) pick p (pk, c\<lparr>timeout_extend := 0\<rparr>)), False)
                    else
                      let c = c\<lparr>snubbed := snubbed c \<and> \<not> in_time,
                                timeout_extend := (if download_queue c = [] then 0
                                  else max (timeout_extend c - request_timeout env) 0)\<rparr>;
                          was_finished = is_piece_finished pk (piece_index b);
                          multi = block_num_peers pk b > 1;
                          pk = snd (mark_as_writing (r p 11 b) b (Some p) pk);
                          sw = put (pk, c);
                          sw = (if multi then cancel_block env r pick ids b sw else sw);
                          hash = is_piece_finished (fst sw) (piece_index b) \<and> \<not> was_finished
                      in (at_peer p (request_more env (\<lambda>i. r p (20 + i)) pick p) sw, hash))"

section \<open>A torrent to evaluate on\<close>

text \<open>Three pieces of two blocks, the last one of one block, and the default settings.\<close>

definition demo_env :: torrent_env where
  "demo_env = \<lparr>block_size = 16, size_of_piece = (\<lambda>x. if x < 2 then 32 else 16), full_piece_length = 32, upload_mode = False,
     files_checked = True, seeding = False, torrent_rate = 0, whole_pieces_threshold = 20, strict_end_game_mode = True,
     drop_skipped_requests = False, close_redundant_connections = True, send_redundant_have = False, use_parole_mode = True,
     max_suggest_pieces = 16, max_sparse_regions = 0, request_timeout = 10, sequential_download = False,
     initial_picker_threshold = 4, prioritize_partial_pieces = False\<rparr>"

end
