(* ===== verification/Stream_Plugin.thy ===== *)
theory Stream_Plugin
  imports Peer_Requests
begin

text \<open>
  The stream plugin of the player (\<open>jni/stream.cpp\<close>) and the queue through which Java asks it to
  cancel a piece (\<open>jni/concurrentqueue.h\<close>). \<open>cancel_request\<close> walks over the blocks of the piece in
  the picker's download queue and asks the connection of each requested block to cancel it. What a
  connection does then is an argument of the model: the code calls an overload of
  \<open>peer_connection::cancel_request\<close> with two arguments, and the library in the tree has only the one
  with the block. The locale \<open>canceller\<close> says what the plugin relies on, and the function of
  \<open>src/peer_connection.cpp\<close> satisfies it as long as the peers have the fast extension: a peer without
  it is asked for other blocks at once, while the loop still walks over the download queue.
\<close>

section \<open>The queue of tasks\<close>

record cancel_piece =
  task_index :: int
  task_force :: bool

text \<open>Each operation holds the mutex of the queue for its whole length.\<close>

definition queue_empty :: "'a list \<Rightarrow> bool" where
  "queue_empty q \<longleftrightarrow> q = []"

definition queue_push :: "'a \<Rightarrow> 'a list \<Rightarrow> 'a list" where
  "queue_push item q = q @ [item]"

definition queue_pop :: "'a list \<Rightarrow> ('a \<times> 'a list) option" where
  "queue_pop q = (case q of [] \<Rightarrow> None | x # xs \<Rightarrow> Some (x, xs))"

definition queue_size :: "'a list \<Rightarrow> nat" where
  "queue_size q = length q"

section \<open>The plugin\<close>

definition is_downloading :: "nat \<Rightarrow> nat \<Rightarrow> connection \<Rightarrow> bool" where
  "is_downloading piece_idx block_idx c =
     (case receiving c of None \<Rightarrow> False
      | Some pbp \<Rightarrow> pbp_piece pbp = piece_idx \<and> pbp_block pbp = block_idx \<and> bytes_downloaded pbp > 0)"

text \<open>
  The loop over the blocks: \<open>k\<close> is the position of the piece in the download queue, \<open>counter\<close> the
  number of requested blocks that are left. The result has the calls that were made; \<open>None\<close> is a
  null pointer that is followed.
\<close>

fun cancel_loop :: "(nat \<Rightarrow> piece_block \<Rightarrow> swarm \<Rightarrow> swarm) \<Rightarrow> bool \<Rightarrow> nat \<Rightarrow> nat \<Rightarrow> nat list \<Rightarrow> int \<Rightarrow> swarm \<Rightarrow>
    ((nat \<times> piece_block) list \<times> swarm) option" where
  "cancel_loop cancel force piece_idx k [] counter sw = Some ([], sw)"
| "cancel_loop cancel force piece_idx k (i # is) counter sw =
     (let info = block_of (fst sw) (m_downloads (fst sw) ! k) i;
          block = \<lparr>piece_index = piece_idx, block_index = i\<rparr>
      in if block_state info = state_requested
         then case peer info of None \<Rightarrow> None
           | Some p \<Rightarrow>
               let (calls, sw) =
                     (case snd sw p of None \<Rightarrow> ([], sw)
                      | Some c \<Rightarrow> if force \<or> \<not> is_downloading piece_idx i c then ([(p, block)], cancel p block sw) else ([], sw))
               in if counter - 1 = 0 then Some (calls, sw)
                  else map_option (\<lambda>(more, sw). (calls @ more, sw)) (cancel_loop cancel force piece_idx k is (counter - 1) sw)
         else cancel_loop cancel force piece_idx k is counter sw)"

definition cancel_request :: "(nat \<Rightarrow> piece_block \<Rightarrow> swarm \<Rightarrow> swarm) \<Rightarrow> bool \<Rightarrow> nat \<Rightarrow> swarm \<Rightarrow>
    ((nat \<times> piece_block) list \<times> swarm) option" where
  "cancel_request cancel force piece_idx sw =
     (case find_download (fst sw) piece_idx of None \<Rightarrow> Some ([], sw)
      | Some k \<Rightarrow>
          let dp = m_downloads (fst sw) ! k
          in if writing dp + finished dp = 0 then Some ([], sw)
             else cancel_loop cancel force piece_idx k [0..<blocks_in_piece (fst sw) piece_idx] (requested dp) sw)"

text \<open>\<open>tick\<close>: the tasks are popped until the queue is empty; the result has the calls that were made and the queue
  afterwards. A negative index is in no download queue.\<close>

function tick :: "(nat \<Rightarrow> piece_block \<Rightarrow> swarm \<Rightarrow> swarm) \<Rightarrow> bool \<Rightarrow> bool \<Rightarrow> cancel_piece list \<Rightarrow> swarm \<Rightarrow>
    ((nat \<times> piece_block) list \<times> cancel_piece list \<times> swarm) option" where
  "tick cancel has_picker torrent_finished tasks sw =
     (case queue_pop tasks of None \<Rightarrow> Some ([], tasks, sw)
      | Some (task, tasks') \<Rightarrow>
          if has_picker \<and> \<not> torrent_finished \<and> task_index task \<ge> 0
          then case cancel_request cancel (task_force task) (nat (task_index task)) sw of None \<Rightarrow> None
            | Some (calls, sw) \<Rightarrow> map_option (\<lambda>(more, left, sw). (calls @ more, left, sw)) (tick cancel has_picker torrent_finished tasks' sw)
          else tick cancel has_picker torrent_finished tasks' sw)"
  by pat_completeness auto

termination
  by (relation "measure (\<lambda>(_, _, _, tasks, _). length tasks)") (auto simp: queue_pop_def split: list.splits)

declare tick.simps [simp del]

section \<open>A canceller\<close>

text \<open>
  What the plugin relies on when it asks a connection to cancel a block: the picker either stays as
  it is or aborts the download of that block, no connection is made or lost, and none starts to
  receive another block.
\<close>

definition all_fast :: "swarm \<Rightarrow> bool" where
  "all_fast sw \<longleftrightarrow> (\<forall>c \<in> ran (snd sw). supports_fast c)"

definition still :: "connection option \<Rightarrow> (piece_block_progress option \<times> bool) option" where
  "still = map_option (\<lambda>c. (receiving c, supports_fast c))"

lemma still_receiving: "still c' = still c \<Longrightarrow> map_option receiving c' = map_option receiving c"
  by (cases c; cases c') (auto simp: still_def)

lemma still_fast:
  assumes "\<And>q. still (snd sw' q) = still (snd sw q)" "all_fast sw"
  shows "all_fast sw'"
proof -
  have "supports_fast c" if "snd sw' q = Some c" for q c
    using assms(1) [of q] assms(2) that by (cases "snd sw q") (auto simp: still_def all_fast_def ran_def)
  then show ?thesis by (auto simp: all_fast_def ran_def)
qed

locale canceller =
  fixes cancel :: "nat \<Rightarrow> piece_block \<Rightarrow> swarm \<Rightarrow> swarm"
  assumes cancel_picker: "all_fast sw \<Longrightarrow>
      fst (cancel p block sw) = fst sw \<or> (\<exists>r. fst (cancel p block sw) = abort_download r block (fst sw))"
    and cancel_connections: "all_fast sw \<Longrightarrow> still (snd (cancel p block sw) q) = still (snd sw q)"

interpretation tree: canceller "peer_cancel env r pick"
proof
  fix sw p block q assume fast: "all_fast sw"
  have f: "supports_fast c" if "snd sw p = Some c" for c using fast ranI [of "snd sw" p c, OF that] by (simp add: all_fast_def)
  show "fst (peer_cancel env r pick p block sw) = fst sw \<or>
      (\<exists>r'. fst (peer_cancel env r pick p block sw) = abort_download r' block (fst sw))"
    using f by (auto simp: peer_cancel_def at_peer_def connection_cancel_def write_cancel_def Let_def split: option.splits prod.splits if_splits)
  show "still (snd (peer_cancel env r pick p block sw) q) = still (snd sw q)"
    using f by (auto simp: peer_cancel_def at_peer_def connection_cancel_def write_cancel_def still_def Let_def
      split: option.splits prod.splits if_splits)
qed

section \<open>The loop\<close>

text \<open>The loop is at a piece with blocks that have arrived: its entry stays where it is.\<close>

definition at_piece :: "nat \<Rightarrow> nat \<Rightarrow> piece_picker \<Rightarrow> bool" where
  "at_piece x k pk \<longleftrightarrow> picker_inv pk \<and> x < num_pieces pk \<and> find_download pk x = Some k \<and> arrived (m_downloads pk ! k) \<noteq> 0"

lemma at_piece_entry:
  assumes "at_piece x k pk"
  shows "k < length (m_downloads pk)" "dp_index (m_downloads pk ! k) = x" "downloading (m_piece_map pk ! x)"
    "dl_ok (piece_blocks pk x) (m_downloads pk ! k)" "length (piece_blocks pk x) = blocks_in_piece pk x"
    "b < blocks_in_piece pk x \<Longrightarrow> block_of pk (m_downloads pk ! k) b = piece_blocks pk x ! b" "\<not> idle (piece_blocks pk x)"
    "progress pk x = Some (piece_blocks pk x)" "length (piece_blocks pk x) < 2 ^ 15"
proof -
  have a: "picker_inv pk" "x < num_pieces pk" "find_download pk x = Some k" "arrived (m_downloads pk ! k) \<noteq> 0"
    using assms by (auto simp: at_piece_def)
  show k: "k < length (m_downloads pk)" "dp_index (m_downloads pk ! k) = x"
    using find_index_Some [OF a(3) [unfolded find_download_def]] by auto
  then have "x \<in> dp_index ` set (m_downloads pk)" by auto
  then show d: "downloading (m_piece_map pk ! x)" and p: "progress pk x = Some (piece_blocks pk x)"
    using a progress_None [of pk x] by (auto simp: picker_inv_def marks_ok_def piece_blocks_def split: option.splits)
  note e = entry_of_piece [OF a(1,2) d]
  show "block_of pk (m_downloads pk ! k) b = piece_blocks pk x ! b" if "b < blocks_in_piece pk x"
    using e [OF that] a(3) by auto
  have all: "dl_ok (piece_blocks pk x) (m_downloads pk ! k) \<and> length (piece_blocks pk x) = blocks_in_piece pk x \<and>
      length (piece_blocks pk x) < 2 ^ 15"
    by (rule entry_of_piece [OF a(1,2) d blocks_in_piece_pos [OF a(1,2)]]) (use a(3) in simp)
  then show ok: "dl_ok (piece_blocks pk x) (m_downloads pk ! k)" by (rule conjunct1)
  show "length (piece_blocks pk x) = blocks_in_piece pk x" "length (piece_blocks pk x) < 2 ^ 15" using all by blast+
  have "0 \<le> finished (m_downloads pk ! k)" "0 \<le> writing (m_downloads pk ! k)" "0 \<le> requested (m_downloads pk ! k)"
    using ok by (simp_all add: dl_ok_def count_st_def)
  then have "finished (m_downloads pk ! k) + writing (m_downloads pk ! k) + requested (m_downloads pk ! k) \<noteq> 0"
    using a(4) unfolding arrived_def by linarith
  then show "\<not> idle (piece_blocks pk x)" by (simp only: idle_counters [OF ok] not_False_eq_True)
qed

lemma abort_stays:
  assumes at: "at_piece x k pk" and b: "b < blocks_in_piece pk x"
    and pk': "pk' = abort_download r \<lparr>piece_index = x, block_index = b\<rparr> pk"
  shows "at_piece x k pk'" "blocks_in_piece pk' = blocks_in_piece pk" "num_pieces pk' = num_pieces pk"
    "piece_blocks pk' x = (if block_state (piece_blocks pk x ! b) = state_requested
       then (piece_blocks pk x)[b := abort_block (piece_blocks pk x ! b)] else piece_blocks pk x)"
    "y \<noteq> x \<Longrightarrow> progress pk' y = progress pk y"
proof -
  note e = at_piece_entry [OF at]
  let ?dp = "m_downloads pk ! k" and ?info = "piece_blocks pk x ! b"
  have inv: "picker_inv pk" and x: "x < num_pieces pk" and fd: "find_download pk x = Some k" and ar: "arrived ?dp \<noteq> 0"
    using at by (auto simp: at_piece_def)
  note spec = abort_download_spec [OF inv, of "\<lparr>piece_index = x, block_index = b\<rparr>" r, simplified, OF x b, folded pk']
  have nonneg: "0 \<le> finished ?dp" "0 \<le> writing ?dp" using e(4) by (auto simp: dl_ok_def count_st_def)
  have wrap: "int16 (requested ?dp - 1) = requested ?dp - 1" using dl_ok_int16(4) [OF e(4)] b e(5,9) by simp
  have stay: "requested ?dp - 1 + finished ?dp + writing ?dp \<noteq> 0" if "block_state ?info = state_requested"
  proof -
    have "0 < requested ?dp" using dl_ok_count_pos [OF e(4), of b] that b e(5) by auto
    with nonneg ar show ?thesis by (simp add: arrived_def)
  qed
  have shape: "\<exists>dp'. m_downloads pk' = (m_downloads pk)[k := dp'] \<and> dp_index dp' = x \<and> arrived dp' = arrived ?dp \<and>
      num_pieces pk' = num_pieces pk \<and> blocks_in_piece pk' = blocks_in_piece pk"
  proof (cases "block_state ?info = state_requested")
    case False
    then have "pk' = pk" using spec by (simp add: Let_def)
    then show ?thesis using e(2) by (intro exI [of _ ?dp]) simp
  next
    case True
    let ?f = "\<lambda>dp. dp\<lparr>requested := int16 (requested dp - 1)\<rparr>"
    have "pk' = upd_block k b (\<lambda>info. info\<lparr>num_peers := num_peers info - 1\<rparr>) pk \<or>
      (\<exists>pk1 g. pk' = upd_download k g pk1 \<and> (\<exists>bi. pk1 = pk\<lparr>m_block_info := bi\<rparr>) \<and> (\<forall>dp. dp_index (g dp) = dp_index dp \<and> arrived (g dp) = arrived dp))"
    proof (cases "num_peers ?info - 1 > 0")
      case False
      define pk1 where "pk1 = upd_block k b (\<lambda>info. info\<lparr>peer := None, block_state := state_none\<rparr>)
        (upd_block k b (\<lambda>info. info\<lparr>num_peers := num_peers info - Suc 0\<rparr>) pk)"
      have d1: "m_downloads pk1 = m_downloads pk" by (simp add: pk1_def upd_block_def Let_def)
      have "pk' = (if requested ?dp - 1 = 0 then upd_download k (\<lambda>dp. (?f dp)\<lparr>dp_state := none\<rparr>) pk1 else upd_download k ?f pk1)"
        using True False stay [OF True] e(1,3) e(6) [OF b] fd wrap
        by (simp add: pk' abort_download_def Let_def pk1_def [symmetric]) (simp add: upd_download_def d1)
      moreover have "\<exists>bi. pk1 = pk\<lparr>m_block_info := bi\<rparr>" by (auto simp: pk1_def upd_block_def Let_def)
      ultimately show ?thesis
        by (intro disjI2 exI [of _ pk1] exI [of _ "if requested ?dp - 1 = 0 then \<lambda>dp. (?f dp)\<lparr>dp_state := none\<rparr> else ?f"])
          (auto simp: arrived_def)
    qed (use True e(3) e(6) [OF b] fd in \<open>simp add: pk' abort_download_def Let_def\<close>)
    then show ?thesis
    proof
      assume "pk' = upd_block k b (\<lambda>info. info\<lparr>num_peers := num_peers info - 1\<rparr>) pk"
      then show ?thesis using e(2) by (intro exI [of _ ?dp]) (simp add: upd_block_def Let_def)
    next
      assume "\<exists>pk1 g. pk' = upd_download k g pk1 \<and> (\<exists>bi. pk1 = pk\<lparr>m_block_info := bi\<rparr>) \<and> (\<forall>dp. dp_index (g dp) = dp_index dp \<and> arrived (g dp) = arrived dp)"
      then obtain bi g where "pk' = upd_download k g (pk\<lparr>m_block_info := bi\<rparr>)" "\<forall>dp. dp_index (g dp) = dp_index dp \<and> arrived (g dp) = arrived dp" by blast
      then show ?thesis using e(2) by (intro exI [of _ "g ?dp"]) (simp add: upd_download_def)
    qed
  qed
  then obtain dp' where sh: "m_downloads pk' = (m_downloads pk)[k := dp']" "dp_index dp' = x" "arrived dp' = arrived ?dp"
    and n: "num_pieces pk' = num_pieces pk" "blocks_in_piece pk' = blocks_in_piece pk"
    by blast
  from n show "num_pieces pk' = num_pieces pk" "blocks_in_piece pk' = blocks_in_piece pk" .
  have "find_download pk' x = Some k"
    using fd find_index_update [of "\<lambda>dp. dp_index dp = x" dp' "m_downloads pk" k] sh(1,2) e(2)
    by (simp add: find_download_def)
  then show "at_piece x k pk'" using spec x n sh e(1) ar by (simp add: at_piece_def)
  show "piece_blocks pk' x = (if block_state ?info = state_requested
       then (piece_blocks pk x)[b := abort_block ?info] else piece_blocks pk x)"
    and "y \<noteq> x \<Longrightarrow> progress pk' y = progress pk y"
  proof -
    have "\<not> idle (piece_blocks pk' x)" using at_piece_entry(7) \<open>at_piece x k pk'\<close> by blast
    then have ni: "progress pk' x \<noteq> None" using at_piece_entry(8) \<open>at_piece x k pk'\<close> by simp
    show "piece_blocks pk' x = (if block_state ?info = state_requested then (piece_blocks pk x)[b := abort_block ?info] else piece_blocks pk x)"
      using spec ni e(8) by (auto simp: Let_def piece_blocks_def [of pk'] split: if_splits)
    show "progress pk' y = progress pk y" if "y \<noteq> x"
      using spec that by (auto simp: Let_def split: if_splits)
  qed
qed

text \<open>No requested block has lost its peer: the loop follows the pointer to it.\<close>

definition peers_known :: "piece_picker \<Rightarrow> bool" where
  "peers_known pk \<longleftrightarrow> (\<forall>x bl. progress pk x = Some bl \<longrightarrow> (\<forall>b \<in> set bl. block_state b = state_requested \<longrightarrow> peer b \<noteq> None))"

text \<open>The blocks that a call of \<open>cancel_request\<close> cancels, with the peer it asks.\<close>

definition to_cancel :: "bool \<Rightarrow> nat \<Rightarrow> (nat \<Rightarrow> connection option) \<Rightarrow> block_info list \<Rightarrow> nat list \<Rightarrow> (nat \<times> piece_block) list" where
  "to_cancel force x conns bl is =
     concat (map (\<lambda>i. case peer (bl ! i) of None \<Rightarrow> []
       | Some p \<Rightarrow> if block_state (bl ! i) = state_requested \<and>
             (case conns p of None \<Rightarrow> False | Some c \<Rightarrow> force \<or> \<not> is_downloading x i c)
           then [(p, \<lparr>piece_index = x, block_index = i\<rparr>)] else []) is)"

lemma to_cancel_cong:
  assumes "\<And>q. map_option receiving (conns' q) = map_option receiving (conns q)" "\<forall>i \<in> set is. bl' ! i = bl ! i"
  shows "to_cancel force x conns' bl' is = to_cancel force x conns bl is"
proof -
  have "(case conns' p of None \<Rightarrow> False | Some c \<Rightarrow> force \<or> \<not> is_downloading x i c) =
      (case conns p of None \<Rightarrow> False | Some c \<Rightarrow> force \<or> \<not> is_downloading x i c)" for p i
    using assms(1) [of p] by (cases "conns p"; cases "conns' p") (auto simp: is_downloading_def)
  then show ?thesis unfolding to_cancel_def using assms(2) by (simp cong: map_cong option.case_cong)
qed

lemma to_cancel_none: "\<forall>i \<in> set is. block_state (bl ! i) \<noteq> state_requested \<Longrightarrow> to_cancel force x conns bl is = []"
  by (auto simp: to_cancel_def split: option.splits)

lemma to_cancel_index: "(p, b) \<in> set (to_cancel force x conns bl is) \<Longrightarrow> piece_index b = x \<and> block_index b \<in> set is"
  by (auto simp: to_cancel_def split: option.splits if_splits)

text \<open>How a list of blocks may change while blocks are cancelled.\<close>

definition cancelled :: "block_info list \<Rightarrow> block_info list \<Rightarrow> bool" where
  "cancelled bl bl' \<longleftrightarrow> length bl' = length bl \<and>
     (\<forall>i < length bl. block_state (bl' ! i) = state_requested \<longrightarrow> block_state (bl ! i) = state_requested \<and> peer (bl' ! i) = peer (bl ! i))"

lemma cancelled_refl [simp]: "cancelled bl bl"
  by (simp add: cancelled_def)

lemma cancelled_trans: "cancelled bl bl' \<Longrightarrow> cancelled bl' bl'' \<Longrightarrow> cancelled bl bl''"
  by (auto simp: cancelled_def)

lemma cancelled_abort: "block_state (bl ! i) = state_requested \<Longrightarrow> cancelled bl (bl[i := abort_block (bl ! i)])"
  by (cases "i < length bl") (auto simp: cancelled_def abort_block_def nth_list_update split: if_splits)

text \<open>What a run of the loop may do to the picker and the connections.\<close>

definition cancels :: "nat \<Rightarrow> nat \<Rightarrow> nat set \<Rightarrow> swarm \<Rightarrow> swarm \<Rightarrow> bool" where
  "cancels x k I sw sw' \<longleftrightarrow> at_piece x k (fst sw') \<and> blocks_in_piece (fst sw') = blocks_in_piece (fst sw) \<and>
     num_pieces (fst sw') = num_pieces (fst sw) \<and>
     cancelled (piece_blocks (fst sw) x) (piece_blocks (fst sw') x) \<and>
     (\<forall>i. i \<notin> I \<longrightarrow> piece_blocks (fst sw') x ! i = piece_blocks (fst sw) x ! i) \<and>
     (\<forall>y. y \<noteq> x \<longrightarrow> progress (fst sw') y = progress (fst sw) y) \<and>
     (\<forall>q. still (snd sw' q) = still (snd sw q))"

lemma cancels_refl: "at_piece x k (fst sw) \<Longrightarrow> cancels x k I sw sw"
  by (simp add: cancels_def)

lemma cancels_trans: "cancels x k I sw sw1 \<Longrightarrow> cancels x k J sw1 sw2 \<Longrightarrow> cancels x k (I \<union> J) sw sw2"
  by (auto simp: cancels_def intro: cancelled_trans)

lemma cancels_mono: "cancels x k I sw sw' \<Longrightarrow> I \<subseteq> J \<Longrightarrow> cancels x k J sw sw'"
  by (auto simp: cancels_def)

text \<open>The calls that \<open>cancel_request\<close> has to make: none unless some block of the piece has arrived.\<close>

definition cancel_calls :: "bool \<Rightarrow> nat \<Rightarrow> swarm \<Rightarrow> (nat \<times> piece_block) list" where
  "cancel_calls force x sw =
     (if \<exists>b \<in> set (piece_blocks (fst sw) x). block_state b = state_writing \<or> block_state b = state_finished
      then to_cancel force x (snd sw) (piece_blocks (fst sw) x) [0..<blocks_in_piece (fst sw) x] else [])"

lemma cancel_calls_same:
  assumes "\<forall>q. still (snd sw' q) = still (snd sw q)" "blocks_in_piece (fst sw') = blocks_in_piece (fst sw)"
    "progress (fst sw') y = progress (fst sw) y"
  shows "cancel_calls force y sw' = cancel_calls force y sw"
proof -
  have bl: "piece_blocks (fst sw') y = piece_blocks (fst sw) y" using assms(2,3) by (simp add: piece_blocks_def split: option.split)
  have "to_cancel force y (snd sw') (piece_blocks (fst sw) y) l = to_cancel force y (snd sw) (piece_blocks (fst sw) y) l" for l
    by (rule to_cancel_cong, rule still_receiving) (use assms(1) in simp_all)
  then show ?thesis using bl assms(2) by (simp add: cancel_calls_def)
qed

text \<open>The tasks of a queue, each handled in the state the one before it left: the calls of a task are those that its
  piece needs in that state. A task for a torrent that is finished, or with a negative index, does nothing.\<close>

definition serves :: "bool \<Rightarrow> cancel_piece \<Rightarrow> bool" where
  "serves active task \<longleftrightarrow> active \<and> task_index task \<ge> 0"

definition task_calls :: "bool \<Rightarrow> swarm \<Rightarrow> cancel_piece \<Rightarrow> (nat \<times> piece_block) list" where
  "task_calls active sw task = (if serves active task then cancel_calls (task_force task) (nat (task_index task)) sw else [])"

inductive handled :: "(nat \<Rightarrow> piece_block \<Rightarrow> swarm \<Rightarrow> swarm) \<Rightarrow> bool \<Rightarrow> swarm \<Rightarrow> cancel_piece list \<Rightarrow> (nat \<times> piece_block) list \<Rightarrow> swarm \<Rightarrow> bool"
  for cancel active where
  all_done: "handled cancel active sw [] [] sw"
| skipped: "\<not> serves active task \<Longrightarrow> handled cancel active sw tasks calls sw' \<Longrightarrow> handled cancel active sw (task # tasks) calls sw'"
| served: "serves active task \<Longrightarrow> cancel_request cancel (task_force task) (nat (task_index task)) sw = Some (task_calls active sw task, sw1) \<Longrightarrow>
    handled cancel active sw1 tasks calls sw' \<Longrightarrow> handled cancel active sw (task # tasks) (task_calls active sw task @ calls) sw'"

context canceller
begin

lemma cancel_cancels:
  assumes fast: "all_fast sw" and at: "at_piece x k (fst sw)" and i: "i < blocks_in_piece (fst sw) x"
  shows "cancels x k {i} sw (cancel p \<lparr>piece_index = x, block_index = i\<rparr> sw)"
proof -
  obtain r where "fst (cancel p \<lparr>piece_index = x, block_index = i\<rparr> sw) = fst sw \<or>
      fst (cancel p \<lparr>piece_index = x, block_index = i\<rparr> sw) = abort_download r \<lparr>piece_index = x, block_index = i\<rparr> (fst sw)"
    using cancel_picker [OF fast] by blast
  then show ?thesis
  proof
    assume "fst (cancel p \<lparr>piece_index = x, block_index = i\<rparr> sw) = fst sw"
    then show ?thesis using at cancel_connections [OF fast] by (simp add: cancels_def)
  next
    assume "fst (cancel p \<lparr>piece_index = x, block_index = i\<rparr> sw) = abort_download r \<lparr>piece_index = x, block_index = i\<rparr> (fst sw)"
    with abort_stays [OF at i this] cancel_connections [OF fast] show ?thesis
      by (auto simp: cancels_def cancelled_abort)
  qed
qed

lemma cancel_loop_spec:
  assumes "at_piece x k (fst sw)" "\<forall>i \<in> set is. i < blocks_in_piece (fst sw) x" "distinct is"
    "all_fast sw" "counter = int (length (filter (\<lambda>i. block_state (piece_blocks (fst sw) x ! i) = state_requested) is))"
    "\<forall>i \<in> set is. block_state (piece_blocks (fst sw) x ! i) = state_requested \<longrightarrow> peer (piece_blocks (fst sw) x ! i) \<noteq> None"
  shows "\<exists>sw'. cancel_loop cancel force x k is counter sw = Some (to_cancel force x (snd sw) (piece_blocks (fst sw) x) is, sw') \<and>
    cancels x k (block_index ` snd ` set (to_cancel force x (snd sw) (piece_blocks (fst sw) x) is)) sw sw'"
  using assms
proof (induction "is" arbitrary: counter sw)
  case Nil
  then show ?case by (simp add: to_cancel_def cancels_refl)
next
  case (Cons i "is")
  let ?bl = "piece_blocks (fst sw) x"
  have info: "block_of (fst sw) (m_downloads (fst sw) ! k) i = ?bl ! i"
    using at_piece_entry(6) [OF Cons.prems(1)] Cons.prems(2) by simp
  show ?case
  proof (cases "block_state (?bl ! i) = state_requested")
    case False
    then have "to_cancel force x (snd sw) ?bl (i # is) = to_cancel force x (snd sw) ?bl is"
      by (auto simp: to_cancel_def split: option.splits)
    then show ?thesis using Cons.IH [of sw counter] Cons.prems False info by simp
  next
    case True
    then obtain p where p: "peer (?bl ! i) = Some p" using Cons.prems(6) by auto
    define calls where "calls = to_cancel force x (snd sw) ?bl [i]"
    define sw1 where "sw1 = (if calls = [] then sw else cancel p \<lparr>piece_index = x, block_index = i\<rparr> sw)"
    have step: "(case snd sw p of None \<Rightarrow> ([], sw)
        | Some c \<Rightarrow> if force \<or> \<not> is_downloading x i c then ([(p, \<lparr>piece_index = x, block_index = i\<rparr>)], cancel p \<lparr>piece_index = x, block_index = i\<rparr> sw) else ([], sw)) =
        (calls, sw1)"
      using p True by (auto simp: calls_def sw1_def to_cancel_def split: option.splits)
    have c1: "cancels x k (block_index ` snd ` set calls) sw sw1"
    proof (cases "calls = []")
      case False
      then have "calls = [(p, \<lparr>piece_index = x, block_index = i\<rparr>)]" using p by (auto simp: calls_def to_cancel_def split: if_splits)
      then show ?thesis using cancel_cancels [OF Cons.prems(4,1)] Cons.prems(2) by (simp add: sw1_def)
    qed (simp add: sw1_def cancels_refl Cons.prems(1))
    let ?bl1 = "piece_blocks (fst sw1) x"
    have "block_index ` snd ` set calls \<subseteq> {i}" using to_cancel_index unfolding calls_def by fastforce
    then have out: "j \<notin> block_index ` snd ` set calls" if "j \<in> set is" for j using Cons.prems(3) that by auto
    have same: "\<forall>j \<in> set is. ?bl1 ! j = ?bl ! j" using c1 out by (simp add: cancels_def)
    have more: "to_cancel force x (snd sw1) ?bl1 is = to_cancel force x (snd sw) ?bl is"
      by (rule to_cancel_cong, rule still_receiving) (use c1 same in \<open>auto simp: cancels_def\<close>)
    have fast1: "all_fast sw1" by (rule still_fast [OF _ Cons.prems(4)]) (use c1 in \<open>simp add: cancels_def\<close>)
    have all: "to_cancel force x (snd sw) ?bl (i # is) = calls @ to_cancel force x (snd sw) ?bl is"
      by (simp add: to_cancel_def calls_def)
    have len: "counter - 1 = int (length (filter (\<lambda>i. block_state (?bl1 ! i) = state_requested) is))"
      using Cons.prems(5) True same by (simp cong: filter_cong)
    show ?thesis
    proof (cases "counter - 1 = 0")
      case fin: True
      then have "to_cancel force x (snd sw) ?bl is = []"
        using len same by (intro to_cancel_none) (auto simp: filter_empty_conv)
      then show ?thesis using c1 all True p info step fin by simp
    next
      case False
      obtain sw' where sw': "cancel_loop cancel force x k is (counter - 1) sw1 = Some (to_cancel force x (snd sw1) ?bl1 is, sw')"
        "cancels x k (block_index ` snd ` set (to_cancel force x (snd sw1) ?bl1 is)) sw1 sw'"
        using Cons.IH [OF _ _ _ fast1 len] c1 Cons.prems(2,3,6) same by (auto simp: cancels_def)
      then have "cancels x k (block_index ` snd ` set (calls @ to_cancel force x (snd sw) ?bl is)) sw sw'"
        using cancels_trans [OF c1] more by (simp add: image_Un)
      then show ?thesis using all True p info step False sw'(1) more by simp
    qed
  qed
qed

lemma cancel_request_spec:
  assumes inv: "picker_inv (fst sw)" and known: "peers_known (fst sw)" and fast: "all_fast sw"
    and calls_def: "calls = cancel_calls force x sw"
  shows "\<exists>sw'. cancel_request cancel force x sw = Some (calls, sw') \<and> picker_inv (fst sw') \<and> peers_known (fst sw') \<and> all_fast sw' \<and>
    (\<forall>y. y \<noteq> x \<longrightarrow> progress (fst sw') y = progress (fst sw) y) \<and>
    (\<forall>i. i \<notin> block_index ` snd ` set calls \<longrightarrow> piece_blocks (fst sw') x ! i = piece_blocks (fst sw) x ! i) \<and>
    (\<forall>q. still (snd sw' q) = still (snd sw q)) \<and> blocks_in_piece (fst sw') = blocks_in_piece (fst sw)"
proof (cases "find_download (fst sw) x")
  case None
  then have "x \<notin> dp_index ` set (m_downloads (fst sw))" by (auto simp: find_download_def find_index_None)
  then have "piece_blocks (fst sw) x = replicate (blocks_in_piece (fst sw) x) new_block"
    by (simp add: piece_blocks_def progress_None [THEN iffD2])
  then have "calls = []" by (auto simp: calls_def cancel_calls_def new_block_def)
  with None inv known fast show ?thesis by (auto simp: cancel_request_def)
next
  case (Some k)
  let ?pk = "fst sw" and ?dp = "m_downloads (fst sw) ! k" and ?bl = "piece_blocks (fst sw) x"
  have k: "k < length (m_downloads ?pk)" "dp_index ?dp = x"
    using find_index_Some [OF Some [unfolded find_download_def]] by auto
  have x: "x < num_pieces ?pk" using inv k by (auto simp: picker_inv_def table_core_def)
  have d: "downloading (m_piece_map ?pk ! x)" using inv k x by (auto simp: picker_inv_def marks_ok_def)
  have ok: "dl_ok ?bl ?dp" using entry_of_piece [OF inv x d blocks_in_piece_pos [OF inv x]] Some by auto
  have arr: "writing ?dp + finished ?dp = 0 \<longleftrightarrow> \<not> (\<exists>b \<in> set ?bl. block_state b = state_writing \<or> block_state b = state_finished)"
    using ok by (auto simp: dl_ok_def count_st_def add_nonneg_eq_0_iff filter_empty_conv)
  show ?thesis
  proof (cases "writing ?dp + finished ?dp = 0")
    case True
    then show ?thesis using Some arr inv known fast by (auto simp: cancel_request_def calls_def cancel_calls_def)
  next
    case False
    have at: "at_piece x k ?pk" using inv x Some False by (auto simp: at_piece_def arrived_def)
    note e = at_piece_entry [OF at]
    have cnt: "requested ?dp = int (length (filter (\<lambda>i. block_state (?bl ! i) = state_requested) [0..<blocks_in_piece ?pk x]))"
    proof -
      have "length (filter P ?bl) = length (filter (\<lambda>i. P (?bl ! i)) [0..<length ?bl])" for P
        by (subst map_nth [of ?bl, symmetric], subst filter_map) (simp add: comp_def)
      then show ?thesis using ok e(5) by (simp add: dl_ok_def count_st_def)
    qed
    have "\<forall>b \<in> set ?bl. block_state b = state_requested \<longrightarrow> peer b \<noteq> None" using known e(8) by (auto simp: peers_known_def)
    then have "\<forall>i \<in> set [0..<blocks_in_piece ?pk x]. block_state (?bl ! i) = state_requested \<longrightarrow> peer (?bl ! i) \<noteq> None"
      using e(5) by simp
    note peers = this
    have calls: "calls = to_cancel force x (snd sw) ?bl [0..<blocks_in_piece ?pk x]" using False arr by (simp add: calls_def cancel_calls_def)
    obtain sw' where sw': "cancel_loop cancel force x k [0..<blocks_in_piece ?pk x] (requested ?dp) sw = Some (calls, sw')"
      "cancels x k (block_index ` snd ` set calls) sw sw'"
      using cancel_loop_spec [OF at _ _ fast cnt peers, of force] unfolding calls by auto
    have "peers_known (fst sw')"
      unfolding peers_known_def
    proof (intro allI impI ballI)
      fix y bl b assume bl: "progress (fst sw') y = Some bl" and b: "b \<in> set bl" "block_state b = state_requested"
      show "peer b \<noteq> None"
      proof (cases "y = x")
        case True
        then have "bl = piece_blocks (fst sw') x" using bl by (simp add: piece_blocks_def)
        then obtain i where i: "i < length ?bl" "b = bl ! i" "block_state (?bl ! i) = state_requested" "peer b = peer (?bl ! i)"
          using b sw'(2) by (auto simp: cancels_def cancelled_def in_set_conv_nth)
        then show ?thesis using known e(8) by (auto simp: peers_known_def)
      next
        case False
        then show ?thesis using bl b known sw'(2) by (auto simp: cancels_def peers_known_def)
      qed
    qed
    moreover have "all_fast sw'" by (rule still_fast [OF _ fast]) (use sw'(2) in \<open>simp add: cancels_def\<close>)
    ultimately show ?thesis using sw' Some False by (auto simp: cancel_request_def cancels_def at_piece_def)
  qed
qed

lemma tick_spec:
  assumes "picker_inv (fst sw)" "peers_known (fst sw)" "all_fast sw"
  shows "\<exists>calls sw'. tick cancel hp tf tasks sw = Some (calls, [], sw') \<and> handled cancel (hp \<and> \<not> tf) sw tasks calls sw' \<and>
    (distinct (map task_index tasks) \<longrightarrow> calls = concat (map (task_calls (hp \<and> \<not> tf) sw) tasks)) \<and>
    picker_inv (fst sw') \<and> peers_known (fst sw') \<and>
    (\<forall>y. (\<forall>task \<in> set tasks. task_index task \<noteq> int y) \<longrightarrow> progress (fst sw') y = progress (fst sw) y)"
  using assms
proof (induction tasks arbitrary: sw)
  case Nil
  then show ?case by (simp add: tick.simps queue_pop_def handled.all_done)
next
  case (Cons task tasks)
  let ?active = "hp \<and> \<not> tf"
  show ?case
  proof (cases "serves ?active task")
    case False
    then have "tick cancel hp tf (task # tasks) sw = tick cancel hp tf tasks sw"
      by (subst tick.simps) (auto simp: queue_pop_def serves_def)
    moreover have "task_calls ?active sw task = []" using False by (simp add: task_calls_def)
    ultimately show ?thesis using Cons.IH [OF Cons.prems] False by (auto intro: handled.skipped)
  next
    case True
    let ?x = "nat (task_index task)"
    have calls: "task_calls ?active sw task = cancel_calls (task_force task) ?x sw" using True by (simp add: task_calls_def)
    obtain sw1 where 1: "cancel_request cancel (task_force task) ?x sw = Some (task_calls ?active sw task, sw1)"
      "picker_inv (fst sw1)" "peers_known (fst sw1)" "all_fast sw1" "\<forall>y. y \<noteq> ?x \<longrightarrow> progress (fst sw1) y = progress (fst sw) y"
      "\<forall>q. still (snd sw1 q) = still (snd sw q)" "blocks_in_piece (fst sw1) = blocks_in_piece (fst sw)"
      using cancel_request_spec [OF Cons.prems refl] unfolding calls by blast
    obtain more sw' where 2: "tick cancel hp tf tasks sw1 = Some (more, [], sw')" "handled cancel ?active sw1 tasks more sw'"
      "distinct (map task_index tasks) \<Longrightarrow> more = concat (map (task_calls ?active sw1) tasks)" "picker_inv (fst sw')" "peers_known (fst sw')"
      "\<forall>y. (\<forall>task \<in> set tasks. task_index task \<noteq> int y) \<longrightarrow> progress (fst sw') y = progress (fst sw1) y"
      using Cons.IH [OF 1(2-4)] by blast
    have "tick cancel hp tf (task # tasks) sw = Some (task_calls ?active sw task @ more, [], sw')"
      using True 1(1) 2(1) by (subst tick.simps) (simp add: queue_pop_def serves_def)
    moreover have "handled cancel ?active sw (task # tasks) (task_calls ?active sw task @ more) sw'"
      by (rule handled.served [OF True 1(1) 2(2)])
    moreover have "more = concat (map (task_calls ?active sw) tasks)" if d: "distinct (map task_index (task # tasks))"
    proof -
      have "task_calls ?active sw1 t = task_calls ?active sw t" if t: "t \<in> set tasks" for t
      proof (cases "serves ?active t")
        case s: True
        have "task_index t \<noteq> task_index task" using d imageI [OF t, of task_index] by auto
        then have "nat (task_index t) \<noteq> ?x" using s True by (simp add: serves_def eq_nat_nat_iff)
        then show ?thesis using s cancel_calls_same [of sw1 sw "nat (task_index t)"] 1(5-7) by (simp add: task_calls_def)
      qed (simp add: task_calls_def)
      then show ?thesis using 2(3) d by (simp cong: map_cong)
    qed
    moreover have "y \<noteq> ?x" if "task_index task \<noteq> int y" for y using that True by (auto simp: serves_def)
    ultimately show ?thesis using 1(5) 2(4-6) by auto
  qed
qed

end

section \<open>What the plugin does\<close>


text \<open>A picker in which the first block of piece 0 is being written and the second is requested.\<close>

definition demo_waiting :: connection where
  "demo_waiting = \<lparr>request_queue = [new_pending \<lparr>piece_index = 0, block_index = 1\<rparr>], download_queue = [], queued_time_critical = 0,
     outstanding_bytes = 0, max_queue_size = 2, endgame_mode = False, peer_choked = False, interesting = True, parole = False,
     snubbed = False, no_download = False, upload_only = False, bitfield_received = True, disconnecting = False,
     supports_fast = True, request_large_blocks = False, allowed_fast = [], suggested_pieces = [], peer_pieces = [True, True, True],
     whole_pieces = 0, timeout_extend = 0, receiving = None, receiving_block = None, download_rate = 0, conn_speed = slow, sent = []\<rparr>"

definition demo_cancel :: swarm where
  "demo_cancel = (snd (mark_as_downloading 5 \<lparr>piece_index = 0, block_index = 1\<rparr> (Some 9) fast demo_writing),
     (\<lambda>_. None)(9 \<mapsto> demo_waiting))"

lemma peers_knownI:
  assumes "\<forall>dp \<in> set (m_downloads pk). \<forall>b \<in> set (blocks_of pk dp). block_state b = state_requested \<longrightarrow> peer b \<noteq> None"
  shows "peers_known pk"
  using assms by (auto simp: peers_known_def progress_def dest!: map_of_SomeD)

lemma demo_cancel_ok: "picker_inv (fst demo_cancel)" "peers_known (fst demo_cancel)" "all_fast demo_cancel"
proof -
  have "piece_index \<lparr>piece_index = 0, block_index = 1\<rparr> < num_pieces demo_writing"
    "block_index \<lparr>piece_index = 0, block_index = 1\<rparr> < blocks_in_piece demo_writing 0" "\<not> have_piece demo_writing 0"
    "num_peers (piece_blocks demo_writing 0 ! 1) + 1 < 2 ^ 14"
    by code_simp+
  then have "reachable (fst demo_cancel)"
    unfolding demo_cancel_def fst_conv
    by (intro reachable_step [OF demo_writing_reachable picker_step.mark_as_downloading]) auto
  then show "picker_inv (fst demo_cancel)" by (rule reachable_inv)
  show "peers_known (fst demo_cancel)" by (rule peers_knownI) code_simp
  show "all_fast demo_cancel" by (simp add: all_fast_def demo_cancel_def demo_waiting_def)
qed




definition demo_orphan :: piece_picker where
  "demo_orphan =
     (let b = \<lparr>piece_index = 0, block_index = 1\<rparr>;
          pk = snd (mark_as_downloading 5 b (Some 8) fast demo_writing);
          pk = snd (mark_as_downloading 5 b (Some 9) fast pk)
      in clear_peer (Some 9) (abort_download 5 b pk))"

lemma demo_orphan_reachable: "reachable demo_orphan"
proof -
  define b :: piece_block where "b = \<lparr>piece_index = 0, block_index = 1\<rparr>"
  define pk1 where "pk1 = snd (mark_as_downloading 5 b (Some 8) fast demo_writing)"
  define pk2 where "pk2 = snd (mark_as_downloading 5 b (Some 9) fast pk1)"
  note defs = b_def pk1_def pk2_def
  have "piece_index b < num_pieces demo_writing \<and> block_index b < blocks_in_piece demo_writing (piece_index b) \<and>
      \<not> have_piece demo_writing (piece_index b) \<and> num_peers (piece_blocks demo_writing (piece_index b) ! block_index b) + 1 < 2 ^ 14"
    unfolding defs by code_simp
  then have 1: "reachable pk1"
    unfolding pk1_def by (intro reachable_step [OF demo_writing_reachable picker_step.mark_as_downloading]) auto
  have "piece_index b < num_pieces pk1 \<and> block_index b < blocks_in_piece pk1 (piece_index b) \<and>
      \<not> have_piece pk1 (piece_index b) \<and> num_peers (piece_blocks pk1 (piece_index b) ! block_index b) + 1 < 2 ^ 14"
    unfolding defs by code_simp
  then have 2: "reachable pk2"
    unfolding pk2_def by (intro reachable_step [OF 1 picker_step.mark_as_downloading]) auto
  have "piece_index b < num_pieces pk2 \<and> block_index b < blocks_in_piece pk2 (piece_index b)"
    unfolding defs by code_simp
  then have "reachable (abort_download 5 b pk2)" by (intro reachable_step [OF 2 picker_step.abort_download]) auto
  then have "reachable (clear_peer (Some 9) (abort_download 5 b pk2))"
    by (rule reachable_step [OF _ picker_step.clear_peer])
  then show ?thesis by (simp add: demo_orphan_def pk1_def pk2_def b_def Let_def)
qed

text \<open>
  The picker forgets a peer that leaves (\<open>clear_peer\<close>) in blocks that other peers have still
  requested, too; \<open>cancel_request\<close> then follows the null pointer. Piece 0 of the picker here has a
  block that is being written and one that was requested by two peers, of which the one that asked
  last has gone.
\<close>

theorem cancel_request_null_peer:
  "reachable demo_orphan \<and> cancel_request cancel force 0 (demo_orphan, conns) = None"
proof -
  have v: "find_download demo_orphan 0 = Some 0" "blocks_in_piece demo_orphan 0 = 2"
    "writing (m_downloads demo_orphan ! 0) + finished (m_downloads demo_orphan ! 0) = 1"
    "block_state (block_of demo_orphan (m_downloads demo_orphan ! 0) 0) = state_writing"
    "block_state (block_of demo_orphan (m_downloads demo_orphan ! 0) (Suc 0)) = state_requested"
    "peer (block_of demo_orphan (m_downloads demo_orphan ! 0) (Suc 0)) = None"
    by code_simp+
  have "[0..<2] = [0, Suc 0]" by (simp add: upt_rec)
  then show ?thesis using v demo_orphan_reachable by (simp add: cancel_request_def)
qed

end
