(* ===== verification/Player_Session.thy ===== *)
theory Player_Session
  imports Stream_Plugin Piece_Data_Queue "HOL-Library.Word"
begin

text \<open>
  The native functions of class \<open>LibTorrent\<close> that Java calls (\<open>jni/libtorrent.cpp\<close>): how a call
  finds its torrent, what it answers, and what happens to the table of torrents when the handle of a
  torrent throws. What the handle answers is a field of the torrent here, which the session changes
  at will; \<open>None\<close> is a handle that throws.
\<close>

section \<open>Calls\<close>

text \<open>The string with the hash: null, too short, or the key it is the hexadecimal form of.\<close>

datatype hash_arg = Null | Short | Hash nat

datatype 'r jni = Value 'r | Null_Pointer_Exception | Torrent_Exception | Undefined_Behaviour

datatype 'a outcome = Returned 'a | Threw | Bad_Access

record 't session =
  session_state :: bool
  torrents :: "(nat \<times> 't) list"

text \<open>\<open>HASH_ASSERT\<close>, \<open>GetTorrentInfo\<close> and the handler for exceptions that all calls have.\<close>

definition with_torrent :: "hash_arg \<Rightarrow> 'r \<Rightarrow> ('t \<Rightarrow> ('t \<times> 'r) outcome) \<Rightarrow> 't session \<Rightarrow> 't session \<times> 'r jni" where
  "with_torrent hash failed body s =
     (case hash of Null \<Rightarrow> (s, Null_Pointer_Exception)
      | Short \<Rightarrow> (s, Torrent_Exception)
      | Hash h \<Rightarrow>
          if \<not> session_state s then (s, Value failed)
          else case map_of (torrents s) h of None \<Rightarrow> (s, Torrent_Exception)
            | Some t \<Rightarrow>
                (case body t of
                   Returned (t', r) \<Rightarrow> (s\<lparr>torrents := AList.update h t' (torrents s)\<rparr>, Value r)
                 | Threw \<Rightarrow> (s\<lparr>torrents := AList.delete h (torrents s)\<rparr>, Value failed)
                 | Bad_Access \<Rightarrow> (s, Undefined_Behaviour)))"

section \<open>Bit fields\<close>

record bitfield =
  bf_bytes :: "8 word list"
  bf_size :: nat

definition get_bit :: "bitfield \<Rightarrow> nat \<Rightarrow> bool" where
  "get_bit b index \<longleftrightarrow> bit (bf_bytes b ! (index div 8)) (7 - index mod 8)"

definition bitfield_ok :: "bitfield \<Rightarrow> bool" where
  "bitfield_ok b \<longleftrightarrow> length (bf_bytes b) = (bf_size b + 7) div 8"

section \<open>A torrent\<close>

datatype state_t = queued_for_checking | checking_files | downloading_metadata | downloading_state | finished_state
  | seeding | allocating | checking_resume_data

record torrent_status =
  ts_state :: state_t
  ts_pieces :: bitfield
  ts_has_metadata :: bool
  ts_paused :: bool
  ts_auto_managed :: bool
  ts_piece_length :: "32 word"
  ts_num_pieces :: "32 word"
  ts_total_size :: "64 word"
  ts_files :: "(int \<times> int) list"

text \<open>The sizes and the progress of the files are the pairs of \<open>ts_files\<close>.\<close>

record torrent_info =
  handle :: "torrent_status option"
  pieceTransferIdx :: int
  firstPieceIncompleteIdx :: int
  cancel_piece_tasks :: "cancel_piece list"

text \<open>A query that asks the handle and leaves the torrent as it is.\<close>

definition ask :: "(torrent_status \<Rightarrow> 'r outcome) \<Rightarrow> torrent_info \<Rightarrow> (torrent_info \<times> 'r) outcome" where
  "ask q t = (case handle t of None \<Rightarrow> Threw
     | Some s \<Rightarrow> (case q s of Returned r \<Rightarrow> Returned (t, r) | Threw \<Rightarrow> Threw | Bad_Access \<Rightarrow> Bad_Access))"

text \<open>The loop of \<open>getFirstPieceIncomplete\<close>.\<close>

function skip_complete :: "bitfield \<Rightarrow> nat \<Rightarrow> nat" where
  "skip_complete b i = (if i < bf_size b \<and> get_bit b i then skip_complete b (Suc i) else i)"
  by pat_completeness auto

termination
  by (relation "measure (\<lambda>(b, i). bf_size b - i)") auto

declare skip_complete.simps [simp del]

definition first_incomplete :: "int \<Rightarrow> torrent_info \<Rightarrow> (torrent_info \<times> int) outcome" where
  "first_incomplete pieceIdx t =
     (case handle t of None \<Rightarrow> Threw
      | Some s \<Rightarrow>
          if \<not> ts_has_metadata s then Returned (t, -1)
          else if ts_state s = seeding then Returned (t, sint (ts_num_pieces s))
          else if bf_size (ts_pieces s) = 0 then Returned (t, -1)
          else
            let inside = (pieceTransferIdx t \<le> pieceIdx \<and> pieceIdx \<le> firstPieceIncompleteIdx t);
                i = (if inside then firstPieceIncompleteIdx t else pieceIdx)
            in if i < 0 then Bad_Access
               else
                 let i = int (skip_complete (ts_pieces s) (nat i));
                     t = (if i > pieceIdx
                          then if \<not> inside then t\<lparr>pieceTransferIdx := pieceIdx, firstPieceIncompleteIdx := i\<rparr>
                               else if i > firstPieceIncompleteIdx t then t\<lparr>firstPieceIncompleteIdx := i\<rparr>
                               else t
                          else t)
                 in Returned (t, i))"

definition getFirstPieceIncomplete :: "hash_arg \<Rightarrow> int \<Rightarrow> torrent_info session \<Rightarrow> torrent_info session \<times> int jni" where
  "getFirstPieceIncomplete hash pieceIdx = with_torrent hash (-1) (first_incomplete pieceIdx)"

text \<open>
  \<open>getPieceState\<close> with the bytes it copies into the array of Java, which has \<open>cap\<close> bytes. The shift
  binds less tightly than the subtraction: the number of bytes that are left is computed as
  \<open>(size + 7) >> (3 - fromIdx)\<close>.
\<close>

definition piece_state :: "int \<Rightarrow> int \<Rightarrow> nat \<Rightarrow> torrent_status \<Rightarrow> (int \<times> 8 word list) outcome" where
  "piece_state fromIdx len cap s =
     (if \<not> ts_has_metadata s then Returned (-1, [])
      else if ts_state s = seeding
      then if len < 0 \<or> len > int cap then Bad_Access else Returned (len, replicate (nat len) 255)
      else if bf_size (ts_pieces s) = 0 then Returned (-1, [])
      else if 3 - fromIdx < 0 \<or> 3 - fromIdx \<ge> 32 then Bad_Access
      else
        let i = (int (bf_size (ts_pieces s)) + 7) div 2 ^ nat (3 - fromIdx);
            len = (if len > i then i else len)
        in if len < 0 \<or> len > int cap \<or> fromIdx < 0 \<or> fromIdx + len > int (length (bf_bytes (ts_pieces s)))
           then Bad_Access
           else Returned (len, take (nat len) (drop (nat fromIdx) (bf_bytes (ts_pieces s)))))"

definition getPieceState :: "hash_arg \<Rightarrow> int \<Rightarrow> int \<Rightarrow> nat \<Rightarrow> torrent_info session \<Rightarrow> torrent_info session \<times> (int \<times> 8 word list) jni" where
  "getPieceState hash fromIdx len cap = with_torrent hash (-1, []) (ask (piece_state fromIdx len cap))"

definition getPieceNum :: "hash_arg \<Rightarrow> torrent_info session \<Rightarrow> torrent_info session \<times> int jni" where
  "getPieceNum hash = with_torrent hash (-1) (ask (\<lambda>s. Returned (sint (ts_num_pieces s))))"

text \<open>The size of the last piece: the product is of the type \<open>int\<close>, the difference has 64 bits and is cut to 32.\<close>

definition piece_size_of :: "bool \<Rightarrow> torrent_status \<Rightarrow> 32 word" where
  "piece_size_of isLast s =
     (if isLast then ucast (ts_total_size s - scast (ts_piece_length s * (ts_num_pieces s - 1))) else ts_piece_length s)"

definition getPieceSize :: "hash_arg \<Rightarrow> bool \<Rightarrow> torrent_info session \<Rightarrow> torrent_info session \<times> int jni" where
  "getPieceSize hash isLast = with_torrent hash (-1) (ask (\<lambda>s. Returned (sint (piece_size_of isLast s))))"

fun state_code :: "state_t \<Rightarrow> int" where
  "state_code queued_for_checking = 0" | "state_code checking_files = 1" | "state_code downloading_metadata = 2"
| "state_code downloading_state = 3" | "state_code finished_state = 4" | "state_code seeding = 5"
| "state_code allocating = 6" | "state_code checking_resume_data = 7"

definition getTorrentState :: "hash_arg \<Rightarrow> torrent_info session \<Rightarrow> torrent_info session \<times> int jni" where
  "getTorrentState hash = with_torrent hash (-1) (ask (\<lambda>s. Returned
     (if ts_paused s \<and> ts_auto_managed s then 8
      else if ts_paused s \<and> \<not> ts_auto_managed s then 9
      else state_code (ts_state s))))"

text \<open>Progress, in thousandths and in bytes. A torrent without files divides by zero.\<close>

definition file_permille :: "int \<times> int \<Rightarrow> int" where
  "file_permille f = (if fst f > 0 then snd f * 1000 div fst f else 1000)"

definition torrent_progress :: "bool \<Rightarrow> torrent_status \<Rightarrow> int outcome" where
  "torrent_progress has_all s =
     (if ts_has_metadata s \<and> \<not> has_all
      then if ts_files s = [] then Bad_Access
           else Returned (foldl (\<lambda>result f. result + file_permille f) 0 (ts_files s) div int (length (ts_files s)))
      else if ts_has_metadata s then Returned 1000
      else Returned (-1))"

definition getTorrentProgress :: "hash_arg \<Rightarrow> bool \<Rightarrow> torrent_info session \<Rightarrow> torrent_info session \<times> int jni" where
  "getTorrentProgress hash has_all = with_torrent hash (-1) (ask (torrent_progress has_all))"

definition progress_size :: "bool \<Rightarrow> torrent_status \<Rightarrow> int" where
  "progress_size has_all s =
     (if ts_has_metadata s \<and> \<not> has_all
      then let bytes = foldl (\<lambda>n f. if fst f > 0 then n + snd f else n) 0 (ts_files s) in if bytes \<ge> 0 then bytes else -1
      else if ts_has_metadata s then if sint (ts_total_size s) > 0 then sint (ts_total_size s) else -1
      else -1)"

definition getTorrentProgressSize :: "hash_arg \<Rightarrow> bool \<Rightarrow> torrent_info session \<Rightarrow> torrent_info session \<times> int jni" where
  "getTorrentProgressSize hash has_all = with_torrent hash (-1) (ask (\<lambda>s. Returned (progress_size has_all s)))"

definition cancelTorrentPiece :: "hash_arg \<Rightarrow> int \<Rightarrow> bool \<Rightarrow> torrent_info session \<Rightarrow> torrent_info session \<times> unit jni" where
  "cancelTorrentPiece hash pieceIdx force = with_torrent hash ()
     (\<lambda>t. Returned (t\<lparr>cancel_piece_tasks := queue_push \<lparr>task_index = pieceIdx, task_force = force\<rparr> (cancel_piece_tasks t)\<rparr>, ()))"

section \<open>The cache of downloaded pieces\<close>

lemma skip_complete_spec:
  "i \<le> skip_complete b i \<and> (\<forall>j. i \<le> j \<and> j < skip_complete b i \<longrightarrow> j < bf_size b \<and> get_bit b j) \<and>
   \<not> (skip_complete b i < bf_size b \<and> get_bit b (skip_complete b i))"
proof (induction b i rule: skip_complete.induct)
  case (1 b i)
  show ?case
  proof (cases "i < bf_size b \<and> get_bit b i")
    case True
    then have s: "skip_complete b i = skip_complete b (Suc i)" by (subst skip_complete.simps) simp
    have "j < bf_size b \<and> get_bit b j" if "i \<le> j" "j < skip_complete b (Suc i)" for j
      using that True 1 [OF True] by (cases "j = i") auto
    then show ?thesis using 1 [OF True] unfolding s by auto
  next
    case False
    then have "skip_complete b i = i" by (subst skip_complete.simps) auto
    with False show ?thesis by auto
  qed
qed

text \<open>The comment in \<open>torrentinfo.h\<close>: the pieces from \<open>pieceTransferIdx\<close> on and before
  \<open>firstPieceIncompleteIdx\<close> were downloaded.\<close>

definition cache_ok :: "torrent_info \<Rightarrow> bitfield \<Rightarrow> bool" where
  "cache_ok t b \<longleftrightarrow> 0 \<le> pieceTransferIdx t \<and> pieceTransferIdx t \<le> firstPieceIncompleteIdx t \<and>
     (\<forall>i. pieceTransferIdx t \<le> int i \<and> int i < firstPieceIncompleteIdx t \<longrightarrow> i < bf_size b \<and> get_bit b i)"

text \<open>The cache stays true while pieces are only added.\<close>

lemma cache_ok_grows:
  assumes "cache_ok t b" "bf_size b' = bf_size b" "\<forall>i < bf_size b. get_bit b i \<longrightarrow> get_bit b' i"
  shows "cache_ok t b'"
  using assms by (simp add: cache_ok_def)

text \<open>
  C39. Of a torrent that is being downloaded, \<open>getFirstPieceIncomplete\<close> returns the first piece from
  \<open>pieceIdx\<close> on that is not complete, or the number of pieces, as if it had looked at every piece,
  although it starts where the cache ends; and the cache is true again afterwards.
\<close>

theorem first_incomplete_cached:
  assumes "handle t = Some s" "ts_has_metadata s" "ts_state s \<noteq> seeding" "0 < bf_size (ts_pieces s)" "cache_ok t (ts_pieces s)"
  shows "\<exists>t' r. first_incomplete (int pieceIdx) t = Returned (t', int r) \<and> pieceIdx \<le> r \<and>
    (\<forall>j. pieceIdx \<le> j \<and> j < r \<longrightarrow> j < bf_size (ts_pieces s) \<and> get_bit (ts_pieces s) j) \<and>
    (r < bf_size (ts_pieces s) \<longrightarrow> \<not> get_bit (ts_pieces s) r) \<and> handle t' = handle t \<and> cache_ok t' (ts_pieces s)"
proof -
  let ?b = "ts_pieces s" and ?p = "pieceTransferIdx t" and ?f = "firstPieceIncompleteIdx t"
  define inside where "inside \<longleftrightarrow> ?p \<le> int pieceIdx \<and> int pieceIdx \<le> ?f"
  define i where "i = (if inside then nat ?f else pieceIdx)"
  have c: "0 \<le> ?p" "?p \<le> ?f" "\<And>i. ?p \<le> int i \<Longrightarrow> int i < ?f \<Longrightarrow> i < bf_size ?b \<and> get_bit ?b i"
    using assms(5) by (auto simp: cache_ok_def)
  have skip: "skip_complete ?b k = skip_complete ?b pieceIdx" if "pieceIdx \<le> k" "\<forall>j. pieceIdx \<le> j \<and> j < k \<longrightarrow> j < bf_size ?b \<and> get_bit ?b j" for k
    using that
  proof (induction k rule: dec_induct)
    case (step k)
    then have "k < bf_size ?b \<and> get_bit ?b k" by simp
    then have "skip_complete ?b k = skip_complete ?b (Suc k)" by (subst skip_complete.simps) simp
    with step show ?case by simp
  qed simp
  have same: "skip_complete ?b i = skip_complete ?b pieceIdx"
  proof (cases inside)
    case True
    then show ?thesis using c by (intro skip) (auto simp: i_def inside_def nat_le_iff zless_nat_eq_int_zless)
  qed (simp add: i_def)
  note sp = skip_complete_spec [of i ?b, unfolded same]
  have ige: "int i = (if inside then ?f else int pieceIdx)" using c by (auto simp: i_def)
  let ?r = "int (skip_complete ?b pieceIdx)"
  define t' where "t' = (if ?r > int pieceIdx
      then if \<not> inside then t\<lparr>pieceTransferIdx := int pieceIdx, firstPieceIncompleteIdx := ?r\<rparr>
           else if ?r > ?f then t\<lparr>firstPieceIncompleteIdx := ?r\<rparr> else t
      else t)"
  have "first_incomplete (int pieceIdx) t = Returned (t', ?r)"
    using assms(1-4) c(1,2) same ige unfolding first_incomplete_def t'_def inside_def
    by (auto simp: Let_def i_def inside_def)
  moreover have "cache_ok t' ?b"
  proof -
    have in_run: "j < bf_size ?b \<and> get_bit ?b j" if "int i \<le> int j" "int j < ?r" for j using sp that by simp
    show ?thesis
    proof (cases inside)
      case True
      have "j < bf_size ?b \<and> get_bit ?b j" if "?p \<le> int j" "int j < ?r" for j
        using c(3) [OF that(1)] in_run [OF _ that(2)] ige True by (cases "int j < ?f") auto
      then show ?thesis using assms(5) True c by (auto simp: t'_def cache_ok_def)
    next
      case False
      then show ?thesis using assms(5) in_run ige by (auto simp: t'_def cache_ok_def)
    qed
  qed
  moreover have "handle t' = handle t" by (simp add: t'_def)
  ultimately show ?thesis using skip_complete_spec [of pieceIdx ?b] by blast
qed

definition demo_status :: torrent_status where
  "demo_status = \<lparr>ts_state = downloading_state, ts_pieces = \<lparr>bf_bytes = [0xF7, 0x80], bf_size = 10\<rparr>, ts_has_metadata = True,
     ts_paused = False, ts_auto_managed = False, ts_piece_length = 16, ts_num_pieces = 10, ts_total_size = 155,
     ts_files = [(100, 64), (55, 23)]\<rparr>"

definition demo_torrent :: torrent_info where
  "demo_torrent = \<lparr>handle = Some demo_status, pieceTransferIdx = 0, firstPieceIncompleteIdx = 3, cancel_piece_tasks = []\<rparr>"

lemma demo_cache: "cache_ok demo_torrent (ts_pieces demo_status)"
proof -
  have "get_bit (ts_pieces demo_status) i" if "i \<in> {0, 1, 2}" for i
  proof -
    have "\<forall>i \<in> {0, 1, 2}. get_bit (ts_pieces demo_status) i" by code_simp
    then show ?thesis using that by blast
  qed
  moreover have "i \<in> {0, 1, 2}" if "int i < 3" for i using that by auto
  moreover have "bf_size (ts_pieces demo_status) = 10" by (simp add: demo_status_def)
  ultimately show ?thesis by (auto simp: cache_ok_def demo_torrent_def)
qed

theorem first_incomplete_cached_witness:
  "\<exists>t'. first_incomplete 1 demo_torrent = Returned (t', 4) \<and> cache_ok t' (ts_pieces demo_status)"
proof -
  have d: "handle demo_torrent = Some demo_status" "ts_has_metadata demo_status" "ts_state demo_status \<noteq> seeding"
    "0 < bf_size (ts_pieces demo_status)" by (simp_all add: demo_torrent_def demo_status_def)
  obtain t' r where r: "first_incomplete 1 demo_torrent = Returned (t', int r)" "cache_ok t' (ts_pieces demo_status)"
    using first_incomplete_cached [OF d demo_cache, of 1] by auto
  have "(case first_incomplete 1 demo_torrent of Returned (_, i) \<Rightarrow> i = 4 | _ \<Rightarrow> False)" by code_simp
  with r show ?thesis by auto
qed

text \<open>
  Of a torrent that is being downloaded, \<open>getPieceState\<close> copies the bytes of the bit field when
  \<open>fromIdx\<close> is 0. From any other byte on, a request and an array that are large enough make it read
  past the end of the bit field, or shift by a negative number: the expression
  \<open>(size + 7) >> 3 - fromIdx\<close> shifts by \<open>3 - fromIdx\<close>.
\<close>

theorem piece_state_reads:
  assumes "ts_has_metadata s" "ts_state s \<noteq> seeding" "0 < bf_size (ts_pieces s)" "bitfield_ok (ts_pieces s)"
    "int (bf_size (ts_pieces s)) + 7 \<le> len" "len \<le> int cap"
  shows "piece_state 0 len cap s = Returned (int (length (bf_bytes (ts_pieces s))), bf_bytes (ts_pieces s)) \<and>
    (\<forall>fromIdx > 0. piece_state fromIdx len cap s = Bad_Access)"
proof -
  let ?n = "int (bf_size (ts_pieces s))"
  have bytes: "int (length (bf_bytes (ts_pieces s))) = (?n + 7) div 8" using assms(4) by (simp add: bitfield_ok_def zdiv_int)
  have n: "?n > 0" using assms(3) by simp
  have "piece_state 0 len cap s = Returned (int (length (bf_bytes (ts_pieces s))), bf_bytes (ts_pieces s))"
  proof -
    have "length (bf_bytes (ts_pieces s)) = nat ((?n + 7) div 8)" using bytes by linarith
    then show ?thesis using assms n by (auto simp: piece_state_def Let_def)
  qed
  moreover have "piece_state fromIdx len cap s = Bad_Access" if "0 < fromIdx" for fromIdx
  proof -
    have "fromIdx = 1 \<or> fromIdx = 2 \<or> fromIdx = 3 \<or> fromIdx > 3" using that by presburger
    then consider "fromIdx = 1" | "fromIdx = 2" | "fromIdx = 3" | "fromIdx > 3" by blast
    then show ?thesis using assms n by cases (auto simp: piece_state_def Let_def bytes)
  qed
  ultimately show ?thesis by blast
qed

theorem piece_state_reads_witness:
  "piece_state 0 17 20 demo_status = Returned (2, [0xF7, 0x80]) \<and> piece_state 1 17 20 demo_status = Bad_Access"
  using piece_state_reads [of demo_status 17 20] by (simp add: demo_status_def bitfield_ok_def)

lemma int_le_div: "0 < n \<Longrightarrow> k \<le> m div n \<longleftrightarrow> k * n \<le> m" for k m n :: int
proof -
  assume n: "0 < n"
  have m: "m = m div n * n + m mod n" "0 \<le> m mod n" "m mod n < n" using n by simp_all
  show ?thesis
  proof
    assume "k \<le> m div n"
    then have "k * n \<le> m div n * n" using n by (intro mult_right_mono) simp_all
    then show "k * n \<le> m" using m by linarith
  next
    assume "k * n \<le> m"
    moreover have "m < m div n * n + n" using m by linarith
    ultimately have "k * n < (m div n + 1) * n" by (simp add: algebra_simps)
    then show "k \<le> m div n" using n by (simp add: mult_less_cancel_right)
  qed
qed

lemma permille_bounds:
  assumes "0 \<le> d" "d \<le> len"
  shows "0 \<le> file_permille (len, d)" "file_permille (len, d) \<le> 1000" "file_permille (len, d) = 1000 \<longleftrightarrow> d = len"
proof -
  have "d * 1000 div len < 1000" if "d < len" "0 < len"
  proof -
    have "d * 1000 < 1000 * len" using that by simp
    then show ?thesis using that int_le_div [of len 1000 "d * 1000"] by simp
  qed
  moreover have "0 \<le> d * 1000 div len" using assms by (simp add: div_int_pos_iff)
  moreover have "len * 1000 div len = 1000" if "0 < len" using that by simp
  ultimately show "0 \<le> file_permille (len, d)" "file_permille (len, d) \<le> 1000" "file_permille (len, d) = 1000 \<longleftrightarrow> d = len"
    using assms by (cases "d = len"; force simp: file_permille_def)+
qed

lemma sum_permille:
  fixes xs :: "int list"
  assumes "\<forall>x \<in> set xs. 0 \<le> x \<and> x \<le> 1000"
  shows "0 \<le> sum_list xs \<and> sum_list xs \<le> 1000 * int (length xs) \<and> (sum_list xs = 1000 * int (length xs) \<longleftrightarrow> (\<forall>x \<in> set xs. x = 1000))"
  using assms
proof (induction xs)
  case (Cons x xs)
  then have "0 \<le> x \<and> x \<le> 1000" "0 \<le> sum_list xs \<and> sum_list xs \<le> 1000 * int (length xs)"
    "sum_list xs = 1000 * int (length xs) \<longleftrightarrow> (\<forall>x \<in> set xs. x = 1000)" by auto
  then show ?case by (auto simp: algebra_simps)
qed simp

lemma foldl_permille: "foldl (\<lambda>result f. result + file_permille f) a fs = a + sum_list (map file_permille fs)"
  by (induction fs arbitrary: a) auto

text \<open>
  \<open>getTorrentProgress\<close> of a torrent with files none of which has more bytes than its size is
  between 0 and 1000, and 1000 only if every file is complete.
\<close>

theorem torrent_progress_bounds:
  assumes "ts_has_metadata s" "ts_files s \<noteq> []" "\<forall>(len, have_bytes) \<in> set (ts_files s). 0 \<le> have_bytes \<and> have_bytes \<le> len"
  shows "\<exists>p. torrent_progress False s = Returned p \<and> 0 \<le> p \<and> p \<le> 1000 \<and>
    (p = 1000 \<longleftrightarrow> (\<forall>(len, have_bytes) \<in> set (ts_files s). have_bytes = len))"
proof -
  let ?xs = "map file_permille (ts_files s)" and ?n = "int (length (ts_files s))"
  have each: "0 \<le> file_permille f \<and> file_permille f \<le> 1000 \<and> (file_permille f = 1000 \<longleftrightarrow> snd f = fst f)" if "f \<in> set (ts_files s)" for f
    using assms(3) that permille_bounds [of "snd f" "fst f"] by (cases f) auto
  have n: "0 < ?n" using assms(2) by simp
  have sum: "0 \<le> sum_list ?xs" "sum_list ?xs \<le> 1000 * ?n" "sum_list ?xs = 1000 * ?n \<longleftrightarrow> (\<forall>x \<in> set ?xs. x = 1000)"
    using sum_permille [of ?xs] each by auto
  have le: "sum_list ?xs div ?n \<le> 1000" using zdiv_mono1 [OF sum(2) n] n by simp
  have "1000 \<le> sum_list ?xs div ?n \<longleftrightarrow> 1000 * ?n \<le> sum_list ?xs" using n by (simp add: int_le_div)
  then have "sum_list ?xs div ?n = 1000 \<longleftrightarrow> (\<forall>x \<in> set ?xs. x = 1000)" using le sum by auto
  also have "\<dots> \<longleftrightarrow> (\<forall>(len, have_bytes) \<in> set (ts_files s). have_bytes = len)" using each by (auto simp: case_prod_beta)
  finally show ?thesis
    using assms(1,2) le sum(1) n by (auto simp: torrent_progress_def foldl_permille div_int_pos_iff)
qed

theorem torrent_progress_bounds_witness:
  "\<exists>p. torrent_progress False demo_status = Returned p \<and> 0 \<le> p \<and> p \<le> 1000 \<and> p \<noteq> 1000"
  using torrent_progress_bounds [of demo_status] by (fastforce simp: demo_status_def)

section \<open>The table of torrents\<close>

text \<open>
  The table maps the key of a torrent to the address of its \<open>TorrentInfo\<close>. A call that fails has
  left the shared lock when it erases its torrent under the exclusive lock: it is \<open>pending\<close> in
  between, with the key and the address it found. \<open>deleted_twice\<close> records a \<open>delete\<close> of an address
  that is not allocated.
\<close>

record registry =
  gTorrents :: "(nat \<times> nat) list"
  live_infos :: "nat list"
  next_addr :: nat
  pending :: "(nat \<times> nat) list"
  deleted_twice :: bool

definition empty_registry :: registry where
  "empty_registry = \<lparr>gTorrents = [], live_infos = [], next_addr = 0, pending = [], deleted_twice = False\<rparr>"

definition delete_info :: "nat \<Rightarrow> registry \<Rightarrow> registry" where
  "delete_info p s = s\<lparr>live_infos := remove1 p (live_infos s), deleted_twice := deleted_twice s \<or> p \<notin> set (live_infos s)\<rparr>"

text \<open>\<open>addTorrent\<close> and its variants, once the session has accepted the torrent.\<close>

definition add_torrent :: "nat \<Rightarrow> registry \<Rightarrow> registry" where
  "add_torrent h s = (case map_of (gTorrents s) h of Some _ \<Rightarrow> s
     | None \<Rightarrow> s\<lparr>gTorrents := AList.update h (next_addr s) (gTorrents s), live_infos := next_addr s # live_infos s, next_addr := Suc (next_addr s)\<rparr>)"

definition erase_torrent :: "nat \<Rightarrow> nat \<Rightarrow> registry \<Rightarrow> registry" where
  "erase_torrent h p s =
     (case map_of (gTorrents s) h of None \<Rightarrow> s
      | Some _ \<Rightarrow> delete_info p (s\<lparr>gTorrents := AList.delete h (gTorrents s)\<rparr>))"

definition remove_torrent :: "nat \<Rightarrow> registry \<Rightarrow> registry" where
  "remove_torrent h s = (case map_of (gTorrents s) h of None \<Rightarrow> s | Some p \<Rightarrow> erase_torrent h p s)"

definition call_fails :: "nat \<Rightarrow> registry \<Rightarrow> registry" where
  "call_fails h s = (case map_of (gTorrents s) h of None \<Rightarrow> s | Some p \<Rightarrow> s\<lparr>pending := (h, p) # pending s\<rparr>)"

definition clean_up :: "nat \<Rightarrow> nat \<Rightarrow> registry \<Rightarrow> registry" where
  "clean_up h p s = erase_torrent h p (s\<lparr>pending := remove1 (h, p) (pending s)\<rparr>)"

definition abort_session :: "registry \<Rightarrow> registry" where
  "abort_session s = s\<lparr>gTorrents := []\<rparr>"

inductive registry_step :: "bool \<Rightarrow> registry \<Rightarrow> registry \<Rightarrow> bool" for careful where
  add: "(careful \<Longrightarrow> h \<notin> fst ` set (pending s)) \<Longrightarrow> registry_step careful s (add_torrent h s)"
| remove: "registry_step careful s (remove_torrent h s)"
| call_fails: "registry_step careful s (call_fails h s)"
| clean_up: "(h, p) \<in> set (pending s) \<Longrightarrow> registry_step careful s (clean_up h p s)"
| abort: "registry_step careful s (abort_session s)"

definition registry_ok :: "registry \<Rightarrow> bool" where
  "registry_ok s \<longleftrightarrow> \<not> deleted_twice s \<and> distinct (live_infos s) \<and> (\<forall>p \<in> set (live_infos s). p < next_addr s) \<and>
     (\<forall>h p. map_of (gTorrents s) h = Some p \<longrightarrow> p \<in> set (live_infos s)) \<and>
     (\<forall>h h' p. map_of (gTorrents s) h = Some p \<and> map_of (gTorrents s) h' = Some p \<longrightarrow> h = h') \<and>
     (\<forall>h p. (h, p) \<in> set (pending s) \<longrightarrow> map_of (gTorrents s) h = None \<or> map_of (gTorrents s) h = Some p)"

lemma erase_ok:
  assumes "registry_ok s" "map_of (gTorrents s) h = None \<or> map_of (gTorrents s) h = Some p"
  shows "registry_ok (erase_torrent h p s)"
  using assms by (auto simp: registry_ok_def erase_torrent_def delete_info_def split: option.splits)

lemma registry_step_ok: "registry_step True s s' \<Longrightarrow> registry_ok s \<Longrightarrow> registry_ok s'"
proof (induction rule: registry_step.induct)
  case (add h s)
  show ?case
  proof (cases "map_of (gTorrents s) h")
    case None
    have l: "\<And>h p. map_of (gTorrents s) h = Some p \<Longrightarrow> p \<in> set (live_infos s)" "\<And>p. p \<in> set (live_infos s) \<Longrightarrow> p < next_addr s"
      using add.prems by (auto simp: registry_ok_def)
    then have fresh: "map_of (gTorrents s) h' \<noteq> Some (next_addr s)" for h' by force
    have p: "(h, p) \<notin> set (pending s)" for p using add.hyps by force
    have q: "map_of (gTorrents s) h' = None \<or> map_of (gTorrents s) h' = Some p" if "(h', p) \<in> set (pending s)" for h' p
      using add.prems that by (auto simp: registry_ok_def)
    show ?thesis unfolding add_torrent_def None option.case
      using add.prems fresh l(2) p by (auto simp: registry_ok_def less_Suc_eq dest: q)
  next
    case (Some p)
    then show ?thesis using add.prems by (simp add: add_torrent_def)
  qed
next
  case (remove s h)
  then show ?case using erase_ok by (auto simp: remove_torrent_def split: option.splits)
next
  case (call_fails s h)
  then show ?case by (auto simp: registry_ok_def call_fails_def split: option.splits)
next
  case (clean_up h p s)
  have "registry_ok (s\<lparr>pending := remove1 (h, p) (pending s)\<rparr>)"
    using clean_up.prems set_remove1_subset [of "(h, p)" "pending s"] unfolding registry_ok_def by (simp add: subset_iff)
  then show ?case unfolding clean_up_def using clean_up by (intro erase_ok) (auto simp: registry_ok_def)
next
  case (abort s)
  then show ?case by (auto simp: registry_ok_def abort_session_def)
qed

text \<open>
  C40. As long as no torrent is added under the key of a call that has failed and not cleaned up yet,
  whatever calls do at the same time, no \<open>TorrentInfo\<close> is deleted twice, and every torrent in the
  table has its own that is still allocated.
\<close>

theorem registry_safe:
  assumes "(registry_step True)\<^sup>*\<^sup>* empty_registry s"
  shows "\<not> deleted_twice s \<and> (\<forall>h p. map_of (gTorrents s) h = Some p \<longrightarrow> p \<in> set (live_infos s)) \<and>
    (\<forall>h h' p. map_of (gTorrents s) h = Some p \<and> map_of (gTorrents s) h' = Some p \<longrightarrow> h = h')"
proof -
  have "registry_ok empty_registry" by (simp add: registry_ok_def empty_registry_def)
  with assms have "registry_ok s" by (induction rule: rtranclp_induct) (auto intro: registry_step_ok)
  then show ?thesis by (simp add: registry_ok_def)
qed

theorem registry_safe_witness: "\<not> deleted_twice (clean_up 5 0 (call_fails 5 (add_torrent 5 empty_registry)))"
proof -
  have "registry_step True empty_registry (add_torrent 5 empty_registry)"
    by (rule registry_step.add) (simp add: empty_registry_def)
  moreover have "registry_step True (add_torrent 5 empty_registry) (call_fails 5 (add_torrent 5 empty_registry))"
    by (rule registry_step.call_fails)
  moreover have "registry_step True (call_fails 5 (add_torrent 5 empty_registry)) (clean_up 5 0 (call_fails 5 (add_torrent 5 empty_registry)))"
    by (rule registry_step.clean_up) (simp add: empty_registry_def add_torrent_def call_fails_def)
  ultimately have "(registry_step True)\<^sup>*\<^sup>* empty_registry (clean_up 5 0 (call_fails 5 (add_torrent 5 empty_registry)))"
    by (meson rtranclp.rtrancl_into_rtrancl rtranclp.rtrancl_refl)
  then show ?thesis using registry_safe by blast
qed

text \<open>
  Without that, there is a run that deletes a \<open>TorrentInfo\<close> twice: two calls on a torrent fail,
  the first cleans up, the torrent is added again, and the second cleans up: it erases the new entry
  and deletes the old \<open>TorrentInfo\<close> once more, while the new one is never deleted.
\<close>

theorem registry_deletes_twice:
  "\<exists>s. (registry_step False)\<^sup>*\<^sup>* empty_registry s \<and> deleted_twice s \<and> live_infos s \<noteq> [] \<and> gTorrents s = []"
proof -
  define s1 where "s1 = call_fails 5 (call_fails 5 (add_torrent 5 empty_registry))"
  define s2 where "s2 = add_torrent 5 (clean_up 5 0 s1)"
  have step: "registry_step False s t \<Longrightarrow> (registry_step False)\<^sup>*\<^sup>* empty_registry s \<Longrightarrow> (registry_step False)\<^sup>*\<^sup>* empty_registry t" for s t
    by (rule rtranclp.rtrancl_into_rtrancl)
  have 1: "(registry_step False)\<^sup>*\<^sup>* empty_registry s1"
    unfolding s1_def by (intro step [OF registry_step.call_fails] step [OF registry_step.add] rtranclp.rtrancl_refl) simp
  have "(5, 0) \<in> set (pending s1)" by (simp add: s1_def empty_registry_def add_torrent_def call_fails_def)
  then have 2: "(registry_step False)\<^sup>*\<^sup>* empty_registry s2"
    unfolding s2_def using 1 by (intro step [OF registry_step.add] step [OF registry_step.clean_up]) simp_all
  have "(5, 0) \<in> set (pending s2)" unfolding s2_def s1_def by code_simp
  then have "(registry_step False)\<^sup>*\<^sup>* empty_registry (clean_up 5 0 s2)"
    using 2 by (intro step [OF registry_step.clean_up])
  moreover have "deleted_twice (clean_up 5 0 s2) \<and> live_infos (clean_up 5 0 s2) = [1] \<and> gTorrents (clean_up 5 0 s2) = []"
    unfolding s2_def s1_def by code_simp
  ultimately show ?thesis by (intro exI [of _ "clean_up 5 0 s2"]) auto
qed

end
