(* ===== verification/Request_Invariant.thy ===== *)
theory Request_Invariant
  imports Peer_Requests
begin

text \<open>
  The invariant of the queues of a connection, and how they agree with the picker: for a block that
  has not arrived, the picker counts the connections that have it in a queue. A step of one
  connection is fair if it keeps the invariant and the count of all others; the elementary steps are.
\<close>

section \<open>What the picker knows of a block\<close>

definition in_range :: "piece_picker \<Rightarrow> piece_block \<Rightarrow> bool" where
  "in_range pk b \<longleftrightarrow> piece_index b < num_pieces pk \<and> block_index b < blocks_in_piece pk (piece_index b)"

definition info_of :: "piece_picker \<Rightarrow> piece_block \<Rightarrow> block_info" where
  "info_of pk b = piece_blocks pk (piece_index b) ! block_index b"

definition view :: "piece_picker \<Rightarrow> piece_block \<Rightarrow> block_state \<times> nat" where
  "view pk b = (block_state (info_of pk b), num_peers (info_of pk b))"

definition got :: "piece_picker \<Rightarrow> piece_block \<Rightarrow> bool" where
  "got pk b \<longleftrightarrow> have_piece pk (piece_index b) \<or> fst (view pk b) = state_writing \<or> fst (view pk b) = state_finished"

lemma piece_block_eqI: "piece_index b = piece_index b' \<Longrightarrow> block_index b = block_index b' \<Longrightarrow> (b :: piece_block) = b'"
  by simp

lemma same_pieces_in_range: "same_pieces pk pk' \<Longrightarrow> in_range pk' = in_range pk"
  by (simp add: same_pieces_def in_range_def fun_eq_iff)

lemma same_pieces_have: "same_pieces pk pk' \<Longrightarrow> in_range pk b \<Longrightarrow> have_piece pk' (piece_index b) = have_piece pk (piece_index b)"
  by (simp add: same_pieces_def in_range_def have_piece_def)

lemma idle_piece_blocks:
  assumes "picker_inv pk" "x < num_pieces pk" "\<not> downloading (m_piece_map pk ! x)"
  shows "piece_blocks pk x = replicate (blocks_in_piece pk x) new_block"
proof -
  have "x \<notin> dp_index ` set (m_downloads pk)" using assms by (auto simp: picker_inv_def marks_ok_def)
  then show ?thesis by (simp add: piece_blocks_def progress_None [THEN iffD2])
qed

lemma piece_blocks_ok:
  assumes inv: "picker_inv pk" and x: "x < num_pieces pk"
  shows "length (piece_blocks pk x) = blocks_in_piece pk x" "\<forall>b \<in> set (piece_blocks pk x). block_ok b"
proof -
  have "length (piece_blocks pk x) = blocks_in_piece pk x \<and> (\<forall>b \<in> set (piece_blocks pk x). block_ok b)"
  proof (cases "downloading (m_piece_map pk ! x)")
    case True
    show ?thesis by (rule entry_of_piece [OF inv x True blocks_in_piece_pos [OF inv x]]) (auto simp: dl_ok_def)
  next
    case False
    then show ?thesis using idle_piece_blocks [OF inv x] by (auto simp: block_ok_def new_block_def)
  qed
  then show "length (piece_blocks pk x) = blocks_in_piece pk x" "\<forall>b \<in> set (piece_blocks pk x). block_ok b" by auto
qed

lemma view_ok:
  assumes "picker_inv pk" "in_range pk b"
  shows "snd (view pk b) < 2 ^ 14" "(snd (view pk b) > 0) = (fst (view pk b) = state_requested)"
  using piece_blocks_ok [OF assms(1), of "piece_index b"] assms(2)
  by (auto simp: view_def info_of_def in_range_def block_ok_def)

lemma picker_queries:
  assumes inv: "picker_inv pk" and b: "in_range pk b"
  shows "is_downloaded pk b = got pk b" "block_num_peers pk b = snd (view pk b)"
    "is_requested pk b = (fst (view pk b) = state_requested)"
    "is_finished pk b = (have_piece pk (piece_index b) \<or> fst (view pk b) = state_finished)"
proof -
  let ?x = "piece_index b"
  have x: "?x < num_pieces pk" "block_index b < blocks_in_piece pk ?x" using b by (auto simp: in_range_def)
  have "is_downloaded pk b = got pk b \<and> block_num_peers pk b = snd (view pk b) \<and>
      is_requested pk b = (fst (view pk b) = state_requested) \<and>
      is_finished pk b = (have_piece pk ?x \<or> fst (view pk b) = state_finished)"
  proof (cases "downloading (m_piece_map pk ! ?x)")
    case True
    show ?thesis
      by (rule entry_of_piece [OF inv x(1) True x(2)]) (use True in \<open>auto simp: is_downloaded_def got_def view_def info_of_def
        block_num_peers_def is_requested_def is_finished_def have_piece_def have_pos_def\<close>)
  next
    case False
    then show ?thesis using idle_piece_blocks [OF inv x(1) False] x(2)
      by (simp add: is_downloaded_def got_def view_def info_of_def block_num_peers_def is_requested_def
        is_finished_def have_piece_def have_pos_def new_block_def)
  qed
  then show "is_downloaded pk b = got pk b" "block_num_peers pk b = snd (view pk b)"
    "is_requested pk b = (fst (view pk b) = state_requested)"
    "is_finished pk b = (have_piece pk ?x \<or> fst (view pk b) = state_finished)" by auto
qed

lemma view_same: "same_pieces pk pk' \<Longrightarrow> progress pk' = progress pk \<Longrightarrow> view pk' = view pk"
  by (auto simp: view_def info_of_def piece_blocks_def same_pieces_def fun_eq_iff split: option.split)

text \<open>What a change of \<open>progress\<close> at one block means for the view of all blocks.\<close>

lemma view_progress:
  assumes pk': "picker_inv pk'" "same_pieces pk pk'" "picker_inv pk" and b: "in_range pk b" "in_range pk b'"
    and pr: "progress pk' = (progress pk)(piece_index b := if e then None else Some ((piece_blocks pk (piece_index b))[block_index b := v]))"
    and e: "e \<Longrightarrow> idle ((piece_blocks pk (piece_index b))[block_index b := v])"
    and v: "block_ok v"
  shows "view pk' b' = (if b' = b then (block_state v, num_peers v) else view pk b')"
proof -
  let ?x = "piece_index b" and ?bl = "(piece_blocks pk (piece_index b))[block_index b := v]"
  have bip: "blocks_in_piece pk' = blocks_in_piece pk" using pk'(2) by (simp add: same_pieces_def)
  have len: "length (piece_blocks pk ?x) = blocks_in_piece pk ?x" and ok: "\<forall>i \<in> set (piece_blocks pk ?x). block_ok i"
    using piece_blocks_ok [OF pk'(3), of ?x] b(1) by (auto simp: in_range_def)
  show ?thesis
  proof (cases "piece_index b' = ?x")
    case False
    then show ?thesis using pr bip by (auto simp: view_def info_of_def piece_blocks_def split: option.split)
  next
    case True
    then have i: "block_index b' < length ?bl" using b(2) len by (simp add: in_range_def)
    have at: "?bl ! block_index b' = (if b' = b then v else info_of pk b')"
    proof (cases "b' = b")
      case False
      then have "block_index b \<noteq> block_index b'" using True piece_block_eqI by metis
      then show ?thesis using False True by (simp add: info_of_def)
    qed (use i in simp)
    show ?thesis
    proof (cases e)
      case True
      have "?bl ! block_index b' \<in> set ?bl" using i by (rule nth_mem)
      moreover have "\<forall>u \<in> set ?bl. block_ok u" using ok v by (auto dest!: subsetD [OF set_update_subset_insert])
      ultimately have "block_state (?bl ! block_index b') = state_none" "num_peers (?bl ! block_index b') = 0"
        using e [OF True] by (auto simp: idle_def block_ok_def)
      moreover have "info_of pk' b' = new_block"
        using pr True \<open>piece_index b' = ?x\<close> b(2) bip by (simp add: info_of_def piece_blocks_def in_range_def)
      ultimately show ?thesis using at by (auto simp: view_def new_block_def)
    next
      case False
      then have "info_of pk' b' = ?bl ! block_index b'" using pr True by (simp add: info_of_def piece_blocks_def)
      then show ?thesis using at by (simp add: view_def)
    qed
  qed
qed

lemma abort_download_view:
  assumes inv: "picker_inv pk" and b: "in_range pk b" and pk': "pk' = abort_download r b pk"
  shows "picker_inv pk'" "same_pieces pk pk'"
    "in_range pk b' \<Longrightarrow> view pk' b' = (if b' = b \<and> fst (view pk b) = state_requested
       then if snd (view pk b) > 1 then (state_requested, snd (view pk b) - 1) else (state_none, 0) else view pk b')"
proof -
  note s = abort_download_spec [OF inv b [unfolded in_range_def, THEN conjunct1] b [unfolded in_range_def, THEN conjunct2], of r, folded pk']
  then show inv': "picker_inv pk'" and same: "same_pieces pk pk'" by auto
  show "view pk' b' = (if b' = b \<and> fst (view pk b) = state_requested
       then if snd (view pk b) > 1 then (state_requested, snd (view pk b) - 1) else (state_none, 0) else view pk b')" if "in_range pk b'"
  proof (cases "fst (view pk b) = state_requested")
    case False
    then have "pk' = pk" using s by (simp add: view_def info_of_def Let_def)
    then show ?thesis using False by simp
  next
    case True
    have ok: "block_ok (abort_block (info_of pk b))" using view_ok [OF inv b] True
      by (auto simp: abort_block_def view_def block_ok_def)
    have "view pk' b' = (if b' = b then (block_state (abort_block (info_of pk b)), num_peers (abort_block (info_of pk b))) else view pk b')"
      by (rule view_progress [OF inv' same inv b that _ _ ok]) (use s True in \<open>auto simp: view_def info_of_def Let_def\<close>)
    then show ?thesis using True view_ok [OF inv b] by (auto simp: abort_block_def view_def)
  qed
qed

lemma mark_as_downloading_view:
  assumes inv: "picker_inv pk" and b: "in_range pk b" and nh: "\<not> have_piece pk (piece_index b)" and st: "state \<noteq> none"
    and np: "snd (view pk b) + 1 < 2 ^ 14" and pk': "(ok, pk') = mark_as_downloading r b pr state pk"
  shows "picker_inv pk'" "same_pieces pk pk'" "ok = (\<not> got pk b)"
    "in_range pk b' \<Longrightarrow> view pk' b' = (if b' = b \<and> \<not> got pk b then (state_requested, snd (view pk b) + 1) else view pk b')"
proof -
  have x: "piece_index b < num_pieces pk" "block_index b < blocks_in_piece pk (piece_index b)"
    "\<not> have_pos (m_piece_map pk ! piece_index b)" using b nh by (auto simp: in_range_def have_piece_def)
  have np': "num_peers (piece_blocks pk (piece_index b) ! block_index b) + 1 < 2 ^ 14" using np by (simp add: view_def info_of_def)
  note s = mark_as_downloading_spec [OF inv x st np', of r pr, folded pk', unfolded snd_conv fst_conv]
  show inv': "picker_inv pk'" by (rule s(1))
  show same: "same_pieces pk pk'" using mark_as_downloading_same [OF inv x(1,3), of r pr state, folded pk'] by simp
  show "ok = (\<not> got pk b)" using s(2) nh by (auto simp: Let_def got_def view_def info_of_def)
  show "view pk' b' = (if b' = b \<and> \<not> got pk b then (state_requested, snd (view pk b) + 1) else view pk b')" if "in_range pk b'"
  proof (cases "got pk b")
    case True
    then have "progress pk' = progress pk" using s(2) nh by (auto simp: Let_def got_def view_def info_of_def)
    then show ?thesis using True view_same [OF same] by simp
  next
    case False
    have "view pk' b' = (if b' = b then (block_state (request_block pr (info_of pk b)), num_peers (request_block pr (info_of pk b))) else view pk b')"
      by (rule view_progress [where e = False, OF inv' same inv b that])
        (use s(2) False nh np in \<open>auto simp: view_def info_of_def Let_def got_def request_block_def block_ok_def\<close>)
    then show ?thesis using False np by (auto simp: request_block_def view_def)
  qed
qed

lemma mark_as_writing_view:
  assumes inv: "picker_inv pk" and b: "in_range pk b" and g: "\<not> got pk b" and pk': "pk' = snd (mark_as_writing r b pr pk)"
  shows "picker_inv pk'" "same_pieces pk pk'"
    "in_range pk b' \<Longrightarrow> view pk' b' = (if b' = b then (state_writing, 0) else view pk b')"
proof -
  have x: "piece_index b < num_pieces pk" "block_index b < blocks_in_piece pk (piece_index b)"
    using b by (auto simp: in_range_def)
  note s = mark_as_writing_spec [OF inv x, of r pr, folded pk']
  show inv': "picker_inv pk'" using s by simp
  show same: "same_pieces pk pk'" using mark_as_writing_same [OF inv x(1), of r pr, folded pk'] .
  have "view pk' b' = (if b' = b then (block_state (write_block pr (info_of pk b)), num_peers (write_block pr (info_of pk b))) else view pk b')"
    if "in_range pk b'"
    by (rule view_progress [where e = False, OF inv' same inv b that])
      (use s g in \<open>auto simp: view_def info_of_def Let_def got_def have_piece_def write_block_def block_ok_def\<close>)
  then show "in_range pk b' \<Longrightarrow> view pk' b' = (if b' = b then (state_writing, 0) else view pk b')"
    by (auto simp: write_block_def)
qed

lemma got_view: "same_pieces pk pk' \<Longrightarrow> in_range pk b \<Longrightarrow> view pk' b = view pk b \<Longrightarrow> got pk' b = got pk b"
  by (simp add: got_def same_pieces_have)

section \<open>The invariant of a connection\<close>

definition asked :: "connection \<Rightarrow> piece_block list" where
  "asked c = map pb_block (filter allocated (download_queue c) @ request_queue c)"

definition pending :: "connection \<Rightarrow> pending_block list" where
  "pending c = download_queue c @ request_queue c"

definition conn_ok :: "piece_picker \<Rightarrow> connection \<Rightarrow> bool" where
  "conn_ok pk c \<longleftrightarrow>
     0 \<le> queued_time_critical c \<and> queued_time_critical c \<le> int (length (request_queue c))
   \<and> distinct (map pb_block (pending c))
   \<and> (\<forall>q \<in> set (request_queue c). allocated q)
   \<and> (\<forall>b \<in> set (asked c). in_range pk b)
   \<and> 0 \<le> outstanding_bytes c
   \<and> (disconnecting c \<longrightarrow> pending c = [])
   \<and> length (peer_pieces c) = num_pieces pk
   \<and> (\<forall>x \<in> set (suggested_pieces c). x < num_pieces pk)"

text \<open>The number of other connections that have been asked for a block, as far as the picker knows.\<close>

definition others :: "piece_picker \<Rightarrow> connection \<Rightarrow> piece_block \<Rightarrow> int" where
  "others pk c b = int (snd (view pk b)) - of_bool (b \<in> set (asked c))"

definition local_ok :: "piece_picker \<times> connection \<Rightarrow> bool" where
  "local_ok st \<longleftrightarrow> (case st of (pk, c) \<Rightarrow> picker_inv pk \<and> conn_ok pk c \<and>
     (\<forall>b. in_range pk b \<longrightarrow> \<not> got pk b \<longrightarrow> 0 \<le> others pk c b \<and> others pk c b + 1 < 2 ^ 14))"

text \<open>A handler of one connection keeps what the picker knows of the others.\<close>

definition fair_step :: "piece_picker \<times> connection \<Rightarrow> piece_picker \<times> connection \<Rightarrow> bool" where
  "fair_step st st' \<longleftrightarrow> (case (st, st') of ((pk, c), (pk', c')) \<Rightarrow> same_pieces pk pk' \<and> picker_inv pk' \<and> conn_ok pk' c' \<and>
     (\<forall>b. in_range pk b \<longrightarrow> \<not> got pk' b \<longrightarrow> \<not> got pk b \<and> others pk' c' b = others pk c b))"

lemma conn_ok_same_pieces: "same_pieces pk pk' \<Longrightarrow> conn_ok pk' c = conn_ok pk c"
  by (simp add: conn_ok_def same_pieces_in_range) (simp add: same_pieces_def)

lemma fair_step_local: "local_ok st \<Longrightarrow> fair_step st st' \<Longrightarrow> local_ok st'"
  by (auto simp: local_ok_def fair_step_def same_pieces_in_range split: prod.splits)

lemma fair_step_refl: "local_ok st \<Longrightarrow> fair_step st st"
  by (auto simp: local_ok_def fair_step_def split: prod.splits)

lemma fair_step_trans: "fair_step st st1 \<Longrightarrow> fair_step st1 st2 \<Longrightarrow> fair_step st st2"
  by (auto simp: fair_step_def same_pieces_in_range intro: same_pieces_trans split: prod.splits)

lemma local_ok_asked:
  assumes "local_ok (pk, c)" "b \<in> set (asked c)"
  shows "in_range pk b" "\<not> got pk b \<Longrightarrow> fst (view pk b) = state_requested"
proof -
  show r: "in_range pk b" using assms by (auto simp: local_ok_def conn_ok_def)
  show "fst (view pk b) = state_requested" if "\<not> got pk b"
    using assms that r view_ok(2) [of pk b] by (force simp: local_ok_def others_def)
qed

text \<open>The elementary steps: queues that are rearranged, a block that is given up, asked for or arrives.\<close>

lemma fair_rearrange:
  assumes "local_ok (pk, c)" "conn_ok pk c'" "\<forall>b. in_range pk b \<longrightarrow> \<not> got pk b \<longrightarrow> (b \<in> set (asked c') \<longleftrightarrow> b \<in> set (asked c))"
  shows "fair_step (pk, c) (pk, c')"
  using assms by (auto simp: local_ok_def fair_step_def others_def)

lemma fair_picked:
  assumes "local_ok (pk, c)" "picker_inv pk'" "same_pieces pk pk'" "progress pk' = progress pk"
  shows "fair_step (pk, c) (pk', c)"
  using assms view_same [OF assms(3,4)] got_view [OF assms(3)]
  by (auto simp: local_ok_def fair_step_def others_def conn_ok_same_pieces)

lemma fair_give_up:
  assumes ok: "local_ok (pk, c)" and b: "b \<in> set (asked c)"
    and c': "conn_ok pk c'" "\<forall>b'. b' \<in> set (asked c') \<longleftrightarrow> b' \<in> set (asked c) \<and> b' \<noteq> b"
  shows "fair_step (pk, c) (abort_download r b pk, c')"
proof -
  let ?pk = "abort_download r b pk"
  have inv: "picker_inv pk" using ok by (simp add: local_ok_def)
  note r = local_ok_asked [OF ok b]
  note a = abort_download_view [OF inv r(1) refl]
  have "\<not> got pk b' \<and> others ?pk c' b' = others pk c b'" if b': "in_range pk b'" "\<not> got ?pk b'" for b'
  proof (cases "b' = b")
    case False
    then have "view ?pk b' = view pk b'" using a(3) b'(1) by simp
    then show ?thesis using False b' c'(2) got_view [OF a(2) b'(1)] by (auto simp: others_def)
  next
    case True
    have "\<not> got pk b" using b' True a(3) [OF r(1), of r] same_pieces_have [OF a(2) r(1)]
      by (auto simp: got_def split: if_splits)
    with r(2) True a(3) [OF r(1), of r] b c'(2) view_ok(2) [OF inv r(1)] show ?thesis by (auto simp: others_def)
  qed
  then show ?thesis using a(1,2) c'(1) conn_ok_same_pieces [OF a(2)] by (simp add: fair_step_def)
qed

lemma fair_ask:
  assumes ok: "local_ok (pk, c)" and b: "in_range pk b" "b \<notin> set (asked c)" "\<not> have_piece pk (piece_index b)"
    and st: "state \<noteq> none" and pk': "(okay, pk') = mark_as_downloading r b pr state pk"
    and c': "conn_ok pk c'" "\<forall>b'. b' \<in> set (asked c') \<longleftrightarrow> b' \<in> set (asked c) \<or> b' = b \<and> okay"
  shows "fair_step (pk, c) (pk', c')"
proof -
  have inv: "picker_inv pk" using ok by (simp add: local_ok_def)
  show ?thesis
  proof (cases "got pk b")
    case True
    have np: "snd (view pk b) + 1 < 2 ^ 14"
      using True view_ok(2) [OF inv b(1)] b(3) by (auto simp: got_def)
    note a = mark_as_downloading_view [OF inv b(1,3) st np pk']
    have v: "view pk' b' = view pk b'" if "in_range pk b'" for b' using a(4) that True by simp
    then have "got pk' b' = got pk b'" if "in_range pk b'" for b' using got_view [OF a(2) that] that by simp
    then show ?thesis using a(1-3) v c' True by (auto simp: fair_step_def others_def conn_ok_same_pieces)
  next
    case False
    then have np: "snd (view pk b) + 1 < 2 ^ 14" using ok b(1,2) by (auto simp: local_ok_def others_def)
    note a = mark_as_downloading_view [OF inv b(1,3) st np pk']
    have "\<not> got pk b' \<and> others pk' c' b' = others pk c b'" if b': "in_range pk b'" "\<not> got pk' b'" for b'
    proof (cases "b' = b")
      case other: False
      then have "view pk' b' = view pk b'" using a(4) b'(1) by simp
      then show ?thesis using other b' c'(2) got_view [OF a(2) b'(1)] by (auto simp: others_def)
    next
      case True
      then show ?thesis using a(3) a(4) [OF b(1)] False b c'(2) by (auto simp: others_def)
    qed
    then show ?thesis using a(1,2) c'(1) conn_ok_same_pieces [OF a(2)] by (simp add: fair_step_def)
  qed
qed

lemma fair_arrive:
  assumes ok: "local_ok (pk, c)" and b: "in_range pk b" "\<not> got pk b"
    and c': "conn_ok pk c'" "\<forall>b'. b' \<noteq> b \<longrightarrow> (b' \<in> set (asked c') \<longleftrightarrow> b' \<in> set (asked c))"
  shows "fair_step (pk, c) (snd (mark_as_writing r b pr pk), c')"
proof -
  let ?pk = "snd (mark_as_writing r b pr pk)"
  have inv: "picker_inv pk" using ok by (simp add: local_ok_def)
  note a = mark_as_writing_view [OF inv b refl]
  have "\<not> got pk b' \<and> others ?pk c' b' = others pk c b'" if b': "in_range pk b'" "\<not> got ?pk b'" for b'
  proof -
    have "b' \<noteq> b" using b' a(3) [OF b(1), of r pr] by (auto simp: got_def)
    moreover from this have "view ?pk b' = view pk b'" using a(3) b'(1) by simp
    ultimately show ?thesis using b' c'(2) got_view [OF a(2) b'(1)] by (auto simp: others_def)
  qed
  then show ?thesis using a(1,2) c'(1) conn_ok_same_pieces [OF a(2)] by (simp add: fair_step_def)
qed

section \<open>Lists\<close>

lemma find_index_split:
  assumes "find_index P xs = Some i"
  obtains ys x zs where "xs = ys @ x # zs" "i = length ys" "P x" "\<forall>y \<in> set ys. \<not> P y" "erase_at i xs = ys @ zs" "xs ! i = x"
proof -
  have i: "i < length xs" "P (xs ! i)" and before: "\<forall>j < i. \<not> P (xs ! j)" using find_index_Some [OF assms] by auto
  have "\<forall>y \<in> set (take i xs). \<not> P y" using before i(1) by (auto simp: in_set_conv_nth)
  with i id_take_nth_drop [OF i(1)] show ?thesis
    by (intro that [of "take i xs" "xs ! i" "drop (Suc i) xs"]) (simp_all add: erase_at_def)
qed

lemma find_index_None_set: "find_index P xs = None \<longleftrightarrow> (\<forall>x \<in> set xs. \<not> P x)"
  by (auto simp: find_index_None)

lemma insert_at_split:
  assumes "0 \<le> k" "k \<le> int (length xs)"
  obtains ys zs where "xs = ys @ zs" "int (length ys) = k" "insert_at k x xs = ys @ x # zs"
  using assms by (intro that [of "take (nat k) xs" "drop (nat k) xs"]) (simp_all add: insert_at_def)

lemma merge_run_append: "merge_run n b qs = (run, rest) \<Longrightarrow> qs = run @ rest"
  by (induction qs arbitrary: b run) (auto split: if_splits prod.splits)

lemma dec_critical_bounds: "0 \<le> k \<Longrightarrow> k \<le> int (n + m) \<Longrightarrow> 0 \<le> (dec_critical ^^ n) k \<and> (dec_critical ^^ n) k \<le> int m"
proof (induction n arbitrary: k)
  case (Suc n)
  have "0 \<le> dec_critical k \<and> dec_critical k \<le> int (n + m)" using Suc.prems by (auto simp: dec_critical_def)
  with Suc.IH [of "dec_critical k"] show ?case by (simp add: funpow_swap1)
qed simp

section \<open>What the handlers rely on\<close>

definition env_ok :: "torrent_env \<Rightarrow> piece_picker \<Rightarrow> bool" where
  "env_ok env pk \<longleftrightarrow> 0 < block_size env
   \<and> (\<forall>x < num_pieces pk. 0 < size_of_piece env x \<and> size_of_piece env x \<le> full_piece_length env
       \<and> int (blocks_in_piece pk x) = (size_of_piece env x + block_size env - 1) div block_size env)
   \<and> (seeding env \<longrightarrow> (\<forall>x < num_pieces pk. have_piece pk x))"

lemma env_ok_same: "same_pieces pk pk' \<Longrightarrow> env_ok env pk' = env_ok env pk"
  by (auto simp: env_ok_def same_pieces_def have_piece_def)

lemma to_req_positive:
  assumes "env_ok env pk" "in_range pk b"
  shows "0 < pr_length (to_req env b)"
proof -
  let ?s = "size_of_piece env (piece_index b)" and ?k = "block_size env"
  have e: "0 < ?k" "int (blocks_in_piece pk (piece_index b)) = (?s + ?k - 1) div ?k" using assms by (auto simp: env_ok_def in_range_def)
  have "int (block_index b) + 1 \<le> (?s + ?k - 1) div ?k" using assms(2) e(2) by (simp add: in_range_def)
  then have "(int (block_index b) + 1) * ?k \<le> (?s + ?k - 1) div ?k * ?k" using e(1) by simp
  also have "\<dots> \<le> ?s + ?k - 1" using pos_mod_sign [OF e(1), of "?s + ?k - 1"] by (simp add: minus_mod_eq_div_mult [symmetric])
  finally have "int (block_index b) * ?k < ?s" using e(1) by (simp add: algebra_simps)
  with e(1) show ?thesis by (simp add: to_req_def Let_def)
qed

lemma seed_has_all:
  assumes inv: "picker_inv pk" and env: "env_ok env pk" and s: "is_seed env pk" and x: "x < num_pieces pk"
  shows "have_piece pk x"
proof (cases "seeding env")
  case False
  then have "m_num_have pk = int (num_pieces pk)" using s by (simp add: is_seed_def)
  moreover have "m_num_have pk = int (length (filter have_pos (m_piece_map pk)))"
    using inv by (simp add: picker_inv_def counts_ok_def)
  ultimately have "length (filter have_pos (m_piece_map pk)) = length (m_piece_map pk)" by (simp add: num_pieces_def)
  then have "have_pos p" if "p \<in> set (m_piece_map pk)" for p using length_filter_less [OF that, of have_pos] by force
  then show ?thesis using x by (simp add: have_piece_def num_pieces_def)
qed (use env x in \<open>simp add: env_ok_def\<close>)

lemma seed_got: "picker_inv pk \<Longrightarrow> env_ok env pk \<Longrightarrow> is_seed env pk \<Longrightarrow> in_range pk b \<Longrightarrow> got pk b"
  by (simp add: got_def in_range_def seed_has_all)

lemma not_seed_pieces: "picker_inv pk \<Longrightarrow> \<not> is_seed env pk \<Longrightarrow> 0 < num_pieces pk"
  by (auto simp: is_seed_def picker_inv_def counts_ok_def num_pieces_def)

text \<open>The source of blocks: it may reorder the picker's array, and returns only blocks of pieces we do not have.\<close>

locale block_picker =
  fixes pick :: block_source
  assumes pick_ok: "picker_inv pk \<Longrightarrow> 0 < num_pieces pk \<Longrightarrow> 0 < n \<Longrightarrow> \<forall>x \<in> set sug. x < num_pieces pk \<Longrightarrow>
    pick rq n sug pk = (bs, pk') \<Longrightarrow> picker_inv pk' \<and> same_pieces pk pk' \<and> progress pk' = progress pk \<and>
      (\<forall>b \<in> set bs. in_range pk b \<and> \<not> have_piece pk (piece_index b))"

interpretation picker: block_picker "picked_by rnd r1 r2"
proof
  fix pk n sug rq bs pk'
  assume a: "picker_inv pk" "0 < num_pieces pk" "0 < n" "\<forall>x \<in> set sug. x < num_pieces pk"
    and p: "picked_by rnd r1 r2 rq n sug pk = (bs, pk')"
  obtain u q where u: "pick_pieces rnd r1 r2 rq n sug [] pk = Some (u, q)" "picker_inv q" "moves_only (pk\<lparr>m_dirty := m_dirty q\<rparr>) q"
    "\<forall>b \<in> set u. b \<in> set [] \<or> may_pick pk (effective_request pk rq) b"
    by (rule pick_pieces_spec [where rnd = rnd and ?r1.0 = r1 and ?r2.0 = r2 and dst = "[]", OF a refl]) blast
  then have "bs = u" "pk' = q" using p by (auto simp: picked_by_def)
  moreover have "same_pieces pk q" "progress q = progress pk"
    using same_pieces_moves [OF u(3)] moves_blocks(3) [OF u(3)] by (simp_all add: same_pieces_def progress_def blocks_of_def)
  ultimately show "picker_inv pk' \<and> same_pieces pk pk' \<and> progress pk' = progress pk \<and>
      (\<forall>b \<in> set bs. in_range pk b \<and> \<not> have_piece pk (piece_index b))"
    using u(2,4) by (auto simp: may_pick_def free_block_def busy_block_def in_range_def)
qed

section \<open>The handlers\<close>

lemma set_pending: "set (map pb_block (pending c)) = pb_block ` set (download_queue c) \<union> pb_block ` set (request_queue c)"
  by (auto simp: pending_def)

lemma asked_pending: "b \<in> set (asked c) \<Longrightarrow> b \<in> pb_block ` set (download_queue c) \<union> pb_block ` set (request_queue c)"
  by (auto simp: asked_def)

lemmas conn_simps = conn_ok_def asked_def pending_def

lemma distinct_submset:
  assumes "mset ys \<subseteq># mset xs" "distinct xs"
  shows "distinct ys"
proof -
  have "count (mset xs) a \<le> 1" for a using assms(2) unfolding distinct_count_atmost_1 by (metis le_refl zero_le)
  then have "count (mset ys) a \<le> 1" for a using mset_subset_eq_count [OF assms(1), of a] le_trans by blast
  moreover have "count (mset ys) a > 0" if "a \<in> set ys" for a using that by simp
  ultimately show ?thesis unfolding distinct_count_atmost_1 by (metis One_nat_def Suc_leI count_mset_0_iff le_antisym)
qed

text \<open>Most handlers only move or drop entries of the queues.\<close>

lemma conn_ok_sub:
  assumes "conn_ok pk c" "mset (map pb_block (pending c')) \<subseteq># mset (map pb_block (pending c))"
    "set (asked c') \<subseteq> set (asked c)" "\<forall>q \<in> set (request_queue c'). allocated q"
    "0 \<le> queued_time_critical c'" "queued_time_critical c' \<le> int (length (request_queue c'))" "0 \<le> outstanding_bytes c'"
    "disconnecting c' \<Longrightarrow> pending c' = []" "length (peer_pieces c') = length (peer_pieces c)"
    "set (suggested_pieces c') \<subseteq> set (suggested_pieces c)"
  shows "conn_ok pk c'"
proof -
  have "distinct (map pb_block (pending c'))"
    using distinct_submset [OF assms(2)] assms(1) by (simp add: conn_ok_def)
  with assms show ?thesis by (auto simp: conn_ok_def)
qed

lemma conn_okD:
  assumes "conn_ok pk c"
  shows "0 \<le> queued_time_critical c" "queued_time_critical c \<le> int (length (request_queue c))" "distinct (map pb_block (pending c))"
    "\<forall>q \<in> set (request_queue c). allocated q" "0 \<le> outstanding_bytes c" "\<forall>b \<in> set (asked c). in_range pk b"
    "disconnecting c \<Longrightarrow> pending c = []"
  using assms by (auto simp: conn_ok_def)

lemma make_time_critical_fair:
  assumes ok: "local_ok (pk, c)"
  shows "fair_step (pk, c) (pk, make_time_critical b c)"
proof (cases "find_index (has_block b) (request_queue c)")
  case None
  then show ?thesis using fair_step_refl [OF ok] by (simp add: make_time_critical_def)
next
  case (Some i)
  show ?thesis
  proof (cases "int i < queued_time_critical c")
    case True
    then show ?thesis using Some fair_step_refl [OF ok] by (simp add: make_time_critical_def)
  next
    case False
    have c: "conn_ok pk c" using ok by (simp add: local_ok_def)
    obtain ys q zs where q: "request_queue c = ys @ q # zs" "i = length ys" "erase_at i (request_queue c) = ys @ zs" "request_queue c ! i = q"
      using find_index_split [OF Some] by metis
    have "0 \<le> queued_time_critical c" "queued_time_critical c \<le> int (length (ys @ zs))" using c q False by (auto simp: conn_ok_def)
    then obtain us vs where u: "ys @ zs = us @ vs" "insert_at (queued_time_critical c) q (ys @ zs) = us @ q # vs" "int (length us) = queued_time_critical c"
      by (rule insert_at_split)
    have perm: "mset (us @ q # vs) = mset (request_queue c)" using u(1) q(1) by (metis mset_append mset.simps(2) union_mset_add_mset_right)
    have s: "set (us @ q # vs) = set (request_queue c)" by (rule mset_eq_setD [OF perm])
    have l: "length us + length vs = length ys + length zs" using arg_cong [OF u(1), of length] by simp
    define c' where "c' = c\<lparr>request_queue := us @ q # vs, queued_time_critical := queued_time_critical c + 1\<rparr>"
    have m: "make_time_critical b c = c'" using Some False q u by (simp add: make_time_critical_def c'_def)
    have f: "download_queue c' = download_queue c" "request_queue c' = us @ q # vs" "queued_time_critical c' = queued_time_critical c + 1"
      "disconnecting c' = disconnecting c" "peer_pieces c' = peer_pieces c" "suggested_pieces c' = suggested_pieces c"
      "outstanding_bytes c' = outstanding_bytes c"
      by (simp_all add: c'_def)
    have "mset (map pb_block (pending c')) = mset (map pb_block (pending c))"
      using perm unfolding pending_def f by (metis map_append mset_append mset_map)
    moreover have a: "set (asked c') = set (asked c)" using s unfolding asked_def f by auto
    moreover have "request_queue c \<noteq> []" using q(1) by simp
    ultimately have "conn_ok pk c'"
      using conn_okD [OF c] s l u(3) q(1) by (intro conn_ok_sub [OF c]) (auto simp: f pending_def)
    then show ?thesis unfolding m by (rule fair_rearrange [OF ok]) (simp add: a)
  qed
qed

lemma peer_speed_not_none: "peer_speed env c \<noteq> none"
  by (simp add: peer_speed_def Let_def)

lemma add_request_fair:
  assumes ok: "local_ok (pk, c)" and b: "in_range pk b" "\<not> have_piece pk (piece_index b)"
    "\<forall>q \<in> set (download_queue c) \<union> set (request_queue c). \<not> has_block b q"
  shows "fair_step (pk, c) (snd (add_request env r p crit rb b (pk, c)))"
proof -
  have c: "conn_ok pk c" using ok by (simp add: local_ok_def)
  have nb: "b \<notin> set (asked c)" "b \<notin> set (map pb_block (pending c))" using b(3) by (auto simp: asked_def pending_def has_block_def)
  obtain okay pk' where mk: "(okay, pk') = mark_as_downloading r b (Some p) (peer_speed env c) pk" by (metis prod.collapse)
  have same: "fair_step (pk, c) (pk, c')" if "c' = c\<lparr>conn_speed := s\<rparr>" for c' s
    unfolding that by (rule fair_rearrange [OF ok]) (use c in \<open>auto simp: conn_simps\<close>)
  show ?thesis
  proof (cases "upload_mode env \<or> disconnecting c")
    case True
    then show ?thesis using fair_step_refl [OF ok] by (auto simp: add_request_def)
  next
    case a: False
    show ?thesis
    proof (cases "rb \<and> (\<exists>q \<in> set (download_queue c) \<union> set (request_queue c). busy q)")
      case True
      then show ?thesis using a same by (auto simp: add_request_def Let_def)
    next
      case nobusy: False
      define pb where "pb = (new_pending b)\<lparr>busy := rb\<rparr>"
      have pb: "pb_block pb = b" "allocated pb" by (simp_all add: pb_def new_pending_def allocated_def)
      define c' where "c' = (if okay then if crit then c\<lparr>conn_speed := peer_speed env c, request_queue := insert_at (queued_time_critical c) pb (request_queue c),
          queued_time_critical := queued_time_critical c + 1\<rparr> else c\<lparr>conn_speed := peer_speed env c, request_queue := request_queue c @ [pb]\<rparr>
        else c\<lparr>conn_speed := peer_speed env c\<rparr>)"
      have res: "snd (add_request env r p crit rb b (pk, c)) = (pk', c')"
        using a nobusy mk by (auto simp: add_request_def Let_def c'_def pb_def split: prod.split)
      have "0 \<le> queued_time_critical c" "queued_time_critical c \<le> int (length (request_queue c))" using c by (auto simp: conn_ok_def)
      then obtain us vs where u: "request_queue c = us @ vs" "int (length us) = queued_time_critical c"
        "insert_at (queued_time_critical c) pb (request_queue c) = us @ pb # vs"
        by (rule insert_at_split)
      have c'': "conn_ok pk c'" "\<forall>b'. b' \<in> set (asked c') \<longleftrightarrow> b' \<in> set (asked c) \<or> b' = b \<and> okay"
        using c nb b(1) pb u a unfolding c'_def by (cases okay; cases crit; force simp: conn_simps)+
      show ?thesis unfolding res by (rule fair_ask [OF ok b(1) nb(1) b(2) peer_speed_not_none mk c''])
    qed
  qed
qed

end
