(* ===== verification/Request_Handlers.thy ===== *)
theory Request_Handlers
  imports Request_Invariant
begin

text \<open>
  Every handler of a connection keeps the invariant of its queues, and changes what the picker knows
  of the requests of a block only by what the connection itself does: \<open>fair_step\<close>. Handlers that call
  others are compositions of fair steps.
\<close>

lemma notin_image: "b \<notin> f ` A \<longleftrightarrow> (\<forall>x \<in> A. f x \<noteq> b)"
  by auto

section \<open>Asking for blocks\<close>

lemma request_loop_fair:
  assumes "local_ok st" "\<forall>b \<in> set bs. in_range (fst st) b \<and> \<not> have_piece (fst st) (piece_index b)"
    "request_loop env r p whole dont bs num bp st = (num', bp', st')"
  shows "fair_step st st'" "\<forall>b. bp' = Some b \<longrightarrow> bp = Some b \<or> b \<in> set bs"
proof -
  have "fair_step st st' \<and> (\<forall>b. bp' = Some b \<longrightarrow> bp = Some b \<or> b \<in> set bs)"
    using assms
  proof (induction bs arbitrary: num bp st)
    case Nil
    then show ?case by (auto intro: fair_step_refl)
  next
    case (Cons b bs)
    let ?inq = "\<exists>q \<in> set (download_queue (snd st)) \<union> set (request_queue (snd st)). has_block b q"
    let ?w = "whole = 0 \<and> num \<le> 0" and ?n = "block_num_peers (fst st) b > 0"
    note step = Cons.prems(3) [unfolded request_loop.simps]
    consider (stop) "?w \<or> ?n \<and> (num \<le> 0 \<or> dont)" | (busy) "\<not> ?w" ?n "\<not> (num \<le> 0 \<or> dont)"
      | (old) "\<not> ?w" "\<not> ?n" ?inq | (add) "\<not> ?w" "\<not> ?n" "\<not> ?inq" by blast
    then show ?case
    proof cases
      case stop
      then have "st' = st" "bp' = bp" using step by (auto split: if_splits)
      then show ?thesis using Cons.prems(1) by (auto intro: fair_step_refl)
    next
      case busy
      then have "request_loop env r p whole dont bs num (Some b) st = (num', bp', st')" using step by (simp only: if_True if_False)
      from Cons.IH [OF Cons.prems(1) _ this] Cons.prems(2) show ?thesis by auto
    next
      case old
      then have "request_loop env r p whole dont bs num bp st = (num', bp', st')" using step by (simp only: if_True if_False)
      from Cons.IH [OF Cons.prems(1) _ this] Cons.prems(2) show ?thesis by auto
    next
      case add
      obtain pk c where st: "st = (pk, c)" by (cases st)
      obtain ok st1 where a: "add_request env (r b) p False False b st = (ok, st1)" by (metis prod.collapse)
      have f: "fair_step st st1"
        using add_request_fair [of pk c b env "r b" p False False] Cons.prems(1,2) add(3) a unfolding st by auto
      have l: "local_ok st1" by (rule fair_step_local [OF Cons.prems(1) f])
      have "same_pieces (fst st) (fst st1)" using f by (auto simp: fair_step_def split: prod.splits)
      then have "\<forall>b \<in> set bs. in_range (fst st1) b \<and> \<not> have_piece (fst st1) (piece_index b)"
        using Cons.prems(2) same_pieces_in_range same_pieces_have by auto
      moreover have "request_loop env r p whole dont bs (if ok then num - 1 else num) bp st1 = (num', bp', st')"
        using step add a by (simp only: if_False Let_def prod.case)
      ultimately have "fair_step st1 st'" "\<forall>b. bp' = Some b \<longrightarrow> bp = Some b \<or> b \<in> set bs" using Cons.IH [OF l] by auto
      then show ?thesis using fair_step_trans [OF f] by auto
    qed
  qed
  then show "fair_step st st'" "\<forall>b. bp' = Some b \<longrightarrow> bp = Some b \<or> b \<in> set bs" by auto
qed

text \<open>Fields that the invariant does not mention.\<close>

lemma conn_ok_cong:
  assumes "request_queue c' = request_queue c" "download_queue c' = download_queue c"
    "queued_time_critical c' = queued_time_critical c" "outstanding_bytes c' = outstanding_bytes c"
    "disconnecting c' = disconnecting c" "peer_pieces c' = peer_pieces c" "suggested_pieces c' = suggested_pieces c"
  shows "conn_ok pk c' = conn_ok pk c" "asked c' = asked c"
  using assms by (simp_all add: conn_ok_def asked_def pending_def)

lemma fair_cong:
  assumes "fair_step st (pk, c)" "request_queue c' = request_queue c" "download_queue c' = download_queue c"
    "queued_time_critical c' = queued_time_critical c" "outstanding_bytes c' = outstanding_bytes c"
    "disconnecting c' = disconnecting c" "peer_pieces c' = peer_pieces c" "suggested_pieces c' = suggested_pieces c"
  shows "fair_step st (pk, c')"
  using assms(1) conn_ok_cong [OF assms(2-)] by (auto simp: fair_step_def others_def split: prod.splits)

text \<open>The parts of a call of \<open>request_a_block\<close> that gets as far as asking the picker.\<close>

lemma request_a_block_parts:
  assumes "\<not> (is_seed env pk \<or> no_download c \<or> upload_mode env \<or> disconnecting c \<or> \<not> files_checked env \<or> n \<le> 0)"
    and n: "n = desired_queue_size c - int (length (download_queue c)) - int (length (request_queue c))"
  obtains rq c1 af sp bs pk1 dont num bp pk2 c2 c3 where "c1 = c\<lparr>allowed_fast := af, conn_speed := sp\<rparr>"
    "pick rq n (suggested_pieces c) pk = (bs, pk1)"
    "request_loop env (r 0) p (req_whole rq) dont bs n None (pk1, c1) = (num, bp, pk2, c2)" "c3 = c2\<lparr>endgame_mode := True\<rparr>"
    "request_a_block env r pick p (pk, c) = (if num \<le> 0 then (pk2, c2\<lparr>endgame_mode := False\<rparr>)
        else case bp of None \<Rightarrow> (pk2, c3)
          | Some b \<Rightarrow> if length (download_queue c3) + length (request_queue c3) > 0 then (pk2, c3)
              else snd (add_request env (r 1 b) p False True b (pk2, c3)))"
proof -
  obtain rq c1 where rq: "prepare_request env p (pk, c) = (rq, c1)" by (metis prod.collapse)
  then obtain af sp where c1: "c1 = c\<lparr>allowed_fast := af, conn_speed := sp\<rparr>" by (auto simp: prepare_request_def Let_def)
  then have sug: "suggested_pieces c1 = suggested_pieces c" by simp
  obtain bs pk1 where pk1: "pick rq n (suggested_pieces c) pk = (bs, pk1)" by (metis prod.collapse)
  define dont where "dont \<longleftrightarrow> strict_end_game_mode env \<and> m_num_have pk1 + int (length (m_downloads pk1)) < int (num_pieces pk1)
      \<or> length (download_queue c1) + length (request_queue c1) > 0"
  obtain num bp pk2 c2 where loop: "request_loop env (r 0) p (req_whole rq) dont bs n None (pk1, c1) = (num, bp, pk2, c2)" by (metis prod.collapse)
  show ?thesis
  proof (rule that [OF c1 pk1 loop refl])
    show "request_a_block env r pick p (pk, c) = (if num \<le> 0 then (pk2, c2\<lparr>endgame_mode := False\<rparr>)
        else case bp of None \<Rightarrow> (pk2, c2\<lparr>endgame_mode := True\<rparr>)
          | Some b \<Rightarrow> if length (download_queue (c2\<lparr>endgame_mode := True\<rparr>)) + length (request_queue (c2\<lparr>endgame_mode := True\<rparr>)) > 0
              then (pk2, c2\<lparr>endgame_mode := True\<rparr>) else snd (add_request env (r 1 b) p False True b (pk2, c2\<lparr>endgame_mode := True\<rparr>)))"
      unfolding request_a_block_def using assms(1) rq pk1 sug loop
      unfolding Let_def prod.case dont_def n by (simp only: if_False prod.case)
  qed
qed

context block_picker
begin

lemma request_a_block_fair:
  assumes ok: "local_ok st"
  shows "fair_step st (request_a_block env r pick p st)"
proof -
  obtain pk c where st: "st = (pk, c)" by (cases st)
  have inv: "picker_inv pk" and cok: "conn_ok pk c" using ok by (auto simp: local_ok_def st)
  let ?num = "desired_queue_size c - int (length (download_queue c)) - int (length (request_queue c))"
  show ?thesis
  proof (cases "is_seed env pk \<or> no_download c \<or> upload_mode env \<or> disconnecting c \<or> \<not> files_checked env \<or> ?num \<le> 0")
    case True
    then show ?thesis using fair_step_refl [OF ok] by (auto simp: request_a_block_def Let_def st)
  next
    case False
    obtain rq c1 af sp bs pk1 dont num bp pk2 c2 c3 where c1: "c1 = c\<lparr>allowed_fast := af, conn_speed := sp\<rparr>"
      and pk1: "pick rq ?num (suggested_pieces c) pk = (bs, pk1)"
      and loop: "request_loop env (r 0) p (req_whole rq) dont bs ?num None (pk1, c1) = (num, bp, pk2, c2)"
      and c3: "c3 = c2\<lparr>endgame_mode := True\<rparr>"
      and res: "request_a_block env r pick p (pk, c) = (if num \<le> 0 then (pk2, c2\<lparr>endgame_mode := False\<rparr>)
        else case bp of None \<Rightarrow> (pk2, c3)
          | Some b \<Rightarrow> if length (download_queue c3) + length (request_queue c3) > 0 then (pk2, c3)
              else snd (add_request env (r 1 b) p False True b (pk2, c3)))"
      by (rule request_a_block_parts [OF False refl])
    have sug: "\<forall>x \<in> set (suggested_pieces c). x < num_pieces pk" using cok by (simp add: conn_ok_def)
    have p: "picker_inv pk1 \<and> same_pieces pk pk1 \<and> progress pk1 = progress pk \<and>
        (\<forall>b \<in> set bs. in_range pk b \<and> \<not> have_piece pk (piece_index b))"
      by (rule pick_ok [OF inv _ _ sug pk1]) (use False not_seed_pieces [OF inv] in auto)
    have f1: "fair_step st (pk1, c1)"
      using fair_picked [of pk c pk1] p ok by (auto simp: st c1 intro!: fair_cong [of "(pk, c)" pk1 c])
    note l1 = fair_step_local [OF ok f1]
    have range1: "\<forall>b \<in> set bs. in_range (fst (pk1, c1)) b \<and> \<not> have_piece (fst (pk1, c1)) (piece_index b)"
      using p same_pieces_in_range same_pieces_have by auto
    note f2 = request_loop_fair [OF l1 range1 loop]
    note f12 = fair_step_trans [OF f1 f2(1)]
    have fin: "fair_step st (pk2, c2\<lparr>endgame_mode := e\<rparr>)" for e using f12 by (rule fair_cong) simp_all
    then have fin3: "fair_step st (pk2, c3)" by (simp add: c3)
    show ?thesis
    proof (cases "num \<le> 0 \<or> bp = None \<or> length (download_queue c2) + length (request_queue c2) > 0")
      case True
      then show ?thesis using res [folded st] fin fin3 by (auto simp: c3 split: option.split)
    next
      case ask: False
      then obtain b where b: "bp = Some b" "b \<in> set bs" using f2(2) by auto
      have same: "same_pieces pk1 pk2" using f2(1) by (simp add: fair_step_def)
      have "fair_step (pk2, c3) (snd (add_request env (r 1 b) p False True b (pk2, c3)))"
        by (rule add_request_fair [OF fair_step_local [OF ok fin3]])
          (use ask range1 b(2) same_pieces_in_range [OF same] same_pieces_have [OF same] in \<open>auto simp: c3\<close>)
      then show ?thesis using res [folded st] ask b(1) fair_step_trans [OF fin3] by (simp add: c3)
    qed
  qed
qed

end

section \<open>Sending requests\<close>

lemma send_request_ok:
  assumes c: "conn_ok pk c" and rq: "request_queue c = q # qs" and env: "env_ok env pk" and nd: "\<not> disconnecting c"
    and c': "c' = send_request env q (c\<lparr>request_queue := qs, queued_time_critical := dec_critical (queued_time_critical c)\<rparr>)"
  shows "conn_ok pk c'" "set (asked c') = set (asked c)"
proof -
  let ?c1 = "c\<lparr>request_queue := qs, queued_time_critical := dec_critical (queued_time_critical c)\<rparr>"
  obtain run rest where run: "(if request_large_blocks c then merge_run (nat (full_piece_length env div block_size env)) (pb_block q) qs
      else ([], qs)) = (run, rest)" by (metis prod.collapse)
  then have qs: "qs = run @ rest" using merge_run_append by (auto split: if_splits)
  have f: "request_queue c' = rest" "download_queue c' = download_queue c @ q # run"
    "queued_time_critical c' = (dec_critical ^^ length run) (dec_critical (queued_time_critical c))"
    "outstanding_bytes c' = outstanding_bytes c + pr_length (to_req env (pb_block q)) + sum_list (map (\<lambda>q. pr_length (to_req env (pb_block q))) run)"
    "disconnecting c' = disconnecting c" "peer_pieces c' = peer_pieces c" "suggested_pieces c' = suggested_pieces c"
    using run by (cases "request_large_blocks c"; simp add: c' send_request_def Let_def)+
  note d = conn_okD [OF c]
  have al: "allocated q" "\<forall>x \<in> set run. allocated x" "\<forall>x \<in> set rest. allocated x" using d(4) rq qs by auto
  show a: "set (asked c') = set (asked c)" using al rq qs by (auto simp: asked_def f)
  have "0 \<le> pr_length (to_req env (pb_block x))" if "x \<in> set (q # run)" for x
    using to_req_positive [OF env, of "pb_block x"] d(6) that rq qs by (force simp: asked_def)
  then have bytes: "0 \<le> outstanding_bytes c'" using d(5) by (auto simp: f intro!: add_nonneg_nonneg sum_list_nonneg)
  have crit: "0 \<le> queued_time_critical c' \<and> queued_time_critical c' \<le> int (length (request_queue c'))"
  proof -
    have "0 \<le> dec_critical (queued_time_critical c)" "dec_critical (queued_time_critical c) \<le> int (length run + length rest)"
      using d(1,2) rq qs by (auto simp: dec_critical_def)
    from dec_critical_bounds [OF this] show ?thesis by (simp add: f)
  qed
  show "conn_ok pk c'"
    by (rule conn_ok_sub [OF c]) (use a al nd bytes crit rq qs in \<open>auto simp: f pending_def\<close>)
qed

lemma send_loop_fair:
  assumes "local_ok (pk, c)" "env_ok env pk" "\<not> disconnecting c"
  shows "fair_step (pk, c) (send_loop env r (pk, c))"
  using assms
proof (induction env r "(pk, c)" arbitrary: pk c rule: send_loop.induct)
  case (1 env r pk c)
  show ?case
  proof (cases "request_queue c")
    case Nil
    then show ?thesis using 1(4) fair_step_refl by (simp add: send_loop.simps)
  next
    case (Cons q qs)
    let ?c1 = "c\<lparr>request_queue := qs, queued_time_critical := dec_critical (queued_time_critical c)\<rparr>" and ?b = "pb_block q"
    have c: "conn_ok pk c" and inv: "picker_inv pk" using 1(4) by (auto simp: local_ok_def)
    note d = conn_okD [OF c]
    have al: "\<forall>x \<in> set (q # qs). allocated x" using d(4) Cons by simp
    have c1: "conn_ok pk ?c1"
      by (rule conn_ok_sub [OF c]) (use d Cons al 1(6) in \<open>auto simp: pending_def dec_critical_def asked_def\<close>)
    have dist: "\<forall>x \<in> set (download_queue c) \<union> set qs. pb_block x \<noteq> ?b" using d(3) Cons by (simp add: pending_def notin_image ball_Un)
    have a1: "\<forall>b'. b' \<in> set (asked ?c1) \<longleftrightarrow> b' \<in> set (asked c) \<and> b' \<noteq> ?b" using dist Cons by (auto simp: asked_def)
    have qa: "?b \<in> set (asked c)" using Cons by (simp add: asked_def)
    show ?thesis
    proof (cases "int (length (download_queue c)) < max_queue_size c \<or> queued_time_critical c > 0")
      case False
      then show ?thesis using 1(4) fair_step_refl Cons by (simp add: send_loop.simps)
    next
      case go: True
      note ih = 1(1-3) [OF Cons _ refl]
      consider (seed) "is_seed env pk"
        | (old) "\<not> is_seed env pk" "is_finished pk ?b \<or> is_downloaded pk ?b"
        | (new) "\<not> is_seed env pk" "\<not> (is_finished pk ?b \<or> is_downloaded pk ?b)" by blast
      then show ?thesis
      proof cases
        case seed
        have f: "fair_step (pk, c) (pk, ?c1)"
          by (rule fair_rearrange [OF 1(4) c1]) (use seed_got [OF inv 1(5) seed] in blast)
        have "fair_step (pk, ?c1) (send_loop env r (pk, ?c1))"
          by (rule ih(1)) (use go seed fair_step_local [OF 1(4) f] 1(5,6) in auto)
        then have "fair_step (pk, c) (send_loop env r (pk, ?c1))" by (rule fair_step_trans [OF f])
        moreover have "send_loop env r (pk, c) = send_loop env r (pk, ?c1)"
          using Cons go seed by (subst send_loop.simps) (simp add: Let_def)
        ultimately show ?thesis by simp
      next
        case old
        let ?pk = "abort_download (r ?b) ?b pk"
        have f: "fair_step (pk, c) (?pk, ?c1)" by (rule fair_give_up [OF 1(4) qa c1 a1])
        have same: "same_pieces pk ?pk" using f by (simp add: fair_step_def)
        have "fair_step (?pk, ?c1) (send_loop env r (?pk, ?c1))"
          by (rule ih(2)) (use go old fair_step_local [OF 1(4) f] 1(5,6) env_ok_same [OF same] in auto)
        then have "fair_step (pk, c) (send_loop env r (?pk, ?c1))" by (rule fair_step_trans [OF f])
        moreover have "send_loop env r (pk, c) = send_loop env r (?pk, ?c1)"
          using Cons go old by (subst send_loop.simps) (simp add: Let_def)
        ultimately show ?thesis by simp
      next
        case new
        let ?c2 = "send_request env q ?c1"
        note s = send_request_ok [OF c Cons 1(5,6) refl]
        have f: "fair_step (pk, c) (pk, ?c2)" by (rule fair_rearrange [OF 1(4) s(1)]) (use s(2) in auto)
        have nd: "\<not> disconnecting ?c2" using 1(6) by (simp add: send_request_def Let_def split: prod.split)
        have "fair_step (pk, ?c2) (send_loop env r (pk, ?c2))"
          by (rule ih(3)) (use go new fair_step_local [OF 1(4) f] 1(5) nd in auto)
        then have "fair_step (pk, c) (send_loop env r (pk, ?c2))" by (rule fair_step_trans [OF f])
        moreover have "send_loop env r (pk, c) = send_loop env r (pk, ?c2)"
          using Cons go new by (subst send_loop.simps) (simp add: Let_def)
        ultimately show ?thesis by simp
      qed
    qed
  qed
qed

lemma send_block_requests_fair:
  assumes "local_ok st" "env_ok env (fst st)"
  shows "fair_step st (send_block_requests env r st)"
  using send_loop_fair [of "fst st" "snd st" env "r 2"] assms fair_step_refl
  by (cases st) (auto simp: send_block_requests_def Let_def)

section \<open>Giving requests up\<close>

text \<open>Several requests given up at once.\<close>

lemma fair_give_up_list:
  assumes "local_ok (pk, c)" "distinct bs" "set bs \<subseteq> set (asked c)" "conn_ok pk c'" "set (asked c') = set (asked c) - set bs"
  shows "fair_step (pk, c) (fold (\<lambda>b. abort_download (r b) b) bs pk, c')"
  using assms
proof (induction bs arbitrary: pk c)
  case Nil
  then show ?case using fair_rearrange [of pk c c'] by simp
next
  case (Cons b bs)
  have c: "conn_ok pk c" using Cons.prems(1) by (simp add: local_ok_def)
  let ?P = "\<lambda>q. pb_block q \<noteq> b"
  define c1 where "c1 = c\<lparr>download_queue := filter ?P (download_queue c), request_queue := filter ?P (request_queue c), queued_time_critical := 0\<rparr>"
  have pend: "pending c1 = filter ?P (pending c)" by (simp add: pending_def c1_def)
  have a1: "set (asked c1) = set (asked c) - {b}" by (auto simp: asked_def c1_def)
  have c1: "conn_ok pk c1"
  proof (rule conn_ok_sub [OF c])
    show "mset (map pb_block (pending c1)) \<subseteq># mset (map pb_block (pending c))"
      unfolding pend by (simp add: image_mset_subseteq_mono)
  qed (use a1 conn_okD [OF c] in \<open>auto simp: c1_def pending_def\<close>)
  have f: "fair_step (pk, c) (abort_download (r b) b pk, c1)"
    by (rule fair_give_up [OF Cons.prems(1) _ c1]) (use Cons.prems(3) a1 in auto)
  have same: "same_pieces pk (abort_download (r b) b pk)" using f by (simp add: fair_step_def)
  have "fair_step (abort_download (r b) b pk, c1) (fold (\<lambda>b. abort_download (r b) b) bs (abort_download (r b) b pk), c')"
    by (rule Cons.IH [OF fair_step_local [OF Cons.prems(1) f]])
      (use Cons.prems conn_ok_same_pieces [OF same] a1 in auto)
  then show ?case using fair_step_trans [OF f] by simp
qed

lemma fold_abort_map: "fold (\<lambda>q. abort_download (r (pb_block q)) (pb_block q)) qs = fold (\<lambda>b. abort_download (r b) b) (map pb_block qs)"
  by (simp add: fold_map comp_def)

lemma distinct_queues:
  assumes "conn_ok pk c"
  shows "distinct (map pb_block (request_queue c))" "distinct (map pb_block (download_queue c))"
    "pb_block ` set (download_queue c) \<inter> pb_block ` set (request_queue c) = {}"
  using conn_okD(3) [OF assms] by (auto simp: pending_def)

lemma incoming_choke_fair:
  assumes ok: "local_ok st" and env: "env_ok env (fst st)"
  shows "fair_step st (incoming_choke env r st)"
proof -
  obtain pk c where st: "st = (pk, c)" by (cases st)
  have inv: "picker_inv pk" and c: "conn_ok pk c" using ok by (auto simp: local_ok_def st)
  note dq = distinct_queues [OF c]
  define c' where "c' = c\<lparr>peer_choked := True, request_queue := [], queued_time_critical := 0\<rparr>"
  have a: "set (asked c') = set (asked c) - set (map pb_block (request_queue c))"
    using dq(3) by (auto simp: asked_def c'_def)
  have c': "conn_ok pk c'" by (rule conn_ok_sub [OF c]) (use conn_okD [OF c] a in \<open>auto simp: c'_def pending_def\<close>)
  show ?thesis
  proof (cases "disconnecting c \<or> parole c")
    case True
    then show ?thesis using fair_step_refl [OF ok] fair_cong [OF fair_step_refl [OF ok [unfolded st]], of "c\<lparr>peer_choked := True\<rparr>"]
      by (auto simp: incoming_choke_def Let_def st)
  next
    case nd: False
    show ?thesis
    proof (cases "is_seed env pk")
      case True
      then have "incoming_choke env r st = (pk, c')" using nd by (simp add: incoming_choke_def Let_def st c'_def)
      moreover have "fair_step (pk, c) (pk, c')"
        by (rule fair_rearrange [OF ok [unfolded st] c']) (use seed_got [OF inv _ True] env in \<open>auto simp: st\<close>)
      ultimately show ?thesis by (simp add: st)
    next
      case False
      then have "incoming_choke env r st = (fold (\<lambda>b. abort_download (r 6 b) b) (map pb_block (request_queue c)) pk, c')"
        using nd by (simp add: incoming_choke_def Let_def st c'_def fold_abort_map)
      then show ?thesis using fair_give_up_list [OF ok [unfolded st] dq(1) _ c' a, of "r 6"] by (auto simp: st asked_def)
    qed
  qed
qed

text \<open>An entry taken out of a queue.\<close>

lemma erase_sent:
  assumes c: "conn_ok pk c" and q: "download_queue c = ys @ q # zs" and rq: "request_queue c' = request_queue c" "download_queue c' = ys @ zs"
    "queued_time_critical c' = queued_time_critical c" "0 \<le> outstanding_bytes c'" "disconnecting c' = disconnecting c"
    "peer_pieces c' = peer_pieces c" "set (suggested_pieces c') \<subseteq> set (suggested_pieces c)"
  shows "conn_ok pk c'" "b \<in> set (asked c') \<longleftrightarrow> b \<in> set (asked c) \<and> \<not> (b = pb_block q \<and> allocated q)"
    "pb_block q \<notin> pb_block ` set (pending c')"
proof -
  have d: "\<forall>x \<in> set (ys @ zs @ request_queue c). pb_block x \<noteq> pb_block q"
    using conn_okD(3) [OF c] by (auto simp: pending_def q notin_image)
  then show "pb_block q \<notin> pb_block ` set (pending c')" by (auto simp: pending_def rq notin_image)
  show a: "b \<in> set (asked c') \<longleftrightarrow> b \<in> set (asked c) \<and> \<not> (b = pb_block q \<and> allocated q)" for b
    using d by (auto simp: asked_def q rq)
  show "conn_ok pk c'"
    by (rule conn_ok_sub [OF c]) (use conn_okD [OF c] a q in \<open>auto simp: pending_def rq\<close>)
qed

lemma erase_queued:
  assumes c: "conn_ok pk c" and q: "request_queue c = ys @ q # zs" and dq: "download_queue c' = download_queue c" "request_queue c' = ys @ zs"
    "queued_time_critical c' = queued_time_critical c - (if int (length ys) < queued_time_critical c then 1 else 0)"
    "0 \<le> outstanding_bytes c'" "disconnecting c' = disconnecting c"
    "peer_pieces c' = peer_pieces c" "set (suggested_pieces c') \<subseteq> set (suggested_pieces c)"
  shows "conn_ok pk c'" "b \<in> set (asked c') \<longleftrightarrow> b \<in> set (asked c) \<and> b \<noteq> pb_block q" "pb_block q \<in> set (asked c)"
    "pb_block q \<notin> pb_block ` set (pending c')"
proof -
  have d: "\<forall>x \<in> set (ys @ zs @ download_queue c). pb_block x \<noteq> pb_block q"
    using conn_okD(3) [OF c] by (auto simp: pending_def q notin_image)
  then show "pb_block q \<notin> pb_block ` set (pending c')" by (auto simp: pending_def dq notin_image)
  show "pb_block q \<in> set (asked c)" by (simp add: asked_def q)
  show a: "b \<in> set (asked c') \<longleftrightarrow> b \<in> set (asked c) \<and> b \<noteq> pb_block q" for b
    using d by (auto simp: asked_def q dq)
  show "conn_ok pk c'"
    by (rule conn_ok_sub [OF c]) (use conn_okD [OF c] a q in \<open>auto simp: pending_def dq\<close>)
qed

lemma fair_step_pieces: "fair_step st st' \<Longrightarrow> same_pieces (fst st) (fst st')"
  by (auto simp: fair_step_def split: prod.splits)

lemma fair_step_env: "fair_step st st' \<Longrightarrow> env_ok env (fst st') = env_ok env (fst st)"
  by (rule env_ok_same [OF fair_step_pieces])

lemma give_up_sent_fold:
  "0 \<le> bytes \<Longrightarrow> \<exists>bytes' \<ge> 0. give_up_sent env r qs (pk, bytes) =
     (fold (\<lambda>b. abort_download (r b) b) (map pb_block (filter allocated qs)) pk, bytes')"
proof (induction qs arbitrary: pk bytes)
  case (Cons q qs)
  from Cons.IH [of "max 0 (bytes - pr_length (to_req env (pb_block q)))"] show ?case by auto
qed auto

lemma skip_loop_fold:
  "0 \<le> bytes \<Longrightarrow> skip_loop env r limit qs (pk, bytes) = (kept, pk', bytes') \<Longrightarrow>
     \<exists>dropped. pk' = fold (\<lambda>b. abort_download (r b) b) (map pb_block (filter allocated dropped)) pk \<and> 0 \<le> bytes' \<and>
       mset (map (\<lambda>q. (pb_block q, allocated q)) (kept @ dropped)) = mset (map (\<lambda>q. (pb_block q, allocated q)) qs)"
proof (induction qs arbitrary: pk bytes kept)
  case (Cons q qs)
  define q' where "q' = q\<lparr>skipped := (skipped q + 1) mod 2 ^ 16\<rparr>"
  have q': "pb_block q' = pb_block q" "allocated q' = allocated q" by (simp_all add: q'_def allocated_def)
  show ?case
  proof (cases "drop_skipped_requests env \<and> int (skipped q') > limit")
    case True
    let ?pk = "if allocated q then abort_download (r (pb_block q)) (pb_block q) pk else pk"
    have "skip_loop env r limit qs (?pk, max 0 (bytes - pr_length (to_req env (pb_block q)))) = (kept, pk', bytes')"
      using Cons.prems(2) True unfolding skip_loop.simps Let_def q'_def [symmetric] q' by (simp only: if_True simp_thms)
    from Cons.IH [OF _ this] obtain dropped where d: "pk' = fold (\<lambda>b. abort_download (r b) b) (map pb_block (filter allocated dropped)) ?pk" "0 \<le> bytes'"
      "mset (map (\<lambda>q. (pb_block q, allocated q)) (kept @ dropped)) = mset (map (\<lambda>q. (pb_block q, allocated q)) qs)" by auto
    then show ?thesis by (intro exI [of _ "q # dropped"]) simp
  next
    case False
    have "(case skip_loop env r limit qs (pk, bytes) of (kept, st) \<Rightarrow> (q' # kept, st)) = (kept, pk', bytes')"
      using Cons.prems(2) False unfolding skip_loop.simps Let_def q'_def [symmetric] by (simp only: if_False)
    then obtain kept' where k: "skip_loop env r limit qs (pk, bytes) = (kept', pk', bytes')" "kept = q' # kept'"
      by (cases "skip_loop env r limit qs (pk, bytes)") auto
    from Cons.IH [OF Cons.prems(1) k(1)] show ?thesis by (auto simp: k(2) q')
  qed
qed auto

lemma same_downloads:
  assumes "m_downloads pk' = m_downloads pk" "m_block_info pk' = m_block_info pk" "m_blocks_per_piece pk' = m_blocks_per_piece pk"
    "m_blocks_in_last_piece pk' = m_blocks_in_last_piece pk" "map have_pos (m_piece_map pk') = map have_pos (m_piece_map pk)"
  shows "same_pieces pk pk'" "progress pk' = progress pk"
proof -
  have n: "num_pieces pk' = num_pieces pk" using map_eq_imp_length_eq [OF assms(5)] by (simp add: num_pieces_def)
  then have b: "blocks_in_piece pk' = blocks_in_piece pk" using assms(3,4) by (simp add: blocks_in_piece_def num_pieces_def fun_eq_iff)
  have "have_pos (m_piece_map pk' ! x) = have_pos (m_piece_map pk ! x)" if "x < num_pieces pk" for x
    using arg_cong [OF assms(5), of "\<lambda>l. l ! x"] that n by (simp add: num_pieces_def)
  then show "same_pieces pk pk'" using n b by (simp add: same_pieces_def)
  show "progress pk' = progress pk" using assms(1,2) b by (simp add: progress_def blocks_of_def)
qed

lemma dec_refcount_same:
  assumes "picker_inv pk" "length m = num_pieces pk"
  shows "picker_inv (dec_refcount_all pk)" "same_pieces pk (dec_refcount_all pk)" "progress (dec_refcount_all pk) = progress pk"
    "picker_inv (dec_refcount_mask m pk)" "same_pieces pk (dec_refcount_mask m pk)" "progress (dec_refcount_mask m pk) = progress pk"
proof -
  have h: "have_pos (dec_peer_count p) = have_pos p" for p by (simp add: have_pos_def dec_peer_count_def)
  have z: "map have_pos (map (\<lambda>(b, p). if b then dec_peer_count p else p) (zip m (m_piece_map pk)) @ drop (length m) (m_piece_map pk))
      = map have_pos (m_piece_map pk)"
    using assms(2) by (intro nth_equalityI) (simp_all add: num_pieces_def h case_prod_beta)
  show "picker_inv (dec_refcount_all pk)" by (rule dec_refcount_all_inv [OF assms(1)])
  show "same_pieces pk (dec_refcount_all pk)" "progress (dec_refcount_all pk) = progress pk"
    by (rule same_downloads; simp add: dec_refcount_all_def Let_def h)+
  show "picker_inv (dec_refcount_mask m pk)"
    unfolding dec_refcount_mask_def using assms by (intro refcount_mask_inv) (auto simp: dec_peer_count_marks)
  show "same_pieces pk (dec_refcount_mask m pk)" "progress (dec_refcount_mask m pk) = progress pk"
    by (rule same_downloads; use z in \<open>simp add: dec_refcount_mask_def refcount_mask_def Let_def\<close>)+
qed

lemma disconnect_fair:
  assumes ok: "local_ok st"
  shows "fair_step st (disconnect env r st)"
proof -
  obtain pk c where st: "st = (pk, c)" by (cases st)
  show ?thesis
  proof (cases "disconnecting c")
    case True
    then show ?thesis using fair_step_refl [OF ok] by (simp add: disconnect_def st)
  next
    case False
    have inv: "picker_inv pk" and c: "conn_ok pk c" using ok by (auto simp: local_ok_def st)
    note dq = distinct_queues [OF c]
    let ?ab = "\<lambda>i. fold (\<lambda>b. abort_download (r i b) b)"
    obtain bytes where b: "0 \<le> bytes" "give_up_sent env (r 7) (rev (download_queue c)) (pk, outstanding_bytes c) =
        (?ab 7 (map pb_block (filter allocated (rev (download_queue c)))) pk, bytes)"
      using give_up_sent_fold [OF conn_okD(5) [OF c], of env "r 7" "rev (download_queue c)" pk] by blast
    define c1 where "c1 = c\<lparr>download_queue := []\<rparr>"
    define c2 where "c2 = c\<lparr>download_queue := [], request_queue := [], outstanding_bytes := bytes, queued_time_critical := 0, disconnecting := True\<rparr>"
    define pk1 where "pk1 = ?ab 7 (map pb_block (filter allocated (rev (download_queue c)))) pk"
    define pk2 where "pk2 = ?ab 8 (map pb_block (rev (request_queue c))) pk1"
    have d1: "distinct (map pb_block (filter allocated (rev (download_queue c))))"
      using dq(2) by (auto simp: distinct_map intro: inj_on_subset)
    have c1: "conn_ok pk c1"
      by (rule conn_ok_sub [OF c]) (use conn_okD [OF c] False in \<open>simp_all add: c1_def pending_def asked_def\<close>)
    have a1: "set (asked c1) = set (asked c) - set (map pb_block (filter allocated (rev (download_queue c))))"
      using dq(3) by (auto simp: asked_def c1_def)
    have f1: "fair_step (pk, c) (pk1, c1)" unfolding pk1_def
      by (rule fair_give_up_list [OF ok [unfolded st] d1 _ c1 a1]) (auto simp: asked_def)
    note l1 = fair_step_local [OF ok [unfolded st] f1]
    have c2: "conn_ok pk c2" by (rule conn_ok_sub [OF c]) (use b in \<open>auto simp: c2_def pending_def asked_def\<close>)
    have s1: "same_pieces pk pk1" using fair_step_pieces [OF f1] by simp
    have f2: "fair_step (pk1, c1) (pk2, c2)" unfolding pk2_def
      by (rule fair_give_up_list [OF l1])
        (use dq(1) c2 conn_ok_same_pieces [OF s1] in \<open>simp_all add: asked_def c1_def c2_def flip: rev_map\<close>)
    note f12 = fair_step_trans [OF f1 f2]
    have l2: "local_ok (pk2, c2)" by (rule fair_step_local [OF l1 f2])
    then have "length (peer_pieces c) = num_pieces pk2" "picker_inv pk2" by (auto simp: local_ok_def conn_ok_def c2_def)
    note rc = dec_refcount_same [OF this(2,1)]
    have "fair_step (pk2, c2) (dec_refcount_all pk2, c2)" "fair_step (pk2, c2) (dec_refcount_mask (peer_pieces c) pk2, c2)"
      by (rule fair_picked [OF l2 rc(1-3)], rule fair_picked [OF l2 rc(4-6)])
    then have "fair_step (pk, c) (dec_refcount_all pk2, c2)" "fair_step (pk, c) (dec_refcount_mask (peer_pieces c) pk2, c2)"
      using fair_step_trans [OF f12] by auto
    moreover have "disconnect env r st = (if peer_pieces c \<noteq> [] \<and> (\<forall>x \<in> set (peer_pieces c). x) then dec_refcount_all pk2
        else dec_refcount_mask (peer_pieces c) pk2, c2)"
      unfolding disconnect_def st Let_def prod.case b(2) fold_abort_map [of "r 8"] pk1_def pk2_def c2_def
      using False by (simp only: if_False)
    ultimately show ?thesis by (simp add: st)
  qed
qed

lemma start_receive_piece_fair:
  assumes ok: "local_ok st" and len: "0 \<le> pr_length req"
  shows "fair_step st (start_receive_piece env r req st)"
proof -
  obtain pk c where st: "st = (pk, c)" by (cases st)
  have c: "conn_ok pk c" using ok by (simp add: local_ok_def st)
  let ?b = "block_at env req" and ?c = "c\<lparr>receiving_block := Some (block_at env req)\<rparr>"
  have f0: "fair_step st (pk, ?c)" using fair_step_refl [OF ok] unfolding st by (rule fair_cong) simp_all
  have bytes: "0 \<le> outstanding_bytes c + pr_length req" using conn_okD(5) [OF c] len by simp
  show ?thesis
  proof (cases "verify_piece env pk req")
    case False
    then have "start_receive_piece env r req st = disconnect env r (pk, ?c)" by (simp add: start_receive_piece_def st Let_def)
    then show ?thesis using fair_step_trans [OF f0 disconnect_fair [OF fair_step_local [OF ok f0]]] by simp
  next
    case v: True
    show ?thesis
    proof (cases "(\<exists>q \<in> set (download_queue c). has_block ?b q) \<or> disconnecting c")
      case True
      then show ?thesis using v f0 by (simp add: start_receive_piece_def st Let_def)
    next
      case new: False
      show ?thesis
      proof (cases "find_index (has_block ?b) (request_queue c)")
        case None
        define c' where "c' = ?c\<lparr>download_queue := (new_pending ?b)\<lparr>not_wanted := True\<rparr> # download_queue c,
          outstanding_bytes := outstanding_bytes c + pr_length req\<rparr>"
        have res: "start_receive_piece env r req st = (pk, c')"
          using v new None by (simp add: start_receive_piece_def st Let_def c'_def)
        have nb: "\<forall>x \<in> set (pending c). pb_block x \<noteq> ?b"
          using new None by (auto simp: pending_def find_index_None_set has_block_def)
        have "distinct (map pb_block (pending c'))" using conn_okD(3) [OF c] nb
          by (auto simp: pending_def c'_def new_pending_def notin_image)
        moreover have a: "asked c' = asked c" by (simp add: asked_def c'_def allocated_def)
        ultimately have "conn_ok pk c'" using c bytes new unfolding conn_ok_def a by (simp add: c'_def)
        then show ?thesis unfolding res unfolding st by (rule fair_rearrange [OF ok [unfolded st]]) (simp add: a)
      next
        case (Some i)
        obtain ys q zs where q: "request_queue c = ys @ q # zs" "i = length ys" "has_block ?b q" "erase_at i (request_queue c) = ys @ zs"
          using find_index_split [OF Some] by metis
        define c1 where "c1 = c\<lparr>request_queue := ys @ zs,
          queued_time_critical := queued_time_critical c - (if int (length ys) < queued_time_critical c then 1 else 0)\<rparr>"
        define c' where "c' = ?c\<lparr>queued_time_critical := queued_time_critical c - (if int (length ys) < queued_time_critical c then 1 else 0),
          request_queue := ys @ zs, download_queue := new_pending ?b # download_queue c,
          outstanding_bytes := outstanding_bytes c + pr_length req\<rparr>"
        have res: "start_receive_piece env r req st = (pk, c')"
          using v new Some q by (simp add: start_receive_piece_def st Let_def c'_def)
        have qb: "pb_block q = ?b" using q(3) by (simp add: has_block_def)
        note e = erase_queued [of pk c ys q zs c1, OF c q(1)]
        have c1: "conn_ok pk c1" and n1: "?b \<notin> pb_block ` set (pending c1)"
          using e(1,4) conn_okD(5) [OF c] qb by (simp_all add: c1_def)
        have ab: "?b \<in> set (asked c)" using qb by (auto simp: asked_def q(1))
        have a: "b \<in> set (asked c') \<longleftrightarrow> b \<in> set (asked c)" for b
          using e(2) [of b] conn_okD(5) [OF c] ab qb by (auto simp: c'_def c1_def asked_def new_pending_def allocated_def)
        have "distinct (map pb_block (pending c'))"
          using conn_okD(3) [OF c1] n1 by (auto simp: pending_def c'_def c1_def new_pending_def)
        then have "conn_ok pk c'"
          using conn_okD [OF c1] c bytes new a by (auto simp: conn_ok_def c'_def c1_def)
        then show ?thesis unfolding res unfolding st by (rule fair_rearrange [OF ok [unfolded st]]) (use a in auto)
      qed
    qed
  qed
qed

context block_picker
begin

lemma request_more_fair:
  assumes "local_ok st" "env_ok env (fst st)"
  shows "fair_step st (request_more env r pick p st)"
proof -
  note f = request_a_block_fair [OF assms(1), of env r p]
  have "fair_step (request_a_block env r pick p st) (request_more env r pick p st)"
    unfolding request_more_def
    by (rule send_block_requests_fair [OF fair_step_local [OF assms(1) f]]) (use fair_step_env [OF f] assms(2) in simp)
  then show ?thesis by (rule fair_step_trans [OF f])
qed

lemma incoming_reject_request_fair:
  assumes ok: "local_ok st" and env: "env_ok env (fst st)"
  shows "fair_step st (incoming_reject_request env r pick p req st)"
proof -
  obtain pk c where st: "st = (pk, c)" by (cases st)
  have inv: "picker_inv pk" and c: "conn_ok pk c" using ok by (auto simp: local_ok_def st)
  show ?thesis
  proof (cases "disconnecting c")
    case True
    then show ?thesis using fair_step_refl [OF ok] by (simp add: incoming_reject_request_def st)
  next
    case nd: False
    define st1 where "st1 = (case find_index (\<lambda>q. match_request env req (pb_block q)) (download_queue c) of None \<Rightarrow> (pk, c)
      | Some i \<Rightarrow>
          let q = download_queue c ! i;
              c = c\<lparr>download_queue := erase_at i (download_queue c), outstanding_bytes := max 0 (outstanding_bytes c - pr_length req)\<rparr>
          in if parole c then (pk, if allocated q then c\<lparr>request_queue := q # request_queue c\<rparr> else c)
             else if \<not> is_seed env pk \<and> allocated q then (abort_download (r 3 (pb_block q)) (pb_block q) pk, c)
             else (pk, c))"
    have f1: "fair_step st st1"
    proof (cases "find_index (\<lambda>q. match_request env req (pb_block q)) (download_queue c)")
      case None
      then show ?thesis using fair_step_refl [OF ok] by (simp add: st1_def st)
    next
      case (Some i)
      obtain ys q zs where q: "download_queue c = ys @ q # zs" "erase_at i (download_queue c) = ys @ zs" "download_queue c ! i = q"
        using find_index_split [OF Some] by metis
      define c1 where "c1 = c\<lparr>download_queue := ys @ zs, outstanding_bytes := max 0 (outstanding_bytes c - pr_length req)\<rparr>"
      have e: "conn_ok pk c1" "\<And>b. b \<in> set (asked c1) \<longleftrightarrow> b \<in> set (asked c) \<and> \<not> (b = pb_block q \<and> allocated q)"
          "pb_block q \<notin> pb_block ` set (pending c1)"
        using erase_sent [of pk c ys q zs c1, OF c q(1)] by (simp_all add: c1_def)
      have aq: "pb_block q \<in> set (asked c)" if "allocated q" using that by (auto simp: asked_def q(1))
      show ?thesis
      proof (cases "parole c \<and> allocated q")
        case True
        define c2 where "c2 = c1\<lparr>request_queue := q # request_queue c\<rparr>"
        have "st1 = (pk, c2)" using Some True q by (simp add: st1_def Let_def c2_def c1_def)
        moreover have a: "b \<in> set (asked c2) \<longleftrightarrow> b \<in> set (asked c)" for b
          using e(2) [of b] True by (auto simp: c2_def c1_def asked_def q(1))
        moreover have "conn_ok pk c2"
          using e(1,3) True a conn_okD(6) [OF c] nd by (auto simp: conn_ok_def pending_def c2_def c1_def)
        ultimately show ?thesis using fair_rearrange [OF ok [unfolded st]] by (simp add: st)
      next
        case np: False
        show ?thesis
        proof (cases "\<not> parole c \<and> \<not> is_seed env pk \<and> allocated q")
          case True
          then have "st1 = (abort_download (r 3 (pb_block q)) (pb_block q) pk, c1)" using Some q by (simp add: st1_def Let_def c1_def)
          then show ?thesis using fair_give_up [OF ok [unfolded st] aq e(1)] e(2) True by (auto simp: st)
        next
          case False
          then have "st1 = (pk, c1)" using Some q np by (auto simp: st1_def Let_def c1_def)
          moreover have "fair_step (pk, c) (pk, c1)"
            by (rule fair_rearrange [OF ok [unfolded st] e(1)])
              (use e(2) False np seed_got [OF inv, of env] env in \<open>auto simp: st\<close>)
          ultimately show ?thesis by (simp add: st)
        qed
      qed
    qed
    obtain pk1 c1 where st1: "st1 = (pk1, c1)" by (cases st1)
    define c2 where "c2 = (if pr_piece req < 0 then c1
      else if peer_choked c1 then c1\<lparr>allowed_fast := remove1 (nat (pr_piece req)) (allowed_fast c1)\<rparr>
      else c1\<lparr>suggested_pieces := remove1 (nat (pr_piece req)) (suggested_pieces c1)\<rparr>)"
    note l1 = fair_step_local [OF ok f1, unfolded st1]
    have "conn_ok pk1 c1" using l1 by (simp add: local_ok_def)
    then have "conn_ok pk1 c2" "asked c2 = asked c1"
      by (auto simp: conn_ok_def c2_def asked_def pending_def dest: notin_set_remove1 split: if_splits)
    then have "fair_step (pk1, c1) (pk1, c2)" by (intro fair_rearrange [OF l1]) auto
    then have f2: "fair_step st (pk1, c2)" using fair_step_trans [OF f1] st1 by simp
    have "fair_step st (request_more env r pick p (pk1, c2))"
      by (rule fair_step_trans [OF f2 request_more_fair [OF fair_step_local [OF ok f2]]]) (use fair_step_env [OF f2] env in simp)
    moreover have "incoming_reject_request env r pick p req st =
        (if request_queue c2 = [] \<and> length (download_queue c2) < 2 then request_more env r pick p (pk1, c2) else (pk1, c2))"
      using nd st1 unfolding incoming_reject_request_def st Let_def prod.case st1_def c2_def request_more_def by (simp only: if_False prod.case)
    ultimately show ?thesis using f2 by simp
  qed
qed

lemma write_cancel_fair:
  assumes ok: "local_ok st" and env: "env_ok env (fst st)"
  shows "fair_step st (write_cancel env r pick p req st)"
proof -
  obtain pk c where st: "st = (pk, c)" by (cases st)
  let ?c = "c\<lparr>sent := sent c @ [Cancel req]\<rparr>"
  have f: "fair_step st (pk, ?c)" using fair_step_refl [OF ok] unfolding st by (rule fair_cong) simp_all
  have "fair_step st (incoming_reject_request env r pick p req (pk, ?c))"
    by (rule fair_step_trans [OF f incoming_reject_request_fair [OF fair_step_local [OF ok f]]]) (use env in \<open>simp add: st\<close>)
  then show ?thesis using f by (simp add: write_cancel_def st Let_def)
qed

lemma connection_cancel_fair:
  assumes ok: "local_ok st" and env: "env_ok env (fst st)"
  shows "fair_step st (connection_cancel env r pick p b st)"
proof -
  obtain pk c where st: "st = (pk, c)" by (cases st)
  have c: "conn_ok pk c" using ok by (simp add: local_ok_def st)
  note stay = fair_step_refl [OF ok]
  show ?thesis
  proof (cases "disconnecting c \<or> \<not> is_requested pk b")
    case True
    then show ?thesis using stay by (auto simp: connection_cancel_def st)
  next
    case go: False
    show ?thesis
    proof (cases "find_index (has_block b) (download_queue c)")
      case (Some i)
      then show ?thesis using go stay write_cancel_fair [OF ok env] by (auto simp: connection_cancel_def st)
    next
      case dq: None
      show ?thesis
      proof (cases "find_index (has_block b) (request_queue c)")
        case None
        then show ?thesis using go dq stay by (simp add: connection_cancel_def st)
      next
        case (Some i)
        obtain ys q zs where q: "request_queue c = ys @ q # zs" "i = length ys" "has_block b q" "erase_at i (request_queue c) = ys @ zs"
          using find_index_split [OF Some] by metis
        define c' where "c' = c\<lparr>queued_time_critical := queued_time_critical c - (if int (length ys) < queued_time_critical c then 1 else 0),
          request_queue := ys @ zs\<rparr>"
        have qb: "pb_block q = b" using q(3) by (simp add: has_block_def)
        have e: "conn_ok pk c'" "\<forall>b'. b' \<in> set (asked c') \<longleftrightarrow> b' \<in> set (asked c) \<and> b' \<noteq> b" "b \<in> set (asked c)"
          using erase_queued [of pk c ys q zs c', OF c q(1)] conn_okD(5) [OF c] qb by (simp_all add: c'_def)
        have "connection_cancel env r pick p b st = (abort_download (r 4 b) b pk, c')"
          using go dq Some q(2,4) by (simp add: connection_cancel_def st c'_def)
        then show ?thesis using fair_give_up [OF ok [unfolded st] e(3,1,2)] by (simp add: st)
      qed
    qed
  qed
qed

lemma fold_fair:
  assumes step: "\<And>x st. local_ok st \<Longrightarrow> env_ok env (fst st) \<Longrightarrow> fair_step st (f x st)"
  shows "local_ok st \<Longrightarrow> env_ok env (fst st) \<Longrightarrow> fair_step st (fold f xs st)"
proof (induction xs arbitrary: st)
  case (Cons x xs)
  note f = step [OF Cons.prems, of x]
  have "fair_step (f x st) (fold f xs (f x st))"
    by (rule Cons.IH [OF fair_step_local [OF Cons.prems(1) f]]) (use fair_step_env [OF f] Cons.prems(2) in simp)
  then show ?case using fair_step_trans [OF f] by simp
qed (auto intro: fair_step_refl)

lemma cancel_all_requests_fair:
  assumes ok: "local_ok st" and env: "env_ok env (fst st)"
  shows "fair_step st (cancel_all_requests env r pick p st)"
proof -
  obtain pk c where st: "st = (pk, c)" by (cases st)
  show ?thesis
  proof (cases "disconnecting c")
    case True
    then show ?thesis using fair_step_refl [OF ok] by (simp add: cancel_all_requests_def st)
  next
    case False
    have c: "conn_ok pk c" using ok by (simp add: local_ok_def st)
    note dq = distinct_queues [OF c]
    define c1 where "c1 = c\<lparr>request_queue := [], queued_time_critical := 0\<rparr>"
    define pk1 where "pk1 = fold (\<lambda>b. abort_download (r 5 b) b) (map pb_block (rev (request_queue c))) pk"
    have a: "set (asked c1) = set (asked c) - set (map pb_block (rev (request_queue c)))"
      using dq(3) by (auto simp: asked_def c1_def)
    have c1: "conn_ok pk c1" by (rule conn_ok_sub [OF c]) (use conn_okD [OF c] a False in \<open>simp_all add: c1_def pending_def asked_def\<close>)
    have f: "fair_step st (pk1, c1)"
      unfolding pk1_def st by (rule fair_give_up_list [OF ok [unfolded st] _ _ c1 a]) (use dq(1) in \<open>simp_all add: asked_def flip: rev_map\<close>)
    define g where "g = (\<lambda>(q :: pending_block) st. if receiving_block (snd st) = Some (pb_block q) then st
      else write_cancel env (\<lambda>i. r (20 + i)) pick p (to_req env (pb_block q)) st)"
    have g: "fair_step st (g q st)" if "local_ok st" "env_ok env (fst st)" for q st
      using write_cancel_fair [OF that] fair_step_refl [OF that(1)] by (simp add: g_def)
    have "fair_step (pk1, c1) (fold g (download_queue c1) (pk1, c1))"
      by (rule fold_fair [OF g fair_step_local [OF ok f]]) (use fair_step_env [OF f] env in auto)
    then have "fair_step st (fold g (download_queue c1) (pk1, c1))" by (rule fair_step_trans [OF f])
    moreover have "cancel_all_requests env r pick p st = fold g (download_queue c1) (pk1, c1)"
      unfolding cancel_all_requests_def st Let_def prod.case fold_abort_map [of "r 5"] pk1_def c1_def g_def
      using False by (simp only: if_False)
    ultimately show ?thesis by simp
  qed
qed

end

text \<open>\<open>request_a_block\<close> only adds requests at the end of the queue.\<close>

definition extends :: "connection \<Rightarrow> connection \<Rightarrow> bool" where
  "extends c c' \<longleftrightarrow> (\<exists>new. request_queue c' = request_queue c @ new) \<and> download_queue c' = download_queue c
     \<and> queued_time_critical c' = queued_time_critical c \<and> timeout_extend c' = timeout_extend c \<and> disconnecting c' = disconnecting c"

lemma extends_refl [simp]: "extends c c"
  by (simp add: extends_def)

lemma extends_trans: "extends c c1 \<Longrightarrow> extends c1 c2 \<Longrightarrow> extends c c2"
  by (auto simp: extends_def)

lemma add_request_extends: "extends (snd st) (snd (snd (add_request env r p False rb b st)))"
  by (auto simp: add_request_def extends_def Let_def split: prod.split)

lemma request_loop_extends:
  "request_loop env r p whole dont bs num bp st = (num', bp', st') \<Longrightarrow> extends (snd st) (snd st')"
proof (induction bs arbitrary: num bp st)
  case (Cons b bs)
  let ?inq = "\<exists>q \<in> set (download_queue (snd st)) \<union> set (request_queue (snd st)). has_block b q"
    and ?w = "whole = 0 \<and> num \<le> 0" and ?n = "block_num_peers (fst st) b > 0"
  note step = Cons.prems [unfolded request_loop.simps]
  obtain ok st1 where a: "add_request env (r b) p False False b st = (ok, st1)" by (metis prod.collapse)
  have e: "extends (snd st) (snd st1)" using add_request_extends [of st env "r b" p False b] a by simp
  consider (stop) "?w \<or> ?n \<and> (num \<le> 0 \<or> dont)" | (busy) "\<not> ?w" ?n "\<not> (num \<le> 0 \<or> dont)"
    | (old) "\<not> ?w" "\<not> ?n" ?inq | (add) "\<not> ?w" "\<not> ?n" "\<not> ?inq" by blast
  then show ?case
  proof cases
    case stop
    then show ?thesis using step by (auto split: if_splits)
  next
    case busy
    then show ?thesis using step by (intro Cons.IH) (simp only: if_True if_False)
  next
    case old
    then show ?thesis using step by (intro Cons.IH) (simp only: if_True if_False)
  next
    case add
    then show ?thesis using step a by (intro extends_trans [OF e] Cons.IH) (simp only: if_False Let_def prod.case)
  qed
qed simp

lemma request_a_block_extends: "extends (snd st) (snd (request_a_block env r pick p st))"
proof -
  obtain pk c where st: "st = (pk, c)" by (cases st)
  let ?num = "desired_queue_size c - int (length (download_queue c)) - int (length (request_queue c))"
  show ?thesis
  proof (cases "is_seed env pk \<or> no_download c \<or> upload_mode env \<or> disconnecting c \<or> \<not> files_checked env \<or> ?num \<le> 0")
    case True
    then show ?thesis by (auto simp: request_a_block_def Let_def st)
  next
    case False
    obtain rq c1 af sp bs pk1 dont num bp pk2 c2 c3 where c1: "c1 = c\<lparr>allowed_fast := af, conn_speed := sp\<rparr>"
      and "pick rq ?num (suggested_pieces c) pk = (bs, pk1)"
      and loop: "request_loop env (r 0) p (req_whole rq) dont bs ?num None (pk1, c1) = (num, bp, pk2, c2)"
      and c3: "c3 = c2\<lparr>endgame_mode := True\<rparr>"
      and res: "request_a_block env r pick p (pk, c) = (if num \<le> 0 then (pk2, c2\<lparr>endgame_mode := False\<rparr>)
        else case bp of None \<Rightarrow> (pk2, c3)
          | Some b \<Rightarrow> if length (download_queue c3) + length (request_queue c3) > 0 then (pk2, c3)
              else snd (add_request env (r 1 b) p False True b (pk2, c3)))"
      by (rule request_a_block_parts [where pick = pick and r = r and p = p, OF False refl])
    have "extends c c2" using request_loop_extends [OF loop] by (auto simp: extends_def c1)
    then have e3: "extends c c3" "extends c (c2\<lparr>endgame_mode := False\<rparr>)" by (auto simp: extends_def c3)
    show ?thesis unfolding st res using e3 extends_trans [OF e3(1) add_request_extends [of "(pk2, c3)", simplified]]
      by (auto split: option.split)
  qed
qed

context block_picker
begin

lemma snub_peer_fair:
  assumes ok: "local_ok st" and env: "env_ok env (fst st)" and dq: "download_queue (snd st) \<noteq> []"
  shows "\<exists>st'. snub_peer env r pick p st = Some st' \<and> fair_step st st'"
proof -
  obtain pk c where st: "st = (pk, c)" by (cases st)
  define more where "more = (\<lambda>c :: connection. c\<lparr>timeout_extend := timeout_extend c + request_timeout env\<rparr>)"
  define c0 where "c0 = c\<lparr>snubbed := True, max_queue_size := 1\<rparr>"
  have more: "fair_step st (pk', more c')" if "fair_step st (pk', c')" for pk' c'
    using that by (rule fair_cong) (simp_all add: more_def)
  have "fair_step st (pk, c0)" "fair_step st (pk, c0\<lparr>max_queue_size := 2\<rparr>)"
    using fair_step_refl [OF ok] unfolding st c0_def by (rule fair_cong; simp)+
  note f0 = this
  show ?thesis
  proof (cases "parole c0")
    case True
    then have "snub_peer env r pick p st = Some (pk, more c0)"
      unfolding snub_peer_def st Let_def prod.case more_def c0_def by (simp only: if_True)
    then show ?thesis using more [OF f0(1)] by blast
  next
    case np: False
    obtain pk1 c1' where ra: "request_a_block env r pick p (pk, c0\<lparr>max_queue_size := 2\<rparr>) = (pk1, c1')" by (metis prod.collapse)
    define c1 where "c1 = c1'\<lparr>max_queue_size := 1\<rparr>"
    have f1: "fair_step st (pk1, c1)"
    proof -
      have "fair_step st (pk1, c1')"
        using fair_step_trans [OF f0(2) request_a_block_fair [OF fair_step_local [OF ok f0(2)], of env r p]] ra by simp
      then show ?thesis by (rule fair_cong) (simp_all add: c1_def)
    qed
    note l1 = fair_step_local [OF ok f1]
    have c1: "conn_ok pk1 c1" and env1: "env_ok env pk1" using l1 fair_step_env [OF f1] env by (auto simp: local_ok_def)
    have ext: "extends c0 c1" using request_a_block_extends [of "(pk, c0\<lparr>max_queue_size := 2\<rparr>)" env r pick p] ra
      by (simp add: extends_def c1_def)
    then obtain new where rq1: "request_queue c1 = request_queue c @ new" and dq1: "download_queue c1 = download_queue c"
      by (auto simp: extends_def c0_def)
    have send: "fair_step st (send_block_requests env r (pk2, c2))" if "fair_step st (pk2, c2)" for pk2 c2
      by (rule fair_step_trans [OF that send_block_requests_fair [OF fair_step_local [OF ok that]]])
        (use fair_step_env [OF that] env in simp)
    let ?prev = "length (request_queue c)"
    show ?thesis
    proof (cases "?prev > 0")
      case prev: True
      define q where "q = request_queue c1 ! (?prev - 1)"
      define k where "k = queued_time_critical c1 - (if int ?prev \<le> queued_time_critical c1 then 1 else 0)"
      define c2 where "c2 = c1\<lparr>request_queue := erase_at (?prev - 1) (request_queue c1), queued_time_critical := k\<rparr>"
      define c3 where "c3 = (if download_queue c2 \<noteq> [] \<or> request_queue c2 \<noteq> [] then more c2 else c2)"
      have res: "snub_peer env r pick p st = Some (send_block_requests env r (abort_download (r 9 (pb_block q)) (pb_block q) pk1, c3))"
        using np prev ra unfolding snub_peer_def st Let_def prod.case more_def c0_def [symmetric]
        by (simp add: c1_def c2_def c3_def k_def q_def c0_def more_def)
      obtain ys zs where q: "request_queue c1 = ys @ q # zs" "erase_at (?prev - 1) (request_queue c1) = ys @ zs" "length ys = ?prev - 1"
      proof -
        have "?prev - 1 < length (request_queue c1)" using prev unfolding rq1 length_append by linarith
        from id_take_nth_drop [OF this] show ?thesis using prev rq1
          by (intro that [of "take (?prev - 1) (request_queue c1)" "drop (Suc (?prev - 1)) (request_queue c1)"]) (simp_all add: q_def erase_at_def)
      qed
      have kk: "k = queued_time_critical c1 - (if int (length ys) < queued_time_critical c1 then 1 else 0)"
      proof -
        have "int (length ys) + 1 = int ?prev" using q(3) prev by linarith
        then show ?thesis by (simp add: k_def)
      qed
      have e: "conn_ok pk1 c2" "\<forall>b'. b' \<in> set (asked c2) \<longleftrightarrow> b' \<in> set (asked c1) \<and> b' \<noteq> pb_block q" "pb_block q \<in> set (asked c1)"
        using erase_queued [of pk1 c1 ys q zs c2, OF c1 q(1)] conn_okD(5) [OF c1] kk q(2) by (simp_all add: c2_def)
      have "fair_step st (abort_download (r 9 (pb_block q)) (pb_block q) pk1, c2)"
        by (rule fair_step_trans [OF f1 fair_give_up [OF l1 e(3,1,2)]])
      then have "fair_step st (abort_download (r 9 (pb_block q)) (pb_block q) pk1, c3)" using more by (simp add: c3_def)
      from send [OF this] res show ?thesis by blast
    next
      case none: False
      define q where "q = last (download_queue c1)"
      obtain f w n where info: "piece_info (piece_index (pb_block q)) pk1 = (f, w, n)" by (metis prod_cases3)
      define pk2 where "pk2 = (if allocated q then abort_download (r 9 (pb_block q)) (pb_block q) pk1 else pk1)"
      define c2 where "c2 = c1\<lparr>download_queue := butlast (download_queue c1) @ [q\<lparr>timed_out := True\<rparr>]\<rparr>"
      have dne: "download_queue c1 \<noteq> []" using dq dq1 by (simp add: st)
      have res: "snub_peer env r pick p st =
          Some (if int (blocks_in_piece pk1 (piece_index (pb_block q))) - f - w - n > 0 then (pk1, more c1)
                else send_block_requests env r (pk2, more c2))"
        using np none ra dne info unfolding snub_peer_def st Let_def prod.case
        by (simp add: c1_def c2_def q_def c0_def more_def pk2_def)
      have q: "download_queue c1 = butlast (download_queue c1) @ [q]" using dne by (simp add: q_def)
      let ?ys = "butlast (download_queue c1)"
      have "distinct (map pb_block ((?ys @ [q]) @ request_queue c1))" using conn_okD(3) [OF c1] q by (simp add: pending_def)
      then have d: "\<forall>x \<in> set ?ys \<union> set (request_queue c1). pb_block x \<noteq> pb_block q" by (auto simp: notin_image)
      have "set (asked c1) = pb_block ` (set (filter allocated (?ys @ [q])) \<union> set (request_queue c1))"
        using q by (simp add: asked_def image_Un)
      then have a: "b \<in> set (asked c2) \<longleftrightarrow> b \<in> set (asked c1) \<and> \<not> (b = pb_block q \<and> allocated q)" for b
        using d by (auto simp: asked_def c2_def allocated_def)
      have c2: "conn_ok pk1 c2"
      proof (rule conn_ok_sub [OF c1])
        have "map pb_block (pending c2) = map pb_block ((?ys @ [q]) @ request_queue c1)" by (simp add: pending_def c2_def)
        then show "mset (map pb_block (pending c2)) \<subseteq># mset (map pb_block (pending c1))" using q by (simp add: pending_def)
      qed (use conn_okD [OF c1] a dne in \<open>auto simp: c2_def pending_def\<close>)
      have "fair_step (pk1, c1) (pk2, c2)"
      proof (cases "allocated q")
        case True
        then have "pb_block q \<in> set (asked c1)" using q by (metis (no_types, lifting) asked_def filter_append filter.simps image_eqI list.set_intros(1) set_append set_map UnCI)
        then show ?thesis using fair_give_up [OF l1 _ c2] a True by (simp add: pk2_def)
      next
        case False
        then show ?thesis using fair_rearrange [OF l1 c2] a by (simp add: pk2_def)
      qed
      then have "fair_step st (pk2, more c2)" using more fair_step_trans [OF f1] by blast
      then show ?thesis using send more [OF f1] res by auto
    qed
  qed
qed

end

end
