(* ===== verification/Peer_Messages.thy ===== *)
theory Peer_Messages
  imports Peer_Requests
begin

text \<open>
  What the messages of a peer and the pieces we complete do to its connection
  (\<open>src/peer_connection.cpp\<close>, \<open>policy::peer_is_interesting\<close>): which pieces the peer has, the
  availability that the picker keeps, whether we are interested, and requests that follow. The torrent
  has its metadata and a picker, the handshake of the peer is over, and super seeding is off.
\<close>

section \<open>Interest\<close>

definition torrent_finished :: "torrent_env \<Rightarrow> piece_picker \<Rightarrow> bool" where
  "torrent_finished env pk \<longleftrightarrow> is_seed env pk \<or> int (num_pieces pk) - m_num_have pk - m_num_filtered pk = 0"

definition torrent_upload_only :: "torrent_env \<Rightarrow> piece_picker \<Rightarrow> bool" where
  "torrent_upload_only env pk \<longleftrightarrow> torrent_finished env pk \<or> upload_mode env"

definition peer_is_seed :: "connection \<Rightarrow> bool" where
  "peer_is_seed c \<longleftrightarrow> peer_pieces c \<noteq> [] \<and> (\<forall>x \<in> set (peer_pieces c). x)"

definition wanted_piece :: "piece_picker \<Rightarrow> nat \<Rightarrow> bool" where
  "wanted_piece pk x \<longleftrightarrow> \<not> have_piece pk x \<and> piece_priority (m_piece_map pk ! x) \<noteq> 0"

definition disconnect_if_redundant :: "torrent_env \<Rightarrow> dice \<Rightarrow> piece_picker \<times> connection \<Rightarrow> piece_picker \<times> connection" where
  "disconnect_if_redundant env r st =
     (let (pk, c) = st
      in if \<not> close_redundant_connections env then st
         else if upload_only c \<and> torrent_upload_only env pk then disconnect env r st
         else if upload_only c \<and> \<not> interesting c \<and> bitfield_received c \<and> files_checked env then disconnect env r st
         else st)"

definition send_interested :: "connection \<Rightarrow> connection" where
  "send_interested c = (if interesting c then c else c\<lparr>interesting := True, sent := sent c @ [Interested]\<rparr>)"

definition send_not_interested :: "torrent_env \<Rightarrow> dice \<Rightarrow> piece_picker \<times> connection \<Rightarrow> piece_picker \<times> connection" where
  "send_not_interested env r st =
     (let (pk, c) = st
      in if \<not> interesting c then disconnect_if_redundant env r st
         else disconnect_if_redundant env r (pk, c\<lparr>interesting := False, sent := sent c @ [NotInterested]\<rparr>))"

definition peer_is_interesting ::
  "torrent_env \<Rightarrow> dice \<Rightarrow> block_source \<Rightarrow> nat \<Rightarrow> piece_picker \<times> connection \<Rightarrow> piece_picker \<times> connection" where
  "peer_is_interesting env r pick p st =
     (let (pk, c) = st;
          c = send_interested c
      in if \<not> peer_choked c then request_more env r pick p (pk, c)
         else
           let c = c\<lparr>allowed_fast := filter (\<lambda>x. \<not> have_piece pk x) (allowed_fast c)\<rparr>
           in if allowed_fast c = [] then (pk, c) else request_more env r pick p (pk, c))"

definition update_interest ::
  "torrent_env \<Rightarrow> dice \<Rightarrow> block_source \<Rightarrow> nat \<Rightarrow> piece_picker \<times> connection \<Rightarrow> piece_picker \<times> connection" where
  "update_interest env r pick p st =
     (let (pk, c) = st
      in if peer_pieces c = [] then st
         else if \<not> torrent_finished env pk \<and> (\<exists>j \<in> {0..<num_pieces pk}. wanted_piece pk j \<and> peer_pieces c ! j)
         then peer_is_interesting env r pick p st
         else send_not_interested env r st)"

definition announce_piece ::
  "torrent_env \<Rightarrow> dice \<Rightarrow> block_source \<Rightarrow> nat \<Rightarrow> nat \<Rightarrow> piece_picker \<times> connection \<Rightarrow> piece_picker \<times> connection" where
  "announce_piece env r pick x p st =
     (let (pk, c) = st;
          c = c\<lparr>suggested_pieces := remove1 x (suggested_pieces c)\<rparr>;
          tell = (\<lambda>(pk, c). (pk, c\<lparr>sent := sent c @ [Have x]\<rparr>))
      in if peer_pieces c ! x
         then
           let st = update_interest env r pick p (pk, c)
           in if disconnecting (snd st) \<or> \<not> send_redundant_have env then st else tell st
         else tell (pk, c))"

section \<open>Messages\<close>

definition incoming_unchoke ::
  "torrent_env \<Rightarrow> dice \<Rightarrow> block_source \<Rightarrow> nat \<Rightarrow> piece_picker \<times> connection \<Rightarrow> piece_picker \<times> connection" where
  "incoming_unchoke env r pick p st =
     (let (pk, c) = st;
          c = c\<lparr>peer_choked := False\<rparr>
      in if disconnecting c \<or> \<not> interesting c then (pk, c) else request_more env r pick p (pk, c))"

definition incoming_suggest :: "torrent_env \<Rightarrow> int \<Rightarrow> piece_picker \<times> connection \<Rightarrow> piece_picker \<times> connection" where
  "incoming_suggest env index st =
     (let (pk, c) = st
      in if disconnecting c \<or> index < 0 \<or> index \<ge> int (length (peer_pieces c)) \<or> have_piece pk (nat index) then st
         else
           let sug = (if int (length (suggested_pieces c)) > max_suggest_pieces env then tl (suggested_pieces c)
                      else suggested_pieces c)
           in (pk, c\<lparr>suggested_pieces := sug @ [nat index]\<rparr>))"

definition incoming_have_none :: "torrent_env \<Rightarrow> dice \<Rightarrow> piece_picker \<times> connection \<Rightarrow> piece_picker \<times> connection" where
  "incoming_have_none env r st =
     (let (pk, c) = st
      in if disconnecting c then st
         else disconnect_if_redundant env r (send_not_interested env r (pk, c\<lparr>bitfield_received := True\<rparr>)))"

definition incoming_have ::
  "torrent_env \<Rightarrow> dice \<Rightarrow> block_source \<Rightarrow> nat \<Rightarrow> int \<Rightarrow> piece_picker \<times> connection \<Rightarrow> piece_picker \<times> connection" where
  "incoming_have env r pick p index st =
     (if disconnecting (snd st) then st
      else
        let (pk, c) = (if bitfield_received (snd st) then st else incoming_have_none env r st)
        in if disconnecting c then (pk, c)
           else if index \<ge> int (length (peer_pieces c)) \<or> index < 0 then disconnect env r (pk, c)
           else if peer_pieces c ! nat index then (pk, c)
           else
             let x = nat index;
                 c = c\<lparr>peer_pieces := (peer_pieces c)[x := True]\<rparr>;
                 pk = inc_refcount (r 13 \<lparr>piece_index = x, block_index = 0\<rparr>) x pk;
                 (pk, c) = (if peer_is_seed c then disconnect_if_redundant env r (pk, c\<lparr>upload_only := True\<rparr>) else (pk, c))
             in if disconnecting c then (pk, c)
                else if wanted_piece pk x \<and> \<not> is_seed env pk \<and> \<not> interesting c then peer_is_interesting env r pick p (pk, c)
                else (pk, c))"

definition incoming_dont_have :: "torrent_env \<Rightarrow> dice \<Rightarrow> int \<Rightarrow> piece_picker \<times> connection \<Rightarrow> piece_picker \<times> connection" where
  "incoming_dont_have env r index st =
     (let (pk, c) = st
      in if disconnecting c then st
         else if index \<ge> int (length (peer_pieces c)) \<or> index < 0 then disconnect env r st
         else if \<not> peer_pieces c ! nat index then st
         else (dec_refcount (r 13 \<lparr>piece_index = nat index, block_index = 0\<rparr>) (nat index) pk,
               c\<lparr>peer_pieces := (peer_pieces c)[nat index := False]\<rparr>))"

definition incoming_have_all ::
  "torrent_env \<Rightarrow> dice \<Rightarrow> block_source \<Rightarrow> nat \<Rightarrow> piece_picker \<times> connection \<Rightarrow> piece_picker \<times> connection" where
  "incoming_have_all env r pick p st =
     (let (pk, c) = st
      in if disconnecting c then st
         else
           let c = c\<lparr>upload_only := True, bitfield_received := True, peer_pieces := map (\<lambda>_. True) (peer_pieces c)\<rparr>;
               pk = inc_refcount_all pk
           in disconnect_if_redundant env r
                (if torrent_finished env pk then send_not_interested env r (pk, c)
                 else peer_is_interesting env r pick p (pk, c)))"

definition incoming_bitfield ::
  "torrent_env \<Rightarrow> dice \<Rightarrow> block_source \<Rightarrow> nat \<Rightarrow> bool list \<Rightarrow> piece_picker \<times> connection \<Rightarrow> piece_picker \<times> connection" where
  "incoming_bitfield env r pick p bits st =
     (let (pk, c) = st
      in if disconnecting c then st
         else if (length bits + 7) div 8 \<noteq> (length (peer_pieces c) + 7) div 8 then disconnect env r st
         else
           let c = c\<lparr>bitfield_received := True\<rparr>
           in if length (filter id bits) = length (peer_pieces c)
              then
                let c = c\<lparr>upload_only := True, peer_pieces := map (\<lambda>_. True) (peer_pieces c)\<rparr>;
                    pk = inc_refcount_all pk
                in disconnect_if_redundant env r
                     (if torrent_finished env pk then (pk, c) else peer_is_interesting env r pick p (pk, c))
              else
                let old = peer_pieces c;
                    news = \<not> is_seed env pk \<and> (\<exists>i \<in> {0..<length old}. bits ! i \<and> \<not> old ! i \<and> wanted_piece pk i);
                    pk = (if is_seed env pk then pk
                          else fold (\<lambda>i. dec_refcount (r 13 \<lparr>piece_index = i, block_index = 0\<rparr>) i)
                                 (filter (\<lambda>i. \<not> bits ! i \<and> old ! i) [0..<length old]) (inc_refcount_mask bits pk));
                    c = c\<lparr>peer_pieces := bits\<rparr>
                in if news then peer_is_interesting env r pick p (pk, c)
                   else if upload_only c then disconnect env r (pk, c)
                   else (pk, c))"

definition incoming_allowed_fast ::
  "torrent_env \<Rightarrow> dice \<Rightarrow> block_source \<Rightarrow> nat \<Rightarrow> int \<Rightarrow> piece_picker \<times> connection \<Rightarrow> piece_picker \<times> connection" where
  "incoming_allowed_fast env r pick p index st =
     (let (pk, c) = st
      in if disconnecting c \<or> index < 0 \<or> index \<ge> int (length (peer_pieces c)) \<or> have_piece pk (nat index) then st
         else
           let c = c\<lparr>allowed_fast := allowed_fast c @ [nat index]\<rparr>
           in if peer_pieces c ! nat index \<and> piece_priority (m_piece_map pk ! nat index) > 0
              then peer_is_interesting env r pick p (pk, c)
              else (pk, c))"

end
