(* ===== verification/Piece_Outcome.thy ===== *)
theory Piece_Outcome
  imports Peer_Messages "HOL-Library.Option_ord"
begin

text \<open>
  What happens when a piece has been hashed (\<open>src/torrent.cpp\<close>: \<open>piece_finished\<close>, \<open>piece_passed\<close>,
  \<open>piece_failed\<close>, \<open>restore_piece_state\<close>, \<open>update_sparse_piece_prio\<close>): the peers that sent blocks of it
  are rewarded or punished, and the picker and the connections go on. Time-critical pieces and the
  progress of files are in their own theories; \<open>torrent::finished\<close> is not modelled.
\<close>

section \<open>The record of a peer\<close>

text \<open>The part of \<open>policy::peer\<close> that outlives a connection. The connection of the peer reads
  \<open>on_parole\<close> from here: \<open>parole\<close> is kept equal to it.\<close>

record peer_info =
  trust_points :: int
  hashfails :: int
  on_parole :: bool
  banned :: bool

text \<open>\<open>trust_points\<close> is a signed bit-field of four bits: a value that is stored is cut to them.\<close>

definition store_trust :: "int \<Rightarrow> int" where
  "store_trust t = (t + 2 ^ 3) mod 2 ^ 4 - 2 ^ 3"

definition new_peer_info :: peer_info where
  "new_peer_info = \<lparr>trust_points = 0, hashfails = 0, on_parole = False, banned = False\<rparr>"

type_synonym torrent_state = "swarm \<times> (nat \<Rightarrow> peer_info)"

definition reward :: "peer_info \<Rightarrow> peer_info" where
  "reward i = i\<lparr>on_parole := False, trust_points := store_trust (min 8 (trust_points i + 1))\<rparr>"

definition received_invalid_data :: "torrent_env \<Rightarrow> peer_info \<times> connection \<Rightarrow> peer_info \<times> connection" where
  "received_invalid_data env st =
     (let (i, c) = st
      in if disconnecting c then st
         else (i\<lparr>on_parole := on_parole i \<or> use_parole_mode env,
                 trust_points := store_trust (max (- 7) (trust_points i - 2)),
                 hashfails := min 255 (hashfails i + 1)\<rparr>,
               c\<lparr>parole := parole c \<or> use_parole_mode env\<rparr>))"

definition senders :: "piece_picker \<Rightarrow> nat \<Rightarrow> ptr list" where
  "senders pk x = sort (remdups (get_downloaders pk x))"

section \<open>A piece that failed\<close>

definition punish :: "torrent_env \<Rightarrow> (nat \<Rightarrow> dice) \<Rightarrow> bool \<Rightarrow> ptr \<Rightarrow> torrent_state \<Rightarrow> torrent_state" where
  "punish env r alone pr st =
     (case pr of None \<Rightarrow> st
      | Some p \<Rightarrow>
          let (sw, infos) = st;
              (sw, infos) =
                (case snd sw p of None \<Rightarrow> (sw, infos)
                 | Some c \<Rightarrow>
                     let (i, c) = received_invalid_data env (infos p, c)
                     in ((fst sw, (snd sw)(p \<mapsto> c)), infos(p := i)))
          in if trust_points (infos p) \<le> - 7 \<or> alone
             then (at_peer p (disconnect env (r p)) sw, infos(p := (infos p)\<lparr>banned := True\<rparr>))
             else (sw, infos))"

text \<open>
  \<open>restore_piece_state\<close>: after a piece was restored, the blocks of it that connections still wait for
  are marked as requested again.
\<close>

definition restore_connection ::
  "torrent_env \<Rightarrow> dice \<Rightarrow> nat \<Rightarrow> nat \<Rightarrow> piece_picker \<times> connection \<Rightarrow> piece_picker \<times> connection" where
  "restore_connection env r x p st =
     (let (pk, c) = st;
          qs = filter (\<lambda>q. allocated q \<and> piece_index (pb_block q) = x) (download_queue c)
             @ filter (\<lambda>q. piece_index (pb_block q) = x) (request_queue c)
      in fold (\<lambda>q (pk, c).
           (snd (mark_as_downloading (r 12 (pb_block q)) (pb_block q) (Some p) (peer_speed env c) pk),
            c\<lparr>conn_speed := peer_speed env c\<rparr>)) qs (pk, c))"

definition restore_piece_state :: "torrent_env \<Rightarrow> (nat \<Rightarrow> dice) \<Rightarrow> nat list \<Rightarrow> nat \<Rightarrow> swarm \<Rightarrow> swarm" where
  "restore_piece_state env r ids x = fold (\<lambda>p. at_peer p (restore_connection env (r p) x p)) ids"

definition restored :: "torrent_env \<Rightarrow> nat \<Rightarrow> (nat \<Rightarrow> dice) \<Rightarrow> nat list \<Rightarrow> nat \<Rightarrow> swarm \<Rightarrow> swarm" where
  "restored env r0 r ids x sw = restore_piece_state env r ids x (restore_piece r0 x (fst sw), snd sw)"

definition piece_failed :: "torrent_env \<Rightarrow> nat \<Rightarrow> (nat \<Rightarrow> dice) \<Rightarrow> nat list \<Rightarrow> nat \<Rightarrow> torrent_state \<Rightarrow> torrent_state" where
  "piece_failed env r0 r ids x st =
     (let peers = senders (fst (fst st)) x;
          (sw, infos) = fold (punish env r (length peers = 1)) peers st
      in (restored env r0 r ids x sw, infos))"

section \<open>A piece that passed\<close>

definition update_sparse_piece_prio :: "nat \<Rightarrow> int \<Rightarrow> int \<Rightarrow> int \<Rightarrow> piece_picker \<Rightarrow> piece_picker" where
  "update_sparse_piece_prio r i first last_piece pk =
     (if have_piece pk (nat i) \<or> piece_priority (m_piece_map pk ! nat i) = 0 then pk
      else
        let have_before = (i = 0 \<or> have_piece pk (nat (i - 1)));
            have_after = (i = last_piece - 1 \<or> have_piece pk (nat (i + 1)))
        in if have_after \<and> have_before then snd (set_piece_priority r (nat i) 7 pk)
           else if have_after \<or> have_before then snd (set_piece_priority r (nat i) 6 pk)
           else pk)"

definition limit_sparse_regions :: "torrent_env \<Rightarrow> nat \<Rightarrow> nat \<Rightarrow> piece_picker \<Rightarrow> piece_picker" where
  "limit_sparse_regions env r x pk =
     (if \<not> (max_sparse_regions env > 0 \<and> m_sparse_regions pk > max_sparse_regions env) then pk
      else
        let first = int (m_cursor pk); last_piece = int (m_reverse_cursor pk);
            pk = (if int x > first then update_sparse_piece_prio r (int x - 1) first last_piece pk else pk)
        in if int x < last_piece - 1 then update_sparse_piece_prio (r + 1) (int x + 1) first last_piece pk else pk)"

definition piece_passed ::
  "torrent_env \<Rightarrow> nat \<Rightarrow> (nat \<Rightarrow> dice) \<Rightarrow> block_source \<Rightarrow> nat list \<Rightarrow> nat \<Rightarrow> torrent_state \<Rightarrow> torrent_state" where
  "piece_passed env r0 r pick ids x st =
     (let ((pk, conns), infos) = st;
          good = List.map_filter id (senders pk x);
          infos = fold (\<lambda>p infos. infos(p := reward (infos p))) good infos;
          conns = (\<lambda>p. if p \<in> set good then map_option (\<lambda>c. c\<lparr>parole := False\<rparr>) (conns p) else conns p);
          sw = (we_have x pk, conns);
          sw = fold (\<lambda>p. at_peer p (announce_piece env (r p) pick x p)) ids sw;
          sw = (limit_sparse_regions env r0 x (fst sw), snd sw);
          sw = fold (\<lambda>p. at_peer p (\<lambda>st.
                 if interesting (snd st) \<and> peer_pieces (snd st) ! x then update_interest env (\<lambda>i. r p (40 + i)) pick p st else st)) ids sw
      in (sw, infos))"

text \<open>The result of hashing: passed, wrong, or the piece could not be read.\<close>

datatype hash_result = Passed | Wrong | Unreadable

definition piece_finished ::
  "torrent_env \<Rightarrow> nat \<Rightarrow> (nat \<Rightarrow> dice) \<Rightarrow> block_source \<Rightarrow> nat list \<Rightarrow> nat \<Rightarrow> hash_result \<Rightarrow> torrent_state \<Rightarrow> torrent_state" where
  "piece_finished env r0 r pick ids x res st =
     (if \<not> is_piece_finished (fst (fst st)) x then st
      else case res of
        Passed \<Rightarrow> piece_passed env r0 r pick ids x st
      | Wrong \<Rightarrow> piece_failed env r0 r ids x st
      | Unreadable \<Rightarrow> (restored env r0 r ids x (fst st), snd st))"

section \<open>A block that has been written\<close>

text \<open>\<open>on_disk_write_complete\<close> of a write that succeeded.\<close>

definition on_disk_write_complete :: "torrent_env \<Rightarrow> nat \<Rightarrow> nat \<Rightarrow> peer_request \<Rightarrow> piece_picker \<Rightarrow> piece_picker" where
  "on_disk_write_complete env r p req pk =
     (if is_seed env pk then pk else mark_as_finished r (block_at env req) (Some p) pk)"

end
