(* ===== verification/Message_Handlers.thy ===== *)
theory Message_Handlers
  imports Request_Handlers Piece_Outcome
begin

text \<open>
  The messages of a peer are fair steps of its connection: what they do to the availability of pieces,
  to the interest of both sides and to the requests keeps the invariant and the counts of the others.
\<close>

section \<open>The availability of pieces\<close>

lemma refiled_same:
  assumes "refiled pk1 pk2"
  shows "picker_inv pk2" "same_pieces pk1 pk2" "progress pk2 = progress pk1"
proof -
  show "picker_inv pk2" by (rule refiled_inv [OF assms])
  have "same_pieces pk1 pk2 \<and> progress pk2 = progress pk1"
  proof (cases "m_dirty pk1")
    case False
    then have m: "moves_only pk1 pk2" using assms by (simp add: refiled_def)
    then show ?thesis using same_pieces_moves [OF m] moves_blocks(3) [OF m] by (simp add: same_pieces_def progress_def blocks_of_def)
  qed (use assms in \<open>simp add: refiled_def\<close>)
  then show "same_pieces pk1 pk2" "progress pk2 = progress pk1" by auto
qed

lemma same_downloads_upd:
  assumes "map have_pos pm = map have_pos (m_piece_map pk)"
  shows "same_pieces pk (pk\<lparr>m_piece_map := pm\<rparr>)" "progress (pk\<lparr>m_piece_map := pm\<rparr>) = progress pk"
  by (rule same_downloads; use assms in simp)+

lemma count_set_pos_same:
  assumes "\<And>p. have_pos (f p) = have_pos p"
  shows "same_pieces pk (set_pos x f pk)" "progress (set_pos x f pk) = progress pk"
proof -
  have "map have_pos ((m_piece_map pk)[x := f (m_piece_map pk ! x)]) = map have_pos (m_piece_map pk)"
    by (cases "x < length (m_piece_map pk)") (simp_all add: map_update assms list_update_same_conv [THEN iffD2] list_update_beyond)
  from same_downloads_upd [OF this] show "same_pieces pk (set_pos x f pk)" "progress (set_pos x f pk) = progress pk"
    by (simp_all add: set_pos_def)
qed

lemma peer_count_have [simp]: "have_pos (inc_peer_count p) = have_pos p" "have_pos (dec_peer_count p) = have_pos p"
  by (simp_all add: have_pos_def inc_peer_count_def dec_peer_count_def)

lemma inc_refcount_same:
  assumes "picker_inv pk" "x < num_pieces pk"
  shows "picker_inv (inc_refcount r x pk)" "same_pieces pk (inc_refcount r x pk)" "progress (inc_refcount r x pk) = progress pk"
  using refiled_same [OF inc_refcount_refiled [OF assms, of r]] same_pieces_trans [OF count_set_pos_same(1) [of inc_peer_count]]
    count_set_pos_same(2) [of inc_peer_count] by auto

lemma dec_one_same:
  assumes "picker_inv pk" "x < num_pieces pk" "\<not> m_dirty pk \<Longrightarrow> peer_count (m_piece_map pk ! x) + m_seeds pk > 0"
  shows "picker_inv (dec_refcount r x pk)" "same_pieces pk (dec_refcount r x pk)" "progress (dec_refcount r x pk) = progress pk"
proof -
  have "refiled (set_pos x dec_peer_count pk) (dec_refcount r x pk)" by (rule dec_refcount_refiled [OF assms(1,2)]) (rule assms(3))
  note s = refiled_same [OF this]
  show "picker_inv (dec_refcount r x pk)" by (rule s(1))
  show "same_pieces pk (dec_refcount r x pk)" by (rule same_pieces_trans [OF count_set_pos_same(1) s(2)]) simp
  show "progress (dec_refcount r x pk) = progress pk" using s(3) count_set_pos_same(2) [of dec_peer_count] by simp
qed

text \<open>A piece is counted; it need not be if the buckets are going to be rebuilt anyway.\<close>

definition counted :: "piece_picker \<Rightarrow> nat \<Rightarrow> bool" where
  "counted pk x \<longleftrightarrow> m_dirty pk \<or> peer_count (m_piece_map pk ! x) + m_seeds pk > 0"

lemma dec_refcount_others:
  assumes "picker_inv pk" "x < num_pieces pk" "counted pk x" "y < num_pieces pk" "y \<noteq> x" "counted pk y"
  shows "counted (dec_refcount r x pk) y"
proof (cases "m_dirty pk")
  case True
  then show ?thesis by (simp add: dec_refcount_def counted_def Let_def)
next
  case False
  let ?pk = "set_pos x dec_peer_count pk"
  have "refiled ?pk (dec_refcount r x pk)" using assms(1-3) False by (intro dec_refcount_refiled) (simp_all add: counted_def)
  then have m: "moves_only ?pk (dec_refcount r x pk)" using False by (simp add: refiled_def)
  have "norm_pos (m_piece_map (dec_refcount r x pk) ! y) = norm_pos (m_piece_map pk ! y)"
    using moves_nth [OF m, of y] assms(4,5) by simp
  then have "peer_count (m_piece_map (dec_refcount r x pk) ! y) = peer_count (m_piece_map pk ! y)" by (rule norm_pos_eqD)
  moreover have "m_seeds (dec_refcount r x pk) = m_seeds pk" using m by (simp add: moves_only_def)
  ultimately show ?thesis using assms(6) False by (simp add: counted_def)
qed

lemma dec_refcounts_same:
  assumes "picker_inv pk" "distinct xs" "\<forall>x \<in> set xs. x < num_pieces pk \<and> counted pk x"
  shows "picker_inv (fold (\<lambda>x. dec_refcount (r x) x) xs pk) \<and> same_pieces pk (fold (\<lambda>x. dec_refcount (r x) x) xs pk)
    \<and> progress (fold (\<lambda>x. dec_refcount (r x) x) xs pk) = progress pk"
  using assms
proof (induction xs arbitrary: pk)
  case (Cons x xs)
  let ?pk = "dec_refcount (r x) x pk"
  have x: "x < num_pieces pk" "counted pk x" using Cons.prems(3) by auto
  note d = dec_one_same [OF Cons.prems(1) x(1), of "r x"]
  have d': "picker_inv ?pk" "same_pieces pk ?pk" "progress ?pk = progress pk" using d x(2) by (auto simp: counted_def)
  have "\<forall>y \<in> set xs. y < num_pieces ?pk \<and> counted ?pk y"
    using dec_refcount_others [OF Cons.prems(1) x] Cons.prems(2,3) d'(2) by (auto simp: same_pieces_def)
  from Cons.IH [OF d'(1) _ this] Cons.prems(2) d' show ?case using same_pieces_trans [OF d'(2)] by auto
qed simp

lemma inc_refcount_all_same:
  assumes "picker_inv pk"
  shows "picker_inv (inc_refcount_all pk)" "same_pieces pk (inc_refcount_all pk)" "progress (inc_refcount_all pk) = progress pk"
proof -
  show "picker_inv (inc_refcount_all pk)" by (rule inc_refcount_all_inv [OF assms])
  show "same_pieces pk (inc_refcount_all pk)" "progress (inc_refcount_all pk) = progress pk"
    by (rule same_downloads; simp add: inc_refcount_all_def Let_def)+
qed

lemma inc_refcount_mask_empty:
  assumes "length bits = num_pieces pk" "True \<notin> set bits"
  shows "inc_refcount_mask bits pk = pk"
proof -
  have "map (\<lambda>(b, p). if b then inc_peer_count p else p) (zip bits (m_piece_map pk)) @ drop (length bits) (m_piece_map pk) = m_piece_map pk"
    using assms by (intro nth_equalityI) (auto simp: num_pieces_def in_set_conv_nth)
  then show ?thesis using assms(2) by (simp add: inc_refcount_mask_def refcount_mask_def)
qed

lemma inc_refcount_mask_same:
  assumes "picker_inv pk" "length m = num_pieces pk"
  shows "picker_inv (inc_refcount_mask m pk)" "same_pieces pk (inc_refcount_mask m pk)" "progress (inc_refcount_mask m pk) = progress pk"
proof -
  have z: "map have_pos (map (\<lambda>(b, p). if b then inc_peer_count p else p) (zip m (m_piece_map pk)) @ drop (length m) (m_piece_map pk))
      = map have_pos (m_piece_map pk)"
    using assms(2) by (intro nth_equalityI) (simp_all add: num_pieces_def case_prod_beta)
  show "picker_inv (inc_refcount_mask m pk)"
    unfolding inc_refcount_mask_def using assms by (intro refcount_mask_inv) (auto simp: inc_peer_count_marks)
  show "same_pieces pk (inc_refcount_mask m pk)" "progress (inc_refcount_mask m pk) = progress pk"
    by (rule same_downloads; use z in \<open>simp add: inc_refcount_mask_def refcount_mask_def Let_def\<close>)+
qed

section \<open>Messages\<close>

text \<open>Fields of a connection that a message sets.\<close>

lemma fair_fields:
  assumes ok: "local_ok (pk, c)"
    and c': "request_queue c' = request_queue c" "download_queue c' = download_queue c"
    "queued_time_critical c' = queued_time_critical c" "outstanding_bytes c' = outstanding_bytes c"
    "disconnecting c' = disconnecting c" "length (peer_pieces c') = length (peer_pieces c)"
    "\<forall>x \<in> set (suggested_pieces c'). x < num_pieces pk"
  shows "fair_step (pk, c) (pk, c')"
proof (rule fair_rearrange [OF ok])
  show "conn_ok pk c'" using ok c' by (simp add: local_ok_def conn_ok_def asked_def pending_def)
qed (simp add: asked_def c')

lemma suggested_ok: "local_ok (pk, c) \<Longrightarrow> \<forall>x \<in> set (suggested_pieces c). x < num_pieces pk"
  by (simp add: local_ok_def conn_ok_def)

lemma pieces_length: "local_ok (pk, c) \<Longrightarrow> length (peer_pieces c) = num_pieces pk"
  by (simp add: local_ok_def conn_ok_def)

lemma fair_then:
  assumes "fair_step st st1" "local_ok st" "local_ok st1 \<Longrightarrow> fair_step st1 st2"
  shows "fair_step st st2"
  using fair_step_trans [OF assms(1)] assms(3) fair_step_local [OF assms(2,1)] by blast

lemma disconnect_if_redundant_fair:
  assumes "local_ok st"
  shows "fair_step st (disconnect_if_redundant env r st)"
  using assms disconnect_fair [OF assms] fair_step_refl [OF assms]
  by (auto simp: disconnect_if_redundant_def Let_def split: prod.split)

lemma send_not_interested_fair:
  assumes ok: "local_ok st"
  shows "fair_step st (send_not_interested env r st)"
proof -
  obtain pk c where st: "st = (pk, c)" by (cases st)
  let ?c = "c\<lparr>interesting := False, sent := sent c @ [NotInterested]\<rparr>"
  have f: "fair_step (pk, c) (pk, ?c)" by (rule fair_fields) (use ok suggested_ok in \<open>auto simp: st\<close>)
  have "fair_step st (disconnect_if_redundant env r (pk, ?c))"
    unfolding st by (rule fair_then [OF f]) (use ok st disconnect_if_redundant_fair in auto)
  then show ?thesis using disconnect_if_redundant_fair [OF ok] by (simp add: send_not_interested_def st)
qed

context block_picker
begin

lemma peer_is_interesting_fair:
  assumes ok: "local_ok st" and env: "env_ok env (fst st)"
  shows "fair_step st (peer_is_interesting env r pick p st)"
proof -
  obtain pk c where st: "st = (pk, c)" by (cases st)
  have f: "fair_step (pk, c) (pk, send_interested c)" "fair_step (pk, c) (pk, (send_interested c)\<lparr>allowed_fast := a\<rparr>)" for a
    by (rule fair_fields; use ok suggested_ok in \<open>auto simp: st send_interested_def\<close>)+
  have m: "fair_step (pk, c) (request_more env r pick p (pk, c'))" if "fair_step (pk, c) (pk, c')" for c'
    by (rule fair_then [OF that]) (use ok env st request_more_fair in auto)
  show ?thesis using f m by (simp add: peer_is_interesting_def st Let_def)
qed

lemma update_interest_fair:
  assumes ok: "local_ok st" and env: "env_ok env (fst st)"
  shows "fair_step st (update_interest env r pick p st)"
  using fair_step_refl [OF ok] send_not_interested_fair [OF ok] peer_is_interesting_fair [OF assms]
  by (auto simp: update_interest_def Let_def split: prod.split)

lemma announce_piece_fair:
  assumes ok: "local_ok st" and env: "env_ok env (fst st)"
  shows "fair_step st (announce_piece env r pick x p st)"
proof -
  obtain pk c where st: "st = (pk, c)" by (cases st)
  let ?c = "c\<lparr>suggested_pieces := remove1 x (suggested_pieces c)\<rparr>"
  have f: "fair_step (pk, c) (pk, ?c)"
    by (rule fair_fields) (use ok suggested_ok [of pk c] set_remove1_subset in \<open>auto simp: st\<close>)
  have u: "fair_step (pk, c) (update_interest env r pick p (pk, ?c))"
    by (rule fair_then [OF f]) (use ok env st update_interest_fair in auto)
  obtain pk' c' where u': "update_interest env r pick p (pk, ?c) = (pk', c')" by (cases "update_interest env r pick p (pk, ?c)")
  have "fair_step (pk, c) (pk', c'\<lparr>sent := s\<rparr>)" for s by (rule fair_cong [OF u [unfolded u']]) simp_all
  moreover have "fair_step (pk, c) (pk, ?c\<lparr>sent := s\<rparr>)" for s by (rule fair_cong [OF f]) simp_all
  ultimately show ?thesis using u by (simp add: announce_piece_def st Let_def u')
qed

lemma incoming_unchoke_fair:
  assumes ok: "local_ok st" and env: "env_ok env (fst st)"
  shows "fair_step st (incoming_unchoke env r pick p st)"
proof -
  obtain pk c where st: "st = (pk, c)" by (cases st)
  have f: "fair_step (pk, c) (pk, c\<lparr>peer_choked := False\<rparr>)" by (rule fair_fields) (use ok suggested_ok in \<open>auto simp: st\<close>)
  have "fair_step (pk, c) (request_more env r pick p (pk, c\<lparr>peer_choked := False\<rparr>))"
    by (rule fair_then [OF f]) (use ok env st request_more_fair in auto)
  then show ?thesis using f by (simp add: incoming_unchoke_def st Let_def)
qed

lemma incoming_suggest_fair:
  assumes ok: "local_ok st"
  shows "fair_step st (incoming_suggest env i st)"
proof -
  obtain pk c where st: "st = (pk, c)" by (cases st)
  have t: "x \<in> set (tl xs) \<Longrightarrow> x \<in> set xs" for x and xs :: "nat list" by (cases xs) auto
  have "fair_step (pk, c) (pk, c\<lparr>suggested_pieces := sug @ [nat i]\<rparr>)"
    if "0 \<le> i" "i < int (length (peer_pieces c))" "set sug \<subseteq> set (suggested_pieces c)" for sug
    by (rule fair_fields) (use that ok suggested_ok [of pk c] pieces_length [of pk c] in \<open>auto simp: st\<close>)
  then show ?thesis using fair_step_refl [OF ok] t by (auto simp: incoming_suggest_def st Let_def subset_iff)
qed

lemma incoming_have_none_fair:
  assumes ok: "local_ok st"
  shows "fair_step st (incoming_have_none env r st)"
proof -
  obtain pk c where st: "st = (pk, c)" by (cases st)
  let ?st = "(pk, c\<lparr>bitfield_received := True\<rparr>)"
  have f: "fair_step st ?st" unfolding st by (rule fair_fields) (use ok suggested_ok in \<open>auto simp: st\<close>)
  have g: "fair_step st (send_not_interested env r ?st)" by (rule fair_then [OF f ok]) (rule send_not_interested_fair)
  have "fair_step st (disconnect_if_redundant env r (send_not_interested env r ?st))"
    by (rule fair_then [OF g ok]) (rule disconnect_if_redundant_fair)
  then show ?thesis using fair_step_refl [OF ok] by (simp add: incoming_have_none_def st Let_def)
qed

lemma incoming_allowed_fast_fair:
  assumes ok: "local_ok st" and env: "env_ok env (fst st)"
  shows "fair_step st (incoming_allowed_fast env r pick p i st)"
proof -
  obtain pk c where st: "st = (pk, c)" by (cases st)
  have f: "fair_step (pk, c) (pk, c\<lparr>allowed_fast := a\<rparr>)" for a by (rule fair_fields) (use ok suggested_ok in \<open>auto simp: st\<close>)
  have "fair_step (pk, c) (peer_is_interesting env r pick p (pk, c\<lparr>allowed_fast := a\<rparr>))" for a
    by (rule fair_then [OF f]) (use ok env st peer_is_interesting_fair in auto)
  then show ?thesis using f fair_step_refl [OF ok] by (simp add: incoming_allowed_fast_def st Let_def)
qed

end

text \<open>The availability changes, and with it what the connection knows of its peer.\<close>

lemma fair_pieces:
  assumes ok: "local_ok (pk, c)" and pk': "picker_inv pk'" "same_pieces pk pk'" "progress pk' = progress pk"
    and c': "request_queue c' = request_queue c" "download_queue c' = download_queue c"
    "queued_time_critical c' = queued_time_critical c" "outstanding_bytes c' = outstanding_bytes c"
    "disconnecting c' = disconnecting c" "length (peer_pieces c') = length (peer_pieces c)" "suggested_pieces c' = suggested_pieces c"
  shows "fair_step (pk, c) (pk', c')"
proof -
  have f: "fair_step (pk, c) (pk', c)" by (rule fair_picked [OF ok pk'])
  show ?thesis
    by (rule fair_then [OF f ok], rule fair_fields) (use c' suggested_ok in auto)
qed

lemma incoming_dont_have_fair:
  assumes ok: "local_ok st" and seen: "\<And>x. peer_pieces (snd st) ! x \<Longrightarrow> counted (fst st) x"
  shows "fair_step st (incoming_dont_have env r i st)"
proof -
  obtain pk c where st: "st = (pk, c)" by (cases st)
  have inv: "picker_inv pk" and n: "length (peer_pieces c) = num_pieces pk" using ok by (auto simp: local_ok_def conn_ok_def st)
  have "fair_step (pk, c) (dec_refcount r' x pk, c\<lparr>peer_pieces := (peer_pieces c)[x := False]\<rparr>)"
    if "x < num_pieces pk" "peer_pieces c ! x" for x r'
    by (rule fair_pieces [OF ok [unfolded st] dec_one_same [OF inv that(1)]]) (use seen [of x] that st in \<open>simp_all add: counted_def\<close>)
  then show ?thesis using disconnect_fair [OF ok] fair_step_refl [OF ok] n
    by (simp add: incoming_dont_have_def st Let_def nat_less_iff)
qed

context block_picker
begin

lemma incoming_have_fair:
  assumes ok: "local_ok st" and env: "env_ok env (fst st)"
  shows "fair_step st (incoming_have env r pick p i st)"
proof (cases "disconnecting (snd st)")
  case True
  then show ?thesis using fair_step_refl [OF ok] by (simp add: incoming_have_def)
next
  case nd: False
  obtain pk c where st': "(if bitfield_received (snd st) then st else incoming_have_none env r st) = (pk, c)" by fastforce
  have "fair_step st (if bitfield_received (snd st) then st else incoming_have_none env r st)"
    using fair_step_refl [OF ok] incoming_have_none_fair [OF ok] by simp
  then have f: "fair_step st (pk, c)" unfolding st' .
  note ok' = fair_step_local [OF ok f]
  have env': "env_ok env pk" using fair_step_env [OF f] env by simp
  have inv: "picker_inv pk" and n: "length (peer_pieces c) = num_pieces pk" using ok' by (auto simp: local_ok_def conn_ok_def)
  show ?thesis
  proof (cases "disconnecting c \<or> i \<ge> int (length (peer_pieces c)) \<or> i < 0 \<or> peer_pieces c ! nat i")
    case True
    then show ?thesis using nd f fair_step_trans [OF f disconnect_fair [OF ok']] by (auto simp: incoming_have_def st')
  next
    case False
    let ?x = "nat i" and ?r = "r 13 \<lparr>piece_index = nat i, block_index = 0\<rparr>"
    define pk1 where "pk1 = inc_refcount ?r ?x pk"
    define c1 where "c1 = c\<lparr>peer_pieces := (peer_pieces c)[?x := True]\<rparr>"
    have x: "?x < num_pieces pk" using False n by linarith
    note i = inc_refcount_same [OF inv x, of ?r, folded pk1_def]
    have g: "fair_step (pk, c) (pk1, c1\<lparr>upload_only := u\<rparr>)" "fair_step (pk, c) (pk1, c1)" for u
      by (rule fair_pieces [OF ok' i]; simp add: c1_def)+
    obtain pk2 c2 where st2: "(if peer_is_seed c1 then disconnect_if_redundant env r (pk1, c1\<lparr>upload_only := True\<rparr>) else (pk1, c1)) = (pk2, c2)"
      by fastforce
    have h: "fair_step (pk, c) (pk2, c2)"
    proof (cases "peer_is_seed c1")
      case True
      have "fair_step (pk, c) (disconnect_if_redundant env r (pk1, c1\<lparr>upload_only := True\<rparr>))"
        by (rule fair_then [OF g(1) ok']) (rule disconnect_if_redundant_fair)
      then show ?thesis using True st2 by simp
    qed (use g(2) st2 in simp)
    note ok2 = fair_step_local [OF ok' h]
    have "env_ok env pk2" using fair_step_env [OF h] env' by simp
    then have "fair_step (pk2, c2) (peer_is_interesting env r pick p (pk2, c2))" using peer_is_interesting_fair [OF ok2] by simp
    then have "fair_step st (pk2, c2)" "fair_step st (peer_is_interesting env r pick p (pk2, c2))"
      using fair_step_trans [OF f h] fair_step_trans by blast+
    moreover have "incoming_have env r pick p i st = (if disconnecting c2 then (pk2, c2)
        else if wanted_piece pk2 ?x \<and> \<not> is_seed env pk2 \<and> \<not> interesting c2 then peer_is_interesting env r pick p (pk2, c2) else (pk2, c2))"
      unfolding incoming_have_def st' Let_def prod.case st2 [unfolded c1_def pk1_def] using nd False by simp
    ultimately show ?thesis by simp
  qed
qed

lemma incoming_have_all_fair:
  assumes ok: "local_ok st" and env: "env_ok env (fst st)"
  shows "fair_step st (incoming_have_all env r pick p st)"
proof (cases "disconnecting (snd st)")
  case True
  then show ?thesis using fair_step_refl [OF ok] by (simp add: incoming_have_all_def case_prod_beta)
next
  case False
  obtain pk c where st: "st = (pk, c)" by (cases st)
  have inv: "picker_inv pk" using ok by (simp add: local_ok_def st)
  define c1 where "c1 = c\<lparr>upload_only := True, bitfield_received := True, peer_pieces := map (\<lambda>_. True) (peer_pieces c)\<rparr>"
  have f: "fair_step st (inc_refcount_all pk, c1)"
    unfolding st by (rule fair_pieces [OF ok [unfolded st] inc_refcount_all_same [OF inv]]) (simp_all add: c1_def)
  have env1: "env_ok env (inc_refcount_all pk)" using fair_step_env [OF f] env by (simp add: st)
  let ?st2 = "if torrent_finished env (inc_refcount_all pk) then send_not_interested env r (inc_refcount_all pk, c1)
    else peer_is_interesting env r pick p (inc_refcount_all pk, c1)"
  have g: "fair_step st ?st2"
    by (rule fair_then [OF f ok]) (use send_not_interested_fair peer_is_interesting_fair env1 in auto)
  have "fair_step st (disconnect_if_redundant env r ?st2)"
    by (rule fair_then [OF g ok]) (rule disconnect_if_redundant_fair)
  moreover have "incoming_have_all env r pick p st = disconnect_if_redundant env r ?st2"
    using False unfolding incoming_have_all_def st Let_def prod.case c1_def by simp
  ultimately show ?thesis by (simp only:)
qed

lemma bitfield_of_size_fair:
  assumes ok: "local_ok st" and env: "env_ok env (fst st)" and len: "length bits = length (peer_pieces (snd st))"
    and lost: "True \<in> set bits \<or> (\<forall>x. peer_pieces (snd st) ! x \<longrightarrow> counted (fst st) x)" and nd: "\<not> disconnecting (snd st)"
  shows "fair_step st (incoming_bitfield env r pick p bits st)"
proof -
  obtain pk c where st: "st = (pk, c)" by (cases st)
  have inv: "picker_inv pk" and n: "length (peer_pieces c) = num_pieces pk" using ok by (auto simp: local_ok_def conn_ok_def st)
  define gone where "gone = filter (\<lambda>i. \<not> bits ! i \<and> peer_pieces c ! i) [0..<length (peer_pieces c)]"
  have small: "length bits = num_pieces pk" using len n st by simp
  define c1 where "c1 = c\<lparr>bitfield_received := True, upload_only := True, peer_pieces := map (\<lambda>_. True) (peer_pieces c)\<rparr>"
  define c2 where "c2 = c\<lparr>bitfield_received := True, peer_pieces := bits\<rparr>"
  define pk2 where "pk2 = (if is_seed env pk then pk
    else fold (\<lambda>i. dec_refcount (r 13 \<lparr>piece_index = i, block_index = 0\<rparr>) i) gone (inc_refcount_mask bits pk))"
  have f1: "fair_step st (inc_refcount_all pk, c1)"
    unfolding st by (rule fair_pieces [OF ok [unfolded st] inc_refcount_all_same [OF inv]]) (simp_all add: c1_def)
  note m = inc_refcount_mask_same [OF inv small]
  have "\<forall>x \<in> set gone. x < num_pieces (inc_refcount_mask bits pk) \<and> counted (inc_refcount_mask bits pk) x"
  proof (cases "True \<in> set bits")
    case True
    then show ?thesis using m(2) n by (auto simp: gone_def same_pieces_def counted_def inc_refcount_mask_def refcount_mask_def Let_def)
  next
    case False
    then have "inc_refcount_mask bits pk = pk" by (rule inc_refcount_mask_empty [OF small])
    then show ?thesis using lost False n by (auto simp: gone_def st)
  qed
  then have s2: "picker_inv pk2" "same_pieces pk pk2" "progress pk2 = progress pk"
    using dec_refcounts_same [OF m(1), of gone "\<lambda>i. r 13 \<lparr>piece_index = i, block_index = 0\<rparr>"] inv m same_pieces_trans [OF m(2)]
    by (auto simp: pk2_def gone_def)
  have f2: "fair_step st (pk2, c2)"
    unfolding st by (rule fair_pieces [OF ok [unfolded st] s2]) (use small n in \<open>simp_all add: c2_def\<close>)
  have env1: "env_ok env (inc_refcount_all pk)" "env_ok env pk2" using fair_step_env [OF f1] fair_step_env [OF f2] env by (auto simp: st)
  let ?st1 = "if torrent_finished env (inc_refcount_all pk) then (inc_refcount_all pk, c1)
    else peer_is_interesting env r pick p (inc_refcount_all pk, c1)"
  have g1: "fair_step st ?st1"
    by (rule fair_then [OF f1 ok]) (use fair_step_refl peer_is_interesting_fair env1 in auto)
  have "fair_step st (disconnect_if_redundant env r ?st1)"
    by (rule fair_then [OF g1 ok]) (rule disconnect_if_redundant_fair)
  moreover have "fair_step st (peer_is_interesting env r pick p (pk2, c2))"
    by (rule fair_then [OF f2 ok]) (use peer_is_interesting_fair env1 in auto)
  moreover have "fair_step st (disconnect env r (pk2, c2))"
    by (rule fair_then [OF f2 ok]) (rule disconnect_fair)
  moreover have "incoming_bitfield env r pick p bits st =
      (if length (filter id bits) = length (peer_pieces c) then disconnect_if_redundant env r ?st1
       else if \<not> is_seed env pk \<and> (\<exists>i \<in> {0..<length (peer_pieces c)}. bits ! i \<and> \<not> peer_pieces c ! i \<and> wanted_piece pk i)
       then peer_is_interesting env r pick p (pk2, c2)
       else if upload_only c2 then disconnect env r (pk2, c2) else (pk2, c2))"
    using nd len unfolding incoming_bitfield_def st Let_def prod.case pk2_def c1_def c2_def gone_def by (simp, blast)
  ultimately show ?thesis using f2 by simp
qed

lemma incoming_bitfield_fair:
  assumes ok: "local_ok st" and env: "env_ok env (fst st)"
    and len: "length bits = length (peer_pieces (snd st)) \<or> (length bits + 7) div 8 \<noteq> (length (peer_pieces (snd st)) + 7) div 8"
    and lost: "True \<in> set bits \<or> (\<forall>x. peer_pieces (snd st) ! x \<longrightarrow> counted (fst st) x)"
  shows "fair_step st (incoming_bitfield env r pick p bits st)"
proof (cases "disconnecting (snd st)")
  case True
  then show ?thesis using fair_step_refl [OF ok] by (simp add: incoming_bitfield_def case_prod_beta)
next
  case False
  show ?thesis
  proof (cases "length bits = length (peer_pieces (snd st))")
    case True
    then show ?thesis by (rule bitfield_of_size_fair [OF ok env _ lost False])
  next
    case other: False
    then show ?thesis using len False disconnect_fair [OF ok] by (simp add: incoming_bitfield_def case_prod_beta)
  qed
qed

end

end
