(* ===== verification/Request_Swarm.thy ===== *)
theory Request_Swarm
  imports Message_Handlers
begin

text \<open>
  The invariant of all connections of a torrent: the number of connections that have a block in a
  queue is the number the picker keeps, and a fair step of one connection keeps it. The handler of a
  block that arrives, which may reach several connections.
\<close>

section \<open>The invariant of a swarm\<close>

definition requesters :: "(nat \<Rightarrow> connection option) \<Rightarrow> piece_block \<Rightarrow> nat set" where
  "requesters conns b = {p. \<exists>c. conns p = Some c \<and> b \<in> set (asked c)}"

definition counts_agree :: "swarm \<Rightarrow> bool" where
  "counts_agree sw \<longleftrightarrow> (\<forall>b. in_range (fst sw) b \<longrightarrow> \<not> got (fst sw) b \<longrightarrow> snd (view (fst sw) b) = card (requesters (snd sw) b))"

definition swarm_ok :: "swarm \<Rightarrow> bool" where
  "swarm_ok sw \<longleftrightarrow> picker_inv (fst sw) \<and> finite (dom (snd sw)) \<and> card (dom (snd sw)) < 2 ^ 14
     \<and> (\<forall>c \<in> ran (snd sw). conn_ok (fst sw) c) \<and> counts_agree sw"

lemma requesters_sub: "requesters conns b \<subseteq> dom conns"
  by (auto simp: requesters_def)

lemma requesters_upd:
  "requesters (conns(p \<mapsto> c)) b = (if b \<in> set (asked c) then insert p (requesters conns b) else requesters conns b - {p})"
  by (auto simp: requesters_def)

lemma requesters_del: "requesters (conns(p := None)) b = requesters conns b - {p}"
  by (auto simp: requesters_def)

lemma others_card:
  assumes "finite (dom conns)" "conns p = Some c" "snd (view pk b) = card (requesters conns b)"
  shows "others pk c b = int (card (requesters conns b - {p}))"
proof -
  have f: "finite (requesters conns b)" by (rule finite_subset [OF requesters_sub assms(1)])
  have "p \<in> requesters conns b \<longleftrightarrow> b \<in> set (asked c)" using assms(2) by (simp add: requesters_def)
  moreover have "card (requesters conns b) = card (requesters conns b - {p}) + of_bool (p \<in> requesters conns b)"
    using f card_Suc_Diff1 [OF f, of p] by (cases "p \<in> requesters conns b") simp_all
  ultimately show ?thesis using assms(3) by (simp add: others_def)
qed

lemma swarm_local:
  assumes ok: "swarm_ok (pk, conns)" and p: "conns p = Some c"
  shows "local_ok (pk, c)"
proof -
  have f: "finite (dom conns)" and n: "card (dom conns) < 2 ^ 14" using ok by (auto simp: swarm_ok_def)
  have "others pk c b + 1 < 2 ^ 14 \<and> 0 \<le> others pk c b" if "in_range pk b" "\<not> got pk b" for b
  proof -
    have "others pk c b = int (card (requesters conns b - {p}))"
      using ok that by (intro others_card [where conns = conns] f p) (auto simp: swarm_ok_def counts_agree_def)
    moreover have "card (requesters conns b - {p}) \<le> card (dom conns - {p})"
      using f by (intro card_mono) (use requesters_sub in auto)
    moreover have "card (dom conns - {p}) + 1 = card (dom conns)" using card_Suc_Diff1 [OF f, of p] domI [of conns p, OF p] by linarith
    ultimately show ?thesis using n by simp
  qed
  moreover have "c \<in> ran conns" using p by (rule ranI)
  ultimately show ?thesis using ok by (auto simp: local_ok_def swarm_ok_def)
qed

text \<open>A fair step of one connection keeps the invariant of all.\<close>

lemma swarm_fair:
  assumes ok: "swarm_ok (pk, conns)" and p: "conns p = Some c" and s: "fair_step (pk, c) (pk', c')"
  shows "swarm_ok (pk', conns(p \<mapsto> c'))"
proof -
  have f: "finite (dom conns)" using ok by (simp add: swarm_ok_def)
  have same: "same_pieces pk pk'" and inv: "picker_inv pk'" and c': "conn_ok pk' c'" using s by (auto simp: fair_step_def)
  have ran: "conn_ok pk' d" if "d \<in> ran (conns(p \<mapsto> c'))" for d
  proof (cases "d = c'")
    case False
    then have "d \<in> ran conns" using that by (auto simp: ran_def split: if_splits)
    then show ?thesis using ok conn_ok_same_pieces [OF same] by (simp add: swarm_ok_def)
  qed (use c' in simp)
  have agree: "snd (view pk' b) = card (requesters (conns(p \<mapsto> c')) b)" if "in_range pk' b" "\<not> got pk' b" for b
  proof -
    have b: "in_range pk b" "\<not> got pk b" "others pk' c' b = others pk c b"
      using that s by (auto simp: fair_step_def same_pieces_in_range)
    have "others pk c b = int (card (requesters conns b - {p}))"
      using ok b by (intro others_card [where conns = conns] f p) (auto simp: swarm_ok_def counts_agree_def)
    then have v: "int (snd (view pk' b)) = int (card (requesters conns b - {p})) + of_bool (b \<in> set (asked c'))"
      using b(3) by (simp add: others_def)
    have "finite (requesters conns b)" by (rule finite_subset [OF requesters_sub f])
    then have "card (insert p (requesters conns b)) = card (requesters conns b - {p}) + 1"
      by (simp add: card.insert_remove)
    with v show ?thesis by (cases "b \<in> set (asked c')") (simp_all add: requesters_upd)
  qed
  have "dom (conns(p \<mapsto> c')) = dom conns" using p by auto
  then show ?thesis using ok inv ran agree by (simp add: swarm_ok_def counts_agree_def)
qed

lemma at_peer_ok:
  assumes "swarm_ok sw" "\<And>c. snd sw p = Some c \<Longrightarrow> local_ok (fst sw, c) \<Longrightarrow> fair_step (fst sw, c) (f (fst sw, c))"
  shows "swarm_ok (at_peer p f sw)" "same_pieces (fst sw) (fst (at_peer p f sw))"
proof -
  obtain pk conns where sw: "sw = (pk, conns)" by (cases sw)
  have "swarm_ok (at_peer p f sw) \<and> same_pieces (fst sw) (fst (at_peer p f sw))"
  proof (cases "conns p")
    case None
    then show ?thesis using assms(1) by (simp add: at_peer_def sw)
  next
    case (Some c)
    obtain pk' c' where f: "f (pk, c) = (pk', c')" by (cases "f (pk, c)")
    have ok: "swarm_ok (pk, conns)" using assms(1) by (simp add: sw)
    have "fair_step (pk, c) (pk', c')" using assms(2) [of c] swarm_local [OF ok Some] Some f by (simp add: sw)
    with swarm_fair [OF ok Some this] show ?thesis using fair_step_pieces by (fastforce simp: at_peer_def sw Some f)
  qed
  then show "swarm_ok (at_peer p f sw)" "same_pieces (fst sw) (fst (at_peer p f sw))" by auto
qed

text \<open>What the torrent does to the picker alone.\<close>

lemma swarm_picker:
  assumes ok: "swarm_ok (pk, conns)" and pk': "picker_inv pk'" "same_pieces pk pk'"
    and v: "\<And>b. in_range pk b \<Longrightarrow> \<not> got pk' b \<Longrightarrow> \<not> got pk b \<and> snd (view pk' b) = snd (view pk b)"
  shows "swarm_ok (pk', conns)"
  using ok pk' v conn_ok_same_pieces [OF pk'(2)] by (auto simp: swarm_ok_def counts_agree_def same_pieces_in_range [OF pk'(2)])

section \<open>A block arrives\<close>

definition marked :: "pending_block list \<Rightarrow> (piece_block \<times> bool) list" where
  "marked qs = map (\<lambda>q. (pb_block q, allocated q)) qs"

lemma marked_simps [simp]: "marked [] = []" "marked (q # qs) = (pb_block q, allocated q) # marked qs" "marked (xs @ ys) = marked xs @ marked ys"
  by (simp_all add: marked_def)

lemma marked_blocks: "map pb_block qs = map fst (marked qs)" "map pb_block (filter allocated qs) = map fst (filter snd (marked qs))"
  by (induction qs) auto

lemma asked_marked: "asked c = map fst (filter snd (marked (download_queue c))) @ map pb_block (request_queue c)"
  by (simp add: asked_def marked_blocks(2))

lemma skip_loop_fair:
  assumes ok: "local_ok (pk, c)" and dq: "download_queue c = qs @ rest" and nd: "\<not> disconnecting c"
    and sk: "skip_loop env r limit qs (pk, outstanding_bytes c) = (kept, pk1, bytes1)"
  shows "fair_step (pk, c) (pk1, c\<lparr>download_queue := kept @ rest, outstanding_bytes := bytes1\<rparr>)"
proof -
  let ?c = "c\<lparr>download_queue := kept @ rest, outstanding_bytes := bytes1\<rparr>"
  have c: "conn_ok pk c" using ok by (simp add: local_ok_def)
  obtain dropped where d: "pk1 = fold (\<lambda>b. abort_download (r b) b) (map pb_block (filter allocated dropped)) pk" "0 \<le> bytes1"
    "mset (marked (kept @ dropped)) = mset (marked qs)"
    using skip_loop_fold [OF conn_okD(5) [OF c] sk] by (auto simp: marked_def)
  have m: "mset (map pb_block (pending c)) = mset (map pb_block (pending ?c)) + mset (map pb_block dropped)"
    using arg_cong [OF d(3), of "image_mset fst"] by (simp add: pending_def dq marked_blocks(1))
  have dist: "distinct (map pb_block (pending ?c) @ map pb_block dropped)"
    using conn_okD(3) [OF c] m by (metis mset_append mset_eq_imp_distinct_iff)
  have c': "conn_ok pk ?c"
  proof (rule conn_ok_sub [OF c])
    show "mset (map pb_block (pending ?c)) \<subseteq># mset (map pb_block (pending c))" using m by simp
    have "set (marked kept) \<subseteq> set (marked qs)" using mset_eq_setD [OF d(3)] by auto
    then show "set (asked ?c) \<subseteq> set (asked c)" by (auto simp: asked_marked dq)
  qed (use conn_okD [OF c] nd d(2) in \<open>auto simp: pending_def\<close>)
  have s: "set (marked qs) = set (marked kept) \<union> set (marked dropped)" using mset_eq_setD [OF d(3)] by auto
  have bs: "set (map pb_block (filter allocated dropped)) = fst ` Set.filter snd (set (marked dropped))"
    by (auto simp: marked_blocks(2))
  have "distinct (map pb_block (filter allocated dropped))" using dist by (auto simp: distinct_map intro: inj_on_subset)
  moreover have "set (map pb_block (filter allocated dropped)) \<subseteq> set (asked c)" unfolding bs asked_marked dq using s by auto
  moreover have "set (asked ?c) = set (asked c) - set (map pb_block (filter allocated dropped))"
  proof -
    have "b \<notin> set (asked ?c)" if "b \<in> set (map pb_block (filter allocated dropped))" for b
    proof -
      have "b \<in> set (map pb_block dropped)" using that by auto
      then have "b \<notin> set (map pb_block (pending ?c))" using dist by auto
      then show ?thesis by (auto simp: asked_def pending_def)
    qed
    moreover have "set (asked c) = set (asked ?c) \<union> set (map pb_block (filter allocated dropped))"
      unfolding bs asked_marked dq using s by auto
    ultimately show ?thesis by blast
  qed
  ultimately show ?thesis unfolding d(1) by (rule fair_give_up_list [OF ok _ _ c'])
qed

lemma arrival_fair:
  assumes ok: "local_ok (pk, c)" and k: "find_index (has_block b) (download_queue c) = Some k" and nd: "\<not> disconnecting c"
    and sk: "skip_loop env r limit (take k (download_queue c)) (pk, outstanding_bytes c) = (kept, pk1, bytes1)"
    and c1: "c1 = c\<lparr>download_queue := kept @ drop (Suc k) (download_queue c), outstanding_bytes := bytes1\<rparr>"
    and b: "in_range pk b"
  shows "got pk1 b \<Longrightarrow> fair_step (pk, c) (pk1, c1)"
    "\<not> got pk1 b \<Longrightarrow> fair_step (pk, c) (snd (mark_as_writing r' b pr pk1), c1)"
    "picker_inv pk1" "same_pieces pk pk1"
proof -
  obtain ys q zs where q: "download_queue c = ys @ q # zs" "k = length ys" "has_block b q" using find_index_split [OF k] by metis
  let ?c = "c\<lparr>download_queue := kept @ q # zs, outstanding_bytes := bytes1\<rparr>"
  have f: "fair_step (pk, c) (pk1, ?c)" by (rule skip_loop_fair [OF ok _ nd]) (use q sk in auto)
  note ok1 = fair_step_local [OF ok f]
  show "picker_inv pk1" and same: "same_pieces pk pk1" using f by (auto simp: fair_step_def)
  have c: "conn_ok pk1 ?c" using ok1 by (simp add: local_ok_def)
  have c1: "c1 = c\<lparr>download_queue := kept @ zs, outstanding_bytes := bytes1\<rparr>" using c1 q by simp
  have c1': "conn_ok pk1 c1"
    by (rule conn_ok_sub [OF c]) (use conn_okD [OF c] nd in \<open>auto simp: c1 pending_def asked_def\<close>)
  have a: "\<forall>b'. b' \<noteq> b \<longrightarrow> (b' \<in> set (asked c1) \<longleftrightarrow> b' \<in> set (asked ?c))"
    using q(3) by (auto simp: asked_def c1 has_block_def)
  have b1: "in_range pk1 b" using b same_pieces_in_range [OF same] by simp
  show "fair_step (pk, c) (pk1, c1)" if g: "got pk1 b"
  proof (rule fair_step_trans [OF f], rule fair_rearrange [OF ok1 c1'], intro allI impI)
    fix b' assume "\<not> got pk1 b'"
    then have "b' \<noteq> b" using g by auto
    then show "(b' \<in> set (asked c1)) = (b' \<in> set (asked ?c))" using a by blast
  qed
  show "fair_step (pk, c) (snd (mark_as_writing r' b pr pk1), c1)" if "\<not> got pk1 b"
    by (rule fair_step_trans [OF f], rule fair_arrive [OF ok1 b1 that c1' a])
qed

lemma verified_in_range:
  assumes env: "env_ok env pk" and v: "verify_piece env pk req" and l: "0 < pr_length req"
  shows "in_range pk (block_at env req)"
proof -
  let ?b = "block_at env req" and ?k = "block_size env"
  have x: "piece_index ?b < num_pieces pk" using v by (auto simp: verify_piece_def block_at_def)
  have r: "to_req env ?b = req" using v by (simp add: verify_piece_def)
  let ?s = "size_of_piece env (piece_index ?b)"
  have e: "0 < ?k" "int (blocks_in_piece pk (piece_index ?b)) = (?s + ?k - 1) div ?k" using env x by (auto simp: env_ok_def)
  have "0 < pr_length (to_req env ?b)" using r l by simp
  then have "int (block_index ?b) * ?k < ?s" by (simp add: to_req_def Let_def)
  then have "(int (block_index ?b) + 1) * ?k \<le> ?s + ?k - 1" by (simp add: algebra_simps)
  then have "int (block_index ?b) + 1 \<le> (?s + ?k - 1) div ?k" 
    using zdiv_mono1 [of "(int (block_index ?b) + 1) * ?k" "?s + ?k - 1" ?k] e(1) by simp
  then have "int (block_index ?b) < int (blocks_in_piece pk (piece_index ?b))" using e(2) by linarith
  with x show ?thesis by (simp add: in_range_def)
qed

section \<open>Handlers that reach several connections\<close>

lemma env_ok_swarm: "same_pieces (fst sw) (fst sw') \<Longrightarrow> env_ok env (fst sw) \<Longrightarrow> env_ok env (fst sw')"
  by (simp add: env_ok_same)

lemma fold_peers_ok:
  assumes step: "\<And>p st. local_ok st \<Longrightarrow> env_ok env (fst st) \<Longrightarrow> fair_step st (f p st)"
  shows "swarm_ok sw \<Longrightarrow> env_ok env (fst sw) \<Longrightarrow>
    swarm_ok (fold (\<lambda>p. at_peer p (f p)) ids sw) \<and> same_pieces (fst sw) (fst (fold (\<lambda>p. at_peer p (f p)) ids sw))"
proof (induction ids arbitrary: sw)
  case (Cons p ids)
  have a: "swarm_ok (at_peer p (f p) sw)" "same_pieces (fst sw) (fst (at_peer p (f p) sw))"
    by (rule at_peer_ok [OF Cons.prems(1)]; use step Cons.prems(2) in simp)+
  with Cons.IH [OF a(1) env_ok_swarm [OF a(2) Cons.prems(2)]] show ?case using same_pieces_trans by simp
qed simp

context block_picker
begin

lemma cancel_block_ok:
  assumes "swarm_ok sw" "env_ok env (fst sw)"
  shows "swarm_ok (cancel_block env r pick ids b sw) \<and> same_pieces (fst sw) (fst (cancel_block env r pick ids b sw))"
  unfolding cancel_block_def peer_cancel_def
  by (rule fold_peers_ok [where f = "\<lambda>p. connection_cancel env (r p) pick p b", OF connection_cancel_fair assms])

lemma incoming_piece_ok:
  assumes ok: "swarm_ok sw" and env: "env_ok env (fst sw)" and v: "verify_piece env (fst sw) req" "0 \<le> pr_length req"
    and res: "incoming_piece env r pick ids in_time p req sw = (sw', hash)"
  shows "swarm_ok sw' \<and> same_pieces (fst sw) (fst sw')"
proof -
  obtain pk conns where sw: "sw = (pk, conns)" by (cases sw)
  show ?thesis
  proof (cases "conns p")
    case None
    then show ?thesis using res ok by (simp add: incoming_piece_def sw)
  next
    case (Some c)
    let ?b = "block_at env req"
    define c0 where "c0 = c\<lparr>receiving_block := None\<rparr>"
    note lok = swarm_local [OF ok [unfolded sw] Some]
    have f0: "fair_step (pk, c) (pk, c0)" by (rule fair_fields [OF lok]) (use suggested_ok [OF lok] in \<open>simp_all add: c0_def\<close>)
    note ok0 = fair_step_local [OF lok f0]
    have put: "swarm_ok (pk', conns(p \<mapsto> c')) \<and> same_pieces pk pk'" if "fair_step (pk, c0) (pk', c')" for pk' c'
      using swarm_fair [OF ok [unfolded sw] Some fair_step_trans [OF f0 that]] that by (simp add: fair_step_def)
    have putp: "swarm_ok (fst st, conns(p \<mapsto> snd st)) \<and> same_pieces pk (fst st)" if "fair_step (pk, c0) st" for st
      using put [of "fst st" "snd st"] that by simp
    note unf = incoming_piece_def sw fst_conv snd_conv Some option.case Let_def c0_def [symmetric]
    have c0: "conn_ok pk c0" and inv: "picker_inv pk" using ok0 by (auto simp: local_ok_def)
    have envp: "env_ok env pk" using env sw by simp
    show ?thesis
    proof (cases "disconnecting c0 \<or> pr_length req = 0 \<or> is_seed env pk")
      case True
      have r: "fair_step (pk, c0) (incoming_reject_request env (r p) pick p req (pk, c0))"
        by (rule incoming_reject_request_fair [OF ok0]) (use envp in simp)
      define c1 where "c1 = c0\<lparr>download_queue := tl (download_queue c0)\<rparr>"
      have s: "fair_step (pk, c0) (pk, c1)" if "is_seed env pk" "\<not> disconnecting c0"
      proof (rule fair_rearrange [OF ok0])
        have t: "set (tl xs) \<subseteq> set xs" "mset (tl xs) \<subseteq># mset xs" for xs :: "pending_block list"
          by (cases xs; auto)+
        show "conn_ok pk c1"
          by (rule conn_ok_sub [OF c0])
            (use conn_okD [OF c0] that t(2) in \<open>auto simp: c1_def pending_def asked_def image_mset_subseteq_mono dest: subsetD [OF t(1)]\<close>)
      qed (use seed_got [OF inv envp that(1)] in simp)
      show ?thesis
      proof (cases "disconnecting c0 \<or> pr_length req = 0")
        case True
        then show ?thesis using res fair_step_refl [OF ok0] r put putp [OF r]
          unfolding unf by (cases "disconnecting c0") (auto simp: case_prod_beta sw)
      next
        case False
        then have "swarm_ok (pk, conns(p \<mapsto> c1))" using True put [OF s] by auto
        then show ?thesis using res True False unfolding unf by (auto simp: sw c1_def)
      qed
    next
      case alive: False
      show ?thesis
      proof (cases "find_index (has_block ?b) (download_queue c0)")
        case None
        then show ?thesis using res alive put [OF fair_step_refl [OF ok0]] unfolding unf by (auto simp: sw)
      next
        case k: (Some k)
        obtain kept pk1 bytes where sk: "skip_loop env (r p 10) (max_queue_size c0) (take k (download_queue c0)) (pk, outstanding_bytes c0) = (kept, pk1, bytes)"
          by (metis prod.collapse)
        define c1 where "c1 = c0\<lparr>download_queue := kept @ drop (Suc k) (download_queue c0), outstanding_bytes := bytes\<rparr>"
        have b: "in_range pk ?b" by (rule verified_in_range [OF envp]) (use v alive sw in auto)
        have nd: "\<not> disconnecting c0" using alive by simp
        note a = arrival_fair [OF ok0 k nd sk c1_def b]
        have g: "is_downloaded pk1 ?b = got pk1 ?b" using picker_queries(1) [OF a(3)] b same_pieces_in_range [OF a(4)] by simp
        have env1: "env_ok env pk1" using envp env_ok_same [OF a(4)] by simp
        show ?thesis
        proof (cases "got pk1 ?b")
          case True
          note f1 = a(1) [OF True]
          have f2: "fair_step (pk, c0) (pk1, c1\<lparr>timeout_extend := 0\<rparr>)" by (rule fair_cong [OF f1]) simp_all
          have "fair_step (pk, c0) (request_more env (r p) pick p (pk1, c1\<lparr>timeout_extend := 0\<rparr>))"
            by (rule fair_then [OF f2 ok0], rule request_more_fair) (use env1 in auto)
          from putp [OF this] show ?thesis using res alive True k sk g unfolding unf by (auto simp: sw c1_def case_prod_beta)
        next
          case False
          define c2 where "c2 = c1\<lparr>snubbed := snubbed c1 \<and> \<not> in_time, timeout_extend := (if download_queue c1 = [] then 0
            else max (timeout_extend c1 - request_timeout env) 0)\<rparr>"
          define pk2 where "pk2 = snd (mark_as_writing (r p 11 ?b) ?b (Some p) pk1)"
          have f2: "fair_step (pk, c0) (pk2, c2)"
            unfolding pk2_def by (rule fair_cong [OF a(2) [OF False]]) (simp_all add: c2_def)
          define sw2 where "sw2 = (pk2, conns(p \<mapsto> c2))"
          have ok2: "swarm_ok sw2" "same_pieces pk (fst sw2)" using put [OF f2] by (auto simp: sw2_def)
          have env2: "env_ok env (fst sw2)" using env_ok_same [OF ok2(2)] envp by simp
          define sw3 where "sw3 = (if block_num_peers pk1 ?b > 1 then cancel_block env r pick ids ?b sw2 else sw2)"
          have ok3: "swarm_ok sw3" "same_pieces (fst sw2) (fst sw3)"
            using cancel_block_ok [OF ok2(1) env2] ok2(1) by (auto simp: sw3_def)
          note s3 = same_pieces_trans [OF ok2(2) ok3(2)]
          have env3: "env_ok env (fst sw3)" using env_ok_same [OF s3] envp by simp
          have ok4: "swarm_ok (at_peer p (request_more env (\<lambda>i. r p (20 + i)) pick p) sw3)"
            "same_pieces (fst sw3) (fst (at_peer p (request_more env (\<lambda>i. r p (20 + i)) pick p) sw3))"
            by (rule at_peer_ok [OF ok3(1)]; use request_more_fair env3 in simp)+
          have dead: "\<not> disconnecting c0" "\<not> pr_length req = 0" "\<not> is_seed env pk" using alive by auto
          have "fst (incoming_piece env r pick ids in_time p req sw) = at_peer p (request_more env (\<lambda>i. r p (20 + i)) pick p) sw3"
            unfolding unf if_not_P [OF dead(1)] if_not_P [OF dead(2)] if_not_P [OF dead(3)] k option.case sk prod.case
              c1_def [symmetric] g if_not_P [OF False] c2_def [symmetric] pk2_def [symmetric] sw2_def [symmetric] sw3_def [symmetric] ..
          then have "sw' = at_peer p (request_more env (\<lambda>i. r p (20 + i)) pick p) sw3" using res by simp
          then show ?thesis using ok4 same_pieces_trans [OF s3 ok4(2)] by (simp add: sw)
        qed
      qed
    qed
  qed
qed

end

end
