(* ===== verification/Swarm_Outcome.thy ===== *)
theory Swarm_Outcome
  imports Request_Swarm
begin

text \<open>
  The end of a piece keeps the invariant of the connections: after a piece was restored its blocks are
  counted again, connection by connection, and the peers of a bad piece may be disconnected.
\<close>

section \<open>A piece that is restored\<close>

text \<open>Blocks of one connection are marked as requested again.\<close>

lemma mark_again:
  assumes "picker_inv pk" "distinct bs"
    "\<forall>b \<in> set bs. in_range pk b \<and> \<not> have_piece pk (piece_index b) \<and> \<not> got pk b \<and> snd (view pk b) + 1 < 2 ^ 14"
    "map pb_block qs = bs"
  shows "\<exists>pk' v. fold (\<lambda>q (pk, c). (snd (mark_as_downloading (r (pb_block q)) (pb_block q) (Some p) (peer_speed env c) pk),
        c\<lparr>conn_speed := peer_speed env c\<rparr>)) qs (pk, c) = (pk', c\<lparr>conn_speed := v\<rparr>) \<and> picker_inv pk' \<and> same_pieces pk pk'
      \<and> (\<forall>b. in_range pk b \<longrightarrow> view pk' b = (if b \<in> set bs then (state_requested, snd (view pk b) + 1) else view pk b))"
  using assms
proof (induction qs arbitrary: pk c bs)
  case Nil
  have "c = c\<lparr>conn_speed := conn_speed c\<rparr>" by simp
  then show ?case using Nil by (intro exI [of _ pk] exI [of _ "conn_speed c"]) simp
next
  case (Cons q qs)
  let ?b = "pb_block q"
  obtain bs' where bs: "bs = ?b # bs'" "map pb_block qs = bs'" "distinct bs'" "?b \<notin> set bs'" using Cons.prems by auto
  define pk1 where "pk1 = snd (mark_as_downloading (r ?b) ?b (Some p) (peer_speed env c) pk)"
  obtain ok where mk: "(ok, pk1) = mark_as_downloading (r ?b) ?b (Some p) (peer_speed env c) pk"
    unfolding pk1_def by (metis prod.collapse)
  have b: "in_range pk ?b" "\<not> have_piece pk (piece_index ?b)" "\<not> got pk ?b" "snd (view pk ?b) + 1 < 2 ^ 14"
    using Cons.prems(3) bs(1) by auto
  note m = mark_as_downloading_view [OF Cons.prems(1) b(1,2) peer_speed_not_none b(4) mk]
  have rest: "\<forall>b \<in> set bs'. in_range pk1 b \<and> \<not> have_piece pk1 (piece_index b) \<and> \<not> got pk1 b \<and> snd (view pk1 b) + 1 < 2 ^ 14"
  proof
    fix b' assume b': "b' \<in> set bs'"
    then have o: "in_range pk b'" "\<not> have_piece pk (piece_index b')" "\<not> got pk b'" "snd (view pk b') + 1 < 2 ^ 14" "b' \<noteq> ?b"
      using Cons.prems(3) bs(1,4) by auto
    then have "view pk1 b' = view pk b'" using m(4) by simp
    then show "in_range pk1 b' \<and> \<not> have_piece pk1 (piece_index b') \<and> \<not> got pk1 b' \<and> snd (view pk1 b') + 1 < 2 ^ 14"
      using o got_view [OF m(2) o(1)] same_pieces_in_range [OF m(2)] same_pieces_have [OF m(2) o(1)] by simp
  qed
  obtain pk' v where I: "fold (\<lambda>q (pk, c). (snd (mark_as_downloading (r (pb_block q)) (pb_block q) (Some p) (peer_speed env c) pk),
        c\<lparr>conn_speed := peer_speed env c\<rparr>)) qs (pk1, c\<lparr>conn_speed := peer_speed env c\<rparr>) = (pk', c\<lparr>conn_speed := v\<rparr>)"
    "picker_inv pk'" "same_pieces pk1 pk'"
    "\<forall>b. in_range pk1 b \<longrightarrow> view pk' b = (if b \<in> set bs' then (state_requested, snd (view pk1 b) + 1) else view pk1 b)"
    using Cons.IH [OF m(1) bs(3) rest bs(2), of "c\<lparr>conn_speed := peer_speed env c\<rparr>"] by auto
  show ?case
    by (rule exI [of _ pk'], rule exI [of _ v])
      (use I m(2,4) same_pieces_trans [OF m(2) I(3)] bs b(3) same_pieces_in_range [OF m(2)] in \<open>auto simp: pk1_def\<close>)
qed

lemma restored_views:
  assumes inv: "picker_inv pk" and x: "x < num_pieces pk" and nh: "\<not> have_piece pk x"
  shows "picker_inv (restore_piece r x pk)" "same_pieces pk (restore_piece r x pk)"
    "in_range pk b \<Longrightarrow> view (restore_piece r x pk) b = (if piece_index b = x then (state_none, 0) else view pk b)"
proof -
  let ?pk = "restore_piece r x pk"
  have "picker_inv ?pk \<and> same_pieces pk ?pk \<and> progress ?pk = (progress pk)(x := None)"
  proof (cases "downloading (m_piece_map pk ! x)")
    case True
    then show ?thesis using restore_piece_spec [OF inv x] by blast
  next
    case False
    have "x \<notin> dp_index ` set (m_downloads pk)" using False inv x by (auto simp: picker_inv_def marks_ok_def)
    then have "progress pk x = None" "find_download pk x = None" by (auto simp: progress_None find_download_def find_index_None)
    then show ?thesis using inv by (simp add: restore_piece_def fun_upd_idem)
  qed
  then show "picker_inv ?pk" "same_pieces pk ?pk"
    and v: "in_range pk b \<Longrightarrow> view ?pk b = (if piece_index b = x then (state_none, 0) else view pk b)"
    by (auto simp: view_def info_of_def piece_blocks_def same_pieces_def in_range_def new_block_def split: option.split)
qed

text \<open>While connections are visited one after the other, the counts of the piece cover those already visited.\<close>

definition recounting :: "nat \<Rightarrow> nat set \<Rightarrow> swarm \<Rightarrow> bool" where
  "recounting x D sw \<longleftrightarrow> picker_inv (fst sw) \<and> finite (dom (snd sw)) \<and> card (dom (snd sw)) < 2 ^ 14
     \<and> (\<forall>c \<in> ran (snd sw). conn_ok (fst sw) c) \<and> x < num_pieces (fst sw) \<and> \<not> have_piece (fst sw) x
     \<and> (\<forall>b. in_range (fst sw) b \<longrightarrow> piece_index b \<noteq> x \<longrightarrow> \<not> got (fst sw) b \<longrightarrow>
          snd (view (fst sw) b) = card (requesters (snd sw) b))
     \<and> (\<forall>b. in_range (fst sw) b \<longrightarrow> piece_index b = x \<longrightarrow>
          \<not> got (fst sw) b \<and> snd (view (fst sw) b) = card (requesters (snd sw) b \<inter> D))"

lemma recounting_start:
  assumes ok: "swarm_ok sw" and x: "x < num_pieces (fst sw)" and nh: "\<not> have_piece (fst sw) x"
  shows "recounting x {} (restore_piece r x (fst sw), snd sw)"
proof -
  obtain pk conns where sw: "sw = (pk, conns)" by (cases sw)
  have inv: "picker_inv pk" using ok by (simp add: swarm_ok_def sw)
  note r = restored_views [OF inv x [unfolded sw fst_conv] nh [unfolded sw fst_conv], where r = r]
  have h: "\<not> have_piece (restore_piece r x pk) x" using nh r(2) x by (simp add: sw same_pieces_def have_piece_def)
  have g: "got (restore_piece r x pk) b = got pk b" if "in_range pk b" "piece_index b \<noteq> x" for b
    by (rule got_view [OF r(2) that(1)]) (use that r(3) in simp)
  have i: "in_range (restore_piece r x pk) = in_range pk" by (rule same_pieces_in_range [OF r(2)])
  have c: "conn_ok (restore_piece r x pk) c = conn_ok pk c" for c by (rule conn_ok_same_pieces [OF r(2)])
  have "\<not> got (restore_piece r x pk) b" if "in_range pk b" "piece_index b = x" for b
    using that h r(3) [OF that(1)] by (simp add: got_def)
  moreover have "x < num_pieces (restore_piece r x pk)" using r(2) x by (simp add: sw same_pieces_def)
  ultimately show ?thesis using ok r(1,3) h g i c by (simp add: recounting_def sw swarm_ok_def counts_agree_def)
qed

lemma recounting_step:
  assumes re: "recounting x D sw" and p: "p \<notin> D"
  shows "recounting x (insert p D) (at_peer p (restore_connection env r x p) sw)"
    "same_pieces (fst sw) (fst (at_peer p (restore_connection env r x p) sw))" "dom (snd (at_peer p (restore_connection env r x p) sw)) = dom (snd sw)"
proof -
  obtain pk conns where sw: "sw = (pk, conns)" by (cases sw)
  have "recounting x (insert p D) (at_peer p (restore_connection env r x p) sw) \<and>
    same_pieces (fst sw) (fst (at_peer p (restore_connection env r x p) sw)) \<and> dom (snd (at_peer p (restore_connection env r x p) sw)) = dom (snd sw)"
  proof (cases "conns p")
    case None
    then have "requesters conns b \<inter> insert p D = requesters conns b \<inter> D" for b by (auto simp: requesters_def)
    then show ?thesis using re None by (simp add: at_peer_def sw recounting_def)
  next
    case (Some c)
    have c: "conn_ok pk c" using re ranI [of conns p c, OF Some] by (simp add: recounting_def sw)
    have inv: "picker_inv pk" and nh: "\<not> have_piece pk x" and f: "finite (dom conns)" and n: "card (dom conns) < 2 ^ 14"
      using re by (auto simp: recounting_def sw)
    let ?qs = "filter (\<lambda>q. allocated q \<and> piece_index (pb_block q) = x) (download_queue c)
        @ filter (\<lambda>q. piece_index (pb_block q) = x) (request_queue c)"
    have set: "set (map pb_block ?qs) = {b \<in> set (asked c). piece_index b = x}" by (auto simp: asked_def)
    have d: "distinct (map pb_block ?qs)" using conn_okD(3) [OF c]
      by (auto simp: pending_def distinct_map intro: inj_on_subset)
    have m: "snd (view pk b) + 1 < 2 ^ 14 \<and> in_range pk b \<and> \<not> have_piece pk (piece_index b) \<and> \<not> got pk b" if "b \<in> set (map pb_block ?qs)" for b
    proof -
      have b: "b \<in> set (asked c)" "piece_index b = x" using that unfolding set by auto
      then have r: "in_range pk b" using conn_okD(6) [OF c] by blast
      then have v: "snd (view pk b) = card (requesters conns b \<inter> D)" "\<not> got pk b" using re b(2) by (auto simp: recounting_def sw)
      have "requesters conns b \<inter> D \<subset> dom conns" using p Some by (auto simp: requesters_def)
      then have "card (requesters conns b \<inter> D) < card (dom conns)" by (rule psubset_card_mono [OF f])
      then show ?thesis using v r b(2) nh n by simp
    qed
    obtain pk' v where I: "restore_connection env r x p (pk, c) = (pk', c\<lparr>conn_speed := v\<rparr>)" "picker_inv pk'" "same_pieces pk pk'"
      "\<forall>b. in_range pk b \<longrightarrow> view pk' b = (if b \<in> set (map pb_block ?qs) then (state_requested, snd (view pk b) + 1) else view pk b)"
      using mark_again [OF inv d _ refl, of "r 12" p env c] m unfolding restore_connection_def by auto
    let ?conns = "conns(p \<mapsto> c\<lparr>conn_speed := v\<rparr>)"
    have rq: "requesters ?conns b = requesters conns b" for b
      using Some by (auto simp: requesters_def asked_def)
    have ran: "conn_ok pk' d" if "d \<in> ran ?conns" for d
    proof (cases "d = c\<lparr>conn_speed := v\<rparr>")
      case True
      have "conn_ok pk' (c\<lparr>conn_speed := v\<rparr>) = conn_ok pk' c" by (rule conn_ok_cong) simp_all
      then show ?thesis using True c conn_ok_same_pieces [OF I(3)] by simp
    next
      case False
      then have "d \<in> ran conns" using that by (auto simp: ran_def split: if_splits)
      then show ?thesis using re conn_ok_same_pieces [OF I(3)] by (simp add: recounting_def sw)
    qed
    have nh': "\<not> have_piece pk' x" "x < num_pieces pk'" using I(3) nh re by (auto simp: same_pieces_def have_piece_def recounting_def sw)
    have other: "view pk' b = view pk b" if "in_range pk b" "piece_index b \<noteq> x" for b using I(4) that set by auto
    have this_piece: "\<not> got pk' b \<and> snd (view pk' b) = card (requesters conns b \<inter> insert p D)" if b: "in_range pk b" "piece_index b = x" for b
    proof -
      have v: "snd (view pk b) = card (requesters conns b \<inter> D)" "\<not> got pk b" using re b by (auto simp: recounting_def sw)
      have ins: "requesters conns b \<inter> insert p D = (if b \<in> set (asked c) then insert p (requesters conns b \<inter> D) else requesters conns b \<inter> D)"
        using Some by (auto simp: requesters_def)
      have fin: "finite (requesters conns b \<inter> D)" using finite_subset [OF requesters_sub f] by auto
      have "view pk' b = (if b \<in> set (asked c) then (state_requested, snd (view pk b) + 1) else view pk b)"
        using I(4) b unfolding set by simp
      then show ?thesis using v ins fin p nh' b(2) by (auto simp: got_def)
    qed
    have res: "at_peer p (restore_connection env r x p) sw = (pk', ?conns)" using Some I(1) by (simp add: at_peer_def sw)
    have g: "got pk' b = got pk b" if "in_range pk b" "piece_index b \<noteq> x" for b by (rule got_view [OF I(3) that(1) other [OF that]])
    have dom: "dom ?conns = dom conns" using Some by auto
    have "recounting x (insert p D) (pk', ?conns)"
      using re I(2) f n ran nh' other this_piece g
      by (simp add: recounting_def sw rq same_pieces_in_range [OF I(3)] dom del: dom_fun_upd)
    then show ?thesis using I(3) dom by (simp add: res) (simp add: sw)
  qed
  then show "recounting x (insert p D) (at_peer p (restore_connection env r x p) sw)"
    "same_pieces (fst sw) (fst (at_peer p (restore_connection env r x p) sw))" "dom (snd (at_peer p (restore_connection env r x p) sw)) = dom (snd sw)"
    by auto
qed

lemma recounting_done:
  assumes re: "recounting x D sw" and D: "dom (snd sw) \<subseteq> D"
  shows "swarm_ok sw"
proof -
  have "requesters (snd sw) b \<inter> D = requesters (snd sw) b" for b using requesters_sub [of "snd sw" b] D by blast
  then show ?thesis using re by (auto simp: recounting_def swarm_ok_def counts_agree_def)
qed

lemma recounting_all:
  assumes "recounting x D sw" "distinct ids" "set ids \<inter> D = {}"
  shows "recounting x (D \<union> set ids) (restore_piece_state env r ids x sw) \<and> same_pieces (fst sw) (fst (restore_piece_state env r ids x sw))
    \<and> dom (snd (restore_piece_state env r ids x sw)) = dom (snd sw)"
  using assms
proof (induction ids arbitrary: D sw)
  case (Cons p ids)
  let ?sw = "at_peer p (restore_connection env (r p) x p) sw"
  have "p \<notin> D" using Cons.prems(3) by auto
  note s = recounting_step [OF Cons.prems(1) this, of env "r p"]
  have "recounting x (insert p D \<union> set ids) (restore_piece_state env r ids x ?sw) \<and> same_pieces (fst ?sw) (fst (restore_piece_state env r ids x ?sw))
    \<and> dom (snd (restore_piece_state env r ids x ?sw)) = dom (snd ?sw)"
    by (rule Cons.IH [OF s(1)]) (use Cons.prems in auto)
  then show ?case using s same_pieces_trans [OF s(2)] by (simp add: restore_piece_state_def)
qed (simp add: restore_piece_state_def)

lemma restored_ok:
  assumes ok: "swarm_ok sw" and x: "x < num_pieces (fst sw)" "\<not> have_piece (fst sw) x"
    and ids: "distinct ids" "dom (snd sw) \<subseteq> set ids"
  shows "swarm_ok (restored env r0 r ids x sw)" "same_pieces (fst sw) (fst (restored env r0 r ids x sw))"
    "dom (snd (restored env r0 r ids x sw)) = dom (snd sw)"
proof -
  note a = recounting_all [OF recounting_start [OF ok x, of r0] ids(1), of env r, folded restored_def]
  show "dom (snd (restored env r0 r ids x sw)) = dom (snd sw)" using a by simp
  show "same_pieces (fst sw) (fst (restored env r0 r ids x sw))"
    using a same_pieces_trans [OF restored_views(2) [OF _ x], of r0] ok by (simp add: swarm_ok_def)
  show "swarm_ok (restored env r0 r ids x sw)"
    by (rule recounting_done [of x "set ids"]) (use a ids in auto)
qed

lemma at_peer_dom: "dom (snd (at_peer p f sw)) = dom (snd sw)"
  by (auto simp: at_peer_def case_prod_beta split: option.split)

lemma punish_ok:
  assumes ok: "swarm_ok (fst st)"
  shows "swarm_ok (fst (punish env r alone pr st))" "same_pieces (fst (fst st)) (fst (fst (punish env r alone pr st)))"
    "dom (snd (fst (punish env r alone pr st))) = dom (snd (fst st))"
proof -
  obtain sw infos where st: "st = (sw, infos)" by (cases st)
  have "swarm_ok (fst (punish env r alone pr st)) \<and> same_pieces (fst (fst st)) (fst (fst (punish env r alone pr st)))
    \<and> dom (snd (fst (punish env r alone pr st))) = dom (snd (fst st))"
  proof (cases pr)
    case None
    then show ?thesis using ok by (simp add: punish_def)
  next
    case (Some p)
    let ?blame = "case snd sw p of None \<Rightarrow> (sw, infos)
       | Some c \<Rightarrow> let (i, c) = received_invalid_data env (infos p, c) in ((fst sw, (snd sw)(p \<mapsto> c)), infos(p := i))"
    obtain sw1 infos1 where b: "?blame = (sw1, infos1)" by (cases "?blame")
    have s1: "swarm_ok sw1 \<and> same_pieces (fst sw) (fst sw1) \<and> dom (snd sw1) = dom (snd sw)"
    proof (cases "snd sw p")
      case None
      then show ?thesis using ok b by (simp add: st)
    next
      case (Some c)
      obtain i c' where i: "received_invalid_data env (infos p, c) = (i, c')" by (cases "received_invalid_data env (infos p, c)")
      have l: "local_ok (fst sw, c)" by (rule swarm_local [of _ "snd sw"]) (use ok Some in \<open>simp_all add: st\<close>)
      have "fair_step (fst sw, c) (fst sw, c')"
        by (rule fair_fields [OF l]; use i suggested_ok [OF l] in \<open>auto simp: received_invalid_data_def split: if_splits\<close>)
      then have "swarm_ok (fst sw, (snd sw)(p \<mapsto> c'))" by (intro swarm_fair [of "fst sw" "snd sw" p c]) (use ok Some in \<open>simp_all add: st\<close>)
      then show ?thesis using b Some i by (auto split: if_splits)
    qed
    have d: "swarm_ok (at_peer p (disconnect env (r p)) sw1)" "same_pieces (fst sw1) (fst (at_peer p (disconnect env (r p)) sw1))"
      by (rule at_peer_ok; use s1 disconnect_fair in simp)+
    have "punish env r alone pr st = (if trust_points (infos1 p) \<le> - 7 \<or> alone
        then (at_peer p (disconnect env (r p)) sw1, infos1(p := (infos1 p)\<lparr>banned := True\<rparr>)) else (sw1, infos1))"
      unfolding punish_def Some option.case st Let_def prod.case b [unfolded Let_def] ..
    then show ?thesis using s1 d same_pieces_trans [of "fst sw" "fst sw1"] at_peer_dom [of p _ sw1] by (simp add: st)
  qed
  then show "swarm_ok (fst (punish env r alone pr st))" "same_pieces (fst (fst st)) (fst (fst (punish env r alone pr st)))"
    "dom (snd (fst (punish env r alone pr st))) = dom (snd (fst st))" by auto
qed

lemma punish_all_ok:
  "swarm_ok (fst st) \<Longrightarrow> swarm_ok (fst (fold (punish env r alone) prs st))
     \<and> same_pieces (fst (fst st)) (fst (fst (fold (punish env r alone) prs st)))
     \<and> dom (snd (fst (fold (punish env r alone) prs st))) = dom (snd (fst st))"
proof (induction prs arbitrary: st)
  case (Cons pr prs)
  note p = punish_ok [OF Cons.prems, of env r alone pr]
  show ?case using Cons.IH [OF p(1)] p same_pieces_trans [OF p(2)] by simp
qed simp

lemma piece_failed_ok:
  assumes ok: "swarm_ok (fst st)" and x: "x < num_pieces (fst (fst st))" "\<not> have_piece (fst (fst st)) x"
    and ids: "distinct ids" "dom (snd (fst st)) \<subseteq> set ids"
  shows "swarm_ok (fst (piece_failed env r0 r ids x st))"
    "same_pieces (fst (fst st)) (fst (fst (piece_failed env r0 r ids x st)))"
proof -
  let ?peers = "senders (fst (fst st)) x"
  obtain sw infos where f: "fold (punish env r (length ?peers = 1)) ?peers st = (sw, infos)" by fastforce
  have p: "swarm_ok sw" "same_pieces (fst (fst st)) (fst sw)" "dom (snd sw) = dom (snd (fst st))"
    using punish_all_ok [OF ok, of env r "length ?peers = 1" ?peers] unfolding f by simp_all
  have x': "x < num_pieces (fst sw)" "\<not> have_piece (fst sw) x" using x p(2) by (auto simp: same_pieces_def have_piece_def)
  have ids': "dom (snd sw) \<subseteq> set ids" using ids(2) p(3) by simp
  note r = restored_ok [OF p(1) x' ids(1) ids', of env r0 r]
  have eq: "fst (piece_failed env r0 r ids x st) = restored env r0 r ids x sw"
    unfolding piece_failed_def Let_def f by simp
  show "swarm_ok (fst (piece_failed env r0 r ids x st))"
    "same_pieces (fst (fst st)) (fst (fst (piece_failed env r0 r ids x st)))"
    using r(1) same_pieces_trans [OF p(2) r(2)] by (simp_all add: eq)
qed


section \<open>A piece that passed\<close>

lemma finished_not_had:
  assumes "picker_inv pk" "x < num_pieces pk" "is_piece_finished pk x"
  shows "\<not> have_piece pk x"
  using assms by (auto simp: is_piece_finished_def have_piece_def picker_inv_def marks_ok_def split: if_splits)

lemma conn_ok_sizes:
  "num_pieces pk' = num_pieces pk \<Longrightarrow> blocks_in_piece pk' = blocks_in_piece pk \<Longrightarrow> conn_ok pk' c = conn_ok pk c"
  by (simp add: conn_ok_def in_range_def)

lemma we_have_ok:
  assumes ok: "swarm_ok (pk, conns)" and x: "x < num_pieces pk"
  shows "swarm_ok (we_have x pk, conns)" "env_ok env pk \<Longrightarrow> env_ok env (we_have x pk)" "num_pieces (we_have x pk) = num_pieces pk"
proof -
  have inv: "picker_inv pk" using ok by (simp add: swarm_ok_def)
  let ?pk = "we_have x pk"
  note w = we_have_progress [OF inv x] and fl = we_have_flags [OF inv x]
  show n: "num_pieces ?pk = num_pieces pk" using arg_cong [OF fl, of length] by (simp add: num_pieces_def)
  have h: "have_piece ?pk y = (y = x \<or> have_piece pk y)" if "y < num_pieces pk" for y
    using arg_cong [OF fl, of "\<lambda>l. l ! y"] that n by (cases "y = x") (simp_all add: have_piece_def num_pieces_def)
  have i: "in_range ?pk = in_range pk" using n w(2) by (simp add: in_range_def fun_eq_iff)
  have v: "view ?pk b = view pk b" if "piece_index b \<noteq> x" for b
    using w that by (auto simp: view_def info_of_def piece_blocks_def split: option.split)
  have "\<not> got pk b \<and> view ?pk b = view pk b" if b: "in_range pk b" "\<not> got ?pk b" for b
  proof -
    have "piece_index b \<noteq> x" using b h [of x] x by (auto simp: got_def)
    then show ?thesis using b h [of "piece_index b"] v by (auto simp: got_def in_range_def)
  qed
  then show "swarm_ok (we_have x pk, conns)"
    using ok we_have_inv [OF inv x] conn_ok_sizes [OF n w(2)] by (auto simp: swarm_ok_def counts_agree_def i)
  show "env_ok env pk \<Longrightarrow> env_ok env ?pk" using n w(2) h by (auto simp: env_ok_def)
qed

lemma set_piece_priority_same:
  assumes inv: "picker_inv pk" and x: "x < num_pieces pk" and v: "v \<le> 7"
  shows "picker_inv (snd (set_piece_priority r x v pk))" "same_pieces pk (snd (set_piece_priority r x v pk))"
    "progress (snd (set_piece_priority r x v pk)) = progress pk"
proof -
  let ?pk = "snd (set_piece_priority r x v pk)"
  have "picker_inv ?pk \<and> same_pieces pk ?pk \<and> progress ?pk = progress pk"
  proof (cases "v = piece_priority (m_piece_map pk ! x)")
    case True
    with inv show ?thesis by (simp add: set_piece_priority_def Let_def)
  next
    case False
    show ?thesis
    proof (rule set_piece_priority_refiled [OF inv x v False, of r])
      fix pk1 assume r: "refiled pk1 ?pk" and m: "m_piece_map pk1 = (m_piece_map pk)[x := (m_piece_map pk ! x)\<lparr>piece_priority := v\<rparr>]"
        and d: "m_downloads pk1 = m_downloads pk" "m_block_info pk1 = m_block_info pk" "m_blocks_per_piece pk1 = m_blocks_per_piece pk"
        "m_blocks_in_last_piece pk1 = m_blocks_in_last_piece pk"
      have "map have_pos (m_piece_map pk1) = map have_pos (m_piece_map pk)"
        using x by (simp add: m map_update have_pos_def num_pieces_def list_update_same_conv [THEN iffD2])
      note s = same_downloads [OF d this]
      show ?thesis using refiled_same [OF r] s same_pieces_trans [OF s(1)] by simp
    qed
  qed
  then show "picker_inv ?pk" "same_pieces pk ?pk" "progress ?pk = progress pk" by auto
qed

lemma update_sparse_same:
  assumes "picker_inv pk" "0 \<le> i" "i < int (num_pieces pk)"
  shows "picker_inv (update_sparse_piece_prio r i f l pk) \<and> same_pieces pk (update_sparse_piece_prio r i f l pk)
    \<and> progress (update_sparse_piece_prio r i f l pk) = progress pk"
  using set_piece_priority_same [OF assms(1), of "nat i"] assms by (simp add: update_sparse_piece_prio_def Let_def nat_less_iff)

lemma limit_sparse_same:
  assumes inv: "picker_inv pk" and x: "x < num_pieces pk"
  shows "picker_inv (limit_sparse_regions env r x pk) \<and> same_pieces pk (limit_sparse_regions env r x pk)
    \<and> progress (limit_sparse_regions env r x pk) = progress pk"
proof -
  let ?f = "int (m_cursor pk)" and ?l = "int (m_reverse_cursor pk)"
  define pk1 where "pk1 = (if int x > ?f then update_sparse_piece_prio r (int x - 1) ?f ?l pk else pk)"
  have s1: "picker_inv pk1 \<and> same_pieces pk pk1 \<and> progress pk1 = progress pk"
    using update_sparse_same [OF inv, of "int x - 1" r ?f ?l] x inv by (simp add: pk1_def)
  have "?l \<le> int (num_pieces pk)" using inv by (auto simp: picker_inv_def counts_ok_def cursors_ok_def num_pieces_def)
  moreover have "num_pieces pk1 = num_pieces pk" using s1 by (simp add: same_pieces_def)
  ultimately have "int x < ?l - 1 \<Longrightarrow> picker_inv (update_sparse_piece_prio (r + 1) (int x + 1) ?f ?l pk1) \<and>
      same_pieces pk (update_sparse_piece_prio (r + 1) (int x + 1) ?f ?l pk1) \<and>
      progress (update_sparse_piece_prio (r + 1) (int x + 1) ?f ?l pk1) = progress pk"
    using update_sparse_same [of pk1 "int x + 1" "r + 1" ?f ?l] s1 same_pieces_trans [of pk pk1] by simp
  then show ?thesis using s1 inv unfolding limit_sparse_regions_def Let_def pk1_def [symmetric] by simp
qed

context block_picker
begin

lemma piece_passed_ok:
  assumes ok: "swarm_ok (fst st)" and env: "env_ok env (fst (fst st))" and x: "x < num_pieces (fst (fst st))"
  shows "swarm_ok (fst (piece_passed env r0 r pick ids x st))"
proof -
  obtain pk conns infos where st: "st = ((pk, conns), infos)" by (metis prod.collapse)
  define good where "good = List.map_filter id (senders pk x)"
  define conns1 where "conns1 = (\<lambda>p. if p \<in> set good then map_option (\<lambda>c. c\<lparr>parole := False\<rparr>) (conns p) else conns p)"
  have c: "conn_ok pk (c\<lparr>parole := False\<rparr>) = conn_ok pk c" "asked (c\<lparr>parole := False\<rparr>) = asked c" for c
    by (rule conn_ok_cong; simp)+
  have d: "dom conns1 = dom conns" by (auto simp: conns1_def split: if_splits)
  have rq: "requesters conns1 b = requesters conns b" for b by (auto simp: conns1_def requesters_def c)
  have "conn_ok pk c'" if ran: "c' \<in> ran conns1" for c'
  proof -
    obtain p where "conns1 p = Some c'" using ran by (auto simp: ran_def)
    then obtain c0 where "conns p = Some c0" "c' = c0 \<or> c' = c0\<lparr>parole := False\<rparr>"
      by (cases "p \<in> set good") (auto simp: conns1_def)
    then show ?thesis using ok c ranI [of conns p c0] by (auto simp: swarm_ok_def st)
  qed
  then have ok1: "swarm_ok (pk, conns1)" using ok d rq by (simp add: swarm_ok_def counts_agree_def st)
  note w = we_have_ok [OF ok1 x [unfolded st fst_conv]]
  have envw: "env_ok env (fst (we_have x pk, conns1))" using w(2) env by (simp add: st)
  define sw1 where "sw1 = fold (\<lambda>p. at_peer p (announce_piece env (r p) pick x p)) ids (we_have x pk, conns1)"
  have a: "swarm_ok sw1" "same_pieces (we_have x pk) (fst sw1)"
    using fold_peers_ok [where f = "\<lambda>p. announce_piece env (r p) pick x p", OF announce_piece_fair w(1) envw] by (auto simp: sw1_def)
  define pk2 where "pk2 = limit_sparse_regions env r0 x (fst sw1)"
  have inv1: "picker_inv (fst sw1)" using a(1) by (simp add: swarm_ok_def)
  have "x < num_pieces (fst sw1)" using a(2) w(3) x by (simp add: same_pieces_def st)
  note l = limit_sparse_same [OF inv1 this, of env r0, folded pk2_def]
  have vw: "view pk2 = view (fst sw1)" using view_same l by blast
  have ok2: "swarm_ok (pk2, snd sw1)"
    by (rule swarm_picker [of "fst sw1"]) (use a l vw got_view [of "fst sw1" pk2] in auto)
  have env2: "env_ok env (fst (pk2, snd sw1))"
    using envw env_ok_same [OF a(2)] env_ok_same [of "fst sw1" pk2] l by simp
  let ?f = "\<lambda>p st. if interesting (snd st) \<and> peer_pieces (snd st) ! x then update_interest env (\<lambda>i. r p (40 + i)) pick p st else st"
  have "swarm_ok (fold (\<lambda>p. at_peer p (?f p)) ids (pk2, snd sw1))"
    using fold_peers_ok [where f = ?f and env = env, OF _ ok2 env2] update_interest_fair fair_step_refl by simp
  then show ?thesis
    unfolding piece_passed_def st Let_def prod.case good_def [symmetric] conns1_def [symmetric] sw1_def [symmetric] pk2_def [symmetric]
      fst_conv .
qed

lemma piece_finished_ok:
  assumes ok: "swarm_ok (fst st)" and env: "env_ok env (fst (fst st))" and x: "x < num_pieces (fst (fst st))"
    and ids: "distinct ids" "dom (snd (fst st)) \<subseteq> set ids"
  shows "swarm_ok (fst (piece_finished env r0 r pick ids x res st))"
proof (cases "is_piece_finished (fst (fst st)) x")
  case True
  have inv: "picker_inv (fst (fst st))" using ok by (simp add: swarm_ok_def)
  note nh = finished_not_had [OF inv x True]
  show ?thesis
    using True piece_passed_ok [OF ok env x] piece_failed_ok [OF ok x nh ids] restored_ok [OF ok x nh ids]
    by (cases res) (simp_all add: piece_finished_def)
qed (use ok in \<open>simp add: piece_finished_def\<close>)

end

end
