(* ===== verification/Deadlines.thy ===== *)
theory Deadlines
  imports Swarm_Outcome
begin

text \<open>
  Pieces with a deadline (\<open>src/torrent.cpp\<close>: \<open>set_piece_deadline\<close>, \<open>reset_piece_deadline\<close>,
  \<open>clear_pieces_deadline\<close>, \<open>remove_time_critical_piece\<close> and \<open>remove_time_critical_pieces\<close>). The list is
  kept sorted by deadline, with one entry for each piece. Times are microseconds, and \<open>min_time()\<close>
  is 0; two fields of an entry that are never read are left out. A piece that is already there is
  read and announced to the player, which is not modelled.
\<close>

section \<open>Data\<close>

record time_critical_piece =
  first_requested :: int
  deadline :: int
  alert_when_available :: bool
  tc_piece :: nat

record deadlines =
  time_critical_pieces :: "time_critical_piece list"
  average_piece_time :: int
  piece_time_deviation :: int

definition no_deadlines :: deadlines where
  "no_deadlines = \<lparr>time_critical_pieces = [], average_piece_time = 0, piece_time_deviation = 0\<rparr>"

section \<open>Operations\<close>

text \<open>The two loops that move an entry whose deadline has changed.\<close>

function sift_later :: "nat \<Rightarrow> time_critical_piece list \<Rightarrow> nat \<times> time_critical_piece list" where
  "sift_later i xs =
     (if i + 1 < length xs \<and> deadline (xs ! i) > deadline (xs ! (i + 1))
      then sift_later (i + 1) (xs[i := xs ! (i + 1), i + 1 := xs ! i])
      else (i, xs))"
  by pat_completeness auto
termination by (relation "measure (\<lambda>(i, xs). length xs - i)") auto

declare sift_later.simps [simp del]

fun sift_earlier :: "nat \<Rightarrow> time_critical_piece list \<Rightarrow> time_critical_piece list" where
  "sift_earlier 0 xs = xs"
| "sift_earlier (Suc i) xs =
     (if deadline (xs ! Suc i) < deadline (xs ! i)
      then sift_earlier i (xs[Suc i := xs ! i, i := xs ! Suc i])
      else xs)"

definition change_deadline :: "nat \<Rightarrow> int \<Rightarrow> bool \<Rightarrow> time_critical_piece list \<Rightarrow> time_critical_piece list" where
  "change_deadline i d alert xs =
     (let (i, xs) = sift_later i (xs[i := (xs ! i)\<lparr>deadline := d, alert_when_available := alert\<rparr>])
      in sift_earlier i xs)"

text \<open>\<open>std::upper_bound\<close> on the sorted list, and the insertion there.\<close>

definition insert_upper :: "time_critical_piece \<Rightarrow> time_critical_piece list \<Rightarrow> time_critical_piece list" where
  "insert_upper e xs =
     takeWhile (\<lambda>f. \<not> deadline e < deadline f) xs @ e # dropWhile (\<lambda>f. \<not> deadline e < deadline f) xs"

text \<open>The requests for a piece that gets a deadline are moved to the front of their queues.\<close>

definition promote :: "nat \<Rightarrow> swarm \<Rightarrow> swarm" where
  "promote x sw =
     (case piece_info x (fst sw) of (f, w, rq) \<Rightarrow>
        if rq = 0 then sw
        else fold (\<lambda>(j, pr) sw.
               case pr of None \<Rightarrow> sw
               | Some p \<Rightarrow> at_peer p (\<lambda>(pk, c). (pk, make_time_critical \<lparr>piece_index = x, block_index = j\<rparr> c)) sw)
             (enumerate 0 (get_downloaders (fst sw) x)) sw)"

definition set_piece_deadline ::
  "torrent_env \<Rightarrow> int \<Rightarrow> nat \<Rightarrow> int \<Rightarrow> bool \<Rightarrow> deadlines \<times> swarm \<Rightarrow> deadlines \<times> swarm" where
  "set_piece_deadline env now x ms alert st =
     (let (d, sw) = st;
          dl = now + ms * 1000;
          xs = time_critical_pieces d
      in if is_seed env (fst sw) \<or> have_piece (fst sw) x then st
         else case find_index (\<lambda>e. tc_piece e = x) xs of
           Some i \<Rightarrow> (d\<lparr>time_critical_pieces := change_deadline i dl alert xs\<rparr>, sw)
         | None \<Rightarrow>
             (d\<lparr>time_critical_pieces :=
                  insert_upper \<lparr>first_requested = 0, deadline = dl, alert_when_available = alert, tc_piece = x\<rparr> xs\<rparr>,
              promote x sw))"

definition clear_pieces_deadline :: "deadlines \<Rightarrow> deadlines" where
  "clear_pieces_deadline d = d\<lparr>time_critical_pieces := []\<rparr>"

text \<open>Division of durations rounds towards zero.\<close>

definition quotient :: "int \<Rightarrow> int \<Rightarrow> int" where
  "quotient a b = sgn a * (\<bar>a\<bar> div b)"

definition learn_piece_time :: "int \<Rightarrow> deadlines \<Rightarrow> deadlines" where
  "learn_piece_time dl_time d =
     (let av = average_piece_time d; dev = piece_time_deviation d; diff = \<bar>dl_time - av\<bar>
      in if av = 0 then d\<lparr>average_piece_time := dl_time\<rparr>
         else d\<lparr>piece_time_deviation := (if dev = 0 then diff else quotient (dev * 6 + diff * 4) 10),
                average_piece_time := quotient (av * 6 + dl_time * 4) 10\<rparr>)"

definition remove_time_critical_piece :: "int \<Rightarrow> nat \<Rightarrow> bool \<Rightarrow> deadlines \<Rightarrow> deadlines" where
  "remove_time_critical_piece now x is_done d =
     (case find_index (\<lambda>e. tc_piece e = x) (time_critical_pieces d) of None \<Rightarrow> d
      | Some i \<Rightarrow>
          let e = time_critical_pieces d ! i;
              d = (if is_done then learn_piece_time (now - first_requested e) d else d)
          in d\<lparr>time_critical_pieces := erase_at i (time_critical_pieces d)\<rparr>)"

definition reset_piece_deadline :: "int \<Rightarrow> nat \<Rightarrow> deadlines \<Rightarrow> deadlines" where
  "reset_piece_deadline now x d = remove_time_critical_piece now x False d"

definition remove_time_critical_pieces :: "nat list \<Rightarrow> deadlines \<Rightarrow> deadlines" where
  "remove_time_critical_pieces prios d =
     d\<lparr>time_critical_pieces := filter (\<lambda>e. prios ! tc_piece e \<noteq> 0) (time_critical_pieces d)\<rparr>"

section \<open>The list\<close>

abbreviation by_deadline :: "time_critical_piece list \<Rightarrow> bool" where
  "by_deadline xs \<equiv> sorted (map deadline xs)"

definition deadlines_ok :: "deadlines \<Rightarrow> bool" where
  "deadlines_ok d \<longleftrightarrow> by_deadline (time_critical_pieces d) \<and> distinct (map tc_piece (time_critical_pieces d))"

lemma sift_later_eq:
  "sift_later (length ys) (ys @ e # zs) =
     (length ys + length (takeWhile (\<lambda>z. deadline z < deadline e) zs),
      ys @ takeWhile (\<lambda>z. deadline z < deadline e) zs @ e # dropWhile (\<lambda>z. deadline z < deadline e) zs)"
proof (induction zs arbitrary: ys)
  case (Cons z zs)
  show ?case
  proof (cases "deadline z < deadline e")
    case True
    have "sift_later (length ys) (ys @ e # z # zs) = sift_later (length (ys @ [z])) ((ys @ [z]) @ e # zs)"
      using True by (subst sift_later.simps) (simp add: nth_append list_update_append)
    then show ?thesis using True Cons.IH [of "ys @ [z]"] by simp
  qed (simp add: sift_later.simps [of "length ys"] nth_append)
qed (simp add: sift_later.simps)

lemma sift_earlier_eq:
  "sift_earlier (length ys) (ys @ e # zs) =
     rev (dropWhile (\<lambda>y. deadline e < deadline y) (rev ys)) @ e # rev (takeWhile (\<lambda>y. deadline e < deadline y) (rev ys)) @ zs"
proof (induction ys arbitrary: zs rule: rev_induct)
  case (snoc y ys)
  show ?case
  proof (cases "deadline e < deadline y")
    case True
    have "sift_earlier (length (ys @ [y])) ((ys @ [y]) @ e # zs) = sift_earlier (length ys) (ys @ e # y # zs)"
      using True by (simp add: nth_append list_update_append)
    then show ?thesis using True snoc.IH by simp
  qed (simp add: nth_append)
qed simp

lemma sorted_place:
  fixes f :: "'a \<Rightarrow> int"
  assumes s: "sorted (map f (xs @ b))" and b: "\<forall>y \<in> set b. f e \<le> f y"
  shows "sorted (map f (rev (dropWhile (\<lambda>y. f e < f y) (rev xs)) @ e # rev (takeWhile (\<lambda>y. f e < f y) (rev xs)) @ b))"
proof -
  define u where "u = rev (dropWhile (\<lambda>y. f e < f y) (rev xs))"
  define v where "v = rev (takeWhile (\<lambda>y. f e < f y) (rev xs))"
  have xs: "xs = u @ v" unfolding u_def v_def by (metis rev_append rev_rev_ident takeWhile_dropWhile_id)
  have v: "\<forall>y \<in> set v. f e < f y" unfolding v_def by (auto dest: set_takeWhileD)
  have "f y \<le> f e" if y: "y \<in> set u" for y
  proof -
    have "u \<noteq> []" using y by auto
    then have ne: "dropWhile (\<lambda>y. f e < f y) (rev xs) \<noteq> []" unfolding u_def by (metis rev.simps(1))
    have l: "f (last u) \<le> f e" using hd_dropWhile [OF ne] ne by (simp add: u_def last_rev)
    have su: "sorted (map f u)" using s xs by (simp add: sorted_append)
    obtain w where w: "u = w @ [last u]" using \<open>u \<noteq> []\<close> by (metis append_butlast_last_id)
    have "sorted (map f (w @ [last u]))" "y \<in> set (w @ [last u])" using su y w by simp_all
    then have "f y \<le> f (last u)" by (auto simp: sorted_append)
    then show ?thesis using l by simp
  qed
  then show ?thesis using s b v xs unfolding u_def [symmetric] v_def [symmetric]
    by (auto simp: sorted_append less_imp_le)
qed

lemma change_deadline_ok:
  assumes s: "by_deadline xs" and i: "i < length xs"
  shows "by_deadline (change_deadline i d al xs)"
    "mset (change_deadline i d al xs) = mset (xs[i := (xs ! i)\<lparr>deadline := d, alert_when_available := al\<rparr>])"
proof -
  define e where "e = (xs ! i)\<lparr>deadline := d, alert_when_available := al\<rparr>"
  define ys where "ys = take i xs"
  define zs where "zs = drop (Suc i) xs"
  define a where "a = takeWhile (\<lambda>z. deadline z < deadline e) zs"
  define b where "b = dropWhile (\<lambda>z. deadline z < deadline e) zs"
  have zs: "zs = a @ b" by (simp add: a_def b_def)
  have xs: "xs = ys @ xs ! i # zs" "xs[i := e] = ys @ e # zs" "length ys = i"
    using i by (simp_all add: ys_def zs_def id_take_nth_drop [symmetric] upd_conv_take_nth_drop)
  have "by_deadline (ys @ xs ! i # zs)" using s xs(1) by simp
  then have s1: "by_deadline ((ys @ a) @ b)" by (simp add: zs sorted_append)
  have "\<forall>y \<in> set b. deadline e \<le> deadline y"
  proof (cases b)
    case (Cons z b')
    have "\<not> deadline z < deadline e" using Cons hd_dropWhile [of "\<lambda>z. deadline z < deadline e" zs] by (simp add: b_def)
    then show ?thesis using s1 Cons by (auto simp: sorted_append)
  qed simp
  note p = sorted_place [OF s1 this]
  have eq: "change_deadline i d al xs = rev (dropWhile (\<lambda>y. deadline e < deadline y) (rev (ys @ a))) @
      e # rev (takeWhile (\<lambda>y. deadline e < deadline y) (rev (ys @ a))) @ b"
    using sift_later_eq [of ys e zs] sift_earlier_eq [of "ys @ a" e b]
    unfolding change_deadline_def e_def [symmetric] xs(2) a_def [symmetric] b_def [symmetric] by (simp add: xs(3))
  show "by_deadline (change_deadline i d al xs)" unfolding eq by (rule p)
  have "mset (rev (dropWhile P (rev l))) + mset (rev (takeWhile P (rev l))) = mset l" for P and l :: "time_critical_piece list"
    by (metis mset_append mset_rev takeWhile_dropWhile_id union_commute)
  from this [of "\<lambda>y. deadline e < deadline y" "ys @ a"]
  show "mset (change_deadline i d al xs) = mset (xs[i := (xs ! i)\<lparr>deadline := d, alert_when_available := al\<rparr>])"
    unfolding eq e_def [symmetric] xs(2) zs by (simp add: add.assoc)
qed

lemma insert_upper_ok:
  assumes "by_deadline xs"
  shows "by_deadline (insert_upper e xs)" "mset (insert_upper e xs) = add_mset e (mset xs)"
proof -
  let ?P = "\<lambda>f. \<not> deadline e < deadline f"
  define a where "a = takeWhile ?P xs"
  define b where "b = dropWhile ?P xs"
  have xs: "xs = a @ b" by (simp add: a_def b_def)
  have a: "\<forall>y \<in> set a. deadline y \<le> deadline e" by (auto simp: a_def dest: set_takeWhileD)
  have "\<forall>y \<in> set b. deadline e \<le> deadline y"
  proof (cases b)
    case (Cons z b')
    have "deadline e < deadline z" using Cons hd_dropWhile [of ?P xs] by (simp add: b_def)
    then show ?thesis using assms Cons xs by (auto simp: sorted_append)
  qed simp
  then show "by_deadline (insert_upper e xs)"
    using assms [unfolded xs] a unfolding insert_upper_def a_def [symmetric] b_def [symmetric] by (auto simp: sorted_append intro: order_trans)
  show "mset (insert_upper e xs) = add_mset e (mset xs)"
    unfolding insert_upper_def a_def [symmetric] b_def [symmetric] by (simp add: xs)
qed


section \<open>What the list stands for\<close>

definition entry :: "time_critical_piece \<Rightarrow> nat \<times> int \<times> bool" where
  "entry e = (tc_piece e, deadline e, alert_when_available e)"

definition deadline_map :: "deadlines \<Rightarrow> nat \<rightharpoonup> int \<times> bool" where
  "deadline_map d = map_of (map entry (time_critical_pieces d))"

lemma fst_entry: "map fst (map entry xs) = map tc_piece xs"
  by (simp add: entry_def)

lemma map_of_entries:
  assumes "distinct (map tc_piece xs)"
  shows "map_of (map entry xs) x = Some v \<longleftrightarrow> (x, v) \<in> entry ` set xs"
  using assms fst_entry [of xs] by (simp add: map_of_eq_Some_iff del: map_map)

lemma map_of_permuted:
  assumes "distinct (map tc_piece xs)" "mset ys = mset xs"
  shows "map_of (map entry ys) = map_of (map entry xs)" "distinct (map tc_piece ys)"
proof -
  show d: "distinct (map tc_piece ys)" using assms by (metis mset_eq_imp_distinct_iff mset_map)
  have "set ys = set xs" using assms(2) by (rule mset_eq_setD)
  then show "map_of (map entry ys) = map_of (map entry xs)"
    using map_of_entries [OF d] map_of_entries [OF assms(1)] by (intro ext) (metis not_Some_eq)
qed

lemma change_deadline_refines:
  assumes ok: "deadlines_ok d" and i: "find_index (\<lambda>e. tc_piece e = x) (time_critical_pieces d) = Some i"
  shows "deadlines_ok (d\<lparr>time_critical_pieces := change_deadline i t al (time_critical_pieces d)\<rparr>)"
    "deadline_map (d\<lparr>time_critical_pieces := change_deadline i t al (time_critical_pieces d)\<rparr>) = (deadline_map d)(x \<mapsto> (t, al))"
proof -
  let ?xs = "time_critical_pieces d"
  have s: "by_deadline ?xs" and dt: "distinct (map tc_piece ?xs)" using ok by (auto simp: deadlines_ok_def)
  have il: "i < length ?xs" "tc_piece (?xs ! i) = x" using find_index_Some [OF i] by auto
  let ?ys = "?xs[i := (?xs ! i)\<lparr>deadline := t, alert_when_available := al\<rparr>]"
  have same: "map tc_piece ?ys = map tc_piece ?xs"
    using il(1) by (simp add: map_update list_update_same_conv [THEN iffD2])
  then have dy: "distinct (map tc_piece ?ys)" using dt by simp
  note c = change_deadline_ok [OF s il(1), of t al]
  note m = map_of_permuted [OF dy c(2)]
  show "deadlines_ok (d\<lparr>time_critical_pieces := change_deadline i t al ?xs\<rparr>)" using c(1) m(2) by (simp add: deadlines_ok_def)
  have "map_of (map entry ?ys) = (map_of (map entry ?xs))(x \<mapsto> (t, al))"
  proof
    fix y
    have e: "entry (?ys ! i) = (x, t, al)" using il by (simp add: entry_def)
    show "map_of (map entry ?ys) y = ((map_of (map entry ?xs))(x \<mapsto> (t, al))) y"
    proof (cases "y = x")
      case True
      have "(x, t, al) \<in> entry ` set ?ys" using e il(1) by (metis imageI length_list_update nth_mem)
      then show ?thesis using True map_of_entries [OF dy, of x "(t, al)"] by simp
    next
      case False
      obtain us q vs where q: "?xs = us @ q # vs" "i = length us" "tc_piece q = x" using find_index_split [OF i] by metis
      then have "(y, v) \<in> entry ` set ?ys \<longleftrightarrow> (y, v) \<in> entry ` set ?xs" for v
        using False by (auto simp: entry_def)
      then show ?thesis using False map_of_entries [OF dy, of y] map_of_entries [OF dt, of y] by (metis fun_upd_other not_Some_eq)
    qed
  qed
  then show "deadline_map (d\<lparr>time_critical_pieces := change_deadline i t al ?xs\<rparr>) = (deadline_map d)(x \<mapsto> (t, al))"
    using m(1) by (simp add: deadline_map_def)
qed

lemma insert_upper_refines:
  assumes ok: "deadlines_ok d" and i: "find_index (\<lambda>e. tc_piece e = x) (time_critical_pieces d) = None" and e: "tc_piece e = x"
  shows "deadlines_ok (d\<lparr>time_critical_pieces := insert_upper e (time_critical_pieces d)\<rparr>)"
    "deadline_map (d\<lparr>time_critical_pieces := insert_upper e (time_critical_pieces d)\<rparr>) = (deadline_map d)(x \<mapsto> (deadline e, alert_when_available e))"
proof -
  let ?xs = "time_critical_pieces d"
  have s: "by_deadline ?xs" and dt: "distinct (map tc_piece ?xs)" using ok by (auto simp: deadlines_ok_def)
  have "x \<notin> tc_piece ` set ?xs" using i by (auto simp: find_index_None_set)
  then have d: "distinct (map tc_piece (e # ?xs))" using dt e by auto
  note c = insert_upper_ok [OF s, of e]
  have "mset (insert_upper e ?xs) = mset (e # ?xs)" using c(2) by simp
  note m = map_of_permuted [OF d this]
  show "deadlines_ok (d\<lparr>time_critical_pieces := insert_upper e ?xs\<rparr>)" using c(1) m(2) by (simp add: deadlines_ok_def)
  show "deadline_map (d\<lparr>time_critical_pieces := insert_upper e ?xs\<rparr>) = (deadline_map d)(x \<mapsto> (deadline e, alert_when_available e))"
    using m(1) by (simp add: deadline_map_def entry_def e)
qed

lemma set_piece_deadline_refines:
  assumes ok: "deadlines_ok d" and res: "set_piece_deadline env now x ms al (d, sw) = (d', sw')"
  shows "deadlines_ok d'"
    "deadline_map d' = (if is_seed env (fst sw) \<or> have_piece (fst sw) x then deadline_map d else (deadline_map d)(x \<mapsto> (now + ms * 1000, al)))"
  using ok res change_deadline_refines [OF ok] insert_upper_refines [OF ok]
  by (auto simp: set_piece_deadline_def Let_def split: if_splits option.splits)

lemma learn_piece_time_list [simp]: "time_critical_pieces (learn_piece_time t d) = time_critical_pieces d"
  by (simp add: learn_piece_time_def Let_def)

lemma remove_time_critical_piece_refines:
  assumes ok: "deadlines_ok d"
  shows "deadlines_ok (remove_time_critical_piece now x f d)" "deadline_map (remove_time_critical_piece now x f d) = (deadline_map d)(x := None)"
proof -
  have "deadlines_ok (remove_time_critical_piece now x f d) \<and> deadline_map (remove_time_critical_piece now x f d) = (deadline_map d)(x := None)"
  proof (cases "find_index (\<lambda>e. tc_piece e = x) (time_critical_pieces d)")
    case None
    then have "x \<notin> dom (deadline_map d)"
      by (auto simp: find_index_None_set deadline_map_def dom_map_of_conv_image_fst entry_def)
    then show ?thesis using None ok by (auto simp: remove_time_critical_piece_def fun_eq_iff domIff)
  next
    case (Some i)
    obtain ys e zs where q: "time_critical_pieces d = ys @ e # zs" "tc_piece e = x" "erase_at i (time_critical_pieces d) = ys @ zs"
      using find_index_split [OF Some] by metis
    have l: "time_critical_pieces (remove_time_critical_piece now x f d) = ys @ zs"
      using Some q(3) by (simp add: remove_time_critical_piece_def Let_def)
    have "deadlines_ok (remove_time_critical_piece now x f d)" using ok q(1) l by (auto simp: deadlines_ok_def sorted_append)
    moreover have "map_of (map entry (ys @ zs)) = (map_of (map entry (ys @ e # zs)))(x := None)"
    proof
      fix y
      have x: "x \<notin> tc_piece ` set ys \<union> tc_piece ` set zs" using ok q by (auto simp: deadlines_ok_def)
      then have "map_of (map entry ys) x = None" "map_of (map entry zs) x = None"
        by (auto simp: map_of_eq_None_iff entry_def)
      then show "map_of (map entry (ys @ zs)) y = ((map_of (map entry (ys @ e # zs)))(x := None)) y"
        using q(2) by (auto simp: map_add_def entry_def split: option.split)
    qed
    ultimately show ?thesis using l q(1) by (simp add: deadline_map_def)
  qed
  then show "deadlines_ok (remove_time_critical_piece now x f d)" "deadline_map (remove_time_critical_piece now x f d) = (deadline_map d)(x := None)"
    by auto
qed

lemma remove_time_critical_pieces_refines:
  assumes ok: "deadlines_ok d"
  shows "deadlines_ok (remove_time_critical_pieces prios d)"
    "deadline_map (remove_time_critical_pieces prios d) = (deadline_map d) |` {x. prios ! x \<noteq> 0}"
proof -
  let ?P = "\<lambda>e. prios ! tc_piece e \<noteq> 0" and ?xs = "time_critical_pieces d"
  have s: "by_deadline ?xs" and dt: "distinct (map tc_piece ?xs)" using ok by (auto simp: deadlines_ok_def)
  have df: "distinct (map tc_piece (filter ?P ?xs))" using dt by (simp add: distinct_map_filter)
  show "deadlines_ok (remove_time_critical_pieces prios d)"
    using s df by (simp add: deadlines_ok_def remove_time_critical_pieces_def sorted_filter)
  show "deadline_map (remove_time_critical_pieces prios d) = (deadline_map d) |` {x. prios ! x \<noteq> 0}"
  proof
    fix x
    have "(x, v) \<in> entry ` set (filter ?P ?xs) \<longleftrightarrow> (x, v) \<in> entry ` set ?xs \<and> prios ! x \<noteq> 0" for v by (auto simp: entry_def image_iff)
    then have "deadline_map (remove_time_critical_pieces prios d) x = Some v \<longleftrightarrow> (deadline_map d |` {x. prios ! x \<noteq> 0}) x = Some v" for v
      using map_of_entries [OF df, of x v] map_of_entries [OF dt, of x v]
      by (simp add: deadline_map_def remove_time_critical_pieces_def restrict_map_def)
    then show "deadline_map (remove_time_critical_pieces prios d) x = (deadline_map d |` {x. prios ! x \<noteq> 0}) x"
      by (metis not_Some_eq)
  qed
qed

end
