(* ===== verification/Critical_Requests.thy ===== *)
theory Critical_Requests
  imports Deadlines Swarm_Outcome
begin

text \<open>
  \<open>torrent::request_time_critical_pieces\<close>: every second the blocks of pieces with a deadline are
  requested, the most urgent piece first, each from the peer that is expected to answer first. The loops
  end, and they keep the counts of the requests as long as no request has been given up whose block the
  connection still waits for.
\<close>

section \<open>Definitions\<close>

definition download_queue_time :: "torrent_env \<Rightarrow> connection \<Rightarrow> int" where
  "download_queue_time env c = quotient (outstanding_bytes c + queued_time_critical c * block_size env) (max 50 (download_rate c))"

text \<open>The call of \<open>add_blocks\<close>: one block, no preference for whole pieces or a speed, no options.\<close>

definition critical_request :: "nat \<Rightarrow> connection \<Rightarrow> request" where
  "critical_request p c =
     \<lparr>req_pieces = peer_pieces c, req_peer = Some p, req_speed = none, req_whole = 0,
      req_options = \<lparr>rarest_first = False, pick_reverse = False, on_parole = False, prioritize_partials = False,
        sequential = False, speed_affinity = False, ignore_whole_pieces = False\<rparr>\<rparr>"

definition critical_block :: "piece_picker \<Rightarrow> nat \<Rightarrow> connection \<Rightarrow> nat \<Rightarrow> piece_block list" where
  "critical_block pk p c x =
     interesting_blocks (add_blocks pk (critical_request p c) [] x
       \<lparr>interesting_blocks = [], backup_blocks = [], backup_blocks2 = [], blocks_left = 1\<rparr>)"

record critical =
  crit_peers :: "nat list"
  crit_with_requests :: "nat set"
  crit_requested :: bool
  crit_swarm :: swarm

definition queue_time :: "torrent_env \<Rightarrow> swarm \<Rightarrow> nat \<Rightarrow> int" where
  "queue_time env sw p = (case snd sw p of None \<Rightarrow> 0 | Some c \<Rightarrow> download_queue_time env c)"

text \<open>The peer just asked moves back behind those that are faster now.\<close>

fun resort :: "(nat \<Rightarrow> int) \<Rightarrow> nat list \<Rightarrow> nat list" where
  "resort t (p # q # ps) = (if t p > t q then q # resort t (p # ps) else p # q # ps)"
| "resort t ps = ps"

definition after_request :: "torrent_env \<Rightarrow> nat \<Rightarrow> nat \<Rightarrow> piece_picker \<Rightarrow> connection \<Rightarrow> critical \<Rightarrow> critical" where
  "after_request env k p pk c s =
     (let sw = (pk, (snd (crit_swarm s))(p \<mapsto> c));
          ps = crit_peers s
      in s\<lparr>crit_swarm := sw, crit_requested := True, crit_with_requests := insert p (crit_with_requests s),
           crit_peers := (if \<not> can_request_time_critical env c then erase_at k ps
                          else take k ps @ resort (queue_time env sw) (drop k ps))\<rparr>)"

text \<open>The loop over the blocks of one piece; \<open>None\<close> is a loop that has not ended when the fuel is used up.\<close>

fun request_piece :: "torrent_env \<Rightarrow> (nat \<Rightarrow> piece_block \<Rightarrow> nat) \<Rightarrow> nat \<Rightarrow> nat \<Rightarrow> critical \<Rightarrow> critical option" where
  "request_piece env r x 0 s = None"
| "request_piece env r x (Suc n) s =
     (let pk = fst (crit_swarm s); conns = snd (crit_swarm s)
      in case find_index (\<lambda>p. case conns p of None \<Rightarrow> False | Some c \<Rightarrow> peer_pieces c ! x) (crit_peers s) of
        None \<Rightarrow> Some s
      | Some k \<Rightarrow>
          let p = crit_peers s ! k
          in case conns p of None \<Rightarrow> Some s
          | Some c \<Rightarrow>
              (case critical_block pk p c x of [] \<Rightarrow> Some s
               | b # _ \<Rightarrow>
                   if \<exists>q \<in> set (request_queue c). has_block b q
                   then
                     let c = make_time_critical b c;
                         (ok, pk) = mark_as_downloading (r n b) b (Some p) fast pk
                     in if \<not> ok then Some (s\<lparr>crit_swarm := (pk, conns(p \<mapsto> c))\<rparr>)
                        else request_piece env r x n (after_request env k p pk c s)
                   else
                     let (ok, pk, c) = add_request env (r n b) p True False b (pk, c)
                     in if \<not> ok
                        then request_piece env r x n (s\<lparr>crit_swarm := (pk, conns(p \<mapsto> c)), crit_peers := erase_at k (crit_peers s)\<rparr>)
                        else request_piece env r x n (after_request env k p pk c s)))"

text \<open>Enough fuel for a piece: each round uses a free block of it or drops a peer.\<close>

definition rounds :: "nat \<Rightarrow> critical \<Rightarrow> nat" where
  "rounds x s = length (crit_peers s) + blocks_in_piece (fst (crit_swarm s)) x + 1"

text \<open>The loop over the pieces; \<open>is_first\<close> says that the piece is the first one of the list.\<close>

fun request_pieces ::
  "torrent_env \<Rightarrow> (nat \<Rightarrow> nat \<Rightarrow> piece_block \<Rightarrow> nat) \<Rightarrow> int \<Rightarrow> int \<Rightarrow> bool \<Rightarrow> time_critical_piece list \<Rightarrow> critical \<Rightarrow>
    (time_critical_piece list \<times> critical) option" where
  "request_pieces env r now horizon is_first [] s = Some ([], s)"
| "request_pieces env r now horizon is_first (e # es) s =
     (if crit_peers s = [] \<or> \<not> is_first \<and> deadline e > horizon then Some (e # es, s)
      else case request_piece env (r (tc_piece e)) (tc_piece e) (rounds (tc_piece e) s) (s\<lparr>crit_requested := False\<rparr>) of
        None \<Rightarrow> None
      | Some s1 \<Rightarrow>
          let e = (if crit_requested s1 \<and> first_requested e = 0 then e\<lparr>first_requested := now\<rparr> else e)
          in case request_pieces env r now horizon False es s1 of None \<Rightarrow> None
             | Some (es, s2) \<Rightarrow> Some (e # es, s2))"

definition request_time_critical_pieces ::
  "torrent_env \<Rightarrow> (nat \<Rightarrow> nat \<Rightarrow> piece_block \<Rightarrow> nat) \<Rightarrow> (nat \<Rightarrow> dice) \<Rightarrow> int \<Rightarrow> nat list \<Rightarrow> deadlines \<times> swarm \<Rightarrow> (deadlines \<times> swarm) option" where
  "request_time_critical_pieces env r r' now ids st =
     (let (d, sw) = st;
          able = filter (\<lambda>p. case snd sw p of None \<Rightarrow> False | Some c \<Rightarrow> can_request_time_critical env c) ids;
          s = \<lparr>crit_peers = sort_key (queue_time env sw) able, crit_with_requests = {}, crit_requested = False, crit_swarm = sw\<rparr>;
          horizon = now + average_piece_time d + piece_time_deviation d * 4
      in case request_pieces env r now horizon True (time_critical_pieces d) s of None \<Rightarrow> None
         | Some (es, s) \<Rightarrow>
             Some (d\<lparr>time_critical_pieces := es\<rparr>,
               fold (\<lambda>p. at_peer p (send_block_requests env (r' p)))
                 (filter (\<lambda>p. p \<in> crit_with_requests s) ids) (crit_swarm s)))"

section \<open>The block that is asked for\<close>

lemma downloading_loop_plain:
  assumes "\<not> speed_affinity (req_options rq)" "req_whole rq = 0" "interesting_blocks st = []" "blocks_left st = 1"
  shows "interesting_blocks (snd (downloading_loop rq ea dp (enumerate n infos) st)) =
    (case find_index (\<lambda>i. block_state i = state_none) infos of None \<Rightarrow> [] | Some j \<Rightarrow> [\<lparr>piece_index = dp_index dp, block_index = n + j\<rparr>])"
  using assms
proof (induction infos arbitrary: n)
  case (Cons i infos)
  show ?case
  proof (cases "block_state i = state_none")
    case True
    then show ?thesis using Cons.prems by (simp add: push_interesting_def)
  next
    case False
    then show ?thesis using Cons.IH [OF Cons.prems, of "Suc n"] by (simp add: split: option.split)
  qed
qed (simp)


lemma critical_block_eq:
  assumes inv: "picker_inv pk" and x: "x < num_pieces pk" and has: "peer_pieces c ! x"
  shows "critical_block pk p c x =
    (case find_index (\<lambda>i. block_state i = state_none) (piece_blocks pk x) of None \<Rightarrow> [] | Some j \<Rightarrow> [\<lparr>piece_index = x, block_index = j\<rparr>])"
proof (cases "downloading (m_piece_map pk ! x)")
  case True
  let ?rq = "critical_request p c" and ?st = "\<lparr>interesting_blocks = [], backup_blocks = [], backup_blocks2 = [], blocks_left = 1\<rparr>"
  obtain i dp where e: "find_download pk x = Some i" "dp = m_downloads pk ! i" "dp_index dp = x" "blocks_of pk dp = piece_blocks pk x"
    by (rule entry_of_piece [OF inv x True blocks_in_piece_pos [OF inv x]])
  obtain ex ea where r: "requested_from (Some p) (piece_blocks pk x) True = (ex, ea)" by fastforce
  obtain ret st' where l: "downloading_loop ?rq ea dp (enumerate 0 (piece_blocks pk x)) ?st = (ret, st')" by fastforce
  have "interesting_blocks st' = (case find_index (\<lambda>i. block_state i = state_none) (piece_blocks pk x) of None \<Rightarrow> [] | Some j \<Rightarrow> [\<lparr>piece_index = x, block_index = j\<rparr>])"
    using downloading_loop_plain [of ?rq ?st ea dp 0 "piece_blocks pk x"] l e(3) by (simp add: critical_request_def split: option.splits)
  then show ?thesis using True e has r l
    by (simp add: critical_block_def add_blocks_def add_blocks_downloading_def infos_of_blocks Let_def) (simp add: critical_request_def)
next
  case False
  have n: "0 < blocks_in_piece pk x" by (rule blocks_in_piece_pos [OF inv x])
  then have "nat (min (int (blocks_in_piece pk x)) 1) = 1" by simp
  then have "critical_block pk p c x = [\<lparr>piece_index = x, block_index = 0\<rparr>]"
    using False by (simp add: critical_block_def add_blocks_def critical_request_def push_piece_blocks_def push_interesting_def)
  moreover have "find_index (\<lambda>i. block_state i = state_none) (piece_blocks pk x) = Some 0"
    using n by (cases "blocks_in_piece pk x") (simp_all add: idle_piece_blocks [OF inv x False] new_block_def)
  ultimately show ?thesis by simp
qed

lemma critical_block_free:
  assumes inv: "picker_inv pk" and x: "x < num_pieces pk" and has: "peer_pieces c ! x" and b: "critical_block pk p c x = b # bs"
  shows "piece_index b = x" "in_range pk b" "view pk b = (state_none, 0)"
proof -
  obtain j where j: "find_index (\<lambda>i. block_state i = state_none) (piece_blocks pk x) = Some j" "b = \<lparr>piece_index = x, block_index = j\<rparr>"
    using b critical_block_eq [OF inv x has, of p] by (auto split: option.splits)
  have l: "j < length (piece_blocks pk x)" "block_state (piece_blocks pk x ! j) = state_none" using find_index_Some [OF j(1)] by auto
  show "piece_index b = x" using j(2) by simp
  show r: "in_range pk b" using l piece_blocks_ok(1) [OF inv x] x j(2) by (simp add: in_range_def)
  have "fst (view pk b) = state_none" using l(2) j(2) by (simp add: view_def info_of_def)
  with view_ok(2) [OF inv r] show "view pk b = (state_none, 0)" by (cases "view pk b") auto
qed

section \<open>The loops end\<close>

definition free_blocks :: "piece_picker \<Rightarrow> nat \<Rightarrow> nat set" where
  "free_blocks pk x = {j. j < blocks_in_piece pk x \<and> fst (view pk \<lparr>piece_index = x, block_index = j\<rparr>) = state_none}"

lemma free_blocks_finite: "finite (free_blocks pk x)" "card (free_blocks pk x) \<le> blocks_in_piece pk x"
proof -
  have s: "free_blocks pk x \<subseteq> {..<blocks_in_piece pk x}" by (auto simp: free_blocks_def)
  show "finite (free_blocks pk x)" by (rule finite_subset [OF s]) simp
  show "card (free_blocks pk x) \<le> blocks_in_piece pk x" using card_mono [OF _ s] by simp
qed

lemma marked_block_used:
  assumes inv: "picker_inv pk" and b: "in_range pk b" "view pk b = (state_none, 0)" "piece_index b = x" and nh: "\<not> have_piece pk x"
    and st: "state \<noteq> none" and mk: "(ok, pk') = mark_as_downloading r b pr state pk"
  shows "ok" "picker_inv pk'" "same_pieces pk pk'" "card (free_blocks pk' x) < card (free_blocks pk x)"
proof -
  have g: "\<not> got pk b" using b nh by (simp add: got_def)
  have nh': "\<not> have_piece pk (piece_index b)" using nh b(3) by simp
  have np: "snd (view pk b) + 1 < 2 ^ 14" using b(2) by simp
  note m = mark_as_downloading_view [OF inv b(1) nh' st np mk]
  show ok "picker_inv pk'" "same_pieces pk pk'" using m(1-3) g by auto
  have same: "blocks_in_piece pk' x = blocks_in_piece pk x" using m(2) by (simp add: same_pieces_def)
  have v: "view pk' \<lparr>piece_index = x, block_index = j\<rparr> =
      (if \<lparr>piece_index = x, block_index = j\<rparr> = b then (state_requested, 1) else view pk \<lparr>piece_index = x, block_index = j\<rparr>)"
    if "j < blocks_in_piece pk x" for j
    using m(4) [of "\<lparr>piece_index = x, block_index = j\<rparr>"] that b g by (simp add: in_range_def)
  have bb: "\<lparr>piece_index = x, block_index = block_index b\<rparr> = b" using b(3) by (intro piece_block_eqI) simp_all
  have "block_index b \<in> free_blocks pk x" unfolding free_blocks_def mem_Collect_eq bb using b by (simp add: in_range_def)
  moreover have "block_index b \<notin> free_blocks pk' x" using v [of "block_index b"] b same by (auto simp: free_blocks_def)
  moreover have "free_blocks pk' x \<subseteq> free_blocks pk x" using v same by (auto simp: free_blocks_def split: if_splits)
  ultimately have "free_blocks pk' x \<subset> free_blocks pk x" by blast
  then show "card (free_blocks pk' x) < card (free_blocks pk x)" by (rule psubset_card_mono [OF free_blocks_finite(1)])
qed

lemma add_request_used:
  assumes inv: "picker_inv pk" and b: "in_range pk b" "view pk b = (state_none, 0)" "piece_index b = x" and nh: "\<not> have_piece pk x"
    and res: "add_request env r p True False b (pk, c) = (ok, pk', c')"
  shows "picker_inv pk' \<and> same_pieces pk pk' \<and> (if ok then card (free_blocks pk' x) < card (free_blocks pk x) else pk' = pk)"
proof -
  obtain ok1 pk1 where mk: "(ok1, pk1) = mark_as_downloading r b (Some p) (peer_speed env c) pk" by (metis prod.collapse)
  note m = marked_block_used [OF inv b nh peer_speed_not_none mk]
  show ?thesis using res m inv mk [symmetric] by (auto simp: add_request_def Let_def split: if_splits)
qed

lemma length_erase_at: "k < length xs \<Longrightarrow> length (erase_at k xs) = length xs - 1"
  by (simp add: erase_at_def)

lemma length_resort [simp]: "length (resort t ps) = length ps"
  by (induction t ps rule: resort.induct) auto

lemma request_piece_total:
  assumes "picker_inv (fst (crit_swarm s))" "x < num_pieces (fst (crit_swarm s))" "\<not> have_piece (fst (crit_swarm s)) x"
    "length (crit_peers s) + card (free_blocks (fst (crit_swarm s)) x) < n"
  shows "\<exists>s'. request_piece env r x n s = Some s' \<and> picker_inv (fst (crit_swarm s')) \<and> same_pieces (fst (crit_swarm s)) (fst (crit_swarm s'))"
  using assms
proof (induction n arbitrary: s)
  case (Suc n)
  obtain pk conns where sw: "crit_swarm s = (pk, conns)" by (cases "crit_swarm s")
  have inv: "picker_inv pk" and x: "x < num_pieces pk" and nh: "\<not> have_piece pk x" using Suc.prems sw by auto
  have again: "\<exists>s'. request_piece env r x n s1 = Some s' \<and> picker_inv (fst (crit_swarm s')) \<and> same_pieces pk (fst (crit_swarm s'))"
    if s1: "picker_inv (fst (crit_swarm s1))" "same_pieces pk (fst (crit_swarm s1))"
      "length (crit_peers s1) + card (free_blocks (fst (crit_swarm s1)) x) < length (crit_peers s) + card (free_blocks pk x)" for s1
  proof -
    have "x < num_pieces (fst (crit_swarm s1))" "\<not> have_piece (fst (crit_swarm s1)) x"
      using s1(2) x nh by (auto simp: same_pieces_def have_piece_def)
    then obtain s' where "request_piece env r x n s1 = Some s'" "picker_inv (fst (crit_swarm s'))" "same_pieces (fst (crit_swarm s1)) (fst (crit_swarm s'))"
      using Suc.IH [of s1] s1 Suc.prems(4) sw by auto
    then show ?thesis using same_pieces_trans [OF s1(2)] by blast
  qed
  show ?case
  proof (cases "find_index (\<lambda>p. case conns p of None \<Rightarrow> False | Some c \<Rightarrow> peer_pieces c ! x) (crit_peers s)")
    case None
    then show ?thesis using inv sw by simp
  next
    case (Some k)
    let ?p = "crit_peers s ! k"
    have k: "k < length (crit_peers s)" using find_index_Some [OF Some] by simp
    obtain c where c: "conns ?p = Some c" "peer_pieces c ! x" using find_index_Some [OF Some] by (auto split: option.splits)
    show ?thesis
    proof (cases "critical_block pk ?p c x")
      case Nil
      then show ?thesis using Some c inv sw by simp
    next
      case (Cons b bs)
      note fb = critical_block_free [OF inv x c(2) Cons]
      have af: "fst (crit_swarm (after_request env k ?p pk1 c1 s)) = pk1 \<and> length (crit_peers (after_request env k ?p pk1 c1 s)) \<le> length (crit_peers s)"
        for pk1 c1 using k by (simp add: after_request_def Let_def length_erase_at)
      show ?thesis
      proof (cases "\<exists>q \<in> set (request_queue c). has_block b q")
        case True
        obtain ok pk1 where mk: "(ok, pk1) = mark_as_downloading (r n b) b (Some ?p) fast pk" by (metis prod.collapse)
        note m = marked_block_used [OF inv fb(2,3,1) nh _ mk]
        have "\<exists>s'. request_piece env r x n (after_request env k ?p pk1 (make_time_critical b c) s) = Some s' \<and> picker_inv (fst (crit_swarm s')) \<and> same_pieces pk (fst (crit_swarm s'))"
          by (rule again) (use m af [of pk1 "make_time_critical b c"] in auto)
        moreover have "request_piece env r x (Suc n) s = request_piece env r x n (after_request env k ?p pk1 (make_time_critical b c) s)"
          using Some c Cons True m(1) mk [symmetric] sw by simp
        ultimately show ?thesis using sw by simp
      next
        case False
        obtain ok pk1 c1 where ar: "add_request env (r n b) ?p True False b (pk, c) = (ok, pk1, c1)" by (metis prod.collapse)
        note m = add_request_used [OF inv fb(2,3,1) nh ar]
        show ?thesis
        proof (cases ok)
          case True
          have "\<exists>s'. request_piece env r x n (after_request env k ?p pk1 c1 s) = Some s' \<and> picker_inv (fst (crit_swarm s')) \<and> same_pieces pk (fst (crit_swarm s'))"
            by (rule again) (use m True af [of pk1 c1] in auto)
          moreover have "request_piece env r x (Suc n) s = request_piece env r x n (after_request env k ?p pk1 c1 s)"
            using Some c Cons False True ar sw by simp
          ultimately show ?thesis using sw by simp
        next
          case nok: False
          let ?s1 = "s\<lparr>crit_swarm := (pk1, conns(?p \<mapsto> c1)), crit_peers := erase_at k (crit_peers s)\<rparr>"
          have "\<exists>s'. request_piece env r x n ?s1 = Some s' \<and> picker_inv (fst (crit_swarm s')) \<and> same_pieces pk (fst (crit_swarm s'))"
            by (rule again) (use m nok k length_erase_at [OF k] in auto)
          moreover have "request_piece env r x (Suc n) s = request_piece env r x n ?s1"
            using Some c Cons False nok ar sw by simp
          ultimately show ?thesis using sw by simp
        qed
      qed
    qed
  qed
qed simp


lemma request_pieces_total:
  assumes "picker_inv (fst (crit_swarm s))" "\<forall>e \<in> set es. tc_piece e < num_pieces (fst (crit_swarm s)) \<and> \<not> have_piece (fst (crit_swarm s)) (tc_piece e)"
  shows "\<exists>es' s'. request_pieces env r now h f es s = Some (es', s') \<and> map entry es' = map entry es"
  using assms
proof (induction es arbitrary: s f)
  case (Cons e es)
  show ?case
  proof (cases "crit_peers s = [] \<or> \<not> f \<and> deadline e > h")
    case False
    let ?x = "tc_piece e" and ?s = "s\<lparr>crit_requested := False\<rparr>"
    have n: "length (crit_peers ?s) + card (free_blocks (fst (crit_swarm ?s)) ?x) < rounds ?x s"
      using free_blocks_finite(2) [of "fst (crit_swarm s)" ?x] by (simp add: rounds_def)
    obtain s1 where s1: "request_piece env (r ?x) ?x (rounds ?x s) ?s = Some s1" "picker_inv (fst (crit_swarm s1))"
      "same_pieces (fst (crit_swarm s)) (fst (crit_swarm s1))"
      using request_piece_total [OF _ _ _ n, of env "r ?x"] Cons.prems by auto
    have "\<forall>e \<in> set es. tc_piece e < num_pieces (fst (crit_swarm s1)) \<and> \<not> have_piece (fst (crit_swarm s1)) (tc_piece e)"
      using Cons.prems(2) s1(3) by (auto simp: same_pieces_def have_piece_def)
    from Cons.IH [OF s1(2) this, of False] obtain es' s2 where "request_pieces env r now h False es s1 = Some (es', s2)" "map entry es' = map entry es"
      by blast
    moreover have "entry (e\<lparr>first_requested := now\<rparr>) = entry e" by (simp add: entry_def)
    ultimately show ?thesis using False s1(1) by (auto simp: Let_def)
  qed simp
qed simp

section \<open>The counts of requests\<close>

text \<open>No request has been given up while the connection still waits for the block.\<close>

definition no_stale :: "swarm \<Rightarrow> bool" where
  "no_stale sw \<longleftrightarrow> (\<forall>c \<in> ran (snd sw). \<forall>q \<in> set (download_queue c). allocated q)"

lemma free_not_pending:
  assumes ok: "swarm_ok (pk, conns)" and st: "no_stale (pk, conns)" and c: "conns p = Some c"
    and b: "in_range pk b" "view pk b = (state_none, 0)" "\<not> have_piece pk (piece_index b)"
  shows "\<forall>q \<in> set (download_queue c) \<union> set (request_queue c). \<not> has_block b q"
proof -
  have "\<not> got pk b" using b by (simp add: got_def)
  then have "snd (view pk b) = card (requesters conns b)" using ok b(1) by (simp add: swarm_ok_def counts_agree_def)
  then have "card (requesters conns b) = 0" using b(2) by simp
  moreover have "finite (requesters conns b)" using finite_subset [OF requesters_sub] ok by (auto simp: swarm_ok_def)
  ultimately have "p \<notin> requesters conns b" by simp
  then have "b \<notin> set (asked c)" using c by (simp add: requesters_def)
  moreover have "\<forall>q \<in> set (download_queue c). allocated q" using st ranI [of conns p c, OF c] by (simp add: no_stale_def)
  ultimately show ?thesis by (auto simp: asked_def has_block_def)
qed

lemma add_request_download_queue: "download_queue (snd (snd (add_request env r p crit rb b (pk, c)))) = download_queue c"
  by (simp add: add_request_def Let_def split: prod.split)

lemma request_piece_ok:
  assumes "swarm_ok (crit_swarm s)" "no_stale (crit_swarm s)" "x < num_pieces (fst (crit_swarm s))" "\<not> have_piece (fst (crit_swarm s)) x"
    "request_piece env r x n s = Some s'"
  shows "swarm_ok (crit_swarm s') \<and> no_stale (crit_swarm s') \<and> same_pieces (fst (crit_swarm s)) (fst (crit_swarm s'))"
  using assms
proof (induction n arbitrary: s)
  case (Suc n)
  obtain pk conns where sw: "crit_swarm s = (pk, conns)" by (cases "crit_swarm s")
  have ok: "swarm_ok (pk, conns)" and stale: "no_stale (pk, conns)" and x: "x < num_pieces pk" and nh: "\<not> have_piece pk x"
    using Suc.prems sw by auto
  have inv: "picker_inv pk" using ok by (simp add: swarm_ok_def)
  show ?case
  proof (cases "find_index (\<lambda>p. case conns p of None \<Rightarrow> False | Some c \<Rightarrow> peer_pieces c ! x) (crit_peers s)")
    case None
    then show ?thesis using Suc.prems sw by simp
  next
    case (Some k)
    let ?p = "crit_peers s ! k"
    obtain c where c: "conns ?p = Some c" "peer_pieces c ! x" using find_index_Some [OF Some] by (auto split: option.splits)
    show ?thesis
    proof (cases "critical_block pk ?p c x")
      case Nil
      then show ?thesis using Some c Suc.prems sw by simp
    next
      case (Cons b bs)
      note fb = critical_block_free [OF inv x c(2) Cons]
      have np: "\<forall>q \<in> set (download_queue c) \<union> set (request_queue c). \<not> has_block b q"
        by (rule free_not_pending [OF ok stale c(1) fb(2,3)]) (simp add: fb nh)
      obtain okay pk1 c1 where ar: "add_request env (r n b) ?p True False b (pk, c) = (okay, pk1, c1)" by (metis prod.collapse)
      have f: "fair_step (pk, c) (pk1, c1)"
        using add_request_fair [OF swarm_local [OF ok c(1)] fb(2) _ np, of env "r n b" ?p True False] fb(1) nh ar by simp
      have dq: "download_queue c1 = download_queue c" using add_request_download_queue [of env "r n b" ?p True False b pk c] ar by simp
      have ok1: "swarm_ok (pk1, conns(?p \<mapsto> c1))" by (rule swarm_fair [OF ok c(1) f])
      have "allocated q" if "q \<in> set (download_queue c1)" for q using stale that dq ranI [of conns ?p c, OF c(1)] by (auto simp: no_stale_def)
      then have stale1: "no_stale (pk1, conns(?p \<mapsto> c1))" using stale by (auto simp: no_stale_def ran_def split: if_splits)
      have same: "same_pieces pk pk1" using f by (simp add: fair_step_def)
      have x1: "x < num_pieces pk1" "\<not> have_piece pk1 x" using same x nh by (auto simp: same_pieces_def have_piece_def)
      define s1 where "s1 = (if okay then after_request env k ?p pk1 c1 s
        else s\<lparr>crit_swarm := (pk1, conns(?p \<mapsto> c1)), crit_peers := erase_at k (crit_peers s)\<rparr>)"
      have s1: "crit_swarm s1 = (pk1, conns(?p \<mapsto> c1))" by (simp add: s1_def after_request_def sw Let_def)
      have "request_piece env r x n s1 = Some s'"
        using Suc.prems(5) Some c Cons np ar sw by (auto simp: s1_def split: if_splits)
      from Suc.IH [OF _ _ _ _ this] have "swarm_ok (crit_swarm s') \<and> no_stale (crit_swarm s') \<and> same_pieces pk1 (fst (crit_swarm s'))"
        using ok1 stale1 x1 s1 by simp
      then show ?thesis using same_pieces_trans [OF same] sw by auto
    qed
  qed
qed simp

lemma request_pieces_ok:
  assumes "swarm_ok (crit_swarm s)" "no_stale (crit_swarm s)"
    "\<forall>e \<in> set es. tc_piece e < num_pieces (fst (crit_swarm s)) \<and> \<not> have_piece (fst (crit_swarm s)) (tc_piece e)"
    "request_pieces env r now h f es s = Some (es', s')"
  shows "swarm_ok (crit_swarm s') \<and> same_pieces (fst (crit_swarm s)) (fst (crit_swarm s'))"
  using assms
proof (induction es arbitrary: s f es')
  case (Cons e es)
  show ?case
  proof (cases "crit_peers s = [] \<or> \<not> f \<and> deadline e > h")
    case True
    then show ?thesis using Cons.prems by simp
  next
    case False
    then obtain s1 es1 where s1: "request_piece env (r (tc_piece e)) (tc_piece e) (rounds (tc_piece e) s) (s\<lparr>crit_requested := False\<rparr>) = Some s1"
      "request_pieces env r now h False es s1 = Some (es1, s')"
      using Cons.prems(4) by (auto split: option.splits prod.splits simp: Let_def)
    have a: "swarm_ok (crit_swarm s1) \<and> no_stale (crit_swarm s1) \<and> same_pieces (fst (crit_swarm s)) (fst (crit_swarm s1))"
      using request_piece_ok [OF _ _ _ _ s1(1)] Cons.prems by simp
    then have "\<forall>e \<in> set es. tc_piece e < num_pieces (fst (crit_swarm s1)) \<and> \<not> have_piece (fst (crit_swarm s1)) (tc_piece e)"
      using Cons.prems(3) by (auto simp: same_pieces_def have_piece_def)
    with Cons.IH [OF _ _ this s1(2)] a show ?thesis using same_pieces_trans by blast
  qed
qed simp

text \<open>So they do as a whole.\<close>

lemma request_time_critical_pieces_ok:
  assumes ok: "swarm_ok sw" and env: "env_ok env (fst sw)" and st: "no_stale sw"
    and ps: "\<forall>e \<in> set (time_critical_pieces d). tc_piece e < num_pieces (fst sw) \<and> \<not> have_piece (fst sw) (tc_piece e)"
    and res: "request_time_critical_pieces env r r' now ids (d, sw) = Some (d', sw')"
  shows "swarm_ok sw'"
proof -
  define s where "s = \<lparr>crit_peers = sort_key (queue_time env sw)
      (filter (\<lambda>p. case snd sw p of None \<Rightarrow> False | Some c \<Rightarrow> can_request_time_critical env c) ids),
    crit_with_requests = {}, crit_requested = False, crit_swarm = sw\<rparr>"
  obtain es s' where r: "request_pieces env r now (now + average_piece_time d + piece_time_deviation d * 4) True (time_critical_pieces d) s = Some (es, s')"
    and sw': "sw' = fold (\<lambda>p. at_peer p (send_block_requests env (r' p))) (filter (\<lambda>p. p \<in> crit_with_requests s') ids) (crit_swarm s')"
    using res by (auto simp: request_time_critical_pieces_def Let_def s_def [symmetric] split: option.splits)
  have a: "swarm_ok (crit_swarm s')" "same_pieces (fst sw) (fst (crit_swarm s'))"
    using request_pieces_ok [OF _ _ _ r] ok st ps by (auto simp: s_def)
  have "env_ok env (fst (crit_swarm s'))" using env env_ok_same [OF a(2)] by simp
  then show ?thesis unfolding sw'
    using fold_peers_ok [where f = "\<lambda>p. send_block_requests env (r' p)", OF send_block_requests_fair a(1)] by blast
qed

end
