(* ===== verification/Swarm_Run.thy ===== *)
theory Swarm_Run
  imports Critical_Requests
begin

text \<open>
  A torrent as a transition system: all steps of its connections, blocks that are written and pieces
  that are hashed, from a torrent without connections. In every state that is reached the assertions
  of the code on the queues hold.
\<close>

section \<open>A block has been written\<close>

lemma mark_as_finished_view:
  assumes inv: "picker_inv pk" and b: "in_range pk b" and w: "fst (view pk b) = state_writing" and pk': "pk' = mark_as_finished r b pr pk"
  shows "picker_inv pk'" "same_pieces pk pk'"
    "in_range pk b' \<Longrightarrow> \<not> got pk' b' \<Longrightarrow> \<not> got pk b' \<and> snd (view pk' b') = snd (view pk b')"
proof -
  have x: "piece_index b < num_pieces pk" "block_index b < blocks_in_piece pk (piece_index b)"
    "block_state (piece_blocks pk (piece_index b) ! block_index b) \<noteq> state_requested"
    using b w by (auto simp: in_range_def view_def info_of_def)
  note s = mark_as_finished_spec [OF inv x, of r pr, folded pk']
  show inv': "picker_inv pk'" using s by simp
  show same: "same_pieces pk pk'" using mark_as_finished_same [OF inv x(1), of r pr, folded pk'] .
  show "\<not> got pk b' \<and> snd (view pk' b') = snd (view pk b')" if b': "in_range pk b'" "\<not> got pk' b'"
  proof (cases "have_pos (m_piece_map pk ! piece_index b) \<or> fst (view pk b) = state_finished")
    case True
    then have "pk' = pk" using s by (auto simp: view_def info_of_def Let_def)
    then show ?thesis using b' by simp
  next
    case False
    have ok: "block_ok (finish_block pr (info_of pk b))" using piece_blocks_ok(2) [OF inv x(1)] piece_blocks_ok(1) [OF inv x(1)] x(2) w
      by (auto simp: finish_block_def block_ok_def info_of_def view_def)
    have v: "view pk' b' = (if b' = b then (block_state (finish_block pr (info_of pk b)), num_peers (finish_block pr (info_of pk b))) else view pk b')"
      by (rule view_progress [where e = False, OF inv' same inv b b'(1) _ _ ok])
        (use s False in \<open>auto simp: view_def info_of_def Let_def\<close>)
    have "b' \<noteq> b" using v b' by (auto simp: got_def finish_block_def)
    then show ?thesis using v b' got_view [OF same b'(1)] by auto
  qed
qed

lemma on_disk_write_complete_ok:
  assumes ok: "swarm_ok (pk, conns)" and b: "in_range pk (block_at env req)" "fst (view pk (block_at env req)) = state_writing"
  shows "swarm_ok (on_disk_write_complete env r p req pk, conns)"
proof -
  have inv: "picker_inv pk" using ok by (simp add: swarm_ok_def)
  note m = mark_as_finished_view [OF inv b refl]
  show ?thesis unfolding on_disk_write_complete_def using ok swarm_picker [OF ok m(1,2)] m(3) by simp
qed

section \<open>All that can happen\<close>

text \<open>What one connection does: messages it gets, requests it sends, and what the torrent asks of it.\<close>

inductive conn_step :: "torrent_env \<Rightarrow> nat \<Rightarrow> piece_picker \<times> connection \<Rightarrow> piece_picker \<times> connection \<Rightarrow> bool"
  for env p where
  choke: "conn_step env p st (incoming_choke env r st)"
| unchoke: "conn_step env p st (incoming_unchoke env r (picked_by rnd r1 r2) p st)"
| reject: "conn_step env p st (incoming_reject_request env r (picked_by rnd r1 r2) p req st)"
| suggest: "conn_step env p st (incoming_suggest env i st)"
| allowed: "conn_step env p st (incoming_allowed_fast env r (picked_by rnd r1 r2) p i st)"
| have_piece: "conn_step env p st (incoming_have env r (picked_by rnd r1 r2) p i st)"
| have_all: "conn_step env p st (incoming_have_all env r (picked_by rnd r1 r2) p st)"
| have_none: "conn_step env p st (incoming_have_none env r st)"
| dont_have: "(\<And>x. peer_pieces (snd st) ! x \<Longrightarrow> counted (fst st) x) \<Longrightarrow>
    conn_step env p st (incoming_dont_have env r i st)"
| bitfield: "length bits = length (peer_pieces (snd st)) \<or> (length bits + 7) div 8 \<noteq> (length (peer_pieces (snd st)) + 7) div 8 \<Longrightarrow>
    True \<in> set bits \<or> (\<forall>x. peer_pieces (snd st) ! x \<longrightarrow> counted (fst st) x) \<Longrightarrow>
    conn_step env p st (incoming_bitfield env r (picked_by rnd r1 r2) p bits st)"
| start: "0 \<le> pr_length req \<Longrightarrow> conn_step env p st (start_receive_piece env r req st)"
| fragment: "conn_step env p st (fst st, incoming_piece_fragment bytes (snd st))"
| more: "conn_step env p st (request_more env r (picked_by rnd r1 r2) p st)"
| critical: "conn_step env p st (fst st, make_time_critical b (snd st))"
| cancel: "conn_step env p st (connection_cancel env r (picked_by rnd r1 r2) p b st)"
| cancel_all: "conn_step env p st (cancel_all_requests env r (picked_by rnd r1 r2) p st)"
| snub: "download_queue (snd st) \<noteq> [] \<Longrightarrow> snub_peer env r (picked_by rnd r1 r2) p st = Some st' \<Longrightarrow> conn_step env p st st'"
| interest: "conn_step env p st (update_interest env r (picked_by rnd r1 r2) p st)"
| leave: "conn_step env p st (disconnect env r st)"
| fields: "request_queue c = request_queue (snd st) \<Longrightarrow> download_queue c = download_queue (snd st) \<Longrightarrow>
    queued_time_critical c = queued_time_critical (snd st) \<Longrightarrow> outstanding_bytes c = outstanding_bytes (snd st) \<Longrightarrow>
    disconnecting c = disconnecting (snd st) \<Longrightarrow> peer_pieces c = peer_pieces (snd st) \<Longrightarrow>
    suggested_pieces c = suggested_pieces (snd st) \<Longrightarrow> conn_step env p st (fst st, c)"

definition fresh_connection :: "piece_picker \<Rightarrow> connection \<Rightarrow> bool" where
  "fresh_connection pk c \<longleftrightarrow> request_queue c = [] \<and> download_queue c = [] \<and> queued_time_critical c = 0 \<and> outstanding_bytes c = 0
     \<and> \<not> disconnecting c \<and> suggested_pieces c = [] \<and> peer_pieces c = replicate (num_pieces pk) False"

inductive torrent_step :: "torrent_env \<Rightarrow> torrent_state \<Rightarrow> torrent_state \<Rightarrow> bool" for env where
  at_connection: "conns p = Some c \<Longrightarrow> conn_step env p (pk, c) (pk', c') \<Longrightarrow>
    torrent_step env ((pk, conns), infos) ((pk', conns(p \<mapsto> c')), infos)"
| connect: "conns p = None \<Longrightarrow> fresh_connection pk c \<Longrightarrow> card (dom conns) + 1 < 2 ^ 14 \<Longrightarrow>
    torrent_step env ((pk, conns), infos) ((pk, conns(p \<mapsto> c)), infos)"
| remove: "conns p = Some c \<Longrightarrow> disconnecting c \<Longrightarrow> torrent_step env ((pk, conns), infos) ((pk, conns(p := None)), infos)"
| block: "verify_piece env (fst sw) req \<Longrightarrow> 0 \<le> pr_length req \<Longrightarrow>
    incoming_piece env r (picked_by rnd r1 r2) ids in_time p req sw = (sw', hash) \<Longrightarrow> torrent_step env (sw, infos) (sw', infos)"
| written: "in_range pk (block_at env req) \<Longrightarrow> fst (view pk (block_at env req)) = state_writing \<Longrightarrow>
    torrent_step env ((pk, conns), infos) ((on_disk_write_complete env r p req pk, conns), infos)"
| hashed: "x < num_pieces (fst (fst st)) \<Longrightarrow> distinct ids \<Longrightarrow> set ids = dom (snd (fst st)) \<Longrightarrow>
    torrent_step env st (piece_finished env r0 r (picked_by rnd r1 r2) ids x res st)"
| deadlines: "no_stale sw \<Longrightarrow> \<forall>e \<in> set (time_critical_pieces d). tc_piece e < num_pieces (fst sw) \<and> \<not> have_piece (fst sw) (tc_piece e) \<Longrightarrow>
    request_time_critical_pieces env r r' now ids (d, sw) = Some (d', sw') \<Longrightarrow> torrent_step env (sw, infos) (sw', infos)"
| priority: "x < num_pieces pk \<Longrightarrow> v \<le> 7 \<Longrightarrow>
    torrent_step env ((pk, conns), infos) ((snd (set_piece_priority r x v pk), conns), infos)"

lemma conn_step_fair:
  assumes "conn_step env p st st'" "local_ok st" "env_ok env (fst st)"
  shows "fair_step st st'"
  using assms
proof (induction rule: conn_step.induct)
  case (fragment st bytes)
  obtain pk c where st: "st = (pk, c)" by (cases st)
  have "conn_ok pk (incoming_piece_fragment bytes c)"
    using fragment(1) by (simp add: st local_ok_def conn_ok_def incoming_piece_fragment_def asked_def pending_def)
  then show ?case unfolding st fst_conv snd_conv
    by (rule fair_rearrange [OF fragment(1) [unfolded st]]) (simp add: incoming_piece_fragment_def asked_def)
next
  case (critical st b)
  then show ?case using make_time_critical_fair [of "fst st" "snd st" b] by simp
next
  case (snub st r rnd r1 r2 st')
  then show ?case using picker.snub_peer_fair [of st env r rnd r1 r2 p] by auto
next
  case (fields c st)
  show ?case
    using fields(8) fields(1-7) fair_fields [of "fst st" "snd st" c] suggested_ok [of "fst st" "snd st"] by simp
qed (blast intro: incoming_choke_fair picker.incoming_unchoke_fair picker.incoming_reject_request_fair picker.incoming_suggest_fair
    picker.incoming_allowed_fast_fair picker.incoming_have_fair picker.incoming_have_all_fair picker.incoming_have_none_fair
    incoming_dont_have_fair picker.incoming_bitfield_fair start_receive_piece_fair picker.request_more_fair
    picker.connection_cancel_fair picker.cancel_all_requests_fair picker.update_interest_fair disconnect_fair)+


lemma fresh_connection_ok: "fresh_connection pk c \<Longrightarrow> conn_ok pk c \<and> asked c = []"
  by (auto simp: fresh_connection_def conn_ok_def asked_def pending_def)

lemma swarm_connect:
  assumes ok: "swarm_ok (pk, conns)" and p: "conns p = None" and c: "fresh_connection pk c" and n: "card (dom conns) + 1 < 2 ^ 14"
  shows "swarm_ok (pk, conns(p \<mapsto> c))"
proof -
  have "requesters (conns(p \<mapsto> c)) b = requesters conns b" for b
    using p fresh_connection_ok [OF c] by (auto simp: requesters_def)
  moreover have "card (dom (conns(p \<mapsto> c))) < 2 ^ 14" using ok p n by (simp add: swarm_ok_def card_insert_disjoint domIff)
  moreover have "conn_ok pk d" if "d \<in> ran (conns(p \<mapsto> c))" for d
    using that ok fresh_connection_ok [OF c] by (auto simp: ran_def swarm_ok_def split: if_splits)
  ultimately show ?thesis using ok by (simp add: swarm_ok_def counts_agree_def)
qed

lemma swarm_remove:
  assumes ok: "swarm_ok (pk, conns)" and p: "conns p = Some c" and c: "disconnecting c"
  shows "swarm_ok (pk, conns(p := None))"
proof -
  have f: "finite (dom conns)" using ok by (simp add: swarm_ok_def)
  have "asked c = []" using ok ranI [of conns p c, OF p] c by (auto simp: swarm_ok_def conn_ok_def asked_def pending_def)
  then have "requesters (conns(p := None)) b = requesters conns b" for b using p by (auto simp: requesters_def)
  moreover have "card (dom (conns(p := None))) \<le> card (dom conns)" using f by (intro card_mono) auto
  moreover have "ran (conns(p := None)) \<subseteq> ran conns" by (auto simp: ran_def)
  ultimately show ?thesis using ok by (auto simp: swarm_ok_def counts_agree_def)
qed

lemma torrent_step_ok:
  assumes "torrent_step env st st'" "swarm_ok (fst st)" "env_ok env (fst (fst st))"
  shows "swarm_ok (fst st')"
  using assms
proof (cases rule: torrent_step.cases)
  case (at_connection conns p c pk pk' c' infos)
  have ok: "swarm_ok (pk, conns)" and env: "env_ok env (fst (pk, c))" using assms(2,3) at_connection by auto
  note l = swarm_local [OF ok at_connection(3)]
  show ?thesis using swarm_fair [OF ok at_connection(3) conn_step_fair [OF at_connection(4) l env]] at_connection by simp
next
  case (hashed x ids r0 r rnd r1 r2 res)
  then show ?thesis using picker.piece_finished_ok [OF assms(2,3)] by simp
next
  case (deadlines sw d r r' now ids d' sw' infos)
  then show ?thesis using request_time_critical_pieces_ok [of sw env d r r' now ids d' sw'] assms(2,3) by simp
next
  case (priority x pk v conns infos r)
  have ok: "swarm_ok (pk, conns)" using assms(2) priority by simp
  then have inv: "picker_inv pk" by (simp add: swarm_ok_def)
  note s = set_piece_priority_same [OF inv priority(3,4), of r]
  have "swarm_ok (snd (set_piece_priority r x v pk), conns)"
    by (rule swarm_picker [OF ok s(1,2)]) (use view_same [OF s(2,3)] got_view [OF s(2)] in auto)
  then show ?thesis using priority by simp
qed (use swarm_connect swarm_remove picker.incoming_piece_ok on_disk_write_complete_ok in auto)

text \<open>
  A torrent starts without connections and with nothing requested; the settings and rates may change
  between two steps.
\<close>

inductive reachable_torrent :: "torrent_state \<Rightarrow> bool" where
  start: "picker_inv pk \<Longrightarrow> m_downloads pk = [] \<Longrightarrow> reachable_torrent ((pk, \<lambda>_. None), infos)"
| step: "reachable_torrent st \<Longrightarrow> env_ok env (fst (fst st)) \<Longrightarrow> torrent_step env st st' \<Longrightarrow> reachable_torrent st'"

lemma reachable_torrent_ok: "reachable_torrent st \<Longrightarrow> swarm_ok (fst st)"
proof (induction rule: reachable_torrent.induct)
  case (start pk infos)
  have "snd (view pk b) = 0" if "in_range pk b" for b
    using start that by (simp add: view_def info_of_def piece_blocks_def progress_def in_range_def new_block_def)
  then show ?case using start by (simp add: swarm_ok_def counts_agree_def requesters_def)
qed (rule torrent_step_ok)

section \<open>The assertions of the code\<close>

text \<open>
  What \<open>peer_connection::check_invariant\<close> asserts of the queues, the number of outstanding bytes
  apart: it counts the requests of all connections for each block in a queue and compares them with
  the picker. A block that a peer sent unasked may lie one past the end of its piece, and the picker
  is not asked for it here.
\<close>

definition num_requests :: "nat list \<Rightarrow> (nat \<Rightarrow> connection option) \<Rightarrow> piece_block \<Rightarrow> nat" where
  "num_requests ids conns b =
     sum_list (map (\<lambda>p. case conns p of None \<Rightarrow> 0
       | Some c \<Rightarrow> length (filter (has_block b) (request_queue c))
           + length (filter (\<lambda>q. has_block b q \<and> \<not> not_wanted q \<and> \<not> timed_out q) (download_queue c))) ids)"

definition check_requests :: "nat list \<Rightarrow> swarm \<Rightarrow> connection \<Rightarrow> bool" where
  "check_requests ids sw c \<longleftrightarrow>
     queued_time_critical c \<le> int (length (request_queue c)) \<and> outstanding_bytes c \<ge> 0
   \<and> length (remdups (map pb_block (download_queue c @ request_queue c))) = length (download_queue c) + length (request_queue c)
   \<and> (\<forall>p \<in> set ids. case snd sw p of None \<Rightarrow> True
       | Some d \<Rightarrow> \<forall>q \<in> set (download_queue d @ request_queue d).
           in_range (fst sw) (pb_block q) \<longrightarrow> \<not> is_downloaded (fst sw) (pb_block q) \<longrightarrow>
           block_num_peers (fst sw) (pb_block q) = num_requests ids (snd sw) (pb_block q))"

lemma count_list_distinct: "distinct xs \<Longrightarrow> count_list xs b = of_bool (b \<in> set xs)"
  by (induction xs) auto

lemma asked_count:
  assumes "conn_ok pk c"
  shows "length (filter (has_block b) (request_queue c)) + length (filter (\<lambda>q. has_block b q \<and> \<not> not_wanted q \<and> \<not> timed_out q) (download_queue c))
    = of_bool (b \<in> set (asked c))"
proof -
  have hb: "has_block b = (\<lambda>q. b = pb_block q)" by (auto simp: has_block_def)
  have d: "distinct (asked c)"
    using conn_okD(3) [OF assms] by (auto simp: asked_def pending_def distinct_map intro: inj_on_subset)
  have "length (filter (has_block b) (request_queue c)) + length (filter (\<lambda>q. has_block b q \<and> \<not> not_wanted q \<and> \<not> timed_out q) (download_queue c))
      = count_list (asked c) b"
    unfolding hb by (simp add: asked_def count_list_eq_length_filter filter_map comp_def allocated_def conj_ac)
  then show ?thesis using count_list_distinct [OF d] by simp
qed


lemma num_requests_card:
  assumes ids: "distinct ids" "set ids = dom conns" and ok: "\<forall>c \<in> ran conns. conn_ok pk c"
  shows "num_requests ids conns b = card (requesters conns b)"
proof -
  have "(case conns p of None \<Rightarrow> 0
       | Some c \<Rightarrow> length (filter (has_block b) (request_queue c))
           + length (filter (\<lambda>q. has_block b q \<and> \<not> not_wanted q \<and> \<not> timed_out q) (download_queue c))) = of_bool (p \<in> requesters conns b)" for p
  proof (cases "conns p")
    case (Some c)
    then have "conn_ok pk c" using ok ranI [of conns p] by blast
    from asked_count [OF this, of b] show ?thesis using Some by (simp add: requesters_def)
  qed (simp add: requesters_def)
  then have "num_requests ids conns b = (\<Sum>p\<leftarrow>ids. of_bool (p \<in> requesters conns b))" by (simp add: num_requests_def)
  also have "\<dots> = length (filter (\<lambda>p. p \<in> requesters conns b) ids)" by (induction ids) auto
  also have "\<dots> = card (set (filter (\<lambda>p. p \<in> requesters conns b) ids))" by (rule distinct_card [symmetric]) (use ids(1) in simp)
  also have "set (filter (\<lambda>p. p \<in> requesters conns b) ids) = requesters conns b" using ids(2) requesters_sub [of conns b] by auto
  finally show ?thesis .
qed

lemma swarm_ok_check:
  assumes ok: "swarm_ok (pk, conns)" and c: "conns p = Some c" and ids: "distinct ids" "set ids = dom conns"
  shows "check_requests ids (pk, conns) c"
proof -
  have inv: "picker_inv pk" and all: "\<forall>c \<in> ran conns. conn_ok pk c" using ok by (auto simp: swarm_ok_def)
  have cc: "conn_ok pk c" using all ranI [of conns p, OF c] by blast
  have "block_num_peers pk b = num_requests ids conns b" if "in_range pk b" "\<not> is_downloaded pk b" for b
    using that ok picker_queries(1,2) [OF inv that(1)] num_requests_card [OF ids all] by (simp add: swarm_ok_def counts_agree_def)
  moreover have "length (remdups (map pb_block (download_queue c @ request_queue c))) = length (download_queue c) + length (request_queue c)"
    using conn_okD(3) [OF cc] by (simp add: distinct_remdups_id pending_def)
  ultimately show ?thesis
    using conn_okD [OF cc] by (auto simp: check_requests_def split: option.split)
qed

section \<open>A block that arrives is not cancelled\<close>

lemma arrived_not_requested:
  assumes inv: "picker_inv pk" and b: "in_range pk b" "\<not> got pk b"
  shows "\<not> is_requested (snd (mark_as_writing r b pr pk)) b"
proof -
  note m = mark_as_writing_view [OF inv b refl, where r = r and pr = pr]
  have "in_range (snd (mark_as_writing r b pr pk)) b" using b same_pieces_in_range [OF m(2)] by simp
  from picker_queries(3) [OF m(1) this] show ?thesis using m(3) [OF b(1)] by simp
qed

lemma cancel_unrequested: "\<not> is_requested (fst sw) b \<Longrightarrow> cancel_block env r pick ids b sw = sw"
proof (induction ids arbitrary: sw)
  case (Cons p ids)
  have "at_peer p (connection_cancel env (r p) pick p b) sw = sw"
    using Cons.prems by (cases sw) (auto simp: at_peer_def connection_cancel_def split: option.split)
  then show ?case using Cons by (simp add: cancel_block_def peer_cancel_def)
qed (simp add: cancel_block_def)

end
