(* ===== verification/Swarm_Claims.thy ===== *)
theory Swarm_Claims
  imports Swarm_Run
begin

text \<open>
  What the connections of a torrent promise together, and where they do not do what they mean to: the
  counts of requests, cancelled blocks, the trust in peers, the number of seeds.
\<close>

section \<open>A run\<close>

text \<open>A torrent of three pieces, the last one of one block, and a seed that connects and announces itself.\<close>

definition demo_start :: piece_picker where
  "demo_start = init 2 1 3 new_piece_picker"

definition demo_peer :: connection where
  "demo_peer = \<lparr>request_queue = [], download_queue = [], queued_time_critical = 0, outstanding_bytes = 0, max_queue_size = 2,
     endgame_mode = False, peer_choked = False, interesting = False, parole = False, snubbed = False, no_download = False,
     upload_only = False, bitfield_received = False, disconnecting = False, supports_fast = True, request_large_blocks = False,
     allowed_fast = [], suggested_pieces = [], peer_pieces = [False, False, False], whole_pieces = 0, timeout_extend = 0,
     receiving = None, receiving_block = None, download_rate = 0, conn_speed = slow, sent = []\<rparr>"

definition demo_seed :: "piece_picker \<times> connection" where
  "demo_seed = incoming_have_all demo_env (\<lambda>_ _. 0) (picked_by id 0 0) 7 (demo_start, demo_peer)"

definition demo_swarm :: swarm where
  "demo_swarm = (fst demo_seed, (\<lambda>_. None)(7 \<mapsto> snd demo_seed))"

lemma demo_queue: "map pb_block (download_queue (snd demo_seed)) = [\<lparr>piece_index = 0, block_index = 0\<rparr>, \<lparr>piece_index = 0, block_index = 1\<rparr>]"
  "request_queue (snd demo_seed) = []" "block_num_peers (fst demo_seed) \<lparr>piece_index = 0, block_index = 0\<rparr> = 1"
  by code_simp+


lemma demo_env_ok: "num_pieces pk = 3 \<Longrightarrow> blocks_in_piece pk = blocks_in_piece demo_start \<Longrightarrow> env_ok demo_env pk"
proof -
  assume a: "num_pieces pk = 3" "blocks_in_piece pk = blocks_in_piece demo_start"
  have "blocks_in_piece demo_start x = (if x < 2 then 2 else 1)" if "x < 3" for x
    using that by (auto simp: demo_start_def blocks_in_piece_def init_def num_pieces_def new_piece_picker_def Let_def resize_vec_def)
  then show ?thesis using a by (auto simp: env_ok_def demo_env_def)
qed

lemma demo_start_ok: "picker_inv demo_start" "m_downloads demo_start = []" "num_pieces demo_start = 3"
proof -
  show "picker_inv demo_start" unfolding demo_start_def
    by (rule init_inv [OF new_picker_inv]) (simp_all add: we_have_index_def num_pieces_def new_piece_picker_def)
  show "m_downloads demo_start = []" "num_pieces demo_start = 3" by code_simp+
qed

lemma demo_swarm_reachable: "reachable_torrent (demo_swarm, \<lambda>_. new_peer_info)"
proof -
  let ?i = "\<lambda>_. new_peer_info"
  have env: "env_ok demo_env demo_start" by (rule demo_env_ok) (simp_all add: demo_start_ok)
  have "reachable_torrent ((demo_start, \<lambda>_. None), ?i)" by (rule reachable_torrent.start) (simp_all add: demo_start_ok)
  moreover have "torrent_step demo_env ((demo_start, \<lambda>_. None), ?i) ((demo_start, (\<lambda>_. None)(7 \<mapsto> demo_peer)), ?i)"
    by (rule torrent_step.connect)
      (simp_all add: fresh_connection_def demo_peer_def demo_start_ok numeral_3_eq_3 dom_def)
  ultimately have r: "reachable_torrent ((demo_start, (\<lambda>_. None)(7 \<mapsto> demo_peer)), ?i)"
    using reachable_torrent.step env by fastforce
  have "conn_step demo_env 7 (demo_start, demo_peer) (fst demo_seed, snd demo_seed)"
    unfolding demo_seed_def using conn_step.have_all by simp
  then have "torrent_step demo_env ((demo_start, (\<lambda>_. None)(7 \<mapsto> demo_peer)), ?i)
      ((fst demo_seed, (\<lambda>_. None)(7 \<mapsto> demo_peer, 7 \<mapsto> snd demo_seed)), ?i)"
    by (intro torrent_step.at_connection) simp_all
  with r env show ?thesis using reachable_torrent.step by (fastforce simp: demo_swarm_def)
qed

section \<open>Requests\<close>



text \<open>
  When a block arrives that other peers have been asked for too, the code means to cancel it there,
  but it marks the block as being written first and a connection ignores a cancel of a block that is
  not requested: \<open>cancel_block\<close> changes no connection, whichever peers still wait for the block.
\<close>

theorem arrived_block_not_cancelled:
  assumes "picker_inv pk" "in_range pk b" "\<not> got pk b"
  shows "cancel_block env r pick ids b (snd (mark_as_writing r' b (Some p) pk), conns) = (snd (mark_as_writing r' b (Some p) pk), conns)"
  by (rule cancel_unrequested) (simp add: arrived_not_requested [OF assms])

theorem arrived_block_not_cancelled_witness:
  "cancel_block demo_env (\<lambda>_ _ _. 0) (picked_by id 0 0) [7] \<lparr>piece_index = 0, block_index = 0\<rparr>
     (snd (mark_as_writing 0 \<lparr>piece_index = 0, block_index = 0\<rparr> (Some 8) (fst demo_seed)), snd demo_swarm)
   = (snd (mark_as_writing 0 \<lparr>piece_index = 0, block_index = 0\<rparr> (Some 8) (fst demo_seed)), snd demo_swarm)
   \<and> has_block \<lparr>piece_index = 0, block_index = 0\<rparr> (hd (download_queue (snd demo_seed)))"
proof -
  let ?b = "\<lparr>piece_index = 0, block_index = 0\<rparr>"
  have "swarm_ok demo_swarm" using reachable_torrent_ok [OF demo_swarm_reachable] by simp
  then have inv: "picker_inv (fst demo_seed)" by (simp add: swarm_ok_def demo_swarm_def)
  have b: "in_range (fst demo_seed) ?b" "\<not> is_downloaded (fst demo_seed) ?b" "has_block ?b (hd (download_queue (snd demo_seed)))"
    by code_simp+
  from arrived_block_not_cancelled [OF inv b(1)] show ?thesis using b(2,3) picker_queries(1) [OF inv b(1)] by blast
qed


text \<open>A seed that takes a piece back makes the 10 bits of its count wrap around: seeds are not counted there.\<close>

lemma seed_dont_have_wraps:
  "peer_count (m_piece_map (fst demo_seed) ! 0) = 0 \<and> m_seeds (fst demo_seed) = 1
   \<and> peer_count (m_piece_map (fst (incoming_dont_have demo_env (\<lambda>_ _. 0) 0 demo_seed)) ! 0) = 1023"
  by code_simp

section \<open>Trust\<close>

definition info_ok :: "peer_info \<Rightarrow> bool" where
  "info_ok i \<longleftrightarrow> - 8 \<le> trust_points i \<and> trust_points i \<le> 7 \<and> 0 \<le> hashfails i \<and> hashfails i \<le> 255"

lemma store_trust_range: "- 8 \<le> store_trust t" "store_trust t \<le> 7"
  by (simp_all add: store_trust_def)

lemma store_trust_signed: "store_trust t = signed_take_bit 3 t"
  by (simp add: store_trust_def signed_take_bit_eq_take_bit_shift take_bit_eq_mod)

text \<open>The last piece has one block; the seed has sent it.\<close>

definition demo_sent :: swarm where
  "demo_sent = (snd (mark_as_writing 0 \<lparr>piece_index = 2, block_index = 0\<rparr> (Some 7) (fst demo_seed)), snd demo_swarm)"

lemma store_trust_in_range: "- 8 \<le> t \<Longrightarrow> t \<le> 7 \<Longrightarrow> store_trust t = t"
  by (simp add: store_trust_def)

text \<open>What happens to the record of a peer, with its connection, for a bad piece: each sender is punished once, by its own
  connection.\<close>

definition punished :: "torrent_env \<Rightarrow> bool \<Rightarrow> connection option \<Rightarrow> peer_info \<Rightarrow> peer_info" where
  "punished env alone conn i =
     (let i = (case conn of None \<Rightarrow> i | Some c \<Rightarrow> fst (received_invalid_data env (i, c)))
      in if trust_points i \<le> - 7 \<or> alone then i\<lparr>banned := True\<rparr> else i)"

lemma punish_one:
  "snd (punish env r alone (Some q) (sw, infos)) = infos(q := punished env alone (snd sw q) (infos q))
   \<and> (p \<noteq> q \<longrightarrow> snd (fst (punish env r alone (Some q) (sw, infos))) p = snd sw p)"
  by (auto simp: punish_def punished_def Let_def at_peer_def fun_eq_iff split: option.split prod.split)

lemma fold_punish:
  "distinct prs \<Longrightarrow> snd (fold (punish env r alone) prs (sw, infos)) p =
    (if Some p \<in> set prs then punished env alone (snd sw p) (infos p) else infos p)"
proof (induction prs arbitrary: sw infos)
  case (Cons pr prs)
  show ?case
  proof (cases pr)
    case None
    then show ?thesis using Cons by (simp add: punish_def)
  next
    case (Some q)
    obtain sw1 infos1 where p1: "punish env r alone (Some q) (sw, infos) = (sw1, infos1)" by fastforce
    have i1: "infos1 = infos(q := punished env alone (snd sw q) (infos q))" and c1: "p \<noteq> q \<Longrightarrow> snd sw1 p = snd sw p"
      using punish_one [of env r alone q sw infos p] p1 by auto
    show ?thesis using Cons i1 c1 p1 Some by (cases "p = q") auto
  qed
qed simp

lemma fold_reward:
  "distinct ps \<Longrightarrow> fold (\<lambda>p infos. infos(p := reward (infos p))) ps infos p = (if p \<in> set ps then reward (infos p) else infos p)"
  by (induction ps arbitrary: infos) auto

lemma map_filter_id: "distinct xs \<Longrightarrow> distinct (List.map_filter id xs) \<and> set (List.map_filter id xs) = {p. Some p \<in> set xs}"
  by (induction xs) (auto simp: List.map_filter_simps split: option.split)

lemma reward_in_range:
  assumes "- 8 \<le> trust_points i" "trust_points i \<le> 7"
  shows "reward i = i\<lparr>on_parole := False, trust_points := (if trust_points i = 7 then - 8 else trust_points i + 1)\<rparr>"
proof (cases "trust_points i = 7")
  case True
  then show ?thesis by (simp add: reward_def store_trust_def)
next
  case False
  then have "min 8 (trust_points i + 1) = trust_points i + 1" "store_trust (trust_points i + 1) = trust_points i + 1"
    using assms by (auto intro!: store_trust_in_range)
  then show ?thesis using False by (simp add: reward_def)
qed

lemma set_senders: "set (senders pk x) = set (get_downloaders pk x)" "distinct (senders pk x)"
  "length (senders pk x) = card (set (get_downloaders pk x))"
  by (simp_all add: senders_def length_remdups_card_conv)

text \<open>
  C20. What a hashed piece does to the records of the peers, whose fields are within their bits. A good piece gives each peer that sent a block of it
  one point (the eighth is stored as -8, in the four bits of the field) and ends its parole. A bad one costs each of
  them that is still connected two points, down to -7, and counts a failure, up to 255; a peer that then has -7 points or less, or
  that sent the whole piece, is banned. Nobody else's record changes, and none does if the piece could not be read.
\<close>

theorem piece_finished_records:
  assumes range: "\<forall>p. info_ok (infos p)" and fin: "is_piece_finished pk x"
  shows "let infos' = snd (piece_finished env r' r pick ids x res ((pk, conns), infos));
           sent = (\<lambda>p. Some p \<in> set (get_downloaders pk x));
           alone = (card (set (get_downloaders pk x)) = 1);
           hit = (\<lambda>p. \<exists>c. conns p = Some c \<and> \<not> disconnecting c)
         in \<forall>p. (case res of
              Unreadable \<Rightarrow> infos' p = infos p
            | Passed \<Rightarrow> infos' p = (if sent p then (infos p)\<lparr>on_parole := False,
                trust_points := (if trust_points (infos p) = 7 then - 8 else trust_points (infos p) + 1)\<rparr> else infos p)
            | Wrong \<Rightarrow>
                trust_points (infos' p) = (if sent p \<and> hit p then max (- 7) (trust_points (infos p) - 2) else trust_points (infos p))
              \<and> hashfails (infos' p) = (if sent p \<and> hit p then min 255 (hashfails (infos p) + 1) else hashfails (infos p))
              \<and> on_parole (infos' p) = (on_parole (infos p) \<or> sent p \<and> hit p \<and> use_parole_mode env)
              \<and> banned (infos' p) = (banned (infos p) \<or> sent p \<and> (trust_points (infos' p) \<le> - 7 \<or> alone)))"
proof -
  have t: "- 8 \<le> trust_points (infos p)" "trust_points (infos p) \<le> 7" for p using range by (auto simp: info_ok_def)
  have re: "reward (infos p) = (infos p)\<lparr>on_parole := False, trust_points := (if trust_points (infos p) = 7 then - 8 else trust_points (infos p) + 1)\<rparr>" for p
    by (rule reward_in_range [OF t])
  have good: "distinct (List.map_filter id (senders pk x))" "set (List.map_filter id (senders pk x)) = {p. Some p \<in> set (get_downloaders pk x)}"
    using map_filter_id [OF set_senders(2) [of pk x]] by (simp_all add: set_senders(1))
  have st: "store_trust (max (- 7) (trust_points (infos p) - 2)) = max (- 7) (trust_points (infos p) - 2)" for p
    using t [of p] by (intro store_trust_in_range) auto
  show ?thesis
  proof (cases res)
    case Passed
    then show ?thesis using fin good by (simp add: piece_finished_def piece_passed_def Let_def fold_reward re)
  next
    case Wrong
    have "snd (piece_finished env r' r pick ids x res ((pk, conns), infos)) p =
        (if Some p \<in> set (get_downloaders pk x) then punished env (card (set (get_downloaders pk x)) = 1) (conns p) (infos p) else infos p)" for p
      using Wrong fin set_senders by (simp add: piece_finished_def piece_failed_def Let_def case_prod_beta fold_punish)
    then show ?thesis using Wrong st
      by (auto simp: punished_def received_invalid_data_def Let_def split: option.split)
  qed (use fin in \<open>simp add: piece_finished_def\<close>)
qed

theorem piece_finished_records_witness:
  "let infos' = snd (piece_finished demo_env 0 (\<lambda>_ _ _. 0) (picked_by id 0 0) [7] 2 Wrong (demo_sent, \<lambda>_. new_peer_info\<lparr>trust_points := 5\<rparr>))
   in trust_points (infos' 7) = 3 \<and> hashfails (infos' 7) = 1 \<and> banned (infos' 7) \<and> \<not> banned (infos' 8)"
proof -
  have f: "is_piece_finished (fst demo_sent) 2" "get_downloaders (fst demo_sent) 2 = [Some 7]" "\<not> disconnecting (snd demo_seed)" by code_simp+
  let ?i = "new_peer_info\<lparr>trust_points := 5\<rparr>"
  have i: "info_ok ?i" "trust_points ?i = 5" "hashfails ?i = 0" "\<not> banned ?i" by (simp_all add: info_ok_def new_peer_info_def)
  have c: "snd demo_sent 7 = Some (snd demo_seed)" by (simp add: demo_sent_def demo_swarm_def)
  have r: "\<forall>p :: nat. info_ok ((\<lambda>_. ?i) p)" using i by simp
  from piece_finished_records [OF r f(1), where env = demo_env and r' = 0 and r = "\<lambda>_ _ _. 0" and pick = "picked_by id 0 0" and ids = "[7]" and res = Wrong
      and conns = "snd demo_sent"] f c i show ?thesis
    by (simp add: Let_def)
qed

lemma reward_trust: "n \<le> 7 \<Longrightarrow> trust_points ((reward ^^ n) new_peer_info) = int n \<and> \<not> banned ((reward ^^ n) new_peer_info)"
  by (induction n) (auto simp: reward_def store_trust_def new_peer_info_def)

lemma eight_rewards: "trust_points ((reward ^^ 8) new_peer_info) = - 8"
proof -
  have "(reward ^^ 8) new_peer_info = reward ((reward ^^ 7) new_peer_info)" using funpow.simps(2) [of 7 reward] by simp
  with reward_trust [of 7] show ?thesis by (simp add: reward_def store_trust_def)
qed

text \<open>
  A peer that helped to complete eight pieces is banned at the first bad piece it sent a block of,
  while a peer without any merit is not: the eighth point does not fit into the four bits of
  \<open>trust_points\<close> and is stored as -8.
\<close>

theorem trusted_peer_banned:
  assumes "snd sw p = Some c" "\<not> disconnecting c"
  shows "banned (snd (punish env r False (Some p) (sw, \<lambda>_. (reward ^^ 8) new_peer_info)) p)
    \<and> \<not> banned (snd (punish env r False (Some p) (sw, \<lambda>_. (reward ^^ 7) new_peer_info)) p)
    \<and> \<not> banned (snd (punish env r False (Some p) (sw, \<lambda>_. new_peer_info)) p)"
proof -
  have ban: "banned (snd (punish env r False (Some p) (sw, \<lambda>_. i)) p) = (banned i \<or> store_trust (max (- 7) (trust_points i - 2)) \<le> - 7)" for i
    using assms by (simp add: punish_def received_invalid_data_def Let_def)
  have t: "store_trust (max (- 7) (trust_points ((reward ^^ 8) new_peer_info) - 2)) \<le> - 7"
    "\<not> (banned ((reward ^^ 7) new_peer_info) \<or> store_trust (max (- 7) (trust_points ((reward ^^ 7) new_peer_info) - 2)) \<le> - 7)"
    "\<not> (banned new_peer_info \<or> store_trust (max (- 7) (trust_points new_peer_info - 2)) \<le> - 7)"
    using eight_rewards reward_trust [of 7] reward_trust [of 0] by (simp_all add: store_trust_def)
  show "banned (snd (punish env r False (Some p) (sw, \<lambda>_. (reward ^^ 8) new_peer_info)) p)
    \<and> \<not> banned (snd (punish env r False (Some p) (sw, \<lambda>_. (reward ^^ 7) new_peer_info)) p)
    \<and> \<not> banned (snd (punish env r False (Some p) (sw, \<lambda>_. new_peer_info)) p)"
    unfolding ban using t by blast
qed

theorem trusted_peer_banned_witness:
  "banned (snd (punish demo_env (\<lambda>_ _ _. 0) False (Some 7) (demo_swarm, \<lambda>_. (reward ^^ 8) new_peer_info)) 7)
   \<and> \<not> banned (snd (punish demo_env (\<lambda>_ _ _. 0) False (Some 7) (demo_swarm, \<lambda>_. (reward ^^ 7) new_peer_info)) 7)
   \<and> \<not> banned (snd (punish demo_env (\<lambda>_ _ _. 0) False (Some 7) (demo_swarm, \<lambda>_. new_peer_info)) 7)"
  by (rule trusted_peer_banned [of _ _ "snd demo_seed"]) (simp add: demo_swarm_def, code_simp)

section \<open>Availability\<close>

text \<open>A connection that waits to be unchoked: it announces pieces, and nothing is requested.\<close>

definition quiet :: "connection \<Rightarrow> bool" where
  "quiet c \<longleftrightarrow> \<not> disconnecting c \<and> peer_choked c \<and> allowed_fast c = [] \<and> download_queue c = [] \<and> request_queue c = []"

lemma quiet_have_all:
  assumes "quiet c" "\<not> close_redundant_connections env"
  obtains c' where "incoming_have_all env r pick p (pk, c) = (inc_refcount_all pk, c')" "quiet c'"
    "peer_pieces c' = map (\<lambda>_. True) (peer_pieces c)"
  using assms
  by (intro that [of "snd (incoming_have_all env r pick p (pk, c))"])
    (auto simp: quiet_def incoming_have_all_def disconnect_if_redundant_def send_not_interested_def peer_is_interesting_def
      send_interested_def Let_def)

text \<open>
  A peer may announce that it has all pieces as often as it likes, and each time the picker counts
  one more seed; when the peer leaves, one is taken off. After two announcements the torrent keeps a
  seed that no longer exists.
\<close>

theorem repeated_have_all_leaves_a_seed:
  assumes q: "quiet c" and env: "\<not> close_redundant_connections env" and n: "peer_pieces c \<noteq> []"
  shows "m_seeds (fst (disconnect env r (incoming_have_all env r pick p (incoming_have_all env r pick p (pk, c))))) = m_seeds pk + 1"
proof -
  obtain c1 where c1: "incoming_have_all env r pick p (pk, c) = (inc_refcount_all pk, c1)" "quiet c1" "peer_pieces c1 = map (\<lambda>_. True) (peer_pieces c)"
    by (rule quiet_have_all [OF q env])
  obtain c2 where c2: "incoming_have_all env r pick p (inc_refcount_all pk, c1) = (inc_refcount_all (inc_refcount_all pk), c2)" "quiet c2"
    "peer_pieces c2 = map (\<lambda>_. True) (peer_pieces c1)"
    by (rule quiet_have_all [OF c1(2) env])
  have m: "m_seeds (inc_refcount_all pk') = m_seeds pk' + 1" for pk' by (simp add: inc_refcount_all_def Let_def)
  have "disconnect env r (inc_refcount_all (inc_refcount_all pk), c2) =
      (dec_refcount_all (inc_refcount_all (inc_refcount_all pk)), snd (disconnect env r (inc_refcount_all (inc_refcount_all pk), c2)))"
    using c1(3) c2(2,3) n by (simp add: disconnect_def quiet_def Let_def)
  then have "fst (disconnect env r (inc_refcount_all (inc_refcount_all pk), c2)) = dec_refcount_all (inc_refcount_all (inc_refcount_all pk))"
    by (metis fst_conv)
  then show ?thesis using m by (simp add: c1(1) c2(1) dec_refcount_all_def Let_def)
qed

theorem repeated_have_all_leaves_a_seed_witness:
  "m_seeds (fst (disconnect (demo_env\<lparr>close_redundant_connections := False\<rparr>) (\<lambda>_ _. 0)
     (incoming_have_all (demo_env\<lparr>close_redundant_connections := False\<rparr>) (\<lambda>_ _. 0) (picked_by id 0 0) 7
       (incoming_have_all (demo_env\<lparr>close_redundant_connections := False\<rparr>) (\<lambda>_ _. 0) (picked_by id 0 0) 7
         (demo_start, demo_peer\<lparr>peer_choked := True\<rparr>))))) = m_seeds demo_start + 1"
  by (rule repeated_have_all_leaves_a_seed) (simp_all add: quiet_def demo_peer_def)

section \<open>A bad piece\<close>

lemma restore_connection_fields:
  "\<exists>v. snd (restore_connection env r x p (pk, c)) = c\<lparr>conn_speed := v\<rparr>"
proof -
  have "\<exists>v. snd (fold (\<lambda>q (pk, c). (snd (mark_as_downloading (r 12 (pb_block q)) (pb_block q) (Some p) (peer_speed env c) pk),
          c\<lparr>conn_speed := peer_speed env c\<rparr>)) qs (pk, c)) = c\<lparr>conn_speed := v\<rparr>" for qs
  proof (induction qs arbitrary: pk c)
    case Nil
    show ?case by (rule exI [of _ "conn_speed c"]) simp
  next
    case (Cons q qs)
    show ?case using Cons [of _ "c\<lparr>conn_speed := peer_speed env c\<rparr>"] by simp
  qed
  then show ?thesis unfolding restore_connection_def Let_def prod.case .
qed

lemma restored_disconnecting:
  "snd sw p = Some c \<Longrightarrow> \<exists>c'. snd (restore_piece_state env r ids x sw) p = Some c' \<and> disconnecting c' = disconnecting c"
proof (induction ids arbitrary: sw c)
  case (Cons q ids)
  obtain c1 where c1: "snd (at_peer q (restore_connection env (r q) x q) sw) p = Some c1" "disconnecting c1 = disconnecting c"
  proof (cases "q = p")
    case True
    obtain v where "snd (restore_connection env (r q) x q (fst sw, c)) = c\<lparr>conn_speed := v\<rparr>"
      using restore_connection_fields by blast
    then show ?thesis using True Cons.prems that by (simp add: at_peer_def case_prod_beta)
  next
    case False
    then show ?thesis using Cons.prems that [of c] by (simp add: at_peer_def case_prod_beta split: option.split)
  qed
  show ?case using Cons.IH [OF c1(1)] c1(2) by (simp add: restore_piece_state_def)
qed (simp add: restore_piece_state_def)

text \<open>
  C19. When all blocks of a bad piece came from one peer, that peer is banned and its connection is
  closed, whatever its trust was, and no other peer is banned.
\<close>

theorem sole_sender_banned:
  assumes s: "senders (fst sw) x = [Some p]" and c: "snd sw p = Some c" and f: "is_piece_finished (fst sw) x"
  shows "\<exists>i c'. snd (piece_finished env r0 r pick ids x Wrong (sw, infos)) = infos(p := i) \<and> banned i
    \<and> snd (fst (piece_finished env r0 r pick ids x Wrong (sw, infos))) p = Some c' \<and> disconnecting c'"
proof -
  obtain i c1 where rc: "received_invalid_data env (infos p, c) = (i, c1)" by (cases "received_invalid_data env (infos p, c)")
  define sw1 where "sw1 = at_peer p (disconnect env (r p)) (fst sw, (snd sw)(p \<mapsto> c1))"
  have pu: "punish env r True (Some p) (sw, infos) = (sw1, infos(p := i\<lparr>banned := True\<rparr>))"
    using c rc by (simp add: punish_def sw1_def)
  have eq: "piece_finished env r0 r pick ids x Wrong (sw, infos) =
      (restored env r0 r ids x sw1, infos(p := i\<lparr>banned := True\<rparr>))"
    using f s pu by (simp add: piece_finished_def piece_failed_def Let_def)
  obtain c2 where "snd sw1 p = Some c2" "disconnecting c2"
    by (auto simp: sw1_def at_peer_def disconnect_def case_prod_beta Let_def)
  then show ?thesis
    using restored_disconnecting [of "(restore_piece r0 x (fst sw1), snd sw1)" p c2 env r ids x]
    by (auto simp: eq restored_def intro!: exI [of _ "i\<lparr>banned := True\<rparr>"])
qed

theorem sole_sender_banned_witness:
  "\<exists>i c'. snd (piece_finished demo_env 0 (\<lambda>_ _ _. 0) (picked_by id 0 0) [7] 2 Wrong (demo_sent, \<lambda>_. (reward ^^ 5) new_peer_info))
       = (\<lambda>_. (reward ^^ 5) new_peer_info)(7 := i) \<and> banned i
     \<and> snd (fst (piece_finished demo_env 0 (\<lambda>_ _ _. 0) (picked_by id 0 0) [7] 2 Wrong (demo_sent, \<lambda>_. (reward ^^ 5) new_peer_info))) 7 = Some c'
     \<and> disconnecting c'"
proof (rule sole_sender_banned [of _ _ _ "snd demo_seed"])
  show "senders (fst demo_sent) 2 = [Some 7]" "is_piece_finished (fst demo_sent) 2" by code_simp+
  show "snd demo_sent 7 = Some (snd demo_seed)" by (simp add: demo_sent_def demo_swarm_def)
qed

end
