(* ===== verification/Time_Critical.thy ===== *)
theory Time_Critical
  imports Swarm_Claims
begin

text \<open>
  What is promised of the pieces with a deadline and of \<open>torrent::request_time_critical_pieces\<close>, and what
  happens when a request has timed out.
\<close>

section \<open>What is promised\<close>

lemma demo_seed_env: "env_ok demo_env (fst demo_seed)"
proof (rule demo_env_ok)
  show "num_pieces (fst demo_seed) = 3" by code_simp
  moreover have "m_blocks_per_piece (fst demo_seed) = m_blocks_per_piece demo_start"
    "m_blocks_in_last_piece (fst demo_seed) = m_blocks_in_last_piece demo_start" by code_simp+
  ultimately show "blocks_in_piece (fst demo_seed) = blocks_in_piece demo_start"
    using demo_start_ok(3) by (simp add: blocks_in_piece_def num_pieces_def fun_eq_iff)
qed

text \<open>
  C10. The list of pieces with a deadline stays sorted, with one entry for each piece, and it is a map
  from pieces to deadlines: setting a deadline updates the map (unless we have the piece), removing
  one deletes it, whether the piece was finished or not, and pieces that are no longer wanted lose
  theirs.
\<close>

theorem deadlines_refine_map:
  assumes "deadlines_ok d"
  shows "(case set_piece_deadline env now x ms al (d, sw) of (d', _) \<Rightarrow> deadlines_ok d' \<and> deadline_map d' =
      (if is_seed env (fst sw) \<or> have_piece (fst sw) x then deadline_map d else (deadline_map d)(x \<mapsto> (now + ms * 1000, al))))
    \<and> deadlines_ok (remove_time_critical_piece now x f d)
    \<and> deadline_map (remove_time_critical_piece now x f d) = (deadline_map d)(x := None)
    \<and> deadlines_ok (remove_time_critical_pieces prios d)
    \<and> deadline_map (remove_time_critical_pieces prios d) = (deadline_map d) |` {x. prios ! x \<noteq> 0}
    \<and> deadlines_ok (clear_pieces_deadline d) \<and> deadline_map (clear_pieces_deadline d) = (\<lambda>_. None)"
proof -
  obtain d' sw' where e: "set_piece_deadline env now x ms al (d, sw) = (d', sw')" by (cases "set_piece_deadline env now x ms al (d, sw)")
  have "deadlines_ok (clear_pieces_deadline d)" "deadline_map (clear_pieces_deadline d) = (\<lambda>_. None)"
    by (simp_all add: clear_pieces_deadline_def deadlines_ok_def deadline_map_def)
  then show ?thesis
    unfolding e prod.case
    using set_piece_deadline_refines [OF assms e] remove_time_critical_piece_refines [OF assms]
      remove_time_critical_pieces_refines [OF assms] by blast
qed

definition demo_deadlines :: deadlines where
  "demo_deadlines = fst (set_piece_deadline demo_env 1000000 2 5000 False
     (set_piece_deadline demo_env 1000000 0 10000 True (no_deadlines, demo_swarm)))"

theorem deadlines_refine_map_witness:
  "map tc_piece (time_critical_pieces demo_deadlines) = [2, 0]
   \<and> deadlines_ok (remove_time_critical_piece 9 2 False demo_deadlines)
   \<and> deadline_map (remove_time_critical_piece 9 2 False demo_deadlines) = (deadline_map demo_deadlines)(2 := None)"
proof -
  have l: "map tc_piece (time_critical_pieces demo_deadlines) = [2, 0]" "map deadline (time_critical_pieces demo_deadlines) = [6000000, 11000000]"
    by code_simp+
  then have "deadlines_ok demo_deadlines" by (simp add: deadlines_ok_def)
  from deadlines_refine_map [OF this, where env = demo_env and now = 9 and x = 2 and ms = 0 and al = False and sw = demo_swarm and f = False and prios = "[]"] l(1) show ?thesis by blast
qed

text \<open>
  C9. The loops of \<open>request_time_critical_pieces\<close> end: for every list of pieces that we do not have,
  every set of connections and every choice of numbers, the function returns, and it changes no
  deadline. When no connection has a request that timed out or was never asked for, the counts of the
  requests are kept as well.
\<close>

theorem time_critical_requests_end:
  assumes ok: "swarm_ok sw" and env: "env_ok env (fst sw)"
    and ps: "\<forall>e \<in> set (time_critical_pieces d). tc_piece e < num_pieces (fst sw) \<and> \<not> have_piece (fst sw) (tc_piece e)"
  shows "\<exists>d' sw'. request_time_critical_pieces env r r' now ids (d, sw) = Some (d', sw') \<and> deadline_map d' = deadline_map d
    \<and> (no_stale sw \<longrightarrow> swarm_ok sw')"
proof -
  have inv: "picker_inv (fst sw)" using ok by (simp add: swarm_ok_def)
  define s where "s = \<lparr>crit_peers = sort_key (queue_time env sw)
      (filter (\<lambda>p. case snd sw p of None \<Rightarrow> False | Some c \<Rightarrow> can_request_time_critical env c) ids),
    crit_with_requests = {}, crit_requested = False, crit_swarm = sw\<rparr>"
  let ?h = "now + average_piece_time d + piece_time_deviation d * 4"
  obtain es s' where r: "request_pieces env r now ?h True (time_critical_pieces d) s = Some (es, s')" "map entry es = map entry (time_critical_pieces d)"
    using request_pieces_total [of s "time_critical_pieces d" env r now ?h True] inv ps by (auto simp: s_def)
  obtain sw' where res: "request_time_critical_pieces env r r' now ids (d, sw) = Some (d\<lparr>time_critical_pieces := es\<rparr>, sw')"
    using r by (simp add: request_time_critical_pieces_def Let_def s_def [symmetric])
  moreover have "no_stale sw \<longrightarrow> swarm_ok sw'" using request_time_critical_pieces_ok [OF ok env _ ps res] by blast
  ultimately show ?thesis using r(2) by (simp add: deadline_map_def)
qed

theorem time_critical_requests_end_witness:
  "\<exists>d' sw'. request_time_critical_pieces demo_env (\<lambda>_ _ _. 0) (\<lambda>_ _ _. 0) 2000000 [7] (demo_deadlines, demo_swarm) = Some (d', sw')
     \<and> deadline_map d' = deadline_map demo_deadlines \<and> (no_stale demo_swarm \<longrightarrow> swarm_ok sw')"
proof (rule time_critical_requests_end)
  show "swarm_ok demo_swarm" using reachable_torrent_ok [OF demo_swarm_reachable] by simp
  show "env_ok demo_env (fst demo_swarm)" using demo_seed_env by (simp add: demo_swarm_def)
  show "\<forall>e \<in> set (time_critical_pieces demo_deadlines). tc_piece e < num_pieces (fst demo_swarm) \<and> \<not> have_piece (fst demo_swarm) (tc_piece e)"
    by code_simp
qed

text \<open>The seed does not answer in time; piece 0 has a deadline.\<close>

definition demo_snubbed :: swarm where
  "demo_snubbed = (case snub_peer demo_env (\<lambda>_ _. 0) (picked_by id 0 0) 7 demo_seed of
     Some (pk, c) \<Rightarrow> (pk, (snd demo_swarm)(7 \<mapsto> c)) | None \<Rightarrow> demo_swarm)"

definition demo_urgent :: deadlines where
  "demo_urgent = fst (set_piece_deadline demo_env 1000000 0 10000 True (no_deadlines, demo_snubbed))"

text \<open>
  A block whose request timed out is asked for a second time from the same peer: after the seed of
  the run was snubbed, its last request has timed out and the block is free again, and
  \<open>request_time_critical_pieces\<close> puts it into the queue of the connection that already has it among
  its outstanding requests. The assertion on the queues, which held before, fails after.
\<close>

theorem timed_out_block_asked_twice:
  "reachable_torrent (demo_snubbed, \<lambda>_. new_peer_info) \<and>
   (case request_time_critical_pieces demo_env (\<lambda>_ _ _. 0) (\<lambda>_ _ _. 0) 2000000 [7] (demo_urgent, demo_snubbed) of
      None \<Rightarrow> False
    | Some (d, sw) \<Rightarrow> (case snd sw 7 of None \<Rightarrow> False | Some c \<Rightarrow> \<not> check_requests [7] sw c))"
proof
  obtain pk c where snub: "snub_peer demo_env (\<lambda>_ _. 0) (picked_by id 0 0) 7 demo_seed = Some (pk, c)"
  proof -
    have "snub_peer demo_env (\<lambda>_ _. 0) (picked_by id 0 0) 7 demo_seed \<noteq> None" by code_simp
    then show ?thesis using that by auto
  qed
  have "conn_step demo_env 7 (fst demo_seed, snd demo_seed) (pk, c)"
    by (rule conn_step.snub [where r = "\<lambda>_ _. 0" and rnd = id and ?r1.0 = 0 and ?r2.0 = 0]) (use demo_queue(1) snub in auto)
  then have "torrent_step demo_env (demo_swarm, \<lambda>_. new_peer_info) ((pk, (snd demo_swarm)(7 \<mapsto> c)), \<lambda>_. new_peer_info)"
    unfolding demo_swarm_def snd_conv by (rule torrent_step.at_connection [rotated]) simp
  with demo_swarm_reachable show "reachable_torrent (demo_snubbed, \<lambda>_. new_peer_info)"
    using reachable_torrent.step [of _ demo_env] demo_seed_env snub by (auto simp: demo_snubbed_def demo_swarm_def)
  show "case request_time_critical_pieces demo_env (\<lambda>_ _ _. 0) (\<lambda>_ _ _. 0) 2000000 [7] (demo_urgent, demo_snubbed) of
      None \<Rightarrow> False
    | Some (d, sw) \<Rightarrow> (case snd sw 7 of None \<Rightarrow> False | Some c \<Rightarrow> \<not> check_requests [7] sw c)"
    by code_simp
qed

text \<open>
  A piece that is finished although none of its blocks was requested after it got its deadline (all
  of them were requested before) makes the torrent believe that a piece takes as long as the clock
  has been running: the time of its first request was never set.
\<close>

theorem unrequested_piece_spoils_average:
  assumes "find_index (\<lambda>e. tc_piece e = x) (time_critical_pieces d) = None" "average_piece_time d = 0"
    "\<not> is_seed env (fst sw)" "\<not> have_piece (fst sw) x"
  shows "average_piece_time (remove_time_critical_piece now' x True (fst (set_piece_deadline env now x ms al (d, sw)))) = now'"
proof -
  define e where "e = \<lparr>first_requested = 0, deadline = now + ms * 1000, alert_when_available = al, tc_piece = x\<rparr>"
  let ?xs = "insert_upper e (time_critical_pieces d)"
  have l: "fst (set_piece_deadline env now x ms al (d, sw)) = d\<lparr>time_critical_pieces := ?xs\<rparr>"
    using assms by (simp add: set_piece_deadline_def Let_def e_def)
  have "e \<in> set ?xs" by (simp add: insert_upper_def)
  then obtain i where i: "find_index (\<lambda>e. tc_piece e = x) ?xs = Some i"
    using find_index_None_set [of "\<lambda>e. tc_piece e = x" ?xs] by (cases "find_index (\<lambda>e. tc_piece e = x) ?xs") (auto simp: e_def)
  have "?xs ! i \<in> set ?xs" "tc_piece (?xs ! i) = x" using find_index_Some [OF i] by auto
  moreover have "set ?xs \<subseteq> insert e (set (time_critical_pieces d))"
    by (auto simp: insert_upper_def dest: set_takeWhileD set_dropWhileD)
  ultimately have "?xs ! i = e" using assms(1) by (auto simp: find_index_None_set)
  then show ?thesis using i assms(2) unfolding l
    by (simp add: remove_time_critical_piece_def learn_piece_time_def Let_def e_def)
qed

theorem unrequested_piece_spoils_average_witness:
  "average_piece_time (remove_time_critical_piece 7000000 1 True (fst (set_piece_deadline demo_env 5000000 1 100 False (no_deadlines, demo_swarm)))) = 7000000"
proof (rule unrequested_piece_spoils_average)
  show "\<not> is_seed demo_env (fst demo_swarm)" "\<not> have_piece (fst demo_swarm) 1" by code_simp+
qed (simp_all add: no_deadlines_def)

end
