(* ===== verification/Slot_Table.thy ===== *)
theory Slot_Table
  imports File_Storage
begin

text \<open>
  Where the pieces of a torrent are stored (\<open>src/storage.cpp\<close>: the slots of \<open>piece_manager\<close> and the
  moves of \<open>storage\<close>). The files are cut into slots as they are cut into pieces. In compact mode a
  piece may be in any slot, so that a new piece can be appended to the files: \<open>m_piece_to_slot\<close> and
  \<open>m_slot_to_piece\<close> say where it is, and two lists have the slots without a piece. In the other modes
  piece \<open>i\<close> is in slot \<open>i\<close>. This theory has the operations of a running torrent; the checking of files
  that are already there is in \<open>Slot_Check\<close>.

  The bytes of a slot are a function of the offset. The files are written and read without errors and are
  no padding; what
  is behind the end of a short read is what was in the buffer before (\<open>stale\<close>).
\<close>

section \<open>Data\<close>

datatype storage_mode = storage_mode_allocate | storage_mode_sparse | storage_mode_compact

datatype manager_state = manager_none | manager_finished | manager_full_check | manager_expand_pieces

text \<open>The entries of the tables that are no index.\<close>

definition has_no_slot :: int where "has_no_slot = -3"
definition unallocated :: int where "unallocated = -1"
definition unassigned :: int where "unassigned = -2"

text \<open>What was hashed of a piece while it was written: the offset and the bytes.\<close>

record 'b partial_hash =
  ph_offset :: int
  ph_bytes :: "'b list"

record 'b piece_manager =
  storage_mode :: storage_mode
  unallocated_slots :: "int list"
  free_slots :: "int list"
  piece_to_slot :: "int list"
  slot_to_piece :: "int list"
  manager_state :: manager_state
  current_slot :: int
  out_of_place :: bool
  scratch_piece :: int
  scratch_buffer :: "int \<Rightarrow> 'b"
  piece_hasher :: "int \<Rightarrow> 'b partial_hash option"
  slot_data :: "int \<Rightarrow> int \<Rightarrow> 'b"

text \<open>The files of the torrent, its hashes and the hash of nothing.\<close>

record ('b, 'h) store_env =
  st_files :: file_storage
  hash_of :: "'b list \<Rightarrow> 'h"
  piece_hash :: "int \<Rightarrow> 'h"
  no_hash :: 'h
  stale :: "int \<Rightarrow> 'b"

definition slot_size :: "('b, 'h) store_env \<Rightarrow> int \<Rightarrow> int" where
  "slot_size env = piece_size (st_files env)"

definition last_slot :: "('b, 'h) store_env \<Rightarrow> int" where
  "last_slot env = m_num_pieces (st_files env) - 1"

text \<open>An index the code asserts to be in range; outside there is no entry.\<close>

definition at :: "int list \<Rightarrow> int \<Rightarrow> int" where
  "at xs i = (if 0 \<le> i \<and> i < int (length xs) then xs ! nat i else -4)"

definition put :: "int list \<Rightarrow> int \<Rightarrow> int \<Rightarrow> int list" where
  "put xs i v = xs[nat i := v]"

section \<open>Reading and writing slots\<close>

text \<open>\<open>storage::readv\<close> into a buffer of a given size, and \<open>storage::writev\<close>: both stop at the end of the slot.\<close>

definition read_slot :: "('b, 'h) store_env \<Rightarrow> int \<Rightarrow> int \<Rightarrow> (int \<Rightarrow> int \<Rightarrow> 'b) \<Rightarrow> int \<Rightarrow> 'b" where
  "read_slot env slot n d = (\<lambda>i. if i < min n (slot_size env slot) then d slot i else stale env i)"

definition write_slot :: "('b, 'h) store_env \<Rightarrow> int \<Rightarrow> int \<Rightarrow> int \<Rightarrow> (int \<Rightarrow> 'b) \<Rightarrow> (int \<Rightarrow> int \<Rightarrow> 'b) \<Rightarrow> int \<Rightarrow> int \<Rightarrow> 'b" where
  "write_slot env slot offset n buf d =
     d(slot := (\<lambda>i. if offset \<le> i \<and> i < min (offset + n) (slot_size env slot) then buf (i - offset) else d slot i))"

definition move_slot :: "('b, 'h) store_env \<Rightarrow> int \<Rightarrow> int \<Rightarrow> (int \<Rightarrow> int \<Rightarrow> 'b) \<Rightarrow> int \<Rightarrow> int \<Rightarrow> 'b" where
  "move_slot env src dst d =
     (let n = slot_size env dst in write_slot env dst 0 n (read_slot env src n d) d)"

definition swap_slots :: "('b, 'h) store_env \<Rightarrow> int \<Rightarrow> int \<Rightarrow> (int \<Rightarrow> int \<Rightarrow> 'b) \<Rightarrow> int \<Rightarrow> int \<Rightarrow> 'b" where
  "swap_slots env slot1 slot2 d =
     (let n1 = slot_size env slot2; n2 = slot_size env slot1;
          bufs1 = read_slot env slot1 n1 d; bufs2 = read_slot env slot2 n2 d
      in write_slot env slot1 0 n2 bufs2 (write_slot env slot2 0 n1 bufs1 d))"

text \<open>\<open>swap_slots3\<close> never clears its return value: it reports an error although there was none.\<close>

definition swap_slots3 :: "('b, 'h) store_env \<Rightarrow> int \<Rightarrow> int \<Rightarrow> int \<Rightarrow> (int \<Rightarrow> int \<Rightarrow> 'b) \<Rightarrow> bool \<times> (int \<Rightarrow> int \<Rightarrow> 'b)" where
  "swap_slots3 env slot1 slot2 slot3 d =
     (let n1 = slot_size env slot2; n2 = slot_size env slot3; n3 = slot_size env slot1;
          bufs1 = read_slot env slot1 n1 d;
          bufs2 = read_slot env slot2 n2 d;
          d = write_slot env slot2 0 n1 bufs1 d;
          bufs1 = read_slot env slot3 n3 d;
          d = write_slot env slot3 0 n2 bufs2 d
      in (True, write_slot env slot1 0 n3 bufs1 d))"

section \<open>Slots of a running torrent\<close>

definition slot_for :: "int \<Rightarrow> 'b piece_manager \<Rightarrow> int" where
  "slot_for p pm = (if storage_mode pm \<noteq> storage_mode_compact then p else at (piece_to_slot pm) p)"

definition piece_for :: "int \<Rightarrow> 'b piece_manager \<Rightarrow> int" where
  "piece_for s pm = (if storage_mode pm \<noteq> storage_mode_compact then s else at (slot_to_piece pm) s)"

definition switch_to_full_mode :: "'b piece_manager \<Rightarrow> 'b piece_manager" where
  "switch_to_full_mode pm =
     pm\<lparr>storage_mode := storage_mode_sparse, unallocated_slots := [], free_slots := [], piece_to_slot := [], slot_to_piece := []\<rparr>"

text \<open>
  One round of the loop of \<open>allocate_slots\<close>: the next slot is allocated. If its own piece is somewhere
  else, the piece is moved there and its old slot becomes free.
\<close>

definition allocate_next :: "('b, 'h) store_env \<Rightarrow> int \<Rightarrow> int list \<Rightarrow> 'b piece_manager \<Rightarrow> bool \<times> 'b piece_manager" where
  "allocate_next env pos rest pm =
     (let old = at (piece_to_slot pm) pos;
          (new_free_slot, written, pm) =
            (if old \<noteq> has_no_slot
             then (old, True, pm\<lparr>slot_data := move_slot env old pos (slot_data pm),
                     slot_to_piece := put (slot_to_piece pm) pos pos, piece_to_slot := put (piece_to_slot pm) pos pos\<rparr>)
             else (pos, False, pm))
      in (written, pm\<lparr>unallocated_slots := rest, slot_to_piece := put (slot_to_piece pm) new_free_slot unassigned,
                      free_slots := free_slots pm @ [new_free_slot]\<rparr>))"

fun allocate_loop :: "('b, 'h) store_env \<Rightarrow> bool \<Rightarrow> nat \<Rightarrow> bool \<Rightarrow> 'b piece_manager \<Rightarrow> bool \<times> 'b piece_manager" where
  "allocate_loop env abort_on_disk 0 written pm = (written, pm)"
| "allocate_loop env abort_on_disk (Suc n) written pm =
     (case unallocated_slots pm of [] \<Rightarrow> (written, pm)
      | pos # rest \<Rightarrow>
          let (moved, pm) = allocate_next env pos rest pm;
              written = (written \<or> moved)
          in if abort_on_disk \<and> written then (written, pm) else allocate_loop env abort_on_disk n written pm)"

definition allocate_slots :: "('b, 'h) store_env \<Rightarrow> nat \<Rightarrow> bool \<Rightarrow> 'b piece_manager \<Rightarrow> bool \<times> 'b piece_manager" where
  "allocate_slots env num_slots abort_on_disk pm = allocate_loop env abort_on_disk num_slots False pm"

text \<open>
  The choice of a free slot: the slot of the piece itself, or the last one of the list. The last slot of
  the torrent is short; when it is the only free one, another one is allocated first.
\<close>

definition pick_slot :: "('b, 'h) store_env \<Rightarrow> int \<Rightarrow> 'b piece_manager \<Rightarrow> int \<times> 'b piece_manager" where
  "pick_slot env p pm =
     (let pm = (if free_slots pm = [] then snd (allocate_slots env 1 False pm) else pm)
      in if p \<in> set (free_slots pm) then (p, pm\<lparr>free_slots := remove1 p (free_slots pm)\<rparr>)
         else
           let pm = (if last (free_slots pm) = last_slot env \<and> p \<noteq> last (free_slots pm) \<and> length (free_slots pm) = 1
                     then snd (allocate_slots env 1 False pm) else pm)
           in (last (free_slots pm), pm\<lparr>free_slots := butlast (free_slots pm)\<rparr>))"

definition allocate_slot_for_piece :: "('b, 'h) store_env \<Rightarrow> int \<Rightarrow> 'b piece_manager \<Rightarrow> int \<times> 'b piece_manager" where
  "allocate_slot_for_piece env p pm =
     (if storage_mode pm \<noteq> storage_mode_compact then (p, pm)
      else if at (piece_to_slot pm) p \<noteq> has_no_slot then (at (piece_to_slot pm) p, pm)
      else
        let (slot, pm) = pick_slot env p pm;
            pm = pm\<lparr>slot_to_piece := put (slot_to_piece pm) slot p, piece_to_slot := put (piece_to_slot pm) p slot\<rparr>;
            other = at (slot_to_piece pm) p;
            (slot, pm) =
              (if slot \<noteq> p \<and> other \<ge> 0
               then (p, pm\<lparr>slot_to_piece := put (put (slot_to_piece pm) p p) slot other,
                           piece_to_slot := put (put (piece_to_slot pm) p p) other slot,
                           slot_data := move_slot env p slot (slot_data pm)\<rparr>)
               else (slot, pm))
        in (slot, if free_slots pm = [] \<and> unallocated_slots pm = [] then switch_to_full_mode pm else pm))"

definition mark_failed :: "int \<Rightarrow> 'b piece_manager \<Rightarrow> 'b piece_manager" where
  "mark_failed p pm =
     (if storage_mode pm \<noteq> storage_mode_compact then pm
      else let slot = at (piece_to_slot pm) p
           in pm\<lparr>slot_to_piece := put (slot_to_piece pm) slot unassigned,
                 piece_to_slot := put (piece_to_slot pm) p has_no_slot,
                 free_slots := free_slots pm @ [slot]\<rparr>)"

section \<open>Reading and writing pieces\<close>

definition read_impl :: "('b, 'h) store_env \<Rightarrow> int \<Rightarrow> int \<Rightarrow> nat \<Rightarrow> 'b piece_manager \<Rightarrow> 'b list" where
  "read_impl env p offset n pm =
     map (\<lambda>i. if offset + int i < slot_size env (slot_for p pm) then slot_data pm (slot_for p pm) (offset + int i)
              else stale env (int i)) [0..<n]"

text \<open>The hash of a piece is computed while the piece is written, as long as it is written in order.\<close>

definition hash_written :: "int \<Rightarrow> int \<Rightarrow> 'b list \<Rightarrow> 'b piece_manager \<Rightarrow> 'b piece_manager" where
  "hash_written p offset bs pm =
     (if offset = 0
      then
        let old = (case piece_hasher pm p of None \<Rightarrow> [] | Some ph \<Rightarrow> ph_bytes ph)
        in pm\<lparr>piece_hasher := (piece_hasher pm)(p \<mapsto> \<lparr>ph_offset = int (length bs), ph_bytes = old @ bs\<rparr>)\<rparr>
      else
        case piece_hasher pm p of None \<Rightarrow> pm
        | Some ph \<Rightarrow>
            if offset = ph_offset ph
            then pm\<lparr>piece_hasher := (piece_hasher pm)(p \<mapsto>
                      \<lparr>ph_offset = ph_offset ph + int (length bs), ph_bytes = ph_bytes ph @ bs\<rparr>)\<rparr>
            else pm)"

definition write_impl :: "('b, 'h) store_env \<Rightarrow> int \<Rightarrow> int \<Rightarrow> 'b list \<Rightarrow> 'b piece_manager \<Rightarrow> 'b piece_manager" where
  "write_impl env p offset bs pm =
     (let (slot, pm) = allocate_slot_for_piece env p pm
      in hash_written p offset bs
           (pm\<lparr>slot_data := write_slot env slot offset (int (length bs)) (\<lambda>i. bs ! nat i) (slot_data pm)\<rparr>))"

text \<open>\<open>hash_for_piece_impl\<close>: what was hashed already, and the rest of the piece from its slot.\<close>

definition hash_for_piece_impl :: "('b, 'h) store_env \<Rightarrow> int \<Rightarrow> 'b piece_manager \<Rightarrow> 'h \<times> 'b piece_manager" where
  "hash_for_piece_impl env p pm =
     (let ph = (case piece_hasher pm p of None \<Rightarrow> \<lparr>ph_offset = 0, ph_bytes = []\<rparr> | Some ph \<Rightarrow> ph)
      in (hash_of env (ph_bytes ph @ read_impl env p (ph_offset ph) (nat (slot_size env p - ph_offset ph)) pm),
          pm\<lparr>piece_hasher := (piece_hasher pm)(p := None)\<rparr>))"

section \<open>Resume data\<close>

text \<open>The list of slots that is saved: up to the last slot that is allocated, without telling the two kinds of slots without a piece apart.\<close>

definition resume_slots :: "'b piece_manager \<Rightarrow> int list" where
  "resume_slots pm =
     map (\<lambda>i. if i \<ge> 0 then i else unassigned)
       (rev (dropWhile (\<lambda>i. i = unallocated) (rev (slot_to_piece pm))))"

end
