(* ===== verification/Slot_Check.thy ===== *)
theory Slot_Check
  imports Slot_Table
begin

text \<open>
  The check of files that are already there (\<open>src/storage.cpp\<close>: \<open>check_fastresume\<close>, \<open>check_files\<close> and
  what they call). Every slot is hashed, the piece it holds is identified by the hash, and pieces are
  moved to where they belong; files of a torrent in full allocation whose pieces are out of place are
  put in order afterwards, with a buffer for one piece. What the check finds on the disk is an argument:
  the number of bytes that could be read of a slot, the first slot behind a hole in a sparse file, and
  whether there are any files. A failing disk is not modelled.
\<close>

section \<open>Identifying a slot\<close>

text \<open>The pieces with one of two hashes, in the order in which \<open>m_hash_to_piece\<close> has them.\<close>

definition pieces_of :: "('b, 'h) store_env \<Rightarrow> int list" where
  "pieces_of env = [0..last_slot env]"

definition matching_pieces :: "('b, 'h) store_env \<Rightarrow> 'h \<Rightarrow> 'h \<Rightarrow> int list" where
  "matching_pieces env large small =
     filter (\<lambda>i. piece_hash env i = small) (pieces_of env) @ filter (\<lambda>i. piece_hash env i = large) (pieces_of env)"

definition identify_data :: "('b, 'h) store_env \<Rightarrow> 'h \<Rightarrow> 'h \<Rightarrow> 'b piece_manager \<Rightarrow> int \<times> 'b piece_manager" where
  "identify_data env large small pm =
     (let pieces = matching_pieces env large small; cur = current_slot pm
      in if pieces = [] then (unassigned, pm)
         else if cur \<in> set pieces
         then
           let other_slot = at (piece_to_slot pm) cur
           in if other_slot \<ge> 0
              then
                let pm =
                  (case List.find (\<lambda>i. \<not> (at (piece_to_slot pm) i \<ge> 0 \<or> i = cur)) pieces of
                     Some other_piece \<Rightarrow>
                       pm\<lparr>slot_to_piece := put (slot_to_piece pm) other_slot other_piece,
                          piece_to_slot := put (piece_to_slot pm) other_piece other_slot\<rparr>
                   | None \<Rightarrow>
                       pm\<lparr>slot_to_piece := put (slot_to_piece pm) other_slot unassigned,
                          free_slots := (if storage_mode pm = storage_mode_compact then free_slots pm @ [other_slot] else free_slots pm)\<rparr>)
                in (cur, pm\<lparr>piece_to_slot := put (piece_to_slot pm) cur has_no_slot\<rparr>)
              else (cur, pm)
         else (case List.find (\<lambda>i. \<not> at (piece_to_slot pm) i \<ge> 0) pieces of
             Some free_piece \<Rightarrow> (free_piece, pm) | None \<Rightarrow> (unassigned, pm)))"

section \<open>Putting a slot in its place\<close>

text \<open>The free slots when a free slot is used and another one becomes free; they are kept in compact mode only.\<close>

definition free_instead :: "int \<Rightarrow> int \<Rightarrow> 'b piece_manager \<Rightarrow> int list" where
  "free_instead used freed pm =
     (if storage_mode pm = storage_mode_compact then remove1 used (free_slots pm) @ [freed] else free_slots pm)"

text \<open>Case 1: the piece of this slot belongs into another slot. The result says whether a move failed.\<close>

definition place_this :: "('b, 'h) store_env \<Rightarrow> int \<Rightarrow> 'b piece_manager \<Rightarrow> bool \<times> 'b piece_manager" where
  "place_this env piece pm =
     (let cur = current_slot pm; other_slot = piece; other_piece = at (slot_to_piece pm) other_slot;
          p2s = put (piece_to_slot pm) piece piece
      in (False, pm\<lparr>slot_to_piece := put (put (slot_to_piece pm) other_slot piece) cur other_piece,
            piece_to_slot := (if other_piece \<ge> 0 then put p2s other_piece cur else p2s),
            free_slots := (if other_piece = unassigned then free_instead other_slot cur pm else free_slots pm),
            slot_data := (if other_piece \<ge> 0 then swap_slots env other_slot cur (slot_data pm)
                          else move_slot env cur other_slot (slot_data pm))\<rparr>))"

text \<open>Case 2: another slot has the piece that belongs into this one.\<close>

definition place_other :: "('b, 'h) store_env \<Rightarrow> int \<Rightarrow> 'b piece_manager \<Rightarrow> bool \<times> 'b piece_manager" where
  "place_other env piece pm =
     (let cur = current_slot pm; other_slot = at (piece_to_slot pm) cur; p2s = put (piece_to_slot pm) cur cur
      in (False, pm\<lparr>slot_to_piece := put (put (slot_to_piece pm) cur cur) other_slot piece,
            piece_to_slot := (if piece \<ge> 0 then put p2s piece other_slot else p2s),
            free_slots := (if piece = unassigned \<and> storage_mode pm = storage_mode_compact then free_slots pm @ [other_slot] else free_slots pm),
            slot_data := (if piece \<ge> 0 then swap_slots env other_slot cur (slot_data pm)
                          else move_slot env other_slot cur (slot_data pm))\<rparr>))"

text \<open>Case 3: both.\<close>

definition place_both :: "('b, 'h) store_env \<Rightarrow> int \<Rightarrow> 'b piece_manager \<Rightarrow> bool \<times> 'b piece_manager" where
  "place_both env piece pm =
     (let cur = current_slot pm; piece1 = at (slot_to_piece pm) piece; slot1 = piece; slot2 = at (piece_to_slot pm) cur
      in if slot1 = slot2
         then (False, pm\<lparr>slot_to_piece := put (put (slot_to_piece pm) slot1 piece) cur piece1,
                piece_to_slot := put (put (piece_to_slot pm) piece slot1) piece1 cur,
                slot_data := swap_slots env cur slot1 (slot_data pm)\<rparr>)
         else
           let p2s = put (put (piece_to_slot pm) piece slot1) cur cur;
               (failed, d) = (if piece1 \<ge> 0 then swap_slots3 env cur slot1 slot2 (slot_data pm)
                  else (False, move_slot env slot2 cur (move_slot env cur slot1 (slot_data pm))))
           in (failed, pm\<lparr>slot_to_piece := put (put (put (slot_to_piece pm) slot1 piece) slot2 piece1) cur cur,
                piece_to_slot := (if piece1 \<ge> 0 then put p2s piece1 slot2 else p2s),
                free_slots := (if piece1 = unassigned then free_instead slot1 slot2 pm else free_slots pm),
                slot_data := d\<rparr>))"

text \<open>Otherwise the slot stays as it is.\<close>

definition place_here :: "int \<Rightarrow> 'b piece_manager \<Rightarrow> bool \<times> 'b piece_manager" where
  "place_here piece pm =
     (let cur = current_slot pm
      in (False, pm\<lparr>slot_to_piece := put (slot_to_piece pm) cur piece,
            piece_to_slot := (if piece \<noteq> unassigned then put (piece_to_slot pm) piece cur else piece_to_slot pm),
            free_slots := (if piece = unassigned \<and> storage_mode pm = storage_mode_compact then free_slots pm @ [cur] else free_slots pm)\<rparr>))"

section \<open>Checking one slot\<close>

fun file_end :: "file_entry list \<Rightarrow> int \<Rightarrow> int \<Rightarrow> int" where
  "file_end [] file_offset target = file_offset"
| "file_end (f # fs) file_offset target =
     (if file_offset + fe_size f > target then file_offset + fe_size f else file_end fs (file_offset + fe_size f) target)"

definition skip_file :: "('b, 'h) store_env \<Rightarrow> 'b piece_manager \<Rightarrow> int" where
  "skip_file env pm =
     (let len = m_piece_length (st_files env); current_offset = current_slot pm * len
      in (file_end (m_files (st_files env)) 0 current_offset - current_offset + len - 1) div len)"

definition slot_hash :: "('b, 'h) store_env \<Rightarrow> int \<Rightarrow> int \<Rightarrow> (int \<Rightarrow> int \<Rightarrow> 'b) \<Rightarrow> 'h" where
  "slot_hash env slot n d = hash_of env (map (d slot) [0..n - 1])"

definition place_piece :: "('b, 'h) store_env \<Rightarrow> int \<Rightarrow> 'b piece_manager \<Rightarrow> bool \<times> 'b piece_manager" where
  "place_piece env piece pm =
     (let this_should_move = (piece \<ge> 0 \<and> at (slot_to_piece pm) piece \<noteq> unallocated);
          other_should_move = (at (piece_to_slot pm) (current_slot pm) \<noteq> has_no_slot)
      in if this_should_move \<and> \<not> other_should_move then place_this env piece pm
         else if \<not> this_should_move \<and> other_should_move then place_other env piece pm
         else if this_should_move \<and> other_should_move then place_both env piece pm
         else place_here piece pm)"

text \<open>The result is the number of slots to skip and the piece that was found, or -1.\<close>

definition check_one_piece :: "('b, 'h) store_env \<Rightarrow> int \<Rightarrow> int \<Rightarrow> 'b piece_manager \<Rightarrow> int \<times> int \<times> 'b piece_manager" where
  "check_one_piece env num_read next_data pm =
     (let cur = current_slot pm; n = slot_size env cur; small_n = slot_size env (last_slot env)
      in if num_read \<noteq> n then (skip_file env pm, -1, pm)
         else
           let small = (if n = small_n then no_hash env else slot_hash env cur small_n (slot_data pm));
               large = slot_hash env cur n (slot_data pm);
               (piece, pm) = identify_data env large small pm;
               have = (if piece \<ge> 0 then piece else -1);
               pm = pm\<lparr>out_of_place := out_of_place pm \<or> (piece \<noteq> cur \<and> piece \<ge> 0)\<rparr>;
               (failed, pm) = place_piece env piece pm
           in if failed then (skip_file env pm, have, pm)
              else if piece = unassigned \<and> cur \<noteq> last_slot env \<and> next_data > cur + 1 then (next_data - cur, have, pm)
              else (0, have, pm))"

section \<open>Starting and finishing\<close>

datatype check_result = no_error | need_full_check

definition check_init_storage :: "'b piece_manager \<Rightarrow> 'b piece_manager" where
  "check_init_storage pm =
     (let pm = pm\<lparr>manager_state := manager_finished\<rparr>
      in if storage_mode pm \<noteq> storage_mode_compact
         then pm\<lparr>piece_to_slot := [], slot_to_piece := [], free_slots := [], unallocated_slots := []\<rparr> else pm)"

definition empty_tables :: "('b, 'h) store_env \<Rightarrow> 'b piece_manager \<Rightarrow> 'b piece_manager" where
  "empty_tables env pm =
     (let n = nat (m_num_pieces (st_files env))
      in pm\<lparr>piece_to_slot := replicate n has_no_slot, slot_to_piece := replicate n unallocated\<rparr>)"

definition check_no_fastresume :: "('b, 'h) store_env \<Rightarrow> bool \<Rightarrow> 'b piece_manager \<Rightarrow> check_result \<times> 'b piece_manager" where
  "check_no_fastresume env has_files pm =
     (if has_files
      then
        let pm = empty_tables env (pm\<lparr>manager_state := manager_full_check\<rparr>)
        in (need_full_check,
            if storage_mode pm = storage_mode_compact then pm\<lparr>unallocated_slots := [], free_slots := []\<rparr> else pm)
      else
        (no_error, check_init_storage
          (if storage_mode pm = storage_mode_compact
           then empty_tables env (pm\<lparr>unallocated_slots := unallocated_slots pm @ pieces_of env\<rparr>) else pm)))"

section \<open>Moving pieces to their slots\<close>

text \<open>The slot a piece is to be moved to: what it holds goes to the buffer.\<close>

definition rescue_piece :: "('b, 'h) store_env \<Rightarrow> int \<Rightarrow> 'b piece_manager \<Rightarrow> 'b piece_manager" where
  "rescue_piece env slot pm =
     (let other = at (slot_to_piece pm) slot
      in if other \<ge> 0
         then pm\<lparr>scratch_buffer := read_slot env slot (slot_size env other) (slot_data pm), scratch_piece := other,
                 piece_to_slot := put (piece_to_slot pm) other unassigned\<rparr>
         else pm)"

fun next_misplaced :: "int list \<Rightarrow> int \<Rightarrow> nat \<Rightarrow> int" where
  "next_misplaced s2p slot 0 = slot"
| "next_misplaced s2p slot (Suc n) = (if at s2p slot = slot \<or> at s2p slot < 0 then next_misplaced s2p (slot + 1) n else slot)"

definition expand_pieces :: "('b, 'h) store_env \<Rightarrow> 'b piece_manager \<Rightarrow> check_result \<times> 'b piece_manager" where
  "expand_pieces env pm =
     (if scratch_piece pm \<ge> 0
      then
        let piece = scratch_piece pm; buf = scratch_buffer pm;
            pm = rescue_piece env piece (pm\<lparr>scratch_piece := -1\<rparr>)
        in (need_full_check,
            pm\<lparr>slot_data := write_slot env piece 0 (slot_size env piece) buf (slot_data pm),
               piece_to_slot := put (piece_to_slot pm) piece piece, slot_to_piece := put (slot_to_piece pm) piece piece\<rparr>)
      else
        let n = m_num_pieces (st_files env);
            cur = next_misplaced (slot_to_piece pm) (current_slot pm) (nat (n - current_slot pm));
            pm = pm\<lparr>current_slot := cur\<rparr>
        in if cur = n then (no_error, check_init_storage pm)
           else
             let piece = at (slot_to_piece pm) cur;
                 pm = rescue_piece env piece pm
             in (need_full_check,
                 pm\<lparr>slot_data := move_slot env cur piece (slot_data pm),
                    piece_to_slot := put (piece_to_slot pm) piece piece,
                    slot_to_piece := put (put (slot_to_piece pm) cur unassigned) piece piece\<rparr>))"

section \<open>The check\<close>

text \<open>
  The slots that are skipped: the code adds all but the last of them to the list of unallocated slots,
  beginning with the current one.
\<close>

definition skip_slots :: "int \<Rightarrow> 'b piece_manager \<Rightarrow> 'b piece_manager" where
  "skip_slots skip pm =
     (if skip > 0
      then
        let cur = current_slot pm
        in pm\<lparr>unallocated_slots := (if storage_mode pm = storage_mode_compact
                 then unallocated_slots pm @ [cur..cur + skip - 2] else unallocated_slots pm),
              current_slot := cur + (skip - 1)\<rparr>
      else pm)"

definition finish_check :: "'b piece_manager \<Rightarrow> check_result \<times> 'b piece_manager" where
  "finish_check pm =
     (if storage_mode pm \<noteq> storage_mode_compact
      then
        if \<not> out_of_place pm then (no_error, check_init_storage (pm\<lparr>piece_to_slot := [], slot_to_piece := []\<rparr>))
        else (need_full_check, pm\<lparr>manager_state := manager_expand_pieces, current_slot := 0\<rparr>)
      else (no_error, check_init_storage (if unallocated_slots pm = [] then switch_to_full_mode pm else pm)))"

definition check_files :: "('b, 'h) store_env \<Rightarrow> bool \<Rightarrow> int \<Rightarrow> int \<Rightarrow> 'b piece_manager \<Rightarrow> check_result \<times> int \<times> 'b piece_manager" where
  "check_files env has_files num_read next_data pm =
     (case manager_state pm of
        manager_none \<Rightarrow> (case check_no_fastresume env has_files pm of (r, pm) \<Rightarrow> (r, -1, pm))
      | manager_expand_pieces \<Rightarrow> (case expand_pieces env pm of (r, pm) \<Rightarrow> (r, -1, pm))
      | manager_finished \<Rightarrow> (no_error, -1, pm)
      | manager_full_check \<Rightarrow>
          let (skip, have, pm) = check_one_piece env num_read next_data pm;
              pm = skip_slots skip pm;
              pm = pm\<lparr>current_slot := current_slot pm + 1\<rparr>
          in if current_slot pm \<ge> m_num_pieces (st_files env)
             then (case finish_check pm of (r, pm) \<Rightarrow> (r, have, pm))
             else (need_full_check, have, pm))"

section \<open>Resume data\<close>

text \<open>
  What \<open>check_fastresume\<close> looks at: the kind of the data, the number of blocks in a piece (or -1), the
  allocation mode, the answer of \<open>verify_resume_data\<close>, and the two lists of pieces; an entry of the list
  of slots that is no number is \<open>None\<close>.
\<close>

datatype resume_kind = resume_none | resume_dict | resume_other

datatype resume_error = not_a_dictionary | invalid_blocks_per_piece | verify_failed | missing_slots | too_many_slots
  | invalid_slot_list | invalid_piece_index | missing_pieces

record resume_data =
  rd_kind :: resume_kind
  rd_blocks_per_piece :: int
  rd_compact :: bool
  rd_verified :: bool
  rd_slots :: "int option list option"
  rd_has_pieces :: bool
  rd_pieces :: "nat list option"

fun read_slots :: "int \<Rightarrow> int \<Rightarrow> int option list \<Rightarrow> 'b piece_manager \<Rightarrow> resume_error option \<times> 'b piece_manager" where
  "read_slots n i [] pm = (None, pm)"
| "read_slots n i (None # es) pm = (Some invalid_slot_list, pm)"
| "read_slots n i (Some index # es) pm =
     (if index \<ge> n \<or> index < -2 then (Some invalid_piece_index, pm)
      else read_slots n (i + 1) es
        (if index \<ge> 0 then pm\<lparr>slot_to_piece := put (slot_to_piece pm) i index, piece_to_slot := put (piece_to_slot pm) index i\<rparr>
         else if index = unassigned then pm\<lparr>free_slots := free_slots pm @ [i]\<rparr>
         else pm\<lparr>unallocated_slots := unallocated_slots pm @ [i]\<rparr>))"

fun check_slots :: "int \<Rightarrow> int option list \<Rightarrow> resume_error option" where
  "check_slots i [] = None"
| "check_slots i (None # es) = Some invalid_slot_list"
| "check_slots i (Some index # es) = (if index \<noteq> i \<and> index \<ge> 0 then Some invalid_piece_index else check_slots (i + 1) es)"

fun read_pieces :: "int \<Rightarrow> nat list \<Rightarrow> 'b piece_manager \<Rightarrow> 'b piece_manager" where
  "read_pieces i [] pm = pm"
| "read_pieces i (b # bs) pm =
     read_pieces (i + 1) bs
       (if odd b then pm\<lparr>slot_to_piece := put (slot_to_piece pm) i i, piece_to_slot := put (piece_to_slot pm) i i\<rparr>
        else pm\<lparr>free_slots := free_slots pm @ [i]\<rparr>)"

text \<open>\<open>vector::resize\<close>.\<close>

definition resized :: "nat \<Rightarrow> 'a \<Rightarrow> 'a list \<Rightarrow> 'a list" where
  "resized n v xs = take n xs @ replicate (n - length xs) v"

definition load_resume :: "('b, 'h) store_env \<Rightarrow> resume_data \<Rightarrow> 'b piece_manager \<Rightarrow> resume_error option \<times> 'b piece_manager" where
  "load_resume env rd pm =
     (let n = m_num_pieces (st_files env);
          sized = pm\<lparr>slot_to_piece := resized (nat n) unallocated (slot_to_piece pm), piece_to_slot := resized (nat n) has_no_slot (piece_to_slot pm)\<rparr>;
          full = (\<lambda>pm. if unallocated_slots pm = [] then switch_to_full_mode pm else pm)
      in if rd_compact rd \<or> \<not> rd_has_pieces rd
         then
           case rd_slots rd of None \<Rightarrow> (Some missing_slots, pm)
           | Some slots \<Rightarrow>
               if int (length slots) > n then (Some too_many_slots, pm)
               else if storage_mode pm = storage_mode_compact
               then (case read_slots n 0 slots sized of (None, pm) \<Rightarrow> (None, full pm) | (Some e, pm) \<Rightarrow> (Some e, pm))
               else (check_slots 0 slots, pm)
         else if storage_mode pm = storage_mode_compact
         then
           case rd_pieces rd of None \<Rightarrow> (Some missing_pieces, pm)
           | Some bytes \<Rightarrow>
               if int (length bytes) \<noteq> n then (Some too_many_slots, pm)
               else (None, full (read_pieces 0 bytes sized))
         else (None, pm))"

definition check_fastresume ::
  "('b, 'h) store_env \<Rightarrow> bool \<Rightarrow> resume_data \<Rightarrow> 'b piece_manager \<Rightarrow> check_result \<times> resume_error option \<times> 'b piece_manager" where
  "check_fastresume env has_files rd pm =
     (let pm = pm\<lparr>current_slot := 0\<rparr>;
          len = m_piece_length (st_files env);
          again = (\<lambda>e pm. case check_no_fastresume env has_files pm of (r, pm) \<Rightarrow> (r, e, pm))
      in if rd_kind rd = resume_none then again None pm
         else if rd_kind rd \<noteq> resume_dict then again (Some not_a_dictionary) pm
         else if rd_blocks_per_piece rd \<noteq> -1 \<and> rd_blocks_per_piece rd \<noteq> len div min (16 * 1024) len
         then again (Some invalid_blocks_per_piece) pm
         else if \<not> rd_verified rd then again (Some verify_failed) pm
         else case load_resume env rd pm of
             (Some e, pm) \<Rightarrow> again (Some e) pm
           | (None, pm) \<Rightarrow> (no_error, None, check_init_storage pm))"

end
