(* ===== verification/Slot_Invariant.thy ===== *)
theory Slot_Invariant
  imports Slot_Table
begin

text \<open>
  The invariant of the slots of a running torrent, and that its operations keep it and the contents of
  the pieces: \<open>stored\<close> is the abstraction of the slots to a map from pieces to their bytes.
\<close>

section \<open>Tables\<close>

lemma at_put [simp]: "0 \<le> i \<Longrightarrow> i < int (length xs) \<Longrightarrow> at (put xs i v) = (at xs)(i := v)"
  by (auto simp: at_def put_def fun_eq_iff nth_list_update)

lemma length_put [simp]: "length (put xs i v) = length xs"
  by (simp add: put_def)

lemma at_range: "at xs i \<noteq> -4 \<Longrightarrow> 0 \<le> i \<and> i < int (length xs)"
  by (auto simp: at_def split: if_splits)

lemmas no_entries = has_no_slot_def unallocated_def unassigned_def

text \<open>The two tables say the same.\<close>

definition inverse_tables :: "(int \<Rightarrow> int) \<Rightarrow> (int \<Rightarrow> int) \<Rightarrow> bool" where
  "inverse_tables f g \<longleftrightarrow> (\<forall>p \<ge> 0. \<forall>s \<ge> 0. f p = s \<longleftrightarrow> g s = p)"

lemma inverse_tablesD:
  assumes "inverse_tables (at xs) (at ys)"
  shows "at xs p \<ge> 0 \<Longrightarrow> at ys (at xs p) = p" "at ys s \<ge> 0 \<Longrightarrow> at xs (at ys s) = s"
  using assms at_range [of xs p] at_range [of ys s] by (auto simp: inverse_tables_def)

lemma inverse_tables_give:
  "inverse_tables f g \<Longrightarrow> g s < 0 \<Longrightarrow> f p < 0 \<Longrightarrow> inverse_tables (f(p := s)) (g(s := p))"
  unfolding inverse_tables_def by (auto, fastforce)

lemma inverse_tables_take:
  "inverse_tables f g \<Longrightarrow> f p = s \<Longrightarrow> s \<ge> 0 \<Longrightarrow> p \<ge> 0 \<Longrightarrow> k < 0 \<Longrightarrow> j < 0 \<Longrightarrow> inverse_tables (f(p := k)) (g(s := j))"
  unfolding inverse_tables_def by auto

lemma inverse_tables_mark:
  "inverse_tables f g \<Longrightarrow> g s < 0 \<Longrightarrow> k < 0 \<Longrightarrow> inverse_tables f (g(s := k))"
  unfolding inverse_tables_def by auto

lemma inverse_tables_move:
  assumes inv: "inverse_tables f g" and s: "g s < 0" "s \<ge> 0" and p: "f p \<ge> 0" "p \<ge> 0" and k: "k < 0"
  shows "inverse_tables (f(p := s)) (g(s := p, f p := k))"
proof -
  have "inverse_tables (f(p := -1)) (g(f p := k))" using inverse_tables_take [OF inv refl p, of "-1" k] k by simp
  moreover have "s \<noteq> f p" using inv s p unfolding inverse_tables_def by (metis not_le)
  ultimately show ?thesis
    using inverse_tables_give [of "f(p := -1)" "g(f p := k)" s p] s by (simp add: fun_upd_twist)
qed

section \<open>The invariant\<close>

definition num_slots :: "('b, 'h) store_env \<Rightarrow> int" where
  "num_slots env = m_num_pieces (st_files env)"

definition sizes_ok :: "('b, 'h) store_env \<Rightarrow> bool" where
  "sizes_ok env \<longleftrightarrow> num_slots env > 0 \<and> 0 < slot_size env (last_slot env) \<and> slot_size env (last_slot env) \<le> m_piece_length (st_files env)"

definition linked :: "int \<Rightarrow> (int \<Rightarrow> int) \<Rightarrow> (int \<Rightarrow> int) \<Rightarrow> bool" where
  "linked n f g \<longleftrightarrow> inverse_tables f g
   \<and> (\<forall>p. 0 \<le> p \<and> p < n \<longrightarrow> f p \<ge> 0 \<or> f p = has_no_slot)
   \<and> (\<forall>s. 0 \<le> s \<and> s < n \<longrightarrow> g s \<ge> 0 \<or> g s = unallocated \<or> g s = unassigned)
   \<and> (\<forall>p. f p \<ge> 0 \<longrightarrow> f p = p \<or> g p = unallocated)"

definition tables_ok :: "('b, 'h) store_env \<Rightarrow> 'b piece_manager \<Rightarrow> bool" where
  "tables_ok env pm \<longleftrightarrow>
     int (length (piece_to_slot pm)) = num_slots env \<and> int (length (slot_to_piece pm)) = num_slots env
   \<and> linked (num_slots env) (at (piece_to_slot pm)) (at (slot_to_piece pm))"

text \<open>The last slot, which is short, is the last one to be allocated, unless it is as long as the others.\<close>

definition slots_ok :: "('b, 'h) store_env \<Rightarrow> 'b piece_manager \<Rightarrow> bool" where
  "slots_ok env pm \<longleftrightarrow> tables_ok env pm
   \<and> distinct (free_slots pm) \<and> set (free_slots pm) = {s. at (slot_to_piece pm) s = unassigned}
   \<and> distinct (unallocated_slots pm) \<and> set (unallocated_slots pm) = {s. at (slot_to_piece pm) s = unallocated}
   \<and> (unallocated_slots pm = [] \<or> last (unallocated_slots pm) = last_slot env
      \<or> slot_size env (last_slot env) = m_piece_length (st_files env))"

definition manager_ok :: "('b, 'h) store_env \<Rightarrow> 'b piece_manager \<Rightarrow> bool" where
  "manager_ok env pm \<longleftrightarrow>
     (if storage_mode pm = storage_mode_compact
      then slots_ok env pm \<and> (free_slots pm \<noteq> [] \<or> unallocated_slots pm \<noteq> [])
      else free_slots pm = [] \<and> unallocated_slots pm = [] \<and> piece_to_slot pm = [] \<and> slot_to_piece pm = [])"

definition stored :: "('b, 'h) store_env \<Rightarrow> 'b piece_manager \<Rightarrow> int \<Rightarrow> 'b list option" where
  "stored env pm p =
     (if 0 \<le> p \<and> p < num_slots env \<and> slot_for p pm \<ge> 0
      then Some (map (slot_data pm (slot_for p pm)) [0..slot_size env p - 1]) else None)"

lemma tables_okD:
  assumes "tables_ok env pm"
  shows "int (length (piece_to_slot pm)) = num_slots env" "int (length (slot_to_piece pm)) = num_slots env"
    "inverse_tables (at (piece_to_slot pm)) (at (slot_to_piece pm))"
    "0 \<le> p \<Longrightarrow> p < num_slots env \<Longrightarrow> at (piece_to_slot pm) p \<ge> 0 \<or> at (piece_to_slot pm) p = has_no_slot"
    "0 \<le> s \<Longrightarrow> s < num_slots env \<Longrightarrow> at (slot_to_piece pm) s \<ge> 0 \<or> at (slot_to_piece pm) s = unallocated \<or> at (slot_to_piece pm) s = unassigned"
    "at (piece_to_slot pm) p \<ge> 0 \<Longrightarrow> at (piece_to_slot pm) p = p \<or> at (slot_to_piece pm) p = unallocated"
  using assms unfolding tables_ok_def linked_def by blast+

lemma tables_ok_linked: "tables_ok env pm \<Longrightarrow> linked (num_slots env) (at (piece_to_slot pm)) (at (slot_to_piece pm))"
  by (simp add: tables_ok_def)

lemma linked_mark: "linked n f g \<Longrightarrow> g s < 0 \<Longrightarrow> f s = has_no_slot \<Longrightarrow> linked n f (g(s := unassigned))"
  using inverse_tables_mark [of f g s unassigned] by (auto simp: linked_def no_entries)

lemma linked_move:
  assumes "linked n f g" "g s < 0" "f s \<ge> 0" "s \<ge> 0"
  shows "linked n (f(s := s)) (g(s := s, f s := unassigned))"
proof -
  have "g (f s) = s" using assms by (auto simp: linked_def inverse_tables_def)
  then show ?thesis using assms inverse_tables_move [of f g s s unassigned] by (auto simp: linked_def no_entries)
qed

lemma entry_range:
  assumes "tables_ok env pm"
  shows "at (piece_to_slot pm) p \<noteq> -4 \<Longrightarrow> 0 \<le> p \<and> p < num_slots env"
    "at (slot_to_piece pm) s \<noteq> -4 \<Longrightarrow> 0 \<le> s \<and> s < num_slots env"
  using tables_okD(1,2) [OF assms] at_range [of "piece_to_slot pm" p] at_range [of "slot_to_piece pm" s] by auto

lemma slot_size_cases:
  "slot_size env p = (if p = last_slot env then slot_size env (last_slot env) else m_piece_length (st_files env))"
  by (auto simp: slot_size_def piece_size_def last_slot_def)

lemma slot_size_le: "sizes_ok env \<Longrightarrow> slot_size env p \<le> m_piece_length (st_files env)"
  by (subst slot_size_cases) (simp add: sizes_ok_def)

lemma fits_full: "sizes_ok env \<Longrightarrow> s \<noteq> last_slot env \<Longrightarrow> slot_size env p \<le> slot_size env s"
  using slot_size_le [of env p] slot_size_cases [of env s] by simp

text \<open>A piece fits into its slot: only the last piece can be in the short slot.\<close>

lemma slots_ok_fits:
  assumes ok: "slots_ok env pm" and sz: "sizes_ok env" and p: "at (piece_to_slot pm) p \<ge> 0"
  shows "slot_size env p \<le> slot_size env (at (piece_to_slot pm) p)"
proof (cases "at (piece_to_slot pm) p = p \<or> at (piece_to_slot pm) p \<noteq> last_slot env")
  case False
  have t: "tables_ok env pm" using ok by (simp add: slots_ok_def)
  with False p have u: "at (slot_to_piece pm) p = unallocated" using tables_okD(6) by blast
  then have "p \<in> set (unallocated_slots pm)" using ok by (simp add: slots_ok_def)
  then have ne: "unallocated_slots pm \<noteq> []" by auto
  have "at (slot_to_piece pm) (last_slot env) = p" using False inverse_tablesD(1) [OF tables_okD(3) [OF t] p] by simp
  moreover have "p \<ge> 0" using entry_range(1) [OF t, of p] p by auto
  ultimately have "last_slot env \<notin> set (unallocated_slots pm)" using ok by (auto simp: slots_ok_def no_entries)
  then have "slot_size env (last_slot env) = m_piece_length (st_files env)"
    using ne ok last_in_set [of "unallocated_slots pm"] by (auto simp: slots_ok_def)
  then show ?thesis using False slot_size_le [OF sz, of p] by auto
qed (use fits_full [OF sz] in auto)

section \<open>Allocating slots\<close>

lemma move_slot_eq:
  "move_slot env src dst d =
     d(dst := (\<lambda>i. if 0 \<le> i \<and> i < slot_size env dst then (if i < slot_size env src then d src i else stale env i) else d dst i))"
  by (auto simp: move_slot_def write_slot_def read_slot_def Let_def fun_eq_iff)

lemma stored_cong:
  assumes "storage_mode pm' = storage_mode pm"
    and "\<And>p. 0 \<le> p \<Longrightarrow> p < num_slots env \<Longrightarrow> slot_for p pm \<ge> 0 \<longleftrightarrow> slot_for p pm' \<ge> 0"
    and "\<And>p i. 0 \<le> i \<Longrightarrow> i < slot_size env p \<Longrightarrow> slot_for p pm \<ge> 0 \<Longrightarrow> slot_data pm' (slot_for p pm') i = slot_data pm (slot_for p pm) i"
  shows "stored env pm' = stored env pm"
  using assms(2,3) by (auto simp: stored_def fun_eq_iff)

lemma slot_for_compact: "storage_mode pm = storage_mode_compact \<Longrightarrow> slot_for p pm = at (piece_to_slot pm) p"
  by (simp add: slot_for_def)

lemma allocate_next_ok:
  assumes ok: "slots_ok env pm" and sz: "sizes_ok env" and u: "unallocated_slots pm = pos # rest"
    and c: "storage_mode pm = storage_mode_compact" and res: "allocate_next env pos rest pm = (moved, pm')"
  shows "slots_ok env pm' \<and> storage_mode pm' = storage_mode_compact \<and> stored env pm' = stored env pm
    \<and> unallocated_slots pm' = rest \<and> (\<exists>s. s \<notin> set (free_slots pm) \<and> free_slots pm' = free_slots pm @ [s])
    \<and> (\<forall>p. at (piece_to_slot pm') p \<ge> 0 \<longleftrightarrow> at (piece_to_slot pm) p \<ge> 0) \<and> piece_hasher pm' = piece_hasher pm"
proof -
  let ?f = "at (piece_to_slot pm)" and ?g = "at (slot_to_piece pm)"
  have t: "tables_ok env pm" using ok by (simp add: slots_ok_def)
  have gpos: "?g pos = unallocated" and d: "distinct (pos # rest)" "set (pos # rest) = {s. ?g s = unallocated}"
    using ok u by (auto simp: slots_ok_def)
  have pos: "0 \<le> pos" "pos < num_slots env" using entry_range(2) [OF t, of pos] gpos by (auto simp: no_entries)
  have nin: "pos \<notin> set (free_slots pm)" using ok gpos by (auto simp: slots_ok_def no_entries)
  have lastu: "rest = [] \<or> last rest = last_slot env \<or> slot_size env (last_slot env) = m_piece_length (st_files env)"
    using ok u by (auto simp: slots_ok_def)
  show ?thesis
  proof (cases "?f pos = has_no_slot")
    case True
    have g': "at (put (slot_to_piece pm) pos unassigned) = ?g(pos := unassigned)" using pos tables_okD(2) [OF t] by simp
    have pm': "pm' = pm\<lparr>unallocated_slots := rest, slot_to_piece := put (slot_to_piece pm) pos unassigned, free_slots := free_slots pm @ [pos]\<rparr>"
      using res True by (simp add: allocate_next_def)
    have "tables_ok env pm'"
      using t linked_mark [OF tables_ok_linked [OF t] _ True] gpos by (simp add: tables_ok_def pm' g') (simp add: no_entries)
    moreover have "set (free_slots pm') = {s. (?g(pos := unassigned)) s = unassigned}" using ok by (auto simp: pm' slots_ok_def)
    moreover have "set rest = {s. (?g(pos := unassigned)) s = unallocated}" using d by (auto simp: no_entries)
    ultimately have "slots_ok env pm'" using ok d nin lastu by (simp add: slots_ok_def pm' g')
    moreover have "stored env pm' = stored env pm" by (simp add: pm' stored_def slot_for_def fun_eq_iff)
    ultimately show ?thesis using nin c by (auto simp: pm')
  next
    case False
    define old where "old = ?f pos"
    have old: "old \<ge> 0" using False tables_okD(4) [OF t pos] by (simp add: old_def)
    have gold: "?g old = pos" using inverse_tablesD(1) [OF tables_okD(3) [OF t], of pos] old by (simp add: old_def)
    have ne: "old \<noteq> pos" using gold gpos old by (auto simp: no_entries)
    have or: "old < num_slots env" using entry_range(2) [OF t, of old] gold pos by auto
    have f': "at (put (piece_to_slot pm) pos pos) = ?f(pos := pos)" using pos tables_okD(1) [OF t] by simp
    have g': "at (put (put (slot_to_piece pm) pos pos) old unassigned) = ?g(pos := pos, old := unassigned)"
      using pos old or tables_okD(2) [OF t] by simp
    have pm': "pm' = pm\<lparr>slot_data := move_slot env old pos (slot_data pm), piece_to_slot := put (piece_to_slot pm) pos pos,
        unallocated_slots := rest, slot_to_piece := put (put (slot_to_piece pm) pos pos) old unassigned, free_slots := free_slots pm @ [old]\<rparr>"
      using res False by (simp add: allocate_next_def old_def Let_def)
    have "linked (num_slots env) (?f(pos := pos)) (?g(pos := pos, old := unassigned))"
      using linked_move [OF tables_ok_linked [OF t], of pos] old pos gpos by (simp add: old_def no_entries)
    then have "tables_ok env pm'" using t by (simp add: tables_ok_def pm' f' g')
    moreover have "set (free_slots pm') = {s. (?g(pos := pos, old := unassigned)) s = unassigned}"
      using ok pos gpos by (auto simp: pm' slots_ok_def no_entries)
    moreover have "set rest = {s. (?g(pos := pos, old := unassigned)) s = unallocated}" using d pos gold by (auto simp: no_entries)
    moreover have fr: "old \<notin> set (free_slots pm)" using ok gold pos by (auto simp: slots_ok_def no_entries)
    ultimately have "slots_ok env pm'" using ok d lastu by (simp add: slots_ok_def pm' g')
    moreover have "stored env pm' = stored env pm"
    proof (rule stored_cong)
      show "slot_for p pm \<ge> 0 \<longleftrightarrow> slot_for p pm' \<ge> 0" for p
        using c old pos by (simp add: slot_for_def pm' f' old_def)
      show "slot_data pm' (slot_for p pm') i = slot_data pm (slot_for p pm) i" if "0 \<le> i" "i < slot_size env p" "slot_for p pm \<ge> 0" for p i
      proof (cases "p = pos")
        case True
        have "i < slot_size env old" using that slots_ok_fits [OF ok sz, of pos] old True by (simp add: old_def)
        then show ?thesis using that True c by (simp add: slot_for_def pm' f' move_slot_eq old_def)
      next
        case False
        have "?f p \<noteq> pos" using that(3) inverse_tablesD(1) [OF tables_okD(3) [OF t], of p] gpos c entry_range(1) [OF t, of p]
          by (auto simp: slot_for_def no_entries)
        then show ?thesis using False c by (simp add: slot_for_def pm' f' move_slot_eq)
      qed
    qed (simp add: pm')
    ultimately show ?thesis using fr c old pos by (auto simp: pm' f' old_def)
  qed
qed

definition allocated_more :: "('b, 'h) store_env \<Rightarrow> nat \<Rightarrow> 'b piece_manager \<Rightarrow> 'b piece_manager \<Rightarrow> bool" where
  "allocated_more env n pm pm' \<longleftrightarrow> slots_ok env pm' \<and> storage_mode pm' = storage_mode_compact \<and> stored env pm' = stored env pm
    \<and> (\<exists>fs. free_slots pm' = free_slots pm @ fs \<and> length fs \<le> n \<and> (unallocated_slots pm \<noteq> [] \<longrightarrow> n > 0 \<longrightarrow> fs \<noteq> []))
    \<and> (\<forall>p. at (piece_to_slot pm') p \<ge> 0 \<longleftrightarrow> at (piece_to_slot pm) p \<ge> 0) \<and> piece_hasher pm' = piece_hasher pm"

lemma allocate_loop_ok:
  "slots_ok env pm \<Longrightarrow> sizes_ok env \<Longrightarrow> storage_mode pm = storage_mode_compact \<Longrightarrow>
   allocate_loop env abort n written pm = (written', pm') \<Longrightarrow> allocated_more env n pm pm'"
proof (induction n arbitrary: written pm)
  case (Suc n)
  show ?case
  proof (cases "unallocated_slots pm")
    case Nil
    then show ?thesis using Suc.prems by (auto simp: allocated_more_def)
  next
    case (Cons pos rest)
    obtain moved pm1 where one: "allocate_next env pos rest pm = (moved, pm1)" by (cases "allocate_next env pos rest pm")
    note step = allocate_next_ok [OF Suc.prems(1,2) Cons Suc.prems(3) one]
    show ?thesis
    proof (cases "abort \<and> (written \<or> moved)")
      case True
      then have "pm' = pm1" using Suc.prems(4) Cons one by auto
      then show ?thesis using step by (auto simp: allocated_more_def)
    next
      case False
      then have "allocate_loop env abort n (written \<or> moved) pm1 = (written', pm')" using Suc.prems(4) Cons one by auto
      from Suc.IH [OF _ Suc.prems(2) _ this] step show ?thesis by (auto simp: allocated_more_def)
    qed
  qed
qed (auto simp: allocated_more_def)

lemma allocate_slots_ok:
  assumes "slots_ok env pm" "sizes_ok env" "storage_mode pm = storage_mode_compact"
  shows "allocated_more env n pm (snd (allocate_slots env n abort pm))"
  unfolding allocate_slots_def
  by (rule allocate_loop_ok [OF assms, of abort n False "fst (allocate_loop env abort n False pm)"]) simp

section \<open>A slot for a piece\<close>

text \<open>The choice of a slot: some more slots may have been allocated before.\<close>

definition picked_slot :: "('b, 'h) store_env \<Rightarrow> int \<Rightarrow> int \<Rightarrow> 'b piece_manager \<Rightarrow> 'b piece_manager \<Rightarrow> 'b piece_manager \<Rightarrow> int list \<Rightarrow> bool" where
  "picked_slot env p s pm pm' pm2 fs \<longleftrightarrow> pm' = pm2\<lparr>free_slots := fs\<rparr>
    \<and> slots_ok env pm2 \<and> storage_mode pm2 = storage_mode_compact \<and> stored env pm2 = stored env pm
    \<and> s \<in> set (free_slots pm2) \<and> set fs = set (free_slots pm2) - {s} \<and> distinct fs \<and> (s = p \<or> p \<notin> set (free_slots pm2))
    \<and> (\<forall>q. at (piece_to_slot pm2) q \<ge> 0 \<longleftrightarrow> at (piece_to_slot pm) q \<ge> 0) \<and> piece_hasher pm2 = piece_hasher pm"

lemma pick_slot_ok:
  assumes ok: "slots_ok env pm" and sz: "sizes_ok env" and c: "storage_mode pm = storage_mode_compact"
    and ne: "free_slots pm \<noteq> [] \<or> unallocated_slots pm \<noteq> []" and res: "pick_slot env p pm = (s, pm')"
  shows "\<exists>pm2 fs. picked_slot env p s pm pm' pm2 fs"
proof -
  define pm1 where "pm1 = (if free_slots pm = [] then snd (allocate_slots env 1 False pm) else pm)"
  have s1: "slots_ok env pm1" "storage_mode pm1 = storage_mode_compact" "stored env pm1 = stored env pm" "free_slots pm1 \<noteq> []"
    "\<forall>q. at (piece_to_slot pm1) q \<ge> 0 \<longleftrightarrow> at (piece_to_slot pm) q \<ge> 0" "piece_hasher pm1 = piece_hasher pm"
    using allocate_slots_ok [OF ok sz c, of 1 False] ok c ne by (auto simp: pm1_def allocated_more_def)
  have d: "distinct (free_slots pm1)" using s1 by (simp add: slots_ok_def)
  show ?thesis
  proof (cases "p \<in> set (free_slots pm1)")
    case True
    have "s = p" "pm' = pm1\<lparr>free_slots := remove1 p (free_slots pm1)\<rparr>" using res True by (auto simp: pick_slot_def pm1_def [symmetric] Let_def)
    then have "picked_slot env p s pm pm' pm1 (remove1 p (free_slots pm1))" using s1 d True by (simp add: picked_slot_def)
    then show ?thesis by blast
  next
    case False
    define pm2 where "pm2 = (if last (free_slots pm1) = last_slot env \<and> p \<noteq> last (free_slots pm1) \<and> length (free_slots pm1) = 1
                     then snd (allocate_slots env 1 False pm1) else pm1)"
    have eq: "s = last (free_slots pm2)" "pm' = pm2\<lparr>free_slots := butlast (free_slots pm2)\<rparr>"
      using res False unfolding pick_slot_def Let_def pm1_def [symmetric] by (simp_all add: pm2_def)
    note more = allocate_slots_ok [OF s1(1) sz s1(2), of 1 False]
    have s2: "slots_ok env pm2" "storage_mode pm2 = storage_mode_compact" "stored env pm2 = stored env pm"
      "\<forall>q. at (piece_to_slot pm2) q \<ge> 0 \<longleftrightarrow> at (piece_to_slot pm) q \<ge> 0" "piece_hasher pm2 = piece_hasher pm"
      using more s1 by (auto simp: pm2_def allocated_more_def)
    have "\<exists>gs. free_slots pm2 = free_slots pm1 @ gs \<and> length gs \<le> 1"
      using more s1 unfolding pm2_def by (auto simp: allocated_more_def split: if_split)
    then obtain gs where gs: "free_slots pm2 = free_slots pm1 @ gs" "length gs \<le> 1" by blast
    have "s = p \<or> p \<notin> set (free_slots pm2)" using gs False by (cases gs) (auto simp: eq(1))
    moreover have "distinct (free_slots pm2)" using s2 by (simp add: slots_ok_def)
    moreover have "free_slots pm2 = butlast (free_slots pm2) @ [s]" using gs s1(4) eq by simp
    then obtain fs where "free_slots pm2 = fs @ [s]" by blast
    ultimately have "picked_slot env p s pm pm' pm2 (butlast (free_slots pm2))" using s2 eq(2) by (auto simp: picked_slot_def)
    then show ?thesis by blast
  qed
qed

lemma linked_give:
  "linked n f g \<Longrightarrow> g s < 0 \<Longrightarrow> f p < 0 \<Longrightarrow> s = p \<or> g p = unallocated \<Longrightarrow> s \<ge> 0 \<Longrightarrow> p \<ge> 0 \<Longrightarrow> g s = unassigned \<Longrightarrow>
   linked n (f(p := s)) (g(s := p))"
  using inverse_tables_give [of f g s p] by (auto simp: linked_def no_entries)

lemma linked_give_swap:
  assumes l: "linked n f g" and s: "g s = unassigned" "s \<ge> 0" and p: "f p < 0" "p \<ge> 0" and o: "g p \<ge> 0"
  shows "linked n (f(p := p, g p := s)) (g(p := p, s := g p))"
proof -
  have fo: "f (g p) = p" "g p \<noteq> p" using l o p by (auto simp: linked_def inverse_tables_def)
  then have "g (g p) = unallocated" using l p unfolding linked_def by metis
  moreover have "inverse_tables (f(p := p, g p := s)) (g(p := p, s := g p))"
  proof -
    have i: "inverse_tables f g" using l by (simp add: linked_def)
    have "inverse_tables (f(g p := -1)) (g(p := -1))" using inverse_tables_take [OF i fo(1) p(2) o, of "-1" "-1"] by simp
    from inverse_tables_give [OF this, of p p] have "inverse_tables (f(g p := -1, p := p)) (g(p := p))" using p by simp
    moreover have "s \<noteq> p" using s o by (auto simp: no_entries)
    ultimately show ?thesis
      using inverse_tables_give [of "f(g p := -1, p := p)" "g(p := p)" s "g p"] s p o fo by (simp add: no_entries fun_upd_twist)
  qed
  ultimately show ?thesis using l s p o fo by (auto simp: linked_def no_entries)
qed

text \<open>Everything the allocation for a piece promises.\<close>

definition slot_given :: "('b, 'h) store_env \<Rightarrow> int \<Rightarrow> int \<Rightarrow> 'b piece_manager \<Rightarrow> 'b piece_manager \<Rightarrow> bool" where
  "slot_given env p s pm pm' \<longleftrightarrow> manager_ok env pm' \<and> s = slot_for p pm' \<and> 0 \<le> s \<and> slot_size env p \<le> slot_size env s
    \<and> (\<forall>q. q \<noteq> p \<longrightarrow> stored env pm' q = stored env pm q) \<and> (stored env pm p \<noteq> None \<longrightarrow> stored env pm' p = stored env pm p)
    \<and> (\<forall>q. q \<noteq> p \<longrightarrow> slot_for q pm' \<noteq> s) \<and> piece_hasher pm' = piece_hasher pm"

text \<open>Without a free or unallocated slot every piece is in its own slot, and the tables may be dropped.\<close>

lemma full_in_place:
  assumes ok: "slots_ok env pm" and full: "free_slots pm = []" "unallocated_slots pm = []" and p: "0 \<le> p" "p < num_slots env"
  shows "at (piece_to_slot pm) p = p"
proof -
  have t: "tables_ok env pm" using ok by (simp add: slots_ok_def)
  have none: "at (slot_to_piece pm) q \<noteq> unallocated \<and> at (slot_to_piece pm) q \<noteq> unassigned" for q
    using ok full by (auto simp: slots_ok_def)
  then have g: "at (slot_to_piece pm) p \<ge> 0" using tables_okD(5) [OF t p] by blast
  have "at (piece_to_slot pm) (at (slot_to_piece pm) p) = p" using inverse_tablesD(2) [OF tables_okD(3) [OF t] g] .
  moreover from this have "at (piece_to_slot pm) (at (slot_to_piece pm) p) = at (slot_to_piece pm) p"
    using tables_okD(6) [OF t, of "at (slot_to_piece pm) p"] none p by auto
  ultimately show ?thesis by simp
qed

lemma switch_stored:
  assumes ok: "slots_ok env pm" and c: "storage_mode pm = storage_mode_compact" and full: "free_slots pm = []" "unallocated_slots pm = []"
  shows "stored env (switch_to_full_mode pm) = stored env pm" "manager_ok env (switch_to_full_mode pm)"
    "0 \<le> p \<Longrightarrow> p < num_slots env \<Longrightarrow> slot_for p (switch_to_full_mode pm) = slot_for p pm"
  using full_in_place [OF ok full] c
  by (auto simp: stored_def slot_for_def switch_to_full_mode_def manager_ok_def fun_eq_iff)

lemma stored_other:
  assumes "storage_mode pm' = storage_mode pm" "slot_for q pm' = slot_for q pm" "slot_data pm' (slot_for q pm) = slot_data pm (slot_for q pm)"
  shows "stored env pm' q = stored env pm q"
  using assms by (simp add: stored_def)

lemma allocate_slot_for_piece_ok:
  assumes ok: "manager_ok env pm" and sz: "sizes_ok env" and p: "0 \<le> p" "p < num_slots env"
    and res: "allocate_slot_for_piece env p pm = (s, pm')"
  shows "slot_given env p s pm pm'"
proof (cases "storage_mode pm = storage_mode_compact \<and> at (piece_to_slot pm) p = has_no_slot")
  case False
  then have eq: "pm' = pm" "s = slot_for p pm" using res by (auto simp: allocate_slot_for_piece_def slot_for_def split: if_splits)
  show ?thesis
  proof (cases "storage_mode pm = storage_mode_compact")
    case True
    then have so: "slots_ok env pm" using ok by (simp add: manager_ok_def)
    then have t: "tables_ok env pm" by (simp add: slots_ok_def)
    have s0: "at (piece_to_slot pm) p \<ge> 0" using False True tables_okD(4) [OF t p] by auto
    have "at (piece_to_slot pm) q \<noteq> at (piece_to_slot pm) p" if "q \<noteq> p" for q
      using that inverse_tablesD(1) [OF tables_okD(3) [OF t], of q] inverse_tablesD(1) [OF tables_okD(3) [OF t] s0] s0 by metis
    then show ?thesis using ok eq s0 slots_ok_fits [OF so sz s0] True by (simp add: slot_given_def slot_for_def)
  qed (use ok eq p in \<open>simp add: slot_given_def slot_for_def\<close>)
next
  case True
  then have c: "storage_mode pm = storage_mode_compact" and none: "at (piece_to_slot pm) p = has_no_slot" by auto
  have so: "slots_ok env pm" and ne: "free_slots pm \<noteq> [] \<or> unallocated_slots pm \<noteq> []" using ok c by (auto simp: manager_ok_def)
  obtain slot pm1 where pick: "pick_slot env p pm = (slot, pm1)" by (cases "pick_slot env p pm")
  obtain pm2 fs where ps: "picked_slot env p slot pm pm1 pm2 fs" using pick_slot_ok [OF so sz c ne pick] by blast
  then have pm1: "pm1 = pm2\<lparr>free_slots := fs\<rparr>" and so2: "slots_ok env pm2" and c2: "storage_mode pm2 = storage_mode_compact"
    and st2: "stored env pm2 = stored env pm" and fs: "set fs = set (free_slots pm2) - {slot}" "distinct fs"
    and own: "slot = p \<or> p \<notin> set (free_slots pm2)" and h2: "piece_hasher pm2 = piece_hasher pm"
    and np2: "at (piece_to_slot pm2) p < 0" and sf: "slot \<in> set (free_slots pm2)"
    using none by (auto simp: picked_slot_def no_entries not_le [symmetric])
  let ?f = "at (piece_to_slot pm2)" and ?g = "at (slot_to_piece pm2)"
  have t2: "tables_ok env pm2" using so2 by (simp add: slots_ok_def)
  have gs: "?g slot = unassigned" using sf so2 by (simp add: slots_ok_def)
  have slot: "0 \<le> slot" "slot < num_slots env" using entry_range(2) [OF t2, of slot] gs by (auto simp: no_entries)
  have gp: "slot = p \<or> ?g p \<ge> 0 \<or> ?g p = unallocated" using own so2 tables_okD(5) [OF t2 p] by (auto simp: slots_ok_def)
  have lf: "at (put (piece_to_slot pm2) p v) = ?f(p := v)" for v using p tables_okD(1) [OF t2] by simp
  have lg: "at (put (slot_to_piece pm2) slot v) = ?g(slot := v)" for v using slot tables_okD(2) [OF t2] by simp
  define swap where "swap = (slot \<noteq> p \<and> ?g p \<ge> 0)"
  define o' where "o' = ?g p"
  have o': "swap \<Longrightarrow> o' \<ge> 0 \<and> o' < num_slots env \<and> ?f o' = p \<and> o' \<noteq> p \<and> o' \<noteq> slot"
    using inverse_tablesD(2) [OF tables_okD(3) [OF t2], of p] entry_range(1) [OF t2, of o'] p np2 gs tables_okD(6) [OF t2, of o']
    by (auto simp: swap_def o'_def no_entries)
  define pm3 where "pm3 = (if swap then pm2\<lparr>free_slots := fs, slot_to_piece := put (put (put (slot_to_piece pm2) slot p) p p) slot o',
        piece_to_slot := put (put (put (piece_to_slot pm2) p slot) p p) o' slot, slot_data := move_slot env p slot (slot_data pm2)\<rparr>
      else pm2\<lparr>free_slots := fs, slot_to_piece := put (slot_to_piece pm2) slot p, piece_to_slot := put (piece_to_slot pm2) p slot\<rparr>)"
  have f3: "at (piece_to_slot pm3) = (if swap then ?f(p := p, o' := slot) else ?f(p := slot))"
    using o' p slot tables_okD(1) [OF t2] by (auto simp: pm3_def)
  have g3: "at (slot_to_piece pm3) = (if swap then ?g(p := p, slot := o') else ?g(slot := p))"
    using p slot tables_okD(2) [OF t2] by (auto simp: pm3_def swap_def fun_upd_twist)
  have l3: "linked (num_slots env) (at (piece_to_slot pm3)) (at (slot_to_piece pm3))"
    using linked_give_swap [OF tables_ok_linked [OF t2] gs slot(1) np2 p(1)] o'
      linked_give [OF tables_ok_linked [OF t2] _ np2 _ slot(1) p(1) gs] gp gs
    by (auto simp: f3 g3 o'_def swap_def no_entries)
  have lists3: "free_slots pm3 = fs" "unallocated_slots pm3 = unallocated_slots pm2" "piece_hasher pm3 = piece_hasher pm2"
    "storage_mode pm3 = storage_mode_compact" "length (piece_to_slot pm3) = length (piece_to_slot pm2)"
    "length (slot_to_piece pm3) = length (slot_to_piece pm2)"
    using c2 by (auto simp: pm3_def)
  have so3: "slots_ok env pm3"
    using so2 fs l3 gs p slot o' unfolding slots_ok_def tables_ok_def lists3 g3
    by (auto simp: no_entries o'_def swap_def)
  then have t3: "tables_ok env pm3" by (simp add: slots_ok_def)
  have "(s, pm') = (at (piece_to_slot pm3) p, if free_slots pm3 = [] \<and> unallocated_slots pm3 = [] then switch_to_full_mode pm3 else pm3)"
    using res c none pick lg [of p] o' unfolding f3 swap_def o'_def pm1
    by (cases "slot = p"; cases "?g p \<ge> 0") (auto simp: allocate_slot_for_piece_def pm3_def swap_def o'_def Let_def split: if_splits)
  then have res3: "s = at (piece_to_slot pm3) p" "pm' = (if free_slots pm3 = [] \<and> unallocated_slots pm3 = [] then switch_to_full_mode pm3 else pm3)"
    by auto
  have s0: "s \<ge> 0" using res3(1) f3 p slot o' by auto
  have st3: "stored env pm3 q = stored env pm q" if q: "q \<noteq> p" for q
  proof -
    have "stored env pm3 q = stored env pm2 q"
    proof (cases "swap \<and> q = o'")
      case True
      have "slot_size env o' \<le> slot_size env p" "slot_size env o' \<le> slot_size env slot"
        using slots_ok_fits [OF so2 sz, of o'] slots_ok_fits [OF so3 sz, of o'] o' True p slot by (auto simp: f3)
      then show ?thesis
        using True o' p slot c2 lists3 f3 by (auto simp: stored_def slot_for_def pm3_def move_slot_eq)
    next
      case False
      have "?f q \<noteq> slot" using inverse_tablesD(1) [OF tables_okD(3) [OF t2], of q] gs slot entry_range(1) [OF t2, of q]
        by (auto simp: no_entries)
      then have "slot_data pm3 (?f q) = slot_data pm2 (?f q)" by (auto simp: pm3_def move_slot_eq)
      moreover have "slot_for q pm3 = ?f q" "slot_for q pm2 = ?f q" using False q by (simp_all add: slot_for_def lists3 c2 f3)
      ultimately show ?thesis by (simp add: stored_def)
    qed
    then show ?thesis using st2 by simp
  qed
  have sp: "stored env pm p = None" using c none by (simp add: stored_def slot_for_def no_entries)
  have dist: "at (piece_to_slot pm3) q \<noteq> s" if "q \<noteq> p" for q
    using that inverse_tablesD(1) [OF tables_okD(3) [OF t3], of q] inverse_tablesD(1) [OF tables_okD(3) [OF t3], of p] s0 res3(1) by metis
  have fits: "slot_size env p \<le> slot_size env s" using slots_ok_fits [OF so3 sz, of p] s0 res3(1) by simp
  show ?thesis
  proof (cases "free_slots pm3 = [] \<and> unallocated_slots pm3 = []")
    case True
    note sw = switch_stored [OF so3 lists3(4) conjunct1 [OF True] conjunct2 [OF True]]
    have "slot_for q pm' \<noteq> s" if "q \<noteq> p" for q
      using that res3 True full_in_place [OF so3 conjunct1 [OF True] conjunct2 [OF True] p]
      by (simp add: slot_for_def switch_to_full_mode_def)
    moreover have "s = slot_for p pm'"
      using res3 True full_in_place [OF so3 conjunct1 [OF True] conjunct2 [OF True] p] by (simp add: slot_for_def switch_to_full_mode_def)
    moreover have "piece_hasher pm' = piece_hasher pm" using res3 True lists3 h2 by (simp add: switch_to_full_mode_def)
    ultimately show ?thesis using sw s0 st3 sp fits res3 True by (simp add: slot_given_def)
  next
    case False
    then have "pm' = pm3" using res3(2) by auto
    moreover have "manager_ok env pm3" using so3 False lists3 by (auto simp: manager_ok_def)
    ultimately show ?thesis using s0 st3 sp dist fits res3(1) lists3 h2 by (simp add: slot_given_def slot_for_def)
  qed
qed

section \<open>Writing, reading and giving up a piece\<close>

definition splice :: "int \<Rightarrow> 'b list \<Rightarrow> 'b list \<Rightarrow> 'b list" where
  "splice offset bs xs = take (nat offset) xs @ bs @ drop (nat offset + length bs) xs"

lemma stored_SomeD:
  assumes "stored env pm p = Some xs"
  shows "0 \<le> p" "p < num_slots env" "slot_for p pm \<ge> 0" "xs = map (slot_data pm (slot_for p pm)) [0..slot_size env p - 1]"
    "length xs = nat (slot_size env p)" "0 \<le> i \<Longrightarrow> i < slot_size env p \<Longrightarrow> xs ! nat i = slot_data pm (slot_for p pm) i"
  using assms by (auto simp: stored_def split: if_splits)

lemma storedI: "0 \<le> p \<Longrightarrow> p < num_slots env \<Longrightarrow> slot_for p pm \<ge> 0 \<Longrightarrow> \<exists>xs. stored env pm p = Some xs"
  by (simp add: stored_def)

lemma hash_written_fields [simp]:
  "storage_mode (hash_written p off bs pm) = storage_mode pm" "free_slots (hash_written p off bs pm) = free_slots pm"
  "unallocated_slots (hash_written p off bs pm) = unallocated_slots pm" "piece_to_slot (hash_written p off bs pm) = piece_to_slot pm"
  "slot_to_piece (hash_written p off bs pm) = slot_to_piece pm" "slot_data (hash_written p off bs pm) = slot_data pm"
  by (simp_all add: hash_written_def Let_def split: option.split)

lemma manager_ok_cong:
  "storage_mode pm' = storage_mode pm \<Longrightarrow> free_slots pm' = free_slots pm \<Longrightarrow> unallocated_slots pm' = unallocated_slots pm \<Longrightarrow>
   piece_to_slot pm' = piece_to_slot pm \<Longrightarrow> slot_to_piece pm' = slot_to_piece pm \<Longrightarrow> manager_ok env pm' = manager_ok env pm"
  by (simp add: manager_ok_def slots_ok_def tables_ok_def)

lemma write_impl_ok:
  assumes ok: "manager_ok env pm" and sz: "sizes_ok env" and p: "0 \<le> p" "p < num_slots env"
    and off: "0 \<le> offset" "offset + int (length bs) \<le> slot_size env p"
  shows "manager_ok env (write_impl env p offset bs pm)"
    "q \<noteq> p \<Longrightarrow> stored env (write_impl env p offset bs pm) q = stored env pm q"
    "\<exists>ys. stored env (write_impl env p offset bs pm) p = Some (splice offset bs ys) \<and> length ys = nat (slot_size env p)
       \<and> (stored env pm p \<noteq> None \<longrightarrow> stored env pm p = Some ys)"
proof -
  obtain s pm1 where al: "allocate_slot_for_piece env p pm = (s, pm1)" by (cases "allocate_slot_for_piece env p pm")
  from allocate_slot_for_piece_ok [OF ok sz p al] have g: "manager_ok env pm1" "s = slot_for p pm1" "0 \<le> s" "slot_size env p \<le> slot_size env s"
    "\<And>q. q \<noteq> p \<Longrightarrow> stored env pm1 q = stored env pm q" "stored env pm p \<noteq> None \<Longrightarrow> stored env pm1 p = stored env pm p"
    "\<And>q. q \<noteq> p \<Longrightarrow> slot_for q pm1 \<noteq> s" by (auto simp: slot_given_def)
  define pm2 where "pm2 = write_impl env p offset bs pm"
  have fields: "storage_mode pm2 = storage_mode pm1" "free_slots pm2 = free_slots pm1" "unallocated_slots pm2 = unallocated_slots pm1"
    "piece_to_slot pm2 = piece_to_slot pm1" "slot_to_piece pm2 = slot_to_piece pm1"
    and data: "slot_data pm2 = write_slot env s offset (int (length bs)) (\<lambda>i. bs ! nat i) (slot_data pm1)"
    by (simp_all add: pm2_def write_impl_def al)
  have sl: "slot_for q pm2 = slot_for q pm1" for q by (simp add: slot_for_def fields)
  show "manager_ok env (write_impl env p offset bs pm)" using manager_ok_cong [OF fields, of env] g(1) by (simp add: pm2_def)
  show "stored env (write_impl env p offset bs pm) q = stored env pm q" if "q \<noteq> p"
  proof -
    have "stored env pm2 q = stored env pm1 q" using g(7) [OF that] by (simp add: stored_def sl data write_slot_def)
    then show ?thesis using g(5) [OF that] by (simp add: pm2_def)
  qed
  obtain ys where ys: "stored env pm1 p = Some ys" using storedI [OF p, of pm1] g(2,3) by auto
  note Y = stored_SomeD [OF ys]
  have "stored env pm2 p = Some (splice offset bs ys)"
  proof -
    have "map (slot_data pm2 (slot_for p pm2)) [0..slot_size env p - 1] = splice offset bs ys"
    proof (rule nth_equalityI)
      show len: "length (map (slot_data pm2 (slot_for p pm2)) [0..slot_size env p - 1]) = length (splice offset bs ys)"
        using off Y(5) by (simp add: splice_def)
      fix i assume "i < length (map (slot_data pm2 (slot_for p pm2)) [0..slot_size env p - 1])"
      then have i: "int i < slot_size env p" by simp
      then have "i < length ys" using Y(5) by simp
      moreover have "slot_data pm2 s (int i) = (if offset \<le> int i \<and> int i < offset + int (length bs) then bs ! nat (int i - offset) else ys ! i)"
        using i g(2,4) off Y(6) [of "int i"] by (simp add: data write_slot_def)
      ultimately show "map (slot_data pm2 (slot_for p pm2)) [0..slot_size env p - 1] ! i = splice offset bs ys ! i"
        using i off g(2) by (auto simp: splice_def nth_append sl min_def nat_diff_distrib')
    qed
    then show ?thesis using p g(2,3) by (simp add: stored_def sl)
  qed
  then show "\<exists>ys. stored env (write_impl env p offset bs pm) p = Some (splice offset bs ys) \<and> length ys = nat (slot_size env p)
       \<and> (stored env pm p \<noteq> None \<longrightarrow> stored env pm p = Some ys)"
    using ys Y(5) g(6) by (auto simp flip: pm2_def)
qed

lemma read_impl_stored:
  assumes ok: "manager_ok env pm" and sz: "sizes_ok env" and st: "stored env pm p = Some xs"
    and off: "0 \<le> offset" "offset + int n \<le> slot_size env p"
  shows "read_impl env p offset n pm = take n (drop (nat offset) xs)"
proof -
  note X = stored_SomeD [OF st]
  have fit: "slot_size env p \<le> slot_size env (slot_for p pm)"
  proof (cases "storage_mode pm = storage_mode_compact")
    case True
    then have "slots_ok env pm" using ok by (simp add: manager_ok_def)
    from slots_ok_fits [OF this sz, of p] show ?thesis using X(3) True by (simp add: slot_for_def)
  qed (simp add: slot_for_def)
  show ?thesis
  proof (rule nth_equalityI)
    show len: "length (read_impl env p offset n pm) = length (take n (drop (nat offset) xs))"
      using off X(5) by (simp add: read_impl_def)
    fix i assume "i < length (read_impl env p offset n pm)"
    then have i: "i < n" by (simp add: read_impl_def)
    then show "read_impl env p offset n pm ! i = take n (drop (nat offset) xs) ! i"
      using off X(5) X(6) [of "offset + int i"] fit by (simp add: read_impl_def nat_add_distrib)
  qed
qed

lemma mark_failed_ok:
  assumes ok: "manager_ok env pm" and p: "slot_for p pm \<ge> 0"
  shows "manager_ok env (mark_failed p pm)" "q \<noteq> p \<Longrightarrow> stored env (mark_failed p pm) q = stored env pm q"
    "storage_mode pm = storage_mode_compact \<Longrightarrow> stored env (mark_failed p pm) p = None"
proof -
  have "manager_ok env (mark_failed p pm) \<and> (q \<noteq> p \<longrightarrow> stored env (mark_failed p pm) q = stored env pm q)
      \<and> stored env (mark_failed p pm) p = None" if c: "storage_mode pm = storage_mode_compact"
  proof -
    have so: "slots_ok env pm" using ok c by (simp add: manager_ok_def)
    then have t: "tables_ok env pm" by (simp add: slots_ok_def)
    define s where "s = at (piece_to_slot pm) p"
    have s0: "s \<ge> 0" using p c by (simp add: s_def slot_for_def)
    have gs: "at (slot_to_piece pm) s = p" using inverse_tablesD(1) [OF tables_okD(3) [OF t], of p] s0 by (simp add: s_def)
    have pr: "0 \<le> p" "p < num_slots env" using entry_range(1) [OF t, of p] s0 by (auto simp: s_def)
    have sr: "s < num_slots env" using entry_range(2) [OF t, of s] gs pr by auto
    have f': "at (put (piece_to_slot pm) p has_no_slot) = (at (piece_to_slot pm))(p := has_no_slot)" using pr tables_okD(1) [OF t] by simp
    have g': "at (put (slot_to_piece pm) s unassigned) = (at (slot_to_piece pm))(s := unassigned)" using s0 sr tables_okD(2) [OF t] by simp
    have inv: "inverse_tables ((at (piece_to_slot pm))(p := has_no_slot)) ((at (slot_to_piece pm))(s := unassigned))"
      using inverse_tables_take [OF tables_okD(3) [OF t] _ s0 pr(1)] by (simp add: s_def no_entries)
    have "at (piece_to_slot pm) q \<noteq> s" if "q \<noteq> p" for q
      using that inverse_tablesD(1) [OF tables_okD(3) [OF t], of q] gs s0 by auto
    moreover have "at (piece_to_slot pm) s = s" if "at (piece_to_slot pm) s \<ge> 0"
      using tables_okD(6) [OF t that] gs pr by (auto simp: no_entries)
    ultimately have "linked (num_slots env) ((at (piece_to_slot pm))(p := has_no_slot)) ((at (slot_to_piece pm))(s := unassigned))"
      using tables_ok_linked [OF t] inv by (auto simp: linked_def no_entries)
    then have t': "tables_ok env (mark_failed p pm)"
      using t by (simp add: tables_ok_def mark_failed_def c Let_def f' g' flip: s_def)
    have "s \<notin> set (free_slots pm)" "set (free_slots pm @ [s]) = {x. ((at (slot_to_piece pm))(s := unassigned)) x = unassigned}"
      "set (unallocated_slots pm) = {x. ((at (slot_to_piece pm))(s := unassigned)) x = unallocated}"
      using so gs pr by (auto simp: slots_ok_def no_entries)
    then have "slots_ok env (mark_failed p pm)"
      using so t' by (simp add: slots_ok_def mark_failed_def c Let_def g' flip: s_def)
    moreover have "storage_mode (mark_failed p pm) = storage_mode_compact" "free_slots (mark_failed p pm) \<noteq> []"
      "slot_data (mark_failed p pm) = slot_data pm" "slot_for x (mark_failed p pm) = (if x = p then has_no_slot else slot_for x pm)" for x
      using c by (simp_all add: mark_failed_def Let_def slot_for_def f')
    ultimately show ?thesis by (simp add: manager_ok_def stored_def has_no_slot_def)
  qed
  then show "manager_ok env (mark_failed p pm)" "q \<noteq> p \<Longrightarrow> stored env (mark_failed p pm) q = stored env pm q"
    "storage_mode pm = storage_mode_compact \<Longrightarrow> stored env (mark_failed p pm) p = None"
    using ok by (auto simp: mark_failed_def)
qed

end
