(* ===== verification/Slot_Checked.thy ===== *)
theory Slot_Checked
  imports Slot_Check Slot_Invariant
begin

text \<open>
  What the check of the files achieves: the tables stay inverse to each other, and the data of every
  piece that has a slot has the hash of the piece, through all the moves. The hashes of the torrent are
  assumed to be free of collisions and different from the hash object without a value.
\<close>

definition hashes_ok :: "('b, 'h) store_env \<Rightarrow> bool" where
  "hashes_ok env \<longleftrightarrow> (\<forall>p. 0 \<le> p \<and> p < num_slots env \<longrightarrow>
     piece_hash env p \<noteq> no_hash env
     \<and> (\<forall>xs. hash_of env xs = piece_hash env p \<longrightarrow> int (length xs) = slot_size env p)
     \<and> (\<forall>xs ys. hash_of env xs = piece_hash env p \<longrightarrow> hash_of env ys = piece_hash env p \<longrightarrow> xs = ys))"

section \<open>The invariant of the check\<close>

definition good :: "('b, 'h) store_env \<Rightarrow> (int \<Rightarrow> int \<Rightarrow> 'b) \<Rightarrow> int \<Rightarrow> int \<Rightarrow> bool" where
  "good env d p s \<longleftrightarrow> slot_hash env s (slot_size env p) d = piece_hash env p \<and> slot_size env p \<le> slot_size env s"

definition all_good :: "('b, 'h) store_env \<Rightarrow> (int \<Rightarrow> int) \<Rightarrow> (int \<Rightarrow> int \<Rightarrow> 'b) \<Rightarrow> bool" where
  "all_good env f d \<longleftrightarrow> (\<forall>p. f p \<ge> 0 \<longrightarrow> good env d p (f p))"

text \<open>
  No piece without a slot comes before a piece with the same hash that has one, as far as the slots of
  the latter are still to be checked: that is why a piece is never given to a slot after its own slot was
  found to hold something else.
\<close>

definition in_order :: "('b, 'h) store_env \<Rightarrow> (int \<Rightarrow> int) \<Rightarrow> int \<Rightarrow> bool" where
  "in_order env f c \<longleftrightarrow> (\<forall>p q. 0 \<le> p \<longrightarrow> p < q \<longrightarrow> c \<le> q \<longrightarrow> f p < 0 \<longrightarrow> f q \<ge> 0 \<longrightarrow> piece_hash env p \<noteq> piece_hash env q)"

definition placing :: "('b, 'h) store_env \<Rightarrow> int \<Rightarrow> (int \<Rightarrow> int) \<Rightarrow> (int \<Rightarrow> int) \<Rightarrow> (int \<Rightarrow> int \<Rightarrow> 'b) \<Rightarrow> bool" where
  "placing env c f g d \<longleftrightarrow> linked (num_slots env) f g \<and> (\<forall>s. c \<le> s \<and> s < num_slots env \<longrightarrow> g s = unallocated) \<and> all_good env f d"

definition check_ok :: "('b, 'h) store_env \<Rightarrow> int \<Rightarrow> 'b piece_manager \<Rightarrow> bool" where
  "check_ok env c pm \<longleftrightarrow> tables_ok env pm \<and> 0 \<le> c \<and> scratch_piece pm < 0
     \<and> placing env c (at (piece_to_slot pm)) (at (slot_to_piece pm)) (slot_data pm) \<and> in_order env (at (piece_to_slot pm)) c"

lemma check_ok_later: "check_ok env c pm \<Longrightarrow> c \<le> c' \<Longrightarrow> check_ok env c' pm"
  by (auto simp: check_ok_def placing_def in_order_def)

section \<open>The piece that is found\<close>

lemma find_sorted_least: "sorted xs \<Longrightarrow> List.find P xs = Some q \<Longrightarrow> p \<in> set xs \<Longrightarrow> P p \<Longrightarrow> q \<le> (p :: int)"
  by (induction xs) (auto split: if_splits)

lemma find_append: "List.find P (xs @ ys) = (case List.find P xs of Some x \<Rightarrow> Some x | None \<Rightarrow> List.find P ys)"
  by (induction xs) auto

lemma find_SomeD: "List.find P xs = Some x \<Longrightarrow> x \<in> set xs \<and> P x"
  by (auto simp: find_Some_iff)

lemma find_two_least:
  assumes "List.find P (filter A [l..m] @ filter B [l..m]) = Some q" "p < q" "l \<le> p" "A p = A q" "B p = B q"
  shows "\<not> P (p :: int)"
proof
  assume P: "P p"
  have mem: "p \<in> set (filter A [l..m]) = A q" "p \<in> set (filter B [l..m]) = B q"
    using assms find_SomeD [OF assms(1)] by auto
  have s: "sorted (filter A [l..m])" "sorted (filter B [l..m])" by (simp_all add: sorted_wrt_filter)
  show False
  proof (cases "List.find P (filter A [l..m])")
    case (Some q')
    then have "q' = q" using assms(1) by (simp add: find_append)
    moreover have "A q'" using find_SomeD [OF Some] by auto
    ultimately show False using find_sorted_least [OF s(1) Some _ P] mem assms(2) by simp
  next
    case None
    then have f: "List.find P (filter B [l..m]) = Some q" using assms(1) by (simp add: find_append)
    have "B q" using find_SomeD [OF f] by auto
    then show False using find_sorted_least [OF s(2) f _ P] mem assms(2) by simp
  qed
qed

definition found_here :: "('b, 'h) store_env \<Rightarrow> int \<Rightarrow> (int \<Rightarrow> int \<Rightarrow> 'b) \<Rightarrow> (int \<Rightarrow> int) \<Rightarrow> int \<Rightarrow> bool" where
  "found_here env c d f piece \<longleftrightarrow>
     piece = unassigned \<or> 0 \<le> piece \<and> piece < num_slots env \<and> f piece = has_no_slot \<and> good env d piece c"

lemma matching_good:
  assumes sz: "sizes_ok env" and h: "hashes_ok env"
    and small: "small = (if slot_size env c = slot_size env (last_slot env) then no_hash env else slot_hash env c (slot_size env (last_slot env)) d)"
    and large: "large = slot_hash env c (slot_size env c) d" and p: "p \<in> set (matching_pieces env large small)"
  shows "0 \<le> p \<and> p < num_slots env \<and> good env d p c"
proof -
  have pr: "0 \<le> p" "p < num_slots env" and "piece_hash env p = small \<or> piece_hash env p = large"
    using p by (auto simp: matching_pieces_def pieces_of_def last_slot_def num_slots_def)
  have len: "hash_of env xs = piece_hash env p \<Longrightarrow> int (length xs) = slot_size env p" for xs using h pr by (auto simp: hashes_ok_def)
  have pos: "slot_size env q > 0" for q using sz slot_size_cases [of env q] by (auto simp: sizes_ok_def)
  show ?thesis
  proof (cases "piece_hash env p = large")
    case True
    then show ?thesis using len [of "map (d c) [0..slot_size env c - 1]"] pos [of c] pr by (simp add: good_def large slot_hash_def)
  next
    case False
    then have "piece_hash env p = small" using \<open>piece_hash env p = small \<or> piece_hash env p = large\<close> by simp
    moreover have "slot_size env c \<noteq> slot_size env (last_slot env)" using calculation small h pr by (auto simp: hashes_ok_def)
    ultimately show ?thesis
      using len [of "map (d c) [0..slot_size env (last_slot env) - 1]"] pos [of "last_slot env"] pr small
        slot_size_cases [of env c] sz by (simp add: good_def slot_hash_def sizes_ok_def split: if_splits)
  qed
qed

text \<open>The order after the next step, when the piece that is found gets a slot.\<close>

definition order_with :: "('b, 'h) store_env \<Rightarrow> (int \<Rightarrow> int) \<Rightarrow> int \<Rightarrow> int \<Rightarrow> bool" where
  "order_with env f c piece \<longleftrightarrow> (\<forall>p q. 0 \<le> p \<longrightarrow> p < q \<longrightarrow> c < q \<longrightarrow> f p < 0 \<longrightarrow> f q \<ge> 0 \<or> q = piece \<longrightarrow>
     p \<noteq> c \<or> piece \<noteq> c \<longrightarrow> piece_hash env p \<noteq> piece_hash env q)"

text \<open>Two slots with the same piece have the same bytes, and so the same other pieces.\<close>

lemma good_move:
  assumes h: "hashes_ok env" and c: "0 \<le> c" "c < num_slots env" and cs: "good env d c c \<and> good env d c s" and q: "good env d q c"
  shows "good env d q s"
proof -
  have "map (d c) [0..slot_size env c - 1] = map (d s) [0..slot_size env c - 1]"
  proof -
    have "hash_of env (map (d c) [0..slot_size env c - 1]) = piece_hash env c" "hash_of env (map (d s) [0..slot_size env c - 1]) = piece_hash env c"
      using cs by (simp_all add: good_def slot_hash_def)
    then show ?thesis using h c unfolding hashes_ok_def by blast
  qed
  then have "\<forall>i \<in> {0..slot_size env c - 1}. d c i = d s i" by simp
  then have "map (d c) [0..slot_size env q - 1] = map (d s) [0..slot_size env q - 1]" using q by (auto simp: good_def)
  then show ?thesis using q cs unfolding good_def slot_hash_def by (metis order_trans)
qed

text \<open>What \<open>identify_data\<close> changes and returns.\<close>

definition identified :: "('b, 'h) store_env \<Rightarrow> 'b piece_manager \<Rightarrow> int \<Rightarrow> 'b piece_manager \<Rightarrow> bool" where
  "identified env pm piece pm' \<longleftrightarrow> tables_ok env pm' \<and> current_slot pm' = current_slot pm \<and> slot_data pm' = slot_data pm
     \<and> scratch_piece pm' = scratch_piece pm \<and> storage_mode pm' = storage_mode pm \<and> manager_state pm' = manager_state pm
     \<and> placing env (current_slot pm) (at (piece_to_slot pm')) (at (slot_to_piece pm')) (slot_data pm)
     \<and> found_here env (current_slot pm) (slot_data pm) (at (piece_to_slot pm')) piece
     \<and> order_with env (at (piece_to_slot pm')) (current_slot pm) piece
     \<and> (\<forall>p. at (piece_to_slot pm) p \<ge> 0 \<longrightarrow> at (piece_to_slot pm') p \<ge> 0 \<or> p = piece)"

lemma order_free:
  assumes "in_order env f c" "List.find (\<lambda>i. \<not> f i \<ge> 0) (matching_pieces env large small) = Some piece" "c \<notin> set (matching_pieces env large small)"
  shows "order_with env f c piece"
  using assms(1) find_two_least [OF assms(2) [unfolded matching_pieces_def pieces_of_def]]
  by (fastforce simp: order_with_def in_order_def)

lemma hash_same_match: "piece_hash env p = piece_hash env q \<Longrightarrow> q \<in> set (matching_pieces env large small) \<Longrightarrow> 0 \<le> p \<Longrightarrow> p \<le> last_slot env \<Longrightarrow>
  p \<in> set (matching_pieces env large small)"
  by (auto simp: matching_pieces_def pieces_of_def)

lemma in_order_with: "in_order env f c \<Longrightarrow> piece = unassigned \<or> piece = c \<Longrightarrow> c \<ge> 0 \<Longrightarrow> order_with env f c piece"
  by (auto simp: order_with_def in_order_def no_entries)

lemma identify_data_ok:
  assumes ok: "check_ok env (current_slot pm) pm" and c: "current_slot pm < num_slots env" and sz: "sizes_ok env" and h: "hashes_ok env"
    and small: "small = (if slot_size env (current_slot pm) = slot_size env (last_slot env) then no_hash env
      else slot_hash env (current_slot pm) (slot_size env (last_slot env)) (slot_data pm))"
    and large: "large = slot_hash env (current_slot pm) (slot_size env (current_slot pm)) (slot_data pm)"
    and res: "identify_data env large small pm = (piece, pm')"
  shows "identified env pm piece pm'"
proof -
  let ?f = "at (piece_to_slot pm)" and ?g = "at (slot_to_piece pm)" and ?c = "current_slot pm" and ?M = "matching_pieces env large small"
  have t: "tables_ok env pm" and c0: "0 \<le> ?c" and pl: "placing env ?c ?f ?g (slot_data pm)" and ord: "in_order env ?f ?c"
    using ok by (auto simp: check_ok_def)
  note M = matching_good [OF sz h small large]
  show ?thesis
  proof (cases "?c \<in> set ?M")
    case False
    show ?thesis
    proof (cases "List.find (\<lambda>i. \<not> ?f i \<ge> 0) ?M")
      case None
      then have "piece = unassigned" "pm' = pm" using res False by (auto simp: identify_data_def Let_def split: if_splits)
      then show ?thesis using t pl in_order_with [OF ord _ c0] by (simp add: identified_def found_here_def)
    next
      case (Some q)
      then have q: "q \<in> set ?M" "?f q < 0" using find_SomeD [OF Some] by auto
      then have "?M \<noteq> []" by auto
      then have eq: "piece = q" "pm' = pm" using res False Some by (auto simp: identify_data_def Let_def)
      have "?f q = has_no_slot" using tables_okD(4) [OF t, of q] M [OF q(1)] q(2) by auto
      then show ?thesis using t pl M [OF q(1)] order_free [OF ord Some False] by (simp add: identified_def found_here_def eq)
    qed
  next
    case True
    then have ne: "?M \<noteq> []" by auto
    have gc: "?g ?c = unallocated" using pl c by (auto simp: placing_def)
    show ?thesis
    proof (cases "?f ?c \<ge> 0")
      case False
      then have eq: "piece = ?c" "pm' = pm" using res True ne by (auto simp: identify_data_def Let_def)
      have "?f ?c = has_no_slot" using tables_okD(4) [OF t c0 c] False by auto
      then show ?thesis using t pl M [OF True] in_order_with [OF ord _ c0] by (simp add: identified_def found_here_def eq)
    next
      case os: True
      define s where "s = ?f ?c"
      have s: "0 \<le> s" "?g s = ?c" using os inverse_tablesD(1) [OF tables_okD(3) [OF t] os] by (simp_all add: s_def)
      have sc: "s < ?c" 
      proof (rule ccontr)
        assume "\<not> s < ?c"
        then have "?g s = unallocated" using pl entry_range(2) [OF t, of s] s c0 by (simp add: placing_def)
        then show False using s c0 by (simp add: no_entries)
      qed
      have sr: "s < num_slots env" using sc c by simp
      have f0: "at (put (piece_to_slot pm) ?c v) = ?f(?c := v)" for v using c0 c tables_okD(1) [OF t] by simp
      have g0: "at (put (slot_to_piece pm) s v) = ?g(s := v)" for v using s sr tables_okD(2) [OF t] by simp
      have taken: "placing env ?c (?f(?c := has_no_slot)) (?g(s := unassigned)) (slot_data pm)"
      proof -
        have "inverse_tables (?f(?c := has_no_slot)) (?g(s := unassigned))"
          using inverse_tables_take [OF tables_okD(3) [OF t] _ s(1) c0] by (simp add: s_def no_entries)
        moreover have "?f p \<noteq> s" if "p \<noteq> ?c" for p using that inverse_tablesD(1) [OF tables_okD(3) [OF t], of p] s by auto
        ultimately show ?thesis
          using pl s sc by (auto simp: placing_def linked_def all_good_def no_entries)
      qed
      show ?thesis
      proof (cases "List.find (\<lambda>i. \<not> (?f i \<ge> 0 \<or> i = ?c)) ?M")
        case None
        define fr where "fr = (if storage_mode pm = storage_mode_compact then free_slots pm @ [s] else free_slots pm)"
        have eq: "piece = ?c" "pm' = pm\<lparr>slot_to_piece := put (slot_to_piece pm) s unassigned, free_slots := fr, piece_to_slot := put (piece_to_slot pm) ?c has_no_slot\<rparr>"
          using res True ne os None by (auto simp: identify_data_def Let_def s_def fr_def)
        have "order_with env (?f(?c := has_no_slot)) ?c piece" using ord by (auto simp: order_with_def in_order_def eq(1) no_entries)
        then show ?thesis using t taken M [OF True] by (auto simp: identified_def found_here_def eq tables_ok_def f0 g0 placing_def)
      next
        case (Some q)
        then have q: "q \<in> set ?M" "?f q < 0" "q \<noteq> ?c" using find_SomeD [OF Some] by auto
        note Q = M [OF q(1)]
        have eq: "piece = ?c" "pm' = pm\<lparr>slot_to_piece := put (slot_to_piece pm) s q, piece_to_slot := put (put (piece_to_slot pm) q s) ?c has_no_slot\<rparr>"
          using res True ne os Some by (auto simp: identify_data_def Let_def s_def)
        have gq: "good env (slot_data pm) q s" using good_move [OF h _ _ _ Q [THEN conjunct2, THEN conjunct2]] pl c c0 M [OF True] os by (simp add: placing_def all_good_def s_def)
        have qc: "?c < q"
        proof (rule ccontr)
          assume "\<not> ?c < q"
          then have lt: "q < ?c" using q(3) by simp
          then have "slot_size env q = m_piece_length (st_files env)" using c slot_size_cases [of env q] by (simp add: last_slot_def num_slots_def split: if_splits)
          then have "slot_size env q = slot_size env ?c" using Q slot_size_le [OF sz, of ?c] by (simp add: good_def)
          then have "piece_hash env q = piece_hash env ?c" using Q M [OF True] by (simp add: good_def)
          then show False using ord lt q(2) os Q by (auto simp: in_order_def)
        qed
        have least: "piece_hash env p \<noteq> piece_hash env q" if "0 \<le> p" "p < q" "?f p < 0" "p \<noteq> ?c" for p
        proof
          assume "piece_hash env p = piece_hash env q"
          with find_two_least [OF Some [unfolded matching_pieces_def pieces_of_def] that(2,1)] that(3,4) show False by simp
        qed
        have "order_with env (?f(q := s, ?c := has_no_slot)) ?c piece"
          using ord least s(1) qc by (auto simp: order_with_def in_order_def eq(1) no_entries)
        moreover have "placing env ?c (?f(q := s, ?c := has_no_slot)) (?g(s := q)) (slot_data pm)"
        proof -
          have tw: "?f(q := s, ?c := has_no_slot) = ?f(?c := has_no_slot, q := s)" using q(3) by (simp add: fun_upd_twist)
          have "?g q = unallocated" "q \<noteq> s" using pl qc sc Q by (simp_all add: placing_def)
          then have "linked (num_slots env) (?f(?c := has_no_slot, q := s)) (?g(s := unassigned, s := q))"
            using taken q s(1) Q by (intro linked_give) (simp_all add: placing_def no_entries)
          then have "linked (num_slots env) (?f(q := s, ?c := has_no_slot)) (?g(s := q))" by (simp add: tw)
          moreover have "all_good env (?f(q := s, ?c := has_no_slot)) (slot_data pm)"
            using pl gq by (auto simp: placing_def all_good_def no_entries)
          moreover have "\<forall>x. ?c \<le> x \<and> x < num_slots env \<longrightarrow> (?g(s := q)) x = unallocated" using pl sc by (auto simp: placing_def)
          ultimately show ?thesis by (simp add: placing_def)
        qed
        moreover have "at (piece_to_slot pm') = ?f(q := s, ?c := has_no_slot)" using Q tables_okD(1) [OF t] c0 c by (simp add: eq)
        ultimately show ?thesis using t M [OF True] s Q by (auto simp: identified_def found_here_def eq tables_ok_def g0 placing_def no_entries)
      qed
    qed
  qed
qed

section \<open>Moves\<close>

definition copied :: "('b, 'h) store_env \<Rightarrow> int \<Rightarrow> (int \<Rightarrow> int \<Rightarrow> 'b) \<Rightarrow> int \<Rightarrow> int \<Rightarrow> 'b" where
  "copied env src d dst = (\<lambda>i. if 0 \<le> i \<and> i < slot_size env dst then (if i < slot_size env src then d src i else stale env i) else d dst i)"

lemma moves_eq:
  "move_slot env a b d = d(b := copied env a d b)"
  "a \<noteq> b \<Longrightarrow> swap_slots env a b d = d(b := copied env a d b, a := copied env b d a)"
  "a \<noteq> b \<Longrightarrow> b \<noteq> c \<Longrightarrow> a \<noteq> c \<Longrightarrow>
   snd (swap_slots3 env a b c d) = d(b := copied env a d b, c := copied env b d c, a := copied env c d a)"
  by (auto simp: move_slot_def swap_slots_def swap_slots3_def write_slot_def read_slot_def copied_def Let_def fun_eq_iff)

lemma good_copied:
  assumes "good env d p src" "slot_size env p \<le> slot_size env dst" "d' dst = copied env src d dst"
  shows "good env d' p dst"
proof -
  have "map (d' dst) [0..slot_size env p - 1] = map (d src) [0..slot_size env p - 1]"
    using assms by (auto simp: copied_def good_def)
  then show ?thesis using assms(1,2) unfolding good_def slot_hash_def by metis
qed

lemma good_same: "good env d p s \<Longrightarrow> d' s = d s \<Longrightarrow> good env d' p s"
  by (simp add: good_def slot_hash_def)

section \<open>The four cases\<close>

lemma linked_entries:
  assumes "linked n f g"
  shows "f p = s \<Longrightarrow> p \<ge> 0 \<Longrightarrow> s \<ge> 0 \<Longrightarrow> g s = p" "g s = p \<Longrightarrow> p \<ge> 0 \<Longrightarrow> s \<ge> 0 \<Longrightarrow> f p = s"
    "f p \<ge> 0 \<Longrightarrow> f p = p \<or> g p = unallocated"
  using assms by (auto simp: linked_def inverse_tables_def)

lemma linkedI:
  assumes "inverse_tables f g" "\<And>p. 0 \<le> p \<Longrightarrow> p < n \<Longrightarrow> f p \<ge> 0 \<or> f p = has_no_slot"
    "\<And>s. 0 \<le> s \<Longrightarrow> s < n \<Longrightarrow> g s \<ge> 0 \<or> g s = unallocated \<or> g s = unassigned" "\<And>p. f p \<ge> 0 \<Longrightarrow> f p = p \<or> g p = unallocated"
  shows "linked n f g"
  using assms by (simp add: linked_def)

text \<open>A piece that leaves its slot, and one that is put where it belongs.\<close>

lemma inverse_tables_leave:
  "inverse_tables f g \<Longrightarrow> g s = p \<Longrightarrow> s \<ge> 0 \<Longrightarrow> p \<ge> 0 \<Longrightarrow> inverse_tables (f(p := -1)) (g(s := -1))"
  using inverse_tables_take [of f g p s "-1" "-1"] by (simp add: inverse_tables_def)

lemma linked_this:
  assumes l: "linked n f g" and c: "f c = has_no_slot" "g c = unallocated" "0 \<le> c" "c < n"
    and p: "f p = has_no_slot" "g p \<noteq> unallocated" "0 \<le> p" "p < n" and o: "o' = g p"
  shows "linked n (if o' \<ge> 0 then f(p := p, o' := c) else f(p := p)) (g(p := p, c := o'))"
proof -
  have pc: "p \<noteq> c" using c p by auto
  have i: "inverse_tables f g" using l by (simp add: linked_def)
  have g: "g p \<ge> 0 \<or> g p = unassigned" using l p by (auto simp: linked_def)
  show ?thesis
  proof (cases "o' \<ge> 0")
    case False
    then have gp: "g p = unassigned" using g o by auto
    have "inverse_tables (f(p := p)) (g(p := p))" using inverse_tables_give [OF i, of p p] p gp by (simp add: no_entries)
    from inverse_tables_mark [OF this, of c unassigned] have "inverse_tables (f(p := p)) (g(p := p, c := unassigned))"
      using c pc by (simp add: no_entries)
    moreover have "f q = q \<or> (g(p := p, c := unassigned)) q = unallocated" if "q \<noteq> p" "f q \<ge> 0" for q
      using linked_entries(3) [OF l that(2)] that linked_entries(1) [OF l refl, of q] c p by (auto simp: no_entries)
    ultimately show ?thesis using False o gp l p by (auto simp: linked_def no_entries)
  next
    case True
    have fo: "f o' = p" using linked_entries(2) [OF l o [symmetric]] True p by simp
    have on: "o' \<noteq> p" "o' \<noteq> c" using fo p c by (auto simp: no_entries)
    have go: "g o' = unallocated" using linked_entries(3) [OF l, of o'] fo on p by auto
    have "inverse_tables (f(o' := -1)) (g(p := -1))" using inverse_tables_leave [OF i o [symmetric]] True p by simp
    from inverse_tables_give [OF this, of p p] have "inverse_tables (f(o' := -1, p := p)) (g(p := p))" using p by (simp add: no_entries)
    from inverse_tables_give [OF this, of c o'] have "inverse_tables (f(p := p, o' := c)) (g(p := p, c := o'))"
      using c pc on by (simp add: no_entries fun_upd_twist)
    moreover have "(f(p := p, o' := c)) q = q \<or> (g(p := p, c := o')) q = unallocated" if "(f(p := p, o' := c)) q \<ge> 0" for q
      using that linked_entries(3) [OF l, of q] go on pc c p by (cases "q = o'") (auto simp: no_entries)
    ultimately show ?thesis using True l p c by (auto simp: linked_def)
  qed
qed

lemma linked_other:
  assumes l: "linked n f g" and c: "f c = s" "s \<ge> 0" "g c = unallocated" "0 \<le> c" "c < n"
    and p: "p = unassigned \<or> 0 \<le> p \<and> p < n \<and> f p = has_no_slot \<and> g p = unallocated"
  shows "linked n (if p \<ge> 0 then f(c := c, p := s) else f(c := c)) (g(c := c, s := p))"
proof -
  have i: "inverse_tables f g" using l by (simp add: linked_def)
  have gs: "g s = c" using linked_entries(1) [OF l c(1)] c by simp
  have sc: "s \<noteq> c" using gs c by (auto simp: no_entries)
  have mv: "inverse_tables (f(c := c)) (g(c := c, s := unassigned))"
    using inverse_tables_move [OF i, of c c unassigned] c by (simp add: no_entries)
  have own: "f q = q \<or> (g(c := c, s := p)) q = unallocated" if "q \<noteq> c" "f q \<ge> 0" for q
    using linked_entries(3) [OF l that(2)] gs c that by (auto simp: no_entries)
  show ?thesis
  proof (cases "p \<ge> 0")
    case False
    then show ?thesis using p mv own l c by (auto simp: linked_def no_entries)
  next
    case True
    have pn: "p \<noteq> c" "p \<noteq> s" using True p c gs by (auto simp: no_entries)
    have "inverse_tables (f(c := c, p := s)) (g(c := c, s := p))"
      using inverse_tables_give [OF mv, of s p] True p pn by (simp add: no_entries)
    then show ?thesis using True p own l c pn by (auto simp: linked_def no_entries)
  qed
qed

lemma linked_both:
  assumes l: "linked n f g" and c: "f c = s" "s \<ge> 0" "g c = unallocated" "0 \<le> c" "c < n"
    and p: "f p = has_no_slot" "g p \<noteq> unallocated" "0 \<le> p" "p < n" and o: "o' = g p" and ps: "p \<noteq> s"
  shows "linked n (if o' \<ge> 0 then f(p := p, c := c, o' := s) else f(p := p, c := c)) (g(p := p, s := o', c := c))"
proof -
  have gs: "g s = c" using linked_entries(1) [OF l c(1)] c by simp
  have sc: "s \<noteq> c" using gs c by (auto simp: no_entries)
  have pc: "p \<noteq> c" using p c by auto
  have "linked n (f(c := c)) (g(c := c, s := unassigned))"
    using linked_other [OF l c, of unassigned] by (simp add: no_entries)
  have i: "inverse_tables (f(c := c)) (g(c := c, s := unassigned))"
    using \<open>linked n (f(c := c)) _\<close> by (simp add: linked_def)
  have g: "g p \<ge> 0 \<or> g p = unassigned" using l p by (auto simp: linked_def)
  show ?thesis
  proof (cases "o' \<ge> 0")
    case False
    then have gp: "o' = unassigned" using g o by auto
    have "inverse_tables (f(c := c, p := p)) (g(c := c, s := unassigned, p := p))"
      using inverse_tables_give [OF i, of p p] p gp o ps pc by (simp add: no_entries)
    then have "inverse_tables (f(p := p, c := c)) (g(p := p, s := unassigned, c := c))"
      using ps pc sc by (simp add: fun_upd_twist)
    moreover have "f q = q \<or> (g(p := p, s := unassigned, c := c)) q = unallocated" if "q \<noteq> p" "q \<noteq> c" "f q \<ge> 0" for q
      using linked_entries(3) [OF l that(3)] that gs c by (auto simp: no_entries)
    ultimately show ?thesis using False gp l p c by (auto simp: linked_def no_entries)
  next
    case True
    have fo: "f o' = p" using linked_entries(2) [OF l o [symmetric]] True p by simp
    have on: "o' \<noteq> p" "o' \<noteq> c" using fo p c ps by (auto simp: no_entries)
    have go: "g o' = unallocated" using linked_entries(3) [OF l, of o'] fo on p by auto
    have os: "o' \<noteq> s" using go gs c by (auto simp: no_entries)
    have "inverse_tables (f(c := c, o' := -1)) (g(c := c, s := unassigned, p := -1))"
      using inverse_tables_leave [OF i, of p o'] o True p ps pc by simp
    from inverse_tables_give [OF this, of p p]
    have "inverse_tables (f(c := c, o' := -1, p := p)) (g(c := c, s := unassigned, p := p))" using p pc by (simp add: no_entries)
    from inverse_tables_give [OF this, of s o']
    have "inverse_tables (f(p := p, c := c, o' := s)) (g(p := p, s := o', c := c))"
      using c pc on ps sc by (simp add: no_entries fun_upd_twist)
    moreover have "(f(p := p, c := c, o' := s)) q = q \<or> (g(p := p, s := o', c := c)) q = unallocated" if "(f(p := p, c := c, o' := s)) q \<ge> 0" for q
      using that linked_entries(3) [OF l, of q] go on os pc c p gs by (cases "q = o'") (auto simp: no_entries)
    ultimately show ?thesis using True l p c by (auto simp: linked_def)
  qed
qed

lemma linked_pair:
  assumes l: "linked n f g" and c: "f c = p" "g c = unallocated" "0 \<le> c" "c < n" and p: "f p = has_no_slot" "0 \<le> p" "p < n"
  shows "linked n (f(p := p, c := c)) (g(p := p, c := c))"
proof -
  have gp: "g p = c" using linked_entries(1) [OF l c(1)] c p by simp
  have pc: "p \<noteq> c" using p c by (auto simp: no_entries)
  have i: "inverse_tables f g" using l by (simp add: linked_def)
  have "inverse_tables (f(c := c)) (g(c := c, p := unassigned))"
    using inverse_tables_move [OF i, of c c unassigned] c p by (simp add: no_entries)
  from inverse_tables_give [OF this, of p p] have "inverse_tables (f(p := p, c := c)) (g(p := p, c := c))"
    using p pc by (simp add: no_entries fun_upd_twist)
  moreover have "f q = q \<or> (g(p := p, c := c)) q = unallocated" if "q \<noteq> p" "q \<noteq> c" "f q \<ge> 0" for q
    using linked_entries(3) [OF l that(3)] that by auto
  ultimately show ?thesis using l p c by (auto simp: linked_def no_entries)
qed

lemma linked_here:
  assumes l: "linked n f g" and c: "f c = has_no_slot" "g c = unallocated" "0 \<le> c" "c < n"
    and p: "p = unassigned \<or> 0 \<le> p \<and> p < n \<and> f p = has_no_slot \<and> g p = unallocated"
  shows "linked n (if p \<noteq> unassigned then f(p := c) else f) (g(c := p))"
proof -
  have i: "inverse_tables f g" using l by (simp add: linked_def)
  show ?thesis
  proof (cases "p = unassigned")
    case True
    have "inverse_tables f (g(c := unassigned))" using inverse_tables_mark [OF i, of c unassigned] c by (simp add: no_entries)
    then show ?thesis using True l c by (auto simp: linked_def no_entries)
  next
    case False
    have "inverse_tables (f(p := c)) (g(c := p))" using inverse_tables_give [OF i, of c p] c p False by (simp add: no_entries)
    then show ?thesis using False l c p by (auto simp: linked_def no_entries)
  qed
qed

definition placed :: "('b, 'h) store_env \<Rightarrow> int \<Rightarrow> 'b piece_manager \<Rightarrow> 'b piece_manager \<Rightarrow> bool" where
  "placed env piece pm pm' \<longleftrightarrow> tables_ok env pm'
     \<and> placing env (current_slot pm + 1) (at (piece_to_slot pm')) (at (slot_to_piece pm')) (slot_data pm')
     \<and> (\<forall>q. at (piece_to_slot pm') q \<ge> 0 \<longleftrightarrow> at (piece_to_slot pm) q \<ge> 0 \<or> q = piece \<and> piece \<ge> 0)
     \<and> current_slot pm' = current_slot pm \<and> storage_mode pm' = storage_mode pm \<and> scratch_piece pm' = scratch_piece pm
     \<and> manager_state pm' = manager_state pm \<and> out_of_place pm' = out_of_place pm"

text \<open>The moves only have to bring every piece with a slot along.\<close>

lemma placingI:
  assumes "linked (num_slots env) f' g'" "\<And>s. c < s \<Longrightarrow> s < num_slots env \<Longrightarrow> g' s = unallocated" "\<And>p. f' p \<ge> 0 \<Longrightarrow> good env d' p (f' p)"
  shows "placing env (c + 1) f' g' d'"
  using assms by (auto simp: placing_def all_good_def)

lemma at_puts:
  assumes "tables_ok env pm" "0 \<le> i" "i < num_slots env"
  shows "at (put (piece_to_slot pm) i v) = (at (piece_to_slot pm))(i := v)" "at (put (slot_to_piece pm) i v) = (at (slot_to_piece pm))(i := v)"
  using assms by (simp_all add: tables_ok_def)

definition place_pre :: "('b, 'h) store_env \<Rightarrow> int \<Rightarrow> 'b piece_manager \<Rightarrow> bool" where
  "place_pre env piece pm \<longleftrightarrow> tables_ok env pm \<and> 0 \<le> current_slot pm \<and> current_slot pm < num_slots env \<and> sizes_ok env
     \<and> placing env (current_slot pm) (at (piece_to_slot pm)) (at (slot_to_piece pm)) (slot_data pm)
     \<and> found_here env (current_slot pm) (slot_data pm) (at (piece_to_slot pm)) piece"

lemma place_preD:
  assumes "place_pre env piece pm"
  shows "tables_ok env pm" "0 \<le> current_slot pm" "current_slot pm < num_slots env" "sizes_ok env"
    "linked (num_slots env) (at (piece_to_slot pm)) (at (slot_to_piece pm))" "at (slot_to_piece pm) (current_slot pm) = unallocated"
    "current_slot pm < s \<Longrightarrow> s < num_slots env \<Longrightarrow> at (slot_to_piece pm) s = unallocated"
    "at (piece_to_slot pm) p \<ge> 0 \<Longrightarrow> good env (slot_data pm) p (at (piece_to_slot pm) p)"
    "piece = unassigned \<or> 0 \<le> piece \<and> piece < num_slots env \<and> at (piece_to_slot pm) piece = has_no_slot \<and> good env (slot_data pm) piece (current_slot pm)"
  using assms by (auto simp: place_pre_def placing_def all_good_def found_here_def)

text \<open>Slots before the current one are full.\<close>

lemma place_pre_full:
  assumes "place_pre env piece pm" "at (slot_to_piece pm) s \<noteq> unallocated" "0 \<le> s" "s < num_slots env"
  shows "slot_size env p \<le> slot_size env s" "s < current_slot pm"
proof -
  show "s < current_slot pm"
    using assms place_preD(6,7) [OF assms(1)] by (metis linorder_neqE_linordered_idom)
  then show "slot_size env p \<le> slot_size env s"
    using fits_full [OF place_preD(4) [OF assms(1)], of s p] place_preD(3) [OF assms(1)] by (simp add: last_slot_def num_slots_def)
qed

lemma placedI:
  assumes "place_pre env piece pm" "linked (num_slots env) (at (piece_to_slot pm')) (at (slot_to_piece pm'))"
    "\<And>s. current_slot pm < s \<Longrightarrow> s < num_slots env \<Longrightarrow> at (slot_to_piece pm') s = unallocated"
    "\<And>q. at (piece_to_slot pm') q \<ge> 0 \<Longrightarrow> good env (slot_data pm') q (at (piece_to_slot pm') q)"
    "\<And>q. at (piece_to_slot pm') q \<ge> 0 \<longleftrightarrow> at (piece_to_slot pm) q \<ge> 0 \<or> q = piece \<and> piece \<ge> 0"
    "length (piece_to_slot pm') = length (piece_to_slot pm)" "length (slot_to_piece pm') = length (slot_to_piece pm)"
    "current_slot pm' = current_slot pm \<and> storage_mode pm' = storage_mode pm \<and> scratch_piece pm' = scratch_piece pm
     \<and> manager_state pm' = manager_state pm \<and> out_of_place pm' = out_of_place pm"
  shows "placed env piece pm pm'"
  using assms place_preD(1) [OF assms(1)] placingI [OF assms(2), of "current_slot pm" "slot_data pm'"]
  by (simp add: placed_def tables_ok_def)

text \<open>A piece that is not touched stays where it is: neither in the current slot nor in one that is written.\<close>

lemma place_pre_apart:
  assumes pre: "place_pre env piece pm" and q: "at (piece_to_slot pm) q \<ge> 0"
  shows "at (piece_to_slot pm) q \<noteq> current_slot pm" "at (slot_to_piece pm) (at (piece_to_slot pm) q) = q"
proof -
  note P = place_preD [OF pre]
  have "q \<ge> 0" using entry_range(1) [OF P(1), of q] q by auto
  then show "at (slot_to_piece pm) (at (piece_to_slot pm) q) = q" using linked_entries(1) [OF P(5) refl] q by simp
  then show "at (piece_to_slot pm) q \<noteq> current_slot pm" using P(6) \<open>q \<ge> 0\<close> by (auto simp: no_entries)
qed

lemma place_this_ok:
  assumes pre: "place_pre env piece pm" and p: "piece \<ge> 0" "at (slot_to_piece pm) piece \<noteq> unallocated"
    and fc: "at (piece_to_slot pm) (current_slot pm) = has_no_slot"
  shows "placed env piece pm (snd (place_this env piece pm))"
proof -
  let ?f = "at (piece_to_slot pm)" and ?g = "at (slot_to_piece pm)" and ?d = "slot_data pm" and ?n = "num_slots env" and ?c = "current_slot pm"
  note P = place_preD [OF pre]
  define o' where "o' = ?g piece"
  define pm' where "pm' = snd (place_this env piece pm)"
  have fp: "piece < ?n" "?f piece = has_no_slot" "good env ?d piece ?c" using P(9) p by (auto simp: no_entries)
  have pc: "piece \<noteq> ?c" using p P(6) by auto
  have oc: "o' \<ge> 0 \<Longrightarrow> ?f o' = piece \<and> o' < ?n \<and> o' \<noteq> piece \<and> o' \<noteq> ?c"
    using linked_entries(2) [OF P(5), of piece o'] entry_range(1) [OF P(1), of o'] p fc fp by (auto simp: o'_def no_entries)
  have f': "at (piece_to_slot pm') = (if o' \<ge> 0 then ?f(piece := piece, o' := ?c) else ?f(piece := piece))"
    and g': "at (slot_to_piece pm') = ?g(piece := piece, ?c := o')"
    using p fp oc P(2,3) at_puts [OF P(1)] tables_okD(1,2) [OF P(1)]
    by (auto simp: pm'_def place_this_def Let_def o'_def)
  have d': "slot_data pm' = (if o' \<ge> 0 then ?d(?c := copied env piece ?d ?c, piece := copied env ?c ?d piece) else ?d(piece := copied env ?c ?d piece))"
    using pc by (simp add: pm'_def place_this_def Let_def o'_def moves_eq)
  have fullp: "slot_size env q \<le> slot_size env piece" for q using place_pre_full(1) [OF pre p(2,1) fp(1)] .
  have "good env (slot_data pm') q (at (piece_to_slot pm') q)" if q: "at (piece_to_slot pm') q \<ge> 0" for q
  proof -
    consider "q = piece" | "o' \<ge> 0" "q = o'" | "q \<noteq> piece" "o' \<ge> 0 \<longrightarrow> q \<noteq> o'" by blast
    then show ?thesis
    proof cases
      case 1
      then show ?thesis using good_copied [OF fp(3) fullp] oc by (auto simp: f' d')
    next
      case 2
      have "slot_size env o' \<le> slot_size env piece" by (rule fullp)
      also have "\<dots> \<le> slot_size env ?c" using fp(3) by (simp add: good_def)
      finally have "slot_size env o' \<le> slot_size env ?c" .
      then show ?thesis using good_copied [of env ?d o' piece ?c] P(8) [of o'] oc 2 pc p by (simp add: f' d')
    next
      case 3
      then have fq: "?f q \<ge> 0" "at (piece_to_slot pm') q = ?f q" using q by (auto simp: f' split: if_splits)
      have "?f q \<noteq> piece" "?f q \<noteq> ?c" using place_pre_apart [OF pre fq(1)] entry_range(1) [OF P(1), of q] fq 3 by (auto simp: o'_def)
      then show ?thesis using good_same [OF P(8) [OF fq(1)], of "slot_data pm'"] fq(2) by (simp add: d')
    qed
  qed
  moreover have "linked ?n (at (piece_to_slot pm')) (at (slot_to_piece pm'))"
    unfolding f' g' using linked_this [OF P(5) fc P(6,2,3) fp(2) p(2,1) fp(1) o'_def] by simp
  moreover have "at (slot_to_piece pm') s = unallocated" if "?c < s" "s < ?n" for s
    using that P(7) place_pre_full(2) [OF pre p(2,1) fp(1)] by (auto simp: g')
  moreover have "at (piece_to_slot pm') q \<ge> 0 \<longleftrightarrow> ?f q \<ge> 0 \<or> q = piece \<and> piece \<ge> 0" for q using oc p P(2) by (auto simp: f')
  ultimately have "placed env piece pm pm'"
    by (intro placedI [OF pre]) (auto simp: pm'_def place_this_def Let_def)
  then show ?thesis by (simp add: pm'_def)
qed

lemma place_other_ok:
  assumes pre: "place_pre env piece pm" and p: "piece \<ge> 0 \<Longrightarrow> at (slot_to_piece pm) piece = unallocated"
    and fc: "at (piece_to_slot pm) (current_slot pm) \<ge> 0"
  shows "placed env piece pm (snd (place_other env piece pm))"
proof -
  let ?f = "at (piece_to_slot pm)" and ?g = "at (slot_to_piece pm)" and ?d = "slot_data pm" and ?n = "num_slots env" and ?c = "current_slot pm"
  note P = place_preD [OF pre]
  define s where "s = ?f ?c"
  define pm' where "pm' = snd (place_other env piece pm)"
  have s: "s \<ge> 0" "?g s = ?c" "s \<noteq> ?c" using fc place_pre_apart [OF pre fc] by (auto simp: s_def)
  have sn: "s < ?n" using entry_range(2) [OF P(1), of s] s P(2) by auto
  have gs: "?g s \<noteq> unallocated" using s P(2) by (simp add: no_entries)
  note full = place_pre_full [OF pre gs s(1) sn]
  have fp: "piece \<noteq> unassigned \<Longrightarrow> piece \<ge> 0 \<and> piece < ?n \<and> ?f piece = has_no_slot \<and> good env ?d piece ?c" using P(9) by auto
  have pc: "piece \<noteq> ?c" using fp fc P(2) by (auto simp: no_entries)
  have f': "at (piece_to_slot pm') = (if piece \<ge> 0 then ?f(?c := ?c, piece := s) else ?f(?c := ?c))"
    and g': "at (slot_to_piece pm') = ?g(?c := ?c, s := piece)"
    using fp s sn P(2,3) at_puts [OF P(1)] tables_okD(1,2) [OF P(1)]
    by (auto simp: pm'_def place_other_def Let_def s_def [symmetric] no_entries)
  have d': "slot_data pm' = (if piece \<ge> 0 then ?d(?c := copied env s ?d ?c, s := copied env ?c ?d s) else ?d(?c := copied env s ?d ?c))"
    using s by (simp add: pm'_def place_other_def Let_def s_def [symmetric] moves_eq)
  have "good env (slot_data pm') q (at (piece_to_slot pm') q)" if q: "at (piece_to_slot pm') q \<ge> 0" for q
  proof -
    consider "q = ?c" | "piece \<ge> 0" "q = piece" | "q \<noteq> ?c" "piece \<ge> 0 \<longrightarrow> q \<noteq> piece" by blast
    then show ?thesis
    proof cases
      case 1
      then show ?thesis using good_copied [of env ?d ?c s ?c] P(8) [OF fc] pc s by (auto simp: f' d' s_def)
    next
      case 2
      then show ?thesis using good_copied [OF _ full(1), of ?d piece ?c] fp s by (auto simp: f' d' no_entries)
    next
      case 3
      then have fq: "?f q \<ge> 0" "at (piece_to_slot pm') q = ?f q" using q by (auto simp: f' split: if_splits)
      have "?f q \<noteq> s" "?f q \<noteq> ?c" using place_pre_apart [OF pre fq(1)] 3 s by auto
      then show ?thesis using good_same [OF P(8) [OF fq(1)], of "slot_data pm'"] fq(2) by (simp add: d')
    qed
  qed
  moreover have "linked ?n (at (piece_to_slot pm')) (at (slot_to_piece pm'))"
    unfolding f' g' using linked_other [OF P(5) s_def [symmetric] s(1) P(6,2,3), of piece] fp p by blast
  moreover have "at (slot_to_piece pm') x = unallocated" if "?c < x" "x < ?n" for x
    using that P(7) full(2) by (auto simp: g')
  moreover have "at (piece_to_slot pm') q \<ge> 0 \<longleftrightarrow> ?f q \<ge> 0 \<or> q = piece \<and> piece \<ge> 0" for q using fc s P(2) by (auto simp: f')
  ultimately have "placed env piece pm pm'"
    by (intro placedI [OF pre]) (auto simp: pm'_def place_other_def Let_def)
  then show ?thesis by (simp add: pm'_def)
qed

lemma place_here_ok:
  assumes pre: "place_pre env piece pm" and p: "piece \<ge> 0 \<Longrightarrow> at (slot_to_piece pm) piece = unallocated"
    and fc: "at (piece_to_slot pm) (current_slot pm) = has_no_slot"
  shows "placed env piece pm (snd (place_here piece pm))"
proof -
  let ?f = "at (piece_to_slot pm)" and ?g = "at (slot_to_piece pm)" and ?d = "slot_data pm" and ?n = "num_slots env" and ?c = "current_slot pm"
  note P = place_preD [OF pre]
  define pm' where "pm' = snd (place_here piece pm)"
  have fp: "piece \<noteq> unassigned \<Longrightarrow> piece \<ge> 0 \<and> piece < ?n \<and> ?f piece = has_no_slot \<and> good env ?d piece ?c" using P(9) by auto
  have f': "at (piece_to_slot pm') = (if piece \<noteq> unassigned then ?f(piece := ?c) else ?f)"
    and g': "at (slot_to_piece pm') = ?g(?c := piece)"
    using fp P(2,3) at_puts [OF P(1)] by (auto simp: pm'_def place_here_def Let_def)
  have d': "slot_data pm' = ?d" by (simp add: pm'_def place_here_def Let_def)
  have "good env (slot_data pm') q (at (piece_to_slot pm') q)" if q: "at (piece_to_slot pm') q \<ge> 0" for q
    using q fp P(8) [of q] by (auto simp: f' d' split: if_splits)
  moreover have "linked ?n (at (piece_to_slot pm')) (at (slot_to_piece pm'))"
    unfolding f' g' using linked_here [OF P(5) fc P(6,2,3), of piece] fp p by blast
  moreover have "at (slot_to_piece pm') x = unallocated" if "?c < x" "x < ?n" for x using that P(7) by (auto simp: g')
  moreover have "at (piece_to_slot pm') q \<ge> 0 \<longleftrightarrow> ?f q \<ge> 0 \<or> q = piece \<and> piece \<ge> 0" for q using fp P(2) by (auto simp: f' no_entries)
  ultimately have "placed env piece pm pm'"
    by (intro placedI [OF pre]) (auto simp: pm'_def place_here_def Let_def)
  then show ?thesis by (simp add: pm'_def)
qed

lemma place_both_ok:
  assumes pre: "place_pre env piece pm" and p: "piece \<ge> 0" "at (slot_to_piece pm) piece \<noteq> unallocated"
    and fc: "at (piece_to_slot pm) (current_slot pm) \<ge> 0"
  shows "placed env piece pm (snd (place_both env piece pm))"
proof -
  let ?f = "at (piece_to_slot pm)" and ?g = "at (slot_to_piece pm)" and ?d = "slot_data pm" and ?n = "num_slots env" and ?c = "current_slot pm"
  note P = place_preD [OF pre]
  define o' where "o' = ?g piece"
  define s where "s = ?f ?c"
  define pm' where "pm' = snd (place_both env piece pm)"
  have fp: "piece < ?n" "?f piece = has_no_slot" "good env ?d piece ?c" using P(9) p by (auto simp: no_entries)
  have s: "s \<ge> 0" "?g s = ?c" "s \<noteq> ?c" using fc place_pre_apart [OF pre fc] by (auto simp: s_def)
  have sn: "s < ?n" using entry_range(2) [OF P(1), of s] s P(2) by auto
  have gs: "?g s \<noteq> unallocated" using s P(2) by (simp add: no_entries)
  have pc: "piece \<noteq> ?c" using p P(6) by auto
  note fulls = place_pre_full [OF pre gs s(1) sn] and fullp = place_pre_full [OF pre p(2,1) fp(1)]
  have cs: "good env ?d ?c s" using P(8) [OF fc] by (simp add: s_def)
  show ?thesis
  proof (cases "piece = s")
    case True
    have o': "o' = ?c" using s True by (simp add: o'_def)
    have f': "at (piece_to_slot pm') = ?f(piece := piece, ?c := ?c)" and g': "at (slot_to_piece pm') = ?g(piece := piece, ?c := ?c)"
      using True s(2) p fp pc P(2,3) at_puts [OF P(1)] tables_okD(1,2) [OF P(1)]
      by (auto simp: pm'_def place_both_def Let_def s_def [symmetric])
    have d': "slot_data pm' = ?d(piece := copied env ?c ?d piece, ?c := copied env piece ?d ?c)"
      using True pc by (simp add: pm'_def place_both_def Let_def s_def [symmetric] moves_eq)
    have "good env (slot_data pm') q (at (piece_to_slot pm') q)" if q: "at (piece_to_slot pm') q \<ge> 0" for q
    proof -
      consider "q = piece" | "q = ?c" | "q \<noteq> piece" "q \<noteq> ?c" by blast
      then show ?thesis
      proof cases
        case 1
        then show ?thesis using good_copied [OF fp(3) fullp(1)] pc by (simp add: f' d')
      next
        case 2
        then show ?thesis using good_copied [OF cs order_refl] True by (simp add: f' d')
      next
        case 3
        then have fq: "?f q \<ge> 0" "at (piece_to_slot pm') q = ?f q" using q by (auto simp: f')
        have "?f q \<noteq> piece" "?f q \<noteq> ?c" using place_pre_apart [OF pre fq(1)] 3 s True by auto
        then show ?thesis using good_same [OF P(8) [OF fq(1)], of "slot_data pm'"] fq(2) by (simp add: d')
      qed
    qed
    moreover have "linked ?n (at (piece_to_slot pm')) (at (slot_to_piece pm'))"
      unfolding f' g' using linked_pair [OF P(5) _ P(6,2,3) fp(2) p(1) fp(1)] True by (simp add: s_def)
    moreover have "at (slot_to_piece pm') x = unallocated" if "?c < x" "x < ?n" for x using that P(7) fullp(2) by (auto simp: g')
    moreover have "at (piece_to_slot pm') q \<ge> 0 \<longleftrightarrow> ?f q \<ge> 0 \<or> q = piece \<and> piece \<ge> 0" for q using fc p P(2) by (auto simp: f')
    ultimately have "placed env piece pm pm'"
      using True by (intro placedI [OF pre]) (auto simp: pm'_def place_both_def Let_def s_def)
    then show ?thesis by (simp add: pm'_def)
  next
    case False
    have oc: "o' \<ge> 0 \<Longrightarrow> ?f o' = piece \<and> o' < ?n \<and> o' \<noteq> piece \<and> o' \<noteq> ?c"
      using linked_entries(2) [OF P(5), of piece o'] entry_range(1) [OF P(1), of o'] p s False fp by (auto simp: o'_def s_def no_entries)
    have f': "at (piece_to_slot pm') = (if o' \<ge> 0 then ?f(piece := piece, ?c := ?c, o' := s) else ?f(piece := piece, ?c := ?c))"
      and g': "at (slot_to_piece pm') = ?g(piece := piece, s := o', ?c := ?c)"
      using False oc p fp pc s sn P(2,3) at_puts [OF P(1)] tables_okD(1,2) [OF P(1)]
      by (auto simp: pm'_def place_both_def Let_def s_def [symmetric] o'_def [symmetric] swap_slots3_def)
    have d': "slot_data pm' = (if o' \<ge> 0 then ?d(piece := copied env ?c ?d piece, s := copied env piece ?d s, ?c := copied env s ?d ?c)
        else ?d(piece := copied env ?c ?d piece, ?c := copied env s ?d ?c))"
    proof (cases "o' \<ge> 0")
      case True
      then have "slot_data pm' = snd (swap_slots3 env ?c piece s ?d)"
        using False by (simp add: pm'_def place_both_def Let_def s_def [symmetric] o'_def [symmetric] case_prod_beta)
      then show ?thesis using True moves_eq(3) [of ?c piece s env ?d] pc s False by simp
    next
      case o: False
      have "copied env s (?d(piece := copied env ?c ?d piece)) ?c = copied env s ?d ?c"
        using False pc by (auto simp: copied_def fun_eq_iff)
      then show ?thesis
        using o False by (simp add: pm'_def place_both_def Let_def s_def [symmetric] o'_def [symmetric] moves_eq)
    qed
    have "good env (slot_data pm') q (at (piece_to_slot pm') q)" if q: "at (piece_to_slot pm') q \<ge> 0" for q
    proof -
      consider "q = piece" | "q = ?c" | "o' \<ge> 0" "q = o'" | "q \<noteq> piece" "q \<noteq> ?c" "o' \<ge> 0 \<longrightarrow> q \<noteq> o'" by blast
      then show ?thesis
      proof cases
        case 1
        then show ?thesis using good_copied [OF fp(3) fullp(1)] pc oc False by (auto simp: f' d')
      next
        case 2
        then show ?thesis using good_copied [OF cs order_refl] pc oc s by (auto simp: f' d')
      next
        case 3
        then have "good env ?d o' piece" using P(8) [of o'] oc p by simp
        from good_copied [OF this fulls(1)] show ?thesis using 3 oc s False pc by (simp add: f' d')
      next
        case 4
        then have fq: "?f q \<ge> 0" "at (piece_to_slot pm') q = ?f q" using q by (auto simp: f' split: if_splits)
        have "?f q \<noteq> piece" "?f q \<noteq> ?c" "?f q \<noteq> s" using place_pre_apart [OF pre fq(1)] 4 s entry_range(1) [OF P(1), of q] fq
          by (auto simp: o'_def)
        then show ?thesis using good_same [OF P(8) [OF fq(1)], of "slot_data pm'"] fq(2) by (simp add: d')
      qed
    qed
    moreover have "linked ?n (at (piece_to_slot pm')) (at (slot_to_piece pm'))"
      unfolding f' g' using linked_both [OF P(5) s_def [symmetric] s(1) P(6,2,3) fp(2) p(2,1) fp(1) o'_def False] .
    moreover have "at (slot_to_piece pm') x = unallocated" if "?c < x" "x < ?n" for x using that P(7) fullp(2) fulls(2) by (auto simp: g')
    moreover have "at (piece_to_slot pm') q \<ge> 0 \<longleftrightarrow> ?f q \<ge> 0 \<or> q = piece \<and> piece \<ge> 0" for q using fc p P(2) oc s by (auto simp: f')
    ultimately have "placed env piece pm pm'"
      using False by (intro placedI [OF pre]) (auto simp: pm'_def place_both_def Let_def s_def case_prod_beta)
    then show ?thesis by (simp add: pm'_def)
  qed
qed

lemma place_piece_ok:
  assumes pre: "place_pre env piece pm"
  shows "placed env piece pm (snd (place_piece env piece pm))"
proof -
  note P = place_preD [OF pre]
  have "at (piece_to_slot pm) (current_slot pm) \<noteq> has_no_slot \<Longrightarrow> at (piece_to_slot pm) (current_slot pm) \<ge> 0"
    using tables_okD(4) [OF P(1-3)] by auto
  then show ?thesis
    using place_this_ok [OF pre] place_other_ok [OF pre] place_both_ok [OF pre] place_here_ok [OF pre]
    by (auto simp: place_piece_def Let_def)
qed

section \<open>One slot\<close>

lemma check_one_piece_ok:
  assumes ok: "check_ok env (current_slot pm) pm" and c: "current_slot pm < num_slots env" and sz: "sizes_ok env" and h: "hashes_ok env"
    and res: "check_one_piece env num_read next_data pm = (skip, have, pm')"
  shows "check_ok env (current_slot pm + 1) pm' \<and> current_slot pm' = current_slot pm \<and> storage_mode pm' = storage_mode pm
    \<and> manager_state pm' = manager_state pm
    \<and> (\<forall>p. at (piece_to_slot pm) p \<ge> 0 \<or> p = have \<and> have \<ge> 0 \<longrightarrow> at (piece_to_slot pm') p \<ge> 0)"
proof (cases "num_read = slot_size env (current_slot pm)")
  case False
  then have "pm' = pm" "have = -1" using res by (auto simp: check_one_piece_def Let_def)
  then show ?thesis using check_ok_later [OF ok] by simp
next
  case True
  define small where "small = (if slot_size env (current_slot pm) = slot_size env (last_slot env) then no_hash env
      else slot_hash env (current_slot pm) (slot_size env (last_slot env)) (slot_data pm))"
  define large where "large = slot_hash env (current_slot pm) (slot_size env (current_slot pm)) (slot_data pm)"
  obtain piece pm1 where id: "identify_data env large small pm = (piece, pm1)" by (cases "identify_data env large small pm")
  note ID = identify_data_ok [OF ok c sz h small_def large_def id, unfolded identified_def]
  define pm2 where "pm2 = pm1\<lparr>out_of_place := out_of_place pm1 \<or> (piece \<noteq> current_slot pm \<and> piece \<ge> 0)\<rparr>"
  have c0: "0 \<le> current_slot pm" and sp: "scratch_piece pm < 0" using ok by (auto simp: check_ok_def)
  have pre: "place_pre env piece pm2"
    using ID c0 c sz by (simp add: place_pre_def pm2_def tables_ok_def)
  note PL = place_piece_ok [OF pre, unfolded placed_def]
  have eq: "pm' = snd (place_piece env piece pm2)" "have = (if piece \<ge> 0 then piece else -1)"
    using res True id by (auto simp: check_one_piece_def Let_def small_def large_def pm2_def split: prod.splits if_splits)
  have "in_order env (at (piece_to_slot pm')) (current_slot pm + 1)"
    using ID PL unfolding in_order_def order_with_def eq pm2_def by simp (smt (verit))
  moreover have "at (piece_to_slot pm') p \<ge> 0" if "at (piece_to_slot pm) p \<ge> 0 \<or> p = have \<and> have \<ge> 0" for p
  proof -
    have "p \<ge> 0" using that ok entry_range(1) [of env pm p] by (auto simp: check_ok_def)
    then have "at (piece_to_slot pm1) p \<ge> 0 \<or> p = piece \<and> piece \<ge> 0" using that ID eq(2) by (auto split: if_splits)
    then show ?thesis using PL by (simp add: eq pm2_def)
  qed
  moreover have "tables_ok env pm'" "placing env (current_slot pm + 1) (at (piece_to_slot pm')) (at (slot_to_piece pm')) (slot_data pm')"
    "current_slot pm' = current_slot pm" "storage_mode pm' = storage_mode pm" "scratch_piece pm' < 0" "manager_state pm' = manager_state pm"
    using ID PL sp by (simp_all add: eq pm2_def)
  ultimately show ?thesis using c0 by (simp add: check_ok_def)
qed

text \<open>As long as nothing is out of place, every piece is in its own slot.\<close>

definition in_place :: "'b piece_manager \<Rightarrow> bool" where
  "in_place pm \<longleftrightarrow> (\<forall>p. at (piece_to_slot pm) p \<ge> 0 \<longrightarrow> at (piece_to_slot pm) p = p)"

lemma check_one_piece_in_place:
  assumes ok: "check_ok env (current_slot pm) pm" and c: "current_slot pm < num_slots env" and ip: "in_place pm"
    and res: "check_one_piece env num_read next_data pm = (skip, have, pm')" and out: "\<not> out_of_place pm'"
  shows "in_place pm' \<and> \<not> out_of_place pm"
proof (cases "num_read = slot_size env (current_slot pm)")
  case False
  then show ?thesis using res ip out by (auto simp: check_one_piece_def Let_def)
next
  case True
  have t: "tables_ok env pm" and c0: "0 \<le> current_slot pm" and gc: "at (slot_to_piece pm) (current_slot pm) = unallocated"
    using ok c by (auto simp: check_ok_def placing_def)
  have fc: "\<not> at (piece_to_slot pm) (current_slot pm) \<ge> 0"
  proof
    assume a: "at (piece_to_slot pm) (current_slot pm) \<ge> 0"
    then have "at (piece_to_slot pm) (current_slot pm) = current_slot pm" using ip by (simp add: in_place_def)
    then show False using inverse_tablesD(1) [OF tables_okD(3) [OF t] a] gc c0 by (simp add: no_entries)
  qed
  then have none: "at (piece_to_slot pm) (current_slot pm) = has_no_slot" using tables_okD(4) [OF t c0 c] by auto
  define small where "small = (if slot_size env (current_slot pm) = slot_size env (last_slot env) then no_hash env
      else slot_hash env (current_slot pm) (slot_size env (last_slot env)) (slot_data pm))"
  define large where "large = slot_hash env (current_slot pm) (slot_size env (current_slot pm)) (slot_data pm)"
  obtain piece pm1 where id: "identify_data env large small pm = (piece, pm1)" by (cases "identify_data env large small pm")
  have pm1: "pm1 = pm" using id fc by (auto simp: identify_data_def Let_def split: if_splits option.splits)
  have pc: "piece = unassigned \<or> piece \<ge> 0"
    using id by (auto simp: identify_data_def Let_def matching_pieces_def pieces_of_def split: if_splits option.splits dest!: find_SomeD)
  define pm2 where "pm2 = pm\<lparr>out_of_place := out_of_place pm \<or> (piece \<noteq> current_slot pm \<and> piece \<ge> 0)\<rparr>"
  have eq: "pm' = snd (place_piece env piece pm2)"
    using res True id pm1 by (auto simp: check_one_piece_def Let_def small_def large_def pm2_def split: prod.splits if_splits)
  have "out_of_place pm' = out_of_place pm2"
    by (simp add: eq place_piece_def place_this_def place_other_def place_both_def place_here_def Let_def case_prod_beta)
  then have o2: "\<not> out_of_place pm" "piece = current_slot pm \<or> piece < 0" using out by (auto simp: pm2_def)
  then have "place_piece env piece pm2 = place_here piece pm2"
    using gc none c0 pc by (auto simp: place_piece_def pm2_def Let_def)
  then have "at (piece_to_slot pm') = (if piece = unassigned then at (piece_to_slot pm) else (at (piece_to_slot pm))(current_slot pm := current_slot pm))"
    using o2 pc c0 c tables_okD(1) [OF t] by (auto simp: eq place_here_def pm2_def Let_def no_entries)
  then show ?thesis using ip o2 by (auto simp: in_place_def)
qed

end
