(* ===== verification/Slot_Run.thy ===== *)
theory Slot_Run
  imports Slot_Checked
begin

text \<open>
  The check from its first call to its last: slots are checked, then the pieces are put in order if the
  files are not to be compact. \<open>check_todo\<close> bounds the calls that are left; the invariants say that the
  pieces that were found are not lost.
\<close>

section \<open>Putting the pieces in order\<close>

text \<open>The invariant while pieces are moved: one of them may be in the buffer.\<close>

definition expand_ok :: "('b, 'h) store_env \<Rightarrow> int set \<Rightarrow> 'b piece_manager \<Rightarrow> bool" where
  "expand_ok env found pm \<longleftrightarrow>
     int (length (piece_to_slot pm)) = num_slots env \<and> int (length (slot_to_piece pm)) = num_slots env
   \<and> inverse_tables (at (piece_to_slot pm)) (at (slot_to_piece pm)) \<and> all_good env (at (piece_to_slot pm)) (slot_data pm)
   \<and> 0 \<le> current_slot pm \<and> current_slot pm \<le> num_slots env
   \<and> (\<forall>s. 0 \<le> s \<and> s < current_slot pm \<longrightarrow> at (slot_to_piece pm) s = s \<or> at (slot_to_piece pm) s < 0)
   \<and> (scratch_piece pm \<ge> 0 \<longrightarrow> scratch_piece pm < num_slots env \<and> at (piece_to_slot pm) (scratch_piece pm) < 0
        \<and> hash_of env (map (scratch_buffer pm) [0..slot_size env (scratch_piece pm) - 1]) = piece_hash env (scratch_piece pm))
   \<and> (\<forall>p \<in> found. at (piece_to_slot pm) p \<ge> 0 \<or> p = scratch_piece pm \<and> scratch_piece pm \<ge> 0)"

definition misplaced :: "('b, 'h) store_env \<Rightarrow> 'b piece_manager \<Rightarrow> int set" where
  "misplaced env pm = {s. 0 \<le> s \<and> s < num_slots env \<and> at (slot_to_piece pm) s \<ge> 0 \<and> at (slot_to_piece pm) s \<noteq> s}"

definition expand_todo :: "('b, 'h) store_env \<Rightarrow> 'b piece_manager \<Rightarrow> nat" where
  "expand_todo env pm = 2 * card (misplaced env pm) + (if scratch_piece pm \<ge> 0 then 1 else 0)"

lemma finite_misplaced: "finite (misplaced env pm)"
  by (rule finite_subset [of _ "{0..<num_slots env}"]) (auto simp: misplaced_def)

lemma next_misplaced_spec:
  assumes "next_misplaced xs s n = s'"
  shows "s \<le> s'" "s' \<le> s + int n" "\<And>i. s \<le> i \<Longrightarrow> i < s' \<Longrightarrow> at xs i = i \<or> at xs i < 0"
    "s' < s + int n \<Longrightarrow> at xs s' \<ge> 0 \<and> at xs s' \<noteq> s'"
proof -
  have "s \<le> s' \<and> s' \<le> s + int n \<and> (\<forall>i. s \<le> i \<longrightarrow> i < s' \<longrightarrow> at xs i = i \<or> at xs i < 0) \<and>
    (s' < s + int n \<longrightarrow> at xs s' \<ge> 0 \<and> at xs s' \<noteq> s')"
    using assms
  proof (induction n arbitrary: s)
    case (Suc n)
    show ?case
    proof (cases "at xs s = s \<or> at xs s < 0")
      case True
      then have "next_misplaced xs (s + 1) n = s'" using Suc.prems by simp
      note IH = Suc.IH [OF this]
      have "at xs i = i \<or> at xs i < 0" if "s \<le> i" "i < s'" for i using that IH True by (cases "i = s") auto
      then show ?thesis using IH by auto
    next
      case False
      then show ?thesis using Suc.prems by auto
    qed
  qed auto
  then show "s \<le> s'" "s' \<le> s + int n" "\<And>i. s \<le> i \<Longrightarrow> i < s' \<Longrightarrow> at xs i = i \<or> at xs i < 0"
    "s' < s + int n \<Longrightarrow> at xs s' \<ge> 0 \<and> at xs s' \<noteq> s'" by auto
qed

text \<open>A piece is brought to its own slot, whose piece goes to the buffer.\<close>

lemma inverse_tables_home:
  assumes i: "inverse_tables f g" and p: "p \<ge> 0" "f p < 0" and o: "g p = o'"
  shows "inverse_tables (if o' \<ge> 0 then f(o' := unassigned, p := p) else f(p := p)) (g(p := p))"
proof (cases "o' \<ge> 0")
  case True
  have "inverse_tables (f(o' := unassigned)) (g(p := -1))"
    using inverse_tables_take [OF i _ p(1), of o' unassigned "-1"] i p o True by (simp add: inverse_tables_def no_entries)
  moreover have "o' \<noteq> p" using i p o True by (auto simp: inverse_tables_def)
  ultimately show ?thesis using inverse_tables_give [of "f(o' := unassigned)" "g(p := -1)" p p] p True by simp
next
  case False
  then show ?thesis using inverse_tables_give [OF i, of p p] p o by simp
qed

lemma rescue_piece_fields:
  "slot_to_piece (rescue_piece env slot pm) = slot_to_piece pm" "slot_data (rescue_piece env slot pm) = slot_data pm"
  "current_slot (rescue_piece env slot pm) = current_slot pm" "storage_mode (rescue_piece env slot pm) = storage_mode pm"
  "manager_state (rescue_piece env slot pm) = manager_state pm"
  "piece_to_slot (rescue_piece env slot pm) = (if at (slot_to_piece pm) slot \<ge> 0 then put (piece_to_slot pm) (at (slot_to_piece pm) slot) unassigned else piece_to_slot pm)"
  "scratch_piece (rescue_piece env slot pm) = (if at (slot_to_piece pm) slot \<ge> 0 then at (slot_to_piece pm) slot else scratch_piece pm)"
  "scratch_buffer (rescue_piece env slot pm) = (if at (slot_to_piece pm) slot \<ge> 0 then read_slot env slot (slot_size env (at (slot_to_piece pm) slot)) (slot_data pm) else scratch_buffer pm)"
  by (simp_all add: rescue_piece_def Let_def)

lemma at_ge: "at xs q \<ge> 0 \<Longrightarrow> 0 \<le> q \<and> q < int (length xs)"
  using at_range [of xs q] by auto

lemma home_good:
  assumes gd: "all_good env f d" and i: "inverse_tables f g" and p: "p \<ge> 0" and o: "g p = o'"
    and new: "good env d' p p" and same: "\<And>s. s \<noteq> p \<Longrightarrow> d' s = d s" and rng: "\<And>q. f q \<ge> 0 \<Longrightarrow> q \<ge> 0"
  shows "all_good env (if o' \<ge> 0 then f(o' := unassigned, p := p) else f(p := p)) d'"
proof -
  have "good env d' q (f q)" if "f q \<ge> 0" "q \<noteq> p" "o' \<ge> 0 \<longrightarrow> q \<noteq> o'" for q
  proof (rule good_same)
    show "good env d q (f q)" using gd that by (simp add: all_good_def)
    have "f q \<noteq> p" using i that o p rng [of q] by (auto simp: inverse_tables_def)
    then show "d' (f q) = d (f q)" by (rule same)
  qed
  then show ?thesis using new by (auto simp: all_good_def no_entries)
qed

lemma buffer_good:
  assumes "good env d p s"
  shows "hash_of env (map (read_slot env s (slot_size env p) d) [0..slot_size env p - 1]) = piece_hash env p"
proof -
  have "map (read_slot env s (slot_size env p) d) [0..slot_size env p - 1] = map (d s) [0..slot_size env p - 1]"
    using assms by (auto simp: read_slot_def good_def)
  then show ?thesis using assms unfolding good_def slot_hash_def by metis
qed

text \<open>What one step does: a piece goes home, from the buffer or from the current slot.\<close>

definition sent_home :: "('b, 'h) store_env \<Rightarrow> int \<Rightarrow> 'b piece_manager \<Rightarrow> 'b piece_manager \<Rightarrow> bool" where
  "sent_home env p pm pm' \<longleftrightarrow>
     (let o' = at (slot_to_piece pm) p
      in 0 \<le> p \<and> p < num_slots env \<and> current_slot pm' = current_slot pm
       \<and> int (length (piece_to_slot pm')) = num_slots env \<and> int (length (slot_to_piece pm')) = num_slots env
       \<and> at (piece_to_slot pm') = (if o' \<ge> 0 then (at (piece_to_slot pm))(o' := unassigned, p := p) else (at (piece_to_slot pm))(p := p))
       \<and> at (slot_to_piece pm') = (at (slot_to_piece pm))(p := p)
       \<and> (\<forall>s. s \<noteq> p \<longrightarrow> slot_data pm' s = slot_data pm s) \<and> good env (slot_data pm') p p
       \<and> (if o' \<ge> 0 then scratch_piece pm' = o' else scratch_piece pm' < 0)
       \<and> (o' \<ge> 0 \<longrightarrow> scratch_buffer pm' = read_slot env p (slot_size env o') (slot_data pm)))"

lemma sent_home_ok:
  assumes hm: "sent_home env p pm pm'" and i: "inverse_tables (at (piece_to_slot pm)) (at (slot_to_piece pm))"
    and gd: "all_good env (at (piece_to_slot pm)) (slot_data pm)" and fp: "at (piece_to_slot pm) p < 0"
    and cur: "0 \<le> current_slot pm" "current_slot pm \<le> num_slots env"
      "\<forall>s. 0 \<le> s \<and> s < current_slot pm \<longrightarrow> at (slot_to_piece pm) s = s \<or> at (slot_to_piece pm) s < 0"
    and fnd: "\<forall>q \<in> found. at (piece_to_slot pm) q \<ge> 0 \<or> q = p" and len: "int (length (piece_to_slot pm)) = num_slots env"
  shows "expand_ok env found pm'"
    "misplaced env pm' = misplaced env pm - {p}"
    "at (slot_to_piece pm) p \<ge> 0 \<Longrightarrow> p \<in> misplaced env pm"
proof -
  let ?f = "at (piece_to_slot pm)" and ?g = "at (slot_to_piece pm)"
  define o' where "o' = ?g p"
  have H: "0 \<le> p" "p < num_slots env" "current_slot pm' = current_slot pm"
    "int (length (piece_to_slot pm')) = num_slots env" "int (length (slot_to_piece pm')) = num_slots env"
    "at (piece_to_slot pm') = (if o' \<ge> 0 then ?f(o' := unassigned, p := p) else ?f(p := p))"
    "at (slot_to_piece pm') = ?g(p := p)" "\<forall>s. s \<noteq> p \<longrightarrow> slot_data pm' s = slot_data pm s" "good env (slot_data pm') p p"
    "(o' \<ge> 0 \<longrightarrow> scratch_piece pm' = o') \<and> (\<not> o' \<ge> 0 \<longrightarrow> scratch_piece pm' < 0)" "o' \<ge> 0 \<longrightarrow> scratch_buffer pm' = read_slot env p (slot_size env o') (slot_data pm)"
    using hm by (auto simp: sent_home_def Let_def o'_def)
  have fo: "?f o' = p \<and> o' \<noteq> p \<and> o' < num_slots env" if "o' \<ge> 0"
  proof -
    have "?f o' = p" using inverse_tablesD(2) [OF i, of p] that by (simp add: o'_def)
    then show ?thesis using H(1) fp at_ge [of "piece_to_slot pm" o'] len by auto
  qed
  have "inverse_tables (at (piece_to_slot pm')) (at (slot_to_piece pm'))"
    using inverse_tables_home [OF i H(1) fp o'_def [symmetric]] by (simp add: H(6,7))
  moreover have "all_good env (at (piece_to_slot pm')) (slot_data pm')"
    unfolding H(6) by (rule home_good [OF gd i H(1) o'_def [symmetric] H(9)]) (use H(8) at_ge in auto)
  moreover have "o' \<ge> 0 \<longrightarrow> hash_of env (map (scratch_buffer pm') [0..slot_size env o' - 1]) = piece_hash env o'"
    using H(11) buffer_good [of env "slot_data pm" o' p] gd fo H(1) by (auto simp: all_good_def)
  ultimately show "expand_ok env found pm'"
    using cur fnd fo H by (auto simp: expand_ok_def no_entries)
  show "misplaced env pm' = misplaced env pm - {p}" using H by (auto simp: misplaced_def)
  show "at (slot_to_piece pm) p \<ge> 0 \<Longrightarrow> p \<in> misplaced env pm" using fo H by (auto simp: misplaced_def o'_def)
qed

lemma expand_todo_home:
  assumes "misplaced env pm' = misplaced env pm - {p}" "at (slot_to_piece pm) p < 0 \<Longrightarrow> scratch_piece pm' < 0"
    "at (slot_to_piece pm) p \<ge> 0 \<Longrightarrow> p \<in> misplaced env pm"
  shows "expand_todo env pm' < 2 * card (misplaced env pm) + 1"
proof (cases "at (slot_to_piece pm) p \<ge> 0")
  case True
  then have "card (misplaced env pm) > 0" "card (misplaced env pm') = card (misplaced env pm) - 1"
    using assms(1,3) finite_misplaced [of env pm] by (auto simp: card_gt_0_iff)
  then show ?thesis using True by (auto simp: expand_todo_def)
next
  case False
  have "card (misplaced env pm') \<le> card (misplaced env pm)" using assms(1) finite_misplaced [of env pm] by (simp add: card_mono)
  then show ?thesis using False assms(2) by (simp add: expand_todo_def)
qed

text \<open>When the pieces are in order, every piece that was found is at home.\<close>

definition finish_ok :: "('b, 'h) store_env \<Rightarrow> int set \<Rightarrow> 'b piece_manager \<Rightarrow> bool" where
  "finish_ok env found pm \<longleftrightarrow> (\<forall>p \<in> found. good env (slot_data pm) p p)"

lemma expand_pieces_ok:
  assumes ok: "expand_ok env found pm" and sz: "sizes_ok env" and st: "manager_state pm = manager_expand_pieces"
    and res: "expand_pieces env pm = (r, pm')"
  shows "manager_state pm' = manager_expand_pieces \<and> expand_ok env found pm' \<and> expand_todo env pm' < expand_todo env pm
    \<or> manager_state pm' = manager_finished \<and> finish_ok env found pm'"
proof -
  let ?f = "at (piece_to_slot pm)" and ?g = "at (slot_to_piece pm)" and ?n = "num_slots env"
  have len: "int (length (piece_to_slot pm)) = ?n" "int (length (slot_to_piece pm)) = ?n" and i: "inverse_tables ?f ?g"
    and gd: "all_good env ?f (slot_data pm)" and cur: "0 \<le> current_slot pm" "current_slot pm \<le> ?n"
    "\<forall>s. 0 \<le> s \<and> s < current_slot pm \<longrightarrow> ?g s = s \<or> ?g s < 0"
    and sc: "scratch_piece pm \<ge> 0 \<Longrightarrow> scratch_piece pm < ?n \<and> ?f (scratch_piece pm) < 0
        \<and> hash_of env (map (scratch_buffer pm) [0..slot_size env (scratch_piece pm) - 1]) = piece_hash env (scratch_piece pm)"
    and fnd: "\<forall>p \<in> found. ?f p \<ge> 0 \<or> p = scratch_piece pm \<and> scratch_piece pm \<ge> 0"
    using ok by (auto simp: expand_ok_def)
  show ?thesis
  proof (cases "scratch_piece pm \<ge> 0")
    case True
    define p where "p = scratch_piece pm"
    note S = sc [OF True, folded p_def]
    have go: "?g p < ?n \<and> ?f (?g p) = p" if "?g p \<ge> 0"
      using inverse_tablesD(2) [OF i that] at_ge [of "piece_to_slot pm" "?g p"] len True by (auto simp: p_def)
    have "good env (slot_data pm') p p"
    proof -
      have "map (slot_data pm' p) [0..slot_size env p - 1] = map (scratch_buffer pm) [0..slot_size env p - 1]"
        using res True by (auto simp: expand_pieces_def Let_def p_def write_slot_def)
      then show ?thesis using S unfolding good_def slot_hash_def by (metis order_refl)
    qed
    then have hm: "sent_home env p pm pm'"
      using res True S go len
      by (auto simp: sent_home_def expand_pieces_def Let_def p_def [symmetric] rescue_piece_fields write_slot_def)
    note R = sent_home_ok [OF hm i gd _ cur _ len(1), of found]
    have "expand_todo env pm' < expand_todo env pm"
      using expand_todo_home [OF R(2)] R(3) S fnd hm True by (auto simp: sent_home_def Let_def expand_todo_def p_def)
    moreover have "manager_state pm' = manager_expand_pieces" using res True st by (auto simp: expand_pieces_def Let_def rescue_piece_fields)
    ultimately show ?thesis using R(1) S fnd by (auto simp: p_def)
  next
    case no_scratch: False
    define c where "c = next_misplaced (slot_to_piece pm) (current_slot pm) (nat (?n - current_slot pm))"
    note C = next_misplaced_spec [OF c_def [symmetric]]
    have cn: "current_slot pm \<le> c" "c \<le> ?n" using C(1,2) cur by auto
    have before: "\<forall>s. 0 \<le> s \<and> s < c \<longrightarrow> ?g s = s \<or> ?g s < 0" using cur(3) C(3) by (metis not_le)
    show ?thesis
    proof (cases "c = ?n")
      case True
      have "good env (slot_data pm) p p" if "p \<in> found" for p
      proof -
        have fp: "?f p \<ge> 0" using fnd that no_scratch by auto
        then have "p \<ge> 0" using at_ge by auto
        have "?g (?f p) = p" by (rule inverse_tablesD(1) [OF i fp])
        moreover from this have "?f p < ?n" using \<open>p \<ge> 0\<close> at_ge [of "slot_to_piece pm" "?f p"] len by simp
        ultimately have "?f p = p" using before True fp \<open>p \<ge> 0\<close> by fastforce
        then show ?thesis using gd fp unfolding all_good_def by metis
      qed
      moreover have "slot_data pm' = slot_data pm" "manager_state pm' = manager_finished"
        using res no_scratch True by (auto simp: expand_pieces_def Let_def c_def num_slots_def check_init_storage_def)
      ultimately show ?thesis by (simp add: finish_ok_def)
    next
      case False
      define p where "p = ?g c"
      have cr: "c < ?n" "0 \<le> c" using False cn cur by auto
      have p: "p \<ge> 0" "p \<noteq> c" using C(4) cr cur by (auto simp: p_def)
      have fp: "?f p = c" using i p cr by (simp add: inverse_tables_def p_def)
      have pr: "p < ?n" using at_ge [of "piece_to_slot pm" p] fp cr len by auto
      have go: "?g p < ?n \<and> ?f (?g p) = p \<and> ?g p \<noteq> p" if "?g p \<ge> 0"
        using inverse_tablesD(2) [OF i that] at_ge [of "piece_to_slot pm" "?g p"] len fp p by auto
      define pm1 where "pm1 = pm\<lparr>current_slot := c, piece_to_slot := put (piece_to_slot pm) p unassigned, slot_to_piece := put (slot_to_piece pm) c unassigned\<rparr>"
      have f1: "at (piece_to_slot pm1) = ?f(p := unassigned)" and g1: "at (slot_to_piece pm1) = ?g(c := unassigned)"
        using p pr cr len by (simp_all add: pm1_def)
      have i1: "inverse_tables (at (piece_to_slot pm1)) (at (slot_to_piece pm1))"
        using inverse_tables_take [OF i fp cr(2) p(1)] by (simp add: f1 g1 no_entries)
      have "all_good env (at (piece_to_slot pm1)) (slot_data pm)" using gd unfolding f1 by (auto simp: all_good_def no_entries)
      then have gd1: "all_good env (at (piece_to_slot pm1)) (slot_data pm1)" by (simp add: pm1_def)
      have "good env (slot_data pm') p p"
        using good_copied [of env "slot_data pm" p c p "slot_data pm'"] gd fp cr res no_scratch False
        by (auto simp: all_good_def expand_pieces_def Let_def c_def [symmetric] num_slots_def [symmetric] rescue_piece_fields moves_eq p_def [symmetric])
      then have hm: "sent_home env p pm1 pm'"
        using res no_scratch False p pr cr len go fp
        by (auto simp: sent_home_def expand_pieces_def Let_def c_def [symmetric] num_slots_def [symmetric] rescue_piece_fields moves_eq
            p_def [symmetric] pm1_def fun_upd_twist)
      note R = sent_home_ok [OF hm i1 gd1, of found]
      have side: "at (piece_to_slot pm1) p < 0" "0 \<le> current_slot pm1" "current_slot pm1 \<le> ?n"
        "\<forall>s. 0 \<le> s \<and> s < current_slot pm1 \<longrightarrow> at (slot_to_piece pm1) s = s \<or> at (slot_to_piece pm1) s < 0"
        "\<forall>q \<in> found. at (piece_to_slot pm1) q \<ge> 0 \<or> q = p" "int (length (piece_to_slot pm1)) = ?n"
        using cr before fnd no_scratch len unfolding f1 g1 by (auto simp: pm1_def no_entries)
      have m1: "misplaced env pm1 = misplaced env pm - {c}" "c \<in> misplaced env pm"
        using p cr unfolding misplaced_def g1 by (auto simp: no_entries p_def)
      have "expand_todo env pm' < 2 * card (misplaced env pm1) + 1"
        using expand_todo_home [OF R(2) [OF side] _ R(3) [OF side]] hm by (simp add: sent_home_def Let_def)
      also have "card (misplaced env pm1) < card (misplaced env pm)"
        unfolding m1(1) by (rule card_Diff1_less [OF finite_misplaced m1(2)])
      then have "2 * card (misplaced env pm1) + 1 < expand_todo env pm" using no_scratch by (simp add: expand_todo_def)
      finally have "expand_todo env pm' < expand_todo env pm" .
      moreover have "manager_state pm' = manager_expand_pieces"
        using res no_scratch False st by (auto simp: expand_pieces_def Let_def rescue_piece_fields c_def num_slots_def)
      ultimately show ?thesis using R(1) [OF side] by simp
    qed
  qed
qed

section \<open>The whole check\<close>

text \<open>The check is called until it has no more work; each call finds a piece or none.\<close>

fun check_run :: "('b, 'h) store_env \<Rightarrow> (int \<times> int) list \<Rightarrow> int list \<Rightarrow> 'b piece_manager \<Rightarrow> (int list \<times> 'b piece_manager) option" where
  "check_run env [] found pm = None"
| "check_run env ((num_read, next_data) # answers) found pm =
     (case check_files env True num_read next_data pm of
        (r, have, pm) \<Rightarrow>
          let found = (if have \<ge> 0 then found @ [have] else found)
          in if r = no_error then Some (found, pm) else check_run env answers found pm)"

definition check_phase :: "('b, 'h) store_env \<Rightarrow> storage_mode \<Rightarrow> int set \<Rightarrow> 'b piece_manager \<Rightarrow> bool" where
  "check_phase env m found pm \<longleftrightarrow> storage_mode pm = m \<and>
     (case manager_state pm of
        manager_full_check \<Rightarrow> check_ok env (current_slot pm) pm \<and> current_slot pm < num_slots env
          \<and> (\<forall>p \<in> found. at (piece_to_slot pm) p \<ge> 0) \<and> (\<not> out_of_place pm \<longrightarrow> in_place pm)
      | manager_expand_pieces \<Rightarrow> expand_ok env found pm \<and> m \<noteq> storage_mode_compact
      | _ \<Rightarrow> False)"

definition check_todo :: "('b, 'h) store_env \<Rightarrow> 'b piece_manager \<Rightarrow> nat" where
  "check_todo env pm =
     (if manager_state pm = manager_full_check then nat (num_slots env - current_slot pm) + 2 * nat (num_slots env) + 1
      else expand_todo env pm + 1)"

definition check_complete :: "('b, 'h) store_env \<Rightarrow> storage_mode \<Rightarrow> int set \<Rightarrow> 'b piece_manager \<Rightarrow> bool" where
  "check_complete env m found pm \<longleftrightarrow> manager_state pm = manager_finished
     \<and> (storage_mode pm = m \<longrightarrow> (\<forall>p \<in> found. good env (slot_data pm) p (slot_for p pm)))"

lemma card_misplaced: "card (misplaced env pm) \<le> nat (num_slots env)"
proof -
  have "card (misplaced env pm) \<le> card {0..<num_slots env}" by (rule card_mono) (auto simp: misplaced_def)
  then show ?thesis by simp
qed

lemma expand_mode: "expand_pieces env pm = (r, pm') \<Longrightarrow> storage_mode pm' = storage_mode pm"
  by (auto simp: expand_pieces_def Let_def rescue_piece_fields check_init_storage_def split: if_splits)

lemma expand_result:
  "expand_pieces env pm = (r, pm') \<Longrightarrow> manager_state pm = manager_expand_pieces \<Longrightarrow> r = no_error \<longleftrightarrow> manager_state pm' = manager_finished"
  by (auto simp: expand_pieces_def Let_def rescue_piece_fields check_init_storage_def split: if_splits)

lemma skip_slots_fields:
  "piece_to_slot (skip_slots skip pm) = piece_to_slot pm" "slot_to_piece (skip_slots skip pm) = slot_to_piece pm"
  "slot_data (skip_slots skip pm) = slot_data pm" "storage_mode (skip_slots skip pm) = storage_mode pm"
  "manager_state (skip_slots skip pm) = manager_state pm" "scratch_piece (skip_slots skip pm) = scratch_piece pm"
  "out_of_place (skip_slots skip pm) = out_of_place pm" "current_slot (skip_slots skip pm) \<ge> current_slot pm"
  by (simp_all add: skip_slots_def Let_def)

lemma check_ok_cong:
  "piece_to_slot pm' = piece_to_slot pm \<Longrightarrow> slot_to_piece pm' = slot_to_piece pm \<Longrightarrow> slot_data pm' = slot_data pm \<Longrightarrow>
   scratch_piece pm' = scratch_piece pm \<Longrightarrow> check_ok env c pm' = check_ok env c pm"
  by (simp add: check_ok_def tables_ok_def)

lemma check_ok_expand:
  assumes "check_ok env c pm" "\<forall>p \<in> found. at (piece_to_slot pm) p \<ge> 0" "num_slots env \<ge> 0"
  shows "expand_ok env found (pm\<lparr>manager_state := manager_expand_pieces, current_slot := 0\<rparr>)"
  using assms by (auto simp: check_ok_def expand_ok_def placing_def tables_ok_def linked_def)

lemma out_of_place_kept:
  "out_of_place (snd (identify_data env large small pm)) = out_of_place pm"
  "out_of_place (snd (place_piece env piece pm)) = out_of_place pm"
  by (simp add: identify_data_def Let_def split: option.split)
    (simp add: place_piece_def place_this_def place_other_def place_both_def place_here_def Let_def case_prod_beta)

lemma check_one_piece_out: "check_one_piece env num_read next_data pm = (skip, hv, pm') \<Longrightarrow> out_of_place pm \<Longrightarrow> out_of_place pm'"
  using out_of_place_kept(1) [of env _ _ pm] out_of_place_kept(2) [of env]
  by (auto simp: check_one_piece_def Let_def case_prod_beta split: if_splits)

lemma finish_check_ok:
  assumes ok: "check_ok env c pm" and f: "\<forall>p \<in> found. at (piece_to_slot pm) p \<ge> 0" and ip: "\<not> out_of_place pm \<longrightarrow> in_place pm"
    and n: "num_slots env \<ge> 0" and res: "finish_check pm = (r, pm')"
  shows "r = no_error \<and> check_complete env (storage_mode pm) found pm'
    \<or> r = need_full_check \<and> check_phase env (storage_mode pm) found pm' \<and> check_todo env pm' \<le> 2 * nat (num_slots env) + 1"
proof (cases "storage_mode pm \<noteq> storage_mode_compact \<and> out_of_place pm")
  case True
  then have eq: "r = need_full_check" "pm' = pm\<lparr>manager_state := manager_expand_pieces, current_slot := 0\<rparr>"
    using res by (auto simp: finish_check_def)
  have "scratch_piece pm < 0" using ok by (simp add: check_ok_def)
  then have "check_todo env pm' \<le> 2 * nat (num_slots env) + 1"
    using card_misplaced [of env pm'] by (simp add: eq check_todo_def expand_todo_def)
  then show ?thesis using check_ok_expand [OF ok f n] True by (simp add: eq check_phase_def)
next
  case False
  have gd: "good env (slot_data pm) p (at (piece_to_slot pm) p)" if "p \<in> found" for p
    using ok f that by (simp add: check_ok_def placing_def all_good_def)
  then have gp: "good env (slot_data pm) p p" if "p \<in> found" "\<not> out_of_place pm" for p
    using that f ip unfolding in_place_def by metis
  show ?thesis
    using res False gd gp
    by (auto simp: finish_check_def check_complete_def check_init_storage_def switch_to_full_mode_def slot_for_def split: if_splits)
qed

lemma check_files_ok:
  assumes ph: "check_phase env m found pm" and sz: "sizes_ok env" and h: "hashes_ok env"
    and res: "check_files env True num_read next_data pm = (r, have, pm')"
    and found': "found' = (if have \<ge> 0 then insert have found else found)"
  shows "r = no_error \<and> check_complete env m found' pm'
    \<or> r = need_full_check \<and> check_phase env m found' pm' \<and> check_todo env pm' < check_todo env pm"
proof -
  have m: "storage_mode pm = m" and n: "num_slots env \<ge> 0" using ph sz by (auto simp: check_phase_def sizes_ok_def num_slots_def)
  consider "manager_state pm = manager_expand_pieces" | "manager_state pm = manager_full_check"
    using ph by (auto simp: check_phase_def split: manager_state.splits)
  then show ?thesis
  proof cases
    case 1
    then have ok: "expand_ok env found pm" "m \<noteq> storage_mode_compact" using ph by (auto simp: check_phase_def)
    have eq: "expand_pieces env pm = (r, pm')" "found' = found" using res 1 found' by (auto simp: check_files_def split: prod.splits)
    note E = expand_pieces_ok [OF ok(1) sz 1 eq(1)] expand_mode [OF eq(1)] expand_result [OF eq(1) 1]
    then show ?thesis using 1 ok m
      by (cases r) (auto simp: check_phase_def check_complete_def check_todo_def finish_ok_def slot_for_def eq(2))
  next
    case 2
    then have ok: "check_ok env (current_slot pm) pm" "current_slot pm < num_slots env" "\<forall>p \<in> found. at (piece_to_slot pm) p \<ge> 0"
      "\<not> out_of_place pm \<longrightarrow> in_place pm" using ph by (auto simp: check_phase_def)
    obtain skip hv pm1 where one: "check_one_piece env num_read next_data pm = (skip, hv, pm1)"
      by (cases "check_one_piece env num_read next_data pm")
    define pm2 where "pm2 = (skip_slots skip pm1)\<lparr>current_slot := current_slot (skip_slots skip pm1) + 1\<rparr>"
    note O = check_one_piece_ok [OF ok(1,2) sz h one]
    have later: "current_slot pm2 \<ge> current_slot pm + 1" using O skip_slots_fields(8) [of pm1 skip] by (simp add: pm2_def)
    have "check_ok env (current_slot pm + 1) pm2"
      using O check_ok_cong [of pm2 pm1 env] by (simp add: pm2_def skip_slots_fields)
    then have ok2: "check_ok env (current_slot pm2) pm2" using check_ok_later later by blast
    have same: "piece_to_slot pm2 = piece_to_slot pm1" "out_of_place pm2 = out_of_place pm1" "manager_state pm2 = manager_full_check"
      "storage_mode pm2 = m" using O 2 m by (simp_all add: pm2_def skip_slots_fields)
    have ip: "\<not> out_of_place pm2 \<longrightarrow> in_place pm2"
      using check_one_piece_in_place [OF ok(1,2) _ one] ok(4) check_one_piece_out [OF one] unfolding same in_place_def by blast
    have hv: "have = hv" "found' = (if hv \<ge> 0 then insert hv found else found)"
      using res 2 one found' by (auto simp: check_files_def Let_def split: prod.splits if_splits)
    have f2: "\<forall>p \<in> found'. at (piece_to_slot pm2) p \<ge> 0"
      using O ok(3) unfolding hv same by auto
    show ?thesis
    proof (cases "current_slot pm2 \<ge> num_slots env")
      case True
      then have "finish_check pm2 = (r, pm')"
        using res 2 one by (auto simp: check_files_def Let_def pm2_def num_slots_def split: prod.splits)
      from finish_check_ok [OF ok2 f2 ip n this] show ?thesis using 2 ok(2) by (auto simp: same check_todo_def)
    next
      case False
      then have "r = need_full_check" "pm' = pm2"
        using res 2 one by (auto simp: check_files_def Let_def pm2_def num_slots_def)
      then show ?thesis using False ok2 f2 ip later 2 same ok(2) by (auto simp: check_phase_def check_todo_def)
    qed
  qed
qed

lemma check_run_ok:
  assumes "check_phase env m (set found) pm" "sizes_ok env" "hashes_ok env" "check_todo env pm \<le> length answers"
  shows "\<exists>found' pm'. check_run env answers found pm = Some (found', pm') \<and> check_complete env m (set found') pm'"
  using assms
proof (induction answers arbitrary: found pm)
  case Nil
  then show ?case by (simp add: check_todo_def split: if_splits)
next
  case (Cons a answers)
  obtain num_read next_data where a: "a = (num_read, next_data)" by (cases a)
  obtain r hv pm1 where res: "check_files env True num_read next_data pm = (r, hv, pm1)" by (cases "check_files env True num_read next_data pm")
  define found1 where "found1 = (if hv \<ge> 0 then found @ [hv] else found)"
  have "set found1 = (if hv \<ge> 0 then insert hv (set found) else set found)" by (simp add: found1_def)
  note C = check_files_ok [OF Cons.prems(1-3) res this]
  show ?case
  proof (cases "r = no_error")
    case True
    then show ?thesis using C res by (simp add: a found1_def)
  next
    case False
    then show ?thesis using C res Cons.IH [of found1 pm1] Cons.prems by (simp add: a found1_def)
  qed
qed

end
