(* ===== verification/Slot_Claims.thy ===== *)
theory Slot_Claims
  imports Slot_Run
begin

text \<open>
  What the storage promises: the slots are a map from pieces to their bytes, the hash that is computed
  while a piece is written is the hash of what is stored, and a check ends with the pieces it found in
  the files.
\<close>

section \<open>The hash of a piece that is written\<close>

definition write_blocks :: "('b, 'h) store_env \<Rightarrow> int \<Rightarrow> (int \<times> 'b list) list \<Rightarrow> 'b piece_manager \<Rightarrow> 'b piece_manager" where
  "write_blocks env p blocks pm = fold (\<lambda>(offset, bs). write_impl env p offset bs) blocks pm"

definition blocks_ok :: "int \<Rightarrow> (int \<times> 'b list) list \<Rightarrow> bool" where
  "blocks_ok n blocks \<longleftrightarrow>
     list_all (\<lambda>(offset, bs). bs \<noteq> [] \<and> 0 \<le> offset \<and> offset + int (length bs) \<le> n) blocks
   \<and> sorted_wrt (\<lambda>(o1, b1) (o2, b2). o1 + int (length b1) \<le> o2 \<or> o2 + int (length b2) \<le> o1) blocks"

text \<open>What was hashed of a piece is the beginning of what is stored, and lies in the blocks that were written.\<close>

definition hashed_ok :: "('b, 'h) store_env \<Rightarrow> int \<Rightarrow> (int \<times> 'b list) list \<Rightarrow> 'b piece_manager \<Rightarrow> bool" where
  "hashed_ok env p written pm \<longleftrightarrow>
     (written \<noteq> [] \<longrightarrow> stored env pm p \<noteq> None)
   \<and> (\<forall>(offset, bs) \<in> set written. \<forall>xs. stored env pm p = Some xs \<longrightarrow> take (length bs) (drop (nat offset) xs) = bs)
   \<and> (\<forall>ph. piece_hasher pm p = Some ph \<longrightarrow> 0 < ph_offset ph \<and> ph_offset ph \<le> slot_size env p
        \<and> (\<forall>xs. stored env pm p = Some xs \<longrightarrow> ph_bytes ph = take (nat (ph_offset ph)) xs)
        \<and> (\<forall>i. 0 \<le> i \<and> i < ph_offset ph \<longrightarrow> (\<exists>(offset, bs) \<in> set written. offset \<le> i \<and> i < offset + int (length bs))))"

lemma hasher_written:
  "piece_hasher (write_impl env p offset bs pm) = piece_hasher (hash_written p offset bs (snd (allocate_slot_for_piece env p pm)))"
  by (simp add: write_impl_def hash_written_def Let_def case_prod_beta split: option.split)

lemma allocate_hasher:
  "manager_ok env pm \<Longrightarrow> sizes_ok env \<Longrightarrow> 0 \<le> p \<Longrightarrow> p < num_slots env \<Longrightarrow> piece_hasher (snd (allocate_slot_for_piece env p pm)) = piece_hasher pm"
  using allocate_slot_for_piece_ok [of env pm p] by (cases "allocate_slot_for_piece env p pm") (auto simp: slot_given_def)

lemma splice_take: "nat k \<le> nat offset \<Longrightarrow> nat offset \<le> length xs \<Longrightarrow> take (nat k) (splice offset bs xs) = take (nat k) xs"
  by (simp add: splice_def)

lemma splice_take_after:
  "0 \<le> offset \<Longrightarrow> nat offset + length bs \<le> length xs \<Longrightarrow> take (nat (offset + int (length bs))) (splice offset bs xs) = take (nat offset) xs @ bs"
  by (simp add: splice_def nat_add_distrib)

lemma splice_slice:
  "0 \<le> offset \<Longrightarrow> nat offset + length bs \<le> length xs \<Longrightarrow> take (length bs) (drop (nat offset) (splice offset bs xs)) = bs"
  by (simp add: splice_def)

lemma length_splice: "0 \<le> offset \<Longrightarrow> nat offset + length bs \<le> length xs \<Longrightarrow> length (splice offset bs xs) = length xs"
  by (simp add: splice_def)

lemma splice_nth:
  "0 \<le> offset \<Longrightarrow> nat offset + length bs \<le> length xs \<Longrightarrow> k < nat offset \<or> nat offset + length bs \<le> k \<Longrightarrow> k < length xs \<Longrightarrow>
   splice offset bs xs ! k = xs ! k"
  by (auto simp: splice_def nth_append min_def)

lemma splice_apart:
  assumes "0 \<le> o1" "0 \<le> o2" "nat o1 + n1 \<le> length xs" "nat o2 + length bs \<le> length xs"
    "o1 + int n1 \<le> o2 \<or> o2 + int (length bs) \<le> o1"
  shows "take n1 (drop (nat o1) (splice o2 bs xs)) = take n1 (drop (nat o1) xs)"
  using assms by (intro nth_equalityI) (auto simp: length_splice intro!: splice_nth)

lemma hashed_write:
  assumes ok: "manager_ok env pm" and sz: "sizes_ok env" and p: "0 \<le> p" "p < num_slots env"
    and blk: "blocks_ok (slot_size env p) (written @ [(offset, bs)])" and h: "hashed_ok env p written pm"
  shows "hashed_ok env p (written @ [(offset, bs)]) (write_impl env p offset bs pm)"
proof -
  have b: "bs \<noteq> []" "0 \<le> offset" "offset + int (length bs) \<le> slot_size env p"
    and apart: "\<And>o1 b1. (o1, b1) \<in> set written \<Longrightarrow> 0 \<le> o1 \<and> o1 + int (length b1) \<le> slot_size env p \<and>
      (o1 + int (length b1) \<le> offset \<or> offset + int (length bs) \<le> o1)"
    using blk by (auto simp: blocks_ok_def sorted_wrt_append list_all_iff)
  note W = write_impl_ok [OF ok sz p b(2,3)]
  from W(3) obtain ys where st: "stored env (write_impl env p offset bs pm) p = Some (splice offset bs ys)"
    and len: "length ys = nat (slot_size env p)" and old: "stored env pm p \<noteq> None \<longrightarrow> stored env pm p = Some ys" by blast
  have fits: "nat offset + length bs \<le> length ys" using b len by simp
  have "take (length b1) (drop (nat o1) (splice offset bs ys)) = b1" if "(o1, b1) \<in> set (written @ [(offset, bs)])" for o1 b1
  proof (cases "(o1, b1) \<in> set written")
    case True
    note A = apart [OF True]
    have "stored env pm p = Some ys" using h old True by (auto simp: hashed_ok_def)
    then have "take (length b1) (drop (nat o1) ys) = b1" using h True by (auto simp: hashed_ok_def)
    moreover have "take (length b1) (drop (nat o1) (splice offset bs ys)) = take (length b1) (drop (nat o1) ys)"
      using A len by (intro splice_apart [OF _ b(2) _ fits]) auto
    ultimately show ?thesis by simp
  next
    case False
    then show ?thesis using that splice_slice [OF b(2) fits] by simp
  qed
  moreover have "0 < ph_offset ph \<and> ph_offset ph \<le> slot_size env p \<and> ph_bytes ph = take (nat (ph_offset ph)) (splice offset bs ys)
      \<and> (\<forall>i. 0 \<le> i \<and> i < ph_offset ph \<longrightarrow> (\<exists>(o1, b1) \<in> set (written @ [(offset, bs)]). o1 \<le> i \<and> i < o1 + int (length b1)))"
    if ph: "piece_hasher (write_impl env p offset bs pm) p = Some ph" for ph
  proof -
    have before: "piece_hasher (snd (allocate_slot_for_piece env p pm)) = piece_hasher pm" by (rule allocate_hasher [OF ok sz p])
    show ?thesis
    proof (cases "piece_hasher pm p")
      case None
      then have "offset = 0" "ph = \<lparr>ph_offset = int (length bs), ph_bytes = bs\<rparr>"
        using ph by (auto simp: hasher_written hash_written_def Let_def before split: if_splits)
      then show ?thesis using splice_take_after [OF b(2) fits] b by auto
    next
      case (Some ph0)
      have H: "0 < ph_offset ph0" "ph_offset ph0 \<le> slot_size env p"
        "\<And>i. 0 \<le> i \<Longrightarrow> i < ph_offset ph0 \<Longrightarrow> \<exists>(o1, b1) \<in> set written. o1 \<le> i \<and> i < o1 + int (length b1)"
        using h Some by (auto simp: hashed_ok_def)
      have first: "ph_offset ph0 \<le> offset"
      proof (rule ccontr)
        assume "\<not> ph_offset ph0 \<le> offset"
        then obtain o1 b1 where "(o1, b1) \<in> set written" "o1 \<le> offset" "offset < o1 + int (length b1)" using H(3) [of offset] b(2) by auto
        then show False using apart [of o1 b1] b(1) by (cases bs) auto
      qed
      obtain o1 b1 where "(o1, b1) \<in> set written" using H(1) H(3) [of 0] by auto
      then have "stored env pm p = Some ys" using h old by (auto simp: hashed_ok_def)
      then have bytes: "ph_bytes ph0 = take (nat (ph_offset ph0)) ys" using h Some by (auto simp: hashed_ok_def)
      have eq: "ph = (if offset = ph_offset ph0 then \<lparr>ph_offset = ph_offset ph0 + int (length bs), ph_bytes = ph_bytes ph0 @ bs\<rparr> else ph0)"
        using ph Some H(1) first by (auto simp: hasher_written hash_written_def Let_def before split: if_splits)
      have "take (nat (ph_offset ph0)) (splice offset bs ys) = take (nat (ph_offset ph0)) ys"
        using first fits b(2) by (intro splice_take) auto
      moreover have "\<exists>(o1, b1) \<in> set (written @ [(offset, bs)]). o1 \<le> i \<and> i < o1 + int (length b1)"
        if "0 \<le> i" "i < ph_offset ph" for i
        using that H(3) [of i] eq by (cases "i < ph_offset ph0") (auto split: if_splits)
      ultimately show ?thesis
        using eq H(1,2) bytes splice_take_after [OF b(2) fits] b(3) by (cases "offset = ph_offset ph0") auto
    qed
  qed
  ultimately show ?thesis using st by (auto simp: hashed_ok_def)
qed

lemma write_blocks_ok:
  assumes "manager_ok env pm" "sizes_ok env" "0 \<le> p" "p < num_slots env"
    "blocks_ok (slot_size env p) (written @ blocks)" "hashed_ok env p written pm"
  shows "manager_ok env (write_blocks env p blocks pm) \<and> hashed_ok env p (written @ blocks) (write_blocks env p blocks pm)
    \<and> (\<forall>q. q \<noteq> p \<longrightarrow> stored env (write_blocks env p blocks pm) q = stored env pm q)"
  using assms
proof (induction blocks arbitrary: written pm)
  case Nil
  then show ?case by (simp add: write_blocks_def)
next
  case (Cons b blocks)
  obtain offset bs where b: "b = (offset, bs)" by (cases b)
  have blk: "blocks_ok (slot_size env p) (written @ [(offset, bs)])" and r: "0 \<le> offset" "offset + int (length bs) \<le> slot_size env p"
    using Cons.prems(5) by (auto simp: b blocks_ok_def sorted_wrt_append)
  note W = write_impl_ok [OF Cons.prems(1-4) r]
  have "write_blocks env p (b # blocks) pm = write_blocks env p blocks (write_impl env p offset bs pm)"
    by (simp add: write_blocks_def b)
  then show ?case
    using Cons.IH [of "write_impl env p offset bs pm" "written @ [(offset, bs)]"] W(1,2) Cons.prems(2-5)
      hashed_write [OF Cons.prems(1-4) blk Cons.prems(6)] by (simp add: b)
qed

lemma slot_size_pos: "sizes_ok env \<Longrightarrow> 0 < slot_size env p"
  by (cases "p = last_slot env") (auto simp: sizes_ok_def slot_size_def piece_size_def last_slot_def)

lemma hash_for_piece_stored:
  assumes ok: "manager_ok env pm" and sz: "sizes_ok env" and h: "hashed_ok env p written pm" and st: "stored env pm p = Some xs"
  shows "fst (hash_for_piece_impl env p pm) = hash_of env xs"
proof -
  note X = stored_SomeD [OF st]
  have tail: "read_impl env p k (nat (slot_size env p - k)) pm = drop (nat k) xs" if "0 \<le> k" "k \<le> slot_size env p" for k
    using read_impl_stored [OF ok sz st that(1), of "nat (slot_size env p - k)"] that X(5) by simp
  show ?thesis
  proof (cases "piece_hasher pm p")
    case None
    then show ?thesis using tail [of 0] slot_size_pos [OF sz, of p] by (simp add: hash_for_piece_impl_def)
  next
    case (Some ph)
    then have "0 < ph_offset ph" "ph_offset ph \<le> slot_size env p" "ph_bytes ph = take (nat (ph_offset ph)) xs"
      using h st by (auto simp: hashed_ok_def)
    then show ?thesis using Some tail [of "ph_offset ph"] by (simp add: hash_for_piece_impl_def)
  qed
qed

section \<open>Examples\<close>

text \<open>Three pieces, the last one of one byte; the hash of a piece is the piece itself.\<close>

definition demo_slot_env :: "(nat, nat list) store_env" where
  "demo_slot_env = \<lparr>st_files = \<lparr>m_piece_length = 2, m_files = [new_file_entry\<lparr>fe_path := [''a''], fe_size := 5\<rparr>],
       m_total_size = 5, m_num_pieces = 3, m_name = ''a''\<rparr>,
     hash_of = (\<lambda>bs. bs), piece_hash = (\<lambda>p. if p = 2 then [5] else [nat (2 * p) + 1, nat (2 * p) + 2]), no_hash = [], stale = (\<lambda>i. 0)\<rparr>"

definition demo_manager :: "storage_mode \<Rightarrow> nat list list \<Rightarrow> nat piece_manager" where
  "demo_manager mode slots = \<lparr>storage_mode = mode, unallocated_slots = [], free_slots = [], piece_to_slot = [],
     slot_to_piece = [], manager_state = manager_none, current_slot = 0, out_of_place = False, scratch_piece = -1,
     scratch_buffer = (\<lambda>i. 0), piece_hasher = (\<lambda>p. None),
     slot_data = (\<lambda>s i. if 0 \<le> s \<and> nat s < length slots \<and> 0 \<le> i \<and> nat i < length (slots ! nat s) then slots ! nat s ! nat i else 0)\<rparr>"

text \<open>Piece 1 is in slot 0, and the other slots are not allocated.\<close>

definition demo_compact :: "nat piece_manager" where
  "demo_compact = (demo_manager storage_mode_compact [[3, 4]])\<lparr>unallocated_slots := [1, 2], piece_to_slot := [has_no_slot, 0, has_no_slot],
     slot_to_piece := [1, unallocated, unallocated]\<rparr>"

definition demo_compact_fresh :: "nat piece_manager" where
  "demo_compact_fresh = demo_manager storage_mode_compact [[3, 4]]"

definition no_resume_data :: resume_data where
  "no_resume_data = \<lparr>rd_kind = resume_none, rd_blocks_per_piece = -1, rd_compact = False, rd_verified = True, rd_slots = None,
     rd_has_pieces = False, rd_pieces = None\<rparr>"

definition saved_slots :: "'b piece_manager \<Rightarrow> resume_data" where
  "saved_slots pm = no_resume_data\<lparr>rd_kind := resume_dict, rd_compact := True, rd_slots := Some (map Some (resume_slots pm))\<rparr>"

lemma demo_env_simps:
  "num_slots demo_slot_env = 3" "slot_size demo_slot_env p = (if p = 2 then 1 else 2)" "last_slot demo_slot_env = 2"
  "hash_of demo_slot_env = (\<lambda>bs. bs)" "m_piece_length (st_files demo_slot_env) = 2" "m_num_pieces (st_files demo_slot_env) = 3"
  by (simp_all add: demo_slot_env_def num_slots_def slot_size_def last_slot_def piece_size_def)

lemma demo_sizes: "sizes_ok demo_slot_env"
  by (simp add: sizes_ok_def demo_env_simps)

lemma demo_hashes: "hashes_ok demo_slot_env"
  by (simp add: hashes_ok_def demo_env_simps) (simp add: demo_slot_env_def)

lemma demo_compact_ok: "manager_ok demo_slot_env demo_compact"
proof -
  have at3: "at [a, b, c] s = (if s = 0 then a else if s = 1 then b else if s = 2 then c else -4)" for a b c s
    by (auto simp: at_def nth_Cons' nat_eq_iff)
  show ?thesis
    by (auto simp: manager_ok_def demo_compact_def demo_manager_def slots_ok_def tables_ok_def linked_def inverse_tables_def demo_env_simps
        no_entries at3)
qed

section \<open>The promises\<close>

text \<open>C14. The slots refine a map from pieces to their bytes: a write keeps the invariant, whatever slots are
  allocated and whatever pieces are moved for it, changes the bytes of its piece where it says, leaves every other piece as it
  was, and what was written is read back.\<close>

theorem storage_refines_pieces:
  assumes "manager_ok env pm" "sizes_ok env" "0 \<le> p" "p < num_slots env" "0 \<le> offset" "offset + int (length bs) \<le> slot_size env p"
  shows "let pm' = write_impl env p offset bs pm
    in manager_ok env pm' \<and> (\<forall>q. q \<noteq> p \<longrightarrow> stored env pm' q = stored env pm q)
     \<and> (\<exists>ys. stored env pm' p = Some (splice offset bs ys) \<and> length ys = nat (slot_size env p)
          \<and> (stored env pm p \<noteq> None \<longrightarrow> stored env pm p = Some ys))
     \<and> read_impl env p offset (length bs) pm' = bs"
proof -
  define pm' where "pm' = write_impl env p offset bs pm"
  note W = write_impl_ok [OF assms(1-6)]
  from W(3) obtain ys where st: "stored env pm' p = Some (splice offset bs ys)" "length ys = nat (slot_size env p)"
    "stored env pm p \<noteq> None \<longrightarrow> stored env pm p = Some ys" unfolding pm'_def by blast
  have "read_impl env p offset (length bs) pm' = take (length bs) (drop (nat offset) (splice offset bs ys))"
    by (rule read_impl_stored [OF _ assms(2) st(1) assms(5,6)]) (use W(1) pm'_def in simp)
  then show ?thesis using W(1,2) st splice_slice [of offset bs ys] assms(5,6) by (auto simp: Let_def pm'_def [symmetric])
qed

theorem storage_refines_pieces_witness:
  "stored demo_slot_env (write_impl demo_slot_env 0 1 [9] demo_compact) 1 = Some [3, 4]
   \<and> read_impl demo_slot_env 0 1 1 (write_impl demo_slot_env 0 1 [9] demo_compact) = [9]"
proof -
  have "stored demo_slot_env demo_compact 1 = Some [3, 4]" by code_simp
  with storage_refines_pieces [OF demo_compact_ok demo_sizes, of 0 1 "[9]"] show ?thesis by (simp add: demo_env_simps Let_def)
qed

text \<open>C16. A piece that is written in blocks, in any order, is hashed while it is written, as far as the blocks
  are in order, and the rest is read from its slot: the hash is the hash of what is stored, and the blocks are stored.\<close>

theorem hash_of_written_piece:
  assumes "manager_ok env pm" "sizes_ok env" "0 \<le> p" "p < num_slots env" "piece_hasher pm p = None"
    "blocks_ok (slot_size env p) blocks" "blocks \<noteq> []"
  shows "\<exists>xs. stored env (write_blocks env p blocks pm) p = Some xs
     \<and> fst (hash_for_piece_impl env p (write_blocks env p blocks pm)) = hash_of env xs
     \<and> (\<forall>(offset, bs) \<in> set blocks. take (length bs) (drop (nat offset) xs) = bs)"
proof -
  have "hashed_ok env p [] pm" using assms(5) by (simp add: hashed_ok_def)
  from write_blocks_ok [OF assms(1-4) _ this, of blocks] assms(6)
  have W: "manager_ok env (write_blocks env p blocks pm)" "hashed_ok env p blocks (write_blocks env p blocks pm)" by auto
  then obtain xs where st: "stored env (write_blocks env p blocks pm) p = Some xs" using assms(7) by (auto simp: hashed_ok_def)
  with hash_for_piece_stored [OF W(1) assms(2) W(2) st] W(2) show ?thesis by (auto simp: hashed_ok_def)
qed

theorem hash_of_written_piece_witness:
  "fst (hash_for_piece_impl demo_slot_env 0 (write_blocks demo_slot_env 0 [(1, [8]), (0, [7])] demo_compact)) = [7, 8]"
proof -
  have "stored demo_slot_env (write_blocks demo_slot_env 0 [(1, [8]), (0, [7])] demo_compact) 0 = Some [7, 8]" by code_simp
  moreover have "piece_hasher demo_compact 0 = None" by (simp add: demo_compact_def demo_manager_def)
  moreover have "blocks_ok (slot_size demo_slot_env 0) [(1, [8]), (0, [7 :: nat])]" by (simp add: blocks_ok_def demo_env_simps)
  ultimately show ?thesis
    using hash_of_written_piece [OF demo_compact_ok demo_sizes, of 0 "[(1, [8]), (0, [7])]"] by (simp add: demo_env_simps)
qed

section \<open>The check\<close>

lemma load_resume_fields:
  assumes "load_resume env rd pm = (Some e, pm')"
  shows "storage_mode pm' = storage_mode pm" "out_of_place pm' = out_of_place pm" "scratch_piece pm' = scratch_piece pm"
    "current_slot pm' = current_slot pm"
proof -
  have rs: "storage_mode (snd (read_slots n i es x)) = storage_mode x \<and> out_of_place (snd (read_slots n i es x)) = out_of_place x
      \<and> scratch_piece (snd (read_slots n i es x)) = scratch_piece x \<and> current_slot (snd (read_slots n i es x)) = current_slot x"
    for n i es and x :: "'a piece_manager"
    by (induction n i es x rule: read_slots.induct) auto
  show "storage_mode pm' = storage_mode pm" "out_of_place pm' = out_of_place pm" "scratch_piece pm' = scratch_piece pm"
    "current_slot pm' = current_slot pm"
    using assms rs by (auto simp: load_resume_def Let_def split: if_splits option.splits prod.splits dest!: arg_cong [where f = snd])
qed

lemma at_replicate: "at (replicate (nat n) v) i = (if 0 \<le> i \<and> i < n then v else -4)"
  by (auto simp: at_def)

lemma empty_tables_check_ok:
  assumes "sizes_ok env" "scratch_piece pm < 0" "current_slot pm = 0"
  shows "check_ok env (current_slot pm) (empty_tables env pm)"
  using assms
  by (auto simp: check_ok_def tables_ok_def linked_def inverse_tables_def placing_def all_good_def in_order_def empty_tables_def Let_def
      at_replicate no_entries num_slots_def sizes_ok_def)

lemma no_fastresume_phase:
  assumes "check_no_fastresume env has_files pm = (need_full_check, pm')" "sizes_ok env" "scratch_piece pm < 0" "current_slot pm = 0"
    "\<not> out_of_place pm"
  shows "check_phase env (storage_mode pm) {} pm' \<and> check_todo env pm' = 3 * nat (num_slots env) + 1"
proof -
  define pm1 where "pm1 = empty_tables env (pm\<lparr>manager_state := manager_full_check\<rparr>)"
  have pm': "pm' = (if storage_mode pm = storage_mode_compact then pm1\<lparr>unallocated_slots := [], free_slots := []\<rparr> else pm1)"
    using assms(1) by (auto simp: check_no_fastresume_def Let_def pm1_def empty_tables_def split: if_splits)
  have n: "num_slots env > 0" using assms(2) by (simp add: sizes_ok_def)
  have "check_ok env 0 pm1" using empty_tables_check_ok [OF assms(2), of "pm\<lparr>manager_state := manager_full_check\<rparr>"] assms(3,4) by (simp add: pm1_def)
  then have "check_ok env 0 pm'" using check_ok_cong [of pm' pm1 env] by (simp add: pm')
  moreover have "in_place pm1" using n by (auto simp: in_place_def pm1_def empty_tables_def Let_def at_replicate no_entries)
  then have "in_place pm'" by (simp add: in_place_def pm')
  moreover have "manager_state pm' = manager_full_check" "current_slot pm' = 0" "storage_mode pm' = storage_mode pm"
    using assms(4) by (simp_all add: pm' pm1_def empty_tables_def Let_def)
  ultimately show ?thesis using n by (simp add: check_phase_def check_todo_def)
qed

lemma fastresume_phase:
  assumes res: "check_fastresume env has_files rd pm = (need_full_check, e, pm')" and sz: "sizes_ok env" and fr: "scratch_piece pm < 0" "\<not> out_of_place pm"
  shows "check_phase env (storage_mode pm) {} pm' \<and> check_todo env pm' = 3 * nat (num_slots env) + 1"
proof -
  have "\<exists>pm1. check_no_fastresume env has_files pm1 = (need_full_check, pm') \<and> storage_mode pm1 = storage_mode pm \<and> scratch_piece pm1 < 0
      \<and> current_slot pm1 = 0 \<and> \<not> out_of_place pm1"
  proof -
    let ?pm = "pm\<lparr>current_slot := 0\<rparr>"
    show ?thesis
    proof (cases "check_no_fastresume env has_files ?pm = (need_full_check, pm')")
      case True
      then show ?thesis using fr by (intro exI [of _ ?pm]) simp
    next
      case False
      then obtain e' pm1 where l: "load_resume env rd ?pm = (Some e', pm1)" and "check_no_fastresume env has_files pm1 = (need_full_check, pm')"
        using res by (auto simp: check_fastresume_def Let_def split: if_splits option.splits prod.splits)
      then show ?thesis using load_resume_fields [OF l] fr by auto
    qed
  qed
  then show ?thesis using no_fastresume_phase [OF _ sz] by metis
qed

text \<open>C15. For a torrent whose hashes do not collide (\<open>hashes_ok\<close>: no two contents have the hash of a piece, a content
  with it has the size of the piece, and it is not the value that stands for no hash), the check of files without valid resume data ends after at
  most three calls for each piece and one more, whatever is read of the slots. If it also ends in the storage mode it began with,
  the pieces it reports are then in the slots where they are looked for, through all the moves, with the hash of the piece. If it
  leaves the compact mode at its end nothing is stated of the pieces: one may be lost (\<open>skipped_slot_lost\<close>).\<close>

theorem check_finds_pieces:
  assumes "check_fastresume env has_files rd pm = (need_full_check, e, pm0)" "sizes_ok env" "hashes_ok env"
    "scratch_piece pm < 0" "\<not> out_of_place pm" "length answers > 3 * nat (num_slots env)"
  shows "\<exists>found pm'. check_run env answers [] pm0 = Some (found, pm') \<and> manager_state pm' = manager_finished
    \<and> (storage_mode pm' = storage_mode pm \<longrightarrow>
        (\<forall>p \<in> set found. slot_hash env (slot_for p pm') (slot_size env p) (slot_data pm') = piece_hash env p))"
proof -
  note P = fastresume_phase [OF assms(1,2,4,5)]
  have "check_todo env pm0 \<le> length answers" using P assms(6) by simp
  from check_run_ok [of env "storage_mode pm" "[]" pm0 answers, OF _ assms(2,3) this] P
  obtain found pm' where "check_run env answers [] pm0 = Some (found, pm')" "check_complete env (storage_mode pm) (set found) pm'" by auto
  then show ?thesis by (auto simp: check_complete_def good_def)
qed

definition demo_shuffled :: "nat piece_manager" where
  "demo_shuffled = demo_manager storage_mode_sparse [[3, 4], [5, 0], [1]]"

theorem check_finds_pieces_witness:
  "let pm0 = snd (snd (check_fastresume demo_slot_env True no_resume_data demo_shuffled));
       run = check_run demo_slot_env (replicate 10 (2, 0)) [] pm0
   in run \<noteq> None \<and> manager_state (snd (the run)) = manager_finished"
proof -
  define pm0 where "pm0 = snd (snd (check_fastresume demo_slot_env True no_resume_data demo_shuffled))"
  have c: "check_fastresume demo_slot_env True no_resume_data demo_shuffled = (need_full_check, None, pm0)"
    by (simp add: pm0_def check_fastresume_def Let_def no_resume_data_def check_no_fastresume_def demo_shuffled_def demo_manager_def)
  from check_finds_pieces [OF c demo_sizes demo_hashes, of "replicate 10 (2, 0)"]
  show ?thesis unfolding pm0_def [symmetric] by (auto simp: demo_shuffled_def demo_manager_def demo_env_simps)
qed

text \<open>
  A torrent in compact mode is saved and loaded: the slots after the last allocated one are missing in
  the list, so that no slot is unallocated, and the tables are dropped although piece 1 is in slot 0.
\<close>

theorem resume_loses_pieces:
  "stored demo_slot_env demo_compact 1 = Some [3, 4]
   \<and> (case check_fastresume demo_slot_env True (saved_slots demo_compact) demo_compact_fresh of
        (r, e, pm) \<Rightarrow> r = no_error \<and> e = None \<and> storage_mode pm = storage_mode_sparse \<and> stored demo_slot_env pm 1 = Some [0, 0])"
  by code_simp

text \<open>A slot that cannot be read is not added to the unallocated slots, and the tables are dropped although piece 2 is in slot 0.\<close>

theorem skipped_slot_lost:
  "let pm = demo_manager storage_mode_compact [[5, 0]];
       pm0 = snd (snd (check_fastresume demo_slot_env True no_resume_data pm))
   in case check_run demo_slot_env [(2, 0), (2, 0), (0, 0)] [] pm0 of
        Some (found, pm) \<Rightarrow> found = [2] \<and> storage_mode pm = storage_mode_sparse \<and> stored demo_slot_env pm 2 = Some [0]
      | None \<Rightarrow> False"
  by code_simp

end
