(* ===== verification/Peer_List.thy ===== *)
theory Peer_List
  imports IP_Filter Picker_Ops
begin

text \<open>
  The list of the peers a torrent knows (\<open>src/policy.cpp\<close>, \<open>policy\<close>): it is sorted by address, new peers
  come from trackers, other peers and incoming connections, the best one to connect to is looked up,
  and old ones are dropped when the list is full. Two counters are kept along with it: how many peers
  could be connected to, and how many are seeds. An entry is an object with a handle; a handle of an
  entry that was erased is not followed. What reads an entry after it was erased is undefined.

  The sockets, the connections and the settings of the session are arguments. The peers that are added
  to the DHT when they are looked at are only marked_peers here.
\<close>

unbundle bit_operations_syntax

section \<open>Addresses\<close>

instantiation address :: linorder
begin

fun less_eq_address :: "address \<Rightarrow> address \<Rightarrow> bool" where
  "less_eq_address (V4 a) (V4 b) = (a \<le> b)"
| "less_eq_address (V4 a) (V6 b) = True"
| "less_eq_address (V6 a) (V4 b) = False"
| "less_eq_address (V6 a) (V6 b) = (a \<le> b)"

definition less_address :: "address \<Rightarrow> address \<Rightarrow> bool" where
  "less_address a b \<longleftrightarrow> a \<le> b \<and> \<not> b \<le> a"

instance
proof
  fix x y z :: address
  show "(x < y) = (x \<le> y \<and> \<not> y \<le> x)" by (simp add: less_address_def)
  show "x \<le> x" by (cases x) auto
  show "x \<le> y \<Longrightarrow> y \<le> z \<Longrightarrow> x \<le> z" by (cases x; cases y; cases z) auto
  show "x \<le> y \<Longrightarrow> y \<le> x \<Longrightarrow> x = y" by (cases x; cases y) auto
  show "x \<le> y \<or> y \<le> x" by (cases x; cases y) auto
qed

end

text \<open>\<open>cidr_distance\<close>: how many bits from the right two addresses differ in.\<close>

fun bit_length :: "nat \<Rightarrow> nat" where
  "bit_length a = (if a = 0 then 0 else Suc (bit_length (a div 2)))"

declare bit_length.simps [simp del]

fun common_bits :: "8 word list \<Rightarrow> 8 word list \<Rightarrow> nat" where
  "common_bits (a # as) (b # bs) = (if a XOR b = 0 then 8 + common_bits as bs else 8 - bit_length (unat (a XOR b)))"
| "common_bits _ _ = 0"

fun v6_bytes :: "address \<Rightarrow> 8 word list" where
  "v6_bytes (V4 a) = replicate 10 0 @ [255, 255] @ a"
| "v6_bytes (V6 a) = a"

fun cidr_distance :: "address \<Rightarrow> address \<Rightarrow> nat" where
  "cidr_distance (V4 a) (V4 b) = 32 - common_bits a b"
| "cidr_distance a b = 128 - common_bits (v6_bytes a) (v6_bytes b)"

text \<open>Local IPv4 addresses; whether an IPv6 address is link-local is asked of the address.\<close>

fun is_local :: "(address \<Rightarrow> bool) \<Rightarrow> address \<Rightarrow> bool" where
  "is_local link_local (V6 a) = link_local (V6 a)"
| "is_local link_local (V4 a) =
     (case a of b # c # _ \<Rightarrow> b = 10 \<or> b = 172 \<and> c AND 240 = 16 \<or> b = 192 \<and> c = 168 \<or> b = 169 \<and> c = 254 | _ \<Rightarrow> False)"

section \<open>Rate limits\<close>

text \<open>
  \<open>ufloat16\<close> is to hold a rate in 16 bits, a number and an exponent. The two are combined with the
  logical operator \<open>||\<close>.
\<close>

function shrink :: "int \<Rightarrow> nat \<Rightarrow> int \<times> nat" where
  "shrink v e = (if v > 0x1fff then shrink (v div 2) (Suc e) else (v, e))"
  by auto
termination by (relation "measure (\<lambda>(v, e). nat v)") auto

definition ufloat16_store :: "int \<Rightarrow> int" where
  "ufloat16_store v =
     (if v > push_bit (7 + 4) 0x1fff then 0xffff
      else if v \<le> 0 then 0
      else let (v, e) = shrink (drop_bit 4 v) 4 in if push_bit 3 v \<noteq> 0 \<or> e mod 8 \<noteq> 0 then 1 else 0)"

definition ufloat16_load :: "int \<Rightarrow> int" where
  "ufloat16_load m = push_bit (nat (m AND 7) + 4) (drop_bit 3 m)"

section \<open>Data\<close>

type_synonym source = "6 word"

definition tracker :: source where "tracker = 1"
definition dht :: source where "dht = 2"
definition pex :: source where "pex = 4"
definition lsd :: source where "lsd = 8"
definition from_resume_data :: source where "from_resume_data = 16"
definition incoming :: source where "incoming = 32"

definition source_rank :: "source \<Rightarrow> int" where
  "source_rank s =
     (let ret = 0; ret = (if s AND tracker \<noteq> 0 then ret OR 32 else ret); ret = (if s AND lsd \<noteq> 0 then ret OR 16 else ret);
          ret = (if s AND dht \<noteq> 0 then ret OR 8 else ret)
      in if s AND pex \<noteq> 0 then ret OR 4 else ret)"

record peer_entry =
  pe_handle :: nat
  pe_address :: address
  pe_port :: "16 word"
  pe_source :: source
  pe_connection :: ptr
  last_connected :: int
  failcount :: int
  connectable :: bool
  optimistically_unchoked :: bool
  pe_seed :: bool
  pe_support :: bool
  pe_banned :: bool
  added_to_dht :: bool
  prev_amount_upload :: int
  prev_amount_download :: int
  upload_rate_limit :: int
  download_rate_limit :: int

definition new_entry :: "nat \<Rightarrow> address \<Rightarrow> 16 word \<Rightarrow> bool \<Rightarrow> source \<Rightarrow> peer_entry" where
  "new_entry h a port conn src = \<lparr>pe_handle = h, pe_address = a, pe_port = port, pe_source = src, pe_connection = None,
     last_connected = 0, failcount = 0, connectable = conn, optimistically_unchoked = False, pe_seed = False, pe_support = True,
     pe_banned = False, added_to_dht = False, prev_amount_upload = 0, prev_amount_download = 0, upload_rate_limit = 0,
     download_rate_limit = 0\<rparr>"

record peer_list =
  m_peers :: "peer_entry list"
  m_round_robin :: int
  m_num_connect_candidates :: int
  m_num_seeds :: int
  m_finished :: bool
  t_picker :: "piece_picker option"

definition new_peer_list :: "piece_picker option \<Rightarrow> peer_list" where
  "new_peer_list pk = \<lparr>m_peers = [], m_round_robin = 0, m_num_connect_candidates = 0, m_num_seeds = 0, m_finished = False, t_picker = pk\<rparr>"

text \<open>The settings, and what the torrent and the session know.\<close>

record list_env =
  multiple_per_ip :: bool
  max_failcount :: int
  max_peerlist_size :: int
  max_paused_peerlist_size :: int
  paused :: bool
  min_reconnect_time :: int
  port_rules :: "16 word range list"
  ip_rules :: ip_filter
  link_local :: "address \<Rightarrow> bool"
  as_weight :: "(address \<Rightarrow> int) option"

definition peer_limit :: "list_env \<Rightarrow> int" where
  "peer_limit env = (if paused env then max_paused_peerlist_size env else max_peerlist_size env)"

text \<open>What a connection leaves behind when it is closed.\<close>

record close_info =
  ci_fast_reconnect :: bool
  ci_failed :: bool
  ci_upload_limit :: int
  ci_download_limit :: int

section \<open>Entries\<close>

definition entry_of :: "nat \<Rightarrow> peer_list \<Rightarrow> peer_entry option" where
  "entry_of h pl = List.find (\<lambda>p. pe_handle p = h) (m_peers pl)"

definition set_entry :: "nat \<Rightarrow> (peer_entry \<Rightarrow> peer_entry) \<Rightarrow> peer_list \<Rightarrow> peer_list" where
  "set_entry h f pl = pl\<lparr>m_peers := map (\<lambda>p. if pe_handle p = h then f p else p) (m_peers pl)\<rparr>"

definition is_connect_candidate :: "list_env \<Rightarrow> peer_entry \<Rightarrow> bool \<Rightarrow> bool" where
  "is_connect_candidate env p fin =
     (if pe_connection p \<noteq> None \<or> pe_banned p \<or> \<not> connectable p \<or> pe_seed p \<and> fin \<or> failcount p \<ge> max_failcount env then False
      else if odd (port_access (port_rules env) (pe_port p)) then False
      else if pe_port p < 1024 \<and> pe_source p = dht then False
      else True)"

definition candidate_now :: "list_env \<Rightarrow> peer_list \<Rightarrow> peer_entry \<Rightarrow> bool" where
  "candidate_now env pl p = is_connect_candidate env p (m_finished pl)"

definition is_erase_candidate :: "list_env \<Rightarrow> peer_list \<Rightarrow> peer_entry \<Rightarrow> bool" where
  "is_erase_candidate env pl p =
     (pe_connection p = None \<and> last_connected p \<noteq> 0 \<and> \<not> pe_banned p \<and> \<not> candidate_now env pl p)"

definition should_erase_immediately :: "peer_entry \<Rightarrow> bool" where
  "should_erase_immediately p = (pe_source p = from_resume_data \<and> failcount p > 0 \<and> \<not> pe_banned p)"

text \<open>Whether the first entry is a better one to erase, and to connect to.\<close>

definition compare_peer_erase :: "peer_entry \<Rightarrow> peer_entry \<Rightarrow> bool" where
  "compare_peer_erase lhs rhs =
     (let l = (pe_source lhs = from_resume_data); r = (pe_source rhs = from_resume_data)
      in if l \<noteq> r then l > r else failcount lhs > failcount rhs)"

definition compare_peer :: "list_env \<Rightarrow> bool \<Rightarrow> address \<Rightarrow> peer_entry \<Rightarrow> peer_entry \<Rightarrow> bool" where
  "compare_peer env fin external_ip lhs rhs =
     (let l = is_local (link_local env) (pe_address lhs); r = is_local (link_local env) (pe_address rhs);
          weight = (case as_weight env of Some w \<Rightarrow> if fin then (\<lambda>a. 0) else w | None \<Rightarrow> (\<lambda>a. 0))
      in if failcount lhs \<noteq> failcount rhs then failcount lhs < failcount rhs
         else if l \<noteq> r then l > r
         else if last_connected lhs \<noteq> last_connected rhs then last_connected lhs < last_connected rhs
         else if source_rank (pe_source lhs) \<noteq> source_rank (pe_source rhs) then source_rank (pe_source lhs) > source_rank (pe_source rhs)
         else if weight (pe_address lhs) \<noteq> weight (pe_address rhs) then weight (pe_address lhs) > weight (pe_address rhs)
         else cidr_distance external_ip (pe_address lhs) < cidr_distance external_ip (pe_address rhs))"

section \<open>Finding an address\<close>

definition lower :: "address \<Rightarrow> peer_list \<Rightarrow> nat" where
  "lower a pl = length (takeWhile (\<lambda>p. pe_address p < a) (m_peers pl))"

definition find_peers :: "address \<Rightarrow> peer_list \<Rightarrow> nat \<times> nat" where
  "find_peers a pl = (lower a pl, length (takeWhile (\<lambda>p. pe_address p \<le> a) (m_peers pl)))"

definition find_endpoint :: "address \<Rightarrow> 16 word \<Rightarrow> peer_list \<Rightarrow> nat \<times> bool" where
  "find_endpoint a port pl =
     (let (lo, hi) = find_peers a pl;
          i = lo + length (takeWhile (\<lambda>p. \<not> (pe_address p = a \<and> pe_port p = port)) (take (hi - lo) (drop lo (m_peers pl))))
      in (i, i \<noteq> hi))"

text \<open>The place of an endpoint in the list, and whether it is there.\<close>

definition locate_peer :: "list_env \<Rightarrow> address \<Rightarrow> 16 word \<Rightarrow> peer_list \<Rightarrow> nat \<times> bool" where
  "locate_peer env a port pl =
     (if multiple_per_ip env then find_endpoint a port pl
      else let i = lower a pl in (i, i \<noteq> length (m_peers pl) \<and> pe_address (m_peers pl ! i) = a))"

definition insert_entry :: "nat \<Rightarrow> peer_entry \<Rightarrow> peer_list \<Rightarrow> peer_list" where
  "insert_entry i p pl = pl\<lparr>m_peers := take i (m_peers pl) @ p # drop i (m_peers pl),
     m_round_robin := (if m_round_robin pl \<ge> int i then m_round_robin pl + 1 else m_round_robin pl)\<rparr>"

section \<open>Erasing\<close>

definition erase_entry :: "list_env \<Rightarrow> nat \<Rightarrow> peer_list \<Rightarrow> peer_list" where
  "erase_entry env i pl =
     (let p = m_peers pl ! i; n = int (length (m_peers pl));
          rr = (if m_round_robin pl > int i then m_round_robin pl - 1 else m_round_robin pl)
      in pl\<lparr>t_picker := map_option (clear_peer (Some (pe_handle p))) (t_picker pl),
            m_num_seeds := m_num_seeds pl - (if pe_seed p then 1 else 0),
            m_num_connect_candidates := m_num_connect_candidates pl - (if candidate_now env pl p then 1 else 0),
            m_round_robin := (if rr \<ge> n then 0 else rr),
            m_peers := take i (m_peers pl) @ drop (Suc i) (m_peers pl)\<rparr>)"

definition erase_peer :: "list_env \<Rightarrow> nat \<Rightarrow> peer_list \<Rightarrow> peer_list" where
  "erase_peer env h pl =
     (case entry_of h pl of None \<Rightarrow> pl
      | Some p \<Rightarrow> (case find_endpoint (pe_address p) (pe_port p) pl of (i, found) \<Rightarrow> if found then erase_entry env i pl else pl))"

text \<open>Whether there are so many entries that some are to be dropped: 95 percent of the limit.\<close>

definition nearly_full :: "int \<Rightarrow> peer_list \<Rightarrow> bool" where
  "nearly_full limit pl = (100 * int (length (m_peers pl)) \<ge> 95 * limit)"

definition worth_erasing :: "list_env \<Rightarrow> int \<Rightarrow> peer_entry \<Rightarrow> peer_list \<Rightarrow> bool" where
  "worth_erasing env erase_candidate p pl =
     (is_erase_candidate env pl p \<and> (erase_candidate = -1 \<or> \<not> compare_peer_erase (m_peers pl ! nat erase_candidate) p))"

fun erase_loop :: "list_env \<Rightarrow> int \<Rightarrow> nat \<Rightarrow> int \<Rightarrow> int \<Rightarrow> peer_list \<Rightarrow> int \<times> peer_list" where
  "erase_loop env limit 0 rr cand pl = (cand, pl)"
| "erase_loop env limit (Suc n) rr cand pl =
     (if \<not> nearly_full limit pl then (cand, pl)
      else
        let rr = (if rr = int (length (m_peers pl)) then 0 else rr); p = m_peers pl ! nat rr
        in if worth_erasing env cand p pl
           then
             if should_erase_immediately p
             then erase_loop env limit n rr (if cand > rr then cand - 1 else cand) (erase_entry env (nat rr) pl)
             else erase_loop env limit n (rr + 1) rr pl
           else erase_loop env limit n (rr + 1) cand pl)"

definition erase_peers :: "list_env \<Rightarrow> nat \<Rightarrow> peer_list \<Rightarrow> peer_list" where
  "erase_peers env rnd pl =
     (if peer_limit env = 0 \<or> m_peers pl = [] then pl
      else
        let n = length (m_peers pl); (cand, pl) = erase_loop env (peer_limit env) (min n 300) (int (rnd mod n)) (-1) pl
        in if cand > -1 then erase_entry env (nat cand) pl else pl)"

section \<open>Changes of an entry\<close>

definition ban_peer :: "list_env \<Rightarrow> nat \<Rightarrow> peer_list \<Rightarrow> peer_list" where
  "ban_peer env h pl =
     (case entry_of h pl of None \<Rightarrow> pl
      | Some p \<Rightarrow> (set_entry h (\<lambda>p. p\<lparr>pe_banned := True\<rparr>) pl)
          \<lparr>m_num_connect_candidates := m_num_connect_candidates pl - (if candidate_now env pl p then 1 else 0)\<rparr>)"

definition set_connection :: "list_env \<Rightarrow> nat \<Rightarrow> nat \<Rightarrow> peer_list \<Rightarrow> peer_list" where
  "set_connection env h c pl =
     (case entry_of h pl of None \<Rightarrow> pl
      | Some p \<Rightarrow> (set_entry h (\<lambda>p. p\<lparr>pe_connection := Some c\<rparr>) pl)
          \<lparr>m_num_connect_candidates := m_num_connect_candidates pl - (if candidate_now env pl p then 1 else 0)\<rparr>)"

text \<open>The change of the counter when an entry changes, as \<open>set_failcount\<close> and others compute it.\<close>

definition recount :: "list_env \<Rightarrow> peer_list \<Rightarrow> peer_entry \<Rightarrow> peer_entry \<Rightarrow> int" where
  "recount env pl p p' =
     (if candidate_now env pl p \<noteq> candidate_now env pl p'
      then m_num_connect_candidates pl + (if candidate_now env pl p then -1 else 1) else m_num_connect_candidates pl)"

definition set_failcount :: "list_env \<Rightarrow> nat \<Rightarrow> int \<Rightarrow> peer_list \<Rightarrow> peer_list" where
  "set_failcount env h f pl =
     (case entry_of h pl of None \<Rightarrow> pl
      | Some p \<Rightarrow> let g = (\<lambda>p. p\<lparr>failcount := f mod 32\<rparr>)
          in (set_entry h g pl)\<lparr>m_num_connect_candidates := recount env pl p (g p)\<rparr>)"

definition set_seed :: "list_env \<Rightarrow> ptr \<Rightarrow> bool \<Rightarrow> peer_list \<Rightarrow> peer_list" where
  "set_seed env pr s pl =
     (case pr of None \<Rightarrow> pl
      | Some h \<Rightarrow>
          case entry_of h pl of None \<Rightarrow> pl
          | Some p \<Rightarrow>
              if pe_seed p = s then pl
              else
                let g = (\<lambda>p. p\<lparr>pe_seed := s\<rparr>)
                in (set_entry h g pl)\<lparr>m_num_connect_candidates :=
                      (if candidate_now env pl p \<and> \<not> candidate_now env pl (g p)
                       then max 0 (m_num_connect_candidates pl - 1) else m_num_connect_candidates pl),
                    m_num_seeds := (if s then m_num_seeds pl + 1 else m_num_seeds pl - 1)\<rparr>)"

text \<open>The torrent calls this when its connection to the peer is closed.\<close>

definition connection_closed :: "list_env \<Rightarrow> ptr \<Rightarrow> close_info \<Rightarrow> int \<Rightarrow> peer_list \<Rightarrow> peer_list" where
  "connection_closed env pr ci session_time pl =
     (case pr of None \<Rightarrow> pl
      | Some h \<Rightarrow>
          case entry_of h pl of None \<Rightarrow> pl
          | Some p \<Rightarrow>
              let g = (\<lambda>p. p\<lparr>upload_rate_limit := ufloat16_store (ci_upload_limit ci),
                      download_rate_limit := ufloat16_store (ci_download_limit ci), pe_connection := None,
                      optimistically_unchoked := False,
                      last_connected := (if ci_fast_reconnect ci then last_connected p else session_time mod 2 ^ 16),
                      failcount := (if ci_failed ci \<and> failcount p < 31 then failcount p + 1 else failcount p)\<rparr>)
              in (set_entry h g pl)\<lparr>m_num_connect_candidates :=
                    m_num_connect_candidates pl + (if candidate_now env pl (g p) then 1 else 0)\<rparr>)"

definition recalculate_connect_candidates :: "list_env \<Rightarrow> bool \<Rightarrow> peer_list \<Rightarrow> peer_list" where
  "recalculate_connect_candidates env fin pl =
     (if fin = m_finished pl then pl
      else pl\<lparr>m_finished := fin,
              m_num_connect_candidates := sum_list (map (\<lambda>p. if is_connect_candidate env p fin then 1 else 0) (m_peers pl))\<rparr>)"

text \<open>\<open>ip_filter_updated\<close>: a connection to a blocked peer is closed first, with what \<open>ci\<close> says of it.\<close>

fun filter_loop :: "list_env \<Rightarrow> (nat \<Rightarrow> close_info) \<Rightarrow> int \<Rightarrow> nat \<Rightarrow> nat \<Rightarrow> peer_list \<Rightarrow> peer_list" where
  "filter_loop env ci session_time 0 i pl = pl"
| "filter_loop env ci session_time (Suc n) i pl =
     (let p = m_peers pl ! i
      in if \<not> odd (ip_access (ip_rules env) (pe_address p)) then filter_loop env ci session_time n (Suc i) pl
         else
           let pl = (if pe_connection p \<noteq> None then connection_closed env (Some (pe_handle p)) (ci (pe_handle p)) session_time pl else pl)
           in filter_loop env ci session_time n i (erase_entry env i pl))"

definition ip_filter_updated :: "list_env \<Rightarrow> (nat \<Rightarrow> close_info) \<Rightarrow> int \<Rightarrow> peer_list \<Rightarrow> peer_list" where
  "ip_filter_updated env ci session_time pl = filter_loop env ci session_time (length (m_peers pl)) 0 pl"

section \<open>New peers\<close>

text \<open>The flags of a peer another peer tells about: 1 for encryption, 2 for a seed. The object may not be allocated.\<close>

definition add_new_peer :: "list_env \<Rightarrow> nat option \<Rightarrow> nat \<Rightarrow> address \<Rightarrow> 16 word \<Rightarrow> source \<Rightarrow> int \<Rightarrow> peer_list \<Rightarrow> ptr \<times> peer_list" where
  "add_new_peer env fresh i a port src flags pl =
     (case fresh of None \<Rightarrow> (None, pl)
      | Some h \<Rightarrow>
          let p = (new_entry h a port True src)\<lparr>pe_seed := bit flags 1\<rparr>;
              pl = insert_entry i p pl;
              pl = (if bit flags 1 then pl\<lparr>m_num_seeds := m_num_seeds pl + 1\<rparr> else pl)
          in (Some h, if candidate_now env pl p then pl\<lparr>m_num_connect_candidates := m_num_connect_candidates pl + 1\<rparr> else pl))"

definition update_known_peer :: "list_env \<Rightarrow> nat \<Rightarrow> 16 word \<Rightarrow> source \<Rightarrow> int \<Rightarrow> peer_list \<Rightarrow> ptr \<times> peer_list" where
  "update_known_peer env i port src flags pl =
     (let p = m_peers pl ! i;
          p' = p\<lparr>connectable := True, pe_port := port, pe_source := pe_source p OR src,
                 failcount := (if failcount p > 0 \<and> src = tracker then failcount p - 1 else failcount p),
                 pe_seed := pe_seed p \<or> (bit flags 1 \<and> pe_connection p = None)\<rparr>
      in (Some (pe_handle p),
          pl\<lparr>m_peers := (m_peers pl)[i := p'],
             m_num_seeds := m_num_seeds pl + (if pe_seed p' \<and> \<not> pe_seed p then 1 else 0),
             m_num_connect_candidates := (if candidate_now env pl p \<noteq> candidate_now env pl p' then max 0 (recount env pl p p')
               else m_num_connect_candidates pl)\<rparr>))"

definition no_address :: address where
  "no_address = V4 (replicate 4 0)"

definition add_peer ::
  "list_env \<Rightarrow> nat option \<Rightarrow> nat \<Rightarrow> address \<Rightarrow> 16 word \<Rightarrow> source \<Rightarrow> int \<Rightarrow> peer_list \<Rightarrow> ptr \<times> peer_list" where
  "add_peer env fresh rnd a port src flags pl =
     (if a = no_address \<or> port = 0 then (None, pl)
      else if odd (port_access (port_rules env) port) then (None, pl)
      else if port < 1024 then (None, pl)
      else if odd (ip_access (ip_rules env) a) then (None, pl)
      else
        let limit = peer_limit env; (i, found) = locate_peer env a port pl
        in if found then update_known_peer env i port src flags pl
           else if limit \<noteq> 0 \<and> int (length (m_peers pl)) \<ge> limit
           then
             if src = from_resume_data then (None, pl)
             else
               let pl = erase_peers env rnd pl
               in if int (length (m_peers pl)) \<ge> limit then (None, pl)
                  else add_new_peer env fresh (lower a pl) a port src flags pl
           else add_new_peer env fresh i a port src flags pl)"

text \<open>What the sockets say when a peer that is connected already connects again.\<close>

datatype clash = Local_socket_error | Self_connection close_info | Other_socket_error close_info | Already_connected
  | Still_connecting close_info

text \<open>The result of an incoming connection: the entry and the limits that are restored, or \<open>None\<close> if it is refused.\<close>

definition accept_connection :: "list_env \<Rightarrow> nat \<Rightarrow> nat \<Rightarrow> bool \<Rightarrow> int \<Rightarrow> peer_list \<Rightarrow> (nat \<times> int \<times> int) option \<times> peer_list" where
  "accept_connection env i c fast_reconnect session_time pl =
     (let p = m_peers pl ! i;
          p' = p\<lparr>prev_amount_download := 0, prev_amount_upload := 0, pe_connection := Some c,
                 last_connected := (if fast_reconnect then last_connected p else session_time mod 2 ^ 16)\<rparr>
      in (Some (pe_handle p, ufloat16_load (upload_rate_limit p), ufloat16_load (download_rate_limit p)),
          pl\<lparr>m_peers := (m_peers pl)[i := p']\<rparr>))"

definition new_connection ::
  "list_env \<Rightarrow> nat option \<Rightarrow> bool \<Rightarrow> nat \<Rightarrow> address \<Rightarrow> 16 word \<Rightarrow> bool \<Rightarrow> clash \<Rightarrow> int \<Rightarrow> peer_list \<Rightarrow> (nat \<times> int \<times> int) option \<times> peer_list" where
  "new_connection env fresh over_limit c a port fast_reconnect clash session_time pl =
     (if over_limit then (None, pl)
      else
        let (i, found) = locate_peer env a port pl
        in if found
           then
             let p = m_peers pl ! i;
                 closed = (\<lambda>ci. connection_closed env (Some (pe_handle p)) ci session_time pl);
                 go = (\<lambda>pl. accept_connection env i c fast_reconnect session_time
                    (if candidate_now env pl (m_peers pl ! i)
                     then pl\<lparr>m_num_connect_candidates := max 0 (m_num_connect_candidates pl - 1)\<rparr> else pl))
             in if pe_banned p then (None, pl)
                else if pe_connection p = None then go pl
                else (case clash of
                    Local_socket_error \<Rightarrow> (None, pl)
                  | Self_connection ci \<Rightarrow> (None, closed ci)
                  | Other_socket_error ci \<Rightarrow> go (closed ci)
                  | Already_connected \<Rightarrow> (None, pl)
                  | Still_connecting ci \<Rightarrow> go (closed ci))
           else if int (length (m_peers pl)) \<ge> max_peerlist_size env then (None, pl)
           else (case fresh of None \<Rightarrow> (None, pl)
             | Some h \<Rightarrow> accept_connection env i c fast_reconnect session_time
                 (insert_entry i ((new_entry h a port False 0)\<lparr>pe_source := incoming\<rparr>) pl)))"

text \<open>The peer says at which port it listens. If there is an entry for it already, one of the two is erased.\<close>

definition set_port :: "list_env \<Rightarrow> nat \<Rightarrow> 16 word \<Rightarrow> source \<Rightarrow> peer_list \<Rightarrow> peer_list" where
  "set_port env h port src pl =
     (case entry_of h pl of None \<Rightarrow> pl
      | Some p \<Rightarrow>
          let g = (\<lambda>p. p\<lparr>pe_port := port, pe_source := pe_source p OR src, connectable := True\<rparr>)
          in (set_entry h g pl)\<lparr>m_num_connect_candidates :=
               (if candidate_now env pl p \<noteq> candidate_now env pl (g p) then max 0 (recount env pl p (g p))
                else m_num_connect_candidates pl)\<rparr>)"

definition update_peer_port ::
  "list_env \<Rightarrow> 16 word \<Rightarrow> nat \<Rightarrow> source \<Rightarrow> close_info \<Rightarrow> int \<Rightarrow> peer_list \<Rightarrow> bool \<times> peer_list" where
  "update_peer_port env port h src ci session_time pl =
     (case entry_of h pl of None \<Rightarrow> (True, pl)
      | Some p \<Rightarrow>
          if pe_port p = port then (True, pl)
          else
            let (i, found) = (if multiple_per_ip env then find_endpoint (pe_address p) port pl else (0, False))
            in if found
               then
                 let pp = m_peers pl ! i
                 in if pe_connection pp \<noteq> None
                    then
                      let pp' = pp\<lparr>connectable := True, pe_source := pe_source pp OR src\<rparr>;
                          pl = pl\<lparr>m_peers := (m_peers pl)[i := pp'],
                                  m_num_connect_candidates := m_num_connect_candidates pl +
                                    (if \<not> candidate_now env pl pp \<and> candidate_now env pl pp' then 1 else 0)\<rparr>
                      in (False, erase_peer env h (connection_closed env (Some h) ci session_time pl))
                    else (True, set_port env h port src (erase_entry env i pl))
               else (True, set_port env h port src pl))"

section \<open>The best peer to connect to\<close>

text \<open>
  The loop of \<open>find_connect_candidate\<close>. When an entry is erased immediately, its object is still read
  afterwards: the value is undefined, as is that of a list without entries.
\<close>

definition too_recent :: "list_env \<Rightarrow> int \<Rightarrow> peer_entry \<Rightarrow> bool" where
  "too_recent env session_time p =
     (last_connected p \<noteq> 0 \<and> session_time - last_connected p < (failcount p + 1) * min_reconnect_time env)"

record search =
  pinged :: bool
  candidate :: int
  erase_candidate :: int
  searched :: peer_list

definition find_step :: "list_env \<Rightarrow> int \<Rightarrow> address \<Rightarrow> search \<Rightarrow> search option" where
  "find_step env session_time external_ip st =
     (let pl = searched st; rr = (if m_round_robin pl \<ge> int (length (m_peers pl)) then 0 else m_round_robin pl);
          p = m_peers pl ! nat rr; ping = (\<not> pinged st \<and> \<not> added_to_dht p);
          pl = (if ping then pl\<lparr>m_peers := (m_peers pl)[nat rr := p\<lparr>added_to_dht := True\<rparr>]\<rparr> else pl);
          erase = (nearly_full (peer_limit env) pl \<and> peer_limit env > 0 \<and> worth_erasing env (erase_candidate st) p pl)
      in if m_peers pl = [] \<or> erase \<and> should_erase_immediately p then None
         else Some \<lparr>pinged = pinged st \<or> ping,
           candidate =
             (if \<not> candidate_now env pl p then candidate st
              else if candidate st \<noteq> -1 \<and> compare_peer env (m_finished pl) external_ip (m_peers pl ! nat (candidate st)) p then candidate st
              else if too_recent env session_time p then candidate st
              else rr),
           erase_candidate = (if erase then rr else erase_candidate st),
           searched = pl\<lparr>m_round_robin := rr + 1\<rparr>\<rparr>)"

fun find_loop :: "list_env \<Rightarrow> int \<Rightarrow> address \<Rightarrow> nat \<Rightarrow> search \<Rightarrow> search option" where
  "find_loop env session_time external_ip 0 st = Some st"
| "find_loop env session_time external_ip (Suc n) st =
     (case find_step env session_time external_ip st of None \<Rightarrow> None
      | Some st \<Rightarrow> find_loop env session_time external_ip n st)"

text \<open>The external address is replaced by a random one if it is not known or the torrent is finished.\<close>

definition find_connect_candidate ::
  "list_env \<Rightarrow> int \<Rightarrow> address \<Rightarrow> address \<Rightarrow> peer_list \<Rightarrow> (nat option \<times> peer_list) option" where
  "find_connect_candidate env session_time external_ip rnd pl =
     (let external_ip = (if m_finished pl \<or> external_ip = no_address then rnd else external_ip);
          pl = (if m_round_robin pl \<ge> int (length (m_peers pl)) then pl\<lparr>m_round_robin := 0\<rparr> else pl)
      in case find_loop env session_time external_ip (min (length (m_peers pl)) 300)
             \<lparr>pinged = False, candidate = -1, erase_candidate = -1, searched = pl\<rparr> of
           None \<Rightarrow> None
         | Some st \<Rightarrow>
             let pl = searched st; cand = candidate st; erase_cand = erase_candidate st;
                 (cand, pl) = (if erase_cand > -1 then (if cand > erase_cand then cand - 1 else cand, erase_entry env (nat erase_cand) pl)
                               else (cand, pl))
             in Some (if cand = -1 then None else Some (nat cand), pl))"

text \<open>\<open>connect_to_peer\<close> of the torrent, as far as the list is concerned: the connection may be closed again before it returns.\<close>

definition connect_to_peer :: "list_env \<Rightarrow> nat \<Rightarrow> nat \<Rightarrow> close_info option \<Rightarrow> int \<Rightarrow> peer_list \<Rightarrow> peer_list" where
  "connect_to_peer env h c closed session_time pl =
     (let pl = set_entry h (\<lambda>p. p\<lparr>last_connected := session_time mod 2 ^ 16, prev_amount_download := 0, prev_amount_upload := 0\<rparr>) pl;
          pl = set_connection env h c pl
      in case closed of None \<Rightarrow> pl | Some ci \<Rightarrow> connection_closed env (Some h) ci session_time pl)"

definition connect_one_peer ::
  "list_env \<Rightarrow> int \<Rightarrow> address \<Rightarrow> address \<Rightarrow> nat \<Rightarrow> close_info option \<Rightarrow> peer_list \<Rightarrow> (bool \<times> peer_list) option" where
  "connect_one_peer env session_time external_ip rnd c closed pl =
     (case find_connect_candidate env session_time external_ip rnd pl of None \<Rightarrow> None
      | Some (None, pl) \<Rightarrow> Some (False, pl)
      | Some (Some i, pl) \<Rightarrow>
          let h = pe_handle (m_peers pl ! i);
              pl = connect_to_peer env h c closed session_time pl;
              p = m_peers pl ! i;
              p' = p\<lparr>failcount := (if failcount p < 31 then failcount p + 1 else failcount p)\<rparr>
          in if pe_connection p \<noteq> None then Some (True, pl)
             else Some (False, pl\<lparr>m_peers := (m_peers pl)[i := p'],
                m_num_connect_candidates := m_num_connect_candidates pl - (if candidate_now env pl p \<and> \<not> candidate_now env pl p' then 1 else 0)\<rparr>))"

end
