(* ===== verification/Peer_List_Invariant.thy ===== *)
theory Peer_List_Invariant
  imports Peer_List
begin

text \<open>
  The invariant of the list of peers, which the debug build checks, and that every operation keeps it:
  the entries are sorted, there is one for each address or endpoint, and the two counters are right.
\<close>

section \<open>Counting\<close>

definition cnt :: "('a \<Rightarrow> bool) \<Rightarrow> 'a list \<Rightarrow> int" where
  "cnt P xs = int (length (filter P xs))"

lemma cnt_simps [simp]: "cnt P [] = 0" "cnt P (x # xs) = of_bool (P x) + cnt P xs" "cnt P (xs @ ys) = cnt P xs + cnt P ys"
  by (simp_all add: cnt_def)

lemma cnt_nonneg [simp]: "0 \<le> cnt P xs"
  by (simp add: cnt_def)

lemma cnt_split: "i < length xs \<Longrightarrow> cnt P xs = cnt P (take i xs) + of_bool (P (xs ! i)) + cnt P (drop (Suc i) xs)"
  by (subst id_take_nth_drop [of i xs]) simp_all

lemma cnt_update: "i < length xs \<Longrightarrow> cnt P (xs[i := y]) = cnt P xs - of_bool (P (xs ! i)) + of_bool (P y)"
  using cnt_split [of i xs P] by (simp add: upd_conv_take_nth_drop)

lemma cnt_member: "i < length xs \<Longrightarrow> P (xs ! i) \<Longrightarrow> 1 \<le> cnt P xs"
  using cnt_split [of i xs P] cnt_nonneg [of P "take i xs"] cnt_nonneg [of P "drop (Suc i) xs"] by simp

lemma cnt_sum: "sum_list (map (\<lambda>p. if P p then 1 else 0) xs) = cnt P xs"
  by (induction xs) auto

section \<open>Entries\<close>

lemma candidate_now_cong: "m_finished pl' = m_finished pl \<Longrightarrow> candidate_now env pl' = candidate_now env pl"
  by (simp add: candidate_now_def fun_eq_iff)

lemma candidate_now_updates [simp]:
  "candidate_now env (pl\<lparr>m_peers := ps\<rparr>) = candidate_now env pl" "candidate_now env (pl\<lparr>m_round_robin := r\<rparr>) = candidate_now env pl"
  "candidate_now env (pl\<lparr>m_num_connect_candidates := k\<rparr>) = candidate_now env pl"
  "candidate_now env (pl\<lparr>m_num_seeds := k\<rparr>) = candidate_now env pl" "candidate_now env (pl\<lparr>t_picker := pk\<rparr>) = candidate_now env pl"
  by (rule candidate_now_cong, simp)+

definition addr_order :: "list_env \<Rightarrow> peer_entry \<Rightarrow> peer_entry \<Rightarrow> bool" where
  "addr_order env p q = (if multiple_per_ip env then pe_address p \<le> pe_address q else pe_address p < pe_address q)"

lemma addr_order_cong: "pe_address p' = pe_address p \<Longrightarrow> pe_address q' = pe_address q \<Longrightarrow> addr_order env p' q' = addr_order env p q"
  by (simp add: addr_order_def)

definition peers_ok :: "list_env \<Rightarrow> peer_list \<Rightarrow> bool" where
  "peers_ok env pl \<longleftrightarrow>
     sorted_wrt (addr_order env) (m_peers pl)
   \<and> distinct (map pe_handle (m_peers pl))
   \<and> distinct (map (\<lambda>p. (pe_address p, pe_port p)) (m_peers pl))
   \<and> m_num_connect_candidates pl = cnt (candidate_now env pl) (m_peers pl)
   \<and> m_num_seeds pl = cnt pe_seed (m_peers pl)
   \<and> 0 \<le> m_round_robin pl \<and> m_round_robin pl \<le> int (length (m_peers pl))"

lemma peers_okD:
  assumes "peers_ok env pl"
  shows "i < j \<Longrightarrow> j < length (m_peers pl) \<Longrightarrow> pe_address (m_peers pl ! i) \<le> pe_address (m_peers pl ! j)"
    "\<not> multiple_per_ip env \<Longrightarrow> i < j \<Longrightarrow> j < length (m_peers pl) \<Longrightarrow> pe_address (m_peers pl ! i) < pe_address (m_peers pl ! j)"
    "distinct (map pe_handle (m_peers pl))" "distinct (map (\<lambda>p. (pe_address p, pe_port p)) (m_peers pl))"
    "m_num_connect_candidates pl = cnt (candidate_now env pl) (m_peers pl)" "m_num_seeds pl = cnt pe_seed (m_peers pl)"
    "0 \<le> m_round_robin pl" "m_round_robin pl \<le> int (length (m_peers pl))"
proof -
  have s: "i < j \<Longrightarrow> j < length (m_peers pl) \<Longrightarrow> addr_order env (m_peers pl ! i) (m_peers pl ! j)" for i j
    using assms by (simp add: peers_ok_def sorted_wrt_iff_nth_less)
  show "i < j \<Longrightarrow> j < length (m_peers pl) \<Longrightarrow> pe_address (m_peers pl ! i) \<le> pe_address (m_peers pl ! j)"
    using s [of i j] by (cases "multiple_per_ip env") (simp_all add: addr_order_def less_imp_le)
  show "\<not> multiple_per_ip env \<Longrightarrow> i < j \<Longrightarrow> j < length (m_peers pl) \<Longrightarrow> pe_address (m_peers pl ! i) < pe_address (m_peers pl ! j)"
    using s [of i j] by (simp add: addr_order_def)
qed (use assms in \<open>simp_all add: peers_ok_def\<close>)

lemma entry_of_Some:
  assumes "distinct (map pe_handle (m_peers pl))"
  shows "entry_of h pl = Some p \<longleftrightarrow> (\<exists>i < length (m_peers pl). m_peers pl ! i = p \<and> pe_handle p = h)"
proof
  assume "entry_of h pl = Some p"
  then show "\<exists>i < length (m_peers pl). m_peers pl ! i = p \<and> pe_handle p = h" unfolding entry_of_def find_Some_iff by blast
next
  assume "\<exists>i < length (m_peers pl). m_peers pl ! i = p \<and> pe_handle p = h"
  then obtain i where i: "i < length (m_peers pl)" "m_peers pl ! i = p" "pe_handle p = h" by blast
  have "pe_handle (m_peers pl ! j) \<noteq> h" if "j < i" for j
    using that i assms by (auto simp: distinct_conv_nth)
  then show "entry_of h pl = Some p" unfolding entry_of_def find_Some_iff using i by blast
qed

lemma set_entry_update:
  assumes "distinct (map pe_handle (m_peers pl))" "i < length (m_peers pl)" "pe_handle (m_peers pl ! i) = h"
  shows "set_entry h f pl = pl\<lparr>m_peers := (m_peers pl)[i := f (m_peers pl ! i)]\<rparr>"
proof -
  have "map (\<lambda>p. if pe_handle p = h then f p else p) (m_peers pl) = (m_peers pl)[i := f (m_peers pl ! i)]"
    using assms by (intro nth_equalityI) (auto simp: nth_list_update distinct_conv_nth)
  then show ?thesis by (simp add: set_entry_def)
qed

text \<open>One entry changes, and the counters with it.\<close>

lemma peers_ok_update:
  assumes ok: "peers_ok env pl" and i: "i < length (m_peers pl)" and p': "pe_handle p' = pe_handle (m_peers pl ! i)" "pe_address p' = pe_address (m_peers pl ! i)"
    and fresh: "pe_port p' = pe_port (m_peers pl ! i) \<or> \<not> multiple_per_ip env
      \<or> (\<forall>j < length (m_peers pl). (pe_address (m_peers pl ! j), pe_port (m_peers pl ! j)) \<noteq> (pe_address p', pe_port p'))"
    and eq: "m_peers pl' = (m_peers pl)[i := p']" "m_finished pl' = m_finished pl" "0 \<le> m_round_robin pl'" "m_round_robin pl' \<le> int (length (m_peers pl))"
      "m_num_connect_candidates pl' = m_num_connect_candidates pl - of_bool (candidate_now env pl (m_peers pl ! i)) + of_bool (candidate_now env pl p')"
      "m_num_seeds pl' = m_num_seeds pl - of_bool (pe_seed (m_peers pl ! i)) + of_bool (pe_seed p')"
  shows "peers_ok env pl'"
proof -
  note D = peers_okD [OF ok]
  have a: "pe_address (m_peers pl' ! j) = pe_address (m_peers pl ! j)" "pe_handle (m_peers pl' ! j) = pe_handle (m_peers pl ! j)"
    if "j < length (m_peers pl)" for j
    using that p' i by (auto simp: eq(1) nth_list_update)
  have "sorted_wrt (addr_order env) (m_peers pl')"
    using ok addr_order_cong [OF a(1) a(1)] unfolding peers_ok_def sorted_wrt_iff_nth_less by (simp add: eq(1))
  moreover have "map pe_handle (m_peers pl') = map pe_handle (m_peers pl)"
    using a by (intro nth_equalityI) (auto simp: eq(1))
  moreover have "distinct (map (\<lambda>p. (pe_address p, pe_port p)) (m_peers pl'))"
  proof (cases "pe_port p' = pe_port (m_peers pl ! i)")
    case True
    then have "map (\<lambda>p. (pe_address p, pe_port p)) (m_peers pl') = map (\<lambda>p. (pe_address p, pe_port p)) (m_peers pl)"
      using p' i by (intro nth_equalityI) (auto simp: eq(1) nth_list_update)
    then show ?thesis using D(4) by metis
  next
    case False
    show ?thesis
    proof (cases "multiple_per_ip env")
      case True
      then show ?thesis using fresh False D(4) i unfolding eq(1) map_update
        by (intro distinct_list_update) (auto simp: in_set_conv_nth)
    next
      case single: False
      show ?thesis unfolding distinct_conv_nth
      proof (intro allI impI)
        fix j k assume jk: "j < length (map (\<lambda>p. (pe_address p, pe_port p)) (m_peers pl'))"
          "k < length (map (\<lambda>p. (pe_address p, pe_port p)) (m_peers pl'))" "j \<noteq> k"
        then have r: "j < length (m_peers pl)" "k < length (m_peers pl)" by (simp_all add: eq(1))
        have "pe_address (m_peers pl ! j) \<noteq> pe_address (m_peers pl ! k)"
          using D(2) [OF single, of j k] D(2) [OF single, of k j] r jk(3) by (cases j k rule: linorder_cases) auto
        then show "map (\<lambda>p. (pe_address p, pe_port p)) (m_peers pl') ! j \<noteq> map (\<lambda>p. (pe_address p, pe_port p)) (m_peers pl') ! k"
          using jk a r by simp
      qed
    qed
  qed
  ultimately show ?thesis
    using D(3,5,6) eq(2-6) i by (simp add: peers_ok_def eq(1) cnt_update candidate_now_cong [OF eq(2)])
qed

section \<open>Places\<close>

lemma takeWhile_length:
  assumes "\<And>i j. i < j \<Longrightarrow> j < length xs \<Longrightarrow> P (xs ! j) \<Longrightarrow> P (xs ! i)" "j < length xs"
  shows "j < length (takeWhile P xs) \<longleftrightarrow> P (xs ! j)"
proof
  assume "j < length (takeWhile P xs)"
  then show "P (xs ! j)" by (metis nth_mem set_takeWhileD takeWhile_nth)
next
  assume j: "P (xs ! j)"
  show "j < length (takeWhile P xs)"
  proof (rule ccontr)
    assume "\<not> j < length (takeWhile P xs)"
    then have k: "length (takeWhile P xs) \<le> j" by simp
    then have "\<not> P (xs ! length (takeWhile P xs))" using assms(2) by (intro nth_length_takeWhile) simp
    then show False using assms(1) [of "length (takeWhile P xs)" j] k j assms(2) by (cases "length (takeWhile P xs) = j") auto
  qed
qed

lemma takeWhile_all: "length (takeWhile P xs) = length xs \<Longrightarrow> x \<in> set xs \<Longrightarrow> P x"
  by (induction xs) (auto split: if_splits)

lemma lower_spec:
  assumes "peers_ok env pl"
  shows "lower a pl \<le> length (m_peers pl)" "j < length (m_peers pl) \<Longrightarrow> j < lower a pl \<longleftrightarrow> pe_address (m_peers pl ! j) < a"
proof -
  show "lower a pl \<le> length (m_peers pl)" by (simp add: lower_def length_takeWhile_le)
  have "pe_address (m_peers pl ! i) < a" if "i < j" "j < length (m_peers pl)" "pe_address (m_peers pl ! j) < a" for i j
    using peers_okD(1) [OF assms that(1,2)] that(3) by simp
  then show "j < length (m_peers pl) \<Longrightarrow> j < lower a pl \<longleftrightarrow> pe_address (m_peers pl ! j) < a"
    unfolding lower_def by (rule takeWhile_length)
qed

lemma upper_spec:
  assumes "peers_ok env pl"
  shows "snd (find_peers a pl) \<le> length (m_peers pl)" "j < length (m_peers pl) \<Longrightarrow> j < snd (find_peers a pl) \<longleftrightarrow> pe_address (m_peers pl ! j) \<le> a"
proof -
  show "snd (find_peers a pl) \<le> length (m_peers pl)" by (simp add: find_peers_def length_takeWhile_le)
  have "pe_address (m_peers pl ! i) \<le> a" if "i < j" "j < length (m_peers pl)" "pe_address (m_peers pl ! j) \<le> a" for i j
    using peers_okD(1) [OF assms that(1,2)] that(3) by simp
  then show "j < length (m_peers pl) \<Longrightarrow> j < snd (find_peers a pl) \<longleftrightarrow> pe_address (m_peers pl ! j) \<le> a"
    unfolding find_peers_def snd_conv by (rule takeWhile_length)
qed

text \<open>A place: the entries before it have lower addresses, those behind it greater ones.\<close>

definition place_for :: "address \<Rightarrow> nat \<Rightarrow> peer_list \<Rightarrow> bool" where
  "place_for a i pl \<longleftrightarrow> i \<le> length (m_peers pl)
     \<and> (\<forall>j < i. pe_address (m_peers pl ! j) \<le> a) \<and> (\<forall>j. i \<le> j \<longrightarrow> j < length (m_peers pl) \<longrightarrow> a \<le> pe_address (m_peers pl ! j))"

lemma find_endpoint_spec:
  assumes ok: "peers_ok env pl" and res: "find_endpoint a port pl = (i, found)"
  shows "found \<Longrightarrow> i < length (m_peers pl) \<and> pe_address (m_peers pl ! i) = a \<and> pe_port (m_peers pl ! i) = port"
    "\<not> found \<Longrightarrow> place_for a i pl \<and> (\<forall>j < length (m_peers pl). pe_address (m_peers pl ! j) = a \<longrightarrow> pe_port (m_peers pl ! j) \<noteq> port)"
proof -
  define lo where "lo = lower a pl"
  define hi where "hi = snd (find_peers a pl)"
  define xs where "xs = take (hi - lo) (drop lo (m_peers pl))"
  define k where "k = length (takeWhile (\<lambda>p. \<not> (pe_address p = a \<and> pe_port p = port)) xs)"
  note L = lower_spec [OF ok, where a = a, folded lo_def] and U = upper_spec [OF ok, where a = a, folded hi_def]
  have lohi: "lo \<le> hi"
  proof (rule ccontr)
    assume "\<not> lo \<le> hi"
    then have "hi < lo" by simp
    then show False using L(1) L(2) [of hi] U(2) [of hi] by auto
  qed
  have len: "length xs = hi - lo" using U(1) by (simp add: xs_def)
  have nth: "xs ! j = m_peers pl ! (lo + j)" if "j < hi - lo" for j using that U(1) by (simp add: xs_def)
  have i: "i = lo + k" "found = (i \<noteq> hi)"
    using res by (auto simp: find_endpoint_def find_peers_def Let_def lo_def hi_def xs_def k_def)
  have kle: "k \<le> hi - lo" unfolding k_def len [symmetric] by (rule length_takeWhile_le)
  show "i < length (m_peers pl) \<and> pe_address (m_peers pl ! i) = a \<and> pe_port (m_peers pl ! i) = port" if found
  proof -
    have "k < length xs" using that i kle lohi len by auto
    then have "\<not> (\<not> (pe_address (xs ! k) = a \<and> pe_port (xs ! k) = port))" unfolding k_def by (rule nth_length_takeWhile)
    then show ?thesis using nth [of k] \<open>k < length xs\<close> len U(1) i by simp
  qed
  show "place_for a i pl \<and> (\<forall>j < length (m_peers pl). pe_address (m_peers pl ! j) = a \<longrightarrow> pe_port (m_peers pl ! j) \<noteq> port)" if "\<not> found"
  proof -
    have ih: "i = hi" using that i by simp
    then have "k = length xs" using i lohi len by simp
    then have len_all: "length (takeWhile (\<lambda>p. \<not> (pe_address p = a \<and> pe_port p = port)) xs) = length xs" by (simp add: k_def)
    have all: "\<forall>p \<in> set xs. \<not> (pe_address p = a \<and> pe_port p = port)" by (rule ballI) (rule takeWhile_all [OF len_all])
    have "pe_address (m_peers pl ! j) \<le> a" if "j < hi" for j using U(1) U(2) [of j] that by simp
    moreover have "a \<le> pe_address (m_peers pl ! j)" if "hi \<le> j" "j < length (m_peers pl)" for j using U(2) [of j] that by simp
    ultimately have "place_for a i pl" using U(1) by (simp add: place_for_def ih)
    moreover have "pe_port (m_peers pl ! j) \<noteq> port" if "j < length (m_peers pl)" "pe_address (m_peers pl ! j) = a" for j
    proof -
      have "lo \<le> j" "j < hi" using L(2) [of j] U(2) [of j] that by auto
      then have "xs ! (j - lo) = m_peers pl ! j" using nth [of "j - lo"] by simp
      moreover have "xs ! (j - lo) \<in> set xs" using \<open>lo \<le> j\<close> \<open>j < hi\<close> len by (intro nth_mem) simp
      ultimately have "m_peers pl ! j \<in> set xs" by simp
      then show ?thesis using all that(2) by blast
    qed
    ultimately show ?thesis by blast
  qed
qed

lemma locate_spec:
  assumes ok: "peers_ok env pl" and res: "locate_peer env a port pl = (i, found)"
  shows "found \<Longrightarrow> i < length (m_peers pl) \<and> pe_address (m_peers pl ! i) = a \<and> (multiple_per_ip env \<longrightarrow> pe_port (m_peers pl ! i) = port)"
    "\<not> found \<Longrightarrow> place_for a i pl \<and>
       (\<forall>j < length (m_peers pl). pe_address (m_peers pl ! j) = a \<longrightarrow> multiple_per_ip env \<and> pe_port (m_peers pl ! j) \<noteq> port)"
proof -
  have single: "i = lower a pl" "found = (i \<noteq> length (m_peers pl) \<and> pe_address (m_peers pl ! i) = a)" if "\<not> multiple_per_ip env"
    using res that by (auto simp: locate_peer_def Let_def)
  note L = lower_spec [OF ok, where a = a]
  show "found \<Longrightarrow> i < length (m_peers pl) \<and> pe_address (m_peers pl ! i) = a \<and> (multiple_per_ip env \<longrightarrow> pe_port (m_peers pl ! i) = port)"
    using find_endpoint_spec(1) [OF ok, of a port i found] res single L(1) by (cases "multiple_per_ip env") (auto simp: locate_peer_def)
  show "place_for a i pl \<and> (\<forall>j < length (m_peers pl). pe_address (m_peers pl ! j) = a \<longrightarrow> multiple_per_ip env \<and> pe_port (m_peers pl ! j) \<noteq> port)" if nf: "\<not> found"
  proof (cases "multiple_per_ip env")
    case True
    then show ?thesis using find_endpoint_spec(2) [OF ok, of a port i found] res nf by (simp add: locate_peer_def)
  next
    case False
    have "place_for a i pl" unfolding place_for_def single(1) [OF False] using L by (metis less_imp_le_nat less_le_not_le less_or_eq_imp_le linorder_not_less order_less_le_trans)
    moreover have "pe_address (m_peers pl ! j) \<noteq> a" if "j < length (m_peers pl)" for j
    proof
      assume e: "pe_address (m_peers pl ! j) = a"
      then have "\<not> j < lower a pl" using L(2) [OF that] by simp
      moreover have "j \<noteq> lower a pl" using e nf single that False by auto
      ultimately have "lower a pl < j" by simp
      then show False using peers_okD(2) [OF ok False, of "lower a pl" j] L(2) [of "lower a pl"] that e by auto
    qed
    ultimately show ?thesis by blast
  qed
qed

lemma peers_ok_insert:
  assumes ok: "peers_ok env pl" and at: "place_for a i pl" and p: "pe_address p = a" "pe_handle p \<notin> pe_handle ` set (m_peers pl)"
    and new: "\<forall>j < length (m_peers pl). pe_address (m_peers pl ! j) = a \<longrightarrow> multiple_per_ip env \<and> pe_port (m_peers pl ! j) \<noteq> pe_port p"
    and eq: "m_peers pl' = m_peers (insert_entry i p pl)" "m_finished pl' = m_finished pl" "m_round_robin pl' = m_round_robin (insert_entry i p pl)"
      "m_num_connect_candidates pl' = m_num_connect_candidates pl + of_bool (candidate_now env pl p)"
      "m_num_seeds pl' = m_num_seeds pl + of_bool (pe_seed p)"
  shows "peers_ok env pl'"
proof -
  note D = peers_okD [OF ok]
  have ps: "m_peers pl' = take i (m_peers pl) @ p # drop i (m_peers pl)" by (simp add: eq insert_entry_def)
  have split: "m_peers pl = take i (m_peers pl) @ drop i (m_peers pl)" by simp
  have mem: "\<exists>j < length (m_peers pl). q = m_peers pl ! j \<and> (j < i)" if "q \<in> set (take i (m_peers pl))" for q
    using that by (auto simp: in_set_conv_nth)
  have mem': "\<exists>j < length (m_peers pl). q = m_peers pl ! j \<and> (i \<le> j)" if q: "q \<in> set (drop i (m_peers pl))" for q
  proof -
    obtain k where "k < length (m_peers pl) - i" "q = m_peers pl ! (i + k)" using q at by (auto simp: in_set_conv_nth place_for_def)
    then show ?thesis by (intro exI [of _ "i + k"]) auto
  qed
  have srt: "sorted_wrt (addr_order env) (take i (m_peers pl) @ drop i (m_peers pl))"
    using ok by (simp add: peers_ok_def)
  have less: "pe_address q \<le> a \<and> (\<not> multiple_per_ip env \<longrightarrow> pe_address q < a)" if "q \<in> set (take i (m_peers pl))" for q
    using mem [OF that] at new by (fastforce simp: place_for_def order_less_le)
  have grt: "a \<le> pe_address q \<and> (\<not> multiple_per_ip env \<longrightarrow> a < pe_address q)" if "q \<in> set (drop i (m_peers pl))" for q
    using mem' [OF that] at new by (fastforce simp: place_for_def order_less_le)
  have "sorted_wrt (addr_order env) (m_peers pl')"
  proof -
    have "addr_order env x p \<and> addr_order env p y \<and> addr_order env x y" if "x \<in> set (take i (m_peers pl))" "y \<in> set (drop i (m_peers pl))" for x y
      using less [OF that(1)] grt [OF that(2)] p(1) by (auto simp: addr_order_def)
    moreover have "addr_order env x p" if "x \<in> set (take i (m_peers pl))" for x using less [OF that] p(1) by (auto simp: addr_order_def)
    moreover have "addr_order env p y" if "y \<in> set (drop i (m_peers pl))" for y using grt [OF that] p(1) by (auto simp: addr_order_def)
    ultimately show ?thesis using srt unfolding ps sorted_wrt_append by auto
  qed
  moreover have "distinct (map pe_handle (m_peers pl'))"
  proof -
    have "distinct (map pe_handle (take i (m_peers pl)) @ map pe_handle (drop i (m_peers pl)))" using D(3) by (metis map_append split)
    moreover have "pe_handle p \<notin> pe_handle ` set (take i (m_peers pl)) \<and> pe_handle p \<notin> pe_handle ` set (drop i (m_peers pl))"
      using p(2) by (meson image_mono in_mono set_drop_subset set_take_subset)
    ultimately show ?thesis unfolding ps by auto
  qed
  moreover have "distinct (map (\<lambda>p. (pe_address p, pe_port p)) (m_peers pl'))"
  proof -
    have "distinct (map (\<lambda>p. (pe_address p, pe_port p)) (take i (m_peers pl)) @ map (\<lambda>p. (pe_address p, pe_port p)) (drop i (m_peers pl)))"
      using D(4) by (metis map_append split)
    moreover have "(a, pe_port p) \<noteq> (pe_address q, pe_port q)" if "q \<in> set (take i (m_peers pl)) \<union> set (drop i (m_peers pl))" for q
    proof -
      have "q \<in> set (m_peers pl)" using that by (auto dest: in_set_takeD in_set_dropD)
      then obtain j where "j < length (m_peers pl)" "q = m_peers pl ! j" by (auto simp: in_set_conv_nth)
      then show ?thesis using new by auto
    qed
    ultimately show ?thesis unfolding ps using p(1) by (auto simp: image_iff)
  qed
  moreover have "cnt P (m_peers pl') = cnt P (m_peers pl) + of_bool (P p)" for P
    unfolding ps using cnt_simps(3) [of P "take i (m_peers pl)" "drop i (m_peers pl)"] by simp
  ultimately show ?thesis
    using D(5-8) eq at by (simp add: peers_ok_def place_for_def insert_entry_def candidate_now_cong [OF eq(2)])
qed

lemma distinct_map_erase: "distinct (map f xs) \<Longrightarrow> i < length xs \<Longrightarrow> distinct (map f (take i xs @ drop (Suc i) xs))"
  by (subst (asm) id_take_nth_drop [of i xs]) auto

lemma peers_ok_erase:
  assumes ok: "peers_ok env pl" and i: "i < length (m_peers pl)"
  shows "peers_ok env (erase_entry env i pl)"
proof -
  note D = peers_okD [OF ok]
  define ps where "ps = take i (m_peers pl) @ drop (Suc i) (m_peers pl)"
  have split: "m_peers pl = take i (m_peers pl) @ m_peers pl ! i # drop (Suc i) (m_peers pl)" using id_take_nth_drop [OF i] .
  have "sorted_wrt (addr_order env)
      (take i (m_peers pl) @ m_peers pl ! i # drop (Suc i) (m_peers pl))" using ok split by (simp add: peers_ok_def)
  then have "sorted_wrt (addr_order env) ps"
    by (auto simp: ps_def sorted_wrt_append)
  moreover have "distinct (map pe_handle ps)" "distinct (map (\<lambda>p. (pe_address p, pe_port p)) ps)"
    unfolding ps_def using distinct_map_erase [OF D(3) i] distinct_map_erase [OF D(4) i] by blast+
  moreover have "cnt P ps = cnt P (m_peers pl) - of_bool (P (m_peers pl ! i))" for P
    using cnt_split [OF i, of P] by (simp add: ps_def)
  moreover have "int (length ps) = int (length (m_peers pl)) - 1" using i by (simp add: ps_def)
  ultimately show ?thesis
    using D(3-8) i by (simp add: peers_ok_def erase_entry_def Let_def ps_def [symmetric])
qed

section \<open>Operations on an entry\<close>

lemma entry_cases:
  assumes "peers_ok env pl" "entry_of h pl = Some p"
  obtains i where "i < length (m_peers pl)" "m_peers pl ! i = p" "pe_handle p = h"
    "\<forall>f. set_entry h f pl = pl\<lparr>m_peers := (m_peers pl)[i := f p]\<rparr>"
  using assms entry_of_Some [OF peers_okD(3) [OF assms(1)], of h p] set_entry_update [OF peers_okD(3) [OF assms(1)]] by metis

lemma candidates_pos:
  "peers_ok env pl \<Longrightarrow> i < length (m_peers pl) \<Longrightarrow> candidate_now env pl (m_peers pl ! i) \<Longrightarrow> 1 \<le> m_num_connect_candidates pl"
  using cnt_member [of i "m_peers pl" "candidate_now env pl"] by (simp add: peers_ok_def)

lemma recount_eq: "recount env pl p p' = m_num_connect_candidates pl - of_bool (candidate_now env pl p) + of_bool (candidate_now env pl p')"
  by (simp add: recount_def)

lemma recount_max:
  assumes "peers_ok env pl" "i < length (m_peers pl)" "m_peers pl ! i = p"
  shows "(if candidate_now env pl p \<noteq> candidate_now env pl p' then max 0 (recount env pl p p') else m_num_connect_candidates pl)
    = m_num_connect_candidates pl - of_bool (candidate_now env pl p) + of_bool (candidate_now env pl p')"
  using candidates_pos [OF assms(1,2)] assms(3) peers_okD(5) [OF assms(1)] cnt_nonneg [of "candidate_now env pl" "m_peers pl"]
  by (auto simp: recount_eq)

text \<open>An entry that is updated and keeps its port.\<close>

lemma peers_ok_entry:
  assumes "peers_ok env pl" "i < length (m_peers pl)" "m_peers pl ! i = p"
    "pe_handle p' = pe_handle p" "pe_address p' = pe_address p" "pe_port p' = pe_port p"
    "k = m_num_connect_candidates pl - of_bool (candidate_now env pl p) + of_bool (candidate_now env pl p')"
    "l = m_num_seeds pl - of_bool (pe_seed p) + of_bool (pe_seed p')"
  shows "peers_ok env (pl\<lparr>m_peers := (m_peers pl)[i := p'], m_num_connect_candidates := k, m_num_seeds := l\<rparr>)"
  using peers_okD(7,8) [OF assms(1)] assms(2-)
  by (intro peers_ok_update [OF assms(1,2)]) auto

lemma peers_ok_entry_candidates:
  assumes "peers_ok env pl" "i < length (m_peers pl)" "m_peers pl ! i = p"
    "pe_handle p' = pe_handle p" "pe_address p' = pe_address p" "pe_port p' = pe_port p" "pe_seed p' = pe_seed p"
    "k = m_num_connect_candidates pl - of_bool (candidate_now env pl p) + of_bool (candidate_now env pl p')"
  shows "peers_ok env (pl\<lparr>m_peers := (m_peers pl)[i := p'], m_num_connect_candidates := k\<rparr>)"
  using peers_ok_entry [OF assms(1-6,8) refl] assms(7) by simp

lemma ban_peer_ok: "peers_ok env pl \<Longrightarrow> peers_ok env (ban_peer env h pl)"
proof (cases "entry_of h pl")
  case (Some p)
  assume ok: "peers_ok env pl"
  from ok Some obtain i where i: "i < length (m_peers pl)" "m_peers pl ! i = p" "pe_handle p = h"
    "\<forall>f. set_entry h f pl = pl\<lparr>m_peers := (m_peers pl)[i := f p]\<rparr>" by (rule entry_cases)
  show ?thesis unfolding ban_peer_def Some option.case i(4) [rule_format]
    by (rule peers_ok_entry_candidates [OF ok i(1,2)]) (simp_all add: candidate_now_def is_connect_candidate_def)
qed (simp add: ban_peer_def)

lemma set_connection_ok: "peers_ok env pl \<Longrightarrow> peers_ok env (set_connection env h c pl)"
proof (cases "entry_of h pl")
  case (Some p)
  assume ok: "peers_ok env pl"
  from ok Some obtain i where i: "i < length (m_peers pl)" "m_peers pl ! i = p" "pe_handle p = h"
    "\<forall>f. set_entry h f pl = pl\<lparr>m_peers := (m_peers pl)[i := f p]\<rparr>" by (rule entry_cases)
  show ?thesis unfolding set_connection_def Some option.case i(4) [rule_format]
    by (rule peers_ok_entry_candidates [OF ok i(1,2)]) (simp_all add: candidate_now_def is_connect_candidate_def)
qed (simp add: set_connection_def)

lemma set_failcount_ok: "peers_ok env pl \<Longrightarrow> peers_ok env (set_failcount env h f pl)"
proof (cases "entry_of h pl")
  case (Some p)
  assume ok: "peers_ok env pl"
  from ok Some obtain i where i: "i < length (m_peers pl)" "m_peers pl ! i = p" "pe_handle p = h"
    "\<forall>f. set_entry h f pl = pl\<lparr>m_peers := (m_peers pl)[i := f p]\<rparr>" by (rule entry_cases)
  show ?thesis unfolding set_failcount_def Some option.case i(4) [rule_format] Let_def
    by (rule peers_ok_entry_candidates [OF ok i(1,2)]) (simp_all add: recount_eq)
qed (simp add: set_failcount_def)

text \<open>Only the connection of a peer says that it is no seed: the counter would be wrong otherwise.\<close>

lemma set_seed_ok:
  assumes ok: "peers_ok env pl" and c: "\<And>p. pr \<noteq> None \<Longrightarrow> entry_of (the pr) pl = Some p \<Longrightarrow> s \<or> pe_connection p \<noteq> None"
  shows "peers_ok env (set_seed env pr s pl)"
proof (cases "\<exists>h p. pr = Some h \<and> entry_of h pl = Some p \<and> pe_seed p \<noteq> s")
  case True
  then obtain h p where h: "pr = Some h" "entry_of h pl = Some p" "pe_seed p \<noteq> s" by blast
  from ok h(2) obtain i where i: "i < length (m_peers pl)" "m_peers pl ! i = p" "pe_handle p = h"
    "\<forall>f. set_entry h f pl = pl\<lparr>m_peers := (m_peers pl)[i := f p]\<rparr>" by (rule entry_cases)
  have pos: "candidate_now env pl p \<Longrightarrow> 1 \<le> m_num_connect_candidates pl" using candidates_pos [OF ok i(1)] i(2) by simp
  have no: "candidate_now env pl (p\<lparr>pe_seed := s\<rparr>) \<Longrightarrow> candidate_now env pl p"
    using c [of p] h by (auto simp: candidate_now_def is_connect_candidate_def split: if_splits)
  have "set_seed env pr s pl = pl\<lparr>m_peers := (m_peers pl)[i := p\<lparr>pe_seed := s\<rparr>],
      m_num_connect_candidates := (if candidate_now env pl p \<and> \<not> candidate_now env pl (p\<lparr>pe_seed := s\<rparr>)
                       then max 0 (m_num_connect_candidates pl - 1) else m_num_connect_candidates pl),
      m_num_seeds := (if s then m_num_seeds pl + 1 else m_num_seeds pl - 1)\<rparr>"
    unfolding set_seed_def h(1,2) option.case i(4) [rule_format] Let_def using h(3) by (cases s) auto
  also have "peers_ok env \<dots>"
    by (rule peers_ok_entry [OF ok i(1,2)]) (use pos no h(3) in \<open>auto simp: of_bool_def\<close>)
  finally show ?thesis .
next
  case False
  then have "set_seed env pr s pl = pl" by (auto simp: set_seed_def split: option.split)
  then show ?thesis using ok by simp
qed

lemma connection_closed_ok:
  assumes ok: "peers_ok env pl" and c: "\<And>p. pr \<noteq> None \<Longrightarrow> entry_of (the pr) pl = Some p \<Longrightarrow> pe_connection p \<noteq> None"
  shows "peers_ok env (connection_closed env pr ci t pl)"
proof (cases "\<exists>h p. pr = Some h \<and> entry_of h pl = Some p")
  case True
  then obtain h p where h: "pr = Some h" "entry_of h pl = Some p" by blast
  from ok h(2) obtain i where i: "i < length (m_peers pl)" "m_peers pl ! i = p" "pe_handle p = h"
    "\<forall>f. set_entry h f pl = pl\<lparr>m_peers := (m_peers pl)[i := f p]\<rparr>" by (rule entry_cases)
  have no: "\<not> candidate_now env pl p" using c [of p] h by (auto simp: candidate_now_def is_connect_candidate_def)
  show ?thesis unfolding connection_closed_def h option.case Let_def i(4) [rule_format]
    by (rule peers_ok_entry_candidates [OF ok i(1,2)]) (use no in simp_all)
next
  case False
  then have "connection_closed env pr ci t pl = pl" by (auto simp: connection_closed_def split: option.split)
  then show ?thesis using ok by simp
qed

lemma connection_closed_shape:
  assumes ok: "peers_ok env pl"
  shows "length (m_peers (connection_closed env pr ci t pl)) = length (m_peers pl)"
    "j < length (m_peers pl) \<Longrightarrow> pe_handle (m_peers (connection_closed env pr ci t pl) ! j) = pe_handle (m_peers pl ! j)
       \<and> pe_address (m_peers (connection_closed env pr ci t pl) ! j) = pe_address (m_peers pl ! j)
       \<and> pe_port (m_peers (connection_closed env pr ci t pl) ! j) = pe_port (m_peers pl ! j)
       \<and> pe_connection (m_peers (connection_closed env pr ci t pl) ! j) =
           (if pr = Some (pe_handle (m_peers pl ! j)) then None else pe_connection (m_peers pl ! j))"
    "m_finished (connection_closed env pr ci t pl) = m_finished pl"
    "map pe_handle (m_peers (connection_closed env pr ci t pl)) = map pe_handle (m_peers pl)"
proof -
  show len: "length (m_peers (connection_closed env pr ci t pl)) = length (m_peers pl)"
    by (simp add: connection_closed_def set_entry_def Let_def split: option.split)
  show "m_finished (connection_closed env pr ci t pl) = m_finished pl"
    by (simp add: connection_closed_def set_entry_def Let_def split: option.split)
  show fields: "pe_handle (m_peers (connection_closed env pr ci t pl) ! j) = pe_handle (m_peers pl ! j)
       \<and> pe_address (m_peers (connection_closed env pr ci t pl) ! j) = pe_address (m_peers pl ! j)
       \<and> pe_port (m_peers (connection_closed env pr ci t pl) ! j) = pe_port (m_peers pl ! j)
       \<and> pe_connection (m_peers (connection_closed env pr ci t pl) ! j) =
           (if pr = Some (pe_handle (m_peers pl ! j)) then None else pe_connection (m_peers pl ! j))" if "j < length (m_peers pl)" for j
  proof (cases pr)
    case None
    then show ?thesis by (simp add: connection_closed_def)
  next
    case (Some h)
    show ?thesis
    proof (cases "entry_of h pl")
      case None
      then have "pe_handle (m_peers pl ! j) \<noteq> h" using that unfolding entry_of_def find_None_iff by auto
      then show ?thesis using None Some by (simp add: connection_closed_def)
    next
      case (Some p)
      then show ?thesis using \<open>pr = Some h\<close> that by (auto simp: connection_closed_def set_entry_def Let_def)
    qed
  qed
  show "map pe_handle (m_peers (connection_closed env pr ci t pl)) = map pe_handle (m_peers pl)"
    using len fields by (intro nth_equalityI) auto
qed

lemma recalculate_ok: "peers_ok env pl \<Longrightarrow> peers_ok env (recalculate_connect_candidates env fin pl)"
  by (auto simp: recalculate_connect_candidates_def peers_ok_def cnt_sum candidate_now_def [abs_def])

section \<open>Erasing\<close>

lemma erase_peer_ok: "peers_ok env pl \<Longrightarrow> peers_ok env (erase_peer env h pl)"
  using peers_ok_erase find_endpoint_spec(1) by (auto simp: erase_peer_def split: option.split prod.split)

lemma erase_at_shape [simp]:
  "m_peers (erase_entry env i pl) = take i (m_peers pl) @ drop (Suc i) (m_peers pl)" "m_finished (erase_entry env i pl) = m_finished pl"
  "candidate_now env' (erase_entry env i pl) = candidate_now env' pl"
proof -
  show f: "m_finished (erase_entry env i pl) = m_finished pl" by (simp add: erase_entry_def Let_def)
  show "m_peers (erase_entry env i pl) = take i (m_peers pl) @ drop (Suc i) (m_peers pl)" by (simp add: erase_entry_def Let_def)
  show "candidate_now env' (erase_entry env i pl) = candidate_now env' pl" by (rule candidate_now_cong [OF f])
qed

lemma filter_loop_ok: "peers_ok env pl \<Longrightarrow> i + n = length (m_peers pl) \<Longrightarrow> peers_ok env (filter_loop env ci t n i pl)"
proof (induction n arbitrary: i pl)
  case (Suc n)
  define p where "p = m_peers pl ! i"
  define pl1 where "pl1 = (if pe_connection p \<noteq> None then connection_closed env (Some (pe_handle p)) (ci (pe_handle p)) t pl else pl)"
  have i: "i < length (m_peers pl)" using Suc.prems by simp
  have "entry_of (pe_handle p) pl = Some p" using entry_of_Some [OF peers_okD(3) [OF Suc.prems(1)]] i by (auto simp: p_def)
  then have ok1: "peers_ok env pl1" using connection_closed_ok [OF Suc.prems(1), of "Some (pe_handle p)"] Suc.prems(1) by (auto simp: pl1_def)
  have len: "length (m_peers pl1) = length (m_peers pl)" using connection_closed_shape(1) [OF Suc.prems(1)] by (simp add: pl1_def)
  have eq: "filter_loop env ci t (Suc n) i pl = (if \<not> odd (ip_access (ip_rules env) (pe_address p)) then filter_loop env ci t n (Suc i) pl
      else filter_loop env ci t n i (erase_entry env i pl1))" by (simp add: p_def pl1_def Let_def)
  show ?case unfolding eq
    using Suc.IH [OF Suc.prems(1), of "Suc i"] Suc.IH [OF peers_ok_erase [OF ok1, of i], of i] i len Suc.prems(2) by simp
qed simp

lemma ip_filter_updated_ok: "peers_ok env pl \<Longrightarrow> peers_ok env (ip_filter_updated env ci t pl)"
  by (simp add: ip_filter_updated_def filter_loop_ok)

end
