(* ===== verification/Peer_List_Search.thy ===== *)
theory Peer_List_Search
  imports Peer_List_Invariant
begin

text \<open>
  The loops over the list of peers and the operations that add entries: that old entries are dropped and
  others are not, that a new entry goes to the right place, and which entry the search for a peer to
  connect to finds. The comparison of entries is the order of a key, a list of numbers.
\<close>

section \<open>Dropping old entries\<close>

definition spared :: "list_env \<Rightarrow> peer_list \<Rightarrow> peer_list \<Rightarrow> bool" where
  "spared env pl pl' \<longleftrightarrow> m_finished pl' = m_finished pl \<and> set (m_peers pl') \<subseteq> set (m_peers pl)
     \<and> (\<forall>p \<in> set (m_peers pl). \<not> is_erase_candidate env pl p \<longrightarrow> p \<in> set (m_peers pl'))"

lemma is_erase_candidate_cong: "m_finished pl' = m_finished pl \<Longrightarrow> is_erase_candidate env pl' = is_erase_candidate env pl"
  using candidate_now_cong [of pl' pl env] by (simp add: is_erase_candidate_def fun_eq_iff)

lemma spared_refl: "spared env pl pl"
  by (simp add: spared_def)

lemma spared_trans:
  assumes "spared env pl pl1" "spared env pl1 pl2"
  shows "spared env pl pl2"
  using assms is_erase_candidate_cong [of pl1 pl env] by (auto simp: spared_def)

lemma set_erased: "i < length xs \<Longrightarrow> p \<in> set xs \<Longrightarrow> p \<noteq> xs ! i \<Longrightarrow> p \<in> set (take i xs @ drop (Suc i) xs)"
  by (subst (asm) id_take_nth_drop [of i xs]) auto

lemma erase_spared: "i < length (m_peers pl) \<Longrightarrow> is_erase_candidate env pl (m_peers pl ! i) \<Longrightarrow> spared env pl (erase_entry env i pl)"
  using set_erased [of i "m_peers pl"] by (auto simp: spared_def dest: in_set_takeD in_set_dropD)

text \<open>
  The loop looks at every entry at most once: the candidate it has found is not among the entries that
  are still to come, also when entries in between are erased.
\<close>

definition erase_loop_ok :: "list_env \<Rightarrow> nat \<Rightarrow> int \<Rightarrow> int \<Rightarrow> peer_list \<Rightarrow> bool" where
  "erase_loop_ok env n rr cand pl \<longleftrightarrow>
     0 \<le> rr \<and> rr \<le> int (length (m_peers pl)) \<and> n \<le> length (m_peers pl)
   \<and> (cand \<noteq> -1 \<longrightarrow> 0 \<le> cand \<and> cand < int (length (m_peers pl)) \<and> is_erase_candidate env pl (m_peers pl ! nat cand)
        \<and> int n \<le> (if cand \<ge> rr then cand - rr else cand - rr + int (length (m_peers pl))))"

lemma erase_loop_result:
  assumes "erase_loop env limit n rr cand pl = (cand', pl')" "erase_loop_ok env n rr cand pl" "peers_ok env pl"
  shows "peers_ok env pl' \<and> spared env pl pl'
    \<and> (cand' \<noteq> -1 \<longrightarrow> 0 \<le> cand' \<and> cand' < int (length (m_peers pl')) \<and> is_erase_candidate env pl' (m_peers pl' ! nat cand'))"
  using assms
proof (induction n arbitrary: rr cand pl)
  case 0
  then show ?case by (auto simp: erase_loop_ok_def spared_refl)
next
  case (Suc n)
  define len where "len = int (length (m_peers pl))"
  define r where "r = (if rr = len then 0 else rr)"
  define p where "p = m_peers pl ! nat r"
  have r: "0 \<le> r" "r < len" using Suc.prems(2) by (auto simp: erase_loop_ok_def r_def len_def)
  have c: "cand \<noteq> -1 \<Longrightarrow> 0 \<le> cand \<and> cand < len \<and> is_erase_candidate env pl (m_peers pl ! nat cand)
      \<and> cand \<noteq> r \<and> int n < (if cand > r then cand - r else cand - r + len)"
    using Suc.prems(2) by (auto simp: erase_loop_ok_def r_def len_def split: if_splits)
  have n: "int n < len" using Suc.prems(2) by (simp add: erase_loop_ok_def len_def)
  show ?case
  proof (cases "nearly_full limit pl")
    case False
    then show ?thesis using Suc.prems by (auto simp: erase_loop_ok_def spared_refl)
  next
    case full: True
    show ?thesis
    proof (cases "worth_erasing env cand p pl")
      case False
      have "erase_loop env limit n (r + 1) cand pl = (cand', pl')"
        using Suc.prems(1) full False by (simp add: Let_def r_def len_def p_def)
      moreover have "erase_loop_ok env n (r + 1) cand pl" using r n c by (auto simp: erase_loop_ok_def len_def split: if_splits)
      ultimately show ?thesis by (rule Suc.IH [OF _ _ Suc.prems(3)])
    next
      case True
      then have pc: "is_erase_candidate env pl (m_peers pl ! nat r)" by (simp add: worth_erasing_def p_def)
      have ri: "nat r < length (m_peers pl)" using r by (simp add: len_def)
      show ?thesis
      proof (cases "should_erase_immediately p")
        case False
        have "erase_loop env limit n (r + 1) r pl = (cand', pl')"
          using Suc.prems(1) full True False by (simp add: Let_def r_def len_def p_def)
        moreover have "erase_loop_ok env n (r + 1) r pl" using r n pc by (auto simp: erase_loop_ok_def len_def)
        ultimately show ?thesis by (rule Suc.IH [OF _ _ Suc.prems(3)])
      next
        case imm: True
        define pl1 where "pl1 = erase_entry env (nat r) pl"
        define c1 where "c1 = (if cand > r then cand - 1 else cand)"
        have ps: "m_peers pl1 = take (nat r) (m_peers pl) @ drop (Suc (nat r)) (m_peers pl)" by (simp add: pl1_def)
        have len1: "int (length (m_peers pl1)) = len - 1" using ri by (simp add: ps len_def)
        have "erase_loop env limit n r c1 pl1 = (cand', pl')"
          using Suc.prems(1) full True imm by (simp add: Let_def r_def len_def p_def pl1_def c1_def)
        moreover have "erase_loop_ok env n r c1 pl1"
        proof -
          have "is_erase_candidate env pl1 (m_peers pl1 ! nat c1)" if "cand \<noteq> -1"
          proof -
            have "m_peers pl1 ! nat c1 = m_peers pl ! nat cand"
              using c [OF that] r ri by (auto simp: ps c1_def nth_append len_def min_def nat_diff_distrib Suc_nat_eq_nat_zadd1)
            then show ?thesis using c [OF that] is_erase_candidate_cong [of pl1 pl env] by (simp add: pl1_def)
          qed
          moreover have "c1 = -1 \<longleftrightarrow> cand = -1" using c r by (auto simp: c1_def)
          ultimately show ?thesis using c r n len1 unfolding erase_loop_ok_def by (auto simp: c1_def len_def split: if_splits)
        qed
        moreover have "peers_ok env pl1" unfolding pl1_def by (rule peers_ok_erase [OF Suc.prems(3) ri])
        ultimately have "peers_ok env pl' \<and> spared env pl1 pl'
            \<and> (cand' \<noteq> -1 \<longrightarrow> 0 \<le> cand' \<and> cand' < int (length (m_peers pl')) \<and> is_erase_candidate env pl' (m_peers pl' ! nat cand'))"
          by (rule Suc.IH)
        then show ?thesis using spared_trans erase_spared [OF ri pc] unfolding pl1_def by blast
      qed
    qed
  qed
qed

lemma erase_peers_ok:
  assumes ok: "peers_ok env pl"
  shows "peers_ok env (erase_peers env rnd pl) \<and> spared env pl (erase_peers env rnd pl)"
proof (cases "peer_limit env = 0 \<or> m_peers pl = []")
  case True
  then show ?thesis using ok by (auto simp: erase_peers_def spared_refl)
next
  case False
  obtain c pl1 where res: "erase_loop env (peer_limit env) (min (length (m_peers pl)) 300) (int (rnd mod length (m_peers pl))) (-1) pl = (c, pl1)"
    by (cases "erase_loop env (peer_limit env) (min (length (m_peers pl)) 300) (int (rnd mod length (m_peers pl))) (-1) pl")
  have "erase_loop_ok env (min (length (m_peers pl)) 300) (int (rnd mod length (m_peers pl))) (-1) pl"
    using False by (simp add: erase_loop_ok_def zmod_int less_imp_le)
  note R = erase_loop_result [OF res this ok]
  have eq: "erase_peers env rnd pl = (if c > -1 then erase_entry env (nat c) pl1 else pl1)"
    using False res by (simp add: erase_peers_def Let_def)
  show ?thesis
  proof (cases "c > -1")
    case True
    then have "nat c < length (m_peers pl1)" "is_erase_candidate env pl1 (m_peers pl1 ! nat c)" using R by auto
    then show ?thesis using R peers_ok_erase [of env pl1 "nat c"] erase_spared [of "nat c" pl1 env] spared_trans True by (auto simp: eq)
  qed (use R in \<open>simp add: eq\<close>)
qed

section \<open>New peers\<close>

definition fresh_handle :: "nat option \<Rightarrow> peer_list \<Rightarrow> bool" where
  "fresh_handle f pl \<longleftrightarrow> (\<forall>h. f = Some h \<longrightarrow> h \<notin> pe_handle ` set (m_peers pl))"

lemma fresh_handle_spared: "fresh_handle f pl \<Longrightarrow> spared env pl pl' \<Longrightarrow> fresh_handle f pl'"
  by (auto simp: fresh_handle_def spared_def)

lemma insert_at_fields [simp]:
  "m_num_connect_candidates (insert_entry i p pl) = m_num_connect_candidates pl" "m_num_seeds (insert_entry i p pl) = m_num_seeds pl"
  "m_finished (insert_entry i p pl) = m_finished pl" "candidate_now env (insert_entry i p pl) = candidate_now env pl"
  by (simp_all add: insert_entry_def)

lemma add_new_peer_ok:
  assumes ok: "peers_ok env pl" and at: "place_for a i pl" and f: "fresh_handle fresh pl"
    and new: "\<forall>j < length (m_peers pl). pe_address (m_peers pl ! j) = a \<longrightarrow> multiple_per_ip env \<and> pe_port (m_peers pl ! j) \<noteq> port"
  shows "peers_ok env (snd (add_new_peer env fresh i a port src flags pl))"
proof (cases fresh)
  case (Some h)
  define p where "p = (new_entry h a port True src)\<lparr>pe_seed := bit flags 1\<rparr>"
  have p: "pe_address p = a" "pe_handle p \<notin> pe_handle ` set (m_peers pl)" "pe_port p = port" "pe_seed p = bit flags 1"
    using f Some by (simp_all add: p_def new_entry_def fresh_handle_def)
  have eq: "snd (add_new_peer env fresh i a port src flags pl) = (insert_entry i p pl)\<lparr>m_num_seeds := m_num_seeds pl + of_bool (pe_seed p),
      m_num_connect_candidates := m_num_connect_candidates pl + of_bool (candidate_now env pl p)\<rparr>"
    unfolding add_new_peer_def Some option.case Let_def p_def [symmetric] using p(4)
    by (cases "pe_seed p"; cases "candidate_now env pl p") simp_all
  show ?thesis unfolding eq by (rule peers_ok_insert [OF ok at p(1,2)]) (use p new in auto)
qed (use ok in \<open>simp add: add_new_peer_def\<close>)

lemma update_known_peer_ok:
  assumes ok: "peers_ok env pl" and i: "i < length (m_peers pl)" and port: "multiple_per_ip env \<longrightarrow> pe_port (m_peers pl ! i) = port"
  shows "peers_ok env (snd (update_known_peer env i port src flags pl))"
proof -
  define p where "p = m_peers pl ! i"
  define p' where "p' = p\<lparr>connectable := True, pe_port := port, pe_source := pe_source p OR src,
                 failcount := (if failcount p > 0 \<and> src = tracker then failcount p - 1 else failcount p),
                 pe_seed := pe_seed p \<or> (bit flags 1 \<and> pe_connection p = None)\<rparr>"
  have fields: "pe_handle p' = pe_handle p" "pe_address p' = pe_address p" "pe_port p' = port" "pe_seed p' = (pe_seed p \<or> (bit flags 1 \<and> pe_connection p = None))"
    by (simp_all add: p'_def)
  have eq: "snd (update_known_peer env i port src flags pl) = pl\<lparr>m_peers := (m_peers pl)[i := p'],
      m_num_seeds := m_num_seeds pl + (if pe_seed p' \<and> \<not> pe_seed p then 1 else 0),
      m_num_connect_candidates := m_num_connect_candidates pl - of_bool (candidate_now env pl p) + of_bool (candidate_now env pl p')\<rparr>"
    unfolding update_known_peer_def Let_def snd_conv p_def [symmetric] p'_def [symmetric] recount_max [OF ok i p_def [symmetric]] ..
  show ?thesis unfolding eq
    using peers_okD(7,8) [OF ok] port fields by (intro peers_ok_update [OF ok i, of p']) (auto simp: p_def of_bool_def)
qed

lemma add_peer_ok:
  assumes ok: "peers_ok env pl" and f: "fresh_handle fresh pl"
  shows "peers_ok env (snd (add_peer env fresh rnd a port src flags pl))"
proof -
  obtain i found where loc: "locate_peer env a port pl = (i, found)" by (cases "locate_peer env a port pl")
  note L = locate_spec [OF ok loc]
  define pl1 where "pl1 = erase_peers env rnd pl"
  have ok1: "peers_ok env pl1" "spared env pl pl1" using erase_peers_ok [OF ok] by (auto simp: pl1_def)
  have known: "found \<Longrightarrow> peers_ok env (snd (update_known_peer env i port src flags pl))"
    by (rule update_known_peer_ok [OF ok]) (use L(1) in auto)
  have new: "\<not> found \<Longrightarrow> peers_ok env (snd (add_new_peer env fresh i a port src flags pl))"
    by (rule add_new_peer_ok [OF ok _ f]) (use L(2) in auto)
  have late: "peers_ok env (snd (add_new_peer env fresh (lower a pl1) a port src flags pl1))" if "\<not> found"
  proof (rule add_new_peer_ok [OF ok1(1) _ fresh_handle_spared [OF f ok1(2)]])
    have low: "lower a pl1 \<le> length (m_peers pl1)" by (rule lower_spec(1) [OF ok1(1)])
    have before: "j < lower a pl1 \<longleftrightarrow> pe_address (m_peers pl1 ! j) < a" if "j < length (m_peers pl1)" for j
      using that by (rule lower_spec(2) [OF ok1(1)])
    show "place_for a (lower a pl1) pl1" unfolding place_for_def
      using low before by (metis less_le_trans not_le order_less_imp_le)
    show "\<forall>j < length (m_peers pl1). pe_address (m_peers pl1 ! j) = a \<longrightarrow> multiple_per_ip env \<and> pe_port (m_peers pl1 ! j) \<noteq> port"
    proof (intro allI impI)
      fix j assume j: "j < length (m_peers pl1)" "pe_address (m_peers pl1 ! j) = a"
      have "m_peers pl1 ! j \<in> set (m_peers pl)" using ok1(2) nth_mem [OF j(1)] by (auto simp: spared_def)
      then obtain k where "k < length (m_peers pl)" "m_peers pl ! k = m_peers pl1 ! j" by (metis in_set_conv_nth)
      then show "multiple_per_ip env \<and> pe_port (m_peers pl1 ! j) \<noteq> port" using L(2) that j(2) by metis
    qed
  qed
  show ?thesis
    using ok ok1(1) known new late by (simp add: add_peer_def Let_def loc pl1_def [symmetric])
qed

section \<open>Incoming connections\<close>

definition accepted :: "nat \<Rightarrow> bool \<Rightarrow> int \<Rightarrow> peer_entry \<Rightarrow> peer_entry" where
  "accepted c quick t p = p\<lparr>prev_amount_download := 0, prev_amount_upload := 0, pe_connection := Some c,
     last_connected := (if quick then last_connected p else t mod 2 ^ 16)\<rparr>"

lemma accepted_fields [simp]:
  "pe_handle (accepted c quick t p) = pe_handle p" "pe_address (accepted c quick t p) = pe_address p" "pe_port (accepted c quick t p) = pe_port p"
  "pe_seed (accepted c quick t p) = pe_seed p" "\<not> candidate_now env pl (accepted c quick t p)"
  by (simp_all add: accepted_def candidate_now_def is_connect_candidate_def)

lemma accept_connection_eq:
  "snd (accept_connection env i c quick t pl) = pl\<lparr>m_peers := (m_peers pl)[i := accepted c quick t (m_peers pl ! i)]\<rparr>"
  by (simp add: accept_connection_def accepted_def Let_def)

lemma accept_connection_ok:
  assumes ok: "peers_ok env pl" and i: "i < length (m_peers pl)" and no: "\<not> candidate_now env pl (m_peers pl ! i)"
  shows "peers_ok env (snd (accept_connection env i c quick t pl))"
  unfolding accept_connection_eq
  using peers_okD(7,8) [OF ok] no by (intro peers_ok_update [OF ok i, of "accepted c quick t (m_peers pl ! i)"]) auto

lemma accept_counted_ok:
  assumes ok: "peers_ok env pl" and i: "i < length (m_peers pl)"
  shows "peers_ok env (snd (accept_connection env i c quick t
    (if candidate_now env pl (m_peers pl ! i) then pl\<lparr>m_num_connect_candidates := max 0 (m_num_connect_candidates pl - 1)\<rparr> else pl)))"
proof (cases "candidate_now env pl (m_peers pl ! i)")
  case True
  have "1 \<le> m_num_connect_candidates pl" by (rule candidates_pos [OF ok i True])
  then show ?thesis unfolding accept_connection_eq
    using peers_okD(7,8) [OF ok] True by (intro peers_ok_update [OF ok i, of "accepted c quick t (m_peers pl ! i)"]) auto
next
  case False
  then show ?thesis using accept_connection_ok [OF ok i] by simp
qed

lemma new_connection_ok:
  assumes ok: "peers_ok env pl" and f: "fresh_handle fresh pl"
  shows "peers_ok env (snd (new_connection env fresh over c a port quick clash t pl))"
proof -
  obtain i found where loc: "locate_peer env a port pl = (i, found)" by (cases "locate_peer env a port pl")
  note L = locate_spec [OF ok loc]
  show ?thesis
  proof (cases found)
    case True
    then have i: "i < length (m_peers pl)" using L(1) by simp
    define p where "p = m_peers pl ! i"
    have e: "entry_of (pe_handle p) pl = Some p" using entry_of_Some [OF peers_okD(3) [OF ok]] i by (auto simp: p_def)
    have closed: "peers_ok env (connection_closed env (Some (pe_handle p)) ci t pl) \<and> i < length (m_peers (connection_closed env (Some (pe_handle p)) ci t pl))"
      if "pe_connection p \<noteq> None" for ci
      using connection_closed_ok [OF ok, of "Some (pe_handle p)" ci t] connection_closed_shape(1) [OF ok] that e i by auto
    show ?thesis
      using ok i True closed accept_counted_ok [OF ok i] accept_counted_ok closed
      by (auto simp: new_connection_def Let_def loc p_def [symmetric] split: clash.split)
  next
    case False
    show ?thesis
    proof (cases fresh)
      case (Some h)
      define p where "p = (new_entry h a port False 0)\<lparr>pe_source := incoming\<rparr>"
      have p: "pe_address p = a" "pe_handle p \<notin> pe_handle ` set (m_peers pl)" "pe_port p = port" "\<not> pe_seed p" "\<not> connectable p"
        using f Some by (simp_all add: p_def new_entry_def fresh_handle_def)
      have nc: "\<not> candidate_now env pl p" using p(5) by (simp add: candidate_now_def is_connect_candidate_def)
      have ok1: "peers_ok env (insert_entry i p pl)"
        by (rule peers_ok_insert [OF ok _ p(1,2)]) (use L(2) False p nc in auto)
      have pi: "i < length (m_peers (insert_entry i p pl))" "m_peers (insert_entry i p pl) ! i = p"
        using L(2) False by (simp_all add: insert_entry_def place_for_def nth_append)
      have "peers_ok env (snd (accept_connection env i c quick t (insert_entry i p pl)))"
        by (rule accept_connection_ok [OF ok1 pi(1)]) (use pi(2) nc in simp)
      then show ?thesis using ok False Some by (simp add: new_connection_def Let_def loc p_def [symmetric])
    qed (use ok False loc in \<open>simp add: new_connection_def Let_def\<close>)
  qed
qed

section \<open>The port of a peer\<close>

lemma set_port_ok:
  assumes ok: "peers_ok env pl"
    and free: "\<And>p j. multiple_per_ip env \<Longrightarrow> entry_of h pl = Some p \<Longrightarrow> j < length (m_peers pl) \<Longrightarrow> pe_address (m_peers pl ! j) = pe_address p \<Longrightarrow> pe_port (m_peers pl ! j) \<noteq> port"
  shows "peers_ok env (set_port env h port src pl)"
proof (cases "entry_of h pl")
  case (Some p)
  from ok Some obtain i where i: "i < length (m_peers pl)" "m_peers pl ! i = p" "pe_handle p = h"
    "\<forall>f. set_entry h f pl = pl\<lparr>m_peers := (m_peers pl)[i := f p]\<rparr>" by (rule entry_cases)
  show ?thesis
    unfolding set_port_def Some option.case Let_def i(4) [rule_format] recount_max [OF ok i(1,2)]
    using peers_okD(7,8) [OF ok] free [OF _ Some] i(2)
    by (intro peers_ok_update [OF ok i(1), of "p\<lparr>pe_port := port, pe_source := pe_source p OR src, connectable := True\<rparr>"]) auto
qed (use ok in \<open>simp add: set_port_def\<close>)

lemma update_peer_port_ok:
  assumes ok: "peers_ok env pl" and c: "\<And>p. entry_of h pl = Some p \<Longrightarrow> pe_connection p \<noteq> None"
  shows "peers_ok env (snd (update_peer_port env port h src ci t pl))"
proof (cases "entry_of h pl")
  case (Some p)
  from ok Some obtain k where k: "k < length (m_peers pl)" "m_peers pl ! k = p" "pe_handle p = h"
    "\<forall>f. set_entry h f pl = pl\<lparr>m_peers := (m_peers pl)[k := f p]\<rparr>" by (rule entry_cases)
  obtain i found where loc: "(if multiple_per_ip env then find_endpoint (pe_address p) port pl else (0, False)) = (i, found)"
    by (cases "if multiple_per_ip env then find_endpoint (pe_address p) port pl else (0, False)")
  show ?thesis
  proof (cases "pe_port p \<noteq> port \<and> found")
    case True
    then have multi: "multiple_per_ip env" and fe: "find_endpoint (pe_address p) port pl = (i, True)" using loc by (auto split: if_splits)
    note F = find_endpoint_spec(1) [OF ok fe]
    define q where "q = m_peers pl ! i"
    define q' where "q' = q\<lparr>connectable := True, pe_source := pe_source q OR src\<rparr>"
    have F: "i < length (m_peers pl)" "pe_address q = pe_address p" "pe_port q = port" using F by (simp_all add: q_def)
    have ki: "k \<noteq> i" using F True k by (auto simp: q_def)
    define pl1 where "pl1 = pl\<lparr>m_peers := (m_peers pl)[i := q'],
      m_num_connect_candidates := m_num_connect_candidates pl + (if \<not> candidate_now env pl q \<and> candidate_now env pl q' then 1 else 0)\<rparr>"
    have conn: "peers_ok env (erase_peer env h (connection_closed env (Some h) ci t pl1))" if "pe_connection q \<noteq> None"
    proof (rule erase_peer_ok, rule connection_closed_ok)
      show ok1: "peers_ok env pl1" unfolding pl1_def
        by (rule peers_ok_entry_candidates [OF ok F(1) q_def [symmetric]])
          (use that in \<open>auto simp: q'_def candidate_now_def is_connect_candidate_def\<close>)
      have "entry_of h pl1 = Some p" using entry_of_Some [OF peers_okD(3) [OF ok1]] k ki by (auto simp: pl1_def)
      then show "\<And>p. Some h \<noteq> None \<Longrightarrow> entry_of (the (Some h)) pl1 = Some p \<Longrightarrow> pe_connection p \<noteq> None" using c [OF Some] by simp
    qed
    have "peers_ok env (set_port env h port src (erase_entry env i pl))"
    proof (rule set_port_ok)
      show ok1: "peers_ok env (erase_entry env i pl)" by (rule peers_ok_erase [OF ok F(1)])
      show "pe_port (m_peers (erase_entry env i pl) ! j) \<noteq> port"
        if e: "entry_of h (erase_entry env i pl) = Some p'" and j: "j < length (m_peers (erase_entry env i pl))"
          and a: "pe_address (m_peers (erase_entry env i pl) ! j) = pe_address p'" for p' j
      proof
        assume port: "pe_port (m_peers (erase_entry env i pl) ! j) = port"
        define j' where "j' = (if j < i then j else Suc j)"
        have j': "j' < length (m_peers pl)" "j' \<noteq> i" "m_peers (erase_entry env i pl) ! j = m_peers pl ! j'"
          using j F(1) by (auto simp: j'_def nth_append)
        obtain l where l: "l < length (m_peers (erase_entry env i pl))" "m_peers (erase_entry env i pl) ! l = p'" "pe_handle p' = h"
          using entry_of_Some [OF peers_okD(3) [OF ok1], of h p'] e by blast
        have "p' \<in> set (m_peers pl)" using nth_mem [OF l(1)] l(2) by (auto dest: in_set_takeD in_set_dropD)
        then obtain l' where "l' < length (m_peers pl)" "m_peers pl ! l' = p'" by (metis in_set_conv_nth)
        then have "p' = p" using k(1-3) l(3) peers_okD(3) [OF ok] by (metis distinct_conv_nth length_map nth_map)
        then have "(pe_address (m_peers pl ! j'), pe_port (m_peers pl ! j')) = (pe_address (m_peers pl ! i), pe_port (m_peers pl ! i))"
          using a port j' F by (simp add: q_def)
        then show False using nth_eq_iff_index_eq [OF peers_okD(4) [OF ok], of j' i] j' F(1) by simp
      qed
    qed
    then show ?thesis using conn True Some loc
      by (simp add: update_peer_port_def Let_def q_def [symmetric] q'_def [symmetric] pl1_def [symmetric])
  next
    case False
    have "peers_ok env (set_port env h port src pl)" if "pe_port p \<noteq> port" "\<not> found"
    proof (rule set_port_ok [OF ok])
      fix p' j assume m: "multiple_per_ip env" and e: "entry_of h pl = Some p'" "j < length (m_peers pl)" "pe_address (m_peers pl ! j) = pe_address p'"
      have "find_endpoint (pe_address p) port pl = (i, False)" using loc m that by simp
      from find_endpoint_spec(2) [OF ok this] show "pe_port (m_peers pl ! j) \<noteq> port" using e Some by simp
    qed
    then show ?thesis using False ok Some loc by (auto simp: update_peer_port_def Let_def)
  qed
qed (use ok in \<open>simp add: update_peer_port_def\<close>)

section \<open>The best candidate\<close>

text \<open>Entries differ at most in the mark that they were added to the DHT.\<close>

definition unmarked :: "peer_entry \<Rightarrow> peer_entry" where
  "unmarked p = p\<lparr>added_to_dht := False\<rparr>"

lemma unmarked_fields [simp]:
  "pe_handle (unmarked p) = pe_handle p" "pe_address (unmarked p) = pe_address p" "pe_port (unmarked p) = pe_port p" "pe_seed (unmarked p) = pe_seed p"
  "candidate_now env pl (unmarked p) = candidate_now env pl p" "too_recent env t (unmarked p) = too_recent env t p"
  "is_erase_candidate env pl (unmarked p) = is_erase_candidate env pl p"
  by (simp_all add: unmarked_def candidate_now_def is_connect_candidate_def too_recent_def is_erase_candidate_def)

lemma unmarked_mark [simp]: "unmarked (p\<lparr>added_to_dht := b\<rparr>) = unmarked p"
  by (simp add: unmarked_def)

lemma unmarked_eqD:
  assumes "unmarked p = unmarked q"
  shows "pe_handle p = pe_handle q" "pe_address p = pe_address q" "pe_port p = pe_port q" "pe_seed p = pe_seed q" "pe_connection p = pe_connection q"
    "candidate_now env pl p = candidate_now env pl q" "too_recent env t p = too_recent env t q" "is_erase_candidate env pl p = is_erase_candidate env pl q"
proof -
  show "pe_handle p = pe_handle q" "pe_address p = pe_address q" "pe_port p = pe_port q" "pe_seed p = pe_seed q" using assms by (metis unmarked_fields)+
  show "candidate_now env pl p = candidate_now env pl q" "too_recent env t p = too_recent env t q"
    "is_erase_candidate env pl p = is_erase_candidate env pl q" using assms by (metis unmarked_fields)+
  have "pe_connection (unmarked p) = pe_connection p" "pe_connection (unmarked q) = pe_connection q" by (simp_all add: unmarked_def)
  then show "pe_connection p = pe_connection q" using assms by simp
qed

definition marked_peers :: "peer_list \<Rightarrow> peer_list \<Rightarrow> bool" where
  "marked_peers pl pl' \<longleftrightarrow> map unmarked (m_peers pl') = map unmarked (m_peers pl) \<and> m_finished pl' = m_finished pl
     \<and> m_num_connect_candidates pl' = m_num_connect_candidates pl \<and> m_num_seeds pl' = m_num_seeds pl"

lemma marked_refl: "marked_peers pl pl"
  by (simp add: marked_peers_def)

lemma marked_trans: "marked_peers pl pl1 \<Longrightarrow> marked_peers pl1 pl2 \<Longrightarrow> marked_peers pl pl2"
  by (simp add: marked_peers_def)

lemma marked_length: "marked_peers pl pl' \<Longrightarrow> length (m_peers pl') = length (m_peers pl)"
  unfolding marked_peers_def by (metis length_map)

lemma marked_nth: "marked_peers pl pl' \<Longrightarrow> j < length (m_peers pl) \<Longrightarrow> unmarked (m_peers pl' ! j) = unmarked (m_peers pl ! j)"
  using marked_length [of pl pl'] unfolding marked_peers_def by (metis nth_map)

lemma cnt_unmarked: "(\<And>p. P (unmarked p) = P p) \<Longrightarrow> cnt P (map unmarked xs) = cnt P xs"
  by (induction xs) auto

lemma marked_ok:
  assumes ok: "peers_ok env pl" and m: "marked_peers pl pl'" and rr: "0 \<le> m_round_robin pl'" "m_round_robin pl' \<le> int (length (m_peers pl))"
  shows "peers_ok env pl'"
proof -
  note D = peers_okD [OF ok]
  have eqs: "map pe_handle (m_peers pl') = map pe_handle (m_peers pl)"
    "map (\<lambda>p. (pe_address p, pe_port p)) (m_peers pl') = map (\<lambda>p. (pe_address p, pe_port p)) (m_peers pl)"
    using unmarked_eqD(1-3) [OF marked_nth [OF m]] marked_length [OF m] by (auto intro!: nth_equalityI)
  have "sorted_wrt (addr_order env) (m_peers pl')"
    using ok marked_length [OF m] unmarked_eqD(2) [OF marked_nth [OF m]]
    by (auto simp: peers_ok_def sorted_wrt_iff_nth_less addr_order_def)
  moreover have "cnt P (m_peers pl') = cnt P (m_peers pl)" if "\<And>p. P (unmarked p) = P p" for P
    using cnt_unmarked [of P, OF that] m unfolding marked_peers_def by metis
  ultimately show ?thesis
    using D(3-6) eqs rr m marked_length [OF m] candidate_now_cong [of pl' pl env] by (simp add: peers_ok_def marked_peers_def)
qed

section \<open>The search\<close>

definition peer_key :: "list_env \<Rightarrow> bool \<Rightarrow> address \<Rightarrow> peer_entry \<Rightarrow> int list" where
  "peer_key env fin external_ip p =
     [failcount p, of_bool (\<not> is_local (link_local env) (pe_address p)), last_connected p, - source_rank (pe_source p),
      - (case as_weight env of Some w \<Rightarrow> if fin then 0 else w (pe_address p) | None \<Rightarrow> 0), int (cidr_distance external_ip (pe_address p))]"

lemma compare_peer_key: "compare_peer env fin ext p q \<longleftrightarrow> peer_key env fin ext p < peer_key env fin ext q"
  by (auto simp: compare_peer_def peer_key_def Let_def split: option.split)

lemma peer_key_unmarked [simp]: "peer_key env fin ext (unmarked p) = peer_key env fin ext p"
  by (auto simp: peer_key_def unmarked_def split: option.split)

lemma peer_key_eq: "unmarked p = unmarked q \<Longrightarrow> peer_key env fin ext p = peer_key env fin ext q"
  by (metis peer_key_unmarked)

definition eligible :: "list_env \<Rightarrow> int \<Rightarrow> peer_list \<Rightarrow> peer_entry \<Rightarrow> bool" where
  "eligible env t pl p \<longleftrightarrow> candidate_now env pl p \<and> \<not> too_recent env t p"

text \<open>After \<open>k\<close> rounds from position \<open>s\<close>.\<close>

definition searched_ok :: "list_env \<Rightarrow> int \<Rightarrow> address \<Rightarrow> peer_list \<Rightarrow> int \<Rightarrow> nat \<Rightarrow> search \<Rightarrow> bool" where
  "searched_ok env t ext pl s k st \<longleftrightarrow>
     (let pl' = searched st; n = int (length (m_peers pl)); cand = candidate st; ec = erase_candidate st
      in marked_peers pl pl' \<and> t_picker pl' = t_picker pl \<and> 0 \<le> m_round_robin pl' \<and> m_round_robin pl' \<le> n
       \<and> (m_round_robin pl' - s - int k) mod n = 0
       \<and> (ec \<noteq> -1 \<longrightarrow> 0 \<le> ec \<and> ec < n \<and> is_erase_candidate env pl (m_peers pl ! nat ec))
       \<and> (if cand = -1 then \<forall>j < k. \<not> eligible env t pl (m_peers pl ! nat ((s + int j) mod n))
          else 0 \<le> cand \<and> cand < n \<and> eligible env t pl (m_peers pl ! nat cand)
             \<and> (\<forall>j < k. eligible env t pl (m_peers pl ! nat ((s + int j) mod n)) \<longrightarrow>
                  peer_key env (m_finished pl) ext (m_peers pl ! nat cand)
                    \<le> peer_key env (m_finished pl) ext (m_peers pl ! nat ((s + int j) mod n)))))"

lemma find_step_ok:
  assumes st: "searched_ok env t ext pl s k st" and res: "find_step env t ext st = Some st'"
  shows "searched_ok env t ext pl s (Suc k) st'"
proof -
  define n where "n = int (length (m_peers pl))"
  define pl1 where "pl1 = searched st"
  define r where "r = (if m_round_robin pl1 \<ge> int (length (m_peers pl1)) then 0 else m_round_robin pl1)"
  define p where "p = m_peers pl1 ! nat r"
  define pl2 where "pl2 = (if \<not> pinged st \<and> \<not> added_to_dht p then pl1\<lparr>m_peers := (m_peers pl1)[nat r := p\<lparr>added_to_dht := True\<rparr>]\<rparr> else pl1)"
  have m1: "marked_peers pl pl1" "t_picker pl1 = t_picker pl" "0 \<le> m_round_robin pl1" "m_round_robin pl1 \<le> n" "(m_round_robin pl1 - s - int k) mod n = 0"
    using st by (auto simp: searched_ok_def Let_def pl1_def n_def)
  have len: "int (length (m_peers pl1)) = n" using marked_length [OF m1(1)] by (simp add: n_def)
  have ne: "m_peers pl2 \<noteq> []" using res by (auto simp: find_step_def Let_def pl1_def [symmetric] r_def [symmetric] p_def [symmetric] pl2_def split: if_splits)
  then have n0: "0 < n" using len by (auto simp: pl2_def split: if_splits)
  have r: "0 \<le> r" "r < n" using m1(3,4) n0 len by (auto simp: r_def)
  have rmod: "r = (s + int k) mod n"
  proof -
    have "m_round_robin pl1 mod n = (s + int k) mod n" using m1(5) by (metis add_diff_cancel_left' diff_diff_eq mod_eq_dvd_iff dvd_eq_mod_eq_0)
    moreover have "r = m_round_robin pl1 mod n" using m1(3,4) len by (auto simp: r_def)
    ultimately show ?thesis by simp
  qed
  have m12: "marked_peers pl1 pl2"
  proof -
    have "map unmarked ((m_peers pl1)[nat r := p\<lparr>added_to_dht := True\<rparr>]) = map unmarked (m_peers pl1)"
      unfolding map_update unmarked_mark p_def by (metis list_update_id map_update)
    then show ?thesis by (simp add: pl2_def marked_peers_def)
  qed
  then have m2: "marked_peers pl pl2" by (rule marked_trans [OF m1(1)])
  have pu: "unmarked p = unmarked (m_peers pl ! nat r)" using marked_nth [OF m1(1), of "nat r"] r by (simp add: p_def n_def)
  have same: "candidate_now env pl2 = candidate_now env pl" "is_erase_candidate env pl2 = is_erase_candidate env pl" "m_finished pl2 = m_finished pl"
    using m2 candidate_now_cong [of pl2 pl env] is_erase_candidate_cong [of pl2 pl env] by (simp_all add: marked_peers_def)
  have pe: "eligible env t pl (m_peers pl ! nat r) \<longleftrightarrow> candidate_now env pl p \<and> \<not> too_recent env t p"
    using unmarked_eqD(6,7) [OF pu] by (simp add: eligible_def)
  define er where "er = (nearly_full (peer_limit env) pl2 \<and> peer_limit env > 0 \<and> worth_erasing env (erase_candidate st) p pl2)"
  define cand where "cand = (if \<not> candidate_now env pl2 p then candidate st
              else if candidate st \<noteq> -1 \<and> compare_peer env (m_finished pl2) ext (m_peers pl2 ! nat (candidate st)) p then candidate st
              else if too_recent env t p then candidate st else r)"
  have st': "candidate st' = cand" "erase_candidate st' = (if er then r else erase_candidate st)" "searched st' = pl2\<lparr>m_round_robin := r + 1\<rparr>"
    using res unfolding find_step_def Let_def pl1_def [symmetric] r_def [symmetric] p_def [symmetric] pl2_def [symmetric] er_def [symmetric] cand_def [symmetric]
    by (auto split: if_splits)
  have er: "er \<Longrightarrow> is_erase_candidate env pl (m_peers pl ! nat r)"
    using unmarked_eqD(8) [OF pu] same(2) by (auto simp: er_def worth_erasing_def)
  have pk: "peer_key env (m_finished pl) ext p = peer_key env (m_finished pl) ext (m_peers pl ! nat r)" by (rule peer_key_eq [OF pu])
  have ck: "peer_key env (m_finished pl) ext (m_peers pl2 ! nat (candidate st)) = peer_key env (m_finished pl) ext (m_peers pl ! nat (candidate st))"
    if "0 \<le> candidate st" "candidate st < n"
    using peer_key_eq [OF marked_nth [OF m2, of "nat (candidate st)"]] that by (simp add: n_def)
  define pos where "pos j = (s + int j) mod n" for j
  have old: "if candidate st = -1 then \<forall>j < k. \<not> eligible env t pl (m_peers pl ! nat (pos j))
          else 0 \<le> candidate st \<and> candidate st < n \<and> eligible env t pl (m_peers pl ! nat (candidate st))
             \<and> (\<forall>j < k. eligible env t pl (m_peers pl ! nat (pos j)) \<longrightarrow>
                  peer_key env (m_finished pl) ext (m_peers pl ! nat (candidate st))
                    \<le> peer_key env (m_finished pl) ext (m_peers pl ! nat (pos j)))"
    using st by (simp add: searched_ok_def Let_def n_def pos_def)
  have new: "if cand = -1 then \<forall>j < Suc k. \<not> eligible env t pl (m_peers pl ! nat (pos j))
          else 0 \<le> cand \<and> cand < n \<and> eligible env t pl (m_peers pl ! nat cand)
             \<and> (\<forall>j < Suc k. eligible env t pl (m_peers pl ! nat (pos j)) \<longrightarrow>
                  peer_key env (m_finished pl) ext (m_peers pl ! nat cand) \<le> peer_key env (m_finished pl) ext (m_peers pl ! nat (pos j)))"
  proof -
    have pk2: "pos k = r" using rmod by (simp add: pos_def)
    consider (keep) "cand = candidate st" "\<not> eligible env t pl (m_peers pl ! nat r)"
      | (better) "cand = candidate st" "candidate st \<noteq> -1" "peer_key env (m_finished pl) ext (m_peers pl ! nat (candidate st)) \<le> peer_key env (m_finished pl) ext (m_peers pl ! nat r)"
      | (chosen) "cand = r" "eligible env t pl (m_peers pl ! nat r)"
          "candidate st \<noteq> -1 \<longrightarrow> peer_key env (m_finished pl) ext (m_peers pl ! nat r) \<le> peer_key env (m_finished pl) ext (m_peers pl ! nat (candidate st))"
    proof (cases "candidate_now env pl p")
      case False
      then have "cand = candidate st" "\<not> eligible env t pl (m_peers pl ! nat r)" using pe same by (simp_all add: cand_def)
      then show thesis by (rule keep)
    next
      case True
      have cr: "candidate st \<noteq> -1 \<Longrightarrow> 0 \<le> candidate st \<and> candidate st < n" using old by auto
      show thesis
      proof (cases "candidate st \<noteq> -1 \<and> compare_peer env (m_finished pl2) ext (m_peers pl2 ! nat (candidate st)) p")
        case bt: True
        then have "cand = candidate st" using True same by (simp add: cand_def)
        moreover have "peer_key env (m_finished pl) ext (m_peers pl ! nat (candidate st)) \<le> peer_key env (m_finished pl) ext (m_peers pl ! nat r)"
          using bt ck cr pk same(3) by (simp add: compare_peer_key less_imp_le)
        ultimately show thesis using better bt by blast
      next
        case not_better: False
        show thesis
        proof (cases "too_recent env t p")
          case recent: True
          then have "cand = candidate st" using not_better by (simp add: cand_def)
          then show thesis using keep pe recent by blast
        next
          case False
          then have "cand = r" "eligible env t pl (m_peers pl ! nat r)" using True not_better pe same by (auto simp: cand_def)
          moreover have "candidate st \<noteq> -1 \<longrightarrow> peer_key env (m_finished pl) ext (m_peers pl ! nat r) \<le> peer_key env (m_finished pl) ext (m_peers pl ! nat (candidate st))"
            using not_better ck cr pk same(3) by (auto simp: compare_peer_key not_less)
          ultimately show thesis by (rule chosen)
        qed
      qed
    qed
    then show ?thesis
    proof cases
      case keep
      then show ?thesis using old pk2 by (auto simp: less_Suc_eq split: if_splits)
    next
      case better
      then show ?thesis using old pk2 by (auto simp: less_Suc_eq)
    next
      case chosen
      then have "cand \<noteq> -1" using r by auto
      moreover have "peer_key env (m_finished pl) ext (m_peers pl ! nat r) \<le> peer_key env (m_finished pl) ext (m_peers pl ! nat (pos j))"
        if "j < Suc k" "eligible env t pl (m_peers pl ! nat (pos j))" for j
        using that chosen old pk2 by (cases "j = k"; cases "candidate st = -1") (auto intro: order_trans)
      ultimately show ?thesis using chosen r by simp
    qed
  qed
  have round: "(r + 1 - s - int (Suc k)) mod n = 0"
  proof -
    have "(r - (s + int k)) mod n = 0" unfolding rmod by (simp add: mod_diff_left_eq)
    then show ?thesis by (simp add: algebra_simps)
  qed
  have "marked_peers pl (pl2\<lparr>m_round_robin := r + 1\<rparr>)" using m2 by (simp add: marked_peers_def)
  moreover have "t_picker pl2 = t_picker pl" using m1(2) by (simp add: pl2_def)
  moreover have "(if er then r else erase_candidate st) \<noteq> -1 \<longrightarrow> 0 \<le> (if er then r else erase_candidate st) \<and> (if er then r else erase_candidate st) < n
      \<and> is_erase_candidate env pl (m_peers pl ! nat (if er then r else erase_candidate st))"
    using st er r by (auto simp: searched_ok_def Let_def n_def)
  ultimately show ?thesis
    using r new round unfolding searched_ok_def Let_def st' n_def [symmetric] pos_def by simp
qed

lemma find_loop_ok:
  assumes "find_loop env t ext n st = Some st'" "searched_ok env t ext pl s k st"
  shows "searched_ok env t ext pl s (k + n) st'"
  using assms
proof (induction n arbitrary: st k)
  case (Suc n)
  then obtain st1 where st1: "find_step env t ext st = Some st1" "find_loop env t ext n st1 = Some st'" by (auto split: option.splits)
  have "searched_ok env t ext pl s (Suc k + n) st'" by (rule Suc.IH [OF st1(2) find_step_ok [OF Suc.prems(2) st1(1)]])
  then show ?case by simp
qed simp

lemma positions_all:
  assumes "0 < n" "i < n"
  shows "\<exists>j < n. nat ((s + int j) mod int n) = i"
proof -
  define j where "j = nat ((int i - s) mod int n)"
  have j: "int j = (int i - s) mod int n" using assms by (simp add: j_def)
  then have "int j < int n" using assms by simp
  moreover have "(s + int j) mod int n = int i" unfolding j mod_add_right_eq using assms by simp
  ultimately show ?thesis by (intro exI [of _ j]) simp
qed

text \<open>The entries the search looks at: at most 300, from where the last search stopped.\<close>

definition looked_at :: "peer_list \<Rightarrow> peer_entry list" where
  "looked_at pl =
     (let n = length (m_peers pl); s = (if m_round_robin pl \<ge> int n then 0 else m_round_robin pl)
      in map (\<lambda>j. m_peers pl ! nat ((s + int j) mod int n)) [0..<min n 300])"

lemma looked_at_all:
  assumes "length (m_peers pl) \<le> 300"
  shows "set (looked_at pl) = set (m_peers pl)"
proof
  let ?n = "length (m_peers pl)" let ?s = "if m_round_robin pl \<ge> int ?n then 0 else m_round_robin pl"
  have "nat ((?s + int j) mod int ?n) < ?n" if "j < ?n" for j
  proof -
    have "(?s + int j) mod int ?n < int ?n" using that by (intro pos_mod_bound) auto
    then show ?thesis using that by (simp add: nat_less_iff)
  qed
  then show "set (looked_at pl) \<subseteq> set (m_peers pl)" by (auto simp: looked_at_def Let_def)
  show "set (m_peers pl) \<subseteq> set (looked_at pl)"
  proof
    fix p assume "p \<in> set (m_peers pl)"
    then obtain i where i: "i < ?n" "p = m_peers pl ! i" by (metis in_set_conv_nth)
    obtain j where "j < ?n" "nat ((?s + int j) mod int ?n) = i" using positions_all [of ?n i ?s] i(1) by (metis gr_zeroI not_less_zero)
    then show "p \<in> set (looked_at pl)" using assms i(2) by (force simp: looked_at_def Let_def)
  qed
qed

text \<open>What the search returns: the list without one old entry, and the best of the entries it looked at.\<close>

lemma find_connect_candidate_ok:
  assumes res: "find_connect_candidate env t ext rnd pl = Some (r, pl')" and ok: "peers_ok env pl"
  shows "peers_ok env pl'"
    "\<And>i. r = Some i \<Longrightarrow> i < length (m_peers pl') \<and> eligible env t pl' (m_peers pl' ! i)"
    "r = None \<Longrightarrow> \<forall>p \<in> set (looked_at pl). \<not> eligible env t pl p"
    "\<And>i. r = Some i \<Longrightarrow> \<forall>p \<in> set (looked_at pl). eligible env t pl p \<longrightarrow>
       \<not> compare_peer env (m_finished pl) (if m_finished pl \<or> ext = no_address then rnd else ext) p (m_peers pl' ! i)"
    "\<And>p. p \<in> set (m_peers pl) \<Longrightarrow> \<not> is_erase_candidate env pl p \<Longrightarrow> \<exists>q \<in> set (m_peers pl'). unmarked q = unmarked p"
    "m_finished pl' = m_finished pl"
proof -
  define ext' where "ext' = (if m_finished pl \<or> ext = no_address then rnd else ext)"
  define n where "n = length (m_peers pl)"
  define pl0 where "pl0 = (if m_round_robin pl \<ge> int n then pl\<lparr>m_round_robin := 0\<rparr> else pl)"
  define k where "k = min n 300"
  define st0 where "st0 = \<lparr>pinged = False, candidate = -1, erase_candidate = -1, searched = pl0\<rparr>"
  have p0: "m_peers pl0 = m_peers pl" "m_finished pl0 = m_finished pl" "t_picker pl0 = t_picker pl" "marked_peers pl pl0" "0 \<le> m_round_robin pl0"
    "m_round_robin pl0 \<le> int n" using peers_okD(7,8) [OF ok] by (simp_all add: pl0_def marked_peers_def n_def)
  obtain st where st: "find_loop env t ext' k st0 = Some st"
    and out: "(r, pl') = (let pl = searched st; cand = candidate st; erase_cand = erase_candidate st;
                 (cand, pl) = (if erase_cand > -1 then (if cand > erase_cand then cand - 1 else cand, erase_entry env (nat erase_cand) pl)
                               else (cand, pl))
             in (if cand = -1 then None else Some (nat cand), pl))"
    using res unfolding find_connect_candidate_def Let_def ext'_def [symmetric] n_def [symmetric] pl0_def [symmetric] p0(1) k_def [symmetric] st0_def [symmetric]
    by (auto split: option.splits prod.splits)
  have "searched_ok env t ext' pl (m_round_robin pl0) 0 st0" using p0 by (simp add: searched_ok_def st0_def n_def)
  from find_loop_ok [OF st this] have S: "searched_ok env t ext' pl (m_round_robin pl0) k st" by simp
  define pl1 where "pl1 = searched st"
  define c where "c = candidate st"
  define ec where "ec = erase_candidate st"
  define s where "s = m_round_robin pl0"
  have m: "marked_peers pl pl1" "0 \<le> m_round_robin pl1" "m_round_robin pl1 \<le> int n"
    and e: "ec \<noteq> -1 \<longrightarrow> 0 \<le> ec \<and> ec < int n \<and> is_erase_candidate env pl (m_peers pl ! nat ec)"
    and b: "if c = -1 then \<forall>j < k. \<not> eligible env t pl (m_peers pl ! nat ((s + int j) mod int n))
          else 0 \<le> c \<and> c < int n \<and> eligible env t pl (m_peers pl ! nat c)
             \<and> (\<forall>j < k. eligible env t pl (m_peers pl ! nat ((s + int j) mod int n)) \<longrightarrow>
                  peer_key env (m_finished pl) ext' (m_peers pl ! nat c) \<le> peer_key env (m_finished pl) ext' (m_peers pl ! nat ((s + int j) mod int n)))"
    using S by (simp_all add: searched_ok_def Let_def pl1_def c_def ec_def n_def s_def)
  have ok1: "peers_ok env pl1" by (rule marked_ok [OF ok m(1)]) (use m n_def in auto)
  have len1: "length (m_peers pl1) = n" using marked_length [OF m(1)] by (simp add: n_def)
  have fin: "m_finished pl1 = m_finished pl" using m(1) by (simp add: marked_peers_def)
  have el1: "eligible env t pl1 (m_peers pl1 ! j) \<longleftrightarrow> eligible env t pl (m_peers pl ! j)" if "j < n" for j
    using unmarked_eqD(6,7) [OF marked_nth [OF m(1)]] that candidate_now_cong [OF fin] by (simp add: eligible_def n_def)
  have key1: "peer_key env (m_finished pl) ext' (m_peers pl1 ! j) = peer_key env (m_finished pl) ext' (m_peers pl ! j)" if "j < n" for j
    using peer_key_eq [OF marked_nth [OF m(1)]] that by (simp add: n_def)
  have ec1: "is_erase_candidate env pl1 (m_peers pl1 ! nat ec)" if "ec \<noteq> -1"
    using that e unmarked_eqD(8) [OF marked_nth [OF m(1), of "nat ec"]] is_erase_candidate_cong [OF fin] by (simp add: n_def nat_less_iff)
  have no: "\<not> (is_erase_candidate env pl1 p \<and> eligible env t pl1 p)" for p by (simp add: is_erase_candidate_def eligible_def)
  have seen: "\<exists>j < k. p = m_peers pl ! nat ((s + int j) mod int n)" if "p \<in> set (looked_at pl)" for p
    using that by (auto simp: looked_at_def Let_def n_def k_def s_def pl0_def)
  define c' where "c' = (if ec > -1 \<and> c > ec then c - 1 else c)"
  have pl': "pl' = (if ec > -1 then erase_entry env (nat ec) pl1 else pl1)" and r: "r = (if c' = -1 then None else Some (nat c'))"
    using out by (auto simp: Let_def pl1_def c_def ec_def c'_def split: if_splits)
  have cc: "c' = -1 \<longleftrightarrow> c = -1" using b e by (auto simp: c'_def split: if_splits)
  have fin': "m_finished pl' = m_finished pl" using fin by (simp add: pl')
  have el': "eligible env t pl' = eligible env t pl1" using candidate_now_cong [of pl' pl1 env] fin fin' by (simp add: eligible_def fun_eq_iff)
  have sub: "p \<in> set (m_peers pl1)" if "p \<in> set (m_peers pl')" for p
    using that by (auto simp: pl' dest: in_set_takeD in_set_dropD split: if_splits)
  have at: "nat c' < length (m_peers pl') \<and> m_peers pl' ! nat c' = m_peers pl1 ! nat c" if "c \<noteq> -1"
  proof (cases "ec > -1")
    case True
    have "nat c \<noteq> nat ec" using ec1 True no [of "m_peers pl1 ! nat ec"] el1 [of "nat c"] b that e by (auto simp: nat_less_iff split: if_splits)
    then have "c < ec \<or> c > ec" using b that e True by (auto split: if_splits)
    then show ?thesis using b that e True len1
      by (auto simp: pl' c'_def nth_append min_def nat_diff_distrib Suc_nat_eq_nat_zadd1 nat_less_iff split: if_splits)
  next
    case False
    then show ?thesis using b that len1 by (simp add: pl' c'_def nat_less_iff)
  qed
  show "peers_ok env pl'" using ok1 peers_ok_erase [OF ok1, of "nat ec"] e len1 by (auto simp: pl' nat_less_iff)
  show "m_finished pl' = m_finished pl" by (rule fin')
  show "i < length (m_peers pl') \<and> eligible env t pl' (m_peers pl' ! i)" if "r = Some i" for i
    using that r cc at b el1 [of "nat c"] by (auto simp: el' nat_less_iff split: if_splits)
  show "\<forall>p \<in> set (looked_at pl). \<not> eligible env t pl p" if "r = None"
    using that r cc b seen by (auto split: if_splits)
  show "\<forall>p \<in> set (looked_at pl). eligible env t pl p \<longrightarrow>
       \<not> compare_peer env (m_finished pl) (if m_finished pl \<or> ext = no_address then rnd else ext) p (m_peers pl' ! i)"
    if "r = Some i" for i
  proof (intro ballI impI)
    fix p assume "p \<in> set (looked_at pl)" and el: "eligible env t pl p"
    then obtain l where l: "l < k" "p = m_peers pl ! nat ((s + int l) mod int n)" using seen by blast
    have c1: "c \<noteq> -1" "i = nat c'" using that r cc by (auto split: if_splits)
    have "peer_key env (m_finished pl) ext' (m_peers pl ! nat c) \<le> peer_key env (m_finished pl) ext' p"
      using b c1 el l by auto
    then show "\<not> compare_peer env (m_finished pl) (if m_finished pl \<or> ext = no_address then rnd else ext) p (m_peers pl' ! i)"
      using at [OF c1(1)] c1 key1 [of "nat c"] b unfolding ext'_def [symmetric] compare_peer_key by (simp add: not_less nat_less_iff)
  qed
  show "\<exists>q \<in> set (m_peers pl'). unmarked q = unmarked p" if p: "p \<in> set (m_peers pl)" "\<not> is_erase_candidate env pl p" for p
  proof -
    obtain j where j: "j < n" "p = m_peers pl ! j" using p(1) by (metis in_set_conv_nth n_def)
    have u: "unmarked (m_peers pl1 ! j) = unmarked p" using marked_nth [OF m(1), of j] j by (simp add: n_def)
    have "m_peers pl1 ! j \<in> set (m_peers pl')"
    proof (cases "ec > -1")
      case True
      then have "is_erase_candidate env pl1 (m_peers pl1 ! nat ec)" using ec1 by simp
      moreover have "\<not> is_erase_candidate env pl1 (m_peers pl1 ! j)"
        using unmarked_eqD(8) [OF u] p(2) is_erase_candidate_cong [OF fin] by simp
      ultimately have "m_peers pl1 ! j \<noteq> m_peers pl1 ! nat ec" by auto
      then show ?thesis using set_erased [of "nat ec" "m_peers pl1" "m_peers pl1 ! j"] e True len1 j(1) by (simp add: pl' nat_less_iff)
    next
      case False
      then show ?thesis using len1 j(1) by (simp add: pl')
    qed
    then show ?thesis using u by blast
  qed
qed

text \<open>The search reads an entry it has erased only if one of those it looks at is to be erased immediately.\<close>

lemma find_step_None:
  assumes st: "searched_ok env t ext pl s k st" and ne: "m_peers pl \<noteq> []" and res: "find_step env t ext st = None"
  shows "nearly_full (peer_limit env) pl \<and> is_erase_candidate env pl (m_peers pl ! nat ((s + int k) mod int (length (m_peers pl))))
    \<and> should_erase_immediately (m_peers pl ! nat ((s + int k) mod int (length (m_peers pl))))"
proof -
  define n where "n = int (length (m_peers pl))"
  define pl1 where "pl1 = searched st"
  define r where "r = (if m_round_robin pl1 \<ge> int (length (m_peers pl1)) then 0 else m_round_robin pl1)"
  define p where "p = m_peers pl1 ! nat r"
  define pl2 where "pl2 = (if \<not> pinged st \<and> \<not> added_to_dht p then pl1\<lparr>m_peers := (m_peers pl1)[nat r := p\<lparr>added_to_dht := True\<rparr>]\<rparr> else pl1)"
  have m1: "marked_peers pl pl1" "0 \<le> m_round_robin pl1" "m_round_robin pl1 \<le> n" "(m_round_robin pl1 - s - int k) mod n = 0"
    using st by (auto simp: searched_ok_def Let_def pl1_def n_def)
  have len: "int (length (m_peers pl1)) = n" using marked_length [OF m1(1)] by (simp add: n_def)
  have len2: "length (m_peers pl2) = length (m_peers pl)" using len by (simp add: pl2_def n_def)
  have n0: "0 < n" using ne by (simp add: n_def)
  have r: "0 \<le> r" "r < n" using m1(2,3) n0 len by (auto simp: r_def)
  have "m_round_robin pl1 mod n = (s + int k) mod n" using m1(4) by (metis add_diff_cancel_left' diff_diff_eq mod_eq_dvd_iff dvd_eq_mod_eq_0)
  then have rmod: "r = (s + int k) mod n" using m1(2,3) len by (auto simp: r_def)
  have pu: "unmarked p = unmarked (m_peers pl ! nat r)" using marked_nth [OF m1(1), of "nat r"] r by (simp add: p_def n_def)
  have fin: "m_finished pl2 = m_finished pl" using m1(1) by (simp add: pl2_def marked_peers_def)
  have e: "nearly_full (peer_limit env) pl2" "is_erase_candidate env pl2 p" "should_erase_immediately p"
    using res len2 ne unfolding find_step_def Let_def pl1_def [symmetric] r_def [symmetric] p_def [symmetric] pl2_def [symmetric]
    by (auto simp: worth_erasing_def split: if_splits)
  have "should_erase_immediately (unmarked q) = should_erase_immediately q" for q by (simp add: should_erase_immediately_def unmarked_def)
  then have "should_erase_immediately (m_peers pl ! nat r)" using e(3) pu by metis
  moreover have "is_erase_candidate env pl (m_peers pl ! nat r)"
    using e(2) unmarked_eqD(8) [OF pu] is_erase_candidate_cong [OF fin] by simp
  moreover have "nearly_full (peer_limit env) pl" using e(1) len2 by (simp add: nearly_full_def)
  ultimately show ?thesis using rmod by (simp add: n_def)
qed

lemma find_loop_None:
  assumes "find_loop env t ext n st = None" "searched_ok env t ext pl s k st" "m_peers pl \<noteq> []"
  shows "nearly_full (peer_limit env) pl \<and> (\<exists>j < k + n. is_erase_candidate env pl (m_peers pl ! nat ((s + int j) mod int (length (m_peers pl))))
    \<and> should_erase_immediately (m_peers pl ! nat ((s + int j) mod int (length (m_peers pl)))))"
  using assms
proof (induction n arbitrary: st k)
  case (Suc n)
  show ?case
  proof (cases "find_step env t ext st")
    case None
    then show ?thesis using find_step_None [OF Suc.prems(2,3)] by (intro conjI exI [of _ k]) auto
  next
    case (Some st1)
    then show ?thesis using Suc.IH [OF _ find_step_ok [OF Suc.prems(2) Some] Suc.prems(3)] Suc.prems(1) by simp
  qed
qed simp

lemma find_connect_candidate_None:
  assumes res: "find_connect_candidate env t ext rnd pl = None" and ok: "peers_ok env pl"
  shows "nearly_full (peer_limit env) pl \<and> (\<exists>p \<in> set (looked_at pl). is_erase_candidate env pl p \<and> should_erase_immediately p)"
proof -
  define ext' where "ext' = (if m_finished pl \<or> ext = no_address then rnd else ext)"
  define pl0 where "pl0 = (if m_round_robin pl \<ge> int (length (m_peers pl)) then pl\<lparr>m_round_robin := 0\<rparr> else pl)"
  define st0 where "st0 = \<lparr>pinged = False, candidate = -1, erase_candidate = -1, searched = pl0\<rparr>"
  have p0: "m_peers pl0 = m_peers pl" "m_finished pl0 = m_finished pl" "t_picker pl0 = t_picker pl" "marked_peers pl pl0" "0 \<le> m_round_robin pl0"
    "m_round_robin pl0 \<le> int (length (m_peers pl))" using peers_okD(7,8) [OF ok] by (simp_all add: pl0_def marked_peers_def)
  have l: "find_loop env t ext' (min (length (m_peers pl)) 300) st0 = None"
    using res unfolding find_connect_candidate_def Let_def ext'_def [symmetric] pl0_def [symmetric] p0(1) st0_def [symmetric]
    by (auto split: option.splits prod.splits)
  have S: "searched_ok env t ext' pl (m_round_robin pl0) 0 st0" using p0 by (simp add: searched_ok_def st0_def)
  have ne: "m_peers pl \<noteq> []" using l by auto
  have N: "nearly_full (peer_limit env) pl \<and> (\<exists>j < min (length (m_peers pl)) 300.
      is_erase_candidate env pl (m_peers pl ! nat ((m_round_robin pl0 + int j) mod int (length (m_peers pl))))
      \<and> should_erase_immediately (m_peers pl ! nat ((m_round_robin pl0 + int j) mod int (length (m_peers pl)))))"
    using find_loop_None [OF l S ne] by simp
  have "m_peers pl ! nat ((m_round_robin pl0 + int j) mod int (length (m_peers pl))) \<in> set (looked_at pl)" if "j < min (length (m_peers pl)) 300" for j
    using that by (auto simp: looked_at_def Let_def pl0_def)
  then show ?thesis using N by blast
qed

end
