(* ===== verification/Peer_List_Claims.thy ===== *)
theory Peer_List_Claims
  imports Peer_List_Search
begin

text \<open>
  What the list of peers promises in every state that can be reached: the step relation of all its
  operations, the invariant and the properties of the search, with examples of a list of two peers.
\<close>

section \<open>Connecting\<close>

lemma set_entry_times_ok:
  assumes ok: "peers_ok env pl"
  shows "peers_ok env (set_entry h (\<lambda>p. p\<lparr>last_connected := t, prev_amount_download := 0, prev_amount_upload := 0\<rparr>) pl)"
proof (cases "entry_of h pl")
  case None
  then have "pe_handle p \<noteq> h" if "p \<in> set (m_peers pl)" for p using that unfolding entry_of_def find_None_iff by auto
  then have "map (\<lambda>p. if pe_handle p = h then f p else p) (m_peers pl) = m_peers pl" for f by (auto intro: map_idI)
  then show ?thesis using ok by (simp add: set_entry_def)
next
  case (Some p)
  from ok Some obtain i where i: "i < length (m_peers pl)" "m_peers pl ! i = p" "pe_handle p = h"
    "\<forall>f. set_entry h f pl = pl\<lparr>m_peers := (m_peers pl)[i := f p]\<rparr>" by (rule entry_cases)
  show ?thesis unfolding i(4) [rule_format]
    using peers_okD(7,8) [OF ok] i(2)
    by (intro peers_ok_update [OF ok i(1), of "p\<lparr>last_connected := t, prev_amount_download := 0, prev_amount_upload := 0\<rparr>"])
      (auto simp: candidate_now_def is_connect_candidate_def)
qed

lemma connect_to_peer_ok:
  assumes ok: "peers_ok env pl" and i: "i < length (m_peers pl)"
  shows "peers_ok env (connect_to_peer env (pe_handle (m_peers pl ! i)) c closed t pl)"
    "length (m_peers (connect_to_peer env (pe_handle (m_peers pl ! i)) c closed t pl)) = length (m_peers pl)"
proof -
  define h where "h = pe_handle (m_peers pl ! i)"
  define pl1 where "pl1 = set_entry h (\<lambda>p. p\<lparr>last_connected := t mod 2 ^ 16, prev_amount_download := 0, prev_amount_upload := 0\<rparr>) pl"
  define pl2 where "pl2 = set_connection env h c pl1"
  have ok1: "peers_ok env pl1" unfolding pl1_def by (rule set_entry_times_ok [OF ok])
  have ok2: "peers_ok env pl2" unfolding pl2_def by (rule set_connection_ok [OF ok1])
  have i1: "i < length (m_peers pl1)" "pe_handle (m_peers pl1 ! i) = h" using i by (simp_all add: pl1_def set_entry_def h_def)
  then have e1: "entry_of h pl1 = Some (m_peers pl1 ! i)" using entry_of_Some [OF peers_okD(3) [OF ok1]] by auto
  have i2: "i < length (m_peers pl2)" "m_peers pl2 ! i = (m_peers pl1 ! i)\<lparr>pe_connection := Some c\<rparr>" "length (m_peers pl2) = length (m_peers pl)"
    using i1 e1 by (simp_all add: pl2_def set_connection_def set_entry_def) (simp add: pl1_def set_entry_def)
  have "entry_of h pl2 = Some (m_peers pl2 ! i)" using entry_of_Some [OF peers_okD(3) [OF ok2]] i2 i1 by auto
  then have ok3: "peers_ok env (connection_closed env (Some h) ci t pl2)" for ci
    by (intro connection_closed_ok [OF ok2]) (use i2 in auto)
  show "peers_ok env (connect_to_peer env (pe_handle (m_peers pl ! i)) c closed t pl)"
    unfolding connect_to_peer_def Let_def h_def [symmetric] pl1_def [symmetric] pl2_def [symmetric] using ok2 ok3 by (cases closed) simp_all
  show "length (m_peers (connect_to_peer env (pe_handle (m_peers pl ! i)) c closed t pl)) = length (m_peers pl)"
    unfolding connect_to_peer_def Let_def h_def [symmetric] pl1_def [symmetric] pl2_def [symmetric]
    using i2(3) connection_closed_shape(1) [OF ok2] by (cases closed) simp_all
qed

lemma failcount_candidate:
  "candidate_now env pl (p\<lparr>failcount := (if failcount p < 31 then failcount p + 1 else failcount p)\<rparr>) \<Longrightarrow> candidate_now env pl p"
  by (auto simp: candidate_now_def is_connect_candidate_def split: if_splits)

lemma connect_one_peer_ok:
  assumes res: "connect_one_peer env t ext rnd c closed pl = Some (r, pl')" and ok: "peers_ok env pl"
  shows "peers_ok env pl'"
proof -
  obtain f pl1 where f: "find_connect_candidate env t ext rnd pl = Some (f, pl1)"
    using res by (auto simp: connect_one_peer_def split: option.splits)
  note F = find_connect_candidate_ok [OF f ok]
  show ?thesis
  proof (cases f)
    case None
    then show ?thesis using res f F(1) by (simp add: connect_one_peer_def)
  next
    case (Some i)
    have i: "i < length (m_peers pl1)" using F(2) [OF Some] by simp
    define pl2 where "pl2 = connect_to_peer env (pe_handle (m_peers pl1 ! i)) c closed t pl1"
    have ok2: "peers_ok env pl2" unfolding pl2_def by (rule connect_to_peer_ok(1) [OF F(1) i])
    have i2: "i < length (m_peers pl2)" using connect_to_peer_ok(2) [OF F(1) i] i by (simp add: pl2_def)
    define p where "p = m_peers pl2 ! i"
    define p' where "p' = p\<lparr>failcount := (if failcount p < 31 then failcount p + 1 else failcount p)\<rparr>"
    have "peers_ok env (pl2\<lparr>m_peers := (m_peers pl2)[i := p'],
        m_num_connect_candidates := m_num_connect_candidates pl2 - (if candidate_now env pl2 p \<and> \<not> candidate_now env pl2 p' then 1 else 0)\<rparr>)"
      by (rule peers_ok_entry_candidates [OF ok2 i2 p_def [symmetric]]) (use failcount_candidate [of env pl2 p] in \<open>auto simp: p'_def [symmetric]\<close>, simp_all add: p'_def)
    moreover have "connect_one_peer env t ext rnd c closed pl = (if pe_connection p \<noteq> None then Some (True, pl2)
        else Some (False, pl2\<lparr>m_peers := (m_peers pl2)[i := p'],
          m_num_connect_candidates := m_num_connect_candidates pl2 - (if candidate_now env pl2 p \<and> \<not> candidate_now env pl2 p' then 1 else 0)\<rparr>))"
      unfolding connect_one_peer_def f Some option.case prod.case Let_def pl2_def p_def p'_def ..
    ultimately show ?thesis using res ok2 by (auto split: if_splits)
  qed
qed

section \<open>Steps\<close>

text \<open>
  What can happen to a list of peers; the settings stay as they are. A peer only tells about seeds and
  ports while it is connected.
\<close>

inductive peer_step :: "list_env \<Rightarrow> peer_list \<Rightarrow> peer_list \<Rightarrow> bool" for env where
  add: "fresh_handle fresh pl \<Longrightarrow> peer_step env pl (snd (add_peer env fresh rnd a port src flags pl))"
| connect_in: "fresh_handle fresh pl \<Longrightarrow> peer_step env pl (snd (new_connection env fresh over c a port quick clash t pl))"
| connect_out: "connect_one_peer env t ext rnd c closed pl = Some (r, pl') \<Longrightarrow> peer_step env pl pl'"
| close: "entry_of h pl = Some p \<Longrightarrow> pe_connection p \<noteq> None \<Longrightarrow> peer_step env pl (connection_closed env (Some h) ci t pl)"
| ban: "peer_step env pl (ban_peer env h pl)"
| fail: "peer_step env pl (set_failcount env h f pl)"
| seeds: "entry_of h pl = Some p \<Longrightarrow> pe_connection p \<noteq> None \<Longrightarrow> peer_step env pl (set_seed env (Some h) s pl)"
| port: "entry_of h pl = Some p \<Longrightarrow> pe_connection p \<noteq> None \<Longrightarrow> peer_step env pl (snd (update_peer_port env port h src ci t pl))"
| pulse: "peer_step env pl (erase_peers env rnd pl)"
| filter: "peer_step env pl (ip_filter_updated env ci t pl)"
| recalculate: "peer_step env pl (recalculate_connect_candidates env fin pl)"

inductive peer_reachable :: "list_env \<Rightarrow> peer_list \<Rightarrow> bool" for env where
  start: "peer_reachable env (new_peer_list pk)"
| step: "peer_reachable env pl \<Longrightarrow> peer_step env pl pl' \<Longrightarrow> peer_reachable env pl'"

inductive_cases peer_stepE: "peer_step env pl pl'"

lemma peer_step_ok: "peer_step env pl pl' \<Longrightarrow> peers_ok env pl \<Longrightarrow> peers_ok env pl'"
proof (induction rule: peer_step.induct)
  case (seeds h pl p s)
  then show ?case by (intro set_seed_ok) auto
next
  case (close h pl p ci t)
  then show ?case by (intro connection_closed_ok) auto
next
  case (port h pl p q src ci t)
  then show ?case by (intro update_peer_port_ok) auto
qed (simp_all add: add_peer_ok new_connection_ok connect_one_peer_ok ban_peer_ok set_failcount_ok erase_peers_ok ip_filter_updated_ok recalculate_ok)

lemma new_peer_list_ok: "peers_ok env (new_peer_list pk)"
  by (simp add: peers_ok_def new_peer_list_def)

lemma peer_reachable_ok: "peer_reachable env pl \<Longrightarrow> peers_ok env pl"
  by (induction rule: peer_reachable.induct) (auto simp: new_peer_list_ok peer_step_ok)

section \<open>Examples\<close>

definition demo_list_env :: list_env where
  "demo_list_env = \<lparr>multiple_per_ip = False, max_failcount = 3, max_peerlist_size = 2, max_paused_peerlist_size = 2, paused = False,
     min_reconnect_time = 60, port_rules = new_filter port_addr, ip_rules = new_ip_filter, link_local = (\<lambda>a. False), as_weight = None\<rparr>"

definition demo_address :: "8 word \<Rightarrow> address" where
  "demo_address b = V4 [1, 2, 3, b]"

text \<open>A peer from a tracker and one from the resume data.\<close>

definition demo_list :: peer_list where
  "demo_list = snd (add_peer demo_list_env (Some 1) 0 (demo_address 9) 6881 tracker 0
     (snd (add_peer demo_list_env (Some 0) 0 (demo_address 5) 6882 from_resume_data 0 (new_peer_list None))))"

lemma fresh_handle_Some: "fresh_handle (Some h) pl \<longleftrightarrow> list_all (\<lambda>p. pe_handle p \<noteq> h) (m_peers pl)"
  by (auto simp: fresh_handle_def list_all_iff)

lemma demo_list_reachable: "peer_reachable demo_list_env demo_list"
proof -
  define pl where "pl = snd (add_peer demo_list_env (Some 0) 0 (demo_address 5) 6882 from_resume_data 0 (new_peer_list None))"
  have "peer_step demo_list_env (new_peer_list None) pl" unfolding pl_def
    by (rule peer_step.add) (simp add: fresh_handle_Some new_peer_list_def)
  then have "peer_reachable demo_list_env pl" by (intro peer_reachable.step [OF peer_reachable.start])
  moreover have "list_all (\<lambda>p. pe_handle p \<noteq> 1) (m_peers pl)" unfolding pl_def by code_simp
  then have "peer_step demo_list_env pl demo_list" unfolding demo_list_def pl_def [symmetric]
    by (intro peer_step.add) (simp add: fresh_handle_Some)
  ultimately show ?thesis by (rule peer_reachable.step)
qed

section \<open>The promises\<close>

text \<open>C17. In every list that can be reached, the entries are sorted by address, there is one for each address, or for each
  endpoint if several connections to an address are allowed, and the two counters are the numbers of the peers that could be
  connected to and of the seeds.\<close>

theorem peer_list_invariant:
  assumes "peer_reachable env pl"
  shows "sorted_wrt (\<lambda>p q. if multiple_per_ip env then pe_address p \<le> pe_address q else pe_address p < pe_address q) (m_peers pl)
    \<and> distinct (map (\<lambda>p. (pe_address p, pe_port p)) (m_peers pl)) \<and> distinct (map pe_handle (m_peers pl))
    \<and> m_num_connect_candidates pl = int (length (filter (\<lambda>p. is_connect_candidate env p (m_finished pl)) (m_peers pl)))
    \<and> m_num_seeds pl = int (length (filter pe_seed (m_peers pl)))"
  using peer_reachable_ok [OF assms] by (simp add: peers_ok_def cnt_def candidate_now_def [abs_def] addr_order_def [abs_def])

theorem peer_list_invariant_witness: "m_num_connect_candidates demo_list = 2"
proof -
  have "length (filter (\<lambda>p. is_connect_candidate demo_list_env p (m_finished demo_list)) (m_peers demo_list)) = 2" by code_simp
  then show ?thesis using peer_list_invariant [OF demo_list_reachable] by simp
qed

text \<open>C18. The search for a peer to connect to looks at up to 300 entries, from where the last search stopped. It finds one that
  may be connected to and was not tried too recently, and none of those it looks at is a better one; it finds none only if
  there is none among them. Only an entry of an old peer is dropped by it. The search goes wrong (it reads an entry it has erased, the
  result \<open>None\<close>; see \<open>erased_peer_read\<close>) only if the list is nearly full and one of the entries it looks at is to be erased
  immediately.\<close>

theorem connect_candidate_best:
  assumes "peer_reachable env pl"
  shows "case find_connect_candidate env t ext rnd pl of
      None \<Rightarrow> nearly_full (peer_limit env) pl \<and> (\<exists>p \<in> set (looked_at pl). is_erase_candidate env pl p \<and> should_erase_immediately p)
    | Some (r, pl') \<Rightarrow> (case r of None \<Rightarrow> True
      | Some i \<Rightarrow> i < length (m_peers pl') \<and> is_connect_candidate env (m_peers pl' ! i) (m_finished pl') \<and> \<not> too_recent env t (m_peers pl' ! i))
    \<and> (\<forall>p \<in> set (looked_at pl). is_connect_candidate env p (m_finished pl) \<and> \<not> too_recent env t p \<longrightarrow>
         (case r of None \<Rightarrow> False
          | Some i \<Rightarrow> \<not> compare_peer env (m_finished pl) (if m_finished pl \<or> ext = no_address then rnd else ext) p (m_peers pl' ! i)))
    \<and> (\<forall>p \<in> set (m_peers pl). \<not> is_erase_candidate env pl p \<longrightarrow> (\<exists>q \<in> set (m_peers pl'). q\<lparr>added_to_dht := False\<rparr> = p\<lparr>added_to_dht := False\<rparr>))"
proof (cases "find_connect_candidate env t ext rnd pl")
  case None
  then show ?thesis using find_connect_candidate_None [OF None peer_reachable_ok [OF assms]] by simp
next
  case (Some res)
  obtain r pl' where res: "res = (r, pl')" by (cases res)
  note F = find_connect_candidate_ok [OF Some [unfolded res] peer_reachable_ok [OF assms]]
  have "\<forall>p \<in> set (m_peers pl). \<not> is_erase_candidate env pl p \<longrightarrow> (\<exists>q \<in> set (m_peers pl'). q\<lparr>added_to_dht := False\<rparr> = p\<lparr>added_to_dht := False\<rparr>)"
    using F(5) unfolding unmarked_def by blast
  then show ?thesis
    using F(2-4) unfolding Some res by (cases r) (auto simp: eligible_def candidate_now_def)
qed

definition demo_search :: "(nat option \<times> peer_list) option" where
  "demo_search = find_connect_candidate demo_list_env 1000 (demo_address 8) no_address demo_list"

theorem connect_candidate_best_witness:
  "fst (the demo_search) = Some 1
   \<and> \<not> compare_peer demo_list_env False (demo_address 8) (m_peers demo_list ! 0) (m_peers (snd (the demo_search)) ! 1)"
proof -
  define pl' where "pl' = snd (the demo_search)"
  have f: "map_option fst demo_search = Some (Some 1)" by code_simp
  then have r: "find_connect_candidate demo_list_env 1000 (demo_address 8) no_address demo_list = Some (Some 1, pl')"
    by (cases demo_search) (auto simp: pl'_def demo_search_def)
  have c: "m_finished demo_list = False" "demo_address 8 \<noteq> no_address" by code_simp+
  have p0: "m_peers demo_list ! 0 \<in> set (looked_at demo_list)" "is_connect_candidate demo_list_env (m_peers demo_list ! 0) False"
    "\<not> too_recent demo_list_env 1000 (m_peers demo_list ! 0)" by code_simp+
  show ?thesis
    using connect_candidate_best [OF demo_list_reachable, of 1000 "demo_address 8" no_address] p0 c r by (auto simp: pl'_def [symmetric] demo_search_def)
qed

lemma shrink_pos: "v > 0 \<Longrightarrow> shrink v e = (v', e') \<Longrightarrow> v' > 0"
proof (induction v e rule: shrink.induct)
  case (1 v e)
  then show ?case by (cases "v > 0x1fff") (simp_all add: shrink.simps [of v])
qed

text \<open>A rate limit of a peer is forgotten when its connection is closed: every limit the type can hold is read back as 0, which is no limit.\<close>

theorem rate_limit_forgotten:
  assumes "0 < v" "v \<le> 16775168"
  shows "ufloat16_load (ufloat16_store v) = 0"
proof -
  obtain v' e where s: "shrink (drop_bit 4 v) 4 = (v', e)" by (cases "shrink (drop_bit 4 v) 4")
  have "push_bit 3 v' \<noteq> 0 \<or> e mod 8 \<noteq> 0"
  proof (cases "drop_bit 4 v > 0")
    case True
    from shrink_pos [OF this s] show ?thesis by simp
  next
    case False
    then have "e = 4" using s by (simp add: shrink.simps [of "drop_bit 4 v"])
    then show ?thesis by simp
  qed
  moreover have "push_bit (7 + 4) (0x1fff :: int) = 16775168" by (simp add: push_bit_eq_mult)
  ultimately have "ufloat16_store v = 1" using assms s by (auto simp: ufloat16_store_def)
  then show ?thesis by (simp add: ufloat16_load_def)
qed

theorem rate_limit_forgotten_witness: "ufloat16_load (ufloat16_store 100000) = 0"
  by (rule rate_limit_forgotten) simp_all

text \<open>
  A peer that is only known from the resume data and failed before is erased while the search still
  reads it, when the list is nearly full: what it finds is undefined.
\<close>

definition demo_failed_list :: peer_list where
  "demo_failed_list =
     (let pl = snd (new_connection demo_list_env None False 7 (demo_address 5) 1234 False Already_connected 1000 demo_list);
          pl = connection_closed demo_list_env (Some 0)
            \<lparr>ci_fast_reconnect = False, ci_failed = True, ci_upload_limit = 0, ci_download_limit = 0\<rparr> 1000 pl
      in set_failcount demo_list_env 0 3 pl)"

theorem erased_peer_read: "find_connect_candidate demo_list_env 2000 no_address (demo_address 5) demo_failed_list = None"
  by code_simp

end
