(* ===== verification/Lazy_Decoder.thy ===== *)
theory Lazy_Decoder
  imports Bencode
begin

text \<open>
  The lazy decoder (\<open>src/lazy_bdecode.cpp\<close>, \<open>include/libtorrent/lazy_entry.hpp\<close>): it decodes a bencoded
  buffer into entries that point into the buffer. A pointer into the buffer is its offset, the null
  pointer 0. What the language leaves undefined (a read outside the buffer, a position outside of it, an overflow of
  an integer) is a fault, apart from the error the decoder reports. Only the sums that the decoder compares with the
  end of the buffer are computed as a machine does it, on addresses of a number of bits.
\<close>

section \<open>Entries\<close>

text \<open>A \<open>lazy_entry\<close> with its type, its data and \<open>m_begin\<close>, \<open>m_end\<close>. The items of a list or a dictionary
  are the first \<open>m_size\<close> elements of an array of \<open>m_capacity\<close>; an item of a dictionary has the pointer
  to its name. A number and a string have the start of their digits or characters, and how many these are.\<close>

datatype lazy_entry =
    none_t nat nat
  | dict_t "(nat \<times> lazy_entry) list" int nat nat
  | list_t "lazy_entry list" int nat nat
  | string_t nat int nat nat
  | int_t nat int nat nat

fun m_begin :: "lazy_entry \<Rightarrow> nat" where
  "m_begin (none_t b e) = b"
| "m_begin (dict_t d c b e) = b"
| "m_begin (list_t l c b e) = b"
| "m_begin (string_t s n b e) = b"
| "m_begin (int_t s n b e) = b"

fun m_end :: "lazy_entry \<Rightarrow> nat" where
  "m_end (none_t b e) = e"
| "m_end (dict_t d c b e) = e"
| "m_end (list_t l c b e) = e"
| "m_end (string_t s n b e) = e"
| "m_end (int_t s n b e) = e"

fun set_end :: "nat \<Rightarrow> lazy_entry \<Rightarrow> lazy_entry" where
  "set_end e (none_t b e') = none_t b e"
| "set_end e (dict_t d c b e') = dict_t d c b e"
| "set_end e (list_t l c b e') = list_t l c b e"
| "set_end e (string_t s n b e') = string_t s n b e"
| "set_end e (int_t s n b e') = int_t s n b e"

definition new_lazy_entry :: lazy_entry where
  "new_lazy_entry = none_t 0 0"

definition clear_entry :: "lazy_entry \<Rightarrow> lazy_entry" where
  "clear_entry le = none_t (m_begin le) (m_end le)"

fun num_digits :: "int \<Rightarrow> nat" where
  "num_digits v = (if v \<ge> 10 then num_digits (v div 10) + 1 else 1)"

declare num_digits.simps [simp del]

text \<open>The constructors set the type of an entry; they get the entry as it is.\<close>

definition construct_int :: "nat \<Rightarrow> int \<Rightarrow> lazy_entry \<Rightarrow> lazy_entry" where
  "construct_int start len le = int_t start len (start - 1) (nat (int start + len + 1))"

definition construct_string :: "nat \<Rightarrow> int \<Rightarrow> lazy_entry \<Rightarrow> lazy_entry" where
  "construct_string start len le = string_t start len (start - 1 - num_digits len) (nat (int start + len))"

definition construct_dict :: "nat \<Rightarrow> lazy_entry \<Rightarrow> lazy_entry" where
  "construct_dict start le = dict_t [] 0 start (m_end le)"

definition construct_list :: "nat \<Rightarrow> lazy_entry \<Rightarrow> lazy_entry" where
  "construct_list start le = list_t [] 0 start (m_end le)"

text \<open>Room for one more item in an array of \<open>m_capacity\<close> that has \<open>m_size\<close>: the capacity afterwards.
  The allocation of an array is an argument: \<open>None\<close> if it fails.\<close>

definition grow :: "(int \<Rightarrow> bool) \<Rightarrow> int \<Rightarrow> int \<Rightarrow> fault + int option" where
  "grow can_alloc m_size m_capacity =
     (if m_capacity = 0 then Inr (if can_alloc 5 then Some 5 else None)
      else if m_size = m_capacity then
        (if m_capacity * 150 \<ge> 2 ^ 31 then Inl Overflow
         else let capacity = m_capacity * 150 div 100 in Inr (if can_alloc capacity then Some capacity else None))
      else Inr (Some m_capacity))"

text \<open>\<open>dict_append\<close> and \<open>list_append\<close>: the entry with the new item, or \<open>None\<close> for the null pointer.\<close>

definition dict_append :: "(int \<Rightarrow> bool) \<Rightarrow> nat \<Rightarrow> lazy_entry \<Rightarrow> fault + lazy_entry option" where
  "dict_append can_alloc name le = (case le of
     dict_t d c b e \<Rightarrow> (case grow can_alloc (int (length d)) c of Inl x \<Rightarrow> Inl x
       | Inr None \<Rightarrow> Inr None
       | Inr (Some c') \<Rightarrow> Inr (Some (dict_t (d @ [(name, new_lazy_entry)]) c' b e)))
   | _ \<Rightarrow> Inr None)"

definition list_append :: "(int \<Rightarrow> bool) \<Rightarrow> lazy_entry \<Rightarrow> fault + lazy_entry option" where
  "list_append can_alloc le = (case le of
     list_t l c b e \<Rightarrow> (case grow can_alloc (int (length l)) c of Inl x \<Rightarrow> Inl x
       | Inr None \<Rightarrow> Inr None
       | Inr (Some c') \<Rightarrow> Inr (Some (list_t (l @ [new_lazy_entry]) c' b e)))
   | _ \<Rightarrow> Inr None)"

section \<open>The decoder\<close>

text \<open>\<open>parse_int\<close>, from a position with the rest of the input up to \<open>end\<close>: the pointer it returns, if any,
  and the value it leaves. \<open>find_char\<close>.\<close>

fun parse_int :: "string \<Rightarrow> nat \<Rightarrow> char \<Rightarrow> int \<Rightarrow> fault + nat option \<times> int" where
  "parse_int [] start delimiter val = Inr (Some start, val)"
| "parse_int (c # cs) start delimiter val =
     (if c = delimiter then Inr (Some start, val)
      else if \<not> is_digit c then Inr (None, val)
      else if val * 10 + int (digit_val c) \<ge> 2 ^ 63 then Inl Overflow
      else parse_int cs (start + 1) delimiter (val * 10 + int (digit_val c)))"

fun find_char :: "string \<Rightarrow> nat \<Rightarrow> char \<Rightarrow> nat" where
  "find_char [] start delimiter = start"
| "find_char (c # cs) start delimiter = (if c \<noteq> delimiter then find_char cs (start + 1) delimiter else start)"

text \<open>
  The stack of the decoder has pointers to entries: the first to the result, each other one to the last
  item of the one below, since items are only appended to the entry on the top of the stack (an array that is
  moved has no item on the stack). So the stack is its height, and the entry below \<open>k\<close> others is found by
  \<open>k\<close> steps to the last item.
\<close>

primrec entry_at :: "nat \<Rightarrow> lazy_entry \<Rightarrow> lazy_entry" where
  "entry_at 0 le = le"
| "entry_at (Suc k) le = (case le of
     dict_t d c b e \<Rightarrow> entry_at k (snd (last d)) | list_t l c b e \<Rightarrow> entry_at k (last l) | _ \<Rightarrow> le)"

primrec update_at :: "nat \<Rightarrow> (lazy_entry \<Rightarrow> lazy_entry) \<Rightarrow> lazy_entry \<Rightarrow> lazy_entry" where
  "update_at 0 f le = f le"
| "update_at (Suc k) f le = (case le of
     dict_t d c b e \<Rightarrow> dict_t (butlast d @ [(fst (last d), update_at k f (snd (last d)))]) c b e
   | list_t l c b e \<Rightarrow> list_t (butlast l @ [update_at k f (last l)]) c b e
   | _ \<Rightarrow> le)"

lemma entry_at_Suc [simp]:
  "entry_at (Suc k) (dict_t d c b e) = entry_at k (snd (last d))"
  "entry_at (Suc k) (list_t l c b e) = entry_at k (last l)"
  "entry_at (Suc k) (none_t b e) = none_t b e"
  "entry_at (Suc k) (string_t st n b e) = string_t st n b e"
  "entry_at (Suc k) (int_t st n b e) = int_t st n b e"
  by simp_all

lemma update_at_Suc [simp]:
  "update_at (Suc k) f (dict_t d c b e) = dict_t (butlast d @ [(fst (last d), update_at k f (snd (last d)))]) c b e"
  "update_at (Suc k) f (list_t l c b e) = list_t (butlast l @ [update_at k f (last l)]) c b e"
  "update_at (Suc k) f (none_t b e) = none_t b e"
  "update_at (Suc k) f (string_t st n b e) = string_t st n b e"
  "update_at (Suc k) f (int_t st n b e) = int_t st n b e"
  by simp_all

declare entry_at.simps(2) [simp del] update_at.simps(2) [simp del]

text \<open>
  The decoder adds a length it read, a 64-bit number, to a pointer, and compares the sum with the end of the buffer
  (\<open>start + len + 1 > end\<close>). A sum that is in the buffer, or its end, is what the language defines; any other one is
  computed on the address of the buffer, and wraps around at the width of a pointer: 32 bits in a 32-bit
  library, 64 bits in a 64-bit one.
\<close>

record memory =
  pointer_bits :: nat
  address :: nat

definition sum_past_end :: "memory \<Rightarrow> string \<Rightarrow> nat \<Rightarrow> int \<Rightarrow> bool" where
  "sum_past_end mem buf p n \<longleftrightarrow> int p + n > int (length buf) \<and>
     (int (address mem) + int p + n) mod 2 ^ pointer_bits mem > int (address mem) + int (length buf)"

lemma sum_in_buffer [simp]: "int p + n \<le> int (length buf) \<Longrightarrow> \<not> sum_past_end mem buf p n"
  by (simp add: sum_past_end_def)

lemma sum_past_end_exact:
  assumes "2 ^ 63 + int (address mem) + int (length buf) + 2 < 2 ^ pointer_bits mem" "0 \<le> n" "n \<le> 2 ^ 63 + 2" "p \<le> length buf"
  shows "sum_past_end mem buf p n \<longleftrightarrow> int p + n > int (length buf)"
proof -
  have "int (address mem) + int p + n < 2 ^ pointer_bits mem" using assms by linarith
  then have "(int (address mem) + int p + n) mod 2 ^ pointer_bits mem = int (address mem) + int p + n"
    using assms(2) by (intro mod_pos_pos_trivial) simp_all
  then show ?thesis by (auto simp: sum_past_end_def)
qed

text \<open>The variables of the loop.\<close>

record decoder =
  start :: nat
  stack_size :: nat
  ret :: lazy_entry

definition top_entry :: "decoder \<Rightarrow> lazy_entry" where
  "top_entry s = entry_at (stack_size s - 1) (ret s)"

definition update_top :: "(lazy_entry \<Rightarrow> lazy_entry) \<Rightarrow> decoder \<Rightarrow> decoder" where
  "update_top f s = s\<lparr>ret := update_at (stack_size s - 1) f (ret s)\<rparr>"

lemma update_top_fields [simp]: "start (update_top f s) = start s" "stack_size (update_top f s) = stack_size s"
  by (simp_all add: update_top_def)

text \<open>A round of the loop goes on with new values of the variables, or the decoder returns a
  number and leaves \<open>ret\<close>, or has a fault.\<close>

datatype progress = Continue decoder | Return int lazy_entry | Faulty fault

definition fail_bdecode :: "decoder \<Rightarrow> int \<Rightarrow> progress" where
  "fail_bdecode s return_value = Return return_value (clear_entry (ret s))"

text \<open>The second \<open>switch\<close>: the entry on the top of the stack is constructed from the character \<open>t\<close>. If the sum with
  the length wrapped around, \<open>start += len\<close> leaves the buffer.\<close>

definition construct_top :: "memory \<Rightarrow> string \<Rightarrow> char \<Rightarrow> decoder \<Rightarrow> progress" where
  "construct_top mem buf t s =
     (if t = CHR ''d'' then Continue (update_top (construct_dict (start s - 1)) s)
      else if t = CHR ''l'' then Continue (update_top (construct_list (start s - 1)) s)
      else if t = CHR ''i'' then
        let p = find_char (drop (start s) buf) (start s) (CHR ''e'');
            s' = update_top (construct_int (start s) (to_int (int p - int (start s)))) s
        in if p = length buf then fail_bdecode s' (- 1)
           else Continue (s'\<lparr>start := p + 1, stack_size := stack_size s - 1\<rparr>)
      else if \<not> is_digit t then fail_bdecode s (- 1)
      else case parse_int (drop (start s) buf) (start s) (CHR '':'') (int (digit_val t)) of
          Inl x \<Rightarrow> Faulty x
        | Inr (None, len) \<Rightarrow> fail_bdecode s (- 1)
        | Inr (Some p, len) \<Rightarrow>
            if sum_past_end mem buf p (len + 1) then fail_bdecode s (- 1)
            else if p \<ge> length buf then Faulty Out_Of_Bounds
            else if buf ! p \<noteq> CHR '':'' then fail_bdecode s (- 1)
            else if int p + 1 + len > int (length buf) then Faulty Out_Of_Bounds
            else Continue ((update_top (construct_string (p + 1) (to_int len)) s)
                   \<lparr>start := p + 1 + nat len, stack_size := stack_size s - 1\<rparr>))"

text \<open>The first \<open>switch\<close>, for a dictionary: the key, and the first character of the value.\<close>

definition read_key :: "memory \<Rightarrow> (int \<Rightarrow> bool) \<Rightarrow> string \<Rightarrow> char \<Rightarrow> decoder \<Rightarrow> progress" where
  "read_key mem can_alloc buf t s =
     (if \<not> is_digit t then fail_bdecode s (- 1)
      else case parse_int (drop (start s) buf) (start s) (CHR '':'') (int (digit_val t)) of
          Inl x \<Rightarrow> Faulty x
        | Inr (None, len) \<Rightarrow> fail_bdecode s (- 1)
        | Inr (Some p, len) \<Rightarrow>
            if sum_past_end mem buf p (len + 3) then fail_bdecode s (- 1)
            else if p \<ge> length buf then Faulty Out_Of_Bounds
            else if buf ! p \<noteq> CHR '':'' then fail_bdecode s (- 1)
            else if p + 1 = length buf then fail_bdecode s (- 1)
            else case dict_append can_alloc (p + 1) (top_entry s) of
                Inl x \<Rightarrow> Faulty x
              | Inr None \<Rightarrow> fail_bdecode s (- 2)
              | Inr (Some le) \<Rightarrow>
                  let s' = update_top (\<lambda>_. le) s;
                      q = p + 1 + nat len
                  in if int p + 1 + len > int (length buf) then Faulty Out_Of_Bounds
                     else if q \<ge> length buf then fail_bdecode s' (- 1)
                     else construct_top mem buf (buf ! q) (s'\<lparr>start := q + 1, stack_size := stack_size s + 1\<rparr>))"

definition lazy_round :: "memory \<Rightarrow> (int \<Rightarrow> bool) \<Rightarrow> nat \<Rightarrow> string \<Rightarrow> decoder \<Rightarrow> progress" where
  "lazy_round mem can_alloc depth_limit buf s =
     (if stack_size s > depth_limit then fail_bdecode s (- 1)
      else if start s \<ge> length buf then fail_bdecode s (- 1)
      else let t = buf ! start s; s1 = s\<lparr>start := start s + 1\<rparr>
           in if start s1 \<ge> length buf \<and> t \<noteq> CHR ''e'' then fail_bdecode s1 (- 1)
              else case top_entry s1 of
                  dict_t d c b e \<Rightarrow>
                    if t = CHR ''e'' then Continue ((update_top (set_end (start s1)) s1)\<lparr>stack_size := stack_size s - 1\<rparr>)
                    else read_key mem can_alloc buf t s1
                | list_t l c b e \<Rightarrow>
                    if t = CHR ''e'' then Continue ((update_top (set_end (start s1)) s1)\<lparr>stack_size := stack_size s - 1\<rparr>)
                    else (case list_append can_alloc (top_entry s1) of
                        Inl x \<Rightarrow> Faulty x
                      | Inr None \<Rightarrow> fail_bdecode s1 (- 2)
                      | Inr (Some le) \<Rightarrow> construct_top mem buf t ((update_top (\<lambda>_. le) s1)\<lparr>stack_size := stack_size s + 1\<rparr>))
                | _ \<Rightarrow> construct_top mem buf t s1)"

lemma find_char: "find_char cs p c = p + length (takeWhile (\<lambda>x. x \<noteq> c) cs)"
  by (induction cs p c rule: find_char.induct) auto

lemma find_char_bounds: "p \<le> find_char cs p c \<and> find_char cs p c \<le> p + length cs"
  by (simp add: find_char length_takeWhile_le)

lemma num_digits_step: "0 \<le> v \<Longrightarrow> d < 10 \<Longrightarrow> num_digits (v * 10 + int d) \<le> num_digits v + 1"
proof -
  assume v: "0 \<le> v" and d: "d < 10"
  then have "(v * 10 + int d) div 10 = v" by simp
  then show ?thesis using num_digits.simps [of "v * 10 + int d"] v d
    by (cases "v * 10 + int d \<ge> 10") (simp_all add: num_digits.simps [of v])
qed

lemma digit_val_less: "is_digit c \<Longrightarrow> digit_val c < 10"
  by (auto simp: is_digit_def digit_val_def less_eq_char_def)

lemma digit_val_word: "is_digit c \<Longrightarrow> int (digit_val c) < 2 ^ 63"
  by (drule digit_val_less) simp

lemma parse_int_bounds:
  "parse_int cs p c v = Inr (Some q, w) \<Longrightarrow> 0 \<le> v \<Longrightarrow> v < 2 ^ 63 \<Longrightarrow>
     p \<le> q \<and> q \<le> p + length cs \<and> v \<le> w \<and> w < 2 ^ 63 \<and> num_digits w \<le> num_digits v + (q - p)"
proof (induction cs p c v rule: parse_int.induct)
  case (2 x cs p c v)
  show ?case
  proof (cases "x = c")
    case True
    then show ?thesis using 2 by simp
  next
    case False
    then have d: "is_digit x" "\<not> v * 10 + int (digit_val x) \<ge> 2 ^ 63" using "2.prems" by (auto split: if_splits)
    then have r: "parse_int cs (p + 1) c (v * 10 + int (digit_val x)) = Inr (Some q, w)" using "2.prems" False by simp
    have "\<not> \<not> is_digit x" using d(1) by simp
    note ih = "2.IH" [OF False this d(2) r]
    have nn: "0 \<le> v * 10 + int (digit_val x)" "v * 10 + int (digit_val x) < 2 ^ 63" using d(2) "2.prems"(2) by simp_all
    have "num_digits (v * 10 + int (digit_val x)) \<le> num_digits v + 1"
      by (rule num_digits_step) (use "2.prems"(2) digit_val_less [OF d(1)] in auto)
    with ih [OF nn] "2.prems"(2) show ?thesis
      by (elim conjE, intro conjI; (unfold length_Cons)?; linarith)
  qed
qed simp

lemma construct_top_advances: "construct_top mem buf t s = Continue s' \<Longrightarrow> start s \<le> start s'"
  using find_char_bounds [of "start s" "drop (start s) buf" "CHR ''e''"] digit_val_word [of t]
  by (auto simp: construct_top_def update_top_def fail_bdecode_def Let_def
      split: if_splits sum.splits option.splits prod.splits dest!: parse_int_bounds)

lemma read_key_advances: "read_key mem a buf t s = Continue s' \<Longrightarrow> start s \<le> start s'"
  using digit_val_word [of t]
  by (auto simp: read_key_def fail_bdecode_def Let_def
      split: if_splits sum.splits option.splits prod.splits dest!: parse_int_bounds construct_top_advances)

lemma lazy_round_advances: "lazy_round mem a limit buf s = Continue s' \<Longrightarrow> start s < start s'"
  by (auto simp: lazy_round_def fail_bdecode_def Let_def update_top_def
      split: if_splits sum.splits option.splits lazy_entry.splits dest!: read_key_advances construct_top_advances)

text \<open>The loop, and the function: what it returns, with the entry.\<close>

function lazy_loop :: "memory \<Rightarrow> (int \<Rightarrow> bool) \<Rightarrow> nat \<Rightarrow> string \<Rightarrow> decoder \<Rightarrow> fault + int \<times> lazy_entry" where
  "lazy_loop mem can_alloc depth_limit buf s =
     (if start s \<ge> length buf then Inr (0, ret s)
      else if stack_size s = 0 then Inr (0, ret s)
      else case lazy_round mem can_alloc depth_limit buf s of
          Continue s' \<Rightarrow> lazy_loop mem can_alloc depth_limit buf s'
        | Return v le \<Rightarrow> Inr (v, le)
        | Faulty x \<Rightarrow> Inl x)"
  by pat_completeness auto
termination
  by (relation "measure (\<lambda>(mem, a, limit, buf, s). length buf - start s)") (auto dest: lazy_round_advances)

declare lazy_loop.simps [simp del]

definition lazy_bdecode :: "memory \<Rightarrow> (int \<Rightarrow> bool) \<Rightarrow> string \<Rightarrow> lazy_entry \<Rightarrow> nat \<Rightarrow> fault + int \<times> lazy_entry" where
  "lazy_bdecode mem can_alloc buf le depth_limit =
     (let le = clear_entry le
      in if buf = [] then Inr (0, le)
         else lazy_loop mem can_alloc depth_limit buf \<lparr>start = 0, stack_size = 1, ret = le\<rparr>)"

section \<open>Reading an entry\<close>

text \<open>The accessors, with the buffer the entry points into. A string value is that of a string; reading
  outside the buffer is a fault.\<close>

definition read_range :: "string \<Rightarrow> nat \<Rightarrow> int \<Rightarrow> fault + string" where
  "read_range buf p n = (if n < 0 \<or> int p + n > int (length buf) then Inl Out_Of_Bounds else Inr (take (nat n) (drop p buf)))"

definition string_value :: "string \<Rightarrow> nat \<Rightarrow> int \<Rightarrow> fault + string" where
  "string_value buf s n = read_range buf s n"

definition int_value :: "string \<Rightarrow> nat \<Rightarrow> int \<Rightarrow> fault + int" where
  "int_value buf s n =
     (if s \<ge> length buf then Inl Out_Of_Bounds
      else let negative = (buf ! s = CHR ''-''); p = (if negative then s + 1 else s)
           in case read_range buf p (max 0 (int s + n - int p)) of Inl x \<Rightarrow> Inl x
              | Inr ds \<Rightarrow> (case parse_int ds p (CHR ''e'') 0 of Inl x \<Rightarrow> Inl x
                 | Inr (_, val) \<Rightarrow> Inr (if negative then - val else val)))"

definition entry_name :: "string \<Rightarrow> nat \<Rightarrow> lazy_entry \<Rightarrow> fault + string" where
  "entry_name buf name val = read_range buf name (int (m_begin val) - int name)"

definition dict_at :: "string \<Rightarrow> (nat \<times> lazy_entry) list \<Rightarrow> nat \<Rightarrow> fault + string \<times> lazy_entry" where
  "dict_at buf d i = (let (name, val) = d ! i in case entry_name buf name val of Inl x \<Rightarrow> Inl x | Inr k \<Rightarrow> Inr (k, val))"

text \<open>\<open>string_equal\<close> of a string without a null character with \<open>len2\<close> characters, and \<open>dict_find\<close>.\<close>

fun string_equal :: "string \<Rightarrow> string \<Rightarrow> bool" where
  "string_equal str1 [] \<longleftrightarrow> str1 = []"
| "string_equal str1 (c # str2) \<longleftrightarrow>
     (case str1 of [] \<Rightarrow> False | c1 # cs1 \<Rightarrow> c1 = c \<and> string_equal cs1 str2)"

fun dict_find :: "string \<Rightarrow> string \<Rightarrow> (nat \<times> lazy_entry) list \<Rightarrow> fault + lazy_entry option" where
  "dict_find buf name [] = Inr None"
| "dict_find buf name ((k, val) # d) =
     (case entry_name buf k val of Inl x \<Rightarrow> Inl x
      | Inr key \<Rightarrow> if string_equal name key then Inr (Some val) else dict_find buf name d)"

end
