(* ===== verification/Lazy_Claims.thy ===== *)
theory Lazy_Claims
  imports Lazy_Decoder
begin

text \<open>
  What the lazy decoder does: it reads what was encoded (and every entry knows the bytes it was decoded from),
  and whatever it reads, its entries stay in the buffer. The proof of the first follows the stack of the
  decoder; that of the second is an invariant of its loop.
\<close>


section \<open>The entry on the top of the stack\<close>

text \<open>The stack of a height points to an entry: every entry below has a last item.\<close>

fun path :: "nat \<Rightarrow> lazy_entry \<Rightarrow> bool" where
  "path 0 le \<longleftrightarrow> True"
| "path (Suc k) (dict_t d c b e) \<longleftrightarrow> d \<noteq> [] \<and> path k (snd (last d))"
| "path (Suc k) (list_t l c b e) \<longleftrightarrow> l \<noteq> [] \<and> path k (last l)"
| "path (Suc k) le \<longleftrightarrow> False"

abbreviation put :: "nat \<Rightarrow> lazy_entry \<Rightarrow> lazy_entry \<Rightarrow> lazy_entry" where
  "put k x le \<equiv> update_at k (\<lambda>_. x) le"

lemma update_at_put: "path k le \<Longrightarrow> update_at k f le = put k (f (entry_at k le)) le"
  by (induction k le rule: path.induct) auto

lemma entry_at_put [simp]: "path k le \<Longrightarrow> entry_at k (put k x le) = x"
  by (induction k le rule: path.induct) auto

lemma path_put [simp]: "path k le \<Longrightarrow> path k (put k x le)"
  by (induction k le rule: path.induct) auto

lemma put_put [simp]: "path k le \<Longrightarrow> put k x (put k y le) = put k x le"
  by (induction k le rule: path.induct) auto

lemma path_list:
  "path k le \<Longrightarrow> entry_at k le = list_t l c b e \<Longrightarrow> l \<noteq> [] \<Longrightarrow>
     path (Suc k) le \<and> put (Suc k) x le = put k (list_t (butlast l @ [x]) c b e) le"
  by (induction k le rule: path.induct) auto

lemma path_dict:
  "path k le \<Longrightarrow> entry_at k le = dict_t d c b e \<Longrightarrow> d \<noteq> [] \<Longrightarrow>
     path (Suc k) le \<and> put (Suc k) x le = put k (dict_t (butlast d @ [(fst (last d), x)]) c b e) le"
  by (induction k le rule: path.induct) simp_all

lemma update_top_put:
  "stack_size s = Suc k \<Longrightarrow> path k (ret s) \<Longrightarrow> update_top f s = s\<lparr>ret := put k (f (entry_at k (ret s))) (ret s)\<rparr>"
  using update_at_put [of k "ret s" f] by (simp add: update_top_def)

section \<open>What an entry denotes\<close>

text \<open>The bytes an entry was decoded from; the entry of a hash of the bytes of a dictionary.\<close>

definition data_section :: "string \<Rightarrow> lazy_entry \<Rightarrow> fault + string" where
  "data_section buf le = read_range buf (m_begin le) (int (m_end le) - int (m_begin le))"

text \<open>An entry reads as a value: its accessors return the value and the values of its items, under their
  names, and its bytes are the encoding of the value.\<close>

fun reads_as :: "string \<Rightarrow> entry \<Rightarrow> lazy_entry \<Rightarrow> bool" where
  "reads_as buf (Int_t v) le \<longleftrightarrow> map_option (Inr \<circ> fst) (bencode (Int_t v)) = Some (data_section buf le) \<and>
     (case le of int_t s n b e \<Rightarrow> int_value buf s n = Inr v | _ \<Rightarrow> False)"
| "reads_as buf (String_t t) le \<longleftrightarrow> map_option (Inr \<circ> fst) (bencode (String_t t)) = Some (data_section buf le) \<and>
     (case le of string_t s n b e \<Rightarrow> string_value buf s n = Inr t | _ \<Rightarrow> False)"
| "reads_as buf (List_t es) le \<longleftrightarrow> map_option (Inr \<circ> fst) (bencode (List_t es)) = Some (data_section buf le) \<and>
     (case le of list_t l c b e \<Rightarrow> list_all2 (reads_as buf) es l | _ \<Rightarrow> False)"
| "reads_as buf (Dictionary_t d) le \<longleftrightarrow> map_option (Inr \<circ> fst) (bencode (Dictionary_t d)) = Some (data_section buf le) \<and>
     (case le of dict_t l c b e \<Rightarrow>
        list_all2 (\<lambda>(k, v) (name, val). entry_name buf name val = Inr k \<and> reads_as buf v val) d l | _ \<Rightarrow> False)"
| "reads_as buf Undefined_t le \<longleftrightarrow> False"

lemma read_range_append: "buf = pre @ x @ post \<Longrightarrow> read_range buf (length pre) (int (length x)) = Inr x"
  by (simp add: read_range_def)

section \<open>Numbers\<close>

lemma dec_val_mono: "v \<le> dec_val v ds"
proof (induction ds arbitrary: v)
  case (Cons c cs)
  have "v \<le> 10 * v + digit_val c" by simp
  also have "\<dots> \<le> dec_val (10 * v + digit_val c) cs" by (rule Cons)
  finally show ?case by simp
qed simp

lemma parse_int_digits:
  assumes "\<forall>d \<in> set ds. is_digit d" "\<not> is_digit c" "rest = [] \<or> hd rest = c" "int (dec_val v ds) < 2 ^ 63"
  shows "parse_int (ds @ rest) p c (int v) = Inr (Some (p + length ds), int (dec_val v ds))"
  using assms
proof (induction ds arbitrary: p v)
  case Nil
  then show ?case by (cases rest) auto
next
  case (Cons x ds)
  have "int (10 * v + digit_val x) \<le> int (dec_val (10 * v + digit_val x) ds)" by (simp only: of_nat_le_iff dec_val_mono)
  moreover have "x \<noteq> c" using Cons.prems by auto
  ultimately show ?case using Cons.prems Cons.IH [of "10 * v + digit_val x" "p + 1"] by (simp add: mult.commute)
qed

lemma num_digits_decimal: "num_digits (int n) = length (decimal n)"
proof (cases "n = 0")
  case False
  then show ?thesis
  proof (induction n rule: digits.induct)
    case (1 n)
    have s: "num_digits (int n) = (if n \<ge> 10 then num_digits (int (n div 10)) + 1 else 1)"
      by (simp add: num_digits.simps [of "int n"] zdiv_int)
    show ?case
    proof (cases "n \<ge> 10")
      case True
      then have "num_digits (int (n div 10)) = length (digits (n div 10))"
        using 1 by (simp add: decimal_def)
      then show ?thesis using True s 1 by (simp add: decimal_def digits.simps [of n])
    next
      case False
      then show ?thesis using s 1 by (simp add: decimal_def digits.simps [of n] digits.simps [of 0])
    qed
  qed
qed (simp add: num_digits.simps decimal_def)

lemma int_value_read:
  assumes "buf = pre @ s @ post" "post \<noteq> []" "s = (if v < 0 then CHR ''-'' # decimal (nat \<bar>v\<bar>) else decimal (nat \<bar>v\<bar>))" "\<bar>v\<bar> < 2 ^ 63"
  shows "int_value buf (length pre) (int (length s)) = Inr v"
proof -
  let ?d = "decimal (nat \<bar>v\<bar>)"
  have p: "parse_int (?d @ []) p (CHR ''e'') (int 0) = Inr (Some (p + length ?d), int (dec_val 0 ?d))" for p
    by (rule parse_int_digits) (use decimal_digits assms(4) in \<open>auto simp: is_digit_def less_eq_char_def\<close>)
  show ?thesis
  proof (cases "v < 0")
    case True
    then have "read_range buf (length (pre @ ''-'')) (int (length ?d)) = Inr ?d"
      using assms by (intro read_range_append [where post = post]) simp
    then show ?thesis using p True assms decimal_digits(3) [of "nat \<bar>v\<bar>"] by (simp add: int_value_def nth_append)
  next
    case False
    then have r: "read_range buf (length pre) (int (length ?d)) = Inr ?d" using assms by (intro read_range_append) auto
    obtain x xs where d: "?d = x # xs" using decimal_digits(2) by (cases ?d) auto
    then have "x \<noteq> CHR ''-''" using decimal_hd [of "nat \<bar>v\<bar>"] is_digit_not by auto
    then show ?thesis using p r d False assms decimal_digits(3) [of "nat \<bar>v\<bar>"] by (simp add: int_value_def nth_append)
  qed
qed

section \<open>Decoding what was encoded\<close>

text \<open>The decoder reads a value from the first character on, and pops it from the stack.\<close>

definition decodes :: "memory \<Rightarrow> (int \<Rightarrow> bool) \<Rightarrow> nat \<Rightarrow> nat \<Rightarrow> entry \<Rightarrow> bool" where
  "decodes mem a limit k v \<longleftrightarrow> (\<forall>buf pre out post n s.
     buf = pre @ out @ post \<longrightarrow> length buf \<le> 2 ^ 23 \<longrightarrow> bencode v = Some (out, n) \<longrightarrow> stack_size s = Suc k \<longrightarrow>
     path k (ret s) \<longrightarrow> start s = Suc (length pre) \<longrightarrow>
     (\<exists>le s1. reads_as buf v le \<and> m_begin le = length pre \<and> out \<noteq> [] \<and> hd out \<noteq> CHR ''e'' \<and>
        construct_top mem buf (hd out) s = Continue s1 \<and>
        lazy_loop mem a limit buf s1 =
          lazy_loop mem a limit buf (s\<lparr>start := length pre + length out, stack_size := k, ret := put k le (ret s)\<rparr>)))"

lemma decodesD:
  assumes "decodes mem a limit k v" "buf = pre @ out @ post" "length buf \<le> 2 ^ 23" "bencode v = Some (out, n)" "stack_size s = Suc k"
    "path k (ret s)" "start s = Suc (length pre)"
  obtains le s1 where "reads_as buf v le" "m_begin le = length pre" "out \<noteq> []" "hd out \<noteq> CHR ''e''"
    "construct_top mem buf (hd out) s = Continue s1"
    "lazy_loop mem a limit buf s1 =
       lazy_loop mem a limit buf (s\<lparr>start := length pre + length out, stack_size := k, ret := put k le (ret s)\<rparr>)"
  using assms unfolding decodes_def by blast

lemma bencode_int:
  assumes "bencode (Int_t v) = Some (out, n)" "\<bar>v\<bar> < 2 ^ 63"
  shows "out = ''i'' @ (if v < 0 then CHR ''-'' # decimal (nat \<bar>v\<bar>) else decimal (nat \<bar>v\<bar>)) @ ''e''"
proof -
  have "- (2 ^ 63) < v" "v < 2 ^ 63" using assms(2) by auto
  then show ?thesis using assms(1) integer_to_str [of v] by (simp add: bencode_def write_integer_def split: if_splits)
qed

lemma decodes_int:
  assumes v: "\<bar>v\<bar> < 2 ^ 63"
  shows "decodes mem a limit k (Int_t v)"
  unfolding decodes_def
proof (intro allI impI)
  fix buf pre out post n and s :: decoder
  assume buf: "buf = pre @ out @ post" and len: "length buf \<le> 2 ^ 23" and b: "bencode (Int_t v) = Some (out, n)"
    and st: "stack_size s = Suc k" "path k (ret s)" "start s = Suc (length pre)"
  define d where "d = (if v < 0 then CHR ''-'' # decimal (nat \<bar>v\<bar>) else decimal (nat \<bar>v\<bar>))"
  have out: "out = ''i'' @ d @ ''e''" using bencode_int [OF b v] by (simp add: d_def)
  have nd: "takeWhile (\<lambda>x. x \<noteq> CHR ''e'') (d @ CHR ''e'' # post) = d"
    using decimal_digits(1) is_digit_not by (subst takeWhile_append2) (auto simp: d_def split: if_splits)
  have dr: "drop (start s) buf = d @ CHR ''e'' # post" using buf out st(3) by simp
  have p: "find_char (drop (start s) buf) (start s) (CHR ''e'') = start s + length d"
    by (simp add: find_char nd dr)
  let ?le = "int_t (start s) (int (length d)) (length pre) (length pre + length out)"
  have ti: "to_int (int (length d)) = int (length d)" using len buf out by (intro to_int_id) simp
  have rd: "int_value buf (length (pre @ ''i'')) (int (length d)) = Inr v"
    by (rule int_value_read [where post = "CHR ''e'' # post"]) (use buf out v in \<open>simp_all add: d_def\<close>)
  have ds: "read_range buf (length pre) (int (length out)) = Inr out" by (rule read_range_append [OF buf])
  have "reads_as buf (Int_t v) ?le" using b rd ds st(3) by (simp add: data_section_def)
  moreover have "construct_top mem buf (hd out) s = Continue (s\<lparr>start := length pre + length out, stack_size := k, ret := put k ?le (ret s)\<rparr>)"
    using p ti st buf out
    by (simp add: construct_top_def Let_def update_top_put [OF st(1,2)] construct_int_def nat_add_distrib)
  moreover have "m_begin ?le = length pre" "out \<noteq> []" "hd out \<noteq> CHR ''e''" using out by simp_all
  ultimately show "\<exists>le s1. reads_as buf (Int_t v) le \<and> m_begin le = length pre \<and> out \<noteq> [] \<and> hd out \<noteq> CHR ''e'' \<and>
      construct_top mem buf (hd out) s = Continue s1 \<and>
      lazy_loop mem a limit buf s1 = lazy_loop mem a limit buf (s\<lparr>start := length pre + length out, stack_size := k, ret := put k le (ret s)\<rparr>)"
    by blast
qed

text \<open>A length in front of a string, and the string.\<close>

lemma parse_length:
  assumes "n < 2 ^ 31" "decimal n = c # cs"
  shows "parse_int (cs @ CHR '':'' # rest) p (CHR '':'') (int (digit_val c)) = Inr (Some (p + length cs), int n)"
proof -
  have n: "dec_val (digit_val c) cs = n" using decimal_digits(3) [of n] assms(2) by simp
  have "\<forall>d \<in> set cs. is_digit d" using decimal_digits(1) [of _ n] assms(2) by simp
  then show ?thesis using parse_int_digits [of cs "CHR '':''" "CHR '':'' # rest" "digit_val c" p] n assms(1)
    by (simp add: is_digit_def less_eq_char_def)
qed

lemma bencode_string: "length t < 2 ^ 31 \<Longrightarrow> bencode (String_t t) = Some (out, n) \<Longrightarrow> out = decimal (length t) @ '':'' @ t"
  using write_length [of "length t"] by (simp add: bencode_def write_string_def)

lemma decodes_string: "decodes mem a limit k (String_t t)"
  unfolding decodes_def
proof (intro allI impI)
  fix buf pre out post n and s :: decoder
  assume buf: "buf = pre @ out @ post" and len: "length buf \<le> 2 ^ 23" and b: "bencode (String_t t) = Some (out, n)"
    and st: "stack_size s = Suc k" "path k (ret s)" "start s = Suc (length pre)"
  have "length t < 2 ^ 31"
  proof (rule ccontr)
    assume "\<not> ?thesis"
    then show False using b len buf by (auto simp: bencode_def write_string_def bind_eq_Some_conv)
  qed
  then have out: "out = decimal (length t) @ '':'' @ t" using b by (rule bencode_string)
  obtain c cs where c: "decimal (length t) = c # cs" using decimal_digits(2) by (cases "decimal (length t)") auto
  have cd: "is_digit c" using decimal_hd [of "length t"] c by simp
  define p where "p = start s + length cs"
  have dr: "drop (start s) buf = cs @ CHR '':'' # t @ post" using buf out c st(3) by simp
  have pi: "parse_int (drop (start s) buf) (start s) (CHR '':'') (int (digit_val c)) = Inr (Some p, int (length t))"
    unfolding dr p_def by (rule parse_length [OF \<open>length t < 2 ^ 31\<close> c])
  have p: "p = length pre + length (decimal (length t))" using st(3) c by (simp add: p_def)
  have bp: "buf ! p = CHR '':''" "p + length t + 1 \<le> length buf" using buf out p by (simp_all add: nth_append)
  have sm: "\<not> sum_past_end mem buf p (int (length t) + 1)" using bp(2) by (intro sum_in_buffer) linarith
  let ?le = "string_t (p + 1) (int (length t)) (length pre) (length pre + length out)"
  have rt: "read_range buf (length (pre @ decimal (length t) @ '':'')) (int (length t)) = Inr t"
    by (rule read_range_append [where post = post]) (use buf out in simp)
  have ds: "read_range buf (length pre) (int (length out)) = Inr out" by (rule read_range_append [OF buf])
  have "reads_as buf (String_t t) ?le" using b rt ds p by (simp add: data_section_def string_value_def)
  moreover have "construct_top mem buf (hd out) s = Continue (s\<lparr>start := length pre + length out, stack_size := k, ret := put k ?le (ret s)\<rparr>)"
    using pi st out c cd bp sm is_digit_not [OF cd] to_int_id [OF \<open>length t < 2 ^ 31\<close>] p num_digits_decimal [of "length t"]
    by (simp add: construct_top_def update_top_put [OF st(1,2)] construct_string_def nat_add_distrib add.assoc)
  moreover have "m_begin ?le = length pre" "out \<noteq> []" "hd out \<noteq> CHR ''e''" using out c is_digit_not [OF cd] by simp_all
  ultimately show "\<exists>le s1. reads_as buf (String_t t) le \<and> m_begin le = length pre \<and> out \<noteq> [] \<and> hd out \<noteq> CHR ''e'' \<and>
      construct_top mem buf (hd out) s = Continue s1 \<and>
      lazy_loop mem a limit buf s1 = lazy_loop mem a limit buf (s\<lparr>start := length pre + length out, stack_size := k, ret := put k le (ret s)\<rparr>)"
    by blast
qed

text \<open>One round of the loop, in a list and in a dictionary.\<close>

lemma grow_Some: "\<forall>c. a c \<Longrightarrow> n * 150 < 2 ^ 31 \<Longrightarrow> \<exists>c'. grow a n c = Inr (Some c')"
  by (auto simp: grow_def Let_def)

lemma list_end:
  assumes "stack_size s = Suc k" "k < limit" "path k (ret s)" "entry_at k (ret s) = list_t l c b e0" "start s < length buf" "buf ! start s = CHR ''e''"
  shows "lazy_loop mem a limit buf s =
    lazy_loop mem a limit buf (s\<lparr>start := start s + 1, stack_size := k, ret := put k (list_t l c b (start s + 1)) (ret s)\<rparr>)"
  using assms by (cases s, subst lazy_loop.simps) (simp add: lazy_round_def Let_def top_entry_def update_top_put)

lemma dict_end:
  assumes "stack_size s = Suc k" "k < limit" "path k (ret s)" "entry_at k (ret s) = dict_t d c b e0" "start s < length buf" "buf ! start s = CHR ''e''"
  shows "lazy_loop mem a limit buf s =
    lazy_loop mem a limit buf (s\<lparr>start := start s + 1, stack_size := k, ret := put k (dict_t d c b (start s + 1)) (ret s)\<rparr>)"
  using assms by (cases s, subst lazy_loop.simps) (simp add: lazy_round_def Let_def top_entry_def update_top_put)

lemma list_item:
  assumes "stack_size s = Suc k" "k < limit" "path k (ret s)" "entry_at k (ret s) = list_t l c b e0" "start s + 1 < length buf" "buf ! start s \<noteq> CHR ''e''"
    "grow a (int (length l)) c = Inr (Some c')"
    "construct_top mem buf (buf ! start s) (s\<lparr>start := start s + 1, stack_size := Suc (Suc k), ret := put k (list_t (l @ [new_lazy_entry]) c' b e0) (ret s)\<rparr>)
       = Continue s1"
  shows "lazy_loop mem a limit buf s = lazy_loop mem a limit buf s1"
  using assms by (cases s, subst lazy_loop.simps) (simp add: lazy_round_def Let_def top_entry_def update_top_put list_append_def)

lemma decodes_items:
  assumes a: "\<forall>c. a c" and k: "k < limit" and items: "\<forall>v \<in> set es. decodes mem a limit (Suc k) v"
    and "buf = pre @ out @ CHR ''e'' # post" "length buf \<le> 2 ^ 23" "bencode_list es = Some (out, n)" "stack_size s = Suc k" "path k (ret s)"
      "start s = length pre" "entry_at k (ret s) = list_t l c b e0" "length l \<le> length pre"
  shows "\<exists>l' c'. list_all2 (reads_as buf) es l' \<and>
    lazy_loop mem a limit buf s = lazy_loop mem a limit buf
      (s\<lparr>start := length pre + length out + 1, stack_size := k, ret := put k (list_t (l @ l') c' b (length pre + length out + 1)) (ret s)\<rparr>)"
  using assms(3-)
proof (induction es arbitrary: pre out n s l c)
  case Nil
  then show ?case using list_end [of s k limit l c b e0 buf mem a] k by (auto simp: nth_append)
next
  case (Cons v es)
  obtain o1 n1 o2 n2 where o: "bencode v = Some (o1, n1)" "bencode_list es = Some (o2, n2)" "out = o1 @ o2"
    using Cons.prems(4) by (auto simp: bind_eq_Some_conv bencode_def)
  have ll: "int (length l) * 150 < 2 ^ 31" using Cons.prems(2,3,9) by simp
  then obtain c' where c': "grow a (int (length l)) c = Inr (Some c')" using grow_Some a by blast
  define s0 where "s0 = s\<lparr>start := start s + 1, stack_size := Suc (Suc k), ret := put k (list_t (l @ [new_lazy_entry]) c' b e0) (ret s)\<rparr>"
  have e0: "entry_at k (ret s0) = list_t (l @ [new_lazy_entry]) c' b e0" "path k (ret s0)" using Cons.prems(6) by (simp_all add: s0_def)
  have p0: "path (Suc k) (ret s0)" "put (Suc k) le (ret s0) = put k (list_t (l @ [le]) c' b e0) (ret s)" for le
    using path_list [OF e0(2,1), of le] Cons.prems(6) by (simp_all add: s0_def)
  have d: "decodes mem a limit (Suc k) v" using Cons.prems(1) by simp
  obtain le s1 where r: "reads_as buf v le" "o1 \<noteq> []" "hd o1 \<noteq> CHR ''e''" "construct_top mem buf (hd o1) s0 = Continue s1"
    "lazy_loop mem a limit buf s1 = lazy_loop mem a limit buf (s0\<lparr>start := length pre + length o1, stack_size := Suc k, ret := put (Suc k) le (ret s0)\<rparr>)"
    by (rule decodesD [OF d, where buf = buf and pre = pre and out = o1 and post = "o2 @ CHR ''e'' # post" and s = s0 and n = n1])
      (use Cons.prems o p0(1) in \<open>auto simp: s0_def\<close>)
  have t: "buf ! start s = hd o1" "start s + 1 < length buf" using Cons.prems(2,7) o r(2) by (cases o1; simp add: nth_append)+
  have "lazy_loop mem a limit buf s = lazy_loop mem a limit buf s1"
    using list_item [of s k limit l c b e0 buf a c' mem s1] Cons.prems(5,6,8) k t r(3,4) c' unfolding s0_def by simp
  also have "\<dots> = lazy_loop mem a limit buf (s\<lparr>start := length (pre @ o1), stack_size := Suc k, ret := put k (list_t (l @ [le]) c' b e0) (ret s)\<rparr>)"
    unfolding r(5) p0(2) by (cases s) (simp add: s0_def add.assoc)
  finally have l1: "lazy_loop mem a limit buf s = \<dots>" .
  let ?s = "s\<lparr>start := length (pre @ o1), stack_size := Suc k, ret := put k (list_t (l @ [le]) c' b e0) (ret s)\<rparr>"
  have ln: "length (l @ [le]) \<le> length (pre @ o1)" using Cons.prems(9) r(2) by (cases o1) auto
  have "\<exists>l' c''. list_all2 (reads_as buf) es l' \<and> lazy_loop mem a limit buf ?s = lazy_loop mem a limit buf
      (?s\<lparr>start := length (pre @ o1) + length o2 + 1, stack_size := k, ret := put k (list_t ((l @ [le]) @ l') c'' b (length (pre @ o1) + length o2 + 1)) (ret ?s)\<rparr>)"
    by (rule Cons.IH) (use Cons.prems o ln in auto)
  then obtain l' c'' where l2: "list_all2 (reads_as buf) es l'" "lazy_loop mem a limit buf ?s = lazy_loop mem a limit buf
      (?s\<lparr>start := length (pre @ o1) + length o2 + 1, stack_size := k, ret := put k (list_t ((l @ [le]) @ l') c'' b (length (pre @ o1) + length o2 + 1)) (ret ?s)\<rparr>)"
    by blast
  have "list_all2 (reads_as buf) (v # es) (le # l')" using r(1) l2(1) by simp
  moreover have "lazy_loop mem a limit buf s = lazy_loop mem a limit buf
      (s\<lparr>start := length pre + length out + 1, stack_size := k, ret := put k (list_t (l @ le # l') c'' b (length pre + length out + 1)) (ret s)\<rparr>)"
    unfolding l1 l2(2) using Cons.prems(6) o(3) by (simp add: add.assoc)
  ultimately show ?case by blast
qed

lemma dict_item:
  assumes "stack_size s = Suc k" "k < limit" "path k (ret s)" "entry_at k (ret s) = dict_t d c b e0" "start s = length pre"
    and buf: "buf = pre @ decimal (length key) @ CHR '':'' # key @ x # rest" "rest \<noteq> []" and key: "length key < 2 ^ 31"
    and "grow a (int (length d)) c = Inr (Some c')"
    and s1: "construct_top mem buf x (s\<lparr>start := length pre + length (decimal (length key)) + 1 + length key + 1, stack_size := Suc (Suc k),
       ret := put k (dict_t (d @ [(length pre + length (decimal (length key)) + 1, new_lazy_entry)]) c' b e0) (ret s)\<rparr>)
       = Continue s1"
  shows "lazy_loop mem a limit buf s = lazy_loop mem a limit buf s1"
proof -
  obtain ch cs where c: "decimal (length key) = ch # cs" using decimal_digits(2) by (cases "decimal (length key)") auto
  have cd: "is_digit ch" using decimal_hd [of "length key"] c by simp
  define p where "p = start s + 1 + length cs"
  have dr: "drop (start s + 1) buf = cs @ CHR '':'' # key @ x # rest" using buf c assms(5) by simp
  have pi: "parse_int (drop (start s + 1) buf) (start s + 1) (CHR '':'') (int (digit_val ch)) = Inr (Some p, int (length key))"
    unfolding dr p_def by (rule parse_length [OF key c])
  have p: "p = length pre + length (decimal (length key))" using assms(5) c by (simp add: p_def)
  have bp: "buf ! p = CHR '':''" "p + length key + 3 \<le> length buf" "buf ! (p + 1 + length key) = x" "p + 1 < length buf"
    using buf p by (simp_all add: nth_append Suc_leI)
  have sm: "\<not> sum_past_end mem buf p (int (length key) + 3)" using bp(2) by (intro sum_in_buffer) linarith
  have t: "start s + 1 < length buf" "buf ! start s = ch" using buf c assms(5) by simp_all
  have "read_key mem a buf ch (s\<lparr>start := start s + 1\<rparr>) = Continue s1"
    using pi cd bp sm assms(9) assms(1,3,4) s1 p
    by (cases s) (simp add: read_key_def Let_def top_entry_def update_top_put dict_append_def)
  then show ?thesis using t assms(1-4) is_digit_not [OF cd]
    by (cases s, subst lazy_loop.simps) (simp add: lazy_round_def Let_def top_entry_def)
qed

lemma decodes_pairs:
  assumes a: "\<forall>c. a c" and k: "k < limit" and items: "\<forall>(key, v) \<in> set ps. decodes mem a limit (Suc k) v"
    and "buf = pre @ out @ CHR ''e'' # post" "length buf \<le> 2 ^ 23" "bencode_dict ps = Some (out, n)" "stack_size s = Suc k" "path k (ret s)"
      "start s = length pre" "entry_at k (ret s) = dict_t d c b e0" "length d \<le> length pre"
  shows "\<exists>d' c'. list_all2 (\<lambda>(key, v) (name, val). entry_name buf name val = Inr key \<and> reads_as buf v val) ps d' \<and>
    lazy_loop mem a limit buf s = lazy_loop mem a limit buf
      (s\<lparr>start := length pre + length out + 1, stack_size := k, ret := put k (dict_t (d @ d') c' b (length pre + length out + 1)) (ret s)\<rparr>)"
  using assms(3-)
proof (induction ps arbitrary: pre out n s d c)
  case Nil
  then show ?case using dict_end [of s k limit d c b e0 buf mem a] k by (auto simp: nth_append)
next
  case (Cons pr ps)
  obtain key v where pr: "pr = (key, v)" by (cases pr) auto
  obtain os ns o1 n1 o2 n2 where o: "write_integer (int (length key)) = Some (os, ns)" "bencode v = Some (o1, n1)"
    "bencode_dict ps = Some (o2, n2)" "out = os @ CHR '':'' # key @ o1 @ o2"
    using Cons.prems(4) pr by (auto simp: bind_eq_Some_conv bencode_def write_string_def)
  have kl: "length key < 2 ^ 31" using Cons.prems(1,2,3) o(4) by simp
  have os: "os = decimal (length key)" using o(1) write_length [OF kl] by simp
  have ll: "int (length d) * 150 < 2 ^ 31" using Cons.prems(2,3,9) by simp
  then obtain c' where c': "grow a (int (length d)) c = Inr (Some c')" using grow_Some a by blast
  let ?pre = "pre @ os @ CHR '':'' # key" let ?name = "length pre + length os + 1"
  define s0 where "s0 = s\<lparr>start := ?name + length key + 1, stack_size := Suc (Suc k), ret := put k (dict_t (d @ [(?name, new_lazy_entry)]) c' b e0) (ret s)\<rparr>"
  have e0: "entry_at k (ret s0) = dict_t (d @ [(?name, new_lazy_entry)]) c' b e0" "path k (ret s0)" using Cons.prems(6) by (simp_all add: s0_def)
  have p0: "path (Suc k) (ret s0)" "put (Suc k) le (ret s0) = put k (dict_t (d @ [(?name, le)]) c' b e0) (ret s)" for le
    using path_dict [OF e0(2,1), of le] Cons.prems(6) by (simp_all add: s0_def)
  have dv: "decodes mem a limit (Suc k) v" using Cons.prems(1) pr by simp
  obtain le s1 where r: "reads_as buf v le" "m_begin le = length ?pre" "o1 \<noteq> []" "construct_top mem buf (hd o1) s0 = Continue s1"
    "lazy_loop mem a limit buf s1 = lazy_loop mem a limit buf (s0\<lparr>start := length ?pre + length o1, stack_size := Suc k, ret := put (Suc k) le (ret s0)\<rparr>)"
    by (rule decodesD [OF dv, where buf = buf and pre = ?pre and out = o1 and post = "o2 @ CHR ''e'' # post" and s = s0 and n = n1])
      (use Cons.prems o p0(1) in \<open>auto simp: s0_def\<close>)
  obtain x xs where x: "o1 = x # xs" using r(3) by (cases o1) auto
  have bufx: "buf = pre @ decimal (length key) @ CHR '':'' # key @ x # (xs @ o2 @ CHR ''e'' # post)" using Cons.prems(2) o(4) os x by simp
  have "construct_top mem buf x (s\<lparr>start := length pre + length (decimal (length key)) + 1 + length key + 1, stack_size := Suc (Suc k),
      ret := put k (dict_t (d @ [(length pre + length (decimal (length key)) + 1, new_lazy_entry)]) c' b e0) (ret s)\<rparr>) = Continue s1"
    using r(4) x by (simp add: s0_def os add.assoc)
  with dict_item [OF Cons.prems(5) k Cons.prems(6,8,7) bufx _ kl c']
  have "lazy_loop mem a limit buf s = lazy_loop mem a limit buf s1" by simp
  also have "\<dots> = lazy_loop mem a limit buf (s\<lparr>start := length (?pre @ o1), stack_size := Suc k, ret := put k (dict_t (d @ [(?name, le)]) c' b e0) (ret s)\<rparr>)"
    unfolding r(5) p0(2) by (cases s) (simp add: s0_def add.assoc)
  finally have l1: "lazy_loop mem a limit buf s = \<dots>" .
  let ?s = "s\<lparr>start := length (?pre @ o1), stack_size := Suc k, ret := put k (dict_t (d @ [(?name, le)]) c' b e0) (ret s)\<rparr>"
  have ln: "length (d @ [(?name, le)]) \<le> length (?pre @ o1)" using Cons.prems(9) x by auto
  have "\<exists>d' c''. list_all2 (\<lambda>(key, v) (name, val). entry_name buf name val = Inr key \<and> reads_as buf v val) ps d' \<and>
      lazy_loop mem a limit buf ?s = lazy_loop mem a limit buf
      (?s\<lparr>start := length (?pre @ o1) + length o2 + 1, stack_size := k, ret := put k (dict_t ((d @ [(?name, le)]) @ d') c'' b (length (?pre @ o1) + length o2 + 1)) (ret ?s)\<rparr>)"
    by (rule Cons.IH) (use Cons.prems o ln in auto)
  then obtain d' c'' where l2: "list_all2 (\<lambda>(key, v) (name, val). entry_name buf name val = Inr key \<and> reads_as buf v val) ps d'"
    "lazy_loop mem a limit buf ?s = lazy_loop mem a limit buf
      (?s\<lparr>start := length (?pre @ o1) + length o2 + 1, stack_size := k, ret := put k (dict_t ((d @ [(?name, le)]) @ d') c'' b (length (?pre @ o1) + length o2 + 1)) (ret ?s)\<rparr>)"
    by blast
  have "read_range buf (length (pre @ os @ '':'')) (int (length key)) = Inr key"
    by (rule read_range_append [where post = "o1 @ o2 @ CHR ''e'' # post"]) (use Cons.prems(2) o(4) in simp)
  then have "entry_name buf ?name le = Inr key" using r(2) by (simp add: entry_name_def)
  then have "list_all2 (\<lambda>(key, v) (name, val). entry_name buf name val = Inr key \<and> reads_as buf v val) (pr # ps) ((?name, le) # d')"
    using r(1) l2(1) pr by simp
  moreover have "lazy_loop mem a limit buf s = lazy_loop mem a limit buf
      (s\<lparr>start := length pre + length out + 1, stack_size := k, ret := put k (dict_t (d @ (?name, le) # d') c'' b (length pre + length out + 1)) (ret s)\<rparr>)"
    unfolding l1 l2(2) using Cons.prems(6) o(4) by (simp add: add.assoc)
  ultimately show ?case by blast
qed

lemma decodes_list:
  assumes a: "\<forall>c. a c" and k: "k < limit" and items: "\<forall>v \<in> set es. decodes mem a limit (Suc k) v"
  shows "decodes mem a limit k (List_t es)"
  unfolding decodes_def
proof (intro allI impI)
  fix buf pre out post n and s :: decoder
  assume buf: "buf = pre @ out @ post" and len: "length buf \<le> 2 ^ 23" and b: "bencode (List_t es) = Some (out, n)"
    and st: "stack_size s = Suc k" "path k (ret s)" "start s = Suc (length pre)"
  obtain o1 n1 where o: "bencode_list es = Some (o1, n1)" "out = ''l'' @ o1 @ ''e''"
    using b by (auto simp: bencode_def bind_eq_Some_conv)
  define s0 where "s0 = s\<lparr>ret := put k (list_t [] 0 (length pre) (m_end (entry_at k (ret s)))) (ret s)\<rparr>"
  have c: "construct_top mem buf (hd out) s = Continue s0"
    using o(2) st by (simp add: construct_top_def update_top_put [OF st(1,2)] construct_list_def s0_def)
  have "\<exists>l c. list_all2 (reads_as buf) es l \<and> lazy_loop mem a limit buf s0 = lazy_loop mem a limit buf
      (s0\<lparr>start := length (pre @ ''l'') + length o1 + 1, stack_size := k,
         ret := put k (list_t ([] @ l) c (length pre) (length (pre @ ''l'') + length o1 + 1)) (ret s0)\<rparr>)"
    by (rule decodes_items [OF a k items _ len o(1)]) (use buf o(2) st in \<open>simp_all add: s0_def\<close>)
  then obtain l c where l: "list_all2 (reads_as buf) es l" "lazy_loop mem a limit buf s0 = lazy_loop mem a limit buf
      (s0\<lparr>start := length (pre @ ''l'') + length o1 + 1, stack_size := k,
         ret := put k (list_t ([] @ l) c (length pre) (length (pre @ ''l'') + length o1 + 1)) (ret s0)\<rparr>)" by blast
  let ?le = "list_t l c (length pre) (length pre + length out)"
  have ds: "read_range buf (length pre) (int (length out)) = Inr out" by (rule read_range_append [OF buf])
  have "reads_as buf (List_t es) ?le" using b l(1) ds by (simp add: data_section_def)
  moreover have "lazy_loop mem a limit buf s0 = lazy_loop mem a limit buf (s\<lparr>start := length pre + length out, stack_size := k, ret := put k ?le (ret s)\<rparr>)"
    unfolding l(2) using st(2) o(2) by (cases s) (simp add: s0_def)
  moreover have "m_begin ?le = length pre" "out \<noteq> []" "hd out \<noteq> CHR ''e''" using o(2) by simp_all
  ultimately show "\<exists>le s1. reads_as buf (List_t es) le \<and> m_begin le = length pre \<and> out \<noteq> [] \<and> hd out \<noteq> CHR ''e'' \<and>
      construct_top mem buf (hd out) s = Continue s1 \<and>
      lazy_loop mem a limit buf s1 = lazy_loop mem a limit buf (s\<lparr>start := length pre + length out, stack_size := k, ret := put k le (ret s)\<rparr>)"
    using c by blast
qed

lemma decodes_dict:
  assumes a: "\<forall>c. a c" and k: "k < limit" and items: "\<forall>(key, v) \<in> set ps. decodes mem a limit (Suc k) v"
  shows "decodes mem a limit k (Dictionary_t ps)"
  unfolding decodes_def
proof (intro allI impI)
  fix buf pre out post n and s :: decoder
  assume buf: "buf = pre @ out @ post" and len: "length buf \<le> 2 ^ 23" and b: "bencode (Dictionary_t ps) = Some (out, n)"
    and st: "stack_size s = Suc k" "path k (ret s)" "start s = Suc (length pre)"
  obtain o1 n1 where o: "bencode_dict ps = Some (o1, n1)" "out = ''d'' @ o1 @ ''e''"
    using b by (auto simp: bencode_def bind_eq_Some_conv)
  define s0 where "s0 = s\<lparr>ret := put k (dict_t [] 0 (length pre) (m_end (entry_at k (ret s)))) (ret s)\<rparr>"
  have c: "construct_top mem buf (hd out) s = Continue s0"
    using o(2) st by (simp add: construct_top_def update_top_put [OF st(1,2)] construct_dict_def s0_def)
  have "\<exists>d c. list_all2 (\<lambda>(key, v) (name, val). entry_name buf name val = Inr key \<and> reads_as buf v val) ps d \<and>
      lazy_loop mem a limit buf s0 = lazy_loop mem a limit buf
      (s0\<lparr>start := length (pre @ ''d'') + length o1 + 1, stack_size := k,
         ret := put k (dict_t ([] @ d) c (length pre) (length (pre @ ''d'') + length o1 + 1)) (ret s0)\<rparr>)"
    by (rule decodes_pairs [OF a k items _ len o(1)]) (use buf o(2) st in \<open>simp_all add: s0_def\<close>)
  then obtain d c where d: "list_all2 (\<lambda>(key, v) (name, val). entry_name buf name val = Inr key \<and> reads_as buf v val) ps d"
    "lazy_loop mem a limit buf s0 = lazy_loop mem a limit buf
      (s0\<lparr>start := length (pre @ ''d'') + length o1 + 1, stack_size := k,
         ret := put k (dict_t ([] @ d) c (length pre) (length (pre @ ''d'') + length o1 + 1)) (ret s0)\<rparr>)" by blast
  let ?le = "dict_t d c (length pre) (length pre + length out)"
  have ds: "read_range buf (length pre) (int (length out)) = Inr out" by (rule read_range_append [OF buf])
  have "reads_as buf (Dictionary_t ps) ?le" using b d(1) ds by (simp add: data_section_def)
  moreover have "lazy_loop mem a limit buf s0 = lazy_loop mem a limit buf (s\<lparr>start := length pre + length out, stack_size := k, ret := put k ?le (ret s)\<rparr>)"
    unfolding d(2) using st(2) o(2) by (cases s) (simp add: s0_def)
  moreover have "m_begin ?le = length pre" "out \<noteq> []" "hd out \<noteq> CHR ''e''" using o(2) by simp_all
  ultimately show "\<exists>le s1. reads_as buf (Dictionary_t ps) le \<and> m_begin le = length pre \<and> out \<noteq> [] \<and> hd out \<noteq> CHR ''e'' \<and>
      construct_top mem buf (hd out) s = Continue s1 \<and>
      lazy_loop mem a limit buf s1 = lazy_loop mem a limit buf (s\<lparr>start := length pre + length out, stack_size := k, ret := put k le (ret s)\<rparr>)"
    using c by blast
qed

lemma entry_ok_decodes:
  assumes "\<forall>c. a c" "100 \<le> limit"
  shows "entry_ok k v \<Longrightarrow> decodes mem a limit k v"
proof (induction k v rule: entry_ok.induct)
  case (1 k v)
  then show ?case by (intro decodes_int) auto
next
  case (2 k s)
  show ?case by (rule decodes_string)
next
  case (3 k es)
  then show ?case using assms by (intro decodes_list) auto
next
  case (4 k d)
  then show ?case using assms by (intro decodes_dict) auto
next
  case (5 k)
  then show ?case by simp
qed

lemma bencode_length: "entry_ok k v \<Longrightarrow> bencode v = Some (out, n) \<Longrightarrow> 1 < length out"
proof (cases v)
  case (String_t t)
  assume "entry_ok k v" "bencode v = Some (out, n)"
  then show ?thesis using String_t bencode_string [of t out n] decimal_digits(2) [of "length t"] by (cases "decimal (length t)") auto
qed (auto simp: bencode_def bind_eq_Some_conv)

text \<open>C28. A value that can be encoded, at the front of a buffer of at most 8 megabytes, is decoded: the entry reads as the
  value, with the values of all its items under their names, and knows the bytes it was decoded from. For the
  array of the items of one entry there must be memory; a larger buffer may have so many items that the capacity of
  an array overflows. The encoded values are nested less than 100 deep, so a limit of 100 suffices (the default is 1000).\<close>

theorem lazy_bdecode_bencode:
  assumes "entry_ok 0 v" "bencode v = Some (out, n)" "length (out @ rest) \<le> 2 ^ 23" "\<forall>c. can_alloc c" "100 \<le> depth_limit"
  shows "\<exists>le'. lazy_bdecode mem can_alloc (out @ rest) le depth_limit = Inr (0, le') \<and> reads_as (out @ rest) v le'"
proof -
  let ?buf = "out @ rest"
  let ?s = "\<lparr>start = 1, stack_size = 1, ret = clear_entry le\<rparr>"
  have "decodes mem can_alloc depth_limit 0 v" by (rule entry_ok_decodes [OF assms(4,5,1)])
  then obtain le' s1 where r: "reads_as ?buf v le'" "out \<noteq> []" "hd out \<noteq> CHR ''e''" "construct_top mem ?buf (hd out) ?s = Continue s1"
    "lazy_loop mem can_alloc depth_limit ?buf s1 = lazy_loop mem can_alloc depth_limit ?buf (?s\<lparr>start := length [] + length out, stack_size := 0, ret := put 0 le' (ret ?s)\<rparr>)"
    by (rule decodesD [where buf = ?buf and pre = "[]" and out = out and post = rest and s = ?s and n = n]) (use assms in auto)
  have "1 < length out" by (rule bencode_length [OF assms(1,2)])
  then have "lazy_loop mem can_alloc depth_limit ?buf \<lparr>start = 0, stack_size = 1, ret = clear_entry le\<rparr> = lazy_loop mem can_alloc depth_limit ?buf s1"
    using r(2-4) assms(5)
    by (subst lazy_loop.simps) (simp add: lazy_round_def Let_def top_entry_def clear_entry_def hd_conv_nth nth_append)
  also have "\<dots> = Inr (0, le')" unfolding r(5) by (simp add: lazy_loop.simps)
  finally show ?thesis using r(1,2) by (auto simp: lazy_bdecode_def)
qed

theorem lazy_bdecode_bencode_witness:
  "\<exists>le'. lazy_bdecode \<lparr>pointer_bits = 32, address = 4096\<rparr> (\<lambda>_. True) (''d1:ai1e2:bcl2:xyee'' @ ''z'') new_lazy_entry 100 = Inr (0, le') \<and>
     reads_as (''d1:ai1e2:bcl2:xyee'' @ ''z'') (Dictionary_t [(''a'', Int_t 1), (''bc'', List_t [String_t ''xy''])]) le'"
  by (rule lazy_bdecode_bencode [where n = 18]) (simp_all, code_simp+)

section \<open>Every entry is in the buffer\<close>

text \<open>What an entry points to is in a buffer of a length, and containers are nested at most to a depth. The end
  of a container is known only when its end was read.\<close>

fun in_buffer :: "nat \<Rightarrow> nat \<Rightarrow> lazy_entry \<Rightarrow> bool" where
  "in_buffer n h (none_t b e) \<longleftrightarrow> False"
| "in_buffer n h (int_t s len b e) \<longleftrightarrow> 0 \<le> len \<and> b < s \<and> int s + len < int n \<and> int e = int s + len + 1"
| "in_buffer n h (string_t s len b e) \<longleftrightarrow> 0 \<le> len \<and> b < s \<and> int s + len \<le> int n \<and> int e = int s + len"
| "in_buffer n h (list_t l c b e) \<longleftrightarrow> h > 0 \<and> b < n \<and> (e = 0 \<or> b < e \<and> e \<le> n) \<and> (\<forall>x \<in> set l. in_buffer n (h - 1) x)"
| "in_buffer n h (dict_t d c b e) \<longleftrightarrow> h > 0 \<and> b < n \<and> (e = 0 \<or> b < e \<and> e \<le> n) \<and>
     (\<forall>(name, x) \<in> set d. name \<le> m_begin x \<and> in_buffer n (h - 1) x)"

definition is_container :: "lazy_entry \<Rightarrow> bool" where
  "is_container le \<longleftrightarrow> (case le of list_t l c b e \<Rightarrow> True | dict_t d c b e \<Rightarrow> True | _ \<Rightarrow> False)"

lemma in_buffer_entry_at: "path k le \<Longrightarrow> in_buffer n (h + k) le \<Longrightarrow> in_buffer n h (entry_at k le)"
proof (induction k le arbitrary: h rule: path.induct)
  case (2 k d c b e)
  then show ?case using last_in_set [of d] by (cases "last d") force
next
  case (3 k l c b e)
  then show ?case by simp
qed auto

lemma in_buffer_put:
  "path k le \<Longrightarrow> in_buffer n (h + k) le \<Longrightarrow> in_buffer n h x \<Longrightarrow> m_begin x = m_begin (entry_at k le) \<Longrightarrow>
     in_buffer n (h + k) (put k x le) \<and> m_begin (put k x le) = m_begin le"
proof (induction k le arbitrary: h rule: path.induct)
  case (2 k d c b e)
  obtain name y where y: "last d = (name, y)" by (cases "last d") auto
  have "(name, y) \<in> set d" using 2(2) y last_in_set [of d] by simp
  then have "name \<le> m_begin y \<and> in_buffer n (h + k) y" using 2(3) by auto
  then show ?case using 2 y by (auto dest: in_set_butlastD)
next
  case (3 k l c b e)
  then show ?case by (auto dest: in_set_butlastD)
qed auto

lemma in_buffer_mono: "in_buffer n h le \<Longrightarrow> n \<le> m \<Longrightarrow> in_buffer m h le"
  by (induction n h le rule: in_buffer.induct) auto

text \<open>What the second switch does to the fresh entry on the top of the stack.\<close>

lemma construct_top_entry:
  assumes "construct_top mem buf t s = Continue s'" "stack_size s = Suc j" "path j (ret s)" "entry_at j (ret s) = new_lazy_entry"
    "0 < start s" "start s \<le> length buf" "length buf < 2 ^ 31"
  shows "\<exists>x. ret s' = put j x (ret s) \<and> (\<forall>h. in_buffer (start s') (Suc h) x) \<and> start s - 1 \<le> m_begin x \<and>
    start s \<le> start s' \<and> start s' \<le> length buf \<and>
    (stack_size s' = j \<or> stack_size s' = Suc j \<and> is_container x \<and> path j (ret s'))"
proof -
  let ?p = "find_char (drop (start s) buf) (start s) (CHR ''e'')"
  have fb: "start s \<le> ?p" "?p \<le> length buf" using find_char_bounds [of "start s" "drop (start s) buf" "CHR ''e''"] assms(6) by auto
  note up = update_top_put [OF assms(2,3)]
  consider "t = CHR ''d''" | "t = CHR ''l''" | "t = CHR ''i''" | "is_digit t" "t \<noteq> CHR ''d''" "t \<noteq> CHR ''l''" "t \<noteq> CHR ''i''"
    using assms(1) by (auto simp: construct_top_def fail_bdecode_def split: if_splits)
  then show ?thesis
  proof cases
    case 1
    then show ?thesis using assms by (auto simp: construct_top_def up construct_dict_def new_lazy_entry_def is_container_def)
  next
    case 2
    then show ?thesis using assms by (auto simp: construct_top_def up construct_list_def new_lazy_entry_def is_container_def)
  next
    case 3
    have "to_int (int ?p - int (start s)) = int (?p - start s)" using fb assms(7) to_int_id [of "?p - start s"] by (simp add: of_nat_diff)
    then show ?thesis using assms 3 fb
      by (auto simp: construct_top_def up construct_int_def Let_def fail_bdecode_def of_nat_diff nat_add_distrib split: if_splits intro!: exI)
  next
    case 4
    obtain p len where p: "parse_int (drop (start s) buf) (start s) (CHR '':'') (int (digit_val t)) = Inr (Some p, len)"
      "\<not> int p + len + 1 > int (length buf)" "p < length buf"
      "s' = (update_top (construct_string (p + 1) (to_int len)) s)\<lparr>start := p + 1 + nat len, stack_size := stack_size s - 1\<rparr>"
      using assms(1) 4 by (auto simp: construct_top_def fail_bdecode_def split: sum.splits option.splits if_splits)
    have pb: "start s \<le> p" "0 \<le> len" "num_digits len \<le> 1 + (p - start s)"
      using parse_int_bounds [OF p(1)] digit_val_word [OF 4(1)] digit_val_less [OF 4(1)] num_digits.simps [of "int (digit_val t)"]
      by auto
    have tl: "to_int len = len" using p(2) pb(2) assms(7) to_int_id [of "nat len"] by simp
    have nd: "num_digits len \<ge> 1" by (simp add: num_digits.simps [of len])
    let ?x = "string_t (p + 1) len (p - num_digits len) (nat (int p + 1 + len))"
    have "ret s' = put j ?x (ret s)" using p(4) tl by (simp add: up construct_string_def add.commute)
    moreover have "in_buffer (start s') (Suc h) ?x" for h using p(2,4) pb nd by auto
    moreover have "start s - 1 \<le> m_begin ?x" using pb assms(5) by simp
    moreover have "start s \<le> start s'" "start s' \<le> length buf" "stack_size s' = j" using p pb assms(2) by auto
    ultimately show ?thesis by blast
  qed
qed

lemma path_Suc: "path (Suc k) le \<Longrightarrow> path k le \<and> is_container (entry_at k le)"
  by (induction k le rule: path.induct) (auto simp: is_container_def elim: path.elims)

text \<open>The invariant of the loop: the entry on the top of the stack is a container, or the result that is not
  constructed yet.\<close>

definition decoder_ok :: "nat \<Rightarrow> nat \<Rightarrow> decoder \<Rightarrow> bool" where
  "decoder_ok n limit s \<longleftrightarrow> start s \<le> n \<and>
     (if ret s = new_lazy_entry then stack_size s = 1 \<and> start s = 0
      else in_buffer (start s) (Suc limit) (ret s) \<and>
        (stack_size s > 0 \<longrightarrow> path (stack_size s - 1) (ret s) \<and> is_container (entry_at (stack_size s - 1) (ret s))))"

lemma in_buffer_not_new: "in_buffer n h le \<Longrightarrow> le \<noteq> new_lazy_entry"
  by (auto simp: new_lazy_entry_def)

lemma decoder_okI:
  "in_buffer (start s) (Suc limit) (ret s) \<Longrightarrow> start s \<le> n \<Longrightarrow>
     (stack_size s > 0 \<Longrightarrow> path (stack_size s - 1) (ret s) \<and> is_container (entry_at (stack_size s - 1) (ret s))) \<Longrightarrow> decoder_ok n limit s"
  by (simp add: decoder_ok_def in_buffer_not_new)

text \<open>The top container is replaced by one that is in the buffer, and popped or not.\<close>

lemma decoder_ok_put:
  assumes "path k r" "in_buffer (start s') (Suc limit) r" "k \<le> limit" "in_buffer (start s') (Suc limit - k) x" "m_begin x = m_begin (entry_at k r)"
    "is_container x" "ret s' = put k x r" "start s' \<le> n" "stack_size s' = k \<or> stack_size s' = Suc k"
  shows "decoder_ok n limit s'"
proof (rule decoder_okI)
  have "in_buffer (start s') ((Suc limit - k) + k) r" using assms(2,3) by simp
  from in_buffer_put [OF assms(1) this assms(4,5)] show "in_buffer (start s') (Suc limit) (ret s')" using assms(3,7) by simp
  show "path (stack_size s' - 1) (ret s') \<and> is_container (entry_at (stack_size s' - 1) (ret s'))" if z: "stack_size s' > 0"
  proof (cases "stack_size s' = k")
    case True
    then obtain j where "k = Suc j" using z by (cases k) auto
    then show ?thesis using path_Suc [of j "put k x r"] assms(1,7) True by simp
  next
    case False
    then show ?thesis using assms(1,6,7,9) by simp
  qed
qed (rule assms(8))

lemma new_item_ok:
  assumes ct: "construct_top mem buf t (s\<lparr>start := q, stack_size := Suc (Suc k), ret := put k cont (ret s)\<rparr>) = Continue s'"
    and cont: "\<And>x. path (Suc k) (put k cont (ret s)) \<and> entry_at (Suc k) (put k cont (ret s)) = new_lazy_entry \<and>
      put (Suc k) x (put k cont (ret s)) = put k (cont' x) (ret s)"
    and ok: "\<And>x m. q \<le> m \<Longrightarrow> in_buffer m (limit - k) x \<Longrightarrow> q - 1 \<le> m_begin x \<Longrightarrow>
      in_buffer m (Suc limit - k) (cont' x) \<and> is_container (cont' x) \<and> m_begin (cont' x) = m_begin (entry_at k (ret s))"
    and p: "path k (ret s)" "in_buffer q (Suc limit) (ret s)" "k < limit" "0 < q" "q \<le> length buf" "length buf < 2 ^ 31"
  shows "decoder_ok (length buf) limit s'"
proof -
  let ?s = "s\<lparr>start := q, stack_size := Suc (Suc k), ret := put k cont (ret s)\<rparr>"
  obtain x where x: "ret s' = put (Suc k) x (put k cont (ret s))" "\<forall>h. in_buffer (start s') (Suc h) x" "q - 1 \<le> m_begin x"
    "start s' \<le> length buf" "q \<le> start s'" "stack_size s' = Suc k \<or> stack_size s' = Suc (Suc k) \<and> is_container x \<and> path (Suc k) (ret s')"
    using construct_top_entry [OF ct, of "Suc k"] cont p(4-6) by auto
  have r: "ret s' = put k (cont' x) (ret s)" using x(1) cont by simp
  have "in_buffer (start s') (limit - k) x" using x(2) p(3) by (cases "limit - k") auto
  note c = ok [OF x(5) this x(3)] and ib = in_buffer_mono [OF p(2) x(5)]
  show ?thesis
  proof (cases "stack_size s' = Suc k")
    case True
    then show ?thesis using decoder_ok_put [OF p(1) ib _ _ _ _ r x(4)] c p(3) by simp
  next
    case False
    then have top: "stack_size s' = Suc (Suc k)" "is_container x" "path (Suc k) (ret s')" using x(6) by auto
    have "in_buffer (start s') ((Suc limit - k) + k) (ret s)" using ib p(3) by simp
    then have "in_buffer (start s') (Suc limit) (ret s')" using in_buffer_put [OF p(1), of "start s'" "Suc limit - k" "cont' x"] c p(3) r by simp
    moreover have "entry_at (Suc k) (ret s') = x" unfolding x(1) by (rule entry_at_put) (use cont in blast)
    ultimately show ?thesis using top x(4) by (intro decoder_okI) simp_all
  qed
qed

lemma path_append:
  assumes "path k r"
  shows "path (Suc k) (put k (list_t (l @ [y]) c b e) r) \<and> entry_at (Suc k) (put k (list_t (l @ [y]) c b e) r) = y \<and>
      put (Suc k) x (put k (list_t (l @ [y]) c b e) r) = put k (list_t (l @ [x]) c b e) r"
    and "path (Suc k) (put k (dict_t (d @ [(name, y)]) c b e) r) \<and> entry_at (Suc k) (put k (dict_t (d @ [(name, y)]) c b e) r) = y \<and>
      put (Suc k) x (put k (dict_t (d @ [(name, y)]) c b e) r) = put k (dict_t (d @ [(name, x)]) c b e) r"
  using assms by (induction k r rule: path.induct) simp_all

lemma read_key_Continue:
  assumes "read_key mem a buf t s = Continue s'"
  shows "\<exists>p len le. start s \<le> p \<and> p + 1 + nat len < length buf \<and> dict_append a (p + 1) (top_entry s) = Inr (Some le) \<and>
    construct_top mem buf (buf ! (p + 1 + nat len)) ((update_top (\<lambda>_. le) s)\<lparr>start := p + 1 + nat len + 1, stack_size := stack_size s + 1\<rparr>) = Continue s'"
proof -
  have t: "is_digit t" using assms by (auto simp: read_key_def fail_bdecode_def split: if_splits)
  obtain p len where p: "parse_int (drop (start s) buf) (start s) (CHR '':'') (int (digit_val t)) = Inr (Some p, len)"
    using assms t by (auto simp: read_key_def fail_bdecode_def split: sum.splits option.splits)
  then have "start s \<le> p" using parse_int_bounds [OF p] digit_val_word [OF t] by simp
  moreover obtain le where "dict_append a (p + 1) (top_entry s) = Inr (Some le)" "p + 1 + nat len < length buf"
    "construct_top mem buf (buf ! (p + 1 + nat len)) ((update_top (\<lambda>_. le) s)\<lparr>start := p + 1 + nat len + 1, stack_size := stack_size s + 1\<rparr>) = Continue s'"
    using assms t p by (auto simp: read_key_def fail_bdecode_def Let_def split: if_splits sum.splits option.splits)
  ultimately show ?thesis by blast
qed

lemma lazy_round_ok:
  assumes ok: "decoder_ok (length buf) limit s" and l: "lazy_round mem a limit buf s = Continue s'"
    and s: "start s < length buf" "stack_size s > 0" "length buf < 2 ^ 31"
  shows "decoder_ok (length buf) limit s'"
proof -
  obtain k where k: "stack_size s = Suc k" using s(2) by (cases "stack_size s") auto
  have lim: "k < limit" using l k by (auto simp: lazy_round_def fail_bdecode_def split: if_splits)
  show ?thesis
  proof (cases "ret s = new_lazy_entry")
    case True
    then have k0: "k = 0" using ok k by (simp add: decoder_ok_def)
    have "construct_top mem buf (buf ! start s) (s\<lparr>start := start s + 1\<rparr>) = Continue s'"
      using l True k k0 by (auto simp: lazy_round_def Let_def fail_bdecode_def top_entry_def new_lazy_entry_def split: if_splits)
    from construct_top_entry [OF this, of 0] True k k0 s
    obtain x where x: "ret s' = x" "in_buffer (start s') (Suc limit) x" "start s' \<le> length buf"
      "stack_size s' = 0 \<or> stack_size s' = 1 \<and> is_container x" by auto
    then show ?thesis by (intro decoder_okI) auto
  next
    case False
    then have r: "in_buffer (start s) (Suc limit) (ret s)" "path k (ret s)" "is_container (entry_at k (ret s))"
      using ok k by (simp_all add: decoder_ok_def)
    have "in_buffer (start s) ((Suc limit - k) + k) (ret s)" using r(1) lim by simp
    from in_buffer_entry_at [OF r(2) this] have e: "in_buffer (start s) (Suc limit - k) (entry_at k (ret s))" .
    let ?s = "s\<lparr>start := start s + 1\<rparr>"
    have sn: "start s + 1 \<le> length buf" using s(1) by simp
    have end_ok: "decoder_ok (length buf) limit s'" if "s' = (update_top (set_end (start s + 1)) ?s)\<lparr>stack_size := k\<rparr>"
    proof (rule decoder_ok_put [OF r(2)])
      show "in_buffer (start s') (Suc limit) (ret s)" using in_buffer_mono [OF r(1)] that by simp
      show "ret s' = put k (set_end (start s + 1) (entry_at k (ret s))) (ret s)"
        using that update_top_put [of ?s k] k r(2) by simp
      show "in_buffer (start s') (Suc limit - k) (set_end (start s + 1) (entry_at k (ret s)))"
        using in_buffer_mono [OF e, of "start s + 1"] e r(3) that by (auto simp: is_container_def split: lazy_entry.splits) 
    qed (use that lim r(3) sn in \<open>auto simp: is_container_def split: lazy_entry.splits\<close>)
    show ?thesis
    proof (cases "entry_at k (ret s)")
      case (list_t l c b e0)
      show ?thesis
      proof (cases "buf ! start s = CHR ''e''")
        case True
        then show ?thesis using l k lim s list_t by (intro end_ok) (simp add: lazy_round_def Let_def top_entry_def)
      next
        case False
        obtain c' where c: "construct_top mem buf (buf ! start s)
            (s\<lparr>start := start s + 1, stack_size := Suc (Suc k), ret := put k (list_t (l @ [new_lazy_entry]) c' b e0) (ret s)\<rparr>) = Continue s'"
          using assms(2) k list_t False update_top_put [of ?s k] r(2)
          by (cases s) (auto simp: lazy_round_def Let_def top_entry_def list_append_def fail_bdecode_def
              split: if_splits sum.splits option.splits)
        show ?thesis
        proof (rule new_item_ok [OF c path_append(1) [OF r(2)] _ r(2) _ lim])
          show "in_buffer m (Suc limit - k) (list_t (l @ [x]) c' b e0) \<and> is_container (list_t (l @ [x]) c' b e0) \<and>
              m_begin (list_t (l @ [x]) c' b e0) = m_begin (entry_at k (ret s))"
            if "start s + 1 \<le> m" "in_buffer m (limit - k) x" for m x
            using in_buffer_mono [OF e, of m] that list_t lim by (auto simp: is_container_def)
        qed (use in_buffer_mono [OF r(1)] s(3) sn in auto)
      qed
    next
      case (dict_t d c b e0)
      show ?thesis
      proof (cases "buf ! start s = CHR ''e''")
        case True
        then show ?thesis using l k lim s dict_t by (intro end_ok) (simp add: lazy_round_def Let_def top_entry_def)
      next
        case False
        then have "read_key mem a buf (buf ! start s) ?s = Continue s'"
          using assms(2) k dict_t by (auto simp: lazy_round_def Let_def top_entry_def fail_bdecode_def split: if_splits)
        from read_key_Continue [OF this] obtain p len le where p: "start s + 1 \<le> p" "p + 1 + nat len < length buf"
          and ap: "dict_append a (p + 1) (top_entry ?s) = Inr (Some le)"
          and ct: "construct_top mem buf (buf ! (p + 1 + nat len)) ((update_top (\<lambda>_. le) ?s)\<lparr>start := p + 1 + nat len + 1, stack_size := stack_size s + 1\<rparr>) = Continue s'"
          by auto
        obtain c' where "le = dict_t (d @ [(p + 1, new_lazy_entry)]) c' b e0"
          using ap k dict_t by (auto simp: top_entry_def dict_append_def split: sum.splits option.splits)
        then have c: "construct_top mem buf (buf ! (p + 1 + nat len))
            (s\<lparr>start := p + 1 + nat len + 1, stack_size := Suc (Suc k), ret := put k (dict_t (d @ [(p + 1, new_lazy_entry)]) c' b e0) (ret s)\<rparr>) = Continue s'"
          using ct k update_top_put [of ?s k] r(2) by (cases s) simp
        let ?q = "p + 1 + nat len + 1"
        show ?thesis
        proof (rule new_item_ok [OF c path_append(2) [OF r(2)] _ r(2) _ lim])
          show "in_buffer m (Suc limit - k) (dict_t (d @ [(p + 1, x)]) c' b e0) \<and> is_container (dict_t (d @ [(p + 1, x)]) c' b e0) \<and>
              m_begin (dict_t (d @ [(p + 1, x)]) c' b e0) = m_begin (entry_at k (ret s))"
            if "?q \<le> m" "in_buffer m (limit - k) x" "?q - 1 \<le> m_begin x" for m x
            using in_buffer_mono [OF e, of m] that dict_t lim p(1) by (auto simp: is_container_def)
        qed (use in_buffer_mono [OF r(1), of ?q] s(3) p in auto)
      qed
    qed (use r(3) in \<open>simp_all add: is_container_def\<close>)
  qed
qed

lemma parse_int_fault: "parse_int cs p c v = Inl x \<Longrightarrow> x = Overflow"
  by (induction cs p c v rule: parse_int.induct) (auto split: if_splits)

lemma grow_fault: "grow a n c = Inl x \<Longrightarrow> x = Overflow"
  by (auto simp: grow_def Let_def split: if_splits)

text \<open>Some length that a 64-bit number holds wraps around when it is added to a pointer to the buffer.\<close>

definition lengths_wrap :: "memory \<Rightarrow> string \<Rightarrow> bool" where
  "lengths_wrap mem buf \<longleftrightarrow> 2 ^ pointer_bits mem \<le> 2 ^ 63 + int (address mem) + int (length buf) + 2"

lemma sum_not_past_end:
  assumes "parse_int (drop q buf) q (CHR '':'') (int (digit_val t)) = Inr (Some p, len)" "is_digit t" "q \<le> length buf"
    "\<not> sum_past_end mem buf p (len + j)" "0 < j" "j \<le> 3" "\<not> lengths_wrap mem buf"
  shows "p < length buf \<and> int p + len + j \<le> int (length buf)"
proof -
  have b: "p \<le> length buf" "0 \<le> len" "len < 2 ^ 63"
    using parse_int_bounds [OF assms(1)] digit_val_word [OF assms(2)] assms(3) by auto
  have "sum_past_end mem buf p (len + j) \<longleftrightarrow> int p + (len + j) > int (length buf)"
    by (rule sum_past_end_exact) (use b assms(5-7) in \<open>auto simp: lengths_wrap_def\<close>)
  then show ?thesis using assms(4,5) b by linarith
qed

lemma construct_top_fault:
  assumes "construct_top mem buf t s = Faulty x" "start s \<le> length buf"
  shows "x = Overflow \<or> x = Out_Of_Bounds \<and> lengths_wrap mem buf"
proof (cases "parse_int (drop (start s) buf) (start s) (CHR '':'') (int (digit_val t))")
  case (Inl y)
  then show ?thesis using assms parse_int_fault [OF Inl] by (auto simp: construct_top_def fail_bdecode_def Let_def split: if_splits)
next
  case (Inr r)
  obtain q len where r: "r = (q, len)" by (cases r) auto
  show ?thesis
  proof (cases q)
    case None
    then show ?thesis using assms Inr r by (auto simp: construct_top_def fail_bdecode_def Let_def split: if_splits)
  next
    case (Some p)
    have t: "is_digit t" "\<not> sum_past_end mem buf p (len + 1)" "x = Out_Of_Bounds" "p \<ge> length buf \<or> int p + 1 + len > int (length buf)"
      using assms(1) Inr r Some by (auto simp: construct_top_def fail_bdecode_def Let_def split: if_splits)
    have "lengths_wrap mem buf"
    proof (rule ccontr)
      assume w: "\<not> lengths_wrap mem buf"
      have "p < length buf \<and> int p + len + 1 \<le> int (length buf)"
        by (rule sum_not_past_end [OF _ t(1) assms(2) t(2) _ _ w]) (use Inr r Some in simp_all)
      then show False using t(4) by linarith
    qed
    then show ?thesis using t(3) by simp
  qed
qed

lemma construct_top_return: "construct_top mem buf t s = Return v le \<Longrightarrow> v = - 1 \<and> le = clear_entry le"
  by (auto simp: construct_top_def fail_bdecode_def Let_def clear_entry_def split: if_splits sum.splits option.splits)

lemma dict_append_fault: "dict_append a name le = Inl x \<Longrightarrow> x = Overflow"
  by (auto simp: dict_append_def split: lazy_entry.splits sum.splits option.splits dest: grow_fault)

lemma read_key_fault:
  assumes "read_key mem a buf t s = Faulty x" "start s \<le> length buf"
  shows "x = Overflow \<or> x = Out_Of_Bounds \<and> lengths_wrap mem buf"
proof (cases "parse_int (drop (start s) buf) (start s) (CHR '':'') (int (digit_val t))")
  case (Inl y)
  then show ?thesis using assms parse_int_fault [OF Inl] by (auto simp: read_key_def fail_bdecode_def split: if_splits)
next
  case (Inr r)
  obtain q len where r: "r = (q, len)" by (cases r) auto
  show ?thesis
  proof (cases q)
    case None
    then show ?thesis using assms Inr r by (auto simp: read_key_def fail_bdecode_def split: if_splits)
  next
    case (Some p)
    have t: "is_digit t" "\<not> sum_past_end mem buf p (len + 3)"
      using assms(1) Inr r Some by (auto simp: read_key_def fail_bdecode_def split: if_splits)
    consider (bounds) "x = Out_Of_Bounds" "p \<ge> length buf \<or> int p + 1 + len > int (length buf)"
      | (app) "dict_append a (p + 1) (top_entry s) = Inl x"
      | (value_of) le where "p + 1 + nat len < length buf"
        "construct_top mem buf (buf ! (p + 1 + nat len)) ((update_top (\<lambda>_. le) s)\<lparr>start := p + 1 + nat len + 1, stack_size := stack_size s + 1\<rparr>) = Faulty x"
      using assms(1) Inr r Some t by (auto simp: read_key_def fail_bdecode_def Let_def split: if_splits sum.splits option.splits)
    then show ?thesis
    proof cases
      case bounds
      have "lengths_wrap mem buf"
      proof (rule ccontr)
        assume w: "\<not> lengths_wrap mem buf"
        have "p < length buf \<and> int p + len + 3 \<le> int (length buf)"
          by (rule sum_not_past_end [OF _ t(1) assms(2) t(2) _ _ w]) (use Inr r Some in simp_all)
        then show False using bounds(2) by linarith
      qed
      then show ?thesis using bounds(1) by simp
    next
      case app
      then show ?thesis using dict_append_fault by blast
    next
      case value_of
      then show ?thesis by (intro construct_top_fault [OF value_of(2)]) simp
    qed
  qed
qed

lemma read_key_return: "read_key mem a buf t s = Return v le \<Longrightarrow> v \<in> {- 1, - 2} \<and> le = clear_entry le"
  by (auto simp: read_key_def fail_bdecode_def Let_def clear_entry_def split: if_splits sum.splits option.splits
      dest!: construct_top_return)

lemma lazy_round_fault: "lazy_round mem a limit buf s = Faulty x \<Longrightarrow> x = Overflow \<or> x = Out_Of_Bounds \<and> lengths_wrap mem buf"
  by (auto simp: lazy_round_def fail_bdecode_def Let_def list_append_def split: if_splits sum.splits option.splits lazy_entry.splits
      dest!: grow_fault read_key_fault construct_top_fault)

lemma lazy_round_return: "lazy_round mem a limit buf s = Return v le \<Longrightarrow> v \<in> {- 1, - 2} \<and> le = clear_entry le"
  by (auto simp: lazy_round_def fail_bdecode_def Let_def split: if_splits sum.splits option.splits lazy_entry.splits
      dest!: read_key_return construct_top_return) (simp_all add: clear_entry_def)

lemma lazy_loop_in_buffer:
  assumes "decoder_ok (length buf) limit s" "length buf < 2 ^ 31" "buf \<noteq> []"
  shows "case lazy_loop mem a limit buf s of Inl x \<Rightarrow> x = Overflow \<or> x = Out_Of_Bounds \<and> lengths_wrap mem buf
    | Inr (v, le) \<Rightarrow> v = 0 \<and> in_buffer (length buf) (Suc limit) le \<or> v \<in> {- 1, - 2} \<and> le = clear_entry le"
  using assms
proof (induction mem a limit buf s rule: lazy_loop.induct)
  case (1 mem a limit buf s)
  show ?case
  proof (cases "start s \<ge> length buf \<or> stack_size s = 0")
    case True
    then have "ret s \<noteq> new_lazy_entry" "start s \<le> length buf" using "1.prems" by (auto simp: decoder_ok_def)
    then have "in_buffer (length buf) (Suc limit) (ret s)" using "1.prems"(1) in_buffer_mono by (auto simp: decoder_ok_def)
    then show ?thesis using True by (subst lazy_loop.simps) auto
  next
    case False
    show ?thesis
    proof (cases "lazy_round mem a limit buf s")
      case (Continue s')
      have "decoder_ok (length buf) limit s'"
        by (rule lazy_round_ok [OF "1.prems"(1) Continue]) (use False "1.prems"(2) in auto)
      from "1.IH" [OF _ _ Continue this "1.prems"(2,3)] show ?thesis
        using False Continue by (subst lazy_loop.simps) simp
    next
      case (Return v le)
      then show ?thesis using False lazy_round_return [OF Return] by (subst lazy_loop.simps) simp
    next
      case (Faulty x)
      then show ?thesis using False lazy_round_fault [OF Faulty] by (subst lazy_loop.simps) simp
    qed
  qed
qed



text \<open>With 32-bit pointers the sum with the length 4294967246 wraps around and passes the test, and the decoder leaves
  the buffer; with 64-bit pointers it returns an error.\<close>

lemma length_wraps_pointer:
  "lazy_bdecode \<lparr>pointer_bits = 32, address = 65536\<rparr> (\<lambda>_. True) ''4294967246:x'' new_lazy_entry 100 = Inl Out_Of_Bounds \<and>
   lazy_bdecode \<lparr>pointer_bits = 64, address = 65536\<rparr> (\<lambda>_. True) ''4294967246:x'' new_lazy_entry 100 = Inr (- 1, none_t 0 0)"
  by code_simp

lemma truncated_list_decoded: "lazy_bdecode \<lparr>pointer_bits = 64, address = 65536\<rparr> (\<lambda>_. True) ''li1e'' new_lazy_entry 100 = Inr (0, list_t [int_t 2 1 1 4] 5 0 0)"
  by code_simp

lemma length_overflows: "lazy_bdecode \<lparr>pointer_bits = 64, address = 65536\<rparr> (\<lambda>_. True) ''99999999999999999999:'' new_lazy_entry 100 = Inl Overflow"
  by code_simp

lemma key_with_leading_zero:
  "case lazy_bdecode \<lparr>pointer_bits = 64, address = 65536\<rparr> (\<lambda>_. True) ''d1:a02:xye'' new_lazy_entry 100 of Inr (v, dict_t d c b e) \<Rightarrow>
     v = 0 \<and> map_sum id fst (dict_at ''d1:a02:xye'' d 0) = Inr ''a0'' \<and> dict_find ''d1:a02:xye'' ''a'' d = Inr None | _ \<Rightarrow> False"
  by code_simp

text \<open>A key is found in a dictionary that was decoded exactly if it is in the value that was encoded, with its value.\<close>

lemma string_equal_iff: "string_equal str1 str2 \<longleftrightarrow> str1 = str2"
  by (induction str1 str2 rule: string_equal.induct) (auto split: list.splits)

lemma dict_find_decoded:
  assumes "reads_as buf (Dictionary_t ps) (dict_t d c b e)"
  shows "case map_of ps name of None \<Rightarrow> dict_find buf name d = Inr None
    | Some v \<Rightarrow> \<exists>val. dict_find buf name d = Inr (Some val) \<and> reads_as buf v val"
proof -
  have "list_all2 (\<lambda>(k, v) (name, val). entry_name buf name val = Inr k \<and> reads_as buf v val) ps d" using assms by simp
  then show ?thesis
  proof (induction rule: list_all2_induct)
    case (Cons p ps q d)
    then show ?case by (cases p; cases q) (auto simp: string_equal_iff split: option.splits)
  qed simp
qed

end
