(* ===== verification/Text_Encoding.thy ===== *)
theory Text_Encoding
  imports Bencode "HOL-Library.Word"
begin

text \<open>
  The text encodings of \<open>src/escape_string.cpp\<close> and the parsing of URLs in \<open>src/parse_url.cpp\<close>. A string is the list of its
  characters, a byte that bits are taken from an 8-bit word; an iterator into a string is its offset.
\<close>

unbundle bit_operations_syntax

section \<open>Numbers and characters\<close>

text \<open>\<open>to_string\<close>: the digits are written from the end of an array, of 21 characters with the null character.\<close>

function to_string_loop :: "64 word \<Rightarrow> string \<Rightarrow> string" where
  "to_string_loop un p =
     (let p = digit_char (unat (un mod 10)) # p;
          un = un div 10
      in if un \<noteq> 0 then to_string_loop un p else p)"
  by pat_completeness auto
termination
  by (relation "measure (\<lambda>(un, p). unat un)")
    (auto simp: unat_div word_unat_eq_iff intro!: div_less_dividend)

declare to_string_loop.simps [simp del]

definition to_string :: "int \<Rightarrow> string" where
  "to_string n =
     (let un = word_of_int n;
          un = (if n < 0 then - un else un);
          p = to_string_loop un []
      in if n < 0 then CHR ''-'' # p else p)"

definition is_print :: "char \<Rightarrow> bool" where
  "is_print c \<longleftrightarrow> CHR '' '' \<le> c \<and> c < CHR 0x7F"

text \<open>\<open>strchr\<close> also finds the null character that ends the string.\<close>

definition strchr :: "string \<Rightarrow> char \<Rightarrow> bool" where
  "strchr s c \<longleftrightarrow> c \<in> set s \<or> c = CHR 0x00"

definition is_space :: "char \<Rightarrow> bool" where
  "is_space c \<longleftrightarrow> strchr [CHR '' '', CHR 0x09, CHR 0x0A, CHR 0x0D, CHR 0x0C, CHR 0x0B] c"

definition to_lower :: "char \<Rightarrow> char" where
  "to_lower c = (if CHR ''A'' \<le> c \<and> c \<le> CHR ''Z'' then char_of (of_char c - of_char CHR ''A'' + of_char CHR ''a'' :: nat) else c)"

text \<open>Two strings that end with a null character, which none of them contains.\<close>

fun string_begins_no_case :: "string \<Rightarrow> string \<Rightarrow> bool" where
  "string_begins_no_case [] s2 \<longleftrightarrow> True"
| "string_begins_no_case (c1 # s1) [] \<longleftrightarrow> False"
| "string_begins_no_case (c1 # s1) (c2 # s2) \<longleftrightarrow> to_lower c1 = to_lower c2 \<and> string_begins_no_case s1 s2"

fun string_equal_no_case :: "string \<Rightarrow> string \<Rightarrow> bool" where
  "string_equal_no_case [] [] \<longleftrightarrow> True"
| "string_equal_no_case (c1 # s1) (c2 # s2) \<longleftrightarrow> to_lower c1 = to_lower c2 \<and> string_equal_no_case s1 s2"
| "string_equal_no_case s1 s2 \<longleftrightarrow> False"

section \<open>Percent encoding\<close>

definition hex_to_int :: "char \<Rightarrow> nat option" where
  "hex_to_int c =
     (if CHR ''0'' \<le> c \<and> c \<le> CHR ''9'' then Some (of_char c - of_char CHR ''0'')
      else if CHR ''A'' \<le> c \<and> c \<le> CHR ''F'' then Some (of_char c - of_char CHR ''A'' + 10)
      else if CHR ''a'' \<le> c \<and> c \<le> CHR ''f'' then Some (of_char c - of_char CHR ''a'' + 10)
      else None)"

text \<open>\<open>unescape_string\<close>: the string, and whether the error was set.\<close>

fun unescape_string :: "string \<Rightarrow> string \<times> bool" where
  "unescape_string [] = ([], False)"
| "unescape_string (c # s) =
     (if c = CHR ''+'' then apfst (Cons CHR '' '') (unescape_string s)
      else if c \<noteq> CHR ''%'' then apfst (Cons c) (unescape_string s)
      else case s of
          [] \<Rightarrow> ([], True)
        | h # s1 \<Rightarrow> (case hex_to_int h of None \<Rightarrow> ([], True)
          | Some high \<Rightarrow> (case s1 of
              [] \<Rightarrow> ([], True)
            | l # s2 \<Rightarrow> (case hex_to_int l of None \<Rightarrow> ([], True)
              | Some low \<Rightarrow> apfst (Cons (char_of (high * 16 + low))) (unescape_string s2)))))"

definition unreserved_chars :: string where
  "unreserved_chars = ''%+;?:@=&,$/-_!.~*()ABCDEFGHIJKLMNOPQRSTUVWXYZabcdefghijklmnopqrstuvwxyz0123456789''"

definition hex_chars :: string where
  "hex_chars = ''0123456789abcdef''"

definition hex_pair :: "char \<Rightarrow> string" where
  "hex_pair c = [hex_chars ! drop_bit 4 (of_char c), hex_chars ! (of_char c AND 15)]"

fun escape_string_impl :: "string \<Rightarrow> nat \<Rightarrow> string" where
  "escape_string_impl [] offset = []"
| "escape_string_impl (c # str) offset =
     (if strchr (drop offset unreserved_chars) c \<and> c \<noteq> CHR 0x00 then c # escape_string_impl str offset
      else CHR ''%'' # hex_pair c @ escape_string_impl str offset)"

definition escape_string :: "string \<Rightarrow> string" where
  "escape_string str = escape_string_impl str 11"

definition escape_path :: "string \<Rightarrow> string" where
  "escape_path str = escape_string_impl str 10"

definition need_encoding :: "string \<Rightarrow> bool" where
  "need_encoding str \<longleftrightarrow> (\<exists>c \<in> set str. \<not> strchr unreserved_chars c \<or> c = CHR 0x00)"

definition convert_path_to_posix :: "string \<Rightarrow> string" where
  "convert_path_to_posix path = map (\<lambda>c. if c = CHR 0x5C then CHR ''/'' else c) path"

text \<open>\<open>read_until\<close> of a delimiter: what was read, and the rest after the delimiters.\<close>

definition read_until_delim :: "string \<Rightarrow> char \<Rightarrow> string \<times> string" where
  "read_until_delim str delim =
     (takeWhile (\<lambda>c. c \<noteq> delim) str, dropWhile (\<lambda>c. c = delim) (dropWhile (\<lambda>c. c \<noteq> delim) str))"

section \<open>Hexadecimal\<close>

definition to_hex :: "string \<Rightarrow> string" where
  "to_hex s = concat (map hex_pair s)"

definition is_hex :: "string \<Rightarrow> bool" where
  "is_hex s \<longleftrightarrow> (\<forall>c \<in> set s. hex_to_int c \<noteq> None)"

text \<open>\<open>from_hex\<close> reads two characters in a round; the second one may be one after the end, an argument.
  It returns what was written and whether it succeeded.\<close>

fun from_hex :: "char \<Rightarrow> string \<Rightarrow> string \<times> bool" where
  "from_hex past [] = ([], True)"
| "from_hex past (c # s) =
     (case hex_to_int c of None \<Rightarrow> ([], False)
      | Some t \<Rightarrow> (case hex_to_int (case s of [] \<Rightarrow> past | c2 # s2 \<Rightarrow> c2) of
            None \<Rightarrow> ([char_of (push_bit 4 t)], False)
          | Some t2 \<Rightarrow> apfst (Cons (char_of (push_bit 4 t OR (t2 AND 15)))) (case s of [] \<Rightarrow> ([], True) | c2 # s2 \<Rightarrow> from_hex past s2)))"

section \<open>Base 64 and base 32\<close>

definition base64_table :: string where
  "base64_table = ''ABCDEFGHIJKLMNOPQRSTUVWXYZabcdefghijklmnopqrstuvwxyz0123456789+/''"

definition base32_table :: string where
  "base32_table = ''ABCDEFGHIJKLMNOPQRSTUVWXYZ234567''"

abbreviation byte_of :: "char \<Rightarrow> 8 word" where
  "byte_of c \<equiv> word_of_nat (of_char c)"

text \<open>A chunk of the input, in a buffer that was cleared.\<close>

definition fill :: "nat \<Rightarrow> 8 word list \<Rightarrow> 8 word list" where
  "fill n chunk = take n (chunk @ replicate n 0)"

fun encode64_chunk :: "8 word list \<Rightarrow> 8 word list" where
  "encode64_chunk [i0, i1, i2] =
     [drop_bit 2 (i0 AND 0xfc),
      push_bit 4 (i0 AND 0x03) OR drop_bit 4 (i1 AND 0xf0),
      push_bit 2 (i1 AND 0x0f) OR drop_bit 6 (i2 AND 0xc0),
      i2 AND 0x3f]"
| "encode64_chunk inbuf = []"

function base64encode :: "string \<Rightarrow> string" where
  "base64encode s =
     (if s = [] then []
      else let available_input = min 3 (length s);
               outbuf = encode64_chunk (fill 3 (map byte_of (take available_input s)))
           in map (\<lambda>j. base64_table ! unat (outbuf ! j)) [0..<available_input + 1] @
              replicate (3 - available_input) CHR ''='' @ base64encode (drop available_input s))"
  by pat_completeness auto
termination
  by (relation "measure length") (auto simp: min_def)

fun encode32_chunk :: "8 word list \<Rightarrow> 8 word list" where
  "encode32_chunk [i0, i1, i2, i3, i4] =
     [drop_bit 3 (i0 AND 0xf8),
      push_bit 2 (i0 AND 0x07) OR drop_bit 6 (i1 AND 0xc0),
      drop_bit 1 (i1 AND 0x3e),
      push_bit 4 (i1 AND 0x01) OR drop_bit 4 (i2 AND 0xf0),
      push_bit 1 (i2 AND 0x0f) OR drop_bit 7 (i3 AND 0x80),
      drop_bit 2 (i3 AND 0x7c),
      push_bit 3 (i3 AND 0x03) OR drop_bit 5 (i4 AND 0xe0),
      i4 AND 0x1f]"
| "encode32_chunk inbuf = []"

function base32encode :: "string \<Rightarrow> string" where
  "base32encode s =
     (if s = [] then []
      else let available_input = min 5 (length s);
               outbuf = encode32_chunk (fill 5 (map byte_of (take available_input s)));
               num_out = [0, 2, 4, 5, 7, 8] ! available_input
           in map (\<lambda>j. base32_table ! unat (outbuf ! j)) [0..<num_out] @
              replicate (8 - num_out) CHR ''='' @ base32encode (drop available_input s))"
  by pat_completeness auto
termination
  by (relation "measure length") (auto simp: min_def)

declare base64encode.simps [simp del] base32encode.simps [simp del]

definition to_upper :: "char \<Rightarrow> char" where
  "to_upper c = (if CHR ''a'' \<le> c \<and> c \<le> CHR ''z'' then char_of (of_char c - of_char CHR ''a'' + of_char CHR ''A'' :: nat) else c)"

text \<open>The characters of a chunk of the encoded string, from a position \<open>j\<close> on: the values and where the padding starts;
  \<open>None\<close> for a character that is not in the alphabet.\<close>

fun decode32_chars :: "nat \<Rightarrow> nat \<Rightarrow> string \<Rightarrow> (8 word list \<times> nat) option" where
  "decode32_chars j pad_start [] = Some ([], pad_start)"
| "decode32_chars j pad_start (c # cs) =
     (let c = to_upper c
      in if CHR ''A'' \<le> c \<and> c \<le> CHR ''Z'' then
           map_option (apfst (Cons (word_of_nat (of_char c - of_char CHR ''A'')))) (decode32_chars (j + 1) pad_start cs)
         else if CHR ''2'' \<le> c \<and> c \<le> CHR ''7'' then
           map_option (apfst (Cons (word_of_nat (of_char c - of_char CHR ''2'' + (of_char CHR ''Z'' - of_char CHR ''A'') + 1))))
             (decode32_chars (j + 1) pad_start cs)
         else if c = CHR ''='' then
           map_option (apfst (Cons 0)) (decode32_chars (j + 1) (if pad_start = 0 then j else pad_start) cs)
         else if c = CHR ''1'' then
           map_option (apfst (Cons (word_of_nat (of_char CHR ''I'' - of_char CHR ''A'')))) (decode32_chars (j + 1) pad_start cs)
         else None)"

fun decode32_chunk :: "8 word list \<Rightarrow> 8 word list" where
  "decode32_chunk [i0, i1, i2, i3, i4, i5, i6, i7] =
     [push_bit 3 i0 OR drop_bit 2 i1,
      push_bit 6 (i1 AND 0x3) OR push_bit 1 i2 OR drop_bit 4 (i3 AND 0x10),
      push_bit 4 (i3 AND 0x0f) OR drop_bit 1 (i4 AND 0x1e),
      push_bit 7 (i4 AND 0x01) OR push_bit 2 (i5 AND 0x1f) OR drop_bit 3 (i6 AND 0x18),
      push_bit 5 (i6 AND 0x07) OR i7]"
| "decode32_chunk inbuf = []"

text \<open>\<open>base32decode\<close>, with what was decoded so far: the empty string is returned for a wrong character.\<close>

function base32decode_loop :: "string \<Rightarrow> string \<Rightarrow> string" where
  "base32decode_loop ret s =
     (if s = [] then ret
      else let available_input = min 8 (length s)
           in case decode32_chars 0 (if available_input < 8 then available_input else 0) (take available_input s) of
                None \<Rightarrow> []
              | Some (inbuf, pad_start) \<Rightarrow>
                  let outbuf = decode32_chunk (fill 8 inbuf);
                      num_out = [5, 1, 1, 2, 2, 3, 4, 4, 5] ! pad_start
                  in base32decode_loop (ret @ map (\<lambda>w. char_of (unat w)) (take num_out outbuf)) (drop available_input s))"
  by pat_completeness auto
termination
  by (relation "measure (\<lambda>(ret, s). length s)") (auto simp: min_def)

declare base32decode_loop.simps [simp del]

definition base32decode :: "string \<Rightarrow> string" where
  "base32decode s = base32decode_loop [] s"

section \<open>URLs\<close>

text \<open>\<open>std::find\<close> from an offset on, and the characters between two offsets.\<close>

definition find_from :: "string \<Rightarrow> nat \<Rightarrow> char \<Rightarrow> nat" where
  "find_from s i c = i + length (takeWhile (\<lambda>x. x \<noteq> c) (drop i s))"

definition substr :: "string \<Rightarrow> nat \<Rightarrow> nat \<Rightarrow> string" where
  "substr s i j = take (j - i) (drop i s)"

datatype url_error = unsupported_url_protocol | expected_close_bracket_in_address

text \<open>The components of an URL: the port is \<open>None\<close> if it does not fit into an \<open>int\<close>, for which the result of \<open>atoi\<close> is
  not defined.\<close>

record url_components =
  u_protocol :: string
  u_auth :: string
  u_hostname :: string
  u_port :: "int option"
  u_path :: string
  u_error :: "url_error option"

definition parse_url_components :: "string \<Rightarrow> url_components" where
  "parse_url_components url =
     (let n = length url;
          start = length (takeWhile (\<lambda>c. c = CHR '' '' \<or> c = CHR 0x09) url);
          end_pos = find_from url 0 (CHR '':'');
          protocol = substr url start end_pos;
          port = (if protocol = ''https'' then 443 else 80);
          failed = (\<lambda>auth start e. \<lparr>u_protocol = protocol, u_auth = auth, u_hostname = [], u_port = Some port, u_path = substr url start n, u_error = Some e\<rparr>)
      in if end_pos = n then failed [] start unsupported_url_protocol
         else if end_pos + 1 = n \<or> url ! (end_pos + 1) \<noteq> CHR ''/'' then failed [] start unsupported_url_protocol
         else if end_pos + 2 = n \<or> url ! (end_pos + 2) \<noteq> CHR ''/'' then failed [] start unsupported_url_protocol
         else let start = end_pos + 3;
                  at = find_from url start (CHR ''@'');
                  colon = find_from url start (CHR '':'');
                  end_pos = find_from url start (CHR ''/'');
                  has_auth = (at \<noteq> n \<and> colon \<noteq> n \<and> colon < at \<and> at < end_pos);
                  auth = (if has_auth then substr url start at else []);
                  start = (if has_auth then at + 1 else start);
                  v6 = (start \<noteq> n \<and> url ! start = CHR ''['');
                  bracket = find_from url start (CHR '']'')
              in if v6 \<and> bracket = n then failed auth start expected_close_bracket_in_address
                 else let port_pos = find_from url (if v6 then bracket else start) (CHR '':'')
                      in if port_pos < end_pos then
                           \<lparr>u_protocol = protocol, u_auth = auth, u_hostname = substr url start port_pos,
                            u_port = atoi (substr url (port_pos + 1) end_pos), u_path = substr url end_pos n, u_error = None\<rparr>
                         else
                           \<lparr>u_protocol = protocol, u_auth = auth, u_hostname = substr url start end_pos,
                            u_port = Some port, u_path = substr url end_pos n, u_error = None\<rparr>)"

text \<open>\<open>maybe_url_encode\<close>: the new URL is written into an array of 4 times \<open>NAME_MAX\<close> characters, with a null character.\<close>

definition maybe_url_encode :: "string \<Rightarrow> string option" where
  "maybe_url_encode url =
     (let u = parse_url_components url
      in if u_error u \<noteq> None then Some url
         else if \<not> need_encoding (u_path u) then Some url
         else map_option (\<lambda>port. take (255 * 4 - 1) (u_protocol u @ ''://'' @ u_auth u @ (if u_auth u = [] then [] else ''@'') @ u_hostname u @
           '':'' @ to_string port @ escape_path (u_path u))) (u_port u))"

text \<open>\<open>url_has_argument\<close>: the value of an argument and its offset.\<close>

fun find_string :: "string \<Rightarrow> string \<Rightarrow> nat \<Rightarrow> nat option" where
  "find_string arg [] i = (if arg = [] then Some i else None)"
| "find_string arg (c # s) i = (if take (length arg) (c # s) = arg then Some i else find_string arg s (i + 1))"

definition url_has_argument :: "string \<Rightarrow> string \<Rightarrow> (string \<times> nat) option" where
  "url_has_argument url argument =
     (let i = find_from url 0 (CHR ''?'')
      in if i = length url then None
         else let i = i + 1;
                  argument = argument @ ''='';
                  value = (\<lambda>pos. (substr url pos (find_from url pos (CHR ''&'')), pos))
              in if take (length argument) (drop i url) = argument then Some (value (i + length argument))
                 else let argument = ''&'' @ argument
                      in map_option (\<lambda>i. value (i + length argument)) (find_string argument (drop i url) i))"

end
