(* ===== verification/Text_Claims.thy ===== *)
theory Text_Claims
  imports Text_Encoding
begin

text \<open>
  The round trips of the text encodings and of the parser of URLs. The bits of base 32 are compared one
  by one; a short chunk is encoded with zeros that the padding stands for.
\<close>

section \<open>Base 32\<close>

lemma byte_eqI:
  fixes a b :: "8 word"
  assumes "bit a 0 = bit b 0" "bit a 1 = bit b 1" "bit a 2 = bit b 2" "bit a 3 = bit b 3"
    "bit a 4 = bit b 4" "bit a 5 = bit b 5" "bit a 6 = bit b 6" "bit a 7 = bit b 7"
  shows "a = b"
proof (rule bit_word_eqI)
  fix n assume "n < LENGTH(8)"
  then have "n \<in> {0, 1, 2, 3, 4, 5, 6, 7}" by auto
  then show "bit a n = bit b n" using assms by auto
qed

lemmas byte_bits = bit_or_iff bit_and_iff bit_push_bit_iff bit_drop_bit_eq comp_def

lemma byte_high_bits: "8 \<le> n \<Longrightarrow> bit (w :: 8 word) n = False"
  using bit_imp_le_length [of w n] by auto

lemma byte_less_bits:
  fixes w :: "8 word"
  assumes "take_bit m w = w"
  shows "unat w < 2 ^ m"
proof -
  have "unat w = take_bit m (unat w)" using assms by (metis unsigned_take_bit_eq)
  then show ?thesis by (metis take_bit_nat_less_exp)
qed

lemma encode32_chunk_small: "\<forall>w \<in> set (encode32_chunk [i0, i1, i2, i3, i4]). unat w < 2 ^ 5"
  unfolding encode32_chunk.simps list.set ball_simps
  by (intro conjI TrueI; rule byte_less_bits; rule byte_eqI; (simp only: byte_bits bit_take_bit_iff)?; simp add: byte_high_bits)

lemma decode_encode32: "decode32_chunk (encode32_chunk [i0, i1, i2, i3, i4]) = [i0, i1, i2, i3, i4]"
  unfolding encode32_chunk.simps decode32_chunk.simps list.inject
  by (intro conjI refl; rule byte_eqI; (simp only: byte_bits)?; simp add: byte_high_bits; (simp add: eval_nat_numeral)?)

lemma table32:
  "\<forall>i \<in> set [0..<32]. let c = base32_table ! i in to_upper c = c \<and> c \<noteq> CHR ''='' \<and>
     (if CHR ''A'' \<le> c \<and> c \<le> CHR ''Z'' then of_char c - of_char CHR ''A'' = i
      else CHR ''2'' \<le> c \<and> c \<le> CHR ''7'' \<and> of_char c - of_char CHR ''2'' + (of_char CHR ''Z'' - of_char CHR ''A'') + 1 = i)"
  by code_simp

lemma decode32_char:
  assumes "unat w < 32"
  shows "decode32_chars j pad_start (base32_table ! unat w # cs) = map_option (apfst (Cons w)) (decode32_chars (j + 1) pad_start cs)"
proof -
  have i: "unat w \<in> set [0..<32]" using assms by simp
  have w: "word_of_nat (unat w) = w" by simp
  have d: "26 + word_of_nat n = w" if "26 + n = unat w" for n
    using arg_cong [OF that, of "word_of_nat :: nat \<Rightarrow> 8 word"] by simp
  show ?thesis using bspec [OF table32 i] w d by (auto simp: Let_def split: if_splits)
qed

lemma decode32_pad: "0 < j \<Longrightarrow> decode32_chars j p (replicate m CHR ''='') = Some (replicate m 0, if p = 0 \<and> 0 < m then j else p)"
  by (induction m arbitrary: j p) (auto simp: to_upper_def Let_def)

lemma decode32_encoded:
  assumes "\<forall>w \<in> set ws. unat w < 32" "0 < j + length ws"
  shows "decode32_chars j 0 (map (\<lambda>w. base32_table ! unat w) ws @ replicate m CHR ''='') =
     Some (ws @ replicate m 0, if m = 0 then 0 else j + length ws)"
  using assms
proof (induction ws arbitrary: j)
  case Nil
  then show ?case by (simp add: decode32_pad)
next
  case (Cons w ws)
  then show ?case using decode32_char [of w j 0] Cons.IH [of "j + 1"] by simp
qed

lemma char_of_byte [simp]: "char_of (unat (byte_of c)) = c"
  by (simp add: unsigned_of_nat take_bit_eq_mod)

text \<open>The last quintets of a short chunk are 0, so the padding decodes to them.\<close>

lemma short_chunk:
  fixes i0 i1 i2 i3 :: "8 word"
  shows "encode32_chunk [i0, 0, 0, 0, 0] = take 2 (encode32_chunk [i0, 0, 0, 0, 0]) @ replicate 6 0"
    and "encode32_chunk [i0, i1, 0, 0, 0] = take 4 (encode32_chunk [i0, i1, 0, 0, 0]) @ replicate 4 0"
    and "encode32_chunk [i0, i1, i2, 0, 0] = take 5 (encode32_chunk [i0, i1, i2, 0, 0]) @ replicate 3 0"
    and "encode32_chunk [i0, i1, i2, i3, 0] = take 7 (encode32_chunk [i0, i1, i2, i3, 0]) @ replicate 1 0"
  by (simp_all add: eval_nat_numeral)

definition chunk32 :: "string \<Rightarrow> string" where
  "chunk32 cs =
     (let outbuf = encode32_chunk (fill 5 (map byte_of cs)); num_out = [0, 2, 4, 5, 7, 8] ! length cs
      in map (\<lambda>j. base32_table ! unat (outbuf ! j)) [0..<num_out] @ replicate (8 - num_out) CHR ''='')"

lemma map_nth_take: "n \<le> length xs \<Longrightarrow> map (\<lambda>j. f (xs ! j)) [0..<n] = map f (take n xs)"
  by (rule nth_equalityI) simp_all

lemma decode32_prefix:
  assumes out: "out = encode32_chunk [i0, i1, i2, i3, i4]" "out = take n out @ replicate m 0" and n: "0 < n" "n + m = 8"
  shows "decode32_chars 0 0 (map (\<lambda>j. base32_table ! unat (out ! j)) [0..<n] @ replicate m CHR ''='') =
    Some (out, if m = 0 then 0 else n)"
proof -
  have l: "length out = 8" using out(1) by simp
  have "\<forall>w \<in> set (take n out). unat w < 32" using encode32_chunk_small [of i0 i1 i2 i3 i4] out(1) set_take_subset [of n out] by auto
  then have "decode32_chars 0 0 (map (\<lambda>w. base32_table ! unat w) (take n out) @ replicate m CHR ''='') =
      Some (take n out @ replicate m 0, if m = 0 then 0 else length (take n out))"
    using decode32_encoded [of "take n out" 0 m] n l by simp
  moreover have "n \<le> length out" using n l by simp
  ultimately show ?thesis using out(2) l map_nth_take [of n out "\<lambda>w. base32_table ! unat w"] by simp
qed

definition decodes32 :: "string \<Rightarrow> bool" where
  "decodes32 cs \<longleftrightarrow> length (chunk32 cs) = 8 \<and> (\<exists>inbuf p. decode32_chars 0 0 (chunk32 cs) = Some (inbuf, p) \<and>
    map (\<lambda>w. char_of (unat w)) (take ([5, 1, 1, 2, 2, 3, 4, 4, 5] ! p) (decode32_chunk (fill 8 inbuf))) = cs)"

lemma decodes32I:
  assumes inb: "fill 5 (map byte_of cs) = [i0, i1, i2, i3, i4]" "take (length cs) [i0, i1, i2, i3, i4] = map byte_of cs"
    and out: "encode32_chunk [i0, i1, i2, i3, i4] = take n (encode32_chunk [i0, i1, i2, i3, i4]) @ replicate m 0"
    and n: "0 < n" "n + m = 8" "[0, 2, 4, 5, 7, 8] ! length cs = n" "[5, 1, 1, 2, 2, 3, 4, 4, 5] ! (if m = 0 then 0 else n) = length cs"
  shows "decodes32 cs"
proof -
  let ?out = "encode32_chunk [i0, i1, i2, i3, i4]"
  have c: "chunk32 cs = map (\<lambda>j. base32_table ! unat (?out ! j)) [0..<n] @ replicate m CHR ''=''"
    using inb(1) n by (auto simp: chunk32_def Let_def)
  have "length ?out = 8" by simp
  then have f: "fill 8 ?out = ?out" by (simp add: fill_def)
  have "decode32_chars 0 0 (chunk32 cs) = Some (?out, if m = 0 then 0 else n)" unfolding c by (rule decode32_prefix [OF refl out n(1,2)])
  moreover have "map (\<lambda>w. char_of (unat w)) (take (length cs) (decode32_chunk (fill 8 ?out))) = cs"
    unfolding f decode_encode32 inb(2) by (simp add: map_idI)
  moreover have "length (chunk32 cs) = 8" using n(2) unfolding c by simp
  ultimately show ?thesis using n(4) unfolding decodes32_def by metis
qed

lemma decode_chunk32:
  assumes "0 < length cs" "length cs \<le> 5"
  shows "decodes32 cs"
proof -
  consider a where "cs = [a]" | a b where "cs = [a, b]" | a b c where "cs = [a, b, c]" | a b c d where "cs = [a, b, c, d]"
    | a b c d e where "cs = [a, b, c, d, e]"
    using assms by (auto simp: numeral_eq_Suc le_Suc_eq length_Suc_conv)
  then show ?thesis
  proof cases
    case 1
    show ?thesis by (rule decodes32I [OF _ _ short_chunk(1)]) (simp_all add: 1 fill_def numeral_eq_Suc)
  next
    case 2
    show ?thesis by (rule decodes32I [OF _ _ short_chunk(2)]) (simp_all add: 2 fill_def numeral_eq_Suc)
  next
    case 3
    show ?thesis by (rule decodes32I [OF _ _ short_chunk(3)]) (simp_all add: 3 fill_def numeral_eq_Suc)
  next
    case 4
    show ?thesis by (rule decodes32I [OF _ _ short_chunk(4)]) (simp_all add: 4 fill_def numeral_eq_Suc)
  next
    case 5
    show ?thesis by (rule decodes32I [where n = 8 and m = 0]) (simp_all add: 5 fill_def)
  qed
qed

lemma base32encode_chunk: "s \<noteq> [] \<Longrightarrow> base32encode s = chunk32 (take 5 s) @ base32encode (drop 5 s)"
  by (subst base32encode.simps) (auto simp: chunk32_def Let_def min_def)

lemma base32decode_loop_encode: "base32decode_loop ret (base32encode s) = ret @ s"
proof (induction s arbitrary: ret rule: length_induct)
  case (1 s)
  show ?case
  proof (cases "s = []")
    case True
    then show ?thesis by (simp add: base32encode.simps base32decode_loop.simps)
  next
    case False
    let ?c = "take 5 s"
    have "decodes32 ?c" by (rule decode_chunk32) (use False in auto)
    then obtain inbuf p where d: "length (chunk32 ?c) = 8" "decode32_chars 0 0 (chunk32 ?c) = Some (inbuf, p)"
      "map (\<lambda>w. char_of (unat w)) (take ([5, 1, 1, 2, 2, 3, 4, 4, 5] ! p) (decode32_chunk (fill 8 inbuf))) = ?c"
      unfolding decodes32_def by blast
    have ne: "chunk32 ?c \<noteq> []" using d(1) by auto
    have "base32decode_loop ret (base32encode s) = base32decode_loop (ret @ ?c) (base32encode (drop 5 s))"
      unfolding base32encode_chunk [OF False]
      by (subst base32decode_loop.simps) (use ne d in \<open>simp add: Let_def\<close>)
    also have "\<dots> = (ret @ ?c) @ drop 5 s" using 1 [rule_format, of "drop 5 s" "ret @ ?c"] False by (cases s) auto
    finally show ?thesis by simp
  qed
qed

text \<open>C31. Base 32: what was encoded is decoded, for strings of every length.\<close>

theorem base32_round_trip: "base32decode (base32encode s) = s"
  using base32decode_loop_encode [of "[]" s] by (simp add: base32decode_def)

section \<open>Hexadecimal and percent encoding\<close>

lemma hex_digits: "\<forall>n \<in> set [0..<16]. hex_to_int (hex_chars ! n) = Some n"
  by code_simp

lemma hex_to_int_hex [simp]: "n < 16 \<Longrightarrow> hex_to_int (hex_chars ! n) = Some n"
  using hex_digits by simp

lemma low_nibble: "n AND 15 = n mod (16 :: nat)"
  using take_bit_eq_mask [of 4 n] by (simp add: take_bit_eq_mod mask_eq_exp_minus_1)

lemma char_nibbles:
  "drop_bit 4 (of_char c :: nat) < 16" "(of_char c :: nat) AND 15 < 16"
  "char_of (drop_bit 4 (of_char c) * 16 + (of_char c AND 15) :: nat) = c"
  using nat_of_char_less_256 [of c]
  by (auto simp: low_nibble drop_bit_eq_div less_mult_imp_div_less)

lemma push_or_nibble: "push_bit 4 (drop_bit 4 n) OR (n AND 15) = (n :: nat)"
proof -
  have m: "15 = (mask 4 :: nat)" by (simp add: mask_eq_exp_minus_1)
  show ?thesis unfolding m by (rule bit_eqI) (auto simp: bit_simps not_le)
qed

lemma from_hex_pair: "from_hex past (hex_pair c @ s) = apfst (Cons c) (from_hex past s)"
proof -
  have "char_of (push_bit 4 (drop_bit 4 (of_char c)) OR ((of_char c AND 15) AND 15) :: nat) = c"
    using push_or_nibble [of "of_char c"] by (simp add: and.assoc)
  then show ?thesis using char_nibbles [of c] by (simp add: hex_pair_def del: and.assoc)
qed

text \<open>Hexadecimal: what was written is read, whatever is behind it.\<close>

theorem hex_round_trip: "from_hex past (to_hex s) = (s, True)"
  by (induction s) (simp_all add: to_hex_def from_hex_pair)

lemma unescape_pair: "unescape_string (CHR ''%'' # hex_pair c @ s) = apfst (Cons c) (unescape_string s)"
  using char_nibbles by (simp add: hex_pair_def)

lemma unreserved: "10 \<le> offset \<Longrightarrow> c \<in> set (drop offset unreserved_chars) \<Longrightarrow> c \<noteq> CHR ''%'' \<and> c \<noteq> CHR ''+''"
proof -
  assume "10 \<le> offset" "c \<in> set (drop offset unreserved_chars)"
  then have "c \<in> set (drop 10 unreserved_chars)" using set_drop_subset_set_drop [of 10 offset unreserved_chars] by auto
  then show ?thesis by (auto simp: unreserved_chars_def)
qed

text \<open>Percent encoding: a string that was escaped, as an argument or as a path, is unescaped to itself without an error.\<close>

theorem escape_round_trip:
  "unescape_string (escape_string s) = (s, False) \<and> unescape_string (escape_path s) = (s, False)"
proof -
  have "unescape_string (escape_string_impl s offset) = (s, False)" if "10 \<le> offset" for offset
    using that unreserved by (induction s) (auto simp: unescape_pair strchr_def simp del: unescape_string.simps(2), auto)
  then show ?thesis by (simp add: escape_string_def escape_path_def)
qed

section \<open>Decimal numbers\<close>

lemma digit_char_0: "digit_char 0 = CHR ''0''"
  by code_simp

lemma to_string_loop: "to_string_loop un p = decimal (unat un) @ p"
proof (induction un p rule: to_string_loop.induct)
  case (1 un p)
  have d: "unat (un div 10) = unat un div 10" "unat (un mod 10) = unat un mod 10" by (simp_all add: unat_div unat_mod)
  show ?case
  proof (cases "un div 10 = 0")
    case True
    then have "unat un < 10" using d(1) by (metis div_eq_0_iff unat_0 zero_neq_numeral)
    then show ?thesis using True d by (subst to_string_loop.simps) (simp add: Let_def decimal_def digits.simps [of "unat un"] digits.simps [of 0] digit_char_0)
  next
    case False
    then have "unat un \<ge> 10" using d(1) by (metis div_less not_le unat_eq_zero)
    then show ?thesis using False d 1 by (subst to_string_loop.simps) (simp add: Let_def decimal_def digits.simps [of "unat un"])
  qed
qed

lemma length_digits: "v < 10 ^ n \<Longrightarrow> length (digits v) \<le> n"
proof (induction n arbitrary: v)
  case (Suc n)
  then show ?case by (cases "v = 0") (simp_all add: digits.simps [of v] less_mult_imp_div_less mult.commute)
qed simp

text \<open>C33. A 64-bit number is printed in decimal, the least one too, and fits into the array of 21 characters with its null character.\<close>

theorem to_string_decimal:
  assumes "- (2 ^ 63) \<le> n" "n < 2 ^ 63"
  shows "to_string n = (if n < 0 then CHR ''-'' # decimal (nat \<bar>n\<bar>) else decimal (nat \<bar>n\<bar>)) \<and> length (to_string n) + 1 \<le> 21"
proof -
  have w: "unat (word_of_int m :: 64 word) = nat m" if "0 \<le> m" "m < 2 ^ 64" for m
    using that by (simp add: unat_eq_nat_uint uint_word_of_int)
  have u: "unat (if n < 0 then - word_of_int n else word_of_int n :: 64 word) = nat \<bar>n\<bar>"
    using w [of n] w [of "- n"] assms by (simp flip: wi_hom_neg)
  have "nat \<bar>n\<bar> < 10 ^ 19" using assms by simp
  then have "length (decimal (nat \<bar>n\<bar>)) \<le> 19" using length_digits [of "nat \<bar>n\<bar>" 19] by (simp add: decimal_def)
  then show ?thesis using u by (cases "n < 0") (simp_all add: to_string_def to_string_loop Let_def)
qed

theorem to_string_decimal_witness: "to_string (- (2 ^ 63)) = (if - (2 ^ 63) < (0 :: int) then CHR ''-'' # decimal (nat \<bar>- (2 ^ 63)\<bar>) else decimal (nat \<bar>- (2 ^ 63)\<bar>)) \<and>
    length (to_string (- (2 ^ 63))) + 1 \<le> 21"
  by (rule to_string_decimal) simp_all

section \<open>Parsing an URL\<close>

lemma takeWhile_other: "c \<notin> set xs \<Longrightarrow> takeWhile (\<lambda>x. x \<noteq> c) xs = xs"
  by (induction xs) auto

lemma find_from_end:
  "s = pre @ xs @ post \<Longrightarrow> c \<notin> set xs \<Longrightarrow> post = [] \<or> hd post = c \<Longrightarrow> find_from s (length pre) c = length pre + length xs"
  by (cases post) (auto simp: find_from_def takeWhile_append takeWhile_other)

lemma find_from_ge: "s = pre @ xs @ post \<Longrightarrow> c \<notin> set xs \<Longrightarrow> length pre + length xs \<le> find_from s (length pre) c"
  by (auto simp: find_from_def takeWhile_append)

lemma find_from_less:
  assumes "s = pre @ xs @ post" "c \<in> set xs"
  shows "find_from s (length pre) c < length pre + length xs"
proof -
  obtain ys zs where "xs = ys @ c # zs" "c \<notin> set ys" using split_list_first [OF assms(2)] by blast
  then show ?thesis using find_from_end [of s pre ys "c # zs @ post" c] assms(1) by simp
qed

lemma substr_append: "s = pre @ xs @ post \<Longrightarrow> j = length pre + length xs \<Longrightarrow> substr s (length pre) j = xs"
  by (simp add: substr_def)

definition host_ok :: "string \<Rightarrow> bool" where
  "host_ok host \<longleftrightarrow> CHR ''/'' \<notin> set host \<and> CHR ''@'' \<notin> set host \<and>
     (CHR '':'' \<notin> set host \<and> (host = [] \<or> hd host \<noteq> CHR ''['') \<or>
      (\<exists>h. host = CHR ''['' # h @ [CHR '']''] \<and> CHR '']'' \<notin> set h))"

text \<open>A user and a password are there if there are a colon and an at sign before the path; the colon before the port is looked
  for after the brackets of an address.\<close>

lemma authority_at:
  fixes url base auth rest path :: string
  assumes url: "url = base @ (if auth = [] then [] else auth @ ''@'') @ rest @ path"
    and auth: "auth = [] \<or> CHR '':'' \<in> set auth" "CHR ''@'' \<notin> set auth" and rest: "CHR ''@'' \<notin> set rest"
    and stop: "stop = length (base @ (if auth = [] then [] else auth @ ''@'') @ rest)"
  shows "auth \<noteq> [] \<Longrightarrow> find_from url (length base) (CHR ''@'') = length base + length auth"
    and "(find_from url (length base) (CHR ''@'') \<noteq> length url \<and> find_from url (length base) (CHR '':'') \<noteq> length url \<and>
      find_from url (length base) (CHR '':'') < find_from url (length base) (CHR ''@'') \<and>
      find_from url (length base) (CHR ''@'') < stop) = (auth \<noteq> [])"
proof -
  show at: "find_from url (length base) (CHR ''@'') = length base + length auth" if "auth \<noteq> []"
    using find_from_end [of url base auth "CHR ''@'' # rest @ path" "CHR ''@''"] auth(2) that by (simp add: url)
  show "(find_from url (length base) (CHR ''@'') \<noteq> length url \<and> find_from url (length base) (CHR '':'') \<noteq> length url \<and>
      find_from url (length base) (CHR '':'') < find_from url (length base) (CHR ''@'') \<and>
      find_from url (length base) (CHR ''@'') < stop) = (auth \<noteq> [])"
  proof (cases "auth = []")
    case True
    then have "stop \<le> find_from url (length base) (CHR ''@'')"
      using find_from_ge [of url base rest path "CHR ''@''"] rest by (simp add: url stop)
    then show ?thesis using True by auto
  next
    case False
    have "find_from url (length base) (CHR '':'') < length base + length auth"
      using find_from_less [of url base auth "CHR ''@'' # rest @ path" "CHR '':''"] auth(1) False by (simp add: url)
    then show ?thesis using at [OF False] False by (simp add: url stop)
  qed
qed

lemma colon_of_port:
  fixes url pre post :: string
  assumes url: "url = pre @ host @ CHR '':'' # post" and host: "host_ok host"
  shows "find_from url (if host \<noteq> [] \<and> hd host = CHR ''['' then find_from url (length pre) (CHR '']'') else length pre) (CHR '':'') = length (pre @ host)"
    and "host \<noteq> [] \<Longrightarrow> hd host = CHR ''['' \<Longrightarrow> find_from url (length pre) (CHR '']'') \<noteq> length url"
proof -
  have b: "\<exists>h. host = CHR ''['' # h @ [CHR '']''] \<and> find_from url (length pre) (CHR '']'') = length (pre @ CHR ''['' # h)"
    if bracket: "host \<noteq> []" "hd host = CHR ''[''"
  proof -
    obtain h where h: "host = CHR ''['' # h @ [CHR '']'']" "CHR '']'' \<notin> set h" using host bracket by (auto simp: host_ok_def)
    then show ?thesis using find_from_end [of url pre "CHR ''['' # h" "CHR '']'' # CHR '':'' # post"] by (simp add: url)
  qed
  show "find_from url (length pre) (CHR '']'') \<noteq> length url" if "host \<noteq> []" "hd host = CHR ''[''"
    using b [OF that] by (auto simp: url)
  show "find_from url (if host \<noteq> [] \<and> hd host = CHR ''['' then find_from url (length pre) (CHR '']'') else length pre) (CHR '':'') = length (pre @ host)"
  proof (cases "host \<noteq> [] \<and> hd host = CHR ''[''")
    case True
    then obtain h where h: "host = CHR ''['' # h @ [CHR '']'']" "find_from url (length pre) (CHR '']'') = length (pre @ CHR ''['' # h)" using b by blast
    then show ?thesis using True find_from_end [of url "pre @ CHR ''['' # h" "[CHR '']'']" "CHR '':'' # post"] by (simp add: url)
  next
    case False
    then show ?thesis using find_from_end [of url pre host "CHR '':'' # post"] host by (auto simp: url host_ok_def)
  qed
qed

lemma decimal_delimiters: "CHR '':'' \<notin> set (decimal port)" "CHR ''/'' \<notin> set (decimal port)" "CHR ''@'' \<notin> set (decimal port)"
  using decimal_digits(1) [of "CHR '':''" port] decimal_digits(1) [of "CHR ''/''" port] decimal_digits(1) [of "CHR ''@''" port]
  by (auto simp: is_digit_def less_eq_char_def)

text \<open>C32. An URL that is put together from its components is parsed into them: with and without a user and a password, for
  a host name and for an IPv6 address in brackets.\<close>

theorem parse_url_round_trip:
  assumes protocol: "CHR '':'' \<notin> set protocol" "protocol = [] \<or> hd protocol \<noteq> CHR '' '' \<and> hd protocol \<noteq> CHR 0x09"
    and auth: "auth = [] \<or> CHR '':'' \<in> set auth" "CHR ''@'' \<notin> set auth" "CHR ''/'' \<notin> set auth"
    and host: "host_ok host" and path: "path = [] \<or> hd path = CHR ''/''" and port: "port < 2 ^ 31"
  shows "parse_url_components (protocol @ ''://'' @ (if auth = [] then [] else auth @ ''@'') @ host @ '':'' @ decimal port @ path) =
    \<lparr>u_protocol = protocol, u_auth = auth, u_hostname = host, u_port = Some (int port), u_path = path, u_error = None\<rparr>"
proof -
  define A where "A = (if auth = [] then [] else auth @ ''@'')"
  define base where "base = protocol @ ''://''"
  define url where "url = base @ A @ host @ CHR '':'' # decimal port @ path"
  let ?n = "length url" let ?start = "length base" let ?start' = "length (base @ A)"
  let ?stop = "length (base @ A @ host @ CHR '':'' # decimal port)"
  note dec = decimal_delimiters [of port]
  have s0: "length (takeWhile (\<lambda>c. c = CHR '' '' \<or> c = CHR 0x09) url) = 0"
    using protocol(2) by (cases protocol) (auto simp: url_def base_def)
  have e0: "find_from url 0 (CHR '':'') = length protocol"
    using find_from_end [of url "[]" protocol "''://'' @ A @ host @ CHR '':'' # decimal port @ path"] protocol(1) by (simp add: url_def base_def)
  have p0: "substr url 0 (length protocol) = protocol" by (simp add: substr_def url_def base_def)
  have sl: "url ! (length protocol + 1) = CHR ''/''" "url ! (length protocol + 2) = CHR ''/''" "?start = length protocol + 3" "?start < ?n"
    by (simp_all add: url_def base_def nth_append)
  have e1: "find_from url ?start (CHR ''/'') = ?stop"
    using find_from_end [of url base "A @ host @ CHR '':'' # decimal port" path "CHR ''/''"] auth(3) host path dec
    by (auto simp: url_def A_def host_ok_def)
  have rest: "CHR ''@'' \<notin> set (host @ CHR '':'' # decimal port)" using host dec by (auto simp: host_ok_def)
  have ua: "url = base @ (if auth = [] then [] else auth @ ''@'') @ (host @ CHR '':'' # decimal port) @ path"
    "?stop = length (base @ (if auth = [] then [] else auth @ ''@'') @ host @ CHR '':'' # decimal port)" by (simp_all add: url_def A_def)
  note ha = authority_at [OF ua(1) auth(1,2) rest ua(2)]
  have up: "url = (base @ A) @ host @ CHR '':'' # decimal port @ path" by (simp add: url_def)
  note pp = colon_of_port [OF up host, unfolded append_assoc]
  have au: "(if auth \<noteq> [] then substr url ?start (?start + length auth) else []) = auth" "(if auth \<noteq> [] then ?start + length auth + 1 else ?start) = ?start'"
    by (simp_all add: substr_def url_def A_def)
  have hd: "(?start' \<noteq> ?n \<and> url ! ?start' = CHR ''['') = (host \<noteq> [] \<and> hd host = CHR ''['')"
    by (cases host) (simp_all add: url_def nth_append)
  have fin: "substr url ?start' (length (base @ A @ host)) = host" "substr url (length (base @ A @ host) + 1) ?stop = decimal port" "substr url ?stop ?n = path"
    by (simp_all add: substr_def url_def)
  have at: "atoi (decimal port) = Some (int port)" using port by (intro atoi_decimal) simp
  have ne: "length protocol \<noteq> ?n" "length protocol + 1 \<noteq> ?n" "length protocol + 2 \<noteq> ?n" using sl(3,4) by simp_all
  have le: "length (base @ A @ host) < ?stop" by simp
  have sa: "(if auth \<noteq> [] then find_from url ?start (CHR ''@'') + 1 else ?start) = ?start'" "(if auth \<noteq> [] then substr url ?start (find_from url ?start (CHR ''@'')) else []) = auth"
    using ha(1) au by auto
  have "parse_url_components url = \<lparr>u_protocol = protocol, u_auth = auth, u_hostname = host, u_port = Some (int port), u_path = path, u_error = None\<rparr>"
    unfolding parse_url_components_def Let_def s0 e0 p0 sl(3) [symmetric] e1 ha(2) sa hd
    using sl(1,2) ne le pp fin at by auto
  then show ?thesis by (simp add: url_def base_def A_def)
qed

theorem parse_url_round_trip_witness:
  "parse_url_components (''http'' @ ''://'' @ (if ''me:pw'' = [] then [] else ''me:pw'' @ ''@'') @ ''[::1]'' @ '':'' @ decimal 8080 @ ''/a'') =
    \<lparr>u_protocol = ''http'', u_auth = ''me:pw'', u_hostname = ''[::1]'', u_port = Some (int 8080), u_path = ''/a'', u_error = None\<rparr>"
  by (rule parse_url_round_trip) (simp_all add: host_ok_def)

lemma user_without_password: "u_hostname (parse_url_components ''http://user@host/'') = ''user@host''"
  by code_simp

lemma encoded_url_cut:
  assumes "u_error (parse_url_components url) = None" "need_encoding (u_path (parse_url_components url))" "maybe_url_encode url = Some url'"
  shows "length url' \<le> 1019"
  using assms by (auto simp: maybe_url_encode_def Let_def)

section \<open>Other functions\<close>

lemma string_equal_no_case: "string_equal_no_case s1 s2 \<longleftrightarrow> map to_lower s1 = map to_lower s2"
  by (induction s1 s2 rule: string_equal_no_case.induct) auto

lemma string_begins_no_case: "string_begins_no_case s1 s2 \<longleftrightarrow> (\<exists>s. map to_lower s2 = map to_lower s1 @ s)"
  by (induction s1 s2 rule: string_begins_no_case.induct) auto

lemma length_base64encode: "length (base64encode s) = 4 * ((length s + 2) div 3)"
proof (induction s rule: base64encode.induct)
  case (1 s)
  show ?case
  proof (cases "s = []")
    case False
    then have "length (base64encode (drop (min 3 (length s)) s)) = 4 * ((length s - min 3 (length s) + 2) div 3)"
      using 1 by (simp add: Let_def)
    then show ?thesis using False by (subst base64encode.simps) (auto simp: Let_def min_def div_if)
  qed (simp add: base64encode.simps)
qed

lemma null_is_space: "is_space CHR 0x00"
  by (simp add: is_space_def strchr_def)

lemma from_hex_past_end: "from_hex CHR ''b'' ''a'' = ([CHR 0xAB], True)"
  by code_simp

end
