(* ===== verification/Magnet_Uri.thy ===== *)
theory Magnet_Uri
  imports Text_Claims
begin

text \<open>
  Magnet links (\<open>src/magnet_uri.cpp\<close>): the link of a torrent, and what is read from a link. An info hash is its 20
  bytes. The string that is written is in an array of 1024 characters.
\<close>

section \<open>Writing a link\<close>

text \<open>\<open>snprintf\<close> behind the characters that were printed so far, as the code counts them: the size it passes
  is what is left, which wraps around when more was printed than fits.\<close>

definition print_field :: "string \<Rightarrow> string \<times> nat \<Rightarrow> fault + string \<times> nat" where
  "print_field s r =
     (let (ret, num_chars) = r
      in if num_chars > 1024 then Inl Out_Of_Bounds
         else Inr (if num_chars = 1024 then ret else take 1023 (ret @ s), num_chars + length s))"

fun print_fields :: "string list \<Rightarrow> string \<times> nat \<Rightarrow> fault + string" where
  "print_fields [] r = Inr (fst r)"
| "print_fields (s # ss) r = (case print_field s r of Inl x \<Rightarrow> Inl x | Inr r \<Rightarrow> print_fields ss r)"

definition make_magnet_uri :: "string \<Rightarrow> string \<Rightarrow> string list \<Rightarrow> fault + string" where
  "make_magnet_uri info_hash name trackers =
     print_fields
       ([''magnet:?xt=urn:btih:'' @ base32encode info_hash] @
        (if name = [] then [] else [''&dn='' @ escape_string name]) @
        (case trackers of [] \<Rightarrow> [] | url # urls \<Rightarrow> [''&tr='' @ escape_string url])) ([], 0)"

text \<open>The link of a torrent in the session: the tracker is the current one or the first of its list.\<close>

definition make_magnet_uri_handle :: "string \<Rightarrow> string \<Rightarrow> string \<Rightarrow> string list \<Rightarrow> fault + string" where
  "make_magnet_uri_handle info_hash name current_tracker trackers =
     (let tracker = (if current_tracker \<noteq> [] then current_tracker else case trackers of [] \<Rightarrow> [] | url # urls \<Rightarrow> url)
      in make_magnet_uri info_hash name (if tracker = [] then [] else [tracker]))"

section \<open>Reading a link\<close>

text \<open>What the session is called with: the parameters of the torrent, the nodes that are added to the DHT, and the
  trackers that are added with their tiers.\<close>

record magnet_params =
  mp_info_hash :: string
  mp_name :: string
  mp_tracker :: string
  mp_nodes :: "(string \<times> int) list"
  mp_trackers :: "(string \<times> nat) list"

definition cstr :: "string \<Rightarrow> string" where
  "cstr s = takeWhile (\<lambda>c. c \<noteq> CHR 0x00) s"

definition find_at :: "string \<Rightarrow> string \<Rightarrow> nat \<Rightarrow> nat option" where
  "find_at s arg i = find_string arg (drop i s) i"

text \<open>\<open>find_last_of\<close>, and a node of the DHT.\<close>

definition find_last_of :: "string \<Rightarrow> char \<Rightarrow> nat option" where
  "find_last_of s c = (if c \<in> set s then Some (length s - 1 - length (takeWhile (\<lambda>x. x \<noteq> c) (rev s))) else None)"

definition dht_node :: "string \<Rightarrow> fault + (string \<times> int) list" where
  "dht_node node = (case find_last_of node (CHR '':'') of None \<Rightarrow> Inr []
     | Some divider \<Rightarrow> (case atoi (drop (divider + 1) node) of None \<Rightarrow> Inl Overflow
        | Some port \<Rightarrow> Inr (if port \<noteq> 0 then [(take divider node, port)] else [])))"

lemma find_string_ge: "find_string arg s i = Some j \<Longrightarrow> i \<le> j \<and> j + length arg \<le> i + length s"
proof (induction arg s i rule: find_string.induct)
  case (2 arg c s i)
  then show ?case by (auto split: if_splits dest: arg_cong [where f = length])
qed (auto split: if_splits)

lemma find_at_ge: "find_at s arg i = Some j \<Longrightarrow> arg \<noteq> [] \<Longrightarrow> i \<le> j \<and> j + length arg \<le> length s"
  unfolding find_at_def by (drule find_string_ge) (cases arg; auto)

text \<open>The loops over the other nodes and trackers.\<close>

function node_loop :: "string \<Rightarrow> string \<Rightarrow> nat \<Rightarrow> fault + (string \<times> int) list" where
  "node_loop uri node node_pos =
     (if node = [] then Inr []
      else case dht_node node of Inl x \<Rightarrow> Inl x
        | Inr ns \<Rightarrow> (case find_at uri ''&dht='' node_pos of
            None \<Rightarrow> Inr ns
          | Some p \<Rightarrow> (case node_loop uri (substr uri (p + 5) (find_from uri (p + 5) (CHR ''&''))) (p + 5) of
               Inl x \<Rightarrow> Inl x | Inr ms \<Rightarrow> Inr (ns @ ms))))"
  by pat_completeness auto
termination
  by (relation "measure (\<lambda>(uri, node, pos). length uri - pos)") (auto dest: find_at_ge)

function tracker_loop :: "string \<Rightarrow> nat \<Rightarrow> nat \<Rightarrow> (string \<times> nat) list" where
  "tracker_loop uri pos tier =
     (case find_at uri ''&tr='' pos of
        None \<Rightarrow> []
      | Some p \<Rightarrow>
          let (url, ec) = unescape_string (substr uri (p + 4) (find_from uri (p + 4) (CHR ''&'')))
          in if ec then tracker_loop uri (p + 4) tier else (url, tier) # tracker_loop uri (p + 4) (tier + 1))"
  by pat_completeness auto
termination
  by (relation "measure (\<lambda>(uri, pos, tier). length uri - pos)") (auto dest: find_at_ge)

declare node_loop.simps [simp del] tracker_loop.simps [simp del]

text \<open>The hash: of 40 hexadecimal characters or in base 32. A hash that is too short leaves the rest 0, and
  whether the characters were hexadecimal is not looked at.\<close>

definition hash_bytes :: "string \<Rightarrow> string" where
  "hash_bytes s = take 20 s @ replicate (20 - length s) CHR 0x00"

definition link_hash :: "string \<Rightarrow> string" where
  "link_hash btih =
     (if length btih = 40 + 9 then hash_bytes (fst (from_hex CHR 0x00 (drop 9 btih)))
      else hash_bytes (base32decode (drop 9 btih)))"

text \<open>\<open>add_magnet_uri\<close>, up to the calls of the session: \<open>None\<close> is the error that there is no info hash.\<close>

definition add_magnet_uri :: "string \<Rightarrow> fault + magnet_params option" where
  "add_magnet_uri uri =
     (let name = (case url_has_argument uri ''dn'' of None \<Rightarrow> [] | Some (s, _) \<Rightarrow> fst (unescape_string (cstr s)));
          tr = url_has_argument uri ''tr'';
          tracker = (case tr of None \<Rightarrow> [] | Some (s, _) \<Rightarrow> fst (unescape_string (cstr s)))
      in case url_has_argument uri ''xt'' of None \<Rightarrow> Inr None
         | Some (btih, _) \<Rightarrow>
             if take 9 btih \<noteq> ''urn:btih:'' then Inr None
             else case (case url_has_argument uri ''dht'' of None \<Rightarrow> Inr [] | Some (node, p) \<Rightarrow> node_loop uri node p) of
                 Inl x \<Rightarrow> Inl x
               | Inr nodes \<Rightarrow> Inr (Some \<lparr>mp_info_hash = link_hash btih, mp_name = cstr name, mp_tracker = cstr tracker,
                   mp_nodes = nodes, mp_trackers = (case tr of None \<Rightarrow> [] | Some (_, pos) \<Rightarrow> tracker_loop uri pos 1)\<rparr>))"

end
