(* ===== verification/Magnet_Claims.thy ===== *)
theory Magnet_Claims
  imports Magnet_Uri
begin

text \<open>
  Links and their arguments: an URL with arguments is a list of keys and values, in which
  \<open>url_has_argument\<close> is a lookup; the round trip of a link, and what goes wrong without the conditions on it.
\<close>

section \<open>The arguments of an URL\<close>

text \<open>An argument as it follows the others, and the conditions that its separators are not part of it.\<close>

definition arg :: "string \<times> string \<Rightarrow> string" where
  "arg p = CHR ''&'' # fst p @ CHR ''='' # snd p"

definition arg_ok :: "string \<times> string \<Rightarrow> bool" where
  "arg_ok p \<longleftrightarrow> CHR ''&'' \<notin> set (fst p) \<and> CHR ''='' \<notin> set (fst p) \<and> CHR ''&'' \<notin> set (snd p)"

definition url_with :: "string \<Rightarrow> (string \<times> string) list \<Rightarrow> string" where
  "url_with base args = base @ CHR ''?'' # tl (concat (map arg args))"

lemma find_string_skip: "c \<notin> set s \<Longrightarrow> find_string (c # a) (s @ t) i = find_string (c # a) t (i + length s)"
  by (induction s arbitrary: i) auto

lemma key_prefix:
  "CHR ''='' \<notin> set k \<Longrightarrow> CHR ''='' \<notin> set k' \<Longrightarrow> take (length k + 1) (k' @ CHR ''='' # r) = k @ [CHR ''=''] \<longleftrightarrow> k' = k"
proof (induction k arbitrary: k')
  case Nil
  then show ?case by (cases k') auto
next
  case (Cons x k)
  then show ?case by (cases k') auto
qed

lemma find_arg:
  assumes "\<forall>p \<in> set args. arg_ok p" "CHR ''='' \<notin> set k" "k \<notin> fst ` set pre" "args = pre @ post"
  shows "find_string (CHR ''&'' # k @ ''='') (concat (map arg args)) i =
    find_string (CHR ''&'' # k @ ''='') (concat (map arg post)) (i + length (concat (map arg pre)))"
  using assms
proof (induction pre arbitrary: args i)
  case (Cons p pre)
  obtain k' v where p: "p = (k', v)" by (cases p) auto
  have ok: "arg_ok (k', v)" using Cons.prems p by simp
  let ?c = "CHR ''&'' # k @ ''=''" let ?r = "concat (map arg (pre @ post))"
  have "take (length ?c) (arg p @ ?r) \<noteq> ?c"
    using key_prefix [of k k' "v @ ?r"] ok Cons.prems(2,3) p by (auto simp: arg_def arg_ok_def)
  then have "find_string ?c (concat (map arg args)) i = find_string ?c ((k' @ CHR ''='' # v) @ ?r) (i + 1)"
    using Cons.prems(4) p by (simp add: arg_def)
  also have "\<dots> = find_string ?c ?r (i + 1 + length (k' @ CHR ''='' # v))"
    by (rule find_string_skip) (use ok in \<open>auto simp: arg_ok_def\<close>)
  also have "\<dots> = find_string ?c (concat (map arg post)) (i + 1 + length (k' @ CHR ''='' # v) + length (concat (map arg pre)))"
    by (rule Cons.IH) (use Cons.prems in auto)
  finally show ?case using p by (simp add: arg_def [of "(k', v)"] add.assoc)
qed simp

lemma find_arg_None:
  assumes "\<forall>p \<in> set args. arg_ok p" "CHR ''='' \<notin> set k" "k \<notin> fst ` set args"
  shows "find_string (CHR ''&'' # k @ ''='') (concat (map arg args)) i = None"
  using find_arg [OF assms, of "[]" i] by simp

lemma find_arg_Some:
  assumes "\<forall>p \<in> set args. arg_ok p" "args = pre @ (k, v) # post" "k \<notin> fst ` set pre"
  shows "find_string (CHR ''&'' # k @ ''='') (concat (map arg args)) i = Some (i + length (concat (map arg pre)))"
proof -
  have "CHR ''='' \<notin> set k" using assms by (auto simp: arg_ok_def)
  from find_arg [OF assms(1) this assms(3,2), of i] show ?thesis by (simp add: arg_def)
qed

lemma substr_find: "substr s i (find_from s i c) = takeWhile (\<lambda>x. x \<noteq> c) (drop i s)"
  by (simp add: substr_def find_from_def takeWhile_eq_take [symmetric])

lemma url_with:
  assumes "CHR ''?'' \<notin> set base"
  shows "find_from (url_with base args) 0 (CHR ''?'') = length base" "length (url_with base args) \<noteq> length base"
    "drop (length base + 1) (url_with base args) = tl (concat (map arg args))"
    "args \<noteq> [] \<Longrightarrow> 0 < n \<Longrightarrow> drop (length base + n) (url_with base args) = drop n (concat (map arg args))"
proof -
  show "find_from (url_with base args) 0 (CHR ''?'') = length base"
    using find_from_end [of "url_with base args" "[]" base "CHR ''?'' # tl (concat (map arg args))"] assms by (simp add: url_with_def)
  show "drop (length base + n) (url_with base args) = drop n (concat (map arg args))" if "args \<noteq> []" "0 < n"
    using that by (cases n; cases args) (auto simp: url_with_def arg_def)
qed (simp_all add: url_with_def)

lemma url_has_argument_None:
  assumes ok: "\<forall>p \<in> set args. arg_ok p" and k: "CHR ''='' \<notin> set k" and b: "CHR ''?'' \<notin> set base" and n: "k \<notin> fst ` set args"
  shows "url_has_argument (url_with base args) k = None"
proof -
  let ?Q = "concat (map arg args)" let ?c = "CHR ''&'' # k @ ''=''"
  have f: "find_string ?c ?Q i = None" for i by (rule find_arg_None [OF ok k n])
  have h: "take (length k + 1) (tl ?Q) \<noteq> k @ ''='' \<and> find_string ?c (tl ?Q) (i + 1) = None" for i
  proof (cases args)
    case (Cons p ps)
    then have Q: "?Q = CHR ''&'' # tl ?Q" by (simp add: arg_def)
    have head: "take (length ?c) ?Q = ?c \<longleftrightarrow> take (length k + 1) (tl ?Q) = k @ ''=''" by (subst (1) Q) simp
    have "take (length ?c) ?Q \<noteq> ?c" using f [of i] Q find_string.simps(2) option.distinct(1) by metis
    moreover from this have "find_string ?c (tl ?Q) (i + 1) = None" using f [of i] Q find_string.simps(2) by metis
    ultimately show ?thesis using head by simp
  qed simp
  show ?thesis using h url_with [OF b, of args] by (simp add: url_has_argument_def Let_def)
qed

lemma url_has_argument_Some:
  assumes ok: "\<forall>p \<in> set args. arg_ok p" and b: "CHR ''?'' \<notin> set base" and args: "args = pre @ (k, v) # post" and n: "k \<notin> fst ` set pre"
  shows "\<exists>pos. url_has_argument (url_with base args) k = Some (v, pos) \<and> drop pos (url_with base args) = v @ concat (map arg post)"
proof -
  let ?Q = "concat (map arg args)" let ?c = "CHR ''&'' # k @ ''=''" let ?url = "url_with base args"
  define L where "L = length (concat (map arg pre))"
  let ?m = "L + length ?c"
  have dr: "drop (length base + ?m) ?url = v @ concat (map arg post)"
    using url_with(4) [OF b, of args ?m] args by (simp add: L_def arg_def [of "(k, v)"])
  have v: "CHR ''&'' \<notin> set v" using ok args by (auto simp: arg_ok_def)
  have tw: "takeWhile (\<lambda>x. x \<noteq> CHR ''&'') (v @ concat (map arg post)) = v"
    using v by (cases post) (auto simp: takeWhile_append takeWhile_other arg_def [of "hd post"] arg_def)
  have val: "substr ?url (length base + ?m) (find_from ?url (length base + ?m) (CHR ''&'')) = v"
    unfolding substr_find dr by (rule tw)
  have f: "find_string ?c ?Q i = Some (i + L)" for i unfolding L_def by (rule find_arg_Some [OF ok args n])
  have "args \<noteq> []" using args by simp
  then obtain p ps where a: "args = p # ps" by (cases args) simp_all
  have Q: "?Q = CHR ''&'' # tl ?Q" using a by (simp add: arg_def)
  have head: "take (length ?c) ?Q = ?c \<longleftrightarrow> take (length k + 1) (tl ?Q) = k @ ''=''"
    by (subst (1) Q) simp
  have fs: "find_string ?c ?Q i = (if take (length ?c) ?Q = ?c then Some i else find_string ?c (tl ?Q) (i + 1))" for i
    using find_string.simps(2) [of ?c "CHR ''&''" "tl ?Q" i] unfolding Q [symmetric] .
  have "url_has_argument ?url k = Some (v, length base + ?m)"
  proof (cases "take (length k + 1) (tl ?Q) = k @ ''=''")
    case True
    then have "L = 0" using f [of 0] fs [of 0] head by simp
    then show ?thesis using True url_with(1-3) [OF b, of args] val by (simp add: url_has_argument_def Let_def)
  next
    case False
    then have "find_string ?c (tl ?Q) (length base + 1) = Some (length base + L)"
      using f [of "length base"] fs [of "length base"] head by simp
    then show ?thesis using False url_with(1-3) [OF b, of args] val by (simp add: url_has_argument_def Let_def add.assoc)
  qed
  then show ?thesis using dr by blast
qed

section \<open>The characters of encoded strings\<close>

lemma fill_5: obtains i0 i1 i2 i3 i4 where "fill 5 bs = [i0, i1, i2, i3, i4]"
proof -
  have "length (fill 5 bs) = 5" by (simp add: fill_def)
  then show ?thesis using that by (auto simp: numeral_eq_Suc length_Suc_conv)
qed

lemma chunk32_chars:
  assumes "length cs \<le> 5"
  shows "set (chunk32 cs) \<subseteq> insert CHR ''='' (set base32_table) \<and> length (chunk32 cs) = 8"
proof -
  obtain i0 i1 i2 i3 i4 where f: "fill 5 (map byte_of cs) = [i0, i1, i2, i3, i4]" by (rule fill_5)
  define out where "out = encode32_chunk [i0, i1, i2, i3, i4]"
  have l: "length out = 8" by (simp add: out_def)
  have n: "[0, 2, 4, 5, 7, 8] ! length cs \<le> (8 :: nat)" using assms by (auto simp: le_Suc_eq numeral_eq_Suc)
  have "base32_table ! unat (out ! j) \<in> set base32_table" if "j < 8" for j
  proof (rule nth_mem)
    have "out ! j \<in> set out" using that l by simp
    then have "unat (out ! j) < 2 ^ 5" using encode32_chunk_small unfolding out_def by blast
    moreover have "length base32_table = 32" by code_simp
    ultimately show "unat (out ! j) < length base32_table" by simp
  qed
  then show ?thesis using n by (auto simp: chunk32_def f out_def [symmetric] Let_def simp del: encode32_chunk.simps)
qed

lemma base32encode_chars: "set (base32encode s) \<subseteq> insert CHR ''='' (set base32_table)"
proof (induction s rule: length_induct)
  case (1 s)
  show ?case
  proof (cases "s = []")
    case False
    then have "set (base32encode (drop 5 s)) \<subseteq> insert CHR ''='' (set base32_table)" using 1 by (cases s) auto
    then show ?thesis using chunk32_chars [of "take 5 s"] unfolding base32encode_chunk [OF False] by auto
  qed (simp add: base32encode.simps)
qed

lemma length_base32encode: "length (base32encode s) = 8 * ((length s + 4) div 5)"
proof (induction s rule: length_induct)
  case (1 s)
  show ?case
  proof (cases "s = []")
    case False
    then have l: "length (base32encode (drop 5 s)) = 8 * ((length (drop 5 s) + 4) div 5)" using 1 by (cases s) auto
    have "1 + (length s - 5 + 4) div 5 = (length s + 4) div 5" using False by (cases "length s < 5") (auto simp: div_if)
    then show ?thesis using l chunk32_chars [of "take 5 s"] unfolding base32encode_chunk [OF False] by simp
  qed (simp add: base32encode.simps)
qed

lemma hex_pair_chars: "set (hex_pair c) \<subseteq> set hex_chars"
proof -
  have "length hex_chars = 16" by code_simp
  then show ?thesis using char_nibbles [of c] by (simp add: hex_pair_def)
qed

lemma escape_string_chars: "set (escape_string s) \<subseteq> set (drop 11 unreserved_chars) \<union> {CHR ''%''} \<union> set hex_chars"
proof -
  have "set (escape_string_impl s 11) \<subseteq> set (drop 11 unreserved_chars) \<union> {CHR ''%''} \<union> set hex_chars"
  proof (induction s)
    case (Cons c s)
    then show ?case using hex_pair_chars [of c] by (auto simp: strchr_def)
  qed simp
  then show ?thesis by (simp add: escape_string_def)
qed

lemma no_separators:
  "CHR ''&'' \<notin> set (base32encode s)" "CHR ''&'' \<notin> set (escape_string s)" "CHR 0x00 \<notin> set (escape_string s)"
proof -
  have b: "CHR ''&'' \<notin> insert CHR ''='' (set base32_table)" by code_simp
  show "CHR ''&'' \<notin> set (base32encode s)" using base32encode_chars [of s] b by blast
  have e: "CHR ''&'' \<notin> set (drop 11 unreserved_chars) \<union> {CHR ''%''} \<union> set hex_chars"
    "CHR 0x00 \<notin> set (drop 11 unreserved_chars) \<union> {CHR ''%''} \<union> set hex_chars" by code_simp+
  show "CHR ''&'' \<notin> set (escape_string s)" "CHR 0x00 \<notin> set (escape_string s)" using escape_string_chars [of s] e by blast+
qed

lemma cstr_id: "CHR 0x00 \<notin> set s \<Longrightarrow> cstr s = s"
  by (simp add: cstr_def takeWhile_other)

section \<open>The round trip of a link\<close>

lemma print_fields_all:
  "length ret + length (concat ss) \<le> 1023 \<Longrightarrow> print_fields ss (ret, length ret) = Inr (ret @ concat ss)"
proof (induction ss arbitrary: ret)
  case (Cons s ss)
  then show ?case using Cons.IH [of "ret @ s"] by (simp add: print_field_def)
qed simp

definition link_args :: "string \<Rightarrow> string \<Rightarrow> string list \<Rightarrow> (string \<times> string) list" where
  "link_args info_hash name trackers =
     (''xt'', ''urn:btih:'' @ base32encode info_hash) #
     (if name = [] then [] else [(''dn'', escape_string name)]) @
     (case trackers of [] \<Rightarrow> [] | url # urls \<Rightarrow> [(''tr'', escape_string url)])"

lemma link_args_ok: "\<forall>p \<in> set (link_args info_hash name trackers). arg_ok p"
  using no_separators by (auto simp: link_args_def arg_ok_def split: list.splits)

lemma make_magnet_uri_link:
  assumes "length (url_with ''magnet:'' (link_args info_hash name trackers)) \<le> 1023"
  shows "make_magnet_uri info_hash name trackers = Inr (url_with ''magnet:'' (link_args info_hash name trackers))"
proof -
  let ?ss = "[''magnet:?xt=urn:btih:'' @ base32encode info_hash] @ (if name = [] then [] else [''&dn='' @ escape_string name]) @
        (case trackers of [] \<Rightarrow> [] | url # urls \<Rightarrow> [''&tr='' @ escape_string url])"
  have c: "concat ?ss = url_with ''magnet:'' (link_args info_hash name trackers)"
    by (auto simp: url_with_def link_args_def arg_def split: list.splits)
  show ?thesis using print_fields_all [of "[]" ?ss] assms unfolding make_magnet_uri_def c by simp
qed

lemma tracker_loop_end:
  assumes "drop pos uri = v" "CHR ''&'' \<notin> set v"
  shows "tracker_loop uri pos tier = []"
proof -
  have "find_at uri ''&tr='' pos = None"
    using find_string_skip [of "CHR ''&''" v "''tr=''" "[]" pos] assms by (simp add: find_at_def)
  then show ?thesis by (simp add: tracker_loop.simps)
qed

text \<open>C30. The link that is made of a torrent, if it fits into the array, gives the hash, the name and the first tracker
  back, and nothing else is added. This rests on the encodings: none of them writes a separator.\<close>

theorem magnet_round_trip:
  assumes "length info_hash = 20" "CHR 0x00 \<notin> set name" "\<forall>url \<in> set trackers. CHR 0x00 \<notin> set url"
    "60 + length (escape_string name) + (case trackers of [] \<Rightarrow> 0 | url # urls \<Rightarrow> length (escape_string url)) \<le> 1023"
  shows "\<exists>uri. make_magnet_uri info_hash name trackers = Inr uri \<and>
    add_magnet_uri uri = Inr (Some \<lparr>mp_info_hash = info_hash, mp_name = name,
      mp_tracker = (case trackers of [] \<Rightarrow> [] | url # urls \<Rightarrow> url), mp_nodes = [], mp_trackers = []\<rparr>)"
proof -
  let ?args = "link_args info_hash name trackers" let ?H = "base32encode info_hash"
  define uri where "uri = url_with ''magnet:'' ?args"
  have lH: "length ?H = 32" using length_base32encode [of info_hash] assms(1) by simp
  have b: "CHR ''?'' \<notin> set ''magnet:''" by simp
  note ok = link_args_ok [of info_hash name trackers]
  have len: "length uri \<le> 1023" using assms(4) lH by (auto simp: uri_def url_with_def link_args_def arg_def split: list.splits if_splits)
  have xt: "\<exists>p. url_has_argument uri ''xt'' = Some (''urn:btih:'' @ ?H, p)"
    using url_has_argument_Some [OF ok b, of "[]"] by (auto simp: uri_def link_args_def)
  have dht: "url_has_argument uri ''dht'' = None"
    unfolding uri_def by (rule url_has_argument_None [OF ok _ b]) (auto simp: link_args_def split: list.splits)
  have dn: "(case url_has_argument uri ''dn'' of None \<Rightarrow> [] | Some (s, _) \<Rightarrow> fst (unescape_string (cstr s))) = name"
  proof (cases "name = []")
    case True
    have "url_has_argument uri ''dn'' = None"
      unfolding uri_def by (rule url_has_argument_None [OF ok _ b]) (use True in \<open>auto simp: link_args_def split: list.splits\<close>)
    then show ?thesis using True by simp
  next
    case False
    then have "\<exists>p. url_has_argument uri ''dn'' = Some (escape_string name, p)"
      using url_has_argument_Some [OF ok b, of "[(''xt'', ''urn:btih:'' @ ?H)]" "''dn''" "escape_string name"]
      by (auto simp: uri_def link_args_def)
    then show ?thesis using no_separators(3) escape_round_trip by (auto simp: cstr_id)
  qed
  have tr: "case trackers of [] \<Rightarrow> url_has_argument uri ''tr'' = None
    | url # urls \<Rightarrow> \<exists>pos. url_has_argument uri ''tr'' = Some (escape_string url, pos) \<and> tracker_loop uri pos 1 = []"
  proof (cases trackers)
    case Nil
    have "url_has_argument uri ''tr'' = None"
      unfolding uri_def by (rule url_has_argument_None [OF ok _ b]) (use Nil in \<open>auto simp: link_args_def\<close>)
    then show ?thesis using Nil by simp
  next
    case (Cons url urls)
    have "\<exists>pos. url_has_argument uri ''tr'' = Some (escape_string url, pos) \<and> drop pos uri = escape_string url @ concat (map arg [])"
      unfolding uri_def
      by (rule url_has_argument_Some [OF ok b, of "(''xt'', ''urn:btih:'' @ ?H) # (if name = [] then [] else [(''dn'', escape_string name)])"])
        (use Cons in \<open>auto simp: link_args_def\<close>)
    then show ?thesis using Cons tracker_loop_end no_separators(2) by auto
  qed
  have hash: "link_hash (''urn:btih:'' @ ?H) = info_hash"
    using lH assms(1) by (simp add: link_hash_def base32_round_trip hash_bytes_def)
  have "add_magnet_uri uri = Inr (Some \<lparr>mp_info_hash = info_hash, mp_name = name,
      mp_tracker = (case trackers of [] \<Rightarrow> [] | url # urls \<Rightarrow> url), mp_nodes = [], mp_trackers = []\<rparr>)"
    using xt dht dn tr hash assms(2,3) escape_round_trip no_separators(3)
    by (cases trackers) (auto simp: add_magnet_uri_def Let_def cstr_id)
  then show ?thesis using make_magnet_uri_link [of info_hash name trackers] len unfolding uri_def by blast
qed

theorem magnet_round_trip_witness:
  "\<exists>uri. make_magnet_uri (replicate 20 CHR ''h'') ''a film'' [''http://t:80/a''] = Inr uri \<and>
    add_magnet_uri uri = Inr (Some \<lparr>mp_info_hash = replicate 20 CHR ''h'', mp_name = ''a film'',
      mp_tracker = (case [''http://t:80/a''] of [] \<Rightarrow> [] | url # urls \<Rightarrow> url), mp_nodes = [], mp_trackers = []\<rparr>)"
  by (rule magnet_round_trip) (simp_all, code_simp)

lemma long_name_overflows:
  assumes "length info_hash = 20" "968 < length (escape_string name)" "trackers \<noteq> []"
  shows "make_magnet_uri info_hash name trackers = Inl Out_Of_Bounds"
proof -
  have "name \<noteq> []" using assms(2) by (auto simp: escape_string_def)
  moreover have "length (base32encode info_hash) = 32" using length_base32encode [of info_hash] assms(1) by simp
  ultimately show ?thesis using assms by (cases trackers) (auto simp: make_magnet_uri_def print_field_def)
qed

lemma wrong_hash_accepted:
  "add_magnet_uri ''magnet:?xt=urn:btih:0'' =
     Inr (Some \<lparr>mp_info_hash = replicate 20 CHR 0x00, mp_name = [], mp_tracker = [], mp_nodes = [], mp_trackers = []\<rparr>)"
  by code_simp

end
