(* ===== verification/Routing_Table.thy ===== *)
theory Routing_Table
  imports IP_Filter
begin

text \<open>
  The routing table of the distributed hash table (\<open>src/kademlia/routing_table.cpp\<close>, \<open>node_entry.hpp\<close>) and
  the distances of node ids (\<open>src/kademlia/node_id.cpp\<close>). An id is its 20 bytes, the first one the most
  significant; times are milliseconds.
\<close>

unbundle bit_operations_syntax

section \<open>Distances\<close>

type_synonym node_id = "8 word list"

definition distance :: "node_id \<Rightarrow> node_id \<Rightarrow> node_id" where
  "distance n1 n2 = map2 (XOR) n1 n2"

fun compare_ref :: "node_id \<Rightarrow> node_id \<Rightarrow> node_id \<Rightarrow> bool" where
  "compare_ref (i # n1) (j # n2) (k # ref) =
     (let lhs = i XOR k; rhs = j XOR k
      in if lhs < rhs then True else if lhs > rhs then False else compare_ref n1 n2 ref)"
| "compare_ref n1 n2 ref = False"

text \<open>The loop over the bits of the first byte that differs, and \<open>distance_exp\<close> from a byte on.\<close>

fun highest_bit :: "nat \<Rightarrow> 8 word \<Rightarrow> nat" where
  "highest_bit 0 t = 0"
| "highest_bit (Suc b) t = (if unat t \<ge> 2 ^ Suc b then Suc b else highest_bit b t)"

fun distance_exp_loop :: "nat \<Rightarrow> node_id \<Rightarrow> node_id \<Rightarrow> nat" where
  "distance_exp_loop byte (i # n1) (j # n2) =
     (let t = i XOR j in if t = 0 then distance_exp_loop (byte - 1) n1 n2 else byte * 8 + highest_bit 7 t)"
| "distance_exp_loop byte n1 n2 = 0"

definition distance_exp :: "node_id \<Rightarrow> node_id \<Rightarrow> nat" where
  "distance_exp n1 n2 = distance_exp_loop 19 n1 n2"

section \<open>Nodes\<close>

type_synonym endpoint = "address \<times> nat"

record node_entry =
  ne_addr :: address
  ne_port :: nat
  timeout_count :: "16 word"
  ne_id :: node_id

definition new_node :: "node_id \<Rightarrow> endpoint \<Rightarrow> bool \<Rightarrow> node_entry" where
  "new_node i ep pinged = \<lparr>ne_addr = fst ep, ne_port = snd ep, timeout_count = (if pinged then 0 else 0xffff), ne_id = i\<rparr>"

definition pinged :: "node_entry \<Rightarrow> bool" where
  "pinged n \<longleftrightarrow> timeout_count n \<noteq> 0xffff"

definition set_pinged :: "node_entry \<Rightarrow> node_entry" where
  "set_pinged n = (if timeout_count n = 0xffff then n\<lparr>timeout_count := 0\<rparr> else n)"

definition timed_out :: "node_entry \<Rightarrow> node_entry" where
  "timed_out n = (if pinged n then n\<lparr>timeout_count := timeout_count n + 1\<rparr> else n)"

definition fail_count :: "node_entry \<Rightarrow> int" where
  "fail_count n = (if pinged n then uint (timeout_count n) else 0)"

definition reset_fail_count :: "node_entry \<Rightarrow> node_entry" where
  "reset_fail_count n = (if pinged n then n\<lparr>timeout_count := 0\<rparr> else n)"

definition confirmed :: "node_entry \<Rightarrow> bool" where
  "confirmed n \<longleftrightarrow> timeout_count n = 0"

section \<open>The table\<close>

type_synonym bucket_t = "node_entry list"

record routing_table =
  m_bucket_size :: nat
  m_buckets :: "(bucket_t \<times> bucket_t) list"
  m_bucket_activity :: "int list"
  m_id :: node_id
  m_last_bootstrap :: int
  m_router_nodes :: "endpoint set"
  m_lowest_active_bucket :: nat

text \<open>A new table, at a time; \<open>min_time\<close> is the least time.\<close>

definition new_routing_table :: "int \<Rightarrow> int \<Rightarrow> node_id \<Rightarrow> nat \<Rightarrow> routing_table" where
  "new_routing_table min_time now i bucket_size =
     \<lparr>m_bucket_size = bucket_size, m_buckets = replicate 160 ([], []),
      m_bucket_activity = (map (\<lambda>i. now - int i * 5625) [0..<160])[0 := now - 15 * 60000],
      m_id = i, m_last_bootstrap = min_time, m_router_nodes = {}, m_lowest_active_bucket = 160\<rparr>"

definition table_size :: "routing_table \<Rightarrow> nat \<times> nat" where
  "table_size rt = (sum_list (map (length \<circ> fst) (m_buckets rt)), sum_list (map (length \<circ> snd) (m_buckets rt)))"

text \<open>\<open>num_global_nodes\<close>: the nodes are counted up to the first full bucket, and the shift of an \<open>int\<close> is only defined
  if the result fits, \<open>None\<close> otherwise.\<close>

function first_full :: "routing_table \<Rightarrow> nat \<Rightarrow> nat \<Rightarrow> nat \<times> nat" where
  "first_full rt i num_nodes =
     (if i < 160 \<and> length (fst (m_buckets rt ! i)) < m_bucket_size rt
      then first_full rt (i + 1) (num_nodes + length (fst (m_buckets rt ! i))) else (i, num_nodes))"
  by pat_completeness auto
termination
  by (relation "measure (\<lambda>(rt, i, n). 160 - i)") auto

definition num_global_nodes :: "routing_table \<Rightarrow> int option" where
  "num_global_nodes rt =
     (let (i, num_nodes) = first_full rt (m_lowest_active_bucket rt) 1
      in if 160 - i \<ge> 30 then None
         else if 2 ^ (161 - i) * int num_nodes \<ge> 2 ^ 31 then None else Some (2 ^ (161 - i) * int num_nodes))"

definition touch_bucket :: "int \<Rightarrow> nat \<Rightarrow> routing_table \<Rightarrow> routing_table" where
  "touch_bucket now bucket rt = rt\<lparr>m_bucket_activity := (m_bucket_activity rt)[bucket := now]\<rparr>"

definition next_refresh :: "int \<Rightarrow> nat \<Rightarrow> routing_table \<Rightarrow> int" where
  "next_refresh now bucket rt =
     (if bucket < m_lowest_active_bucket rt \<and> bucket > 0 then now + 15 * 60000
      else m_bucket_activity rt ! bucket + 15 * 60000)"

definition replacement_cache :: "routing_table \<Rightarrow> bucket_t" where
  "replacement_cache rt = concat (map snd (m_buckets rt))"

definition num_active_buckets :: "routing_table \<Rightarrow> nat" where
  "num_active_buckets rt = 160 - m_lowest_active_bucket rt + 1"

text \<open>The iterator goes over the buckets from the second on, so that we do not find ourselves.\<close>

definition nodes :: "routing_table \<Rightarrow> bucket_t" where
  "nodes rt = concat (map fst (drop 1 (m_buckets rt)))"

definition need_bootstrap :: "int \<Rightarrow> routing_table \<Rightarrow> routing_table \<times> bool" where
  "need_bootstrap now rt =
     (if now - m_last_bootstrap rt < 30 * 1000 then (rt, False)
      else if \<exists>n \<in> set (nodes rt). confirmed n then (rt, False)
      else (rt\<lparr>m_last_bootstrap := now\<rparr>, True))"

text \<open>\<open>std::find_if\<close> in a bucket: the offset, the size if there is none; and \<open>erase\<close>.\<close>

definition find_node_if :: "(node_entry \<Rightarrow> bool) \<Rightarrow> bucket_t \<Rightarrow> nat" where
  "find_node_if p b = length (takeWhile (\<lambda>n. \<not> p n) b)"

definition erase_node :: "nat \<Rightarrow> bucket_t \<Rightarrow> bucket_t" where
  "erase_node i b = take i b @ drop (i + 1) b"

definition set_bucket :: "nat \<Rightarrow> bucket_t \<Rightarrow> bucket_t \<Rightarrow> routing_table \<Rightarrow> routing_table" where
  "set_bucket i b rb rt = rt\<lparr>m_buckets := (m_buckets rt)[i := (b, rb)]\<rparr>"

definition lower_active :: "nat \<Rightarrow> routing_table \<Rightarrow> routing_table" where
  "lower_active i rt = (if i < m_lowest_active_bucket rt \<and> i > 0 then rt\<lparr>m_lowest_active_bucket := i\<rparr> else rt)"

definition heard_about :: "node_id \<Rightarrow> endpoint \<Rightarrow> routing_table \<Rightarrow> routing_table" where
  "heard_about i ep rt =
     (let k = distance_exp (m_id rt) i;
          (b, rb) = m_buckets rt ! k
      in if length rb \<ge> m_bucket_size rt then rt
         else if find_node_if (\<lambda>n. ne_id n = i) b \<noteq> length b then rt
         else if find_node_if (\<lambda>n. ne_id n = i) rb \<noteq> length rb then rt
         else if length b < m_bucket_size rt then set_bucket k (b @ [new_node i ep False]) rb (lower_active k rt)
         else if length rb < m_bucket_size rt then set_bucket k b (rb @ [new_node i ep False]) rt
         else rt)"

function skip_empty :: "routing_table \<Rightarrow> nat \<Rightarrow> nat" where
  "skip_empty rt i = (if i < 160 \<and> fst (m_buckets rt ! i) = [] then skip_empty rt (i + 1) else i)"
  by pat_completeness auto
termination
  by (relation "measure (\<lambda>(rt, i). 160 - i)") auto

declare first_full.simps [simp del] skip_empty.simps [simp del]

definition node_failed :: "int \<Rightarrow> node_id \<Rightarrow> routing_table \<Rightarrow> routing_table" where
  "node_failed max_fail_count i rt =
     (let k = distance_exp (m_id rt) i;
          (b, rb) = m_buckets rt ! k;
          p = find_node_if (\<lambda>n. ne_id n = i) b
      in if p = length b then rt
         else if k = 0 then rt
         else if rb = [] then
           let n = timed_out (b ! p)
           in if fail_count n \<ge> max_fail_count \<or> \<not> pinged n then
                let rt = set_bucket k (erase_node p b) rb rt
                in rt\<lparr>m_lowest_active_bucket := skip_empty rt (m_lowest_active_bucket rt)\<rparr>
              else set_bucket k (b[p := n]) rb rt
         else
           let b = erase_node p b;
               q = find_node_if pinged rb;
               q = (if q = length rb then 0 else q)
           in set_bucket k (b @ [rb ! q]) (erase_node q rb) rt)"

definition add_router_node :: "endpoint \<Rightarrow> routing_table \<Rightarrow> routing_table" where
  "add_router_node router rt = rt\<lparr>m_router_nodes := insert router (m_router_nodes rt)\<rparr>"

text \<open>A node that is seen again; the offset of the node that failed most often, the first of them, as \<open>std::max_element\<close>
  finds it.\<close>

definition seen_again :: "endpoint \<Rightarrow> node_entry \<Rightarrow> node_entry" where
  "seen_again ep n = (reset_fail_count (set_pinged n))\<lparr>ne_addr := fst ep, ne_port := snd ep\<rparr>"

fun max_element :: "(node_entry \<Rightarrow> int) \<Rightarrow> bucket_t \<Rightarrow> nat" where
  "max_element f [] = 0"
| "max_element f [n] = 0"
| "max_element f (n # b) = (let i = max_element f b in if f n < f (b ! i) then i + 1 else 0)"

definition cache_node :: "nat \<Rightarrow> node_entry \<Rightarrow> bucket_t \<Rightarrow> bucket_t" where
  "cache_node capacity n rb =
     (let rb = (if length rb \<ge> capacity then
                  let i = find_node_if (\<lambda>n. \<not> pinged n) rb in erase_node (if i \<noteq> length rb then i else 0) rb
                else rb)
      in rb @ [n])"

definition node_seen :: "int \<Rightarrow> node_id \<Rightarrow> endpoint \<Rightarrow> routing_table \<Rightarrow> routing_table \<times> bool" where
  "node_seen now i addr rt =
     (if addr \<in> m_router_nodes rt then (rt, False)
      else let k = distance_exp (m_id rt) i;
               (b, rb) = m_buckets rt ! k;
               p = find_node_if (\<lambda>n. ne_id n = i) b;
               (rt, bootstrap) = need_bootstrap now rt;
               n = new_node i addr True
           in if p \<noteq> length b then (set_bucket k (b[p := seen_again addr (b ! p)]) rb rt, bootstrap)
              else if length b < m_bucket_size rt then (set_bucket k (b @ [n]) rb (lower_active k rt), bootstrap)
              else let u = find_node_if (\<lambda>n. \<not> pinged n) b
                   in if u \<noteq> length b then (set_bucket k (erase_node u b @ [n]) rb rt, bootstrap)
                      else let s = max_element fail_count b
                           in if b \<noteq> [] \<and> fail_count (b ! s) > 0 then (set_bucket k (erase_node s b @ [n]) rb rt, bootstrap)
                              else let q = find_node_if (\<lambda>n. ne_id n = i) rb
                                   in if q \<noteq> length rb then (set_bucket k b (rb[q := seen_again addr (rb ! q)]) rt, bootstrap)
                                      else (set_bucket k b (cache_node (m_bucket_size rt) n rb) rt, bootstrap))"

section \<open>The nearest nodes\<close>

text \<open>The nodes for a request: of the bucket of the target, of the closer buckets in a random order, and of the buckets
  farther away. The order the shuffle makes is an argument. An option says whether nodes that are not confirmed are wanted.\<close>

definition wanted :: "bool \<Rightarrow> bucket_t \<Rightarrow> bucket_t" where
  "wanted include_failed b = (if include_failed then b else filter confirmed b)"

fun copy_farther :: "bool \<Rightarrow> nat \<Rightarrow> bucket_t list \<Rightarrow> bucket_t \<Rightarrow> bucket_t" where
  "copy_farther include_failed num [] l = l"
| "copy_farther include_failed num (b # bs) l =
     (let l = l @ take (min (num - length l) (length b)) (wanted include_failed b)
      in if length l = num then l else copy_farther include_failed num bs l)"

definition find_node :: "(bucket_t \<Rightarrow> bucket_t) \<Rightarrow> node_id \<Rightarrow> bool \<Rightarrow> bool \<Rightarrow> nat \<Rightarrow> routing_table \<Rightarrow> bucket_t" where
  "find_node random_shuffle target include_self include_failed num rt =
     (let num = (if num = 0 then m_bucket_size rt else num);
          k = distance_exp (m_id rt) target;
          b = fst (m_buckets rt ! k);
          l = take (min num (length b)) (wanted include_failed b)
      in if length l = num then l
         else let tmpb = concat (map (\<lambda>i. wanted include_failed (fst (m_buckets rt ! i))) [(if include_self then 0 else 1)..<k]);
                  l = l @ (if num - length l < length tmpb then take (num - length l) (random_shuffle tmpb) else tmpb)
              in if length l = num then l
                 else copy_farther include_failed num (map fst (drop (k + 1) (m_buckets rt))) l)"

end
