(* ===== verification/Node_Distance.thy ===== *)
theory Node_Distance
  imports Routing_Table
begin

text \<open>
  Distances of node ids as numbers: what the loops over the bytes of the ids compute, and how the distances
  between three ids are related.
\<close>

section \<open>Distances as numbers\<close>

text \<open>The number an id is, the distance of two ids as a number.\<close>

fun id_val :: "node_id \<Rightarrow> nat" where
  "id_val [] = 0"
| "id_val (b # bs) = unat b * 256 ^ length bs + id_val bs"

lemma unat_byte_less: "unat (b :: 8 word) < 256"
proof -
  have "unat b < 2 ^ LENGTH(8)" by (rule unsigned_less)
  then show ?thesis by simp
qed

lemma id_val_less: "id_val bs < 256 ^ length bs"
proof (induction bs)
  case (Cons b bs)
  have "unat b * 256 ^ length bs + id_val bs < (unat b + 1) * 256 ^ length bs" using Cons by simp
  also have "\<dots> \<le> 256 * 256 ^ length bs" using unat_byte_less [of b] by (intro mult_right_mono) auto
  finally show ?case by simp
qed simp

lemma bit_shift_add:
  fixes p v :: nat
  assumes "v < 2 ^ k"
  shows "bit (p * 2 ^ k + v) n \<longleftrightarrow> (if n < k then bit v n else bit p (n - k))"
proof -
  have v: "take_bit k v = v" using assms by (simp add: take_bit_nat_eq_self)
  have nb: "\<not> bit v m" if "k \<le> m" for m using that by (subst v [symmetric]) (simp add: bit_take_bit_iff)
  have "push_bit k p AND v = 0" by (rule bit_eqI) (auto simp: bit_simps nb)
  then have "p * 2 ^ k + v = push_bit k p OR v" by (simp add: disjunctive_add_eq_or [symmetric] push_bit_eq_mult)
  then show ?thesis using nb by (auto simp: bit_simps)
qed

lemma xor_less: "v < 2 ^ k \<Longrightarrow> w < 2 ^ k \<Longrightarrow> v XOR w < (2 ^ k :: nat)"
  by (metis take_bit_nat_eq_self take_bit_nat_less_exp take_bit_xor)

lemma id_val_distance: "length a = length b \<Longrightarrow> id_val (distance a b) = id_val a XOR id_val b"
proof (induction a b rule: list_induct2)
  case (Cons i a j b)
  let ?k = "8 * length a"
  have p: "(256 :: nat) ^ length a = 2 ^ ?k" by (simp add: power_mult)
  have l: "id_val a < 2 ^ ?k" "id_val b < 2 ^ ?k" using id_val_less [of a] id_val_less [of b] Cons.hyps p by simp_all
  have "id_val (distance (i # a) (j # b)) = unat (i XOR j) * 2 ^ ?k + (id_val a XOR id_val b)"
    using Cons p by (simp add: distance_def)
  also have "\<dots> = (unat i * 2 ^ ?k + id_val a) XOR (unat j * 2 ^ ?k + id_val b)"
    by (rule bit_eqI) (auto simp: bit_xor_iff bit_shift_add l xor_less unsigned_xor_eq)
  finally show ?case using Cons.hyps p by simp
qed (simp add: distance_def)

lemma highest_bit:
  "t \<noteq> 0 \<Longrightarrow> unat t < 2 ^ Suc b \<Longrightarrow> 2 ^ highest_bit b t \<le> unat t \<and> unat t < 2 ^ Suc (highest_bit b t) \<and> highest_bit b t \<le> b"
proof (induction b)
  case 0
  then show ?case using unat_gt_0 [of t] by simp
next
  case (Suc b)
  then show ?case by (cases "unat t \<ge> 2 ^ Suc b") auto
qed

lemma distance_exp_loop:
  "length a = length b \<Longrightarrow> a \<noteq> b \<Longrightarrow>
     2 ^ distance_exp_loop (length a - 1) a b \<le> id_val (distance a b) \<and>
     id_val (distance a b) < 2 ^ Suc (distance_exp_loop (length a - 1) a b) \<and> distance_exp_loop (length a - 1) a b < 8 * length a"
proof (induction a b rule: list_induct2)
  case (Cons i a j b)
  show ?case
  proof (cases "i = j")
    case True
    then have ne: "a \<noteq> b" using Cons.prems by simp
    then have "a \<noteq> []" using Cons.hyps by auto
    then have "distance_exp_loop (length (i # a) - 1) (i # a) (j # b) = distance_exp_loop (length a - 1) a b" using True by simp
    moreover have "id_val (distance (i # a) (j # b)) = id_val (distance a b)" using True by (simp add: distance_def)
    ultimately show ?thesis using Cons.IH [OF ne] by auto
  next
    case False
    let ?t = "i XOR j" let ?k = "8 * length a" let ?h = "highest_bit 7 ?t"
    have t: "?t \<noteq> 0" using False xor.assoc [of i j j] by auto
    have h: "2 ^ ?h \<le> unat ?t" "unat ?t + 1 \<le> 2 ^ Suc ?h" "?h \<le> 7"
      using highest_bit [OF t, of 7] unat_byte_less [of ?t] by auto
    have p: "(256 :: nat) ^ length a = 2 ^ ?k" by (simp add: power_mult)
    let ?v = "id_val (distance a b)"
    have v: "?v < 2 ^ ?k" using id_val_less [of "distance a b"] Cons.hyps p by (simp add: distance_def)
    have d: "id_val (distance (i # a) (j # b)) = unat ?t * 2 ^ ?k + ?v" using Cons.hyps p by (simp add: distance_def)
    have e: "distance_exp_loop (length (i # a) - 1) (i # a) (j # b) = ?k + ?h" using t by (simp add: Let_def mult.commute)
    have "(2 :: nat) ^ (?k + ?h) \<le> unat ?t * 2 ^ ?k" using mult_right_mono [OF h(1), of "2 ^ ?k"] by (simp add: power_add mult.commute)
    moreover have "(unat ?t + 1) * 2 ^ ?k \<le> 2 ^ Suc (?k + ?h)" using mult_right_mono [OF h(2), of "2 ^ ?k"] by (simp add: power_add mult.commute)
    ultimately show ?thesis unfolding d e using v h(3) by simp
  qed
qed simp

lemma distance_exp_same [simp]: "distance_exp a a = 0"
proof -
  have "distance_exp_loop n a a = 0" for n by (induction a arbitrary: n) simp_all
  then show ?thesis by (simp add: distance_exp_def)
qed

lemma xor_self_0: "length a = length b \<Longrightarrow> id_val (distance a b) = 0 \<longleftrightarrow> a = b"
  using distance_exp_loop [of a b] by (cases "a = b") (auto simp: id_val_distance)

theorem distance_exp_log:
  assumes "length n1 = 20" "length n2 = 20" "n1 \<noteq> n2"
  shows "2 ^ distance_exp n1 n2 \<le> id_val (distance n1 n2) \<and> id_val (distance n1 n2) < 2 ^ (distance_exp n1 n2 + 1)"
  using distance_exp_loop [of n1 n2] assms by (simp add: distance_exp_def)

lemma distance_exp_less: "length n1 = 20 \<Longrightarrow> length n2 = 20 \<Longrightarrow> distance_exp n1 n2 < 160"
proof (cases "n1 = n2")
  case False
  assume "length n1 = 20" "length n2 = 20"
  then show ?thesis using distance_exp_loop [of n1 n2] False by (simp add: distance_exp_def)
qed simp

theorem compare_ref_distance:
  assumes "length n1 = length ref" "length n2 = length ref"
  shows "compare_ref n1 n2 ref \<longleftrightarrow> id_val (distance n1 ref) < id_val (distance n2 ref)"
  using assms
proof (induction n1 n2 ref rule: compare_ref.induct)
  case (1 i n1 j n2 k ref)
  let ?l = "i XOR k" let ?r = "j XOR k" let ?P = "256 ^ length ref :: nat"
  have l: "length (distance n1 ref) = length ref" "length (distance n2 ref) = length ref" using 1(2,3) by (simp_all add: distance_def)
  have v: "id_val (distance n1 ref) < ?P" "id_val (distance n2 ref) < ?P"
    using id_val_less [of "distance n1 ref"] id_val_less [of "distance n2 ref"] l by simp_all
  have d: "id_val (distance (i # n1) (k # ref)) = unat ?l * ?P + id_val (distance n1 ref)"
    "id_val (distance (j # n2) (k # ref)) = unat ?r * ?P + id_val (distance n2 ref)" using l by (simp_all add: distance_def)
  have mono: "u * ?P + x < w * ?P + y" if "u < w" "x < ?P" for u w x y :: nat
  proof -
    have "u * ?P + x < (u + 1) * ?P" using that(2) by simp
    also have "\<dots> \<le> w * ?P" using that(1) by (intro mult_right_mono) auto
    finally show ?thesis by simp
  qed
  consider "?l < ?r" | "?r < ?l" | "?l = ?r" by fastforce
  then show ?case
  proof cases
    case 1
    then show ?thesis using mono [of "unat ?l" "unat ?r"] v d by (simp add: Let_def word_less_nat_alt)
  next
    case 2
    then show ?thesis using mono [of "unat ?r" "unat ?l" "id_val (distance n2 ref)" "id_val (distance n1 ref)"] v d by (auto simp: Let_def word_less_nat_alt)
  next
    case 3
    have "compare_ref n1 n2 ref \<longleftrightarrow> id_val (distance n1 ref) < id_val (distance n2 ref)"
      using "1.IH" [OF refl refl] 3 "1.prems" by simp
    then show ?thesis using 3 d by (simp add: Let_def)
  qed
qed (simp_all add: distance_def)

section \<open>Distances of three ids\<close>

lemma bit_top: "2 ^ e \<le> (x :: nat) \<Longrightarrow> x < 2 ^ Suc e \<Longrightarrow> bit x e"
proof -
  assume "2 ^ e \<le> x" "x < 2 ^ Suc e"
  then have "x div 2 ^ e = 1" by (intro div_nat_eqI) auto
  then show ?thesis by (simp add: bit_iff_odd)
qed

lemma xor_top:
  assumes "2 ^ e \<le> (x :: nat)" "x < 2 ^ Suc e" "y < 2 ^ e"
  shows "2 ^ e \<le> x XOR y \<and> x XOR y < 2 ^ Suc e"
proof
  have "\<not> bit y e" using assms(3) by (metis bit_take_bit_iff less_irrefl take_bit_nat_eq_self)
  then have "bit (x XOR y) e" using bit_top [OF assms(1,2)] by (simp add: bit_xor_iff)
  then show "2 ^ e \<le> x XOR y" by (metis bit_take_bit_iff less_irrefl not_le take_bit_nat_eq_self)
  show "x XOR y < 2 ^ Suc e" using xor_less [of x "Suc e" y] assms by simp
qed

lemma xor_same_top:
  assumes "2 ^ e \<le> (x :: nat)" "x < 2 ^ Suc e" "2 ^ e \<le> y" "y < 2 ^ Suc e"
  shows "x XOR y < 2 ^ e"
proof -
  have "take_bit e (x XOR y) = x XOR y"
  proof (rule bit_eqI)
    fix n
    have "\<not> bit (x XOR y) n" if "e \<le> n"
    proof (cases "n = e")
      case True
      then show ?thesis using bit_top [OF assms(1,2)] bit_top [OF assms(3,4)] by (simp add: bit_xor_iff)
    next
      case False
      then have "Suc e \<le> n" using that by simp
      then show ?thesis using xor_less [OF assms(2,4)] by (metis bit_take_bit_iff not_le take_bit_nat_eq_self)
    qed
    then show "bit (take_bit e (x XOR y)) n = bit (x XOR y) n" by (cases "e \<le> n") (simp_all add: bit_take_bit_iff del: take_bit_xor)
  qed
  then show ?thesis by (metis take_bit_nat_less_exp)
qed

end
