(* ===== verification/Routing_Invariant.thy ===== *)
theory Routing_Invariant
  imports Node_Distance
begin

text \<open>
  The invariant of the routing table, that every operation keeps it, and the tables that can be reached.
\<close>

section \<open>The invariant of the table\<close>

text \<open>A bucket with its replacement cache: both have at most the bucket size, the nodes belong into the bucket, only a full
  bucket has a cache, and the cache has a node only once.\<close>

definition bucket_ok :: "nat \<Rightarrow> node_id \<Rightarrow> nat \<Rightarrow> bucket_t \<times> bucket_t \<Rightarrow> bool" where
  "bucket_ok capacity self k p \<longleftrightarrow> length (fst p) \<le> capacity \<and> length (snd p) \<le> capacity \<and>
     (\<forall>n \<in> set (fst p) \<union> set (snd p). length (ne_id n) = 20 \<and> distance_exp self (ne_id n) = k) \<and>
     (snd p \<noteq> [] \<longrightarrow> length (fst p) = capacity) \<and> distinct (map ne_id (snd p))"

definition lowest_ok :: "(bucket_t \<times> bucket_t) list \<Rightarrow> nat \<Rightarrow> bool" where
  "lowest_ok bs low \<longleftrightarrow> 1 \<le> low \<and> low \<le> 160 \<and> (\<forall>i. 1 \<le> i \<and> i < low \<longrightarrow> fst (bs ! i) = []) \<and> (low < 160 \<longrightarrow> fst (bs ! low) \<noteq> [])"

definition table_ok :: "routing_table \<Rightarrow> bool" where
  "table_ok rt \<longleftrightarrow> 0 < m_bucket_size rt \<and> length (m_id rt) = 20 \<and> length (m_buckets rt) = 160 \<and>
     length (m_bucket_activity rt) = 160 \<and>
     (\<forall>k < 160. bucket_ok (m_bucket_size rt) (m_id rt) k (m_buckets rt ! k)) \<and>
     lowest_ok (m_buckets rt) (m_lowest_active_bucket rt)"

lemma table_okD:
  assumes "table_ok rt"
  shows "0 < m_bucket_size rt" "length (m_id rt) = 20" "length (m_buckets rt) = 160"
    "k < 160 \<Longrightarrow> m_buckets rt ! k = (b, rb) \<Longrightarrow> bucket_ok (m_bucket_size rt) (m_id rt) k (b, rb)"
    "lowest_ok (m_buckets rt) (m_lowest_active_bucket rt)"
  using assms by (auto simp: table_ok_def)

text \<open>The three ways a bucket changes: nothing becomes empty or gets its first node; it gets a node; it loses one.\<close>

lemma table_ok_set:
  assumes ok: "table_ok rt" and k: "k < 160" and b: "m_buckets rt ! k = (b, rb)"
    and b': "bucket_ok (m_bucket_size rt) (m_id rt) k (b', rb')" and e: "b' = [] \<longleftrightarrow> b = []"
  shows "table_ok (set_bucket k b' rb' rt)"
proof -
  have "fst ((m_buckets rt)[k := (b', rb')] ! i) = [] \<longleftrightarrow> fst (m_buckets rt ! i) = []" for i
    using b e k table_okD(3) [OF ok] by (cases "i = k") auto
  then have "lowest_ok ((m_buckets rt)[k := (b', rb')]) (m_lowest_active_bucket rt)"
    using table_okD(5) [OF ok] by (simp add: lowest_ok_def)
  then show ?thesis using ok b' k by (auto simp: table_ok_def set_bucket_def nth_list_update)
qed

lemma table_ok_add:
  assumes ok: "table_ok rt" and k: "k < 160" and b': "bucket_ok (m_bucket_size rt) (m_id rt) k (b', rb')" and ne: "b' \<noteq> []"
  shows "table_ok (set_bucket k b' rb' (lower_active k rt))"
proof -
  note l = table_okD(3,5) [OF ok]
  have "lowest_ok ((m_buckets rt)[k := (b', rb')]) (if k < m_lowest_active_bucket rt \<and> k > 0 then k else m_lowest_active_bucket rt)"
    using l k ne by (auto simp: lowest_ok_def nth_list_update)
  then show ?thesis using ok b' k by (auto simp: table_ok_def set_bucket_def lower_active_def nth_list_update)
qed

lemma skip_empty:
  "i \<le> 160 \<Longrightarrow> i \<le> skip_empty rt i \<and> skip_empty rt i \<le> 160 \<and> (\<forall>j. i \<le> j \<and> j < skip_empty rt i \<longrightarrow> fst (m_buckets rt ! j) = []) \<and>
     (skip_empty rt i < 160 \<longrightarrow> fst (m_buckets rt ! skip_empty rt i) \<noteq> [])"
proof (induction rt i rule: skip_empty.induct)
  case (1 rt i)
  show ?case
  proof (cases "i < 160 \<and> fst (m_buckets rt ! i) = []")
    case True
    then have s: "skip_empty rt i = skip_empty rt (i + 1)" by (simp add: skip_empty.simps [of rt i])
    have "fst (m_buckets rt ! j) = []" if "i \<le> j" "j < skip_empty rt (i + 1)" for j
      using "1.IH" [OF True] True that by (cases "j = i") auto
    then show ?thesis using "1.IH" [OF True] True s by auto
  next
    case False
    then show ?thesis using "1.prems" by (auto simp: skip_empty.simps [of rt i])
  qed
qed

lemma table_ok_remove:
  assumes ok: "table_ok rt" and k: "0 < k" "k < 160" and b': "bucket_ok (m_bucket_size rt) (m_id rt) k (b', rb')"
    and b: "fst (m_buckets rt ! k) \<noteq> []"
  shows "table_ok ((set_bucket k b' rb' rt)\<lparr>m_lowest_active_bucket := skip_empty (set_bucket k b' rb' rt) (m_lowest_active_bucket rt)\<rparr>)"
proof -
  let ?rt = "set_bucket k b' rb' rt" let ?low = "m_lowest_active_bucket rt"
  have low: "lowest_ok (m_buckets rt) ?low" "?low \<le> 160" using table_okD(5) [OF ok] by (auto simp: lowest_ok_def)
  note s = skip_empty [OF low(2), of ?rt]
  have "?low \<le> k" using low(1) b k by (auto simp: lowest_ok_def not_less [symmetric])
  then have "fst (m_buckets ?rt ! i) = []" if "1 \<le> i" "i < ?low" for i
    using low(1) that by (auto simp: lowest_ok_def set_bucket_def)
  then have "fst (m_buckets ?rt ! i) = []" if "1 \<le> i" "i < skip_empty ?rt ?low" for i
    using that s by (cases "i < ?low") auto
  then have "lowest_ok (m_buckets ?rt) (skip_empty ?rt ?low)" using s low(1) by (auto simp: lowest_ok_def)
  then have "lowest_ok ((m_buckets rt)[k := (b', rb')]) (skip_empty ?rt ?low)" by (simp add: set_bucket_def)
  then show ?thesis using ok b' k by (auto simp: table_ok_def set_bucket_def nth_list_update)
qed

section \<open>Buckets\<close>

lemma find_node_if: "find_node_if p b \<noteq> length b \<Longrightarrow> find_node_if p b < length b \<and> p (b ! find_node_if p b)"
  "find_node_if p b = length b \<longleftrightarrow> (\<forall>n \<in> set b. \<not> p n)"
proof -
  have l: "find_node_if p b \<le> length b" by (simp add: find_node_if_def length_takeWhile_le)
  show "find_node_if p b \<noteq> length b \<Longrightarrow> find_node_if p b < length b \<and> p (b ! find_node_if p b)"
    using l nth_length_takeWhile [of "\<lambda>n. \<not> p n" b] by (auto simp: find_node_if_def)
  show "find_node_if p b = length b \<longleftrightarrow> (\<forall>n \<in> set b. \<not> p n)"
    by (induction b) (auto simp: find_node_if_def)
qed

lemma erase_node:
  assumes "i < length b"
  shows "length (erase_node i b) = length b - 1" "set (erase_node i b) \<subseteq> set b" "distinct (map f b) \<Longrightarrow> distinct (map f (erase_node i b))"
proof -
  show "length (erase_node i b) = length b - 1" using assms by (simp add: erase_node_def)
  show "set (erase_node i b) \<subseteq> set b" using set_take_subset set_drop_subset by (fastforce simp: erase_node_def)
  assume d: "distinct (map f b)"
  have "b = take i b @ b ! i # drop (i + 1) b" using assms by (simp add: id_take_nth_drop [symmetric])
  then have "distinct (map f (take i b @ b ! i # drop (i + 1) b))" using d by simp
  then show "distinct (map f (erase_node i b))" by (simp add: erase_node_def)
qed

lemma max_element_less: "b \<noteq> [] \<Longrightarrow> max_element f b < length b"
  by (induction f b rule: max_element.induct) (auto simp: Let_def)

lemma new_node_id [simp]: "ne_id (new_node i ep p) = i"
  by (simp add: new_node_def)

lemma seen_again_id [simp]: "ne_id (seen_again ep n) = ne_id n" "ne_id (timed_out n) = ne_id n"
  by (simp_all add: seen_again_def reset_fail_count_def set_pinged_def timed_out_def)

lemma bucket_ok_update:
  "bucket_ok c self k (b, rb) \<Longrightarrow> p < length b \<Longrightarrow> ne_id n = ne_id (b ! p) \<Longrightarrow> bucket_ok c self k (b[p := n], rb)"
  by (auto simp: bucket_ok_def dest!: set_update_subset_insert [THEN subsetD])

lemma bucket_ok_update_cache:
  "bucket_ok c self k (b, rb) \<Longrightarrow> p < length rb \<Longrightarrow> ne_id n = ne_id (rb ! p) \<Longrightarrow> bucket_ok c self k (b, rb[p := n])"
  by (auto simp: bucket_ok_def map_update dest!: set_update_subset_insert [THEN subsetD]) (metis list_update_id map_update)

lemma bucket_ok_replace:
  "bucket_ok c self k (b, rb) \<Longrightarrow> p < length b \<Longrightarrow> length (ne_id n) = 20 \<Longrightarrow> distance_exp self (ne_id n) = k \<Longrightarrow>
     bucket_ok c self k (erase_node p b @ [n], rb)"
  using erase_node(1,2) [of p b] by (auto simp: bucket_ok_def)

section \<open>Every operation keeps the invariant\<close>

lemma new_table_ok: "0 < n \<Longrightarrow> length i = 20 \<Longrightarrow> table_ok (new_routing_table min_time now i n)"
  by (auto simp: table_ok_def new_routing_table_def bucket_ok_def lowest_ok_def)

lemma touch_bucket_ok: "table_ok rt \<Longrightarrow> table_ok (touch_bucket now k rt)"
  by (auto simp: table_ok_def touch_bucket_def)

lemma add_router_node_ok: "table_ok rt \<Longrightarrow> table_ok (add_router_node ep rt)"
  by (auto simp: table_ok_def add_router_node_def)

lemma need_bootstrap_ok: "table_ok rt \<Longrightarrow> need_bootstrap now rt = (rt', r) \<Longrightarrow>
    table_ok rt' \<and> m_buckets rt' = m_buckets rt \<and> m_bucket_size rt' = m_bucket_size rt \<and> m_id rt' = m_id rt"
  by (auto simp: need_bootstrap_def table_ok_def split: if_splits)

lemma bucket_ok_append:
  "bucket_ok c self k (b, rb) \<Longrightarrow> length b < c \<Longrightarrow> length (ne_id n) = 20 \<Longrightarrow> distance_exp self (ne_id n) = k \<Longrightarrow> bucket_ok c self k (b @ [n], rb)"
  by (auto simp: bucket_ok_def)

lemma heard_about_ok:
  assumes ok: "table_ok rt" and i: "length i = 20"
  shows "table_ok (heard_about i ep rt)"
proof -
  let ?k = "distance_exp (m_id rt) i"
  obtain b rb where b: "m_buckets rt ! ?k = (b, rb)" by (cases "m_buckets rt ! ?k") auto
  have k: "?k < 160" using distance_exp_less table_okD(2) [OF ok] i by blast
  note bo = table_okD(4) [OF ok k b]
  have add: "table_ok (set_bucket ?k (b @ [new_node i ep False]) rb (lower_active ?k rt))" if "length b < m_bucket_size rt"
    by (rule table_ok_add [OF ok k]) (use bucket_ok_append [OF bo that] i in auto)
  have cache: "table_ok (set_bucket ?k b (rb @ [new_node i ep False]) rt)"
    if "length rb < m_bucket_size rt" "\<not> length b < m_bucket_size rt" "find_node_if (\<lambda>n. ne_id n = i) rb = length rb"
    by (rule table_ok_set [OF ok k b]) (use bo that find_node_if(2) [of "\<lambda>n. ne_id n = i" rb] i in \<open>auto simp: bucket_ok_def\<close>)
  show ?thesis using ok add cache by (simp add: heard_about_def Let_def b)
qed

lemma node_failed_ok:
  assumes ok: "table_ok rt" and i: "length i = 20"
  shows "table_ok (node_failed max_fail i rt)"
proof -
  let ?k = "distance_exp (m_id rt) i"
  obtain b rb where b: "m_buckets rt ! ?k = (b, rb)" by (cases "m_buckets rt ! ?k") auto
  have k: "?k < 160" using distance_exp_less table_okD(2) [OF ok] i by blast
  note bo = table_okD(4) [OF ok k b]
  define p where "p = find_node_if (\<lambda>n. ne_id n = i) b"
  show ?thesis
  proof (cases "p = length b \<or> ?k = 0")
    case True
    then show ?thesis using ok by (auto simp: node_failed_def Let_def b p_def)
  next
    case False
    then have p: "p < length b" "ne_id (b ! p) = i" and k0: "0 < ?k" using find_node_if(1) [of "\<lambda>n. ne_id n = i" b] by (auto simp: p_def)
    show ?thesis
    proof (cases "rb = []")
      case True
      have "bucket_ok (m_bucket_size rt) (m_id rt) ?k (erase_node p b, rb)"
        using bo erase_node(1,2) [OF p(1)] True by (auto simp: bucket_ok_def)
      then have "table_ok ((set_bucket ?k (erase_node p b) rb rt)\<lparr>m_lowest_active_bucket :=
          skip_empty (set_bucket ?k (erase_node p b) rb rt) (m_lowest_active_bucket rt)\<rparr>)"
        by (rule table_ok_remove [OF ok k0 k]) (use b p in auto)
      moreover have "table_ok (set_bucket ?k (b[p := timed_out (b ! p)]) rb rt)"
        by (rule table_ok_set [OF ok k b]) (use bucket_ok_update [OF bo p(1)] in auto)
      moreover have "m_lowest_active_bucket (set_bucket ?k (erase_node p b) rb rt) = m_lowest_active_bucket rt" by (simp add: set_bucket_def)
      ultimately show ?thesis using False True by (auto simp: node_failed_def Let_def b p_def [symmetric])
    next
      case nonempty: False
      define q where "q = (if find_node_if pinged rb = length rb then 0 else find_node_if pinged rb)"
      have q: "q < length rb" using nonempty find_node_if(1) [of pinged rb] by (auto simp: q_def)
      have "bucket_ok (m_bucket_size rt) (m_id rt) ?k (erase_node p b @ [rb ! q], rb)"
        by (rule bucket_ok_replace [OF bo p(1)]) (use bo q in \<open>auto simp: bucket_ok_def\<close>)
      then have "bucket_ok (m_bucket_size rt) (m_id rt) ?k (erase_node p b @ [rb ! q], erase_node q rb)"
        using erase_node [OF q] nonempty by (auto simp: bucket_ok_def)
      then have "table_ok (set_bucket ?k (erase_node p b @ [rb ! q]) (erase_node q rb) rt)"
        by (rule table_ok_set [OF ok k b]) (use p in auto)
      then show ?thesis using False nonempty by (auto simp: node_failed_def Let_def b p_def [symmetric] q_def)
    qed
  qed
qed

lemma cache_node_ok:
  assumes bo: "bucket_ok c self k (b, rb)" and c: "0 < c" and n: "length (ne_id n) = 20" "distance_exp self (ne_id n) = k"
    and full: "length b = c" and new: "\<forall>m \<in> set rb. ne_id m \<noteq> ne_id n"
  shows "bucket_ok c self k (b, cache_node c n rb)"
proof -
  define q where "q = (if find_node_if (\<lambda>n. \<not> pinged n) rb \<noteq> length rb then find_node_if (\<lambda>n. \<not> pinged n) rb else 0)"
  have q: "q < length rb" if "c \<le> length rb" using that c find_node_if(1) [of "\<lambda>n. \<not> pinged n" rb] by (auto simp: q_def)
  show ?thesis
  proof (cases "c \<le> length rb")
    case True
    then have "cache_node c n rb = erase_node q rb @ [n]" by (simp add: cache_node_def Let_def q_def)
    moreover have "length rb \<le> c" using bo by (simp add: bucket_ok_def)
    then have "length (erase_node q rb) < c" using erase_node(1) [OF q [OF True]] c by linarith
    moreover note sub = erase_node(2) [OF q [OF True]]
    moreover have "\<forall>m \<in> set b \<union> set (erase_node q rb). length (ne_id m) = 20 \<and> distance_exp self (ne_id m) = k"
      using bo sub by (auto simp: bucket_ok_def)
    moreover have "distinct (map ne_id (erase_node q rb))" using bo by (intro erase_node(3) [OF q [OF True]]) (simp add: bucket_ok_def)
    moreover have "ne_id n \<notin> ne_id ` set (erase_node q rb)" using new sub by force
    ultimately show ?thesis using n full by (simp add: bucket_ok_def)
  next
    case False
    then have "cache_node c n rb = rb @ [n]" by (simp add: cache_node_def)
    moreover have "ne_id n \<notin> ne_id ` set rb" using new by force
    ultimately show ?thesis using bo n full False by (simp add: bucket_ok_def)
  qed
qed

lemma node_seen_ok:
  assumes ok: "table_ok rt" and i: "length i = 20"
  shows "table_ok (fst (node_seen now i addr rt))"
proof (cases "addr \<in> m_router_nodes rt")
  case False
  let ?k = "distance_exp (m_id rt) i" let ?n = "new_node i addr True"
  obtain b rb where b: "m_buckets rt ! ?k = (b, rb)" by (cases "m_buckets rt ! ?k") auto
  obtain rt' boot where r: "need_bootstrap now rt = (rt', boot)" by (cases "need_bootstrap now rt") auto
  note r' = need_bootstrap_ok [OF ok r]
  have ok': "table_ok rt'" "m_buckets rt' ! ?k = (b, rb)" "m_bucket_size rt' = m_bucket_size rt" "m_id rt' = m_id rt" using r' b by auto
  have k: "?k < 160" using distance_exp_less table_okD(2) [OF ok] i by blast
  note bo = table_okD(4) [OF ok k b]
  note set = table_ok_set [OF ok'(1) k ok'(2), unfolded ok'(3,4)]
  define p where "p = find_node_if (\<lambda>n. ne_id n = i) b"
  define u where "u = find_node_if (\<lambda>n. \<not> pinged n) b"
  define s where "s = max_element fail_count b"
  define q where "q = find_node_if (\<lambda>n. ne_id n = i) rb"
  have seen: "table_ok (set_bucket ?k (b[p := seen_again addr (b ! p)]) rb rt')" if "p \<noteq> length b"
    by (rule set) (use bucket_ok_update [OF bo] that find_node_if(1) [of "\<lambda>n. ne_id n = i" b] in \<open>auto simp: p_def\<close>)
  have add: "table_ok (set_bucket ?k (b @ [?n]) rb (lower_active ?k rt'))" if "length b < m_bucket_size rt"
    by (rule table_ok_add [OF ok'(1) k]) (use bucket_ok_append [OF bo that] i ok'(3,4) in auto)
  have unpinged: "table_ok (set_bucket ?k (erase_node u b @ [?n]) rb rt')" if "u \<noteq> length b"
    by (rule set) (use bucket_ok_replace [OF bo, of u ?n] find_node_if(1) [of "\<lambda>n. \<not> pinged n" b] that i in \<open>auto simp: u_def\<close>)
  have stale: "table_ok (set_bucket ?k (erase_node s b @ [?n]) rb rt')" if "b \<noteq> []"
    by (rule set) (use bucket_ok_replace [OF bo, of s ?n] max_element_less [OF that, of fail_count] that i in \<open>auto simp: s_def\<close>)
  have cached: "table_ok (set_bucket ?k b (rb[q := seen_again addr (rb ! q)]) rt')" if "q \<noteq> length rb"
    by (rule set) (use bucket_ok_update_cache [OF bo] that find_node_if(1) [of "\<lambda>n. ne_id n = i" rb] in \<open>auto simp: q_def\<close>)
  have cache: "table_ok (set_bucket ?k b (cache_node (m_bucket_size rt) ?n rb) rt')"
    if "q = length rb" "\<not> length b < m_bucket_size rt"
    by (rule set, rule cache_node_ok [OF bo])
      (use that bo i table_okD(1) [OF ok] find_node_if(2) [of "\<lambda>n. ne_id n = i" rb] in \<open>auto simp: q_def bucket_ok_def\<close>)
  show ?thesis using False seen add unpinged stale cached cache
    by (auto simp: node_seen_def Let_def b r ok'(3) p_def [symmetric] u_def [symmetric] s_def [symmetric] q_def [symmetric])
qed (use ok in \<open>simp add: node_seen_def\<close>)

section \<open>Reachable tables\<close>

inductive table_step :: "int \<Rightarrow> routing_table \<Rightarrow> routing_table \<Rightarrow> bool" for max_fail :: int where
  step_touch: "table_step max_fail rt (touch_bucket now k rt)"
| step_heard: "length i = 20 \<Longrightarrow> table_step max_fail rt (heard_about i ep rt)"
| step_failed: "length i = 20 \<Longrightarrow> table_step max_fail rt (node_failed max_fail i rt)"
| step_router: "table_step max_fail rt (add_router_node ep rt)"
| step_seen: "length i = 20 \<Longrightarrow> table_step max_fail rt (fst (node_seen now i ep rt))"
| step_bootstrap: "table_step max_fail rt (fst (need_bootstrap now rt))"

text \<open>C35. In every table that can be reached the buckets and their replacement caches have at most the bucket size, every node is in
  the bucket that its distance to us says, only full buckets have a cache, which has a node only once, and the lowest
  active bucket is the first one with nodes in it, apart from that of ourselves.\<close>

theorem routing_table_invariant:
  assumes "(table_step max_fail)\<^sup>*\<^sup>* (new_routing_table min_time now self k) rt" "0 < k" "length self = 20"
  shows "table_ok rt"
  using assms(1)
proof (induction rule: rtranclp_induct)
  case base
  show ?case by (rule new_table_ok [OF assms(2,3)])
next
  case (step rt rt')
  from step.hyps(2) step.IH show ?case
  proof cases
    case (step_bootstrap now)
    then show ?thesis using need_bootstrap_ok [OF step.IH] by (cases "need_bootstrap now rt") auto
  qed (auto intro: touch_bucket_ok heard_about_ok node_failed_ok add_router_node_ok node_seen_ok)
qed

end
