(* ===== verification/Routing_Claims.thy ===== *)
theory Routing_Claims
  imports Routing_Invariant
begin

text \<open>
  Which nodes a request is answered with, and two runs: one that puts a node twice into a bucket, one
  that puts a router node into the table.
\<close>

section \<open>Distances to a target\<close>

lemma exp_unique:
  assumes "length a = 20" "length b = 20" "2 ^ e \<le> id_val (distance a b)" "id_val (distance a b) < 2 ^ (e + 1)"
  shows "distance_exp a b = e"
proof -
  have "a \<noteq> b" using assms by (auto simp: id_val_distance)
  note d = distance_exp_log [OF assms(1,2) this]
  have "(2 :: nat) ^ e < 2 ^ (distance_exp a b + 1)" "(2 :: nat) ^ distance_exp a b < 2 ^ (e + 1)" using d assms by linarith+
  then have "e < distance_exp a b + 1" "distance_exp a b < e + 1" by (simp_all only: power_strict_increasing_iff one_less_numeral_iff semiring_norm)
  then show ?thesis by simp
qed

lemma exp_bound: "length a = 20 \<Longrightarrow> length b = 20 \<Longrightarrow> id_val (distance a b) < 2 ^ (distance_exp a b + 1)"
  using distance_exp_log [of a b] by (cases "a = b") (auto simp: id_val_distance)

lemma exp_less_unless: "length a = 20 \<Longrightarrow> length b = 20 \<Longrightarrow> 0 < distance_exp a b \<Longrightarrow> 2 ^ distance_exp a b \<le> id_val (distance a b)"
  using distance_exp_log [of a b] by (cases "a = b") auto

text \<open>Seen from the target, the nodes of its bucket are nearest, those of the closer buckets are all equally far, and
  those of another bucket are as far as the bucket says.\<close>

lemma exp_target:
  assumes l: "length self = 20" "length t = 20" "length x = 20"
  shows "distance_exp self x < distance_exp self t \<Longrightarrow> distance_exp t x = distance_exp self t"
    and "distance_exp self x = distance_exp self t \<Longrightarrow> distance_exp t x \<le> distance_exp self t"
    and "distance_exp self t < distance_exp self x \<Longrightarrow> distance_exp t x = distance_exp self x"
proof -
  let ?k = "distance_exp self t" let ?j = "distance_exp self x"
  let ?T = "id_val (distance self t)" let ?X = "id_val (distance self x)"
  have "id_val (distance t x) = id_val t XOR id_val x" using l by (simp add: id_val_distance)
  also have "\<dots> = (id_val self XOR id_val t) XOR (id_val self XOR id_val x)"
    by (metis xor.assoc xor.commute xor.left_neutral xor_self_eq)
  finally have d: "id_val (distance t x) = ?T XOR ?X" using l by (simp add: id_val_distance)
  note b = exp_bound [OF l(1,2)] exp_bound [OF l(1,3)]
  have less: "v < 2 ^ m" if "v < 2 ^ (n + 1)" "n < m" for v n m :: nat
  proof -
    have "(2 :: nat) ^ (n + 1) \<le> 2 ^ m" using that(2) by (intro power_increasing) auto
    then show ?thesis using that(1) by linarith
  qed
  show "distance_exp t x = ?k" if "?j < ?k"
    by (rule exp_unique [OF l(2,3)])
      (use xor_top [of ?k ?T ?X] exp_less_unless [OF l(1,2)] b less [OF b(2) that] that d in auto)
  show "distance_exp t x = ?j" if "?k < ?j"
    by (rule exp_unique [OF l(2,3)])
      (use xor_top [of ?j ?X ?T] exp_less_unless [OF l(1,3)] b less [OF b(1) that] that d in \<open>auto simp: xor.commute\<close>)
  show "distance_exp t x \<le> ?k" if "?j = ?k"
  proof (rule ccontr)
    assume "\<not> ?thesis"
    then have k: "?k < distance_exp t x" by simp
    have "?T XOR ?X < 2 ^ (?k + 1)" using xor_less [OF b(1), of ?X] b(2) that by simp
    then have "id_val (distance t x) < 2 ^ distance_exp t x" using less [OF _ k] d by simp
    then show False using exp_less_unless [OF l(2,3)] k by simp
  qed
qed

section \<open>The nodes of a request\<close>

lemma length_wanted: "length (wanted f b) \<le> length b"
  by (simp add: wanted_def)

lemma copy_farther:
  "length l \<le> num \<Longrightarrow> copy_farther f num bs l = l @ take (num - length l) (concat (map (wanted f) bs))"
proof (induction bs arbitrary: l)
  case (Cons b bs)
  let ?l = "l @ take (min (num - length l) (length b)) (wanted f b)"
  have l: "?l = l @ take (num - length l) (wanted f b)" using length_wanted [of f b] by (cases "num - length l \<le> length b") (auto simp: min_def)
  have n: "length ?l \<le> num" using Cons.prems by simp
  show ?case
  proof (cases "length ?l = num")
    case True
    then have "num - length l \<le> length (wanted f b)" using Cons.prems by simp
    then show ?thesis using True l by (simp add: Let_def)
  next
    case False
    have "length (wanted f b) < num - length l"
    proof (rule ccontr)
      assume "\<not> ?thesis"
      then have "length (l @ take (num - length l) (wanted f b)) = num" using Cons.prems by simp
      then show False using False unfolding l by blast
    qed
    then show ?thesis using Cons.IH [OF n] False l by (simp add: Let_def)
  qed
qed simp

lemma sorted_buckets:
  assumes "\<And>i n. a \<le> i \<Longrightarrow> i < b \<Longrightarrow> n \<in> set (B i) \<Longrightarrow> rank n = i"
  shows "sorted (map rank (concat (map B [a..<b])))"
  using assms
proof (induction b)
  case (Suc b)
  have c: "sorted (map rank (B b))" if "a \<le> b"
    using Suc.prems [OF that] by (intro sorted_wrt_mono_rel [OF _ sorted_wrt_true, of _ _]) auto
  show ?case
  proof (cases "a \<le> b")
    case True
    then show ?thesis using Suc.IH Suc.prems c by (fastforce simp: sorted_append)
  qed simp
qed simp

definition reachable_bucket :: "bool \<Rightarrow> node_id \<Rightarrow> routing_table \<Rightarrow> nat \<Rightarrow> bool" where
  "reachable_bucket include_self target rt i \<longleftrightarrow> i < 160 \<and> (1 \<le> i \<or> include_self \<or> i = distance_exp (m_id rt) target)"

text \<open>The wanted nodes of a bucket, those of the buckets closer to us than the target, and those of the buckets farther away.\<close>

definition bucket_nodes :: "bool \<Rightarrow> routing_table \<Rightarrow> nat \<Rightarrow> bucket_t" where
  "bucket_nodes f rt i = wanted f (fst (m_buckets rt ! i))"

definition closer :: "bool \<Rightarrow> bool \<Rightarrow> node_id \<Rightarrow> routing_table \<Rightarrow> bucket_t" where
  "closer include_self f target rt = concat (map (bucket_nodes f rt) [(if include_self then 0 else 1)..<distance_exp (m_id rt) target])"

definition farther :: "bool \<Rightarrow> node_id \<Rightarrow> routing_table \<Rightarrow> bucket_t" where
  "farther f target rt = concat (map (bucket_nodes f rt) [distance_exp (m_id rt) target + 1..<160])"

lemma bucket_rank:
  "table_ok rt \<Longrightarrow> i < 160 \<Longrightarrow> n \<in> set (bucket_nodes f rt i) \<Longrightarrow> distance_exp (m_id rt) (ne_id n) = i \<and> length (ne_id n) = 20"
  using table_okD(4) [of rt i "fst (m_buckets rt ! i)" "snd (m_buckets rt ! i)"]
  by (auto simp: bucket_ok_def bucket_nodes_def wanted_def split: if_splits)

lemma bucket_rank_target:
  assumes "table_ok rt" "length target = 20" "i < 160" "n \<in> set (bucket_nodes f rt i)"
  shows "i < distance_exp (m_id rt) target \<Longrightarrow> distance_exp target (ne_id n) = distance_exp (m_id rt) target"
    and "i = distance_exp (m_id rt) target \<Longrightarrow> distance_exp target (ne_id n) \<le> distance_exp (m_id rt) target"
    and "distance_exp (m_id rt) target < i \<Longrightarrow> distance_exp target (ne_id n) = i"
  using exp_target [OF table_okD(2) [OF assms(1)] assms(2), of "ne_id n"] bucket_rank [OF assms(1,3,4)] by simp_all

lemma closer_rank:
  assumes "table_ok rt" "length target = 20" "n \<in> set (closer include_self f target rt)"
  shows "distance_exp target (ne_id n) = distance_exp (m_id rt) target"
proof -
  obtain i where "i < distance_exp (m_id rt) target" "n \<in> set (bucket_nodes f rt i)" using assms(3) by (auto simp: closer_def)
  then show ?thesis
    using bucket_rank_target(1) [OF assms(1,2), of i n f] distance_exp_less [OF table_okD(2) [OF assms(1)] assms(2)] by simp
qed

lemma farther_sorted:
  assumes "table_ok rt" "length target = 20"
  shows "sorted (map (\<lambda>n. distance_exp target (ne_id n)) (farther f target rt))"
  unfolding farther_def by (rule sorted_buckets) (use bucket_rank_target(3) [OF assms] in auto)

lemma in_some_bucket:
  assumes "table_ok rt" "length target = 20"
    and n: "n \<in> set (bucket_nodes f rt (distance_exp (m_id rt) target)) \<union> set (closer include_self f target rt) \<union> set (farther f target rt)"
  shows "\<exists>i < 160. n \<in> set (bucket_nodes f rt i)"
proof -
  have k: "distance_exp (m_id rt) target < 160" by (rule distance_exp_less [OF table_okD(2) [OF assms(1)] assms(2)])
  consider "n \<in> set (bucket_nodes f rt (distance_exp (m_id rt) target))" | i where "i < distance_exp (m_id rt) target" "n \<in> set (bucket_nodes f rt i)"
    | i where "i < 160" "n \<in> set (bucket_nodes f rt i)"
    using n by (auto simp: closer_def farther_def)
  then show ?thesis using k less_trans [of _ "distance_exp (m_id rt) target" 160] by cases blast+
qed

lemma reachable_cases:
  assumes "reachable_bucket include_self target rt i" "y \<in> set (bucket_nodes f rt i)"
  shows "y \<in> set (bucket_nodes f rt (distance_exp (m_id rt) target)) \<union> set (closer include_self f target rt) \<union> set (farther f target rt)"
  using assms by (cases i "distance_exp (m_id rt) target" rule: linorder_cases)
    (auto simp: reachable_bucket_def closer_def farther_def split: if_splits)

lemma far_unless_own:
  assumes "table_ok rt" "length target = 20" "i < 160" "y \<in> set (bucket_nodes f rt i)" "y \<notin> set (bucket_nodes f rt (distance_exp (m_id rt) target))"
  shows "distance_exp (m_id rt) target \<le> distance_exp target (ne_id y)"
  using bucket_rank_target [OF assms(1-4)] assms(4,5) by (cases i "distance_exp (m_id rt) target" rule: linorder_cases) auto

text \<open>The list that \<open>find_node\<close> fills.\<close>

definition nearest_list :: "nat \<Rightarrow> (bucket_t \<Rightarrow> bucket_t) \<Rightarrow> bucket_t \<Rightarrow> bucket_t \<Rightarrow> bucket_t \<Rightarrow> bucket_t" where
  "nearest_list N shuffle own low high =
     (if length own = N then own
      else if N - length own < length low then own @ take (N - length own) (shuffle low)
      else (own @ low) @ take (N - length (own @ low)) high)"

lemma find_node_list:
  assumes ok: "table_ok rt" and t: "length target = 20" and sh: "\<forall>b. mset (shuffle b) = mset b"
    and num: "num = 0 \<or> m_bucket_size rt \<le> num" and N: "N = (if num = 0 then m_bucket_size rt else num)"
  shows "length (bucket_nodes f rt (distance_exp (m_id rt) target)) \<le> N \<and>
    find_node shuffle target include_self f num rt =
      nearest_list N shuffle (bucket_nodes f rt (distance_exp (m_id rt) target)) (closer include_self f target rt) (farther f target rt)"
proof -
  define k where "k = distance_exp (m_id rt) target"
  let ?own = "bucket_nodes f rt k" let ?low = "closer include_self f target rt" let ?high = "farther f target rt"
  note d = table_okD [OF ok]
  have k: "k < 160" unfolding k_def by (rule distance_exp_less [OF d(2) t])
  have fit: "length ?own \<le> N" "length (fst (m_buckets rt ! k)) \<le> N"
    using d(4) [OF k, of "fst (m_buckets rt ! k)" "snd (m_buckets rt ! k)"] num length_wanted [of f "fst (m_buckets rt ! k)"]
    by (auto simp: bucket_ok_def bucket_nodes_def N)
  have own: "take (min N (length (fst (m_buckets rt ! k)))) (wanted f (fst (m_buckets rt ! k))) = ?own"
    using fit length_wanted [of f "fst (m_buckets rt ! k)"] by (simp add: bucket_nodes_def)
  have "map (wanted f) (map fst (drop (k + 1) (m_buckets rt))) = map (bucket_nodes f rt) [k + 1..<160]"
    by (rule nth_equalityI) (simp_all add: d(3) bucket_nodes_def)
  then have high: "concat (map (wanted f) (map fst (drop (k + 1) (m_buckets rt)))) = ?high" by (simp only: farther_def k_def)
  have ls: "length (shuffle ?low) = length ?low" using sh size_mset [of "shuffle ?low"] size_mset [of ?low] by simp
  have "find_node shuffle target include_self f num rt = (if length ?own = N then ?own
      else let l = ?own @ (if N - length ?own < length ?low then take (N - length ?own) (shuffle ?low) else ?low)
           in if length l = N then l else copy_farther f N (map fst (drop (k + 1) (m_buckets rt))) l)"
    unfolding find_node_def Let_def N [symmetric] k_def [symmetric] own closer_def unfolding bucket_nodes_def by (rule refl)
  then show ?thesis
    using fit copy_farther [of "?own @ ?low" N f "map fst (drop (k + 1) (m_buckets rt))"] ls
    unfolding high nearest_list_def k_def [symmetric] by (auto simp: Let_def)
qed

lemma nearest_list_nearest:
  assumes own: "length own \<le> N" "\<And>x. x \<in> set own \<Longrightarrow> e x \<le> k" and low: "\<And>x. x \<in> set low \<Longrightarrow> e x = k"
    and sh: "mset (shuffle low) = mset low" and high: "sorted (map e high)"
    and y: "y \<in> set own \<union> set low \<union> set high" "y \<notin> set own \<Longrightarrow> k \<le> e y" "y \<notin> set (nearest_list N shuffle own low high)"
  shows "length (nearest_list N shuffle own low high) = N \<and> (\<forall>x \<in> set (nearest_list N shuffle own low high). e x \<le> (e y :: nat))"
proof -
  let ?l = "nearest_list N shuffle own low high"
  have yk: "y \<notin> set own" using y(3) by (auto simp: nearest_list_def split: if_splits)
  then have ky: "k \<le> e y" using y(2) by simp
  have ls: "length (shuffle low) = length low" "set (shuffle low) = set low"
    using sh size_mset [of "shuffle low"] size_mset [of low] mset_eq_setD by auto
  consider "length own = N" | "length own < N" "N - length own < length low" | "length own < N" "\<not> N - length own < length low"
    using own(1) by linarith
  then show ?thesis
  proof cases
    case 1
    then show ?thesis using own(2) ky by (fastforce simp: nearest_list_def)
  next
    case 2
    have "e x \<le> e y" if "x \<in> set ?l" for x
      using that 2 own(2) [of x] low [of x] ky ls by (auto simp: nearest_list_def dest: in_set_takeD)
    then show ?thesis using 2 ls by (simp add: nearest_list_def)
  next
    case 3
    let ?m = "N - length (own @ low)"
    have l: "?l = (own @ low) @ take ?m high" using 3 by (simp add: nearest_list_def)
    have "y \<in> set high" using y(1,3) yk l by auto
    then have yd: "y \<in> set (drop ?m high)" using y(3) l by (metis Un_iff append_take_drop_id set_append)
    then have "?m < length high" by (metis drop_all list.set(1) empty_iff not_less)
    then have "length ?l = N" using 3 l by simp
    moreover have "sorted (map e (take ?m high) @ map e (drop ?m high))" using high by (simp flip: map_append)
    then have "e x \<le> e y" if "x \<in> set (take ?m high)" for x using that yd by (auto simp: sorted_append)
    then have "e x \<le> e y" if "x \<in> set ?l" for x using that l own(2) [of x] low [of x] ky by auto
    ultimately show ?thesis by blast
  qed
qed

lemma nearest_list_limit:
  assumes "length own \<le> N" "mset (shuffle low) = mset low"
  shows "length (nearest_list N shuffle own low high) \<le> N \<and> set (nearest_list N shuffle own low high) \<subseteq> set own \<union> set low \<union> set high"
  using assms mset_eq_setD [OF assms(2)] by (auto simp: nearest_list_def dest: in_set_takeD)

text \<open>C36. \<open>find_node\<close> returns at most as many nodes as it is asked for, all of them from the table (and confirmed, unless failed
  nodes are wanted). A node of the buckets it looks at that it does not return is missing only because there are enough,
  and none of the nodes it returns is farther from the target, by the exponent of the distance. It is always called for
  at least as many nodes as fit into a bucket; the shuffle is any permutation.\<close>

theorem find_node_nearest:
  assumes ok: "table_ok rt" and t: "length target = 20" and sh: "\<forall>b. mset (shuffle b) = mset b"
    and num: "num = 0 \<or> m_bucket_size rt \<le> num"
  shows "let l = find_node shuffle target include_self include_failed num rt;
             limit = (if num = 0 then m_bucket_size rt else num);
             candidates = (\<lambda>i. set (wanted include_failed (fst (m_buckets rt ! i))))
         in length l \<le> limit \<and> (\<forall>n \<in> set l. \<exists>i < 160. n \<in> candidates i) \<and>
            (\<forall>i. reachable_bucket include_self target rt i \<longrightarrow> (\<forall>y \<in> candidates i. y \<notin> set l \<longrightarrow> length l = limit \<and>
               (\<forall>x \<in> set l. distance_exp target (ne_id x) \<le> distance_exp target (ne_id y))))"
proof -
  define N where "N = (if num = 0 then m_bucket_size rt else num)"
  let ?own = "bucket_nodes include_failed rt (distance_exp (m_id rt) target)"
  let ?low = "closer include_self include_failed target rt" let ?high = "farther include_failed target rt"
  let ?l = "nearest_list N shuffle ?own ?low ?high"
  have fit: "length ?own \<le> N" and l: "find_node shuffle target include_self include_failed num rt = ?l"
    using find_node_list [OF ok t sh num N_def] by blast+
  note lim = nearest_list_limit [OF fit, of shuffle ?low ?high]
  have own: "distance_exp target (ne_id x) \<le> distance_exp (m_id rt) target" if "x \<in> set ?own" for x
    using bucket_rank_target(2) [OF ok t distance_exp_less [OF table_okD(2) [OF ok] t] that] by simp
  have "length ?l = N \<and> (\<forall>x \<in> set ?l. distance_exp target (ne_id x) \<le> distance_exp target (ne_id y))"
    if y: "reachable_bucket include_self target rt i" "y \<in> set (bucket_nodes include_failed rt i)" "y \<notin> set ?l" for i y
  proof (rule nearest_list_nearest [where e = "\<lambda>n. distance_exp target (ne_id n)", OF fit own closer_rank [OF ok t] _ farther_sorted [OF ok t]])
    show "distance_exp (m_id rt) target \<le> distance_exp target (ne_id y)" if "y \<notin> set ?own"
      using far_unless_own [OF ok t _ y(2) that] y(1) by (simp add: reachable_bucket_def)
  qed (use sh y reachable_cases [OF y(1,2)] in auto)
  moreover have "\<exists>i < 160. n \<in> set (bucket_nodes include_failed rt i)" if "n \<in> set ?l" for n
    using in_some_bucket [OF ok t subsetD [OF conjunct2 [OF lim] that]] sh by blast
  ultimately show ?thesis using lim sh unfolding l Let_def N_def [symmetric] bucket_nodes_def [symmetric] by blast
qed

section \<open>Instances\<close>

definition example_id :: "8 word \<Rightarrow> node_id" where
  "example_id b = b # replicate 19 0"

definition example_ep :: endpoint where
  "example_ep = (V4 [10, 0, 0, 1], 6881)"

lemma routing_table_invariant_witness:
  "table_ok (heard_about (example_id 128) example_ep (new_routing_table 0 0 (example_id 0) 8))"
proof (rule routing_table_invariant [where max_fail = 20 and min_time = 0 and now = 0 and self = "example_id 0" and k = 8])
  show "(table_step 20)\<^sup>*\<^sup>* (new_routing_table 0 0 (example_id 0) 8) (heard_about (example_id 128) example_ep (new_routing_table 0 0 (example_id 0) 8))"
    by (rule r_into_rtranclp, rule step_heard) (simp add: example_id_def)
qed (simp_all add: example_id_def)

theorem find_node_nearest_witness:
  "let l = find_node rev (example_id 1) False False 0 (new_routing_table 0 0 (example_id 0) 8);
       limit = (if (0 :: nat) = 0 then m_bucket_size (new_routing_table 0 0 (example_id 0) 8) else 0);
       candidates = (\<lambda>i. set (wanted False (fst (m_buckets (new_routing_table 0 0 (example_id 0) 8) ! i))))
   in length l \<le> limit \<and> (\<forall>n \<in> set l. \<exists>i < 160. n \<in> candidates i) \<and>
      (\<forall>i. reachable_bucket False (example_id 1) (new_routing_table 0 0 (example_id 0) 8) i \<longrightarrow> (\<forall>y \<in> candidates i. y \<notin> set l \<longrightarrow> length l = limit \<and>
         (\<forall>x \<in> set l. distance_exp (example_id 1) (ne_id x) \<le> distance_exp (example_id 1) (ne_id y))))"
  by (rule find_node_nearest [OF new_table_ok]) (simp_all add: example_id_def)

theorem distance_exp_log_witness:
  "2 ^ distance_exp (example_id 0) (example_id 5) \<le> id_val (distance (example_id 0) (example_id 5)) \<and>
   id_val (distance (example_id 0) (example_id 5)) < 2 ^ (distance_exp (example_id 0) (example_id 5) + 1)"
  by (rule distance_exp_log) (simp_all add: example_id_def)

text \<open>A node that is heard of while its bucket is full gets into the cache. If it is then seen while a node of the bucket
  is stale, it replaces that one and stays in the cache; when another node fails, the bucket has it twice.\<close>

lemma node_twice:
  "let rt = new_routing_table 0 0 (example_id 0) 2;
       rt = fst (node_seen 0 (example_id 128) example_ep rt);
       rt = fst (node_seen 0 (example_id 129) example_ep rt);
       rt = node_failed 20 (example_id 128) rt;
       rt = heard_about (example_id 130) example_ep rt;
       rt = fst (node_seen 0 (example_id 130) example_ep rt);
       rt = node_failed 20 (example_id 129) rt
   in map ne_id (fst (m_buckets rt ! 159)) = [example_id 130, example_id 130]"
  by code_simp

lemma router_heard_of:
  "let rt = heard_about (example_id 128) example_ep (add_router_node example_ep (new_routing_table 0 0 (example_id 0) 8))
   in map (\<lambda>n. (ne_addr n, ne_port n)) (fst (m_buckets rt ! 159)) = [example_ep]"
  by code_simp

end
