(* ===== verification/Spec2Isabelle.thy ===== *)
theory Spec2Isabelle
  imports Prelude Piece_Data_Queue Pick_Claims File_Storage IP_Filter Bencode Stream_Plugin Player_Session Time_Critical Slot_Claims Peer_List_Claims Lazy_Claims Magnet_Claims Routing_Claims
begin

text \<open>
  A verification development for the native part of a peer-to-peer video player.

  \<^bold>\<open>The program.\<close> The player streams video from BitTorrent swarms. Its user interface is Java;
  the native library under \<open>src/jni\<close> has two layers. The player's own code (\<open>libtorrent.cpp\<close>,
  \<open>alerthandler.cpp\<close>, \<open>piecedataqueue.cpp\<close>, \<open>stream.cpp\<close>, \<open>torrentinfo.h\<close>, \<open>concurrentqueue.h\<close>)
  is called from Java through JNI: it keeps a table of torrents, asks the session to read pieces,
  hands the data of read pieces to the Java readers, and tells a plugin in the session which
  requests to cancel when the viewer seeks. Below it is a libtorrent (\<open>src/jni/libtorrent\<close>): for
  every torrent a \<open>piece_picker\<close> decides which blocks to request from which peer and keeps track of
  them, a \<open>file_storage\<close> says which bytes of which files a block is, connections ask peers (that an
  \<open>ip_filter\<close> may block) for blocks and answer their messages, the torrent rewards and punishes the
  peers when a piece has been hashed and hurries pieces with a deadline, and resume data and messages
  are bencoded.

  \<^bold>\<open>Theories, in the order of the imports.\<close>

  \<^item> \<open>Prelude\<close>: names of types, collections of rewrite rules, facts on association lists and lists.
  \<^item> \<open>Piece_Data_Queue\<close> (\<open>piecedataqueue.cpp\<close>, the reading calls of \<open>libtorrent.cpp\<close>): the queue
    through which pieces that were read reach the readers. The state is the record
    \<open>piece_data_queue\<close>, every method one definition; alerts are heap objects with addresses.
    C21 is the reference counting, C22 that calls which do not
    overlap never use or free an alert that is not allocated, \<open>overlapping_readers_use_after_free\<close> the
    run of two overlapping readers that does.
  \<^item> \<open>Picker_Data\<close>, \<open>Bucket_Layout\<close>, \<open>Picker_Buckets\<close>, \<open>Picker_Rebuild\<close>, \<open>Picker_Downloads\<close>,
    \<open>Picker_Ops\<close>, \<open>Picker_Invariant\<close>, \<open>Picker_Pieces\<close>, \<open>Picker_Blocks\<close>, \<open>Picker_Pick\<close>,
    \<open>Picker_Run\<close>, \<open>Picker_Claims\<close>, \<open>Pick_Claims\<close> (\<open>piece_picker.cpp\<close>, \<open>piece_picker.hpp\<close>): the
    piece picker. \<open>Picker_Data\<close> has the state (record \<open>piece_picker\<close>, with the bit fields of a piece
    and the block storage that the download queue shares) and \<open>check_invariant\<close>, the test of the
    debug build. \<open>Bucket_Layout\<close> is the abstract array of pickable pieces in buckets of equal
    priority, \<open>Picker_Buckets\<close> the moves between buckets, \<open>Picker_Rebuild\<close> the rebuilding of the
    array, \<open>Picker_Downloads\<close> the download queue, \<open>Picker_Ops\<close> the other methods, each one
    definition with the random numbers it draws as arguments. The locale \<open>bucket_file\<close> of
    \<open>Picker_Invariant\<close> is what the methods rely on of the array, and \<open>bucket\<close> its interpretation
    for the code. \<open>Picker_Pick\<close> is \<open>pick_pieces\<close>. \<open>Picker_Run\<close> has the step relation
    \<open>picker_step\<close> of all methods and the reachable states. C1 is the invariant, for pieces of
    fewer than \<open>2^15\<close> blocks (the counters of a piece are \<open>int16\<close>, and \<open>requested_counter_wraps\<close> is a larger one), C8 and C7 the order of the array and its equality
    with a rebuilt one; C11 to C13 (and \<open>mark_as_writing_refines\<close>,
    \<open>write_failed_refines\<close>, \<open>restore_piece_refines\<close>) say what the methods do
    to the blocks of a piece, as refinements of updates of a list of blocks; C6,
    C3 and C5 that \<open>pick_pieces\<close> returns, picks only blocks that may
    be picked, and all there are if it has not found enough; \<open>filtered_piece_picked\<close> that it may pick
    from a filtered piece. \<open>Pick_Claims\<close> also has theorems on the number of blocks that are picked,
    the sparse regions and the distributed copies.
  \<^item> \<open>File_Storage\<close> (\<open>file_storage.cpp\<close>): C23 and C24 are the mapping
    between pieces and bytes of files in both directions, C25 the reordering with padding
    files.
  \<^item> \<open>Peer_Requests\<close>, \<open>Peer_Messages\<close>, \<open>Piece_Outcome\<close> (\<open>peer_connection.cpp\<close>, \<open>policy.cpp\<close>,
    \<open>torrent.cpp\<close>, \<open>bt_peer_connection.cpp\<close>): the connections. \<open>Peer_Requests\<close> has the record
    \<open>connection\<close> with its queues of requests and every handler that changes them, on the picker of
    the torrent and the connection; \<open>Peer_Messages\<close> the handlers of the messages that announce pieces;
    \<open>Piece_Outcome\<close> what the torrent does with a piece that was hashed, with the record \<open>peer_info\<close>
    of a peer. A torrent is the picker, the connections by address of the peer, and the records of the
    peers.
  \<^item> \<open>Request_Invariant\<close>, \<open>Request_Handlers\<close>, \<open>Message_Handlers\<close>, \<open>Request_Swarm\<close>, \<open>Swarm_Outcome\<close>,
    \<open>Critical_Requests\<close>, \<open>Swarm_Run\<close>, \<open>Swarm_Claims\<close>: the invariant of a connection and of a torrent, that every handler
    keeps it, and the step relation \<open>torrent_step\<close> of all of them; \<open>Critical_Requests\<close> has the requests for pieces with a
    deadline (\<open>request_time_critical_pieces\<close>), which are a step while no request is stale. C2 is that the
    picker counts exactly the requests that are in the queues; C19 is about who is banned for a bad
    piece, and C20 says what a piece that was hashed does to the records of all peers; \<open>arrived_block_not_cancelled\<close> and
    \<open>trusted_peer_banned\<close> are about what the code does and does not mean to do, as is the theorem
    \<open>repeated_have_all_leaves_a_seed\<close>; \<open>seed_dont_have_wraps\<close> is a message that takes a count below 0.
  \<^item> \<open>Deadlines\<close>, \<open>Time_Critical\<close> (\<open>torrent.cpp\<close>): the pieces with a deadline, as the player sets them,
    and what is promised of the requests for them. C10 is that the sorted list is a map,
    C9 that the nested loops of \<open>request_time_critical_pieces\<close> end (the fuel
    of \<open>request_piece\<close> is the number of free blocks and of peers, which is enough by this theorem),
    \<open>timed_out_block_asked_twice\<close> the run in which they ask for a block twice.
  \<^item> \<open>Peer_List\<close>, \<open>Peer_List_Invariant\<close>, \<open>Peer_List_Search\<close>, \<open>Peer_List_Claims\<close> (\<open>policy.cpp\<close>): the list
    of the peers a torrent knows. \<open>Peer_List\<close> has the record \<open>peer_list\<close> with its entries and counters and
    every operation on it; the step relation \<open>peer_step\<close> of \<open>Peer_List_Claims\<close> is all of them.
    C17 is the invariant of the debug build, C18 the search for a
    peer to connect to, \<open>rate_limit_forgotten\<close> what becomes of the rate limit of a peer, and
    \<open>erased_peer_read\<close> a search that reads an entry it has erased.
  \<^item> \<open>Slot_Table\<close>, \<open>Slot_Check\<close> (\<open>storage.cpp\<close>): the slots of the storage. \<open>Slot_Table\<close> has the record
    \<open>piece_manager\<close> with its two tables and the contents of the slots, and the operations of a running
    torrent; \<open>Slot_Check\<close> the check of files that are already there and the loading of resume data. What
    is read of the disk is an argument.
  \<^item> \<open>Slot_Invariant\<close>, \<open>Slot_Checked\<close>, \<open>Slot_Run\<close>, \<open>Slot_Claims\<close>: the invariants of the tables when the
    torrent runs and while it is checked. C14 is that the slots are a map from
    pieces to bytes, C16 that the hash is the hash of what is stored,
    C15 that a check ends (the bound is three calls for each piece and one more) and
    finds the pieces it reports; \<open>resume_loses_pieces\<close> and \<open>skipped_slot_lost\<close> are runs that lose a
    piece.
  \<^item> \<open>IP_Filter\<close> (\<open>ip_filter.hpp\<close>, \<open>ip_filter.cpp\<close>): the filters of addresses and ports. The
    locale \<open>address_space\<close> is what the template relies on of a type of addresses, with
    \<open>numbered_space\<close> below it; it is interpreted for ports, IPv4 and IPv6. C34 and
    \<open>port_filter_last_rule\<close> say what a rule does and which rule counts, C37 that the
    export loses nothing.
  \<^item> \<open>Bencode\<close> (\<open>bencode.hpp\<close>, \<open>entry.cpp\<close>): C26 is the round trip, C27
    that the decoder returns on every input and where it reads past the end. The fuel
    \<open>2 * length s + 1\<close> of the decoder is enough by the latter.
  \<^item> \<open>Lazy_Decoder\<close>, \<open>Lazy_Claims\<close> (\<open>lazy_bdecode.cpp\<close>): the decoder that torrent files and messages of
    the network are read with. Its result points into the buffer, so that the accessors take the
    buffer; its stack of pointers is the height of a path of last items, and the width of a pointer is an argument, since
    the sum with a length may wrap around. C28 is the round
    trip with the encoder above, C29 that no input makes it point outside the
    buffer, and that it leaves the buffer only where that sum can wrap around; \<open>length_wraps_pointer\<close>, \<open>truncated_list_decoded\<close>, \<open>length_overflows\<close> and \<open>key_with_leading_zero\<close> are inputs it
    gets wrong.
  \<^item> \<open>Text_Encoding\<close>, \<open>Text_Claims\<close> (\<open>escape_string.cpp\<close>, \<open>parse_url.cpp\<close>), \<open>Magnet_Uri\<close>, \<open>Magnet_Claims\<close>
    (\<open>magnet_uri.cpp\<close>): strings. C31, \<open>hex_round_trip\<close> and \<open>escape_round_trip\<close> are the
    round trips of the encodings, C33 the printing of numbers, C32 the
    parsing of URLs; a magnet link uses them all, C30. \<open>long_name_overflows\<close> is the link
    that does not fit.
  \<^item> \<open>Routing_Table\<close>, \<open>Node_Distance\<close>, \<open>Routing_Invariant\<close>, \<open>Routing_Claims\<close>
    (\<open>kademlia/routing_table.cpp\<close>, \<open>node_entry.hpp\<close>, \<open>node_id.cpp\<close>): the nodes that the distributed hash
    table knows, in 160 buckets by their distance. \<open>distance_exp_log\<close> says what the loops over the bytes of two ids
    compute, C35 is the invariant of the table over all its operations,
    C36 says which nodes a request is answered with. \<open>node_twice\<close> is a run after which a node is
    twice in a bucket, \<open>router_heard_of\<close> one that puts a router node into the table.
  \<^item> \<open>Stream_Plugin\<close> (\<open>stream.cpp\<close>, \<open>concurrentqueue.h\<close>): the plugin in the session that cancels the
    requests of a piece, on the picker and the connections of the theories above; what it relies on of
    a connection is the locale \<open>canceller\<close>, interpreted for \<open>peer_connection::cancel_request\<close>.
    C4 says which requests it cancels, C38 that it empties the queue and handles every
    task in order, with exactly the calls it needs, \<open>cancel_request_null_peer\<close> when it follows a null pointer.
  \<^item> \<open>Player_Session\<close> (\<open>libtorrent.cpp\<close>): the calls with which the player asks for the state of a
    torrent, and the table of torrents. C39 is the search for the first piece
    that is missing, with its cache, \<open>piece_state_reads\<close> the reading of the bit field; C40
    and \<open>registry_deletes_twice\<close> are about the life of the entries of the table when calls fail at the
    same time.

  \<^bold>\<open>Conventions.\<close> A method that changes its object is a function from the old state to the new one,
  together with its result. What a method reads from outside (random numbers, answers of a handle,
  the size of a buffer) is an argument. Errors and exceptions are values; what the language leaves
  undefined (a null pointer that is followed, a read past the end, an overflow) is a value of its
  own, so that a theorem can say when it happens. Integers that can overflow are words or have the
  bound written out; indices the code asserts to be in range are natural numbers. Calls that hold a
  mutex for their whole length are single steps; where a call releases its lock in between, the
  parts are steps of a relation.

  \<^bold>\<open>Not modelled.\<close> The network and disk threads (\<open>session_impl\<close>, the sockets, timers and uploads of
  \<open>torrent\<close> and \<open>peer_connection\<close>, \<open>disk_io_thread\<close>, the files of \<open>storage\<close>), which are asynchronous I/O around the
  parts above; trackers, the messages and searches of the DHT, UPnP, NAT-PMP and the HTTP and proxy code; the bandwidth manager; zlib, ConvertUTF and other code that is only
  bundled; the settings, status texts and log output of the JNI layer.
\<close>

end
